(* ===== verification/Mos_Prelude.thy ===== *)
theory Mos_Prelude
  imports Main "HOL-Library.Word"
begin

text \<open>
  Shared vocabulary of the development: the fixed-width integers of the target, the outcome type
  that makes kernel panics and C undefined behaviour explicit, the error codes of
  \<open>include/error.h\<close>, the memory-layout constants and address macros of \<open>include/mmu.h\<close> and
  \<open>include/types.h\<close>, and the generic lemmas on words, lists and outcomes that the component
  theories rely on.
\<close>

unbundle bit_operations_syntax

section \<open>Machine types and outcomes\<close>

type_synonym u8 = "8 word"
type_synonym u16 = "16 word"
type_synonym u32 = "32 word"

text \<open>
  What running a piece of C can end in: a value, a call of \<open>panic\<close> (or \<open>user_panic\<close>, or a failed
  \<open>assert\<close>) with the message it prints first, or behaviour the C program does not define (a write
  through a null or stale link, an access outside an array).
\<close>

datatype 'a outcome = Ret 'a | Panic string | Undef

primrec obind :: "'a outcome \<Rightarrow> ('a \<Rightarrow> 'b outcome) \<Rightarrow> 'b outcome" where
  "obind (Ret x) f = f x"
| "obind (Panic m) f = Panic m"
| "obind Undef f = Undef"

definition guard_panic :: "bool \<Rightarrow> string \<Rightarrow> unit outcome" where
  "guard_panic ok m = (if ok then Ret () else Panic m)"

named_theorems outcome_simps \<open>rewriting of outcome computations\<close>

lemma obind_assoc [simp]: "obind (obind m f) g = obind m (\<lambda>x. obind (f x) g)"
  by (cases m) simp_all

lemma obind_Ret_right [simp]: "obind m Ret = m"
  by (cases m) simp_all

lemma obind_eq_Ret [outcome_simps]:
  "obind m f = Ret y \<longleftrightarrow> (\<exists>x. m = Ret x \<and> f x = Ret y)"
  by (cases m) simp_all

lemma obind_cong [fundef_cong, cong]:
  "m = m' \<Longrightarrow> (\<And>x. m' = Ret x \<Longrightarrow> f x = f' x) \<Longrightarrow> obind m f = obind m' f'"
  by (cases m') simp_all

lemma obind_split:
  "P (obind m f) \<longleftrightarrow>
     (\<forall>x. m = Ret x \<longrightarrow> P (f x)) \<and> (\<forall>msg. m = Panic msg \<longrightarrow> P (Panic msg)) \<and> (m = Undef \<longrightarrow> P Undef)"
  by (cases m) simp_all

lemma guard_panic_Ret [outcome_simps]: "guard_panic ok m = Ret x \<longleftrightarrow> ok"
  by (simp add: guard_panic_def)

lemma guard_panic_True [simp]: "guard_panic True m = Ret ()"
  by (simp add: guard_panic_def)

lemma guard_panic_False [simp]: "guard_panic False m = Panic m"
  by (simp add: guard_panic_def)

text \<open>Whether a computation returns a value satisfying a predicate (total correctness).\<close>

primrec returns :: "('a \<Rightarrow> bool) \<Rightarrow> 'a outcome \<Rightarrow> bool" where
  "returns P (Ret x) = P x"
| "returns P (Panic m) = False"
| "returns P Undef = False"

lemma returns_obind:
  "returns Q (obind m f) \<longleftrightarrow> returns (\<lambda>x. returns Q (f x)) m"
  by (cases m) simp_all

lemma returns_mono: "returns P m \<Longrightarrow> (\<And>x. P x \<Longrightarrow> Q x) \<Longrightarrow> returns Q m"
  by (cases m) simp_all

lemma returns_mono2:
  "returns (\<lambda>(r, s). P r s) m \<Longrightarrow> (\<And>r s. P r s \<Longrightarrow> Q r s) \<Longrightarrow> returns (\<lambda>(r, s). Q r s) m"
  by (cases m) auto

lemma returns_iff: "returns P m \<longleftrightarrow> (\<exists>x. m = Ret x \<and> P x)"
  by (cases m) simp_all

text \<open>A \<open>for\<close> loop over the elements of a list that threads a state.\<close>

fun ofold :: "('b \<Rightarrow> 's \<Rightarrow> 's outcome) \<Rightarrow> 'b list \<Rightarrow> 's \<Rightarrow> 's outcome" where
  "ofold f [] s = Ret s"
| "ofold f (x # xs) s = obind (f x s) (ofold f xs)"

lemma ofold_append: "ofold f (xs @ ys) s = obind (ofold f xs s) (ofold f ys)"
  by (induction xs arbitrary: s) (auto cong: obind_cong)

lemma ofold_inv:
  assumes "P s" and "\<And>x s. x \<in> set xs \<Longrightarrow> P s \<Longrightarrow> returns P (f x s)"
  shows "returns P (ofold f xs s)"
  using assms
proof (induction xs arbitrary: s)
  case (Cons x xs)
  from Cons.prems have "returns P (f x s)" by simp
  then obtain s1 where "f x s = Ret s1" "P s1" by (auto simp: returns_iff)
  with Cons show ?case by simp
qed simp

section \<open>Error codes (include/error.h)\<close>

datatype error =
    E_UNSPECIFIED | E_BAD_ENV | E_INVAL | E_NO_MEM | E_NO_SYS | E_NO_FREE_ENV | E_IPC_NOT_RECV
  | E_NO_DISK | E_MAX_OPEN | E_NOT_FOUND | E_BAD_PATH | E_FILE_EXISTS | E_NOT_EXEC

fun errno :: "error \<Rightarrow> int" where
  "errno E_UNSPECIFIED = 1"
| "errno E_BAD_ENV = 2"
| "errno E_INVAL = 3"
| "errno E_NO_MEM = 4"
| "errno E_NO_SYS = 5"
| "errno E_NO_FREE_ENV = 6"
| "errno E_IPC_NOT_RECV = 7"
| "errno E_NO_DISK = 8"
| "errno E_MAX_OPEN = 9"
| "errno E_NOT_FOUND = 10"
| "errno E_BAD_PATH = 11"
| "errno E_FILE_EXISTS = 12"
| "errno E_NOT_EXEC = 13"

lemma errno_inj: "errno a = errno b \<Longrightarrow> a = b"
  by (cases a; cases b; simp)

lemma errno_pos: "0 < errno e"
  by (cases e) simp_all

text \<open>
  The macro \<open>try(expr)\<close>: evaluate, and return the error to the caller of the enclosing function if
  the call failed. A fallible operation returns \<open>Inl e\<close> for the C result \<open>-e\<close> and \<open>Inr v\<close> for 0
  together with the out-parameters \<open>v\<close>, and the state it leaves.
\<close>

definition otry ::
  "(('e + 'a) \<times> 's) outcome \<Rightarrow> ('a \<Rightarrow> 's \<Rightarrow> (('e + 'b) \<times> 's) outcome) \<Rightarrow> (('e + 'b) \<times> 's) outcome" where
  "otry m f = obind m (\<lambda>(r, s). case r of Inl e \<Rightarrow> Ret (Inl e, s) | Inr v \<Rightarrow> f v s)"

lemma otry_Ret [simp]:
  "otry (Ret (Inl e, s)) f = Ret (Inl e, s)"
  "otry (Ret (Inr v, s)) f = f v s"
  "otry (Panic m) f = Panic m"
  "otry Undef f = Undef"
  by (simp_all add: otry_def)

lemma otry_eq_Ret [outcome_simps]:
  "otry m f = Ret (r, s') \<longleftrightarrow>
     (\<exists>e s. m = Ret (Inl e, s) \<and> r = Inl e \<and> s' = s) \<or> (\<exists>v s. m = Ret (Inr v, s) \<and> f v s = Ret (r, s'))"
proof (cases m)
  case (Ret p)
  obtain x s where "p = (x, s)" by (cases p)
  with Ret show ?thesis by (cases x) auto
qed simp_all

lemma otry_cong [fundef_cong, cong]:
  "m = m' \<Longrightarrow> (\<And>v s. m' = Ret (Inr v, s) \<Longrightarrow> f v s = f' v s) \<Longrightarrow> otry m f = otry m' f'"
proof (cases m')
  case (Ret p)
  assume "m = m'" and "\<And>v s. m' = Ret (Inr v, s) \<Longrightarrow> f v s = f' v s"
  with Ret show ?thesis by (cases p; cases "fst p") auto
qed simp_all

section \<open>Layout constants (include/mmu.h)\<close>

abbreviation (input) BY2PG :: u32 where "BY2PG \<equiv> 4096"
abbreviation (input) PDMAP :: u32 where "PDMAP \<equiv> 0x400000"
abbreviation (input) PGSHIFT :: nat where "PGSHIFT \<equiv> 12"
abbreviation (input) PDSHIFT :: nat where "PDSHIFT \<equiv> 22"

abbreviation (input) PTE_G :: u32 where "PTE_G \<equiv> 0x0100"
abbreviation (input) PTE_V :: u32 where "PTE_V \<equiv> 0x0200"
abbreviation (input) PTE_D :: u32 where "PTE_D \<equiv> 0x0400"
abbreviation (input) PTE_N :: u32 where "PTE_N \<equiv> 0x0800"
abbreviation (input) PTE_COW :: u32 where "PTE_COW \<equiv> 0x0001"
abbreviation (input) PTE_LIBRARY :: u32 where "PTE_LIBRARY \<equiv> 0x0004"

abbreviation (input) KSEG0 :: u32 where "KSEG0 \<equiv> 0x80000000"
abbreviation (input) KSEG1 :: u32 where "KSEG1 \<equiv> 0xA0000000"
abbreviation (input) ULIM :: u32 where "ULIM \<equiv> 0x80000000"
abbreviation (input) KSTACKTOP :: u32 where "KSTACKTOP \<equiv> ULIM + PDMAP"
abbreviation (input) UVPT :: u32 where "UVPT \<equiv> 0x7FC00000"
abbreviation (input) UPAGES :: u32 where "UPAGES \<equiv> 0x7F800000"
abbreviation (input) UENVS :: u32 where "UENVS \<equiv> 0x7F400000"
abbreviation (input) UTOP :: u32 where "UTOP \<equiv> 0x7F400000"
abbreviation (input) UXSTACKTOP :: u32 where "UXSTACKTOP \<equiv> 0x7F400000"
abbreviation (input) USTACKTOP :: u32 where "USTACKTOP \<equiv> 0x7F3FE000"
abbreviation (input) UTEXT :: u32 where "UTEXT \<equiv> 0x400000"
abbreviation (input) UCOW :: u32 where "UCOW \<equiv> 0x3FF000"
abbreviation (input) UTEMP :: u32 where "UTEMP \<equiv> 0x3FE000"

lemma layout_sane:
  "UVPT = ULIM - PDMAP" "UPAGES = UVPT - PDMAP" "UENVS = UPAGES - PDMAP"
  "USTACKTOP = UTOP - 2 * BY2PG" "UCOW = UTEXT - BY2PG" "UTEMP = UCOW - BY2PG"
  by simp_all

section \<open>Address macros (include/mmu.h, include/types.h)\<close>

definition PDX :: "u32 \<Rightarrow> nat" where
  "PDX va = unat (drop_bit 22 va AND 0x03FF)"

definition PTX :: "u32 \<Rightarrow> nat" where
  "PTX va = unat (drop_bit 12 va AND 0x03FF)"

definition PTE_ADDR :: "u32 \<Rightarrow> u32" where
  "PTE_ADDR pte = pte AND NOT 0xFFF"

definition PPN :: "u32 \<Rightarrow> nat" where
  "PPN va = unat (drop_bit 12 va)"

abbreviation VPN :: "u32 \<Rightarrow> nat" where
  "VPN va \<equiv> PPN va"

definition ROUND :: "u32 \<Rightarrow> u32 \<Rightarrow> u32" where
  "ROUND a n = (a + n - 1) AND NOT (n - 1)"

definition ROUNDDOWN :: "u32 \<Rightarrow> u32 \<Rightarrow> u32" where
  "ROUNDDOWN a n = a AND NOT (n - 1)"

definition PADDR :: "u32 \<Rightarrow> u32 outcome" where
  "PADDR kva = (if kva < ULIM then Panic ''PADDR called with invalid kva'' else Ret (kva - ULIM))"

abbreviation pte_valid :: "u32 \<Rightarrow> bool" where
  "pte_valid e \<equiv> e AND PTE_V \<noteq> 0"

section \<open>Lemmas on addresses\<close>

lemma mask_0xFFF: "(0xFFF :: u32) = mask 12" by (simp add: mask_eq_exp_minus_1)
lemma mask_0x3FF: "(0x3FF :: u32) = mask 10" by (simp add: mask_eq_exp_minus_1)

lemma unat_u32_less: "unat (x :: u32) < 2 ^ 32"
  using unsigned_less[of x, where ?'a = nat] by simp

lemma unat_of_small: "n < 2 ^ 32 \<Longrightarrow> unat (of_nat n :: u32) = n"
  by (simp add: unsigned_of_nat take_bit_nat_eq_self)

lemma PDX_eq: "PDX va = unat va div 2 ^ 22 mod 2 ^ 10"
  by (simp only: PDX_def mask_0x3FF unsigned_take_bit_eq unat_drop_bit_eq flip: take_bit_eq_mask)
     (simp only: take_bit_eq_mod drop_bit_eq_div)

lemma PTX_eq: "PTX va = unat va div 2 ^ 12 mod 2 ^ 10"
  by (simp only: PTX_def mask_0x3FF unsigned_take_bit_eq unat_drop_bit_eq flip: take_bit_eq_mask)
     (simp only: take_bit_eq_mod drop_bit_eq_div)

lemma PPN_eq: "PPN va = unat va div 2 ^ 12"
  by (simp only: PPN_def unat_drop_bit_eq) (simp only: drop_bit_eq_div)

lemma PDX_less [simp]: "PDX va < 1024"
  by (simp add: PDX_eq)

lemma PTX_less [simp]: "PTX va < 1024"
  by (simp add: PTX_eq)

lemma PPN_less [simp]: "PPN va < 1048576"
  using unat_u32_less[of va] by (simp add: PPN_eq less_mult_imp_div_less)

lemma PDX_VPN: "PDX va = VPN va div 1024"
  using unat_u32_less[of va] by (simp add: PDX_eq PPN_eq div_mult2_eq[symmetric])

lemma PTX_VPN: "PTX va = VPN va mod 1024"
  by (simp add: PTX_eq PPN_eq)

lemma VPN_split: "VPN va = PDX va * 1024 + PTX va"
  by (simp add: PDX_VPN PTX_VPN)

lemma VPN_eq_iff: "VPN a = VPN b \<longleftrightarrow> PDX a = PDX b \<and> PTX a = PTX b"
  by (metis PDX_VPN PTX_VPN VPN_split)

lemma PTE_ADDR_eq: "PTE_ADDR e = push_bit 12 (drop_bit 12 e)"
  by (rule bit_word_eqI) (auto simp: PTE_ADDR_def mask_0xFFF bit_simps)

lemma unat_PTE_ADDR: "unat (PTE_ADDR e) = PPN e * 4096"
proof -
  have "PPN e * 4096 < 2 ^ 32" using PPN_less[of e] by simp
  then show ?thesis
    by (simp add: PTE_ADDR_eq push_bit_eq_mult unat_word_ariths PPN_def)
qed

lemma PPN_PTE_ADDR [simp]: "PPN (PTE_ADDR e) = PPN e"
  by (simp add: PPN_eq[of "PTE_ADDR e"] unat_PTE_ADDR)

lemma PDX_PTE_ADDR [simp]: "PDX (PTE_ADDR va) = PDX va"
  by (simp add: PDX_VPN)

lemma PTX_PTE_ADDR [simp]: "PTX (PTE_ADDR va) = PTX va"
  by (simp add: PTX_VPN)

lemma PPN_or [simp]: "y < 4096 \<Longrightarrow> PPN (x OR y) = PPN x"
proof -
  assume "y < 4096"
  then have "drop_bit 12 y = 0" by (simp add: drop_bit_eq_div div_word_less)
  then show ?thesis by (simp add: PPN_def)
qed

lemma or_less_4096 [simp]: "a < (4096::u32) \<Longrightarrow> b < 4096 \<Longrightarrow> a OR b < 4096"
proof -
  assume "a < 4096" "b < 4096"
  then have "take_bit 12 a = a" "take_bit 12 b = b"
    by (simp_all add: word_unat_eq_iff unsigned_take_bit_eq take_bit_nat_eq_self word_less_nat_alt)
  then have "take_bit 12 (a OR b) = a OR b" by simp
  moreover have "unat (take_bit 12 (a OR b)) < 2 ^ 12"
    by (simp only: unsigned_take_bit_eq take_bit_nat_less_exp)
  ultimately show ?thesis by (simp add: word_less_nat_alt)
qed

lemma or_PTE_V [simp]: "pte_valid (x OR PTE_V)" "pte_valid (PTE_V OR x)"
proof -
  have "(x OR PTE_V) AND PTE_V = PTE_V" by (simp add: bit.conj_disj_distrib2 word_bw_comms word_ao_absorbs)
  then show "pte_valid (x OR PTE_V)" by simp
  then show "pte_valid (PTE_V OR x)" by (simp add: or.commute)
qed

end
