(* ===== verification/Mos_Queue.thy ===== *)
theory Mos_Queue
  imports Mos_Prelude
begin

text \<open>
  The intrusive doubly linked lists and tail queues of \<open>include/queue.h\<close>, at the level of the
  macros: each element carries a \<open>next\<close> link and a back link that is the address of the pointer
  pointing at it. An address of such a pointer is a \<open>slot\<close>: the list head's own field or the
  \<open>next\<close> field of an element. A back link of \<open>None\<close> is a null back link; writing through it is
  undefined behaviour. The second half gives the list-level view of the operations that the kernel
  theories use and the interface (a locale) that both levels satisfy.
\<close>

section \<open>Lists: LIST_HEAD, LIST_ENTRY\<close>

datatype 'a slot = Head | Next 'a

record 'a list_heap =
  lh_first :: "'a option"
  le_next :: "'a \<Rightarrow> 'a option"
  le_prev :: "'a \<Rightarrow> 'a slot option"

definition LIST_INIT :: "'a list_heap \<Rightarrow> 'a list_heap" where
  "LIST_INIT h = h\<lparr>lh_first := None\<rparr>"

definition list_put :: "'a slot \<Rightarrow> 'a option \<Rightarrow> 'a list_heap \<Rightarrow> 'a list_heap" where
  "list_put sl v h =
     (case sl of Head \<Rightarrow> h\<lparr>lh_first := v\<rparr> | Next x \<Rightarrow> h\<lparr>le_next := (le_next h)(x := v)\<rparr>)"

definition set_le_prev :: "'a \<Rightarrow> 'a slot option \<Rightarrow> 'a list_heap \<Rightarrow> 'a list_heap" where
  "set_le_prev x sl h = h\<lparr>le_prev := (le_prev h)(x := sl)\<rparr>"

definition LIST_INSERT_HEAD :: "'a \<Rightarrow> 'a list_heap \<Rightarrow> 'a list_heap" where
  "LIST_INSERT_HEAD elm h =
     (let h = h\<lparr>le_next := (le_next h)(elm := lh_first h)\<rparr>;
          h = (case le_next h elm of
                 Some f \<Rightarrow> set_le_prev f (Some (Next elm)) h
               | None \<Rightarrow> h);
          h = h\<lparr>lh_first := Some elm\<rparr>
      in set_le_prev elm (Some Head) h)"

definition LIST_INSERT_AFTER :: "'a \<Rightarrow> 'a \<Rightarrow> 'a list_heap \<Rightarrow> 'a list_heap outcome" where
  "LIST_INSERT_AFTER listelm elm h =
     (let h = set_le_prev elm (Some (Next listelm)) h;
          h = h\<lparr>le_next := (le_next h)(elm := le_next h listelm)\<rparr>;
          h = h\<lparr>le_next := (le_next h)(listelm := Some elm)\<rparr>
      in case le_next h elm of
           None \<Rightarrow> Undef
         | Some n \<Rightarrow> Ret (set_le_prev n (Some (Next elm)) h))"

definition LIST_INSERT_BEFORE :: "'a \<Rightarrow> 'a \<Rightarrow> 'a list_heap \<Rightarrow> 'a list_heap outcome" where
  "LIST_INSERT_BEFORE listelm elm h =
     (let h = set_le_prev elm (le_prev h listelm) h;
          h = h\<lparr>le_next := (le_next h)(elm := Some listelm)\<rparr>
      in case le_prev h listelm of
           None \<Rightarrow> Undef
         | Some sl \<Rightarrow> Ret (set_le_prev listelm (Some (Next elm)) (list_put sl (Some elm) h)))"

definition LIST_REMOVE :: "'a \<Rightarrow> 'a list_heap \<Rightarrow> 'a list_heap outcome" where
  "LIST_REMOVE elm h =
     (let h = (case le_next h elm of
                 Some n \<Rightarrow> set_le_prev n (le_prev h elm) h
               | None \<Rightarrow> h)
      in case le_prev h elm of
           None \<Rightarrow> Undef
         | Some sl \<Rightarrow> Ret (list_put sl (le_next h elm) h))"

section \<open>Tail queues: TAILQ_HEAD, TAILQ_ENTRY\<close>

record 'a tailq_heap =
  tqh_first :: "'a option"
  tqh_last :: "'a slot"
  tqe_next :: "'a \<Rightarrow> 'a option"
  tqe_prev :: "'a \<Rightarrow> 'a slot option"

definition TAILQ_INIT :: "'a tailq_heap \<Rightarrow> 'a tailq_heap" where
  "TAILQ_INIT h = h\<lparr>tqh_first := None, tqh_last := Head\<rparr>"

definition tailq_put :: "'a slot \<Rightarrow> 'a option \<Rightarrow> 'a tailq_heap \<Rightarrow> 'a tailq_heap" where
  "tailq_put sl v h =
     (case sl of Head \<Rightarrow> h\<lparr>tqh_first := v\<rparr> | Next x \<Rightarrow> h\<lparr>tqe_next := (tqe_next h)(x := v)\<rparr>)"

definition set_tqe_prev :: "'a \<Rightarrow> 'a slot option \<Rightarrow> 'a tailq_heap \<Rightarrow> 'a tailq_heap" where
  "set_tqe_prev x sl h = h\<lparr>tqe_prev := (tqe_prev h)(x := sl)\<rparr>"

definition TAILQ_INSERT_HEAD :: "'a \<Rightarrow> 'a tailq_heap \<Rightarrow> 'a tailq_heap" where
  "TAILQ_INSERT_HEAD elm h =
     (let h = h\<lparr>tqe_next := (tqe_next h)(elm := tqh_first h)\<rparr>;
          h = (case tqe_next h elm of
                 Some f \<Rightarrow> set_tqe_prev f (Some (Next elm)) h
               | None \<Rightarrow> h\<lparr>tqh_last := Next elm\<rparr>);
          h = h\<lparr>tqh_first := Some elm\<rparr>
      in set_tqe_prev elm (Some Head) h)"

definition TAILQ_INSERT_TAIL :: "'a \<Rightarrow> 'a tailq_heap \<Rightarrow> 'a tailq_heap" where
  "TAILQ_INSERT_TAIL elm h =
     (let h = h\<lparr>tqe_next := (tqe_next h)(elm := None)\<rparr>;
          h = set_tqe_prev elm (Some (tqh_last h)) h;
          h = tailq_put (tqh_last h) (Some elm) h
      in h\<lparr>tqh_last := Next elm\<rparr>)"

definition TAILQ_REMOVE :: "'a \<Rightarrow> 'a tailq_heap \<Rightarrow> 'a tailq_heap outcome" where
  "TAILQ_REMOVE elm h =
     (case tqe_prev h elm of
        None \<Rightarrow> Undef
      | Some sl \<Rightarrow>
          (let h = (case tqe_next h elm of
                      Some n \<Rightarrow> set_tqe_prev n (Some sl) h
                    | None \<Rightarrow> h\<lparr>tqh_last := sl\<rparr>)
           in Ret (tailq_put sl (tqe_next h elm) h)))"

text \<open>
  In \<open>TAILQ_REMOVE\<close> a null back link is copied before it is written through, so the whole macro is
  undefined in that case, as in the model. The access macros:
\<close>

definition TAILQ_EMPTY :: "'a tailq_heap \<Rightarrow> bool" where
  "TAILQ_EMPTY h \<longleftrightarrow> tqh_first h = None"

definition TAILQ_FIRST :: "'a tailq_heap \<Rightarrow> 'a option" where
  "TAILQ_FIRST h = tqh_first h"

section \<open>The list a heap represents\<close>

fun linked :: "('a \<Rightarrow> 'a option) \<Rightarrow> ('a \<Rightarrow> 'a slot option) \<Rightarrow> 'a slot \<Rightarrow> 'a option \<Rightarrow> 'a list \<Rightarrow> bool" where
  "linked nx pv sl p [] \<longleftrightarrow> p = None"
| "linked nx pv sl p (x # xs) \<longleftrightarrow> p = Some x \<and> pv x = Some sl \<and> linked nx pv (Next x) (nx x) xs"

definition end_slot :: "'a list \<Rightarrow> 'a slot" where
  "end_slot xs = (if xs = [] then Head else Next (last xs))"

definition list_rep :: "'a list_heap \<Rightarrow> 'a list \<Rightarrow> bool" where
  "list_rep h xs \<longleftrightarrow> distinct xs \<and> linked (le_next h) (le_prev h) Head (lh_first h) xs"

definition tailq_rep :: "'a tailq_heap \<Rightarrow> 'a list \<Rightarrow> bool" where
  "tailq_rep h xs \<longleftrightarrow>
     distinct xs \<and> linked (tqe_next h) (tqe_prev h) Head (tqh_first h) xs \<and> tqh_last h = end_slot xs"

lemma linked_cong:
  "(\<And>x. x \<in> set xs \<Longrightarrow> nx x = nx' x) \<Longrightarrow> (\<And>x. x \<in> set xs \<Longrightarrow> pv x = pv' x) \<Longrightarrow>
   linked nx pv sl p xs = linked nx' pv' sl p xs"
  by (induction xs arbitrary: sl p) auto

lemma linked_upd_next [simp]:
  "y \<notin> set xs \<Longrightarrow> linked (nx(y := v)) pv sl p xs = linked nx pv sl p xs"
  by (rule linked_cong) auto

lemma linked_upd_prev [simp]:
  "y \<notin> set xs \<Longrightarrow> linked nx (pv(y := v)) sl p xs = linked nx pv sl p xs"
  by (rule linked_cong) auto

text \<open>
  Splitting a represented list at an element: the part before it ends in the slot that the
  element's back link names.
\<close>

fun pre_linked :: "('a \<Rightarrow> 'a option) \<Rightarrow> ('a \<Rightarrow> 'a slot option) \<Rightarrow> 'a slot \<Rightarrow> 'a option \<Rightarrow> 'a list \<Rightarrow>
    'a slot \<Rightarrow> 'a option \<Rightarrow> bool" where
  "pre_linked nx pv sl p [] sl' p' \<longleftrightarrow> sl = sl' \<and> p = p'"
| "pre_linked nx pv sl p (x # xs) sl' p' \<longleftrightarrow>
     p = Some x \<and> pv x = Some sl \<and> pre_linked nx pv (Next x) (nx x) xs sl' p'"

lemma linked_append:
  "linked nx pv sl p (xs @ ys) \<longleftrightarrow> (\<exists>sl' p'. pre_linked nx pv sl p xs sl' p' \<and> linked nx pv sl' p' ys)"
  by (induction xs arbitrary: sl p) auto

lemma pre_linked_cong:
  "(\<And>x. x \<in> set xs \<Longrightarrow> nx x = nx' x) \<Longrightarrow> (\<And>x. x \<in> set xs \<Longrightarrow> pv x = pv' x) \<Longrightarrow>
   pre_linked nx pv sl p xs sl' p' = pre_linked nx' pv' sl p xs sl' p'"
  by (induction xs arbitrary: sl p) auto

lemma pre_linked_end:
  "pre_linked nx pv sl p xs sl' p' \<Longrightarrow> xs \<noteq> [] \<Longrightarrow> sl' = Next (last xs) \<and> nx (last xs) = p'"
proof (induction xs arbitrary: sl p)
  case (Cons x xs)
  then show ?case by (cases xs) auto
qed simp

lemma pre_linked_upd_prev [simp]:
  "y \<notin> set xs \<Longrightarrow> pre_linked nx (pv(y := v)) sl p xs sl' p' = pre_linked nx pv sl p xs sl' p'"
  by (rule pre_linked_cong) auto

lemma pre_linked_upd_next [simp]:
  "y \<notin> set xs \<Longrightarrow> pre_linked (nx(y := v)) pv sl p xs sl' p' = pre_linked nx pv sl p xs sl' p'"
  by (rule pre_linked_cong) auto

text \<open>Redirecting the slot at the end of a prefix changes what the prefix leads to.\<close>

lemma pre_linked_redirect:
  "pre_linked nx pv sl p xs sl' p' \<Longrightarrow> distinct xs \<Longrightarrow> xs \<noteq> [] \<Longrightarrow>
   pre_linked (nx(last xs := q)) pv sl p xs sl' q"
proof (induction xs arbitrary: sl p)
  case (Cons x xs)
  show ?case
  proof (cases xs)
    case Nil
    with Cons.prems show ?thesis by auto
  next
    case (Cons y ys)
    with Cons.prems have "x \<noteq> last xs" and "pre_linked nx pv (Next x) (nx x) xs sl' p'"
      by auto
    with Cons.IH Cons.prems Cons show ?thesis by auto
  qed
qed simp

lemma end_slot_simps [simp]:
  "end_slot [] = Head" "end_slot (xs @ [x]) = Next x"
  "end_slot (x # xs) = (if xs = [] then Next x else end_slot xs)"
  by (simp_all add: end_slot_def)


lemma list_put_redirect:
  assumes "pre_linked (le_next h) pv Head (lh_first h) xs sl p" and "distinct xs"
  shows "pre_linked (le_next (list_put sl q h)) pv Head (lh_first (list_put sl q h)) xs sl q"
proof (cases "xs = []")
  case True
  with assms show ?thesis by (auto simp: list_put_def)
next
  case False
  with assms(1) have "sl = Next (last xs)" by (simp add: pre_linked_end)
  with pre_linked_redirect[OF assms False] show ?thesis by (simp add: list_put_def)
qed

lemma list_put_linked:
  assumes "pre_linked nx pv Head p0 xs sl p" and "set xs \<inter> set ys = {}"
  shows "linked (le_next (list_put sl q h)) pv' sl' p' ys = linked (le_next h) pv' sl' p' ys"
proof (cases "xs = []")
  case True
  with assms(1) show ?thesis by (auto simp: list_put_def)
next
  case False
  with assms(1) have "sl = Next (last xs)" by (simp add: pre_linked_end)
  moreover have "last xs \<notin> set ys" using assms(2) False last_in_set by blast
  ultimately show ?thesis by (simp add: list_put_def)
qed

lemma list_put_prev [simp]: "le_prev (list_put sl q h) = le_prev h"
  by (simp add: list_put_def split: slot.split)

lemma list_rep_insert_head:
  assumes "list_rep h xs" and "x \<notin> set xs"
  shows "list_rep (LIST_INSERT_HEAD x h) (x # xs)"
proof (cases xs)
  case Nil
  with assms show ?thesis by (simp add: list_rep_def LIST_INSERT_HEAD_def set_le_prev_def)
next
  case (Cons y ys)
  with assms show ?thesis by (auto simp: list_rep_def LIST_INSERT_HEAD_def set_le_prev_def)
qed

lemma list_rep_split:
  assumes "list_rep h zs" and "x \<in> set zs"
  obtains xs ys sl where "zs = xs @ x # ys" and "x \<notin> set xs" and "x \<notin> set ys"
    and "set xs \<inter> set ys = {}" and "distinct xs" and "distinct ys"
    and "pre_linked (le_next h) (le_prev h) Head (lh_first h) xs sl (Some x)"
    and "le_prev h x = Some sl" and "linked (le_next h) (le_prev h) (Next x) (le_next h x) ys"
  using assms that by (fastforce simp: list_rep_def in_set_conv_decomp linked_append)

text \<open>Removing an element: its neighbours are linked to each other.\<close>

lemma list_rep_remove:
  assumes "list_rep h zs" and "x \<in> set zs"
  shows "returns (\<lambda>h'. list_rep h' (remove1 x zs)) (LIST_REMOVE x h)"
proof -
  obtain xs ys sl where zs: "zs = xs @ x # ys" "x \<notin> set xs" "x \<notin> set ys" "set xs \<inter> set ys = {}"
      "distinct xs" "distinct ys"
    and pre: "pre_linked (le_next h) (le_prev h) Head (lh_first h) xs sl (Some x)"
    and x: "le_prev h x = Some sl" and post: "linked (le_next h) (le_prev h) (Next x) (le_next h x) ys"
    by (rule list_rep_split[OF assms])
  note redirect = list_put_redirect[OF pre zs(5), of "le_next h x"]
  show ?thesis
  proof (cases ys)
    case Nil
    with post have "le_next h x = None" by simp
    with redirect have "linked (le_next (list_put sl None h)) (le_prev h) Head
        (lh_first (list_put sl None h)) (xs @ [])"
      unfolding linked_append by auto
    with Nil x \<open>le_next h x = None\<close> zs show ?thesis
      by (simp add: LIST_REMOVE_def remove1_append list_rep_def)
  next
    case (Cons y ys')
    define h1 where "h1 = set_le_prev y (Some sl) h"
    have "le_next h x = Some y" using post Cons by simp
    moreover have y: "y \<notin> set xs" "x \<noteq> y" "y \<notin> set ys'" using zs Cons by auto
    ultimately have rem: "LIST_REMOVE x h = Ret (list_put sl (Some y) h1)"
      using x by (simp add: LIST_REMOVE_def h1_def set_le_prev_def)
    have pre1: "pre_linked (le_next h1) (le_prev h1) Head (lh_first h1) xs sl (Some x)"
      using pre y by (simp add: h1_def set_le_prev_def)
    have post1: "linked (le_next h1) (le_prev h1) sl (Some y) ys"
      using post Cons y by (simp add: h1_def set_le_prev_def)
    have "pre_linked (le_next (list_put sl (Some y) h1)) (le_prev h1) Head
        (lh_first (list_put sl (Some y) h1)) xs sl (Some y)"
      by (rule list_put_redirect[OF pre1 zs(5)])
    moreover have "linked (le_next (list_put sl (Some y) h1)) (le_prev h1) sl (Some y) ys"
      using list_put_linked[OF pre1 zs(4)] post1 by simp
    ultimately have "linked (le_next (list_put sl (Some y) h1)) (le_prev h1) Head
        (lh_first (list_put sl (Some y) h1)) (xs @ ys)"
      by (auto simp: linked_append)
    then show ?thesis using zs rem by (simp add: list_rep_def remove1_append)
  qed
qed

text \<open>
  Inserting after an element: correct when that element has a successor; undefined (a write
  through the null \<open>next\<close> pointer of the new element) when it is the last one.
\<close>

lemma list_rep_insert_after:
  assumes "list_rep h (xs @ y # z # zs)" and "x \<notin> set (xs @ y # z # zs)"
  shows "returns (\<lambda>h'. list_rep h' (xs @ y # x # z # zs)) (LIST_INSERT_AFTER y x h)"
proof -
  from assms have d: "distinct (xs @ y # z # zs)" by (simp add: list_rep_def)
  from assms obtain sl where pre: "pre_linked (le_next h) (le_prev h) Head (lh_first h) xs sl (Some y)"
    and y: "le_prev h y = Some sl" "le_next h y = Some z" "le_prev h z = Some (Next y)"
    and post: "linked (le_next h) (le_prev h) (Next z) (le_next h z) zs"
    by (auto simp: list_rep_def linked_append)
  from d assms(2) have ne: "x \<noteq> y" "x \<noteq> z" "y \<noteq> z" "x \<notin> set xs" "y \<notin> set xs" "z \<notin> set xs"
    "x \<notin> set zs" "y \<notin> set zs" "z \<notin> set zs" by auto
  have "pre_linked ((le_next h)(x := Some z, y := Some x)) ((le_prev h)(x := Some (Next y), z := Some (Next x)))
      Head (lh_first h) xs sl (Some y)"
    using pre ne by simp
  then show ?thesis using y post ne d
    by (auto simp: LIST_INSERT_AFTER_def set_le_prev_def list_rep_def linked_append)
qed

lemma list_insert_after_last:
  assumes "list_rep h (xs @ [y])" and "x \<notin> set (xs @ [y])"
  shows "LIST_INSERT_AFTER y x h = Undef"
proof -
  have "le_next h y = None" using assms by (auto simp: list_rep_def linked_append)
  with assms(2) show ?thesis by (simp add: LIST_INSERT_AFTER_def set_le_prev_def)
qed

text \<open>The tail queue is a list with a pointer to its last slot.\<close>

definition list_part :: "'a tailq_heap \<Rightarrow> 'a list_heap" where
  "list_part h = \<lparr>lh_first = tqh_first h, le_next = tqe_next h, le_prev = tqe_prev h\<rparr>"

lemma list_part_sel [simp]:
  "lh_first (list_part h) = tqh_first h" "le_next (list_part h) = tqe_next h"
  "le_prev (list_part h) = tqe_prev h"
  by (simp_all add: list_part_def)

lemma tailq_rep_list_part: "tailq_rep h xs \<longleftrightarrow> list_rep (list_part h) xs \<and> tqh_last h = end_slot xs"
  by (auto simp: tailq_rep_def list_rep_def)

lemma tailq_rep_distinct: "tailq_rep h xs \<Longrightarrow> distinct xs"
  by (simp add: tailq_rep_def)

lemma tailq_rep_first: "tailq_rep h xs \<Longrightarrow> TAILQ_FIRST h = (case xs of [] \<Rightarrow> None | x # _ \<Rightarrow> Some x)"
  by (cases xs) (auto simp: tailq_rep_def TAILQ_FIRST_def)

lemma tailq_rep_empty: "tailq_rep h xs \<Longrightarrow> TAILQ_EMPTY h \<longleftrightarrow> xs = []"
  by (cases xs) (auto simp: tailq_rep_def TAILQ_EMPTY_def)

lemma tailq_rep_insert_head:
  assumes "tailq_rep h xs" and "x \<notin> set xs"
  shows "tailq_rep (TAILQ_INSERT_HEAD x h) (x # xs)"
  using assms
  by (cases xs) (auto simp: tailq_rep_def TAILQ_INSERT_HEAD_def set_tqe_prev_def end_slot_def)

lemma list_part_TAILQ_REMOVE:
  "TAILQ_REMOVE x h = Ret h' \<Longrightarrow> tqe_next h x \<noteq> Some x \<Longrightarrow> LIST_REMOVE x (list_part h) = Ret (list_part h')"
  by (auto simp: TAILQ_REMOVE_def LIST_REMOVE_def list_part_def Let_def tailq_put_def list_put_def
      set_tqe_prev_def set_le_prev_def split: option.splits slot.splits)

lemma tailq_last_REMOVE:
  "TAILQ_REMOVE x h = Ret h' \<Longrightarrow> tqe_prev h x = Some sl \<Longrightarrow>
   tqh_last h' = (if tqe_next h x = None then sl else tqh_last h)"
  by (auto simp: TAILQ_REMOVE_def Let_def tailq_put_def set_tqe_prev_def split: option.splits slot.splits)

lemma tailq_rep_remove:
  assumes "tailq_rep h zs" and "x \<in> set zs"
  shows "returns (\<lambda>h'. tailq_rep h' (remove1 x zs)) (TAILQ_REMOVE x h)"
proof -
  from assms have rep: "list_rep (list_part h) zs" and last: "tqh_last h = end_slot zs"
    by (simp_all add: tailq_rep_list_part)
  obtain xs ys sl where zs: "zs = xs @ x # ys" "x \<notin> set xs" "x \<notin> set ys"
    and pre: "pre_linked (tqe_next h) (tqe_prev h) Head (tqh_first h) xs sl (Some x)"
    and x: "tqe_prev h x = Some sl" and post: "linked (tqe_next h) (tqe_prev h) (Next x) (tqe_next h x) ys"
    using list_rep_split[OF rep assms(2)] by auto metis
  have nx: "tqe_next h x = (case ys of [] \<Rightarrow> None | y # _ \<Rightarrow> Some y)" using post by (cases ys) auto
  obtain h' where h': "TAILQ_REMOVE x h = Ret h'" using x by (simp add: TAILQ_REMOVE_def Let_def)
  have "tqe_next h x \<noteq> Some x" using nx zs by (cases ys) auto
  from list_part_TAILQ_REMOVE[OF h' this] list_rep_remove[OF rep assms(2)]
  have "list_rep (list_part h') (remove1 x zs)" by simp
  moreover have "tqh_last h' = end_slot (remove1 x zs)"
  proof (cases ys)
    case Nil
    then have "sl = end_slot xs" using pre by (cases "xs = []") (auto dest: pre_linked_end simp: end_slot_def)
    with Nil show ?thesis using tailq_last_REMOVE[OF h' x] nx zs by (simp add: remove1_append)
  next
    case (Cons y ys')
    then show ?thesis using tailq_last_REMOVE[OF h' x] nx zs last by (simp add: remove1_append end_slot_def)
  qed
  ultimately show ?thesis using h' by (simp add: tailq_rep_list_part)
qed

lemma tailq_rep_insert_tail:
  assumes "tailq_rep h xs" and "x \<notin> set xs"
  shows "tailq_rep (TAILQ_INSERT_TAIL x h) (xs @ [x])"
proof -
  define h1 where "h1 = set_tqe_prev x (Some (end_slot xs)) (h\<lparr>tqe_next := (tqe_next h)(x := None)\<rparr>)"
  have last: "tqh_last h = end_slot xs" using assms by (simp add: tailq_rep_def)
  then have ins: "TAILQ_INSERT_TAIL x h = (tailq_put (end_slot xs) (Some x) h1)\<lparr>tqh_last := Next x\<rparr>"
    by (simp add: TAILQ_INSERT_TAIL_def h1_def set_tqe_prev_def Let_def)
  have "linked (tqe_next h1) (tqe_prev h1) Head (tqh_first h1) (xs @ [])"
    using assms by (simp add: h1_def set_tqe_prev_def tailq_rep_def)
  then obtain sl where pre: "pre_linked (tqe_next h1) (tqe_prev h1) Head (tqh_first h1) xs sl None"
    unfolding linked_append by auto
  then have sl: "sl = end_slot xs" by (cases "xs = []") (auto dest: pre_linked_end simp: end_slot_def)
  have d: "distinct xs" using assms by (simp add: tailq_rep_def)
  have eq: "list_part (tailq_put sl (Some x) h1) = list_put sl (Some x) (list_part h1)"
    by (simp add: list_part_def tailq_put_def list_put_def split: slot.split)
  have "pre_linked (tqe_next (tailq_put sl (Some x) h1)) (tqe_prev (tailq_put sl (Some x) h1)) Head
      (tqh_first (tailq_put sl (Some x) h1)) xs sl (Some x)"
    using list_put_redirect[of "list_part h1", OF _ d, of _ sl None "Some x"] pre
    by (metis eq list_part_sel list_put_prev)
  moreover have "tqe_next (tailq_put sl (Some x) h1) x = None" "tqe_prev (tailq_put sl (Some x) h1) x = Some sl"
    using sl assms(2)
    by (cases "xs = []"; auto simp: tailq_put_def h1_def set_tqe_prev_def end_slot_def)+
  ultimately show ?thesis using ins sl d assms(2)
    by (auto simp: tailq_rep_def linked_append)
qed

section \<open>The list-level view used by the kernel theories\<close>

text \<open>
  The kernel keeps every list in a global head with one link field per element, so a represented
  list is its abstract value. Removing an element that is not on the list, or inserting one that
  already is, writes through stale links; at this level it is undefined behaviour.
\<close>

definition list_insert_head :: "'a \<Rightarrow> 'a list \<Rightarrow> 'a list outcome" where
  "list_insert_head x xs = (if x \<in> set xs then Undef else Ret (x # xs))"

definition list_remove :: "'a \<Rightarrow> 'a list \<Rightarrow> 'a list outcome" where
  "list_remove x xs = (if x \<in> set xs then Ret (remove1 x xs) else Undef)"

definition tailq_insert_head :: "'a \<Rightarrow> 'a list \<Rightarrow> 'a list outcome" where
  "tailq_insert_head x xs = (if x \<in> set xs then Undef else Ret (x # xs))"

definition tailq_insert_tail :: "'a \<Rightarrow> 'a list \<Rightarrow> 'a list outcome" where
  "tailq_insert_tail x xs = (if x \<in> set xs then Undef else Ret (xs @ [x]))"

definition tailq_remove :: "'a \<Rightarrow> 'a list \<Rightarrow> 'a list outcome" where
  "tailq_remove x xs = (if x \<in> set xs then Ret (remove1 x xs) else Undef)"

definition first_of :: "'a list \<Rightarrow> 'a option" where
  "first_of xs = (case xs of [] \<Rightarrow> None | x # _ \<Rightarrow> Some x)"

lemmas queue_defs = list_insert_head_def list_remove_def tailq_insert_head_def
  tailq_insert_tail_def tailq_remove_def

text \<open>The interface of a queue of runnable elements, and what its clients may conclude.\<close>

locale run_queue =
  fixes rep :: "'h \<Rightarrow> 'a list \<Rightarrow> bool"
    and first :: "'h \<Rightarrow> 'a option"
    and insert_tail :: "'a \<Rightarrow> 'h \<Rightarrow> 'h outcome"
    and remove :: "'a \<Rightarrow> 'h \<Rightarrow> 'h outcome"
  assumes rep_distinct: "rep h xs \<Longrightarrow> distinct xs"
    and rep_first: "rep h xs \<Longrightarrow> first h = first_of xs"
    and rep_insert_tail: "rep h xs \<Longrightarrow> x \<notin> set xs \<Longrightarrow> returns (\<lambda>h'. rep h' (xs @ [x])) (insert_tail x h)"
    and rep_remove: "rep h xs \<Longrightarrow> x \<in> set xs \<Longrightarrow> returns (\<lambda>h'. rep h' (remove1 x xs)) (remove x h)"
begin

lemma rep_requeue:
  assumes "rep h xs" and "x \<in> set xs"
  shows "returns (\<lambda>h'. rep h' (remove1 x xs @ [x])) (obind (remove x h) (insert_tail x))"
proof -
  from assms obtain h1 where h1: "remove x h = Ret h1" "rep h1 (remove1 x xs)"
    using rep_remove by (metis returns_iff)
  have "x \<notin> set (remove1 x xs)" using rep_distinct[OF assms(1)] by simp
  with h1 show ?thesis using rep_insert_tail by simp
qed

lemma requeue_first:
  assumes "rep h (x # y # ys)"
  shows "returns (\<lambda>h'. first h' = Some y) (obind (remove x h) (insert_tail x))"
proof (rule returns_mono[OF rep_requeue[OF assms]])
  fix h' assume "rep h' (remove1 x (x # y # ys) @ [x])"
  then show "first h' = Some y" by (simp add: rep_first first_of_def)
qed simp

end

interpretation ptr_queue: run_queue tailq_rep TAILQ_FIRST "\<lambda>x h. Ret (TAILQ_INSERT_TAIL x h)" TAILQ_REMOVE
  by unfold_locales
     (auto simp: tailq_rep_distinct tailq_rep_first first_of_def tailq_rep_insert_tail tailq_rep_remove)

interpretation list_queue: run_queue "\<lambda>xs ys. xs = ys \<and> distinct xs" first_of tailq_insert_tail tailq_remove
  by unfold_locales (auto simp: queue_defs)

text \<open>
  C21. Every operation of the macros of \<open>include/queue.h\<close> on a well-formed tail queue computes the
  list-level operation: insertion at either end of an element that is not queued, and removal of an
  element that is, leave a well-formed queue holding exactly the expected sequence.
\<close>

theorem tailq_refines_list:
  assumes "tailq_rep h xs"
  shows "TAILQ_FIRST h = first_of xs \<and>
    (if x \<in> set xs
     then returns (\<lambda>h'. tailq_rep h' (remove1 x xs)) (TAILQ_REMOVE x h)
     else tailq_rep (TAILQ_INSERT_HEAD x h) (x # xs) \<and> tailq_rep (TAILQ_INSERT_TAIL x h) (xs @ [x]))"
  using assms
  by (simp add: tailq_rep_insert_head tailq_rep_insert_tail tailq_rep_remove tailq_rep_first first_of_def)

definition empty_queue :: "nat tailq_heap" where
  "empty_queue = \<lparr>tqh_first = None, tqh_last = Head, tqe_next = (\<lambda>_. None), tqe_prev = (\<lambda>_. None)\<rparr>"

lemma empty_queue_rep: "tailq_rep empty_queue []"
  by (simp add: empty_queue_def tailq_rep_def)

theorem tailq_refines_list_witness:
  "tailq_rep (TAILQ_INSERT_TAIL 7 (TAILQ_INSERT_HEAD 5 empty_queue)) [5, 7 :: nat] \<and>
   returns (\<lambda>h'. tailq_rep h' [7]) (TAILQ_REMOVE 5 (TAILQ_INSERT_TAIL 7 (TAILQ_INSERT_HEAD (5::nat) empty_queue)))"
proof -
  have a: "tailq_rep (TAILQ_INSERT_HEAD 5 empty_queue) [5]"
    using tailq_refines_list[OF empty_queue_rep, of 5] by simp
  have b: "tailq_rep (TAILQ_INSERT_TAIL 7 (TAILQ_INSERT_HEAD 5 empty_queue)) [5, 7]"
    using tailq_refines_list[OF a, of 7] by simp
  then show ?thesis using tailq_refines_list[OF b, of 5] by simp
qed

end
