(* ===== verification/Mos_Pmap.thy ===== *)
theory Mos_Pmap
  imports Mos_Queue
begin

text \<open>
  Physical memory and two-level page tables: \<open>kern/pmap.c\<close>, \<open>include/pmap.h\<close> and the part of
  \<open>kern/tlb_asm.S\<close> it calls. Physical memory is a sequence of frames of 1024 words; a
  \<open>struct Page *\<close> is the number of its frame, a kernel pointer to a page directory is the number of
  the frame that holds it, and a pointer to a page table entry is a frame number and a word index
  (the address \<open>KADDR\<close> computes, whose range check is kept). The reference counts are 16 bit wide,
  as \<open>pp_ref\<close> is. The TLB maps an EntryHi value (virtual page and ASID) to an EntryLo value.
\<close>

section \<open>State\<close>

record pmap_state =
  memsize :: u32
  npage :: nat
  freemem :: u32
  pp_ref :: "nat \<Rightarrow> u16"
  page_free_list :: "nat list"
  frames :: "nat \<Rightarrow> nat \<Rightarrow> u32"
  tlb :: "u32 \<rightharpoonup> u32"

type_synonym pte_ptr = "nat \<times> nat"

definition peek :: "'a pmap_state_scheme \<Rightarrow> pte_ptr \<Rightarrow> u32" where
  "peek s q = frames s (fst q) (snd q)"

definition poke :: "pte_ptr \<Rightarrow> u32 \<Rightarrow> 'a pmap_state_scheme \<Rightarrow> 'a pmap_state_scheme" where
  "poke q v s = s\<lparr>frames := (frames s)(fst q := (frames s (fst q))(snd q := v))\<rparr>"

definition incr_ref :: "nat \<Rightarrow> 'a pmap_state_scheme \<Rightarrow> 'a pmap_state_scheme" where
  "incr_ref pp s = s\<lparr>pp_ref := (pp_ref s)(pp := pp_ref s pp + 1)\<rparr>"

section \<open>Operations (include/pmap.h, kern/pmap.c)\<close>

definition page2pa :: "nat \<Rightarrow> u32" where
  "page2pa pp = push_bit PGSHIFT (word_of_nat pp)"

definition KADDR :: "'a pmap_state_scheme \<Rightarrow> u32 \<Rightarrow> u32 outcome" where
  "KADDR s pa = (if npage s \<le> PPN pa then Panic ''KADDR called with invalid pa'' else Ret (pa + ULIM))"

definition pa2page :: "'a pmap_state_scheme \<Rightarrow> u32 \<Rightarrow> nat outcome" where
  "pa2page s pa = (if npage s \<le> PPN pa then Panic ''pa2page called with invalid pa'' else Ret (PPN pa))"

definition page2kva :: "'a pmap_state_scheme \<Rightarrow> nat \<Rightarrow> u32 outcome" where
  "page2kva s pp = KADDR s (page2pa pp)"

definition va2pa :: "'a pmap_state_scheme \<Rightarrow> nat \<Rightarrow> u32 \<Rightarrow> u32 outcome" where
  "va2pa s pgdir va =
     (let e = peek s (pgdir, PDX va) in
      if \<not> pte_valid e then Ret (NOT 0)
      else obind (KADDR s (PTE_ADDR e)) (\<lambda>_.
        let t = peek s (PPN e, PTX va) in
        if \<not> pte_valid t then Ret (NOT 0) else Ret (PTE_ADDR t)))"

text \<open>The size of memory is read from the device \<open>DEV_MP\<close>; it is an argument here.\<close>

definition mips_detect_memory :: "u32 \<Rightarrow> 'a pmap_state_scheme \<Rightarrow> 'a pmap_state_scheme" where
  "mips_detect_memory dev_mp_memory s =
     s\<lparr>memsize := dev_mp_memory, npage := unat (dev_mp_memory div BY2PG)\<rparr>"

definition word_addr :: "nat \<Rightarrow> nat \<Rightarrow> nat" where
  "word_addr f i = f * 4096 + i * 4"

definition clear_range :: "u32 \<Rightarrow> u32 \<Rightarrow> 'a pmap_state_scheme \<Rightarrow> 'a pmap_state_scheme" where
  "clear_range a n s =
     s\<lparr>frames := (\<lambda>f i. if unat (a - ULIM) \<le> word_addr f i \<and> word_addr f i < unat (a - ULIM) + unat n
                      then 0 else frames s f i)\<rparr>"

text \<open>
  The boot allocator; \<open>kend\<close> is the linker's symbol \<open>end\<close>. Its callers ask for whole words.
\<close>

definition alloc :: "u32 \<Rightarrow> u32 \<Rightarrow> u32 \<Rightarrow> bool \<Rightarrow> 'a pmap_state_scheme \<Rightarrow> (u32 \<times> 'a pmap_state_scheme) outcome" where
  "alloc kend n align clear s =
     (let fm = (if freemem s = 0 then kend else freemem s);
          fm = ROUND fm align;
          alloced_mem = fm;
          fm = fm + n
      in obind (PADDR fm) (\<lambda>pa.
         if memsize s \<le> pa then Panic ''panic_on(PADDR(freemem) >= memsize)''
         else let s = s\<lparr>freemem := fm\<rparr>;
                  s = (if clear then clear_range alloced_mem n s else s)
              in Ret (alloced_mem, s)))"

abbreviation (input) sizeof_Page :: u32 where "sizeof_Page \<equiv> 12"

definition mips_vm_init :: "u32 \<Rightarrow> 'a pmap_state_scheme \<Rightarrow> (u32 \<times> 'a pmap_state_scheme) outcome" where
  "mips_vm_init kend s = alloc kend (word_of_nat (npage s) * sizeof_Page) BY2PG True s"

text \<open>The bodies of the two loops of \<open>page_init\<close>.\<close>

definition mark_used :: "nat \<Rightarrow> 'a pmap_state_scheme \<Rightarrow> 'a pmap_state_scheme outcome" where
  "mark_used i s = Ret (s\<lparr>pp_ref := (pp_ref s)(i := 1)\<rparr>)"

definition mark_free :: "nat \<Rightarrow> 'a pmap_state_scheme \<Rightarrow> 'a pmap_state_scheme outcome" where
  "mark_free i s =
     (let s = s\<lparr>pp_ref := (pp_ref s)(i := 0)\<rparr> in
      obind (list_insert_head i (page_free_list s)) (\<lambda>fl. Ret (s\<lparr>page_free_list := fl\<rparr>)))"

definition page_init :: "'a pmap_state_scheme \<Rightarrow> 'a pmap_state_scheme outcome" where
  "page_init s =
     (let s = s\<lparr>page_free_list := []\<rparr>;
          s = s\<lparr>freemem := ROUND (freemem s) BY2PG\<rparr>
      in obind (PADDR (freemem s)) (\<lambda>pa.
         let size = unat (pa div BY2PG) in
         obind (ofold mark_used [0..<size] s) (\<lambda>s.
         ofold mark_free [size..<npage s] s)))"

definition page_alloc :: "'a pmap_state_scheme \<Rightarrow> ((error + nat) \<times> 'a pmap_state_scheme) outcome" where
  "page_alloc s =
     (case page_free_list s of
        [] \<Rightarrow> Ret (Inl E_NO_MEM, s)
      | pp # _ \<Rightarrow>
          obind (list_remove pp (page_free_list s)) (\<lambda>fl.
          obind (page2kva s pp) (\<lambda>_.
          Ret (Inr pp, s\<lparr>page_free_list := fl, frames := (frames s)(pp := (\<lambda>_. 0))\<rparr>))))"

definition page_free :: "nat \<Rightarrow> 'a pmap_state_scheme \<Rightarrow> 'a pmap_state_scheme outcome" where
  "page_free pp s =
     obind (guard_panic (pp_ref s pp = 0) ''assertion failed: pp->pp_ref == 0'') (\<lambda>_.
     obind (list_insert_head pp (page_free_list s)) (\<lambda>fl.
     Ret (s\<lparr>page_free_list := fl\<rparr>)))"

definition pgdir_walk ::
  "nat \<Rightarrow> u32 \<Rightarrow> bool \<Rightarrow> 'a pmap_state_scheme \<Rightarrow> ((error + pte_ptr option) \<times> 'a pmap_state_scheme) outcome" where
  "pgdir_walk pgdir va create s =
     (let pgdir_entryp = (pgdir, PDX va);
          found = (\<lambda>s. obind (KADDR s (PTE_ADDR (peek s pgdir_entryp))) (\<lambda>_.
                     Ret (Inr (Some (PPN (peek s pgdir_entryp), PTX va)), s)))
      in if \<not> pte_valid (peek s pgdir_entryp) then
           (if create then
              otry (page_alloc s) (\<lambda>pp s.
                let s = poke pgdir_entryp ((page2pa pp AND 0xfffff000) OR PTE_V OR PTE_D) s;
                    s = incr_ref pp s
                in found s)
            else Ret (Inr None, s))
         else found s)"

definition page_lookup :: "nat \<Rightarrow> u32 \<Rightarrow> 'a pmap_state_scheme \<Rightarrow> (nat \<times> pte_ptr) option outcome" where
  "page_lookup pgdir va s =
     obind (pgdir_walk pgdir va False s) (\<lambda>(r, s).
       case r of
         Inl e \<Rightarrow> Undef
       | Inr None \<Rightarrow> Ret None
       | Inr (Some pte) \<Rightarrow>
           if \<not> pte_valid (peek s pte) then Ret None
           else obind (pa2page s (peek s pte)) (\<lambda>pp. Ret (Some (pp, pte))))"

definition page_decref :: "nat \<Rightarrow> 'a pmap_state_scheme \<Rightarrow> 'a pmap_state_scheme outcome" where
  "page_decref pp s =
     obind (guard_panic (0 < pp_ref s pp) ''assertion failed: pp->pp_ref > 0'') (\<lambda>_.
       let s = s\<lparr>pp_ref := (pp_ref s)(pp := pp_ref s pp - 1)\<rparr> in
       if pp_ref s pp = 0 then page_free pp s else Ret s)"

text \<open>\<open>tlb_out\<close> probes for the entry with the given EntryHi and overwrites it if there is one.\<close>

definition tlb_out :: "u32 \<Rightarrow> 'a pmap_state_scheme \<Rightarrow> 'a pmap_state_scheme" where
  "tlb_out entryhi s = s\<lparr>tlb := (tlb s)(entryhi := None)\<rparr>"

definition tlb_invalidate :: "u32 \<Rightarrow> u32 \<Rightarrow> 'a pmap_state_scheme \<Rightarrow> 'a pmap_state_scheme" where
  "tlb_invalidate asid va s = tlb_out (PTE_ADDR va OR push_bit 6 asid) s"

definition page_remove :: "nat \<Rightarrow> u32 \<Rightarrow> u32 \<Rightarrow> 'a pmap_state_scheme \<Rightarrow> 'a pmap_state_scheme outcome" where
  "page_remove pgdir asid va s =
     obind (page_lookup pgdir va s) (\<lambda>r.
       case r of
         None \<Rightarrow> Ret s
       | Some (pp, pte) \<Rightarrow>
           obind (page_decref pp s) (\<lambda>s.
             let s = poke pte 0 s in Ret (tlb_invalidate asid va s)))"

text \<open>Steps 2 to 4 of \<open>page_insert\<close>, reached when no page is mapped at \<open>va\<close> (any more).\<close>

definition page_insert_finish ::
  "nat \<Rightarrow> u32 \<Rightarrow> nat \<Rightarrow> u32 \<Rightarrow> u32 \<Rightarrow> 'a pmap_state_scheme \<Rightarrow> ((error + unit) \<times> 'a pmap_state_scheme) outcome" where
  "page_insert_finish pgdir asid pp va perm s =
    (let s = tlb_invalidate asid va s in
     otry (pgdir_walk pgdir va True s) (\<lambda>pte s.
       case pte of
         None \<Rightarrow> Undef
       | Some pte \<Rightarrow>
           let s = poke pte (page2pa pp OR perm OR PTE_V) s;
               s = incr_ref pp s
           in Ret (Inr (), s)))"

definition page_insert ::
  "nat \<Rightarrow> u32 \<Rightarrow> nat \<Rightarrow> u32 \<Rightarrow> u32 \<Rightarrow> 'a pmap_state_scheme \<Rightarrow> ((error + unit) \<times> 'a pmap_state_scheme) outcome" where
  "page_insert pgdir asid pp va perm s =
     obind (pgdir_walk pgdir va False s) (\<lambda>(r, s).
       case r of
         Inl e \<Rightarrow> Undef
       | Inr (Some pte) \<Rightarrow>
           if pte_valid (peek s pte) then
             obind (pa2page s (peek s pte)) (\<lambda>old.
               if old \<noteq> pp then
                 obind (page_remove pgdir asid va s) (page_insert_finish pgdir asid pp va perm)
               else let s = tlb_invalidate asid va s;
                        s = poke pte (page2pa pp OR perm OR PTE_V) s
                    in Ret (Inr (), s))
           else page_insert_finish pgdir asid pp va perm s
       | Inr None \<Rightarrow> page_insert_finish pgdir asid pp va perm s)"

section \<open>Frame numbers and physical addresses\<close>

lemma unat_page2pa: "pp < 1048576 \<Longrightarrow> unat (page2pa pp) = pp * 4096"
  by (simp add: page2pa_def push_bit_eq_mult unat_word_ariths unsigned_of_nat take_bit_nat_eq_self)

lemma PPN_page2pa [simp]: "pp < 1048576 \<Longrightarrow> PPN (page2pa pp) = pp"
  by (simp add: PPN_eq unat_page2pa)

section \<open>The abstract view: address spaces and reference counts\<close>

text \<open>
  \<open>PDX UTOP\<close> is 509: the page directory entries below it are an environment's own, the ones from it on
  are the shared windows on the environment and page tables and the self map.
  \<open>vmap s d va\<close> is the page table entry that the MMU would use for \<open>va\<close> in the page directory \<open>d\<close>.
\<close>

abbreviation (input) NUPDE :: nat where "NUPDE \<equiv> 509"

lemma PDX_UTOP: "PDX UTOP = NUPDE"
  by (simp add: PDX_eq)

lemma PDX_user: "va < UTOP \<Longrightarrow> PDX va < NUPDE"
  by (simp add: PDX_eq word_less_nat_alt less_mult_imp_div_less)

abbreviation pde_at :: "'a pmap_state_scheme \<Rightarrow> nat \<Rightarrow> nat \<Rightarrow> u32" where
  "pde_at s d i \<equiv> frames s d i"

abbreviation pte_at :: "'a pmap_state_scheme \<Rightarrow> nat \<Rightarrow> nat \<Rightarrow> nat \<Rightarrow> u32" where
  "pte_at s d i j \<equiv> frames s (PPN (frames s d i)) j"

definition vmap :: "'a pmap_state_scheme \<Rightarrow> nat \<Rightarrow> u32 \<Rightarrow> u32 option" where
  "vmap s d va =
     (if pte_valid (pde_at s d (PDX va)) \<and> pte_valid (pte_at s d (PDX va) (PTX va))
      then Some (pte_at s d (PDX va) (PTX va)) else None)"

definition pde_slots :: "'a pmap_state_scheme \<Rightarrow> nat set \<Rightarrow> nat \<Rightarrow> (nat \<times> nat) set" where
  "pde_slots s D p = {(d, i). d \<in> D \<and> i < NUPDE \<and> pte_valid (pde_at s d i) \<and> PPN (pde_at s d i) = p}"

definition pte_slots :: "'a pmap_state_scheme \<Rightarrow> nat set \<Rightarrow> nat \<Rightarrow> (nat \<times> nat \<times> nat) set" where
  "pte_slots s D p =
     {(d, i, j). d \<in> D \<and> i < NUPDE \<and> j < 1024 \<and> pte_valid (pde_at s d i) \<and> pte_valid (pte_at s d i j)
                 \<and> PPN (pte_at s d i j) = p}"

definition page_refs :: "'a pmap_state_scheme \<Rightarrow> nat set \<Rightarrow> nat \<Rightarrow> nat" where
  "page_refs s D p = card (pde_slots s D p) + card (pte_slots s D p)"

text \<open>
  The invariant: \<open>D\<close> are the live page directories and \<open>base p\<close> counts the references the kernel
  itself holds on the frame \<open>p\<close> (boot memory, page directories). Every reference count is exact, the
  free list holds only unreferenced frames, each page table belongs to one directory entry, and no
  frame that is mapped below \<open>UTOP\<close> holds kernel data or page tables.
\<close>

definition free_list_ok :: "'a pmap_state_scheme \<Rightarrow> bool" where
  "free_list_ok s \<longleftrightarrow> npage s \<le> 524288 \<and> distinct (page_free_list s)
     \<and> (\<forall>p\<in>set (page_free_list s). p < npage s \<and> pp_ref s p = 0)"

definition tables_ok :: "nat set \<Rightarrow> (nat \<Rightarrow> nat) \<Rightarrow> 'a pmap_state_scheme \<Rightarrow> bool" where
  "tables_ok D base s \<longleftrightarrow> finite D \<and> (\<forall>d\<in>D. d < npage s \<and> 0 < base d)
     \<and> (\<forall>d\<in>D. \<forall>i<NUPDE. pte_valid (pde_at s d i) \<longrightarrow> PPN (pde_at s d i) < npage s \<and> base (PPN (pde_at s d i)) = 0)
     \<and> (\<forall>d\<in>D. \<forall>i<NUPDE. \<forall>d'\<in>D. \<forall>i'<NUPDE. pte_valid (pde_at s d i) \<longrightarrow> pte_valid (pde_at s d' i') \<longrightarrow>
           PPN (pde_at s d i) = PPN (pde_at s d' i') \<longrightarrow> d = d' \<and> i = i')"

definition leaves_ok :: "nat set \<Rightarrow> (nat \<Rightarrow> nat) \<Rightarrow> 'a pmap_state_scheme \<Rightarrow> bool" where
  "leaves_ok D base s \<longleftrightarrow>
     (\<forall>p. pte_slots s D p \<noteq> {} \<longrightarrow> p < npage s \<and> base p = 0 \<and> pde_slots s D p = {})"

definition refs_ok :: "nat set \<Rightarrow> (nat \<Rightarrow> nat) \<Rightarrow> 'a pmap_state_scheme \<Rightarrow> bool" where
  "refs_ok D base s \<longleftrightarrow> (\<forall>p<npage s. unat (pp_ref s p) = page_refs s D p + base p)"

definition pmap_inv :: "nat set \<Rightarrow> (nat \<Rightarrow> nat) \<Rightarrow> 'a pmap_state_scheme \<Rightarrow> bool" where
  "pmap_inv D base s \<longleftrightarrow> free_list_ok s \<and> tables_ok D base s \<and> leaves_ok D base s \<and> refs_ok D base s"

definition user_page :: "nat set \<Rightarrow> (nat \<Rightarrow> nat) \<Rightarrow> 'a pmap_state_scheme \<Rightarrow> nat \<Rightarrow> bool" where
  "user_page D base s p \<longleftrightarrow>
     p < npage s \<and> base p = 0 \<and> pde_slots s D p = {} \<and> p \<notin> set (page_free_list s)"

lemma pmap_invI:
  "free_list_ok s \<Longrightarrow> tables_ok D base s \<Longrightarrow> leaves_ok D base s \<Longrightarrow> refs_ok D base s \<Longrightarrow> pmap_inv D base s"
  by (simp add: pmap_inv_def)

lemma pmap_invD:
  assumes "pmap_inv D base s"
  shows "free_list_ok s" "tables_ok D base s" "leaves_ok D base s" "refs_ok D base s"
  using assms by (simp_all add: pmap_inv_def)

lemma finite_pde_slots [simp]: "finite D \<Longrightarrow> finite (pde_slots s D p)"
  by (rule finite_subset[of _ "D \<times> {..<NUPDE}"]) (auto simp: pde_slots_def)

lemma finite_pte_slots [simp]: "finite D \<Longrightarrow> finite (pte_slots s D p)"
  by (rule finite_subset[of _ "D \<times> {..<NUPDE} \<times> {..<1024}"]) (auto simp: pte_slots_def)

text \<open>An unreferenced frame is in no page table, is no page table and is no page directory.\<close>

lemma unreferenced:
  assumes "pmap_inv D base s" and "p < npage s" and "pp_ref s p = 0"
  shows "pde_slots s D p = {}" "pte_slots s D p = {}" "base p = 0" "p \<notin> D"
proof -
  have fin: "finite D" using assms(1) by (simp add: pmap_inv_def tables_ok_def)
  have "page_refs s D p + base p = 0"
    using pmap_invD(4)[OF assms(1)] assms(2,3) by (metis refs_ok_def unsigned_0)
  then show "pde_slots s D p = {}" "pte_slots s D p = {}" and b: "base p = 0"
    using fin by (simp_all add: page_refs_def)
  show "p \<notin> D" using assms(1) b by (auto simp: pmap_inv_def tables_ok_def)
qed

lemma free_unreferenced:
  assumes "pmap_inv D base s" and "p \<in> set (page_free_list s)"
  shows "p < npage s" "pp_ref s p = 0"
  using assms by (auto simp: pmap_inv_def free_list_ok_def)

text \<open>The invariant looks only at the frames that are directories or page tables.\<close>

definition same_tables :: "nat set \<Rightarrow> 'a pmap_state_scheme \<Rightarrow> 'b pmap_state_scheme \<Rightarrow> bool" where
  "same_tables D s s' \<longleftrightarrow> (\<forall>d\<in>D. \<forall>i<NUPDE. pde_at s' d i = pde_at s d i \<and>
     (pte_valid (pde_at s d i) \<longrightarrow> (\<forall>j<1024. frames s' (PPN (pde_at s d i)) j = pte_at s d i j)))"

lemma same_tables_refl [simp]: "same_tables D s s"
  by (simp add: same_tables_def)

lemma same_tables_slots:
  assumes "same_tables D s s'"
  shows "pde_slots s' D = pde_slots s D" "pte_slots s' D = pte_slots s D"
  using assms by (fastforce simp: same_tables_def pde_slots_def pte_slots_def)+

lemma same_tables_vmap:
  assumes "same_tables D s s'" "d \<in> D" "va < UTOP"
  shows "vmap s' d va = vmap s d va"
  using assms PDX_user[of va] by (auto simp: same_tables_def vmap_def)

lemma same_tables_inv:
  assumes "same_tables D s s'" "npage s' = npage s" "pp_ref s' = pp_ref s"
    and "distinct (page_free_list s')" "set (page_free_list s') \<subseteq> set (page_free_list s)"
    and "pmap_inv D base s"
  shows "pmap_inv D base s'"
proof (rule pmap_invI)
  note inv = pmap_invD[OF assms(6)]
  show "free_list_ok s'" using inv(1) assms by (auto simp: free_list_ok_def)
  show "tables_ok D base s'"
    using inv(2) assms(1,2) by (simp add: same_tables_def tables_ok_def)
  show "leaves_ok D base s'"
    using inv(3) assms(2) by (simp add: leaves_ok_def same_tables_slots[OF assms(1)])
  show "refs_ok D base s'"
    using inv(4) assms(2,3) by (simp add: refs_ok_def page_refs_def same_tables_slots[OF assms(1)])
qed

section \<open>Single page table updates\<close>

lemma frames_poke: "frames (poke (f, i) v s) = (frames s)(f := (frames s f)(i := v))"
  by (simp add: poke_def)

lemma poke_simps [simp]:
  "npage (poke q v s) = npage s" "pp_ref (poke q v s) = pp_ref s"
  "page_free_list (poke q v s) = page_free_list s" "tlb (poke q v s) = tlb s"
  "pmap_state.more (poke q v s) = pmap_state.more s"
  by (simp_all add: poke_def)

lemma incr_ref_simps [simp]:
  "npage (incr_ref p s) = npage s" "frames (incr_ref p s) = frames s"
  "page_free_list (incr_ref p s) = page_free_list s" "tlb (incr_ref p s) = tlb s"
  "pp_ref (incr_ref p s) = (pp_ref s)(p := pp_ref s p + 1)"
  "pmap_state.more (incr_ref p s) = pmap_state.more s"
  by (simp_all add: incr_ref_def)

lemma tlb_invalidate_simps [simp]:
  "npage (tlb_invalidate a va s) = npage s" "frames (tlb_invalidate a va s) = frames s"
  "page_free_list (tlb_invalidate a va s) = page_free_list s" "pp_ref (tlb_invalidate a va s) = pp_ref s"
  "pmap_state.more (tlb_invalidate a va s) = pmap_state.more s"
  by (simp_all add: tlb_invalidate_def tlb_out_def)

lemma table_not_dir:
  assumes "tables_ok D base s" "d \<in> D" "i < NUPDE" "pte_valid (pde_at s d i)"
  shows "PPN (pde_at s d i) \<notin> D"
  using assms by (auto simp: tables_ok_def)

lemma table_inj:
  assumes "tables_ok D base s" "d \<in> D" "i < NUPDE" "pte_valid (pde_at s d i)"
    "d' \<in> D" "i' < NUPDE" "pte_valid (pde_at s d' i')" "PPN (pde_at s d i) = PPN (pde_at s d' i')"
  shows "d = d'" "i = i'"
  using assms unfolding tables_ok_def by blast+

lemma table_range:
  assumes "tables_ok D base s" "d \<in> D" "i < NUPDE" "pte_valid (pde_at s d i)"
  shows "PPN (pde_at s d i) < npage s" "base (PPN (pde_at s d i)) = 0"
  using assms unfolding tables_ok_def by blast+

text \<open>Writing an entry of a page table changes one leaf of one address space.\<close>

lemma poke_pte_entries:
  assumes "tables_ok D base s" "d \<in> D" "i < NUPDE" "pte_valid (pde_at s d i)"
    and "frames s' = frames (poke (PPN (pde_at s d i), j) v s)" and "d' \<in> D" and "i' < NUPDE"
  shows "pde_at s' d' i' = pde_at s d' i'"
    and "pte_valid (pde_at s d' i') \<Longrightarrow>
      frames s' (PPN (pde_at s d' i')) j' = (if d' = d \<and> i' = i \<and> j' = j then v else pte_at s d' i' j')"
proof -
  show "pde_at s' d' i' = pde_at s d' i'"
    using table_not_dir[OF assms(1-4)] assms(5,6) by (auto simp: frames_poke)
  assume "pte_valid (pde_at s d' i')"
  then show "frames s' (PPN (pde_at s d' i')) j' = (if d' = d \<and> i' = i \<and> j' = j then v else pte_at s d' i' j')"
    using table_inj[OF assms(1-4,6,7)] by (auto simp: assms(5) frames_poke)
qed

lemma poke_pte_slots:
  assumes "tables_ok D base s" "d \<in> D" "i < NUPDE" "pte_valid (pde_at s d i)" "j < 1024"
    and "frames s' = frames (poke (PPN (pde_at s d i), j) v s)"
  shows "pde_slots s' D p = pde_slots s D p"
    and "pte_slots s' D p = pte_slots s D p - {(d, i, j)} \<union> (if pte_valid v \<and> PPN v = p then {(d, i, j)} else {})"
proof -
  note e = poke_pte_entries[OF assms(1-4,6)]
  show "pde_slots s' D p = pde_slots s D p" by (auto simp: pde_slots_def e(1))
  have "x \<in> pte_slots s' D p \<longleftrightarrow>
        x \<in> pte_slots s D p - {(d, i, j)} \<union> (if pte_valid v \<and> PPN v = p then {(d, i, j)} else {})" for x
    using assms(2-5) by (cases x) (auto simp: pte_slots_def e cong: conj_cong)
  then show "pte_slots s' D p = pte_slots s D p - {(d, i, j)} \<union> (if pte_valid v \<and> PPN v = p then {(d, i, j)} else {})"
    by blast
qed

lemma poke_pte_vmap:
  assumes "tables_ok D base s" "d \<in> D" "i < NUPDE" "pte_valid (pde_at s d i)" "j < 1024"
    and "frames s' = frames (poke (PPN (pde_at s d i), j) v s)" and "d' \<in> D" "va < UTOP"
  shows "vmap s' d' va =
    (if d' = d \<and> PDX va = i \<and> PTX va = j then (if pte_valid v then Some v else None) else vmap s d' va)"
  using poke_pte_entries[OF assms(1-4,6,7) PDX_user[OF assms(8)]] assms(4) by (auto simp: vmap_def)

lemma card_replace:
  assumes "finite A"
  shows "card (A - {x} \<union> (if b then {x} else {})) = card A - of_bool (x \<in> A) + of_bool b"
proof (cases "x \<in> A")
  case True
  then have "insert x A = A" "0 < card A" using assms by (auto simp: card_gt_0_iff)
  with True show ?thesis by simp
qed (use assms in simp)

lemma pte_update_inv:
  assumes inv: "pmap_inv D base s"
    and at: "d \<in> D" "i < NUPDE" "pte_valid (pde_at s d i)" "j < 1024"
    and s': "frames s' = frames (poke (PPN (pde_at s d i), j) v s)" "npage s' = npage s" "free_list_ok s'"
    and v: "pte_valid v \<Longrightarrow> PPN v < npage s \<and> base (PPN v) = 0 \<and> pde_slots s D (PPN v) = {}"
    and refs: "\<And>p. p < npage s \<Longrightarrow> unat (pp_ref s' p) =
      unat (pp_ref s p) - of_bool (pte_valid (pte_at s d i j) \<and> PPN (pte_at s d i j) = p)
      + of_bool (pte_valid v \<and> PPN v = p)"
  shows "pmap_inv D base s'"
proof (rule pmap_invI)
  note parts = pmap_invD[OF inv]
  have fin: "finite D" using parts(2) by (simp add: tables_ok_def)
  note slots = poke_pte_slots[OF parts(2) at s'(1)]
  show "tables_ok D base s'"
    using parts(2) poke_pte_entries(1)[OF parts(2) at(1-3) s'(1)] s'(2) by (simp add: tables_ok_def)
  show "leaves_ok D base s'" unfolding leaves_ok_def slots(1) s'(2)
  proof (intro allI impI)
    fix p assume "pte_slots s' D p \<noteq> {}"
    then have "pte_slots s D p \<noteq> {} \<or> (pte_valid v \<and> PPN v = p)" by (auto simp: slots(2) split: if_splits)
    then show "p < npage s \<and> base p = 0 \<and> pde_slots s D p = {}"
      using parts(3) v by (auto simp: leaves_ok_def)
  qed
  show "refs_ok D base s'" unfolding refs_ok_def s'(2)
  proof (intro allI impI)
    fix p assume p: "p < npage s"
    have mem: "(d, i, j) \<in> pte_slots s D p \<longleftrightarrow> pte_valid (pte_at s d i j) \<and> PPN (pte_at s d i j) = p"
      using at by (simp add: pte_slots_def)
    have "card (pte_slots s' D p) =
        card (pte_slots s D p) - of_bool ((d, i, j) \<in> pte_slots s D p) + of_bool (pte_valid v \<and> PPN v = p)"
      unfolding slots(2) by (rule card_replace) (simp add: fin)
    moreover have "of_bool ((d, i, j) \<in> pte_slots s D p) \<le> card (pte_slots s D p)"
      using fin by (auto simp: Suc_le_eq card_gt_0_iff)
    moreover have "unat (pp_ref s p) = page_refs s D p + base p"
      using parts(4) p by (simp add: refs_ok_def)
    ultimately show "unat (pp_ref s' p) = page_refs s' D p + base p"
      using refs[OF p] unfolding page_refs_def slots(1) mem by linarith
  qed
qed (rule s'(3))

text \<open>
  Writing a page directory entry below \<open>UTOP\<close>: installing an empty page table, or dropping one that
  has become empty, changes no address space.
\<close>

definition empty_table :: "'a pmap_state_scheme \<Rightarrow> nat \<Rightarrow> bool" where
  "empty_table s q \<longleftrightarrow> (\<forall>j<1024. \<not> pte_valid (frames s q j))"

lemma poke_pde_slots:
  assumes s': "frames s' = frames (poke (d, i) v s)" and at: "d \<in> D" "i < NUPDE"
    and old: "pte_valid (pde_at s d i) \<Longrightarrow> empty_table s (PPN (pde_at s d i))"
    and new: "pte_valid v \<Longrightarrow> empty_table s (PPN v)"
    and dirs: "\<forall>d'\<in>D. \<forall>i'<NUPDE. pte_valid (pde_at s d' i') \<longrightarrow> PPN (pde_at s d' i') \<noteq> d"
    and vd: "pte_valid v \<Longrightarrow> PPN v \<noteq> d"
  shows "pde_slots s' D p = pde_slots s D p - {(d, i)} \<union> (if pte_valid v \<and> PPN v = p then {(d, i)} else {})"
    and "pte_slots s' D p = pte_slots s D p"
proof -
  have e: "pde_at s' d' i' = (if d' = d \<and> i' = i then v else pde_at s d' i')" for d' i'
    by (simp add: s' frames_poke)
  show "pde_slots s' D p = pde_slots s D p - {(d, i)} \<union> (if pte_valid v \<and> PPN v = p then {(d, i)} else {})"
    using at by (auto simp: pde_slots_def e split: if_splits)
  have "(d', i', j') \<in> pte_slots s' D p \<longleftrightarrow> (d', i', j') \<in> pte_slots s D p" for d' i' j'
  proof (cases "d' = d \<and> i' = i")
    case True
    then show ?thesis using old new vd by (auto simp: pte_slots_def e empty_table_def)
  next
    case False
    then show ?thesis using dirs by (auto simp: pte_slots_def e)
  qed
  then show "pte_slots s' D p = pte_slots s D p" by auto
qed

lemma poke_pde_vmap:
  assumes s': "frames s' = frames (poke (d, i) v s)"
    and old: "pte_valid (pde_at s d i) \<Longrightarrow> empty_table s (PPN (pde_at s d i))"
    and new: "pte_valid v \<Longrightarrow> empty_table s (PPN v)"
    and dirs: "\<forall>d'\<in>D. \<forall>i'<NUPDE. pte_valid (pde_at s d' i') \<longrightarrow> PPN (pde_at s d' i') \<noteq> d"
    and vd: "pte_valid v \<Longrightarrow> PPN v \<noteq> d" and at: "d' \<in> D" "va < UTOP"
  shows "vmap s' d' va = vmap s d' va"
proof -
  have e: "pde_at s' d' i' = (if d' = d \<and> i' = i then v else pde_at s d' i')" for d' i'
    by (simp add: s' frames_poke)
  show ?thesis
  proof (cases "d' = d \<and> PDX va = i")
    case True
    have "\<not> (pte_valid (pde_at s d i) \<and> pte_valid (pte_at s d i (PTX va)))"
      using old PTX_less[of va] unfolding empty_table_def by blast
    moreover have "\<not> (pte_valid v \<and> pte_valid (frames s' (PPN v) (PTX va)))"
    proof
      assume v: "pte_valid v \<and> pte_valid (frames s' (PPN v) (PTX va))"
      then have "frames s' (PPN v) = frames s (PPN v)" using vd by (simp add: s' frames_poke)
      then show False using v new PTX_less[of va] unfolding empty_table_def by metis
    qed
    ultimately
    show ?thesis using True by (auto simp: vmap_def e)
  next
    case False
    then show ?thesis using dirs at PDX_user[OF at(2)] by (auto simp: vmap_def e)
  qed
qed

lemma tables_not:
  assumes "tables_ok D base s" "d \<in> D"
  shows "\<forall>d'\<in>D. \<forall>i'<NUPDE. pte_valid (pde_at s d' i') \<longrightarrow> PPN (pde_at s d' i') \<noteq> d"
  using assms by (auto simp: tables_ok_def)

lemma pde_update_tables:
  assumes tabs: "tables_ok D base s" and s': "frames s' = frames (poke (d, i) v s)" "npage s' = npage s"
    and new: "pte_valid v \<Longrightarrow> PPN v < npage s \<and> base (PPN v) = 0 \<and> pde_slots s D (PPN v) = {}"
  shows "tables_ok D base s'"
proof -
  have e: "pde_at s' d' i' = (if d' = d \<and> i' = i then v else pde_at s d' i')" for d' i'
    by (simp add: s' frames_poke)
  have fresh: "PPN v \<noteq> PPN (pde_at s d' i')"
    if "pte_valid v" "d' \<in> D" "i' < NUPDE" "pte_valid (pde_at s d' i')" for d' i'
  proof
    assume "PPN v = PPN (pde_at s d' i')"
    then have "(d', i') \<in> pde_slots s D (PPN v)" using that by (simp add: pde_slots_def)
    then show False using new[OF that(1)] by simp
  qed
  show ?thesis
    unfolding tables_ok_def s'(2)
  proof (intro conjI ballI allI impI)
    show "finite D" using tabs by (simp add: tables_ok_def)
  next
    fix d' i' assume "d' \<in> D" "i' < NUPDE" "pte_valid (pde_at s' d' i')"
    then show "PPN (pde_at s' d' i') < npage s" "base (PPN (pde_at s' d' i')) = 0"
      using table_range[OF tabs, of d' i'] new unfolding e by presburger+
  next
    fix d1 i1 d2 i2 assume a: "d1 \<in> D" "i1 < NUPDE" "d2 \<in> D" "i2 < NUPDE"
      "pte_valid (pde_at s' d1 i1)" "pte_valid (pde_at s' d2 i2)" "PPN (pde_at s' d1 i1) = PPN (pde_at s' d2 i2)"
    consider "(d1, i1) = (d, i)" "(d2, i2) = (d, i)" | "(d1, i1) = (d, i)" "(d2, i2) \<noteq> (d, i)"
      | "(d1, i1) \<noteq> (d, i)" "(d2, i2) = (d, i)" | "(d1, i1) \<noteq> (d, i)" "(d2, i2) \<noteq> (d, i)" by blast
    then have "(d1, i1) = (d2, i2)"
    proof cases
      case 2
      then have "pde_at s' d1 i1 = v" "pde_at s' d2 i2 = pde_at s d2 i2" by (auto simp: e)
      then show ?thesis using a fresh[of d2 i2] by simp
    next
      case 3
      then have "pde_at s' d1 i1 = pde_at s d1 i1" "pde_at s' d2 i2 = v" by (auto simp: e)
      then show ?thesis using a fresh[of d1 i1] by simp
    next
      case 4
      then have "pde_at s' d1 i1 = pde_at s d1 i1" "pde_at s' d2 i2 = pde_at s d2 i2" by (auto simp: e)
      then show ?thesis using table_inj[OF tabs a(1,2) _ a(3,4)] a(5-7) by simp
    qed simp
    then show "d1 = d2" "i1 = i2" by auto
  qed (use tabs in \<open>simp_all add: tables_ok_def\<close>)
qed

lemma pde_update_inv:
  assumes inv: "pmap_inv D base s" and at: "d \<in> D" "i < NUPDE"
    and s': "frames s' = frames (poke (d, i) v s)" "npage s' = npage s" "free_list_ok s'"
    and old: "pte_valid (pde_at s d i) \<Longrightarrow> empty_table s (PPN (pde_at s d i))"
    and new: "pte_valid v \<Longrightarrow> empty_table s (PPN v) \<and> PPN v < npage s \<and> base (PPN v) = 0
                \<and> pde_slots s D (PPN v) = {} \<and> pte_slots s D (PPN v) = {}"
    and refs: "\<And>p. p < npage s \<Longrightarrow> unat (pp_ref s' p) =
      unat (pp_ref s p) - of_bool (pte_valid (pde_at s d i) \<and> PPN (pde_at s d i) = p)
      + of_bool (pte_valid v \<and> PPN v = p)"
    and vd: "pte_valid v \<Longrightarrow> PPN v \<noteq> d"
  shows "pmap_inv D base s'"
proof (rule pmap_invI)
  note parts = pmap_invD[OF inv]
  have fin: "finite D" using parts(2) by (simp add: tables_ok_def)
  note slots = poke_pde_slots[OF s'(1) at old _ tables_not[OF parts(2) at(1)] vd]
  have slots1: "pde_slots s' D p = pde_slots s D p - {(d, i)} \<union> (if pte_valid v \<and> PPN v = p then {(d, i)} else {})"
    and slots2: "pte_slots s' D p = pte_slots s D p" for p
    using slots new by auto
  have e: "pde_at s' d' i' = (if d' = d \<and> i' = i then v else pde_at s d' i')" for d' i'
    by (simp add: s' frames_poke)
  show "tables_ok D base s'"
    by (rule pde_update_tables[OF parts(2) s'(1,2)]) (use new in auto)
  show "leaves_ok D base s'"
    using parts(3) new unfolding leaves_ok_def slots1 slots2 s'(2) by auto
  show "refs_ok D base s'" unfolding refs_ok_def s'(2)
  proof (intro allI impI)
    fix p assume p: "p < npage s"
    have mem: "(d, i) \<in> pde_slots s D p \<longleftrightarrow> pte_valid (pde_at s d i) \<and> PPN (pde_at s d i) = p"
      using at by (simp add: pde_slots_def)
    have "card (pde_slots s' D p) =
        card (pde_slots s D p) - of_bool ((d, i) \<in> pde_slots s D p) + of_bool (pte_valid v \<and> PPN v = p)"
      unfolding slots1 by (rule card_replace) (simp add: fin)
    moreover have "of_bool ((d, i) \<in> pde_slots s D p) \<le> card (pde_slots s D p)"
      using fin by (auto simp: Suc_le_eq card_gt_0_iff)
    moreover have "unat (pp_ref s p) = page_refs s D p + base p"
      using parts(4) p by (simp add: refs_ok_def)
    ultimately show "unat (pp_ref s' p) = page_refs s' D p + base p"
      using refs[OF p] unfolding page_refs_def slots2 mem by linarith
  qed
qed (rule s'(3))

section \<open>The operations keep the invariant\<close>

text \<open>What every operation leaves alone: the contents of user pages, and the rest of the kernel state.\<close>

definition pmap_step :: "nat set \<Rightarrow> (nat \<Rightarrow> nat) \<Rightarrow> 'a pmap_state_scheme \<Rightarrow> 'a pmap_state_scheme \<Rightarrow> bool" where
  "pmap_step D base s s' \<longleftrightarrow> pmap_inv D base s' \<and> npage s' = npage s
     \<and> pmap_state.more s' = pmap_state.more s
     \<and> (\<forall>p. user_page D base s p \<longrightarrow> frames s' p = frames s p)"

definition same_vmap :: "nat set \<Rightarrow> 'a pmap_state_scheme \<Rightarrow> 'b pmap_state_scheme \<Rightarrow> bool" where
  "same_vmap D s s' \<longleftrightarrow> (\<forall>d\<in>D. \<forall>va<UTOP. vmap s' d va = vmap s d va)"

definition vmap_updated :: "nat set \<Rightarrow> nat \<Rightarrow> u32 \<Rightarrow> u32 option \<Rightarrow> 'a pmap_state_scheme \<Rightarrow> 'b pmap_state_scheme \<Rightarrow> bool" where
  "vmap_updated D d va e s s' \<longleftrightarrow>
     (\<forall>d'\<in>D. \<forall>va'<UTOP. vmap s' d' va' = (if d' = d \<and> VPN va' = VPN va then e else vmap s d' va'))"

lemma page_alloc_cases:
  assumes "free_list_ok s"
  obtains "page_free_list s = []" "page_alloc s = Ret (Inl E_NO_MEM, s)"
  | q fl where "page_free_list s = q # fl"
      "page_alloc s = Ret (Inr q, s\<lparr>page_free_list := fl, frames := (frames s)(q := (\<lambda>_. 0))\<rparr>)"
proof (cases "page_free_list s")
  case Nil
  then show ?thesis using that(1) by (simp add: page_alloc_def)
next
  case (Cons q fl)
  then have "q < npage s" "npage s \<le> 524288" using assms by (auto simp: free_list_ok_def)
  then have "page2kva s q = Ret (page2pa q + ULIM)" by (simp add: page2kva_def KADDR_def)
  then show ?thesis using Cons that(2) by (simp add: page_alloc_def list_remove_def)
qed

lemma page_alloc_same_tables:
  assumes "pmap_inv D base s" "page_free_list s = q # fl"
  shows "same_tables D s (s\<lparr>page_free_list := fl, frames := (frames s)(q := (\<lambda>_. 0))\<rparr>)"
proof -
  have "q < npage s" "pp_ref s q = 0" using free_unreferenced[OF assms(1)] assms(2) by auto
  note u = unreferenced[OF assms(1) this]
  have "PPN (pde_at s d i) \<noteq> q" if "d \<in> D" "i < NUPDE" "pte_valid (pde_at s d i)" for d i
    using u(1) that by (auto simp: pde_slots_def)
  then show ?thesis using u(4) by (auto simp: same_tables_def)
qed

lemma page_alloc_ok:
  assumes "pmap_inv D base s"
  shows "returns (\<lambda>(r, s'). pmap_step D base s s' \<and> same_vmap D s s' \<and>
    (case r of
       Inl e \<Rightarrow> e = E_NO_MEM \<and> page_free_list s = [] \<and> s' = s
     | Inr q \<Rightarrow> page_free_list s = q # page_free_list s' \<and> user_page D base s' q
              \<and> pp_ref s' q = 0 \<and> pp_ref s' = pp_ref s \<and> frames s' q = (\<lambda>_. 0)
              \<and> (\<forall>p. user_page D base s p \<longrightarrow> user_page D base s' p)))
    (page_alloc s)"
proof (cases rule: page_alloc_cases[OF pmap_invD(1)[OF assms]])
  case 1
  then show ?thesis using assms by (simp add: pmap_step_def same_vmap_def)
next
  case (2 q fl)
  let ?s' = "s\<lparr>page_free_list := fl, frames := (frames s)(q := (\<lambda>_. 0))\<rparr>"
  have q: "q < npage s" "pp_ref s q = 0" "q \<notin> set fl" "distinct fl"
    using free_unreferenced[OF assms] pmap_invD(1)[OF assms] 2(1) by (auto simp: free_list_ok_def)
  note u = unreferenced[OF assms q(1,2)] and same = page_alloc_same_tables[OF assms 2(1)]
  have "pmap_inv D base ?s'"
    by (rule same_tables_inv[OF same]) (use assms q 2(1) in auto)
  moreover have "user_page D base ?s' q"
    using q u same_tables_slots[OF same] by (simp add: user_page_def)
  ultimately show ?thesis
    using 2 q(2) same_tables_vmap[OF same] same_tables_slots(1)[OF same]
    by (auto simp: pmap_step_def same_vmap_def user_page_def)
qed

lemma KADDR_table:
  assumes "pmap_inv D base s" "d \<in> D" "PDX va < NUPDE" "pte_valid (pde_at s d (PDX va))"
  shows "KADDR s (PTE_ADDR (pde_at s d (PDX va))) = Ret (PTE_ADDR (pde_at s d (PDX va)) + ULIM)"
  using table_range(1)[OF pmap_invD(2)[OF assms(1)] assms(2-4)] by (simp add: KADDR_def)

lemma pgdir_walk_present:
  assumes "pmap_inv D base s" "d \<in> D" "PDX va < NUPDE" "pte_valid (pde_at s d (PDX va))"
  shows "pgdir_walk d va create s = Ret (Inr (Some (PPN (pde_at s d (PDX va)), PTX va)), s)"
  using assms(4) KADDR_table[OF assms] by (simp add: pgdir_walk_def Let_def peek_def)

lemma pgdir_walk_absent:
  "\<not> pte_valid (pde_at s d (PDX va)) \<Longrightarrow> pgdir_walk d va False s = Ret (Inr None, s)"
  by (simp add: pgdir_walk_def Let_def peek_def)

lemma new_pde:
  assumes "q < 1048576"
  shows "PPN ((page2pa q AND 0xfffff000) OR PTE_V OR PTE_D) = q"
    and "pte_valid ((page2pa q AND 0xfffff000) OR PTE_V OR PTE_D)"
proof -
  have m: "(0xfffff000 :: u32) = NOT 0xFFF" by simp
  have "page2pa q AND 0xfffff000 = PTE_ADDR (page2pa q)" unfolding m PTE_ADDR_def ..
  then show "PPN ((page2pa q AND 0xfffff000) OR PTE_V OR PTE_D) = q" using assms by simp
  have "(page2pa q AND 0xfffff000) OR PTE_V OR PTE_D = ((page2pa q AND 0xfffff000) OR PTE_D) OR PTE_V"
    by (simp only: or.assoc or.commute)
  then show "pte_valid ((page2pa q AND 0xfffff000) OR PTE_V OR PTE_D)" by simp
qed

lemma free_list_ok_tl:
  assumes "free_list_ok s" "page_free_list s = q # fl"
    and "page_free_list s' = fl" "npage s' = npage s" "\<forall>p. p \<noteq> q \<longrightarrow> pp_ref s' p = pp_ref s p"
  shows "free_list_ok s'"
  using assms by (auto simp: free_list_ok_def)

lemma pgdir_walk_create:
  assumes inv: "pmap_inv D base s" and d: "d \<in> D" and i: "PDX va < NUPDE"
    and absent: "\<not> pte_valid (pde_at s d (PDX va))" and free: "page_free_list s = q # fl"
  shows "\<exists>s'. pgdir_walk d va True s = Ret (Inr (Some (q, PTX va)), s') \<and> pmap_step D base s s' \<and> same_vmap D s s'
    \<and> pte_valid (pde_at s' d (PDX va)) \<and> PPN (pde_at s' d (PDX va)) = q \<and> frames s' q = (\<lambda>_. 0)
    \<and> page_free_list s' = fl \<and> pp_ref s' = (pp_ref s)(q := 1) \<and> (\<forall>p. p \<noteq> q \<longrightarrow> pde_slots s' D p = pde_slots s D p)"
proof -
  define s1 where "s1 = s\<lparr>page_free_list := fl, frames := (frames s)(q := (\<lambda>_. 0))\<rparr>"
  define v where "v = (page2pa q AND 0xfffff000) OR PTE_V OR PTE_D"
  define s' where "s' = incr_ref q (poke (d, PDX va) v s1)"
  have alloc: "page_alloc s = Ret (Inr q, s1)"
    using page_alloc_cases[OF pmap_invD(1)[OF inv]] free s1_def by (metis list.distinct(1) list.inject)
  from page_alloc_ok[OF inv] have s1: "pmap_inv D base s1" "same_vmap D s s1" "user_page D base s1 q"
    "pp_ref s1 q = 0" "pp_ref s1 = pp_ref s" "frames s1 q = (\<lambda>_. 0)" "page_free_list s1 = fl" "npage s1 = npage s"
    "pmap_state.more s1 = pmap_state.more s"
    by (auto simp: alloc free pmap_step_def s1_def)
  have q: "q < npage s" "npage s \<le> 524288" "q \<noteq> d"
    using s1 pmap_invD(1)[OF s1(1)] unreferenced(4)[OF s1(1) _ s1(4)] d
    by (auto simp: user_page_def free_list_ok_def)
  then have v: "PPN v = q" "pte_valid v" using new_pde[of q] by (auto simp: v_def)
  have fr: "frames s' = frames (poke (d, PDX va) v s1)" by (simp add: s'_def)
  note u = unreferenced[OF s1(1) _ s1(4)]
  have fl_ok: "free_list_ok s'"
    by (rule free_list_ok_tl[OF pmap_invD(1)[OF inv] free]) (simp_all add: s'_def s1)
  have pde1: "pde_at s1 d (PDX va) = pde_at s d (PDX va)" using q(3) by (simp add: s1_def)
  have empty: "empty_table s1 (PPN v)" by (simp add: empty_table_def v s1(6))
  have nd: "PPN v \<noteq> d" using v q by simp
  have inv': "pmap_inv D base s'"
  proof (rule pde_update_inv[OF s1(1) d i fr])
    show "unat (pp_ref s' p) = unat (pp_ref s1 p) - of_bool (pte_valid (pde_at s1 d (PDX va)) \<and> PPN (pde_at s1 d (PDX va)) = p)
        + of_bool (pte_valid v \<and> PPN v = p)" for p
      using absent s1(4,5) v by (simp add: pde1 s'_def)
  qed (use fl_ok empty nd v q u s1(8) absent pde1 in \<open>simp_all add: s'_def\<close>)
  have old: "pte_valid (pde_at s1 d (PDX va)) \<Longrightarrow> empty_table s1 (PPN (pde_at s1 d (PDX va)))"
    using absent pde1 by simp
  note dirs = tables_not[OF pmap_invD(2)[OF s1(1)] d]
  have "same_vmap D s s'"
    using poke_pde_vmap[OF fr old empty dirs nd] s1(2) by (simp add: same_vmap_def)
  moreover have "pgdir_walk d va True s = Ret (Inr (Some (q, PTX va)), s')"
  proof -
    have "peek s' (d, PDX va) = v" by (simp add: peek_def s'_def frames_poke)
    moreover have "page2pa q AND 0xfffff000 OR 0x600 = v" by (simp add: v_def)
    ultimately show ?thesis using absent alloc v q s1(8)
      by (simp add: pgdir_walk_def Let_def peek_def KADDR_def flip: s'_def) (simp add: s'_def)
  qed
  moreover have "pmap_step D base s s'"
    using inv' s1(8,9) d i free pmap_invD(2)[OF inv]
    by (auto simp: pmap_step_def s'_def frames_poke s1_def user_page_def tables_ok_def)
  moreover have "p \<noteq> q \<longrightarrow> pde_slots s' D p = pde_slots s D p" for p
    using same_tables_slots(1)[OF page_alloc_same_tables[OF inv free], folded s1_def]
      poke_pde_slots(1)[OF fr d i old empty dirs nd, of p] v absent
    by (auto simp: pde_slots_def)
  moreover have "pde_at s' d (PDX va) = v" "frames s' q = (\<lambda>_. 0)"
    using q(3) by (simp_all add: s'_def frames_poke s1(6))
  ultimately show ?thesis using v s1(4,5,7) by (auto simp: s'_def)
qed

lemma leaf_range:
  assumes "pmap_inv D base s" "d \<in> D" "PDX va < NUPDE" "vmap s d va = Some e"
  shows "PPN e < npage s" "base (PPN e) = 0" "pde_slots s D (PPN e) = {}" "pp_ref s (PPN e) \<noteq> 0"
    "PPN e \<notin> set (page_free_list s)" "user_page D base s (PPN e)"
proof -
  have "(d, PDX va, PTX va) \<in> pte_slots s D (PPN e)"
    using assms by (auto simp: pte_slots_def vmap_def split: if_splits)
  then have ne: "pte_slots s D (PPN e) \<noteq> {}" by auto
  then show 1: "PPN e < npage s" "base (PPN e) = 0" "pde_slots s D (PPN e) = {}"
    using pmap_invD(3)[OF assms(1)] by (auto simp: leaves_ok_def)
  show 2: "pp_ref s (PPN e) \<noteq> 0" using unreferenced(2)[OF assms(1) 1(1)] ne by auto
  then show 3: "PPN e \<notin> set (page_free_list s)" using free_unreferenced[OF assms(1)] by blast
  show "user_page D base s (PPN e)" using 1 3 by (simp add: user_page_def)
qed

text \<open>\<open>page_lookup\<close> and \<open>va2pa\<close> compute what the MMU sees.\<close>

lemma page_lookup_eq:
  assumes "pmap_inv D base s" "d \<in> D" "PDX va < NUPDE"
  shows "page_lookup d va s =
    Ret (case vmap s d va of None \<Rightarrow> None | Some e \<Rightarrow> Some (PPN e, (PPN (pde_at s d (PDX va)), PTX va)))"
proof (cases "pte_valid (pde_at s d (PDX va))")
  case True
  note w = pgdir_walk_present[OF assms True, of False]
  show ?thesis
  proof (cases "vmap s d va")
    case None
    with True show ?thesis by (auto simp: page_lookup_def w vmap_def peek_def split: if_splits)
  next
    case (Some e)
    then have "pte_at s d (PDX va) (PTX va) = e" "pte_valid e" by (auto simp: vmap_def split: if_splits)
    then show ?thesis using leaf_range(1)[OF assms Some] Some
      by (simp add: page_lookup_def w peek_def pa2page_def)
  qed
next
  case False
  then show ?thesis by (simp add: page_lookup_def pgdir_walk_absent vmap_def)
qed

lemma va2pa_eq:
  assumes "pmap_inv D base s" "d \<in> D" "PDX va < NUPDE"
  shows "va2pa s d va = Ret (case vmap s d va of None \<Rightarrow> NOT 0 | Some e \<Rightarrow> PTE_ADDR e)"
  using KADDR_table[OF assms] by (auto simp: va2pa_def Let_def vmap_def peek_def)

lemma page_decref_eq:
  assumes "pp_ref s p \<noteq> 0" "p \<notin> set (page_free_list s)"
  shows "page_decref p s = Ret (s\<lparr>pp_ref := (pp_ref s)(p := pp_ref s p - 1),
    page_free_list := (if pp_ref s p = 1 then p # page_free_list s else page_free_list s)\<rparr>)"
proof -
  have "0 < pp_ref s p" using assms(1) by (simp add: word_neq_0_conv)
  then show ?thesis using assms(2)
    by (simp add: page_decref_def page_free_def list_insert_head_def Let_def)
qed

lemma page_decref_free_list:
  assumes "free_list_ok s" "p < npage s" "p \<notin> set (page_free_list s)" "npage s' = npage s"
    and "pp_ref s' = (pp_ref s)(p := pp_ref s p - 1)"
    and "page_free_list s' = (if pp_ref s p = 1 then p # page_free_list s else page_free_list s)"
  shows "free_list_ok s'"
  using assms by (auto simp: free_list_ok_def split: if_splits)

lemma unat_minus_1: "x \<noteq> 0 \<Longrightarrow> unat (x - 1 :: u16) = unat x - 1"
  by (simp add: unat_minus_one)

lemma page_remove_absent:
  assumes "pmap_inv D base s" "d \<in> D" "PDX va < NUPDE" "vmap s d va = None"
  shows "page_remove d asid va s = Ret s"
  using assms by (simp add: page_remove_def page_lookup_eq)

lemma page_remove_present:
  assumes inv: "pmap_inv D base s" and d: "d \<in> D" and va: "va < UTOP" and e: "vmap s d va = Some e"
  shows "\<exists>s'. page_remove d asid va s = Ret s' \<and> pmap_step D base s s' \<and> vmap_updated D d va None s s'
    \<and> pde_slots s' D = pde_slots s D \<and> (\<forall>i. pde_at s' d i = pde_at s d i)
    \<and> pp_ref s' = (pp_ref s)(PPN e := pp_ref s (PPN e) - 1)
    \<and> set (page_free_list s') \<subseteq> insert (PPN e) (set (page_free_list s))"
proof -
  have i: "PDX va < NUPDE" using PDX_user[OF va] .
  note l = leaf_range[OF inv d i e] and tabs = pmap_invD(2)[OF inv]
  define t where "t = PPN (pde_at s d (PDX va))"
  have at: "pte_valid (pde_at s d (PDX va))" "pte_at s d (PDX va) (PTX va) = e" "pte_valid e"
    using e by (auto simp: vmap_def split: if_splits)
  define s1 where "s1 = s\<lparr>pp_ref := (pp_ref s)(PPN e := pp_ref s (PPN e) - 1),
    page_free_list := (if pp_ref s (PPN e) = 1 then PPN e # page_free_list s else page_free_list s)\<rparr>"
  define s' where "s' = tlb_invalidate asid va (poke (t, PTX va) 0 s1)"
  have run: "page_remove d asid va s = Ret s'"
    using page_decref_eq[OF l(4,5)]
    by (simp add: page_remove_def page_lookup_eq[OF inv d i] e s'_def t_def s1_def)
  have fr: "frames s' = frames (poke (PPN (pde_at s d (PDX va)), PTX va) 0 s)"
    by (simp add: s'_def s1_def t_def frames_poke)
  have s1: "pp_ref s1 = (pp_ref s)(PPN e := pp_ref s (PPN e) - 1)" "npage s1 = npage s"
    "pmap_state.more s1 = pmap_state.more s"
    "page_free_list s1 = (if pp_ref s (PPN e) = 1 then PPN e # page_free_list s else page_free_list s)"
    by (simp_all add: s1_def)
  have fl: "free_list_ok s'"
    by (rule page_decref_free_list[OF pmap_invD(1)[OF inv] l(1,5)]) (simp_all add: s'_def s1)
  have "pmap_inv D base s'"
    by (rule pte_update_inv[OF inv d i at(1) PTX_less fr _ fl])
       (use l(4) at in \<open>simp_all add: s'_def s1 unat_minus_1\<close>)
  moreover have "frames s' p = frames s p" if "user_page D base s p" for p
    using that d i at(1) by (auto simp: fr frames_poke user_page_def pde_slots_def)
  moreover have "vmap_updated D d va None s s'"
    using poke_pte_vmap[OF tabs d i at(1) PTX_less fr] by (auto simp: vmap_updated_def VPN_eq_iff)
  moreover have "pde_slots s' D = pde_slots s D"
    using poke_pte_slots(1)[OF tabs d i at(1) PTX_less fr] by blast
  moreover have "pde_at s' d i = pde_at s d i" for i
    using table_not_dir[OF tabs d i at(1)] d by (auto simp: fr frames_poke)
  ultimately show ?thesis using run s1 by (auto simp: pmap_step_def s'_def)
qed

lemma tlb_invalidate_inv [simp]:
  "vmap (tlb_invalidate a va s) = vmap s" "pde_slots (tlb_invalidate a va s) = pde_slots s"
  "pte_slots (tlb_invalidate a va s) = pte_slots s"
  "pmap_inv D base (tlb_invalidate a va s) = pmap_inv D base s"
  "user_page D base (tlb_invalidate a va s) = user_page D base s"
  by (simp_all add: fun_eq_iff vmap_def pde_slots_def pte_slots_def user_page_def pmap_inv_def
      free_list_ok_def tables_ok_def leaves_ok_def refs_ok_def page_refs_def)

lemma page2pa_or:
  assumes "pp < 1048576" "perm < 4096"
  shows "PPN (page2pa pp OR perm OR PTE_V) = pp"
  using assms by (simp add: or.assoc)

lemma leaf_valid [simp]: "pte_valid (x OR y OR PTE_V)"
  using or_PTE_V(1)[of "x OR y"] unfolding or.assoc .

text \<open>Filling an empty leaf: the last two statements of \<open>page_insert\<close>.\<close>

lemma fill_leaf:
  assumes inv: "pmap_inv D base s" and d: "d \<in> D" and va: "va < UTOP"
    and pp: "user_page D base s pp" "unat (pp_ref s pp) < 65535" and perm: "perm < 4096"
    and at: "pte_valid (pde_at s d (PDX va))" and none: "vmap s d va = None"
    and s': "s' = incr_ref pp (poke (PPN (pde_at s d (PDX va)), PTX va) (page2pa pp OR perm OR PTE_V) s)"
  shows "pmap_step D base s s'" "vmap_updated D d va (Some (page2pa pp OR perm OR PTE_V)) s s'"
proof -
  have i: "PDX va < NUPDE" using PDX_user[OF va] .
  note tabs = pmap_invD(2)[OF inv]
  have P: "PPN (page2pa pp OR perm OR PTE_V) = pp"
    using pp(1) pmap_invD(1)[OF inv] perm by (intro page2pa_or) (auto simp: user_page_def free_list_ok_def)
  have fr: "frames s' = frames (poke (PPN (pde_at s d (PDX va)), PTX va) (page2pa pp OR perm OR PTE_V) s)"
    by (simp add: s')
  have fl: "free_list_ok s'"
    using pmap_invD(1)[OF inv] pp(1) by (auto simp: free_list_ok_def s' user_page_def)
  have wrap: "unat (pp_ref s pp + 1) = unat (pp_ref s pp) + 1"
    using pp(2) by (simp add: unat_word_ariths)
  have "pmap_inv D base s'"
  proof (rule pte_update_inv[OF inv d i at PTX_less fr _ fl])
    show "unat (pp_ref s' p) = unat (pp_ref s p) - of_bool (pte_valid (pte_at s d (PDX va) (PTX va)) \<and> PPN (pte_at s d (PDX va) (PTX va)) = p)
        + of_bool (pte_valid (page2pa pp OR perm OR PTE_V) \<and> PPN (page2pa pp OR perm OR PTE_V) = p)" for p
      using none at wrap by (auto simp: s' P vmap_def split: if_splits)
  qed (use pp(1) P in \<open>simp_all add: s' user_page_def\<close>)
  moreover have "frames s' p = frames s p" if "user_page D base s p" for p
    using that d i at by (auto simp: fr frames_poke user_page_def pde_slots_def)
  ultimately show "pmap_step D base s s'" by (simp add: pmap_step_def s')
  show "vmap_updated D d va (Some (page2pa pp OR perm OR PTE_V)) s s'"
    using poke_pte_vmap[OF tabs d i at PTX_less fr] by (auto simp: vmap_updated_def VPN_eq_iff)
qed

definition insert_post where
  "insert_post D base d pp va perm s = (\<lambda>(r, s'). pmap_step D base s s' \<and>
     (case r of
        Inr _ \<Rightarrow> vmap_updated D d va (Some (page2pa pp OR perm OR PTE_V)) s s'
      | Inl e \<Rightarrow> e = E_NO_MEM \<and> page_free_list s = [] \<and> \<not> pte_valid (pde_at s d (PDX va))
               \<and> page_free_list s' = [] \<and> pp_ref s' = pp_ref s \<and> same_vmap D s s'))"

lemma page_insert_finish_present:
  assumes inv: "pmap_inv D base s" and d: "d \<in> D" and va: "va < UTOP"
    and at: "pte_valid (pde_at s d (PDX va))"
  shows "page_insert_finish d asid pp va perm s =
    Ret (Inr (), incr_ref pp (poke (PPN (pde_at s d (PDX va)), PTX va) (page2pa pp OR perm OR PTE_V) (tlb_invalidate asid va s)))"
  using pgdir_walk_present[of D base "tlb_invalidate asid va s" d va True] inv d at PDX_user[OF va]
  by (simp add: page_insert_finish_def)

lemma page_insert_finish_present_ok:
  assumes inv: "pmap_inv D base s" and d: "d \<in> D" and va: "va < UTOP"
    and pp: "user_page D base s pp" "unat (pp_ref s pp) < 65535" and perm: "perm < 4096"
    and at: "pte_valid (pde_at s d (PDX va))" and none: "vmap s d va = None"
  shows "\<exists>s'. page_insert_finish d asid pp va perm s = Ret (Inr (), s') \<and> pmap_step D base s s'
    \<and> vmap_updated D d va (Some (page2pa pp OR perm OR PTE_V)) s s'
    \<and> (\<forall>p. p \<noteq> PPN (pde_at s d (PDX va)) \<longrightarrow> frames s' p = frames s p)"
  using fill_leaf[of D base "tlb_invalidate asid va s" d va pp perm] assms
  by (simp add: page_insert_finish_present[OF inv d va at] pmap_step_def vmap_updated_def frames_poke)

lemma page_insert_finish_ok:
  assumes inv: "pmap_inv D base s" and d: "d \<in> D" and va: "va < UTOP"
    and pp: "user_page D base s pp" "unat (pp_ref s pp) < 65535" and perm: "perm < 4096"
    and none: "vmap s d va = None"
  shows "returns (insert_post D base d pp va perm s) (page_insert_finish d asid pp va perm s)"
proof -
  define s0 where "s0 = tlb_invalidate asid va s"
  have s0: "pmap_inv D base s0" "user_page D base s0 pp" "vmap s0 = vmap s" "pp_ref s0 = pp_ref s"
    "page_free_list s0 = page_free_list s" "frames s0 = frames s" "npage s0 = npage s"
    "pmap_state.more s0 = pmap_state.more s"
    using inv pp by (simp_all add: s0_def)
  have up0: "user_page D base s0 = user_page D base s" by (simp add: s0_def)
  have i: "PDX va < NUPDE" using PDX_user[OF va] .
  consider (present) "pte_valid (pde_at s d (PDX va))"
    | (full) "\<not> pte_valid (pde_at s d (PDX va))" "page_free_list s = []"
    | (create) q fl where "\<not> pte_valid (pde_at s d (PDX va))" "page_free_list s = q # fl"
    by (cases "page_free_list s") auto
  then show ?thesis
  proof cases
    case present
    from page_insert_finish_present_ok[OF inv d va pp perm this none, of asid]
    show ?thesis by (auto simp: insert_post_def)
  next
    case full
    have "pgdir_walk d va True s0 = Ret (Inl E_NO_MEM, s0)"
      using full s0 by (simp add: pgdir_walk_def Let_def peek_def page_alloc_def)
    then show ?thesis using full s0
      by (simp add: page_insert_finish_def insert_post_def pmap_step_def same_vmap_def flip: s0_def)
  next
    case create
    then obtain s1 where s1: "pgdir_walk d va True s0 = Ret (Inr (Some (q, PTX va)), s1)"
      "pmap_step D base s0 s1" "same_vmap D s0 s1" "pte_valid (pde_at s1 d (PDX va))" "PPN (pde_at s1 d (PDX va)) = q"
      "page_free_list s1 = fl" "pp_ref s1 = (pp_ref s0)(q := 1)" "\<forall>p. p \<noteq> q \<longrightarrow> pde_slots s1 D p = pde_slots s0 D p"
      using pgdir_walk_create[OF s0(1) d i, of q fl] s0 by auto
    have q: "pp \<noteq> q" using pp(1) create(2) by (auto simp: user_page_def)
    have pp1: "user_page D base s1 pp" "unat (pp_ref s1 pp) < 65535"
      using pp s1(2,6,7,8) s0 q create(2) by (auto simp: user_page_def pmap_step_def s0_def)
    have none1: "vmap s1 d va = None" using s1(3) none s0 d va by (simp add: same_vmap_def)
    have inv1: "pmap_inv D base s1" using s1(2) by (simp add: pmap_step_def)
    note f = fill_leaf[OF inv1 d va pp1 perm s1(4) none1 refl]
    have keep: "user_page D base s p \<Longrightarrow> user_page D base s1 p" for p
      using s1(2,6,8) s0 create(2) by (auto simp: user_page_def pmap_step_def s0_def)
    show ?thesis using f s1 s0 keep up0
      by (auto simp: page_insert_finish_def insert_post_def pmap_step_def vmap_updated_def same_vmap_def simp flip: s0_def)
  qed
qed

lemma page_insert_same:
  assumes inv: "pmap_inv D base s" and d: "d \<in> D" and va: "va < UTOP" and perm: "perm < 4096"
    and e: "vmap s d va = Some e" "PPN e = pp"
    and s': "s' = poke (PPN (pde_at s d (PDX va)), PTX va) (page2pa pp OR perm OR PTE_V) (tlb_invalidate asid va s)"
  shows "pmap_step D base s s'" "vmap_updated D d va (Some (page2pa pp OR perm OR PTE_V)) s s'"
proof -
  have i: "PDX va < NUPDE" using PDX_user[OF va] .
  note tabs = pmap_invD(2)[OF inv] and l = leaf_range[OF inv d i e(1), unfolded e(2)]
  have at: "pte_valid (pde_at s d (PDX va))" "pte_at s d (PDX va) (PTX va) = e" "pte_valid e"
    using e by (auto simp: vmap_def split: if_splits)
  have P: "PPN (page2pa pp OR perm OR PTE_V) = pp"
    using l(1) pmap_invD(1)[OF inv] perm by (intro page2pa_or) (auto simp: free_list_ok_def)
  have fr: "frames s' = frames (poke (PPN (pde_at s d (PDX va)), PTX va) (page2pa pp OR perm OR PTE_V) s)"
    by (simp add: s' frames_poke)
  have fl: "free_list_ok s'" using pmap_invD(1)[OF inv] by (auto simp: free_list_ok_def s')
  have pos: "0 < unat (pp_ref s pp)" using l(4) by (simp add: unat_gt_0)
  have "pmap_inv D base s'"
    by (rule pte_update_inv[OF inv d i at(1) PTX_less fr _ fl]) (use l P at e(2) pos in \<open>auto simp: s'\<close>)
  moreover have "frames s' p = frames s p" if "user_page D base s p" for p
    using that d i at(1) by (auto simp: fr frames_poke user_page_def pde_slots_def)
  ultimately show "pmap_step D base s s'" by (simp add: pmap_step_def s')
  show "vmap_updated D d va (Some (page2pa pp OR perm OR PTE_V)) s s'"
    using poke_pte_vmap[OF tabs d i at(1) PTX_less fr] by (auto simp: vmap_updated_def VPN_eq_iff)
qed

lemma page_insert_ok:
  assumes inv: "pmap_inv D base s" and d: "d \<in> D" and va: "va < UTOP"
    and pp: "user_page D base s pp" "unat (pp_ref s pp) < 65535" and perm: "perm < 4096"
  shows "returns (insert_post D base d pp va perm s) (page_insert d asid pp va perm s)"
proof -
  have i: "PDX va < NUPDE" using PDX_user[OF va] .
  show ?thesis
  proof (cases "vmap s d va")
    case None
    then have "page_insert d asid pp va perm s = page_insert_finish d asid pp va perm s"
      by (cases "pte_valid (pde_at s d (PDX va))")
         (auto simp: page_insert_def pgdir_walk_absent pgdir_walk_present[OF inv d i] vmap_def peek_def split: if_splits)
    then show ?thesis using page_insert_finish_ok[OF inv d va pp perm None] by simp
  next
    case (Some e)
    then have at: "pte_valid (pde_at s d (PDX va))" "pte_at s d (PDX va) (PTX va) = e" "pte_valid e"
      by (auto simp: vmap_def split: if_splits)
    note run = page_insert_def[of d asid pp va perm s] pgdir_walk_present[OF inv d i at(1)]
    have old: "pa2page s e = Ret (PPN e)" using leaf_range(1)[OF inv d i Some] by (simp add: pa2page_def)
    show ?thesis
    proof (cases "PPN e = pp")
      case True
      then show ?thesis using page_insert_same[OF inv d va perm Some True refl, of asid] run old at
        by (simp add: peek_def insert_post_def Let_def)
    next
      case False
      obtain s1 where s1: "page_remove d asid va s = Ret s1" "pmap_step D base s s1"
        "vmap_updated D d va None s s1" "pde_slots s1 D = pde_slots s D" "\<forall>i. pde_at s1 d i = pde_at s d i"
        "pp_ref s1 = (pp_ref s)(PPN e := pp_ref s (PPN e) - 1)"
        "set (page_free_list s1) \<subseteq> insert (PPN e) (set (page_free_list s))"
        using page_remove_present[OF inv d va Some, of asid] by blast
      have inv1: "pmap_inv D base s1" "vmap s1 d va = None"
        using s1(2,3) d va by (simp_all add: pmap_step_def vmap_updated_def)
      have pp1: "user_page D base s1 pp" "unat (pp_ref s1 pp) < 65535"
        using pp s1(2,4,6,7) False by (auto simp: user_page_def pmap_step_def)
      have "page_insert d asid pp va perm s = page_insert_finish d asid pp va perm s1"
        using run old at False s1(1) by (simp add: peek_def)
      moreover obtain s2 where s2: "page_insert_finish d asid pp va perm s1 = Ret (Inr (), s2)" "pmap_step D base s1 s2"
        "vmap_updated D d va (Some (page2pa pp OR perm OR PTE_V)) s1 s2"
        "\<forall>p. p \<noteq> PPN (pde_at s d (PDX va)) \<longrightarrow> frames s2 p = frames s1 p"
        using page_insert_finish_present_ok[OF inv1(1) d va pp1 perm _ inv1(2), of asid] s1(5) at(1) by auto
      moreover have "user_page D base s p \<Longrightarrow> p \<noteq> PPN (pde_at s d (PDX va))" for p
        using d i at(1) by (auto simp: user_page_def pde_slots_def)
      ultimately show ?thesis using s1(2,3)
        by (auto simp: insert_post_def pmap_step_def vmap_updated_def)
    qed
  qed
qed

text \<open>Exactly one entry of the address space of \<open>d\<close> is written, and the contents of no user page change.\<close>

definition leaf_written :: "nat set \<Rightarrow> (nat \<Rightarrow> nat) \<Rightarrow> nat \<Rightarrow> u32 \<Rightarrow> u32 \<Rightarrow> 'a pmap_state_scheme \<Rightarrow> 'a pmap_state_scheme \<Rightarrow> bool" where
  "leaf_written D base d va e s s' \<longleftrightarrow> vmap_updated D d va (Some e) s s' \<and> npage s' = npage s
     \<and> pmap_state.more s' = pmap_state.more s \<and> (\<forall>p. user_page D base s p \<longrightarrow> frames s' p = frames s p)"

lemma poke_leaf_written:
  assumes inv: "pmap_inv D base s" and d: "d \<in> D" and va: "va < UTOP" and at: "pte_valid (pde_at s d (PDX va))"
    and fr: "frames s' = frames (poke (PPN (pde_at s d (PDX va)), PTX va) e s)" and e: "pte_valid e"
    and more: "npage s' = npage s" "pmap_state.more s' = pmap_state.more s"
  shows "leaf_written D base d va e s s'"
proof -
  have i: "PDX va < NUPDE" using PDX_user[OF va] .
  have "frames s' p = frames s p" if "user_page D base s p" for p
    using that d i at by (auto simp: fr frames_poke user_page_def pde_slots_def)
  moreover have "vmap_updated D d va (Some e) s s'"
    using poke_pte_vmap[OF pmap_invD(2)[OF inv] d i at PTX_less fr] e by (auto simp: vmap_updated_def VPN_eq_iff)
  ultimately show ?thesis using more by (simp add: leaf_written_def)
qed

lemma leaf_written_after:
  assumes "leaf_written D base d va e s1 s2" and "pmap_step D base s s1" and "same_vmap D s s1 \<or> vmap_updated D d va x s s1"
    and "\<And>p. user_page D base s p \<Longrightarrow> user_page D base s1 p"
  shows "leaf_written D base d va e s s2"
  using assms by (auto simp: leaf_written_def pmap_step_def same_vmap_def vmap_updated_def)

lemma page_insert_finish_any:
  assumes inv: "pmap_inv D base s" and d: "d \<in> D" and va: "va < UTOP" and pp: "user_page D base s pp"
  shows "returns (\<lambda>(r, s'). case r of Inr _ \<Rightarrow> leaf_written D base d va (page2pa pp OR perm OR PTE_V) s s'
     | Inl e \<Rightarrow> e = E_NO_MEM \<and> page_free_list s = [] \<and> pmap_step D base s s' \<and> same_vmap D s s') (page_insert_finish d asid pp va perm s)"
proof -
  let ?e = "page2pa pp OR perm OR PTE_V"
  define s0 where "s0 = tlb_invalidate asid va s"
  have s0: "pmap_inv D base s0" "vmap s0 = vmap s" "page_free_list s0 = page_free_list s" "frames s0 = frames s" "npage s0 = npage s"
    "pmap_state.more s0 = pmap_state.more s" "user_page D base s0 = user_page D base s"
    using inv by (simp_all add: s0_def)
  consider (present) "pte_valid (pde_at s d (PDX va))"
    | (full) "\<not> pte_valid (pde_at s d (PDX va))" "page_free_list s = []"
    | (create) q fl where "\<not> pte_valid (pde_at s d (PDX va))" "page_free_list s = q # fl"
    by (cases "page_free_list s") auto
  then show ?thesis
  proof cases
    case present
    have "leaf_written D base d va ?e s (incr_ref pp (poke (PPN (pde_at s d (PDX va)), PTX va) ?e (tlb_invalidate asid va s)))"
      by (rule poke_leaf_written[OF inv d va present]) (simp_all add: frames_poke leaf_valid)
    then show ?thesis by (simp add: page_insert_finish_present[OF inv d va present])
  next
    case full
    have "pgdir_walk d va True s0 = Ret (Inl E_NO_MEM, s0)"
      using full s0 by (simp add: pgdir_walk_def Let_def peek_def page_alloc_def)
    then show ?thesis using full s0
      by (simp add: page_insert_finish_def pmap_step_def same_vmap_def flip: s0_def)
  next
    case create
    then obtain s1 where s1: "pgdir_walk d va True s0 = Ret (Inr (Some (q, PTX va)), s1)"
      "pmap_step D base s0 s1" "same_vmap D s0 s1" "pte_valid (pde_at s1 d (PDX va))" "PPN (pde_at s1 d (PDX va)) = q"
      "page_free_list s1 = fl" "\<forall>p. p \<noteq> q \<longrightarrow> pde_slots s1 D p = pde_slots s0 D p"
      using pgdir_walk_create[OF s0(1) d PDX_user[OF va], of q fl] s0 by auto
    have inv1: "pmap_inv D base s1" using s1(2) by (simp add: pmap_step_def)
    have w: "leaf_written D base d va ?e s1 (incr_ref pp (poke (q, PTX va) ?e s1))"
      by (rule poke_leaf_written[OF inv1 d va s1(4)]) (simp_all add: s1(5) leaf_valid)
    have "user_page D base s p \<Longrightarrow> user_page D base s1 p" for p
      using s1(2,6,7) s0 create(2) by (auto simp: user_page_def pmap_step_def s0_def)
    moreover have "pmap_step D base s s1" "same_vmap D s s1" using s1(2,3) s0 by (simp_all add: pmap_step_def same_vmap_def)
    ultimately have "leaf_written D base d va ?e s (incr_ref pp (poke (q, PTX va) ?e s1))"
      using leaf_written_after[OF w] by blast
    then show ?thesis using s1(1) by (simp add: page_insert_finish_def Let_def flip: s0_def)
  qed
qed

text \<open>
  With any permission word at all, \<open>page_insert\<close> writes exactly one entry; what it does not promise then is that
  the entry refers to the frame it was given, or that the reference counts still agree with the entries.
\<close>

lemma page_insert_any:
  assumes inv: "pmap_inv D base s" and d: "d \<in> D" and va: "va < UTOP" and pp: "user_page D base s pp"
  shows "returns (\<lambda>(r, s'). case r of Inr _ \<Rightarrow> leaf_written D base d va (page2pa pp OR perm OR PTE_V) s s'
     | Inl e \<Rightarrow> e = E_NO_MEM \<and> page_free_list s = [] \<and> pmap_step D base s s' \<and> same_vmap D s s') (page_insert d asid pp va perm s)"
proof -
  have i: "PDX va < NUPDE" using PDX_user[OF va] .
  let ?e = "page2pa pp OR perm OR PTE_V"
  show ?thesis
  proof (cases "vmap s d va")
    case None
    then have "page_insert d asid pp va perm s = page_insert_finish d asid pp va perm s"
      by (cases "pte_valid (pde_at s d (PDX va))")
         (auto simp: page_insert_def pgdir_walk_absent pgdir_walk_present[OF inv d i] vmap_def peek_def split: if_splits)
    then show ?thesis using page_insert_finish_any[OF inv d va pp] by simp
  next
    case (Some e)
    then have at: "pte_valid (pde_at s d (PDX va))" "pte_at s d (PDX va) (PTX va) = e" "pte_valid e"
      by (auto simp: vmap_def split: if_splits)
    note run = page_insert_def[of d asid pp va perm s] pgdir_walk_present[OF inv d i at(1)]
    have old: "pa2page s e = Ret (PPN e)" using leaf_range(1)[OF inv d i Some] by (simp add: pa2page_def)
    show ?thesis
    proof (cases "PPN e = pp")
      case True
      have "leaf_written D base d va ?e s (poke (PPN (pde_at s d (PDX va)), PTX va) ?e (tlb_invalidate asid va s))"
        by (rule poke_leaf_written[OF inv d va at(1)]) (simp_all add: frames_poke leaf_valid)
      then show ?thesis using run old at True by (simp add: peek_def Let_def)
    next
      case False
      obtain s1 where s1: "page_remove d asid va s = Ret s1" "pmap_step D base s s1"
        "vmap_updated D d va None s s1" "pde_slots s1 D = pde_slots s D" "\<forall>i. pde_at s1 d i = pde_at s d i"
        "set (page_free_list s1) \<subseteq> insert (PPN e) (set (page_free_list s))"
        using page_remove_present[OF inv d va Some, of asid] by blast
      have inv1: "pmap_inv D base s1" using s1(2) by (simp add: pmap_step_def)
      have at1: "pte_valid (pde_at s1 d (PDX va))" using s1(5) at(1) by simp
      let ?s2 = "incr_ref pp (poke (PPN (pde_at s1 d (PDX va)), PTX va) ?e (tlb_invalidate asid va s1))"
      have ins: "page_insert d asid pp va perm s = Ret (Inr (), ?s2)"
        using run old at False s1(1) page_insert_finish_present[OF inv1 d va at1] by (simp add: peek_def)
      have "leaf_written D base d va ?e s1 ?s2"
        by (rule poke_leaf_written[OF inv1 d va at1]) (simp_all add: frames_poke leaf_valid)
      then have "vmap_updated D d va (Some ?e) s ?s2" "npage ?s2 = npage s" "pmap_state.more ?s2 = pmap_state.more s"
        using s1(2,3) by (auto simp: leaf_written_def vmap_updated_def pmap_step_def)
      moreover have "frames ?s2 p = frames s p" if u: "user_page D base s p" for p
      proof -
        have "p \<noteq> PPN (pde_at s d (PDX va))" using u d i at(1) by (auto simp: user_page_def pde_slots_def)
        then show ?thesis using u s1(2,5) by (simp add: frames_poke pmap_step_def)
      qed
      ultimately show ?thesis unfolding ins by (simp add: leaf_written_def)
    qed
  qed
qed

section \<open>The TLB never holds a stale translation\<close>

abbreviation entry_hi :: "u32 \<Rightarrow> u32 \<Rightarrow> u32" where
  "entry_hi va asid \<equiv> PTE_ADDR va OR push_bit 6 asid"

definition tlb_coherent :: "(u32 \<rightharpoonup> nat) \<Rightarrow> 'a pmap_state_scheme \<Rightarrow> bool" where
  "tlb_coherent A s \<longleftrightarrow> (\<forall>asid d va lo. A asid = Some d \<longrightarrow> va < UTOP \<longrightarrow>
     tlb s (entry_hi va asid) = Some lo \<longrightarrow> vmap s d va = Some lo)"

lemma page_alloc_tlb: "page_alloc s = Ret (r, s') \<Longrightarrow> tlb s' = tlb s"
  by (auto simp: page_alloc_def obind_eq_Ret split: list.splits)

lemma pgdir_walk_tlb: "pgdir_walk d va c s = Ret (r, s') \<Longrightarrow> tlb s' = tlb s"
  by (auto simp: pgdir_walk_def Let_def obind_eq_Ret otry_eq_Ret dest: page_alloc_tlb split: if_splits)

lemma page_decref_tlb: "page_decref p s = Ret s' \<Longrightarrow> tlb s' = tlb s"
  by (auto simp: page_decref_def page_free_def Let_def obind_eq_Ret guard_panic_def split: if_splits)

lemma page_remove_tlb:
  "page_remove d asid va s = Ret s' \<Longrightarrow> tlb s' = tlb s \<or> tlb s' = (tlb s)(entry_hi va asid := None)"
  by (auto simp: page_remove_def obind_eq_Ret tlb_invalidate_def tlb_out_def dest!: page_decref_tlb split: option.splits)

lemma page_remove_some_tlb:
  "page_remove d asid va s = Ret s' \<Longrightarrow> page_lookup d va s = Ret (Some x) \<Longrightarrow> tlb s' = (tlb s)(entry_hi va asid := None)"
  by (cases x) (auto simp: page_remove_def obind_eq_Ret tlb_invalidate_def tlb_out_def dest: page_decref_tlb)

lemma page_insert_finish_tlb:
  "page_insert_finish d asid pp va perm s = Ret (r, s') \<Longrightarrow> tlb s' = (tlb s)(entry_hi va asid := None)"
  by (auto simp: page_insert_finish_def Let_def otry_eq_Ret tlb_invalidate_def tlb_out_def dest!: pgdir_walk_tlb split: option.splits)

lemma page_insert_tlb:
  assumes "page_insert d asid pp va perm s = Ret (r, s')"
  shows "tlb s' = (tlb s)(entry_hi va asid := None)"
proof -
  obtain r1 s1 where w: "pgdir_walk d va False s = Ret (r1, s1)"
    using assms by (cases "pgdir_walk d va False s") (auto simp: page_insert_def)
  then have t1: "tlb s1 = tlb s" by (rule pgdir_walk_tlb)
  consider "page_insert_finish d asid pp va perm s1 = Ret (r, s')"
    | s2 where "page_remove d asid va s1 = Ret s2" "page_insert_finish d asid pp va perm s2 = Ret (r, s')"
    | q v where "s' = poke q v (tlb_invalidate asid va s1)"
    using assms w
    by (auto simp: page_insert_def Let_def obind_eq_Ret split: sum.splits option.splits if_splits)
  then show ?thesis
    by cases (auto simp: t1 tlb_invalidate_def tlb_out_def dest!: page_insert_finish_tlb page_remove_tlb)
qed

lemma tlb_coherent_update:
  assumes "tlb_coherent A s" "inj_on A (dom A)" "A asid = Some d" "ran A \<subseteq> D"
    and "tlb s' = (tlb s)(entry_hi va asid := None)" and "vmap_updated D d va e s s'"
  shows "tlb_coherent A s'"
  unfolding tlb_coherent_def
proof (intro allI impI)
  fix a d' va' lo
  assume a: "A a = Some d'" "va' < UTOP" "tlb s' (entry_hi va' a) = Some lo"
  then have ne: "entry_hi va' a \<noteq> entry_hi va asid" and "tlb s (entry_hi va' a) = Some lo"
    using assms(5) by (auto split: if_splits)
  then have "vmap s d' va' = Some lo" using assms(1) a by (auto simp: tlb_coherent_def)
  moreover have "\<not> (d' = d \<and> VPN va' = VPN va)"
  proof
    assume eq: "d' = d \<and> VPN va' = VPN va"
    then have "a = asid" using assms(2,3) a(1) by (metis domI inj_onD)
    moreover have "PTE_ADDR va' = PTE_ADDR va" using eq by (simp add: word_unat_eq_iff unat_PTE_ADDR)
    ultimately show False using ne by simp
  qed
  moreover have "d' \<in> D" using a(1) assms(4) by (auto intro: ranI)
  ultimately show "vmap s' d' va' = Some lo" using assms(6) a(2) by (auto simp: vmap_updated_def)
qed

section \<open>Booting establishes the invariant\<close>

lemma mark_used_loop:
  "ofold mark_used is s = Ret (s\<lparr>pp_ref := (\<lambda>p. if p \<in> set is then 1 else pp_ref s p)\<rparr>)"
proof (induction "is" arbitrary: s)
  case (Cons a x)
  have "mark_used a s = Ret (s\<lparr>pp_ref := (pp_ref s)(a := 1)\<rparr>)" by (simp add: mark_used_def)
  then show ?case by (simp add: Cons) (intro pmap_state.equality; auto)
qed simp

lemma mark_free_loop:
  assumes "page_free_list s = []"
  shows "ofold mark_free [a..<b] s =
    Ret (s\<lparr>pp_ref := (\<lambda>p. if a \<le> p \<and> p < b then 0 else pp_ref s p), page_free_list := rev [a..<b]\<rparr>)"
proof (induction b)
  case 0
  show ?case using assms by simp
next
  case (Suc b)
  show ?case
  proof (cases "a \<le> b")
    case True
    have "mark_free b (s\<lparr>pp_ref := (\<lambda>p. if a \<le> p \<and> p < b then 0 else pp_ref s p), page_free_list := rev [a..<b]\<rparr>)
      = Ret (s\<lparr>pp_ref := (\<lambda>p. if a \<le> p \<and> p < Suc b then 0 else pp_ref s p), page_free_list := rev [a..<Suc b]\<rparr>)"
      unfolding mark_free_def list_insert_head_def using True
      by (simp, intro pmap_state.equality) (auto simp: fun_eq_iff)
    then show ?thesis using True Suc by (simp add: ofold_append)
  next
    case False
    then show ?thesis using assms by simp (intro pmap_state.equality; auto simp: fun_eq_iff)
  qed
qed

definition boot_pages :: "'a pmap_state_scheme \<Rightarrow> nat" where
  "boot_pages s = unat ((ROUND (freemem s) BY2PG - ULIM) div BY2PG)"

lemma page_init_eq:
  assumes "freemem s \<le> ROUND (freemem s) BY2PG" "ULIM \<le> freemem s"
  shows "page_init s = Ret (s\<lparr>freemem := ROUND (freemem s) BY2PG,
           pp_ref := (\<lambda>p. if boot_pages s \<le> p \<and> p < npage s then 0 else if p < boot_pages s then 1 else pp_ref s p),
           page_free_list := rev [boot_pages s..<npage s]\<rparr>)"
proof -
  have "ULIM \<le> ROUND (freemem s) BY2PG" using assms(1,2) by (rule order_trans[rotated])
  then show ?thesis
    by (simp add: page_init_def Let_def PADDR_def mark_used_loop mark_free_loop flip: boot_pages_def not_le)
       (intro pmap_state.equality; auto simp: fun_eq_iff boot_pages_def)
qed

lemma page_init_inv:
  assumes "npage s \<le> 524288" "freemem s \<le> ROUND (freemem s) BY2PG" "ULIM \<le> freemem s"
    and "boot_pages s \<le> npage s"
  shows "returns (\<lambda>s'. pmap_inv {} (\<lambda>p. of_bool (p < boot_pages s)) s'
       \<and> page_free_list s' = rev [boot_pages s..<npage s]) (page_init s)"
proof -
  have "pde_slots s' {} p = {}" "pte_slots s' {} p = {}" for s' :: "'a pmap_state_scheme" and p
    by (simp_all add: pde_slots_def pte_slots_def)
  then show ?thesis using assms
    by (auto simp: page_init_eq pmap_inv_def free_list_ok_def tables_ok_def leaves_ok_def refs_ok_def page_refs_def)
qed

section \<open>Properties\<close>

lemma page_remove_ok:
  assumes inv: "pmap_inv D base s" and d: "d \<in> D" and va: "va < UTOP"
  shows "returns (\<lambda>s'. pmap_step D base s s' \<and> vmap_updated D d va None s s') (page_remove d asid va s)"
proof (cases "vmap s d va")
  case None
  then have "vmap_updated D d va None s s"
    by (auto simp: vmap_updated_def vmap_def VPN_eq_iff split: if_splits)
  then show ?thesis
    using None inv by (simp add: page_remove_absent[OF inv d PDX_user[OF va]] pmap_step_def)
next
  case (Some e)
  from page_remove_present[OF inv d va this, of asid] show ?thesis by auto
qed

lemma page_remove_coherent:
  assumes inv: "pmap_inv D base s" and d: "d \<in> D" and va: "va < UTOP"
    and tlb: "tlb_coherent A s" "inj_on A (dom A)" "A asid = Some d" "ran A \<subseteq> D"
    and run: "page_remove d asid va s = Ret s'"
  shows "tlb_coherent A s'"
proof (cases "vmap s d va")
  case None
  then show ?thesis using run page_remove_absent[OF inv d PDX_user[OF va]] tlb(1) by simp
next
  case (Some e)
  then have "tlb s' = (tlb s)(entry_hi va asid := None)"
    using page_remove_some_tlb[OF run] page_lookup_eq[OF inv d PDX_user[OF va]] by simp
  moreover have "vmap_updated D d va None s s'"
    using page_remove_ok[OF inv d va, of asid] run by simp
  ultimately show ?thesis by (rule tlb_coherent_update[OF tlb])
qed

lemma page_insert_coherent:
  assumes inv: "pmap_inv D base s" and d: "d \<in> D" and va: "va < UTOP"
    and pp: "user_page D base s pp" "unat (pp_ref s pp) < 65535" and perm: "perm < 4096"
    and tlb: "tlb_coherent A s" "inj_on A (dom A)" "A asid = Some d" "ran A \<subseteq> D"
    and run: "page_insert d asid pp va perm s = Ret (r, s')"
  shows "tlb_coherent A s'"
proof -
  have t: "tlb s' = (tlb s)(entry_hi va asid := None)" using run by (rule page_insert_tlb)
  have post: "insert_post D base d pp va perm s (r, s')"
    using page_insert_ok[OF inv d va pp perm, of asid] run by simp
  show ?thesis
  proof (cases r)
    case (Inr u)
    then have "vmap_updated D d va (Some (page2pa pp OR perm OR PTE_V)) s s'"
      using post by (simp add: insert_post_def)
    with tlb t show ?thesis by (rule tlb_coherent_update)
  next
    case (Inl e)
    then have "same_vmap D s s'" using post by (simp add: insert_post_def)
    then show ?thesis using tlb(1,4) t
      by (auto simp: tlb_coherent_def same_vmap_def intro!: ranI split: if_splits)
  qed
qed

text \<open>A small machine for the witnesses: 16 frames, frame 1 an empty page directory, frame 2 in use.\<close>

definition demo_pmap :: pmap_state where
  "demo_pmap = \<lparr>memsize = 65536, npage = 16, freemem = ULIM, pp_ref = (\<lambda>p. if p < 2 then 1 else 0),
     page_free_list = [3..<16], frames = (\<lambda>_ _. 0), tlb = Map.empty\<rparr>"

definition demo_base :: "nat \<Rightarrow> nat" where
  "demo_base p = of_bool (p < 2)"

lemma demo_slots: "pde_slots demo_pmap D p = {}" "pte_slots demo_pmap D p = {}"
  by (simp_all add: pde_slots_def pte_slots_def demo_pmap_def)

lemma demo_pmap_inv: "pmap_inv {1} demo_base demo_pmap"
  by (simp add: pmap_inv_def leaves_ok_def refs_ok_def page_refs_def demo_slots)
     (auto simp: free_list_ok_def tables_ok_def demo_pmap_def demo_base_def)

lemma demo_user_page: "user_page {1} demo_base demo_pmap 2" "unat (pp_ref demo_pmap 2) < 65535"
  by (auto simp: user_page_def pde_slots_def demo_pmap_def demo_base_def)

lemma demo_coherent: "tlb_coherent [5 \<mapsto> 1] demo_pmap" "inj_on [5 \<mapsto> 1] (dom [5 \<mapsto> (1::nat)])"
  by (auto simp: tlb_coherent_def demo_pmap_def)

text \<open>
  C1. \<open>page_insert\<close> on a live page directory, for an address below \<open>UTOP\<close>, a page that is neither
  free nor a page table nor kernel memory, and permission bits below \<open>BY2PG\<close>, never panics. It keeps
  every reference count exact and the free list sound. When it returns 0 it has changed the
  translation of the one page of \<open>va\<close> in the one directory, to the given frame and permissions, and no
  other page of this or any other address space; when it returns \<open>-E_NO_MEM\<close> there was no free frame
  for a page table and no translation and no reference count has changed. The contents of user pages
  and the rest of the kernel state are untouched.
\<close>

theorem page_insert_correct:
  assumes "pmap_inv D base s" and "d \<in> D" and "va < UTOP"
    and "user_page D base s pp" and "unat (pp_ref s pp) < 65535" and "perm < 4096"
  shows "returns (\<lambda>(r, s'). pmap_inv D base s' \<and> pmap_state.more s' = pmap_state.more s
     \<and> (\<forall>p. user_page D base s p \<longrightarrow> frames s' p = frames s p)
     \<and> (case r of
          Inr _ \<Rightarrow> (\<forall>d'\<in>D. \<forall>va'<UTOP. vmap s' d' va' =
             (if d' = d \<and> VPN va' = VPN va then Some (page2pa pp OR perm OR PTE_V) else vmap s d' va'))
        | Inl e \<Rightarrow> e = E_NO_MEM \<and> page_free_list s = [] \<and> pp_ref s' = pp_ref s
             \<and> (\<forall>d'\<in>D. \<forall>va'<UTOP. vmap s' d' va' = vmap s d' va')))
     (page_insert d asid pp va perm s)"
  using page_insert_ok[OF assms]
  by (rule returns_mono) (auto simp: insert_post_def pmap_step_def vmap_updated_def same_vmap_def split: sum.splits)

theorem page_insert_correct_witness:
  "returns (\<lambda>(r, s'). r = Inr () \<and> pmap_inv {1} demo_base s' \<and> vmap s' 1 0x400000 = Some (page2pa 2 OR PTE_D OR PTE_V))
     (page_insert 1 5 2 0x400000 PTE_D demo_pmap)"
proof (rule returns_mono2[OF page_insert_correct[OF demo_pmap_inv _ _ demo_user_page]])
  fix r :: "error + unit" and s' :: pmap_state
  let ?post = "\<lambda>r :: error + unit. case r of
      Inr _ \<Rightarrow> (\<forall>d'\<in>{1}. \<forall>va'<UTOP. vmap s' d' va' =
        (if d' = 1 \<and> VPN va' = VPN 0x400000 then Some (page2pa 2 OR PTE_D OR PTE_V) else vmap demo_pmap d' va'))
    | Inl e \<Rightarrow> e = E_NO_MEM \<and> page_free_list demo_pmap = [] \<and> pp_ref s' = pp_ref demo_pmap
        \<and> (\<forall>d'\<in>{1}. \<forall>va'<UTOP. vmap s' d' va' = vmap demo_pmap d' va')"
  assume post: "pmap_inv {1} demo_base s' \<and> pmap_state.more s' = pmap_state.more demo_pmap
     \<and> (\<forall>p. user_page {1} demo_base demo_pmap p \<longrightarrow> frames s' p = frames demo_pmap p) \<and> ?post r"
  then have "r = Inr ()" by (cases r) (simp_all add: demo_pmap_def)
  with post show "r = Inr () \<and> pmap_inv {1} demo_base s' \<and> vmap s' 1 0x400000 = Some (page2pa 2 OR PTE_D OR PTE_V)"
    by auto
qed simp_all

lemma page_remove_last:
  assumes inv: "pmap_inv D base s" and d: "d \<in> D" and va: "va < UTOP" and e: "vmap s d va = Some e"
    and run: "page_remove d asid va s = Ret s'"
  shows "page_free_list s' = (if pp_ref s (PPN e) = 1 then PPN e # page_free_list s else page_free_list s)"
proof -
  note l = leaf_range[OF inv d PDX_user[OF va] e]
  show ?thesis
    using run page_decref_eq[OF l(4,5)] by (auto simp: page_remove_def page_lookup_eq[OF inv d PDX_user[OF va]] e)
qed

text \<open>
  C2. \<open>page_remove\<close> never panics, unmaps exactly the page of \<open>va\<close> in exactly the given address space,
  keeps all reference counts exact, and puts the frame on the free list when and only when the removed
  mapping was its last reference.
\<close>

theorem page_remove_correct:
  assumes "pmap_inv D base s" and "d \<in> D" and "va < UTOP"
  shows "returns (\<lambda>s'. pmap_inv D base s'
     \<and> (\<forall>d'\<in>D. \<forall>va'<UTOP. vmap s' d' va' = (if d' = d \<and> VPN va' = VPN va then None else vmap s d' va'))
     \<and> page_free_list s' = (case vmap s d va of
          None \<Rightarrow> page_free_list s
        | Some e \<Rightarrow> if pp_ref s (PPN e) = 1 then PPN e # page_free_list s else page_free_list s))
     (page_remove d asid va s)"
proof -
  obtain s' where run: "page_remove d asid va s = Ret s'"
    and post: "pmap_step D base s s'" "vmap_updated D d va None s s'"
    using page_remove_ok[OF assms, of asid] by (auto simp: returns_iff)
  have "page_free_list s' = (case vmap s d va of None \<Rightarrow> page_free_list s
      | Some e \<Rightarrow> if pp_ref s (PPN e) = 1 then PPN e # page_free_list s else page_free_list s)"
    using page_remove_last[OF assms _ run] page_remove_absent[OF assms(1,2) PDX_user[OF assms(3)], of asid] run
    by (cases "vmap s d va") auto
  then show ?thesis using run post by (simp add: pmap_step_def vmap_updated_def)
qed

theorem page_remove_correct_witness:
  "returns (\<lambda>s'. pmap_inv {1} demo_base s' \<and> page_free_list s' = page_free_list demo_pmap)
     (page_remove 1 5 0x400000 demo_pmap)"
  by (rule returns_mono[OF page_remove_correct[OF demo_pmap_inv]]) (simp_all add: vmap_def demo_pmap_def)

text \<open>
  C3. No stale TLB entry survives a change of a page table: if every TLB entry of every live ASID
  agrees with that address space's page table, the same holds after \<open>page_insert\<close> (successful or not)
  and after \<open>page_remove\<close>.
\<close>

theorem tlb_stays_coherent:
  assumes "pmap_inv D base s" and "d \<in> D" and "va < UTOP"
    and "tlb_coherent A s" and "inj_on A (dom A)" and "A asid = Some d" and "ran A \<subseteq> D"
  shows "returns (tlb_coherent A) (page_remove d asid va s) \<and>
    (user_page D base s pp \<and> unat (pp_ref s pp) < 65535 \<and> perm < 4096 \<longrightarrow>
       returns (\<lambda>(r, s'). tlb_coherent A s') (page_insert d asid pp va perm s))"
proof (intro conjI impI)
  show "returns (tlb_coherent A) (page_remove d asid va s)"
    using page_remove_ok[OF assms(1-3), of asid] page_remove_coherent[OF assms] by (auto simp: returns_iff)
  assume a: "user_page D base s pp \<and> unat (pp_ref s pp) < 65535 \<and> perm < 4096"
  then show "returns (\<lambda>(r, s'). tlb_coherent A s') (page_insert d asid pp va perm s)"
    using page_insert_ok[OF assms(1-3), of pp perm asid] page_insert_coherent[OF assms(1-3), of pp perm A asid] assms(4-7)
    by (auto simp: returns_iff)
qed

theorem tlb_stays_coherent_witness:
  "returns (\<lambda>(r, s'). tlb_coherent [5 \<mapsto> 1] s') (page_insert 1 5 2 0x400000 PTE_D demo_pmap)"
  using tlb_stays_coherent[OF demo_pmap_inv _ _ demo_coherent, where d = 1 and va = "0x400000" and asid = 5 and pp = 2 and perm = PTE_D]
    demo_user_page by simp

text \<open>
  C20. \<open>page_init\<close> never panics when the kernel image fits, hands out every frame above it exactly
  once, in descending order, with reference count 0, marks the frames below as used, and so establishes
  the memory invariant with no address space.
\<close>

theorem page_init_establishes:
  assumes "npage s \<le> 524288" and "freemem s \<le> ROUND (freemem s) BY2PG" and "ULIM \<le> freemem s"
    and "boot_pages s \<le> npage s"
  shows "returns (\<lambda>s'. pmap_inv {} (\<lambda>p. of_bool (p < boot_pages s)) s'
       \<and> page_free_list s' = rev [boot_pages s..<npage s]) (page_init s)"
  by (rule page_init_inv[OF assms])

theorem page_init_establishes_witness:
  "returns (\<lambda>s'. pmap_inv {} (\<lambda>p. of_bool (p < 4)) s' \<and> page_free_list s' = rev [4..<16])
     (page_init (demo_pmap\<lparr>freemem := ULIM + 0x3004\<rparr>))"
  using page_init_establishes[of "demo_pmap\<lparr>freemem := ULIM + 0x3004\<rparr>"]
  by (simp add: boot_pages_def ROUND_def demo_pmap_def)

text \<open>
  \<open>page_lookup\<close> and \<open>va2pa\<close> agree with the translation the MMU would perform: they return the frame
  and the address of the entry that maps \<open>va\<close>, and NULL (resp. all ones) when there is none.
\<close>

theorem lookups_agree_with_mmu:
  assumes "pmap_inv D base s" and "d \<in> D" and "va < UTOP"
  shows "page_lookup d va s =
      Ret (case vmap s d va of None \<Rightarrow> None | Some e \<Rightarrow> Some (PPN e, (PPN (frames s d (PDX va)), PTX va)))
    \<and> va2pa s d va = Ret (case vmap s d va of None \<Rightarrow> NOT 0 | Some e \<Rightarrow> PTE_ADDR e)"
  using page_lookup_eq[OF assms(1,2) PDX_user[OF assms(3)]] va2pa_eq[OF assms(1,2) PDX_user[OF assms(3)]] by simp

theorem lookups_agree_with_mmu_witness:
  "page_lookup 1 0x400000 demo_pmap = Ret None \<and> va2pa demo_pmap 1 0x400000 = Ret (NOT 0)"
  using lookups_agree_with_mmu[OF demo_pmap_inv, where d = 1 and va = "0x400000"] by (simp add: vmap_def demo_pmap_def)

end
