(* ===== verification/Mos_String.thy ===== *)
theory Mos_String
  imports Mos_Prelude
begin

text \<open>
  \<open>lib/string.c\<close>. The block operations \<open>memcpy\<close> and \<open>memset\<close> work on a byte-addressed memory and
  are modelled with their alignment cases and word accesses (the machine is little endian). A C
  string is a pointer into an array; it is modelled by the bytes from the pointer to the end of the
  array, so that reading or writing past the end is the outcome \<open>Undef\<close>. Pointer arguments are
  distinct arrays, as every caller passes them.
\<close>

section \<open>Block operations\<close>

type_synonym mem = "nat \<Rightarrow> u8"

definition load_word :: "mem \<Rightarrow> nat \<Rightarrow> u32" where
  "load_word m a = ucast (m a) OR push_bit 8 (ucast (m (a + 1))) OR push_bit 16 (ucast (m (a + 2)))
     OR push_bit 24 (ucast (m (a + 3)))"

definition store_word :: "nat \<Rightarrow> u32 \<Rightarrow> mem \<Rightarrow> mem" where
  "store_word a w m = m(a := ucast w, a + 1 := ucast (drop_bit 8 w), a + 2 := ucast (drop_bit 16 w),
     a + 3 := ucast (drop_bit 24 w))"

text \<open>The byte loop \<open>while (dst < max)\<close>, the alignment loop and the word loop of \<open>memcpy\<close>.\<close>

function copy_bytes :: "nat \<Rightarrow> nat \<Rightarrow> nat \<Rightarrow> mem \<Rightarrow> mem" where
  "copy_bytes dst src mx m = (if dst < mx then copy_bytes (dst + 1) (src + 1) mx (m(dst := m src)) else m)"
  by auto
termination by (relation "measure (\<lambda>(dst, src, mx, m). mx - dst)") auto

function copy_align :: "nat \<Rightarrow> nat \<Rightarrow> nat \<Rightarrow> mem \<Rightarrow> nat \<times> nat \<times> mem" where
  "copy_align dst src mx m =
     (if dst mod 4 \<noteq> 0 \<and> dst < mx then copy_align (dst + 1) (src + 1) mx (m(dst := m src)) else (dst, src, m))"
  by auto
termination by (relation "measure (\<lambda>(dst, src, mx, m). mx - dst)") auto

function copy_words :: "nat \<Rightarrow> nat \<Rightarrow> nat \<Rightarrow> mem \<Rightarrow> nat \<times> nat \<times> mem" where
  "copy_words dst src mx m =
     (if dst + 4 \<le> mx then copy_words (dst + 4) (src + 4) mx (store_word dst (load_word m src) m) else (dst, src, m))"
  by auto
termination by (relation "measure (\<lambda>(dst, src, mx, m). mx - dst)") auto

declare copy_bytes.simps [simp del] copy_align.simps [simp del] copy_words.simps [simp del]

definition memcpy :: "nat \<Rightarrow> nat \<Rightarrow> nat \<Rightarrow> mem \<Rightarrow> mem" where
  "memcpy dst src n m =
     (let mx = dst + n in
      if src mod 4 \<noteq> dst mod 4 then copy_bytes dst src mx m
      else let (dst, src, m) = copy_align dst src mx m;
               (dst, src, m) = copy_words dst src mx m
           in copy_bytes dst src mx m)"

function set_bytes :: "nat \<Rightarrow> u8 \<Rightarrow> nat \<Rightarrow> mem \<Rightarrow> mem" where
  "set_bytes dst b mx m = (if dst < mx then set_bytes (dst + 1) b mx (m(dst := b)) else m)"
  by auto
termination by (relation "measure (\<lambda>(dst, b, mx, m). mx - dst)") auto

function set_align :: "nat \<Rightarrow> u8 \<Rightarrow> nat \<Rightarrow> mem \<Rightarrow> nat \<times> mem" where
  "set_align dst b mx m =
     (if dst mod 4 \<noteq> 0 \<and> dst < mx then set_align (dst + 1) b mx (m(dst := b)) else (dst, m))"
  by auto
termination by (relation "measure (\<lambda>(dst, b, mx, m). mx - dst)") auto

function set_words :: "nat \<Rightarrow> u32 \<Rightarrow> nat \<Rightarrow> mem \<Rightarrow> nat \<times> mem" where
  "set_words dst w mx m =
     (if dst + 4 \<le> mx then set_words (dst + 4) w mx (store_word dst w m) else (dst, m))"
  by auto
termination by (relation "measure (\<lambda>(dst, w, mx, m). mx - dst)") auto

declare set_bytes.simps [simp del] set_align.simps [simp del] set_words.simps [simp del]

definition memset :: "nat \<Rightarrow> u32 \<Rightarrow> nat \<Rightarrow> mem \<Rightarrow> mem" where
  "memset dst c n m =
     (let mx = dst + n;
          byte = (ucast (c AND 0xff) :: u8);
          b32 = (ucast byte :: u32);
          word = b32 OR push_bit 8 b32 OR push_bit 16 b32 OR push_bit 24 b32;
          (dst, m) = set_align dst byte mx m;
          (dst, m) = set_words dst word mx m
      in set_bytes dst byte mx m)"

section \<open>Strings\<close>

abbreviation NUL :: char where "NUL \<equiv> CHR 0x00"

definition cstr :: "char list \<Rightarrow> string" where
  "cstr b = takeWhile (\<lambda>c. c \<noteq> NUL) b"

abbreviation terminated :: "char list \<Rightarrow> bool" where
  "terminated b \<equiv> NUL \<in> set b"

definition is_visable :: "char \<Rightarrow> bool" where
  "is_visable c \<longleftrightarrow> 32 \<le> (of_char c :: nat) \<and> of_char c \<le> (126 :: nat)"

fun strlen :: "char list \<Rightarrow> nat outcome" where
  "strlen [] = Undef"
| "strlen (c # s) = (if c = NUL then Ret 0 else obind (strlen s) (\<lambda>n. Ret (n + 1)))"

text \<open>\<open>strcpy\<close> returns the new contents of the destination array.\<close>

fun strcpy :: "char list \<Rightarrow> char list \<Rightarrow> char list outcome" where
  "strcpy dst [] = Undef"
| "strcpy [] (c # src) = Undef"
| "strcpy (d # dst) (c # src) =
     (if c = NUL then Ret (c # dst) else obind (strcpy dst src) (\<lambda>r. Ret (c # r)))"

text \<open>\<open>strchr\<close> returns the offset of the character.\<close>

fun strchr :: "char list \<Rightarrow> char \<Rightarrow> nat option outcome" where
  "strchr [] c = Undef"
| "strchr (x # s) c =
     (if x = NUL then Ret None
      else if x = c then Ret (Some 0)
      else obind (strchr s c) (\<lambda>r. Ret (map_option Suc r)))"

fun strContain :: "char list \<Rightarrow> char list \<Rightarrow> char list \<Rightarrow> (int \<times> char list) outcome" where
  "strContain (p # parent) (c # child) wait =
     (if p = c then strContain parent child wait
      else if \<not> is_visable p then Ret (- 1, wait)
      else if c = NUL then obind (strcpy wait (p # parent)) (\<lambda>w. Ret (0, w))
      else Ret (- 1, wait))"
| "strContain _ _ wait = Undef"

fun strcmp :: "char list \<Rightarrow> char list \<Rightarrow> int outcome" where
  "strcmp (p # ps) (q # qs) =
     (if p \<noteq> NUL \<and> p = q then strcmp ps qs
      else if (of_char p :: nat) < of_char q then Ret (- 1)
      else if (of_char q :: nat) < of_char p then Ret 1
      else Ret 0)"
| "strcmp _ _ = Undef"

fun strcat :: "char list \<Rightarrow> char list \<Rightarrow> char list outcome" where
  "strcat [] src = Undef"
| "strcat (d # dst) src =
     (if d \<noteq> NUL then obind (strcat dst src) (\<lambda>r. Ret (d # r)) else strcpy (d # dst) src)"

text \<open>
  \<open>catPath\<close>: the argument \<open>prev\<close> is the character before the pointer \<open>pre\<close>, which the code reads
  as \<open>*(pre - 1)\<close>; there is none when \<open>pre\<close> is the empty string.
\<close>

fun catPath_from :: "char option \<Rightarrow> char list \<Rightarrow> char list \<Rightarrow> char list outcome" where
  "catPath_from prev [] path = Undef"
| "catPath_from prev (d # pre) path =
     (if d \<noteq> NUL then obind (catPath_from (Some d) pre path) (\<lambda>r. Ret (d # r))
      else case (prev, path) of
          (None, _) \<Rightarrow> Undef
        | (_, []) \<Rightarrow> Undef
        | (Some c, p # _) \<Rightarrow>
            if c \<noteq> CHR ''/'' \<and> p \<noteq> CHR ''/''
            then obind (strcpy pre path) (\<lambda>r. Ret (CHR ''/'' # r))
            else strcpy (d # pre) path)"

definition catPath :: "char list \<Rightarrow> char list \<Rightarrow> char list outcome" where
  "catPath pre path = catPath_from None pre path"

text \<open>The loop \<open>while(len--)\<close> of \<open>toParentPath\<close>.\<close>

fun chop_name :: "nat \<Rightarrow> char list \<Rightarrow> char list" where
  "chop_name 0 b = b"
| "chop_name (Suc len) b =
     (if b ! len = CHR ''/'' then b[len := NUL] else chop_name len (b[len := NUL]))"

definition toParentPath :: "char list \<Rightarrow> char list outcome" where
  "toParentPath b =
     obind (strcmp b (''/'' @ [NUL])) (\<lambda>r.
       if r = 0 then Ret b
       else obind (strlen b) (\<lambda>len.
         let b = chop_name len b in
         if b ! 0 = NUL then Ret (b[0 := CHR ''/'']) else Ret b))"

abbreviation (input) MAXPATHLEN :: nat where "MAXPATHLEN \<equiv> 1024"
abbreviation (input) MAXNAMELEN :: nat where "MAXNAMELEN \<equiv> 128"

text \<open>
  The first loop of \<open>splitPath\<close> copies the first component into \<open>firDir\<close>, starting at index \<open>i\<close>;
  it returns the rest of the path from the terminating character on, or fails at \<open>MAXNAMELEN\<close>.
\<close>

fun split_first :: "nat \<Rightarrow> char list \<Rightarrow> char list \<Rightarrow> ((char list \<times> nat) option \<times> char list) outcome" where
  "split_first i firDir [] = Undef"
| "split_first i firDir (c # path) =
     (if c = CHR ''/'' \<or> c = NUL then Ret (Some (c # path, i), firDir)
      else if MAXNAMELEN \<le> i then Ret (None, firDir)
      else if length firDir \<le> i then Undef
      else split_first (i + 1) (firDir[i := c]) path)"

definition splitPath :: "char list \<Rightarrow> char list \<Rightarrow> char list \<Rightarrow> (int \<times> char list \<times> char list) outcome" where
  "splitPath firDir nextPath pathName =
     (case pathName of
        [] \<Rightarrow> Undef
      | c # _ \<Rightarrow>
          if c = CHR ''/'' then Ret (- 1, firDir, nextPath)
          else obind (split_first 0 firDir pathName) (\<lambda>(r, firDir).
            case r of
              None \<Rightarrow> Ret (- 1, firDir, nextPath)
            | Some (rest, i) \<Rightarrow>
                if length firDir \<le> i then Undef
                else let firDir = firDir[i := NUL] in
                  case rest of
                    [] \<Rightarrow> Undef
                  | t # rest \<Rightarrow>
                      if t = NUL then Ret (0, firDir, nextPath)
                      else obind (strcpy nextPath rest) (\<lambda>nextPath. Ret (0, firDir, nextPath))))"

text \<open>\<open>strToUint\<close> computes in an \<open>int\<close>; leaving its range is undefined.\<close>

fun str_to_uint_from :: "int \<Rightarrow> char list \<Rightarrow> int outcome" where
  "str_to_uint_from r [] = Undef"
| "str_to_uint_from r (c # str) =
     (if c = NUL then Ret r
      else if (48 :: int) \<le> of_char c \<and> of_char c \<le> (57 :: int) then
        let r = (of_char c - 48) + r * 10 in
        if r < 2 ^ 31 then str_to_uint_from r str else Undef
      else Ret (- 1))"

definition strToUint :: "char list \<Rightarrow> int outcome" where
  "strToUint str = str_to_uint_from 0 str"

section \<open>\<open>memcpy\<close> and \<open>memset\<close> do what their byte loops would do\<close>

definition copied :: "nat \<Rightarrow> nat \<Rightarrow> nat \<Rightarrow> mem \<Rightarrow> mem" where
  "copied dst src n m = (\<lambda>a. if dst \<le> a \<and> a < dst + n then m (src + (a - dst)) else m a)"

definition filled :: "nat \<Rightarrow> u8 \<Rightarrow> nat \<Rightarrow> mem \<Rightarrow> mem" where
  "filled dst b n m = (\<lambda>a. if dst \<le> a \<and> a < dst + n then b else m a)"

lemma bytes_of_load_word:
  "ucast (load_word m a) = m a" "ucast (drop_bit 8 (load_word m a)) = m (a + 1)"
  "ucast (drop_bit 16 (load_word m a)) = m (a + 2)" "ucast (drop_bit 24 (load_word m a)) = m (a + 3)"
  by (rule bit_word_eqI, auto simp: load_word_def bit_simps dest: bit_imp_le_length)+

lemma store_load_word: "store_word dst (load_word m src) m = copied dst src 4 m"
proof
  fix a
  consider "a < dst" | "a = dst" | "a = dst + 1" | "a = dst + 2" | "a = dst + 3" | "dst + 4 \<le> a" by linarith
  then show "store_word dst (load_word m src) m a = copied dst src 4 m a"
    by cases (simp_all add: store_word_def copied_def bytes_of_load_word)
qed

lemma copied_0 [simp]: "copied dst src 0 m = m"
  by (auto simp: copied_def fun_eq_iff)

lemma copied_split:
  assumes "dst + (k + n) \<le> src \<or> src + (k + n) \<le> dst"
  shows "copied (dst + k) (src + k) n (copied dst src k m) = copied dst src (k + n) m"
  using assms by (fastforce simp: copied_def fun_eq_iff)

lemma copied_1: "m(dst := m src) = copied dst src 1 m"
  by (auto simp: copied_def fun_eq_iff)

abbreviation apart :: "nat \<Rightarrow> nat \<Rightarrow> nat \<Rightarrow> bool" where
  "apart dst src n \<equiv> dst + n \<le> src \<or> src + n \<le> dst"

lemma copy_bytes_copied:
  "apart dst src (mx - dst) \<Longrightarrow> copy_bytes dst src mx m = copied dst src (mx - dst) m"
proof (induction dst src mx m rule: copy_bytes.induct)
  case (1 dst src mx m)
  show ?case
  proof (cases "dst < mx")
    case True
    then have ap: "apart (dst + 1) (src + 1) (mx - (dst + 1))" using 1(2) by auto
    have "copy_bytes dst src mx m = copied (dst + 1) (src + 1) (mx - (dst + 1)) (copied dst src 1 m)"
      using True 1(1)[OF True ap] by (subst copy_bytes.simps) (simp add: copied_1)
    also have "\<dots> = copied dst src (1 + (mx - (dst + 1))) m"
      using 1(2) True by (intro copied_split) auto
    finally show ?thesis using True by (simp add: Suc_diff_Suc)
  next
    case False
    then show ?thesis by (subst copy_bytes.simps) simp
  qed
qed

lemma copy_align_copied:
  assumes "apart dst src (mx - dst)"
  shows "\<exists>k. copy_align dst src mx m = (dst + k, src + k, copied dst src k m) \<and> k \<le> mx - dst"
  using assms
proof (induction dst src mx m rule: copy_align.induct)
  case (1 dst src mx m)
  show ?case
  proof (cases "dst mod 4 \<noteq> 0 \<and> dst < mx")
    case True
    with 1 have "\<exists>k. copy_align (dst + 1) (src + 1) mx (m(dst := m src)) =
        (dst + 1 + k, src + 1 + k, copied (dst + 1) (src + 1) k (m(dst := m src))) \<and> k \<le> mx - (dst + 1)"
      by (intro 1(1)) auto
    then obtain k where k: "copy_align (dst + 1) (src + 1) mx (m(dst := m src)) =
        (dst + 1 + k, src + 1 + k, copied (dst + 1) (src + 1) k (copied dst src 1 m))" "k \<le> mx - (dst + 1)"
      by (auto simp: copied_1)
    have "copied (dst + 1) (src + 1) k (copied dst src 1 m) = copied dst src (1 + k) m"
      using 1(2) k(2) True by (intro copied_split) auto
    moreover have "1 + k \<le> mx - dst" using k(2) True by linarith
    ultimately show ?thesis using True k by (subst copy_align.simps, intro exI[of _ "1 + k"]) simp
  next
    case False
    then show ?thesis by (subst copy_align.simps, intro exI[of _ 0]) auto
  qed
qed

lemma copy_words_copied:
  assumes "apart dst src (mx - dst)"
  shows "\<exists>k. copy_words dst src mx m = (dst + k, src + k, copied dst src k m) \<and> k \<le> mx - dst"
  using assms
proof (induction dst src mx m rule: copy_words.induct)
  case (1 dst src mx m)
  show ?case
  proof (cases "dst + 4 \<le> mx")
    case True
    with 1 have "\<exists>k. copy_words (dst + 4) (src + 4) mx (store_word dst (load_word m src) m) =
        (dst + 4 + k, src + 4 + k, copied (dst + 4) (src + 4) k (store_word dst (load_word m src) m)) \<and> k \<le> mx - (dst + 4)"
      by (intro 1(1)) auto
    then obtain k where k: "copy_words (dst + 4) (src + 4) mx (copied dst src 4 m) =
        (dst + 4 + k, src + 4 + k, copied (dst + 4) (src + 4) k (copied dst src 4 m))" "k \<le> mx - (dst + 4)"
      by (auto simp: store_load_word)
    have "copied (dst + 4) (src + 4) k (copied dst src 4 m) = copied dst src (4 + k) m"
      using 1(2) k(2) True by (intro copied_split) auto
    then show ?thesis using True k
      by (subst copy_words.simps, intro exI[of _ "4 + k"]) (simp add: store_load_word)
  next
    case False
    then show ?thesis by (subst copy_words.simps, intro exI[of _ 0]) auto
  qed
qed

lemma memcpy_copied:
  assumes "apart dst src n"
  shows "memcpy dst src n m = copied dst src n m"
proof (cases "src mod 4 \<noteq> dst mod 4")
  case True
  have ap: "apart dst src (dst + n - dst)" using assms by simp
  from True show ?thesis using copy_bytes_copied[OF ap, of m] by (simp add: memcpy_def)
next
  case False
  let ?mx = "dst + n"
  have ap0: "apart dst src (?mx - dst)" using assms by simp
  obtain k where k: "copy_align dst src ?mx m = (dst + k, src + k, copied dst src k m)" "k \<le> n"
    using copy_align_copied[OF ap0, of m] by auto
  let ?m1 = "copied dst src k m"
  have ap: "apart (dst + k) (src + k) (?mx - (dst + k))" using assms k(2) by auto
  obtain j where j: "copy_words (dst + k) (src + k) ?mx ?m1 =
      (dst + k + j, src + k + j, copied (dst + k) (src + k) j ?m1)" "j \<le> n - k"
    using copy_words_copied[OF ap, of ?m1] by auto
  have m2: "copied (dst + k) (src + k) j ?m1 = copied dst src (k + j) m"
    using assms k j by (intro copied_split) auto
  have "copy_bytes (dst + k + j) (src + k + j) ?mx (copied dst src (k + j) m)
      = copied (dst + (k + j)) (src + (k + j)) (n - (k + j)) (copied dst src (k + j) m)"
  proof -
    have "apart (dst + (k + j)) (src + (k + j)) (?mx - (dst + (k + j)))" using assms k j by auto
    from copy_bytes_copied[OF this, of "copied dst src (k + j) m"] show ?thesis by (simp add: add.assoc)
  qed
  also have "\<dots> = copied dst src (k + j + (n - (k + j))) m"
    using assms k j by (intro copied_split) auto
  finally show ?thesis using False k j m2 by (simp add: memcpy_def)
qed

lemma filled_split: "filled (dst + k) b n (filled dst b k m) = filled dst b (k + n) m"
  by (auto simp: filled_def fun_eq_iff)

lemma filled_0 [simp]: "filled dst b 0 m = m"
  by (auto simp: filled_def fun_eq_iff)

lemma filled_1: "m(dst := b) = filled dst b 1 m"
  by (auto simp: filled_def fun_eq_iff)

lemma set_bytes_filled: "set_bytes dst b mx m = filled dst b (mx - dst) m"
proof (induction dst b mx m rule: set_bytes.induct)
  case (1 dst b mx m)
  then show ?case
    using filled_split[of dst 1 b "mx - (dst + 1)" m]
    by (subst set_bytes.simps) (auto simp: filled_1 Suc_diff_Suc)
qed

lemma set_align_filled:
  "\<exists>k. set_align dst b mx m = (dst + k, filled dst b k m) \<and> k \<le> mx - dst"
proof (induction dst b mx m rule: set_align.induct)
  case (1 dst b mx m)
  show ?case
  proof (cases "dst mod 4 \<noteq> 0 \<and> dst < mx")
    case True
    with 1 obtain k where "set_align (dst + 1) b mx (m(dst := b)) = (dst + 1 + k, filled (dst + 1) b k (m(dst := b)))"
      "k \<le> mx - (dst + 1)" by blast
    then show ?thesis using True filled_split[of dst 1 b k m]
      by (subst set_align.simps, intro exI[of _ "1 + k"]) (auto simp: filled_1)
  next
    case False
    then show ?thesis by (subst set_align.simps, intro exI[of _ 0]) auto
  qed
qed

definition splat :: "u8 \<Rightarrow> u32" where
  "splat b = ucast b OR push_bit 8 (ucast b) OR push_bit 16 (ucast b) OR push_bit 24 (ucast b)"

lemma store_splat: "store_word dst (splat b) m = filled dst b 4 m"
proof
  fix a
  have "splat b = load_word (\<lambda>_. b) 0" by (simp add: splat_def load_word_def)
  then have bytes: "ucast (splat b) = b" "ucast (drop_bit 8 (splat b)) = b"
    "ucast (drop_bit 16 (splat b)) = b" "ucast (drop_bit 24 (splat b)) = b"
    by (simp_all add: bytes_of_load_word)
  consider "a < dst" | "a = dst" | "a = dst + 1" | "a = dst + 2" | "a = dst + 3" | "dst + 4 \<le> a" by linarith
  then show "store_word dst (splat b) m a = filled dst b 4 m a"
    by cases (simp_all add: store_word_def filled_def bytes)
qed

lemma set_words_filled:
  "\<exists>k. set_words dst (splat b) mx m = (dst + k, filled dst b k m) \<and> k \<le> mx - dst"
proof (induction dst "splat b" mx m rule: set_words.induct)
  case (1 dst mx m)
  show ?case
  proof (cases "dst + 4 \<le> mx")
    case True
    with 1 obtain k where "set_words (dst + 4) (splat b) mx (filled dst b 4 m) = (dst + 4 + k, filled (dst + 4) b k (filled dst b 4 m))"
      "k \<le> mx - (dst + 4)" by (auto simp: store_splat)
    then show ?thesis using True filled_split[of dst 4 b k m]
      by (subst set_words.simps, intro exI[of _ "4 + k"]) (auto simp: store_splat)
  next
    case False
    then show ?thesis by (subst set_words.simps, intro exI[of _ 0]) auto
  qed
qed

lemma memset_filled: "memset dst c n m = filled dst (ucast (c AND 0xff)) n m"
proof -
  define b :: u8 where "b = ucast (c AND 0xff)"
  obtain k where k: "set_align dst b (dst + n) m = (dst + k, filled dst b k m)" "k \<le> n"
    using set_align_filled[of dst b "dst + n" m] by auto
  obtain j where j: "set_words (dst + k) (splat b) (dst + n) (filled dst b k m) = (dst + k + j, filled dst b (k + j) m)"
    "j \<le> n - k"
    using set_words_filled[of "dst + k" b "dst + n" "filled dst b k m"] by (auto simp: filled_split)
  have "filled (dst + (k + j)) b (n - (k + j)) (filled dst b (k + j) m) = filled dst b n m"
    using k j by (subst filled_split) simp
  then show ?thesis using k j
    by (simp add: memset_def set_bytes_filled add.assoc flip: b_def splat_def)
qed

section \<open>The string functions in terms of the strings they denote\<close>

lemma cstr_simps [simp]: "cstr [] = []" "cstr (c # b) = (if c = NUL then [] else c # cstr b)"
  by (simp_all add: cstr_def)

lemma cstr_no_NUL: "NUL \<notin> set (cstr b)"
  by (auto simp: cstr_def dest: set_takeWhileD)

lemma cstr_append: "NUL \<notin> set xs \<Longrightarrow> cstr (xs @ b) = xs @ cstr b"
  by (induction xs) auto

lemma cstr_terminate [simp]: "NUL \<notin> set xs \<Longrightarrow> cstr (xs @ NUL # b) = xs"
  by (simp add: cstr_append)

lemma terminated_split:
  assumes "terminated b"
  obtains rest where "b = cstr b @ NUL # rest"
proof -
  have "\<exists>rest. b = cstr b @ NUL # rest" using assms
    by (induction b) auto
  then show ?thesis using that by blast
qed

lemma length_cstr: "terminated b \<Longrightarrow> length (cstr b) < length b"
  by (induction b) auto

lemma strlen_eq: "strlen b = (if terminated b then Ret (length (cstr b)) else Undef)"
  by (induction b) auto

lemma strcpy_eq:
  "terminated src \<Longrightarrow> strcpy dst src =
     (if length (cstr src) < length dst then Ret (cstr src @ NUL # drop (Suc (length (cstr src))) dst) else Undef)"
proof (induction dst src rule: strcpy.induct)
  case (3 d dst c src)
  then show ?case by (cases "c = NUL") auto
qed auto

lemma strcpy_Ret:
  assumes "terminated src" "length (cstr src) < length dst"
  shows "\<exists>r. strcpy dst src = Ret r \<and> cstr r = cstr src \<and> length r = length dst \<and> terminated r"
  using assms by (auto simp: strcpy_eq cstr_no_NUL)

lemma strcmp_total:
  "terminated p \<Longrightarrow> terminated q \<Longrightarrow> \<exists>r\<in>{-1, 0, 1}. strcmp p q = Ret r"
  by (induction p q rule: strcmp.induct) auto

lemma strcmp_eq_0: "terminated p \<Longrightarrow> terminated q \<Longrightarrow> strcmp p q = Ret 0 \<longleftrightarrow> cstr p = cstr q"
proof (induction p q rule: strcmp.induct)
  case (1 p ps q qs)
  then show ?case by (auto simp: of_char_eq_iff)
qed auto

lemma strcmp_antisym: "terminated p \<Longrightarrow> terminated q \<Longrightarrow> strcmp q p = obind (strcmp p q) (\<lambda>r. Ret (- r))"
proof (induction p q rule: strcmp.induct)
  case (1 p ps q qs)
  then show ?case by (auto simp: of_char_eq_iff)
qed auto

lemma strcat_eq:
  assumes "terminated dst" "terminated src"
  shows "strcat dst src = (if length (cstr dst) + length (cstr src) < length dst
     then Ret (cstr dst @ cstr src @ NUL # drop (Suc (length (cstr dst) + length (cstr src))) dst) else Undef)"
  using assms(1)
proof (induction dst)
  case (Cons d dst)
  then show ?case using assms(2) by (cases "d = NUL") (auto simp: strcpy_eq)
qed simp

text \<open>\<open>catPath\<close> joins with exactly one slash when neither side brings one.\<close>

definition join_path :: "string \<Rightarrow> string \<Rightarrow> string" where
  "join_path a b = a @ (if last a \<noteq> CHR ''/'' \<and> (b = [] \<or> hd b \<noteq> CHR ''/'') then ''/'' else []) @ b"

lemma catPath_from_eq:
  assumes "terminated path" "terminated pre" "prev \<noteq> None \<or> cstr pre \<noteq> []"
    and "length (cstr pre) + length (cstr path) + 1 < length pre"
  shows "\<exists>r. catPath_from prev pre path = Ret r \<and> length r = length pre \<and> terminated r \<and>
    cstr r = cstr pre @ (if (case cstr pre of [] \<Rightarrow> the prev | _ \<Rightarrow> last (cstr pre)) \<noteq> CHR ''/''
       \<and> (cstr path = [] \<or> hd (cstr path) \<noteq> CHR ''/'') then ''/'' else []) @ cstr path"
  using assms
proof (induction prev pre path rule: catPath_from.induct)
  case (2 prev d pre path)
  show ?case
  proof (cases "d = NUL")
    case True
    obtain c where c: "prev = Some c" using 2 True by auto
    obtain p ps where path: "path = p # ps" using 2 by (cases path) auto
    have hd: "(cstr path = [] \<or> hd (cstr path) \<noteq> CHR ''/'') \<longleftrightarrow> p \<noteq> CHR ''/''" by (auto simp: path)
    have "\<exists>r. strcpy pre path = Ret r \<and> cstr r = cstr path \<and> length r = length pre \<and> terminated r"
      "\<exists>r. strcpy (d # pre) path = Ret r \<and> cstr r = cstr path \<and> length r = length (d # pre) \<and> terminated r"
      using 2(2-5) True by (intro strcpy_Ret; simp)+
    then show ?thesis using True c path hd by auto
  next
    case False
    obtain r where r: "catPath_from (Some d) pre path = Ret r" "length r = length pre" "terminated r"
      "cstr r = cstr pre @ (if (case cstr pre of [] \<Rightarrow> the (Some d) | _ \<Rightarrow> last (cstr pre)) \<noteq> CHR ''/''
         \<and> (cstr path = [] \<or> hd (cstr path) \<noteq> CHR ''/'') then ''/'' else []) @ cstr path"
      using 2 False by auto
    then show ?thesis using False by (cases "cstr pre") auto
  qed
qed simp

lemma catPath_join:
  assumes "terminated path" "terminated pre" "cstr pre \<noteq> []"
    and "length (cstr pre) + length (cstr path) + 1 < length pre"
  shows "returns (\<lambda>r. cstr r = join_path (cstr pre) (cstr path) \<and> length r = length pre) (catPath pre path)"
  using catPath_from_eq[of path pre None] assms
  by (auto simp: catPath_def returns_iff join_path_def split: list.splits)

lemma chop_name_eq:
  assumes "CHR ''/'' \<notin> set name"
  shows "chop_name (length p + 1 + length name) (p @ CHR ''/'' # name @ rest)
    = p @ replicate (length name + 1) NUL @ rest"
  using assms
proof (induction name arbitrary: rest rule: rev_induct)
  case Nil
  show ?case by (simp add: nth_append list_update_append)
next
  case (snoc c name)
  have "chop_name (length p + 1 + length (name @ [c])) (p @ CHR ''/'' # (name @ [c]) @ rest)
      = chop_name (length p + 1 + length name) (p @ CHR ''/'' # name @ NUL # rest)"
  proof -
    let ?q = "p @ CHR ''/'' # name"
    have i: "length p + 1 + length (name @ [c]) = Suc (length ?q)" by simp
    have "c \<noteq> CHR ''/''" using snoc.prems by auto
    then have "chop_name (Suc (length ?q)) (?q @ c # rest) = chop_name (length ?q) (?q @ NUL # rest)"
      by (simp only: chop_name.simps nth_append_length list_update_length if_False)
    then show ?thesis unfolding i by simp
  qed
  also have "\<dots> = p @ replicate (length name + 1) NUL @ NUL # rest" using snoc by simp
  finally show ?case by (simp add: replicate_append_same[symmetric])
qed

lemma cstr_NULs [simp]: "cstr (replicate n NUL @ NUL # b) = []"
  by (cases n) auto

lemma toParentPath_eq:
  assumes b: "terminated b" "cstr b = p @ ''/'' @ name" and name: "CHR ''/'' \<notin> set name"
    and not_root: "\<not> (p = [] \<and> name = [])"
  shows "returns (\<lambda>r. cstr r = (if p = [] then ''/'' else p) \<and> length r = length b) (toParentPath b)"
proof -
  obtain rest where bs: "b = p @ CHR ''/'' # name @ NUL # rest"
    using terminated_split[OF b(1)] b(2) by (metis append.assoc append_Cons append_Nil)
  have "cstr (''/'' @ [NUL]) = ''/''" by simp
  then have "cstr b \<noteq> cstr (''/'' @ [NUL])" using b(2) not_root
    by (auto simp: append_eq_Cons_conv)
  then obtain r where r: "strcmp b (''/'' @ [NUL]) = Ret r" "r \<noteq> 0"
    using strcmp_total[of b "''/'' @ [NUL]"] strcmp_eq_0[of b "''/'' @ [NUL]"] b(1) by force
  have chop: "chop_name (length (cstr b)) b = p @ replicate (length name + 1) NUL @ NUL # rest"
    using chop_name_eq[OF name, of p "NUL # rest"] bs b(2) by simp
  have no: "NUL \<notin> set p" using cstr_no_NUL[of b] b(2) by auto
  show ?thesis
  proof (cases p)
    case Nil
    then show ?thesis using r b(1) chop bs by (simp add: toParentPath_def strlen_eq)
  next
    case (Cons c p')
    then show ?thesis using r b(1) chop no bs
      by (auto simp: toParentPath_def strlen_eq cstr_append Let_def)
  qed
qed

lemma split_first_eq:
  assumes "terminated path" "i + length (takeWhile (\<lambda>c. c \<noteq> CHR ''/'') (cstr path)) \<le> MAXNAMELEN"
    and "i + length (takeWhile (\<lambda>c. c \<noteq> CHR ''/'') (cstr path)) \<le> length d"
  defines "w \<equiv> takeWhile (\<lambda>c. c \<noteq> CHR ''/'') (cstr path)"
  shows "split_first i d path =
    Ret (Some (drop (length w) path, i + length w), take i d @ w @ drop (i + length w) d)"
  using assms(1-3) unfolding w_def
proof (induction i d path rule: split_first.induct)
  case (2 i d c path)
  show ?case
  proof (cases "c = CHR ''/'' \<or> c = NUL")
    case True
    then show ?thesis using 2 by auto
  next
    case False
    let ?w = "takeWhile (\<lambda>c. c \<noteq> CHR ''/'') (cstr path)"
    have i: "i < MAXNAMELEN" "i < length d" using False 2 by auto
    have IH: "split_first (i + 1) (d[i := c]) path =
      Ret (Some (drop (length ?w) path, i + 1 + length ?w), take (i + 1) (d[i := c]) @ ?w @ drop (i + 1 + length ?w) (d[i := c]))"
      by (rule 2(1)) (use False 2 i in auto)
    moreover have "take (i + 1) (d[i := c]) = take i d @ [c]"
      using i by (simp add: take_Suc_conv_app_nth take_update_cancel)
    ultimately show ?thesis using False i by auto
  qed
qed auto

lemma splitPath_run:
  assumes "path \<noteq> []" "hd path \<noteq> CHR ''/''" "split_first 0 d path = Ret (Some (t # rest, i), d')"
  shows "splitPath d nx path =
    (if length d' \<le> i then Undef
     else if t = NUL then Ret (0, d'[i := NUL], nx)
     else obind (strcpy nx rest) (\<lambda>nx'. Ret (0, d'[i := NUL], nx')))"
proof -
  obtain c cs where "path = c # cs" "c \<noteq> CHR ''/''" using assms(1,2) by (cases path) auto
  then have "splitPath d nx path = obind (split_first 0 d path) (\<lambda>(r, firDir).
      case r of
        None \<Rightarrow> Ret (- 1, firDir, nx)
      | Some (rest, i) \<Rightarrow>
          if length firDir \<le> i then Undef
          else let firDir = firDir[i := NUL] in
            case rest of
              [] \<Rightarrow> Undef
            | t # rest \<Rightarrow>
                if t = NUL then Ret (0, firDir, nx)
                else obind (strcpy nx rest) (\<lambda>nextPath. Ret (0, firDir, nextPath)))"
    unfolding splitPath_def by (simp only: list.case if_False)
  then show ?thesis unfolding assms(3) by (simp add: Let_def)
qed

text \<open>
  \<open>splitPath\<close> separates the first component, of at most \<open>MAXNAMELEN\<close> characters, when the destination
  has room for it and its terminator.
\<close>

lemma splitPath_eq:
  assumes t: "terminated path" and nr: "hd path \<noteq> CHR ''/''"
    and len: "length (takeWhile (\<lambda>c. c \<noteq> CHR ''/'') (cstr path)) \<le> MAXNAMELEN"
      "length (takeWhile (\<lambda>c. c \<noteq> CHR ''/'') (cstr path)) < length d" "length (cstr path) < length nx"
  shows "returns (\<lambda>(r, d', nx'). r = 0 \<and> cstr d' = takeWhile (\<lambda>c. c \<noteq> CHR ''/'') (cstr path) \<and>
     (CHR ''/'' \<in> set (cstr path) \<longrightarrow> cstr nx' = tl (dropWhile (\<lambda>c. c \<noteq> CHR ''/'') (cstr path)))
     \<and> (CHR ''/'' \<notin> set (cstr path) \<longrightarrow> nx' = nx)) (splitPath d nx path)"
proof -
  let ?w = "takeWhile (\<lambda>c. c \<noteq> CHR ''/'') (cstr path)"
  obtain rest where p: "path = cstr path @ NUL # rest" using terminated_split[OF t] .
  have run: "split_first 0 d path = Ret (Some (drop (length ?w) path, length ?w), ?w @ drop (length ?w) d)"
    using split_first_eq[OF t, of 0 d] len by simp
  have dir: "(?w @ drop (length ?w) d)[length ?w := NUL] = ?w @ NUL # drop (Suc (length ?w)) d"
    using len(2) by (simp add: list_update_append drop_update_swap Cons_nth_drop_Suc[symmetric])
  have "NUL \<notin> set ?w" using cstr_no_NUL[of path] by (auto dest: set_takeWhileD)
  then have dir_c: "cstr (?w @ NUL # drop (Suc (length ?w)) d) = ?w" by simp
  have ne: "path \<noteq> []" using t by auto
  have dw: "drop (length ?w) (cstr path) = dropWhile (\<lambda>c. c \<noteq> CHR ''/'') (cstr path)"
    by (simp add: dropWhile_eq_drop)
  have "length ?w \<le> length (cstr path)" by (simp add: length_takeWhile_le)
  then have rest': "drop (length ?w) path = dropWhile (\<lambda>c. c \<noteq> CHR ''/'') (cstr path) @ NUL # rest"
    by (subst p) (simp add: dw)
  show ?thesis
  proof (cases "CHR ''/'' \<in> set (cstr path)")
    case False
    then have "dropWhile (\<lambda>c. c \<noteq> CHR ''/'') (cstr path) = []" by auto
    then have "split_first 0 d path = Ret (Some (NUL # rest, length ?w), ?w @ drop (length ?w) d)"
      using run rest' by simp
    from splitPath_run[OF ne nr this, of nx, unfolded dir] show ?thesis using dir_c len(2) False by simp
  next
    case True
    then obtain tl where tl: "dropWhile (\<lambda>c. c \<noteq> CHR ''/'') (cstr path) = CHR ''/'' # tl"
      using hd_dropWhile[of "\<lambda>c. c \<noteq> CHR ''/''" "cstr path"]
      by (cases "dropWhile (\<lambda>c. c \<noteq> CHR ''/'') (cstr path)") auto
    have nul: "NUL \<notin> set tl" and tl_len: "length tl < length nx"
    proof -
      have "NUL \<notin> set (dropWhile (\<lambda>c. c \<noteq> CHR ''/'') (cstr path))"
        using cstr_no_NUL[of path] set_dropWhileD by fast
      then show "NUL \<notin> set tl" unfolding tl by simp
      have "length (CHR ''/'' # tl) \<le> length (cstr path)" unfolding tl[symmetric] by (rule length_dropWhile_le)
      then show "length tl < length nx" using len(3) by simp
    qed
    have "strcpy nx (tl @ NUL # rest) = Ret (tl @ NUL # drop (Suc (length tl)) nx)"
      using nul tl_len by (simp add: strcpy_eq)
    note cpy = this
    have "split_first 0 d path = Ret (Some (CHR ''/'' # tl @ NUL # rest, length ?w), ?w @ drop (length ?w) d)"
      using run rest' tl by simp
    from splitPath_run[OF ne nr this, of nx, unfolded dir cpy] show ?thesis using dir_c len(2) nul True
      by (simp add: tl)
  qed
qed

text \<open>With a component of exactly \<open>MAXNAMELEN\<close> characters the terminator is written one past a
  buffer of \<open>MAXNAMELEN\<close> bytes.\<close>

lemma splitPath_overflow:
  assumes "NUL \<notin> set name" "CHR ''/'' \<notin> set name" "length name = MAXNAMELEN" "length d = MAXNAMELEN"
  shows "splitPath d nx (name @ [NUL]) = Undef"
proof -
  have w: "takeWhile (\<lambda>c. c \<noteq> CHR ''/'') name = name"
    using assms(2) by (auto simp: takeWhile_eq_all_conv)
  have "split_first 0 d (name @ [NUL]) = Ret (Some ([NUL], MAXNAMELEN), name)"
    using split_first_eq[of "name @ [NUL]" 0 d] assms by (simp add: w)
  moreover have "hd (name @ [NUL]) \<noteq> CHR ''/''" using assms by (cases name) auto
  ultimately have "splitPath d nx (name @ [NUL]) = (if length name \<le> MAXNAMELEN then Undef
      else if NUL = NUL then Ret (0, name[MAXNAMELEN := NUL], nx)
      else obind (strcpy nx []) (\<lambda>nx'. Ret (0, name[MAXNAMELEN := NUL], nx')))"
    by (intro splitPath_run) auto
  then show ?thesis using assms(3) by simp
qed

section \<open>Properties\<close>

text \<open>
  C22. \<open>memcpy\<close>, with its byte, alignment and word loops, copies exactly \<open>n\<close> bytes between disjoint
  regions and changes no other byte, whatever the alignment of its arguments; \<open>memset\<close> fills exactly
  \<open>n\<close> bytes with the low byte of its argument.
\<close>

theorem block_operations_correct:
  assumes "dst + n \<le> src \<or> src + n \<le> dst"
  shows "memcpy dst src n m = (\<lambda>a. if dst \<le> a \<and> a < dst + n then m (src + (a - dst)) else m a)
    \<and> memset dst c n m = (\<lambda>a. if dst \<le> a \<and> a < dst + n then ucast (c AND 0xff) else m a)"
  using memcpy_copied[OF assms] memset_filled by (simp add: copied_def filled_def)

theorem block_operations_correct_witness:
  "memcpy 102 202 7 (\<lambda>a. word_of_nat a) 108 = 208 \<and> memset 3 0x1FF 6 (\<lambda>a. 0) 8 = 0xFF"
  using block_operations_correct[of 102 7 202 "\<lambda>a. word_of_nat a" 0]
    block_operations_correct[of 3 6 202 "\<lambda>a. 0" "0x1FF"] by simp

text \<open>
  On terminated strings \<open>strcmp\<close> returns -1, 0 or 1, returns 0 exactly for equal strings and
  changes its sign when its arguments are swapped; \<open>strcpy\<close> makes the destination denote the source
  string when it fits with its terminator, keeping the size of the array, and overruns the array
  exactly when it does not fit.
\<close>

theorem strcmp_strcpy_correct:
  assumes "terminated p" and "terminated q"
  shows "(\<exists>r\<in>{-1, 0, 1}. strcmp p q = Ret r \<and> strcmp q p = Ret (- r) \<and> (r = 0 \<longleftrightarrow> cstr p = cstr q))
    \<and> (length (cstr q) < length p \<longrightarrow> returns (\<lambda>b. cstr b = cstr q \<and> length b = length p) (strcpy p q))
    \<and> (length p \<le> length (cstr q) \<longrightarrow> strcpy p q = Undef)"
proof -
  obtain r where r: "r \<in> {-1, 0, 1}" "strcmp p q = Ret r" using strcmp_total[OF assms] by auto
  then have "strcmp q p = Ret (- r)" "r = 0 \<longleftrightarrow> cstr p = cstr q"
    using strcmp_antisym[OF assms] strcmp_eq_0[OF assms] by simp_all
  moreover have "length (cstr q) < length p \<longrightarrow> returns (\<lambda>b. cstr b = cstr q \<and> length b = length p) (strcpy p q)"
    using strcpy_Ret[OF assms(2), of p] by (auto simp: returns_iff)
  ultimately show ?thesis using r assms by (auto simp: strcpy_eq)
qed

theorem strcmp_strcpy_correct_witness:
  "returns (\<lambda>b. cstr b = ''sh'' \<and> length b = 5) (strcpy (''cat'' @ [NUL, NUL]) (''sh'' @ [NUL]))"
  using strcmp_strcpy_correct[of "''cat'' @ [NUL, NUL]" "''sh'' @ [NUL]"] by simp

text \<open>
  Appending a file name to a directory with \<open>catPath\<close> and then taking \<open>toParentPath\<close> gives the
  directory back, for every absolute directory that does not end in a slash.
\<close>

theorem catPath_toParentPath:
  assumes "terminated pre" and "terminated name" and "cstr pre \<noteq> []" and "last (cstr pre) \<noteq> CHR ''/''"
    and "CHR ''/'' \<notin> set (cstr name)"
    and "length (cstr pre) + length (cstr name) + 1 < length pre"
  shows "returns (\<lambda>b. cstr b = cstr pre) (obind (catPath pre name) toParentPath)"
proof -
  from catPath_join[OF assms(2,1,3,6)] obtain b where b: "catPath pre name = Ret b"
    "cstr b = join_path (cstr pre) (cstr name)" "length b = length pre"
    by (auto simp: returns_iff)
  have hd: "cstr name = [] \<or> hd (cstr name) \<noteq> CHR ''/''" using assms(5) by (cases "cstr name") auto
  have c: "cstr b = cstr pre @ ''/'' @ cstr name" using b(2) hd assms(4) by (simp add: join_path_def)
  have "terminated b"
  proof (rule ccontr)
    assume "\<not> terminated b"
    then have "cstr b = b" by (auto simp: cstr_def takeWhile_eq_all_conv)
    then have "length pre = length (cstr pre @ ''/'' @ cstr name)" using c b(3) by simp
    then show False using assms(6) by simp
  qed
  from toParentPath_eq[OF this c assms(5)] show ?thesis using b(1) assms(3)
    by (auto elim: returns_mono)
qed

theorem catPath_toParentPath_witness:
  "returns (\<lambda>b. cstr b = ''/home'') (obind (catPath (''/home'' @ replicate 20 NUL) (''sh'' @ [NUL])) toParentPath)"
  using catPath_toParentPath[of "''/home'' @ replicate 20 NUL" "''sh'' @ [NUL]"]
  by (simp add: numeral_eq_Suc)

end
