(* ===== verification/Mos_Elf.thy ===== *)
theory Mos_Elf
  imports Mos_Prelude
begin

text \<open>
  The ELF loader \<open>lib/elfloader.c\<close> and \<open>include/elf.h\<close>, which the kernel (\<open>load_icode\<close>) and the user
  library (\<open>spawn\<close>) share. An image is its list of bytes; the callback \<open>map_page\<close> is a parameter, and
  the locale \<open>page_mapper\<close> states what the loader's clients promise about it.
\<close>

section \<open>Headers (include/elf.h)\<close>

definition get8 :: "u8 list \<Rightarrow> nat \<Rightarrow> u8 outcome" where
  "get8 b i = (if i < length b then Ret (b ! i) else Undef)"

definition get16 :: "u8 list \<Rightarrow> nat \<Rightarrow> u16 outcome" where
  "get16 b i = (if i + 1 < length b then Ret (ucast (b ! i) OR push_bit 8 (ucast (b ! (i + 1)))) else Undef)"

definition get32 :: "u8 list \<Rightarrow> nat \<Rightarrow> u32 outcome" where
  "get32 b i =
     (if i + 3 < length b
      then Ret (ucast (b ! i) OR push_bit 8 (ucast (b ! (i + 1))) OR push_bit 16 (ucast (b ! (i + 2)))
                OR push_bit 24 (ucast (b ! (i + 3))))
      else Undef)"

record elf32_ehdr =
  e_ident :: "u8 list"
  e_type :: u16
  e_entry :: u32
  e_phoff :: u32
  e_phentsize :: u16
  e_phnum :: u16

record elf32_phdr =
  p_type :: u32
  p_offset :: u32
  p_vaddr :: u32
  p_filesz :: u32
  p_memsz :: u32
  p_flags :: u32

abbreviation (input) sizeof_Ehdr :: nat where "sizeof_Ehdr \<equiv> 52"
abbreviation (input) PT_LOAD :: u32 where "PT_LOAD \<equiv> 1"
abbreviation (input) PF_W :: u32 where "PF_W \<equiv> 2"

definition read_ehdr :: "u8 list \<Rightarrow> elf32_ehdr outcome" where
  "read_ehdr b =
     obind (get16 b 16) (\<lambda>ty. obind (get32 b 24) (\<lambda>entry. obind (get32 b 28) (\<lambda>phoff.
     obind (get16 b 42) (\<lambda>phentsize. obind (get16 b 44) (\<lambda>phnum.
     Ret \<lparr>e_ident = take 16 b, e_type = ty, e_entry = entry, e_phoff = phoff,
          e_phentsize = phentsize, e_phnum = phnum\<rparr>)))))"

definition read_phdr :: "u8 list \<Rightarrow> nat \<Rightarrow> elf32_phdr outcome" where
  "read_phdr b off =
     obind (get32 b off) (\<lambda>ty. obind (get32 b (off + 4)) (\<lambda>offset. obind (get32 b (off + 8)) (\<lambda>vaddr.
     obind (get32 b (off + 16)) (\<lambda>filesz. obind (get32 b (off + 20)) (\<lambda>memsz.
     obind (get32 b (off + 24)) (\<lambda>flags.
     Ret \<lparr>p_type = ty, p_offset = offset, p_vaddr = vaddr, p_filesz = filesz, p_memsz = memsz, p_flags = flags\<rparr>))))))"

section \<open>The loader (lib/elfloader.c)\<close>

text \<open>\<open>elf_from\<close> returns NULL (\<open>None\<close>) unless the magic number and the type are right.\<close>

definition elf_from :: "u8 list \<Rightarrow> u32 \<Rightarrow> elf32_ehdr option outcome" where
  "elf_from binary sz =
     (if sz < of_nat sizeof_Ehdr then Ret None
      else obind (read_ehdr binary) (\<lambda>ehdr.
        if e_ident ehdr ! 0 = 0x7f \<and> e_ident ehdr ! 1 = 0x45 \<and> e_ident ehdr ! 2 = 0x4C \<and> e_ident ehdr ! 3 = 0x46
           \<and> e_type ehdr = 2
        then Ret (Some ehdr) else Ret None))"

text \<open>
  A callback receives the address, the offset in the page, the permissions, the source (the bytes
  from the pointer on, or NULL) and the length.
\<close>

type_synonym 's elf_mapper =
  "u32 \<Rightarrow> u32 \<Rightarrow> u32 \<Rightarrow> u8 list option \<Rightarrow> u32 \<Rightarrow> 's \<Rightarrow> ((error + unit) \<times> 's) outcome"

text \<open>
  The two loops of \<open>elf_load_seg\<close>. The index is a \<open>size_t\<close>; an index that would wrap around makes
  the loop start again from low addresses and never reach its bound: \<open>Undef\<close>.
\<close>

function load_file_pages ::
  "'s elf_mapper \<Rightarrow> u32 \<Rightarrow> u32 \<Rightarrow> u8 list \<Rightarrow> nat \<Rightarrow> nat \<Rightarrow> 's \<Rightarrow> ((error + nat) \<times> 's) outcome" where
  "load_file_pages map_page va perm bin bin_size i s =
     (if i < bin_size then
        otry (map_page (va + of_nat i) 0 perm (Some (drop i bin)) (of_nat (min (bin_size - i) 4096)) s) (\<lambda>_ s.
          if 2 ^ 32 \<le> i + 4096 then Undef
          else load_file_pages map_page va perm bin bin_size (i + 4096) s)
      else Ret (Inr i, s))"
  by auto
termination by (relation "measure (\<lambda>(map_page, va, perm, bin, bin_size, i, s). bin_size - i)") auto

function load_zero_pages ::
  "'s elf_mapper \<Rightarrow> u32 \<Rightarrow> u32 \<Rightarrow> u32 \<Rightarrow> nat \<Rightarrow> nat \<Rightarrow> 's \<Rightarrow> ((error + unit) \<times> 's) outcome" where
  "load_zero_pages map_page va perm bin_size sgsize i s =
     (if i < sgsize then
        otry (map_page (va + of_nat i) 0 perm None (min (bin_size - of_nat i) BY2PG) s) (\<lambda>_ s.
          if 2 ^ 32 \<le> i + 4096 then Undef
          else load_zero_pages map_page va perm bin_size sgsize (i + 4096) s)
      else Ret (Inr (), s))"
  by auto
termination by (relation "measure (\<lambda>(map_page, va, perm, bin_size, sgsize, i, s). sgsize - i)") auto

declare load_file_pages.simps [simp del] load_zero_pages.simps [simp del]

definition elf_load_seg :: "'s elf_mapper \<Rightarrow> elf32_phdr \<Rightarrow> u8 list \<Rightarrow> 's \<Rightarrow> ((error + unit) \<times> 's) outcome" where
  "elf_load_seg map_page ph bin s =
     (let va = p_vaddr ph;
          bin_size = p_filesz ph;
          sgsize = p_memsz ph;
          perm = (if p_flags ph AND PF_W \<noteq> 0 then PTE_V OR PTE_D else PTE_V);
          offset = va - ROUNDDOWN va BY2PG
      in otry (if offset \<noteq> 0 then map_page va offset perm (Some bin) (min bin_size (BY2PG - offset)) s
               else Ret (Inr (), s)) (\<lambda>_ s.
         otry (load_file_pages map_page va perm bin (unat bin_size)
                 (if offset \<noteq> 0 then unat (min bin_size (BY2PG - offset)) else 0) s) (\<lambda>i s.
         load_zero_pages map_page va perm bin_size (unat sgsize) i s)))"

text \<open>\<open>ELF_FOREACH_PHDR_OFF\<close>: the offsets of the program headers.\<close>

definition phdr_offs :: "elf32_ehdr \<Rightarrow> u32 list" where
  "phdr_offs ehdr = map (\<lambda>i. e_phoff ehdr + of_nat i * ucast (e_phentsize ehdr)) [0..<unat (e_phnum ehdr)]"

section \<open>What a loaded segment looks like\<close>

text \<open>The page \<open>n\<close> of the image of a segment.\<close>

definition seg_page :: "u8 list \<Rightarrow> nat \<Rightarrow> nat \<Rightarrow> (nat \<Rightarrow> u8)" where
  "seg_page bin filesz n = (\<lambda>k. if n * 4096 + k < filesz \<and> k < 4096 then bin ! (n * 4096 + k) else 0)"

definition seg_loaded ::
  "u8 list \<Rightarrow> nat \<Rightarrow> nat \<Rightarrow> nat \<Rightarrow> nat \<Rightarrow> (nat \<Rightarrow> (nat \<Rightarrow> u8) option) \<Rightarrow> (nat \<Rightarrow> (nat \<Rightarrow> u8) option) \<Rightarrow> bool" where
  "seg_loaded bin filesz base lo hi c c' \<longleftrightarrow>
     c' = (\<lambda>p. if base + lo \<le> p \<and> p < base + hi then Some (seg_page bin filesz (p - base)) else c p)"

lemma seg_loaded_refl [simp]: "seg_loaded bin filesz base n n c c"
  by (auto simp: seg_loaded_def fun_eq_iff)

lemma low12: "unat (x AND 0xFFF :: u32) = unat x mod 4096"
  by (simp only: mask_0xFFF flip: take_bit_eq_mask) (simp only: unsigned_take_bit_eq, simp add: take_bit_eq_mod)

lemma aligned_ROUNDDOWN: "va AND 0xFFF = 0 \<Longrightarrow> ROUNDDOWN va BY2PG = va"
proof -
  assume "va AND 0xFFF = 0"
  then have "unat va mod 4096 = 0" using low12[of va] by simp
  moreover have "ROUNDDOWN va BY2PG = PTE_ADDR va" by (simp add: ROUNDDOWN_def PTE_ADDR_def)
  ultimately show ?thesis by (auto simp: word_unat_eq_iff unat_PTE_ADDR PPN_eq)
qed

lemma aligned_plus:
  fixes va :: u32
  assumes "va AND 0xFFF = 0" "unat va + n * 4096 + 4096 \<le> 2 ^ 31"
  shows "unat (va + of_nat (n * 4096)) = unat va + n * 4096"
    and "(va + of_nat (n * 4096)) AND 0xFFF = 0" and "VPN (va + of_nat (n * 4096)) = VPN va + n"
proof -
  have n: "unat (of_nat (n * 4096) :: u32) = n * 4096"
    using assms(2) by (simp only: unsigned_of_nat) (simp add: take_bit_nat_eq_self)
  show u: "unat (va + of_nat (n * 4096)) = unat va + n * 4096"
    using n assms(2) by (simp add: unat_word_ariths)
  have "unat va mod 4096 = 0" using assms(1) low12[of va] by simp
  then have "unat ((va + of_nat (n * 4096)) AND 0xFFF) = 0" by (simp only: low12 u) simp
  then show "(va + of_nat (n * 4096)) AND 0xFFF = 0" by (simp only: unat_eq_0)
  show "VPN (va + of_nat (n * 4096)) = VPN va + n" by (simp only: PPN_eq u) simp
qed

text \<open>
  The contract of a callback: \<open>inv\<close> is kept, \<open>content s n\<close> is the page mapped at the virtual page
  number \<open>n\<close> below \<open>limit\<close>, and a successful call maps one fresh page that holds the bytes asked for
  and zeroes elsewhere, leaving every other page alone.
\<close>

locale page_mapper =
  fixes map_page :: "'s elf_mapper"
    and inv :: "'s \<Rightarrow> bool"
    and content :: "'s \<Rightarrow> nat \<Rightarrow> (nat \<Rightarrow> u8) option"
    and limit :: nat
  assumes map_file: "\<lbrakk>inv s; unat va + 4096 \<le> limit; va AND 0xFFF = 0; perm < 4096; len \<le> BY2PG; unat len \<le> length src;
      map_page va 0 perm (Some src) len s = Ret (Inr u, s')\<rbrakk> \<Longrightarrow>
      inv s' \<and> content s' = (content s)(VPN va \<mapsto> (\<lambda>k. if k < unat len then src ! k else 0))"
    and map_zero: "\<lbrakk>inv s; unat va + 4096 \<le> limit; va AND 0xFFF = 0; perm < 4096;
      map_page va 0 perm None len s = Ret (Inr u, s')\<rbrakk> \<Longrightarrow>
      inv s' \<and> content s' = (content s)(VPN va \<mapsto> (\<lambda>k. 0))"
begin

lemma load_file_pages_ok:
  assumes "inv s" "va AND 0xFFF = 0" "perm < 4096" "filesz \<le> length bin"
    and "unat va + filesz + 4096 \<le> limit" "limit \<le> 2 ^ 31"
    and "load_file_pages map_page va perm bin filesz (n * 4096) s = Ret (Inr i, s')"
  shows "inv s' \<and> (\<exists>m\<ge>n. i = m * 4096 \<and> filesz \<le> i \<and> (n < m \<longrightarrow> i < filesz + 4096)
           \<and> seg_loaded bin filesz (VPN va) n m (content s) (content s'))"
  using assms
proof (induction "filesz - n * 4096" arbitrary: n s rule: less_induct)
  case less
  show ?case
  proof (cases "n * 4096 < filesz")
    case False
    then have "i = n * 4096" "s' = s" using less.prems(7) by (simp_all add: load_file_pages.simps)
    then show ?thesis using less.prems(1) False by (auto intro!: exI[of _ n])
  next
    case True
    let ?len = "of_nat (min (filesz - n * 4096) 4096) :: u32"
    have len: "unat ?len = min (filesz - n * 4096) 4096"
      by (simp add: unsigned_of_nat take_bit_nat_eq_self)
    have va: "unat va + n * 4096 + 4096 \<le> 2 ^ 31" using True less.prems(5,6) by simp
    note al = aligned_plus[OF less.prems(2) va]
    obtain u s1 where run: "map_page (va + of_nat (n * 4096)) 0 perm (Some (drop (n * 4096) bin)) ?len s = Ret (Inr u, s1)"
      and rest: "load_file_pages map_page va perm bin filesz (Suc n * 4096) s1 = Ret (Inr i, s')"
      using less.prems(7) True by (subst (asm) load_file_pages.simps) (auto simp: otry_eq_Ret add.commute split: if_splits)
    have "inv s1 \<and> content s1 = (content s)(VPN va + n \<mapsto> (\<lambda>k. if k < unat ?len then drop (n * 4096) bin ! k else 0))"
      using map_file[OF less.prems(1) _ al(2) less.prems(3) _ _ run] al less.prems(4,5) True len
      by (auto simp: word_le_nat_alt)
    moreover have "(\<lambda>k. if k < unat ?len then drop (n * 4096) bin ! k else 0) = seg_page bin filesz n"
      using True less.prems(4) by (auto simp: seg_page_def len fun_eq_iff)
    ultimately have s1: "inv s1" "content s1 = (content s)(VPN va + n \<mapsto> seg_page bin filesz n)" by simp_all
    have "filesz - Suc n * 4096 < filesz - n * 4096" using True by simp
    from less.hyps[OF this s1(1) less.prems(2-6) rest] obtain m where m: "inv s'" "Suc n \<le> m" "i = m * 4096" "filesz \<le> i"
      "Suc n < m \<longrightarrow> i < filesz + 4096" "seg_loaded bin filesz (VPN va) (Suc n) m (content s1) (content s')" by blast
    have "seg_loaded bin filesz (VPN va) n m (content s) (content s')"
      using m(2,6) by (auto simp: seg_loaded_def s1(2) fun_eq_iff Suc_le_eq le_less)
    moreover have "i < filesz + 4096" using m(2,3,5) True by (cases "Suc n = m") auto
    ultimately show ?thesis using m by (auto intro!: exI[of _ m])
  qed
qed

lemma load_zero_pages_ok:
  assumes "inv s" "va AND 0xFFF = 0" "perm < 4096"
    and "unat va + memsz + 4096 \<le> limit" "limit \<le> 2 ^ 31" "filesz \<le> n * 4096"
    and "load_zero_pages map_page va perm bsz memsz (n * 4096) s = Ret (Inr u, s')"
  shows "inv s' \<and> (\<exists>m\<ge>n. memsz \<le> m * 4096 \<and> (n < m \<longrightarrow> m * 4096 < memsz + 4096) \<and> seg_loaded bin filesz (VPN va) n m (content s) (content s'))"
  using assms
proof (induction "memsz - n * 4096" arbitrary: n s rule: less_induct)
  case less
  show ?case
  proof (cases "n * 4096 < memsz")
    case False
    then have "s' = s" using less.prems(7) by (simp add: load_zero_pages.simps)
    then show ?thesis using less.prems(1) False by (auto intro!: exI[of _ n])
  next
    case True
    have va: "unat va + n * 4096 + 4096 \<le> 2 ^ 31" using True less.prems(4,5) by simp
    note al = aligned_plus[OF less.prems(2) va]
    obtain u1 s1 where run: "map_page (va + of_nat (n * 4096)) 0 perm None (min (bsz - of_nat (n * 4096)) BY2PG) s = Ret (Inr u1, s1)"
      and rest: "load_zero_pages map_page va perm bsz memsz (Suc n * 4096) s1 = Ret (Inr u, s')"
      using less.prems(7) True by (subst (asm) load_zero_pages.simps) (auto simp: otry_eq_Ret add.commute split: if_splits)
    have "inv s1 \<and> content s1 = (content s)(VPN va + n \<mapsto> (\<lambda>k. 0))"
      using map_zero[OF less.prems(1) _ al(2) less.prems(3) run] al less.prems(4) True by auto
    moreover have "(\<lambda>k. 0) = seg_page bin filesz n"
      using less.prems(6) by (auto simp: seg_page_def fun_eq_iff)
    ultimately have s1: "inv s1" "content s1 = (content s)(VPN va + n \<mapsto> seg_page bin filesz n)" by simp_all
    have d: "memsz - Suc n * 4096 < memsz - n * 4096" and f: "filesz \<le> Suc n * 4096" using True less.prems(6) by simp_all
    from less.hyps[OF d s1(1) less.prems(2-5) f rest] obtain m where m: "inv s'" "Suc n \<le> m" "memsz \<le> m * 4096"
      "Suc n < m \<longrightarrow> m * 4096 < memsz + 4096" "seg_loaded bin filesz (VPN va) (Suc n) m (content s1) (content s')" by blast
    have "seg_loaded bin filesz (VPN va) n m (content s) (content s')"
      using m(2,5) by (auto simp: seg_loaded_def s1(2) fun_eq_iff Suc_le_eq le_less)
    moreover have "m * 4096 < memsz + 4096" using m(2,4) True by (cases "Suc n = m") auto
    ultimately show ?thesis using m by (auto intro!: exI[of _ m])
  qed
qed

lemma elf_load_seg_ok:
  assumes "inv s" "p_vaddr ph AND 0xFFF = 0" "unat (p_filesz ph) \<le> length bin" "p_filesz ph \<le> p_memsz ph"
    and "unat (p_vaddr ph) + unat (p_memsz ph) + 4096 \<le> limit" "limit \<le> 2 ^ 31"
    and "elf_load_seg map_page ph bin s = Ret (Inr u, s')"
  shows "inv s' \<and> (\<exists>m. unat (p_memsz ph) \<le> m * 4096 \<and> m * 4096 < unat (p_memsz ph) + 4096
           \<and> seg_loaded bin (unat (p_filesz ph)) (VPN (p_vaddr ph)) 0 m (content s) (content s'))"
proof -
  let ?va = "p_vaddr ph" and ?f = "unat (p_filesz ph)" and ?m = "unat (p_memsz ph)"
  define perm where "perm = (if p_flags ph AND PF_W \<noteq> 0 then PTE_V OR PTE_D else PTE_V)"
  have perm: "perm < 4096" by (simp add: perm_def)
  have "ROUNDDOWN ?va BY2PG = ?va" using assms(2) by (rule aligned_ROUNDDOWN)
  then obtain i s1 where f: "load_file_pages map_page ?va perm bin ?f 0 s = Ret (Inr i, s1)"
    and z: "load_zero_pages map_page ?va perm (p_filesz ph) ?m i s1 = Ret (Inr u, s')"
    using assms(7) by (auto simp: elf_load_seg_def Let_def otry_eq_Ret simp flip: perm_def)
  have le: "?f \<le> ?m" using assms(4) by (simp add: word_le_nat_alt)
  obtain n where n: "inv s1" "i = n * 4096" "?f \<le> i" "0 < n \<longrightarrow> i < ?f + 4096"
    "seg_loaded bin ?f (VPN ?va) 0 n (content s) (content s1)"
    using load_file_pages_ok[of s ?va perm ?f bin 0 i s1] assms perm f le by auto
  obtain m where m: "inv s'" "n \<le> m" "?m \<le> m * 4096" "n < m \<longrightarrow> m * 4096 < ?m + 4096"
    "seg_loaded bin ?f (VPN ?va) n m (content s1) (content s')"
    using load_zero_pages_ok[of s1 ?va perm ?m ?f n "p_filesz ph" u s' bin] assms perm z n by auto
  have "m * 4096 < ?m + 4096" using m n le by (cases "n = m") auto
  moreover have "seg_loaded bin ?f (VPN ?va) 0 m (content s) (content s')"
    using n(5) m(2,5) by (auto simp: seg_loaded_def fun_eq_iff)
  ultimately show ?thesis using m by blast
qed

end

text \<open>
  A mapper that succeeds from the address \<open>low\<close> on as long as its allocator has two frames left, and uses
  at most two.
\<close>

locale budget_mapper = page_mapper +
  fixes budget :: "'a \<Rightarrow> nat" and low :: nat
  assumes map_progress: "\<lbrakk>inv s; unat va + 4096 \<le> limit; va AND 0xFFF = 0; perm < 4096;
      case src of None \<Rightarrow> True | Some bs \<Rightarrow> unat len \<le> length bs \<and> len \<le> BY2PG; 2 \<le> budget s; low \<le> unat va\<rbrakk> \<Longrightarrow>
      returns (\<lambda>(r, s'). r = Inr () \<and> budget s \<le> budget s' + 2) (map_page va 0 perm src len s)"
begin

lemma load_file_pages_returns:
  assumes "inv s" "va AND 0xFFF = 0" "perm < 4096" "filesz \<le> length bin"
    and "unat va + filesz + 4096 \<le> limit" "limit \<le> 2 ^ 31" "filesz \<le> n * 4096 + b * 4096" "2 * b + c \<le> budget s"
    and "low \<le> unat va"
  shows "returns (\<lambda>(r, s'). (\<exists>i. r = Inr i) \<and> c \<le> budget s') (load_file_pages map_page va perm bin filesz (n * 4096) s)"
  using assms
proof (induction b arbitrary: n s)
  case 0
  then show ?case by (simp add: load_file_pages.simps)
next
  case (Suc b)
  show ?case
  proof (cases "n * 4096 < filesz")
    case False
    then show ?thesis using Suc.prems by (simp add: load_file_pages.simps)
  next
    case True
    let ?len = "of_nat (min (filesz - n * 4096) 4096) :: u32"
    have len: "unat ?len = min (filesz - n * 4096) 4096"
      by (simp add: unsigned_of_nat take_bit_nat_eq_self)
    have va: "unat va + n * 4096 + 4096 \<le> 2 ^ 31" using True Suc.prems(5,6) by simp
    note al = aligned_plus[OF Suc.prems(2) va]
    have src: "case Some (drop (n * 4096) bin) of None \<Rightarrow> True | Some bs \<Rightarrow> unat ?len \<le> length bs \<and> ?len \<le> BY2PG"
      using True Suc.prems(4) len by (auto simp: word_le_nat_alt)
    have lim: "unat (va + of_nat (n * 4096)) + 4096 \<le> limit" using al(1) True Suc.prems(5) by simp
    obtain s1 where run: "map_page (va + of_nat (n * 4096)) 0 perm (Some (drop (n * 4096) bin)) ?len s = Ret (Inr (), s1)"
      "budget s \<le> budget s1 + 2"
      using map_progress[OF Suc.prems(1) lim al(2) Suc.prems(3) src] Suc.prems(8,9) al(1) by (auto simp: returns_iff)
    have "inv s1"
      using map_file[OF Suc.prems(1) lim al(2) Suc.prems(3) _ _ run(1)] len Suc.prems(4) True by (auto simp: word_le_nat_alt)
    then have "returns (\<lambda>(r, s'). (\<exists>i. r = Inr i) \<and> c \<le> budget s') (load_file_pages map_page va perm bin filesz (Suc n * 4096) s1)"
      using Suc.prems run(2) by (intro Suc.IH) auto
    moreover have "n * 4096 + 4096 < 2 ^ 32" using True Suc.prems(5,6) by simp
    ultimately show ?thesis using True run(1) by (subst load_file_pages.simps) (simp add: add.commute)
  qed
qed

lemma load_zero_pages_returns:
  assumes "inv s" "va AND 0xFFF = 0" "perm < 4096"
    and "unat va + memsz + 4096 \<le> limit" "limit \<le> 2 ^ 31" "memsz \<le> n * 4096 + b * 4096" "2 * b \<le> budget s"
    and "low \<le> unat va"
  shows "returns (\<lambda>(r, s'). r = Inr ()) (load_zero_pages map_page va perm bsz memsz (n * 4096) s)"
  using assms
proof (induction b arbitrary: n s)
  case 0
  then show ?case by (simp add: load_zero_pages.simps)
next
  case (Suc b)
  show ?case
  proof (cases "n * 4096 < memsz")
    case False
    then show ?thesis by (simp add: load_zero_pages.simps)
  next
    case True
    have va: "unat va + n * 4096 + 4096 \<le> 2 ^ 31" using True Suc.prems(4,5) by simp
    note al = aligned_plus[OF Suc.prems(2) va]
    have lim: "unat (va + of_nat (n * 4096)) + 4096 \<le> limit" using al(1) True Suc.prems(4) by simp
    obtain s1 where run: "map_page (va + of_nat (n * 4096)) 0 perm None (min (bsz - of_nat (n * 4096)) BY2PG) s = Ret (Inr (), s1)"
      "budget s \<le> budget s1 + 2"
      using map_progress[OF Suc.prems(1) lim al(2) Suc.prems(3), where src = None] Suc.prems(7,8) al(1) by (auto simp: returns_iff)
    have "inv s1" using map_zero[OF Suc.prems(1) lim al(2) Suc.prems(3) run(1)] by simp
    then have "returns (\<lambda>(r, s'). r = Inr ()) (load_zero_pages map_page va perm bsz memsz (Suc n * 4096) s1)"
      using Suc.prems run(2) by (intro Suc.IH) auto
    moreover have "n * 4096 + 4096 < 2 ^ 32" using True Suc.prems(4,5) by simp
    ultimately show ?thesis using True run(1) by (subst load_zero_pages.simps) (simp add: add.commute)
  qed
qed

text \<open>With two frames for every page of the segment, and two to spare, the segment is loaded.\<close>

lemma elf_load_seg_returns:
  assumes "inv s" "p_vaddr ph AND 0xFFF = 0" "unat (p_filesz ph) \<le> length bin" "p_filesz ph \<le> p_memsz ph"
    and "unat (p_vaddr ph) + unat (p_memsz ph) + 4096 \<le> limit" "limit \<le> 2 ^ 31"
    and "4 * (unat (p_memsz ph) div 4096 + 1) \<le> budget s" and "low \<le> unat (p_vaddr ph)"
  shows "returns (\<lambda>(r, s'). r = Inr ()) (elf_load_seg map_page ph bin s)"
proof -
  let ?va = "p_vaddr ph" and ?f = "unat (p_filesz ph)" and ?m = "unat (p_memsz ph)"
  define perm where "perm = (if p_flags ph AND PF_W \<noteq> 0 then PTE_V OR PTE_D else PTE_V)"
  have perm: "perm < 4096" by (simp add: perm_def)
  have le: "?f \<le> ?m" using assms(4) by (simp add: word_le_nat_alt)
  let ?b = "?m div 4096 + 1"
  have cover: "?m \<le> ?b * 4096" using div_mult_mod_eq[of ?m 4096] mod_less_divisor[of 4096 ?m] by simp
  obtain i s1 where f: "load_file_pages map_page ?va perm bin ?f 0 s = Ret (Inr i, s1)" and b1: "2 * ?b \<le> budget s1"
    using load_file_pages_returns[of s ?va perm ?f bin 0 ?b "2 * ?b"] assms perm le cover by (auto simp: returns_iff)
  obtain n where n: "inv s1" "i = n * 4096"
    using load_file_pages_ok[of s ?va perm ?f bin 0 i s1] assms perm f le by auto
  have z: "returns (\<lambda>(r, s'). r = Inr ()) (load_zero_pages map_page ?va perm (p_filesz ph) ?m i s1)"
    unfolding n(2) by (rule load_zero_pages_returns[of _ _ _ _ _ ?b]) (use assms perm n cover b1 in auto)
  have "ROUNDDOWN ?va BY2PG = ?va" using assms(2) by (rule aligned_ROUNDDOWN)
  then have "elf_load_seg map_page ph bin s = load_zero_pages map_page ?va perm (p_filesz ph) ?m i s1"
    using f by (simp add: elf_load_seg_def Let_def flip: perm_def)
  with z show ?thesis by simp
qed

end

section \<open>Segments that do not start on a page boundary\<close>

text \<open>A callback that only records the page it was asked to map and whether there was a source.\<close>

definition log_mapper :: "(nat \<times> bool) list elf_mapper" where
  "log_mapper va offset perm src len s = Ret (Inr (), s @ [(VPN va, src \<noteq> None)])"

text \<open>
  A segment that starts inside a page, whose file part ends in that page and which has a
  zero-initialised part after it, is mapped twice: the second call replaces the page that holds the
  file's bytes by an empty one (here 4 bytes at 0x400010 followed by 4 zero bytes).
\<close>

theorem elf_load_seg_unaligned_clobbers:
  "elf_load_seg log_mapper \<lparr>p_type = PT_LOAD, p_offset = 0, p_vaddr = 0x400010, p_filesz = 4, p_memsz = 8, p_flags = 0\<rparr>
     [1, 2, 3, 4] [] = Ret (Inr (), [(0x400, True), (0x400, False)])"
  by (simp add: elf_load_seg_def Let_def log_mapper_def load_file_pages.simps load_zero_pages.simps ROUNDDOWN_def PPN_eq)

end
