(* ===== verification/Mos_Env.thy ===== *)
theory Mos_Env
  imports Mos_Pmap Mos_String Mos_Elf
begin

text \<open>
  Environments: \<open>kern/env.c\<close>, \<open>include/env.h\<close> and \<open>include/trap.h\<close>. The kernel state extends the
  memory state by the array \<open>envs\<close>, the two queues, the ASID bitmap and the other variables of the
  file, including the function-static counters. An environment is denoted by its index in \<open>envs\<close>; a
  pointer to a page directory by the number of its frame.
\<close>

section \<open>State\<close>

record trapframe =
  regs :: "nat \<Rightarrow> u32"
  cp0_status :: u32
  tf_hi :: u32
  tf_lo :: u32
  cp0_badvaddr :: u32
  cp0_cause :: u32
  cp0_epc :: u32

abbreviation (input) ENV_FREE :: u32 where "ENV_FREE \<equiv> 0"
abbreviation (input) ENV_RUNNABLE :: u32 where "ENV_RUNNABLE \<equiv> 1"
abbreviation (input) ENV_NOT_RUNNABLE :: u32 where "ENV_NOT_RUNNABLE \<equiv> 2"
abbreviation (input) NENV :: nat where "NENV \<equiv> 1024"
abbreviation (input) NASID :: nat where "NASID \<equiv> 64"

record env =
  env_tf :: trapframe
  env_id :: u32
  env_asid :: u32
  env_parent_id :: u32
  env_status :: u32
  env_pgdir :: nat
  env_pri :: u32
  env_ipc_value :: u32
  env_ipc_from :: u32
  env_ipc_recving :: u32
  env_ipc_dstva :: u32
  env_ipc_perm :: u32
  env_user_tlb_mod_entry :: u32
  env_runs :: u32
  env_path :: "char list"
  env_shellId :: u32

text \<open>
  \<open>sched_count\<close> is the static \<open>count\<close> of \<open>schedule\<close>, \<open>mkenvid_i\<close> the static \<open>i\<close> of \<open>mkenvid\<close>,
  \<open>kstack_tf\<close> the trap frame at the top of the kernel stack, and \<open>cpu\<close> the context and ASID that
  \<open>env_pop_tf\<close> last resumed.
\<close>

record kstate = pmap_state +
  envs :: "nat \<Rightarrow> env"
  curenv :: "nat option"
  env_free_list :: "nat list"
  env_sched_list :: "nat list"
  base_pgdir :: nat
  asid_bitmap :: "nat \<Rightarrow> u32"
  mkenvid_i :: u32
  sched_count :: u32
  cur_pgdir :: nat
  kstack_tf :: trapframe
  cpu :: "trapframe \<times> u32"

definition upd_env :: "nat \<Rightarrow> (env \<Rightarrow> env) \<Rightarrow> 'a kstate_scheme \<Rightarrow> 'a kstate_scheme" where
  "upd_env e f s = s\<lparr>envs := (envs s)(e := f (envs s e))\<rparr>"

section \<open>Bytes of physical memory\<close>

definition phys_get :: "'a pmap_state_scheme \<Rightarrow> nat \<Rightarrow> u8" where
  "phys_get s pa = ucast (drop_bit (8 * (pa mod 4)) (frames s (pa div 4096) (pa mod 4096 div 4)))"

definition set_byte :: "nat \<Rightarrow> u8 \<Rightarrow> u32 \<Rightarrow> u32" where
  "set_byte k b w = (w AND NOT (push_bit (8 * k) 0xFF)) OR push_bit (8 * k) (ucast b)"

definition phys_put :: "nat \<Rightarrow> u8 \<Rightarrow> 'a pmap_state_scheme \<Rightarrow> 'a pmap_state_scheme" where
  "phys_put pa b s =
     poke (pa div 4096, pa mod 4096 div 4) (set_byte (pa mod 4) b (peek s (pa div 4096, pa mod 4096 div 4))) s"

fun phys_write :: "nat \<Rightarrow> u8 list \<Rightarrow> 'a pmap_state_scheme \<Rightarrow> 'a pmap_state_scheme" where
  "phys_write pa [] s = s"
| "phys_write pa (b # bs) s = phys_write (pa + 1) bs (phys_put pa b s)"

section \<open>ASIDs and environment ids\<close>

fun asid_scan :: "nat list \<Rightarrow> 'a kstate_scheme \<Rightarrow> ((error + u32) \<times> 'a kstate_scheme) outcome" where
  "asid_scan [] s = Ret (Inl E_NO_FREE_ENV, s)"
| "asid_scan (i # is) s =
     (let index = i div 32; inner = i mod 32 in
      if asid_bitmap s index AND push_bit inner 1 = 0
      then Ret (Inr (of_nat i), s\<lparr>asid_bitmap := (asid_bitmap s)(index := asid_bitmap s index OR push_bit inner 1)\<rparr>)
      else asid_scan is s)"

definition asid_alloc :: "'a kstate_scheme \<Rightarrow> ((error + u32) \<times> 'a kstate_scheme) outcome" where
  "asid_alloc s = asid_scan [0..<NASID] s"

definition asid_free :: "u32 \<Rightarrow> 'a kstate_scheme \<Rightarrow> 'a kstate_scheme outcome" where
  "asid_free i s =
     (let index = unat (drop_bit 5 i); inner = unat (i AND 31) in
      if 2 \<le> index then Undef
      else Ret (s\<lparr>asid_bitmap := (asid_bitmap s)(index := asid_bitmap s index AND NOT (push_bit inner 1))\<rparr>))"

definition mkenvid :: "nat \<Rightarrow> 'a kstate_scheme \<Rightarrow> u32 \<times> 'a kstate_scheme" where
  "mkenvid e s = (let i = mkenvid_i s + 1 in (push_bit 11 i OR of_nat e, s\<lparr>mkenvid_i := i\<rparr>))"

definition ENVX :: "u32 \<Rightarrow> nat" where
  "ENVX envid = unat (envid AND 0x3FF)"

text \<open>
  With \<open>envid\<close> 0 the code hands out \<open>curenv\<close>; every caller dereferences the result, so a NULL
  \<open>curenv\<close> is \<open>Undef\<close> here.
\<close>

definition envid2env :: "u32 \<Rightarrow> bool \<Rightarrow> 'a kstate_scheme \<Rightarrow> (error + nat) outcome" where
  "envid2env envid checkperm s =
     (if envid = 0 then (case curenv s of None \<Rightarrow> Undef | Some c \<Rightarrow> Ret (Inr c))
      else let e = ENVX envid in
        if env_status (envs s e) = ENV_FREE \<or> env_id (envs s e) \<noteq> envid then Ret (Inl E_BAD_ENV)
        else if checkperm then
          (case curenv s of
             None \<Rightarrow> Undef
           | Some c \<Rightarrow>
               if env_parent_id (envs s e) \<noteq> env_id (envs s c) \<and> env_id (envs s e) \<noteq> env_id (envs s c)
               then Ret (Inl E_BAD_ENV) else Ret (Inr e))
        else Ret (Inr e))"

section \<open>Creating environments\<close>

definition map_segment ::
  "nat \<Rightarrow> u32 \<Rightarrow> u32 \<Rightarrow> u32 \<Rightarrow> u32 \<Rightarrow> u32 \<Rightarrow> 'a pmap_state_scheme \<Rightarrow> 'a pmap_state_scheme outcome" where
  "map_segment pgdir asid pa va sz perm s =
     obind (guard_panic (pa mod BY2PG = 0) ''assertion failed: pa % BY2PG == 0'') (\<lambda>_.
     obind (guard_panic (va mod BY2PG = 0) ''assertion failed: va % BY2PG == 0'') (\<lambda>_.
     obind (guard_panic (sz mod BY2PG = 0) ''assertion failed: size % BY2PG == 0'') (\<lambda>_.
     ofold (\<lambda>i s.
       obind (pa2page s (pa + of_nat i)) (\<lambda>pp.
       obind (page_insert pgdir asid pp (va + of_nat i) perm s) (\<lambda>(r, s). Ret s)))
       (map (\<lambda>k. k * 4096) [0..<unat sz div 4096]) s)))"

abbreviation (input) sizeof_Env :: nat where "sizeof_Env \<equiv> 1248"

definition init_env_slot :: "nat \<Rightarrow> 'a kstate_scheme \<Rightarrow> 'a kstate_scheme outcome" where
  "init_env_slot i s =
     (let s = upd_env i (\<lambda>e. e\<lparr>env_status := ENV_FREE\<rparr>) s in
      obind (list_insert_head i (env_free_list s)) (\<lambda>fl. Ret (s\<lparr>env_free_list := fl\<rparr>)))"

text \<open>\<open>pages\<close> and \<open>envs_kva\<close> are the kernel addresses of the arrays \<open>pages\<close> and \<open>envs\<close>.\<close>

definition env_init :: "u32 \<Rightarrow> u32 \<Rightarrow> 'a kstate_scheme \<Rightarrow> 'a kstate_scheme outcome" where
  "env_init pages envs_kva s =
     (let s = s\<lparr>env_free_list := [], env_sched_list := []\<rparr> in
      obind (ofold init_env_slot (rev [0..<NENV]) s) (\<lambda>s.
      obind (page_alloc s) (\<lambda>(r, s).
      case r of
        Inl e \<Rightarrow> Panic ''panic_on(page_alloc(&p))''
      | Inr p \<Rightarrow>
          let s = incr_ref p s in
          obind (page2kva s p) (\<lambda>_.
          let s = s\<lparr>base_pgdir := p\<rparr> in
          obind (PADDR pages) (\<lambda>pa_pages.
          obind (map_segment (base_pgdir s) 0 pa_pages UPAGES
                   (ROUND (of_nat (npage s) * sizeof_Page) BY2PG) PTE_G s) (\<lambda>s.
          obind (PADDR envs_kva) (\<lambda>pa_envs.
          map_segment (base_pgdir s) 0 pa_envs UENVS (ROUND (of_nat (NENV * sizeof_Env)) BY2PG) PTE_G s)))))))"

definition env_setup_vm :: "nat \<Rightarrow> 'a kstate_scheme \<Rightarrow> ((error + unit) \<times> 'a kstate_scheme) outcome" where
  "env_setup_vm e s =
     otry (page_alloc s) (\<lambda>p s.
       let s = incr_ref p s in
       obind (page2kva s p) (\<lambda>kva.
       let s = upd_env e (\<lambda>v. v\<lparr>env_pgdir := p\<rparr>) s;
           s = s\<lparr>frames := (frames s)(p := (\<lambda>i. if PDX UTOP \<le> i \<and> i < PDX UVPT then frames s (base_pgdir s) i
                                            else frames s p i))\<rparr>
       in obind (PADDR kva) (\<lambda>pa. Ret (Inr (), poke (p, PDX UVPT) (pa OR PTE_V) s))))"

abbreviation (input) STATUS_IM4 :: u32 where "STATUS_IM4 \<equiv> 0x1000"
abbreviation (input) STATUS_KUp :: u32 where "STATUS_KUp \<equiv> 0x8"
abbreviation (input) STATUS_IEp :: u32 where "STATUS_IEp \<equiv> 0x4"

definition env_alloc :: "u32 \<Rightarrow> 'a kstate_scheme \<Rightarrow> ((error + nat) \<times> 'a kstate_scheme) outcome" where
  "env_alloc parent_id s =
     (case env_free_list s of
        [] \<Rightarrow> Ret (Inl E_NO_FREE_ENV, s)
      | e # _ \<Rightarrow>
          otry (env_setup_vm e s) (\<lambda>_ s.
            let s = upd_env e (\<lambda>v. v\<lparr>env_user_tlb_mod_entry := 0, env_runs := 0, env_path := (env_path v)[0 := CHR ''/'']\<rparr>) s;
                (envid, s) = mkenvid e s;
                s = upd_env e (\<lambda>v. v\<lparr>env_id := envid, env_shellId := 0\<rparr>) s
            in otry (asid_alloc s) (\<lambda>asid s.
               let s = upd_env e (\<lambda>v. v\<lparr>env_asid := asid, env_parent_id := parent_id,
                         env_tf := (env_tf v)\<lparr>cp0_status := STATUS_IM4 OR STATUS_KUp OR STATUS_IEp,
                                              regs := (regs (env_tf v))(29 := USTACKTOP - 4 - 4)\<rparr>\<rparr>) s
               in obind (list_remove e (env_free_list s)) (\<lambda>fl. Ret (Inr e, s\<lparr>env_free_list := fl\<rparr>)))))"

definition load_icode_mapper :: "nat \<Rightarrow> 'a kstate_scheme elf_mapper" where
  "load_icode_mapper e va offset perm src len s =
     obind (page_alloc s) (\<lambda>(r, s).
       case r of
         Inl _ \<Rightarrow> Panic ''there is no mem!''
       | Inr p \<Rightarrow>
           obind (case src of
                    None \<Rightarrow> Ret s
                  | Some bs \<Rightarrow>
                      obind (page2kva s p) (\<lambda>_.
                        if length bs < unat len then Undef
                        else Ret (phys_write (p * 4096 + unat offset) (take (unat len) bs) s))) (\<lambda>s.
           page_insert (env_pgdir (envs s e)) (env_asid (envs s e)) p va perm s))"

definition load_icode :: "nat \<Rightarrow> u8 list \<Rightarrow> u32 \<Rightarrow> 'a kstate_scheme \<Rightarrow> 'a kstate_scheme outcome" where
  "load_icode e binary sz s =
     obind (elf_from binary sz) (\<lambda>h.
       case h of
         None \<Rightarrow> Panic ''bad elf''
       | Some ehdr \<Rightarrow>
           obind (ofold (\<lambda>ph_off s.
               obind (read_phdr binary (unat ph_off)) (\<lambda>ph.
                 if p_type ph = PT_LOAD then
                   obind (elf_load_seg (load_icode_mapper e) ph (drop (unat (p_offset ph)) binary) s) (\<lambda>(r, s).
                     case r of Inl _ \<Rightarrow> Panic ''panic_on(elf_load_seg(...))'' | Inr _ \<Rightarrow> Ret s)
                 else Ret s)) (phdr_offs ehdr) s) (\<lambda>s.
           Ret (upd_env e (\<lambda>v. v\<lparr>env_tf := (env_tf v)\<lparr>cp0_epc := e_entry ehdr\<rparr>\<rparr>) s)))"

text \<open>The result of \<open>env_alloc\<close> is not checked: on failure a NULL pointer is dereferenced.\<close>

definition env_create :: "u8 list \<Rightarrow> u32 \<Rightarrow> u32 \<Rightarrow> 'a kstate_scheme \<Rightarrow> (nat \<times> 'a kstate_scheme) outcome" where
  "env_create binary sz priority s =
     obind (env_alloc 0 s) (\<lambda>(r, s).
       case r of
         Inl _ \<Rightarrow> Undef
       | Inr e \<Rightarrow>
           let s = upd_env e (\<lambda>v. v\<lparr>env_pri := priority, env_status := ENV_RUNNABLE\<rparr>) s in
           obind (load_icode e binary sz s) (\<lambda>s.
           obind (tailq_insert_head e (env_sched_list s)) (\<lambda>q.
           Ret (e, s\<lparr>env_sched_list := q\<rparr>))))"

section \<open>Freeing environments\<close>

definition env_free_pte :: "nat \<Rightarrow> nat \<Rightarrow> nat \<Rightarrow> nat \<Rightarrow> 'a kstate_scheme \<Rightarrow> 'a kstate_scheme outcome" where
  "env_free_pte e pt pdeno pteno s =
     (if pte_valid (peek s (pt, pteno))
      then page_remove (env_pgdir (envs s e)) (env_asid (envs s e)) (push_bit PDSHIFT (of_nat pdeno) OR push_bit PGSHIFT (of_nat pteno)) s
      else Ret s)"

definition env_free_pde :: "nat \<Rightarrow> nat \<Rightarrow> 'a kstate_scheme \<Rightarrow> 'a kstate_scheme outcome" where
  "env_free_pde e pdeno s =
     (let pgdir = env_pgdir (envs s e) in
      if \<not> pte_valid (peek s (pgdir, pdeno)) then Ret s
      else let pa = PTE_ADDR (peek s (pgdir, pdeno)) in
        obind (KADDR s pa) (\<lambda>_.
        obind (ofold (env_free_pte e (PPN pa) pdeno) [0..<PTX (NOT 0) + 1] s) (\<lambda>s.
        let s = poke (pgdir, pdeno) 0 s in
        obind (pa2page s pa) (\<lambda>pp.
        obind (page_decref pp s) (\<lambda>s.
        Ret (tlb_invalidate (env_asid (envs s e)) (UVPT + push_bit PGSHIFT (of_nat pdeno)) s))))))"

definition env_free :: "nat \<Rightarrow> 'a kstate_scheme \<Rightarrow> 'a kstate_scheme outcome" where
  "env_free e s =
     obind (ofold (env_free_pde e) [0..<PDX UTOP] s) (\<lambda>s.
     obind (pa2page s (page2pa (env_pgdir (envs s e)))) (\<lambda>pp.
     obind (page_decref pp s) (\<lambda>s.
     obind (asid_free (env_asid (envs s e)) s) (\<lambda>s.
     let s = tlb_invalidate (env_asid (envs s e)) (UVPT + push_bit PGSHIFT (of_nat (PDX UVPT))) s;
         s = upd_env e (\<lambda>v. v\<lparr>env_status := ENV_FREE\<rparr>) s
     in obind (list_insert_head e (env_free_list s)) (\<lambda>fl.
        let s = s\<lparr>env_free_list := fl\<rparr> in
        obind (tailq_remove e (env_sched_list s)) (\<lambda>q.
        Ret (s\<lparr>env_sched_list := q\<rparr>)))))))"

section \<open>What the memory operations leave alone\<close>

lemma more_kfields:
  fixes s s' :: "'a kstate_scheme"
  assumes "pmap_state.more s' = pmap_state.more s"
  shows "envs s' = envs s" "curenv s' = curenv s" "env_free_list s' = env_free_list s"
    "env_sched_list s' = env_sched_list s" "base_pgdir s' = base_pgdir s" "asid_bitmap s' = asid_bitmap s"
    "mkenvid_i s' = mkenvid_i s" "sched_count s' = sched_count s" "cur_pgdir s' = cur_pgdir s"
    "kstack_tf s' = kstack_tf s" "cpu s' = cpu s" "kstate.more s' = kstate.more s"
  using assms by (cases s; cases s'; simp)+

lemma mem_op_kfields [simp]:
  "envs (incr_ref p s) = envs s" "curenv (incr_ref p s) = curenv s" "env_free_list (incr_ref p s) = env_free_list s"
  "env_sched_list (incr_ref p s) = env_sched_list s" "base_pgdir (incr_ref p s) = base_pgdir s" "asid_bitmap (incr_ref p s) = asid_bitmap s"
  "mkenvid_i (incr_ref p s) = mkenvid_i s" "sched_count (incr_ref p s) = sched_count s" "cur_pgdir (incr_ref p s) = cur_pgdir s"
  "kstack_tf (incr_ref p s) = kstack_tf s" "cpu (incr_ref p s) = cpu s" "kstate.more (incr_ref p s) = kstate.more s"
  "envs (poke q v s) = envs s" "curenv (poke q v s) = curenv s" "env_free_list (poke q v s) = env_free_list s"
  "env_sched_list (poke q v s) = env_sched_list s" "base_pgdir (poke q v s) = base_pgdir s" "asid_bitmap (poke q v s) = asid_bitmap s"
  "mkenvid_i (poke q v s) = mkenvid_i s" "sched_count (poke q v s) = sched_count s" "cur_pgdir (poke q v s) = cur_pgdir s"
  "kstack_tf (poke q v s) = kstack_tf s" "cpu (poke q v s) = cpu s" "kstate.more (poke q v s) = kstate.more s"
  "envs (tlb_invalidate a va s) = envs s" "curenv (tlb_invalidate a va s) = curenv s" "env_free_list (tlb_invalidate a va s) = env_free_list s"
  "env_sched_list (tlb_invalidate a va s) = env_sched_list s" "base_pgdir (tlb_invalidate a va s) = base_pgdir s" "asid_bitmap (tlb_invalidate a va s) = asid_bitmap s"
  "mkenvid_i (tlb_invalidate a va s) = mkenvid_i s" "sched_count (tlb_invalidate a va s) = sched_count s" "cur_pgdir (tlb_invalidate a va s) = cur_pgdir s"
  "kstack_tf (tlb_invalidate a va s) = kstack_tf s" "cpu (tlb_invalidate a va s) = cpu s" "kstate.more (tlb_invalidate a va s) = kstate.more s"
  by (simp_all add: incr_ref_def poke_def tlb_invalidate_def tlb_out_def)

lemma upd_env_simps [simp]:
  "npage (upd_env e f s) = npage s" "pp_ref (upd_env e f s) = pp_ref s" "frames (upd_env e f s) = frames s"
  "page_free_list (upd_env e f s) = page_free_list s" "tlb (upd_env e f s) = tlb s"
  "curenv (upd_env e f s) = curenv s" "env_free_list (upd_env e f s) = env_free_list s"
  "env_sched_list (upd_env e f s) = env_sched_list s" "base_pgdir (upd_env e f s) = base_pgdir s"
  "asid_bitmap (upd_env e f s) = asid_bitmap s" "mkenvid_i (upd_env e f s) = mkenvid_i s"
  "sched_count (upd_env e f s) = sched_count s" "cur_pgdir (upd_env e f s) = cur_pgdir s"
  "kstack_tf (upd_env e f s) = kstack_tf s" "cpu (upd_env e f s) = cpu s"
  "envs (upd_env e f s) = (envs s)(e := f (envs s e))" "kstate.more (upd_env e f s) = kstate.more s"
  by (simp_all add: upd_env_def)

text \<open>The memory invariant depends only on the memory fields.\<close>

definition mem_of :: "'a pmap_state_scheme \<Rightarrow> nat \<times> (nat \<Rightarrow> u16) \<times> nat list \<times> (nat \<Rightarrow> nat \<Rightarrow> u32)" where
  "mem_of s = (npage s, pp_ref s, page_free_list s, frames s)"

lemma mem_of_eq:
  assumes "mem_of s' = mem_of s"
  shows "vmap s' = vmap s" "pde_slots s' = pde_slots s" "pte_slots s' = pte_slots s"
    "pmap_inv D base s' = pmap_inv D base s" "user_page D base s' = user_page D base s"
  using assms
  by (simp_all add: mem_of_def fun_eq_iff vmap_def pde_slots_def pte_slots_def user_page_def pmap_inv_def
      free_list_ok_def tables_ok_def leaves_ok_def refs_ok_def page_refs_def)

lemma mem_of_upd_env [simp]: "mem_of (upd_env e f s) = mem_of s"
  by (simp add: mem_of_def)

section \<open>ASIDs\<close>

definition asid_used :: "'a kstate_scheme \<Rightarrow> nat \<Rightarrow> bool" where
  "asid_used s a = bit (asid_bitmap s (a div 32)) (a mod 32)"

lemma asid_bit:
  assumes "k < 32"
  shows "(x :: u32) AND push_bit k 1 = 0 \<longleftrightarrow> \<not> bit x k"
proof
  assume "x AND push_bit k 1 = 0"
  then have "\<not> bit (x AND push_bit k 1) k" by simp
  then show "\<not> bit x k" using assms by (simp add: bit_simps)
next
  assume "\<not> bit x k"
  then show "x AND push_bit k 1 = 0" by (intro bit_word_eqI) (auto simp: bit_simps)
qed

lemma asid_scan_used: "asid_used s i \<Longrightarrow> asid_scan (i # is) s = asid_scan is s"
  unfolding asid_scan.simps Let_def asid_used_def by (subst asid_bit) simp_all

lemma asid_scan_unused:
  "\<not> asid_used s i \<Longrightarrow> asid_scan (i # is) s = Ret (Inr (of_nat i),
     s\<lparr>asid_bitmap := (asid_bitmap s)(i div 32 := asid_bitmap s (i div 32) OR push_bit (i mod 32) 1)\<rparr>)"
  unfolding asid_scan.simps Let_def asid_used_def by (subst asid_bit) simp_all

lemma div_mod_eq_iff: "(i :: nat) = j \<longleftrightarrow> i div 32 = j div 32 \<and> i mod 32 = j mod 32"
  by (metis div_mod_decomp)

lemma asid_used_set:
  "asid_used (s\<lparr>asid_bitmap := (asid_bitmap s)(i div 32 := asid_bitmap s (i div 32) OR push_bit (i mod 32) 1)\<rparr>)
     = (asid_used s)(i := True)"
  by (auto simp: fun_eq_iff asid_used_def bit_simps div_mod_eq_iff[of _ i])

lemma asid_scan_ok:
  assumes "asid_scan is s = Ret (r, s')" "\<forall>i\<in>set is. i < NASID"
  shows "(case r of
      Inl e \<Rightarrow> e = E_NO_FREE_ENV \<and> s' = s \<and> (\<forall>i\<in>set is. asid_used s i)
    | Inr a \<Rightarrow> unat a \<in> set is \<and> \<not> asid_used s (unat a) \<and> asid_used s' = (asid_used s)(unat a := True)
        \<and> (\<exists>bm. s' = s\<lparr>asid_bitmap := bm\<rparr>))"
  using assms
proof (induction "is")
  case (Cons i "is")
  show ?case
  proof (cases "asid_used s i")
    case True
    then have "asid_scan is s = Ret (r, s')" using Cons.prems(1) asid_scan_used by metis
    then show ?thesis using Cons True by (cases r) auto
  next
    case False
    have i: "unat (of_nat i :: u32) = i" using Cons.prems(2) by (simp add: unsigned_of_nat take_bit_nat_eq_self)
    from False have r: "r = Inr (of_nat i)"
      "s' = s\<lparr>asid_bitmap := (asid_bitmap s)(i div 32 := asid_bitmap s (i div 32) OR push_bit (i mod 32) 1)\<rparr>"
      using Cons.prems(1) asid_scan_unused[OF False, of "is"] by auto
    then show ?thesis using False i asid_used_set[of s i] by auto
  qed
qed auto

lemma asid_free_ok:
  assumes "unat a < NASID"
  shows "\<exists>bm. asid_free a s = Ret (s\<lparr>asid_bitmap := bm\<rparr>) \<and> asid_used (s\<lparr>asid_bitmap := bm\<rparr>) = (asid_used s)(unat a := False)"
proof -
  have ix: "unat (drop_bit 5 a) = unat a div 32" by (simp only: unat_drop_bit_eq) (simp add: drop_bit_eq_div)
  have inn: "unat (a AND 31) = unat a mod 32"
  proof -
    have "a AND 31 = take_bit 5 a" by (simp add: take_bit_eq_mask mask_eq_exp_minus_1)
    then show ?thesis by (simp only: unsigned_take_bit_eq) (simp add: take_bit_eq_mod)
  qed
  have "asid_used (s\<lparr>asid_bitmap := (asid_bitmap s)(unat a div 32 := asid_bitmap s (unat a div 32) AND NOT (push_bit (unat a mod 32) 1))\<rparr>)
     = (asid_used s)(unat a := False)"
    by (auto simp: fun_eq_iff asid_used_def bit_simps div_mod_eq_iff[of _ "unat a"])
  moreover have "unat a div 32 < 2" using assms by auto
  ultimately show ?thesis unfolding asid_free_def Let_def ix inn by auto
qed

section \<open>Adding and dropping page directories\<close>

lemma tables_okI:
  assumes "finite D" "\<And>d. d \<in> D \<Longrightarrow> d < npage s" "\<And>d. d \<in> D \<Longrightarrow> 0 < base d"
    and "\<And>d i. d \<in> D \<Longrightarrow> i < NUPDE \<Longrightarrow> pte_valid (pde_at s d i) \<Longrightarrow> PPN (pde_at s d i) < npage s \<and> base (PPN (pde_at s d i)) = 0"
    and "\<And>d i d' i'. d \<in> D \<Longrightarrow> i < NUPDE \<Longrightarrow> pte_valid (pde_at s d i) \<Longrightarrow> d' \<in> D \<Longrightarrow> i' < NUPDE \<Longrightarrow>
      pte_valid (pde_at s d' i') \<Longrightarrow> PPN (pde_at s d i) = PPN (pde_at s d' i') \<Longrightarrow> d = d' \<and> i = i'"
  shows "tables_ok D base s"
  using assms unfolding tables_ok_def by blast

lemma tables_okD:
  assumes "tables_ok D base s"
  shows "finite D" "d \<in> D \<Longrightarrow> d < npage s" "d \<in> D \<Longrightarrow> 0 < base d"
  using assms unfolding tables_ok_def by blast+

lemma add_dir:
  assumes inv: "pmap_inv D base s" and p: "p < npage s" "pp_ref s p = 0" "p \<notin> set (page_free_list s)"
    and new: "\<forall>i<NUPDE. \<not> pte_valid (frames s' p i)"
    and s': "\<forall>q. q \<noteq> p \<longrightarrow> frames s' q = frames s q" "npage s' = npage s" "page_free_list s' = page_free_list s"
      "pp_ref s' = (pp_ref s)(p := 1)"
  shows "pmap_inv (insert p D) (base(p := 1)) s'" "same_vmap D s s'"
proof -
  note u = unreferenced[OF inv p(1,2)] and parts = pmap_invD[OF inv]
  have nt: "PPN (pde_at s d i) \<noteq> p" if "d \<in> D" "i < NUPDE" "pte_valid (pde_at s d i)" for d i
    using u(1) that by (auto simp: pde_slots_def)
  have pd: "pde_at s' d i = pde_at s d i" if "d \<in> D" for d i using s'(1) u(4) that by (metis)
  have pt: "frames s' (PPN (pde_at s d i)) = frames s (PPN (pde_at s d i))"
    if "d \<in> D" "i < NUPDE" "pte_valid (pde_at s d i)" for d i using s'(1) nt[OF that] by blast
  have "(d, i) \<in> pde_slots s' (insert p D) q \<longleftrightarrow> (d, i) \<in> pde_slots s D q" for d i q
    using new pd u(4) by (cases "d = p") (auto simp: pde_slots_def)
  then have S1: "pde_slots s' (insert p D) = pde_slots s D" by (auto simp: fun_eq_iff)
  have "(d, i, j) \<in> pte_slots s' (insert p D) q \<longleftrightarrow> (d, i, j) \<in> pte_slots s D q" for d i j q
    using new pd pt u(4) by (cases "d = p") (auto simp: pte_slots_def)
  then have S2: "pte_slots s' (insert p D) = pte_slots s D" by (auto simp: fun_eq_iff)
  have refs: "page_refs s' (insert p D) = page_refs s D" by (simp add: fun_eq_iff page_refs_def S1 S2)
  show "pmap_inv (insert p D) (base(p := 1)) s'"
  proof (rule pmap_invI)
    show "free_list_ok s'" using parts(1) p(3) s' by (auto simp: free_list_ok_def)
    show "leaves_ok (insert p D) (base(p := 1)) s'"
      using parts(3) u(2) s'(2) by (auto simp: leaves_ok_def S1 S2)
    show "refs_ok (insert p D) (base(p := 1)) s'"
      using parts(4) u s'(2,4) by (auto simp: refs_ok_def refs page_refs_def)
    show "tables_ok (insert p D) (base(p := 1)) s'"
    proof (rule tables_okI)
      fix d i assume di: "d \<in> insert p D" "i < NUPDE" "pte_valid (pde_at s' d i)"
      then have "d \<in> D" "pde_at s' d i = pde_at s d i" using new pd by auto
      then show "PPN (pde_at s' d i) < npage s' \<and> (base(p := 1)) (PPN (pde_at s' d i)) = 0"
        using table_range[OF parts(2), of d i] nt[of d i] di s'(2) by simp
      fix d' i' assume di': "d' \<in> insert p D" "i' < NUPDE" "pte_valid (pde_at s' d' i')"
        "PPN (pde_at s' d i) = PPN (pde_at s' d' i')"
      then have "d' \<in> D" "pde_at s' d' i' = pde_at s d' i'" using new pd by auto
      then show "d = d' \<and> i = i'"
        using table_inj[OF parts(2), of d i d' i'] di di' \<open>d \<in> D\<close> \<open>pde_at s' d i = pde_at s d i\<close> by simp
    qed (use tables_okD[OF parts(2)] p(1) s'(2) in auto)
  qed
  show "same_vmap D s s'"
    using pd pt PDX_user by (auto simp: same_vmap_def vmap_def)
qed

lemma drop_dir:
  assumes inv: "pmap_inv D base s" and d: "d \<in> D" "base d = 1" "\<forall>i<NUPDE. \<not> pte_valid (pde_at s d i)"
    and s': "frames s' = frames s" "npage s' = npage s" "page_free_list s' = d # page_free_list s"
      "pp_ref s' = (pp_ref s)(d := 0)"
  shows "pmap_inv (D - {d}) (base(d := 0)) s'"
proof (rule pmap_invI)
  note parts = pmap_invD[OF inv]
  have "pde_slots s' (D - {d}) = pde_slots s D" "pte_slots s' (D - {d}) = pte_slots s D"
    using d(3) by (auto simp: fun_eq_iff pde_slots_def pte_slots_def s'(1))
  note S = this
  have nt: "pde_slots s D d = {}" "pte_slots s D d = {}"
  proof -
    show "pde_slots s D d = {}" using table_not_dir[OF parts(2)] d(1) by (auto simp: pde_slots_def)
    show "pte_slots s D d = {}" using parts(3) d(2) by (auto simp: leaves_ok_def)
  qed
  have dn: "d < npage s" using parts(2) d(1) by (simp add: tables_ok_def)
  have "unat (pp_ref s d) = 1" using parts(4) dn nt d(2) by (simp add: refs_ok_def page_refs_def)
  then have "d \<notin> set (page_free_list s)" using parts(1) by (auto simp: free_list_ok_def)
  then show "free_list_ok s'" using parts(1) s' dn by (auto simp: free_list_ok_def)
  show "leaves_ok (D - {d}) (base(d := 0)) s'"
    using parts(3) s'(2) by (auto simp: leaves_ok_def S)
  show "refs_ok (D - {d}) (base(d := 0)) s'"
    using parts(4) nt s'(2,4) by (auto simp: refs_ok_def S page_refs_def)
  show "tables_ok (D - {d}) (base(d := 0)) s'"
    by (rule tables_okI)
       (use tables_okD[OF parts(2)] table_range[OF parts(2)] table_inj[OF parts(2)] s'(1,2) in \<open>auto simp: fun_upd_def\<close>)
qed

lemma vmap_frames: "frames s' = frames s \<Longrightarrow> vmap s' = vmap s"
  by (simp add: fun_eq_iff vmap_def)

section \<open>\<open>env_free\<close> empties an address space\<close>

abbreviation va_of :: "nat \<Rightarrow> nat \<Rightarrow> u32" where
  "va_of i j \<equiv> push_bit PDSHIFT (of_nat i) OR push_bit PGSHIFT (of_nat j)"

lemma unat_va_of:
  assumes "i < 1024" "j < 1024"
  shows "unat (va_of i j) = i * 4194304 + j * 4096"
proof -
  have "(push_bit 22 (of_nat i) :: u32) AND push_bit 12 (of_nat j) = 0"
  proof (rule bit_word_eqI)
    fix n
    have "\<not> bit (of_nat j :: u32) m" if "10 \<le> m" for m
    proof -
      have "take_bit 10 (of_nat j :: u32) = of_nat j"
        using assms(2) by (simp add: take_bit_of_nat take_bit_nat_eq_self)
      then show ?thesis using that by (metis bit_take_bit_iff not_le)
    qed
    then show "bit ((push_bit 22 (of_nat i) :: u32) AND push_bit 12 (of_nat j)) n \<longleftrightarrow> bit (0 :: u32) n"
      by (auto simp: bit_simps)
  qed
  then have "va_of i j = push_bit 22 (of_nat i) + push_bit 12 (of_nat j)"
    by (simp only: disjunctive_add_eq_or)
  then show ?thesis
    using assms by (simp add: push_bit_eq_mult unat_word_ariths unsigned_of_nat take_bit_nat_eq_self)
qed

lemma va_of_simps:
  assumes "i < 1024" "j < 1024"
  shows "PDX (va_of i j) = i" "PTX (va_of i j) = j"
  using assms unat_va_of[OF assms] by (simp_all add: PDX_eq PTX_eq)

lemma va_of_user: "i < NUPDE \<Longrightarrow> j < 1024 \<Longrightarrow> va_of i j < UTOP"
  using unat_va_of[of i j] by (simp add: word_less_nat_alt)

definition freed_upto :: "nat set \<Rightarrow> (nat \<Rightarrow> nat) \<Rightarrow> nat \<Rightarrow> (u32 \<Rightarrow> bool) \<Rightarrow> 'a kstate_scheme \<Rightarrow> 'a kstate_scheme \<Rightarrow> bool" where
  "freed_upto D base d gone s s' \<longleftrightarrow> pmap_inv D base s' \<and> npage s' = npage s
     \<and> pmap_state.more s' = pmap_state.more s
     \<and> (\<forall>d'\<in>D. \<forall>va<UTOP. vmap s' d' va = (if d' = d \<and> gone va then None else vmap s d' va))"

lemma env_free_pte_step:
  assumes inv: "freed_upto D base d (\<lambda>va. PDX va = i \<and> PTX va < j) s s1" and d: "d \<in> D" "i < NUPDE" "j < 1024"
    and e: "env_pgdir (envs s e) = d" and t: "PPN (pde_at s d i) = t" "pte_valid (pde_at s d i)"
    and pd: "\<forall>k. pde_at s1 d k = pde_at s d k"
  shows "returns (\<lambda>s2. freed_upto D base d (\<lambda>va. PDX va = i \<and> PTX va < Suc j) s s2 \<and> (\<forall>k. pde_at s2 d k = pde_at s d k))
    (env_free_pte e t i j s1)"
proof -
  have inv1: "pmap_inv D base s1" "npage s1 = npage s" "pmap_state.more s1 = pmap_state.more s"
    using inv by (simp_all add: freed_upto_def)
  have vm1: "vmap s1 d' va = (if d' = d \<and> PDX va = i \<and> PTX va < j then None else vmap s d' va)"
    if "d' \<in> D" "va < UTOP" for d' va
    using inv that by (simp add: freed_upto_def)
  have e1: "env_pgdir (envs s1 e) = d" using more_kfields(1)[OF inv1(3)] e by simp
  let ?va = "va_of i j"
  have va: "PDX ?va = i" "PTX ?va = j" "?va < UTOP" using va_of_simps[of i j] va_of_user[of i j] d by simp_all
  have eq: "PDX va = i \<and> PTX va < Suc j \<longleftrightarrow> PDX va = i \<and> PTX va < j \<or> VPN va = VPN ?va" for va
    using va by (auto simp: VPN_eq_iff)
  have look: "vmap s1 d ?va = (if pte_valid (frames s1 t j) then Some (frames s1 t j) else None)"
    using pd t va by (simp add: vmap_def)
  show ?thesis
  proof (cases "pte_valid (frames s1 t j)")
    case True
    then have some: "vmap s1 d ?va = Some (frames s1 t j)" using look by simp
    obtain s2 where s2: "page_remove d (env_asid (envs s1 e)) ?va s1 = Ret s2" "pmap_step D base s1 s2"
      "vmap_updated D d ?va None s1 s2" "\<forall>k. pde_at s2 d k = pde_at s1 d k"
      using page_remove_present[OF inv1(1) d(1) va(3) some, of "env_asid (envs s1 e)"] by blast
    have "freed_upto D base d (\<lambda>va. PDX va = i \<and> PTX va < Suc j) s s2"
      using s2(2,3) inv1 vm1 unfolding freed_upto_def eq by (auto simp: pmap_step_def vmap_updated_def)
    then show ?thesis using True s2 e1 pd by (simp add: env_free_pte_def peek_def)
  next
    case False
    then have "vmap s1 d va = None" if "VPN va = VPN ?va" for va
      using look that by (auto simp: VPN_eq_iff vmap_def split: if_splits)
    then have "freed_upto D base d (\<lambda>va. PDX va = i \<and> PTX va < Suc j) s s1"
      using inv1 vm1 unfolding freed_upto_def eq by (metis (no_types, lifting))
    then show ?thesis using False pd by (simp add: env_free_pte_def peek_def)
  qed
qed

lemma env_free_ptes:
  assumes inv: "pmap_inv D base s" and d: "d \<in> D" "i < NUPDE"
    and e: "env_pgdir (envs s e) = d" and t: "PPN (pde_at s d i) = t" "pte_valid (pde_at s d i)" and "n \<le> 1024"
  shows "returns (\<lambda>s'. freed_upto D base d (\<lambda>va. PDX va = i \<and> PTX va < n) s s' \<and> (\<forall>k. pde_at s' d k = pde_at s d k))
    (ofold (env_free_pte e t i) [0..<n] s)"
  using assms(7)
proof (induction n)
  case 0
  then show ?case using inv by (simp add: freed_upto_def)
next
  case (Suc n)
  then obtain s1 where s1: "ofold (env_free_pte e t i) [0..<n] s = Ret s1"
    "freed_upto D base d (\<lambda>va. PDX va = i \<and> PTX va < n) s s1" "\<forall>k. pde_at s1 d k = pde_at s d k"
    by (auto simp: returns_iff)
  from env_free_pte_step[OF s1(2) d _ e t s1(3)] Suc.prems obtain s2
    where "env_free_pte e t i n s1 = Ret s2" "freed_upto D base d (\<lambda>va. PDX va = i \<and> PTX va < Suc n) s s2"
      "\<forall>k. pde_at s2 d k = pde_at s d k"
    by (auto simp: returns_iff)
  then show ?case using s1(1) by (simp add: ofold_append)
qed

lemma PTX_top: "PTX (NOT 0) + 1 = 1024"
  by (simp add: PTX_eq unsigned_minus_1_eq_mask mask_eq_exp_minus_1)

lemma env_free_pde_step:
  assumes inv: "pmap_inv D base s" and d: "d \<in> D" "i < NUPDE" and e: "env_pgdir (envs s e) = d"
  shows "returns (\<lambda>s'. freed_upto D base d (\<lambda>va. PDX va = i) s s' \<and> \<not> pte_valid (pde_at s' d i)
      \<and> (\<forall>k. k \<noteq> i \<longrightarrow> pde_at s' d k = pde_at s d k)) (env_free_pde e i s)"
proof (cases "pte_valid (pde_at s d i)")
  case False
  then have "vmap s d va = None" if "PDX va = i" for va using that by (simp add: vmap_def)
  then show ?thesis using False inv e by (auto simp: env_free_pde_def peek_def freed_upto_def)
next
  case True
  define t where "t = PPN (pde_at s d i)"
  obtain s1 where s1: "ofold (env_free_pte e t i) [0..<1024] s = Ret s1"
    "freed_upto D base d (\<lambda>va. PDX va = i \<and> PTX va < 1024) s s1" and pd: "\<forall>k. pde_at s1 d k = pde_at s d k"
    using env_free_ptes[OF inv d e t_def[symmetric] True, of 1024] by (auto simp: returns_iff)
  have inv1: "pmap_inv D base s1" "npage s1 = npage s" "pmap_state.more s1 = pmap_state.more s"
    using s1(2) by (simp_all add: freed_upto_def)
  have empty: "empty_table s1 t"
    unfolding empty_table_def
  proof (intro allI impI)
    fix j :: nat assume j: "j < 1024"
    have "vmap s1 d (va_of i j) = None"
      using s1(2) d va_of_simps[of i j] va_of_user[OF d(2) j] j by (simp add: freed_upto_def)
    then show "\<not> pte_valid (frames s1 t j)"
      using True pd va_of_simps[of i j] j d(2) by (auto simp: vmap_def t_def split: if_splits)
  qed
  have pde1: "pde_at s1 d i = pde_at s d i" using pd by blast
  note tabs = pmap_invD(2)[OF inv1(1)]
  have tr: "t < npage s1" "base t = 0" "t \<notin> D"
    using table_range[OF tabs d, unfolded pde1, OF True] table_not_dir[OF tabs d, unfolded pde1, OF True] by (simp_all add: t_def)
  have "(d, i) \<in> pde_slots s1 D t" using d True by (simp add: pde_slots_def pde1 t_def)
  then have ref: "pp_ref s1 t \<noteq> 0" using unreferenced(1)[OF inv1(1) tr(1)] by auto
  then have nf: "t \<notin> set (page_free_list s1)" using free_unreferenced[OF inv1(1)] by blast
  define s2 where "s2 = poke (d, i) 0 s1"
  define s3 where "s3 = s2\<lparr>pp_ref := (pp_ref s2)(t := pp_ref s2 t - 1),
    page_free_list := (if pp_ref s2 t = 1 then t # page_free_list s2 else page_free_list s2)\<rparr>"
  have dec: "page_decref t s2 = Ret s3" using page_decref_eq[of s2 t] ref nf by (simp add: s2_def s3_def)
  have fr: "frames s3 = frames (poke (d, i) 0 s1)" by (simp add: s3_def s2_def)
  have fl: "free_list_ok s3"
    by (rule page_decref_free_list[OF pmap_invD(1)[OF inv1(1)] tr(1) nf]) (simp_all add: s3_def s2_def)
  have "pmap_inv D base s3"
  proof (rule pde_update_inv[OF inv1(1) d fr])
    show "unat (pp_ref s3 p) = unat (pp_ref s1 p) - of_bool (pte_valid (pde_at s1 d i) \<and> PPN (pde_at s1 d i) = p)
        + of_bool (pte_valid 0 \<and> PPN 0 = p)" for p
      using True ref by (simp add: s3_def s2_def pde1 t_def unat_minus_1)
  qed (use empty fl pde1 in \<open>simp_all add: s3_def s2_def t_def\<close>)
  moreover have "vmap s3 d' va = vmap s1 d' va" if "d' \<in> D" "va < UTOP" for d' va
    by (rule poke_pde_vmap[OF fr _ _ tables_not[OF tabs d(1)] _ that]) (use empty pde1 in \<open>simp_all add: t_def\<close>)
  ultimately have "freed_upto D base d (\<lambda>va. PDX va = i) s s3"
    using s1(2) by (simp add: freed_upto_def s3_def s2_def)
  moreover have "env_free_pde e i s = Ret (tlb_invalidate (env_asid (envs s3 e)) (UVPT + push_bit PGSHIFT (of_nat i)) s3)"
  proof -
    have kaddr: "KADDR s (PTE_ADDR (pde_at s d i)) = Ret (PTE_ADDR (pde_at s d i) + ULIM)"
      using table_range(1)[OF pmap_invD(2)[OF inv] d True] by (simp add: KADDR_def)
    have "pa2page s2 (PTE_ADDR (pde_at s d i)) = Ret t"
      using tr(1) by (simp add: pa2page_def t_def s2_def)
    then show ?thesis using True e kaddr s1(1) dec unfolding env_free_pde_def PTX_top
      by (simp add: peek_def t_def flip: s2_def)
  qed
  moreover have "pde_at s3 d k = (if k = i then 0 else pde_at s d k)" for k
    using pd by (simp add: fr frames_poke)
  ultimately show ?thesis by (simp add: freed_upto_def)
qed

lemma env_free_pdes:
  assumes inv: "pmap_inv D base s" and d: "d \<in> D" and e: "env_pgdir (envs s e) = d" and "n \<le> NUPDE"
  shows "returns (\<lambda>s'. freed_upto D base d (\<lambda>va. PDX va < n) s s' \<and> (\<forall>i<n. \<not> pte_valid (pde_at s' d i)))
    (ofold (env_free_pde e) [0..<n] s)"
  using assms(4)
proof (induction n)
  case 0
  then show ?case using inv by (simp add: freed_upto_def)
next
  case (Suc n)
  then obtain s1 where s1: "ofold (env_free_pde e) [0..<n] s = Ret s1"
    "freed_upto D base d (\<lambda>va. PDX va < n) s s1" "\<forall>i<n. \<not> pte_valid (pde_at s1 d i)"
    by (auto simp: returns_iff)
  have "env_pgdir (envs s1 e) = d" using s1(2) e more_kfields(1)[of s1 s] by (simp add: freed_upto_def)
  then obtain s2 where s2: "env_free_pde e n s1 = Ret s2" "freed_upto D base d (\<lambda>va. PDX va = n) s1 s2"
    "\<not> pte_valid (pde_at s2 d n)" "\<forall>k. k \<noteq> n \<longrightarrow> pde_at s2 d k = pde_at s1 d k"
    using env_free_pde_step[of D base s1 d n e] s1(2) d Suc.prems by (auto simp: returns_iff freed_upto_def)
  have "freed_upto D base d (\<lambda>va. PDX va < Suc n) s s2"
    using s1(2) s2(2) by (auto simp: freed_upto_def less_Suc_eq)
  moreover have "\<forall>i<Suc n. \<not> pte_valid (pde_at s2 d i)"
    using s1(3) s2(3,4) by (metis less_SucE)
  ultimately show ?case using s1(1) s2(1) by (simp add: ofold_append)
qed

text \<open>Everything \<open>env_free\<close> does before it takes the environment off the run queue.\<close>

definition freed_env :: "nat set \<Rightarrow> (nat \<Rightarrow> nat) \<Rightarrow> nat \<Rightarrow> 'a kstate_scheme \<Rightarrow> 'a kstate_scheme \<Rightarrow> bool" where
  "freed_env D base e s s' \<longleftrightarrow> (let d = env_pgdir (envs s e) in
      pmap_inv (D - {d}) (base(d := 0)) s' \<and> npage s' = npage s
      \<and> (\<forall>d'\<in>D - {d}. \<forall>va<UTOP. vmap s' d' va = vmap s d' va)
      \<and> envs s' = (envs s)(e := (envs s e)\<lparr>env_status := ENV_FREE\<rparr>)
      \<and> env_free_list s' = e # env_free_list s
      \<and> asid_used s' = (asid_used s)(unat (env_asid (envs s e)) := False)
      \<and> curenv s' = curenv s \<and> cur_pgdir s' = cur_pgdir s \<and> mkenvid_i s' = mkenvid_i s \<and> base_pgdir s' = base_pgdir s
      \<and> sched_count s' = sched_count s \<and> kstack_tf s' = kstack_tf s \<and> cpu s' = cpu s
      \<and> kstate.more s' = kstate.more s)"

lemma env_free_run:
  assumes inv: "pmap_inv D base s" and d: "d \<in> D" "base d = 1" and e: "env_pgdir (envs s e) = d"
    and asid: "unat (env_asid (envs s e)) < NASID" and q: "e \<notin> set (env_free_list s)"
  shows "\<exists>s4. env_free e s = obind (tailq_remove e (env_sched_list s)) (\<lambda>q. Ret (s4\<lparr>env_sched_list := q\<rparr>)) \<and> freed_env D base e s s4"
proof -
  obtain s1 where s1: "ofold (env_free_pde e) [0..<NUPDE] s = Ret s1"
    "freed_upto D base d (\<lambda>va. PDX va < NUPDE) s s1" "\<forall>i<NUPDE. \<not> pte_valid (pde_at s1 d i)"
    using env_free_pdes[OF inv d(1) e, of NUPDE] by (auto simp: returns_iff)
  have inv1: "pmap_inv D base s1" "npage s1 = npage s" "pmap_state.more s1 = pmap_state.more s"
    using s1(2) by (simp_all add: freed_upto_def)
  note k1 = more_kfields[OF inv1(3)]
  note parts = pmap_invD[OF inv1(1)]
  have dn: "d < npage s1" using tables_okD(2)[OF parts(2) d(1)] .
  have nt: "pde_slots s1 D d = {}" using table_not_dir[OF parts(2)] d(1) by (auto simp: pde_slots_def)
  have nl: "pte_slots s1 D d = {}" using parts(3) d(2) by (auto simp: leaves_ok_def)
  have "unat (pp_ref s1 d) = 1" using parts(4) dn nt nl d(2) by (simp add: refs_ok_def page_refs_def)
  then have ref: "pp_ref s1 d = 1" by (metis unat_1 word_unat_eq_iff)
  have nf: "d \<notin> set (page_free_list s1)" using free_unreferenced(2)[OF inv1(1), of d] ref by auto
  define s2 where "s2 = s1\<lparr>pp_ref := (pp_ref s1)(d := 0), page_free_list := d # page_free_list s1\<rparr>"
  have dec: "page_decref d s1 = Ret s2" using page_decref_eq[of s1 d] ref nf by (simp add: s2_def)
  have inv2: "pmap_inv (D - {d}) (base(d := 0)) s2"
    by (rule drop_dir[OF inv1(1) d s1(3)]) (simp_all add: s2_def)
  have vm2: "vmap s2 d' va = vmap s d' va" if "d' \<in> D - {d}" "va < UTOP" for d' va
    using s1(2) that vmap_frames[of s2 s1] by (simp add: freed_upto_def s2_def)
  obtain bm where bm: "asid_free (env_asid (envs s e)) s2 = Ret (s2\<lparr>asid_bitmap := bm\<rparr>)"
    "asid_used (s2\<lparr>asid_bitmap := bm\<rparr>) = (asid_used s2)(unat (env_asid (envs s e)) := False)"
    using asid_free_ok[OF asid, of s2] by blast
  define s3 where "s3 = upd_env e (\<lambda>v. v\<lparr>env_status := ENV_FREE\<rparr>)
     (tlb_invalidate (env_asid (envs s e)) (UVPT + push_bit PGSHIFT (of_nat (PDX UVPT))) (s2\<lparr>asid_bitmap := bm\<rparr>))"
  define s4 where "s4 = s3\<lparr>env_free_list := e # env_free_list s\<rparr>"
  have k2: "envs s2 = envs s" "env_free_list s2 = env_free_list s" "env_sched_list s2 = env_sched_list s"
    using k1 by (simp_all add: s2_def)
  have pa: "pa2page s1 (page2pa d) = Ret d"
    using dn pmap_invD(1)[OF inv1(1)] by (simp add: pa2page_def free_list_ok_def)
  have run: "env_free e s = obind (tailq_remove e (env_sched_list s)) (\<lambda>q. Ret (s4\<lparr>env_sched_list := q\<rparr>))"
    using s1(1) e pa dec bm(1) k1 k2 q unfolding env_free_def PDX_UTOP
    by (simp add: list_insert_head_def s4_def s3_def tlb_invalidate_def tlb_out_def)
  have mem: "mem_of s4 = mem_of s2" by (simp add: s4_def s3_def mem_of_def tlb_invalidate_def tlb_out_def)
  have "asid_used s4 = (asid_used s)(unat (env_asid (envs s e)) := False)"
    using bm(2) k1 by (simp add: fun_eq_iff asid_used_def s4_def s3_def s2_def tlb_invalidate_def tlb_out_def)
  then have "freed_env D base e s s4" using inv2 inv1(2) vm2 k1 mem_of_eq(1,4)[OF mem]
    by (simp add: freed_env_def e s4_def s3_def s2_def tlb_invalidate_def tlb_out_def upd_env_def)
  then show ?thesis using run by blast
qed

text \<open>
  The whole of \<open>env_free\<close>: all frames of the address space and its page tables and directory go back
  to the allocator, the ASID and the slot become free, and other address spaces are untouched.
\<close>

lemma env_free_ok:
  assumes inv: "pmap_inv D base s" and d: "d \<in> D" "base d = 1" and e: "env_pgdir (envs s e) = d"
    and asid: "unat (env_asid (envs s e)) < NASID" and q: "e \<notin> set (env_free_list s)" "e \<in> set (env_sched_list s)"
  shows "returns (\<lambda>s'. pmap_inv (D - {d}) (base(d := 0)) s' \<and> npage s' = npage s
      \<and> (\<forall>d'\<in>D - {d}. \<forall>va<UTOP. vmap s' d' va = vmap s d' va)
      \<and> envs s' = (envs s)(e := (envs s e)\<lparr>env_status := ENV_FREE\<rparr>)
      \<and> env_free_list s' = e # env_free_list s \<and> env_sched_list s' = remove1 e (env_sched_list s)
      \<and> asid_used s' = (asid_used s)(unat (env_asid (envs s e)) := False)
      \<and> curenv s' = curenv s \<and> cur_pgdir s' = cur_pgdir s \<and> mkenvid_i s' = mkenvid_i s \<and> base_pgdir s' = base_pgdir s
      \<and> sched_count s' = sched_count s \<and> kstack_tf s' = kstack_tf s \<and> cpu s' = cpu s
      \<and> kstate.more s' = kstate.more s)
    (env_free e s)"
proof -
  obtain s4 where s4: "env_free e s = obind (tailq_remove e (env_sched_list s)) (\<lambda>q. Ret (s4\<lparr>env_sched_list := q\<rparr>))"
    "freed_env D base e s s4" using env_free_run[OF assms(1-6)] by blast
  let ?s = "s4\<lparr>env_sched_list := remove1 e (env_sched_list s)\<rparr>"
  have "mem_of ?s = mem_of s4" by (simp add: mem_of_def)
  note m = mem_of_eq(1,4)[OF this]
  have "asid_used ?s = asid_used s4" by (simp add: asid_used_def fun_eq_iff)
  then show ?thesis using s4 q(2) m by (simp add: freed_env_def e tailq_remove_def)
qed

section \<open>\<open>env_alloc\<close>\<close>

text \<open>The kernel variables other than the array \<open>envs\<close>.\<close>

definition kvars where
  "kvars s = (curenv s, env_free_list s, env_sched_list s, base_pgdir s, asid_bitmap s, mkenvid_i s,
     sched_count s, cur_pgdir s, kstack_tf s, cpu s, kstate.more s)"

lemma more_kvars: "pmap_state.more s' = pmap_state.more s \<Longrightarrow> kvars s' = kvars s"
  using more_kfields[of s' s] by (simp add: kvars_def)

lemma kvars_simps [simp]:
  "kvars (incr_ref p s) = kvars s" "kvars (poke q v s) = kvars s" "kvars (tlb_invalidate a va s) = kvars s"
  "kvars (upd_env e f s) = kvars s" "kvars (s\<lparr>frames := fr\<rparr>) = kvars s" "kvars (s\<lparr>page_free_list := l\<rparr>) = kvars s"
  "kvars (s\<lparr>pp_ref := r\<rparr>) = kvars s"
  by (simp_all add: kvars_def)

text \<open>The page directory that \<open>env_setup_vm\<close> builds: nothing below \<open>UTOP\<close>, the shared windows, the self map.\<close>

definition fresh_pgdir :: "'a kstate_scheme \<Rightarrow> nat \<Rightarrow> nat \<Rightarrow> u32" where
  "fresh_pgdir s p i =
     (if i = PDX UVPT then page2pa p OR PTE_V
      else if PDX UTOP \<le> i \<and> i < PDX UVPT then frames s (base_pgdir s) i else 0)"

lemma kva_paddr:
  assumes "p < 524288"
  shows "PADDR (page2pa p + ULIM) = Ret (page2pa p)"
proof -
  have "unat (page2pa p + ULIM) = p * 4096 + 2147483648"
    using assms unat_page2pa[of p] by (simp add: unat_word_ariths)
  then have "ULIM \<le> page2pa p + ULIM" by (simp add: word_le_nat_alt)
  then show ?thesis by (simp add: PADDR_def)
qed

lemma env_setup_vm_ok:
  assumes inv: "pmap_inv D base s" and b: "base_pgdir s \<notin> set (page_free_list s)"
  shows "returns (\<lambda>(r, s'). case r of
      Inl er \<Rightarrow> er = E_NO_MEM \<and> page_free_list s = [] \<and> s' = s
    | Inr _ \<Rightarrow> (\<exists>p. page_free_list s = p # page_free_list s' \<and> p \<notin> D \<and> base p = 0
        \<and> pmap_inv (insert p D) (base(p := 1)) s' \<and> same_vmap D s s' \<and> (\<forall>va<UTOP. vmap s' p va = None)
        \<and> frames s' p = fresh_pgdir s p \<and> npage s' = npage s
        \<and> envs s' = (envs s)(e := (envs s e)\<lparr>env_pgdir := p\<rparr>) \<and> kvars s' = kvars s))
    (env_setup_vm e s)"
proof (cases rule: page_alloc_cases[OF pmap_invD(1)[OF inv]])
  case 1
  then show ?thesis by (simp add: env_setup_vm_def)
next
  case (2 p fl)
  define s1 where "s1 = s\<lparr>page_free_list := fl, frames := (frames s)(p := (\<lambda>_. 0))\<rparr>"
  have s1: "pmap_inv D base s1" "same_vmap D s s1" "user_page D base s1 p" "pp_ref s1 p = 0"
    using page_alloc_ok[OF inv] 2 by (simp_all add: pmap_step_def s1_def)
  have p: "p < npage s" "npage s \<le> 524288" "p \<notin> set fl"
    using s1(1,3) by (auto simp: user_page_def s1_def pmap_inv_def free_list_ok_def)
  have kva: "page2kva (incr_ref p s1) p = Ret (page2pa p + ULIM)"
    using p by (simp add: page2kva_def KADDR_def s1_def)
  have bp: "base_pgdir s \<noteq> p" using b 2(1) by auto
  define s2 where "s2 = upd_env e (\<lambda>v. v\<lparr>env_pgdir := p\<rparr>) (incr_ref p s1)"
  define s3 where "s3 = s2\<lparr>frames := (frames s2)(p := (\<lambda>i. if PDX UTOP \<le> i \<and> i < PDX UVPT then frames s2 (base_pgdir s2) i
                                            else frames s2 p i))\<rparr>"
  define s' where "s' = poke (p, PDX UVPT) (page2pa p OR PTE_V) s3"
  have run: "env_setup_vm e s = Ret (Inr (), s')"
    using 2(2) kva kva_paddr[of p] p unfolding s'_def s3_def s2_def
    by (simp add: env_setup_vm_def Let_def flip: s1_def)
  have fr: "frames s' p = fresh_pgdir s p"
    using bp by (auto simp: fun_eq_iff s'_def s3_def s2_def s1_def frames_poke fresh_pgdir_def PDX_eq)
  have fields: "npage s' = npage s1" "page_free_list s' = page_free_list s1" "pp_ref s' = (pp_ref s1)(p := 1)"
    "\<forall>q. q \<noteq> p \<longrightarrow> frames s' q = frames s1 q"
    using s1(4) by (simp_all add: s'_def s3_def s2_def frames_poke)
  have pdx: "PDX UVPT = 511" "PDX UTOP = 509" by (simp_all add: PDX_eq)
  have empty: "\<forall>i<NUPDE. \<not> pte_valid (frames s' p i)" by (simp add: fr fresh_pgdir_def pdx)
  have "pmap_inv (insert p D) (base(p := 1)) s'" "same_vmap D s1 s'"
    using add_dir[OF s1(1) _ s1(4) _ empty] fields p by (simp_all add: s1_def)
  moreover have "\<forall>va<UTOP. vmap s' p va = None" using empty PDX_user by (auto simp: vmap_def)
  moreover have "p \<notin> D" "base p = 0"
    using unreferenced[OF s1(1) _ s1(4)] p by (simp_all add: s1_def)
  moreover have "envs s' = (envs s)(e := (envs s e)\<lparr>env_pgdir := p\<rparr>)" "kvars s' = kvars s"
    by (simp_all add: s'_def s3_def s2_def s1_def kvars_def)
  ultimately show ?thesis using run fr s1(2) fields 2(1)
    by (auto simp: same_vmap_def s1_def)
qed


definition fresh_env :: "nat \<Rightarrow> u32 \<Rightarrow> u32 \<Rightarrow> u32 \<Rightarrow> env \<Rightarrow> env" where
  "fresh_env p envid asid parent_id v =
     v\<lparr>env_pgdir := p, env_user_tlb_mod_entry := 0, env_runs := 0, env_path := (env_path v)[0 := CHR ''/''],
       env_id := envid, env_shellId := 0, env_asid := asid, env_parent_id := parent_id,
       env_tf := (env_tf v)\<lparr>cp0_status := 0x100C, regs := (regs (env_tf v))(29 := USTACKTOP - 8)\<rparr>\<rparr>"

lemma asid_scan_total: "\<exists>r s'. asid_scan is s = Ret (r, s')"
  by (induction "is") (auto simp: Let_def)

lemma env_alloc_ok:
  assumes inv: "pmap_inv D base s" and b: "base_pgdir s \<notin> set (page_free_list s)" and "distinct (env_free_list s)"
  shows "returns (\<lambda>(r, s'). case r of
      Inl er \<Rightarrow> (er = E_NO_FREE_ENV \<and> env_free_list s = [] \<and> s' = s)
         \<or> (er = E_NO_MEM \<and> page_free_list s = [] \<and> s' = s)
         \<or> (er = E_NO_FREE_ENV \<and> (\<forall>i<NASID. asid_used s i))
    | Inr e \<Rightarrow> (\<exists>p asid. page_free_list s = p # page_free_list s' \<and> p \<notin> D \<and> base p = 0
        \<and> pmap_inv (insert p D) (base(p := 1)) s' \<and> same_vmap D s s' \<and> (\<forall>va<UTOP. vmap s' p va = None)
        \<and> frames s' p = fresh_pgdir s p \<and> npage s' = npage s
        \<and> unat asid < NASID \<and> \<not> asid_used s (unat asid) \<and> asid_used s' = (asid_used s)(unat asid := True)
        \<and> env_free_list s = e # env_free_list s' \<and> env_sched_list s' = env_sched_list s
        \<and> mkenvid_i s' = mkenvid_i s + 1 \<and> curenv s' = curenv s \<and> cur_pgdir s' = cur_pgdir s
        \<and> kstack_tf s' = kstack_tf s \<and> base_pgdir s' = base_pgdir s \<and> cpu s' = cpu s \<and> kstate.more s' = kstate.more s
        \<and> envs s' = (envs s)(e := fresh_env p (push_bit 11 (mkenvid_i s + 1) OR of_nat e) asid parent_id (envs s e))))
    (env_alloc parent_id s)"
proof (cases "env_free_list s")
  case Nil
  then show ?thesis by (simp add: env_alloc_def)
next
  case (Cons e rest)
  from env_setup_vm_ok[OF inv b, of e] obtain r s1 where run1: "env_setup_vm e s = Ret (r, s1)"
    and post1: "case r of Inl er \<Rightarrow> er = E_NO_MEM \<and> page_free_list s = [] \<and> s1 = s
    | Inr _ \<Rightarrow> (\<exists>p. page_free_list s = p # page_free_list s1 \<and> p \<notin> D \<and> base p = 0
        \<and> pmap_inv (insert p D) (base(p := 1)) s1 \<and> same_vmap D s s1 \<and> (\<forall>va<UTOP. vmap s1 p va = None)
        \<and> frames s1 p = fresh_pgdir s p \<and> npage s1 = npage s
        \<and> envs s1 = (envs s)(e := (envs s e)\<lparr>env_pgdir := p\<rparr>) \<and> kvars s1 = kvars s)"
    unfolding returns_iff by auto
  show ?thesis
  proof (cases r)
    case (Inl er)
    then show ?thesis using post1 run1 Cons by (simp add: env_alloc_def)
  next
    case (Inr u)
    with post1 obtain p where p: "page_free_list s = p # page_free_list s1" "p \<notin> D" "base p = 0"
        "pmap_inv (insert p D) (base(p := 1)) s1" "same_vmap D s s1" "\<forall>va<UTOP. vmap s1 p va = None"
        "frames s1 p = fresh_pgdir s p" "npage s1 = npage s"
        "envs s1 = (envs s)(e := (envs s e)\<lparr>env_pgdir := p\<rparr>)" "kvars s1 = kvars s" by auto
    define s2 where "s2 = upd_env e (\<lambda>v. v\<lparr>env_user_tlb_mod_entry := 0, env_runs := 0, env_path := (env_path v)[0 := CHR ''/'']\<rparr>) s1"
    define s3 where "s3 = upd_env e (\<lambda>v. v\<lparr>env_id := push_bit 11 (mkenvid_i s + 1) OR of_nat e, env_shellId := 0\<rparr>) (s2\<lparr>mkenvid_i := mkenvid_i s + 1\<rparr>)"
    have k3: "env_free_list s3 = e # rest" "asid_bitmap s3 = asid_bitmap s" "asid_used s3 = asid_used s"
      "mkenvid_i s3 = mkenvid_i s + 1" "mkenvid_i s2 = mkenvid_i s"
      using p(10) Cons by (simp_all add: s3_def s2_def kvars_def asid_used_def fun_eq_iff)
    obtain r4 s4 where run4: "asid_alloc s3 = Ret (r4, s4)"
      using asid_scan_total unfolding asid_alloc_def by blast
    note a = asid_scan_ok[OF run4[unfolded asid_alloc_def]]
    have run: "env_alloc parent_id s = otry (Ret (r4, s4)) (\<lambda>asid s.
        let s = upd_env e (\<lambda>v. v\<lparr>env_asid := asid, env_parent_id := parent_id,
                  env_tf := (env_tf v)\<lparr>cp0_status := STATUS_IM4 OR STATUS_KUp OR STATUS_IEp,
                                       regs := (regs (env_tf v))(29 := USTACKTOP - 4 - 4)\<rparr>\<rparr>) s
        in obind (list_remove e (env_free_list s)) (\<lambda>fl. Ret (Inr e, s\<lparr>env_free_list := fl\<rparr>)))"
      unfolding run4[symmetric] s3_def k3(5)[symmetric] unfolding s2_def
      using run1 Inr Cons by (simp add: env_alloc_def mkenvid_def Let_def)
    show ?thesis
    proof (cases r4)
      case (Inl er)
      then show ?thesis using run a k3(3) by auto
    next
      case (Inr asid)
      obtain bm where s4: "unat asid < NASID" "\<not> asid_used s (unat asid)" "asid_used s4 = (asid_used s)(unat asid := True)"
        "s4 = s3\<lparr>asid_bitmap := bm\<rparr>"
        using a Inr k3(3) by auto
      define s5 where "s5 = upd_env e (\<lambda>v. v\<lparr>env_asid := asid, env_parent_id := parent_id,
          env_tf := (env_tf v)\<lparr>cp0_status := 0x100C, regs := (regs (env_tf v))(29 := USTACKTOP - 8)\<rparr>\<rparr>) s4"
      define s6 where "s6 = s5\<lparr>env_free_list := rest\<rparr>"
      have "env_alloc parent_id s = Ret (Inr e, s6)"
        using run Inr k3(1) s4(4) by (simp add: s5_def s6_def list_remove_def)
      moreover have mem: "mem_of s6 = mem_of s1" by (simp add: mem_of_def s6_def s5_def s4(4) s3_def s2_def)
      moreover have "envs s6 = (envs s)(e := fresh_env p (push_bit 11 (mkenvid_i s + 1) OR of_nat e) asid parent_id (envs s e))"
        using p(9) by (simp add: s6_def s5_def s4(4) s3_def s2_def fresh_env_def)
      moreover have "asid_used s6 = asid_used s4" by (simp add: asid_used_def fun_eq_iff s6_def s5_def)
      moreover have "env_free_list s6 = rest" "env_sched_list s6 = env_sched_list s" "mkenvid_i s6 = mkenvid_i s + 1"
        "curenv s6 = curenv s" "cur_pgdir s6 = cur_pgdir s" "kstack_tf s6 = kstack_tf s" "base_pgdir s6 = base_pgdir s"
        "cpu s6 = cpu s" "kstate.more s6 = kstate.more s"
        using p(10) by (simp_all add: s6_def s5_def s4(4) s3_def s2_def kvars_def)
      moreover have "page_free_list s6 = page_free_list s1" "frames s6 = frames s1" "npage s6 = npage s1"
        using mem by (simp_all add: mem_of_def)
      ultimately show ?thesis using p s4 Cons mem_of_eq[OF mem] by (simp add: same_vmap_def) blast
    qed
  qed
qed

end
