(* ===== verification/Mos_Loader.thy ===== *)
theory Mos_Loader
  imports Mos_Env
begin

text \<open>
  The kernel's use of the ELF loader: \<open>load_icode_mapper\<close> of \<open>kern/env.c\<close> satisfies the contract of
  the loader's callback (locales \<open>page_mapper\<close> and \<open>budget_mapper\<close>), so that \<open>load_icode\<close> builds the
  image that the program headers describe.
\<close>

section \<open>Bytes of a frame\<close>

lemma set_byte_get:
  assumes "k < 4" "l < 4"
  shows "(ucast (drop_bit (8 * l) (set_byte k b w)) :: u8) = (if l = k then b else ucast (drop_bit (8 * l) w))"
proof (rule bit_word_eqI)
  fix n assume n: "n < LENGTH(8)"
  have sb: "set_byte k b w = (w AND NOT (push_bit (8 * k) (mask 8))) OR push_bit (8 * k) (ucast b)"
    by (simp add: set_byte_def mask_eq_exp_minus_1)
  show "bit (ucast (drop_bit (8 * l) (set_byte k b w)) :: u8) n \<longleftrightarrow> bit (if l = k then b else ucast (drop_bit (8 * l) w)) n"
    using assms n unfolding sb by (auto simp: bit_simps dest: bit_imp_le_length)
qed

lemma byte_index:
  fixes a pa :: nat
  shows "a = pa \<longleftrightarrow> a div 4096 = pa div 4096 \<and> a mod 4096 div 4 = pa mod 4096 div 4 \<and> a mod 4 = pa mod 4"
proof
  assume r: "a div 4096 = pa div 4096 \<and> a mod 4096 div 4 = pa mod 4096 div 4 \<and> a mod 4 = pa mod 4"
  have m: "x mod 4096 mod 4 = x mod 4" for x :: nat by (rule mod_mod_cancel) simp
  have "a mod 4096 = pa mod 4096" using r m[of a] m[of pa] by (metis div_mult_mod_eq)
  then show "a = pa" using r by (metis div_mult_mod_eq)
qed simp

lemma phys_get_put: "phys_get (phys_put pa b s) a = (if a = pa then b else phys_get s a)"
proof (cases "a div 4096 = pa div 4096 \<and> a mod 4096 div 4 = pa mod 4096 div 4")
  case True
  then show ?thesis using set_byte_get[of "pa mod 4" "a mod 4" b "frames s (pa div 4096) (pa mod 4096 div 4)"] byte_index[of a pa]
    by (auto simp: phys_get_def phys_put_def frames_poke peek_def)
next
  case False
  then show ?thesis by (auto simp: phys_get_def phys_put_def frames_poke)
qed

lemma phys_put_other: "q \<noteq> pa div 4096 \<Longrightarrow> frames (phys_put pa b s) q = frames s q"
  by (simp add: phys_put_def frames_poke)

lemma phys_write_get:
  "phys_get (phys_write pa bs s) a = (if pa \<le> a \<and> a < pa + length bs then bs ! (a - pa) else phys_get s a)"
proof (induction bs arbitrary: pa s)
  case (Cons b bs)
  then show ?case by (auto simp: phys_get_put nth_Cons split: nat.splits) (metis Suc_diff_le diff_Suc_Suc nat.inject not_less_eq_eq Suc_diff_Suc)+
qed auto

lemma phys_write_other:
  assumes "q * 4096 \<le> pa" "pa + length bs \<le> q * 4096 + 4096" "p \<noteq> q"
  shows "frames (phys_write pa bs s) p = frames s p"
  using assms
proof (induction bs arbitrary: pa s)
  case (Cons b bs)
  then have "pa div 4096 = q" by (simp add: div_nat_eqI)
  then show ?case using Cons by (simp add: phys_put_other)
qed simp

lemma phys_write_fields [simp]:
  "npage (phys_write pa bs s) = npage s" "pp_ref (phys_write pa bs s) = pp_ref s"
  "page_free_list (phys_write pa bs s) = page_free_list s" "tlb (phys_write pa bs s) = tlb s"
  "pmap_state.more (phys_write pa bs s) = pmap_state.more s"
  by (induction bs arbitrary: pa s) (simp_all add: phys_put_def)

text \<open>The page at the virtual page number \<open>n\<close> of an address space, as bytes.\<close>

definition page_bytes :: "'a pmap_state_scheme \<Rightarrow> nat \<Rightarrow> nat \<Rightarrow> (nat \<Rightarrow> u8) option" where
  "page_bytes s d n =
     (if n < VPN UTOP
      then map_option (\<lambda>e k. if k < 4096 then phys_get s (PPN e * 4096 + k) else 0) (vmap s d (of_nat (n * 4096)))
      else None)"

definition loading :: "nat set \<Rightarrow> (nat \<Rightarrow> nat) \<Rightarrow> nat \<Rightarrow> 'a kstate_scheme \<Rightarrow> bool" where
  "loading D base e s \<longleftrightarrow> pmap_inv D base s \<and> env_pgdir (envs s e) \<in> D"

lemma page_va:
  assumes "n < VPN UTOP"
  shows "VPN (of_nat (n * 4096)) = n" "(of_nat (n * 4096) :: u32) < UTOP"
proof -
  have n: "n < 521216" using assms by (simp add: PPN_eq)
  then have u: "unat (of_nat (n * 4096) :: u32) = n * 4096"
    by (simp only: unsigned_of_nat) (simp add: take_bit_nat_eq_self)
  then show "VPN (of_nat (n * 4096)) = n" by (simp only: PPN_eq) simp
  show "(of_nat (n * 4096) :: u32) < UTOP" using n by (simp only: word_less_nat_alt u) simp
qed

lemma phys_get_frame: "frames s' q = frames s q \<Longrightarrow> k < 4096 \<Longrightarrow> phys_get s' (q * 4096 + k) = phys_get s (q * 4096 + k)"
  by (simp add: phys_get_def)

lemma page_bytes_update:
  assumes inv: "pmap_inv D base s" and d: "d \<in> D" and va: "va < UTOP" and e: "PPN e = q"
    and up: "vmap_updated D d va (Some e) s s'"
    and keep: "\<forall>p. user_page D base s p \<longrightarrow> frames s' p = frames s p"
  shows "page_bytes s' d = (page_bytes s d)(VPN va \<mapsto> (\<lambda>k. if k < 4096 then phys_get s' (q * 4096 + k) else 0))"
proof
  fix n
  show "page_bytes s' d n = ((page_bytes s d)(VPN va \<mapsto> (\<lambda>k. if k < 4096 then phys_get s' (q * 4096 + k) else 0))) n"
  proof (cases "n < VPN UTOP")
    case False
    have "VPN va < VPN UTOP" using va by (simp add: PPN_eq word_less_nat_alt less_mult_imp_div_less)
    with False show ?thesis by (simp add: page_bytes_def)
  next
    case True
    note n = page_va[OF True]
    have v: "vmap s' d (of_nat (n * 4096)) = (if n = VPN va then Some e else vmap s d (of_nat (n * 4096)))"
      using up d n by (simp add: vmap_updated_def)
    have "phys_get s' (PPN x * 4096 + k) = phys_get s (PPN x * 4096 + k)"
      if "vmap s d (of_nat (n * 4096)) = Some x" "k < 4096" for x k
      using leaf_range(6)[OF inv d PDX_user[OF n(2)] that(1)] keep that(2) by (intro phys_get_frame) auto
    then show ?thesis using True v e
      by (auto simp: page_bytes_def fun_eq_iff option.map_comp split: option.splits
          intro!: arg_cong[where f = Some] map_option_cong)
  qed
qed

text \<open>The callback up to its call of \<open>page_insert\<close>: a fresh frame with the bytes asked for.\<close>

definition icode_page :: "u8 list option \<Rightarrow> u32 \<Rightarrow> nat \<Rightarrow> u8" where
  "icode_page src len k = (case src of None \<Rightarrow> 0 | Some bs \<Rightarrow> if k < unat len then bs ! k else 0)"

lemma load_icode_mapper_step:
  assumes inv: "pmap_inv D base s" and free: "page_free_list s = q # fl"
    and src: "case src of None \<Rightarrow> True | Some bs \<Rightarrow> unat len \<le> length bs \<and> len \<le> BY2PG"
  shows "\<exists>s2. load_icode_mapper e va 0 perm src len s
        = page_insert (env_pgdir (envs s e)) (env_asid (envs s e)) q va perm s2
      \<and> pmap_inv D base s2 \<and> user_page D base s2 q \<and> pp_ref s2 q = 0 \<and> same_vmap D s s2
      \<and> (\<forall>p. user_page D base s p \<longrightarrow> user_page D base s2 p \<and> frames s2 p = frames s p)
      \<and> page_free_list s2 = fl \<and> npage s2 = npage s \<and> pmap_state.more s2 = pmap_state.more s
      \<and> (\<forall>k<4096. phys_get s2 (q * 4096 + k) = icode_page src len k)"
proof -
  obtain s1 where a: "page_alloc s = Ret (Inr q, s1)"
    using page_alloc_cases[OF pmap_invD(1)[OF inv]] free by (metis list.distinct(1) list.inject)
  have s1: "pmap_step D base s s1" "same_vmap D s s1" "user_page D base s1 q" "pp_ref s1 q = 0" "frames s1 q = (\<lambda>_. 0)"
    "page_free_list s1 = fl" "\<forall>p. user_page D base s p \<longrightarrow> user_page D base s1 p"
    using page_alloc_ok[OF inv] free unfolding a by simp_all metis
  have inv1: "pmap_inv D base s1" "npage s1 = npage s" "pmap_state.more s1 = pmap_state.more s"
    using s1(1) by (simp_all add: pmap_step_def)
  have q: "q < npage s1" using s1(3) by (simp add: user_page_def)
  note u = unreferenced[OF inv1(1) q s1(4)]
  define bytes where "bytes = (case src of None \<Rightarrow> [] | Some bs \<Rightarrow> take (unat len) bs)"
  define s2 where "s2 = phys_write (q * 4096) bytes s1"
  have lenb: "length bytes \<le> 4096" using src by (auto simp: bytes_def word_le_nat_alt split: option.splits)
  have k2: "envs s2 = envs s" using more_kfields(1)[of s2 s] inv1(3) by (simp add: s2_def)
  have kva: "page2kva s1 q = Ret (page2pa q + ULIM)"
    using q pmap_invD(1)[OF inv1(1)] by (simp add: page2kva_def KADDR_def free_list_ok_def)
  have ins: "load_icode_mapper e va 0 perm src len s = page_insert (env_pgdir (envs s e)) (env_asid (envs s e)) q va perm s2"
    using k2 src kva by (cases src) (auto simp: load_icode_mapper_def a s2_def bytes_def)
  have other: "frames s2 p = frames s1 p" if "p \<noteq> q" for p
    using phys_write_other[of q "q * 4096" bytes p s1] lenb that by (simp add: s2_def)
  have same: "same_tables D s1 s2"
  proof -
    have "PPN (pde_at s1 d i) \<noteq> q" if "d \<in> D" "i < NUPDE" "pte_valid (pde_at s1 d i)" for d i
      using u(1) that by (auto simp: pde_slots_def)
    then show ?thesis using u(4) other by (auto simp: same_tables_def) metis+
  qed
  have "pmap_inv D base s2"
    by (rule same_tables_inv[OF same]) (use inv1 pmap_invD(1)[OF inv1(1)] in \<open>simp_all add: s2_def free_list_ok_def\<close>)
  moreover have "user_page D base s2 = user_page D base s1"
    using same_tables_slots(1)[OF same] by (simp add: user_page_def s2_def fun_eq_iff)
  moreover have "same_vmap D s s2"
    using same_tables_vmap[OF same] s1(2) by (simp add: same_vmap_def)
  moreover have "frames s2 p = frames s p" if "user_page D base s p" for p
    using that other[of p] s1(1) free by (auto simp: pmap_step_def user_page_def)
  moreover have "phys_get s2 (q * 4096 + k) = icode_page src len k" if "k < 4096" for k
  proof -
    have "phys_get s2 (q * 4096 + k) = (if k < length bytes then bytes ! k else phys_get s1 (q * 4096 + k))"
      by (simp add: s2_def phys_write_get)
    moreover have "phys_get s1 (q * 4096 + k) = 0" using that s1(5) by (simp add: phys_get_def)
    ultimately show ?thesis using src by (auto simp: bytes_def icode_page_def split: option.splits)
  qed
  ultimately show ?thesis using ins s1 inv1 by (auto simp: s2_def)
qed

lemma load_icode_mapper_ok:
  assumes inv: "loading D base e s" and va: "unat va + 4096 \<le> unat UTOP" and perm: "perm < 4096"
    and src: "case src of None \<Rightarrow> True | Some bs \<Rightarrow> unat len \<le> length bs \<and> len \<le> BY2PG"
    and run: "load_icode_mapper e va 0 perm src len s = Ret (Inr u, s')"
  shows "loading D base e s' \<and> pmap_state.more s' = pmap_state.more s \<and>
    page_bytes s' (env_pgdir (envs s e)) = (page_bytes s (env_pgdir (envs s e)))(VPN va \<mapsto> (\<lambda>k. if k < 4096 then icode_page src len k else 0))"
proof -
  have pinv: "pmap_inv D base s" and d: "env_pgdir (envs s e) \<in> D" using inv by (simp_all add: loading_def)
  let ?d = "env_pgdir (envs s e)"
  have vau: "va < UTOP" using va by (simp add: word_less_nat_alt)
  obtain q fl where free: "page_free_list s = q # fl"
    using run by (cases "page_free_list s") (simp_all add: load_icode_mapper_def page_alloc_def)
  obtain s2 where ins: "page_insert ?d (env_asid (envs s e)) q va perm s2 = Ret (Inr u, s')"
    and s2: "pmap_inv D base s2" "user_page D base s2 q" "pp_ref s2 q = 0" "same_vmap D s s2"
      "\<forall>p. user_page D base s p \<longrightarrow> user_page D base s2 p \<and> frames s2 p = frames s p"
      "npage s2 = npage s" "pmap_state.more s2 = pmap_state.more s" "\<forall>k<4096. phys_get s2 (q * 4096 + k) = icode_page src len k"
    using load_icode_mapper_step[OF pinv free src, of e va perm] run by auto
  have "unat (pp_ref s2 q) < 65535" using s2(3) by simp
  then have "insert_post D base ?d q va perm s2 (Inr u, s')"
    using page_insert_ok[OF s2(1) d vau s2(2) _ perm, of "env_asid (envs s e)"] ins by simp
  then have st: "pmap_step D base s2 s'" and upd: "vmap_updated D ?d va (Some (page2pa q OR perm OR PTE_V)) s2 s'"
    by (simp_all add: insert_post_def)
  have more: "pmap_state.more s' = pmap_state.more s" using st s2(7) by (simp add: pmap_step_def)
  have P: "PPN (page2pa q OR perm OR PTE_V) = q"
    using s2(2) perm pmap_invD(1)[OF s2(1)] by (intro page2pa_or) (auto simp: free_list_ok_def user_page_def)
  have up: "vmap_updated D ?d va (Some (page2pa q OR perm OR PTE_V)) s s'"
    using upd s2(4) by (simp add: vmap_updated_def same_vmap_def)
  have keep: "\<forall>p. user_page D base s p \<longrightarrow> frames s' p = frames s p" using st s2(5) by (simp add: pmap_step_def)
  have "frames s' q = frames s2 q" using st s2(2) by (simp add: pmap_step_def)
  then have "phys_get s' (q * 4096 + k) = icode_page src len k" if "k < 4096" for k
    using that s2(8) phys_get_frame[of s' q s2 k] by simp
  then have "page_bytes s' ?d = (page_bytes s ?d)(VPN va \<mapsto> (\<lambda>k. if k < 4096 then icode_page src len k else 0))"
    using page_bytes_update[OF pinv d vau P up keep] by (simp cong: if_cong)
  then show ?thesis using more st d more_kfields(1)[OF more] by (simp add: loading_def pmap_step_def)
qed

text \<open>Each call of the callback uses at most two frames: the page and, if need be, a page table.\<close>

lemma page_alloc_free_len:
  "page_alloc s = Ret (r, s') \<Longrightarrow> length (page_free_list s) \<le> length (page_free_list s') + 1"
  by (auto simp: page_alloc_def list_remove_def obind_eq_Ret split: list.split_asm)

lemma pgdir_walk_free_len:
  "pgdir_walk d va c s = Ret (r, s') \<Longrightarrow> length (page_free_list s) \<le> length (page_free_list s') + 1"
  by (auto simp: pgdir_walk_def Let_def obind_eq_Ret otry_eq_Ret dest: page_alloc_free_len split: if_splits)

lemma pgdir_walk_lookup_free_len: "pgdir_walk d va False s = Ret (r, s') \<Longrightarrow> s' = s"
  by (auto simp: pgdir_walk_def Let_def obind_eq_Ret split: if_splits)

lemma page_decref_free_len: "page_decref p s = Ret s' \<Longrightarrow> length (page_free_list s) \<le> length (page_free_list s')"
  by (auto simp: page_decref_def page_free_def Let_def obind_eq_Ret guard_panic_def list_insert_head_def split: if_splits)

lemma page_remove_free_len: "page_remove d a va s = Ret s' \<Longrightarrow> length (page_free_list s) \<le> length (page_free_list s')"
  by (auto simp: page_remove_def obind_eq_Ret dest!: page_decref_free_len split: option.split_asm)

lemma page_insert_finish_free_len:
  "page_insert_finish d a pp va perm s = Ret (r, s') \<Longrightarrow> length (page_free_list s) \<le> length (page_free_list s') + 1"
  by (auto simp: page_insert_finish_def Let_def otry_eq_Ret dest!: pgdir_walk_free_len split: option.splits)

lemma page_insert_free_len:
  assumes "page_insert d asid pp va perm s = Ret (r, s')"
  shows "length (page_free_list s) \<le> length (page_free_list s') + 1"
proof -
  obtain r1 s1 where w: "pgdir_walk d va False s = Ret (r1, s1)"
    using assms by (cases "pgdir_walk d va False s") (auto simp: page_insert_def)
  then have "s1 = s" by (rule pgdir_walk_lookup_free_len)
  then consider "page_insert_finish d asid pp va perm s = Ret (r, s')"
    | s2 where "page_remove d asid va s = Ret s2" "page_insert_finish d asid pp va perm s2 = Ret (r, s')"
    | q v where "s' = poke q v (tlb_invalidate asid va s)"
    using assms w
    by (auto simp: page_insert_def Let_def obind_eq_Ret split: sum.splits option.splits if_splits)
  then show ?thesis
    by cases (auto dest!: page_insert_finish_free_len page_remove_free_len)
qed

lemma load_icode_mapper_progress:
  assumes inv: "loading D base e s" and va: "unat va + 4096 \<le> unat UTOP" and perm: "perm < 4096"
    and src: "case src of None \<Rightarrow> True | Some bs \<Rightarrow> unat len \<le> length bs \<and> len \<le> BY2PG"
    and free: "2 \<le> length (page_free_list s)"
  shows "returns (\<lambda>(r, s'). r = Inr () \<and> length (page_free_list s) \<le> length (page_free_list s') + 2)
    (load_icode_mapper e va 0 perm src len s)"
proof -
  have pinv: "pmap_inv D base s" and d: "env_pgdir (envs s e) \<in> D" using inv by (simp_all add: loading_def)
  have vau: "va < UTOP" using va by (simp add: word_less_nat_alt)
  obtain q fl where f: "page_free_list s = q # fl" using free by (cases "page_free_list s") auto
  obtain s2 where s2: "load_icode_mapper e va 0 perm src len s = page_insert (env_pgdir (envs s e)) (env_asid (envs s e)) q va perm s2"
      "pmap_inv D base s2" "user_page D base s2 q" "pp_ref s2 q = 0" "page_free_list s2 = fl"
    using load_icode_mapper_step[OF pinv f src, of e va perm] by auto
  have "unat (pp_ref s2 q) < 65535" using s2(4) by simp
  from page_insert_ok[OF s2(2) d vau s2(3) this perm, of "env_asid (envs s e)"] obtain r s'
    where run: "page_insert (env_pgdir (envs s e)) (env_asid (envs s e)) q va perm s2 = Ret (r, s')"
      and post: "insert_post D base (env_pgdir (envs s e)) q va perm s2 (r, s')"
    by (auto simp: returns_iff)
  have "r = Inr ()" using post f s2(5) free by (cases r) (auto simp: insert_post_def)
  then show ?thesis using run s2(1,5) f page_insert_free_len[OF run] by simp
qed

interpretation icode: budget_mapper "load_icode_mapper e" "\<lambda>s. loading D base e s \<and> env_pgdir (envs s e) = d"
    "\<lambda>s. page_bytes s d" "unat UTOP" "\<lambda>s. length (page_free_list s)" 0 for e D base d
proof
  fix s s' :: "'a kstate_scheme" and va perm len :: u32 and src :: "u8 list" and u :: unit
  assume a: "loading D base e s \<and> env_pgdir (envs s e) = d" "unat va + 4096 \<le> unat UTOP" "perm < 4096"
  {
    assume b: "len \<le> BY2PG" "unat len \<le> length src" "load_icode_mapper e va 0 perm (Some src) len s = Ret (Inr u, s')"
    have "loading D base e s' \<and> pmap_state.more s' = pmap_state.more s \<and>
      page_bytes s' d = (page_bytes s d)(VPN va \<mapsto> (\<lambda>k. if k < 4096 then icode_page (Some src) len k else 0))"
      using load_icode_mapper_ok[where src = "Some src" and len = len and va = va and perm = perm and s = s and s' = s' and e = e and D = D and base = base] a b by auto
    moreover have "(\<lambda>k. if k < 4096 then icode_page (Some src) len k else 0) = (\<lambda>k. if k < unat len then src ! k else 0)"
      using b(1) by (auto simp: icode_page_def word_le_nat_alt fun_eq_iff)
    ultimately show "(loading D base e s' \<and> env_pgdir (envs s' e) = d) \<and>
        page_bytes s' d = (page_bytes s d)(VPN va \<mapsto> (\<lambda>k. if k < unat len then src ! k else 0))"
      using a(1) more_kfields(1)[of s' s] by simp
  }
  {
    assume b: "load_icode_mapper e va 0 perm None len s = Ret (Inr u, s')"
    have "loading D base e s' \<and> pmap_state.more s' = pmap_state.more s \<and>
      page_bytes s' d = (page_bytes s d)(VPN va \<mapsto> (\<lambda>k. if k < 4096 then icode_page None len k else 0))"
      using load_icode_mapper_ok[where src = None and len = len and va = va and perm = perm and s = s and s' = s' and e = e and D = D and base = base] a b by auto
    then show "(loading D base e s' \<and> env_pgdir (envs s' e) = d) \<and> page_bytes s' d = (page_bytes s d)(VPN va \<mapsto> (\<lambda>k. 0))"
      using a(1) more_kfields(1)[of s' s] by (simp add: icode_page_def cong: if_cong)
  }
next
  fix s :: "'a kstate_scheme" and va perm len :: u32 and src :: "u8 list option"
  assume "loading D base e s \<and> env_pgdir (envs s e) = d" "unat va + 4096 \<le> unat UTOP" "perm < 4096"
    "case src of None \<Rightarrow> True | Some bs \<Rightarrow> unat len \<le> length bs \<and> len \<le> BY2PG" "2 \<le> length (page_free_list s)"
  then show "returns (\<lambda>(r, s'). r = Inr () \<and> length (page_free_list s) \<le> length (page_free_list s') + 2)
      (load_icode_mapper e va 0 perm src len s)"
    using load_icode_mapper_progress[where src = src and len = len and va = va and perm = perm and s = s and e = e and D = D and base = base] by simp
qed

section \<open>Properties\<close>

text \<open>
  C19. The kernel loads a page-aligned segment completely: given two frames for each page of the
  segment and two to spare for each, \<open>elf_load_seg\<close> with \<open>load_icode_mapper\<close> returns 0, the memory
  invariant holds, every page of the segment holds the bytes of the file followed by zeroes, and every
  other page of the address space is as before.
\<close>

theorem kernel_segment_loaded:
  assumes "pmap_inv D base s" and "env_pgdir (envs s e) \<in> D"
    and "p_vaddr ph AND 0xFFF = 0" and "unat (p_filesz ph) \<le> length bin" and "p_filesz ph \<le> p_memsz ph"
    and "unat (p_vaddr ph) + unat (p_memsz ph) + 4096 \<le> unat UTOP"
    and "4 * (unat (p_memsz ph) div 4096 + 1) \<le> length (page_free_list s)"
  shows "returns (\<lambda>(r, s'). r = Inr () \<and> pmap_inv D base s' \<and>
     page_bytes s' (env_pgdir (envs s e)) = (\<lambda>n.
       if VPN (p_vaddr ph) \<le> n \<and> (n - VPN (p_vaddr ph)) * 4096 < unat (p_memsz ph)
       then Some (seg_page bin (unat (p_filesz ph)) (n - VPN (p_vaddr ph)))
       else page_bytes s (env_pgdir (envs s e)) n))
     (elf_load_seg (load_icode_mapper e) ph bin s)"
proof -
  let ?inv = "loading D base e s \<and> env_pgdir (envs s e) = env_pgdir (envs s e)"
  have inv: ?inv and lim: "unat UTOP \<le> 2 ^ 31" using assms(1,2) by (simp_all add: loading_def)
  obtain s' where run: "elf_load_seg (load_icode_mapper e) ph bin s = Ret (Inr (), s')"
    using icode.elf_load_seg_returns[OF inv assms(3-6) lim assms(7)] by (auto simp: returns_iff)
  obtain m where m: "pmap_inv D base s'" "unat (p_memsz ph) \<le> m * 4096" "m * 4096 < unat (p_memsz ph) + 4096"
    "seg_loaded bin (unat (p_filesz ph)) (VPN (p_vaddr ph)) 0 m
       (page_bytes s (env_pgdir (envs s e))) (page_bytes s' (env_pgdir (envs s e)))"
    using icode.elf_load_seg_ok[OF inv assms(3-6) lim run] by (auto simp: loading_def)
  have "n < VPN (p_vaddr ph) + m \<longleftrightarrow> (n - VPN (p_vaddr ph)) * 4096 < unat (p_memsz ph)"
    if "VPN (p_vaddr ph) \<le> n" for n
    using m(2,3) that by auto
  then show ?thesis using run m(1,4) by (auto simp: seg_loaded_def fun_eq_iff)
qed

text \<open>A kernel with one environment, in slot 0, whose page directory is frame 1 of the small machine.\<close>

definition demo_tf :: trapframe where
  "demo_tf = \<lparr>regs = (\<lambda>_. 0), cp0_status = 0, tf_hi = 0, tf_lo = 0, cp0_badvaddr = 0, cp0_cause = 0, cp0_epc = 0\<rparr>"

definition demo_env :: env where
  "demo_env = \<lparr>env_tf = demo_tf, env_id = 0x800, env_asid = 5, env_parent_id = 0, env_status = ENV_RUNNABLE,
     env_pgdir = 1, env_pri = 1, env_ipc_value = 0, env_ipc_from = 0, env_ipc_recving = 0, env_ipc_dstva = 0,
     env_ipc_perm = 0, env_user_tlb_mod_entry = 0, env_runs = 0, env_path = CHR ''/'' # replicate 1023 NUL,
     env_shellId = 0\<rparr>"

definition demo_kernel :: kstate where
  "demo_kernel = pmap_state.extend demo_pmap (kstate.fields
     (\<lambda>i. if i = 0 then demo_env else demo_env\<lparr>env_status := ENV_FREE, env_id := 0\<rparr>)
     (Some 0) [1..<NENV] [0] 0 (\<lambda>i. if i = 0 then 32 else 0) 1 0 1 demo_tf (demo_tf, 5))"

lemma demo_kernel_simps [simp]:
  "npage demo_kernel = 16" "pp_ref demo_kernel = pp_ref demo_pmap" "page_free_list demo_kernel = [3..<16]"
  "frames demo_kernel = frames demo_pmap" "tlb demo_kernel = Map.empty" "curenv demo_kernel = Some 0"
  "env_free_list demo_kernel = [1..<NENV]" "env_sched_list demo_kernel = [0]" "base_pgdir demo_kernel = 0"
  "mkenvid_i demo_kernel = 1" "sched_count demo_kernel = 0" "cur_pgdir demo_kernel = 1" "kstack_tf demo_kernel = demo_tf"
  "envs demo_kernel = (\<lambda>i. if i = 0 then demo_env else demo_env\<lparr>env_status := ENV_FREE, env_id := 0\<rparr>)"
  "asid_bitmap demo_kernel = (\<lambda>i. if i = 0 then 32 else 0)"
  by (simp_all add: demo_kernel_def demo_pmap_def pmap_state.defs kstate.defs)

lemma demo_kernel_mem: "mem_of demo_kernel = mem_of demo_pmap"
  by (simp add: mem_of_def demo_pmap_def del: upt_rec_numeral)

lemma demo_kernel_inv: "pmap_inv {1} demo_base demo_kernel"
  using demo_pmap_inv mem_of_eq(4)[OF demo_kernel_mem] by simp

theorem kernel_segment_loaded_witness:
  "returns (\<lambda>(r, s'). r = Inr () \<and> page_bytes s' 1 0x400 = Some (seg_page [7, 8] 2 0))
     (elf_load_seg (load_icode_mapper 0)
        \<lparr>p_type = PT_LOAD, p_offset = 0, p_vaddr = 0x400000, p_filesz = 2, p_memsz = 5000, p_flags = 0\<rparr> [7, 8] demo_kernel)"
  by (rule returns_mono2[OF kernel_segment_loaded[OF demo_kernel_inv]]) (auto simp: demo_env_def PPN_eq)

end
