(* ===== verification/Mos_Sched.thy ===== *)
theory Mos_Sched
  imports Mos_Loader
begin

text \<open>
  The scheduler: \<open>kern/sched.c\<close>, and \<open>env_run\<close>, \<open>env_destroy\<close> of \<open>kern/env.c\<close>. The functions that do
  not return to their caller end with the state in which user code resumes.
\<close>

section \<open>Operations\<close>

definition env_pop_tf :: "trapframe \<Rightarrow> u32 \<Rightarrow> 'a kstate_scheme \<Rightarrow> 'a kstate_scheme" where
  "env_pop_tf tf asid s = s\<lparr>cpu := (tf, asid)\<rparr>"

definition env_run :: "nat \<Rightarrow> 'a kstate_scheme \<Rightarrow> 'a kstate_scheme outcome" where
  "env_run e s =
     obind (guard_panic (env_status (envs s e) = ENV_RUNNABLE) ''assertion failed: e->env_status == ENV_RUNNABLE'') (\<lambda>_.
     let s = (case curenv s of None \<Rightarrow> s | Some c \<Rightarrow> upd_env c (\<lambda>v. v\<lparr>env_tf := kstack_tf s\<rparr>) s);
         s = s\<lparr>curenv := Some e\<rparr>;
         s = upd_env e (\<lambda>v. v\<lparr>env_runs := env_runs v + 1\<rparr>) s;
         s = s\<lparr>cur_pgdir := env_pgdir (envs s e)\<rparr>
     in Ret (env_pop_tf (env_tf (envs s e)) (env_asid (envs s e)) s))"

definition schedule :: "bool \<Rightarrow> 'a kstate_scheme \<Rightarrow> 'a kstate_scheme outcome" where
  "schedule yield s =
     (let e = curenv s;
          runnable = (case e of None \<Rightarrow> False | Some c \<Rightarrow> env_status (envs s c) = ENV_RUNNABLE)
      in obind
           (if yield \<or> sched_count s = 0 \<or> e = None \<or> \<not> runnable then
              obind (if runnable
                     then obind (tailq_remove (the e) (env_sched_list s)) (\<lambda>q.
                          obind (tailq_insert_tail (the e) q) (\<lambda>q. Ret (s\<lparr>env_sched_list := q\<rparr>)))
                     else Ret s) (\<lambda>s.
              case first_of (env_sched_list s) of
                None \<Rightarrow> Panic ''There is no runnable env!''
              | Some e \<Rightarrow> Ret (e, s\<lparr>sched_count := env_pri (envs s e)\<rparr>))
            else Ret (the e, s)) (\<lambda>(e, s).
         let s = s\<lparr>sched_count := sched_count s - 1\<rparr> in env_run e s))"

definition env_destroy :: "nat \<Rightarrow> 'a kstate_scheme \<Rightarrow> 'a kstate_scheme outcome" where
  "env_destroy e s =
     obind (env_free e s) (\<lambda>s.
       if curenv s = Some e then schedule True (s\<lparr>curenv := None\<rparr>) else Ret s)"

section \<open>The run queue\<close>

definition runq_ok :: "'a kstate_scheme \<Rightarrow> bool" where
  "runq_ok s \<longleftrightarrow> distinct (env_sched_list s)
     \<and> (\<forall>e. e \<in> set (env_sched_list s) \<longleftrightarrow> e < NENV \<and> env_status (envs s e) = ENV_RUNNABLE)"

definition cur_ok :: "'a kstate_scheme \<Rightarrow> bool" where
  "cur_ok s \<longleftrightarrow> (case curenv s of None \<Rightarrow> True | Some c \<Rightarrow> c < NENV)"

text \<open>What a context switch from the current environment to \<open>e\<close> does to the array of environments.\<close>

definition switched_envs :: "nat \<Rightarrow> 'a kstate_scheme \<Rightarrow> nat \<Rightarrow> env" where
  "switched_envs e s = (let es = (case curenv s of None \<Rightarrow> envs s
        | Some c \<Rightarrow> (envs s)(c := (envs s c)\<lparr>env_tf := kstack_tf s\<rparr>))
      in es(e := (es e)\<lparr>env_runs := env_runs (es e) + 1\<rparr>))"

lemma env_run_eq:
  assumes "env_status (envs s e) = ENV_RUNNABLE"
  shows "env_run e s = Ret (s\<lparr>curenv := Some e, envs := switched_envs e s, cur_pgdir := env_pgdir (envs s e),
     cpu := (env_tf (switched_envs e s e), env_asid (envs s e))\<rparr>)"
proof (cases "curenv s")
  case None
  then show ?thesis using assms
    by (simp add: env_run_def Let_def switched_envs_def env_pop_tf_def upd_env_def)
next
  case (Some c)
  then show ?thesis using assms
    by (cases "c = e") (simp_all add: env_run_def Let_def switched_envs_def env_pop_tf_def upd_env_def)
qed

lemma switched_envs_fields [simp]:
  "env_status (switched_envs e s x) = env_status (envs s x)" "env_pgdir (switched_envs e s x) = env_pgdir (envs s x)"
  "env_asid (switched_envs e s x) = env_asid (envs s x)" "env_id (switched_envs e s x) = env_id (envs s x)"
  "env_pri (switched_envs e s x) = env_pri (envs s x)" "env_ipc_recving (switched_envs e s x) = env_ipc_recving (envs s x)"
  "env_parent_id (switched_envs e s x) = env_parent_id (envs s x)"
  by (auto simp: switched_envs_def Let_def split: option.splits)

lemma switched_envs_queue [simp]:
  "switched_envs e (s\<lparr>env_sched_list := q\<rparr>) = switched_envs e s"
  "switched_envs e (s\<lparr>sched_count := n\<rparr>) = switched_envs e s"
  by (simp_all add: switched_envs_def cong: option.case_cong)

text \<open>The environment and the queue that \<open>schedule\<close> chooses.\<close>

definition resched :: "bool \<Rightarrow> 'a kstate_scheme \<Rightarrow> bool" where
  "resched yield s \<longleftrightarrow> yield \<or> sched_count s = 0 \<or>
     (case curenv s of None \<Rightarrow> True | Some c \<Rightarrow> env_status (envs s c) \<noteq> ENV_RUNNABLE)"

definition rotated :: "'a kstate_scheme \<Rightarrow> nat list" where
  "rotated s = (case curenv s of None \<Rightarrow> env_sched_list s
     | Some c \<Rightarrow> if env_status (envs s c) = ENV_RUNNABLE then remove1 c (env_sched_list s) @ [c] else env_sched_list s)"

lemma rotated_set: "runq_ok s \<Longrightarrow> cur_ok s \<Longrightarrow> set (rotated s) = set (env_sched_list s) \<and> distinct (rotated s)"
  by (auto simp: rotated_def runq_ok_def cur_ok_def split: option.splits)

lemma requeue_current:
  assumes "runq_ok s" "cur_ok s" "curenv s = Some c" "env_status (envs s c) = ENV_RUNNABLE"
  shows "obind (tailq_remove c (env_sched_list s)) (tailq_insert_tail c) = Ret (rotated s)"
proof -
  have "c \<in> set (env_sched_list s)" "distinct (env_sched_list s)" using assms by (auto simp: runq_ok_def cur_ok_def)
  then show ?thesis using list_queue.rep_requeue[of "env_sched_list s" "env_sched_list s" c] assms
    by (auto simp: returns_iff rotated_def)
qed

lemma schedule_resched:
  assumes ok: "runq_ok s" "cur_ok s" and r: "resched yield s"
  shows "schedule yield s = (case rotated s of [] \<Rightarrow> Panic ''There is no runnable env!''
    | e # q \<Rightarrow> env_run e (s\<lparr>env_sched_list := rotated s, sched_count := env_pri (envs s e) - 1\<rparr>))"
proof -
  have "(if (case curenv s of None \<Rightarrow> False | Some c \<Rightarrow> env_status (envs s c) = ENV_RUNNABLE)
        then obind (tailq_remove (the (curenv s)) (env_sched_list s)) (\<lambda>q.
             obind (tailq_insert_tail (the (curenv s)) q) (\<lambda>q. Ret (s\<lparr>env_sched_list := q\<rparr>)))
        else Ret s) = Ret (s\<lparr>env_sched_list := rotated s\<rparr>)"
  proof (cases "\<exists>c. curenv s = Some c \<and> env_status (envs s c) = ENV_RUNNABLE")
    case True
    then obtain c where c: "curenv s = Some c" "env_status (envs s c) = ENV_RUNNABLE" by blast
    from requeue_current[OF ok c] show ?thesis using c by (simp add: obind_assoc[symmetric])
  next
    case False
    then show ?thesis by (auto simp: rotated_def split: option.splits)
  qed
  then show ?thesis using r
    by (auto simp: schedule_def Let_def resched_def first_of_def split: list.splits option.splits)
qed

lemma schedule_continue:
  assumes "\<not> resched yield s"
  shows "schedule yield s = env_run (the (curenv s)) (s\<lparr>sched_count := sched_count s - 1\<rparr>)"
  using assms by (cases "curenv s") (auto simp: schedule_def resched_def Let_def)

lemma schedule_ok:
  assumes ok: "runq_ok s" "cur_ok s" and ne: "env_sched_list s \<noteq> []"
  shows "\<exists>e q n. schedule yield s = Ret (s\<lparr>env_sched_list := q, sched_count := n, curenv := Some e, envs := switched_envs e s,
      cur_pgdir := env_pgdir (envs s e), cpu := (env_tf (switched_envs e s e), env_asid (envs s e))\<rparr>)
    \<and> e \<in> set q \<and> set q = set (env_sched_list s) \<and> distinct q
    \<and> (if resched yield s then q = rotated s \<and> e = hd (rotated s) \<and> n = env_pri (envs s e) - 1
       else q = env_sched_list s \<and> curenv s = Some e \<and> n = sched_count s - 1)"
proof (cases "resched yield s")
  case True
  note rot = rotated_set[OF ok]
  obtain e q where eq: "rotated s = e # q" using rot ne by (cases "rotated s") auto
  then have "env_status (envs s e) = ENV_RUNNABLE" using rot ok(1) by (auto simp: runq_ok_def)
  then show ?thesis using schedule_resched[OF ok True] rot True
    by (auto simp: eq env_run_eq intro!: exI[of _ e] exI[of _ "rotated s"])
next
  case False
  then obtain c where c: "curenv s = Some c" "env_status (envs s c) = ENV_RUNNABLE"
    by (auto simp: resched_def split: option.splits)
  then have "c \<in> set (env_sched_list s)" using ok by (auto simp: runq_ok_def cur_ok_def)
  then show ?thesis using schedule_continue[OF False] c ok(1) False
    by (auto simp: env_run_eq runq_ok_def intro!: exI[of _ c] exI[of _ "env_sched_list s"])
qed

section \<open>Round robin\<close>

text \<open>\<open>n\<close> timer interrupts, with the environment that each of them resumes.\<close>

fun ticks :: "nat \<Rightarrow> 'a kstate_scheme \<Rightarrow> (nat list \<times> 'a kstate_scheme) outcome" where
  "ticks 0 s = Ret ([], s)"
| "ticks (Suc n) s =
     obind (schedule False s) (\<lambda>s1. obind (ticks n s1) (\<lambda>(tr, s2). Ret (the (curenv s1) # tr, s2)))"

lemma ticks_add:
  "ticks (m + n) s = obind (ticks m s) (\<lambda>(tr1, s1). obind (ticks n s1) (\<lambda>(tr2, s2). Ret (tr1 @ tr2, s2)))"
proof (induction m arbitrary: s)
  case 0
  show ?case by (cases "ticks n s") auto
next
  case (Suc m)
  show ?case
  proof (cases "schedule False s")
    case (Ret s1)
    then show ?thesis by (cases "ticks m s1") (auto simp: Suc obind_assoc split: prod.splits intro!: obind_cong)
  qed simp_all
qed

text \<open>A quiet machine: \<open>c\<close> runs at the head of the queue with \<open>n\<close> slices left.\<close>

definition quiet :: "nat \<Rightarrow> nat list \<Rightarrow> nat \<Rightarrow> (nat \<Rightarrow> u32) \<Rightarrow> 'a kstate_scheme \<Rightarrow> bool" where
  "quiet c rest n pri s \<longleftrightarrow> runq_ok s \<and> curenv s = Some c \<and> env_sched_list s = c # rest
     \<and> unat (sched_count s) = n \<and> (\<forall>e. env_pri (envs s e) = pri e)"

lemma quiet_ok:
  assumes "quiet c rest n pri s"
  shows "runq_ok s" "cur_ok s" "env_sched_list s \<noteq> []" "env_status (envs s c) = ENV_RUNNABLE"
proof -
  have c: "c \<in> set (env_sched_list s)" "runq_ok s" "curenv s = Some c" using assms by (auto simp: quiet_def)
  then have "c < NENV \<and> env_status (envs s c) = ENV_RUNNABLE" unfolding runq_ok_def by blast
  then show "runq_ok s" "cur_ok s" "env_sched_list s \<noteq> []" "env_status (envs s c) = ENV_RUNNABLE"
    using c assms by (auto simp: cur_ok_def quiet_def)
qed

lemma tick_within_slice:
  assumes q: "quiet c rest (Suc n) pri s"
  shows "returns (\<lambda>s'. quiet c rest n pri s') (schedule False s)"
proof -
  note ok = quiet_ok[OF q]
  have cnt: "sched_count s \<noteq> 0" "unat (sched_count s - 1) = n"
  proof -
    have u: "unat (sched_count s) = Suc n" using q by (simp add: quiet_def)
    then show "sched_count s \<noteq> 0" by auto
    then show "unat (sched_count s - 1) = n" using u by (simp add: unat_minus_one)
  qed
  have cur: "curenv s = Some c" using q by (simp add: quiet_def)
  have nr: "\<not> resched False s" using cnt(1) cur ok(4) by (simp add: resched_def)
  from schedule_continue[OF nr] show ?thesis using q cur ok(4) cnt(2)
    by (auto simp: env_run_eq quiet_def runq_ok_def)
qed

lemma tick_next_slice:
  assumes q: "quiet c rest 0 pri s" and hd: "rest @ [c] = e # rest'" and pri: "pri e \<noteq> 0"
  shows "returns (\<lambda>s'. quiet e rest' (unat (pri e) - 1) pri s') (schedule False s)"
proof -
  note ok = quiet_ok[OF q]
  have cur: "curenv s = Some c" "env_sched_list s = c # rest" "unat (sched_count s) = 0" and p: "env_pri (envs s e) = pri e"
    using q by (simp_all add: quiet_def)
  have r: "resched False s" using cur(3) by (simp add: resched_def unat_eq_0)
  have rot: "rotated s = e # rest'" using cur ok(4) hd by (simp add: rotated_def)
  have "e \<in> set (env_sched_list s)" using hd cur(2) by (metis Un_iff list.set_intros(1) rotated_set[OF ok(1,2)] rot)
  then have "env_status (envs s e) = ENV_RUNNABLE" using ok(1) unfolding runq_ok_def by blast
  moreover have "set (e # rest') = set (env_sched_list s)" "distinct (e # rest')" using rotated_set[OF ok(1,2)] rot by simp_all
  ultimately show ?thesis using schedule_resched[OF ok(1,2) r] q p pri ok(1)
    by (simp add: rot env_run_eq quiet_def runq_ok_def unat_minus_one)
qed

lemma ticks_slice:
  assumes "quiet e rest n pri s"
  shows "returns (\<lambda>(tr, s'). tr = replicate n e \<and> quiet e rest 0 pri s') (ticks n s)"
  using assms
proof (induction n arbitrary: s)
  case (Suc n)
  then obtain s1 where s1: "schedule False s = Ret s1" "quiet e rest n pri s1"
    using tick_within_slice[OF Suc.prems] by (auto simp: returns_iff)
  then obtain s2 where "ticks n s1 = Ret (replicate n e, s2)" "quiet e rest 0 pri s2"
    using Suc.IH by (auto simp: returns_iff)
  then show ?case using s1 by (simp add: quiet_def)
qed simp

lemma ticks_turn:
  assumes "quiet c rest 0 pri s" "rest @ [c] = e # rest'" "pri e \<noteq> 0"
  shows "returns (\<lambda>(tr, s'). tr = replicate (unat (pri e)) e \<and> quiet e rest' 0 pri s') (ticks (unat (pri e)) s)"
proof -
  obtain s1 where s1: "schedule False s = Ret s1" "quiet e rest' (unat (pri e) - 1) pri s1"
    using tick_next_slice[OF assms] by (auto simp: returns_iff)
  obtain s2 where s2: "ticks (unat (pri e) - 1) s1 = Ret (replicate (unat (pri e) - 1) e, s2)" "quiet e rest' 0 pri s2"
    using ticks_slice[OF s1(2)] by (auto simp: returns_iff)
  have "0 < unat (pri e)" using assms(3) by (simp add: unat_gt_0)
  then obtain m where m: "unat (pri e) = Suc m" by (cases "unat (pri e)") auto
  show ?thesis using s1 s2 unfolding m by (simp add: quiet_def)
qed

text \<open>Serving the environments of a prefix \<open>xs\<close> of the rotated queue, one turn each.\<close>

lemma ticks_turns:
  assumes "quiet c rest 0 pri s" "rest @ [c] = xs @ ys" "\<forall>e\<in>set (rest @ [c]). pri e \<noteq> 0"
  shows "returns (\<lambda>(tr, s'). tr = concat (map (\<lambda>e. replicate (unat (pri e)) e) xs)
      \<and> (\<exists>c' rest'. quiet c' rest' 0 pri s' \<and> rest' @ [c'] = ys @ xs \<and> (xs \<noteq> [] \<longrightarrow> c' = last xs)))
    (ticks (sum_list (map (\<lambda>e. unat (pri e)) xs)) s)"
  using assms
proof (induction xs arbitrary: c rest ys s)
  case Nil
  then show ?case by auto
next
  case (Cons e xs)
  obtain s1 where s1: "ticks (unat (pri e)) s = Ret (replicate (unat (pri e)) e, s1)" "quiet e (xs @ ys) 0 pri s1"
    using ticks_turn[OF Cons.prems(1), of e "xs @ ys"] Cons.prems(2,3) by (auto simp: returns_iff)
  have mem: "set (rest @ [c]) = set (e # xs @ ys)" using Cons.prems(2) by simp
  have "returns (\<lambda>(tr, s'). tr = concat (map (\<lambda>e. replicate (unat (pri e)) e) xs)
      \<and> (\<exists>c' rest'. quiet c' rest' 0 pri s' \<and> rest' @ [c'] = (ys @ [e]) @ xs \<and> (xs \<noteq> [] \<longrightarrow> c' = last xs)))
    (ticks (sum_list (map (\<lambda>e. unat (pri e)) xs)) s1)"
    by (rule Cons.IH[OF s1(2)]) (use Cons.prems(3) mem in auto)
  then obtain s2 c' rest' where s2: "ticks (sum_list (map (\<lambda>e. unat (pri e)) xs)) s1
      = Ret (concat (map (\<lambda>e. replicate (unat (pri e)) e) xs), s2)"
    "quiet c' rest' 0 pri s2" "rest' @ [c'] = (ys @ [e]) @ xs" "xs \<noteq> [] \<longrightarrow> c' = last xs"
    by (auto simp: returns_iff)
  have "c' = last (e # xs)" using s2(3,4) by (cases "xs = []") auto
  then show ?case using s1(1) s2 by (auto simp: ticks_add)
qed

section \<open>Properties\<close>

text \<open>
  When the run queue holds exactly the runnable environments, \<open>schedule\<close> panics if and only if
  there is none. Otherwise it resumes a runnable environment, the queue still holds exactly the
  runnable environments, the trap frame of the interrupted environment has been saved in its slot, and
  the CPU resumes the chosen environment with the trap frame saved for it (its own current one if it
  simply continues), its ASID and its page directory.
\<close>

theorem schedule_correct:
  assumes "runq_ok s" and "cur_ok s"
  shows "(env_sched_list s = [] \<longrightarrow> schedule yield s = Panic ''There is no runnable env!'') \<and>
    (env_sched_list s \<noteq> [] \<longrightarrow> returns (\<lambda>s'. \<exists>e. curenv s' = Some e \<and> env_status (envs s' e) = ENV_RUNNABLE
       \<and> runq_ok s' \<and> cur_ok s' \<and> cur_pgdir s' = env_pgdir (envs s' e)
       \<and> (\<forall>c. curenv s = Some c \<longrightarrow> env_tf (envs s' c) = kstack_tf s)
       \<and> (\<forall>x. curenv s \<noteq> Some x \<longrightarrow> env_tf (envs s' x) = env_tf (envs s x))
       \<and> cpu s' = (env_tf (envs s' e), env_asid (envs s' e))) (schedule yield s))"
proof (intro conjI impI)
  assume nil: "env_sched_list s = []"
  then have "resched yield s" "rotated s = []"
    using assms by (auto simp: resched_def rotated_def runq_ok_def cur_ok_def split: option.splits)
  then show "schedule yield s = Panic ''There is no runnable env!''" using schedule_resched[OF assms] by simp
next
  assume ne: "env_sched_list s \<noteq> []"
  obtain e q n where run: "schedule yield s = Ret (s\<lparr>env_sched_list := q, sched_count := n, curenv := Some e,
      envs := switched_envs e s, cur_pgdir := env_pgdir (envs s e), cpu := (env_tf (switched_envs e s e), env_asid (envs s e))\<rparr>)"
    and q: "e \<in> set q" "set q = set (env_sched_list s)" "distinct q"
    using schedule_ok[OF assms ne] by blast
  have "env_status (envs s e) = ENV_RUNNABLE" "e < NENV" using q assms(1) by (auto simp: runq_ok_def)
  moreover have "env_tf (switched_envs e s c) = kstack_tf s" if "curenv s = Some c" for c
    using that by (simp add: switched_envs_def)
  moreover have "env_tf (switched_envs e s x) = env_tf (envs s x)" if "curenv s \<noteq> Some x" for x
    using that by (auto simp: switched_envs_def Let_def split: option.splits)
  ultimately show "returns (\<lambda>s'. \<exists>e. curenv s' = Some e \<and> env_status (envs s' e) = ENV_RUNNABLE
       \<and> runq_ok s' \<and> cur_ok s' \<and> cur_pgdir s' = env_pgdir (envs s' e)
       \<and> (\<forall>c. curenv s = Some c \<longrightarrow> env_tf (envs s' c) = kstack_tf s)
       \<and> (\<forall>x. curenv s \<noteq> Some x \<longrightarrow> env_tf (envs s' x) = env_tf (envs s x))
       \<and> cpu s' = (env_tf (envs s' e), env_asid (envs s' e))) (schedule yield s)"
    using run q assms(1) by (auto simp: runq_ok_def cur_ok_def)
qed

definition demo_two :: kstate where
  "demo_two = demo_kernel\<lparr>env_sched_list := [0, 1], envs := (\<lambda>i. if i = 0 then demo_env
     else if i = 1 then demo_env\<lparr>env_id := 0x1001, env_pri := 2\<rparr> else demo_env\<lparr>env_status := ENV_FREE\<rparr>)\<rparr>"

lemma demo_two_ok: "runq_ok demo_two" "cur_ok demo_two"
  by (auto simp: runq_ok_def cur_ok_def demo_two_def demo_env_def)

theorem schedule_correct_witness:
  "returns (\<lambda>s'. curenv s' = Some 1 \<or> curenv s' = Some 0) (schedule True demo_two)"
proof -
  have "env_sched_list demo_two \<noteq> []" by (simp add: demo_two_def)
  with schedule_correct[OF demo_two_ok, of True] have "returns (\<lambda>s'. \<exists>e. curenv s' = Some e \<and> env_status (envs s' e) = ENV_RUNNABLE
       \<and> runq_ok s' \<and> cur_ok s' \<and> cur_pgdir s' = env_pgdir (envs s' e)
       \<and> (\<forall>c. curenv demo_two = Some c \<longrightarrow> env_tf (envs s' c) = kstack_tf demo_two)
       \<and> (\<forall>x. curenv demo_two \<noteq> Some x \<longrightarrow> env_tf (envs s' x) = env_tf (envs demo_two x))
       \<and> cpu s' = (env_tf (envs s' e), env_asid (envs s' e))) (schedule True demo_two)" by blast
  moreover have "schedule True demo_two = env_run 1 (demo_two\<lparr>env_sched_list := [1, 0], sched_count := 1\<rparr>)"
    using schedule_resched[OF demo_two_ok, of True] by (simp add: resched_def rotated_def demo_two_def demo_env_def)
  ultimately show ?thesis by (auto simp: returns_iff env_run_eq demo_two_def demo_env_def)
qed

text \<open>
  C17. Round robin: from a state where the current environment is at the head of the queue with its time
  slices used up, and all runnable environments have a positive priority, \<open>schedule(0)\<close> at every timer
  interrupt gives each of them, in queue order, exactly as many consecutive slices as its priority, and
  after one round the queue and the current environment are as at the start. In particular no runnable
  environment starves.
\<close>

theorem round_robin:
  assumes "quiet c rest 0 pri s" and "\<forall>e\<in>set (rest @ [c]). pri e \<noteq> 0"
  shows "returns (\<lambda>(tr, s'). tr = concat (map (\<lambda>e. replicate (unat (pri e)) e) (rest @ [c])) \<and> quiet c rest 0 pri s')
    (ticks (sum_list (map (\<lambda>e. unat (pri e)) (rest @ [c]))) s)"
proof -
  have "returns (\<lambda>(tr, s'). tr = concat (map (\<lambda>e. replicate (unat (pri e)) e) (rest @ [c]))
      \<and> (\<exists>c' rest'. quiet c' rest' 0 pri s' \<and> rest' @ [c'] = [] @ rest @ [c] \<and> (rest @ [c] \<noteq> [] \<longrightarrow> c' = last (rest @ [c]))))
    (ticks (sum_list (map (\<lambda>e. unat (pri e)) (rest @ [c]))) s)"
    by (rule ticks_turns[OF assms(1) _ assms(2)]) simp
  then show ?thesis by (rule returns_mono2) auto
qed

theorem round_robin_witness:
  "returns (\<lambda>(tr, s'). tr = [1, 1, 0]) (ticks 3 demo_two)"
proof -
  let ?pri = "\<lambda>e :: nat. if e = 1 then 2 else 1 :: u32"
  have q: "quiet 0 [1] 0 ?pri demo_two"
    using demo_two_ok(1) by (simp add: quiet_def demo_two_def demo_env_def)
  have pos: "\<forall>e\<in>set ([1] @ [0]). ?pri e \<noteq> 0" by simp
  have n: "sum_list (map (\<lambda>e. unat (?pri e)) ([1] @ [0])) = 3" by simp
  have tr: "concat (map (\<lambda>e. replicate (unat (?pri e)) e) ([1] @ [0])) = [1, 1, 0]"
  proof -
    have "replicate 2 x = [x, x]" for x :: nat by (simp add: numeral_2_eq_2)
    then show ?thesis by simp
  qed
  show ?thesis by (rule returns_mono2[OF round_robin[OF q pos, unfolded n tr]]) simp
qed

end
