(* ===== verification/Mos_Trap.thy ===== *)
theory Mos_Trap
  imports Mos_Sched
begin

text \<open>
  TLB exceptions: \<open>kern/tlbex.c\<close>, the refill handler of \<open>kern/tlb_asm.S\<close>, and the kernel's accesses to
  user memory, which go through them. With a coherent TLB the hardware translation is the page
  table's, so an access is modelled by the refill followed by the access to the frame. The random
  replacement of \<open>tlbwr\<close> only drops entries and is not modelled.
\<close>

section \<open>TLB refill\<close>

definition passive_alloc :: "u32 \<Rightarrow> nat \<Rightarrow> u32 \<Rightarrow> 'a kstate_scheme \<Rightarrow> 'a kstate_scheme outcome" where
  "passive_alloc va pgdir asid s =
     (if va < UTEMP then Panic ''address too low''
      else if USTACKTOP \<le> va \<and> va < USTACKTOP + BY2PG then Panic ''invalid memory''
      else if UENVS \<le> va \<and> va < UPAGES then Panic ''envs zone''
      else if UPAGES \<le> va \<and> va < UVPT then Panic ''pages zone''
      else if ULIM \<le> va then Panic ''kernel address''
      else obind (page_alloc s) (\<lambda>(r, s).
        case r of
          Inl _ \<Rightarrow> Panic ''panic_on(page_alloc(&p))''
        | Inr p \<Rightarrow>
            obind (page_insert pgdir asid p (PTE_ADDR va) PTE_D s) (\<lambda>(r, s).
              case r of Inl _ \<Rightarrow> Panic ''panic_on(page_insert(...))'' | Inr _ \<Rightarrow> Ret s)))"

text \<open>
  The loop of \<open>_do_tlb_refill\<close>, with fuel; two iterations are always enough (shown below).
\<close>

fun do_tlb_refill_loop :: "nat \<Rightarrow> u32 \<Rightarrow> u32 \<Rightarrow> 'a kstate_scheme \<Rightarrow> (u32 \<times> 'a kstate_scheme) outcome" where
  "do_tlb_refill_loop 0 va asid s = Undef"
| "do_tlb_refill_loop (Suc n) va asid s =
     obind (page_lookup (cur_pgdir s) va s) (\<lambda>r.
       case r of
         None \<Rightarrow> obind (passive_alloc va (cur_pgdir s) asid s) (do_tlb_refill_loop n va asid)
       | Some (pp, pte) \<Rightarrow> Ret (peek s pte, s))"

definition do_tlb_refill_c :: "u32 \<Rightarrow> u32 \<Rightarrow> 'a kstate_scheme \<Rightarrow> (u32 \<times> 'a kstate_scheme) outcome" where
  "do_tlb_refill_c va asid s = do_tlb_refill_loop 2 va asid s"

text \<open>The assembly wrapper: the ASID is the one in EntryHi, and the result is written into the TLB.\<close>

definition do_tlb_refill :: "u32 \<Rightarrow> 'a kstate_scheme \<Rightarrow> (u32 \<times> 'a kstate_scheme) outcome" where
  "do_tlb_refill badvaddr s =
     (let asid = snd (cpu s) AND 63 in
      obind (do_tlb_refill_c badvaddr asid s) (\<lambda>(pte, s).
        Ret (pte, s\<lparr>tlb := (tlb s)(PTE_ADDR badvaddr OR push_bit 6 asid \<mapsto> pte)\<rparr>)))"

section \<open>Kernel accesses to user memory\<close>

text \<open>
  Addresses from \<open>ULIM\<close> on are the kernel's own; a user pointer there would make the kernel read or
  overwrite its own data, which is \<open>Undef\<close>. A store to a page without \<open>PTE_D\<close> would raise a TLB Mod
  exception inside the kernel: \<open>Undef\<close>.
\<close>

definition user_get8 :: "u32 \<Rightarrow> 'a kstate_scheme \<Rightarrow> (u8 \<times> 'a kstate_scheme) outcome" where
  "user_get8 va s =
     (if ULIM \<le> va then Undef
      else obind (do_tlb_refill va s) (\<lambda>(pte, s). Ret (phys_get s (PPN pte * 4096 + unat (va AND 0xFFF)), s)))"

definition user_put8 :: "u32 \<Rightarrow> u8 \<Rightarrow> 'a kstate_scheme \<Rightarrow> 'a kstate_scheme outcome" where
  "user_put8 va b s =
     (if ULIM \<le> va then Undef
      else obind (do_tlb_refill va s) (\<lambda>(pte, s).
        if pte AND PTE_D = 0 then Undef else Ret (phys_put (PPN pte * 4096 + unat (va AND 0xFFF)) b s)))"

definition user_get32 :: "u32 \<Rightarrow> 'a kstate_scheme \<Rightarrow> (u32 \<times> 'a kstate_scheme) outcome" where
  "user_get32 va s =
     (if ULIM \<le> va \<or> va AND 3 \<noteq> 0 then Undef
      else obind (do_tlb_refill va s) (\<lambda>(pte, s). Ret (peek s (PPN pte, unat (va AND 0xFFF) div 4), s)))"

definition user_put32 :: "u32 \<Rightarrow> u32 \<Rightarrow> 'a kstate_scheme \<Rightarrow> 'a kstate_scheme outcome" where
  "user_put32 va w s =
     (if ULIM \<le> va \<or> va AND 3 \<noteq> 0 then Undef
      else obind (do_tlb_refill va s) (\<lambda>(pte, s).
        if pte AND PTE_D = 0 then Undef else Ret (poke (PPN pte, unat (va AND 0xFFF) div 4) w s)))"

fun user_get_bytes :: "u32 \<Rightarrow> nat \<Rightarrow> 'a kstate_scheme \<Rightarrow> (u8 list \<times> 'a kstate_scheme) outcome" where
  "user_get_bytes va 0 s = Ret ([], s)"
| "user_get_bytes va (Suc n) s =
     obind (user_get8 va s) (\<lambda>(b, s). obind (user_get_bytes (va + 1) n s) (\<lambda>(bs, s). Ret (b # bs, s)))"

fun user_put_bytes :: "u32 \<Rightarrow> u8 list \<Rightarrow> 'a kstate_scheme \<Rightarrow> 'a kstate_scheme outcome" where
  "user_put_bytes va [] s = Ret s"
| "user_put_bytes va (b # bs) s = obind (user_put8 va b s) (user_put_bytes (va + 1) bs)"

fun user_get_words :: "u32 \<Rightarrow> nat \<Rightarrow> 'a kstate_scheme \<Rightarrow> (u32 list \<times> 'a kstate_scheme) outcome" where
  "user_get_words va 0 s = Ret ([], s)"
| "user_get_words va (Suc n) s =
     obind (user_get32 va s) (\<lambda>(w, s). obind (user_get_words (va + 4) n s) (\<lambda>(ws, s). Ret (w # ws, s)))"

fun user_put_words :: "u32 \<Rightarrow> u32 list \<Rightarrow> 'a kstate_scheme \<Rightarrow> 'a kstate_scheme outcome" where
  "user_put_words va [] s = Ret s"
| "user_put_words va (w # ws) s = obind (user_put32 va w s) (user_put_words (va + 4) ws)"

section \<open>TLB modification\<close>

text \<open>The words of a trap frame, in the order of \<open>struct Trapframe\<close>.\<close>

definition tf_words :: "trapframe \<Rightarrow> u32 list" where
  "tf_words tf = map (regs tf) [0..<32] @ [cp0_status tf, tf_hi tf, tf_lo tf, cp0_badvaddr tf, cp0_cause tf, cp0_epc tf]"

definition tf_of_words :: "u32 list \<Rightarrow> trapframe" where
  "tf_of_words ws = \<lparr>regs = (\<lambda>i. if i < 32 then ws ! i else 0), cp0_status = ws ! 32, tf_hi = ws ! 33, tf_lo = ws ! 34,
     cp0_badvaddr = ws ! 35, cp0_cause = ws ! 36, cp0_epc = ws ! 37\<rparr>"

abbreviation (input) sizeof_Trapframe :: u32 where "sizeof_Trapframe \<equiv> 152"

text \<open>The handler works on the trap frame at the top of the kernel stack.\<close>

definition do_tlb_mod :: "'a kstate_scheme \<Rightarrow> 'a kstate_scheme outcome" where
  "do_tlb_mod s =
     (let tf = kstack_tf s;
          tmp_tf = tf;
          sp = (if regs tf 29 < USTACKTOP \<or> UXSTACKTOP \<le> regs tf 29 then UXSTACKTOP else regs tf 29);
          sp = sp - sizeof_Trapframe
      in obind (user_put_words sp (tf_words tmp_tf) s) (\<lambda>s.
         case curenv s of
           None \<Rightarrow> Undef
         | Some c \<Rightarrow>
             if env_user_tlb_mod_entry (envs s c) \<noteq> 0
             then Ret (s\<lparr>kstack_tf := tf\<lparr>regs := (regs tf)(29 := sp - 4, 4 := sp),
                                          cp0_epc := env_user_tlb_mod_entry (envs s c)\<rparr>\<rparr>)
             else Panic ''TLB Mod but no user handler registered''))"

section \<open>The refill handler terminates with the right entry\<close>

definition demand_va :: "u32 \<Rightarrow> bool" where
  "demand_va va \<longleftrightarrow> UTEMP \<le> va \<and> va < UTOP \<and> \<not> (USTACKTOP \<le> va \<and> va < USTACKTOP + BY2PG)"

lemma PTE_ADDR_user: "va < UTOP \<Longrightarrow> PTE_ADDR va < UTOP"
proof -
  assume "va < UTOP"
  then have "unat va < 2134900736" by (simp add: word_less_nat_alt)
  then have "unat va div 4096 * 4096 < 2134900736" using div_times_less_eq_dividend[of "unat va" 4096] by linarith
  then show ?thesis by (simp add: word_less_nat_alt unat_PTE_ADDR PPN_eq)
qed

lemma PTE_ADDR_idem [simp]: "PTE_ADDR (PTE_ADDR va) = PTE_ADDR va"
  by (simp add: word_unat_eq_iff unat_PTE_ADDR)

lemma passive_alloc_ok:
  assumes inv: "pmap_inv D base s" and d: "d \<in> D" and va: "demand_va va" and free: "2 \<le> length (page_free_list s)"
  shows "\<exists>s' q. passive_alloc va d asid s = Ret s' \<and> pmap_inv D base s' \<and> npage s' = npage s
     \<and> pmap_state.more s' = pmap_state.more s
     \<and> (\<forall>p. user_page D base s p \<longrightarrow> frames s' p = frames s p)
     \<and> q \<in> set (page_free_list s) \<and> frames s' q = (\<lambda>_. 0)
     \<and> vmap_updated D d va (Some (page2pa q OR PTE_D OR PTE_V)) s s'
     \<and> tlb s' = (tlb s)(entry_hi va asid := None)"
proof -
  have vau: "va < UTOP" "PTE_ADDR va < UTOP" using va PTE_ADDR_user by (auto simp: demand_va_def)
  have nle: "\<not> ULIM \<le> va" "\<not> UENVS \<le> va" "\<not> UPAGES \<le> va"
    using vau(1) by (simp_all add: word_le_nat_alt word_less_nat_alt)
  obtain r s1 where a: "page_alloc s = Ret (r, s1)" using page_alloc_ok[OF inv] by (auto simp: returns_iff)
  then obtain q where r: "r = Inr q" using page_alloc_ok[OF inv] free by (cases r) auto
  have s1: "pmap_step D base s s1" "same_vmap D s s1" "user_page D base s1 q" "pp_ref s1 q = 0" "frames s1 q = (\<lambda>_. 0)"
    "page_free_list s = q # page_free_list s1" "\<forall>p. user_page D base s p \<longrightarrow> user_page D base s1 p"
    using page_alloc_ok[OF inv] unfolding a r by simp_all metis
  have inv1: "pmap_inv D base s1" "unat (pp_ref s1 q) < 65535" using s1 by (simp_all add: pmap_step_def)
  obtain r2 s2 where ins: "page_insert d asid q (PTE_ADDR va) PTE_D s1 = Ret (r2, s2)"
    and post: "insert_post D base d q (PTE_ADDR va) PTE_D s1 (r2, s2)"
    using page_insert_ok[OF inv1(1) d vau(2) s1(3) inv1(2), of PTE_D asid] by (auto simp: returns_iff)
  have r2: "r2 = Inr ()" using post s1(6) free by (cases r2) (auto simp: insert_post_def)
  have st: "pmap_step D base s1 s2" and upd: "vmap_updated D d (PTE_ADDR va) (Some (page2pa q OR PTE_D OR PTE_V)) s1 s2"
    using post by (simp_all add: insert_post_def r2)
  have "passive_alloc va d asid s = Ret s2"
    using va nle ins by (auto simp: passive_alloc_def demand_va_def a r r2)
  moreover have "tlb s2 = (tlb s)(entry_hi va asid := None)"
    using page_insert_tlb[OF ins] page_alloc_tlb[OF a] by simp
  moreover have "vmap_updated D d va (Some (page2pa q OR PTE_D OR PTE_V)) s s2"
    using upd s1(2) by (simp add: vmap_updated_def same_vmap_def)
  ultimately show ?thesis using st s1 by (auto simp: pmap_step_def intro!: exI[of _ q])
qed

lemma refill_hit:
  assumes "pmap_inv D base s" "cur_pgdir s \<in> D" "va < UTOP" "vmap s (cur_pgdir s) va = Some e"
  shows "do_tlb_refill_loop (Suc n) va asid s = Ret (e, s)"
proof -
  have "peek s (PPN (frames s (cur_pgdir s) (PDX va)), PTX va) = e"
    using assms(4) by (auto simp: vmap_def peek_def split: if_splits)
  then show ?thesis using page_lookup_eq[OF assms(1,2) PDX_user[OF assms(3)]] assms(4) by simp
qed

lemma refill_ok:
  assumes inv: "pmap_inv D base s" and d: "cur_pgdir s \<in> D" and va: "va < UTOP"
    and ok: "vmap s (cur_pgdir s) va = None \<longrightarrow> demand_va va \<and> 2 \<le> length (page_free_list s)"
  shows "\<exists>e s'. do_tlb_refill_loop (Suc (Suc n)) va asid s = Ret (e, s') \<and> pmap_inv D base s' \<and> npage s' = npage s
     \<and> pmap_state.more s' = pmap_state.more s \<and> vmap s' (cur_pgdir s') va = Some e
     \<and> (\<forall>p. user_page D base s p \<longrightarrow> frames s' p = frames s p)
     \<and> vmap_updated D (cur_pgdir s) va (Some e) s s'
     \<and> (tlb s' = tlb s \<or> tlb s' = (tlb s)(entry_hi va asid := None))
     \<and> (vmap s (cur_pgdir s) va = None \<longrightarrow> e AND PTE_D \<noteq> 0)"
proof (cases "vmap s (cur_pgdir s) va")
  case (Some e)
  then have "vmap_updated D (cur_pgdir s) va (Some e) s s"
    by (auto simp: vmap_updated_def vmap_def VPN_eq_iff split: if_splits)
  then show ?thesis using refill_hit[OF inv d va Some, of "Suc n" asid] inv Some by auto
next
  case None
  obtain s1 q where s1: "passive_alloc va (cur_pgdir s) asid s = Ret s1" "pmap_inv D base s1" "npage s1 = npage s"
     "pmap_state.more s1 = pmap_state.more s" "\<forall>p. user_page D base s p \<longrightarrow> frames s1 p = frames s p"
     "vmap_updated D (cur_pgdir s) va (Some (page2pa q OR PTE_D OR PTE_V)) s s1"
     "tlb s1 = (tlb s)(entry_hi va asid := None)"
    using passive_alloc_ok[OF inv d] ok None by blast
  have cur: "cur_pgdir s1 = cur_pgdir s" using more_kfields(9)[OF s1(4)] .
  have v1: "vmap s1 (cur_pgdir s1) va = Some (page2pa q OR PTE_D OR PTE_V)"
    using s1(6) d va cur by (simp add: vmap_updated_def)
  have dirty: "(page2pa q OR PTE_D OR PTE_V) AND PTE_D \<noteq> 0"
  proof
    assume "(page2pa q OR PTE_D OR PTE_V) AND PTE_D = 0"
    then have "\<not> bit ((page2pa q OR PTE_D OR PTE_V) AND PTE_D) 10" by simp
    then show False by (simp add: bit_simps)
  qed
  have "do_tlb_refill_loop (Suc (Suc n)) va asid s = do_tlb_refill_loop (Suc n) va asid s1"
    using page_lookup_eq[OF inv d PDX_user[OF va]] None s1(1) by simp
  then show ?thesis using refill_hit[OF s1(2) _ va v1, of n asid] d cur s1 v1 dirty by auto
qed

text \<open>An EntryHi value determines the ASID, of six bits, and the virtual page.\<close>

lemma entry_hi_inj:
  assumes "a < 64" "a' < 64" "entry_hi va a = entry_hi va' a'"
  shows "a = a'" "VPN va = VPN va'"
proof -
  have self: "take_bit 6 x = x" if "x < 64" for x :: u32
    using that by (simp add: word_unat_eq_iff unsigned_take_bit_eq take_bit_nat_eq_self word_less_nat_alt)
  have small: "push_bit 6 x < (4096 :: u32)" if "x < 64" for x
    using that by (simp add: push_bit_eq_mult word_less_nat_alt unat_word_ariths)
  have "VPN (entry_hi va a) = VPN va" "VPN (entry_hi va' a') = VPN va'"
    using assms(1,2) small by simp_all
  then show "VPN va = VPN va'" using assms(3) by simp
  have low: "take_bit 12 (entry_hi va x) = push_bit 6 x" if "x < 64" for va x
    using self[OF that] by (simp add: PTE_ADDR_eq take_bit_push_bit)
  have "push_bit 6 a = push_bit 6 a'" using low assms by metis
  then have "drop_bit 6 (push_bit 6 a) = drop_bit 6 (push_bit 6 a')" by simp
  moreover have "drop_bit 6 (push_bit 6 x) = x" if "x < 64" for x :: u32
    using that by (simp add: push_bit_eq_mult drop_bit_eq_div word_unat_eq_iff unat_div unat_word_ariths word_less_nat_alt)
  ultimately show "a = a'" using assms by simp
qed

lemma vmap_VPN: "VPN va = VPN va' \<Longrightarrow> vmap s d va = vmap s d va'"
  by (simp add: vmap_def VPN_eq_iff)

lemma vmap_updated_cong: "vmap_updated D d va e s s' \<Longrightarrow> vmap s'' = vmap s' \<Longrightarrow> vmap_updated D d va e s s''"
  by (simp only: vmap_updated_def)

lemma tlb_coherent_hit:
  assumes "tlb_coherent A s" "\<forall>a\<in>dom A. a < 64" "A asid = Some d" "vmap s d va = Some e"
    and "tlb s' = (tlb s)(entry_hi va asid \<mapsto> e)" "vmap s' = vmap s"
  shows "tlb_coherent A s'"
  unfolding tlb_coherent_def
proof (intro allI impI)
  fix a d' va' lo
  assume a: "A a = Some d'" "va' < UTOP" "tlb s' (entry_hi va' a) = Some lo"
  show "vmap s' d' va' = Some lo"
  proof (cases "entry_hi va' a = entry_hi va asid")
    case True
    have "a < 64" "asid < 64" using assms(2,3) a(1) by auto
    from entry_hi_inj[OF this True] have eq: "a = asid" "VPN va' = VPN va" by simp_all
    then show ?thesis using a True assms(3,4,5,6) vmap_VPN[of va' va s d] by simp
  next
    case False
    then show ?thesis using a assms(1,5,6) by (auto simp: tlb_coherent_def)
  qed
qed

section \<open>Properties\<close>

text \<open>
  C18. The refill loop of \<open>_do_tlb_refill\<close> ends after at most two iterations (any fuel of at least two
  gives the same): for an address below \<open>UTOP\<close> that is mapped, or that may be allocated on demand while
  two frames are free, it returns the page table entry that the current page table now holds for it.
  The memory invariant is kept, a page allocated on demand is writable, no other translation of this or
  any other address space changes, and no user page changes its contents.
\<close>

theorem tlb_refill_correct:
  assumes "pmap_inv D base s" and "cur_pgdir s \<in> D" and "va < UTOP"
    and "vmap s (cur_pgdir s) va = None \<longrightarrow> demand_va va \<and> 2 \<le> length (page_free_list s)" and "2 \<le> fuel"
  shows "returns (\<lambda>(e, s'). pmap_inv D base s' \<and> vmap s' (cur_pgdir s') va = Some e
      \<and> (vmap s (cur_pgdir s) va = None \<longrightarrow> e AND PTE_D \<noteq> 0)
      \<and> (\<forall>p. user_page D base s p \<longrightarrow> frames s' p = frames s p)
      \<and> (\<forall>d'\<in>D. \<forall>va'<UTOP. \<not> (d' = cur_pgdir s \<and> VPN va' = VPN va) \<longrightarrow> vmap s' d' va' = vmap s d' va'))
    (do_tlb_refill_loop fuel va asid s)"
proof -
  obtain n where fuel: "fuel = Suc (Suc n)" using assms(5) by (cases fuel; cases "fuel - 1") auto
  obtain e s' where "do_tlb_refill_loop (Suc (Suc n)) va asid s = Ret (e, s')" "pmap_inv D base s'"
     "vmap s' (cur_pgdir s') va = Some e" "\<forall>p. user_page D base s p \<longrightarrow> frames s' p = frames s p"
     "vmap_updated D (cur_pgdir s) va (Some e) s s'" "vmap s (cur_pgdir s) va = None \<longrightarrow> e AND PTE_D \<noteq> 0"
    using refill_ok[OF assms(1-4), of n asid] by (elim exE conjE) (rule that; assumption)
  then show ?thesis unfolding fuel vmap_updated_def by (simp del: do_tlb_refill_loop.simps)
qed

theorem tlb_refill_correct_witness:
  "returns (\<lambda>(e, s'). vmap s' (cur_pgdir s') 0x400000 = Some e \<and> e AND PTE_D \<noteq> 0)
     (do_tlb_refill_loop 2 0x400000 5 demo_kernel)"
proof -
  have none: "vmap demo_kernel 1 0x400000 = None" by (simp add: vmap_def demo_pmap_def)
  have "returns (\<lambda>(e, s'). pmap_inv {1} demo_base s' \<and> vmap s' (cur_pgdir s') 0x400000 = Some e
      \<and> (vmap demo_kernel (cur_pgdir demo_kernel) 0x400000 = None \<longrightarrow> e AND PTE_D \<noteq> 0)
      \<and> (\<forall>p. user_page {1} demo_base demo_kernel p \<longrightarrow> frames s' p = frames demo_kernel p)
      \<and> (\<forall>d'\<in>{1}. \<forall>va'<UTOP. \<not> (d' = cur_pgdir demo_kernel \<and> VPN va' = VPN 0x400000) \<longrightarrow> vmap s' d' va' = vmap demo_kernel d' va'))
    (do_tlb_refill_loop 2 0x400000 5 demo_kernel)"
    by (rule tlb_refill_correct[OF demo_kernel_inv]) (simp_all add: demand_va_def)
  then show ?thesis by (rule returns_mono2) (use none in auto)
qed

text \<open>
  The refill handler keeps the TLB coherent: if every TLB entry of a live ASID agrees with that
  address space's page table, the same holds after the handler has written its result into the TLB.
\<close>

theorem tlb_refill_coherent:
  assumes "pmap_inv D base s" and "cur_pgdir s \<in> D" and "va < UTOP"
    and "vmap s (cur_pgdir s) va = None \<longrightarrow> demand_va va \<and> 2 \<le> length (page_free_list s)"
    and "tlb_coherent A s" and "inj_on A (dom A)" and "\<forall>a\<in>dom A. a < 64"
    and "A (snd (cpu s) AND 63) = Some (cur_pgdir s)" and "ran A \<subseteq> D"
  shows "returns (\<lambda>(e, s'). tlb_coherent A s' \<and> tlb s' (entry_hi va (snd (cpu s) AND 63)) = Some e) (do_tlb_refill va s)"
proof -
  let ?a = "snd (cpu s) AND 63"
  obtain e s1 where s1: "do_tlb_refill_loop (Suc (Suc 0)) va ?a s = Ret (e, s1)" "pmap_state.more s1 = pmap_state.more s"
     "vmap s1 (cur_pgdir s1) va = Some e" "vmap_updated D (cur_pgdir s) va (Some e) s s1"
     "tlb s1 = tlb s \<or> tlb s1 = (tlb s)(entry_hi va ?a := None)"
    using refill_ok[OF assms(1-4), of 0 ?a] by (elim exE conjE) (rule that; assumption)
  have c: "cur_pgdir s1 = cur_pgdir s" using more_kfields(9)[OF s1(2)] .
  let ?t = "s1\<lparr>tlb := (tlb s)(entry_hi va ?a := None)\<rparr>"
  have vt: "vmap ?t = vmap s1" by (rule vmap_frames) simp_all
  have vt': "vmap (s1\<lparr>tlb := (tlb s1)(entry_hi va ?a \<mapsto> e)\<rparr>) = vmap s1" by (rule vmap_frames) simp_all
  have "tlb_coherent A ?t"
    by (rule tlb_coherent_update[OF assms(5,6,8,9) _ vmap_updated_cong[OF s1(4) vt]]) simp
  then have "tlb_coherent A (s1\<lparr>tlb := (tlb s1)(entry_hi va ?a \<mapsto> e)\<rparr>)"
    by (rule tlb_coherent_hit[OF _ assms(7,8), where va = va and e = e])
       (use s1(3,5) c vt vt' in auto)
  moreover have "do_tlb_refill_c va ?a s = Ret (e, s1)"
    using s1(1) unfolding do_tlb_refill_c_def numeral_2_eq_2 .
  ultimately show ?thesis by (simp add: do_tlb_refill_def Let_def)
qed

theorem tlb_refill_coherent_witness:
  "returns (\<lambda>(e, s'). tlb_coherent [5 \<mapsto> 1] s') (do_tlb_refill 0x400000 demo_kernel)"
proof -
  have coh: "tlb_coherent [5 \<mapsto> 1] demo_kernel" by (simp add: tlb_coherent_def)
  have cpu: "snd (cpu demo_kernel) AND 63 = 5"
    by (simp add: demo_kernel_def pmap_state.defs kstate.defs)
  have "returns (\<lambda>(e, s'). tlb_coherent [5 \<mapsto> 1] s' \<and> tlb s' (entry_hi 0x400000 (snd (cpu demo_kernel) AND 63)) = Some e)
      (do_tlb_refill 0x400000 demo_kernel)"
    by (rule tlb_refill_coherent[OF demo_kernel_inv]) (use coh cpu in \<open>simp_all add: demand_va_def\<close>)
  then show ?thesis by (rule returns_mono2) simp
qed

text \<open>
  The window at \<open>UVPT\<close> is not read-only: the entry that \<open>pgdir_walk\<close> installs for a new page table
  carries \<open>PTE_D\<close>, and through the self map of the directory it is also the entry of the table's own page
  in the window, so user code may write its page tables.
\<close>

theorem uvpt_window_writable:
  assumes "pmap_inv D base s" and "d \<in> D" and "va < UTOP" and "frames s d (PDX UVPT) = page2pa d OR PTE_V"
    and "\<not> pte_valid (frames s d (PDX va))" and "page_free_list s = q # fl"
  shows "returns (\<lambda>(r, s'). \<exists>e. vmap s' d (UVPT OR push_bit PGSHIFT (of_nat (PDX va))) = Some e \<and> PPN e = q \<and> e AND PTE_D \<noteq> 0)
    (pgdir_walk d va True s)"
proof -
  define i where "i = PDX va"
  define v where "v = (page2pa q AND 0xfffff000) OR PTE_V OR PTE_D"
  define s1 where "s1 = s\<lparr>page_free_list := fl, frames := (frames s)(q := (\<lambda>_. 0))\<rparr>"
  define s2 where "s2 = incr_ref q (poke (d, i) v s1)"
  have i: "i < NUPDE" using PDX_user[OF assms(3)] unfolding i_def .
  have qd: "q \<noteq> d" "q < npage s" "d < npage s" "npage s \<le> 524288"
    using free_unreferenced[OF assms(1), of q] unreferenced(4)[OF assms(1), of q] assms(2,6)
      tables_okD(2)[OF pmap_invD(2)[OF assms(1)] assms(2)] pmap_invD(1)[OF assms(1)]
    by (auto simp: free_list_ok_def)
  have alloc: "page_alloc s = Ret (Inr q, s1)"
    using page_alloc_cases[OF pmap_invD(1)[OF assms(1)]] assms(6) unfolding s1_def by (metis list.distinct(1) list.inject)
  have v: "PPN v = q" "pte_valid v" "v AND PTE_D \<noteq> 0"
  proof -
    show "PPN v = q" "pte_valid v" using new_pde[of q] qd unfolding v_def by auto
    have "(x OR y) AND y = y" for x y :: u32 by (simp add: bit.conj_disj_distrib2 word_bw_comms word_ao_absorbs)
    from this[of "(page2pa q AND 0xfffff000) OR PTE_V" PTE_D] show "v AND PTE_D \<noteq> 0"
      unfolding v_def or.assoc by simp
  qed
  have s2: "frames s2 d = (frames s d)(i := v)" "npage s2 = npage s"
    using qd(1) unfolding s2_def s1_def incr_ref_def by (simp_all add: frames_poke)
  have run: "pgdir_walk d va True s = Ret (Inr (Some (q, PTX va)), s2)"
  proof -
    have "page2pa q AND 0xfffff000 OR 0x600 = v" by (simp add: v_def)
    then show ?thesis using assms(5) alloc v(1) qd s2
      unfolding pgdir_walk_def i_def[symmetric]
      by (simp add: Let_def peek_def KADDR_def s2_def)
  qed
  define w where "w = UVPT OR push_bit PGSHIFT (of_nat i)"
  have "w = va_of 511 i" by (simp add: or.assoc w_def)
  then have w: "PDX w = 511" "PTX w = i" using va_of_simps[of 511 i] i by simp_all
  have fr: "frames s2 d 511 = page2pa d OR PTE_V" "frames s2 d i = v"
    using assms(4) i unfolding s2(1) by (simp_all add: PDX_eq)
  have "PPN (page2pa d OR PTE_V) = d" "pte_valid (page2pa d OR PTE_V)" using qd by simp_all
  then have "vmap s2 d w = Some v"
    unfolding vmap_def w fr Let_def using v(2) fr(2) by simp
  with run v show ?thesis unfolding i_def[symmetric] w_def by simp
qed

text \<open>The small machine with the self map in place.\<close>

definition demo_vpt :: pmap_state where
  "demo_vpt = poke (1, 511) (page2pa 1 OR PTE_V) demo_pmap"

lemma demo_vpt_inv: "pmap_inv {1} demo_base demo_vpt"
proof (rule same_tables_inv[of "{1}" demo_pmap])
  show "same_tables {1} demo_pmap demo_vpt"
    by (simp add: same_tables_def demo_vpt_def frames_poke demo_pmap_def)
qed (use demo_pmap_inv in \<open>simp_all add: demo_vpt_def demo_pmap_def\<close>)

theorem uvpt_window_writable_witness:
  "returns (\<lambda>(r, s'). \<exists>e. vmap s' 1 (UVPT OR push_bit PGSHIFT (of_nat (PDX 0x400000))) = Some e \<and> PPN e = 3 \<and> e AND PTE_D \<noteq> 0)
     (pgdir_walk 1 0x400000 True demo_vpt)"
proof (rule uvpt_window_writable[OF demo_vpt_inv])
  show "frames demo_vpt 1 (PDX UVPT) = page2pa 1 OR PTE_V" by (simp add: demo_vpt_def frames_poke PDX_eq)
  show "\<not> pte_valid (frames demo_vpt 1 (PDX 0x400000))" by (simp add: demo_vpt_def frames_poke PDX_eq demo_pmap_def)
  show "page_free_list demo_vpt = 3 # [4..<16]" by (simp add: demo_vpt_def demo_pmap_def)
qed simp_all

end
