(* ===== verification/Mos_Kernel.thy ===== *)
theory Mos_Kernel
  imports Mos_Trap
begin

text \<open>
  The invariant of the kernel state that ties memory, environments, ASIDs and queues together, and its
  preservation by the operations of \<open>kern/env.c\<close> and \<open>kern/sched.c\<close>. \<open>K\<close> counts, for every frame, the
  references the kernel holds besides the environments' address spaces (the template directory
  \<open>base_pgdir\<close> and its page tables).
\<close>

section \<open>The invariant\<close>

definition live :: "'a kstate_scheme \<Rightarrow> nat \<Rightarrow> bool" where
  "live s e \<longleftrightarrow> e < NENV \<and> env_status (envs s e) \<noteq> ENV_FREE"

definition dirs :: "'a kstate_scheme \<Rightarrow> nat set" where
  "dirs s = (\<lambda>e. env_pgdir (envs s e)) ` {e. live s e}"

definition kbase :: "(nat \<Rightarrow> nat) \<Rightarrow> 'a kstate_scheme \<Rightarrow> nat \<Rightarrow> nat" where
  "kbase K s d = (if d \<in> dirs s then 1 else K d)"

definition kenvs_ok :: "(nat \<Rightarrow> nat) \<Rightarrow> 'a kstate_scheme \<Rightarrow> bool" where
  "kenvs_ok K s \<longleftrightarrow>
     (\<forall>e. live s e \<longrightarrow> unat (env_asid (envs s e)) < NASID \<and> ENVX (env_id (envs s e)) = e \<and> K (env_pgdir (envs s e)) = 0
        \<and> env_status (envs s e) \<in> {ENV_RUNNABLE, ENV_NOT_RUNNABLE})
   \<and> inj_on (\<lambda>e. env_pgdir (envs s e)) {e. live s e} \<and> inj_on (\<lambda>e. env_asid (envs s e)) {e. live s e}
   \<and> (\<forall>a<NASID. asid_used s a \<longleftrightarrow> (\<exists>e. live s e \<and> unat (env_asid (envs s e)) = a))
   \<and> distinct (env_free_list s) \<and> (\<forall>e. e \<in> set (env_free_list s) \<longleftrightarrow> e < NENV \<and> env_status (envs s e) = ENV_FREE)
   \<and> runq_ok s \<and> 0 < K (base_pgdir s)"

definition kcur_ok :: "'a kstate_scheme \<Rightarrow> bool" where
  "kcur_ok s \<longleftrightarrow> (case curenv s of None \<Rightarrow> True | Some c \<Rightarrow>
     live s c \<and> cur_pgdir s = env_pgdir (envs s c) \<and> snd (cpu s) = env_asid (envs s c))"

definition kinv0 :: "(nat \<Rightarrow> nat) \<Rightarrow> 'a kstate_scheme \<Rightarrow> bool" where
  "kinv0 K s \<longleftrightarrow> pmap_inv (dirs s) (kbase K s) s \<and> kenvs_ok K s"

definition kinv :: "(nat \<Rightarrow> nat) \<Rightarrow> 'a kstate_scheme \<Rightarrow> bool" where
  "kinv K s \<longleftrightarrow> kinv0 K s \<and> kcur_ok s"

lemma kinvD:
  assumes "kinv K s"
  shows "pmap_inv (dirs s) (kbase K s) s" "kenvs_ok K s" "kcur_ok s" "kinv0 K s"
  using assms by (simp_all add: kinv_def kinv0_def)

lemma live_dirs: "live s e \<Longrightarrow> env_pgdir (envs s e) \<in> dirs s"
  by (auto simp: dirs_def)

lemma kinv_runq: "kinv0 K s \<Longrightarrow> runq_ok s"
  by (simp add: kinv0_def kenvs_ok_def)

lemma kbase_dirs [simp]: "d \<in> dirs s \<Longrightarrow> kbase K s d = 1"
  by (simp add: kbase_def)

lemma base_pgdir_kept:
  assumes "kinv0 K s"
  shows "base_pgdir s \<notin> set (page_free_list s)" "base_pgdir s \<notin> dirs s"
proof -
  show d: "base_pgdir s \<notin> dirs s" using assms by (auto simp: kinv0_def kenvs_ok_def dirs_def)
  have inv: "pmap_inv (dirs s) (kbase K s) s" using assms by (simp add: kinv0_def)
  show "base_pgdir s \<notin> set (page_free_list s)"
  proof
    assume "base_pgdir s \<in> set (page_free_list s)"
    then have "kbase K s (base_pgdir s) = 0" using unreferenced(3)[OF inv] free_unreferenced[OF inv] by blast
    then show False using d assms by (simp add: kbase_def kinv0_def kenvs_ok_def)
  qed
qed

section \<open>Frame rules\<close>

text \<open>The fields of an environment that the invariant reads.\<close>

definition env_key :: "env \<Rightarrow> u32 \<times> u32 \<times> nat \<times> u32" where
  "env_key v = (env_id v, env_asid v, env_pgdir v, env_status v)"

definition kview where
  "kview s = (mem_of s, (\<lambda>e. env_key (envs s e)), env_free_list s, env_sched_list s, base_pgdir s, asid_bitmap s)"

lemma kview_eq:
  assumes "kview s' = kview s"
  shows "live s' = live s" "dirs s' = dirs s" "kbase K s' = kbase K s" "runq_ok s' = runq_ok s"
    "kenvs_ok K s' = kenvs_ok K s" "kinv0 K s' = kinv0 K s"
proof -
  have k: "env_id (envs s' e) = env_id (envs s e)" "env_asid (envs s' e) = env_asid (envs s e)"
    "env_pgdir (envs s' e) = env_pgdir (envs s e)" "env_status (envs s' e) = env_status (envs s e)" for e
    using assms by (simp_all add: kview_def env_key_def fun_eq_iff)
  have f: "mem_of s' = mem_of s" "env_free_list s' = env_free_list s" "env_sched_list s' = env_sched_list s"
    "base_pgdir s' = base_pgdir s" "asid_bitmap s' = asid_bitmap s"
    using assms by (simp_all add: kview_def)
  show l: "live s' = live s" by (simp add: live_def fun_eq_iff k)
  show d: "dirs s' = dirs s" by (simp add: dirs_def l k)
  show b: "kbase K s' = kbase K s" for K by (simp add: kbase_def d fun_eq_iff)
  show q: "runq_ok s' = runq_ok s" by (simp add: runq_ok_def f k)
  have a: "asid_used s' = asid_used s" by (simp add: asid_used_def f fun_eq_iff)
  show e: "kenvs_ok K s' = kenvs_ok K s" by (simp only: kenvs_ok_def l k f q a)
  show "kinv0 K s' = kinv0 K s" by (simp only: kinv0_def e d b mem_of_eq(4)[OF f(1)])
qed

lemma kinv_frame:
  assumes "kinv K s" "kview s' = kview s" "curenv s' = curenv s" "cur_pgdir s' = cur_pgdir s" "cpu s' = cpu s"
  shows "kinv K s'"
proof -
  have "env_key (envs s' e) = env_key (envs s e)" for e using assms(2) by (simp add: kview_def fun_eq_iff)
  then have "env_pgdir (envs s' e) = env_pgdir (envs s e)" "env_asid (envs s' e) = env_asid (envs s e)" for e
    by (simp_all add: env_key_def)
  then have "kcur_ok s' = kcur_ok s" using kview_eq(1)[OF assms(2)] assms(3-5) by (simp add: kcur_ok_def cong: option.case_cong)
  then show ?thesis using assms(1) kview_eq(6)[OF assms(2)] by (simp add: kinv_def)
qed

text \<open>A memory operation keeps the invariant if it keeps the memory part.\<close>

lemma mem_step_same:
  assumes "pmap_state.more s' = pmap_state.more s"
  shows "live s' = live s" "dirs s' = dirs s" "kbase K s' = kbase K s" "kenvs_ok K s' = kenvs_ok K s" "kcur_ok s' = kcur_ok s"
proof -
  note f = more_kfields[OF assms]
  show l: "live s' = live s" by (simp add: live_def fun_eq_iff f)
  show d: "dirs s' = dirs s" by (simp add: dirs_def l f)
  show "kbase K s' = kbase K s" by (simp add: kbase_def d fun_eq_iff)
  have "asid_used s' = asid_used s" "runq_ok s' = runq_ok s" by (simp_all add: asid_used_def runq_ok_def f fun_eq_iff)
  then show "kenvs_ok K s' = kenvs_ok K s" by (simp only: kenvs_ok_def l f)
  show "kcur_ok s' = kcur_ok s" by (simp only: kcur_ok_def l f)
qed

lemma kinv_mem:
  assumes "kinv K s" "pmap_state.more s' = pmap_state.more s" "pmap_inv (dirs s) (kbase K s) s'"
  shows "kinv K s'"
  using assms(1,3) by (simp only: kinv_def kinv0_def mem_step_same[OF assms(2)])

lemma kinv_step: "kinv K s \<Longrightarrow> pmap_step (dirs s) (kbase K s) s s' \<Longrightarrow> kinv K s'"
  using kinv_mem[of K s s'] by (simp add: pmap_step_def)

section \<open>Environments come and go\<close>

text \<open>Changing the status of a live environment, with the run queue.\<close>

lemma kinv0_status:
  assumes inv: "kinv0 K s" and e: "live s e" and st: "st \<in> {ENV_RUNNABLE, ENV_NOT_RUNNABLE}"
    and q: "distinct q" "\<forall>x. x \<in> set q \<longleftrightarrow> (if x = e then st = ENV_RUNNABLE else x \<in> set (env_sched_list s))"
  shows "kinv0 K (upd_env e (\<lambda>v. v\<lparr>env_status := st\<rparr>) (s\<lparr>env_sched_list := q\<rparr>))"
proof -
  let ?s = "upd_env e (\<lambda>v. v\<lparr>env_status := st\<rparr>) (s\<lparr>env_sched_list := q\<rparr>)"
  have st': "env_status (envs ?s x) = (if x = e then st else env_status (envs s x))"
    and k: "env_pgdir (envs ?s x) = env_pgdir (envs s x)" "env_asid (envs ?s x) = env_asid (envs s x)"
      "env_id (envs ?s x) = env_id (envs s x)" for x
    by simp_all
  have l: "live ?s = live s" using e st unfolding live_def st' by (auto simp: fun_eq_iff)
  have d: "dirs ?s = dirs s" by (simp only: dirs_def l k)
  have b: "kbase K ?s = kbase K s" by (simp add: kbase_def d fun_eq_iff)
  have "mem_of ?s = mem_of s" by (simp add: mem_of_def)
  note m = mem_of_eq(4)[OF this]
  have a: "asid_used ?s = asid_used s" by (simp add: asid_used_def fun_eq_iff)
  have rq: "runq_ok ?s"
    using q kinv_runq[OF inv] e unfolding runq_ok_def st' by (auto simp: live_def)
  have fl: "env_free_list ?s = env_free_list s" "base_pgdir ?s = base_pgdir s" by simp_all
  have fr: "env_status (envs ?s x) = ENV_FREE \<longleftrightarrow> env_status (envs s x) = ENV_FREE" for x
    using e st unfolding st' by (auto simp: live_def)
  have "\<forall>x. live s x \<longrightarrow> unat (env_asid (envs s x)) < NASID \<and> ENVX (env_id (envs s x)) = x \<and> K (env_pgdir (envs s x)) = 0
        \<and> env_status (envs ?s x) \<in> {ENV_RUNNABLE, ENV_NOT_RUNNABLE}"
    using inv st unfolding st' kinv0_def kenvs_ok_def by simp
  then show ?thesis
    using inv rq unfolding kinv0_def d b m kenvs_ok_def l k a fl fr by blast
qed

lemma env_key_fresh: "env_key (fresh_env p envid asid parent_id v) = (envid, asid, p, env_status v)"
  by (simp add: env_key_def fresh_env_def)

lemma ENVX_mkenvid: "e < NENV \<Longrightarrow> ENVX (push_bit 11 i OR of_nat e) = e"
proof -
  assume e: "e < NENV"
  have m: "x AND 0x3FF = take_bit 10 x" for x :: u32 by (simp add: take_bit_eq_mask mask_eq_exp_minus_1)
  have "take_bit 10 (push_bit 11 i :: u32) = 0" by (simp only: take_bit_push_bit) simp
  then have "ENVX (push_bit 11 i OR of_nat e) = unat (take_bit 10 (of_nat e :: u32))"
    unfolding ENVX_def m take_bit_or by simp
  also have "\<dots> = e" using e unfolding unsigned_take_bit_eq unsigned_of_nat by (simp add: take_bit_eq_mod)
  finally show ?thesis .
qed

text \<open>\<open>schedule\<close> keeps the invariant and makes the current environment well defined.\<close>

lemma kinv_schedule:
  assumes inv: "kinv0 K s" and cur: "cur_ok s" and ne: "env_sched_list s \<noteq> []"
  shows "returns (kinv K) (schedule yield s)"
proof -
  obtain e q n where run: "schedule yield s = Ret (s\<lparr>env_sched_list := q, sched_count := n, curenv := Some e, envs := switched_envs e s,
      cur_pgdir := env_pgdir (envs s e), cpu := (env_tf (switched_envs e s e), env_asid (envs s e))\<rparr>)" (is "_ = Ret ?s")
    and q: "e \<in> set q" "set q = set (env_sched_list s)" "distinct q"
    using schedule_ok[OF kinv_runq[OF inv] cur ne, of yield] by (elim exE conjE) (rule that; assumption)
  have e: "e < NENV" "env_status (envs s e) = ENV_RUNNABLE" using q kinv_runq[OF inv] by (auto simp: runq_ok_def)
  let ?q = "s\<lparr>env_sched_list := q\<rparr>"
  have "kinv0 K (upd_env e (\<lambda>v. v\<lparr>env_status := ENV_RUNNABLE\<rparr>) ?q)"
    by (rule kinv0_status[OF inv]) (use q e in \<open>auto simp: live_def\<close>)
  moreover have "kview ?s = kview (upd_env e (\<lambda>v. v\<lparr>env_status := ENV_RUNNABLE\<rparr>) ?q)"
    using e by (simp add: kview_def mem_of_def env_key_def fun_eq_iff)
  ultimately have "kinv0 K ?s" using kview_eq(6) by blast
  moreover have "kcur_ok ?s" using e by (simp add: kcur_ok_def live_def)
  ultimately show ?thesis by (simp add: run kinv_def)
qed

text \<open>
  A fresh environment, once its status is set, joins the invariant. \<open>env_alloc\<close> itself leaves the
  status alone, so the statement is about the state after its callers have set it.
\<close>

lemma kinv0_add:
  assumes inv: "kinv0 K s" and e: "env_free_list s = e # fl" and p: "p \<notin> dirs s" "kbase K s p = 0"
    and mem: "pmap_inv (insert p (dirs s)) ((kbase K s)(p := 1)) s'"
    and a: "unat asid < NASID" "\<not> asid_used s (unat asid)" "asid_used s' = (asid_used s)(unat asid := True)"
    and s': "env_free_list s' = fl" "env_sched_list s' = env_sched_list s" "base_pgdir s' = base_pgdir s"
    and k: "\<forall>x. env_key (envs s' x) = (if x = e then (push_bit 11 i OR of_nat e, asid, p, ENV_NOT_RUNNABLE) else env_key (envs s x))"
  shows "kinv0 K s'"
proof -
  have ok: "kenvs_ok K s" using inv by (simp add: kinv0_def)
  then have fe: "e < NENV" "env_status (envs s e) = ENV_FREE" "e \<notin> set fl" "distinct fl"
    using e by (auto simp: kenvs_ok_def)
  have ke: "env_id (envs s' e) = push_bit 11 i OR of_nat e" "env_asid (envs s' e) = asid" "env_pgdir (envs s' e) = p"
    "env_status (envs s' e) = ENV_NOT_RUNNABLE"
    using k[rule_format, of e] by (simp_all add: env_key_def)
  have kx: "env_id (envs s' x) = env_id (envs s x)" "env_asid (envs s' x) = env_asid (envs s x)"
    "env_pgdir (envs s' x) = env_pgdir (envs s x)" "env_status (envs s' x) = env_status (envs s x)" if "x \<noteq> e" for x
    using k[rule_format, of x] that by (simp_all add: env_key_def)
  have nl: "\<not> live s e" using fe by (simp add: live_def)
  have l: "live s' x \<longleftrightarrow> x = e \<or> live s x" for x
    using fe ke(4) kx(4)[of x] by (cases "x = e") (simp_all add: live_def)
  have lS: "{x. live s' x} = insert e {x. live s x}" using l by auto
  have d: "dirs s' = insert p (dirs s)"
    unfolding dirs_def lS using nl ke(3) kx(3) by (auto simp: image_iff) metis+
  have b: "kbase K s' = (kbase K s)(p := 1)" using p by (auto simp: kbase_def d fun_eq_iff)
  have Kp: "K p = 0" using p by (simp add: kbase_def)
  have old: "live s x \<Longrightarrow> x \<noteq> e \<and> env_pgdir (envs s x) \<noteq> p \<and> env_asid (envs s x) \<noteq> asid" for x
    using nl p(1) a(2) live_dirs[of s x] ok a(1) by (auto simp: kenvs_ok_def)
  have 1: "\<forall>x. live s' x \<longrightarrow> unat (env_asid (envs s' x)) < NASID \<and> ENVX (env_id (envs s' x)) = x \<and> K (env_pgdir (envs s' x)) = 0
        \<and> env_status (envs s' x) \<in> {ENV_RUNNABLE, ENV_NOT_RUNNABLE}"
    using ok a(1) Kp ENVX_mkenvid[OF fe(1)] ke kx old by (auto simp: l kenvs_ok_def)
  have inj: "inj_on (\<lambda>x. f (envs s' x)) {x. live s' x}"
    if "inj_on (\<lambda>x. f (envs s x)) {x. live s x}" "\<And>x. x \<noteq> e \<Longrightarrow> f (envs s' x) = f (envs s x)"
      "\<And>x. live s x \<Longrightarrow> f (envs s x) \<noteq> f (envs s' e)" for f :: "env \<Rightarrow> 'z"
    using that(1,3) unfolding lS inj_on_def by (metis (mono_tags) insert_iff mem_Collect_eq old that(2))
  have 2: "inj_on (\<lambda>x. env_pgdir (envs s' x)) {x. live s' x}" "inj_on (\<lambda>x. env_asid (envs s' x)) {x. live s' x}"
    using inj[of env_pgdir] inj[of env_asid] ok kx ke old by (auto simp: kenvs_ok_def)
  have 3: "\<forall>n<NASID. asid_used s' n \<longleftrightarrow> (\<exists>x. live s' x \<and> unat (env_asid (envs s' x)) = n)"
  proof (intro allI impI)
    fix n assume n: "n < NASID"
    have "(\<exists>x. live s' x \<and> unat (env_asid (envs s' x)) = n) \<longleftrightarrow> unat asid = n \<or> (\<exists>x. live s x \<and> unat (env_asid (envs s x)) = n)"
      using l ke(2) kx(2) old by metis
    moreover have "asid_used s n \<longleftrightarrow> (\<exists>x. live s x \<and> unat (env_asid (envs s x)) = n)"
      using ok n by (simp add: kenvs_ok_def)
    ultimately show "asid_used s' n \<longleftrightarrow> (\<exists>x. live s' x \<and> unat (env_asid (envs s' x)) = n)" using a(3) by auto
  qed
  have 4: "\<forall>x. x \<in> set (env_free_list s') \<longleftrightarrow> x < NENV \<and> env_status (envs s' x) = ENV_FREE"
  proof
    fix x
    have "x \<in> set (e # fl) \<longleftrightarrow> x < NENV \<and> env_status (envs s x) = ENV_FREE" using ok e by (simp add: kenvs_ok_def)
    then show "x \<in> set (env_free_list s') \<longleftrightarrow> x < NENV \<and> env_status (envs s' x) = ENV_FREE"
      using s'(1) fe(3) ke(4) kx(4)[of x] by (cases "x = e") auto
  qed
  have 5: "runq_ok s'"
  proof -
    have "x \<in> set (env_sched_list s) \<longleftrightarrow> x < NENV \<and> env_status (envs s' x) = ENV_RUNNABLE" for x
      using kinv_runq[OF inv] fe ke(4) kx(4)[of x] by (cases "x = e") (auto simp: runq_ok_def)
    then show ?thesis using kinv_runq[OF inv] s'(2) by (simp add: runq_ok_def)
  qed
  have "kenvs_ok K s'"
    unfolding kenvs_ok_def using 1 2 3 4 5 fe(4) s'(1,3) ok by (simp add: kenvs_ok_def)
  then show ?thesis using mem by (simp add: kinv0_def d b)
qed

lemma kinv_env_alloc:
  assumes inv: "kinv0 K s"
  shows "returns (\<lambda>(r, s'). case r of
      Inl er \<Rightarrow> (er = E_NO_FREE_ENV \<and> env_free_list s = [] \<and> s' = s) \<or> (er = E_NO_MEM \<and> page_free_list s = [] \<and> s' = s)
         \<or> (er = E_NO_FREE_ENV \<and> (\<forall>i<NASID. asid_used s i))
    | Inr e \<Rightarrow> kinv0 K (upd_env e (\<lambda>v. v\<lparr>env_status := ENV_NOT_RUNNABLE\<rparr>) s') \<and> env_free_list s = e # env_free_list s'
        \<and> (\<forall>va<UTOP. vmap s' (env_pgdir (envs s' e)) va = None) \<and> same_vmap (dirs s) s s'
        \<and> env_id (envs s' e) = push_bit 11 (mkenvid_i s + 1) OR of_nat e \<and> env_parent_id (envs s' e) = parent_id
        \<and> (\<forall>x. x \<noteq> e \<longrightarrow> envs s' x = envs s x) \<and> env_path (envs s' e) = (env_path (envs s e))[0 := CHR ''/'']
        \<and> kstack_tf s' = kstack_tf s \<and> curenv s' = curenv s \<and> cur_pgdir s' = cur_pgdir s \<and> cpu s' = cpu s
        \<and> env_sched_list s' = env_sched_list s \<and> kstate.more s' = kstate.more s)
    (env_alloc parent_id s)"
proof -
  have ok: "kenvs_ok K s" and mem: "pmap_inv (dirs s) (kbase K s) s" using inv by (simp_all add: kinv0_def)
  have d: "distinct (env_free_list s)" using ok by (simp add: kenvs_ok_def)
  have "kinv0 K (upd_env e (\<lambda>v. v\<lparr>env_status := ENV_NOT_RUNNABLE\<rparr>) s')"
    if "env_free_list s = e # env_free_list s'" "p \<notin> dirs s" "kbase K s p = 0"
      "pmap_inv (insert p (dirs s)) ((kbase K s)(p := 1)) s'"
      "unat asid < NASID" "\<not> asid_used s (unat asid)" "asid_used s' = (asid_used s)(unat asid := True)"
      "env_sched_list s' = env_sched_list s" "base_pgdir s' = base_pgdir s"
      "envs s' = (envs s)(e := fresh_env p (push_bit 11 (mkenvid_i s + 1) OR of_nat e) asid parent_id (envs s e))" for e s' p asid
  proof (rule kinv0_add[OF inv that(1-3) _ that(5,6), where i = "mkenvid_i s + 1"])
    show "pmap_inv (insert p (dirs s)) ((kbase K s)(p := 1)) (upd_env e (env_status_update (\<lambda>_. ENV_NOT_RUNNABLE)) s')"
      using that(4) mem_of_eq(4)[OF mem_of_upd_env] by blast
  qed (use that(7-10) in \<open>auto simp: asid_used_def fresh_env_def env_key_def fun_eq_iff\<close>)
  note added = this
  obtain r s' where run: "env_alloc parent_id s = Ret (r, s')"
    using env_alloc_ok[OF mem base_pgdir_kept(1)[OF inv] d, of parent_id] by (auto simp: returns_iff)
  note post = env_alloc_ok[OF mem base_pgdir_kept(1)[OF inv] d, of parent_id, unfolded run returns.simps prod.case]
  show ?thesis
  proof (cases r)
    case (Inl er)
    with post show ?thesis by (simp add: run)
  next
    case (Inr e)
    with post obtain p asid where p: "env_free_list s = e # env_free_list s'" "p \<notin> dirs s" "kbase K s p = 0"
      "pmap_inv (insert p (dirs s)) ((kbase K s)(p := 1)) s'"
      "unat asid < NASID" "\<not> asid_used s (unat asid)" "asid_used s' = (asid_used s)(unat asid := True)"
      "env_sched_list s' = env_sched_list s" "base_pgdir s' = base_pgdir s"
      "envs s' = (envs s)(e := fresh_env p (push_bit 11 (mkenvid_i s + 1) OR of_nat e) asid parent_id (envs s e))"
      "\<forall>va<UTOP. vmap s' p va = None" "same_vmap (dirs s) s s'" "kstack_tf s' = kstack_tf s" "curenv s' = curenv s"
      "cur_pgdir s' = cur_pgdir s" "cpu s' = cpu s" "kstate.more s' = kstate.more s"
      by (simp only: sum.case) (elim exE conjE, rule that; assumption)
    show ?thesis using added[OF p(1-10)] p(1,8,11-17) by (simp add: run Inr p(10) fresh_env_def)
  qed
qed

lemma kinv_env_free:
  assumes inv: "kinv0 K s" and e: "e < NENV" "env_status (envs s e) = ENV_RUNNABLE"
  shows "returns (\<lambda>s'. kinv0 K s' \<and> envs s' = (envs s)(e := (envs s e)\<lparr>env_status := ENV_FREE\<rparr>)
      \<and> env_sched_list s' = remove1 e (env_sched_list s) \<and> env_free_list s' = e # env_free_list s
      \<and> (\<forall>d\<in>dirs s - {env_pgdir (envs s e)}. \<forall>va<UTOP. vmap s' d va = vmap s d va)
      \<and> curenv s' = curenv s \<and> cur_pgdir s' = cur_pgdir s \<and> kstack_tf s' = kstack_tf s \<and> cpu s' = cpu s
      \<and> kstate.more s' = kstate.more s) (env_free e s)"
proof -
  have ok: "kenvs_ok K s" and mem: "pmap_inv (dirs s) (kbase K s) s" using inv by (simp_all add: kinv0_def)
  have le: "live s e" using e by (simp add: live_def)
  let ?d = "env_pgdir (envs s e)"
  have asid: "unat (env_asid (envs s e)) < NASID" using ok le by (simp add: kenvs_ok_def)
  have q: "e \<notin> set (env_free_list s)" "e \<in> set (env_sched_list s)" "distinct (env_sched_list s)"
    using ok e by (auto simp: kenvs_ok_def runq_ok_def)
  have "kinv0 K s'" if a: "pmap_inv (dirs s - {?d}) ((kbase K s)(?d := 0)) s'"
      "envs s' = (envs s)(e := (envs s e)\<lparr>env_status := ENV_FREE\<rparr>)"
      "env_free_list s' = e # env_free_list s" "env_sched_list s' = remove1 e (env_sched_list s)"
      "asid_used s' = (asid_used s)(unat (env_asid (envs s e)) := False)" "base_pgdir s' = base_pgdir s" for s'
  proof -
    have k: "env_id (envs s' x) = env_id (envs s x)" "env_asid (envs s' x) = env_asid (envs s x)"
      "env_pgdir (envs s' x) = env_pgdir (envs s x)"
      "env_status (envs s' x) = (if x = e then ENV_FREE else env_status (envs s x))" for x by (simp_all add: a(2))
    have l: "live s' x \<longleftrightarrow> x \<noteq> e \<and> live s x" for x by (auto simp: live_def k)
    have lS: "{x. live s' x} = {x. live s x} - {e}" using l by auto
    have inj: "inj_on (\<lambda>x. env_pgdir (envs s x)) {x. live s x}" "inj_on (\<lambda>x. env_asid (envs s x)) {x. live s x}"
      and fl: "\<And>x. x \<in> set (env_free_list s) \<longleftrightarrow> x < NENV \<and> env_status (envs s x) = ENV_FREE"
      using ok by (simp_all add: kenvs_ok_def)
    have d: "dirs s' = dirs s - {?d}"
      unfolding dirs_def lS k using le inj(1) by (auto simp: inj_on_def)
    have Kd: "K ?d = 0" using ok le by (simp add: kenvs_ok_def)
    have b: "kbase K s' = (kbase K s)(?d := 0)" using Kd by (auto simp: kbase_def d fun_eq_iff)
    have 1: "\<forall>x. live s' x \<longrightarrow> unat (env_asid (envs s' x)) < NASID \<and> ENVX (env_id (envs s' x)) = x \<and> K (env_pgdir (envs s' x)) = 0
        \<and> env_status (envs s' x) \<in> {ENV_RUNNABLE, ENV_NOT_RUNNABLE}"
      using ok by (simp add: l k kenvs_ok_def)
    have 2: "inj_on (\<lambda>x. env_pgdir (envs s' x)) {x. live s' x}" "inj_on (\<lambda>x. env_asid (envs s' x)) {x. live s' x}"
      unfolding lS k by (rule inj_on_subset[OF inj(1)], blast, rule inj_on_subset[OF inj(2)], blast)
    have 3: "\<forall>n<NASID. asid_used s' n \<longleftrightarrow> (\<exists>x. live s' x \<and> unat (env_asid (envs s' x)) = n)"
    proof (intro allI impI)
      fix n assume n: "n < NASID"
      have u: "asid_used s n \<longleftrightarrow> (\<exists>x. live s x \<and> unat (env_asid (envs s x)) = n)" using ok n by (simp add: kenvs_ok_def)
      have "live s x \<Longrightarrow> unat (env_asid (envs s x)) = unat (env_asid (envs s e)) \<Longrightarrow> x = e" for x
        using inj_onD[OF inj(2), of x e] le by (simp add: word_unat_eq_iff)
      then show "asid_used s' n \<longleftrightarrow> (\<exists>x. live s' x \<and> unat (env_asid (envs s' x)) = n)"
        using u by (simp add: l k a(5)) metis
    qed
    have 4: "\<forall>x. x \<in> set (env_free_list s') \<longleftrightarrow> x < NENV \<and> env_status (envs s' x) = ENV_FREE"
      using fl e(1) by (auto simp: k a(3))
    have 5: "runq_ok s'" using kinv_runq[OF inv] by (auto simp: runq_ok_def k a(4))
    have "distinct (env_free_list s')" using ok q(1) by (simp add: a(3) kenvs_ok_def)
    then have "kenvs_ok K s'" unfolding kenvs_ok_def using 1 2 3 4 5 ok a(6) by (simp add: kenvs_ok_def)
    then show ?thesis using a(1) by (simp add: kinv0_def d b)
  qed
  note removed = this
  have kb: "kbase K s ?d = 1" using live_dirs[OF le] by simp
  show ?thesis
    by (rule returns_mono[OF env_free_ok[OF mem live_dirs[OF le] kb refl asid q(1,2)]])
       (elim conjE, intro conjI, rule removed; assumption)
qed

section \<open>Environment ids\<close>

definition owned :: "'a kstate_scheme \<Rightarrow> nat \<Rightarrow> nat \<Rightarrow> bool" where
  "owned s c e \<longleftrightarrow> e = c \<or> env_parent_id (envs s e) = env_id (envs s c)"

lemma cur_live: "kinv K s \<Longrightarrow> curenv s = Some c \<Longrightarrow> live s c"
  by (simp add: kinv_def kcur_ok_def)

lemma live_id_inj: "kinv0 K s \<Longrightarrow> live s e \<Longrightarrow> live s e' \<Longrightarrow> env_id (envs s e) = env_id (envs s e') \<Longrightarrow> e = e'"
  by (metis kinv0_def kenvs_ok_def)

lemma envid2env_nonzero:
  assumes inv: "kinv K s" and c: "curenv s = Some c" and id: "envid \<noteq> 0"
  shows "envid2env envid checkperm s = Ret (if live s (ENVX envid) \<and> env_id (envs s (ENVX envid)) = envid
      \<and> (checkperm \<longrightarrow> owned s c (ENVX envid)) then Inr (ENVX envid) else Inl E_BAD_ENV)"
proof -
  have x: "ENVX envid < NENV"
  proof -
    have "envid AND 0x3FF \<le> 0x3FF" by (rule word_and_le1)
    then show ?thesis by (simp add: ENVX_def word_le_nat_alt)
  qed
  have "env_id (envs s (ENVX envid)) = env_id (envs s c) \<longleftrightarrow> ENVX envid = c" if "live s (ENVX envid)"
    using live_id_inj[OF kinvD(4)[OF inv] that cur_live[OF inv c]] by auto
  then show ?thesis using x id c by (auto simp: envid2env_def Let_def live_def owned_def)
qed

lemma envid2env_cases:
  assumes inv: "kinv K s" and c: "curenv s = Some c"
  obtains "envid2env envid True s = Ret (Inl E_BAD_ENV)"
  | e where "envid2env envid True s = Ret (Inr e)" "live s e" "owned s c e" "envid \<noteq> 0 \<longrightarrow> env_id (envs s e) = envid" "envid = 0 \<longrightarrow> e = c"
proof (cases "envid = 0")
  case True
  then show ?thesis using that(2)[of c] cur_live[OF inv c] c by (simp add: envid2env_def owned_def)
next
  case False
  then show ?thesis using that envid2env_nonzero[OF assms False, of True] by (auto split: if_splits)
qed

text \<open>
  Environment ids name environments uniquely: in a well-formed kernel state \<open>envid2env\<close> returns, for a
  non-zero id, exactly the live environment with that id, subject to the permission check that it is the
  current environment or one of its children, and \<open>E_BAD_ENV\<close> in every other case.
\<close>

theorem envid2env_correct:
  assumes "kinv K s" and "curenv s = Some c" and "envid \<noteq> 0"
  shows "(envid2env envid checkperm s = Ret (Inr e) \<longleftrightarrow>
      live s e \<and> env_id (envs s e) = envid \<and> (checkperm \<longrightarrow> e = c \<or> env_parent_id (envs s e) = env_id (envs s c)))
    \<and> (envid2env envid checkperm s = Ret (Inl E_BAD_ENV) \<or> (\<exists>e. envid2env envid checkperm s = Ret (Inr e)))"
proof -
  have "live s e \<Longrightarrow> env_id (envs s e) = envid \<Longrightarrow> ENVX envid = e"
    using kinvD(2)[OF assms(1)] by (auto simp: kenvs_ok_def)
  then show ?thesis using envid2env_nonzero[OF assms, of checkperm] by (auto simp: owned_def)
qed

section \<open>Destroying an environment\<close>

lemma env_destroy_ok:
  assumes inv: "kinv K s" and e: "e < NENV" "env_status (envs s e) = ENV_RUNNABLE"
    and ne: "curenv s = Some e \<longrightarrow> env_sched_list s \<noteq> [e]"
  shows "returns (\<lambda>s'. kinv K s' \<and> \<not> live s' e \<and> (\<forall>x. x \<noteq> e \<longrightarrow> live s' x = live s x)
      \<and> (\<forall>x va. live s x \<longrightarrow> x \<noteq> e \<longrightarrow> va < UTOP \<longrightarrow> vmap s' (env_pgdir (envs s x)) va = vmap s (env_pgdir (envs s x)) va)
      \<and> (curenv s \<noteq> Some e \<longrightarrow> curenv s' = curenv s \<and> cpu s' = cpu s) \<and> curenv s' \<noteq> Some e) (env_destroy e s)"
proof -
  note k0 = kinvD(4)[OF inv]
  obtain s1 where run: "env_free e s = Ret s1" and s1: "kinv0 K s1" "envs s1 = (envs s)(e := (envs s e)\<lparr>env_status := ENV_FREE\<rparr>)"
    "env_sched_list s1 = remove1 e (env_sched_list s)"
    "\<forall>d\<in>dirs s - {env_pgdir (envs s e)}. \<forall>va<UTOP. vmap s1 d va = vmap s d va"
    "curenv s1 = curenv s" "cur_pgdir s1 = cur_pgdir s" "cpu s1 = cpu s"
    using kinv_env_free[OF k0 e] unfolding returns_iff by (elim exE conjE) (rule that; assumption)
  have le: "live s e" using e by (simp add: live_def)
  have l1: "\<not> live s1 e" "\<And>x. x \<noteq> e \<Longrightarrow> live s1 x = live s x" by (simp_all add: live_def s1(2))
  have inj: "live s x \<Longrightarrow> x \<noteq> e \<Longrightarrow> env_pgdir (envs s x) \<noteq> env_pgdir (envs s e)" for x
    using kinvD(2)[OF inv] le by (auto simp: kenvs_ok_def inj_on_def)
  have v1: "\<forall>x va. live s x \<longrightarrow> x \<noteq> e \<longrightarrow> va < UTOP \<longrightarrow> vmap s1 (env_pgdir (envs s x)) va = vmap s (env_pgdir (envs s x)) va"
    using s1(4) inj live_dirs by blast
  show ?thesis
  proof (cases "curenv s = Some e")
    case False
    have "kcur_ok s1" using kinvD(3)[OF inv] False s1(2,5-7) l1(2) by (auto simp: kcur_ok_def split: option.splits)
    then show ?thesis using False run s1 l1 v1 by (simp add: env_destroy_def kinv_def)
  next
    case True
    let ?s = "s1\<lparr>curenv := None\<rparr>"
    have "kview ?s = kview s1" by (simp add: kview_def mem_of_def)
    then have k2: "kinv0 K ?s" using s1(1) kview_eq(6) by blast
    have q: "env_sched_list s1 \<noteq> []"
      using ne True kinv_runq[OF k0] e s1(3) by (cases "env_sched_list s") (auto simp: runq_ok_def split: if_splits)
    then obtain s2 where s2: "schedule True ?s = Ret s2" "kinv K s2"
      using kinv_schedule[OF k2, of True] by (auto simp: cur_ok_def returns_iff)
    obtain e2 q2 n2 where s2': "s2 = ?s\<lparr>env_sched_list := q2, sched_count := n2, curenv := Some e2, envs := switched_envs e2 ?s,
      cur_pgdir := env_pgdir (envs ?s e2), cpu := (env_tf (switched_envs e2 ?s e2), env_asid (envs ?s e2))\<rparr>"
      using schedule_ok[OF kinv_runq[OF k2], of True] q s2(1) by (auto simp: cur_ok_def)
    have l2: "live s2 = live s1" by (simp add: live_def s2' fun_eq_iff switched_envs_def Let_def)
    have "vmap s2 = vmap s1" by (rule vmap_frames) (simp add: s2')
    moreover have "curenv s2 \<noteq> Some e" using cur_live[OF s2(2)] l1(1) l2 by metis
    ultimately show ?thesis using run True s1(5) s2 l1 l2 v1 by (simp add: env_destroy_def)
  qed
qed

text \<open>
  C8. Destroying a runnable environment, from inside or outside, keeps the kernel state well formed: the
  environment is free afterwards, every other environment keeps its life and all its translations, and if
  it was the current one another environment has been resumed.
\<close>

theorem env_destroy_correct:
  assumes "kinv K s" and "e < NENV" and "env_status (envs s e) = ENV_RUNNABLE"
    and "curenv s = Some e \<longrightarrow> env_sched_list s \<noteq> [e]"
  shows "returns (\<lambda>s'. kinv K s' \<and> \<not> live s' e \<and> (\<forall>x. x \<noteq> e \<longrightarrow> live s' x = live s x)
      \<and> (\<forall>x va. live s x \<longrightarrow> x \<noteq> e \<longrightarrow> va < UTOP \<longrightarrow> vmap s' (env_pgdir (envs s x)) va = vmap s (env_pgdir (envs s x)) va)
      \<and> curenv s' \<noteq> Some e) (env_destroy e s)"
  by (rule returns_mono[OF env_destroy_ok[OF assms]]) blast

section \<open>A small kernel state with two environments\<close>

text \<open>Environment 1 is a child of environment 0, which is current; their directories are the frames 1 and 2.\<close>

definition demo_duo :: kstate where
  "demo_duo = demo_kernel\<lparr>pp_ref := (\<lambda>p. if p < 3 then 1 else 0), env_free_list := [2..<NENV], env_sched_list := [0, 1],
     asid_bitmap := (\<lambda>i. if i = 0 then 96 else 0),
     envs := (\<lambda>i. if i = 0 then demo_env
        else if i = 1 then demo_env\<lparr>env_id := 0x1001, env_asid := 6, env_parent_id := 0x800, env_pgdir := 2\<rparr>
        else demo_env\<lparr>env_status := ENV_FREE\<rparr>)\<rparr>"

definition demo_K :: "nat \<Rightarrow> nat" where
  "demo_K p = of_bool (p = 0)"

lemma demo_duo_live: "live demo_duo e \<longleftrightarrow> e = 0 \<or> e = 1"
  by (auto simp: live_def demo_duo_def demo_env_def)

lemma demo_duo_fields:
  "envs demo_duo 0 = demo_env" "envs demo_duo (Suc 0) = demo_env\<lparr>env_id := 0x1001, env_asid := 6, env_parent_id := 0x800, env_pgdir := 2\<rparr>"
  "e \<noteq> 0 \<Longrightarrow> e \<noteq> Suc 0 \<Longrightarrow> envs demo_duo e = demo_env\<lparr>env_status := ENV_FREE\<rparr>"
  "curenv demo_duo = Some 0" "env_sched_list demo_duo = [0, 1]" "env_free_list demo_duo = [2..<NENV]"
  "base_pgdir demo_duo = 0" "frames demo_duo = (\<lambda>_ _. 0)" "npage demo_duo = 16" "page_free_list demo_duo = [3..<16]"
  "cur_pgdir demo_duo = 1" "cpu demo_duo = (demo_tf, 5)" "asid_bitmap demo_duo = (\<lambda>i. if i = 0 then 96 else 0)"
  "pp_ref demo_duo = (\<lambda>p. if p < 3 then 1 else 0)" "kstack_tf demo_duo = demo_tf"
  by (simp_all add: demo_duo_def demo_pmap_def demo_kernel_def pmap_state.defs kstate.defs del: upt_rec_numeral)

lemma demo_duo_dirs: "dirs demo_duo = {1, 2}"
proof -
  have "{e. live demo_duo e} = {0, 1}" by (auto simp: demo_duo_live)
  then show ?thesis by (simp add: dirs_def demo_duo_fields demo_env_def)
qed

lemma demo_duo_mem: "pmap_inv {1, 2} (kbase demo_K demo_duo) demo_duo"
proof -
  have "pde_slots demo_duo {1, 2} p = {}" "pte_slots demo_duo {1, 2} p = {}" for p
    by (simp_all add: pde_slots_def pte_slots_def demo_duo_fields)
  then show ?thesis
    by (simp add: pmap_inv_def leaves_ok_def refs_ok_def page_refs_def)
       (auto simp: free_list_ok_def tables_ok_def demo_duo_fields kbase_def demo_duo_dirs demo_K_def)
qed

lemma demo_duo_asids: "asid_used demo_duo a \<longleftrightarrow> a = 5 \<or> a = 6" if "a < 64"
proof -
  have "bit (96 :: u32) n \<longleftrightarrow> n = 5 \<or> n = 6" if "n < 32" for n
  proof -
    have "bit (push_bit k 1 :: u32) n \<longleftrightarrow> n = k" for k using that by (auto simp: bit_exp_iff)
    moreover have "(96 :: u32) = push_bit 5 1 OR push_bit 6 1" by simp
    ultimately show ?thesis by (simp only: bit_or_iff)
  qed
  then show ?thesis using that by (auto simp: asid_used_def demo_duo_fields)
qed

lemma demo_duo_kinv: "kinv demo_K demo_duo"
proof -
  note f = demo_duo_fields(1,2)
  have l: "{e. live demo_duo e} = {0, Suc 0}" by (auto simp: demo_duo_live)
  have 1: "\<forall>e. live demo_duo e \<longrightarrow> unat (env_asid (envs demo_duo e)) < NASID \<and> ENVX (env_id (envs demo_duo e)) = e
      \<and> demo_K (env_pgdir (envs demo_duo e)) = 0 \<and> env_status (envs demo_duo e) \<in> {ENV_RUNNABLE, ENV_NOT_RUNNABLE}"
    by (simp add: demo_duo_live f demo_env_def ENVX_def demo_K_def)
  have 2: "inj_on (\<lambda>e. env_pgdir (envs demo_duo e)) {e. live demo_duo e}" "inj_on (\<lambda>e. env_asid (envs demo_duo e)) {e. live demo_duo e}"
    unfolding l by (simp_all add: f demo_env_def)
  have 3: "\<forall>a<NASID. asid_used demo_duo a \<longleftrightarrow> (\<exists>e. live demo_duo e \<and> unat (env_asid (envs demo_duo e)) = a)"
    by (auto simp: demo_duo_asids demo_duo_live f demo_env_def)
  have st: "env_status (envs demo_duo e) = (if e = 0 \<or> e = Suc 0 then ENV_RUNNABLE else ENV_FREE)" for e
    using f demo_duo_fields(3)[of e] by (simp add: demo_env_def)
  have 4: "\<forall>e. e \<in> set (env_free_list demo_duo) \<longleftrightarrow> e < NENV \<and> env_status (envs demo_duo e) = ENV_FREE" "runq_ok demo_duo"
    unfolding runq_ok_def st demo_duo_fields(5,6) set_upt distinct.simps list.set by auto
  have "kenvs_ok demo_K demo_duo"
    unfolding kenvs_ok_def using 1 2 3 4 by (simp add: demo_duo_fields(6,7) demo_K_def del: upt_rec_numeral)
  moreover have "kcur_ok demo_duo" by (simp add: kcur_ok_def demo_duo_fields(4,11,12) f demo_duo_live demo_env_def)
  ultimately show ?thesis using demo_duo_mem by (simp add: kinv_def kinv0_def demo_duo_dirs)
qed

theorem envid2env_correct_witness:
  "envid2env 0x1001 True demo_duo = Ret (Inr 1)"
proof -
  have "live demo_duo 1 \<and> env_id (envs demo_duo 1) = 0x1001 \<and> env_parent_id (envs demo_duo 1) = env_id (envs demo_duo 0)"
    by (simp add: demo_duo_live demo_duo_fields demo_env_def)
  then show ?thesis using envid2env_correct[OF demo_duo_kinv, of 0 "0x1001" True 1] by (simp add: demo_duo_fields)
qed

theorem env_destroy_correct_witness:
  "returns (\<lambda>s'. kinv demo_K s' \<and> live s' 0 \<and> \<not> live s' 1) (env_destroy 1 demo_duo)"
proof -
  have "returns (\<lambda>s'. kinv demo_K s' \<and> \<not> live s' 1 \<and> (\<forall>x. x \<noteq> 1 \<longrightarrow> live s' x = live demo_duo x)
      \<and> (\<forall>x va. live demo_duo x \<longrightarrow> x \<noteq> 1 \<longrightarrow> va < UTOP \<longrightarrow> vmap s' (env_pgdir (envs demo_duo x)) va = vmap demo_duo (env_pgdir (envs demo_duo x)) va)
      \<and> curenv s' \<noteq> Some 1) (env_destroy 1 demo_duo)"
    by (rule env_destroy_correct[OF demo_duo_kinv]) (simp_all add: demo_duo_fields demo_env_def)
  then show ?thesis by (rule returns_mono) (simp add: demo_duo_live)
qed

end
