(* ===== verification/Mos_Syscall.thy ===== *)
theory Mos_Syscall
  imports Mos_Kernel
begin

text \<open>
  System calls: \<open>kern/syscall_all.c\<close>, with the console of \<open>kern/console.c\<close>. The kernel state gains the
  shell variables, the console and the device registers. A handler either returns a value, which
  \<open>do_syscall\<close> stores in \<open>$v0\<close>, or does not return (\<open>schedule\<close> resumed some environment), or is a
  \<open>void\<close> function that leaves \<open>$v0\<close> unspecified.
\<close>

section \<open>State\<close>

abbreviation (input) MAXVARNUM :: nat where "MAXVARNUM \<equiv> 1024"
abbreviation (input) VARNEMELEN :: nat where "VARNEMELEN \<equiv> 128"
abbreviation (input) VARVALUELEN :: nat where "VARVALUELEN \<equiv> 1024"
abbreviation (input) VAR_RDONLY :: u32 where "VAR_RDONLY \<equiv> 1"

record var =
  var_name :: "char list"
  var_value :: "char list"
  var_shellId :: u32
  var_perm :: u32

text \<open>
  \<open>cons_in\<close> lists the results of the coming reads of the console register; \<open>dev\<close> is the memory of the
  device registers, by physical address.
\<close>

record kernel = kstate +
  vars :: "nat \<Rightarrow> var"
  nowShellId :: u32
  cons_out :: "u8 list"
  cons_in :: "u8 list"
  dev :: "u32 \<Rightarrow> u8"

datatype sysret = Returns u32 | Void | Resumed

definition sys_errno :: "error \<Rightarrow> u32" where
  "sys_errno e = of_int (- errno e)"

text \<open>The macro \<open>try\<close> in a handler: a failing call ends the handler with the error as its value.\<close>

definition sys_try ::
  "((error + 'v) \<times> 's) outcome \<Rightarrow> ('v \<Rightarrow> 's \<Rightarrow> (sysret \<times> 's) outcome) \<Rightarrow> (sysret \<times> 's) outcome" where
  "sys_try m f = obind m (\<lambda>(r, s). case r of Inl e \<Rightarrow> Ret (Returns (sys_errno e), s) | Inr v \<Rightarrow> f v s)"

definition with_env ::
  "u32 \<Rightarrow> bool \<Rightarrow> 'a kstate_scheme \<Rightarrow> (nat \<Rightarrow> (sysret \<times> 'a kstate_scheme) outcome) \<Rightarrow> (sysret \<times> 'a kstate_scheme) outcome" where
  "with_env envid checkperm s f =
     obind (envid2env envid checkperm s) (\<lambda>r. case r of Inl e \<Rightarrow> Ret (Returns (sys_errno e), s) | Inr e \<Rightarrow> f e)"

definition with_cur :: "'a kstate_scheme \<Rightarrow> (nat \<Rightarrow> 'b outcome) \<Rightarrow> 'b outcome" where
  "with_cur s f = (case curenv s of None \<Rightarrow> Undef | Some c \<Rightarrow> f c)"

section \<open>Strings across the user boundary\<close>

text \<open>
  \<open>strcmp\<close>, \<open>strcpy\<close> of \<open>lib/string.c\<close> with one argument in user memory, reading byte by byte: the
  comparison of a kernel string with a user string, the copy of a user string into a kernel array,
  and the copy of a kernel string to user memory.
\<close>

definition byte_char :: "u8 \<Rightarrow> char" where
  "byte_char b = char_of (unat b)"

definition char_byte :: "char \<Rightarrow> u8" where
  "char_byte c = of_nat (of_char c)"

fun user_strcmp :: "char list \<Rightarrow> u32 \<Rightarrow> 'a kstate_scheme \<Rightarrow> (int \<times> 'a kstate_scheme) outcome" where
  "user_strcmp [] va s = Undef"
| "user_strcmp (p # ps) va s =
     obind (user_get8 va s) (\<lambda>(b, s).
       let q = byte_char b in
       if p \<noteq> NUL \<and> p = q then user_strcmp ps (va + 1) s
       else Ret (if (of_char p :: nat) < of_char q then - 1 else if (of_char q :: nat) < of_char p then 1 else 0, s))"

fun strcpy_from_user :: "char list \<Rightarrow> u32 \<Rightarrow> 'a kstate_scheme \<Rightarrow> (char list \<times> 'a kstate_scheme) outcome" where
  "strcpy_from_user [] va s = Undef"
| "strcpy_from_user (d # dst) va s =
     obind (user_get8 va s) (\<lambda>(b, s).
       if b = 0 then Ret (NUL # dst, s)
       else obind (strcpy_from_user dst (va + 1) s) (\<lambda>(r, s). Ret (byte_char b # r, s)))"

fun strcpy_to_user :: "u32 \<Rightarrow> char list \<Rightarrow> 'a kstate_scheme \<Rightarrow> 'a kstate_scheme outcome" where
  "strcpy_to_user va [] s = Undef"
| "strcpy_to_user va (c # src) s =
     obind (user_put8 va (char_byte c) s) (\<lambda>s. if c = NUL then Ret s else strcpy_to_user (va + 1) src s)"

section \<open>Console and small handlers\<close>

definition printcharc :: "u8 \<Rightarrow> 'a kernel_scheme \<Rightarrow> 'a kernel_scheme" where
  "printcharc ch s = s\<lparr>cons_out := cons_out s @ [ch]\<rparr>"

definition sys_putchar :: "u32 \<Rightarrow> 'a kernel_scheme \<Rightarrow> (sysret \<times> 'a kernel_scheme) outcome" where
  "sys_putchar c s = Ret (Void, printcharc (ucast c) s)"

fun print_bytes :: "u32 \<Rightarrow> nat \<Rightarrow> 'a kernel_scheme \<Rightarrow> 'a kernel_scheme outcome" where
  "print_bytes va 0 s = Ret s"
| "print_bytes va (Suc n) s = obind (user_get8 va s) (\<lambda>(b, s). print_bytes (va + 1) n (printcharc b s))"

definition sys_print_cons :: "u32 \<Rightarrow> u32 \<Rightarrow> 'a kernel_scheme \<Rightarrow> (sysret \<times> 'a kernel_scheme) outcome" where
  "sys_print_cons va num s =
     (if va + num > UTOP \<or> va \<ge> UTOP \<or> va > va + num then Ret (Returns (sys_errno E_INVAL), s)
      else obind (print_bytes va (unat num) s) (\<lambda>s. Ret (Returns 0, s)))"

definition sys_getenvid :: "'a kernel_scheme \<Rightarrow> (sysret \<times> 'a kernel_scheme) outcome" where
  "sys_getenvid s = with_cur s (\<lambda>c. Ret (Returns (env_id (envs s c)), s))"

definition sys_yield :: "'a kernel_scheme \<Rightarrow> (sysret \<times> 'a kernel_scheme) outcome" where
  "sys_yield s = obind (schedule True s) (\<lambda>s. Ret (Resumed, s))"

definition sys_env_destroy :: "u32 \<Rightarrow> 'a kernel_scheme \<Rightarrow> (sysret \<times> 'a kernel_scheme) outcome" where
  "sys_env_destroy envid s =
     with_env envid True s (\<lambda>e.
       obind (env_destroy e s) (\<lambda>s'. Ret (if curenv s = Some e then Resumed else Returns 0, s')))"

definition sys_set_tlb_mod_entry :: "u32 \<Rightarrow> u32 \<Rightarrow> 'a kernel_scheme \<Rightarrow> (sysret \<times> 'a kernel_scheme) outcome" where
  "sys_set_tlb_mod_entry envid func s =
     with_env envid True s (\<lambda>e. Ret (Returns 0, upd_env e (\<lambda>v. v\<lparr>env_user_tlb_mod_entry := func\<rparr>) s))"

section \<open>Memory\<close>

definition is_illegal_va :: "u32 \<Rightarrow> bool" where
  "is_illegal_va va \<longleftrightarrow> va < UTEMP \<or> va \<ge> UTOP"

definition is_illegal_va_range :: "u32 \<Rightarrow> u32 \<Rightarrow> bool" where
  "is_illegal_va_range va len \<longleftrightarrow> len \<noteq> 0 \<and> (va + len < va \<or> va < UTEMP \<or> va + len > UTOP)"

definition sys_mem_alloc :: "u32 \<Rightarrow> u32 \<Rightarrow> u32 \<Rightarrow> 'a kernel_scheme \<Rightarrow> (sysret \<times> 'a kernel_scheme) outcome" where
  "sys_mem_alloc envid va perm s =
     (if is_illegal_va va then Ret (Returns (sys_errno E_INVAL), s)
      else with_env envid True s (\<lambda>e.
        sys_try (page_alloc s) (\<lambda>pp s.
        sys_try (page_insert (env_pgdir (envs s e)) (env_asid (envs s e)) pp va perm s) (\<lambda>_ s.
        Ret (Returns 0, s)))))"

definition sys_mem_map :: "u32 \<Rightarrow> u32 \<Rightarrow> u32 \<Rightarrow> u32 \<Rightarrow> u32 \<Rightarrow> 'a kernel_scheme \<Rightarrow> (sysret \<times> 'a kernel_scheme) outcome" where
  "sys_mem_map srcid srcva dstid dstva perm s =
     (if is_illegal_va srcva \<or> is_illegal_va dstva then Ret (Returns (sys_errno E_INVAL), s)
      else with_env srcid True s (\<lambda>src. with_env dstid True s (\<lambda>dst.
        obind (page_lookup (env_pgdir (envs s src)) srcva s) (\<lambda>r.
          case r of
            None \<Rightarrow> Ret (Returns (sys_errno E_INVAL), s)
          | Some (pp, _) \<Rightarrow>
              sys_try (page_insert (env_pgdir (envs s dst)) (env_asid (envs s dst)) pp dstva perm s) (\<lambda>_ s.
              Ret (Returns 0, s))))))"

definition sys_mem_unmap :: "u32 \<Rightarrow> u32 \<Rightarrow> 'a kernel_scheme \<Rightarrow> (sysret \<times> 'a kernel_scheme) outcome" where
  "sys_mem_unmap envid va s =
     (if is_illegal_va va then Ret (Returns (sys_errno E_INVAL), s)
      else with_env envid True s (\<lambda>e.
        obind (page_remove (env_pgdir (envs s e)) (env_asid (envs s e)) va s) (\<lambda>s. Ret (Returns 0, s))))"

section \<open>Environments\<close>

definition sys_exofork :: "'a kernel_scheme \<Rightarrow> (sysret \<times> 'a kernel_scheme) outcome" where
  "sys_exofork s =
     with_cur s (\<lambda>c.
       sys_try (env_alloc (env_id (envs s c)) s) (\<lambda>e s.
         let s = upd_env e (\<lambda>v. v\<lparr>env_tf := (kstack_tf s)\<lparr>regs := (regs (kstack_tf s))(2 := 0)\<rparr>\<rparr>) s;
             s = upd_env e (\<lambda>v. v\<lparr>env_status := ENV_NOT_RUNNABLE\<rparr>) s
         in obind (strcpy (env_path (envs s e)) (env_path (envs s c))) (\<lambda>p.
            let s = upd_env e (\<lambda>v. v\<lparr>env_path := p, env_pri := env_pri (envs s c), env_shellId := env_shellId (envs s c)\<rparr>) s
            in Ret (Returns (env_id (envs s e)), s))))"

definition sys_set_env_status :: "u32 \<Rightarrow> u32 \<Rightarrow> 'a kernel_scheme \<Rightarrow> (sysret \<times> 'a kernel_scheme) outcome" where
  "sys_set_env_status envid status s =
     (if status \<noteq> ENV_RUNNABLE \<and> status \<noteq> ENV_NOT_RUNNABLE then Ret (Returns (sys_errno E_INVAL), s)
      else with_env envid True s (\<lambda>e.
        obind (if env_status (envs s e) \<noteq> status then
                 (if status = ENV_RUNNABLE then tailq_insert_tail e (env_sched_list s)
                  else tailq_remove e (env_sched_list s))
               else Ret (env_sched_list s)) (\<lambda>q.
        Ret (Returns 0, upd_env e (\<lambda>v. v\<lparr>env_status := status\<rparr>) (s\<lparr>env_sched_list := q\<rparr>)))))"

definition sys_set_trapframe :: "u32 \<Rightarrow> u32 \<Rightarrow> 'a kernel_scheme \<Rightarrow> (sysret \<times> 'a kernel_scheme) outcome" where
  "sys_set_trapframe envid tf s =
     (if is_illegal_va_range tf sizeof_Trapframe then Ret (Returns (sys_errno E_INVAL), s)
      else with_env envid True s (\<lambda>e.
        obind (user_get_words tf 38 s) (\<lambda>(ws, s).
          if curenv s = Some e
          then Ret (Returns (regs (tf_of_words ws) 2), s\<lparr>kstack_tf := tf_of_words ws\<rparr>)
          else Ret (Returns 0, upd_env e (\<lambda>v. v\<lparr>env_tf := tf_of_words ws\<rparr>) s))))"

definition sys_panic :: "u32 \<Rightarrow> 'a kernel_scheme \<Rightarrow> (sysret \<times> 'a kernel_scheme) outcome" where
  "sys_panic msg s = Panic ''sys_panic''"

section \<open>IPC\<close>

definition sys_ipc_recv :: "u32 \<Rightarrow> 'a kernel_scheme \<Rightarrow> (sysret \<times> 'a kernel_scheme) outcome" where
  "sys_ipc_recv dstva s =
     (if dstva \<noteq> 0 \<and> is_illegal_va dstva then Ret (Returns (sys_errno E_INVAL), s)
      else with_cur s (\<lambda>c.
        let s = upd_env c (\<lambda>v. v\<lparr>env_ipc_recving := 1, env_ipc_dstva := dstva, env_status := ENV_NOT_RUNNABLE\<rparr>) s in
        obind (tailq_remove c (env_sched_list s)) (\<lambda>q.
        let s = s\<lparr>env_sched_list := q\<rparr>;
            s = s\<lparr>kstack_tf := (kstack_tf s)\<lparr>regs := (regs (kstack_tf s))(2 := 0)\<rparr>\<rparr>
        in obind (schedule True s) (\<lambda>s. Ret (Resumed, s)))))"

definition sys_ipc_try_send :: "u32 \<Rightarrow> u32 \<Rightarrow> u32 \<Rightarrow> u32 \<Rightarrow> 'a kernel_scheme \<Rightarrow> (sysret \<times> 'a kernel_scheme) outcome" where
  "sys_ipc_try_send envid value srcva perm s =
     (if srcva \<noteq> 0 \<and> is_illegal_va srcva then Ret (Returns (sys_errno E_INVAL), s)
      else with_env envid False s (\<lambda>e.
        if env_ipc_recving (envs s e) = 0 then Ret (Returns (sys_errno E_IPC_NOT_RECV), s)
        else with_cur s (\<lambda>c.
          let s = upd_env e (\<lambda>v. v\<lparr>env_ipc_value := value, env_ipc_from := env_id (envs s c),
                                  env_ipc_perm := PTE_V OR perm, env_ipc_recving := 0\<rparr>) s;
              s = upd_env e (\<lambda>v. v\<lparr>env_status := ENV_RUNNABLE\<rparr>) s
          in obind (tailq_insert_tail e (env_sched_list s)) (\<lambda>q.
             let s = s\<lparr>env_sched_list := q\<rparr> in
             if srcva \<noteq> 0 then
               obind (page_lookup (env_pgdir (envs s c)) srcva s) (\<lambda>r.
                 case r of
                   None \<Rightarrow> Ret (Returns (sys_errno E_INVAL), s)
                 | Some (p, _) \<Rightarrow>
                     sys_try (page_insert (env_pgdir (envs s e)) (env_asid (envs s e)) p (env_ipc_dstva (envs s e)) perm s)
                       (\<lambda>_ s. Ret (Returns 0, s)))
             else Ret (Returns 0, s)))))"

section \<open>Console input and devices\<close>

text \<open>The busy wait of \<open>sys_cgetc\<close>; it never returns if every read yields 0.\<close>

fun poll_char :: "u8 list \<Rightarrow> (u8 \<times> u8 list) outcome" where
  "poll_char [] = Undef"
| "poll_char (b # bs) = (if b = 0 then poll_char bs else Ret (b, bs))"

definition sys_cgetc :: "'a kernel_scheme \<Rightarrow> (sysret \<times> 'a kernel_scheme) outcome" where
  "sys_cgetc s = obind (poll_char (cons_in s)) (\<lambda>(b, bs). Ret (Returns (scast b), s\<lparr>cons_in := bs\<rparr>))"

definition is_illegal_dev_pa :: "u32 \<Rightarrow> u32 \<Rightarrow> bool" where
  "is_illegal_dev_pa pa len \<longleftrightarrow>
     \<not> (0x10000000 \<le> pa \<and> pa + len - 1 < 0x10000020)
   \<and> \<not> (0x13000000 \<le> pa \<and> pa + len - 1 < 0x13004200)
   \<and> \<not> (0x15000000 \<le> pa \<and> pa + len - 1 < 0x15000200)"

fun dev_put :: "u32 \<Rightarrow> u8 list \<Rightarrow> (u32 \<Rightarrow> u8) \<Rightarrow> u32 \<Rightarrow> u8" where
  "dev_put pa [] d = d"
| "dev_put pa (b # bs) d = dev_put (pa + 1) bs (d(pa := b))"

definition sys_write_dev :: "u32 \<Rightarrow> u32 \<Rightarrow> u32 \<Rightarrow> 'a kernel_scheme \<Rightarrow> (sysret \<times> 'a kernel_scheme) outcome" where
  "sys_write_dev va pa len s =
     (if is_illegal_va_range va len then Ret (Returns (sys_errno E_INVAL), s)
      else if is_illegal_dev_pa pa len then Ret (Returns (sys_errno E_INVAL), s)
      else obind (user_get_bytes va (unat len) s) (\<lambda>(bs, s). Ret (Returns 0, s\<lparr>dev := dev_put pa bs (dev s)\<rparr>)))"

definition sys_read_dev :: "u32 \<Rightarrow> u32 \<Rightarrow> u32 \<Rightarrow> 'a kernel_scheme \<Rightarrow> (sysret \<times> 'a kernel_scheme) outcome" where
  "sys_read_dev va pa len s =
     (if is_illegal_va_range va len then Ret (Returns (sys_errno E_INVAL), s)
      else if is_illegal_dev_pa pa len then Ret (Returns (sys_errno E_INVAL), s)
      else obind (user_put_bytes va (map (\<lambda>i. dev s (pa + of_nat i)) [0..<unat len]) s) (\<lambda>s. Ret (Returns 0, s)))"

section \<open>Working directories\<close>

definition sys_get_env_path :: "u32 \<Rightarrow> u32 \<Rightarrow> 'a kernel_scheme \<Rightarrow> (sysret \<times> 'a kernel_scheme) outcome" where
  "sys_get_env_path envid path s =
     with_env envid True s (\<lambda>e. obind (strcpy_to_user path (env_path (envs s e)) s) (\<lambda>s. Ret (Returns 0, s)))"

text \<open>
  The walk up the chain of parents. The iterations change no \<open>env_parent_id\<close>, so a walk longer than the
  number of environments is a cycle and never ends: \<open>NENV + 1\<close> steps of fuel are enough.
\<close>

fun change_parents :: "nat \<Rightarrow> nat \<Rightarrow> u32 \<Rightarrow> 'a kernel_scheme \<Rightarrow> ((error + unit) \<times> 'a kernel_scheme) outcome" where
  "change_parents 0 parent path s = Undef"
| "change_parents (Suc fuel) parent path s =
     (if env_parent_id (envs s parent) > 0 then
        obind (envid2env (env_parent_id (envs s parent)) False s) (\<lambda>r.
          case r of
            Inl e \<Rightarrow> Ret (Inl e, s)
          | Inr parent \<Rightarrow>
              obind (strcpy_from_user (env_path (envs s parent)) path s) (\<lambda>(p, s).
              change_parents fuel parent path (upd_env parent (\<lambda>v. v\<lparr>env_path := p\<rparr>) s)))
      else Ret (Inr (), s))"

definition sys_change_dir :: "u32 \<Rightarrow> u32 \<Rightarrow> 'a kernel_scheme \<Rightarrow> (sysret \<times> 'a kernel_scheme) outcome" where
  "sys_change_dir path changeParent s =
     with_cur s (\<lambda>c.
       sys_try (if changeParent = 1 then change_parents (NENV + 1) c path s else Ret (Inr (), s)) (\<lambda>_ s.
         obind (strcpy_from_user (env_path (envs s c)) path s) (\<lambda>(p, s).
         Ret (Returns 0, upd_env c (\<lambda>v. v\<lparr>env_path := p\<rparr>) s))))"

section \<open>Shell variables\<close>

definition isAllow :: "nat \<Rightarrow> nat \<Rightarrow> 'a kernel_scheme \<Rightarrow> bool" where
  "isAllow c index s \<longleftrightarrow> var_shellId (vars s index) = 0 \<or> var_shellId (vars s index) = env_shellId (envs s c)"

text \<open>The loop of \<open>checkVar\<close> over the indices \<open>is\<close>; \<open>None\<close> stands for the result -1.\<close>

fun checkVar_from ::
  "nat list \<Rightarrow> nat option \<Rightarrow> nat \<Rightarrow> u32 \<Rightarrow> bool \<Rightarrow> 'a kernel_scheme \<Rightarrow> (nat option \<times> 'a kernel_scheme) outcome" where
  "checkVar_from [] fill c varName needfill s = Ret (fill, s)"
| "checkVar_from (i # is) fill c varName needfill s =
     (if hd (var_name (vars s i)) = NUL then
        checkVar_from is (if needfill \<and> fill = None then Some i else fill) c varName needfill s
      else obind (user_strcmp (var_name (vars s i)) varName s) (\<lambda>(r, s).
        if r = 0 \<and> isAllow c i s then Ret (Some i, s)
        else checkVar_from is fill c varName needfill s))"

definition checkVar :: "u32 \<Rightarrow> bool \<Rightarrow> 'a kernel_scheme \<Rightarrow> (nat option \<times> 'a kernel_scheme) outcome" where
  "checkVar varName needfill s = with_cur s (\<lambda>c. checkVar_from [0..<MAXVARNUM] None c varName needfill s)"

definition sys_alloc_shell_id :: "'a kernel_scheme \<Rightarrow> (sysret \<times> 'a kernel_scheme) outcome" where
  "sys_alloc_shell_id s =
     with_cur s (\<lambda>c. Ret (Returns 0, (upd_env c (\<lambda>v. v\<lparr>env_shellId := nowShellId s\<rparr>) s)\<lparr>nowShellId := nowShellId s + 1\<rparr>))"

definition upd_var :: "nat \<Rightarrow> (var \<Rightarrow> var) \<Rightarrow> 'a kernel_scheme \<Rightarrow> 'a kernel_scheme" where
  "upd_var i f s = s\<lparr>vars := (vars s)(i := f (vars s i))\<rparr>"

definition sys_declare_var :: "u32 \<Rightarrow> u32 \<Rightarrow> u32 \<Rightarrow> u32 \<Rightarrow> 'a kernel_scheme \<Rightarrow> (sysret \<times> 'a kernel_scheme) outcome" where
  "sys_declare_var varName value perm isGlobal s =
     obind (checkVar varName True s) (\<lambda>(r, s).
       case r of
         None \<Rightarrow> Ret (Returns (- 1), s)
       | Some r \<Rightarrow>
           if var_perm (vars s r) AND VAR_RDONLY \<noteq> 0 then Ret (Returns (- 2), s)
           else
             obind (strcpy_from_user (var_name (vars s r)) varName s) (\<lambda>(n, s).
             let s = upd_var r (\<lambda>v. v\<lparr>var_name := n\<rparr>) s in
             obind (strcpy_from_user (var_value (vars s r)) value s) (\<lambda>(x, s).
             let s = upd_var r (\<lambda>v. v\<lparr>var_value := x, var_perm := perm\<rparr>) s in
             if isGlobal \<noteq> 0 then Ret (Returns 0, upd_var r (\<lambda>v. v\<lparr>var_shellId := 0\<rparr>) s)
             else with_cur s (\<lambda>c. Ret (Returns 0, upd_var r (\<lambda>v. v\<lparr>var_shellId := env_shellId (envs s c)\<rparr>) s)))))"

definition sys_unset_var :: "u32 \<Rightarrow> 'a kernel_scheme \<Rightarrow> (sysret \<times> 'a kernel_scheme) outcome" where
  "sys_unset_var varName s =
     obind (checkVar varName False s) (\<lambda>(r, s).
       case r of
         None \<Rightarrow> Ret (Returns (- 1), s)
       | Some r \<Rightarrow>
           if var_perm (vars s r) AND VAR_RDONLY \<noteq> 0 then Ret (Returns (- 2), s)
           else Ret (Returns 0, upd_var r (\<lambda>v. v\<lparr>var_name := (var_name v)[0 := NUL]\<rparr>) s))"

definition sys_get_var :: "u32 \<Rightarrow> u32 \<Rightarrow> 'a kernel_scheme \<Rightarrow> (sysret \<times> 'a kernel_scheme) outcome" where
  "sys_get_var varName valueBuf s =
     obind (checkVar varName False s) (\<lambda>(r, s).
       case r of
         None \<Rightarrow> Ret (Returns (- 1), s)
       | Some r \<Rightarrow> obind (strcpy_to_user valueBuf (var_value (vars s r)) s) (\<lambda>s. Ret (Returns 0, s)))"

abbreviation (input) sizeof_Var :: u32 where "sizeof_Var \<equiv> 1160"

fun get_all_from :: "nat list \<Rightarrow> u32 \<Rightarrow> u32 \<Rightarrow> nat \<Rightarrow> 'a kernel_scheme \<Rightarrow> (u32 \<times> 'a kernel_scheme) outcome" where
  "get_all_from [] buf cnt c s = Ret (cnt, s)"
| "get_all_from (i # is) buf cnt c s =
     (if hd (var_name (vars s i)) = NUL \<or> \<not> isAllow c i s then get_all_from is buf cnt c s
      else obind (strcpy_to_user (buf + cnt * sizeof_Var) (var_name (vars s i)) s) (\<lambda>s.
           obind (strcpy_to_user (buf + cnt * sizeof_Var + 128) (var_value (vars s i)) s) (\<lambda>s.
           get_all_from is buf (cnt + 1) c s)))"

definition sys_get_all_var :: "u32 \<Rightarrow> 'a kernel_scheme \<Rightarrow> (sysret \<times> 'a kernel_scheme) outcome" where
  "sys_get_all_var buf s =
     with_cur s (\<lambda>c. obind (get_all_from [0..<MAXVARNUM] buf 0 c s) (\<lambda>(n, s). Ret (Returns n, s)))"

section \<open>Dispatch\<close>

text \<open>The entries of \<open>syscall_table\<close>, by system call number, with the arguments taken from the trap frame.\<close>

abbreviation (input) MAX_SYSNO :: nat where "MAX_SYSNO \<equiv> 25"

definition syscall_table ::
  "(u32 \<Rightarrow> u32 \<Rightarrow> u32 \<Rightarrow> u32 \<Rightarrow> u32 \<Rightarrow> 'a kernel_scheme \<Rightarrow> (sysret \<times> 'a kernel_scheme) outcome) list" where
  "syscall_table =
     [\<lambda>a b c d e. sys_putchar a, \<lambda>a b c d e. sys_print_cons a b, \<lambda>a b c d e. sys_getenvid,
      \<lambda>a b c d e. sys_yield, \<lambda>a b c d e. sys_env_destroy a, \<lambda>a b c d e. sys_set_tlb_mod_entry a b,
      \<lambda>a b c d e. sys_mem_alloc a b c, \<lambda>a b c d e. sys_mem_map a b c d e, \<lambda>a b c d e. sys_mem_unmap a b,
      \<lambda>a b c d e. sys_exofork, \<lambda>a b c d e. sys_set_env_status a b, \<lambda>a b c d e. sys_set_trapframe a b,
      \<lambda>a b c d e. sys_panic a, \<lambda>a b c d e. sys_ipc_try_send a b c d, \<lambda>a b c d e. sys_ipc_recv a,
      \<lambda>a b c d e. sys_cgetc, \<lambda>a b c d e. sys_write_dev a b c, \<lambda>a b c d e. sys_read_dev a b c,
      \<lambda>a b c d e. sys_get_env_path a b, \<lambda>a b c d e. sys_change_dir a b, \<lambda>a b c d e. sys_alloc_shell_id,
      \<lambda>a b c d e. sys_declare_var a b c d, \<lambda>a b c d e. sys_unset_var a, \<lambda>a b c d e. sys_get_var a b,
      \<lambda>a b c d e. sys_get_all_var a]"

definition set_v0 :: "u32 \<Rightarrow> 'a kstate_scheme \<Rightarrow> 'a kstate_scheme" where
  "set_v0 v s = s\<lparr>kstack_tf := (kstack_tf s)\<lparr>regs := (regs (kstack_tf s))(2 := v)\<rparr>\<rparr>"

text \<open>\<open>junk\<close> is what a \<open>void\<close> handler leaves in \<open>$v0\<close>.\<close>

definition do_syscall :: "u32 \<Rightarrow> 'a kernel_scheme \<Rightarrow> (sysret \<times> 'a kernel_scheme) outcome" where
  "do_syscall junk s =
     (let tf = kstack_tf s; sysno = sint (regs tf 4) in
      if sysno < 0 \<or> sysno \<ge> int MAX_SYSNO then Ret (Void, set_v0 (sys_errno E_NO_SYS) s)
      else
        let s = s\<lparr>kstack_tf := tf\<lparr>cp0_epc := cp0_epc tf + 4\<rparr>\<rparr>;
            func = syscall_table ! nat sysno;
            arg1 = regs tf 5; arg2 = regs tf 6; arg3 = regs tf 7
        in obind (user_get32 (regs tf 29 + 16) s) (\<lambda>(arg4, s).
           obind (user_get32 (regs tf 29 + 20) s) (\<lambda>(arg5, s).
           obind (func arg1 arg2 arg3 arg4 arg5 s) (\<lambda>(r, s).
           case r of
             Returns v \<Rightarrow> Ret (r, set_v0 v s)
           | Void \<Rightarrow> Ret (r, set_v0 junk s)
           | Resumed \<Rightarrow> Ret (r, s)))))"

end
