(* ===== verification/Mos_Isolation.thy ===== *)
theory Mos_Isolation
  imports Mos_Syscall
begin

text \<open>
  What the system calls guarantee: the handlers of \<open>kern/syscall_all.c\<close> that touch memory or
  environments keep the kernel invariant and change only what their caller may change, and the cases in which they do not.
\<close>

section \<open>Reasoning about handlers\<close>

lemma sys_try_Ret [simp]:
  "sys_try (Ret (Inl e, s)) f = Ret (Returns (sys_errno e), s)" "sys_try (Ret (Inr v, s)) f = f v s"
  by (simp_all add: sys_try_def)

lemma sys_errno_nonzero [simp]: "sys_errno e \<noteq> 0"
  by (cases e) (simp_all add: sys_errno_def)

lemma with_env_cases:
  assumes "kinv K s" "curenv s = Some c"
  obtains "\<And>f. with_env envid True s f = Ret (Returns (sys_errno E_BAD_ENV), s)"
  | e where "\<And>f. with_env envid True s f = f e" "live s e" "owned s c e" "envid \<noteq> 0 \<longrightarrow> env_id (envs s e) = envid" "envid = 0 \<longrightarrow> e = c"
proof (cases rule: envid2env_cases[OF assms, of envid])
  case 1
  then show ?thesis using that(1) by (simp add: with_env_def)
next
  case (2 e)
  then show ?thesis using that(2)[of e] by (simp add: with_env_def)
qed

lemma illegal_va_user: "\<not> is_illegal_va va \<Longrightarrow> va < UTOP"
  by (auto simp: is_illegal_va_def)

text \<open>
  What a memory system call may do: keep the invariant, leave the contents of all user pages and
  everything that is not memory alone, and change at most the translation of one page in one address
  space.
\<close>

definition mem_call :: "(nat \<Rightarrow> nat) \<Rightarrow> 'a kstate_scheme \<Rightarrow> 'a kstate_scheme \<Rightarrow> bool" where
  "mem_call K s s' \<longleftrightarrow> kinv K s' \<and> pmap_state.more s' = pmap_state.more s
     \<and> (\<forall>p. user_page (dirs s) (kbase K s) s p \<longrightarrow> frames s' p = frames s p)"

lemma mem_call_refl: "kinv K s \<Longrightarrow> mem_call K s s"
  by (simp add: mem_call_def)

lemma mem_call_step: "kinv K s \<Longrightarrow> pmap_step (dirs s) (kbase K s) s s' \<Longrightarrow> mem_call K s s'"
  using kinv_step[of K s s'] by (simp add: mem_call_def pmap_step_def)

lemma vmap_updated_trans: "same_vmap D s s1 \<Longrightarrow> vmap_updated D d va e s1 s2 \<Longrightarrow> vmap_updated D d va e s s2"
  by (simp add: same_vmap_def vmap_updated_def)

text \<open>The environment that an id names for the caller \<open>c\<close>, and whether the caller may manipulate it.\<close>

definition names_env :: "'a kstate_scheme \<Rightarrow> nat \<Rightarrow> u32 \<Rightarrow> nat \<Rightarrow> bool" where
  "names_env s c envid e \<longleftrightarrow> live s e \<and> (if envid = 0 then e = c else env_id (envs s e) = envid)"

lemma names_env_ENVX: "kinv K s \<Longrightarrow> names_env s c envid e \<Longrightarrow> envid \<noteq> 0 \<Longrightarrow> ENVX envid = e"
  using kinvD(2) by (fastforce simp: kenvs_ok_def names_env_def)

lemma names_env_unique:
  assumes "kinv K s" and "names_env s c envid e" and "names_env s c envid e'"
  shows "e = e'"
  using names_env_ENVX[OF assms(1,2)] names_env_ENVX[OF assms(1,3)] assms(2,3) by (auto simp: names_env_def split: if_splits)

lemma with_env_named:
  assumes "kinv K s" and "curenv s = Some c" and "names_env s c envid e" and "checkperm \<longrightarrow> owned s c e"
  shows "with_env envid checkperm s f = f e"
proof (cases "envid = 0")
  case True
  then show ?thesis using assms by (simp add: with_env_def envid2env_def names_env_def)
next
  case False
  then show ?thesis using envid2env_nonzero[OF assms(1,2) False, of checkperm] names_env_ENVX[OF assms(1,3) False] assms(3,4)
    by (simp add: with_env_def names_env_def)
qed

lemma with_env_unnamed:
  assumes "kinv K s" and "curenv s = Some c" and "\<not> (\<exists>e. names_env s c envid e \<and> (checkperm \<longrightarrow> owned s c e))"
  shows "with_env envid checkperm s f = Ret (Returns (sys_errno E_BAD_ENV), s)"
proof -
  have 0: "envid \<noteq> 0" using assms(3) cur_live[OF assms(1,2)] by (auto simp: names_env_def owned_def)
  then show ?thesis using envid2env_nonzero[OF assms(1,2) 0, of checkperm] assms(3)
    by (auto simp: with_env_def names_env_def)
qed

lemma sys_errno_inj [simp]: "sys_errno a = sys_errno b \<longleftrightarrow> a = b"
  by (cases a; cases b) (simp_all add: sys_errno_def)

lemma PPN_OR: "PPN (x OR y) = PPN x OR PPN y"
  by (simp add: PPN_def drop_bit_or unsigned_or_eq)

lemma page_entry_PPN: "p < 1048576 \<Longrightarrow> PPN (page2pa p OR perm OR PTE_V) = p OR PPN perm"
  by (simp add: PPN_OR) (simp add: PPN_eq)

lemma small_perm: "perm < 4096 \<Longrightarrow> PPN perm = 0"
  by (simp add: PPN_eq word_less_nat_alt)

section \<open>Memory\<close>

lemma alloc_insert_ok:
  assumes inv: "pmap_inv D base s" and d: "d \<in> D" and va: "va < UTOP" and perm: "perm < 4096"
  shows "returns (\<lambda>(r, s'). pmap_step D base s s' \<and> (2 \<le> length (page_free_list s) \<longrightarrow> r = Returns 0) \<and>
     (if r = Returns 0 then \<exists>p\<in>set (page_free_list s). vmap_updated D d va (Some (page2pa p OR perm OR PTE_V)) s s' \<and> frames s' p = (\<lambda>_. 0)
      else r = Returns (sys_errno E_NO_MEM) \<and> same_vmap D s s'))
    (sys_try (page_alloc s) (\<lambda>pp s. sys_try (page_insert d asid pp va perm s) (\<lambda>_ s. Ret (Returns 0, s))))"
proof -
  obtain r s1 where run1: "page_alloc s = Ret (r, s1)" and st1: "pmap_step D base s s1" "same_vmap D s s1"
    and post: "case r of Inl e \<Rightarrow> e = E_NO_MEM \<and> page_free_list s = [] \<and> s1 = s
     | Inr q \<Rightarrow> page_free_list s = q # page_free_list s1 \<and> user_page D base s1 q
              \<and> pp_ref s1 q = 0 \<and> pp_ref s1 = pp_ref s \<and> frames s1 q = (\<lambda>_. 0)
              \<and> (\<forall>p. user_page D base s p \<longrightarrow> user_page D base s1 p)"
    using page_alloc_ok[OF inv] by (auto simp: returns_iff)
  show ?thesis
  proof (cases r)
    case (Inl e)
    then show ?thesis using run1 st1 post by simp
  next
    case (Inr q)
    then have q: "page_free_list s = q # page_free_list s1" "user_page D base s1 q" "pp_ref s1 q = 0" "frames s1 q = (\<lambda>_. 0)"
      "\<forall>p. user_page D base s p \<longrightarrow> user_page D base s1 p" using post by auto
    have inv1: "pmap_inv D base s1" using st1 by (simp add: pmap_step_def)
    obtain r2 s2 where run2: "page_insert d asid q va perm s1 = Ret (r2, s2)" and post2: "insert_post D base d q va perm s1 (r2, s2)"
      using page_insert_ok[OF inv1 d va q(2) _ perm, of asid] q(3) by (auto simp: returns_iff)
    have st2: "pmap_step D base s1 s2" using post2 by (simp add: insert_post_def)
    have st: "pmap_step D base s s2" using st1 st2 q(5) by (simp add: pmap_step_def)
    have "frames s2 q = (\<lambda>_. 0)" using st2 q(2,4) by (simp add: pmap_step_def)
    moreover have "2 \<le> length (page_free_list s) \<Longrightarrow> \<exists>u. r2 = Inr u"
      using post2 q(1) by (cases r2) (auto simp: insert_post_def)
    moreover have "(case r2 of Inr _ \<Rightarrow> vmap_updated D d va (Some (page2pa q OR perm OR PTE_V)) s s2
        | Inl e \<Rightarrow> e = E_NO_MEM \<and> same_vmap D s s2)"
      using post2 vmap_updated_trans[OF st1(2)] st1(2) by (auto simp: insert_post_def same_vmap_def split: sum.splits)
    ultimately show ?thesis using run1 Inr run2 st q(1) by (cases r2) auto
  qed
qed

lemma mem_alloc_run:
  assumes "\<not> is_illegal_va va" and "kinv K s" and "\<And>f. with_env envid True s f = f e"
  shows "sys_mem_alloc envid va perm s = sys_try (page_alloc s) (\<lambda>pp t.
        sys_try (page_insert (env_pgdir (envs s e)) (env_asid (envs s e)) pp va perm t) (\<lambda>_ t. Ret (Returns 0, t)))"
  by (cases rule: page_alloc_cases[OF pmap_invD(1)[OF kinvD(1)[OF assms(2)]]])
     (use assms in \<open>simp_all add: sys_mem_alloc_def\<close>)

text \<open>
  C5. \<open>sys_mem_alloc\<close>: whatever its arguments (with permission bits within the page offset), the kernel
  state stays well formed, no user page changes its contents, and nothing but memory changes. It succeeds
  only for a legal address and an environment that is the caller or its child, and then maps a zeroed page
  from the free list at exactly that page of exactly that address space; on error no translation changes.
\<close>

theorem sys_mem_alloc_correct:
  assumes "kinv K s" and "curenv s = Some c" and "perm < 4096"
  shows "returns (\<lambda>(r, s'). mem_call K s s' \<and>
      (if r = Returns 0 then \<exists>e p. live s e \<and> owned s c e \<and> (envid \<noteq> 0 \<longrightarrow> env_id (envs s e) = envid) \<and> (envid = 0 \<longrightarrow> e = c)
           \<and> UTEMP \<le> va \<and> va < UTOP \<and> p \<in> set (page_free_list s) \<and> frames s' p = (\<lambda>_. 0)
           \<and> vmap_updated (dirs s) (env_pgdir (envs s e)) va (Some (page2pa p OR perm OR PTE_V)) s s'
       else r \<in> {Returns (sys_errno E_INVAL), Returns (sys_errno E_BAD_ENV), Returns (sys_errno E_NO_MEM)} \<and> same_vmap (dirs s) s s'))
    (sys_mem_alloc envid va perm s)"
proof (cases "is_illegal_va va")
  case True
  then show ?thesis using assms by (simp add: sys_mem_alloc_def mem_call_refl same_vmap_def)
next
  case False
  note va = illegal_va_user[OF False]
  show ?thesis
  proof (cases rule: with_env_cases[OF assms(1,2), of envid])
    case 1
    then show ?thesis using assms False by (simp add: sys_mem_alloc_def mem_call_refl same_vmap_def)
  next
    case (2 e)
    note run = mem_alloc_run[OF False assms(1) 2(1), of perm]
    show ?thesis unfolding run
      by (rule returns_mono2[OF alloc_insert_ok[OF kinvD(1)[OF assms(1)] live_dirs[OF 2(2)] va assms(3)]])
         (use mem_call_step[OF assms(1)] 2 False in \<open>auto simp: is_illegal_va_def split: if_splits\<close>)
  qed
qed

lemma mem_map_run:
  assumes "\<not> is_illegal_va srcva" "\<not> is_illegal_va dstva" and "kinv K s"
    and "\<And>f. with_env srcid True s f = f src" "live s src" and "\<And>f. with_env dstid True s f = f dst"
    and "vmap s (env_pgdir (envs s src)) srcva = Some e"
  shows "sys_mem_map srcid srcva dstid dstva perm s =
    sys_try (page_insert (env_pgdir (envs s dst)) (env_asid (envs s dst)) (PPN e) dstva perm s) (\<lambda>_ s. Ret (Returns 0, s))"
  using assms page_lookup_eq[OF kinvD(1)[OF assms(3)] live_dirs[OF assms(5)] PDX_user[OF illegal_va_user[OF assms(1)]]]
  by (simp add: sys_mem_map_def)

lemma mem_map_ok:
  assumes inv: "kinv K s" and cur: "curenv s = Some c"
  shows "returns (\<lambda>(r, s').
      if r = Returns 0 then \<exists>src dst e. names_env s c srcid src \<and> owned s c src \<and> names_env s c dstid dst \<and> owned s c dst
           \<and> UTEMP \<le> srcva \<and> srcva < UTOP \<and> UTEMP \<le> dstva \<and> dstva < UTOP \<and> vmap s (env_pgdir (envs s src)) srcva = Some e
           \<and> leaf_written (dirs s) (kbase K s) (env_pgdir (envs s dst)) dstva (page2pa (PPN e) OR perm OR PTE_V) s s'
           \<and> PPN (page2pa (PPN e) OR perm OR PTE_V) = PPN e OR PPN perm
           \<and> (perm < 4096 \<and> unat (pp_ref s (PPN e)) < 65535 \<longrightarrow> kinv K s')
      else mem_call K s s' \<and> same_vmap (dirs s) s s' \<and>
         (r = Returns (sys_errno E_INVAL) \<and> (is_illegal_va srcva \<or> is_illegal_va dstva
              \<or> (\<exists>src. names_env s c srcid src \<and> owned s c src \<and> vmap s (env_pgdir (envs s src)) srcva = None))
          \<or> r = Returns (sys_errno E_BAD_ENV) \<and> \<not> (\<exists>src dst. names_env s c srcid src \<and> owned s c src \<and> names_env s c dstid dst \<and> owned s c dst)
          \<or> r = Returns (sys_errno E_NO_MEM) \<and> page_free_list s = []))
    (sys_mem_map srcid srcva dstid dstva perm s)"
proof -
  note refl = mem_call_refl[OF inv]
  have same: "same_vmap (dirs s) s s" by (simp add: same_vmap_def)
  consider (illegal) "is_illegal_va srcva \<or> is_illegal_va dstva"
    | (no_src) "\<not> (is_illegal_va srcva \<or> is_illegal_va dstva)" "\<not> (\<exists>e. names_env s c srcid e \<and> owned s c e)"
    | (no_dst) src where "\<not> (is_illegal_va srcva \<or> is_illegal_va dstva)" "names_env s c srcid src" "owned s c src" "\<not> (\<exists>e. names_env s c dstid e \<and> owned s c e)"
    | (both) src dst where "\<not> (is_illegal_va srcva \<or> is_illegal_va dstva)" "names_env s c srcid src" "owned s c src" "names_env s c dstid dst" "owned s c dst"
    by blast
  then show ?thesis
  proof cases
    case illegal
    then show ?thesis using refl same by (auto simp: sys_mem_map_def)
  next
    case no_src
    then have "sys_mem_map srcid srcva dstid dstva perm s = Ret (Returns (sys_errno E_BAD_ENV), s)"
      using with_env_unnamed[OF inv cur, of srcid True] by (simp add: sys_mem_map_def)
    then show ?thesis using refl same no_src(2) by auto
  next
    case no_dst
    then have "sys_mem_map srcid srcva dstid dstva perm s = Ret (Returns (sys_errno E_BAD_ENV), s)"
      using with_env_named[OF inv cur, of srcid src True] with_env_unnamed[OF inv cur, of dstid True] by (simp add: sys_mem_map_def)
    then show ?thesis using refl same no_dst(4) by auto
  next
    case both
    have va: "srcva < UTOP" "dstva < UTOP" "UTEMP \<le> srcva" "UTEMP \<le> dstva" using both(1) by (auto simp: is_illegal_va_def)
    have l: "live s src" "live s dst" using both(2,4) by (simp_all add: names_env_def)
    note w = with_env_named[OF inv cur both(2), of True] with_env_named[OF inv cur both(4), of True]
    note look = page_lookup_eq[OF kinvD(1)[OF inv] live_dirs[OF l(1)] PDX_user[OF va(1)]]
    show ?thesis
    proof (cases "vmap s (env_pgdir (envs s src)) srcva")
      case None
      then have "sys_mem_map srcid srcva dstid dstva perm s = Ret (Returns (sys_errno E_INVAL), s)"
        using both(1,3,5) w look by (simp add: sys_mem_map_def)
      then show ?thesis using refl same None both(2,3) by auto
    next
      case (Some e)
      let ?d = "env_pgdir (envs s dst)"
      note up = leaf_range[OF kinvD(1)[OF inv] live_dirs[OF l(1)] PDX_user[OF va(1)] Some]
      have run: "sys_mem_map srcid srcva dstid dstva perm s = sys_try (page_insert ?d (env_asid (envs s dst)) (PPN e) dstva perm s) (\<lambda>_ s. Ret (Returns 0, s))"
        using both(1,3,5) w look Some by (simp add: sys_mem_map_def)
      obtain r s' where ins: "page_insert ?d (env_asid (envs s dst)) (PPN e) dstva perm s = Ret (r, s')"
        and post: "case r of Inr _ \<Rightarrow> leaf_written (dirs s) (kbase K s) ?d dstva (page2pa (PPN e) OR perm OR PTE_V) s s'
          | Inl x \<Rightarrow> x = E_NO_MEM \<and> page_free_list s = [] \<and> pmap_step (dirs s) (kbase K s) s s' \<and> same_vmap (dirs s) s s'"
        using page_insert_any[OF kinvD(1)[OF inv] live_dirs[OF l(2)] va(2) up(6), of perm "env_asid (envs s dst)"] by (auto simp: returns_iff)
      have "PPN e < 1048576" using up(1) pmap_invD(1)[OF kinvD(1)[OF inv]] by (simp add: free_list_ok_def)
      then have fr: "PPN (page2pa (PPN e) OR perm OR PTE_V) = PPN e OR PPN perm" by (rule page_entry_PPN)
      show ?thesis
      proof (cases r)
        case (Inl x)
        then show ?thesis using run ins post mem_call_step[OF inv] by simp
      next
        case (Inr u)
        have k: "kinv K s'" if "perm < 4096" "unat (pp_ref s (PPN e)) < 65535"
          using page_insert_ok[OF kinvD(1)[OF inv] live_dirs[OF l(2)] va(2) up(6) that(2,1), of "env_asid (envs s dst)"] ins
            kinv_step[OF inv] by (simp add: insert_post_def)
        show ?thesis unfolding run ins Inr using post[unfolded Inr] k fr both va Some by auto
      qed
    qed
  qed
qed

text \<open>
  C4. \<open>sys_mem_map\<close> either writes exactly one translation or reports the exact cause of an error and changes no translation.  It
  returns 0 only if both ids name environments that the caller may manipulate, itself or a child, both addresses
  are legal and the source page is mapped to a frame \<open>PPN e\<close>; then the destination address has the entry made of that
  frame and \<open>perm\<close>, and no other address of any environment and no user page changes.  \<open>perm\<close> is not
  masked: the frame that the entry refers to is \<open>PPN e OR PPN perm\<close>, so isolation is promised only for \<open>perm < 4096\<close>: then the
  entry refers to the caller's frame, and the invariant of the kernel is kept as long as the 16-bit reference count of the frame does not
  overflow.  Illegal addresses and an unmapped source give \<open>E_INVAL\<close>, ids that do not name such environments \<open>E_BAD_ENV\<close>, and
  an empty free list \<open>E_NO_MEM\<close>.
\<close>

theorem sys_mem_map_correct:
  assumes inv: "kinv K s" and cur: "curenv s = Some c"
  shows "returns (\<lambda>(r, s').
      if r = Returns 0 then \<exists>src dst e. names_env s c srcid src \<and> owned s c src \<and> names_env s c dstid dst \<and> owned s c dst
           \<and> UTEMP \<le> srcva \<and> srcva < UTOP \<and> UTEMP \<le> dstva \<and> dstva < UTOP \<and> vmap s (env_pgdir (envs s src)) srcva = Some e
           \<and> leaf_written (dirs s) (kbase K s) (env_pgdir (envs s dst)) dstva (page2pa (PPN e) OR perm OR PTE_V) s s'
           \<and> PPN (page2pa (PPN e) OR perm OR PTE_V) = PPN e OR PPN perm
           \<and> (perm < 4096 \<and> unat (pp_ref s (PPN e)) < 65535 \<longrightarrow> kinv K s')
      else mem_call K s s' \<and> same_vmap (dirs s) s s' \<and>
         (r = Returns (sys_errno E_INVAL) \<and> (is_illegal_va srcva \<or> is_illegal_va dstva
              \<or> (\<exists>src. names_env s c srcid src \<and> owned s c src \<and> vmap s (env_pgdir (envs s src)) srcva = None))
          \<or> r = Returns (sys_errno E_BAD_ENV) \<and> \<not> (\<exists>src dst. names_env s c srcid src \<and> owned s c src \<and> names_env s c dstid dst \<and> owned s c dst)
          \<or> r = Returns (sys_errno E_NO_MEM) \<and> page_free_list s = []))
    (sys_mem_map srcid srcva dstid dstva perm s)"
  by (rule mem_map_ok[OF assms])

text \<open>
  \<open>sys_mem_unmap\<close>: it succeeds exactly for a legal address and the caller or one of its children, and
  removes exactly that page of that address space, mapped or not.
\<close>

theorem sys_mem_unmap_correct:
  assumes "kinv K s" and "curenv s = Some c"
  shows "returns (\<lambda>(r, s'). mem_call K s s' \<and>
      (if r = Returns 0 then \<exists>e. live s e \<and> owned s c e \<and> UTEMP \<le> va \<and> va < UTOP
           \<and> vmap_updated (dirs s) (env_pgdir (envs s e)) va None s s'
       else r \<in> {Returns (sys_errno E_INVAL), Returns (sys_errno E_BAD_ENV)} \<and> s' = s))
    (sys_mem_unmap envid va s)"
proof (cases "is_illegal_va va")
  case True
  then show ?thesis using assms by (simp add: sys_mem_unmap_def mem_call_refl)
next
  case False
  show ?thesis
  proof (cases rule: with_env_cases[OF assms, of envid])
    case 1
    then show ?thesis using assms False by (simp add: sys_mem_unmap_def mem_call_refl)
  next
    case (2 e)
    obtain s' where "page_remove (env_pgdir (envs s e)) (env_asid (envs s e)) va s = Ret s'"
      "pmap_step (dirs s) (kbase K s) s s'" "vmap_updated (dirs s) (env_pgdir (envs s e)) va None s s'"
      using page_remove_ok[OF kinvD(1)[OF assms(1)] live_dirs[OF 2(2)] illegal_va_user[OF False], of "env_asid (envs s e)"]
      by (auto simp: returns_iff)
    then show ?thesis using False 2 mem_call_step[OF assms(1)] by (auto simp: sys_mem_unmap_def is_illegal_va_def)
  qed
qed

section \<open>Environments\<close>

lemma sys_set_env_status_ok:
  assumes "kinv K s" and "curenv s = Some c"
  shows "returns (\<lambda>(r, s'). kinv K s' \<and>
      (status \<in> {ENV_RUNNABLE, ENV_NOT_RUNNABLE} \<and> with_env envid True s (\<lambda>_. Undef) = Undef \<longrightarrow> r = Returns 0) \<and>
      (if r = Returns 0 then \<exists>e. live s e \<and> owned s c e \<and> (envid \<noteq> 0 \<longrightarrow> env_id (envs s e) = envid) \<and> (envid = 0 \<longrightarrow> e = c) \<and> status \<in> {ENV_RUNNABLE, ENV_NOT_RUNNABLE}
           \<and> envs s' = (envs s)(e := (envs s e)\<lparr>env_status := status\<rparr>)
           \<and> frames s' = frames s \<and> page_free_list s' = page_free_list s \<and> curenv s' = curenv s
           \<and> (e \<in> set (env_sched_list s') \<longleftrightarrow> status = ENV_RUNNABLE)
           \<and> remove1 e (env_sched_list s') = remove1 e (env_sched_list s)
       else r \<in> {Returns (sys_errno E_INVAL), Returns (sys_errno E_BAD_ENV)} \<and> s' = s))
    (sys_set_env_status envid status s)"
proof (cases "status \<noteq> ENV_RUNNABLE \<and> status \<noteq> ENV_NOT_RUNNABLE")
  case True
  then show ?thesis using assms by (auto simp: sys_set_env_status_def)
next
  case False
  then have st: "status \<in> {ENV_RUNNABLE, ENV_NOT_RUNNABLE}" by auto
  show ?thesis
  proof (cases rule: with_env_cases[OF assms, of envid])
    case 1
    then show ?thesis using assms False by (simp add: sys_set_env_status_def)
  next
    case (2 e)
    note k0 = kinvD(4)[OF assms(1)]
    have rq: "distinct (env_sched_list s)" "e \<in> set (env_sched_list s) \<longleftrightarrow> env_status (envs s e) = ENV_RUNNABLE"
      using kinv_runq[OF k0] 2(2) by (auto simp: runq_ok_def live_def)
    have se: "env_status (envs s e) \<in> {ENV_RUNNABLE, ENV_NOT_RUNNABLE}"
      using kinvD(2)[OF assms(1)] 2(2) by (simp add: kenvs_ok_def)
    define q where "q = (if env_status (envs s e) = status then env_sched_list s
      else if status = ENV_RUNNABLE then env_sched_list s @ [e] else remove1 e (env_sched_list s))"
    let ?s = "upd_env e (\<lambda>v. v\<lparr>env_status := status\<rparr>) (s\<lparr>env_sched_list := q\<rparr>)"
    have run: "sys_set_env_status envid status s = Ret (Returns 0, ?s)"
      using False 2(1) rq se by (auto simp: sys_set_env_status_def q_def tailq_insert_tail_def tailq_remove_def)
    have "kinv0 K ?s"
      by (rule kinv0_status[OF k0 2(2) st]) (use rq se st in \<open>auto simp: q_def\<close>)
    moreover have "kcur_ok ?s"
      using kinvD(3)[OF assms(1)] assms(2) st by (auto simp: kcur_ok_def live_def)
    moreover have "e \<in> set q \<longleftrightarrow> status = ENV_RUNNABLE" "remove1 e q = remove1 e (env_sched_list s)"
      using rq se st by (auto simp: q_def remove1_append remove1_idem)
    ultimately show ?thesis using run 2(2-5) st by (simp add: kinv_def) blast
  qed
qed

text \<open>
  C23. \<open>sys_set_env_status\<close> maintains the rule that the run queue holds exactly the runnable environments:
  on every input the invariant is kept, and on success the target has the requested status, is queued
  accordingly and nothing else about any environment changes.
\<close>

theorem sys_set_env_status_correct:
  assumes "kinv K s" and "curenv s = Some c"
  shows "returns (\<lambda>(r, s'). kinv K s' \<and>
      (if r = Returns 0 then \<exists>e. live s e \<and> owned s c e \<and> (envid \<noteq> 0 \<longrightarrow> env_id (envs s e) = envid) \<and> (envid = 0 \<longrightarrow> e = c) \<and> status \<in> {ENV_RUNNABLE, ENV_NOT_RUNNABLE}
           \<and> envs s' = (envs s)(e := (envs s e)\<lparr>env_status := status\<rparr>)
           \<and> (e \<in> set (env_sched_list s') \<longleftrightarrow> status = ENV_RUNNABLE)
           \<and> remove1 e (env_sched_list s') = remove1 e (env_sched_list s)
       else r \<in> {Returns (sys_errno E_INVAL), Returns (sys_errno E_BAD_ENV)} \<and> s' = s))
    (sys_set_env_status envid status s)"
  by (rule returns_mono2[OF sys_set_env_status_ok[OF assms]]) (auto split: if_splits)

lemma asid_scan_memory: "asid_scan is s = Ret (r, s') \<Longrightarrow> mem_of s' = mem_of s"
  by (induction "is") (auto simp: Let_def mem_of_def split: if_splits)

lemma env_alloc_memory:
  assumes "env_alloc pid s = Ret (Inr e, s')"
  shows "\<exists>p. page_free_list s = p # page_free_list s' \<and> pp_ref s' = (pp_ref s)(p := pp_ref s p + 1)
    \<and> (\<forall>q. q \<noteq> p \<longrightarrow> frames s' q = frames s q)"
  using assms
  by (auto simp: env_alloc_def env_setup_vm_def page_alloc_def list_remove_def asid_alloc_def mkenvid_def Let_def mem_of_def frames_poke
      obind_eq_Ret otry_eq_Ret split: list.splits if_splits prod.splits dest!: asid_scan_memory)

lemma sys_exofork_ok:
  assumes "kinv K s" and "curenv s = Some c" and "terminated (env_path (envs s c))"
    and "\<forall>e<NENV. length (env_path (envs s e)) = 1024" and "\<exists>i<NASID. \<not> asid_used s i"
  shows "returns (\<lambda>(r, s'). kinv K s' \<and>
      (if env_free_list s = [] then r = Returns (sys_errno E_NO_FREE_ENV) \<and> s' = s
       else if page_free_list s = [] then r = Returns (sys_errno E_NO_MEM) \<and> s' = s
       else \<exists>e. e = hd (env_free_list s) \<and> r = Returns (env_id (envs s' e)) \<and> ENVX (env_id (envs s' e)) = e
          \<and> env_status (envs s' e) = ENV_NOT_RUNNABLE \<and> env_parent_id (envs s' e) = env_id (envs s c)
          \<and> (\<forall>va<UTOP. vmap s' (env_pgdir (envs s' e)) va = None)
          \<and> regs (env_tf (envs s' e)) = (regs (kstack_tf s))(2 := 0) \<and> cp0_epc (env_tf (envs s' e)) = cp0_epc (kstack_tf s)
          \<and> cstr (env_path (envs s' e)) = cstr (env_path (envs s c))
          \<and> env_pri (envs s' e) = env_pri (envs s c) \<and> env_shellId (envs s' e) = env_shellId (envs s c)
          \<and> (\<forall>x. x \<noteq> e \<longrightarrow> envs s' x = envs s x) \<and> same_vmap (dirs s) s s'
          \<and> live s' e \<and> e \<noteq> c \<and> curenv s' = curenv s \<and> env_id (envs s' e) = push_bit 11 (mkenvid_i s + 1) OR of_nat e
          \<and> (\<exists>p. page_free_list s = p # page_free_list s' \<and> pp_ref s' = (pp_ref s)(p := pp_ref s p + 1)
              \<and> (\<forall>q. q \<noteq> p \<longrightarrow> frames s' q = frames s q))))
    (sys_exofork s)"
proof -
  note k0 = kinvD(4)[OF assms(1)]
  obtain r s1 where run1: "env_alloc (env_id (envs s c)) s = Ret (r, s1)"
    using kinv_env_alloc[OF k0, of "env_id (envs s c)"] by (auto simp: returns_iff)
  note post = kinv_env_alloc[OF k0, of "env_id (envs s c)", unfolded run1 returns.simps prod.case]
  show ?thesis
  proof (cases r)
    case (Inl er)
    have "(er = E_NO_FREE_ENV \<and> env_free_list s = [] \<and> s1 = s) \<or> (er = E_NO_MEM \<and> page_free_list s = [] \<and> s1 = s \<and> env_free_list s \<noteq> [])"
      using post Inl assms(5) run1 by (auto simp: env_alloc_def split: list.splits)
    then show ?thesis using Inl run1 assms(1,2) by (auto simp: sys_exofork_def with_cur_def)
  next
    case (Inr e)
    with post have p: "kinv0 K (upd_env e (\<lambda>v. v\<lparr>env_status := ENV_NOT_RUNNABLE\<rparr>) s1)" "env_free_list s = e # env_free_list s1"
      "\<forall>va<UTOP. vmap s1 (env_pgdir (envs s1 e)) va = None" "same_vmap (dirs s) s s1"
      "env_id (envs s1 e) = push_bit 11 (mkenvid_i s + 1) OR of_nat e" "env_parent_id (envs s1 e) = env_id (envs s c)"
      "\<And>x. x \<noteq> e \<Longrightarrow> envs s1 x = envs s x" "env_path (envs s1 e) = (env_path (envs s e))[0 := CHR ''/'']"
      "kstack_tf s1 = kstack_tf s" "curenv s1 = curenv s" "cur_pgdir s1 = cur_pgdir s" "cpu s1 = cpu s"
      by simp_all
    have fr: "e < NENV" "env_status (envs s e) = ENV_FREE" using kinvD(2)[OF assms(1)] p(2) by (auto simp: kenvs_ok_def)
    have ce: "c \<noteq> e" using cur_live[OF assms(1,2)] fr by (auto simp: live_def)
    have "length (cstr (env_path (envs s c))) < length (env_path (envs s1 e))"
      using length_cstr[OF assms(3)] assms(4) fr cur_live[OF assms(1,2)] p(8) by (simp add: live_def)
    then obtain path where path: "strcpy (env_path (envs s1 e)) (env_path (envs s c)) = Ret path"
      "cstr path = cstr (env_path (envs s c))"
      using strcpy_Ret[OF assms(3)] by blast
    define s2 where "s2 = upd_env e (\<lambda>v. v\<lparr>env_tf := (kstack_tf s1)\<lparr>regs := (regs (kstack_tf s1))(2 := 0)\<rparr>, env_status := ENV_NOT_RUNNABLE,
       env_path := path, env_pri := env_pri (envs s c), env_shellId := env_shellId (envs s c)\<rparr>) s1"
    have run: "sys_exofork s = Ret (Returns (env_id (envs s2 e)), s2)"
      using assms(2) run1 Inr path(1) ce p(7)[OF ce] unfolding s2_def
      by (simp add: sys_exofork_def with_cur_def Let_def upd_env_def)
    have v2: "vmap s2 = vmap s1" by (rule vmap_frames) (simp add: s2_def)
    have "kview s2 = kview (upd_env e (\<lambda>v. v\<lparr>env_status := ENV_NOT_RUNNABLE\<rparr>) s1)"
      by (simp add: kview_def s2_def mem_of_def env_key_def fun_eq_iff)
    then have "kinv0 K s2" using p(1) kview_eq(6) by blast
    moreover have "kcur_ok s2"
      using kinvD(3)[OF assms(1)] assms(2) p(7)[OF ce] p(10-12) ce by (simp add: kcur_ok_def s2_def live_def)
    moreover obtain q where pf: "page_free_list s = q # page_free_list s2" "pp_ref s2 = (pp_ref s)(q := pp_ref s q + 1)"
      "\<forall>p. p \<noteq> q \<longrightarrow> frames s2 p = frames s p"
      using env_alloc_memory[of "env_id (envs s c)" s e s1] run1 Inr by (auto simp: s2_def)
    moreover have "env_id (envs s2 e) = push_bit 11 (mkenvid_i s + 1) OR of_nat e" "env_status (envs s2 e) = ENV_NOT_RUNNABLE"
      "env_parent_id (envs s2 e) = env_id (envs s c)" "env_pgdir (envs s2 e) = env_pgdir (envs s1 e)"
      "regs (env_tf (envs s2 e)) = (regs (kstack_tf s))(2 := 0)" "cp0_epc (env_tf (envs s2 e)) = cp0_epc (kstack_tf s)"
      "env_path (envs s2 e) = path" "env_pri (envs s2 e) = env_pri (envs s c)" "env_shellId (envs s2 e) = env_shellId (envs s c)"
      "\<forall>x. x \<noteq> e \<longrightarrow> envs s2 x = envs s x"
      using p(5,6,7,9) by (simp_all add: s2_def)
    ultimately show ?thesis
      using p(2,3,4,10) path(2) ENVX_mkenvid[OF fr(1)] v2 ce fr(1) by (simp add: run kinv_def same_vmap_def s2_def live_def)
  qed
qed

text \<open>
  C6. \<open>sys_exofork\<close> creates a child that shares nothing: with a free environment, a free page and a free
  ASID left, it returns the id of a new environment, not runnable, whose address space is empty below
  \<open>UTOP\<close>, whose context is the caller's with \<open>$v0\<close> set to 0, and which inherits priority, working
  directory and shell id; all other environments and address spaces are unchanged. Otherwise it returns
  \<open>E_NO_FREE_ENV\<close> or \<open>E_NO_MEM\<close>.
\<close>

theorem sys_exofork_correct:
  assumes "kinv K s" and "curenv s = Some c" and "terminated (env_path (envs s c))"
    and "\<forall>e<NENV. length (env_path (envs s e)) = 1024" and "\<exists>i<NASID. \<not> asid_used s i"
  shows "returns (\<lambda>(r, s'). kinv K s' \<and>
      (if env_free_list s = [] then r = Returns (sys_errno E_NO_FREE_ENV) \<and> s' = s
       else if page_free_list s = [] then r = Returns (sys_errno E_NO_MEM) \<and> s' = s
       else \<exists>e. e = hd (env_free_list s) \<and> r = Returns (env_id (envs s' e)) \<and> ENVX (env_id (envs s' e)) = e
          \<and> env_status (envs s' e) = ENV_NOT_RUNNABLE \<and> env_parent_id (envs s' e) = env_id (envs s c)
          \<and> (\<forall>va<UTOP. vmap s' (env_pgdir (envs s' e)) va = None)
          \<and> regs (env_tf (envs s' e)) = (regs (kstack_tf s))(2 := 0) \<and> cp0_epc (env_tf (envs s' e)) = cp0_epc (kstack_tf s)
          \<and> cstr (env_path (envs s' e)) = cstr (env_path (envs s c))
          \<and> env_pri (envs s' e) = env_pri (envs s c) \<and> env_shellId (envs s' e) = env_shellId (envs s c)
          \<and> (\<forall>x. x \<noteq> e \<longrightarrow> envs s' x = envs s x) \<and> same_vmap (dirs s) s s'))
    (sys_exofork s)"
  by (rule returns_mono2[OF sys_exofork_ok[OF assms]]) (auto split: if_splits)

section \<open>IPC\<close>

lemma kinv0_blocked:
  assumes "kinv K s" "live s c" "env_status (envs s c) = ENV_RUNNABLE"
    and k: "env_key (envs s' c) = env_key ((envs s c)\<lparr>env_status := ENV_NOT_RUNNABLE\<rparr>)" "\<forall>x. x \<noteq> c \<longrightarrow> env_key (envs s' x) = env_key (envs s x)"
    and f: "mem_of s' = mem_of s" "env_free_list s' = env_free_list s" "env_sched_list s' = remove1 c (env_sched_list s)"
      "base_pgdir s' = base_pgdir s" "asid_bitmap s' = asid_bitmap s"
  shows "kinv0 K s'"
proof -
  note k0 = kinvD(4)[OF assms(1)]
  let ?s = "upd_env c (\<lambda>v. v\<lparr>env_status := ENV_NOT_RUNNABLE\<rparr>) (s\<lparr>env_sched_list := remove1 c (env_sched_list s)\<rparr>)"
  have "kinv0 K ?s"
    by (rule kinv0_status[OF k0 assms(2)]) (use kinv_runq[OF k0] in \<open>auto simp: runq_ok_def\<close>)
  moreover have "kview s' = kview ?s" using k f by (auto simp: kview_def fun_eq_iff mem_of_def)
  ultimately show ?thesis using kview_eq(6) by blast
qed

text \<open>
  \<open>sys_ipc_recv\<close> blocks the caller: it leaves the run queue, waits for a message at \<open>dstva\<close>, will return 0
  when resumed, and another environment runs; no address space changes and the invariant is kept.
\<close>

theorem sys_ipc_recv_correct:
  assumes "kinv K s" and "curenv s = Some c" and "env_status (envs s c) = ENV_RUNNABLE" and "env_sched_list s \<noteq> [c]"
    and "dstva = 0 \<or> UTEMP \<le> dstva \<and> dstva < UTOP"
  shows "returns (\<lambda>(r, s'). r = Resumed \<and> kinv K s' \<and> env_status (envs s' c) = ENV_NOT_RUNNABLE
      \<and> env_ipc_recving (envs s' c) = 1 \<and> env_ipc_dstva (envs s' c) = dstva
      \<and> env_tf (envs s' c) = (kstack_tf s)\<lparr>regs := (regs (kstack_tf s))(2 := 0)\<rparr>
      \<and> (\<exists>e. curenv s' = Some e \<and> e \<noteq> c \<and> env_status (envs s' e) = ENV_RUNNABLE) \<and> frames s' = frames s)
    (sys_ipc_recv dstva s)"
proof -
  have lc: "live s c" using cur_live[OF assms(1,2)] .
  have q: "c \<in> set (env_sched_list s)" "distinct (env_sched_list s)"
    using kinv_runq[OF kinvD(4)[OF assms(1)]] lc assms(3) by (auto simp: runq_ok_def live_def)
  define s1 where "s1 = (upd_env c (\<lambda>v. v\<lparr>env_ipc_recving := 1, env_ipc_dstva := dstva, env_status := ENV_NOT_RUNNABLE\<rparr>) s)
    \<lparr>env_sched_list := remove1 c (env_sched_list s), kstack_tf := (kstack_tf s)\<lparr>regs := (regs (kstack_tf s))(2 := 0)\<rparr>\<rparr>"
  have run: "sys_ipc_recv dstva s = obind (schedule True s1) (\<lambda>s. Ret (Resumed, s))"
    using assms(2,5) q unfolding s1_def
    by (auto simp: sys_ipc_recv_def is_illegal_va_def with_cur_def Let_def tailq_remove_def)
  have k1: "kinv0 K s1"
    by (rule kinv0_blocked[OF assms(1) lc assms(3)]) (simp_all add: s1_def env_key_def mem_of_def)
  have ne: "env_sched_list s1 \<noteq> []"
    using q assms(4) by (cases "env_sched_list s") (auto simp: s1_def split: if_splits)
  have cur1: "cur_ok s1" "curenv s1 = Some c" using assms(2) lc by (simp_all add: cur_ok_def s1_def live_def)
  obtain s2 where s2: "schedule True s1 = Ret s2" "kinv K s2" using kinv_schedule[OF k1 cur1(1) ne, of True] by (auto simp: returns_iff)
  obtain e q2 n2 where e: "s2 = s1\<lparr>env_sched_list := q2, sched_count := n2, curenv := Some e, envs := switched_envs e s1,
      cur_pgdir := env_pgdir (envs s1 e), cpu := (env_tf (switched_envs e s1 e), env_asid (envs s1 e))\<rparr>"
    "e \<in> set q2" "set q2 = set (env_sched_list s1)"
    using schedule_ok[OF kinv_runq[OF k1] cur1(1) ne, of True] s2(1) by auto
  have ec: "e \<noteq> c" "env_status (envs s1 e) = ENV_RUNNABLE"
    using e(2,3) q(2) kinv_runq[OF k1] by (auto simp: s1_def runq_ok_def)
  have c2: "envs s2 c = (envs s1 c)\<lparr>env_tf := kstack_tf s1\<rparr>" using ec(1) cur1(2) by (simp add: e(1) switched_envs_def)
  have "env_status (envs s2 e) = ENV_RUNNABLE" "curenv s2 = Some e" "frames s2 = frames s" using ec(2) by (simp_all add: e(1) s1_def)
  moreover have "env_status (envs s2 c) = ENV_NOT_RUNNABLE" "env_ipc_recving (envs s2 c) = 1" "env_ipc_dstva (envs s2 c) = dstva"
    "env_tf (envs s2 c) = (kstack_tf s)\<lparr>regs := (regs (kstack_tf s))(2 := 0)\<rparr>"
    unfolding c2 by (simp_all add: s1_def)
  ultimately show ?thesis using ec(1) s2 by (simp add: run)
qed

text \<open>What a delivered message leaves in the receiver.\<close>

definition delivered :: "u32 \<Rightarrow> u32 \<Rightarrow> u32 \<Rightarrow> env \<Rightarrow> env" where
  "delivered from value perm v = v\<lparr>env_ipc_value := value, env_ipc_from := from, env_ipc_perm := PTE_V OR perm,
     env_ipc_recving := 0, env_status := ENV_RUNNABLE\<rparr>"

text \<open>A receiver that is blocked in \<open>sys_ipc_recv\<close>, with the address it chose, which is 0 or legal.\<close>

definition waiting :: "'a kstate_scheme \<Rightarrow> nat \<Rightarrow> bool" where
  "waiting s e \<longleftrightarrow> env_ipc_recving (envs s e) \<noteq> 0 \<and> env_status (envs s e) = ENV_NOT_RUNNABLE
     \<and> (env_ipc_dstva (envs s e) = 0 \<or> \<not> is_illegal_va (env_ipc_dstva (envs s e)))"

text \<open>The kernel after the message has been delivered and before the page is mapped.\<close>

definition deliver :: "nat \<Rightarrow> u32 \<Rightarrow> u32 \<Rightarrow> u32 \<Rightarrow> 'a kernel_scheme \<Rightarrow> 'a kernel_scheme" where
  "deliver e from value perm s = (upd_env e (delivered from value perm) s)\<lparr>env_sched_list := env_sched_list s @ [e]\<rparr>"

lemma deliver_fields [simp]:
  "envs (deliver e from value perm s) = (envs s)(e := delivered from value perm (envs s e))"
  "env_sched_list (deliver e from value perm s) = env_sched_list s @ [e]" "mem_of (deliver e from value perm s) = mem_of s"
  "npage (deliver e from value perm s) = npage s" "pp_ref (deliver e from value perm s) = pp_ref s"
  "frames (deliver e from value perm s) = frames s" "page_free_list (deliver e from value perm s) = page_free_list s"
  by (simp_all add: deliver_def mem_of_def)

lemma deliver_ok:
  assumes inv: "kinv K s" and cur: "curenv s = Some c" and l: "live s e" and st: "env_status (envs s e) = ENV_NOT_RUNNABLE"
  shows "kinv K (deliver e from value perm s)" "dirs (deliver e from value perm s) = dirs s"
    "kbase K (deliver e from value perm s) = kbase K s" "vmap (deliver e from value perm s) = vmap s"
proof -
  let ?s = "deliver e from value perm s"
  note k0 = kinvD(4)[OF inv]
  have nq: "e \<notin> set (env_sched_list s)" "distinct (env_sched_list s)" using kinv_runq[OF k0] st by (auto simp: runq_ok_def)
  let ?t = "upd_env e (\<lambda>v. v\<lparr>env_status := ENV_RUNNABLE\<rparr>) (s\<lparr>env_sched_list := env_sched_list s @ [e]\<rparr>)"
  have "kinv0 K ?t" by (rule kinv0_status[OF k0 l]) (use nq in auto)
  moreover have kv: "kview ?s = kview ?t" by (simp add: kview_def deliver_def delivered_def mem_of_def env_key_def fun_eq_iff)
  moreover have "kcur_ok ?s"
    using kinvD(3)[OF inv] cur by (auto simp: kcur_ok_def deliver_def live_def delivered_def)
  ultimately show "kinv K ?s" using kview_eq(6)[OF kv] by (simp add: kinv_def)
  have "live ?s = live s" using l by (auto simp: live_def delivered_def fun_eq_iff)
  then show d: "dirs ?s = dirs s" by (auto simp: dirs_def delivered_def)
  show "kbase K ?s = kbase K s" by (simp add: kbase_def d fun_eq_iff)
  show "vmap ?s = vmap s" by (rule mem_of_eq(1)) simp
qed

lemma ipc_send_run:
  fixes val perm :: u32
  assumes "kinv K s" and "curenv s = Some c" and "names_env s c envid e" and "waiting s e" and "\<not> (srcva \<noteq> 0 \<and> is_illegal_va srcva)"
  defines "s1 \<equiv> deliver e (env_id (envs s c)) val perm s"
  shows "sys_ipc_try_send envid val srcva perm s = (if srcva \<noteq> 0 then
      obind (page_lookup (env_pgdir (envs s c)) srcva s1) (\<lambda>r.
        case r of
          None \<Rightarrow> Ret (Returns (sys_errno E_INVAL), s1)
        | Some (p, _) \<Rightarrow>
            sys_try (page_insert (env_pgdir (envs s e)) (env_asid (envs s e)) p (env_ipc_dstva (envs s e)) perm s1)
              (\<lambda>_ s. Ret (Returns 0, s)))
    else Ret (Returns 0, s1))"
proof -
  have nq: "e \<notin> set (env_sched_list s)"
    using kinv_runq[OF kinvD(4)[OF assms(1)]] assms(4) by (auto simp: runq_ok_def waiting_def)
  have f1: "env_pgdir (envs s1 x) = env_pgdir (envs s x)" "env_asid (envs s1 x) = env_asid (envs s x)"
    "env_ipc_dstva (envs s1 x) = env_ipc_dstva (envs s x)" for x by (simp_all add: s1_def delivered_def)
  have eq: "(upd_env e (\<lambda>v. v\<lparr>env_status := ENV_RUNNABLE\<rparr>) (upd_env e (\<lambda>v. v\<lparr>env_ipc_value := val, env_ipc_from := env_id (envs s c),
      env_ipc_perm := PTE_V OR perm, env_ipc_recving := 0\<rparr>) s))\<lparr>env_sched_list := env_sched_list s @ [e]\<rparr> = s1"
    by (simp add: s1_def deliver_def delivered_def upd_env_def)
  have r: "env_ipc_recving (envs s e) \<noteq> 0" using assms(4) by (simp add: waiting_def)
  show ?thesis
    unfolding sys_ipc_try_send_def with_env_named[OF assms(1-3), of False, simplified] if_not_P[OF assms(5)] if_not_P[OF r] with_cur_def assms(2) option.case Let_def
      upd_env_simps(8) tailq_insert_tail_def if_not_P[OF nq] obind.simps eq f1 ..
qed

lemma ipc_send_ok:
  assumes inv: "kinv K s" and cur: "curenv s = Some c" and e: "names_env s c envid e" and wait: "waiting s e"
    and srcva: "\<not> (srcva \<noteq> 0 \<and> is_illegal_va srcva)"
  shows "returns (\<lambda>(r, s'). envs s' = (envs s)(e := delivered (env_id (envs s c)) value perm (envs s e))
      \<and> env_sched_list s' = env_sched_list s @ [e]
      \<and> (case (if srcva = 0 then None else vmap s (env_pgdir (envs s c)) srcva) of
           None \<Rightarrow> r = (if srcva = 0 then Returns 0 else Returns (sys_errno E_INVAL)) \<and> kinv K s' \<and> same_vmap (dirs s) s s'
         | Some lo \<Rightarrow>
             r = Returns 0 \<and> (perm < 4096 \<and> unat (pp_ref s (PPN lo)) < 65535 \<longrightarrow> kinv K s')
               \<and> vmap_updated (dirs s) (env_pgdir (envs s e)) (env_ipc_dstva (envs s e)) (Some (page2pa (PPN lo) OR perm OR PTE_V)) s s'
             \<or> r = Returns (sys_errno E_NO_MEM) \<and> page_free_list s = [] \<and> kinv K s' \<and> same_vmap (dirs s) s s'))
    (sys_ipc_try_send envid value srcva perm s)"
proof -
  let ?s1 = "deliver e (env_id (envs s c)) value perm s"
  have l: "live s e" using e by (simp add: names_env_def)
  have w: "env_status (envs s e) = ENV_NOT_RUNNABLE" "env_ipc_dstva (envs s e) < UTOP"
    using wait by (auto simp: waiting_def is_illegal_va_def)
  note D = deliver_ok[OF inv cur l w(1), of "env_id (envs s c)" "value" perm]
  note run = ipc_send_run[OF inv cur e wait srcva, of "value" perm]
  note inv1 = kinvD(1)[OF D(1), unfolded D(2,3)]
  note dc = live_dirs[OF cur_live[OF inv cur]] live_dirs[OF l]
  show ?thesis
  proof (cases "srcva = 0")
    case True
    then show ?thesis using run D by (simp add: same_vmap_def)
  next
    case sv: False
    then have sva: "srcva < UTOP" using srcva by (auto simp: is_illegal_va_def)
    note look = page_lookup_eq[OF inv1 dc(1) PDX_user[OF sva], unfolded D(4)]
    show ?thesis
    proof (cases "vmap s (env_pgdir (envs s c)) srcva")
      case None
      then show ?thesis using run sv look D by (simp add: same_vmap_def)
    next
      case (Some lo)
      note up = leaf_range(6)[OF inv1 dc(1) PDX_user[OF sva], unfolded D(4), OF Some]
      let ?ins = "page_insert (env_pgdir (envs s e)) (env_asid (envs s e)) (PPN lo) (env_ipc_dstva (envs s e)) perm ?s1"
      obtain r s2 where ins: "?ins = Ret (r, s2)"
        and post: "case r of Inr _ \<Rightarrow> leaf_written (dirs s) (kbase K s) (env_pgdir (envs s e)) (env_ipc_dstva (envs s e)) (page2pa (PPN lo) OR perm OR PTE_V) ?s1 s2
          | Inl x \<Rightarrow> x = E_NO_MEM \<and> page_free_list ?s1 = [] \<and> pmap_step (dirs s) (kbase K s) ?s1 s2 \<and> same_vmap (dirs s) ?s1 s2"
        using page_insert_any[OF inv1 dc(2) w(2) up, of perm "env_asid (envs s e)"] by (auto simp: returns_iff)
      have run2: "sys_ipc_try_send envid value srcva perm s = sys_try (Ret (r, s2)) (\<lambda>_ s. Ret (Returns 0, s))"
        using sv look Some ins by (simp add: run)
      have "pmap_state.more s2 = pmap_state.more ?s1" using post by (cases r) (simp_all add: leaf_written_def pmap_step_def)
      note e2 = more_kfields(1,4)[OF this]
      show ?thesis
      proof (cases r)
        case (Inl x)
        have "kinv K s2" using kinv_step[OF D(1)] post[unfolded Inl] D(2,3) by simp
        then show ?thesis using sv Some post e2 unfolding run2 Inl by (simp add: same_vmap_def D(4))
      next
        case (Inr u)
        have k: "kinv K s2" if "perm < 4096" "unat (pp_ref s (PPN lo)) < 65535"
        proof -
          have "unat (pp_ref ?s1 (PPN lo)) < 65535" using that(2) by simp
          from page_insert_ok[OF inv1 dc(2) w(2) up this that(1), of "env_asid (envs s e)"] ins
          have "pmap_step (dirs ?s1) (kbase K ?s1) ?s1 s2" by (simp add: insert_post_def D(2,3))
          then show ?thesis by (rule kinv_step[OF D(1)])
        qed
        show ?thesis using sv Some post e2 k unfolding run2 Inr
          by (simp add: leaf_written_def vmap_updated_def D(4))
      qed
    qed
  qed
qed

lemma ipc_send_runnable:
  assumes inv: "kinv K s" and cur: "curenv s = Some c" and e: "names_env s c envid e" and r: "env_ipc_recving (envs s e) \<noteq> 0"
    and st: "env_status (envs s e) = ENV_RUNNABLE" and srcva: "\<not> (srcva \<noteq> 0 \<and> is_illegal_va srcva)"
  shows "sys_ipc_try_send envid val srcva perm s = Undef"
proof -
  have "e < NENV" using e by (simp add: names_env_def live_def)
  then have "e \<in> set (env_sched_list s)" using kinv_runq[OF kinvD(4)[OF inv]] st by (auto simp: runq_ok_def)
  then show ?thesis
    unfolding sys_ipc_try_send_def with_env_named[OF inv cur e, of False, simplified] if_not_P[OF srcva] if_not_P[OF r] with_cur_def cur option.case Let_def
    by (simp add: tailq_insert_tail_def)
qed

text \<open>
  C7. \<open>sys_ipc_try_send\<close> on every branch.  An illegal \<open>srcva\<close> gives \<open>E_INVAL\<close>, an id that names no environment \<open>E_BAD_ENV\<close>, and a
  receiver that is not waiting \<open>E_IPC_NOT_RECV\<close>, all without any change.  A receiver blocked in \<open>sys_ipc_recv\<close> gets the value and the
  sender's id and becomes runnable at the end of the run queue.  If \<open>srcva\<close> is not 0 and mapped, the sender's page
  is then mapped at the address the receiver chose and nowhere else, also when that address is 0: the receiver gets a page at
  address 0, although the comment of \<open>sys_ipc_recv\<close> says that a page is only received if its \<open>dstva\<close> is not 0.  If \<open>srcva\<close> is
  not mapped, or the free list is empty, the call returns \<open>E_INVAL\<close> or \<open>E_NO_MEM\<close>, but the message has been delivered.  The invariant
  is kept, where a page is mapped for \<open>perm < 4096\<close> and a reference count that does not overflow: \<open>perm\<close> is not masked.  A
  receiver that has been made runnable while it waits is put on the run queue twice, which is undefined.
\<close>

theorem sys_ipc_try_send_correct:
  assumes "kinv K s" and "curenv s = Some c"
  shows "(srcva \<noteq> 0 \<and> is_illegal_va srcva \<longrightarrow> sys_ipc_try_send envid value srcva perm s = Ret (Returns (sys_errno E_INVAL), s))
    \<and> (\<not> (srcva \<noteq> 0 \<and> is_illegal_va srcva) \<longrightarrow>
        (\<not> (\<exists>e. names_env s c envid e) \<longrightarrow> sys_ipc_try_send envid value srcva perm s = Ret (Returns (sys_errno E_BAD_ENV), s))
      \<and> (\<forall>e. names_env s c envid e \<longrightarrow>
          (env_ipc_recving (envs s e) = 0 \<longrightarrow> sys_ipc_try_send envid value srcva perm s = Ret (Returns (sys_errno E_IPC_NOT_RECV), s))
        \<and> (env_ipc_recving (envs s e) \<noteq> 0 \<and> env_status (envs s e) = ENV_RUNNABLE \<longrightarrow> sys_ipc_try_send envid value srcva perm s = Undef)
        \<and> (waiting s e \<longrightarrow> returns (\<lambda>(r, s'). envs s' = (envs s)(e := delivered (env_id (envs s c)) value perm (envs s e))
            \<and> env_sched_list s' = env_sched_list s @ [e]
            \<and> (case (if srcva = 0 then None else vmap s (env_pgdir (envs s c)) srcva) of
                 None \<Rightarrow> r = (if srcva = 0 then Returns 0 else Returns (sys_errno E_INVAL)) \<and> kinv K s' \<and> same_vmap (dirs s) s s'
               | Some lo \<Rightarrow>
                   r = Returns 0 \<and> (perm < 4096 \<and> unat (pp_ref s (PPN lo)) < 65535 \<longrightarrow> kinv K s')
                     \<and> vmap_updated (dirs s) (env_pgdir (envs s e)) (env_ipc_dstva (envs s e)) (Some (page2pa (PPN lo) OR perm OR PTE_V)) s s'
                   \<or> r = Returns (sys_errno E_NO_MEM) \<and> page_free_list s = [] \<and> kinv K s' \<and> same_vmap (dirs s) s s'))
          (sys_ipc_try_send envid value srcva perm s))))"
proof (intro conjI impI allI)
  show "sys_ipc_try_send envid value srcva perm s = Ret (Returns (sys_errno E_INVAL), s)" if "srcva \<noteq> 0 \<and> is_illegal_va srcva"
    using that by (simp add: sys_ipc_try_send_def)
next
  assume ok: "\<not> (srcva \<noteq> 0 \<and> is_illegal_va srcva)"
  note run = sys_ipc_try_send_def[of envid "value" srcva perm s, unfolded if_not_P[OF ok]]
  show "sys_ipc_try_send envid value srcva perm s = Ret (Returns (sys_errno E_BAD_ENV), s)" if "\<not> (\<exists>e. names_env s c envid e)"
    unfolding run using that by (intro with_env_unnamed[OF assms]) simp
  fix e
  assume e: "names_env s c envid e"
  show "sys_ipc_try_send envid value srcva perm s = Ret (Returns (sys_errno E_IPC_NOT_RECV), s)" if "env_ipc_recving (envs s e) = 0"
    unfolding run with_env_named[OF assms e, of False, simplified] using that by simp
  show "sys_ipc_try_send envid value srcva perm s = Undef" if "env_ipc_recving (envs s e) \<noteq> 0 \<and> env_status (envs s e) = ENV_RUNNABLE"
    using ipc_send_runnable[OF assms e _ _ ok] that by blast
qed (rule ipc_send_ok[OF assms])

section \<open>Destroying environments from user code\<close>

lemma ofold_same: "(\<And>x. x \<in> set xs \<Longrightarrow> f x s = Ret s) \<Longrightarrow> ofold f xs s = Ret s"
  by (induction xs) simp_all

lemma env_free_unqueued:
  assumes "kinv0 K s" and "live s e" and "env_status (envs s e) = ENV_NOT_RUNNABLE"
  shows "env_free e s = Undef"
proof -
  have ok: "kenvs_ok K s" "pmap_inv (dirs s) (kbase K s) s" using assms(1) by (simp_all add: kinv0_def)
  have e: "env_pgdir (envs s e) \<in> dirs s" "kbase K s (env_pgdir (envs s e)) = 1" using live_dirs[OF assms(2)] by (simp_all add: kbase_def)
  have "unat (env_asid (envs s e)) < NASID" "e \<notin> set (env_free_list s)" "e \<notin> set (env_sched_list s)"
    using ok(1) assms(2,3) by (auto simp: kenvs_ok_def runq_ok_def)
  then show ?thesis using env_free_run[OF ok(2) e refl] by (auto simp: tailq_remove_def)
qed

lemma env_destroy_last:
  assumes inv: "kinv K s" and cur: "curenv s = Some e" and q: "env_sched_list s = [e]"
  shows "env_destroy e s = Panic ''There is no runnable env!''"
proof -
  have e: "e < NENV" "env_status (envs s e) = ENV_RUNNABLE" using kinv_runq[OF kinvD(4)[OF inv]] q by (auto simp: runq_ok_def)
  obtain s1 where "env_free e s = Ret s1" "env_sched_list s1 = []" "curenv s1 = Some e"
    using kinv_env_free[OF kinvD(4)[OF inv] e] q cur by (auto simp: returns_iff)
  then show ?thesis by (simp add: env_destroy_def schedule_def Let_def first_of_def)
qed

lemma sys_env_destroy_named:
  assumes "kinv K s" and "curenv s = Some c" and "names_env s c envid e" and "owned s c e"
  shows "sys_env_destroy envid s = obind (env_destroy e s) (\<lambda>s'. Ret (if curenv s = Some e then Resumed else Returns 0, s'))"
  using with_env_named[OF assms(1-3), of True] assms(4) by (simp add: sys_env_destroy_def)

text \<open>
  C24. \<open>sys_env_destroy\<close> for every id.  If the id names no environment that the caller may manipulate (itself or a child),
  it returns \<open>E_BAD_ENV\<close> and changes nothing.  A runnable environment is freed: the invariant and every other
  environment's address space are kept, and the call returns 0 or, if it was the caller, resumes another
  environment.  Two cases do not end that way.  If the caller is the last runnable environment, the scheduler panics.  And if the
  child is blocked, \<open>env_free\<close> takes it off a run queue that it is not on, which is undefined.
\<close>

theorem sys_env_destroy_correct:
  assumes "kinv K s" and "curenv s = Some c"
  shows "(\<not> (\<exists>e. names_env s c envid e \<and> owned s c e) \<longrightarrow> sys_env_destroy envid s = Ret (Returns (sys_errno E_BAD_ENV), s))
    \<and> (\<forall>e. names_env s c envid e \<and> owned s c e \<longrightarrow>
        (if env_status (envs s e) = ENV_NOT_RUNNABLE then sys_env_destroy envid s = Undef
         else if e = c \<and> env_sched_list s = [e] then sys_env_destroy envid s = Panic ''There is no runnable env!''
         else returns (\<lambda>(r, s'). kinv K s' \<and> \<not> live s' e \<and> (\<forall>x. x \<noteq> e \<longrightarrow> live s' x = live s x)
           \<and> (\<forall>x va. live s x \<longrightarrow> x \<noteq> e \<longrightarrow> va < UTOP \<longrightarrow> vmap s' (env_pgdir (envs s x)) va = vmap s (env_pgdir (envs s x)) va)
           \<and> r = (if e = c then Resumed else Returns 0)) (sys_env_destroy envid s)))"
proof (intro conjI allI impI)
  assume "\<not> (\<exists>e. names_env s c envid e \<and> owned s c e)"
  then show "sys_env_destroy envid s = Ret (Returns (sys_errno E_BAD_ENV), s)"
    using with_env_unnamed[OF assms, of envid True] by (simp add: sys_env_destroy_def)
next
  fix e
  assume e: "names_env s c envid e \<and> owned s c e"
  note run = sys_env_destroy_named[OF assms conjunct1[OF e] conjunct2[OF e]]
  have l: "live s e" using e by (simp add: names_env_def)
  then have n: "e < NENV" "env_status (envs s e) \<noteq> ENV_NOT_RUNNABLE \<Longrightarrow> env_status (envs s e) = ENV_RUNNABLE"
    using kinvD(2)[OF assms(1)] by (auto simp: kenvs_ok_def live_def)
  let ?P = "\<lambda>(r, s'). kinv K s' \<and> \<not> live s' e \<and> (\<forall>x. x \<noteq> e \<longrightarrow> live s' x = live s x)
           \<and> (\<forall>x va. live s x \<longrightarrow> x \<noteq> e \<longrightarrow> va < UTOP \<longrightarrow> vmap s' (env_pgdir (envs s x)) va = vmap s (env_pgdir (envs s x)) va)
           \<and> r = (if e = c then Resumed else Returns 0)"
  have "returns ?P (sys_env_destroy envid s)" if "env_status (envs s e) \<noteq> ENV_NOT_RUNNABLE" "\<not> (e = c \<and> env_sched_list s = [e])"
    unfolding run returns_obind
    by (rule returns_mono[OF env_destroy_ok[OF assms(1) n(1) n(2)[OF that(1)]]]) (use that(2) assms(2) in auto)
  moreover have "sys_env_destroy envid s = Undef" if "env_status (envs s e) = ENV_NOT_RUNNABLE"
    using env_free_unqueued[OF kinvD(4)[OF assms(1)] l that] by (simp add: run env_destroy_def)
  moreover have "sys_env_destroy envid s = Panic ''There is no runnable env!''" if "e = c" "env_sched_list s = [e]"
    using env_destroy_last[OF assms(1)] that assms(2) by (simp add: run)
  ultimately show "if env_status (envs s e) = ENV_NOT_RUNNABLE then sys_env_destroy envid s = Undef
      else if e = c \<and> env_sched_list s = [e] then sys_env_destroy envid s = Panic ''There is no runnable env!''
      else returns ?P (sys_env_destroy envid s)" by simp
qed

section \<open>Device windows\<close>

text \<open>
  The check of device addresses is exact as long as the range does not wrap around the 32-bit address
  space: a non-empty range is accepted if and only if it lies inside the window of one device.
\<close>

theorem is_illegal_dev_pa_exact:
  assumes "len \<noteq> 0" and "unat pa + unat len \<le> 2 ^ 32"
  shows "\<not> is_illegal_dev_pa pa len \<longleftrightarrow>
    (\<exists>(b, n)\<in>{(0x10000000, 0x20), (0x13000000, 0x4200), (0x15000000, 0x200)}. b \<le> unat pa \<and> unat pa + unat len \<le> b + n)"
proof -
  have l: "0 < unat len" using assms(1) by (simp add: unat_gt_0)
  have "unat (pa + (len - 1)) = unat pa + (unat len - 1)"
  proof -
    have "unat (len - 1) = unat len - 1" using assms(1) by (simp add: unat_minus_one)
    then show ?thesis using assms(2) l by (simp add: unat_word_ariths)
  qed
  then have u: "unat (pa + len - 1) = unat pa + unat len - 1" using l by (simp add: add_diff_eq)
  show ?thesis
    unfolding is_illegal_dev_pa_def word_le_nat_alt word_less_nat_alt u using l by auto
qed

text \<open>
  A range that wraps around escapes the check: the 32 bytes at physical address \<open>0xFFFFFFF0\<close> pass, although
  they lie in no device window, and \<open>KSEG1\<close> added to its last 16 addresses gives the uncached window on the
  physical addresses from 0 on, where the exception vectors are.
\<close>

theorem is_illegal_dev_pa_wraps:
  "\<not> is_illegal_va_range 0x400000 0x20 \<and> \<not> is_illegal_dev_pa 0xFFFFFFF0 0x20
   \<and> \<not> (\<exists>(b, n)\<in>{(0x10000000, 0x20), (0x13000000, 0x4200), (0x15000000, 0x200)}. b \<le> unat (0xFFFFFFF0 :: u32) \<and> unat (0xFFFFFFF0 :: u32) < b + n)
   \<and> (0xFFFFFFF0 :: u32) + 0x10 + 0xA0000000 = 0xA0000000"
  by (simp add: is_illegal_va_range_def is_illegal_dev_pa_def)

section \<open>Dispatch\<close>

text \<open>
  A call number outside the table is answered with \<open>E_NO_SYS\<close> and nothing else changes; in particular the
  saved program counter still points at the \<open>syscall\<close> instruction, unlike for every call in the table.
\<close>

theorem do_syscall_bad_number:
  assumes "sint (regs (kstack_tf s) 4) < 0 \<or> 25 \<le> sint (regs (kstack_tf s) 4)"
  shows "do_syscall junk s = Ret (Void, s\<lparr>kstack_tf := (kstack_tf s)\<lparr>regs := (regs (kstack_tf s))(2 := - 5)\<rparr>\<rparr>)"
proof -
  have "sys_errno E_NO_SYS = - 5" by (simp add: sys_errno_def)
  then show ?thesis using assms by (auto simp: do_syscall_def Let_def set_v0_def)
qed

section \<open>The statements at work on a small kernel\<close>

definition demo_sys :: kernel where
  "demo_sys = kstate.extend (kstate.truncate demo_duo)
     (kernel.fields (\<lambda>i. \<lparr>var_name = replicate 128 NUL, var_value = replicate 1024 NUL,
         var_shellId = 0, var_perm = (if i = 0 then VAR_RDONLY else 0)\<rparr>)
       1 [] [] (\<lambda>_. 0))"

lemma demo_sys_fields:
  "npage demo_sys = npage demo_duo" "pp_ref demo_sys = pp_ref demo_duo" "page_free_list demo_sys = page_free_list demo_duo"
  "frames demo_sys = frames demo_duo" "tlb demo_sys = tlb demo_duo" "envs demo_sys = envs demo_duo" "curenv demo_sys = curenv demo_duo"
  "env_free_list demo_sys = env_free_list demo_duo" "env_sched_list demo_sys = env_sched_list demo_duo"
  "base_pgdir demo_sys = base_pgdir demo_duo" "asid_bitmap demo_sys = asid_bitmap demo_duo" "mkenvid_i demo_sys = mkenvid_i demo_duo"
  "cur_pgdir demo_sys = cur_pgdir demo_duo" "kstack_tf demo_sys = kstack_tf demo_duo" "cpu demo_sys = cpu demo_duo"
  by (simp_all add: demo_sys_def kstate.defs)

lemma demo_sys_kview: "kview demo_sys = kview demo_duo"
  by (simp add: kview_def mem_of_def demo_sys_fields)

lemma demo_sys_kinv: "kinv demo_K demo_sys"
  by (rule kinv_frame[OF demo_duo_kinv demo_sys_kview]) (simp_all add: demo_sys_fields)

lemma demo_sys_live: "live demo_sys e \<longleftrightarrow> e = 0 \<or> e = 1"
  using kview_eq(1)[OF demo_sys_kview] by (simp add: demo_duo_live)

lemma demo_sys_dirs: "dirs demo_sys = {1, 2}"
  using kview_eq(2)[OF demo_sys_kview] by (simp add: demo_duo_dirs)

lemmas demo_sys_simps = demo_sys_fields demo_duo_fields demo_env_def demo_tf_def

lemma demo_sys_cur: "curenv demo_sys = Some 0"
  by (simp add: demo_sys_simps)

lemma demo_sys_refs: "\<forall>p. unat (pp_ref demo_sys p) < 65535"
  by (simp add: demo_sys_simps)

text \<open>
  Environment 0 has two page tables, in the frames 3 and 4, a copy-on-write page at \<open>0x400000\<close> (frame 5), a
  writable page at \<open>0x401000\<close> (frame 7) and the exception stack (frame 6), which holds a trap frame
  with the faulting address \<open>0x400010\<close>.
\<close>

definition demo_frames :: "nat \<Rightarrow> nat \<Rightarrow> u32" where
  "demo_frames = (\<lambda>_ _. 0)
     (1 := (\<lambda>_. 0)(1 := 0x3600, 508 := 0x4600), 3 := (\<lambda>_. 0)(0 := 0x5201, 1 := 0x7600), 4 := (\<lambda>_. 0)(1023 := 0x6600),
      5 := (\<lambda>_. 0)(4 := 42), 6 := (\<lambda>_. 0)(1021 := 0x400010))"

definition demo_fork :: kernel where
  "demo_fork = demo_sys\<lparr>frames := demo_frames, pp_ref := (\<lambda>p. if p < 8 then 1 else 0), page_free_list := [8..<16]\<rparr>"

lemma demo_fork_fields:
  "frames demo_fork = demo_frames" "pp_ref demo_fork = (\<lambda>p. if p < 8 then 1 else 0)" "page_free_list demo_fork = [8..<16]"
  "npage demo_fork = 16" "pmap_state.more demo_fork = pmap_state.more demo_sys"
  by (simp_all add: demo_fork_def demo_sys_fields demo_duo_fields del: upt_rec_numeral)

lemma demo_PPN: "PPN 0x3600 = 3" "PPN 0x4600 = 4" "PPN 0x5201 = 5" "PPN 0x6600 = 6" "PPN 0x7600 = 7" "PPN 0 = 0"
  by (simp_all add: PPN_def)

lemma demo_fork_slots:
  "pde_slots demo_fork {1, 2} p = (if p = 3 then {(1, 1)} else if p = 4 then {(1, 508)} else {})"
  "pte_slots demo_fork {1, 2} p = (if p = 5 then {(1, 1, 0)} else if p = 7 then {(1, 1, 1)} else if p = 6 then {(1, 508, 1023)} else {})"
   by (auto simp: pde_slots_def pte_slots_def demo_fork_fields demo_frames_def demo_PPN split: if_splits)

lemma demo_fork_same: "envs demo_fork = envs demo_sys" "curenv demo_fork = Some 0" "dirs demo_fork = {1, 2}" "kbase demo_K demo_fork = kbase demo_K demo_sys"
  "mkenvid_i demo_fork = mkenvid_i demo_sys" "env_free_list demo_fork = env_free_list demo_sys" "asid_used demo_fork = asid_used demo_sys"
  "kstack_tf demo_fork = kstack_tf demo_sys"
  using more_kfields[OF demo_fork_fields(5)] mem_step_same[OF demo_fork_fields(5)] demo_sys_cur demo_sys_dirs
  by (simp_all add: asid_used_def fun_eq_iff)

lemma demo_fork_kinv: "kinv demo_K demo_fork"
proof -
  have base: "kbase demo_K demo_sys p = (if p < 3 then 1 else 0)" for p
    by (auto simp: kbase_def demo_sys_dirs demo_K_def)
  have "refs_ok {1, 2} (kbase demo_K demo_sys) demo_fork"
    unfolding refs_ok_def page_refs_def demo_fork_slots demo_fork_fields base by auto
  moreover have "leaves_ok {1, 2} (kbase demo_K demo_sys) demo_fork"
    unfolding leaves_ok_def demo_fork_slots demo_fork_fields base by auto
  moreover have "tables_ok {1, 2} (kbase demo_K demo_sys) demo_fork"
    by (auto simp: tables_ok_def demo_fork_fields demo_frames_def demo_PPN base split: if_splits)
  moreover have "free_list_ok demo_fork" by (auto simp: free_list_ok_def demo_fork_fields)
  ultimately have "pmap_inv (dirs demo_sys) (kbase demo_K demo_sys) demo_fork" by (simp add: pmap_inv_def demo_sys_dirs)
  then show ?thesis by (rule kinv_mem[OF demo_sys_kinv demo_fork_fields(5)])
qed

lemma demo_fork_pgdir: "env_pgdir (envs demo_fork 0) = 1"
  by (simp add: demo_fork_same demo_sys_simps)

lemma demo_fork_vmap:
  "vmap demo_fork 1 va = (if VPN va = 1024 then Some 0x5201 else if VPN va = 1025 then Some 0x7600
     else if VPN va = 0x7F3FF then Some 0x6600 else None)"
proof -
  have eq: "VPN va = i * 1024 + j \<longleftrightarrow> PDX va = i \<and> PTX va = j" if "j < 1024" for i j
    unfolding PDX_VPN PTX_VPN using that by auto
  show ?thesis using eq[of 0 1] eq[of 1 1] eq[of 1023 508]
    by (auto simp: vmap_def demo_fork_fields demo_frames_def demo_PPN)
qed

lemmas demo_fork_maps = demo_fork_vmap demo_fork_vmap[unfolded One_nat_def]

theorem sys_mem_alloc_correct_witness:
  "returns (\<lambda>(r, s'). kinv demo_K s') (sys_mem_alloc 0x1001 0x400000 PTE_D demo_sys)"
  by (rule returns_mono2[OF sys_mem_alloc_correct[OF demo_sys_kinv demo_sys_cur]]) (simp_all add: mem_call_def)

lemma demo_fork_names: "names_env demo_fork 0 0 e \<longleftrightarrow> e = 0" "names_env demo_fork 0 0x1001 e \<longleftrightarrow> e = 1" "owned demo_fork 0 0" "owned demo_fork 0 1"
  using names_env_unique[OF demo_fork_kinv, of 0 "0x1001" e 1] mem_step_same[OF demo_fork_fields(5)] demo_sys_live
  by (auto simp: names_env_def owned_def demo_fork_same demo_sys_simps)

lemma demo_fork_source:
  "vmap demo_fork (env_pgdir (envs demo_fork 0)) 0x401000 = Some 0x7600" "env_pgdir (envs demo_fork 1) = 2"
  "user_page (dirs demo_fork) (kbase demo_K demo_fork) demo_fork 7"
proof -
  show v: "vmap demo_fork (env_pgdir (envs demo_fork 0)) 0x401000 = Some 0x7600"
    unfolding demo_fork_pgdir demo_fork_vmap by (simp add: PPN_def)
  show "env_pgdir (envs demo_fork 1) = 2" by (simp add: demo_fork_same demo_sys_simps)
  have "PDX (0x401000 :: u32) < NUPDE" "(env_pgdir (envs demo_fork 0)) \<in> dirs demo_fork"
    by (simp_all add: PDX_user demo_fork_same demo_fork_pgdir[unfolded demo_fork_same])
  from leaf_range(6)[OF kinvD(1)[OF demo_fork_kinv] this(2,1) v]
  show "user_page (dirs demo_fork) (kbase demo_K demo_fork) demo_fork 7" by (simp add: demo_PPN)
qed

lemma demo_fork_entry:
  assumes "leaf_written (dirs demo_fork) (kbase demo_K demo_fork) 2 0x500000 e demo_fork s'"
  shows "vmap s' 2 0x500000 = Some e" "frames s' 7 = frames demo_fork 7"
proof -
  have "(2 :: nat) \<in> dirs demo_fork" "(0x500000 :: u32) < UTOP" by (simp_all add: demo_fork_same)
  then show "vmap s' 2 0x500000 = Some e" using assms unfolding leaf_written_def vmap_updated_def by simp
  show "frames s' 7 = frames demo_fork 7" using assms demo_fork_source(3) unfolding leaf_written_def by blast
qed

text \<open>The page at \<open>0x401000\<close>, in the frame 7, is shared with the child at \<open>0x500000\<close>.\<close>

theorem sys_mem_map_correct_witness:
  "returns (\<lambda>(r, s'). r = Returns 0 \<and> kinv demo_K s' \<and> vmap s' 2 0x500000 = Some 0x7600 \<and> frames s' 7 = frames demo_fork 7)
     (sys_mem_map 0 0x401000 0x1001 0x500000 PTE_D demo_fork)"
proof (rule returns_mono2[OF sys_mem_map_correct[OF demo_fork_kinv demo_fork_same(2)]], goal_cases)
  case (1 r s')
  have e: "page2pa 7 OR PTE_D OR PTE_V = 0x7600" "PTE_D < (4096 :: u32)" "unat (pp_ref demo_fork 7) < 65535" "page_free_list demo_fork \<noteq> []"
    by (simp_all add: page2pa_def demo_fork_fields)
  have "\<not> is_illegal_va 0x401000" "\<not> is_illegal_va 0x500000" by (simp_all add: is_illegal_va_def)
  then have "r = Returns 0" using 1 demo_fork_source(1) e(4) by (auto simp: demo_fork_names demo_fork_names[unfolded One_nat_def] split: if_splits)
  then show ?case using 1 demo_fork_entry[of "0x7600" s'] demo_fork_source(1,2) e by (auto simp: demo_fork_names demo_PPN)
qed

text \<open>
  With the permission \<open>0x8400\<close> the child gets an entry for the frame 15, which is on the free list.
\<close>

lemma mem_map_forges_frame:
  "returns (\<lambda>(r, s'). r = Returns 0 \<and> vmap s' 2 0x500000 = Some 0xF600 \<and> PPN 0xF600 = 15) (sys_mem_map 0 0x401000 0x1001 0x500000 0x8400 demo_fork)"
proof (rule returns_mono2[OF mem_map_ok[OF demo_fork_kinv demo_fork_same(2)]], goal_cases)
  case (1 r s')
  have e: "page2pa 7 OR 0x8400 OR PTE_V = 0xF600" "page_free_list demo_fork \<noteq> []" "PPN 0xF600 = 15"
    by (simp_all add: page2pa_def demo_fork_fields PPN_def)
  have "\<not> is_illegal_va 0x401000" "\<not> is_illegal_va 0x500000" by (simp_all add: is_illegal_va_def)
  then have "r = Returns 0" using 1 demo_fork_source(1) e(2) by (auto simp: demo_fork_names demo_fork_names[unfolded One_nat_def] split: if_splits)
  then show ?case using 1 demo_fork_entry[of "0xF600" s'] demo_fork_source(1,2) e by (auto simp: demo_fork_names demo_PPN)
qed

theorem sys_mem_unmap_correct_witness:
  "returns (\<lambda>(r, s'). kinv demo_K s') (sys_mem_unmap 0x1001 0x400000 demo_sys)"
  by (rule returns_mono2[OF sys_mem_unmap_correct[OF demo_sys_kinv demo_sys_cur]]) (simp add: mem_call_def)

theorem sys_set_env_status_correct_witness:
  "returns (\<lambda>(r, s'). kinv demo_K s') (sys_set_env_status 0x1001 ENV_NOT_RUNNABLE demo_sys)"
  by (rule returns_mono2[OF sys_set_env_status_correct[OF demo_sys_kinv demo_sys_cur]]) simp

theorem sys_ipc_recv_correct_witness:
  "returns (\<lambda>(r, s'). r = Resumed \<and> env_ipc_recving (envs s' 0) = 1) (sys_ipc_recv 0 demo_sys)"
  by (rule returns_mono2[OF sys_ipc_recv_correct[OF demo_sys_kinv demo_sys_cur]]) (simp_all add: demo_sys_simps)

theorem is_illegal_dev_pa_exact_witness:
  "\<not> is_illegal_dev_pa 0x13000000 512 \<and> is_illegal_dev_pa 0x13004000 1024"
  using is_illegal_dev_pa_exact[of 512 "0x13000000"] is_illegal_dev_pa_exact[of 1024 "0x13004000"] by simp

theorem do_syscall_bad_number_witness:
  "do_syscall 0 (demo_sys\<lparr>kstack_tf := demo_tf\<lparr>regs := (\<lambda>_. 99)\<rparr>\<rparr>)
   = Ret (Void, demo_sys\<lparr>kstack_tf := demo_tf\<lparr>regs := (\<lambda>_. 99)(2 := - 5)\<rparr>\<rparr>)"
proof -
  let ?s = "demo_sys\<lparr>kstack_tf := demo_tf\<lparr>regs := (\<lambda>_. 99)\<rparr>\<rparr>"
  have "25 \<le> sint (regs (kstack_tf ?s) 4)" by simp
  from do_syscall_bad_number[OF disjI2[OF this], of 0] show ?thesis by simp
qed

theorem sys_exofork_correct_witness:
  "returns (\<lambda>(r, s'). kinv demo_K s' \<and> env_status (envs s' 2) = ENV_NOT_RUNNABLE) (sys_exofork demo_sys)"
proof -
  have path: "terminated (env_path (envs demo_sys 0))" "\<forall>e<NENV. length (env_path (envs demo_sys e)) = 1024"
    by (auto simp: demo_sys_fields demo_duo_def demo_env_def)
  have "\<not> asid_used demo_duo 0" using demo_duo_asids[of 0] by simp
  then have "\<not> asid_used demo_sys 0" by (simp add: asid_used_def demo_sys_fields)
  then have "\<exists>i<NASID. \<not> asid_used demo_sys i" by (intro exI[of _ 0]) simp
  note ok = sys_exofork_correct[OF demo_sys_kinv demo_sys_cur path this]
  have "hd (env_free_list demo_sys) = 2" "env_free_list demo_sys \<noteq> []" "page_free_list demo_sys \<noteq> []"
    by (simp_all add: demo_sys_fields demo_duo_fields(6,10) del: upt_rec_numeral)
  then show ?thesis by (intro returns_mono2[OF ok]) simp
qed

text \<open>Environment 1 waits for a message.\<close>

definition demo_wait :: kernel where
  "demo_wait = upd_env 1 (\<lambda>v. v\<lparr>env_status := ENV_NOT_RUNNABLE, env_ipc_recving := 1, env_ipc_dstva := 0x600000\<rparr>)
     (demo_sys\<lparr>env_sched_list := [0]\<rparr>)"

lemma demo_wait_kinv: "kinv demo_K demo_wait"
proof -
  let ?s = "upd_env 1 (\<lambda>v. v\<lparr>env_status := ENV_NOT_RUNNABLE\<rparr>) (demo_sys\<lparr>env_sched_list := [0]\<rparr>)"
  have q: "env_sched_list demo_sys = [0, 1]" by (simp add: demo_sys_simps)
  have "kinv0 demo_K ?s"
    by (rule kinv0_status[OF kinvD(4)[OF demo_sys_kinv]]) (auto simp: demo_sys_live q)
  moreover have "kview demo_wait = kview ?s" by (simp add: demo_wait_def kview_def mem_of_def env_key_def fun_eq_iff)
  ultimately have "kinv0 demo_K demo_wait" using kview_eq(6) by blast
  moreover have "kcur_ok demo_wait" by (simp add: kcur_ok_def demo_wait_def live_def demo_sys_simps)
  ultimately show ?thesis by (simp add: kinv_def)
qed

theorem sys_ipc_try_send_correct_witness:
  "returns (\<lambda>(r, s'). kinv demo_K s' \<and> r = Returns 0 \<and> env_ipc_value (envs s' 1) = 42 \<and> env_sched_list s' = [0, 1])
     (sys_ipc_try_send 0x1001 42 0 0 demo_wait)
   \<and> sys_ipc_try_send 0x1001 42 0 0 demo_sys = Ret (Returns (sys_errno E_IPC_NOT_RECV), demo_sys)"
proof
  have f: "curenv demo_wait = Some 0" "names_env demo_wait 0 0x1001 1" "waiting demo_wait 1" "env_sched_list demo_wait = [0]"
    by (simp_all add: names_env_def waiting_def is_illegal_va_def demo_wait_def live_def demo_sys_simps)
  have "returns (\<lambda>(r, s'). envs s' = (envs demo_wait)(1 := delivered (env_id (envs demo_wait 0)) 42 0 (envs demo_wait 1))
      \<and> env_sched_list s' = [0, 1] \<and> r = Returns 0 \<and> kinv demo_K s' \<and> same_vmap (dirs demo_wait) demo_wait s')
      (sys_ipc_try_send 0x1001 42 0 0 demo_wait)"
    using sys_ipc_try_send_correct[OF demo_wait_kinv f(1), of 0 "0x1001" 42 0] f(2-4) by simp
  then show "returns (\<lambda>(r, s'). kinv demo_K s' \<and> r = Returns 0 \<and> env_ipc_value (envs s' 1) = 42 \<and> env_sched_list s' = [0, 1])
     (sys_ipc_try_send 0x1001 42 0 0 demo_wait)"
    by (rule returns_mono2) (simp add: delivered_def)
  have g: "names_env demo_sys 0 0x1001 1" "env_ipc_recving (envs demo_sys 1) = 0" by (simp_all add: names_env_def live_def demo_sys_simps)
  then show "sys_ipc_try_send 0x1001 42 0 0 demo_sys = Ret (Returns (sys_errno E_IPC_NOT_RECV), demo_sys)"
    using sys_ipc_try_send_correct[OF demo_sys_kinv demo_sys_cur, of 0 "0x1001" 42 0] by simp
qed

lemma demo_names:
  "names_env demo_sys 0 0x1001 1" "names_env demo_wait 0 0x1001 1" "owned demo_sys 0 1" "owned demo_wait 0 1"
  "curenv demo_wait = Some 0" "env_status (envs demo_sys 1) = ENV_RUNNABLE" "env_status (envs demo_wait 1) = ENV_NOT_RUNNABLE"
  by (simp_all add: names_env_def live_def owned_def demo_wait_def demo_sys_simps)

theorem sys_env_destroy_correct_witness:
  "returns (\<lambda>(r, s'). r = Returns 0 \<and> kinv demo_K s' \<and> \<not> live s' 1 \<and> live s' 0) (sys_env_destroy 0x1001 demo_sys)
    \<and> sys_env_destroy 0x1001 demo_wait = Undef \<and> sys_env_destroy 0x1801 demo_sys = Ret (Returns (sys_errno E_BAD_ENV), demo_sys)"
proof (intro conjI)
  have "returns (\<lambda>(r, s'). kinv demo_K s' \<and> \<not> live s' 1 \<and> (\<forall>x. x \<noteq> 1 \<longrightarrow> live s' x = live demo_sys x)
      \<and> (\<forall>x va. live demo_sys x \<longrightarrow> x \<noteq> 1 \<longrightarrow> va < UTOP \<longrightarrow> vmap s' (env_pgdir (envs demo_sys x)) va = vmap demo_sys (env_pgdir (envs demo_sys x)) va)
      \<and> r = Returns 0) (sys_env_destroy 0x1001 demo_sys)"
    using sys_env_destroy_correct[OF demo_sys_kinv demo_sys_cur, of "0x1001"] demo_names by auto
  then show "returns (\<lambda>(r, s'). r = Returns 0 \<and> kinv demo_K s' \<and> \<not> live s' 1 \<and> live s' 0) (sys_env_destroy 0x1001 demo_sys)"
    by (rule returns_mono2) (simp add: demo_sys_live)
  show "sys_env_destroy 0x1001 demo_wait = Undef"
    using sys_env_destroy_correct[OF demo_wait_kinv demo_names(5), of "0x1001"] demo_names by auto
  have "env_id (envs demo_sys 0) \<noteq> 0x1801" "env_id (envs demo_sys 1) \<noteq> 0x1801" by (simp_all add: demo_sys_simps)
  then have "\<not> names_env demo_sys 0 0x1801 e" for e using demo_sys_live[of e] by (auto simp: names_env_def)
  then show "sys_env_destroy 0x1801 demo_sys = Ret (Returns (sys_errno E_BAD_ENV), demo_sys)"
    using sys_env_destroy_correct[OF demo_sys_kinv demo_sys_cur, of "0x1801"] by blast
qed

text \<open>
  Destroying a blocked environment is not safe: \<open>env_free\<close> removes the environment from the run queue whether
  or not it is in it, so destroying a child that waits for a message runs \<open>TAILQ_REMOVE\<close> on an element that is
  not queued, which leaves the well-formed states.
\<close>

theorem destroy_blocked_env_undefined: "kinv demo_K demo_wait \<and> sys_env_destroy 0x1001 demo_wait = Undef"
proof -
  have l: "live demo_wait 1" using demo_names(2) by (simp add: names_env_def)
  show ?thesis
    using sys_env_destroy_named[OF demo_wait_kinv demo_names(5,2,4)] env_free_unqueued[OF kinvD(4)[OF demo_wait_kinv] l demo_names(7)] demo_wait_kinv
    by (simp add: env_destroy_def)
qed

end
