(* ===== verification/Mos_Print.thy ===== *)
theory Mos_Print
  imports Mos_String
begin

text \<open>
  Formatted output: \<open>lib/print.c\<close>, and the sinks of \<open>kern/printk.c\<close>, \<open>user/lib/debugf.c\<close> and
  \<open>user/lib/fprintf.c\<close>. The output sink is the function \<open>out\<close> on a state of its own; the variadic
  arguments are a list. \<open>print_num\<close> is the in-place algorithm on its buffer, the reference it is proved
  equal to comes after it.
\<close>

section \<open>Numbers, characters and strings\<close>

type_synonym 's sink = "char list \<Rightarrow> 's \<Rightarrow> 's outcome"

definition digit_char :: "bool \<Rightarrow> nat \<Rightarrow> char" where
  "digit_char upcase d = (if d \<le> 9 then char_of (48 + d) else if upcase then char_of (65 + d - 10) else char_of (97 + d - 10))"

text \<open>The \<open>do\<close> loop of \<open>print_num\<close>: the digits, least significant first.\<close>

function put_digits :: "bool \<Rightarrow> nat \<Rightarrow> nat \<Rightarrow> char list" where
  "put_digits upcase bs u =
     digit_char upcase (u mod bs) # (if u div bs = 0 \<or> bs < 2 then [] else put_digits upcase bs (u div bs))"
  by auto
termination
  by (relation "measure (\<lambda>(_, bs, u). u)") (auto intro: div_less_dividend simp: div_eq_0_iff)

declare put_digits.simps [simp del]

text \<open>The assignment \<open>buf[i] = c\<close>, for \<open>i\<close> from \<open>a\<close> up to \<open>b - 1\<close>.\<close>

definition fill_buf :: "nat \<Rightarrow> nat \<Rightarrow> char \<Rightarrow> char list \<Rightarrow> char list" where
  "fill_buf a b c buf = foldl (\<lambda>buf i. buf[i := c]) buf [a..<b]"

text \<open>The loop that swaps \<open>buf[begin]\<close> and \<open>buf[end]\<close>.\<close>

function swap_range :: "nat \<Rightarrow> nat \<Rightarrow> char list \<Rightarrow> char list" where
  "swap_range b e buf =
     (if b < e then swap_range (b + 1) (e - 1) (buf[b := buf ! e, e := buf ! b]) else buf)"
  by auto
termination by (relation "measure (\<lambda>(b, e, _). e - b)") auto

declare swap_range.simps [simp del]

definition print_num ::
  "'s sink \<Rightarrow> u32 \<Rightarrow> nat \<Rightarrow> bool \<Rightarrow> nat \<Rightarrow> bool \<Rightarrow> char \<Rightarrow> bool \<Rightarrow> 's \<Rightarrow> 's outcome" where
  "print_num out u bs neg_flag len ladjust padc upcase s =
     (let digits = put_digits upcase bs (unat u) @ (if neg_flag then ''-'' else []) in
      if len + 70 < length digits then Undef
      else
        let buf = digits @ replicate (len + 70 - length digits) NUL;
            actualLength = length digits;
            len = (if len < actualLength then actualLength else len);
            padc = (if ladjust then CHR '' '' else padc);
            buf = (if neg_flag \<and> \<not> ladjust \<and> padc = CHR ''0''
                   then (fill_buf (actualLength - 1) (len - 1) padc buf)[len - 1 := CHR ''-'']
                   else fill_buf actualLength len padc buf);
            e = (if ladjust then actualLength - 1 else len - 1);
            buf = swap_range 0 e buf
        in out (take len buf) s)"

fun out_n :: "'s sink \<Rightarrow> nat \<Rightarrow> char \<Rightarrow> 's \<Rightarrow> 's outcome" where
  "out_n out 0 c s = Ret s"
| "out_n out (Suc n) c s = obind (out [c] s) (out_n out n c)"

definition print_char :: "'s sink \<Rightarrow> char \<Rightarrow> nat \<Rightarrow> bool \<Rightarrow> 's \<Rightarrow> 's outcome" where
  "print_char out c len ladjust s =
     (let len = (if len < 1 then 1 else len) in
      if ladjust then obind (out [c] s) (out_n out (len - 1) (CHR '' ''))
      else obind (out_n out (len - 1) (CHR '' '') s) (out [c]))"

definition print_str :: "'s sink \<Rightarrow> char list \<Rightarrow> nat \<Rightarrow> bool \<Rightarrow> 's \<Rightarrow> 's outcome" where
  "print_str out str width ladjust s =
     obind (strlen str) (\<lambda>len.
       let width = (if width < len then len else width) in
       if ladjust then obind (out (take len str) s) (out_n out (width - len) (CHR '' ''))
       else obind (out_n out (width - len) (CHR '' '') s) (out (take len str)))"

section \<open>\<open>vprintfmt\<close>\<close>

datatype arg = ArgInt u32 | ArgStr "char list"

fun va_int :: "arg list \<Rightarrow> (u32 \<times> arg list) outcome" where
  "va_int (ArgInt n # ap) = Ret (n, ap)"
| "va_int _ = Undef"

fun va_str :: "arg list \<Rightarrow> (char list \<times> arg list) outcome" where
  "va_str (ArgStr t # ap) = Ret (t, ap)"
| "va_str _ = Undef"

text \<open>The conversion specification after a percent sign: flags, width and length modifier.\<close>

definition is_digit :: "char \<Rightarrow> bool" where
  "is_digit c \<longleftrightarrow> (48 :: nat) \<le> of_char c \<and> of_char c \<le> (57 :: nat)"

fun scan_width :: "nat \<Rightarrow> char list \<Rightarrow> nat \<times> char list" where
  "scan_width w [] = (w, [])"
| "scan_width w (c # fmt) = (if is_digit c then scan_width (w * 10 + (of_char c - 48)) fmt else (w, c # fmt))"

definition skip_char :: "char \<Rightarrow> char list \<Rightarrow> bool \<times> char list" where
  "skip_char x fmt = (case fmt of c # rest \<Rightarrow> if c = x then (True, rest) else (False, fmt) | [] \<Rightarrow> (False, []))"

definition scan_spec :: "char list \<Rightarrow> bool \<times> char \<times> nat \<times> bool \<times> char list" where
  "scan_spec fmt =
     (let (ladjust, fmt) = skip_char (CHR ''-'') fmt;
          (zero, fmt) = skip_char (CHR ''0'') fmt;
          padc = (if zero then CHR ''0'' else CHR '' '');
          (width, fmt) = (if fmt \<noteq> [] \<and> is_digit (hd fmt) \<and> hd fmt \<noteq> CHR ''0'' then scan_width 0 fmt else (0, fmt));
          (long_flag, fmt) = skip_char (CHR ''l'') fmt
      in (ladjust, padc, width, long_flag, fmt))"

text \<open>The \<open>switch\<close>: \<open>int\<close> and \<open>long\<close> have the same width, so \<open>long_flag\<close> makes no difference.\<close>

definition conversion ::
  "'s sink \<Rightarrow> char \<Rightarrow> bool \<Rightarrow> char \<Rightarrow> nat \<Rightarrow> arg list \<Rightarrow> 's \<Rightarrow> (arg list \<times> 's) outcome" where
  "conversion out k ladjust padc width ap s =
     (let num = (\<lambda>bs upcase. obind (va_int ap) (\<lambda>(n, ap).
                   obind (print_num out n bs False width ladjust padc upcase s) (\<lambda>s. Ret (ap, s))))
      in if k = CHR ''b'' then num 2 False
         else if k = CHR ''d'' \<or> k = CHR ''D'' then
           obind (va_int ap) (\<lambda>(n, ap).
             let neg_flag = n <s 0; n = (if neg_flag then - n else n) in
             obind (print_num out n 10 neg_flag width ladjust padc False s) (\<lambda>s. Ret (ap, s)))
         else if k = CHR ''o'' \<or> k = CHR ''O'' then num 8 False
         else if k = CHR ''u'' \<or> k = CHR ''U'' then num 10 False
         else if k = CHR ''x'' then num 16 False
         else if k = CHR ''X'' then num 16 True
         else if k = CHR ''c'' then
           obind (va_int ap) (\<lambda>(n, ap).
             obind (print_char out (char_of (unat n mod 256)) width ladjust s) (\<lambda>s. Ret (ap, s)))
         else if k = CHR ''s'' then
           obind (va_str ap) (\<lambda>(t, ap). obind (print_str out t width ladjust s) (\<lambda>s. Ret (ap, s)))
         else obind (out [k] s) (\<lambda>s. Ret (ap, s)))"

lemma skip_char_length: "skip_char x fmt = (b, rest) \<Longrightarrow> length rest \<le> length fmt"
  by (auto simp: skip_char_def split: list.splits if_splits)

lemma scan_width_length: "scan_width w fmt = (n, rest) \<Longrightarrow> length rest \<le> length fmt"
  by (induction w fmt rule: scan_width.induct) (auto split: if_splits)

lemma scan_spec_length: "scan_spec fmt = (l, p, w, g, rest) \<Longrightarrow> length rest \<le> length fmt"
  unfolding scan_spec_def Let_def
  by (auto split: prod.splits if_splits dest!: skip_char_length scan_width_length)

text \<open>
  A width that does not fit an \<open>int\<close> is undefined. When the string ends inside a specification the code
  steps back onto the terminator and leaves the loop.
\<close>

function vprintfmt :: "'s sink \<Rightarrow> char list \<Rightarrow> arg list \<Rightarrow> 's \<Rightarrow> 's outcome" where
  "vprintfmt out [] ap s = Undef"
| "vprintfmt out (c # fmt) ap s =
     (if c = NUL then Ret s
      else if c \<noteq> CHR ''%'' then obind (out [c] s) (vprintfmt out fmt ap)
      else
        case scan_spec fmt of
          (ladjust, padc, width, long_flag, rest) \<Rightarrow>
            if 2 ^ 31 \<le> width then Undef
            else (case rest of
                [] \<Rightarrow> Undef
              | k # rest \<Rightarrow>
                  if k = NUL then Ret s
                  else obind (conversion out k ladjust padc width ap s) (\<lambda>(ap, s). vprintfmt out rest ap s)))"
  by pat_completeness auto
termination
  by (relation "measure (\<lambda>(_, fmt, _, _). length fmt)") (auto dest!: scan_spec_length[OF sym])

declare vprintfmt.simps [simp del]

section \<open>Sinks\<close>

text \<open>\<open>outputk\<close> writes the characters to the console one by one.\<close>

fun outputk :: "(char \<Rightarrow> 's \<Rightarrow> 's) \<Rightarrow> 's sink" where
  "outputk putc [] s = Ret s"
| "outputk putc (c # cs) s = outputk putc cs (putc c s)"

text \<open>The buffered sink of \<open>debugf\<close>; \<open>cons\<close> is the text that \<open>syscall_print_cons\<close> has printed.\<close>

abbreviation (input) BUF_LEN :: nat where "BUF_LEN \<equiv> 1024"

record debug_ctx =
  db_buf :: "char list"
  db_pos :: nat
  db_cons :: "char list"

definition debug_flush :: "debug_ctx \<Rightarrow> debug_ctx" where
  "debug_flush ctx =
     (if db_pos ctx = 0 then ctx
      else ctx\<lparr>db_cons := db_cons ctx @ take (db_pos ctx) (db_buf ctx), db_pos := 0\<rparr>)"

definition buf_copy :: "nat \<Rightarrow> char list \<Rightarrow> char list \<Rightarrow> char list" where
  "buf_copy pos cs buf = take pos buf @ cs @ drop (pos + length cs) buf"

function debug_output :: "char list \<Rightarrow> debug_ctx \<Rightarrow> debug_ctx outcome" where
  "debug_output cs ctx =
     (if BUF_LEN < db_pos ctx then Undef
      else if BUF_LEN < db_pos ctx + length cs then
        let n = BUF_LEN - db_pos ctx in
        debug_output (drop n cs)
          (debug_flush (ctx\<lparr>db_buf := buf_copy (db_pos ctx) (take n cs) (db_buf ctx), db_pos := BUF_LEN\<rparr>))
      else Ret (ctx\<lparr>db_buf := buf_copy (db_pos ctx) cs (db_buf ctx), db_pos := db_pos ctx + length cs\<rparr>))"
  by auto
termination
  by (relation "measures [\<lambda>(cs, ctx). length cs, \<lambda>(cs, ctx). db_pos ctx]")
     (auto simp: debug_flush_def)

declare debug_output.simps [simp del]

definition vdebugf :: "char list \<Rightarrow> arg list \<Rightarrow> debug_ctx \<Rightarrow> debug_ctx outcome" where
  "vdebugf fmt ap ctx =
     obind (vprintfmt debug_output fmt ap (ctx\<lparr>db_pos := 0\<rparr>)) (\<lambda>ctx. Ret (debug_flush ctx))"

text \<open>The sink of \<open>fprintf\<close>: it stops at the first error of \<open>write\<close> and adds up the lengths otherwise.\<close>

definition print_output :: "(char list \<Rightarrow> 's \<Rightarrow> (int \<times> 's) outcome) \<Rightarrow> char list \<Rightarrow> int \<times> 's \<Rightarrow> (int \<times> 's) outcome" where
  "print_output wr cs ctx =
     (case ctx of (ret, s) \<Rightarrow>
        if ret < 0 then Ret (ret, s)
        else obind (wr cs s) (\<lambda>(r, s). Ret (if r < 0 then r else ret + r, s)))"

definition vfprintf :: "(char list \<Rightarrow> 's \<Rightarrow> (int \<times> 's) outcome) \<Rightarrow> char list \<Rightarrow> arg list \<Rightarrow> 's \<Rightarrow> (int \<times> 's) outcome" where
  "vfprintf wr fmt ap s = vprintfmt (print_output wr) fmt ap (0, s)"

section \<open>The number printer against its reference\<close>

text \<open>The numeral of a number, most significant digit first, and its reading back.\<close>

definition num_text :: "bool \<Rightarrow> nat \<Rightarrow> nat \<Rightarrow> char list" where
  "num_text upcase bs u = rev (put_digits upcase bs u)"

definition digit_val :: "char \<Rightarrow> nat" where
  "digit_val c = (let n = of_char c in if n \<le> 57 then n - 48 else if n \<le> 90 then n - 55 else n - 87)"

definition num_value :: "nat \<Rightarrow> char list \<Rightarrow> nat" where
  "num_value bs cs = foldl (\<lambda>v c. v * bs + digit_val c) 0 cs"

text \<open>The text of a number in a field: sign, padding and adjustment.\<close>

definition field_text :: "bool \<Rightarrow> nat \<Rightarrow> bool \<Rightarrow> char \<Rightarrow> char list \<Rightarrow> char list" where
  "field_text neg_flag len ladjust padc digits =
     (let t = (if neg_flag then CHR ''-'' # digits else digits); pad = len - length t in
      if ladjust then t @ replicate pad (CHR '' '')
      else if neg_flag \<and> padc = CHR ''0'' then CHR ''-'' # replicate pad (CHR ''0'') @ digits
      else replicate pad padc @ t)"

lemma digit_val_char: "d < 16 \<Longrightarrow> digit_val (digit_char upcase d) = d"
  by (auto simp: digit_val_def digit_char_def Let_def)

lemma digit_char_zero: "d < 16 \<Longrightarrow> digit_char upcase d = CHR ''0'' \<longleftrightarrow> d = 0"
  using digit_val_char[of d upcase] by (auto simp: digit_char_def digit_val_def char_of_eq_iff take_bit_eq_mod)

lemma put_digits_value:
  "2 \<le> bs \<Longrightarrow> bs \<le> 16 \<Longrightarrow> num_value bs (num_text upcase bs u) = u"
proof (induction upcase bs u rule: put_digits.induct)
  case (1 upcase bs u)
  have d: "digit_val (digit_char upcase (u mod bs)) = u mod bs"
    using 1(2,3) by (intro digit_val_char less_le_trans[OF mod_less_divisor]) auto
  show ?case
  proof (cases "u div bs = 0")
    case True
    then show ?thesis using d by (simp add: num_value_def num_text_def put_digits.simps[of upcase bs u] mod_eq_self_iff_div_eq_0)
  next
    case False
    then have "num_value bs (num_text upcase bs (u div bs)) = u div bs" using 1 by simp
    then show ?thesis using False d 1(2)
      by (simp add: num_value_def num_text_def put_digits.simps[of upcase bs u])
  qed
qed

lemma put_digits_last:
  "2 \<le> bs \<Longrightarrow> bs \<le> 16 \<Longrightarrow> u \<noteq> 0 \<Longrightarrow> last (put_digits upcase bs u) \<noteq> CHR ''0''"
proof (induction upcase bs u rule: put_digits.induct)
  case (1 upcase bs u)
  show ?case
  proof (cases "u div bs = 0")
    case True
    then have "u mod bs = u" by (simp add: mod_eq_self_iff_div_eq_0)
    moreover have "u mod bs < 16" using 1(2,3) by (intro less_le_trans[OF mod_less_divisor]) auto
    ultimately show ?thesis using 1(4) True digit_char_zero[of "u mod bs" upcase]
      by (simp add: put_digits.simps[of upcase bs u])
  next
    case False
    have "put_digits upcase bs (u div bs) \<noteq> []" by (simp add: put_digits.simps)
    then show ?thesis using 1 False by (simp add: put_digits.simps[of upcase bs u])
  qed
qed

lemma put_digits_length: "2 \<le> bs \<Longrightarrow> 0 < n \<Longrightarrow> u < 2 ^ n \<Longrightarrow> length (put_digits upcase bs u) \<le> n"
proof (induction upcase bs u arbitrary: n rule: put_digits.induct)
  case (1 upcase bs u)
  show ?case
  proof (cases "u div bs = 0")
    case True
    then show ?thesis using 1(3) by (simp add: put_digits.simps[of upcase bs u])
  next
    case False
    have le: "u div bs \<le> u div 2" using 1(2) by (simp add: div_le_mono2)
    have n1: "0 < n - 1"
    proof (rule ccontr)
      assume "\<not> 0 < n - 1"
      then have "n = 1" using 1(3) by simp
      then show False using 1(4) False le by simp
    qed
    have "u div 2 < 2 ^ (n - 1)" using 1(4) n1 by (cases n) (auto simp: less_mult_imp_div_less mult.commute)
    then have "length (put_digits upcase bs (u div bs)) \<le> n - 1"
      using 1(1)[of "n - 1"] 1(2) False n1 le by simp
    then show ?thesis using False 1(2) n1 by (simp add: put_digits.simps[of upcase bs u])
  qed
qed

lemma put_digits_ne [simp]: "put_digits upcase bs u \<noteq> []" "0 < length (put_digits upcase bs u)"
  by (simp_all add: put_digits.simps[of upcase bs u])

lemma fill_buf_eq:
  "a \<le> b \<Longrightarrow> b \<le> length buf \<Longrightarrow> fill_buf a b c buf = take a buf @ replicate (b - a) c @ drop b buf"
proof (induction b)
  case (Suc b)
  show ?case
  proof (cases "a = Suc b")
    case True
    then show ?thesis by (simp add: fill_buf_def)
  next
    case False
    then have "fill_buf a (Suc b) c buf = (fill_buf a b c buf)[b := c]" using Suc.prems by (simp add: fill_buf_def)
    also have "\<dots> = (take a buf @ replicate (b - a) c @ drop b buf)[b := c]" using Suc False by simp
    also have "\<dots> = take a buf @ replicate (b - a) c @ (drop b buf)[0 := c]"
      using Suc.prems False by (simp add: list_update_append)
    also have "(drop b buf)[0 := c] = c # drop (Suc b) buf"
      using Suc.prems by (simp add: Cons_nth_drop_Suc[symmetric])
    finally show ?thesis using Suc.prems False by (simp add: Suc_diff_le replicate_append_same[symmetric])
  qed
qed (simp add: fill_buf_def)

lemma swap_range_eq:
  "swap_range (length xs) (length xs + length mid - 1) (xs @ mid @ ys) = xs @ rev mid @ ys"
proof (induction "length mid" arbitrary: xs mid ys rule: less_induct)
  case less
  consider "mid = []" | a where "mid = [a]" | a m z where "mid = a # m @ [z]"
  proof (cases mid)
    case (Cons a l)
    then show ?thesis using that(2,3) by (cases l rule: rev_cases) auto
  qed (use that(1) in simp)
  then show ?case
  proof cases
    case (3 a m z)
    let ?b = "length xs" and ?e = "Suc (length xs + length m)"
    have nth: "(xs @ mid @ ys) ! ?e = z" "(xs @ mid @ ys) ! ?b = a" unfolding 3 by (simp_all add: nth_append)
    have upd: "(xs @ mid @ ys)[?b := z, ?e := a] = (xs @ [z]) @ m @ ([a] @ ys)"
      unfolding 3 by (simp add: list_update_append)
    have "swap_range ?b ?e (xs @ mid @ ys) = swap_range (?b + 1) (?e - 1) ((xs @ [z]) @ m @ ([a] @ ys))"
      using nth upd by (subst swap_range.simps) simp
    also have "\<dots> = swap_range (length (xs @ [z])) (length (xs @ [z]) + length m - 1) ((xs @ [z]) @ m @ ([a] @ ys))"
      by simp
    also have "\<dots> = (xs @ [z]) @ rev m @ ([a] @ ys)" by (rule less) (simp add: 3)
    finally show ?thesis by (simp add: 3)
  next
    case 1
    have "\<not> length xs < length xs - 1" by simp
    then show ?thesis unfolding 1 by (subst swap_range.simps) simp
  qed (simp add: swap_range.simps)
qed

lemma swap_range_prefix: "mid \<noteq> [] \<Longrightarrow> swap_range 0 (length mid - 1) (mid @ ys) = rev mid @ ys"
  using swap_range_eq[of "[]" mid ys] by simp

lemma print_num_eq:
  assumes "2 \<le> bs"
  shows "print_num out u bs neg_flag len ladjust padc upcase s =
    out (field_text neg_flag len ladjust padc (num_text upcase bs (unat u))) s"
proof -
  define ds where "ds = put_digits upcase bs (unat u)"
  define t where "t = ds @ (if neg_flag then ''-'' else [])"
  define n where "n = max len (length t)"
  define rest where "rest = replicate (len + 70 - length t) NUL"
  have lt: "length t \<le> 33" "t \<noteq> []"
    using put_digits_length[OF assms, of 32 "unat u" upcase] unsigned_less[of u] by (auto simp: t_def ds_def)
  have lb: "length (t @ rest) = len + 70" using lt by (simp add: rest_def)
  have n: "length t \<le> n" "n \<le> len + 70" "(if len < length t then length t else len) = n" "n - length t = len - length t"
    using lt by (auto simp: n_def)
  have drop_t: "take (length t) (t @ rest) = t" by simp
  show ?thesis
  proof (cases "neg_flag \<and> \<not> ladjust \<and> padc = CHR ''0''")
    case True
    then have t': "t = ds @ ''-''" by (simp add: t_def)
    have f: "fill_buf (length t - 1) (n - 1) (CHR ''0'') (t @ rest) = ds @ replicate (n - length t) (CHR ''0'') @ drop (n - 1) (t @ rest)"
    proof -
      have "take (length t - 1) (t @ rest) = ds" by (simp add: t')
      moreover have "n - 1 - (length t - 1) = n - length t" using lt(2) by (cases t) auto
      ultimately show ?thesis using n(1,2) lb by (subst fill_buf_eq) simp_all
    qed
    have n1: "n - 1 < length (t @ rest)" "length ds + (n - length t) = n - 1" using n(1,2) lb lt(2) t' by auto
    have "(fill_buf (length t - 1) (n - 1) (CHR ''0'') (t @ rest))[n - 1 := CHR ''-'']
        = ds @ replicate (n - length t) (CHR ''0'') @ ''-'' @ drop n (t @ rest)"
    proof -
      have "(drop (n - 1) (t @ rest))[0 := CHR ''-''] = CHR ''-'' # drop (Suc (n - 1)) (t @ rest)"
        using n1(1) by (subst Cons_nth_drop_Suc[symmetric]) simp_all
      moreover have "Suc (n - 1) = n" using n(1) lt(2) by (cases t) auto
      moreover have "(ys @ zs)[length ys := x] = ys @ zs[0 := x]" for ys zs :: "char list" and x by (simp add: list_update_append)
      from this[of "ds @ replicate (n - length t) (CHR ''0'')" "drop (n - 1) (t @ rest)" "CHR ''-''"]
      have "((ds @ replicate (n - length t) (CHR ''0'')) @ drop (n - 1) (t @ rest))[n - 1 := CHR ''-'']
          = (ds @ replicate (n - length t) (CHR ''0'')) @ (drop (n - 1) (t @ rest))[0 := CHR ''-'']"
        unfolding length_append length_replicate n1(2) .
      ultimately show ?thesis unfolding f by (simp only: append_assoc append_Cons append_Nil)
    qed
    then have g: "(fill_buf (length t - 1) (n - 1) (CHR ''0'') (t @ rest))[n - 1 := CHR ''-'']
        = (ds @ replicate (n - length t) (CHR ''0'') @ ''-'') @ drop n (t @ rest)" by simp
    have len: "length (ds @ replicate (n - length t) (CHR ''0'') @ ''-'') = n" using n(1) t' by simp
    have sw: "swap_range 0 (n - 1) ((fill_buf (length t - 1) (n - 1) (CHR ''0'') (t @ rest))[n - 1 := CHR ''-''])
        = rev (ds @ replicate (n - length t) (CHR ''0'') @ ''-'') @ drop n (t @ rest)"
      unfolding g using swap_range_prefix[of "ds @ replicate (n - length t) (CHR ''0'') @ ''-''", unfolded len] by blast
    have tk: "take n (rev (ds @ replicate (n - length t) (CHR ''0'') @ ''-'') @ drop n (t @ rest))
        = rev (ds @ replicate (n - length t) (CHR ''0'') @ ''-'')"
    proof -
      have "take (length xs) (rev xs @ ys) = rev xs" for xs ys :: "char list" by simp
      from this[of "ds @ replicate (n - length t) (CHR ''0'') @ ''-''", unfolded len] show ?thesis .
    qed
    have "print_num out u bs neg_flag len ladjust padc upcase s = out (rev (ds @ replicate (n - length t) (CHR ''0'') @ ''-'')) s"
      unfolding print_num_def Let_def ds_def[symmetric] t_def[symmetric] rest_def[symmetric] n(3)
      using True lt(1) sw tk by simp
    then show ?thesis using True n(4) t' by (simp add: field_text_def num_text_def ds_def)
  next
    case False
    let ?p = "if ladjust then CHR '' '' else padc"
    have f: "fill_buf (length t) n ?p (t @ rest) = t @ replicate (n - length t) ?p @ drop n (t @ rest)"
      using fill_buf_eq[OF n(1)] n(2) lb by simp
    have run: "print_num out u bs neg_flag len ladjust padc upcase s
        = out (take n (swap_range 0 (if ladjust then length t - 1 else n - 1) (fill_buf (length t) n ?p (t @ rest)))) s"
      unfolding print_num_def Let_def ds_def[symmetric] t_def[symmetric] rest_def[symmetric] n(3)
      using False lt(1) by auto
    show ?thesis
    proof (cases ladjust)
      case True
      have "take n (rev t @ replicate (n - length t) (CHR '' '') @ drop n (t @ rest)) = rev t @ replicate (n - length t) (CHR '' '')"
        using n(1) by simp
      then show ?thesis unfolding run f using True swap_range_prefix[OF lt(2)] n(4)
        by (simp add: field_text_def num_text_def t_def ds_def)
    next
      case l: False
      have "t @ replicate (n - length t) padc \<noteq> []" "length (t @ replicate (n - length t) padc) = n" using lt(2) n(1) by simp_all
      from swap_range_prefix[OF this(1), of "drop n (t @ rest)", unfolded this(2)]
      have "swap_range 0 (n - 1) (t @ replicate (n - length t) padc @ drop n (t @ rest))
          = rev (t @ replicate (n - length t) padc) @ drop n (t @ rest)" by simp
      moreover have "take n (rev (t @ replicate (n - length t) padc) @ drop n (t @ rest)) = rev (t @ replicate (n - length t) padc)"
        using n(1) by simp
      ultimately show ?thesis unfolding run f using False l n(4)
        by (auto simp: field_text_def num_text_def t_def ds_def)
    qed
  qed
qed

text \<open>
  C35. \<open>print_num\<close>, which builds the digits backwards in a buffer, pads and reverses it in place, hands its sink
  exactly the field of the number's numeral, for every base, width, sign, adjustment and padding; reading the
  numeral back in that base gives the number, and it has no leading zeros.
\<close>

theorem print_num_correct:
  assumes "2 \<le> bs" and "bs \<le> 16"
  shows "print_num out u bs neg_flag len ladjust padc upcase s =
      out (field_text neg_flag len ladjust padc (num_text upcase bs (unat u))) s
    \<and> num_value bs (num_text upcase bs (unat u)) = unat u
    \<and> (u \<noteq> 0 \<longrightarrow> hd (num_text upcase bs (unat u)) \<noteq> CHR ''0'')"
  using print_num_eq[OF assms(1)] put_digits_value[OF assms] put_digits_last[OF assms, of "unat u" upcase]
  by (simp add: num_text_def hd_rev unsigned_eq_0_iff)

theorem print_num_correct_witness:
  "print_num (\<lambda>cs s. Ret (s @ cs)) 239 16 False 4 False (CHR ''0'') False ''0x'' = Ret ''0x00ef''"
proof -
  have "digit_char False 15 = CHR ''f''" "digit_char False 14 = CHR ''e''"
    by (simp_all add: digit_char_def char_of_eq_iff take_bit_eq_mod)
  then have "num_text False 16 239 = ''ef''" by (simp add: num_text_def put_digits.simps)
  then have "field_text False 4 False (CHR ''0'') (num_text False 16 239) = ''00ef''"
    by (simp add: field_text_def numeral_2_eq_2)
  moreover have "unat (239 :: u32) = 239" by simp
  ultimately show ?thesis
    using print_num_correct[of 16 "\<lambda>cs s. Ret (s @ cs)" 239 False 4 False "CHR ''0''" False "''0x''"] by (simp only: append.simps simp_thms)
qed

section \<open>Sinks agree\<close>

text \<open>
  The interface of a sink: \<open>contents\<close> is the text it has received. Whatever the sink, \<open>vprintfmt\<close> delivers the
  text that it delivers to the plain list sink.
\<close>

abbreviation list_sink :: "char list sink" where
  "list_sink \<equiv> \<lambda>cs s. Ret (s @ cs)"

locale fmt_sink =
  fixes out :: "'s sink" and contents :: "'s \<Rightarrow> char list" and ok :: "'s \<Rightarrow> bool"
  assumes out_ok: "ok s \<Longrightarrow> returns (\<lambda>s'. ok s' \<and> contents s' = contents s @ cs) (out cs s)"
begin

lemma out_n_ok: "ok s \<Longrightarrow> returns (\<lambda>s'. ok s' \<and> contents s' = contents s @ replicate n c) (out_n out n c s)"
proof (induction n arbitrary: s)
  case (Suc n)
  from out_ok[OF Suc.prems, of "[c]"] obtain s1 where "out [c] s = Ret s1" "ok s1" "contents s1 = contents s @ [c]"
    by (auto simp: returns_iff)
  then show ?case using Suc.IH[of s1] by simp
qed simp

lemma print_char_ok:
  assumes "ok s"
  shows "returns (\<lambda>s'. ok s' \<and> contents s' = contents s @ (if l then c # replicate (n - 1) (CHR '' '') else replicate (n - 1) (CHR '' '') @ [c]))
    (print_char out c n l s)"
proof -
  have m: "(if n < 1 then 1 else n) - 1 = n - 1" by simp
  show ?thesis
  proof (cases l)
    case True
    from out_ok[OF assms, of "[c]"] obtain s1 where "out [c] s = Ret s1" "ok s1" "contents s1 = contents s @ [c]" by (auto simp: returns_iff)
    then show ?thesis using True out_n_ok[of s1 "n - 1" "CHR '' ''"] by (simp add: print_char_def Let_def)
  next
    case False
    from out_n_ok[OF assms, of "n - 1" "CHR '' ''"] obtain s1 where "out_n out (n - 1) (CHR '' '') s = Ret s1" "ok s1"
      "contents s1 = contents s @ replicate (n - 1) (CHR '' '')" by (auto simp: returns_iff)
    then show ?thesis using False out_ok[of s1 "[c]"] unfolding print_char_def Let_def m by simp
  qed
qed

lemma print_str_ok:
  assumes "ok s" "terminated t"
  shows "returns (\<lambda>s'. ok s' \<and> contents s' = contents s @ (let pad = replicate (w - length (cstr t)) (CHR '' '') in if l then cstr t @ pad else pad @ cstr t))
    (print_str out t w l s)"
proof -
  have tk: "take (length (cstr t)) t = cstr t" unfolding cstr_def by (metis takeWhile_eq_take)
  have m: "(if w < length (cstr t) then length (cstr t) else w) - length (cstr t) = w - length (cstr t)" by simp
  show ?thesis
  proof (cases l)
    case True
    from out_ok[OF assms(1), of "cstr t"] obtain s1 where "out (cstr t) s = Ret s1" "ok s1" "contents s1 = contents s @ cstr t" by (auto simp: returns_iff)
    then show ?thesis using True assms(2) out_n_ok[of s1 "w - length (cstr t)" "CHR '' ''"]
      by (simp add: print_str_def strlen_eq Let_def tk)
  next
    case False
    from out_n_ok[OF assms(1), of "w - length (cstr t)" "CHR '' ''"] obtain s1 where "out_n out (w - length (cstr t)) (CHR '' '') s = Ret s1" "ok s1"
      "contents s1 = contents s @ replicate (w - length (cstr t)) (CHR '' '')" by (auto simp: returns_iff)
    then show ?thesis using False assms(2) out_ok[of s1 "cstr t"] unfolding print_str_def strlen_eq if_P[OF assms(2)] obind.simps Let_def tk m by simp
  qed
qed

end

interpretation list_out: fmt_sink list_sink "\<lambda>s. s" "\<lambda>_. True"
  by unfold_locales simp

context fmt_sink
begin

text \<open>Each piece of output does to the sink what it does to the list sink.\<close>

definition mimics :: "(char list \<Rightarrow> (arg list \<times> char list) outcome) \<Rightarrow> ('s \<Rightarrow> (arg list \<times> 's) outcome) \<Rightarrow> bool" where
  "mimics f g \<longleftrightarrow> (\<forall>s ap' t'. ok s \<longrightarrow> f (contents s) = Ret (ap', t') \<longrightarrow>
     returns (\<lambda>(ap, s'). ap = ap' \<and> ok s' \<and> contents s' = t') (g s))"

lemma mimics_out:
  assumes "\<And>s. ok s \<Longrightarrow> returns (\<lambda>s'. ok s' \<and> contents s' = contents s @ x) (g s)"
    and "\<And>t. f t = Ret (t @ x)"
  shows "mimics (\<lambda>t. obind (f t) (\<lambda>t. Ret (ap, t))) (\<lambda>s. obind (g s) (\<lambda>s. Ret (ap, s)))"
  unfolding mimics_def
proof (intro allI impI)
  fix s ap' t' assume a: "ok s" "obind (f (contents s)) (\<lambda>t. Ret (ap, t)) = Ret (ap', t')"
  from assms(1)[OF a(1)] obtain s' where "g s = Ret s'" "ok s'" "contents s' = contents s @ x" by (auto simp: returns_iff)
  with a(2) assms(2) show "returns (\<lambda>(ap, s'). ap = ap' \<and> ok s' \<and> contents s' = t') (obind (g s) (\<lambda>s. Ret (ap, s)))" by simp
qed

lemma mimics_va:
  assumes "\<And>x ap. m = Ret (x, ap) \<Longrightarrow> mimics (f x ap) (g x ap)"
  shows "mimics (\<lambda>t. obind m (\<lambda>(x, ap). f x ap t)) (\<lambda>s. obind m (\<lambda>(x, ap). g x ap s))"
  using assms by (cases m) (auto simp: mimics_def)

lemma mimics_if:
  "mimics f g \<Longrightarrow> mimics f' g' \<Longrightarrow> mimics (\<lambda>t. if c then f t else f' t) (\<lambda>s. if c then g s else g' s)"
  by (cases c) simp_all

lemma mimics_num:
  assumes "2 \<le> bs"
  shows "mimics (\<lambda>t. obind (print_num list_sink n bs neg w l p up t) (\<lambda>t. Ret (ap, t)))
    (\<lambda>s. obind (print_num out n bs neg w l p up s) (\<lambda>s. Ret (ap, s)))"
  unfolding print_num_eq[OF assms] by (rule mimics_out[OF out_ok]) simp_all

lemma mimics_char:
  "mimics (\<lambda>t. obind (print_char list_sink c w l t) (\<lambda>t. Ret (ap, t)))
    (\<lambda>s. obind (print_char out c w l s) (\<lambda>s. Ret (ap, s)))"
  using list_out.print_char_ok[OF TrueI] by (intro mimics_out[OF print_char_ok]) (auto simp: returns_iff)

lemma mimics_str:
  "mimics (\<lambda>t. obind (print_str list_sink x w l t) (\<lambda>t. Ret (ap, t)))
    (\<lambda>s. obind (print_str out x w l s) (\<lambda>s. Ret (ap, s)))"
proof (cases "terminated x")
  case True
  then show ?thesis
    using list_out.print_str_ok[OF TrueI True] by (intro mimics_out[OF print_str_ok]) (auto simp: returns_iff)
next
  case False
  then show ?thesis by (simp add: print_str_def strlen_eq mimics_def)
qed

lemma mimics_conversion: "mimics (conversion list_sink k l p w ap) (conversion out k l p w ap)"
proof -
  have num: "mimics (\<lambda>t. obind (va_int ap) (\<lambda>(n, ap). obind (print_num list_sink n bs False w l p up t) (\<lambda>t. Ret (ap, t))))
      (\<lambda>s. obind (va_int ap) (\<lambda>(n, ap). obind (print_num out n bs False w l p up s) (\<lambda>s. Ret (ap, s))))" if "2 \<le> bs" for bs up
    by (rule mimics_va) (rule mimics_num[OF that])
  have dec: "mimics (\<lambda>t. obind (va_int ap) (\<lambda>(n, ap). let neg_flag = n <s 0; n = (if neg_flag then - n else n) in
          obind (print_num list_sink n 10 neg_flag w l p False t) (\<lambda>t. Ret (ap, t))))
      (\<lambda>s. obind (va_int ap) (\<lambda>(n, ap). let neg_flag = n <s 0; n = (if neg_flag then - n else n) in
          obind (print_num out n 10 neg_flag w l p False s) (\<lambda>s. Ret (ap, s))))"
    unfolding Let_def by (rule mimics_va) (rule mimics_num, simp)
  have chr: "mimics (\<lambda>t. obind (va_int ap) (\<lambda>(n, ap). obind (print_char list_sink (char_of (unat n mod 256)) w l t) (\<lambda>t. Ret (ap, t))))
      (\<lambda>s. obind (va_int ap) (\<lambda>(n, ap). obind (print_char out (char_of (unat n mod 256)) w l s) (\<lambda>s. Ret (ap, s))))"
    by (rule mimics_va) (rule mimics_char)
  have str: "mimics (\<lambda>t. obind (va_str ap) (\<lambda>(x, ap). obind (print_str list_sink x w l t) (\<lambda>t. Ret (ap, t))))
      (\<lambda>s. obind (va_str ap) (\<lambda>(x, ap). obind (print_str out x w l s) (\<lambda>s. Ret (ap, s))))"
    by (rule mimics_va) (rule mimics_str)
  have lit: "mimics (\<lambda>t. obind (list_sink [k] t) (\<lambda>t. Ret (ap, t))) (\<lambda>s. obind (out [k] s) (\<lambda>s. Ret (ap, s)))"
    by (rule mimics_out[OF out_ok]) simp_all
  show ?thesis
    unfolding conversion_def[abs_def] Let_def
    by (intro mimics_if num dec[unfolded Let_def] chr str lit) simp_all
qed

lemma vprintfmt_list:
  "ok s \<Longrightarrow> vprintfmt list_sink fmt ap (contents s) = Ret t \<Longrightarrow> returns (\<lambda>s'. ok s' \<and> contents s' = t) (vprintfmt out fmt ap s)"
proof (induction "length fmt" arbitrary: fmt ap s rule: less_induct)
  case less
  show ?case
  proof (cases fmt)
    case Nil
    then show ?thesis using less.prems(2) by (simp add: vprintfmt.simps)
  next
    case (Cons c cs)
    show ?thesis
    proof (cases "c = NUL \<or> c \<noteq> CHR ''%''")
      case True
      show ?thesis
      proof (cases "c = NUL")
        case True
        then show ?thesis using less.prems Cons by (simp add: vprintfmt.simps)
      next
        case False
        from out_ok[OF less.prems(1), of "[c]"] obtain s1 where s1: "out [c] s = Ret s1" "ok s1" "contents s1 = contents s @ [c]"
          by (auto simp: returns_iff)
        have "vprintfmt list_sink cs ap (contents s1) = Ret t" using less.prems(2) Cons True False s1(3) by (simp add: vprintfmt.simps)
        from less.hyps[OF _ s1(2) this] show ?thesis using Cons True False s1(1) by (simp add: vprintfmt.simps)
      qed
    next
      case False
      obtain l p w g rest where sp: "scan_spec cs = (l, p, w, g, rest)" by (cases "scan_spec cs")
      have "\<not> 2 ^ 31 \<le> w" "rest \<noteq> []" using less.prems(2) Cons False sp by (auto simp: vprintfmt.simps split: list.splits if_splits)
      then obtain k rest' where rest: "rest = k # rest'" by (cases rest) auto
      show ?thesis
      proof (cases "k = NUL")
        case True
        then show ?thesis using less.prems Cons False sp rest \<open>\<not> 2 ^ 31 \<le> w\<close> by (simp add: vprintfmt.simps)
      next
        case nk: False
        from less.prems(2) obtain ap1 t1 where c: "conversion list_sink k l p w ap (contents s) = Ret (ap1, t1)"
          and v: "vprintfmt list_sink rest' ap1 t1 = Ret t"
          using Cons False sp rest nk \<open>\<not> 2 ^ 31 \<le> w\<close> by (auto simp: vprintfmt.simps[of list_sink] outcome_simps)
        from mimics_conversion[unfolded mimics_def, rule_format, OF less.prems(1) c] obtain s1 where
          s1: "conversion out k l p w ap s = Ret (ap1, s1)" "ok s1" "contents s1 = t1" by (auto simp: returns_iff)
        have "length rest' < length fmt" using scan_spec_length[OF sp] rest Cons by simp
        from less.hyps[OF this s1(2), of ap1] v s1(3) have "returns (\<lambda>s'. ok s' \<and> contents s' = t) (vprintfmt out rest' ap1 s1)" by simp
        then show ?thesis using Cons False sp rest nk s1(1) \<open>\<not> 2 ^ 31 \<le> w\<close> by (simp add: vprintfmt.simps)
      qed
    qed
  qed
qed

end

section \<open>The console and the buffered sink\<close>

lemma outputk_eq: "outputk putc cs s = Ret (fold putc cs s)"
  by (induction cs arbitrary: s) simp_all

interpretation console_out: fmt_sink "outputk (\<lambda>c out. out @ [c])" "\<lambda>out. out" "\<lambda>_. True"
proof
  fix s cs :: "char list"
  have "fold (\<lambda>c out. out @ [c]) cs s = s @ cs" by (induction cs arbitrary: s) simp_all
  then show "returns (\<lambda>s'. True \<and> s' = s @ cs) (outputk (\<lambda>c out. out @ [c]) cs s)" by (simp add: outputk_eq)
qed

text \<open>The text a \<open>debug_ctx\<close> stands for: what has been printed, followed by what is still buffered.\<close>

definition debug_text :: "debug_ctx \<Rightarrow> char list" where
  "debug_text ctx = db_cons ctx @ take (db_pos ctx) (db_buf ctx)"

definition debug_ok :: "debug_ctx \<Rightarrow> bool" where
  "debug_ok ctx \<longleftrightarrow> length (db_buf ctx) = BUF_LEN \<and> db_pos ctx \<le> BUF_LEN"

lemma debug_flush_text: "debug_text (debug_flush ctx) = debug_text ctx" "db_pos (debug_flush ctx) = 0"
  by (simp_all add: debug_flush_def debug_text_def)

lemma debug_output_ok:
  "debug_ok ctx \<Longrightarrow> returns (\<lambda>ctx'. debug_ok ctx' \<and> debug_text ctx' = debug_text ctx @ cs) (debug_output cs ctx)"
proof (induction cs ctx rule: debug_output.induct)
  case (1 cs ctx)
  from 1(2) have ok: "length (db_buf ctx) = BUF_LEN" "db_pos ctx \<le> BUF_LEN" by (simp_all add: debug_ok_def)
  show ?case
  proof (cases "BUF_LEN < db_pos ctx + length cs")
    case False
    have "take (db_pos ctx + length cs) (buf_copy (db_pos ctx) cs (db_buf ctx)) = take (db_pos ctx) (db_buf ctx) @ cs"
      using ok by (simp add: buf_copy_def)
    then show ?thesis using False ok
      by (subst debug_output.simps) (simp add: debug_ok_def debug_text_def buf_copy_def)
  next
    case True
    define n where "n = BUF_LEN - db_pos ctx"
    define ctx1 where "ctx1 = ctx\<lparr>db_buf := buf_copy (db_pos ctx) (take n cs) (db_buf ctx), db_pos := BUF_LEN\<rparr>"
    have n: "n \<le> length cs" "db_pos ctx + n = BUF_LEN" using True ok by (auto simp: n_def)
    have t1: "debug_text ctx1 = debug_text ctx @ take n cs" "length (db_buf ctx1) = BUF_LEN"
      using ok n by (simp_all add: ctx1_def debug_text_def buf_copy_def n_def)
    have ok2: "debug_ok (debug_flush ctx1)" using t1(2) by (simp add: debug_ok_def debug_flush_def)
    have step: "debug_output cs ctx = debug_output (drop n cs) (debug_flush ctx1)"
      using True ok by (subst debug_output.simps) (simp add: Let_def n_def ctx1_def)
    have "returns (\<lambda>ctx'. debug_ok ctx' \<and> debug_text ctx' = debug_text (debug_flush ctx1) @ drop n cs) (debug_output (drop n cs) (debug_flush ctx1))"
      using 1(1)[OF _ True refl] ok ok2 by (simp add: n_def ctx1_def)
    then show ?thesis unfolding step debug_flush_text t1 by simp
  qed
qed

interpretation debug_out: fmt_sink debug_output debug_text debug_ok
  by unfold_locales (rule debug_output_ok)

text \<open>
  All sinks print the same text: whenever formatting into a plain string is defined and gives \<open>t\<close>, \<open>printk\<close>
  writes exactly \<open>t\<close> to the console, and \<open>debugf\<close>, which collects its output in a buffer of 1024 bytes and
  flushes it as it fills, has printed exactly \<open>t\<close> when it returns.
\<close>

theorem sinks_print_the_same:
  assumes "vprintfmt list_sink fmt ap [] = Ret t" and "length (db_buf ctx) = BUF_LEN" and "db_cons ctx = []"
  shows "vprintfmt (outputk (\<lambda>c out. out @ [c])) fmt ap [] = Ret t
    \<and> returns (\<lambda>ctx'. db_cons ctx' = t \<and> db_pos ctx' = 0) (vdebugf fmt ap ctx)"
proof
  show "vprintfmt (outputk (\<lambda>c out. out @ [c])) fmt ap [] = Ret t"
    using console_out.vprintfmt_list[OF TrueI, of fmt ap "[]" t] assms(1) by (auto simp: returns_iff)
  let ?c = "ctx\<lparr>db_pos := 0\<rparr>"
  have "debug_ok ?c" "debug_text ?c = []" using assms by (simp_all add: debug_ok_def debug_text_def)
  from debug_out.vprintfmt_list[OF this(1), of fmt ap t] this(2) assms(1)
  obtain c1 where c1: "vprintfmt debug_output fmt ap ?c = Ret c1" "debug_ok c1" "debug_text c1 = t" by (auto simp: returns_iff)
  have "db_cons (debug_flush c1) = t"
    using debug_flush_text[of c1] c1(3) by (simp add: debug_text_def)
  then show "returns (\<lambda>ctx'. db_cons ctx' = t \<and> db_pos ctx' = 0) (vdebugf fmt ap ctx)"
    using c1(1) debug_flush_text(2) by (simp add: vdebugf_def)
qed

theorem sinks_print_the_same_witness:
  "returns (\<lambda>ctx'. db_cons ctx' = ''pid A!'') (vdebugf (''pid %c!'' @ [NUL]) [ArgInt 65] \<lparr>db_buf = replicate 1024 NUL, db_pos = 7, db_cons = []\<rparr>)"
proof -
  have "scan_spec (''c!'' @ [NUL]) = (False, CHR '' '', 0, False, ''c!'' @ [NUL])"
    by (simp add: scan_spec_def skip_char_def is_digit_def)
  moreover have "char_of (65 :: nat) = CHR ''A''" by (simp add: char_of_eq_iff take_bit_eq_mod)
  ultimately have "vprintfmt list_sink (''pid %c!'' @ [NUL]) [ArgInt 65] [] = Ret ''pid A!''"
    by (simp add: vprintfmt.simps conversion_def print_char_def)
  from sinks_print_the_same[OF this, of "\<lparr>db_buf = replicate 1024 NUL, db_pos = 7, db_cons = []\<rparr>"] show ?thesis
    by (auto simp: returns_iff)
qed

end
