(* ===== verification/Mos_Fs.thy ===== *)
theory Mos_Fs
  imports Mos_String
begin

text \<open>
  The file system: \<open>fs/fs.c\<close> with the on-disk format of \<open>user/include/fs.h\<close>. A disk block is an array of
  1024 words. The block cache of the server, the pages at \<open>DISKMAP\<close>, is given by the contents of its
  pages and by the two bits of their page table entries that the code reads, valid and dirty. A
  pointer to a \<open>struct File\<close> is the number of the block it lies in and the offset of its first word.
  Touching a page that is not mapped is \<open>Undef\<close>. \<open>ide_read\<close> and \<open>ide_write\<close> appear by their effect on whole
  blocks, and \<open>pages_left\<close> is the number of pages the kernel can still hand out.
\<close>

section \<open>State\<close>

abbreviation (input) BLOCK_WORDS :: nat where "BLOCK_WORDS \<equiv> 1024"
abbreviation (input) NDIRECT :: nat where "NDIRECT \<equiv> 10"
abbreviation (input) NINDIRECT :: nat where "NINDIRECT \<equiv> 1024"
abbreviation (input) FILE2BLK :: nat where "FILE2BLK \<equiv> 16"
abbreviation (input) BIT2BLK :: nat where "BIT2BLK \<equiv> 32768"
abbreviation (input) BY2BLK :: nat where "BY2BLK \<equiv> 4096"
abbreviation (input) MAXBLOCKS :: nat where "MAXBLOCKS \<equiv> 262144"
abbreviation (input) DISKMAP :: u32 where "DISKMAP \<equiv> 0x10000000"
abbreviation (input) FS_MAGIC :: u32 where "FS_MAGIC \<equiv> 0x68286097"
abbreviation (input) FTYPE_REG :: u32 where "FTYPE_REG \<equiv> 0"
abbreviation (input) FTYPE_DIR :: u32 where "FTYPE_DIR \<equiv> 1"
abbreviation (input) FTYPE_LNK :: u32 where "FTYPE_LNK \<equiv> 2"

type_synonym fptr = "nat \<times> nat"

record fs_state =
  fs_super :: bool
  fs_bitmap :: bool
  cache :: "nat \<Rightarrow> nat \<Rightarrow> u32"
  mapped :: "nat \<Rightarrow> bool"
  dirty :: "nat \<Rightarrow> bool"
  disk :: "nat \<Rightarrow> nat \<Rightarrow> u32"
  pages_left :: nat

text \<open>The fields of \<open>struct File\<close>, in words from its start, and those of \<open>struct Super\<close>.\<close>

abbreviation (input) F_SIZE :: nat where "F_SIZE \<equiv> 32"
abbreviation (input) F_TYPE :: nat where "F_TYPE \<equiv> 33"
abbreviation (input) F_DIRECT :: nat where "F_DIRECT \<equiv> 34"
abbreviation (input) F_INDIRECT :: nat where "F_INDIRECT \<equiv> 44"
abbreviation (input) F_DIR :: nat where "F_DIR \<equiv> 45"
abbreviation (input) FILE_WORDS :: nat where "FILE_WORDS \<equiv> 64"
abbreviation (input) s_root :: fptr where "s_root \<equiv> (1, 2)"

definition rdw :: "fptr \<Rightarrow> fs_state \<Rightarrow> u32 outcome" where
  "rdw p s = (if mapped s (fst p) \<and> snd p < BLOCK_WORDS then Ret (cache s (fst p) (snd p)) else Undef)"

definition wrw :: "fptr \<Rightarrow> u32 \<Rightarrow> fs_state \<Rightarrow> fs_state outcome" where
  "wrw p v s =
     (if mapped s (fst p) \<and> snd p < BLOCK_WORDS
      then Ret (s\<lparr>cache := (cache s)(fst p := (cache s (fst p))(snd p := v))\<rparr>) else Undef)"

definition field :: "fptr \<Rightarrow> nat \<Rightarrow> fptr" where
  "field f k = (fst f, snd f + k)"

text \<open>A pointer as it is stored in the field \<open>f_dir\<close>.\<close>

definition ptr_word :: "fptr \<Rightarrow> u32" where
  "ptr_word f = DISKMAP + of_nat (fst f * 4096 + snd f * 4)"

definition word_ptr :: "u32 \<Rightarrow> fptr option" where
  "word_ptr w = (if DISKMAP \<le> w \<and> w < DISKMAP + 0x40000000 \<and> w AND 3 = 0
     then Some (unat (w - DISKMAP) div 4096, unat (w - DISKMAP) mod 4096 div 4) else None)"

text \<open>Bytes of words, and the 128 bytes of a name.\<close>

definition word_byte :: "u32 \<Rightarrow> nat \<Rightarrow> char" where
  "word_byte w k = char_of (unat (drop_bit (8 * k) w) mod 256)"

definition set_word_byte :: "nat \<Rightarrow> char \<Rightarrow> u32 \<Rightarrow> u32" where
  "set_word_byte k c w = (w AND NOT (push_bit (8 * k) 0xFF)) OR push_bit (8 * k) (of_nat (of_char c))"

definition rd_bytes :: "fptr \<Rightarrow> nat \<Rightarrow> fs_state \<Rightarrow> char list outcome" where
  "rd_bytes p n s =
     (if mapped s (fst p) \<and> snd p * 4 + n \<le> BY2BLK
      then Ret (map (\<lambda>i. word_byte (cache s (fst p) (snd p + i div 4)) (i mod 4)) [0..<n]) else Undef)"

fun wr_bytes :: "fptr \<Rightarrow> nat \<Rightarrow> char list \<Rightarrow> fs_state \<Rightarrow> fs_state outcome" where
  "wr_bytes p i [] s = Ret s"
| "wr_bytes p i (c # cs) s =
     obind (rdw (field p (i div 4)) s) (\<lambda>w.
     obind (wrw (field p (i div 4)) (set_word_byte (i mod 4) c w) s) (wr_bytes p (i + 1) cs))"

section \<open>The block cache\<close>

definition diskaddr :: "nat \<Rightarrow> nat outcome" where
  "diskaddr blockno = (if MAXBLOCKS \<le> blockno then Panic ''In diskaddr: non-existent block'' else Ret blockno)"

definition va_is_mapped :: "nat \<Rightarrow> fs_state \<Rightarrow> bool" where
  "va_is_mapped va s = mapped s va"

definition block_is_mapped :: "nat \<Rightarrow> fs_state \<Rightarrow> bool outcome" where
  "block_is_mapped blockno s = obind (diskaddr blockno) (\<lambda>va. Ret (va_is_mapped va s))"

definition va_is_dirty :: "nat \<Rightarrow> fs_state \<Rightarrow> bool" where
  "va_is_dirty va s = dirty s va"

definition block_is_dirty :: "nat \<Rightarrow> fs_state \<Rightarrow> bool outcome" where
  "block_is_dirty blockno s = obind (diskaddr blockno) (\<lambda>va. Ret (va_is_mapped va s \<and> va_is_dirty va s))"

definition dirty_block :: "nat \<Rightarrow> fs_state \<Rightarrow> ((error + unit) \<times> fs_state) outcome" where
  "dirty_block blockno s =
     obind (diskaddr blockno) (\<lambda>va.
       if \<not> va_is_mapped va s then Ret (Inl E_NOT_FOUND, s)
       else if va_is_dirty va s then Ret (Inr (), s)
       else Ret (Inr (), s\<lparr>dirty := (dirty s)(va := True)\<rparr>))"

definition write_block :: "nat \<Rightarrow> fs_state \<Rightarrow> fs_state outcome" where
  "write_block blockno s =
     obind (block_is_mapped blockno s) (\<lambda>m.
       if \<not> m then Panic ''write unmapped block''
       else obind (diskaddr blockno) (\<lambda>va. Ret (s\<lparr>disk := (disk s)(blockno := cache s va)\<rparr>)))"

text \<open>The system calls on the server's own address space: a zeroed page, or \<open>E_NO_MEM\<close>.\<close>

definition mem_alloc :: "nat \<Rightarrow> fs_state \<Rightarrow> (error + unit) \<times> fs_state" where
  "mem_alloc va s =
     (if pages_left s = 0 then (Inl E_NO_MEM, s)
      else (Inr (), s\<lparr>pages_left := pages_left s - 1, cache := (cache s)(va := (\<lambda>_. 0)),
                      mapped := (mapped s)(va := True), dirty := (dirty s)(va := False)\<rparr>))"

definition mem_unmap :: "nat \<Rightarrow> fs_state \<Rightarrow> fs_state" where
  "mem_unmap va s = s\<lparr>mapped := (mapped s)(va := False), dirty := (dirty s)(va := False),
     pages_left := (if mapped s va then pages_left s + 1 else pages_left s)\<rparr>"

definition s_nblocks :: "fs_state \<Rightarrow> nat outcome" where
  "s_nblocks s = (if fs_super s then obind (rdw (1, 1) s) (\<lambda>w. Ret (unat w)) else Undef)"

definition bitmap_word :: "nat \<Rightarrow> fptr" where
  "bitmap_word blockno = (2 + blockno div 32 div BLOCK_WORDS, blockno div 32 mod BLOCK_WORDS)"

definition block_is_free :: "nat \<Rightarrow> fs_state \<Rightarrow> bool outcome" where
  "block_is_free blockno s =
     (if \<not> fs_super s then Ret False
      else obind (s_nblocks s) (\<lambda>n.
        if n \<le> blockno then Ret False
        else if \<not> fs_bitmap s then Undef
        else obind (rdw (bitmap_word blockno) s) (\<lambda>w. Ret (w AND push_bit (blockno mod 32) 1 \<noteq> 0))))"

text \<open>
  The result of \<open>syscall_mem_alloc\<close> is not checked in \<open>read_block\<close>: when it fails, the copy into the page
  makes the kernel allocate one on demand, which it cannot.
\<close>

definition read_block :: "nat \<Rightarrow> fs_state \<Rightarrow> ((error + nat \<times> bool) \<times> fs_state) outcome" where
  "read_block blockno s =
     obind (if fs_super s then s_nblocks s else Ret (blockno + 1)) (\<lambda>n.
       if fs_super s \<and> n \<le> blockno then Panic ''reading non-existent block''
       else obind (if fs_bitmap s then block_is_free blockno s else Ret False) (\<lambda>fr.
         if fr then Panic ''reading free block''
         else obind (diskaddr blockno) (\<lambda>va.
           obind (block_is_mapped blockno s) (\<lambda>m.
             if m then Ret (Inr (va, False), s)
             else case mem_alloc va s of
                 (Inl _, s) \<Rightarrow> Panic ''panic_on(page_alloc(&p))''
               | (Inr _, s) \<Rightarrow> Ret (Inr (va, True), s\<lparr>cache := (cache s)(va := disk s blockno)\<rparr>)))))"

definition map_block :: "nat \<Rightarrow> fs_state \<Rightarrow> ((error + unit) \<times> fs_state) outcome" where
  "map_block blockno s =
     obind (block_is_mapped blockno s) (\<lambda>m.
       if m then Ret (Inr (), s) else obind (diskaddr blockno) (\<lambda>va. Ret (mem_alloc va s)))"

definition unmap_block :: "nat \<Rightarrow> fs_state \<Rightarrow> fs_state outcome" where
  "unmap_block blockno s =
     obind (block_is_mapped blockno s) (\<lambda>m.
       if m then Ret s
       else obind (block_is_free blockno s) (\<lambda>fr.
         obind (block_is_dirty blockno s) (\<lambda>d.
         obind (if \<not> fr \<and> d then write_block blockno s else Ret s) (\<lambda>s.
         obind (diskaddr blockno) (\<lambda>va.
         let s = mem_unmap va s in
         obind (block_is_mapped blockno s) (\<lambda>m.
         obind (guard_panic (\<not> m) ''assertion failed: !block_is_mapped(blockno)'') (\<lambda>_. Ret s)))))))"

text \<open>The code reads \<open>super->s_nblocks\<close> before it tests \<open>super\<close>.\<close>

definition free_block :: "nat \<Rightarrow> fs_state \<Rightarrow> fs_state outcome" where
  "free_block blockno s =
     (if blockno = 0 then Ret s
      else obind (s_nblocks s) (\<lambda>n.
        if n \<le> blockno then Ret s
        else if \<not> fs_bitmap s then Undef
        else obind (rdw (bitmap_word blockno) s) (\<lambda>w.
          wrw (bitmap_word blockno) (w OR push_bit (blockno mod 32) 1) s)))"

fun alloc_scan :: "nat list \<Rightarrow> fs_state \<Rightarrow> ((error + nat) \<times> fs_state) outcome" where
  "alloc_scan [] s = Ret (Inl E_NO_DISK, s)"
| "alloc_scan (blockno # bs) s =
     obind (rdw (bitmap_word blockno) s) (\<lambda>w.
       if w AND push_bit (blockno mod 32) 1 \<noteq> 0 then
         obind (wrw (bitmap_word blockno) (w AND NOT (push_bit (blockno mod 32) 1)) s) (\<lambda>s.
         obind (write_block (blockno div BIT2BLK + 2) s) (\<lambda>s.
         Ret (Inr blockno, s)))
       else alloc_scan bs s)"

definition alloc_block_num :: "fs_state \<Rightarrow> ((error + nat) \<times> fs_state) outcome" where
  "alloc_block_num s =
     obind (s_nblocks s) (\<lambda>n. if \<not> fs_bitmap s then Undef else alloc_scan [3..<n] s)"

definition alloc_block :: "fs_state \<Rightarrow> ((error + nat) \<times> fs_state) outcome" where
  "alloc_block s =
     otry (alloc_block_num s) (\<lambda>bno s.
       obind (map_block bno s) (\<lambda>(r, s).
         case r of
           Inl e \<Rightarrow> obind (free_block bno s) (\<lambda>s. Ret (Inl e, s))
         | Inr _ \<Rightarrow> Ret (Inr bno, s)))"

section \<open>Start-up\<close>

definition read_super :: "fs_state \<Rightarrow> fs_state outcome" where
  "read_super s =
     obind (read_block 1 s) (\<lambda>(r, s).
       case r of
         Inl _ \<Rightarrow> Panic ''cannot read superblock''
       | Inr _ \<Rightarrow>
           let s = s\<lparr>fs_super := True\<rparr> in
           obind (rdw (1, 0) s) (\<lambda>magic.
             if magic \<noteq> FS_MAGIC then Panic ''bad file system magic number''
             else obind (s_nblocks s) (\<lambda>n.
               if MAXBLOCKS < n then Panic ''file system is too large'' else Ret s)))"

definition read_bitmap :: "fs_state \<Rightarrow> fs_state outcome" where
  "read_bitmap s =
     obind (s_nblocks s) (\<lambda>n.
       let nbitmap = n div BIT2BLK + 1 in
       obind (ofold (\<lambda>i s. obind (read_block (i + 2) s) (\<lambda>(r, s). Ret s)) [0..<nbitmap] s) (\<lambda>s.
       let s = s\<lparr>fs_bitmap := True\<rparr> in
       obind (ofold (\<lambda>i s. obind (block_is_free i s) (\<lambda>fr.
                obind (guard_panic (\<not> fr) ''assertion failed: !block_is_free(i)'') (\<lambda>_. Ret s))) ([0, 1] @ [2..<nbitmap + 2]) s) (\<lambda>s.
       Ret s)))"

definition check_write_block :: "fs_state \<Rightarrow> fs_state outcome" where
  "check_write_block s =
     (let s = s\<lparr>fs_super := False\<rparr> in
      obind (read_block 0 s) (\<lambda>(_, s).
      if \<not> mapped s 1 then Undef
      else
        let s = s\<lparr>cache := (cache s)(0 := cache s 1)\<rparr> in
        obind (wr_bytes (1, 0) 0 (''OOPS!'' @ [CHR 0x0A, NUL]) s) (\<lambda>s.
        obind (write_block 1 s) (\<lambda>s.
        obind (block_is_mapped 1 s) (\<lambda>m.
        obind (guard_panic m ''assertion failed: block_is_mapped(1)'') (\<lambda>_.
        let s = mem_unmap 1 s in
        obind (block_is_mapped 1 s) (\<lambda>m.
        obind (guard_panic (\<not> m) ''assertion failed: !block_is_mapped(1)'') (\<lambda>_.
        obind (read_block 1 s) (\<lambda>(_, s).
        obind (rd_bytes (1, 0) 7 s) (\<lambda>bs.
        obind (strcmp bs (''OOPS!'' @ [CHR 0x0A, NUL])) (\<lambda>r.
        obind (guard_panic (r = 0) ''assertion failed: strcmp(diskaddr(1), OOPS) == 0'') (\<lambda>_.
        let s = s\<lparr>cache := (cache s)(1 := cache s 0)\<rparr> in
        obind (write_block 1 s) (\<lambda>s. Ret (s\<lparr>fs_super := True\<rparr>))))))))))))))"

definition fs_init :: "fs_state \<Rightarrow> fs_state outcome" where
  "fs_init s = obind (read_super s) (\<lambda>s. obind (check_write_block s) read_bitmap)"

section \<open>Files\<close>

text \<open>The slot of the \<open>filebno\<close>th block of a file: a word of the file or of its indirect block.\<close>

definition file_block_walk :: "fptr \<Rightarrow> nat \<Rightarrow> bool \<Rightarrow> fs_state \<Rightarrow> ((error + fptr) \<times> fs_state) outcome" where
  "file_block_walk f filebno alloc s =
     (if filebno < NDIRECT then Ret (Inr (field f (F_DIRECT + filebno)), s)
      else if filebno < NINDIRECT then
        obind (rdw (field f F_INDIRECT) s) (\<lambda>ind.
        otry (if ind = 0 then
                (if \<not> alloc then Ret (Inl E_NOT_FOUND, s)
                 else otry (alloc_block s) (\<lambda>r s.
                   obind (wrw (field f F_INDIRECT) (of_nat r) s) (\<lambda>s. Ret (Inr (), s))))
              else Ret (Inr (), s)) (\<lambda>_ s.
        obind (rdw (field f F_INDIRECT) s) (\<lambda>ind.
        otry (read_block (unat ind) s) (\<lambda>(blk, _) s. Ret (Inr (blk, filebno), s)))))
      else Ret (Inl E_INVAL, s))"

definition file_map_block :: "fptr \<Rightarrow> nat \<Rightarrow> bool \<Rightarrow> fs_state \<Rightarrow> ((error + nat) \<times> fs_state) outcome" where
  "file_map_block f filebno alloc s =
     otry (file_block_walk f filebno alloc s) (\<lambda>ptr s.
       obind (rdw ptr s) (\<lambda>w.
       otry (if w = 0 then
               (if \<not> alloc then Ret (Inl E_NOT_FOUND, s)
                else otry (alloc_block s) (\<lambda>r s. obind (wrw ptr (of_nat r) s) (\<lambda>s. Ret (Inr (), s))))
             else Ret (Inr (), s)) (\<lambda>_ s.
       obind (rdw ptr s) (\<lambda>w. Ret (Inr (unat w), s)))))"

definition file_clear_block :: "fptr \<Rightarrow> nat \<Rightarrow> fs_state \<Rightarrow> ((error + unit) \<times> fs_state) outcome" where
  "file_clear_block f filebno s =
     otry (file_block_walk f filebno False s) (\<lambda>ptr s.
       obind (rdw ptr s) (\<lambda>w.
         if w \<noteq> 0 then
           obind (free_block (unat w) s) (\<lambda>s. obind (wrw ptr 0 s) (\<lambda>s. Ret (Inr (), s)))
         else Ret (Inr (), s)))"

definition file_get_block :: "fptr \<Rightarrow> nat \<Rightarrow> fs_state \<Rightarrow> ((error + nat) \<times> fs_state) outcome" where
  "file_get_block f filebno s =
     otry (file_map_block f filebno True s) (\<lambda>diskbno s.
       otry (read_block diskbno s) (\<lambda>(blk, _) s. Ret (Inr blk, s)))"

definition file_dirty :: "fptr \<Rightarrow> nat \<Rightarrow> fs_state \<Rightarrow> ((error + unit) \<times> fs_state) outcome" where
  "file_dirty f off s = otry (file_map_block f (off div BY2BLK) False s) (\<lambda>diskbno s. dirty_block diskbno s)"

section \<open>Directories\<close>

text \<open>The inner loop of \<open>dir_lookup\<close> over the entries \<open>js\<close> of the block \<open>blk\<close>.\<close>

fun scan_names :: "nat list \<Rightarrow> nat \<Rightarrow> char list \<Rightarrow> fs_state \<Rightarrow> fptr option outcome" where
  "scan_names [] blk name s = Ret None"
| "scan_names (j # js) blk name s =
     obind (rd_bytes (blk, j * FILE_WORDS) 128 s) (\<lambda>fname.
     obind (strcmp fname name) (\<lambda>r.
       if r = 0 then Ret (Some (blk, j * FILE_WORDS)) else scan_names js blk name s))"

fun lookup_blocks :: "nat list \<Rightarrow> fptr \<Rightarrow> char list \<Rightarrow> fs_state \<Rightarrow> ((error + fptr) \<times> fs_state) outcome" where
  "lookup_blocks [] dir name s = Ret (Inl E_NOT_FOUND, s)"
| "lookup_blocks (i # is) dir name s =
     otry (file_get_block dir i s) (\<lambda>blk s.
       obind (scan_names [0..<FILE2BLK] blk name s) (\<lambda>r.
         case r of
           Some f \<Rightarrow> obind (wrw (field f F_DIR) (ptr_word dir) s) (\<lambda>s. Ret (Inr f, s))
         | None \<Rightarrow> lookup_blocks is dir name s))"

definition dir_lookup :: "fptr \<Rightarrow> char list \<Rightarrow> fs_state \<Rightarrow> ((error + fptr) \<times> fs_state) outcome" where
  "dir_lookup dir name s =
     obind (rdw (field dir F_SIZE) s) (\<lambda>sz. lookup_blocks [0..<unat sz div BY2BLK] dir name s)"

fun scan_unused :: "nat list \<Rightarrow> nat \<Rightarrow> fs_state \<Rightarrow> fptr option outcome" where
  "scan_unused [] blk s = Ret None"
| "scan_unused (j # js) blk s =
     obind (rd_bytes (blk, j * FILE_WORDS) 1 s) (\<lambda>c.
       if c = [NUL] then Ret (Some (blk, j * FILE_WORDS)) else scan_unused js blk s)"

fun alloc_blocks :: "nat list \<Rightarrow> fptr \<Rightarrow> fs_state \<Rightarrow> ((error + fptr option) \<times> fs_state) outcome" where
  "alloc_blocks [] dir s = Ret (Inr None, s)"
| "alloc_blocks (i # is) dir s =
     otry (file_get_block dir i s) (\<lambda>blk s.
       obind (scan_unused [0..<FILE2BLK] blk s) (\<lambda>r.
         case r of Some f \<Rightarrow> Ret (Inr (Some f), s) | None \<Rightarrow> alloc_blocks is dir s))"

definition dir_alloc_file :: "fptr \<Rightarrow> fs_state \<Rightarrow> ((error + fptr) \<times> fs_state) outcome" where
  "dir_alloc_file dir s =
     obind (rdw (field dir F_SIZE) s) (\<lambda>sz.
     let nblock = unat sz div BY2BLK in
     otry (alloc_blocks [0..<nblock] dir s) (\<lambda>r s.
       case r of
         Some f \<Rightarrow> Ret (Inr f, s)
       | None \<Rightarrow>
           obind (rdw (field dir F_SIZE) s) (\<lambda>sz.
           obind (wrw (field dir F_SIZE) (sz + of_nat BY2BLK) s) (\<lambda>s.
           otry (file_get_block dir nblock s) (\<lambda>blk s. Ret (Inr (blk, 0), s))))))"

section \<open>Paths\<close>

definition skip_slash :: "char list \<Rightarrow> char list" where
  "skip_slash p = dropWhile (\<lambda>c. c = CHR ''/'') p"

definition path_elem :: "char list \<Rightarrow> char list" where
  "path_elem p = takeWhile (\<lambda>c. c \<noteq> CHR ''/'' \<and> c \<noteq> NUL) p"

definition path_rest :: "char list \<Rightarrow> char list" where
  "path_rest p = skip_slash (dropWhile (\<lambda>c. c \<noteq> CHR ''/'' \<and> c \<noteq> NUL) p)"

text \<open>
  The main loop of \<open>walk_path\<close> and \<open>walk_path_at\<close>. On failure the result carries \<open>*pdir\<close> and \<open>lastelem\<close>
  when they are set, which is when the last element is missing.
\<close>

type_synonym walk_error = "error \<times> (fptr \<times> char list) option"

lemma path_rest_shorter:
  assumes "c \<noteq> NUL"
  shows "length (path_rest (c # cs)) < length (c # cs)"
proof (cases "c = CHR ''/''")
  case True
  then show ?thesis by (simp add: path_rest_def skip_slash_def le_imp_less_Suc length_dropWhile_le)
next
  case False
  have "length (path_rest (c # cs)) \<le> length (dropWhile (\<lambda>c. c \<noteq> CHR ''/'' \<and> c \<noteq> NUL) (c # cs))"
    by (simp only: path_rest_def skip_slash_def length_dropWhile_le)
  also have "\<dots> \<le> length cs" using assms False by (simp add: length_dropWhile_le)
  finally show ?thesis by simp
qed

function walk_loop :: "char list \<Rightarrow> fptr option \<Rightarrow> fptr \<Rightarrow> fs_state \<Rightarrow> ((walk_error + fptr option \<times> fptr) \<times> fs_state) outcome" where
  "walk_loop path dir file s =
     (case path of
        [] \<Rightarrow> Undef
      | c # _ \<Rightarrow>
          if c = NUL then Ret (Inr (dir, file), s)
          else
            let name = path_elem path; rest = path_rest path; dir = file in
            if 128 \<le> length name then Ret (Inl (E_BAD_PATH, None), s)
            else obind (rdw (field dir F_TYPE) s) (\<lambda>ty.
              if ty \<noteq> FTYPE_DIR then Ret (Inl (E_NOT_FOUND, None), s)
              else obind (dir_lookup dir (name @ [NUL]) s) (\<lambda>(r, s).
                case r of
                  Inl e \<Rightarrow>
                    (case rest of
                       [] \<Rightarrow> Undef
                     | c # _ \<Rightarrow>
                         if e = E_NOT_FOUND \<and> c = NUL then Ret (Inl (e, Some (dir, name @ [NUL])), s)
                         else Ret (Inl (e, None), s))
                | Inr file \<Rightarrow> walk_loop rest (Some dir) file s)))"
  by auto
termination
  by (relation "measure (\<lambda>(p, _). length p)") (auto simp: path_rest_shorter[simplified])

declare walk_loop.simps [simp del]

definition walk_path_at :: "fptr \<Rightarrow> char list \<Rightarrow> fs_state \<Rightarrow> ((walk_error + fptr option \<times> fptr) \<times> fs_state) outcome" where
  "walk_path_at par_dir path s = walk_loop (skip_slash path) None par_dir s"

text \<open>
  \<open>walk_path\<close> follows a symbolic link at the end of the path; the result of the recursive call is not
  checked, so that a dangling link yields a NULL file with success. Links may form a cycle: the recursion
  has fuel.
\<close>

fun walk_path :: "nat \<Rightarrow> char list \<Rightarrow> fs_state \<Rightarrow> ((walk_error + fptr option \<times> fptr option) \<times> fs_state) outcome" where
  "walk_path 0 path s = Undef"
| "walk_path (Suc fuel) path s =
     (if \<not> fs_super s then Undef
      else otry (walk_loop (skip_slash path) None s_root s) (\<lambda>(dir, file) s.
        obind (rdw (field file F_TYPE) s) (\<lambda>ty.
          if ty = FTYPE_LNK then
            obind (rdw (field file F_DIRECT) s) (\<lambda>bno.
            obind (read_block (unat bno) s) (\<lambda>(r, s).
              case r of
                Inl _ \<Rightarrow> Undef
              | Inr (blk, _) \<Rightarrow>
                  obind (rd_bytes (blk, 0) BY2BLK s) (\<lambda>target.
                  obind (walk_path fuel target s) (\<lambda>(r, s).
                    case r of
                      Inl _ \<Rightarrow> Ret (Inr (dir, None), s)
                    | Inr (_, f) \<Rightarrow> Ret (Inr (dir, f), s)))))
          else Ret (Inr (dir, Some file), s))))"

definition walk_result :: "(walk_error + 'a) \<Rightarrow> error + 'a" where
  "walk_result r = (case r of Inl (e, _) \<Rightarrow> Inl e | Inr x \<Rightarrow> Inr x)"

definition file_open :: "nat \<Rightarrow> char list \<Rightarrow> fs_state \<Rightarrow> ((error + fptr option) \<times> fs_state) outcome" where
  "file_open fuel path s =
     obind (walk_path fuel path s) (\<lambda>(r, s). Ret (map_sum id snd (walk_result r), s))"

definition file_openat :: "fptr \<Rightarrow> char list \<Rightarrow> fs_state \<Rightarrow> ((error + fptr) \<times> fs_state) outcome" where
  "file_openat dir path s =
     obind (walk_path_at dir path s) (\<lambda>(r, s). Ret (map_sum id snd (walk_result r), s))"

text \<open>When \<open>dir_alloc_file\<close> fails, its error is lost: \<open>r\<close> still holds the \<open>E_NOT_FOUND\<close> of the walk.\<close>

definition file_create :: "nat \<Rightarrow> char list \<Rightarrow> fs_state \<Rightarrow> ((error + fptr) \<times> fs_state) outcome" where
  "file_create fuel path s =
     obind (walk_path fuel path s) (\<lambda>(r, s).
       case r of
         Inr _ \<Rightarrow> Ret (Inl E_FILE_EXISTS, s)
       | Inl (e, None) \<Rightarrow> Ret (Inl e, s)
       | Inl (e, Some (dir, name)) \<Rightarrow>
           if e \<noteq> E_NOT_FOUND then Ret (Inl e, s)
           else obind (dir_alloc_file dir s) (\<lambda>(r, s).
             case r of
               Inl _ \<Rightarrow> Ret (Inl e, s)
             | Inr f \<Rightarrow> obind (wr_bytes f 0 name s) (\<lambda>s. Ret (Inr f, s))))"

section \<open>Sizes, flushing and removal\<close>

definition file_truncate :: "fptr \<Rightarrow> nat \<Rightarrow> fs_state \<Rightarrow> fs_state outcome" where
  "file_truncate f newsize s =
     obind (rdw (field f F_SIZE) s) (\<lambda>sz.
     let old_nblocks = unat sz div BY2BLK + 1;
         new_nblocks = (if newsize = 0 then 0 else newsize div BY2BLK + 1)
     in obind (ofold (\<lambda>bno s. obind (file_clear_block f bno s) (\<lambda>(_, s). Ret s)) [new_nblocks..<old_nblocks] s) (\<lambda>s.
        obind (if new_nblocks \<le> NDIRECT then
                 obind (rdw (field f F_INDIRECT) s) (\<lambda>ind.
                   if ind \<noteq> 0 then obind (free_block (unat ind) s) (wrw (field f F_INDIRECT) 0) else Ret s)
               else Ret s) (\<lambda>s.
        wrw (field f F_SIZE) (of_nat newsize) s)))"

definition file_flush :: "fptr \<Rightarrow> fs_state \<Rightarrow> fs_state outcome" where
  "file_flush f s =
     obind (rdw (field f F_SIZE) s) (\<lambda>sz.
     ofold (\<lambda>bno s.
       obind (file_map_block f bno False s) (\<lambda>(r, s).
         case r of
           Inl _ \<Rightarrow> Ret s
         | Inr diskno \<Rightarrow> obind (block_is_dirty diskno s) (\<lambda>d. if d then write_block diskno s else Ret s)))
       [0..<unat sz div BY2BLK + 1] s)"

definition flush_dir :: "fptr \<Rightarrow> fs_state \<Rightarrow> fs_state outcome" where
  "flush_dir f s =
     obind (rdw (field f F_DIR) s) (\<lambda>d.
       if d = 0 then Ret s
       else case word_ptr d of None \<Rightarrow> Undef | Some dir \<Rightarrow> file_flush dir s)"

definition file_set_size :: "fptr \<Rightarrow> nat \<Rightarrow> fs_state \<Rightarrow> fs_state outcome" where
  "file_set_size f newsize s =
     obind (rdw (field f F_SIZE) s) (\<lambda>sz.
     obind (if newsize < unat sz then file_truncate f newsize s else Ret s) (\<lambda>s.
     obind (wrw (field f F_SIZE) (of_nat newsize) s) (flush_dir f)))"

definition fs_sync :: "fs_state \<Rightarrow> fs_state outcome" where
  "fs_sync s =
     obind (s_nblocks s) (\<lambda>n.
     ofold (\<lambda>i s. obind (block_is_dirty i s) (\<lambda>d. if d then write_block i s else Ret s)) [0..<n] s)"

definition file_close :: "fptr \<Rightarrow> fs_state \<Rightarrow> fs_state outcome" where
  "file_close f s = obind (file_flush f s) (\<lambda>s. obind (flush_dir f s) (write_block 1))"

definition file_remove :: "nat \<Rightarrow> char list \<Rightarrow> fs_state \<Rightarrow> ((error + unit) \<times> fs_state) outcome" where
  "file_remove fuel path s =
     obind (walk_path fuel path s) (\<lambda>(r, s).
       case r of
         Inl (e, _) \<Rightarrow> Ret (Inl e, s)
       | Inr (_, None) \<Rightarrow> Undef
       | Inr (_, Some f) \<Rightarrow>
           obind (file_truncate f 0 s) (\<lambda>s.
           obind (wr_bytes f 0 [NUL] s) (\<lambda>s.
           obind (file_flush f s) (\<lambda>s.
           obind (flush_dir f s) (\<lambda>s. Ret (Inr (), s))))))"

end
