(* ===== verification/Mos_FsProps.thy ===== *)
theory Mos_FsProps
  imports Mos_Fs
begin

text \<open>
  Properties of the file system: the bitmap as a set of free blocks, the stability of the mapping from
  file blocks to disk blocks, write-back, directory search and path resolution.
\<close>

section \<open>Well-formed states and the set of free blocks\<close>

definition nblocks :: "fs_state \<Rightarrow> nat" where
  "nblocks s = unat (cache s 1 1)"

definition free_bit :: "fs_state \<Rightarrow> nat \<Rightarrow> bool" where
  "free_bit s b = bit (cache s (fst (bitmap_word b)) (snd (bitmap_word b))) (b mod 32)"

definition free_blocks :: "fs_state \<Rightarrow> nat set" where
  "free_blocks s = {b. b < nblocks s \<and> free_bit s b}"

definition bitmap_end :: "fs_state \<Rightarrow> nat" where
  "bitmap_end s = nblocks s div BIT2BLK + 3"

text \<open>The bitmap is loaded, and the blocks that hold it and the super block are in use.\<close>

definition fs_ok :: "fs_state \<Rightarrow> bool" where
  "fs_ok s \<longleftrightarrow> fs_super s \<and> fs_bitmap s \<and> nblocks s \<le> MAXBLOCKS \<and> mapped s 1
     \<and> (\<forall>b. 2 \<le> b \<and> b < bitmap_end s \<longrightarrow> mapped s b)
     \<and> (\<forall>b\<in>free_blocks s. bitmap_end s \<le> b)"

lemma bitmap_word_range: "b < nblocks s \<Longrightarrow> 2 \<le> fst (bitmap_word b) \<and> fst (bitmap_word b) < bitmap_end s \<and> snd (bitmap_word b) < BLOCK_WORDS"
proof -
  assume "b < nblocks s"
  then have "b div 32768 \<le> nblocks s div 32768" by (simp add: div_le_mono)
  moreover have "b div 32 div 1024 = b div 32768" by (simp add: div_mult2_eq[symmetric])
  ultimately show ?thesis by (simp add: bitmap_word_def bitmap_end_def)
qed

lemma bitmap_word_inj: "bitmap_word b = bitmap_word b' \<Longrightarrow> b mod 32 = b' mod 32 \<Longrightarrow> b = b'"
proof -
  assume a: "bitmap_word b = bitmap_word b'" "b mod 32 = b' mod 32"
  then have "b div 32 = b' div 32"
    unfolding bitmap_word_def prod.inject by (metis add_left_cancel mult_div_mod_eq)
  with a(2) show "b = b'" by (metis mult_div_mod_eq)
qed

lemma fs_okD:
  assumes "fs_ok s"
  shows "fs_super s" "fs_bitmap s" "nblocks s \<le> MAXBLOCKS" "mapped s 1"
    "2 \<le> b \<Longrightarrow> b < bitmap_end s \<Longrightarrow> mapped s b" "b \<in> free_blocks s \<Longrightarrow> bitmap_end s \<le> b"
  using assms by (auto simp: fs_ok_def)

lemma s_nblocks_eq: "fs_ok s \<Longrightarrow> s_nblocks s = Ret (nblocks s)"
  by (simp add: s_nblocks_def rdw_def fs_ok_def nblocks_def)

lemma rdw_bitmap: "fs_ok s \<Longrightarrow> b < nblocks s \<Longrightarrow> rdw (bitmap_word b) s = Ret (cache s (fst (bitmap_word b)) (snd (bitmap_word b)))"
  using bitmap_word_range[of b s] by (simp add: rdw_def fs_ok_def)

lemma bit_test: "(w :: u32) AND push_bit k 1 \<noteq> 0 \<longleftrightarrow> bit w k"
proof
  assume "w AND push_bit k 1 \<noteq> 0"
  then obtain n where "bit (w AND push_bit k 1) n" by (auto simp: bit_eq_iff)
  then show "bit w k" by (auto simp: bit_simps)
next
  assume "bit w k"
  then have "bit (w AND push_bit k 1) k" by (auto simp: bit_simps dest: bit_imp_le_length)
  then show "w AND push_bit k 1 \<noteq> 0" by auto
qed

lemma block_is_free_eq:
  assumes "fs_ok s"
  shows "block_is_free b s = Ret (b \<in> free_blocks s)"
proof (cases "b < nblocks s")
  case True
  then show ?thesis using assms rdw_bitmap[OF assms True] bit_test
    by (simp add: block_is_free_def s_nblocks_eq fs_okD(1,2) free_blocks_def free_bit_def)
next
  case False
  then show ?thesis using assms by (simp add: block_is_free_def s_nblocks_eq fs_okD(1) free_blocks_def)
qed

text \<open>Changing the bit of one block.\<close>

definition set_bitmap :: "nat \<Rightarrow> u32 \<Rightarrow> fs_state \<Rightarrow> fs_state" where
  "set_bitmap b w s = s\<lparr>cache := (cache s)(fst (bitmap_word b) := (cache s (fst (bitmap_word b)))(snd (bitmap_word b) := w))\<rparr>"

lemma set_bitmap_simps [simp]:
  "fs_super (set_bitmap b w s) = fs_super s" "fs_bitmap (set_bitmap b w s) = fs_bitmap s" "mapped (set_bitmap b w s) = mapped s"
  "dirty (set_bitmap b w s) = dirty s" "disk (set_bitmap b w s) = disk s" "pages_left (set_bitmap b w s) = pages_left s"
  by (simp_all add: set_bitmap_def)

lemma wrw_bitmap: "fs_ok s \<Longrightarrow> b < nblocks s \<Longrightarrow> wrw (bitmap_word b) w s = Ret (set_bitmap b w s)"
  using bitmap_word_range[of b s] by (simp add: wrw_def fs_ok_def set_bitmap_def)

lemma set_bitmap_nblocks [simp]: "nblocks (set_bitmap b w s) = nblocks s"
  by (simp add: nblocks_def set_bitmap_def bitmap_word_def)

lemma set_bitmap_end [simp]: "bitmap_end (set_bitmap b w s) = bitmap_end s"
  by (simp add: bitmap_end_def)

lemma set_bitmap_free:
  assumes "b < nblocks s" "\<And>k. k < 32 \<Longrightarrow> bit w k = (if k = b mod 32 then v else bit (cache s (fst (bitmap_word b)) (snd (bitmap_word b))) k)"
  shows "free_blocks (set_bitmap b w s) = (if v then insert b (free_blocks s) else free_blocks s - {b})"
proof -
  have "free_bit (set_bitmap b w s) x = (if x = b then v else free_bit s x)" for x
  proof (cases "bitmap_word x = bitmap_word b")
    case True
    have "x mod 32 < 32" by simp
    show ?thesis
    proof (cases "x = b")
      case False
      then have "x mod 32 \<noteq> b mod 32" using bitmap_word_inj[OF True] by blast
      then show ?thesis using assms(2)[of "x mod 32"] True False by (simp add: free_bit_def set_bitmap_def)
    qed (use assms(2)[of "b mod 32"] in \<open>simp add: free_bit_def set_bitmap_def\<close>)
  next
    case False
    then have "x \<noteq> b" by auto
    moreover have "fst (bitmap_word x) \<noteq> fst (bitmap_word b) \<or> snd (bitmap_word x) \<noteq> snd (bitmap_word b)"
      using False by (simp add: prod_eq_iff)
    ultimately show ?thesis by (auto simp: free_bit_def set_bitmap_def)
  qed
  then show ?thesis using assms(1) by (auto simp: free_blocks_def)
qed

lemma fs_ok_bitmap:
  assumes "fs_ok s" "b < nblocks s" "v \<longrightarrow> bitmap_end s \<le> b"
    "\<And>k. k < 32 \<Longrightarrow> bit w k = (if k = b mod 32 then v else bit (cache s (fst (bitmap_word b)) (snd (bitmap_word b))) k)"
  shows "fs_ok (set_bitmap b w s)"
  using assms(1,3) set_bitmap_free[OF assms(2,4)] by (auto simp: fs_ok_def split: if_splits)

lemma bit_set_word: "k < 32 \<Longrightarrow> bit ((w :: u32) OR push_bit j 1) k = (if k = j then True else bit w k)"
  by (auto simp: bit_simps)

lemma bit_clear_word: "k < 32 \<Longrightarrow> bit ((w :: u32) AND NOT (push_bit j 1)) k = (if k = j then False else bit w k)"
  by (auto simp: bit_simps)

section \<open>Allocation against its specification\<close>

lemma write_block_mapped:
  assumes "mapped s b" "b < MAXBLOCKS"
  shows "write_block b s = Ret (s\<lparr>disk := (disk s)(b := cache s b)\<rparr>)"
  using assms by (simp add: write_block_def block_is_mapped_def diskaddr_def va_is_mapped_def)

definition flushed :: "nat \<Rightarrow> fs_state \<Rightarrow> fs_state" where
  "flushed b s = s\<lparr>disk := (disk s)(b := cache s b)\<rparr>"

lemma flushed_simps [simp]:
  "fs_super (flushed b s) = fs_super s" "fs_bitmap (flushed b s) = fs_bitmap s" "mapped (flushed b s) = mapped s"
  "dirty (flushed b s) = dirty s" "cache (flushed b s) = cache s" "pages_left (flushed b s) = pages_left s"
  "nblocks (flushed b s) = nblocks s" "free_blocks (flushed b s) = free_blocks s" "fs_ok (flushed b s) = fs_ok s"
  "bitmap_end (flushed b s) = bitmap_end s" "free_bit (flushed b s) x = free_bit s x"
  by (simp_all add: flushed_def nblocks_def free_blocks_def free_bit_def[abs_def] fs_ok_def bitmap_end_def)

definition claimed :: "nat \<Rightarrow> fs_state \<Rightarrow> fs_state" where
  "claimed b s = flushed (b div BIT2BLK + 2)
     (set_bitmap b (cache s (fst (bitmap_word b)) (snd (bitmap_word b)) AND NOT (push_bit (b mod 32) 1)) s)"

lemma claimed_ok:
  assumes "fs_ok s" "b \<in> free_blocks s"
  shows "fs_ok (claimed b s)" "free_blocks (claimed b s) = free_blocks s - {b}"
proof -
  have b: "b < nblocks s" using assms(2) by (simp add: free_blocks_def)
  show "fs_ok (claimed b s)" unfolding claimed_def flushed_simps
    by (rule fs_ok_bitmap[where v = False, OF assms(1) b _ bit_clear_word]) simp_all
  show "free_blocks (claimed b s) = free_blocks s - {b}" unfolding claimed_def flushed_simps
    using set_bitmap_free[where v = False, OF b bit_clear_word] by simp
qed

lemma alloc_scan_ok:
  assumes "fs_ok s" "\<And>b. b \<in> set bs \<Longrightarrow> b < nblocks s"
  shows "alloc_scan bs s = (case filter (\<lambda>b. b \<in> free_blocks s) bs of [] \<Rightarrow> Ret (Inl E_NO_DISK, s) | b # _ \<Rightarrow> Ret (Inr b, claimed b s))"
  using assms(2)
proof (induction bs)
  case (Cons b bs)
  then have b: "b < nblocks s" by simp
  show ?case
  proof (cases "b \<in> free_blocks s")
    case False
    then have "\<not> bit (cache s (fst (bitmap_word b)) (snd (bitmap_word b))) (b mod 32)" using b by (simp add: free_blocks_def free_bit_def)
    then have "alloc_scan (b # bs) s = alloc_scan bs s" using rdw_bitmap[OF assms(1) b] bit_test by simp
    then show ?thesis using Cons False by simp
  next
    case True
    then have bt: "bit (cache s (fst (bitmap_word b)) (snd (bitmap_word b))) (b mod 32)" by (simp add: free_blocks_def free_bit_def)
    have eq: "b div 32768 + 2 = fst (bitmap_word b)" by (simp add: bitmap_word_def div_mult2_eq[symmetric])
    have m: "mapped s (b div 32768 + 2)" "b div 32768 + 2 < MAXBLOCKS"
      using bitmap_word_range[OF b] fs_okD(3,5)[OF assms(1)] b unfolding eq bitmap_end_def by (auto simp: eq)
    show ?thesis
      using True bt rdw_bitmap[OF assms(1) b] wrw_bitmap[OF assms(1) b] bit_test m
      by (simp add: claimed_def flushed_def write_block_mapped)
  qed
qed simp

text \<open>
  C26. Allocation refines a set of free blocks: \<open>alloc_block_num\<close> takes the lowest free block from number 3 on out
  of the set, or fails with \<open>E_NO_DISK\<close> exactly when there is none; \<open>free_block\<close> puts a block back. Neither
  changes the status of any other block, and the bitmap block of an allocation is on disk when it returns.
\<close>

theorem bitmap_refines_free_set:
  assumes "fs_ok s"
  shows "(if free_blocks s \<inter> {3..} = {} then alloc_block_num s = Ret (Inl E_NO_DISK, s)
      else returns (\<lambda>(r, s'). fs_ok s' \<and> r = Inr (LEAST b. b \<in> free_blocks s \<and> 3 \<le> b)
        \<and> free_blocks s' = free_blocks s - {LEAST b. b \<in> free_blocks s \<and> 3 \<le> b}
        \<and> disk s' (fst (bitmap_word (LEAST b. b \<in> free_blocks s \<and> 3 \<le> b))) = cache s' (fst (bitmap_word (LEAST b. b \<in> free_blocks s \<and> 3 \<le> b))))
        (alloc_block_num s))
    \<and> (bitmap_end s \<le> b \<and> b < nblocks s \<longrightarrow>
        returns (\<lambda>s'. fs_ok s' \<and> free_blocks s' = insert b (free_blocks s) \<and> disk s' = disk s) (free_block b s))"
proof -
  have run: "alloc_block_num s = (case filter (\<lambda>b. b \<in> free_blocks s) [3..<nblocks s] of [] \<Rightarrow> Ret (Inl E_NO_DISK, s) | b # _ \<Rightarrow> Ret (Inr b, claimed b s))"
    using alloc_scan_ok[OF assms, of "[3..<nblocks s]"] assms by (simp add: alloc_block_num_def s_nblocks_eq fs_okD(2))
  have 1: "if free_blocks s \<inter> {3..} = {} then alloc_block_num s = Ret (Inl E_NO_DISK, s)
      else returns (\<lambda>(r, s'). fs_ok s' \<and> r = Inr (LEAST b. b \<in> free_blocks s \<and> 3 \<le> b)
        \<and> free_blocks s' = free_blocks s - {LEAST b. b \<in> free_blocks s \<and> 3 \<le> b}
        \<and> disk s' (fst (bitmap_word (LEAST b. b \<in> free_blocks s \<and> 3 \<le> b))) = cache s' (fst (bitmap_word (LEAST b. b \<in> free_blocks s \<and> 3 \<le> b))))
        (alloc_block_num s)"
  proof (cases "filter (\<lambda>b. b \<in> free_blocks s) [3..<nblocks s]")
    case Nil
    then have "free_blocks s \<inter> {3..} = {}" by (auto simp: filter_empty_conv free_blocks_def)
    then show ?thesis using run Nil by simp
  next
    case (Cons x xs)
    have mem: "y \<in> set (x # xs) \<longleftrightarrow> y \<in> free_blocks s \<and> 3 \<le> y" for y
      unfolding Cons[symmetric] by (auto simp: free_blocks_def)
    have srt: "sorted (x # xs)" unfolding Cons[symmetric] by (rule sorted_wrt_filter) simp
    have l: "(LEAST b. b \<in> free_blocks s \<and> 3 \<le> b) = x"
    proof (rule Least_equality)
      show "x \<in> free_blocks s \<and> 3 \<le> x" using mem[of x] by simp
      show "x \<le> y" if "y \<in> free_blocks s \<and> 3 \<le> y" for y using srt mem[of y] that by auto
    qed
    have x: "x \<in> free_blocks s" "free_blocks s \<inter> {3..} \<noteq> {}" using mem[of x] by auto
    have "disk (claimed x s) (fst (bitmap_word x)) = cache (claimed x s) (fst (bitmap_word x))"
      by (simp add: claimed_def flushed_def bitmap_word_def div_mult2_eq[symmetric])
    then show ?thesis using run Cons claimed_ok[OF assms x(1)] x(2) l by simp
  qed
  have 2: "returns (\<lambda>s'. fs_ok s' \<and> free_blocks s' = insert b (free_blocks s) \<and> disk s' = disk s) (free_block b s)"
    if b: "bitmap_end s \<le> b" "b < nblocks s"
  proof -
    let ?w = "cache s (fst (bitmap_word b)) (snd (bitmap_word b)) OR push_bit (b mod 32) 1"
    have run: "free_block b s = Ret (set_bitmap b ?w s)"
      using b assms rdw_bitmap[OF assms b(2)] wrw_bitmap[OF assms b(2)]
      by (simp add: free_block_def s_nblocks_eq fs_okD(2) bitmap_end_def)
    have "fs_ok (set_bitmap b ?w s)"
      by (rule fs_ok_bitmap[where v = True, OF assms b(2) _ bit_set_word]) (use b(1) in simp_all)
    moreover have "free_blocks (set_bitmap b ?w s) = insert b (free_blocks s)"
      using set_bitmap_free[where v = True, OF b(2) bit_set_word] by simp
    ultimately show ?thesis by (simp add: run)
  qed
  show ?thesis using 1 2 by blast
qed

section \<open>Write-back\<close>

definition sync_one :: "nat \<Rightarrow> fs_state \<Rightarrow> fs_state" where
  "sync_one b s = (if mapped s b \<and> dirty s b then flushed b s else s)"

lemma sync_step:
  assumes "b < MAXBLOCKS"
  shows "obind (block_is_dirty b s) (\<lambda>d. if d then write_block b s else Ret s) = Ret (sync_one b s)"
  using assms by (simp add: block_is_dirty_def diskaddr_def va_is_mapped_def va_is_dirty_def sync_one_def write_block_mapped flushed_def)

lemma sync_blocks:
  assumes "\<And>b. b \<in> set bs \<Longrightarrow> b < MAXBLOCKS"
  shows "ofold (\<lambda>b s. obind (block_is_dirty b s) (\<lambda>d. if d then write_block b s else Ret s)) bs s =
    Ret (s\<lparr>disk := (\<lambda>b. if b \<in> set bs \<and> mapped s b \<and> dirty s b then cache s b else disk s b)\<rparr>)"
  using assms
proof (induction bs arbitrary: s)
  case (Cons b bs)
  have "sync_one b s = s\<lparr>disk := (\<lambda>x. if x = b \<and> mapped s x \<and> dirty s x then cache s x else disk s x)\<rparr>"
    by (auto simp: sync_one_def flushed_def fun_eq_iff intro!: fs_state.equality)
  then show ?case using Cons sync_step[of b s] by (auto intro!: fs_state.equality)
qed (simp add: fun_eq_iff)

lemma fs_sync_run:
  assumes "fs_ok s"
  shows "fs_sync s = Ret (s\<lparr>disk := (\<lambda>b. if b < nblocks s \<and> mapped s b \<and> dirty s b then cache s b else disk s b)\<rparr>)"
proof -
  have "b < MAXBLOCKS" if "b \<in> set [0..<nblocks s]" for b using that fs_okD(3)[OF assms] by simp
  from sync_blocks[of "[0..<nblocks s]" s, OF this] show ?thesis unfolding fs_sync_def s_nblocks_eq[OF assms] obind.simps by simp
qed

text \<open>
  \<open>fs_sync\<close> makes every dirty cached block durable: afterwards the disk holds, for every block below the size
  of the disk that is cached and dirty, its cached contents; all other blocks of the disk, and the cache, are
  unchanged.
\<close>

theorem fs_sync_correct:
  assumes "fs_ok s"
  shows "fs_sync s = Ret (s\<lparr>disk := (\<lambda>b. if b < nblocks s \<and> mapped s b \<and> dirty s b then cache s b else disk s b)\<rparr>)"
  using assms by (rule fs_sync_run)

text \<open>
  What is written to a cached block survives losing the cache: after \<open>dirty_block\<close>, \<open>write_block\<close> and
  dropping the page, \<open>read_block\<close> brings back the same contents, provided the block is in use and a page is
  left for it.
\<close>

theorem write_read_block:
  assumes "fs_ok s" and "b < nblocks s" and "b \<notin> free_blocks s" and "mapped s b" and "bitmap_end s \<le> b"
  shows "returns (\<lambda>(r, s'). r = Inr (b, True) \<and> cache s' b = cache s b \<and> fs_ok s')
    (obind (write_block b s) (\<lambda>s. read_block b (mem_unmap b s)))"
proof -
  have b: "b < MAXBLOCKS" using assms(2) fs_okD(3)[OF assms(1)] by simp
  let ?s = "mem_unmap b (flushed b s)"
  have b2: "b \<noteq> 1" "b \<noteq> x" if "x < bitmap_end s" for x using assms(5) that by (auto simp: bitmap_end_def)
  have f: "nblocks ?s = nblocks s" "bitmap_end ?s = bitmap_end s" "cache ?s = cache s" "disk ?s b = cache s b"
    by (simp_all add: mem_unmap_def nblocks_def bitmap_end_def flushed_def)
  have fb: "free_blocks ?s = free_blocks s" using f by (simp add: free_blocks_def free_bit_def)
  have ok: "fs_ok ?s"
    using assms(1) b2 f fb assms(5) by (auto simp: fs_ok_def mem_unmap_def bitmap_end_def)
  have "\<not> mapped ?s b" "pages_left ?s \<noteq> 0" using assms(4) by (simp_all add: mem_unmap_def)
  then have run: "read_block b ?s = Ret (Inr (b, True), (snd (mem_alloc b ?s))\<lparr>cache := (cache (snd (mem_alloc b ?s)))(b := disk ?s b)\<rparr>)"
    using ok assms(2,3) b f fb
    by (simp add: read_block_def s_nblocks_eq fs_okD(1,2) block_is_free_eq diskaddr_def block_is_mapped_def va_is_mapped_def mem_alloc_def)
  let ?t = "(snd (mem_alloc b ?s))\<lparr>cache := (cache (snd (mem_alloc b ?s)))(b := disk ?s b)\<rparr>"
  have c: "cache ?t = cache s" using \<open>pages_left ?s \<noteq> 0\<close> f by (auto simp: mem_alloc_def fun_eq_iff)
  have "nblocks ?t = nblocks s" "bitmap_end ?t = bitmap_end s" "free_blocks ?t = free_blocks s"
    using c by (simp_all add: nblocks_def bitmap_end_def free_blocks_def free_bit_def)
  then have "fs_ok ?t" using ok f fb \<open>pages_left ?s \<noteq> 0\<close> by (auto simp: fs_ok_def mem_alloc_def)
  then show ?thesis using run c write_block_mapped[OF assms(4) b] by (simp add: flushed_def)
qed

text \<open>
  \<open>unmap_block\<close> never unmaps: its first test is inverted, so a block that is cached stays cached.
\<close>

theorem unmap_block_keeps_mapped_block:
  assumes "mapped s b" and "b < MAXBLOCKS"
  shows "unmap_block b s = Ret s"
  using assms by (simp add: unmap_block_def block_is_mapped_def diskaddr_def va_is_mapped_def)

section \<open>Paths\<close>

text \<open>The names of a path: the non-empty pieces between slashes, up to the terminator.\<close>

function path_names :: "char list \<Rightarrow> char list list" where
  "path_names p =
     (case dropWhile (\<lambda>c. c = CHR ''/'') p of
        [] \<Rightarrow> []
      | c # cs \<Rightarrow>
          if c = NUL then []
          else takeWhile (\<lambda>c. c \<noteq> CHR ''/'' \<and> c \<noteq> NUL) (c # cs)
               # path_names (dropWhile (\<lambda>c. c \<noteq> CHR ''/'' \<and> c \<noteq> NUL) cs))"
  by auto
termination
proof (relation "measure length")
  fix p c cs assume a: "dropWhile (\<lambda>c. c = CHR ''/'') p = c # cs"
  have "length (dropWhile (\<lambda>c. c \<noteq> CHR ''/'' \<and> c \<noteq> NUL) cs) \<le> length cs" by (rule length_dropWhile_le)
  also have "\<dots> < length (c # cs)" by simp
  also have "\<dots> \<le> length p" unfolding a[symmetric] by (rule length_dropWhile_le)
  finally show "(dropWhile (\<lambda>c. c \<noteq> CHR ''/'' \<and> c \<noteq> NUL) cs, p) \<in> measure length" by simp
qed simp

declare path_names.simps [simp del]

text \<open>Resolution along a list of names.\<close>

fun walk_names :: "char list list \<Rightarrow> fptr option \<Rightarrow> fptr \<Rightarrow> fs_state \<Rightarrow> ((walk_error + fptr option \<times> fptr) \<times> fs_state) outcome" where
  "walk_names [] dir file s = Ret (Inr (dir, file), s)"
| "walk_names (name # names) dir file s =
     (if 128 \<le> length name then Ret (Inl (E_BAD_PATH, None), s)
      else obind (rdw (field file F_TYPE) s) (\<lambda>ty.
        if ty \<noteq> FTYPE_DIR then Ret (Inl (E_NOT_FOUND, None), s)
        else obind (dir_lookup file (name @ [NUL]) s) (\<lambda>(r, s).
          case r of
            Inl e \<Rightarrow> Ret (Inl (e, if e = E_NOT_FOUND \<and> names = [] then Some (file, name @ [NUL]) else None), s)
          | Inr f \<Rightarrow> walk_names names (Some file) f s)))"

lemma skip_slash_head: "skip_slash p = c # cs \<Longrightarrow> c \<noteq> CHR ''/''"
  using hd_dropWhile[of "\<lambda>c. c = CHR ''/''" p] by (auto simp: skip_slash_def)

lemma terminated_dropWhile: "terminated p \<Longrightarrow> \<not> P NUL \<Longrightarrow> terminated (dropWhile P p)"
  by (induction p) auto

lemma path_names_skip_slash: "path_names (skip_slash p) = path_names p"
proof -
  have i: "dropWhile (\<lambda>c. c = CHR ''/'') (skip_slash p) = dropWhile (\<lambda>c. c = CHR ''/'') p"
    by (simp add: skip_slash_def dropWhile_idem)
  show ?thesis unfolding path_names.simps[of "skip_slash p"] path_names.simps[of p] i ..
qed

lemma path_names_NUL: "path_names (NUL # cs) = []"
  unfolding path_names.simps[of "NUL # cs"] by simp

lemma path_names_step:
  assumes "c \<noteq> CHR ''/''" and "c \<noteq> NUL"
  shows "path_names (c # cs) = path_elem (c # cs) # path_names (path_rest (c # cs))"
proof -
  have d: "dropWhile (\<lambda>c. c = CHR ''/'') (c # cs) = c # cs" using assms by simp
  have r: "path_rest (c # cs) = skip_slash (dropWhile (\<lambda>c. c \<noteq> CHR ''/'' \<and> c \<noteq> NUL) cs)"
    using assms by (simp add: path_rest_def)
  show ?thesis
    unfolding path_names.simps[of "c # cs"] d r path_names_skip_slash path_elem_def list.case if_not_P[OF assms(2)] ..
qed

lemma path_names_Nil_iff:
  assumes "c \<noteq> CHR ''/''"
  shows "path_names (c # cs) = [] \<longleftrightarrow> c = NUL"
  using path_names_NUL path_names_step[OF assms] by (cases "c = NUL") simp_all

lemma walk_loop_names:
  "terminated p \<Longrightarrow> (\<And>c cs. p = c # cs \<Longrightarrow> c \<noteq> CHR ''/'') \<Longrightarrow> walk_loop p dir g s = walk_names (path_names p) dir g s"
proof (induction "length p" arbitrary: p dir g s rule: less_induct)
  case less
  obtain c cs where p: "p = c # cs" using less.prems(1) by (cases p) auto
  have c: "c \<noteq> CHR ''/''" using less.prems(2) p by blast
  show ?case
  proof (cases "c = NUL")
    case True
    show ?thesis unfolding p True path_names_NUL walk_names.simps walk_loop.simps[of "NUL # cs"] by simp
  next
    case False
    have tr: "terminated (path_rest p)"
      unfolding path_rest_def skip_slash_def by (intro terminated_dropWhile less.prems(1)) simp_all
    then obtain d ds where r: "path_rest (c # cs) = d # ds" unfolding p by (cases "path_rest (c # cs)") auto
    have d: "d \<noteq> CHR ''/''" using r unfolding path_rest_def by (rule skip_slash_head)
    have len: "length (d # ds) < length p" using path_rest_shorter[OF False, of cs] unfolding r p .
    have IH: "walk_loop (d # ds) (Some f) g t = walk_names (path_names (d # ds)) (Some f) g t" for f g t
      by (rule less.hyps[OF len]) (use tr p r d in simp_all)
    show ?thesis
      unfolding p path_names_step[OF c False] walk_names.simps walk_loop.simps[of "c # cs"] list.case
        if_not_P[OF False] Let_def IH r path_names_Nil_iff[OF d]
      by (intro if_cong[OF refl refl] obind_cong[OF refl]) (auto split: sum.split prod.split)
  qed
qed

text \<open>
  C27. Path resolution depends only on the names of the path: walking a terminated path (as \<open>walk_path_at\<close> does
  from a directory, and \<open>walk_path\<close> from the root) is resolving the list of its non-empty components one
  directory at a time, so that leading, trailing and repeated slashes do not matter; only the lookup of the last
  component may report a missing entry together with the directory to create it in.
\<close>

theorem walk_path_at_names:
  assumes "terminated path"
  shows "walk_path_at par_dir path s = walk_names (path_names path) None par_dir s"
proof -
  have "walk_loop (skip_slash path) None par_dir s = walk_names (path_names (skip_slash path)) None par_dir s"
  proof (rule walk_loop_names)
    show "terminated (skip_slash path)" unfolding skip_slash_def by (rule terminated_dropWhile[OF assms]) simp
  qed (rule skip_slash_head)
  then show ?thesis unfolding walk_path_at_def path_names_skip_slash .
qed

section \<open>A small disk\<close>

text \<open>Eight blocks, of which 5, 6 and 7 are free; the super block, the bitmap and block 4 are cached.\<close>

definition demo_fs :: fs_state where
  "demo_fs = \<lparr>fs_super = True, fs_bitmap = True,
     cache = (\<lambda>b k. if b = 1 \<and> k = 0 then FS_MAGIC else if b = 1 \<and> k = 1 then 8 else if b = 2 \<and> k = 0 then 0xE0
                    else if b = 4 then 7 else 0),
     mapped = (\<lambda>b. b \<in> {1, 2, 4}), dirty = (\<lambda>b. b = 4), disk = (\<lambda>_ _. 0), pages_left = 3\<rparr>"

lemma demo_fs_simps:
  "nblocks demo_fs = 8" "bitmap_end demo_fs = 3" "free_blocks demo_fs = {5, 6, 7}" "fs_ok demo_fs"
proof -
  show n: "nblocks demo_fs = 8" by (simp add: nblocks_def demo_fs_def)
  then show e: "bitmap_end demo_fs = 3" by (simp add: bitmap_end_def)
  have lt: "b < 8 \<longleftrightarrow> b \<in> {0, 1, 2, 3, 4, 5, 6, 7}" for b :: nat by auto
  have bits: "b < 8 \<Longrightarrow> bitmap_word b = (2, 0)" for b unfolding bitmap_word_def by simp
  have "b < 8 \<Longrightarrow> free_bit demo_fs b \<longleftrightarrow> b \<in> {5, 6, 7}" for b
    unfolding free_bit_def bits by (auto simp: lt demo_fs_def bit_numeral_rec)
  then show f: "free_blocks demo_fs = {5, 6, 7}" unfolding free_blocks_def n by auto
  have "mapped demo_fs b" if "2 \<le> b" "b < 3" for b using that by (simp add: demo_fs_def)
  then show "fs_ok demo_fs" unfolding fs_ok_def n e f by (simp add: demo_fs_def)
qed

theorem bitmap_refines_free_set_witness:
  "fs_ok demo_fs
    \<and> returns (\<lambda>(r, s'). fs_ok s' \<and> r = Inr 5 \<and> free_blocks s' = {6, 7}) (alloc_block_num demo_fs)
    \<and> returns (\<lambda>s'. free_blocks s' = {4, 5, 6, 7}) (free_block 4 demo_fs)"
proof -
  have l: "(LEAST b. b \<in> free_blocks demo_fs \<and> 3 \<le> b) = 5"
    by (rule Least_equality) (auto simp: demo_fs_simps)
  have ne: "free_blocks demo_fs \<inter> {3..} \<noteq> {}" by (auto simp: demo_fs_simps)
  note p = bitmap_refines_free_set[of demo_fs 4, OF demo_fs_simps(4), unfolded l if_not_P[OF ne]]
  have "returns (\<lambda>(r, s'). fs_ok s' \<and> r = Inr 5 \<and> free_blocks s' = {6, 7}) (alloc_block_num demo_fs)"
    by (rule returns_mono2[OF p[THEN conjunct1]]) (auto simp: demo_fs_simps)
  moreover have "returns (\<lambda>s'. free_blocks s' = {4, 5, 6, 7}) (free_block 4 demo_fs)"
    by (rule returns_mono[OF p[THEN conjunct2, THEN mp]]) (auto simp: demo_fs_simps)
  ultimately show ?thesis using demo_fs_simps(4) by blast
qed

theorem fs_sync_correct_witness:
  "fs_ok demo_fs \<and> (\<exists>s'. fs_sync demo_fs = Ret s' \<and> disk s' 4 = (\<lambda>_. 7) \<and> disk s' 2 = (\<lambda>_. 0))"
  using fs_sync_correct[OF demo_fs_simps(4)] demo_fs_simps by (simp add: demo_fs_def fun_eq_iff)

theorem write_read_block_witness:
  "returns (\<lambda>(r, s'). r = Inr (4, True) \<and> cache s' 4 = (\<lambda>_. 7) \<and> fs_ok s')
    (obind (write_block 4 demo_fs) (\<lambda>s. read_block 4 (mem_unmap 4 s)))"
proof -
  have m: "mapped demo_fs 4" "cache demo_fs 4 = (\<lambda>_. 7)" by (simp_all add: demo_fs_def fun_eq_iff)
  show ?thesis using write_read_block[OF demo_fs_simps(4), of 4] m by (simp add: demo_fs_simps)
qed

theorem unmap_block_keeps_mapped_block_witness:
  "mapped demo_fs 4 \<and> unmap_block 4 demo_fs = Ret demo_fs"
  using unmap_block_keeps_mapped_block[of demo_fs 4] by (simp add: demo_fs_def)

theorem walk_path_at_names_witness:
  "path_names (''//bin/sh/'' @ [NUL]) = [''bin'', ''sh'']
    \<and> walk_path_at (1, 2) (''//bin/sh/'' @ [NUL]) demo_fs = walk_names [''bin'', ''sh''] None (1, 2) demo_fs"
proof -
  have "path_names (''//bin/sh/'' @ [NUL]) = [''bin'', ''sh'']" by (simp add: path_names.simps)
  then show ?thesis using walk_path_at_names[of "''//bin/sh/'' @ [NUL]" "(1, 2)" demo_fs] by simp
qed

end
