(* ===== verification/Mos_FsInit.thy ===== *)
theory Mos_FsInit
  imports Mos_FsProps
begin

text \<open>
  The start-up of the file system, \<open>fs_init\<close> of \<open>fs/fs.c\<close>: what the byte accesses of \<open>Mos_Fs\<close> do to a block, that
  the self-test \<open>check_write_block\<close> restores the super block, and that start-up establishes the invariant.
\<close>

section \<open>Bytes of a word\<close>

lemma bit_of_char_less: "bit (of_char c :: nat) n \<Longrightarrow> n < 8"
proof -
  have e: "(of_char c :: nat) = take_bit 8 (of_char c)" by (simp add: take_bit_nat_eq_self)
  show "bit (of_char c :: nat) n \<Longrightarrow> n < 8" by (subst (asm) e) (simp only: bit_take_bit_iff)
qed

lemma bit_of_char: "bit (of_nat (of_char c) :: u32) n \<longleftrightarrow> n < 8 \<and> bit (of_char c :: nat) n"
  unfolding bit_of_nat_iff using bit_of_char_less[of c n] by (auto dest: bit_imp_possible_bit)

lemma bit_FF: "bit (0xFF :: u32) n \<longleftrightarrow> n < 8"
proof -
  have m: "(0xFF :: u32) = mask 8" by (simp add: mask_eq_exp_minus_1)
  show ?thesis unfolding m bit_mask_iff by auto
qed

lemma bit_set_word_byte:
  "m < 32 \<Longrightarrow> bit (set_word_byte k c w) m =
     (if 8 * k \<le> m \<and> m < 8 * k + 8 then bit (of_char c :: nat) (m - 8 * k) else bit w m)"
  unfolding set_word_byte_def bit_or_iff bit_and_iff bit_not_iff bit_push_bit_iff bit_FF bit_of_char by auto

lemma word_byte_take: "word_byte w j = char_of (take_bit 8 (unat (drop_bit (8 * j) w)))"
  by (simp add: word_byte_def take_bit_eq_mod)

lemma bit_word_byte: "bit (take_bit 8 (unat (drop_bit (8 * j) (w :: u32)))) n \<longleftrightarrow> n < 8 \<and> bit w (8 * j + n)"
  unfolding bit_take_bit_iff bit_unsigned_iff bit_drop_bit_eq by (auto dest: bit_imp_le_length)

lemma word_byte_set:
  assumes "k < 4" "j < 4"
  shows "word_byte (set_word_byte k c w) j = (if j = k then c else word_byte w j)"
proof -
  have "take_bit 8 (unat (drop_bit (8 * j) (set_word_byte k c w))) = (if j = k then of_char c else take_bit 8 (unat (drop_bit (8 * j) w)))"
    (is "?l = ?r")
  proof (rule bit_eqI)
    fix n
    have s: "n < 8 \<Longrightarrow> 8 * j + n < 32" using assms by linarith
    have d: "n < 8 \<Longrightarrow> (8 * k \<le> 8 * j + n \<and> 8 * j + n < 8 * k + 8) = (j = k)" by presburger
    have r: "bit ?r n \<longleftrightarrow> n < 8 \<and> (if j = k then bit (of_char c :: nat) n else bit w (8 * j + n))"
      using bit_of_char_less[of c n] by (cases "j = k") (simp_all only: if_True if_False bit_word_byte, auto)
    show "bit ?l n = bit ?r n"
      unfolding bit_word_byte r using bit_set_word_byte[OF s, of k c w] d by (cases "j = k") auto
  qed
  then show ?thesis unfolding word_byte_take by simp
qed

section \<open>Bytes of a cached block\<close>

definition blk_byte :: "(nat \<Rightarrow> u32) \<Rightarrow> nat \<Rightarrow> char" where
  "blk_byte b n = word_byte (b (n div 4)) (n mod 4)"

lemma rd_bytes_eq: "mapped s b \<Longrightarrow> n \<le> BY2BLK \<Longrightarrow> rd_bytes (b, 0) n s = Ret (map (blk_byte (cache s b)) [0..<n])"
  by (simp add: rd_bytes_def blk_byte_def)

lemma wr_bytes_spec:
  assumes "mapped s b" "i + length cs \<le> BY2BLK"
  shows "\<exists>c. wr_bytes (b, 0) i cs s = Ret (s\<lparr>cache := (cache s)(b := c)\<rparr>)
    \<and> (\<forall>n. blk_byte c n = (if i \<le> n \<and> n < i + length cs then cs ! (n - i) else blk_byte (cache s b) n))"
  using assms
proof (induction cs arbitrary: i s)
  case Nil
  have "s = s\<lparr>cache := (cache s)(b := cache s b)\<rparr>" by simp
  then show ?case by (intro exI[of _ "cache s b"]) auto
next
  case (Cons x cs)
  let ?c = "(cache s b)(i div 4 := set_word_byte (i mod 4) x (cache s b (i div 4)))"
  let ?s = "s\<lparr>cache := (cache s)(b := ?c)\<rparr>"
  have i: "i div 4 < BLOCK_WORDS" using Cons.prems(2) by simp
  have step: "wr_bytes (b, 0) i (x # cs) s = wr_bytes (b, 0) (i + 1) cs ?s"
    using Cons.prems(1) i by (simp add: rdw_def wrw_def field_def)
  have x: "blk_byte ?c n = (if n = i then x else blk_byte (cache s b) n)" for n
  proof (cases "n div 4 = i div 4")
    case True
    then have "n = i \<longleftrightarrow> n mod 4 = i mod 4" by (metis div_mult_mod_eq)
    then show ?thesis using True word_byte_set[of "i mod 4" "n mod 4" x] by (simp add: blk_byte_def)
  qed (auto simp: blk_byte_def)
  obtain c where c: "wr_bytes (b, 0) (i + 1) cs ?s = Ret (?s\<lparr>cache := (cache ?s)(b := c)\<rparr>)"
    "\<And>n. blk_byte c n = (if i + 1 \<le> n \<and> n < i + 1 + length cs then cs ! (n - (i + 1)) else blk_byte (cache ?s b) n)"
  proof -
    have "mapped ?s b" "i + 1 + length cs \<le> BY2BLK" using Cons.prems by simp_all
    from Cons.IH[OF this] show ?thesis using that by blast
  qed
  have "blk_byte c n = (if i \<le> n \<and> n < i + length (x # cs) then (x # cs) ! (n - i) else blk_byte (cache s b) n)" for n
    using c(2)[of n] x[of n] by (auto simp: nth_Cons' not_le less_Suc_eq)
  moreover have "?s\<lparr>cache := (cache ?s)(b := c)\<rparr> = s\<lparr>cache := (cache s)(b := c)\<rparr>" by simp
  ultimately show ?case unfolding step c(1) by (intro exI[of _ c]) (simp only: simp_thms)
qed

section \<open>Start-up\<close>

lemma read_block_cold:
  assumes "\<not> fs_super s" "\<not> fs_bitmap s" "\<not> mapped s b" "b < MAXBLOCKS" "pages_left s \<noteq> 0"
  shows "read_block b s = Ret (Inr (b, True), s\<lparr>pages_left := pages_left s - 1, cache := (cache s)(b := disk s b),
     mapped := (mapped s)(b := True), dirty := (dirty s)(b := False)\<rparr>)"
  using assms by (simp add: read_block_def diskaddr_def block_is_mapped_def va_is_mapped_def mem_alloc_def)

text \<open>The self-test restores what it smashes.\<close>

lemma check_write_block_ok:
  assumes "mapped s 1" "\<not> mapped s 0" "\<not> fs_bitmap s" "pages_left s \<noteq> 0"
  shows "returns (\<lambda>s'. fs_super s' \<and> \<not> fs_bitmap s' \<and> mapped s' = (mapped s)(0 := True) \<and> pages_left s' = pages_left s - 1
      \<and> cache s' = (cache s)(0 := cache s 1) \<and> disk s' = (disk s)(1 := cache s 1)) (check_write_block s)"
proof -
  define smash where "smash = ''OOPS!'' @ [CHR 0x0A, NUL]"
  define X where "X = s\<lparr>fs_super := False, pages_left := pages_left s - 1, cache := (cache s)(0 := disk s 0), mapped := (mapped s)(0 := True), dirty := (dirty s)(0 := False)\<rparr>"
  have r0: "read_block 0 (s\<lparr>fs_super := False\<rparr>) = Ret (Inr (0, True), X)"
    unfolding X_def using read_block_cold[of "s\<lparr>fs_super := False\<rparr>" 0] assms by simp
  define s1 where "s1 = X\<lparr>cache := (cache X)(0 := cache X 1)\<rparr>"
  have m1: "mapped X 1" "mapped s1 1" using assms(1) by (simp_all add: X_def s1_def)
  obtain c where c: "wr_bytes (1, 0) 0 smash s1 = Ret (s1\<lparr>cache := (cache s1)(1 := c)\<rparr>)"
    "\<And>n. blk_byte c n = (if n < 7 then smash ! n else blk_byte (cache s1 1) n)"
    using wr_bytes_spec[OF m1(2), of 0 smash] by (auto simp: smash_def)
  define s2 where "s2 = s1\<lparr>cache := (cache s1)(1 := c)\<rparr>"
  have m2: "mapped s2 1" using m1 by (simp add: s2_def)
  have w: "write_block 1 s2 = Ret (flushed 1 s2)" using write_block_mapped[OF m2] by (simp add: flushed_def)
  define s3 where "s3 = mem_unmap 1 (flushed 1 s2)"
  define s4 where "s4 = s3\<lparr>pages_left := pages_left s3 - 1, cache := (cache s3)(1 := disk s3 1), mapped := (mapped s3)(1 := True), dirty := (dirty s3)(1 := False)\<rparr>"
  have cold: "\<not> fs_super s3" "\<not> fs_bitmap s3" "\<not> mapped s3 1" "pages_left s3 \<noteq> 0"
    using assms m2 by (simp_all add: s3_def s2_def s1_def X_def mem_unmap_def flushed_def)
  have r1: "read_block 1 s3 = Ret (Inr (1, True), s4)"
    unfolding s4_def using read_block_cold[OF cold(1-3) _ cold(4)] by simp
  have c4: "cache s4 1 = c" "mapped s4 1" by (simp_all add: s4_def s3_def s2_def mem_unmap_def flushed_def)
  have rd: "rd_bytes (1, 0) 7 s4 = Ret smash"
  proof -
    have "map (blk_byte c) [0..<7] = smash"
      by (rule nth_equalityI) (auto simp: c(2) smash_def)
    then show ?thesis using rd_bytes_eq[OF c4(2), of 7] unfolding c4 by simp
  qed
  have cmp: "strcmp smash smash = Ret 0" by (simp add: smash_def)
  define s5 where "s5 = s4\<lparr>cache := (cache s4)(1 := cache s4 0)\<rparr>"
  have w2: "write_block 1 s5 = Ret (flushed 1 s5)" using write_block_mapped[of s5 1] c4 by (simp add: flushed_def s5_def)
  have bm: "block_is_mapped 1 t = Ret (mapped t 1)" for t by (simp add: block_is_mapped_def diskaddr_def va_is_mapped_def)
  have run: "check_write_block s = Ret ((flushed 1 s5)\<lparr>fs_super := True\<rparr>)"
    unfolding check_write_block_def Let_def r0 obind.simps prod.case
    by (simp only: m1 not_True_eq_False if_False s1_def[symmetric] smash_def[symmetric] c(1) s2_def[symmetric] obind.simps w bm
        flushed_simps m2 guard_panic_True s3_def[symmetric] cold not_False_eq_True r1 prod.case rd cmp simp_thms s5_def[symmetric] w2)
  have e: "mapped s5 = (mapped s)(0 := True)" "pages_left s5 = pages_left s - 1" "\<not> fs_bitmap s5"
    "cache s5 = (cache s)(0 := cache s 1)" "disk s5 = (disk s)(1 := c)"
    using assms m2 by (auto simp: s5_def s4_def s3_def s2_def s1_def X_def mem_unmap_def flushed_def fun_eq_iff)
  show ?thesis unfolding run using e by (simp add: flushed_def)
qed

definition valid_disk :: "fs_state \<Rightarrow> bool" where
  "valid_disk t \<longleftrightarrow> (let n = unat (disk t 1 1) in disk t 1 0 = FS_MAGIC \<and> n \<le> MAXBLOCKS \<and> n div BIT2BLK + 3 \<le> n
     \<and> (\<forall>b < n div BIT2BLK + 3. \<not> bit (disk t (fst (bitmap_word b)) (snd (bitmap_word b))) (b mod 32)))"

definition cold :: "fs_state \<Rightarrow> bool" where
  "cold t \<longleftrightarrow> \<not> fs_super t \<and> \<not> fs_bitmap t \<and> mapped t = (\<lambda>_. False)"

lemma read_super_cold:
  assumes "cold t" "pages_left t \<noteq> 0"
  shows "read_super t =
    (if disk t 1 0 \<noteq> FS_MAGIC then Panic ''bad file system magic number''
     else if MAXBLOCKS < unat (disk t 1 1) then Panic ''file system is too large''
     else Ret (t\<lparr>fs_super := True, pages_left := pages_left t - 1, cache := (cache t)(1 := disk t 1),
        mapped := (\<lambda>b. b = 1), dirty := (dirty t)(1 := False)\<rparr>))"
proof -
  have m: "(\<lambda>_. False)(1 := True) = (\<lambda>b :: nat. b = 1)" by (simp add: fun_eq_iff)
  have r: "read_block 1 t = Ret (Inr (1, True), t\<lparr>pages_left := pages_left t - 1, cache := (cache t)(1 := disk t 1),
     mapped := (\<lambda>b. b = 1), dirty := (dirty t)(1 := False)\<rparr>)"
    using read_block_cold[of t 1] assms m by (simp add: cold_def)
  show ?thesis unfolding read_super_def r obind.simps prod.case sum.case Let_def by (simp add: rdw_def s_nblocks_def)
qed

lemma read_block_fresh:
  assumes "fs_super s" "\<not> fs_bitmap s" "s_nblocks s = Ret n" "b < n" "b < MAXBLOCKS" "\<not> mapped s b" "pages_left s \<noteq> 0"
  shows "read_block b s = Ret (Inr (b, True), s\<lparr>pages_left := pages_left s - 1, cache := (cache s)(b := disk s b),
     mapped := (mapped s)(b := True), dirty := (dirty s)(b := False)\<rparr>)"
  using assms by (simp add: read_block_def diskaddr_def block_is_mapped_def va_is_mapped_def mem_alloc_def)

lemma read_bitmap_blocks:
  assumes "fs_super s" "\<not> fs_bitmap s" "mapped s 1" "\<And>i. i < k \<Longrightarrow> \<not> mapped s (i + 2)" "k \<le> pages_left s" "k + 2 \<le> nblocks s" "nblocks s \<le> MAXBLOCKS"
  shows "\<exists>d. ofold (\<lambda>i s. obind (read_block (i + 2) s) (\<lambda>(r, s). Ret s)) [0..<k] s =
    Ret (s\<lparr>pages_left := pages_left s - k, cache := (\<lambda>b. if 2 \<le> b \<and> b < k + 2 then disk s b else cache s b),
           mapped := (\<lambda>b. 2 \<le> b \<and> b < k + 2 \<or> mapped s b), dirty := d\<rparr>)"
  using assms(4,5,6)
proof (induction k)
  case 0
  have "(\<lambda>b. if 2 \<le> b \<and> b < 0 + 2 then disk s b else cache s b) = cache s" "(\<lambda>b. 2 \<le> b \<and> b < 0 + 2 \<or> mapped s b) = mapped s"
    by (auto simp: fun_eq_iff)
  then show ?case by (intro exI[of _ "dirty s"]) simp
next
  case (Suc k)
  let ?u = "\<lambda>k d. s\<lparr>pages_left := pages_left s - k, cache := (\<lambda>b. if 2 \<le> b \<and> b < k + 2 then disk s b else cache s b),
           mapped := (\<lambda>b. 2 \<le> b \<and> b < k + 2 \<or> mapped s b), dirty := d\<rparr>"
  obtain d where d: "ofold (\<lambda>i s. obind (read_block (i + 2) s) (\<lambda>(r, s). Ret s)) [0..<k] s = Ret (?u k d)"
    using Suc by (auto simp: less_SucI)
  have n: "s_nblocks (?u k d) = Ret (nblocks s)" using assms(1,3) by (simp add: s_nblocks_def rdw_def nblocks_def)
  define b0 where "b0 = k + 2"
  have b0: "b0 < MAXBLOCKS" "b0 < nblocks s" "\<not> mapped s b0" "pages_left s - k \<noteq> 0"
    using Suc.prems Suc.prems(1)[of k] assms(7) by (simp_all add: b0_def)
  have m: "(\<lambda>b. 2 \<le> b \<and> b < b0 \<or> mapped s b)(b0 := True) = (\<lambda>b. 2 \<le> b \<and> b < Suc b0 \<or> mapped s b)"
    "(\<lambda>b. if 2 \<le> b \<and> b < b0 then disk s b else cache s b)(b0 := disk s b0) = (\<lambda>b. if 2 \<le> b \<and> b < Suc b0 then disk s b else cache s b)"
    by (auto simp: fun_eq_iff b0_def)
  define v where "v = ?u k d"
  have v: "fs_super v" "\<not> fs_bitmap v" "s_nblocks v = Ret (nblocks s)" "\<not> mapped v b0" "pages_left v \<noteq> 0"
    using assms(1,2) n b0 by (simp_all add: v_def b0_def)
  have upd: "v\<lparr>pages_left := pages_left v - 1, cache := (cache v)(b0 := disk v b0), mapped := (mapped v)(b0 := True), dirty := (dirty v)(b0 := False)\<rparr>
    = ?u (Suc k) (d(b0 := False))"
    unfolding add_Suc b0_def[symmetric] m[symmetric] v_def by simp
  have "read_block b0 v = Ret (Inr (b0, True), ?u (Suc k) (d(b0 := False)))"
    unfolding upd[symmetric] by (rule read_block_fresh[OF v(1-3) b0(2,1) v(4,5)])
  note rb = this[unfolded v_def b0_def]
  show ?case
    by (rule exI[of _ "d(k + 2 := False)"])
      (simp only: upt_Suc_append[OF le0] ofold_append d obind.simps ofold.simps add_0 rb prod.case)
qed

lemma check_in_use:
  assumes "\<And>b. b \<in> set bs \<Longrightarrow> block_is_free b s = Ret False"
  shows "ofold (\<lambda>i s. obind (block_is_free i s) (\<lambda>fr. obind (guard_panic (\<not> fr) m) (\<lambda>_. Ret s))) bs s = Ret s"
  using assms by (induction bs) simp_all

lemma fs_init_ok:
  assumes "cold t" and "unat (disk t 1 1) div BIT2BLK + 3 \<le> pages_left t" and v: "valid_disk t"
  shows "returns (\<lambda>s. fs_ok s \<and> disk s = disk t \<and> (\<forall>b. b \<noteq> 0 \<and> mapped s b \<longrightarrow> cache s b = disk t b)
        \<and> pages_left s = pages_left t - (unat (disk t 1 1) div BIT2BLK + 3)) (fs_init t)"
proof -
  let ?n = "unat (disk t 1 1)"
  have p: "pages_left t \<noteq> 0" using assms(2) by simp
  note sup = read_super_cold[OF assms(1) p]
  define s1 where "s1 = t\<lparr>fs_super := True, pages_left := pages_left t - 1, cache := (cache t)(1 := disk t 1), mapped := (\<lambda>b. b = 1), dirty := (dirty t)(1 := False)\<rparr>"
  define k where "k = ?n div BIT2BLK + 1"
  have v2: "?n \<le> MAXBLOCKS" "k + 2 \<le> ?n" "disk t 1 0 = FS_MAGIC"
    "\<And>b. b < k + 2 \<Longrightarrow> \<not> bit (disk t (fst (bitmap_word b)) (snd (bitmap_word b))) (b mod 32)"
    using v by (auto simp: valid_disk_def Let_def k_def)
  have r1: "read_super t = Ret s1" using sup v2(1,3) by (simp add: s1_def)
  have f1: "mapped s1 1" "\<not> mapped s1 0" "\<not> fs_bitmap s1" "pages_left s1 \<noteq> 0" "cache s1 1 = disk t 1" "disk s1 = disk t"
    "pages_left s1 = pages_left t - 1" "mapped s1 = (\<lambda>b. b = 1)"
    using assms by (auto simp: s1_def cold_def)
  obtain s2 where r2: "check_write_block s1 = Ret s2" and f2: "fs_super s2" "\<not> fs_bitmap s2" "mapped s2 = (\<lambda>b. b = 0 \<or> b = 1)"
    "pages_left s2 = pages_left t - 2" "cache s2 = (cache s1)(0 := disk t 1)" "disk s2 = disk t"
    using check_write_block_ok[OF f1(1-4)] f1(5-8) by (auto simp: returns_iff fun_eq_iff)
  have n2: "nblocks s2 = ?n" using f2(5) f1(5) by (simp add: nblocks_def)
  have sn: "s_nblocks s2 = Ret ?n" using f2(1,3) n2 by (simp add: s_nblocks_def rdw_def nblocks_def)
  obtain d where r3: "ofold (\<lambda>i s. obind (read_block (i + 2) s) (\<lambda>(r, s). Ret s)) [0..<k] s2 =
    Ret (s2\<lparr>pages_left := pages_left s2 - k, cache := (\<lambda>b. if 2 \<le> b \<and> b < k + 2 then disk s2 b else cache s2 b),
         mapped := (\<lambda>b. 2 \<le> b \<and> b < k + 2 \<or> mapped s2 b), dirty := d\<rparr>)"
  proof -
    have "mapped s2 1" "\<And>i. i < k \<Longrightarrow> \<not> mapped s2 (i + 2)" "k + 2 \<le> nblocks s2" "nblocks s2 \<le> MAXBLOCKS" using f2(3) v2(1,2) n2 by simp_all
    moreover have "k \<le> pages_left s2" unfolding f2(4) k_def using assms(2) by linarith
    ultimately show ?thesis using read_bitmap_blocks[OF f2(1,2), of k] that by blast
  qed
  define s3 where "s3 = s2\<lparr>pages_left := pages_left s2 - k, cache := (\<lambda>b. if 2 \<le> b \<and> b < k + 2 then disk s2 b else cache s2 b),
         mapped := (\<lambda>b. 2 \<le> b \<and> b < k + 2 \<or> mapped s2 b), dirty := d, fs_bitmap := True\<rparr>"
  have f3: "fs_super s3" "fs_bitmap s3" "mapped s3 1" "disk s3 = disk t" "nblocks s3 = ?n" "bitmap_end s3 = k + 2"
    "\<And>b. 2 \<le> b \<Longrightarrow> b < k + 2 \<Longrightarrow> cache s3 b = disk t b \<and> mapped s3 b"
    using f2 f1(5) n2 by (auto simp: s3_def nblocks_def bitmap_end_def k_def)
  have inuse: "\<not> free_bit s3 b" if "b < k + 2" for b
  proof -
    have "b < nblocks s3" using that v2(2) f3(5) by simp
    from bitmap_word_range[OF this] have "cache s3 (fst (bitmap_word b)) = disk t (fst (bitmap_word b))" using f3(6,7) by auto
    then show ?thesis using v2(4)[OF that] by (simp add: free_bit_def)
  qed
  have ok: "fs_ok s3"
    unfolding fs_ok_def using f3 v2(1) inuse by (auto simp: free_blocks_def not_less[symmetric])
  have chk: "ofold (\<lambda>i s. obind (block_is_free i s) (\<lambda>fr. obind (guard_panic (\<not> fr) m) (\<lambda>_. Ret s))) ([0, 1] @ [2..<k + 2]) s3 = Ret s3" for m
  proof (rule check_in_use)
    fix b assume "b \<in> set ([0, 1] @ [2..<k + 2])"
    then have "b < k + 2" by auto
    then show "block_is_free b s3 = Ret False" unfolding block_is_free_eq[OF ok] using inuse by (simp add: free_blocks_def)
  qed
  have "fs_init t = Ret s3"
    unfolding fs_init_def r1 obind.simps r2 read_bitmap_def sn Let_def k_def[symmetric] r3
    unfolding s3_def[symmetric] chk obind.simps ..
  moreover have "cache s3 b = disk t b" if "b \<noteq> 0" "mapped s3 b" for b
    using that f1(5) f2 by (auto simp: s3_def)
  moreover have "pages_left s3 = pages_left t - (?n div BIT2BLK + 3)" by (simp add: s3_def f2 k_def)
  ultimately show ?thesis using ok f3(4) by simp
qed

text \<open>
  C28. \<open>fs_init\<close> on a disk that holds a file system, from an empty cache and with enough pages for the super block, the
  copy of it and the bitmap, returns: the super block and the bitmap are loaded with what the disk holds, every block
  that they occupy is in use, and the disk is as it was, although the self-test smashed and restored the super block. A
  disk with another magic number, or more blocks than the cache has addresses for, makes it panic.
\<close>

theorem fs_init_correct:
  assumes "cold t" and "unat (disk t 1 1) div BIT2BLK + 3 \<le> pages_left t"
  shows "if valid_disk t then
      returns (\<lambda>s. fs_ok s \<and> disk s = disk t \<and> (\<forall>b. b \<noteq> 0 \<and> mapped s b \<longrightarrow> cache s b = disk t b)
        \<and> pages_left s = pages_left t - (unat (disk t 1 1) div BIT2BLK + 3)) (fs_init t)
    else (disk t 1 0 \<noteq> FS_MAGIC \<longrightarrow> fs_init t = Panic ''bad file system magic number'')
      \<and> (disk t 1 0 = FS_MAGIC \<and> MAXBLOCKS < unat (disk t 1 1) \<longrightarrow> fs_init t = Panic ''file system is too large'')"
proof -
  have p: "pages_left t \<noteq> 0" using assms(2) by simp
  show ?thesis using fs_init_ok[OF assms] read_super_cold[OF assms(1) p] by (simp add: fs_init_def)
qed

text \<open>A disk of eight blocks with an empty root directory, not yet read.\<close>

definition demo_disk :: fs_state where
  "demo_disk = \<lparr>fs_super = False, fs_bitmap = False, cache = (\<lambda>_ _. 0), mapped = (\<lambda>_. False), dirty = (\<lambda>_. False),
     disk = (\<lambda>b k. if b = 1 then (if k = 0 then FS_MAGIC else if k = 1 then 8 else if k = 35 then FTYPE_DIR else 0)
                   else if b = 2 \<and> k = 0 then 0xE0 else 0), pages_left = 10\<rparr>"

lemma demo_disk_ok:
  "cold demo_disk" "unat (disk demo_disk 1 1) div BIT2BLK + 3 \<le> pages_left demo_disk" "valid_disk demo_disk"
  by (simp_all add: cold_def demo_disk_def)
    (auto simp: valid_disk_def bitmap_word_def numeral_3_eq_3 less_Suc_eq bit_numeral_rec)

theorem fs_init_correct_witness:
  "cold demo_disk \<and> valid_disk demo_disk \<and> returns (\<lambda>s. fs_ok s \<and> disk s = disk demo_disk) (fs_init demo_disk)"
proof -
  from fs_init_correct[OF demo_disk_ok(1,2), unfolded if_P[OF demo_disk_ok(3)]]
  have "returns (\<lambda>s. fs_ok s \<and> disk s = disk demo_disk) (fs_init demo_disk)" by (rule returns_mono) simp
  with demo_disk_ok show ?thesis by blast
qed

end
