(* ===== verification/Mos_Serv.thy ===== *)
theory Mos_Serv
  imports Mos_FsInit
begin

text \<open>
  The file system server: \<open>fs/serv.c\<close>, the requests of \<open>user/include/fsreq.h\<close> and \<open>pageref\<close> of
  \<open>user/lib/pageref.c\<close>. The server keeps a table of open files; each entry has a page for the descriptor
  it shares with the clients, whose reference count says whether a client still holds the file. A request
  arrives with a page of 4096 bytes, and the replies are collected in the order they are sent.
\<close>

section \<open>State\<close>

abbreviation (input) MAXOPEN :: nat where "MAXOPEN \<equiv> 1024"
abbreviation (input) FILEVA :: u32 where "FILEVA \<equiv> 0x60000000"
abbreviation (input) MAXPATHLEN :: nat where "MAXPATHLEN \<equiv> 1024"
abbreviation (input) O_CREAT :: u32 where "O_CREAT \<equiv> 0x0100"
abbreviation (input) O_MKDIR :: u32 where "O_MKDIR \<equiv> 0x0800"
abbreviation (input) devfile_id :: u32 where "devfile_id \<equiv> 0x66"

record Open =
  o_file :: "fptr option"
  o_fileid :: u32
  o_mode :: u32
  o_ff :: u32

text \<open>\<open>struct Filefd\<close>, with the copy of the \<open>struct File\<close> as its 64 words.\<close>

record Filefd =
  fd_dev_id :: u32
  fd_offset :: u32
  fd_omode :: u32
  f_fileid :: u32
  f_file :: "nat \<Rightarrow> u32"

definition zero_filefd :: Filefd where
  "zero_filefd = \<lparr>fd_dev_id = 0, fd_offset = 0, fd_omode = 0, f_fileid = 0, f_file = (\<lambda>_. 0)\<rparr>"

datatype shared_page = FdPage u32 | BlockPage nat

record reply =
  r_to :: u32
  r_val :: u32
  r_page :: "shared_page option"
  r_perm :: u32

text \<open>
  \<open>ff_ref va\<close> is the reference count of the page mapped at \<open>va\<close> in the server, 0 when there is none, as the
  kernel shows it in \<open>pages\<close>; \<open>ff_page va\<close> is the contents of that page.
\<close>

record server =
  sfs :: fs_state
  opentab :: "nat \<Rightarrow> Open"
  ff_page :: "u32 \<Rightarrow> Filefd"
  ff_ref :: "u32 \<Rightarrow> nat"
  outbox :: "reply list"

definition pageref :: "u32 \<Rightarrow> server \<Rightarrow> nat" where
  "pageref v s = ff_ref s v"

text \<open>
  \<open>ipc_send\<close> returns when the receiver has taken the message; the kernel has then mapped the page that goes
  with it in the receiver, which is one more reference to it.
\<close>

definition ipc_send :: "u32 \<Rightarrow> u32 \<Rightarrow> shared_page option \<Rightarrow> u32 \<Rightarrow> server \<Rightarrow> server" where
  "ipc_send whom val srcva perm s =
     (let s = s\<lparr>outbox := outbox s @ [\<lparr>r_to = whom, r_val = val, r_page = srcva, r_perm = perm\<rparr>]\<rparr> in
      case srcva of
        Some (FdPage va) \<Rightarrow> s\<lparr>ff_ref := (ff_ref s)(va := ff_ref s va + 1)\<rparr>
      | _ \<Rightarrow> s)"

definition err_word :: "error \<Rightarrow> u32" where
  "err_word e = of_int (- errno e)"

text \<open>An operation of the file system run on the server's part of the state.\<close>

definition on_fs :: "(fs_state \<Rightarrow> ('a \<times> fs_state) outcome) \<Rightarrow> server \<Rightarrow> ('a \<times> server) outcome" where
  "on_fs f s = obind (f (sfs s)) (\<lambda>(r, t). Ret (r, s\<lparr>sfs := t\<rparr>))"

definition do_fs :: "(fs_state \<Rightarrow> fs_state outcome) \<Rightarrow> server \<Rightarrow> server outcome" where
  "do_fs f s = obind (f (sfs s)) (\<lambda>t. Ret (s\<lparr>sfs := t\<rparr>))"

section \<open>The table of open files\<close>

definition serve_init :: "server \<Rightarrow> server" where
  "serve_init s = s\<lparr>opentab := (\<lambda>i.
     if i < MAXOPEN then (opentab s i)\<lparr>o_fileid := of_nat i, o_ff := FILEVA + of_nat i * 4096\<rparr> else opentab s i)\<rparr>"

definition open_take :: "nat \<Rightarrow> server \<Rightarrow> server" where
  "open_take i s = s\<lparr>opentab := (opentab s)(i := (opentab s i)\<lparr>o_fileid := o_fileid (opentab s i) + of_nat MAXOPEN\<rparr>),
     ff_page := (ff_page s)(o_ff (opentab s i) := zero_filefd)\<rparr>"

text \<open>
  The loop of \<open>open_alloc\<close>. The result is the C return value and the entry, if one was set; the return value of
  a success is the file id read as a signed number. An entry with no page gets one first.
\<close>

fun open_scan :: "nat list \<Rightarrow> server \<Rightarrow> (int \<times> nat option) \<times> server" where
  "open_scan [] s = ((- errno E_MAX_OPEN, None), s)"
| "open_scan (i # is) s =
     (let va = o_ff (opentab s i) in
      if pageref va s = 0 then
        (if pages_left (sfs s) = 0 then ((- errno E_NO_MEM, None), s)
         else let s = open_take i (s\<lparr>sfs := (sfs s)\<lparr>pages_left := pages_left (sfs s) - 1\<rparr>, ff_ref := (ff_ref s)(va := 1)\<rparr>)
              in ((sint (o_fileid (opentab s i)), Some i), s))
      else if pageref va s = 1 then
        (let s = open_take i s in ((sint (o_fileid (opentab s i)), Some i), s))
      else open_scan is s)"

definition open_alloc :: "server \<Rightarrow> (int \<times> nat option) \<times> server" where
  "open_alloc s = open_scan [0..<MAXOPEN] s"

definition open_lookup :: "u32 \<Rightarrow> u32 \<Rightarrow> server \<Rightarrow> error + nat" where
  "open_lookup envid fileid s =
     (let i = unat fileid mod MAXOPEN; o1 = opentab s i in
      if pageref (o_ff o1) s = 1 \<or> o_fileid o1 \<noteq> fileid then Inl E_INVAL else Inr i)"

section \<open>The request page\<close>

definition req_byte :: "char list \<Rightarrow> nat \<Rightarrow> u32" where
  "req_byte page k = (if k < length page then of_nat (of_char (page ! k)) else 0)"

definition req_word :: "char list \<Rightarrow> nat \<Rightarrow> u32" where
  "req_word page k = req_byte page k OR push_bit 8 (req_byte page (k + 1))
     OR push_bit 16 (req_byte page (k + 2)) OR push_bit 24 (req_byte page (k + 3))"

text \<open>A path is read from its offset on, past the end of its field if it is not terminated there.\<close>

definition req_path :: "char list \<Rightarrow> nat \<Rightarrow> char list" where
  "req_path page k = drop k page"

section \<open>The handlers\<close>

abbreviation (input) SHARE_PERM :: u32 where "SHARE_PERM \<equiv> PTE_D OR PTE_LIBRARY"

text \<open>The end of \<open>serve_open\<close> and \<open>serve_openat\<close>: fill in the entry and the descriptor and send the page.\<close>

definition open_finish :: "u32 \<Rightarrow> u32 \<Rightarrow> nat option \<Rightarrow> fptr option \<Rightarrow> server \<Rightarrow> server outcome" where
  "open_finish envid omode oi f s =
     (case (oi, f) of
        (Some i, Some f) \<Rightarrow>
          if mapped (sfs s) (fst f) \<and> snd f + FILE_WORDS \<le> BLOCK_WORDS then
            let o1 = (opentab s i)\<lparr>o_file := Some f, o_mode := omode\<rparr>;
                ff = (ff_page s (o_ff o1))\<lparr>f_file := (\<lambda>k. if k < FILE_WORDS then cache (sfs s) (fst f) (snd f + k) else 0),
                   f_fileid := o_fileid o1, fd_omode := omode, fd_dev_id := devfile_id\<rparr>;
                s = s\<lparr>opentab := (opentab s)(i := o1), ff_page := (ff_page s)(o_ff o1 := ff)\<rparr>
            in Ret (ipc_send envid 0 (Some (FdPage (o_ff o1))) SHARE_PERM s)
          else Undef
      | _ \<Rightarrow> Undef)"

definition fail :: "u32 \<Rightarrow> error \<Rightarrow> server \<Rightarrow> server" where
  "fail envid e s = ipc_send envid (err_word e) None 0 s"

definition alloc_entry :: "u32 \<Rightarrow> server \<Rightarrow> nat option \<times> server" where
  "alloc_entry envid s =
     (case open_alloc s of ((r, oi), s) \<Rightarrow> (oi, if r < 0 then ipc_send envid (of_int r) None 0 s else s))"

text \<open>
  After a failed \<open>open_alloc\<close> the handler goes on without an entry, which ends in a second reply when the file cannot
  be opened and in a write through an unset pointer when it can. A failed \<open>file_open\<close> leaves \<open>f\<close> null, so that
  \<open>f->f_type\<close> after a failed creation of a directory is a write through null.
\<close>

definition serve_open :: "nat \<Rightarrow> u32 \<Rightarrow> char list \<Rightarrow> server \<Rightarrow> server outcome" where
  "serve_open fuel envid rq s =
     (let path = req_path rq 0; omode = req_word rq MAXPATHLEN; (oi, s) = alloc_entry envid s in
      obind (on_fs (file_open fuel path) s) (\<lambda>(r, s).
        case r of
          Inr f \<Rightarrow> open_finish envid omode oi f s
        | Inl e \<Rightarrow>
            if omode AND O_CREAT \<noteq> 0 then
              obind (on_fs (file_create fuel path) s) (\<lambda>(r, s).
                case r of Inl e \<Rightarrow> Ret (fail envid e s) | Inr f \<Rightarrow> open_finish envid omode oi (Some f) s)
            else if omode AND O_MKDIR \<noteq> 0 then
              obind (on_fs (file_create fuel path) s) (\<lambda>(r, s).
                case r of
                  Inl e \<Rightarrow> Undef
                | Inr f \<Rightarrow> obind (do_fs (wrw (field f F_TYPE) FTYPE_DIR) s) (open_finish envid omode oi (Some f)))
            else Ret (fail envid e s)))"

definition serve_openat :: "u32 \<Rightarrow> char list \<Rightarrow> server \<Rightarrow> server outcome" where
  "serve_openat envid rq s =
     (let path = req_path rq 4; omode = req_word rq (4 + MAXPATHLEN); (oi, s) = alloc_entry envid s in
      case open_lookup envid (req_word rq 0) s of
        Inl e \<Rightarrow> Ret (fail envid e s)
      | Inr p \<Rightarrow>
          (case o_file (opentab s p) of
             None \<Rightarrow> Undef
           | Some dir \<Rightarrow>
               obind (on_fs (file_openat dir path) s) (\<lambda>(r, s).
                 case r of Inl e \<Rightarrow> Ret (fail envid e s) | Inr f \<Rightarrow> open_finish envid omode oi (Some f) s)))"

text \<open>The common opening of the handlers that take a file id.\<close>

definition with_open :: "u32 \<Rightarrow> u32 \<Rightarrow> server \<Rightarrow> (fptr \<Rightarrow> server outcome) \<Rightarrow> server outcome" where
  "with_open envid fileid s k =
     (case open_lookup envid fileid s of
        Inl e \<Rightarrow> Ret (fail envid e s)
      | Inr i \<Rightarrow> (case o_file (opentab s i) of None \<Rightarrow> Undef | Some f \<Rightarrow> k f))"

definition serve_map :: "u32 \<Rightarrow> char list \<Rightarrow> server \<Rightarrow> server outcome" where
  "serve_map envid rq s =
     with_open envid (req_word rq 0) s (\<lambda>f.
       obind (on_fs (file_get_block f (unat (req_word rq 4) div BY2BLK)) s) (\<lambda>(r, s).
         case r of
           Inl e \<Rightarrow> Ret (fail envid e s)
         | Inr blk \<Rightarrow> Ret (ipc_send envid 0 (Some (BlockPage blk)) SHARE_PERM s)))"

definition serve_set_size :: "u32 \<Rightarrow> char list \<Rightarrow> server \<Rightarrow> server outcome" where
  "serve_set_size envid rq s =
     with_open envid (req_word rq 0) s (\<lambda>f.
       obind (do_fs (file_set_size f (unat (req_word rq 4))) s) (\<lambda>s. Ret (ipc_send envid 0 None 0 s)))"

definition serve_close :: "u32 \<Rightarrow> char list \<Rightarrow> server \<Rightarrow> server outcome" where
  "serve_close envid rq s =
     with_open envid (req_word rq 0) s (\<lambda>f.
       obind (do_fs (file_close f) s) (\<lambda>s. Ret (ipc_send envid 0 None 0 s)))"

definition serve_remove :: "nat \<Rightarrow> u32 \<Rightarrow> char list \<Rightarrow> server \<Rightarrow> server outcome" where
  "serve_remove fuel envid rq s =
     obind (on_fs (file_remove fuel (req_path rq 0)) s) (\<lambda>(r, s).
       case r of Inl e \<Rightarrow> Ret (fail envid e s) | Inr _ \<Rightarrow> Ret (ipc_send envid 0 None 0 s))"

definition serve_dirty :: "u32 \<Rightarrow> char list \<Rightarrow> server \<Rightarrow> server outcome" where
  "serve_dirty envid rq s =
     with_open envid (req_word rq 0) s (\<lambda>f.
       obind (on_fs (file_dirty f (unat (req_word rq 4))) s) (\<lambda>(r, s).
         case r of Inl e \<Rightarrow> Ret (fail envid e s) | Inr _ \<Rightarrow> Ret (ipc_send envid 0 None 0 s)))"

definition serve_sync :: "u32 \<Rightarrow> server \<Rightarrow> server outcome" where
  "serve_sync envid s = obind (do_fs fs_sync s) (\<lambda>s. Ret (ipc_send envid 0 None 0 s))"

text \<open>
  One round of the loop of \<open>serve\<close>: a message from \<open>whom\<close> with value \<open>req\<close>, permissions \<open>perm\<close> and the request
  page \<open>rq\<close>. \<open>fuel\<close> bounds the length of chains of symbolic links.
\<close>

definition serve_round :: "nat \<Rightarrow> u32 \<Rightarrow> u32 \<Rightarrow> u32 \<Rightarrow> char list \<Rightarrow> server \<Rightarrow> server outcome" where
  "serve_round fuel whom req perm rq s =
     (if perm AND PTE_V = 0 then Ret s
      else if req = 1 then serve_open fuel whom rq s
      else if req = 8 then serve_openat whom rq s
      else if req = 2 then serve_map whom rq s
      else if req = 3 then serve_set_size whom rq s
      else if req = 4 then serve_close whom rq s
      else if req = 5 then serve_dirty whom rq s
      else if req = 6 then serve_remove fuel whom rq s
      else if req = 7 then serve_sync whom s
      else Ret s)"

definition serve_start :: "server \<Rightarrow> server outcome" where
  "serve_start s = do_fs fs_init (serve_init s)"

section \<open>The server among its clients\<close>

text \<open>
  The state when \<open>main\<close> starts: \<open>opentab\<close> as its initialiser leaves it, no descriptor page, nothing sent.
\<close>

definition opentab0 :: "nat \<Rightarrow> Open" where
  "opentab0 i = \<lparr>o_file = None, o_fileid = 0, o_mode = (if i = 0 then 1 else 0), o_ff = 0\<rparr>"

definition fresh_server :: "fs_state \<Rightarrow> server" where
  "fresh_server t = \<lparr>sfs = t, opentab = opentab0, ff_page = (\<lambda>_. zero_filefd), ff_ref = (\<lambda>_. 0), outbox = []\<rparr>"

text \<open>
  The states the server can be in between two requests. Between requests the clients act on what they share with
  it: they duplicate and drop the descriptor pages they hold (which never touches the server's own mapping), write to
  them, and write to the cached blocks they have been given.
\<close>

inductive serving :: "nat \<Rightarrow> server \<Rightarrow> bool" for fuel where
  start: "serve_start (fresh_server t) = Ret s \<Longrightarrow> serving fuel s"
| request: "serving fuel s \<Longrightarrow> serve_round fuel whom req perm rq s = Ret s' \<Longrightarrow> serving fuel s'"
| client_maps: "serving fuel s \<Longrightarrow> 2 \<le> ff_ref s va \<Longrightarrow> 1 \<le> n \<Longrightarrow> serving fuel (s\<lparr>ff_ref := (ff_ref s)(va := n)\<rparr>)"
| client_writes_fd: "serving fuel s \<Longrightarrow> 2 \<le> ff_ref s va \<Longrightarrow> serving fuel (s\<lparr>ff_page := (ff_page s)(va := p)\<rparr>)"
| client_writes_block: "serving fuel s \<Longrightarrow> serving fuel (s\<lparr>sfs := (sfs s)\<lparr>cache := c\<rparr>\<rparr>)"

definition slot_va :: "nat \<Rightarrow> u32" where
  "slot_va i = FILEVA + of_nat i * 4096"

text \<open>Entry \<open>i\<close> has its own page and an id that leads back to it, and a file whenever a client holds it.\<close>

definition slot_ok :: "server \<Rightarrow> nat \<Rightarrow> bool" where
  "slot_ok s i \<longleftrightarrow> o_ff (opentab s i) = slot_va i \<and> unat (o_fileid (opentab s i)) mod MAXOPEN = i
     \<and> (2 \<le> ff_ref s (slot_va i) \<longrightarrow> o_file (opentab s i) \<noteq> None)"

definition table_ok :: "server \<Rightarrow> bool" where
  "table_ok s \<longleftrightarrow> (\<forall>i < MAXOPEN. slot_ok s i)"

text \<open>The entry of \<open>i\<close> is held by a client; what a request must then leave alone.\<close>

definition held :: "server \<Rightarrow> nat \<Rightarrow> bool" where
  "held s i \<longleftrightarrow> i < MAXOPEN \<and> 2 \<le> ff_ref s (slot_va i)"

definition keeps_held :: "server \<Rightarrow> server \<Rightarrow> bool" where
  "keeps_held s s' \<longleftrightarrow> (\<forall>i. held s i \<longrightarrow> held s' i \<and> opentab s' i = opentab s i \<and> ff_page s' (slot_va i) = ff_page s (slot_va i))"

lemma slot_va_unat: "i < MAXOPEN \<Longrightarrow> unat (slot_va i) = 0x60000000 + i * 4096"
proof -
  assume i: "i < MAXOPEN"
  have "slot_va i = of_nat (0x60000000 + i * 4096)" by (simp add: slot_va_def)
  also have "unat \<dots> = 0x60000000 + i * 4096" by (rule unat_of_small) (use i in simp)
  finally show ?thesis .
qed

lemma slot_va_inj: "i < MAXOPEN \<Longrightarrow> j < MAXOPEN \<Longrightarrow> slot_va i = slot_va j \<longleftrightarrow> i = j"
proof
  assume i: "i < MAXOPEN" "j < MAXOPEN" "slot_va i = slot_va j"
  then have "0x60000000 + i * 4096 = 0x60000000 + j * 4096" using slot_va_unat[OF i(1)] slot_va_unat[OF i(2)] by argo
  then show "i = j" by simp
qed simp

lemma keeps_held_refl [simp]: "keeps_held s s"
  by (simp add: keeps_held_def)

lemma keeps_held_trans: "keeps_held s t \<Longrightarrow> keeps_held t u \<Longrightarrow> keeps_held s u"
  unfolding keeps_held_def by metis

text \<open>A state with the same table, pages and counts up to the part that belongs to the file system.\<close>

definition same_table :: "server \<Rightarrow> server \<Rightarrow> bool" where
  "same_table s s' \<longleftrightarrow> opentab s' = opentab s \<and> ff_page s' = ff_page s \<and> ff_ref s' = ff_ref s"

lemma same_table_ok: "same_table s s' \<Longrightarrow> table_ok s' = table_ok s"
  by (simp add: same_table_def table_ok_def slot_ok_def)

lemma same_table_held: "same_table s s' \<Longrightarrow> keeps_held s s'"
  by (simp add: same_table_def keeps_held_def held_def)

lemma same_table_refl [simp]: "same_table s s"
  by (simp add: same_table_def)

lemma same_table_trans: "same_table s t \<Longrightarrow> same_table t u \<Longrightarrow> same_table s u"
  by (simp add: same_table_def)

lemma ipc_send_plain [simp]:
  "same_table s (ipc_send w v None p s)" "same_table s (ipc_send w v (Some (BlockPage b)) p s)"
  by (simp_all add: ipc_send_def same_table_def Let_def)

lemma fail_plain [simp]: "same_table s (fail w e s)"
  by (simp add: fail_def)

lemma on_fs_plain: "on_fs f s = Ret (r, s') \<Longrightarrow> same_table s s'"
  by (auto simp: on_fs_def same_table_def outcome_simps)

lemma do_fs_plain: "do_fs f s = Ret s' \<Longrightarrow> same_table s s'"
  by (auto simp: do_fs_def same_table_def outcome_simps)

text \<open>What every step of a handler preserves.\<close>

definition good_step :: "server \<Rightarrow> server \<Rightarrow> bool" where
  "good_step s s' \<longleftrightarrow> (table_ok s \<longrightarrow> table_ok s' \<and> keeps_held s s')"

lemma good_same: "same_table s s' \<Longrightarrow> good_step s s'"
  by (simp add: good_step_def same_table_ok same_table_held)

lemma good_trans: "good_step s t \<Longrightarrow> good_step t u \<Longrightarrow> good_step s u"
  unfolding good_step_def using keeps_held_trans by blast

lemma good_with_open:
  assumes "with_open w fid s k = Ret s'" and "\<And>f s'. k f = Ret s' \<Longrightarrow> same_table s s'"
  shows "good_step s s'"
  using assms by (auto simp: with_open_def intro!: good_same split: sum.splits option.splits)

text \<open>Taking an entry that no client holds.\<close>

lemma take_good:
  assumes "i < MAXOPEN" and "ff_ref s (slot_va i) \<le> 1" and "o_ff (opentab s i) = slot_va i"
    and "r = ff_ref s \<or> r = (ff_ref s)(slot_va i := 1)"
  shows "good_step s (open_take i (s\<lparr>sfs := t, ff_ref := r\<rparr>))"
  unfolding good_step_def
proof (intro impI conjI)
  assume ok: "table_ok s"
  let ?s = "open_take i (s\<lparr>sfs := t, ff_ref := r\<rparr>)"
  have r: "r (slot_va i) \<le> 1" "\<And>j. j < MAXOPEN \<Longrightarrow> j \<noteq> i \<Longrightarrow> r (slot_va j) = ff_ref s (slot_va j)"
    using assms slot_va_inj[of _ i] by auto
  have m: "unat (w + of_nat MAXOPEN) mod MAXOPEN = unat w mod MAXOPEN" for w :: u32
  proof -
    have "unat (w + of_nat MAXOPEN) = (unat w + 1024) mod 2 ^ 32"
      by (simp add: unat_word_ariths)
    then show ?thesis by (simp add: mod_mod_cancel)
  qed
  have "slot_ok ?s j" if "j < MAXOPEN" for j
    using ok that r m assms(3) unfolding table_ok_def slot_ok_def by (cases "j = i") (auto simp: open_take_def)
  then show "table_ok ?s" by (simp add: table_ok_def)
  have "held ?s j \<and> opentab ?s j = opentab s j \<and> ff_page ?s (slot_va j) = ff_page s (slot_va j)" if "held s j" for j
  proof -
    have "j \<noteq> i" "j < MAXOPEN" using that assms(2) by (auto simp: held_def)
    then show ?thesis using that r assms(1,3) slot_va_inj[of j i] by (auto simp: held_def open_take_def)
  qed
  then show "keeps_held s ?s" by (simp add: keeps_held_def)
qed

lemma open_scan_good:
  assumes "table_ok s" "\<And>i. i \<in> set is \<Longrightarrow> i < MAXOPEN" "open_scan is s = ((r, oi), s')"
  shows "good_step s s' \<and> (\<forall>i. oi = Some i \<longrightarrow> i < MAXOPEN \<and> ff_ref s' (slot_va i) = 1)"
  using assms
proof (induction "is")
  case (Cons i "is")
  have i: "i < MAXOPEN" using Cons.prems by simp
  have va: "o_ff (opentab s i) = slot_va i" using Cons.prems(1) i by (simp add: table_ok_def slot_ok_def)
  consider "ff_ref s (slot_va i) = 0" | "ff_ref s (slot_va i) = 1" | "2 \<le> ff_ref s (slot_va i)" by linarith
  then show ?case
  proof cases
    case 1
    show ?thesis
    proof (cases "pages_left (sfs s) = 0")
      case True
      then show ?thesis using Cons.prems 1 va by (auto simp: pageref_def Let_def intro: good_same)
    next
      case False
      then show ?thesis
        using Cons.prems 1 va i take_good[OF i _ va, of "(ff_ref s)(slot_va i := 1)" "(sfs s)\<lparr>pages_left := pages_left (sfs s) - 1\<rparr>"]
        by (auto simp: pageref_def Let_def open_take_def)
    qed
  next
    case 2
    then show ?thesis using Cons.prems va i take_good[OF i _ va, of "ff_ref s" "sfs s"]
      by (auto simp: pageref_def Let_def open_take_def)
  next
    case 3
    then have "open_scan (i # is) s = open_scan is s" using va by (simp add: pageref_def Let_def)
    then show ?thesis using Cons by simp
  qed
qed (auto intro: good_same)

lemma alloc_entry_good:
  assumes "table_ok s" "alloc_entry w s = (oi, s')"
  shows "good_step s s' \<and> (\<forall>i. oi = Some i \<longrightarrow> i < MAXOPEN \<and> ff_ref s' (slot_va i) = 1)"
proof -
  obtain r t where o1: "open_alloc s = ((r, oi), t)" using assms(2) by (auto simp: alloc_entry_def split: prod.splits)
  have g: "good_step s t \<and> (\<forall>i. oi = Some i \<longrightarrow> i < MAXOPEN \<and> ff_ref t (slot_va i) = 1)"
    by (rule open_scan_good[OF assms(1)]) (use o1 in \<open>auto simp: open_alloc_def\<close>)
  have st: "same_table t s'" using assms(2) o1 by (auto simp: alloc_entry_def split: if_splits)
  show ?thesis using g good_trans[OF _ good_same[OF st]] st by (auto simp: same_table_def)
qed

lemma open_finish_good:
  assumes "table_ok s" "\<And>i. oi = Some i \<Longrightarrow> i < MAXOPEN \<and> ff_ref s (slot_va i) = 1" "open_finish w om oi f s = Ret s'"
  shows "good_step s s'"
proof -
  obtain i g where ig: "oi = Some i" "f = Some g"
    and s': "s' = ipc_send w 0 (Some (FdPage (o_ff (opentab s i)))) SHARE_PERM
      (s\<lparr>opentab := (opentab s)(i := (opentab s i)\<lparr>o_file := Some g, o_mode := om\<rparr>), ff_page := ff_page s'\<rparr>)"
    and p: "\<And>va. va \<noteq> o_ff (opentab s i) \<Longrightarrow> ff_page s' va = ff_page s va"
    using assms(3) by (auto simp: open_finish_def Let_def ipc_send_def split: option.splits if_splits)
  have i: "i < MAXOPEN" "ff_ref s (slot_va i) = 1" using assms(2)[OF ig(1)] by auto
  have va: "o_ff (opentab s i) = slot_va i" using assms(1) i by (simp add: table_ok_def slot_ok_def)
  have t: "opentab s' = (opentab s)(i := (opentab s i)\<lparr>o_file := Some g, o_mode := om\<rparr>)"
    "ff_ref s' = (ff_ref s)(slot_va i := 2)"
    by (subst s', simp add: ipc_send_def Let_def, subst s', simp add: ipc_send_def Let_def i va numeral_2_eq_2)
  have r: "\<And>j. j < MAXOPEN \<Longrightarrow> j \<noteq> i \<Longrightarrow> ff_ref s' (slot_va j) = ff_ref s (slot_va j)"
    using t(2) slot_va_inj[of _ i] i by auto
  have "slot_ok s' j" if "j < MAXOPEN" for j
    using assms(1) that r t va unfolding table_ok_def slot_ok_def by (cases "j = i") auto
  moreover have "held s' j \<and> opentab s' j = opentab s j \<and> ff_page s' (slot_va j) = ff_page s (slot_va j)" if "held s j" for j
  proof -
    have "j \<noteq> i" "j < MAXOPEN" using that i by (auto simp: held_def)
    then show ?thesis using that r t p i(1) va slot_va_inj[of j i] by (auto simp: held_def)
  qed
  ultimately show ?thesis by (simp add: good_step_def table_ok_def keeps_held_def)
qed

text \<open>A handler that has allocated an entry and then only works on the file system keeps it for \<open>open_finish\<close>.\<close>

lemma finish_after:
  assumes "table_ok s" "alloc_entry w s = (oi, t)" "same_table t u" "open_finish w om oi f u = Ret s'"
  shows "good_step s s'"
proof -
  have g: "good_step s t" "\<forall>i. oi = Some i \<longrightarrow> i < MAXOPEN \<and> ff_ref t (slot_va i) = 1"
    using alloc_entry_good[OF assms(1,2)] by auto
  have u: "table_ok u" using g(1) assms(1) same_table_ok[OF assms(3)] by (simp add: good_step_def)
  have "good_step u s'"
    by (rule open_finish_good[OF u _ assms(4)]) (use g(2) assms(3) in \<open>auto simp: same_table_def\<close>)
  then show ?thesis using g(1) good_same[OF assms(3)] good_trans by blast
qed

lemma plain_after:
  assumes "table_ok s" "alloc_entry w s = (oi, t)" "same_table t u"
  shows "good_step s u"
  using alloc_entry_good[OF assms(1,2)] good_same[OF assms(3)] good_trans by blast

lemma serve_open_good:
  assumes "table_ok s" "serve_open fuel w rq s = Ret s'"
  shows "good_step s s'"
proof -
  let ?om = "req_word rq MAXPATHLEN"
  let ?P = "req_path rq 0"
  obtain oi t where a: "alloc_entry w s = (oi, t)" by (cases "alloc_entry w s")
  obtain r u where o1: "on_fs (file_open fuel ?P) t = Ret (r, u)"
    using assms(2) a by (auto simp: serve_open_def Let_def outcome_simps)
  have tu: "same_table t u" by (rule on_fs_plain[OF o1])
  note run = assms(2)[unfolded serve_open_def Let_def a prod.case o1 obind.simps]
  show ?thesis
  proof (cases r)
    case (Inr f)
    then show ?thesis using run finish_after[OF assms(1) a tu] by simp
  next
    case (Inl e)
    show ?thesis
    proof (cases "?om AND O_CREAT \<noteq> 0 \<or> ?om AND O_MKDIR \<noteq> 0")
      case False
      then show ?thesis using run Inl plain_after[OF assms(1) a same_table_trans[OF tu fail_plain]] by auto
    next
      case True
      then obtain r2 v where o2: "on_fs (file_create fuel ?P) u = Ret (r2, v)"
        using run Inl by (auto simp: outcome_simps split: if_splits)
      have tv: "same_table t v" by (rule same_table_trans[OF tu on_fs_plain[OF o2]])
      show ?thesis
      proof (cases r2)
        case (Inl e2)
        then show ?thesis using run True o2 \<open>r = Inl e\<close> plain_after[OF assms(1) a same_table_trans[OF tv fail_plain]]
          by (auto split: if_splits)
      next
        case (Inr f)
        then consider "open_finish w ?om oi (Some f) v = Ret s'"
          | x where "do_fs (wrw (field f F_TYPE) FTYPE_DIR) v = Ret x" "open_finish w ?om oi (Some f) x = Ret s'"
          using run True o2 Inl by (auto simp: outcome_simps split: if_splits)
        then show ?thesis
          by cases (use finish_after[OF assms(1) a] tv same_table_trans[OF tv do_fs_plain] in blast)+
      qed
    qed
  qed
qed

lemma serve_openat_good:
  assumes "table_ok s" "serve_openat w rq s = Ret s'"
  shows "good_step s s'"
proof -
  obtain oi t where a: "alloc_entry w s = (oi, t)" by (cases "alloc_entry w s")
  note run = assms(2)[unfolded serve_openat_def Let_def a prod.case]
  show ?thesis
  proof (cases "open_lookup w (req_word rq 0) t")
    case (Inl e)
    then show ?thesis using run plain_after[OF assms(1) a fail_plain] by auto
  next
    case (Inr p)
    then obtain dir where d: "o_file (opentab t p) = Some dir" using run by (auto split: option.splits)
    obtain r u where o1: "on_fs (file_openat dir (req_path rq 4)) t = Ret (r, u)"
      using run Inr d by (auto simp: outcome_simps)
    have tu: "same_table t u" by (rule on_fs_plain[OF o1])
    then show ?thesis
      using run Inr d o1 finish_after[OF assms(1) a tu] plain_after[OF assms(1) a same_table_trans[OF tu fail_plain]]
      by (auto split: sum.splits)
  qed
qed

lemma plain_reply:
  assumes "obind (on_fs f s) (\<lambda>(r, s). case r of Inl e \<Rightarrow> Ret (A e s) | Inr x \<Rightarrow> Ret (B x s)) = Ret s'"
    and "\<And>e s. same_table s (A e s)" and "\<And>x s. same_table s (B x s)"
  shows "same_table s s'"
proof -
  from assms(1) obtain r u where o1: "on_fs f s = Ret (r, u)" by (auto simp: obind_eq_Ret)
  show ?thesis
  proof (cases r)
    case (Inl e)
    then show ?thesis using assms(1) o1 same_table_trans[OF on_fs_plain[OF o1] assms(2)[of u e]] by simp
  next
    case (Inr x)
    then show ?thesis using assms(1) o1 same_table_trans[OF on_fs_plain[OF o1] assms(3)[of u x]] by simp
  qed
qed

lemma serve_map_good: "serve_map w rq s = Ret s' \<Longrightarrow> good_step s s'"
  unfolding serve_map_def
  by (erule good_with_open) (erule plain_reply; simp)

lemma serve_set_size_good: "serve_set_size w rq s = Ret s' \<Longrightarrow> good_step s s'"
  unfolding serve_set_size_def
  by (erule good_with_open) (auto simp: outcome_simps dest!: do_fs_plain intro: same_table_trans)

lemma serve_close_good: "serve_close w rq s = Ret s' \<Longrightarrow> good_step s s'"
  unfolding serve_close_def
  by (erule good_with_open) (auto simp: outcome_simps dest!: do_fs_plain intro: same_table_trans)

lemma serve_dirty_good: "serve_dirty w rq s = Ret s' \<Longrightarrow> good_step s s'"
  unfolding serve_dirty_def
  by (erule good_with_open) (erule plain_reply; simp)

lemma serve_remove_good: "serve_remove fuel w rq s = Ret s' \<Longrightarrow> good_step s s'"
  unfolding serve_remove_def
  by (rule good_same) (erule plain_reply; simp)

lemma serve_sync_good: "serve_sync w s = Ret s' \<Longrightarrow> good_step s s'"
  unfolding serve_sync_def
  by (rule good_same) (auto simp: outcome_simps dest!: do_fs_plain intro: same_table_trans)

lemmas handlers_good = serve_map_good serve_set_size_good serve_close_good serve_dirty_good serve_remove_good serve_sync_good

lemma serve_round_good:
  assumes "table_ok s" "serve_round fuel w req perm rq s = Ret s'"
  shows "good_step s s'"
  using assms serve_open_good[OF assms(1)] serve_openat_good[OF assms(1)] handlers_good good_same[OF same_table_refl]
  unfolding serve_round_def by (auto split: if_splits)

lemma serve_start_ok: "serve_start (fresh_server t) = Ret s \<Longrightarrow> table_ok s"
proof -
  assume "serve_start (fresh_server t) = Ret s"
  then have "same_table (serve_init (fresh_server t)) s" unfolding serve_start_def by (rule do_fs_plain)
  moreover have "unat (of_nat i :: u32) = i" if "i < MAXOPEN" for i by (rule unat_of_small) (use that in simp)
  then have "table_ok (serve_init (fresh_server t))"
    by (simp add: table_ok_def slot_ok_def serve_init_def fresh_server_def slot_va_def)
  ultimately show ?thesis using same_table_ok by blast
qed

lemma serving_table_ok: "serving fuel s \<Longrightarrow> table_ok s"
proof (induction rule: serving.induct)
  case (request s whom req perm rq s')
  then show ?case using serve_round_good[of s fuel whom req perm rq s'] by (simp add: good_step_def)
qed (auto simp: serve_start_ok, auto simp: table_ok_def slot_ok_def)

section \<open>Open files are protected\<close>

text \<open>
  C29. While a client holds an open file, no request of any client disturbs it: the table entry, the shared descriptor page
  and its reference stay, the entry has a file, and its id still finds it, whatever the request is.
\<close>

theorem open_files_protected:
  assumes "serving fuel s" and "i < MAXOPEN" and "2 \<le> ff_ref s (slot_va i)"
    and "serve_round fuel whom req perm rq s = Ret s'"
  shows "opentab s' i = opentab s i \<and> ff_page s' (slot_va i) = ff_page s (slot_va i) \<and> 2 \<le> ff_ref s' (slot_va i)
    \<and> o_file (opentab s' i) \<noteq> None \<and> open_lookup client (o_fileid (opentab s i)) s' = Inr i"
proof -
  have ok: "table_ok s" by (rule serving_table_ok[OF assms(1)])
  have g: "table_ok s'" "keeps_held s s'" using serve_round_good[OF ok assms(4)] ok by (simp_all add: good_step_def)
  have h: "held s' i" "opentab s' i = opentab s i" "ff_page s' (slot_va i) = ff_page s (slot_va i)"
    using g(2) assms(2,3) by (simp_all add: keeps_held_def held_def)
  have "slot_ok s' i" using g(1) assms(2) by (simp add: table_ok_def)
  then show ?thesis using h by (auto simp: held_def slot_ok_def open_lookup_def pageref_def Let_def)
qed






text \<open>
  A file id that was never opened is accepted: after start-up, \<open>open_lookup\<close> succeeds for every id below
  \<open>MAXOPEN\<close>, because it only refuses a reference count of exactly 1, and the handlers then use the null file of the entry.
\<close>

theorem unopened_id_accepted:
  assumes "serve_start (fresh_server t) = Ret s" and "unat (req_word rq 0) < MAXOPEN"
  shows "open_lookup w (req_word rq 0) s = Inr (unat (req_word rq 0)) \<and> serve_map w rq s = Undef"
proof -
  let ?i = "unat (req_word rq 0)"
  have st: "same_table (serve_init (fresh_server t)) s" using assms(1) unfolding serve_start_def by (rule do_fs_plain)
  have "of_nat ?i = req_word rq 0" by simp
  with st assms(2) have "o_fileid (opentab s ?i) = req_word rq 0" "ff_ref s = (\<lambda>_. 0)" "o_file (opentab s ?i) = None"
    by (auto simp: same_table_def serve_init_def fresh_server_def opentab0_def)
  then show ?thesis using assms(2) by (simp add: open_lookup_def pageref_def Let_def serve_map_def with_open_def)
qed

section \<open>A run of the server\<close>

text \<open>The server starts on the small disk, and a client opens the root directory.\<close>

definition root_request :: "char list" where
  "root_request = ''/'' @ replicate 4095 NUL"

lemma root_request_simps: "req_path root_request 0 = root_request" "req_word root_request 1024 = 0" "req_word root_request 0 = 0x2F"
proof -
  have b: "req_byte root_request k = 0" if "0 < k" for k
    using that by (cases k) (auto simp: req_byte_def root_request_def nth_Cons')
  have b0: "req_byte root_request 0 = 0x2F" by (simp add: req_byte_def root_request_def)
  show "req_path root_request 0 = root_request" by (simp add: req_path_def)
  show "req_word root_request 1024 = 0" "req_word root_request 0 = 0x2F" unfolding req_word_def by (simp_all add: b b0)
qed

lemma walk_root:
  assumes "fs_super t" "mapped t 1" "cache t 1 35 = FTYPE_DIR"
  shows "file_open (Suc k) root_request t = Ret (Inr (Some s_root), t)"
proof -
  have r: "root_request = CHR ''/'' # NUL # replicate 4094 NUL"
    unfolding root_request_def using replicate_Suc[of 4094 NUL] by simp
  have sk: "skip_slash root_request = NUL # replicate 4094 NUL" unfolding skip_slash_def r by simp
  have "walk_loop (skip_slash root_request) None s_root t = Ret (Inr (None, s_root), t)"
    unfolding sk walk_loop.simps[of "NUL # _"] by simp
  then show ?thesis using assms by (simp add: file_open_def walk_result_def rdw_def field_def)
qed

lemma open_root:
  assumes "table_ok s" "fs_super (sfs s)" "mapped (sfs s) 1" "cache (sfs s) 1 35 = FTYPE_DIR" "alloc_entry w s = (Some i, u)"
    and "sfs u = (sfs s)\<lparr>pages_left := n\<rparr>"
  shows "\<exists>s'. serve_round (Suc k) w 1 PTE_V root_request s = Ret s' \<and> 2 \<le> ff_ref s' (slot_va i)
    \<and> sfs s' = sfs u \<and> o_fileid (opentab s' i) = o_fileid (opentab u i)"
proof -
  have g: "good_step s u \<and> (\<forall>i'. Some i = Some i' \<longrightarrow> i' < MAXOPEN \<and> ff_ref u (slot_va i') = 1)"
    by (rule alloc_entry_good[OF assms(1,5)])
  then have va: "o_ff (opentab u i) = slot_va i" using assms(1) by (auto simp: good_step_def table_ok_def slot_ok_def)
  have f: "on_fs (file_open (Suc k) root_request) u = Ret (Inr (Some s_root), u)"
    using walk_root[of "sfs u" k] assms(2-4,6) by (simp add: on_fs_def)
  have run: "serve_round (Suc k) w 1 PTE_V root_request s = open_finish w 0 (Some i) (Some s_root) u"
    unfolding serve_round_def serve_open_def Let_def root_request_simps assms(5) prod.case f by simp
  show ?thesis unfolding run using g va assms(3,6) by (simp add: open_finish_def Let_def ipc_send_def)
qed

lemma upt_open: "[0..<MAXOPEN] = 0 # [1..<MAXOPEN]"
  using upt_conv_Cons[of 0 1024] by (simp del: upt_rec_numeral)

definition demo_started :: "fs_state \<Rightarrow> server" where
  "demo_started t = (serve_init (fresh_server demo_disk))\<lparr>sfs := t\<rparr>"

lemma demo_start:
  obtains t where "serve_start (fresh_server demo_disk) = Ret (demo_started t)" "fs_ok t" "cache t 1 = disk demo_disk 1" "pages_left t = 7"
proof -
  obtain t where t: "fs_init demo_disk = Ret t" "fs_ok t" "cache t 1 = disk demo_disk 1" "pages_left t = 7"
    using fs_init_ok[OF demo_disk_ok] by (auto simp: returns_iff fs_ok_def demo_disk_def)
  have "sfs (serve_init (fresh_server demo_disk)) = demo_disk" by (simp add: serve_init_def fresh_server_def)
  then have "serve_start (fresh_server demo_disk) = Ret (demo_started t)" by (simp add: serve_start_def do_fs_def t(1) demo_started_def)
  then show thesis using that t by blast
qed

lemma demo_run:
  "\<exists>s. serving 1 s \<and> 2 \<le> ff_ref s (slot_va 0) \<and> (\<exists>s'. serve_round 1 9 7 PTE_V root_request s = Ret s')
    \<and> o_fileid (opentab s 0) = 1024"
proof -
  obtain t where t: "serve_start (fresh_server demo_disk) = Ret (demo_started t)" "fs_ok t" "cache t 1 = disk demo_disk 1" "pages_left t = 7"
    by (rule demo_start)
  let ?s = "demo_started t"
  have s: "serving 1 ?s" by (rule serving.start[OF t(1)])
  have ok: "table_ok ?s" by (rule serving_table_ok[OF s])
  have f: "sfs ?s = t" "ff_ref ?s = (\<lambda>_. 0)" "o_fileid (opentab ?s 0) = 0"
    by (simp_all add: demo_started_def serve_init_def fresh_server_def)
  obtain u where a: "alloc_entry 5 ?s = (Some 0, u)" "sfs u = t\<lparr>pages_left := 6\<rparr>" "o_fileid (opentab u 0) = 1024"
    using t(4) f by (simp add: alloc_entry_def open_alloc_def upt_open pageref_def Let_def open_take_def)
  have r: "fs_super (sfs ?s)" "mapped (sfs ?s) 1" "cache (sfs ?s) 1 35 = FTYPE_DIR"
    using t(2,3) f(1) by (simp_all add: fs_ok_def demo_disk_def)
  have u: "sfs u = (sfs ?s)\<lparr>pages_left := 6\<rparr>" using a(2) f(1) by simp
  obtain s1 where s1: "serve_round (Suc 0) 5 1 PTE_V root_request ?s = Ret s1" "2 \<le> ff_ref s1 (slot_va 0)" "sfs s1 = t\<lparr>pages_left := 6\<rparr>" "o_fileid (opentab s1 0) = 1024"
    using open_root[OF ok r a(1) u, of 0] a(2,3) by auto
  have "serving 1 s1" by (rule serving.request[OF s]) (use s1(1) in simp)
  moreover have "fs_ok (sfs s1)" using t(2) s1(3) by (simp add: fs_ok_def nblocks_def bitmap_end_def free_blocks_def free_bit_def)
  then have "\<exists>s'. serve_round 1 9 7 PTE_V root_request s1 = Ret s'"
    by (simp add: serve_round_def serve_sync_def do_fs_def fs_sync_run)
  ultimately show ?thesis using s1(2,4) by blast
qed

theorem open_files_protected_witness:
  "\<exists>s s'. serving 1 s \<and> 2 \<le> ff_ref s (slot_va 0) \<and> serve_round 1 9 7 PTE_V root_request s = Ret s'
    \<and> opentab s' 0 = opentab s 0 \<and> open_lookup 5 (o_fileid (opentab s 0)) s' = Inr 0"
proof -
  obtain s s' where s: "serving 1 s" "2 \<le> ff_ref s (slot_va 0)" "serve_round 1 9 7 PTE_V root_request s = Ret s'"
    using demo_run by blast
  then show ?thesis using open_files_protected[OF s(1) _ s(2,3), of 5] by auto
qed


theorem unopened_id_accepted_witness:
  "\<exists>s. serve_start (fresh_server demo_disk) = Ret s \<and> open_lookup 9 47 s = Inr 47 \<and> serve_map 9 root_request s = Undef"
proof -
  obtain t where t: "serve_start (fresh_server demo_disk) = Ret (demo_started t)" by (rule demo_start)
  then show ?thesis using unopened_id_accepted[OF t, of root_request 9] by (simp add: root_request_simps)
qed

end
