(* ===== verification/Mos_Fsipc.thy ===== *)
theory Mos_Fsipc
  imports Mos_Serv
begin

text \<open>
  The client side of the file system: \<open>user/lib/fsipc.c\<close>. A request is written into the page \<open>fsipcbuf\<close>, over what
  an earlier request left there, and sent to the server; the call returns with the first reply the server sends to the
  client. The server handles the request with \<open>serve_round\<close> of \<open>Mos_Serv\<close>.
\<close>

section \<open>Building requests\<close>

definition put_word :: "nat \<Rightarrow> u32 \<Rightarrow> char list \<Rightarrow> char list" where
  "put_word k w page = page[k := word_byte w 0, k + 1 := word_byte w 1, k + 2 := word_byte w 2, k + 3 := word_byte w 3]"

definition put_path :: "nat \<Rightarrow> char list \<Rightarrow> char list \<Rightarrow> char list outcome" where
  "put_path k path page = obind (strcpy (drop k page) path) (\<lambda>r. Ret (take k page @ r))"

section \<open>Sending them\<close>

record client =
  fsipcbuf :: "char list"
  server_of :: server

text \<open>
  The first message the server sends to \<open>me\<close> while it handles the request; \<open>ipc_recv\<close> adds \<open>PTE_V\<close> to the
  permissions that the sender gives. Without a reply the client waits for ever.
\<close>

definition first_reply :: "u32 \<Rightarrow> server \<Rightarrow> server \<Rightarrow> reply option" where
  "first_reply me s s' = find (\<lambda>r. r_to r = me) (drop (length (outbox s)) (outbox s'))"

definition fsipc :: "nat \<Rightarrow> u32 \<Rightarrow> u32 \<Rightarrow> client \<Rightarrow> ((int \<times> shared_page option \<times> u32) \<times> client) outcome" where
  "fsipc fuel me type c =
     obind (serve_round fuel me type (PTE_V OR PTE_D) (fsipcbuf c) (server_of c)) (\<lambda>s'.
       case first_reply me (server_of c) s' of
         None \<Rightarrow> Undef
       | Some r \<Rightarrow> Ret ((sint (r_val r), r_page r, PTE_V OR r_perm r), c\<lparr>server_of := s'\<rparr>))"

definition fsipc_open :: "nat \<Rightarrow> u32 \<Rightarrow> char list \<Rightarrow> u32 \<Rightarrow> client \<Rightarrow> ((int \<times> shared_page option) \<times> client) outcome" where
  "fsipc_open fuel me path omode c =
     obind (strlen path) (\<lambda>n.
       if MAXPATHLEN \<le> n then Ret ((- errno E_BAD_PATH, None), c)
       else obind (put_path 0 path (fsipcbuf c)) (\<lambda>b.
         obind (fsipc fuel me 1 (c\<lparr>fsipcbuf := put_word MAXPATHLEN omode b\<rparr>)) (\<lambda>((r, p, _), c). Ret ((r, p), c))))"

definition fsipc_openat :: "nat \<Rightarrow> u32 \<Rightarrow> u32 \<Rightarrow> char list \<Rightarrow> u32 \<Rightarrow> client \<Rightarrow> ((int \<times> shared_page option) \<times> client) outcome" where
  "fsipc_openat fuel me dir_fileid path omode c =
     obind (strlen path) (\<lambda>n.
       if MAXPATHLEN \<le> n then Ret ((- errno E_BAD_PATH, None), c)
       else obind (put_path 4 path (put_word 0 dir_fileid (fsipcbuf c))) (\<lambda>b.
         obind (fsipc fuel me 8 (c\<lparr>fsipcbuf := put_word (4 + MAXPATHLEN) omode b\<rparr>)) (\<lambda>((r, p, _), c). Ret ((r, p), c))))"

text \<open>The requests made of a file id and one more word.\<close>

definition word_request :: "u32 \<Rightarrow> u32 \<Rightarrow> client \<Rightarrow> client" where
  "word_request fileid x c = c\<lparr>fsipcbuf := put_word 4 x (put_word 0 fileid (fsipcbuf c))\<rparr>"

definition fsipc_map :: "nat \<Rightarrow> u32 \<Rightarrow> u32 \<Rightarrow> u32 \<Rightarrow> client \<Rightarrow> ((int \<times> shared_page option) \<times> client) outcome" where
  "fsipc_map fuel me fileid off c =
     obind (fsipc fuel me 2 (word_request fileid off c)) (\<lambda>((r, p, perm), c).
       if r < 0 then Ret ((r, None), c)
       else if perm AND NOT (PTE_D OR PTE_LIBRARY) \<noteq> PTE_V then Panic ''fsipc_map: unexpected permissions''
       else Ret ((0, p), c))"

definition fsipc_set_size :: "nat \<Rightarrow> u32 \<Rightarrow> u32 \<Rightarrow> u32 \<Rightarrow> client \<Rightarrow> (int \<times> client) outcome" where
  "fsipc_set_size fuel me fileid sz c = obind (fsipc fuel me 3 (word_request fileid sz c)) (\<lambda>((r, _, _), c). Ret (r, c))"

definition fsipc_close :: "nat \<Rightarrow> u32 \<Rightarrow> u32 \<Rightarrow> client \<Rightarrow> (int \<times> client) outcome" where
  "fsipc_close fuel me fileid c =
     obind (fsipc fuel me 4 (c\<lparr>fsipcbuf := put_word 0 fileid (fsipcbuf c)\<rparr>)) (\<lambda>((r, _, _), c). Ret (r, c))"

definition fsipc_dirty :: "nat \<Rightarrow> u32 \<Rightarrow> u32 \<Rightarrow> u32 \<Rightarrow> client \<Rightarrow> (int \<times> client) outcome" where
  "fsipc_dirty fuel me fileid off c = obind (fsipc fuel me 5 (word_request fileid off c)) (\<lambda>((r, _, _), c). Ret (r, c))"

definition fsipc_remove :: "nat \<Rightarrow> u32 \<Rightarrow> char list \<Rightarrow> client \<Rightarrow> (int \<times> client) outcome" where
  "fsipc_remove fuel me path c =
     obind (strlen path) (\<lambda>n.
       if n = 0 \<or> MAXPATHLEN \<le> n then Ret (- errno E_BAD_PATH, c)
       else obind (put_path 0 path (fsipcbuf c)) (\<lambda>b.
         obind (fsipc fuel me 6 (c\<lparr>fsipcbuf := b\<rparr>)) (\<lambda>((r, _, _), c). Ret (r, c))))"

definition fsipc_sync :: "nat \<Rightarrow> u32 \<Rightarrow> client \<Rightarrow> (int \<times> client) outcome" where
  "fsipc_sync fuel me c = obind (fsipc fuel me 7 c) (\<lambda>((r, _, _), c). Ret (r, c))"

section \<open>The server reads what the client wrote\<close>

lemma length_put_word [simp]: "length (put_word k w page) = length page"
  by (simp add: put_word_def)

lemma word_byte_unat: "(of_char (word_byte w k) :: nat) = unat (drop_bit (8 * k) w) mod 256"
  by (simp add: word_byte_def)

lemma req_byte_bits:
  assumes "k < length page" "page ! k = word_byte w j"
  shows "bit (req_byte page k) n \<longleftrightarrow> n < 8 \<and> bit w (8 * j + n)"
proof -
  have e: "req_byte page k = of_nat (take_bit 8 (unat (drop_bit (8 * j) w)))"
    using assms by (simp add: req_byte_def word_byte_unat take_bit_eq_mod)
  show ?thesis unfolding e bit_of_nat_iff bit_word_byte by auto
qed

lemma bit_req_word:
  assumes "\<And>j m. j < 4 \<Longrightarrow> bit (req_byte page (k + j)) m \<longleftrightarrow> m < 8 \<and> bit w (8 * j + m)" and "n < 32"
  shows "bit (req_word page k) n = bit w n"
proof -
  have r: "bit (req_word page k) n \<longleftrightarrow> bit (req_byte page k) n \<or> 8 \<le> n \<and> bit (req_byte page (k + 1)) (n - 8)
      \<or> 16 \<le> n \<and> bit (req_byte page (k + 2)) (n - 16) \<or> 24 \<le> n \<and> bit (req_byte page (k + 3)) (n - 24)"
  proof -
    have p: "possible_bit TYPE(u32) n" using assms(2) by simp
    show ?thesis unfolding req_word_def bit_or_iff bit_push_bit_iff using p by (simp only: simp_thms)
  qed
  have b: "bit (req_byte page k) n \<longleftrightarrow> n < 8 \<and> bit w n"
    "bit (req_byte page (k + 1)) (n - 8) \<longleftrightarrow> n - 8 < 8 \<and> bit w (8 + (n - 8))"
    "bit (req_byte page (k + 2)) (n - 16) \<longleftrightarrow> n - 16 < 8 \<and> bit w (16 + (n - 16))"
    "bit (req_byte page (k + 3)) (n - 24) \<longleftrightarrow> n - 24 < 8 \<and> bit w (24 + (n - 24))"
    using assms(1)[of 0 n] assms(1)[of 1 "n - 8"] assms(1)[of 2 "n - 16"] assms(1)[of 3 "n - 24"] by simp_all
  consider "n < 8" | "8 \<le> n" "n < 16" | "16 \<le> n" "n < 24" | "24 \<le> n" by linarith
  then show ?thesis unfolding r b using assms(2) by cases auto
qed

lemma req_word_eq:
  assumes "k + 3 < length page" "\<And>j. j < 4 \<Longrightarrow> page ! (k + j) = word_byte w j"
  shows "req_word page k = w"
proof (rule bit_word_eqI)
  fix n :: nat assume n: "n < LENGTH(32)"
  show "bit (req_word page k) n = bit w n"
    by (rule bit_req_word) (use n assms in \<open>auto intro!: req_byte_bits\<close>)
qed

lemma req_put_word: "k + 3 < length page \<Longrightarrow> req_word (put_word k w page) k = w"
  by (rule req_word_eq) (auto simp: put_word_def nth_list_update less_Suc_eq numeral_eq_Suc)

lemma req_word_other:
  assumes "\<And>j. j < 4 \<Longrightarrow> page' ! (k + j) = page ! (k + j)" and "length page' = length page"
  shows "req_word page' k = req_word page k"
proof -
  have "req_byte page' (k + j) = req_byte page (k + j)" if "j < 4" for j
    using assms(1)[OF that] assms(2) by (simp add: req_byte_def)
  from this[of 0] this[of 1] this[of 2] this[of 3] show ?thesis unfolding req_word_def by simp
qed

lemma word_request_decode:
  assumes "length (fsipcbuf c) = 4096"
  shows "req_word (fsipcbuf (word_request fid x c)) 0 = fid" "req_word (fsipcbuf (word_request fid x c)) 4 = x"
proof -
  have "req_word (put_word 4 x (put_word 0 fid (fsipcbuf c))) 0 = req_word (put_word 0 fid (fsipcbuf c)) 0"
    by (rule req_word_other) (simp_all add: put_word_def)
  then show "req_word (fsipcbuf (word_request fid x c)) 0 = fid" using assms by (simp add: word_request_def req_put_word)
  show "req_word (fsipcbuf (word_request fid x c)) 4 = x" using assms by (simp add: word_request_def req_put_word)
qed

lemma put_path_decode:
  assumes "terminated path" "length (cstr path) < MAXPATHLEN" "length page = 4096" "k \<le> 4"
  shows "\<exists>b. put_path k path page = Ret b \<and> length b = 4096 \<and> take k b = take k page
    \<and> terminated (drop k (put_word (k + MAXPATHLEN) w b)) \<and> cstr (drop k (put_word (k + MAXPATHLEN) w b)) = cstr path
    \<and> terminated (drop k b) \<and> cstr (drop k b) = cstr path
    \<and> req_word (put_word (k + MAXPATHLEN) w b) (k + MAXPATHLEN) = w"
proof -
  let ?n = "length (cstr path)"
  define r where "r = cstr path @ NUL # drop (Suc ?n) (drop k page)"
  have s: "strcpy (drop k page) path = Ret r" using assms by (simp add: strcpy_eq r_def)
  have l: "length r = 4096 - k" using assms by (simp add: r_def)
  let ?b = "take k page @ r"
  have lb: "length ?b = 4096" using l assms(3,4) by simp
  have "drop k (put_word (k + MAXPATHLEN) w ?b) = r[1024 := word_byte w 0, 1025 := word_byte w 1, 1026 := word_byte w 2, 1027 := word_byte w 3]"
    using assms(3,4) by (simp add: put_word_def list_update_append add.commute)
  moreover have "take (Suc ?n) \<dots> = cstr path @ [NUL]"
    using assms(2) by (simp add: take_update_cancel) (simp add: r_def)
  ultimately obtain z where z: "drop k (put_word (k + MAXPATHLEN) w ?b) = cstr path @ NUL # z"
    by (metis append_take_drop_id append_assoc append_Cons append_Nil)
  have t: "terminated (drop k (put_word (k + MAXPATHLEN) w ?b))" "cstr (drop k (put_word (k + MAXPATHLEN) w ?b)) = cstr path"
    unfolding z by (simp_all add: cstr_no_NUL)
  have t2: "terminated (drop k ?b)" "cstr (drop k ?b) = cstr path" using assms(3,4) by (simp_all add: r_def cstr_no_NUL)
  have w: "req_word (put_word (k + MAXPATHLEN) w ?b) (k + MAXPATHLEN) = w" by (rule req_put_word) (use lb assms(4) in simp)
  have b: "put_path k path page = Ret ?b" "take k ?b = take k page" using s assms(3,4) by (simp_all add: put_path_def)
  show ?thesis by (intro exI[of _ ?b] conjI b lb t t2 w)
qed

section \<open>What a call returns\<close>

lemma sint_err_word: "sint (err_word e) = - errno e"
  by (cases e) (simp_all add: err_word_def)

lemma first_reply_send:
  "outbox t = outbox s \<Longrightarrow> first_reply me s (ipc_send me v p perm t) = Some \<lparr>r_to = me, r_val = v, r_page = p, r_perm = perm\<rparr>"
  by (auto simp: first_reply_def ipc_send_def Let_def split: option.splits shared_page.splits)

lemmas reply_simps = first_reply_send fail_def sint_err_word

lemma errno_neg: "- errno e < 0"
  using errno_pos[of e] by simp

lemma share_perm: "(PTE_V OR SHARE_PERM) AND NOT (PTE_D OR PTE_LIBRARY) = (PTE_V :: u32)"
  by simp

text \<open>The reply to a request on a file id, by the outcome of the file operation \<open>k\<close> that the handler runs.\<close>

definition answered :: "u32 \<Rightarrow> u32 \<Rightarrow> client \<Rightarrow> (fptr \<Rightarrow> fs_state \<Rightarrow> ((error + shared_page option) \<times> fs_state) outcome)
    \<Rightarrow> ((int \<times> shared_page option) \<times> client) outcome" where
  "answered me fid c k =
     (let s = server_of c in
      case open_lookup me fid s of
        Inl e \<Rightarrow> Ret ((- errno e, None), c\<lparr>server_of := ipc_send me (err_word e) None 0 s\<rparr>)
      | Inr i \<Rightarrow>
          (case o_file (opentab s i) of
             None \<Rightarrow> Undef
           | Some f \<Rightarrow>
               obind (k f (sfs s)) (\<lambda>(r, t).
                 case r of
                   Inl e \<Rightarrow> Ret ((- errno e, None), c\<lparr>server_of := ipc_send me (err_word e) None 0 (s\<lparr>sfs := t\<rparr>)\<rparr>)
                 | Inr p \<Rightarrow> Ret ((0, p), c\<lparr>server_of := ipc_send me 0 p (if p = None then 0 else SHARE_PERM) (s\<lparr>sfs := t\<rparr>)\<rparr>))))"

lemma fsipc_answered:
  assumes "serve_round fuel me T (PTE_V OR PTE_D) (fsipcbuf c) (server_of c) =
    with_open me fid (server_of c) (\<lambda>f. obind (on_fs (k f) (server_of c)) (\<lambda>(r, s).
      case r of Inl e \<Rightarrow> Ret (fail me e s) | Inr p \<Rightarrow> Ret (ipc_send me 0 p (if p = None then 0 else SHARE_PERM) s)))"
  shows "fsipc fuel me T c = obind (answered me fid c k) (\<lambda>((r, p), c).
    Ret ((r, p, PTE_V OR (if p = None then 0 else SHARE_PERM)), c))"
proof (cases "open_lookup me fid (server_of c)")
  case (Inl e)
  then show ?thesis unfolding fsipc_def assms with_open_def answered_def by (simp add: reply_simps)
next
  case (Inr i)
  show ?thesis
  proof (cases "o_file (opentab (server_of c) i)")
    case None
    then show ?thesis unfolding fsipc_def assms with_open_def answered_def by (simp add: Inr)
  next
    case (Some f)
    show ?thesis
    proof (cases "k f (sfs (server_of c))")
      case (Ret x)
      obtain r t where x: "x = (r, t)" by (cases x)
      show ?thesis unfolding fsipc_def assms with_open_def answered_def
        by (cases r) (simp_all add: Inr Some Ret x on_fs_def reply_simps)
    next
      case (Panic m)
      then show ?thesis unfolding fsipc_def assms with_open_def answered_def by (simp add: Inr Some on_fs_def)
    next
      case Undef
      then show ?thesis unfolding fsipc_def assms with_open_def answered_def by (simp add: Inr Some on_fs_def)
    qed
  qed
qed

lemma do_fs_on_fs:
  "obind (do_fs F s) (\<lambda>s. Ret (ipc_send me 0 None 0 s)) =
   obind (on_fs (\<lambda>t. obind (F t) (\<lambda>t. Ret (Inr None, t))) s) (\<lambda>(r, s).
      case r of Inl e \<Rightarrow> Ret (fail me e s) | Inr p \<Rightarrow> Ret (ipc_send me 0 p (if p = None then 0 else SHARE_PERM) s))"
  by (cases "F (sfs s)") (simp_all add: do_fs_def on_fs_def)

lemma on_fs_map:
  "obind (on_fs F s) (\<lambda>(r, s). case r of Inl e \<Rightarrow> Ret (fail me e s) | Inr x \<Rightarrow> Ret (ipc_send me 0 (q x) (if q x = None then 0 else SHARE_PERM) s)) =
   obind (on_fs (\<lambda>t. obind (F t) (\<lambda>(r, t). Ret (map_sum id q r, t))) s) (\<lambda>(r, s).
      case r of Inl e \<Rightarrow> Ret (fail me e s) | Inr p \<Rightarrow> Ret (ipc_send me 0 p (if p = None then 0 else SHARE_PERM) s))"
proof (cases "F (sfs s)")
  case (Ret x)
  then show ?thesis by (cases x; cases "fst x") (simp_all add: on_fs_def)
qed (simp_all add: on_fs_def)

lemma answered_result: "answered me fid c k = Ret ((r, p), d) \<Longrightarrow> r = 0 \<or> r < 0 \<and> p = None"
proof (cases "open_lookup me fid (server_of c)")
  case (Inr i)
  assume a: "answered me fid c k = Ret ((r, p), d)"
  then obtain f where f: "o_file (opentab (server_of c) i) = Some f" using Inr by (auto simp: answered_def Let_def split: option.splits)
  then obtain x t where k: "k f (sfs (server_of c)) = Ret (x, t)" using a Inr by (auto simp: answered_def Let_def outcome_simps)
  show ?thesis using a Inr f k errno_pos by (cases x) (auto simp: answered_def)
qed (auto simp: answered_def errno_pos)

lemma drop_perm:
  "obind (obind m (\<lambda>((r, p), c). Ret ((r, p, g p), c))) (\<lambda>((r, _, _), c). Ret (r, c)) = obind m (\<lambda>((r, _), c). Ret (r, c))"
  by (cases m) auto

lemma client_calls:
  assumes "length (fsipcbuf c) = 4096"
  shows "fsipc_map fuel me fid off c = answered me fid (word_request fid off c)
      (\<lambda>f t. obind (file_get_block f (unat off div BY2BLK) t) (\<lambda>(r, t). Ret (map_sum id (\<lambda>b. Some (BlockPage b)) r, t)))
    \<and> fsipc_set_size fuel me fid sz c = obind (answered me fid (word_request fid sz c)
      (\<lambda>f t. obind (file_set_size f (unat sz) t) (\<lambda>t. Ret (Inr None, t)))) (\<lambda>((r, _), c). Ret (r, c))
    \<and> fsipc_dirty fuel me fid off c = obind (answered me fid (word_request fid off c)
      (\<lambda>f t. obind (file_dirty f (unat off) t) (\<lambda>(r, t). Ret (map_sum id (\<lambda>_. None) r, t)))) (\<lambda>((r, _), c). Ret (r, c))
    \<and> fsipc_close fuel me fid c = obind (answered me fid (c\<lparr>fsipcbuf := put_word 0 fid (fsipcbuf c)\<rparr>)
      (\<lambda>f t. obind (file_close f t) (\<lambda>t. Ret (Inr None, t)))) (\<lambda>((r, _), c). Ret (r, c))"
proof -
  let ?w = "word_request fid off c"
  have sn: "(Some x = None) = False" for x :: shared_page by simp
  have sm: "serve_round fuel me 2 (PTE_V OR PTE_D) (fsipcbuf ?w) (server_of ?w) = with_open me fid (server_of ?w) (\<lambda>f.
     obind (on_fs (file_get_block f (unat off div BY2BLK)) (server_of ?w)) (\<lambda>(r, s).
       case r of Inl e \<Rightarrow> Ret (fail me e s) | Inr b \<Rightarrow> Ret (ipc_send me 0 (Some (BlockPage b)) (if Some (BlockPage b) = None then 0 else SHARE_PERM) s)))"
    unfolding serve_round_def serve_map_def word_request_decode[OF assms] sn if_False by simp
  have ss: "serve_round fuel me 3 (PTE_V OR PTE_D) (fsipcbuf (word_request fid sz c)) (server_of (word_request fid sz c)) =
     with_open me fid (server_of (word_request fid sz c)) (\<lambda>f. obind (do_fs (file_set_size f (unat sz)) (server_of (word_request fid sz c))) (\<lambda>s. Ret (ipc_send me 0 None 0 s)))"
    unfolding serve_round_def serve_set_size_def word_request_decode[OF assms] by simp
  have sd: "serve_round fuel me 5 (PTE_V OR PTE_D) (fsipcbuf ?w) (server_of ?w) = with_open me fid (server_of ?w) (\<lambda>f.
     obind (on_fs (file_dirty f (unat off)) (server_of ?w)) (\<lambda>(r, s).
       case r of Inl e \<Rightarrow> Ret (fail me e s) | Inr _ \<Rightarrow> Ret (ipc_send me 0 None (if (None :: shared_page option) = None then 0 else SHARE_PERM) s)))"
    unfolding serve_round_def serve_dirty_def word_request_decode[OF assms] simp_thms if_True by simp
  let ?c = "c\<lparr>fsipcbuf := put_word 0 fid (fsipcbuf c)\<rparr>"
  have id: "req_word (fsipcbuf ?c) 0 = fid" using assms by (simp add: req_put_word)
  have sc: "serve_round fuel me 4 (PTE_V OR PTE_D) (fsipcbuf ?c) (server_of ?c) =
     with_open me fid (server_of ?c) (\<lambda>f. obind (do_fs (file_close f) (server_of ?c)) (\<lambda>s. Ret (ipc_send me 0 None 0 s)))"
    unfolding serve_round_def serve_close_def id by simp
  note am = fsipc_answered[OF sm[unfolded on_fs_map[where q = "\<lambda>b. Some (BlockPage b)"]]] and as = fsipc_answered[OF ss[unfolded do_fs_on_fs]]
    and ad = fsipc_answered[OF sd[unfolded on_fs_map[where q = "\<lambda>_. None"]]] and ac = fsipc_answered[OF sc[unfolded do_fs_on_fs]]
  have m: "fsipc_map fuel me fid off c = answered me fid ?w
      (\<lambda>f t. obind (file_get_block f (unat off div BY2BLK) t) (\<lambda>(r, t). Ret (map_sum id (\<lambda>b. Some (BlockPage b)) r, t)))"
  proof (cases "answered me fid ?w (\<lambda>f t. obind (file_get_block f (unat off div BY2BLK) t) (\<lambda>(r, t). Ret (map_sum id (\<lambda>b. Some (BlockPage b)) r, t)))")
    case (Ret x)
    obtain r p d where x: "x = ((r, p), d)" by (cases x) auto
    show ?thesis unfolding fsipc_map_def am Ret x using answered_result[OF Ret[unfolded x]] by auto
  qed (simp_all add: fsipc_map_def am)
  show ?thesis unfolding fsipc_set_size_def fsipc_dirty_def fsipc_close_def as ad ac drop_perm by (intro conjI m refl)
qed

text \<open>
  C31. A client call on an open file does what the server's file operation does with the client's own arguments,
  whatever an earlier call left in the request page: \<open>fsipc_map\<close> delivers the block of the file at the offset,
  \<open>fsipc_set_size\<close>, \<open>fsipc_dirty\<close> and \<open>fsipc_close\<close> run \<open>file_set_size\<close>, \<open>file_dirty\<close> and
  \<open>file_close\<close>. The result is 0, or the error of the operation, or \<open>E_INVAL\<close> for an id the server refuses; the
  permission check of \<open>fsipc_map\<close> never fails.
\<close>

theorem client_calls_reach_files:
  assumes "length (fsipcbuf c) = 4096"
  shows "fsipc_map fuel me fid off c = answered me fid (word_request fid off c)
      (\<lambda>f t. obind (file_get_block f (unat off div BY2BLK) t) (\<lambda>(r, t). Ret (map_sum id (\<lambda>b. Some (BlockPage b)) r, t)))
    \<and> fsipc_set_size fuel me fid sz c = obind (answered me fid (word_request fid sz c)
      (\<lambda>f t. obind (file_set_size f (unat sz) t) (\<lambda>t. Ret (Inr None, t)))) (\<lambda>((r, _), c). Ret (r, c))
    \<and> fsipc_dirty fuel me fid off c = obind (answered me fid (word_request fid off c)
      (\<lambda>f t. obind (file_dirty f (unat off) t) (\<lambda>(r, t). Ret (map_sum id (\<lambda>_. None) r, t)))) (\<lambda>((r, _), c). Ret (r, c))
    \<and> fsipc_close fuel me fid c = obind (answered me fid (c\<lparr>fsipcbuf := put_word 0 fid (fsipcbuf c)\<rparr>)
      (\<lambda>f t. obind (file_close f t) (\<lambda>t. Ret (Inr None, t)))) (\<lambda>((r, _), c). Ret (r, c))"
  by (rule client_calls[OF assms])

section \<open>Paths in requests\<close>

lemma path_names_tail:
  assumes "NUL \<notin> set xs"
  shows "path_names (xs @ NUL # r) = path_names (xs @ [NUL])"
  using assms
proof (induction "length xs" arbitrary: xs rule: less_induct)
  case less
  let ?D = "\<lambda>p. dropWhile (\<lambda>c. c = CHR ''/'') p"
  let ?E = "\<lambda>p. dropWhile (\<lambda>c. c \<noteq> CHR ''/'' \<and> c \<noteq> NUL) p"
  have d: "?D (xs @ NUL # ys) = ?D xs @ NUL # ys" for ys by (rule dropWhile_append3) simp
  show ?case
  proof (cases "?D xs")
    case Nil
    have "path_names (xs @ NUL # ys) = []" for ys unfolding path_names.simps[of "xs @ NUL # ys"] d Nil by simp
    then show ?thesis by simp
  next
    case (Cons c cs)
    have sub: "set (?D xs) \<subseteq> set xs" by (auto dest: set_dropWhileD)
    then have c: "c \<noteq> NUL" "NUL \<notin> set cs" using less.prems Cons by auto
    have e: "?E (cs @ NUL # ys) = ?E cs @ NUL # ys" for ys by (rule dropWhile_append3) simp
    have tk: "takeWhile (\<lambda>c. c \<noteq> CHR ''/'' \<and> c \<noteq> NUL) (c # cs @ NUL # ys) = takeWhile (\<lambda>c. c \<noteq> CHR ''/'' \<and> c \<noteq> NUL) (c # cs)" for ys
      using takeWhile_tail[of "\<lambda>c. c \<noteq> CHR ''/'' \<and> c \<noteq> NUL" NUL "c # cs" ys] by simp
    have len: "length (?E cs) < length xs"
    proof -
      have "length (?E cs) \<le> length cs" by (rule length_dropWhile_le)
      also have "\<dots> < length (?D xs)" using Cons by simp
      also have "\<dots> \<le> length xs" by (rule length_dropWhile_le)
      finally show ?thesis .
    qed
    have "NUL \<notin> set (?E cs)" using c(2) by (auto dest: set_dropWhileD)
    from less.hyps[OF len this] have IH: "path_names (?E cs @ NUL # r) = path_names (?E cs @ [NUL])" .
    show ?thesis
      unfolding path_names.simps[of "xs @ NUL # r"] path_names.simps[of "xs @ [NUL]"] d Cons append_Cons list.case if_not_P[OF c(1)] e tk IH ..
  qed
qed

lemma path_names_cong: "terminated p \<Longrightarrow> terminated q \<Longrightarrow> cstr p = cstr q \<Longrightarrow> path_names p = path_names q"
proof -
  assume a: "terminated p" "terminated q" "cstr p = cstr q"
  obtain r where r: "p = cstr p @ NUL # r" by (rule terminated_split[OF a(1)])
  obtain r' where r': "q = cstr q @ NUL # r'" by (rule terminated_split[OF a(2)])
  have "path_names p = path_names (cstr p @ [NUL])" by (subst r) (rule path_names_tail[OF cstr_no_NUL])
  moreover have "path_names q = path_names (cstr q @ [NUL])" by (subst r') (rule path_names_tail[OF cstr_no_NUL])
  ultimately show ?thesis using a(3) by simp
qed

lemma walk_loop_cong:
  assumes "terminated p" "terminated q" "cstr p = cstr q"
  shows "walk_loop (skip_slash p) d g s = walk_loop (skip_slash q) d g s"
proof -
  have w: "walk_loop (skip_slash p) d g s = walk_names (path_names p) d g s" if "terminated p" for p
  proof -
    have "terminated (skip_slash p)" unfolding skip_slash_def by (rule terminated_dropWhile[OF that]) simp
    from walk_loop_names[OF this skip_slash_head] show ?thesis unfolding path_names_skip_slash .
  qed
  show ?thesis unfolding w[OF assms(1)] w[OF assms(2)] path_names_cong[OF assms] ..
qed

lemma walk_path_cong:
  assumes "terminated p" "terminated q" "cstr p = cstr q"
  shows "walk_path fuel p s = walk_path fuel q s"
  by (cases fuel) (simp_all only: walk_path.simps walk_loop_cong[OF assms])

text \<open>What the path requests depend on.\<close>

lemma file_ops_cong:
  assumes "terminated p" "terminated q" "cstr p = cstr q"
  shows "file_open fuel p = file_open fuel q" "file_create fuel p = file_create fuel q"
    "file_remove fuel p = file_remove fuel q" "file_openat d p = file_openat d q"
  by (simp_all add: fun_eq_iff file_open_def file_create_def file_remove_def file_openat_def walk_path_at_def
      walk_path_cong[OF assms] walk_loop_cong[OF assms])

lemma serve_open_cong:
  assumes "terminated (req_path a 0)" "terminated (req_path b 0)" "cstr (req_path a 0) = cstr (req_path b 0)"
    and "req_word a MAXPATHLEN = req_word b MAXPATHLEN"
  shows "serve_open fuel w a s = serve_open fuel w b s"
  unfolding serve_open_def Let_def assms(4) file_ops_cong[OF assms(1-3)] ..

lemma serve_openat_cong:
  assumes "terminated (req_path a 4)" "terminated (req_path b 4)" "cstr (req_path a 4) = cstr (req_path b 4)"
    and "req_word a (4 + MAXPATHLEN) = req_word b (4 + MAXPATHLEN)" and "req_word a 0 = req_word b 0"
  shows "serve_openat w a s = serve_openat w b s"
  unfolding serve_openat_def Let_def assms(4,5) file_ops_cong[OF assms(1-3)] ..

lemma serve_remove_cong:
  assumes "terminated (req_path a 0)" "terminated (req_path b 0)" "cstr (req_path a 0) = cstr (req_path b 0)"
  shows "serve_remove fuel w a s = serve_remove fuel w b s"
  unfolding serve_remove_def file_ops_cong[OF assms] ..

text \<open>The result of a call and the state of the server after it.\<close>

definition effect :: "('a \<times> client) outcome \<Rightarrow> ('a \<times> server) outcome" where
  "effect m = obind m (\<lambda>(r, c). Ret (r, server_of c))"

lemma effect_fsipc:
  assumes "server_of c = server_of d"
    and "serve_round fuel me T (PTE_V OR PTE_D) (fsipcbuf c) (server_of d) = serve_round fuel me T (PTE_V OR PTE_D) (fsipcbuf d) (server_of d)"
  shows "effect (obind (fsipc fuel me T c) (\<lambda>((r, p, q), c). Ret (g r p, c))) = effect (obind (fsipc fuel me T d) (\<lambda>((r, p, q), c). Ret (g r p, c)))"
proof (cases "serve_round fuel me T (PTE_V OR PTE_D) (fsipcbuf d) (server_of d)")
  case (Ret s)
  then show ?thesis unfolding effect_def fsipc_def assms by (cases "first_reply me (server_of d) s") simp_all
qed (unfold effect_def fsipc_def assms, simp_all)

lemma open_effect:
  assumes "length (fsipcbuf c) = 4096" "length (fsipcbuf d) = 4096" "server_of c = server_of d" "terminated p" "terminated q" "cstr p = cstr q"
  shows "effect (fsipc_open fuel me p om c) = effect (fsipc_open fuel me q om d)"
proof (cases "MAXPATHLEN \<le> length (cstr q)")
  case True
  then show ?thesis using assms by (simp add: fsipc_open_def strlen_eq effect_def)
next
  case False
  then have n: "length (cstr p) < MAXPATHLEN" "length (cstr q) < MAXPATHLEN" using assms(6) by simp_all
  obtain a where a: "put_path 0 p (fsipcbuf c) = Ret a" "terminated (drop 0 (put_word (0 + MAXPATHLEN) om a))"
      "cstr (drop 0 (put_word (0 + MAXPATHLEN) om a)) = cstr p" "req_word (put_word (0 + MAXPATHLEN) om a) (0 + MAXPATHLEN) = om"
    using put_path_decode[OF assms(4) n(1) assms(1), of 0 om] by blast
  obtain b where b: "put_path 0 q (fsipcbuf d) = Ret b" "terminated (drop 0 (put_word (0 + MAXPATHLEN) om b))"
      "cstr (drop 0 (put_word (0 + MAXPATHLEN) om b)) = cstr q" "req_word (put_word (0 + MAXPATHLEN) om b) (0 + MAXPATHLEN) = om"
    using put_path_decode[OF assms(5) n(2) assms(2), of 0 om] by blast
  have r: "serve_round fuel me 1 (PTE_V OR PTE_D) (put_word MAXPATHLEN om a) s = serve_round fuel me 1 (PTE_V OR PTE_D) (put_word MAXPATHLEN om b) s" for s
    using serve_open_cong[of "put_word MAXPATHLEN om a" "put_word MAXPATHLEN om b" fuel me s] a b assms(6)
    by (simp add: serve_round_def req_path_def)
  show ?thesis
    using effect_fsipc[of "c\<lparr>fsipcbuf := put_word MAXPATHLEN om a\<rparr>" "d\<lparr>fsipcbuf := put_word MAXPATHLEN om b\<rparr>" fuel me 1 Pair] r assms(3) n
    by (simp add: fsipc_open_def strlen_eq assms(4,5) a(1) b(1))
qed

lemma openat_page:
  assumes "terminated p" "length (cstr p) < MAXPATHLEN" "length page = 4096"
  shows "\<exists>b. put_path 4 p (put_word 0 fid page) = Ret b \<and> terminated (drop 4 (put_word (4 + MAXPATHLEN) om b))
    \<and> cstr (drop 4 (put_word (4 + MAXPATHLEN) om b)) = cstr p \<and> req_word (put_word (4 + MAXPATHLEN) om b) (4 + MAXPATHLEN) = om
    \<and> req_word (put_word (4 + MAXPATHLEN) om b) 0 = fid"
proof -
  obtain b where b: "put_path 4 p (put_word 0 fid page) = Ret b" "length b = 4096" "take 4 b = take 4 (put_word 0 fid page)"
      "terminated (drop 4 (put_word (4 + MAXPATHLEN) om b))"
      "cstr (drop 4 (put_word (4 + MAXPATHLEN) om b)) = cstr p" "req_word (put_word (4 + MAXPATHLEN) om b) (4 + MAXPATHLEN) = om"
    using put_path_decode[OF assms(1,2), of "put_word 0 fid page" 4 om] assms(3) by auto
  have "put_word (4 + MAXPATHLEN) om b ! (0 + j) = put_word 0 fid page ! (0 + j)" if "j < 4" for j
  proof -
    have "b ! j = put_word 0 fid page ! j" using b(3) that by (metis nth_take)
    then show ?thesis using that by (simp add: put_word_def)
  qed
  then have "req_word (put_word (4 + MAXPATHLEN) om b) 0 = req_word (put_word 0 fid page) 0"
    by (rule req_word_other) (use b(2) assms(3) in simp_all)
  also have "\<dots> = fid" by (rule req_put_word) (use assms(3) in simp)
  finally show ?thesis using b by blast
qed

lemma openat_effect:
  assumes "length (fsipcbuf c) = 4096" "length (fsipcbuf d) = 4096" "server_of c = server_of d" "terminated p" "terminated q" "cstr p = cstr q"
  shows "effect (fsipc_openat fuel me fid p om c) = effect (fsipc_openat fuel me fid q om d)"
proof (cases "MAXPATHLEN \<le> length (cstr q)")
  case True
  then show ?thesis using assms by (simp add: fsipc_openat_def strlen_eq effect_def)
next
  case False
  then have n: "length (cstr p) < MAXPATHLEN" "length (cstr q) < MAXPATHLEN" using assms(6) by simp_all
  obtain a where a: "put_path 4 p (put_word 0 fid (fsipcbuf c)) = Ret a" "terminated (drop 4 (put_word (4 + MAXPATHLEN) om a))"
      "cstr (drop 4 (put_word (4 + MAXPATHLEN) om a)) = cstr p" "req_word (put_word (4 + MAXPATHLEN) om a) (4 + MAXPATHLEN) = om"
      "req_word (put_word (4 + MAXPATHLEN) om a) 0 = fid"
    using openat_page[OF assms(4) n(1) assms(1)] by blast
  obtain b where b: "put_path 4 q (put_word 0 fid (fsipcbuf d)) = Ret b" "terminated (drop 4 (put_word (4 + MAXPATHLEN) om b))"
      "cstr (drop 4 (put_word (4 + MAXPATHLEN) om b)) = cstr q" "req_word (put_word (4 + MAXPATHLEN) om b) (4 + MAXPATHLEN) = om"
      "req_word (put_word (4 + MAXPATHLEN) om b) 0 = fid"
    using openat_page[OF assms(5) n(2) assms(2)] by blast
  have c: "cstr (drop 4 (put_word (4 + MAXPATHLEN) om a)) = cstr (drop 4 (put_word (4 + MAXPATHLEN) om b))"
    "req_word (put_word (4 + MAXPATHLEN) om a) (4 + MAXPATHLEN) = req_word (put_word (4 + MAXPATHLEN) om b) (4 + MAXPATHLEN)"
    "req_word (put_word (4 + MAXPATHLEN) om a) 0 = req_word (put_word (4 + MAXPATHLEN) om b) 0"
    using a(3-5) b(3-5) assms(6) by simp_all
  have r: "serve_round fuel me 8 (PTE_V OR PTE_D) (put_word (4 + MAXPATHLEN) om a) s = serve_round fuel me 8 (PTE_V OR PTE_D) (put_word (4 + MAXPATHLEN) om b) s" for s
    using serve_openat_cong[OF a(2)[folded req_path_def] b(2)[folded req_path_def] c(1)[folded req_path_def] c(2,3), of me s]
    by (simp add: serve_round_def)
  show ?thesis
    using effect_fsipc[of "c\<lparr>fsipcbuf := put_word (4 + MAXPATHLEN) om a\<rparr>" "d\<lparr>fsipcbuf := put_word (4 + MAXPATHLEN) om b\<rparr>" fuel me 8 Pair] r assms(3) n
    by (simp add: fsipc_openat_def strlen_eq assms(4,5) a(1) b(1))
qed

lemma remove_effect:
  assumes "length (fsipcbuf c) = 4096" "length (fsipcbuf d) = 4096" "server_of c = server_of d" "terminated p" "terminated q" "cstr p = cstr q"
  shows "effect (fsipc_remove fuel me p c) = effect (fsipc_remove fuel me q d)"
proof (cases "cstr q = [] \<or> MAXPATHLEN \<le> length (cstr q)")
  case True
  then show ?thesis using assms by (auto simp: fsipc_remove_def strlen_eq effect_def)
next
  case False
  then have n: "length (cstr p) < MAXPATHLEN" "length (cstr q) < MAXPATHLEN" "cstr q \<noteq> []" using assms(6) by simp_all
  obtain a where a: "put_path 0 p (fsipcbuf c) = Ret a" "terminated (drop 0 a)" "cstr (drop 0 a) = cstr p"
    using put_path_decode[OF assms(4) n(1) assms(1), of 0 0] by blast
  obtain b where b: "put_path 0 q (fsipcbuf d) = Ret b" "terminated (drop 0 b)" "cstr (drop 0 b) = cstr q"
    using put_path_decode[OF assms(5) n(2) assms(2), of 0 0] by blast
  have r: "serve_round fuel me 6 (PTE_V OR PTE_D) a s = serve_round fuel me 6 (PTE_V OR PTE_D) b s" for s
    using serve_remove_cong[of a b fuel me s] a b assms(6) by (simp add: serve_round_def req_path_def)
  show ?thesis
    using effect_fsipc[of "c\<lparr>fsipcbuf := a\<rparr>" "d\<lparr>fsipcbuf := b\<rparr>" fuel me 6 "\<lambda>r _. r"] r assms(3,6) n
    by (simp add: fsipc_remove_def strlen_eq assms(4,5) a(1) b(1))
qed

text \<open>
  C32. Calls that send a path leave no residue and read none: what \<open>fsipc_open\<close>, \<open>fsipc_openat\<close> and \<open>fsipc_remove\<close>
  return, and what they do to the server, depends on the string and the other arguments only, not on what earlier
  calls left in the request page or on what follows the terminator of the path. A path of 1024 characters or more is
  refused with \<open>E_BAD_PATH\<close> before anything is sent, and so is an empty one by \<open>fsipc_remove\<close>.
\<close>

theorem path_calls_leave_no_residue:
  assumes "length (fsipcbuf c) = 4096" and "length (fsipcbuf d) = 4096" and "server_of c = server_of d"
    and "terminated p" and "terminated q" and "cstr p = cstr q"
  shows "effect (fsipc_open fuel me p om c) = effect (fsipc_open fuel me q om d)
    \<and> effect (fsipc_openat fuel me fid p om c) = effect (fsipc_openat fuel me fid q om d)
    \<and> effect (fsipc_remove fuel me p c) = effect (fsipc_remove fuel me q d)
    \<and> (MAXPATHLEN \<le> length (cstr p) \<longrightarrow> fsipc_open fuel me p om c = Ret ((- errno E_BAD_PATH, None), c)
        \<and> fsipc_openat fuel me fid p om c = Ret ((- errno E_BAD_PATH, None), c) \<and> fsipc_remove fuel me p c = Ret (- errno E_BAD_PATH, c))
    \<and> (cstr p = [] \<longrightarrow> fsipc_remove fuel me p c = Ret (- errno E_BAD_PATH, c))"
proof -
  have "MAXPATHLEN \<le> length (cstr p) \<longrightarrow> fsipc_open fuel me p om c = Ret ((- errno E_BAD_PATH, None), c)
      \<and> fsipc_openat fuel me fid p om c = Ret ((- errno E_BAD_PATH, None), c) \<and> fsipc_remove fuel me p c = Ret (- errno E_BAD_PATH, c)"
    "cstr p = [] \<longrightarrow> fsipc_remove fuel me p c = Ret (- errno E_BAD_PATH, c)"
    using assms(4) by (simp_all add: fsipc_open_def fsipc_openat_def fsipc_remove_def strlen_eq)
  then show ?thesis using open_effect[OF assms] openat_effect[OF assms] remove_effect[OF assms] by blast
qed

section \<open>Two clients\<close>

definition demo_client :: "char \<Rightarrow> client" where
  "demo_client x = \<lparr>fsipcbuf = replicate 4096 x, server_of = serve_init (fresh_server demo_disk)\<rparr>"

theorem client_calls_reach_files_witness:
  "fsipc_set_size 1 7 0x12345 5 (demo_client NUL) =
     Ret (- 3, (word_request 0x12345 5 (demo_client NUL))\<lparr>server_of := ipc_send 7 (err_word E_INVAL) None 0 (serve_init (fresh_server demo_disk))\<rparr>)"
proof -
  have l: "length (fsipcbuf (demo_client NUL)) = 4096" by (simp add: demo_client_def)
  have s: "server_of (word_request 0x12345 5 (demo_client NUL)) = serve_init (fresh_server demo_disk)"
    by (simp add: word_request_def demo_client_def)
  have "open_lookup 7 0x12345 (serve_init (fresh_server demo_disk)) = Inl E_INVAL"
    by (simp add: open_lookup_def serve_init_def fresh_server_def pageref_def Let_def)
  then have "answered 7 0x12345 (word_request 0x12345 5 (demo_client NUL)) k =
      Ret ((- 3, None), (word_request 0x12345 5 (demo_client NUL))\<lparr>server_of := ipc_send 7 (err_word E_INVAL) None 0 (serve_init (fresh_server demo_disk))\<rparr>)" for k
    unfolding answered_def Let_def s by simp
  then show ?thesis using client_calls_reach_files[where c = "demo_client NUL" and fuel = 1 and me = 7 and fid = "0x12345" and sz = 5, OF l] by simp
qed

theorem path_calls_leave_no_residue_witness:
  "effect (fsipc_open 1 7 (''/bin'' @ [NUL]) 0 (demo_client NUL)) = effect (fsipc_open 1 7 (''/bin'' @ [NUL, CHR ''x'']) 0 (demo_client CHR ''y''))"
proof -
  have "length (fsipcbuf (demo_client x)) = 4096" "server_of (demo_client NUL) = server_of (demo_client x)" for x by (simp_all add: demo_client_def)
  from path_calls_leave_no_residue[where c = "demo_client NUL" and d = "demo_client CHR ''y''" and p = "''/bin'' @ [NUL]" and q = "''/bin'' @ [NUL, CHR ''x'']"
      and fuel = 1 and me = 7 and om = 0, OF this(1) this(1) this(2)]
  show ?thesis by simp
qed

end
