(* ===== verification/Mos_History.thy ===== *)
theory Mos_History
  imports Mos_Fsipc
begin

text \<open>
  The command history of the shell, \<open>user/lib/history.c\<close>. The history file is the sequence of its bytes; a command is
  stored between two copies of its length, and two zero words end the file. \<open>nowOff\<close> is the place of the
  next command to show, \<open>maxOff\<close> the end of the commands, and \<open>fakeMaxOff\<close> the end of the line being edited, which is
  put behind the last command while the user looks at older ones.
\<close>

section \<open>The file\<close>

record history =
  h_file :: "char list"
  nowOff :: nat
  maxOff :: nat
  fakeMaxOff :: nat

text \<open>
  \<open>seek\<close> and \<open>write\<close>, \<open>seek\<close> and \<open>read\<close>: a write may extend the file, and a read stops at its end. Writing
  beyond the end, and a length or a command that the file does not hold in full, are not defined.
\<close>

definition f_write :: "nat \<Rightarrow> char list \<Rightarrow> char list \<Rightarrow> char list outcome" where
  "f_write off bs f = (if off \<le> length f then Ret (take off f @ bs @ drop (off + length bs) f) else Undef)"

definition f_read :: "nat \<Rightarrow> nat \<Rightarrow> char list \<Rightarrow> char list outcome" where
  "f_read off n f = (if off + n \<le> length f then Ret (take n (drop off f)) else Undef)"

definition int_bytes :: "nat \<Rightarrow> char list" where
  "int_bytes n = map (word_byte (of_nat n)) [0, 1, 2, 3]"

definition read_int :: "nat \<Rightarrow> char list \<Rightarrow> nat outcome" where
  "read_int off f = obind (f_read off 4 f) (\<lambda>bs. Ret (unat (req_word bs 0)))"

section \<open>The operations\<close>

definition history_init :: "history \<Rightarrow> history" where
  "history_init h = h\<lparr>nowOff := 0, maxOff := 0, fakeMaxOff := 0\<rparr>"

definition writeEntry :: "nat \<Rightarrow> char list \<Rightarrow> char list \<Rightarrow> (nat \<times> char list) outcome" where
  "writeEntry off buf f =
     obind (strlen buf) (\<lambda>len.
     obind (f_write off (int_bytes len) f) (\<lambda>f.
     obind (f_write (off + 4) (take len buf) f) (\<lambda>f.
     obind (f_write (off + 4 + len) (int_bytes len) f) (\<lambda>f.
     obind (f_write (off + 8 + len) (int_bytes 0) f) (\<lambda>f.
     obind (f_write (off + 12 + len) (int_bytes 0) f) (\<lambda>f. Ret (len, f)))))))"

text \<open>
  The two readers return the length and the command; in the caller's buffer a zero byte follows it.  The callers' buffers
  have \<open>MAX_CMD_LEN\<close> bytes: \<open>beforeCur\<close> of the shell, and each of the \<open>MAX_HIS_NUM\<close> rows of \<open>tmpBuf\<close>.
\<close>

abbreviation (input) MAX_CMD_LEN :: nat where "MAX_CMD_LEN \<equiv> 1024"
abbreviation (input) MAX_HIS_NUM :: nat where "MAX_HIS_NUM \<equiv> 1024"

definition read_cmd :: "nat \<Rightarrow> nat \<Rightarrow> char list \<Rightarrow> (nat \<times> char list) outcome" where
  "read_cmd off len f = (if MAX_CMD_LEN \<le> len then Undef else obind (f_read off len f) (\<lambda>b. Ret (len, b)))"

definition readDownEntry :: "nat \<Rightarrow> char list \<Rightarrow> (nat \<times> char list) outcome" where
  "readDownEntry off f =
     obind (read_int off f) (\<lambda>len. read_cmd (off + 4) len f)"

definition readUpEntry :: "nat \<Rightarrow> char list \<Rightarrow> (nat \<times> char list) outcome" where
  "readUpEntry off f =
     (if off < 4 then Undef
      else obind (read_int (off - 4) f) (\<lambda>len.
        if off - 4 < len then Undef else read_cmd (off - 4 - len) len f))"

definition history_write :: "char list \<Rightarrow> history \<Rightarrow> (int \<times> history) outcome" where
  "history_write buf h =
     (case buf of
        [] \<Rightarrow> Undef
      | c # _ \<Rightarrow>
          if c = NUL then Ret (- 1, h)
          else obind (writeEntry (maxOff h) buf (h_file h)) (\<lambda>(len, f).
            let m = maxOff h + len + 8 in Ret (0, h\<lparr>h_file := f, maxOff := m, nowOff := m, fakeMaxOff := m\<rparr>)))"

text \<open>
  \<open>history_next\<close>, up for direction 1 and down for direction 0. The result is the C return value and the command that
  went to the caller's buffer, if any.
\<close>

definition history_next :: "char list \<Rightarrow> bool \<Rightarrow> history \<Rightarrow> ((int \<times> char list option) \<times> history) outcome" where
  "history_next nowBuf up h =
     (if nowOff h = 0 \<and> up \<or> maxOff h = 0 then Ret ((- 1, None), h)
      else if nowOff h = maxOff h \<and> \<not> up \<and> maxOff h = fakeMaxOff h then Ret ((0, None), h)
      else obind (if nowOff h = maxOff h \<and> up
                  then obind (writeEntry (maxOff h) nowBuf (h_file h)) (\<lambda>(len, f).
                    Ret (h\<lparr>h_file := f, fakeMaxOff := maxOff h + len + 8\<rparr>))
                  else Ret h) (\<lambda>h.
        if \<not> up then
          obind (if nowOff h < maxOff h
                 then obind (readDownEntry (nowOff h) (h_file h)) (\<lambda>(len, _). Ret (h\<lparr>nowOff := nowOff h + len + 8\<rparr>))
                 else Ret h) (\<lambda>h.
          obind (readDownEntry (nowOff h) (h_file h)) (\<lambda>(len, b). Ret ((int len, Some b), h)))
        else
          obind (readUpEntry (nowOff h) (h_file h)) (\<lambda>(len, b).
            Ret ((int len, Some b), h\<lparr>nowOff := nowOff h - (len + 8)\<rparr>))))"

text \<open>
  The loop of \<open>history_get_all\<close> reads commands from the start until one of length zero; a command takes at least
  nine bytes, so the length of the file is fuel enough.  Each read, also the last one, goes to a row of \<open>tmpBuf\<close> of its own.
\<close>

fun get_all :: "nat \<Rightarrow> nat \<Rightarrow> nat \<Rightarrow> char list \<Rightarrow> (char list list \<times> nat) outcome" where
  "get_all 0 cnt off f = Undef"
| "get_all (Suc fuel) cnt off f =
     (if MAX_HIS_NUM \<le> cnt then Undef
      else obind (readDownEntry off f) (\<lambda>(len, b).
        if len = 0 then Ret ([], off) else obind (get_all fuel (cnt + 1) (off + len + 8) f) (\<lambda>(bs, off). Ret (b # bs, off))))"

definition history_get_all :: "history \<Rightarrow> (char list list \<times> history) outcome" where
  "history_get_all h = obind (get_all (Suc (length (h_file h))) 0 0 (h_file h)) (\<lambda>(bs, off). Ret (bs, h\<lparr>nowOff := off\<rparr>))"

section \<open>Entries of the file\<close>

definition enc :: "char list \<Rightarrow> char list" where
  "enc e = int_bytes (length e) @ e @ int_bytes (length e)"

definition zeros :: "char list" where
  "zeros = int_bytes 0 @ int_bytes 0"

definition entry_ok :: "char list \<Rightarrow> bool" where
  "entry_ok e \<longleftrightarrow> length e < MAX_CMD_LEN \<and> NUL \<notin> set e"

lemma length_int_bytes [simp]: "length (int_bytes n) = 4"
  by (simp add: int_bytes_def)

lemma length_enc [simp]: "length (enc e) = length e + 8"
  by (simp add: enc_def)

lemma req_word_int_bytes: "req_word (int_bytes n) 0 = of_nat n"
  by (rule req_word_eq) (auto simp: int_bytes_def numeral_eq_Suc less_Suc_eq)

lemma f_write_app: "length pre = off \<Longrightarrow> f_write off bs (pre @ post) = Ret (pre @ bs @ drop (length bs) post)"
  by (auto simp: f_write_def)

lemma f_read_app: "length pre = off \<Longrightarrow> length bs = n \<Longrightarrow> f_read off n (pre @ bs @ post) = Ret bs"
  by (auto simp: f_read_def)

lemma read_int_app: "length pre = off \<Longrightarrow> n < 2 ^ 31 \<Longrightarrow> read_int off (pre @ int_bytes n @ post) = Ret n"
  by (simp add: read_int_def f_read_app req_word_int_bytes unat_of_small)

lemma writeEntry_app:
  assumes "length pre = off" "terminated buf"
  shows "writeEntry off buf (pre @ post) = Ret (length (cstr buf), pre @ enc (cstr buf) @ zeros @ drop (length (cstr buf) + 16) post)"
proof -
  let ?e = "cstr buf" let ?n = "length (cstr buf)" let ?l = "int_bytes (length (cstr buf))"
  have tk: "take ?n buf = ?e" by (simp add: cstr_def takeWhile_eq_take[symmetric])
  have w1: "f_write off ?l (pre @ post) = Ret ((pre @ ?l) @ drop 4 post)"
    using f_write_app[OF assms(1), of ?l post] by simp
  have w2: "f_write (off + 4) ?e ((pre @ ?l) @ drop 4 post) = Ret ((pre @ ?l @ ?e) @ drop (?n + 4) post)"
    using f_write_app[of "pre @ ?l" "off + 4" ?e "drop 4 post"] assms(1) by simp
  have w3: "f_write (off + 4 + ?n) ?l ((pre @ ?l @ ?e) @ drop (?n + 4) post) = Ret ((pre @ enc ?e) @ drop (?n + 8) post)"
    using f_write_app[of "pre @ ?l @ ?e" "off + 4 + ?n" ?l "drop (?n + 4) post"] assms(1) by (simp add: enc_def add.commute)
  have w4: "f_write (off + 8 + ?n) (int_bytes 0) ((pre @ enc ?e) @ drop (?n + 8) post) = Ret ((pre @ enc ?e @ int_bytes 0) @ drop (?n + 12) post)"
    using f_write_app[of "pre @ enc ?e" "off + 8 + ?n" "int_bytes 0" "drop (?n + 8) post"] assms(1) by (simp add: add.commute)
  have w5: "f_write (off + 12 + ?n) (int_bytes 0) ((pre @ enc ?e @ int_bytes 0) @ drop (?n + 12) post) = Ret (pre @ enc ?e @ zeros @ drop (?n + 16) post)"
    using f_write_app[of "pre @ enc ?e @ int_bytes 0" "off + 12 + ?n" "int_bytes 0" "drop (?n + 12) post"] assms(1)
    by (simp add: zeros_def add.commute)
  show ?thesis unfolding writeEntry_def strlen_eq if_P[OF assms(2)] obind.simps w1 tk w2 w3 w4 w5 ..
qed

lemma readDown_app: "length pre = off \<Longrightarrow> length e < MAX_CMD_LEN \<Longrightarrow> readDownEntry off (pre @ enc e @ post) = Ret (length e, e)"
  using read_int_app[of pre off "length e" "e @ int_bytes (length e) @ post"]
    f_read_app[of "pre @ int_bytes (length e)" "off + 4" e "length e" "int_bytes (length e) @ post"]
  by (simp add: readDownEntry_def read_cmd_def enc_def)

lemma readUp_app: "length pre + length e + 8 = off \<Longrightarrow> length e < MAX_CMD_LEN \<Longrightarrow> readUpEntry off (pre @ enc e @ post) = Ret (length e, e)"
  using read_int_app[of "pre @ int_bytes (length e) @ e" "off - 4" "length e" post]
    f_read_app[of "pre @ int_bytes (length e)" "4 + length pre" e "length e" "int_bytes (length e) @ post"]
  by (auto simp: readUpEntry_def read_cmd_def enc_def)

section \<open>The history as a list of commands\<close>

definition encs :: "char list list \<Rightarrow> char list" where
  "encs es = concat (map enc es)"

lemma encs_simps [simp]: "encs [] = []" "encs (e # es) = enc e @ encs es" "encs (es @ es') = encs es @ encs es'"
  by (simp_all add: encs_def)

text \<open>
  The commands \<open>es\<close> are stored, and the user looks at the one with index \<open>i\<close>; the index \<open>length es\<close> is the line being
  edited, and while an older command is shown, that line, \<open>cur\<close>, is stored behind the commands.
\<close>

definition hist_rep :: "char list list \<Rightarrow> char list \<Rightarrow> nat \<Rightarrow> history \<Rightarrow> bool" where
  "hist_rep es cur i h \<longleftrightarrow> i \<le> length es \<and> (\<forall>e \<in> set es. entry_ok e \<and> e \<noteq> [])
     \<and> (\<exists>tail. h_file h = encs es @ tail \<and> (i < length es \<longrightarrow> length cur < MAX_CMD_LEN \<and> (\<exists>rest. tail = enc cur @ zeros @ rest)))
     \<and> nowOff h = length (encs (take i es)) \<and> maxOff h = length (encs es)"

lemma hist_repD:
  assumes "hist_rep es cur i h"
  shows "i \<le> length es" "\<And>e. e \<in> set es \<Longrightarrow> entry_ok e" "nowOff h = length (encs (take i es))" "maxOff h = length (encs es)"
  using assms by (auto simp: hist_rep_def)

lemma encs_less: "i < length es \<Longrightarrow> length (encs (take i es)) < length (encs es)"
proof -
  assume "i < length es"
  then have "es = take i es @ es ! i # drop (Suc i) es" by (rule id_take_nth_drop)
  then have "length (encs es) = length (encs (take i es @ es ! i # drop (Suc i) es))" by simp
  then show ?thesis by simp
qed

lemma get_all_entries:
  assumes "\<forall>e \<in> set es. entry_ok e \<and> e \<noteq> []" "length es < fuel" "length pre = off"
  shows "get_all fuel cnt off (pre @ encs es @ zeros @ rest) = (if cnt + length es < MAX_HIS_NUM then Ret (es, off + length (encs es)) else Undef)"
  using assms
proof (induction es arbitrary: fuel pre off cnt)
  case Nil
  then obtain n where "fuel = Suc n" by (cases fuel) auto
  moreover have "readDownEntry off (pre @ zeros @ rest) = Ret (0, [])"
    using readDown_app[OF Nil(3), of "[]" rest] by (simp add: enc_def zeros_def)
  ultimately show ?case by simp
next
  case (Cons e es)
  then obtain n where n: "fuel = Suc n" by (cases fuel) auto
  have e: "e \<noteq> []" "length e < MAX_CMD_LEN" using Cons.prems(1) by (auto simp: entry_ok_def)
  have rd: "readDownEntry off (pre @ encs (e # es) @ zeros @ rest) = Ret (length e, e)"
    using readDown_app[OF Cons.prems(3) e(2), of "encs es @ zeros @ rest"] by simp
  have "get_all n (cnt + 1) (off + length e + 8) ((pre @ enc e) @ encs es @ zeros @ rest) =
      (if cnt + 1 + length es < MAX_HIS_NUM then Ret (es, off + length e + 8 + length (encs es)) else Undef)"
    by (rule Cons.IH) (use Cons.prems n in auto)
  then show ?case unfolding n get_all.simps rd by (auto simp: e ac_simps)
qed

text \<open>Reading all commands back works for up to 1023 of them; with more, \<open>tmpBuf\<close> is overrun.\<close>

definition reads_back :: "char list list \<Rightarrow> history \<Rightarrow> bool" where
  "reads_back es h \<longleftrightarrow> (if length es < MAX_HIS_NUM then returns (\<lambda>(bs, _). bs = es) (history_get_all h) else history_get_all h = Undef)"

lemma history_write_rep:
  assumes "hist_rep es cur i h" "entry_ok e" "e \<noteq> []"
  shows "returns (\<lambda>(r, h'). r = 0 \<and> hist_rep (es @ [e]) [] (length es + 1) h' \<and> reads_back (es @ [e]) h')
    (history_write (e @ NUL # junk) h)"
proof -
  obtain tail where f: "h_file h = encs es @ tail" using assms(1) by (auto simp: hist_rep_def)
  obtain c cs where c: "e = c # cs" "c \<noteq> NUL" using assms(2,3) by (cases e) (auto simp: entry_ok_def)
  have cs: "cstr (e @ NUL # junk) = e" using assms(2) by (simp add: entry_ok_def)
  let ?post = "drop (length e + 16) tail"
  have w: "writeEntry (maxOff h) (e @ NUL # junk) (h_file h) = Ret (length e, encs es @ enc e @ zeros @ ?post)"
    unfolding f using writeEntry_app[of "encs es" "maxOff h" "e @ NUL # junk" tail] hist_repD(4)[OF assms(1)] cs by simp
  let ?m = "maxOff h + length e + 8"
  let ?h = "h\<lparr>h_file := encs es @ enc e @ zeros @ ?post, maxOff := ?m, nowOff := ?m, fakeMaxOff := ?m\<rparr>"
  have run: "history_write (e @ NUL # junk) h = Ret (0, ?h)" using w c by (simp add: history_write_def Let_def)
  have all: "\<forall>x \<in> set (es @ [e]). entry_ok x \<and> x \<noteq> []" using assms by (auto simp: hist_rep_def)
  have rep: "hist_rep (es @ [e]) [] (length es + 1) ?h"
    using assms(2,3) hist_repD[OF assms(1)] all by (auto simp: hist_rep_def)
  have n: "length (encs xs) \<ge> length xs" for xs by (induction xs) auto
  have "get_all (Suc (length (h_file ?h))) 0 0 ([] @ encs (es @ [e]) @ zeros @ ?post) =
      (if 0 + length (es @ [e]) < MAX_HIS_NUM then Ret (es @ [e], 0 + length (encs (es @ [e]))) else Undef)"
    by (rule get_all_entries[OF all]) (use n[of es] in auto)
  then have "reads_back (es @ [e]) ?h" by (simp add: history_get_all_def reads_back_def)
  then show ?thesis using run rep by simp
qed

lemma split_at: "i < length es \<Longrightarrow> encs es = encs (take i es) @ enc (es ! i) @ encs (drop (Suc i) es)"
  using id_take_nth_drop[of i es] encs_simps(3)[of "take i es" "es ! i # drop (Suc i) es"] by simp

lemma encs_take_Suc: "i < length es \<Longrightarrow> length (encs (take (Suc i) es)) = length (encs (take i es)) + length (es ! i) + 8"
  by (simp add: take_Suc_conv_app_nth)

lemma history_up_rep:
  assumes "hist_rep es cur i h" "0 < i" "terminated b" "length (cstr b) < MAX_CMD_LEN"
  shows "returns (\<lambda>((r, x), h'). r = int (length (es ! (i - 1))) \<and> x = Some (es ! (i - 1))
    \<and> hist_rep es (if i = length es then cstr b else cur) (i - 1) h') (history_next b True h)"
proof -
  note D = hist_repD[OF assms(1)]
  let ?y = "es ! (i - 1)" and ?c = "if i = length es then cstr b else cur"
  have i: "i - 1 < length es" using D(1) assms(2) by linarith
  have ne: "nowOff h \<noteq> 0" "maxOff h \<noteq> 0"
    using encs_take_Suc[OF i] assms(2) encs_less[OF i] D(3,4) by auto
  have y: "length ?y < MAX_CMD_LEN" using D(2)[OF nth_mem[OF i]] by (simp add: entry_ok_def)
  obtain tail where f: "h_file h = encs es @ tail" "i < length es \<Longrightarrow> length cur < MAX_CMD_LEN \<and> (\<exists>rest. tail = enc cur @ zeros @ rest)"
    using assms(1) by (auto simp: hist_rep_def)
  define g where "g = (if i = length es then h\<lparr>h_file := encs es @ enc (cstr b) @ zeros @ drop (length (cstr b) + 16) tail, fakeMaxOff := maxOff h + length (cstr b) + 8\<rparr> else h)"
  have eqv: "nowOff h = maxOff h \<longleftrightarrow> i = length es" using D(1,3,4) encs_less[of i es] by (cases "i < length es") auto
  have w: "writeEntry (maxOff h) b (h_file h) = Ret (length (cstr b), encs es @ enc (cstr b) @ zeros @ drop (length (cstr b) + 16) tail)"
    unfolding f(1) by (rule writeEntry_app) (use D(4) assms(3) in simp_all)
  have st: "(if nowOff h = maxOff h \<and> True then obind (writeEntry (maxOff h) b (h_file h)) (\<lambda>(len, f).
      Ret (h\<lparr>h_file := f, fakeMaxOff := maxOff h + len + 8\<rparr>)) else Ret h) = Ret g"
    unfolding w eqv g_def by simp
  have g: "\<exists>tail. h_file g = encs es @ tail \<and> length ?c < MAX_CMD_LEN \<and> (\<exists>rest. tail = enc ?c @ zeros @ rest)" "nowOff g = nowOff h" "maxOff g = maxOff h"
    using f D(1) assms(4) by (auto simp: g_def)
  then obtain tail' where f': "h_file g = encs es @ tail'" by blast
  have rd: "readUpEntry (nowOff g) (h_file g) = Ret (length ?y, ?y)"
  proof -
    have "nowOff g = length (encs (take (i - 1) es)) + length ?y + 8" using encs_take_Suc[OF i] assms(2) D(3) g(2) by simp
    then show ?thesis unfolding f' split_at[OF i] append_assoc using readUp_app[of "encs (take (i - 1) es)" ?y _ "encs (drop (Suc (i - 1)) es) @ tail'"] y by metis
  qed
  have run: "history_next b True h = Ret ((int (length ?y), Some ?y), g\<lparr>nowOff := nowOff g - (length ?y + 8)\<rparr>)"
    unfolding history_next_def st using ne by (simp add: rd)
  have "hist_rep es ?c (i - 1) (g\<lparr>nowOff := nowOff g - (length ?y + 8)\<rparr>)"
    using assms(1) g encs_take_Suc[OF i] assms(2) i unfolding hist_rep_def by auto
  then show ?thesis unfolding run by simp
qed

lemma history_down_rep:
  assumes "hist_rep es cur i h" "i < length es"
  shows "returns (\<lambda>((r, x), h'). r = int (length ((es @ [cur]) ! (i + 1))) \<and> x = Some ((es @ [cur]) ! (i + 1))
    \<and> hist_rep es cur (i + 1) h') (history_next b False h)"
proof -
  note D = hist_repD[OF assms(1)]
  let ?y = "(es @ [cur]) ! (i + 1)"
  obtain rest where f: "h_file h = encs es @ enc cur @ zeros @ rest" "length cur < MAX_CMD_LEN"
    using assms by (auto simp: hist_rep_def)
  have lt: "nowOff h < maxOff h" using encs_less[OF assms(2)] D(3,4) by simp
  have r1: "readDownEntry (nowOff h) (h_file h) = Ret (length (es ! i), es ! i)"
    unfolding f(1) split_at[OF assms(2)] append_assoc
    by (rule readDown_app) (use D(3) D(2)[OF nth_mem[OF assms(2)]] in \<open>simp_all add: entry_ok_def\<close>)
  let ?o = "nowOff h + length (es ! i) + 8"
  have o: "?o = length (encs (take (i + 1) es))" using encs_take_Suc[OF assms(2)] D(3) by simp
  have r2: "readDownEntry ?o (h_file h) = Ret (length ?y, ?y)"
  proof (cases "i + 1 = length es")
    case True
    then have o': "?o = length (encs es)" using o by simp
    show ?thesis unfolding f(1) o' using readDown_app[of "encs es" _ cur "zeros @ rest"] f(2) True by (simp add: nth_append)
  next
    case False
    then have i: "i + 1 < length es" using assms(2) by simp
    have "readDownEntry (length (encs (take (i + 1) es))) (encs (take (i + 1) es) @ enc (es ! (i + 1)) @ encs (drop (Suc (i + 1)) es) @ enc cur @ zeros @ rest)
        = Ret (length (es ! (i + 1)), es ! (i + 1))"
      by (rule readDown_app) (use D(2)[OF nth_mem[OF i]] in \<open>simp_all add: entry_ok_def\<close>)
    then show ?thesis unfolding o f(1) split_at[OF i] append_assoc nth_append using i by simp
  qed
  have run: "history_next b False h = Ret ((int (length ?y), Some ?y), h\<lparr>nowOff := ?o\<rparr>)"
    unfolding history_next_def using lt r1 r2 by simp
  have "hist_rep es cur (i + 1) (h\<lparr>nowOff := ?o\<rparr>)"
    using assms o unfolding hist_rep_def by auto
  then show ?thesis unfolding run by simp
qed

text \<open>
  C34. The history file implements a list of commands of at most 1023 characters with a place in it. Entering a command
  appends it, and \<open>history_get_all\<close> then reads back all commands in order, as long as there are fewer than 1024;
  with 1024 or more it runs past its array, which is undefined. Going up from the line being edited or from a command
  shows the command before it, and going down again shows the next one, ending with the line that was being edited when
  the user first went up. At the oldest command going up returns -1 and changes nothing.
\<close>

theorem history_refines_list:
  assumes "hist_rep es cur i h"
  shows "(entry_ok e \<and> e \<noteq> [] \<longrightarrow>
      returns (\<lambda>(r, h'). r = 0 \<and> hist_rep (es @ [e]) [] (length es + 1) h' \<and> reads_back (es @ [e]) h')
        (history_write (e @ NUL # junk) h))
    \<and> (0 < i \<and> terminated b \<and> length (cstr b) < MAX_CMD_LEN \<longrightarrow>
      returns (\<lambda>((r, x), h'). r = int (length (es ! (i - 1))) \<and> x = Some (es ! (i - 1))
        \<and> hist_rep es (if i = length es then cstr b else cur) (i - 1) h') (history_next b True h))
    \<and> (i < length es \<longrightarrow>
      returns (\<lambda>((r, x), h'). r = int (length ((es @ [cur]) ! (i + 1))) \<and> x = Some ((es @ [cur]) ! (i + 1))
        \<and> hist_rep es cur (i + 1) h') (history_next b False h))
    \<and> (i = 0 \<longrightarrow> history_next b True h = Ret ((- 1, None), h))"
proof -
  have "i = 0 \<longrightarrow> history_next b True h = Ret ((- 1, None), h)"
    using hist_repD(3)[OF assms] by (simp add: history_next_def)
  then show ?thesis using history_write_rep[OF assms] history_up_rep[OF assms] history_down_rep[OF assms] by blast
qed

definition demo_history :: history where
  "demo_history = \<lparr>h_file = enc ''ls'' @ enc ''cat a'' @ zeros, nowOff = 23, maxOff = 23, fakeMaxOff = 23\<rparr>"

theorem history_refines_list_witness:
  "hist_rep [''ls'', ''cat a''] [] 2 demo_history
    \<and> returns (\<lambda>((r, x), h'). r = 5 \<and> x = Some ''cat a'' \<and> hist_rep [''ls'', ''cat a''] ''ech'' 1 h') (history_next (''ech'' @ [NUL]) True demo_history)"
proof -
  have h: "hist_rep [''ls'', ''cat a''] [] 2 demo_history" by (simp add: hist_rep_def demo_history_def entry_ok_def)
  have "returns (\<lambda>((r, x), h'). r = int (length ''cat a'') \<and> x = Some ''cat a''
        \<and> hist_rep [''ls'', ''cat a''] ''ech'' 1 h') (history_next (''ech'' @ [NUL]) True demo_history)"
    using history_refines_list[OF h, of "''x''" "[]" "''ech'' @ [NUL]"] by simp
  then show ?thesis using h by simp
qed

end
