(* ===== verification/Mos_Line.thy ===== *)
theory Mos_Line
  imports Mos_History
begin

text \<open>
  The line editor of the shell, the \<open>readline\<close> part of \<open>user/sh.c\<close>: the text before the cursor and, reversed, the text
  after it are kept in two arrays, and \<open>updateCons\<close> brings the terminal up to date. The input is the sequence of
  characters still to be read, its end is the end of the file; \<open>cons\<close> is everything printed. The arrays
  \<open>back\<close> and \<open>space\<close> are as \<open>initBS\<close> leaves them. \<open>ls\<close> stands for reading a directory: the names in it, each an array
  of 128 characters, or \<open>None\<close> when it cannot be opened.
\<close>

section \<open>State\<close>

record line =
  inputLen :: nat
  cursor :: nat
  beforeLen :: nat
  afterLen :: nat
  beforeCur :: "char list"
  afterCur :: "char list"
  tabFlush :: bool
  completions :: "nat \<Rightarrow> char list"
  compNum :: nat
  tabPoint :: nat
  beforeTab :: nat
  stdin :: "char list"
  cons :: "char list"
  hist :: history

abbreviation (input) ESC :: char where "ESC \<equiv> CHR 0x1B"
abbreviation (input) BS :: char where "BS \<equiv> CHR 0x08"
abbreviation (input) LF :: char where "LF \<equiv> CHR 0x0A"

datatype dir = UP | DOWN | RIGHT | LEFT | DEL

definition put :: "nat \<Rightarrow> char \<Rightarrow> char list \<Rightarrow> char list outcome" where
  "put i c a = (if i < length a then Ret (a[i := c]) else Undef)"

definition emit :: "char list \<Rightarrow> line \<Rightarrow> line" where
  "emit t s = s\<lparr>cons := cons s @ t\<rparr>"

text \<open>\<open>printf("%s", p)\<close> of an array from an index on.\<close>

definition emit_str :: "char list \<Rightarrow> line \<Rightarrow> line outcome" where
  "emit_str p s = (if terminated p then Ret (emit (cstr p) s) else Undef)"

definition read_char :: "line \<Rightarrow> char option \<times> line" where
  "read_char s = (case stdin s of [] \<Rightarrow> (None, s) | c # cs \<Rightarrow> (Some c, s\<lparr>stdin := cs\<rparr>))"

section \<open>Showing the line\<close>

definition loadBuf :: "char list \<Rightarrow> line \<Rightarrow> char list outcome" where
  "loadBuf buf s =
     (let t = take (beforeLen s) (beforeCur s) @ rev (take (afterLen s) (afterCur s)) in
      if beforeLen s \<le> length (beforeCur s) \<and> afterLen s \<le> length (afterCur s) \<and> length t < length buf
      then Ret (t @ NUL # drop (Suc (length t)) buf) else Undef)"

definition printBack :: "int \<Rightarrow> line \<Rightarrow> line outcome" where
  "printBack num s = (if num \<le> 0 then Ret s else if 1024 \<le> num then Undef else Ret (emit (replicate (nat num) BS) s))"

definition printSpace :: "int \<Rightarrow> line \<Rightarrow> line outcome" where
  "printSpace num s = (if num \<le> 0 then Ret s else if 1024 \<le> num then Undef else Ret (emit (replicate (nat num) CHR '' '') s))"

definition emit_after :: "line \<Rightarrow> line outcome" where
  "emit_after s = (if afterLen s \<le> length (afterCur s) then Ret (emit (rev (take (afterLen s) (afterCur s))) s) else Undef)"

definition updateCons :: "bool \<Rightarrow> line \<Rightarrow> line outcome" where
  "updateCons flushAll s =
     (let distance = int (inputLen s) - int (beforeLen s) - int (afterLen s) in
      if flushAll then
        obind (printBack (int (cursor s)) s) (\<lambda>s.
        obind (put (beforeLen s) NUL (beforeCur s)) (\<lambda>a.
        obind (emit_str a (s\<lparr>beforeCur := a\<rparr>)) (\<lambda>s.
        obind (emit_after s) (\<lambda>s.
        let distance = (if distance < 0 then 0 else distance) in
        obind (printSpace distance s) (\<lambda>s.
        obind (printBack (distance + int (afterLen s)) s) (\<lambda>s.
        Ret (s\<lparr>inputLen := beforeLen s + afterLen s, cursor := beforeLen s\<rparr>)))))))
      else if distance = 0 then
        obind (put (beforeLen s) NUL (beforeCur s)) (\<lambda>a.
        obind (put (afterLen s) NUL (afterCur s)) (\<lambda>b.
        Ret (s\<lparr>beforeCur := a, afterCur := b, cursor := beforeLen s\<rparr>)))
      else
        obind (if beforeLen s < cursor s then printBack (int (cursor s) - int (beforeLen s)) s
               else obind (put (beforeLen s) NUL (beforeCur s)) (\<lambda>a. emit_str (drop (cursor s) a) (s\<lparr>beforeCur := a\<rparr>))) (\<lambda>s.
        let s = s\<lparr>cursor := beforeLen s\<rparr> in
        obind (emit_after s) (\<lambda>s.
        let distance = (if distance < 0 then 0 else distance) in
        obind (printSpace distance s) (\<lambda>s.
        obind (printBack (distance + int (afterLen s)) s) (\<lambda>s.
        Ret (s\<lparr>inputLen := beforeLen s + afterLen s\<rparr>))))))"

section \<open>Editing\<close>

text \<open>\<open>del\<close> is the operation \<open>DEL\<close>, the key that removes the character after the cursor.\<close>

definition backOrDelete :: "bool \<Rightarrow> line \<Rightarrow> line outcome" where
  "backOrDelete del s =
     (if inputLen s = 0 then Ret s
      else if del then
        (if afterLen s = 0 then Ret s else updateCons False (s\<lparr>afterLen := afterLen s - 1\<rparr>))
      else
        (if beforeLen s = 0 then Ret s else updateCons False (s\<lparr>beforeLen := beforeLen s - 1\<rparr>)))"

definition read_error :: "bool \<Rightarrow> line \<Rightarrow> line" where
  "read_error got s = emit ([LF, ESC] @ ''[31;1mERROR'' @ [ESC] @ ''[0m:read error code: '' @ (if got then ''1'' else ''0'') @ [LF]) s"

definition readDir :: "line \<Rightarrow> dir option \<times> line" where
  "readDir s =
     (case read_char s of (c1, s) \<Rightarrow>
      if c1 \<noteq> Some CHR ''['' then (None, read_error (c1 \<noteq> None) s)
      else case read_char s of (c2, s) \<Rightarrow>
        if c2 = Some CHR ''A'' then (Some UP, s)
        else if c2 = Some CHR ''B'' then (Some DOWN, s)
        else if c2 = Some CHR ''C'' then (Some RIGHT, s)
        else if c2 = Some CHR ''D'' then (Some LEFT, s)
        else if c2 = Some CHR ''3'' then
          (case read_char s of (c3, s) \<Rightarrow>
           if c3 = Some CHR ''~'' then (Some DEL, s) else (None, read_error (c3 \<noteq> None) s))
        else (None, read_error (c2 \<noteq> None) s))"

text \<open>What \<open>history_next\<close> leaves in \<open>beforeCur\<close>: the command and a zero byte.\<close>

definition take_command :: "int \<times> char list option \<Rightarrow> line \<Rightarrow> line outcome" where
  "take_command r s =
     obind (case snd r of
              None \<Rightarrow> Ret (beforeCur s)
            | Some b \<Rightarrow> if length b < length (beforeCur s) then Ret (b @ NUL # drop (Suc (length b)) (beforeCur s)) else Undef) (\<lambda>a.
     let s = s\<lparr>beforeCur := a\<rparr> in
     updateCons True (if 0 \<le> fst r then s\<lparr>beforeLen := nat (fst r), afterLen := 0\<rparr> else s))"

definition moveCursor :: "dir \<Rightarrow> line \<Rightarrow> line outcome" where
  "moveCursor d s =
     (if d = UP then
        obind (loadBuf (replicate 1024 NUL) s) (\<lambda>nowBuf.
        obind (history_next nowBuf True (hist s)) (\<lambda>(r, h). take_command r (s\<lparr>hist := h\<rparr>)))
      else if d = DOWN then
        obind (history_next [] False (hist s)) (\<lambda>(r, h). take_command r (s\<lparr>hist := h\<rparr>))
      else if beforeLen s = inputLen s \<and> d = RIGHT then Ret s
      else if beforeLen s = 0 \<and> d = LEFT then Ret s
      else obind (if d = RIGHT then
                    if afterLen s = 0 \<or> length (afterCur s) < afterLen s then Undef
                    else obind (put (beforeLen s) (afterCur s ! (afterLen s - 1)) (beforeCur s)) (\<lambda>a.
                      Ret (emit [ESC, CHR ''['', CHR ''C''] s\<lparr>beforeCur := a, beforeLen := beforeLen s + 1, afterLen := afterLen s - 1\<rparr>))
                  else if d = LEFT then
                    if length (beforeCur s) < beforeLen s then Undef
                    else obind (put (afterLen s) (beforeCur s ! (beforeLen s - 1)) (afterCur s)) (\<lambda>b.
                      Ret (emit [ESC, CHR ''['', CHR ''D''] s\<lparr>afterCur := b, afterLen := afterLen s + 1, beforeLen := beforeLen s - 1\<rparr>))
                  else Ret s) (updateCons False))"

section \<open>Completion\<close>

definition strRevCpy :: "char list \<Rightarrow> char list" where
  "strRevCpy src = rev (cstr src)"

text \<open>
  The loop of \<open>getTbCom\<close> over the characters before the cursor, from the cursor back: the word to be completed and,
  when it has a slash, the directory part. \<open>tmpDir\<close> collects characters in reading order.
\<close>

fun tb_scan :: "char list \<Rightarrow> bool \<Rightarrow> char list \<Rightarrow> char list \<Rightarrow> bool \<times> char list \<times> char list" where
  "tb_scan [] hasTobe tmpDir tobeCom = (hasTobe, tmpDir, tobeCom)"
| "tb_scan (c # cs) hasTobe tmpDir tobeCom =
     (if c = CHR '' '' then (hasTobe, tmpDir, tobeCom)
      else if c = CHR ''/'' \<and> \<not> hasTobe then tb_scan cs True ''/'' (strRevCpy (tmpDir @ [NUL]))
      else tb_scan cs hasTobe (tmpDir @ [c]) tobeCom)"

definition getTbCom :: "line \<Rightarrow> char list \<times> char list" where
  "getTbCom s =
     (case tb_scan (rev (take (beforeLen s) (beforeCur s))) False [] [] of (hasTobe, tmpDir, tobeCom) \<Rightarrow>
      if hasTobe then (strRevCpy (tmpDir @ [NUL]), tobeCom) else ([], strRevCpy (tmpDir @ [NUL])))"

fun match_names :: "char list list \<Rightarrow> char list \<Rightarrow> line \<Rightarrow> line outcome" where
  "match_names [] tobeCom s = Ret s"
| "match_names (f # fs) tobeCom s =
     (case f of
        [] \<Rightarrow> Undef
      | c # _ \<Rightarrow>
          if c = NUL then match_names fs tobeCom s
          else if 128 \<le> compNum s then Undef
          else obind (strContain f (tobeCom @ [NUL]) (completions s (compNum s))) (\<lambda>(r, w).
            let s = s\<lparr>completions := (completions s)(compNum s := w)\<rparr> in
            match_names fs tobeCom (if r = 0 then s\<lparr>compNum := compNum s + 1\<rparr> else s)))"

definition tabFlushDir :: "(char list \<Rightarrow> char list list option) \<Rightarrow> char list \<Rightarrow> line \<Rightarrow> line outcome" where
  "tabFlushDir ls cwd s =
     (case getTbCom s of (comPath, tobeCom) \<Rightarrow>
      if tobeCom = [] then Ret s
      else case ls (if comPath = [] then cwd else comPath) of
          None \<Rightarrow> Ret s
        | Some names \<Rightarrow> match_names names tobeCom (s\<lparr>compNum := 0\<rparr>))"

text \<open>The rest of the word after the cursor is dropped: the loop over \<open>afterCur\<close> from its end.\<close>

fun drop_word :: "nat \<Rightarrow> char list \<Rightarrow> nat \<times> char list" where
  "drop_word 0 a = (0, a)"
| "drop_word (Suc n) a = (if a ! n \<noteq> CHR '' '' \<and> a ! n \<noteq> NUL then drop_word n (a[n := NUL]) else (Suc n, a))"

definition tabComplete :: "line \<Rightarrow> line outcome" where
  "tabComplete s =
     (if compNum s = 0 then Ret s
      else if length (afterCur s) < afterLen s then Undef
      else
        let s = (if compNum s \<le> tabPoint s then s\<lparr>tabPoint := 0\<rparr> else s);
            (n, b) = drop_word (afterLen s) (afterCur s) in
        obind (put (beforeTab s) NUL (beforeCur s)) (\<lambda>a.
        obind (updateCons False (s\<lparr>afterLen := n, afterCur := b, beforeCur := a, beforeLen := beforeTab s\<rparr>)) (\<lambda>s.
        obind (strcat (beforeCur s) (completions s (tabPoint s))) (\<lambda>a.
        obind (strlen a) (\<lambda>m.
        updateCons False (s\<lparr>beforeCur := a, beforeLen := m, tabPoint := tabPoint s + 1\<rparr>))))))"

definition dealTab :: "(char list \<Rightarrow> char list list option) \<Rightarrow> char list \<Rightarrow> line \<Rightarrow> line outcome" where
  "dealTab ls cwd s =
     obind (if tabFlush s
            then obind (tabFlushDir ls cwd (s\<lparr>compNum := 0\<rparr>)) (\<lambda>s. Ret (s\<lparr>tabFlush := False, beforeTab := beforeLen s\<rparr>))
            else Ret s) tabComplete"

section \<open>Reading a line\<close>

datatype signal = Go | Stop | Enter "char list"

text \<open>
  One round of the loop of \<open>readline\<close> after the character \<open>inc\<close> has been read. The last test of the code,
  \<open>0 <= inc <= 31\<close>, holds for every character, so what is not visible is shown with a caret.
\<close>

definition readline_key :: "(char list \<Rightarrow> char list list option) \<Rightarrow> char list \<Rightarrow> char list \<Rightarrow> char \<Rightarrow> line \<Rightarrow> (signal \<times> line) outcome" where
  "readline_key ls cwd buf inc s0 =
     (let s = (if inc \<noteq> CHR 0x09 then s0\<lparr>tabFlush := True\<rparr> else s0);
          go = (\<lambda>m. obind m (\<lambda>s. obind (updateCons False s) (\<lambda>s. Ret (Go, s)))) in
      if inc = ESC then
        (case readDir s of
           (None, s) \<Rightarrow> Ret (Stop, s)
         | (Some d, s) \<Rightarrow> if d = DEL then go (backOrDelete True s) else go (moveCursor d s))
      else if inc = CHR 0x0D \<or> inc = LF then
        let s = s\<lparr>cursor := 0, inputLen := 0\<rparr> in
        obind (loadBuf buf s) (\<lambda>buf.
        obind (history_write buf (hist s)) (\<lambda>(_, h).
        Ret (Enter buf, emit [LF] (s\<lparr>hist := h\<rparr>))))
      else if inc = BS \<or> inc = CHR 0x7F then go (backOrDelete False s)
      else if inc = CHR 0x09 then go (dealTab ls cwd s)
      else if is_visable inc then
        go (obind (put (beforeLen s) inc (beforeCur s)) (\<lambda>a. Ret (s\<lparr>beforeCur := a, beforeLen := beforeLen s + 1\<rparr>)))
      else go (Ret (emit [CHR ''^'', char_of ((of_char inc + 0x40) mod 256 :: nat)] s)))"

fun skip_line :: "char list \<Rightarrow> char list" where
  "skip_line [] = []"
| "skip_line (c # cs) = (if c = CHR 0x0D \<or> c = LF then cs else skip_line cs)"

definition readline_stop :: "nat \<Rightarrow> char list \<Rightarrow> line \<Rightarrow> (char list \<times> line) outcome" where
  "readline_stop n buf s =
     (let s = (if inputLen s = n then emit ([LF, ESC] @ ''[31;1mERROR'' @ [ESC] @ ''[0m:line too long'' @ [LF]) s else s);
          s = emit ([LF] @ ''Plase input Enter to continue'' @ [LF]) s
      in obind (put 0 NUL buf) (\<lambda>buf. Ret (buf, s\<lparr>stdin := skip_line (stdin s)\<rparr>)))"

text \<open>Every round reads at least one character, so one more round than there are characters is fuel enough.\<close>

fun readline_loop :: "nat \<Rightarrow> (char list \<Rightarrow> char list list option) \<Rightarrow> char list \<Rightarrow> nat \<Rightarrow> char list \<Rightarrow> line \<Rightarrow> (char list \<times> line) outcome" where
  "readline_loop 0 ls cwd n buf s = Undef"
| "readline_loop (Suc fuel) ls cwd n buf s =
     (if n \<le> inputLen s then readline_stop n buf s
      else case read_char s of
          (None, s) \<Rightarrow> readline_stop n buf s
        | (Some inc, s) \<Rightarrow>
            obind (readline_key ls cwd buf inc s) (\<lambda>(g, s).
              case g of
                Go \<Rightarrow> readline_loop fuel ls cwd n buf s
              | Stop \<Rightarrow> readline_stop n buf s
              | Enter b \<Rightarrow> Ret (b, s)))"

definition readline :: "(char list \<Rightarrow> char list list option) \<Rightarrow> char list \<Rightarrow> nat \<Rightarrow> char list \<Rightarrow> line \<Rightarrow> (char list \<times> line) outcome" where
  "readline ls cwd n buf s =
     readline_loop (Suc (length (stdin s))) ls cwd n buf (s\<lparr>beforeLen := 0, afterLen := 0, inputLen := 0\<rparr>)"

end
