(* ===== verification/Mos_LineProps.thy ===== *)
theory Mos_LineProps
  imports Mos_Line
begin

text \<open>
  What the line editor promises: a terminal that executes the characters printed shows the line being edited with the
  cursor in its place, and \<open>readline\<close> returns the line that the keys typed make.
\<close>

section \<open>A terminal\<close>

datatype mode = Normal | Esc | Csi

type_synonym term_state = "mode \<times> char list \<times> nat"

text \<open>Writing a character over what is there; the column may be at most one past the end of the line.\<close>

definition over :: "nat \<Rightarrow> char list \<Rightarrow> char list \<Rightarrow> char list" where
  "over p w cells = take p cells @ w @ drop (p + length w) cells"

fun term_step :: "term_state \<Rightarrow> char \<Rightarrow> term_state" where
  "term_step (Normal, cells, col) c =
     (if c = ESC then (Esc, cells, col)
      else if c = BS then (Normal, cells, col - 1)
      else if c = LF then (Normal, [], 0)
      else (Normal, over col [c] cells, col + 1))"
| "term_step (Esc, cells, col) c = (if c = CHR ''['' then Csi else Normal, cells, col)"
| "term_step (Csi, cells, col) c =
     (Normal, cells, if c = CHR ''C'' then col + 1 else if c = CHR ''D'' then col - 1 else col)"

definition term_run :: "char list \<Rightarrow> term_state \<Rightarrow> term_state" where
  "term_run out t = foldl term_step t out"

abbreviation plain :: "char list \<Rightarrow> bool" where
  "plain w \<equiv> (\<forall>c \<in> set w. is_visable c)"

lemma term_run_append: "term_run (a @ b) t = term_run b (term_run a t)"
  by (simp add: term_run_def)

lemma visable_not_control: "is_visable c \<Longrightarrow> c \<noteq> ESC \<and> c \<noteq> BS \<and> c \<noteq> LF \<and> c \<noteq> NUL \<and> c \<noteq> CHR 0x0D \<and> c \<noteq> CHR 0x09 \<and> c \<noteq> CHR 0x7F"
  by (auto simp: is_visable_def)

lemma over_over: "p \<le> length cells \<Longrightarrow> over (p + length u) w (over p u cells) = over p (u @ w) cells"
  by (simp add: over_def ac_simps)

lemma length_over: "p \<le> length cells \<Longrightarrow> p + length w \<le> length (over p w cells)"
  by (simp add: over_def)

lemma term_plain:
  "plain w \<Longrightarrow> p \<le> length cells \<Longrightarrow> term_run w (Normal, cells, p) = (Normal, over p w cells, p + length w)"
proof (induction w arbitrary: p cells)
  case (Cons c w)
  have c: "term_step (Normal, cells, p) c = (Normal, over p [c] cells, p + 1)" using Cons.prems(1) visable_not_control[of c] by auto
  have l: "p + 1 \<le> length (over p [c] cells)" using length_over[OF Cons.prems(2), of "[c]"] by simp
  have "term_run (c # w) (Normal, cells, p) = term_run w (Normal, over p [c] cells, p + 1)"
    unfolding term_run_def foldl_Cons c ..
  also have "\<dots> = (Normal, over (p + 1) w (over p [c] cells), p + 1 + length w)" by (rule Cons.IH) (use Cons.prems(1) l in simp_all)
  also have "over (p + 1) w (over p [c] cells) = over p (c # w) cells" using over_over[OF Cons.prems(2), of "[c]" w] by simp
  finally show ?case by simp
qed (simp add: term_run_def over_def)

lemma term_back: "term_run (replicate n BS) (Normal, cells, p) = (Normal, cells, p - n)"
  by (induction n arbitrary: p) (simp_all add: term_run_def)

lemma plain_space: "plain (replicate n CHR '' '')"
  by (simp add: is_visable_def)

section \<open>The line in the arrays and on the terminal\<close>

definition stored :: "char list \<Rightarrow> char list \<Rightarrow> line \<Rightarrow> bool" where
  "stored xs ys s \<longleftrightarrow> length (beforeCur s) = 1024 \<and> length (afterCur s) = 1024 \<and> beforeLen s = length xs \<and> afterLen s = length ys
     \<and> take (length xs) (beforeCur s) = xs \<and> take (length ys) (afterCur s) = rev ys \<and> plain xs \<and> plain ys
     \<and> length xs + length ys \<le> 1022"

definition painted :: "char list \<Rightarrow> char list \<Rightarrow> nat \<Rightarrow> line \<Rightarrow> bool" where
  "painted p txt col s \<longleftrightarrow> (\<exists>out k. cons s = p @ out \<and> term_run out (Normal, [], 0) = (Normal, txt @ replicate k CHR '' '', col))"

definition line_ok :: "char list \<Rightarrow> char list \<Rightarrow> char list \<Rightarrow> line \<Rightarrow> bool" where
  "line_ok p xs ys s \<longleftrightarrow> stored xs ys s \<and> inputLen s = length xs + length ys \<and> cursor s = length xs \<and> painted p (xs @ ys) (length xs) s"

lemma painted_emit:
  assumes "painted p txt col s" "col \<le> length txt"
    and "\<And>k. \<exists>j. term_run out (Normal, txt @ replicate k CHR '' '', col) = (Normal, txt' @ replicate j CHR '' '', col')"
  shows "painted p txt' col' (emit out s)"
proof -
  obtain o0 k where o0: "cons s = p @ o0" "term_run o0 (Normal, [], 0) = (Normal, txt @ replicate k CHR '' '', col)"
    using assms(1) by (auto simp: painted_def)
  obtain j where "term_run out (Normal, txt @ replicate k CHR '' '', col) = (Normal, txt' @ replicate j CHR '' '', col')"
    using assms(3) by blast
  then have "cons (emit out s) = p @ (o0 @ out)" "term_run (o0 @ out) (Normal, [], 0) = (Normal, txt' @ replicate j CHR '' '', col')"
    using o0 by (simp_all add: emit_def term_run_append)
  then show ?thesis unfolding painted_def by blast
qed

text \<open>
  Repainting: from column \<open>m\<close> on, write the rest of the line and \<open>d\<close> blanks over the old text \<open>old\<close>, and go back to
  the cursor.
\<close>

lemma repaint:
  assumes "plain xs" "plain ys" "m \<le> length xs" "m \<le> length old" "take m old = take m xs" "length old \<le> length xs + length ys + d"
  shows "\<exists>j. term_run (drop m xs @ ys @ replicate d CHR '' '' @ replicate (d + length ys) BS) (Normal, old @ replicate k CHR '' '', m)
    = (Normal, (xs @ ys) @ replicate j CHR '' '', length xs)"
proof -
  let ?w = "drop m xs @ ys @ replicate d CHR '' ''" and ?old = "old @ replicate k CHR '' ''"
  have pw: "plain ?w" using assms(1,2) plain_space[of d] by (auto dest: in_set_dropD)
  have lw: "m + length ?w = length xs + length ys + d" using assms(3) by simp
  have t: "term_run ?w (Normal, ?old, m) = (Normal, over m ?w ?old, length xs + length ys + d)"
    using term_plain[OF pw, of m ?old] assms(4) lw by simp
  have td: "take m xs @ drop m xs @ z = xs @ z" for z by (metis append_assoc append_take_drop_id)
  have "over m ?w ?old = take m xs @ ?w @ drop (length xs + length ys + d) ?old"
    unfolding over_def lw using assms(4,5) by simp
  also have "\<dots> = xs @ ys @ replicate (d + (length old + k - (length xs + length ys + d))) CHR '' ''"
    using assms(6) by (simp add: replicate_add td add.commute)
  finally have o: "over m ?w ?old = (xs @ ys) @ replicate (d + (length old + k - (length xs + length ys + d))) CHR '' ''" by simp
  have "term_run (?w @ replicate (d + length ys) BS) (Normal, ?old, m) = (Normal, over m ?w ?old, length xs)"
    unfolding term_run_append[of ?w] t term_back by simp
  then show ?thesis unfolding o append_assoc by blast
qed

lemma stored_cstr:
  assumes "stored xs ys s" "a = (beforeCur s)[length xs := NUL]" "c \<le> length xs"
  shows "terminated (drop c a)" "cstr (drop c a) = drop c xs"
proof -
  have n: "length xs < length (beforeCur s)" using assms(1) by (simp add: stored_def)
  have "a = take (length xs) (beforeCur s) @ NUL # drop (Suc (length xs)) (beforeCur s)"
    unfolding assms(2) using n by (rule upd_conv_take_nth_drop)
  then have a: "drop c a = drop c xs @ NUL # drop (Suc (length xs)) (beforeCur s)" using assms(1,3) by (simp add: stored_def)
  have "NUL \<notin> set (drop c xs)" using assms(1) visable_not_control by (auto simp: stored_def dest!: in_set_dropD)
  then show "terminated (drop c a)" "cstr (drop c a) = drop c xs" unfolding a by simp_all
qed

lemma stored_put:
  assumes "stored xs ys s"
  shows "put (beforeLen s) NUL (beforeCur s) = Ret ((beforeCur s)[length xs := NUL])"
    "put (afterLen s) NUL (afterCur s) = Ret ((afterCur s)[length ys := NUL])"
    "emit_after s = Ret (emit ys s)"
  using assms by (auto simp: stored_def put_def emit_after_def)

text \<open>The fields that \<open>updateCons\<close> does not touch.\<close>

definition same_io :: "line \<Rightarrow> line \<Rightarrow> bool" where
  "same_io s s' \<longleftrightarrow> stdin s' = stdin s \<and> hist s' = hist s"

lemma same_io_simps [simp]:
  "same_io s s" "same_io s (s'\<lparr>inputLen := n\<rparr>) = same_io s s'" "same_io s (s'\<lparr>cursor := n\<rparr>) = same_io s s'"
  "same_io s (s'\<lparr>beforeCur := a\<rparr>) = same_io s s'" "same_io s (s'\<lparr>afterCur := a\<rparr>) = same_io s s'" "same_io s (emit w s') = same_io s s'"
  "same_io s (s'\<lparr>beforeLen := n\<rparr>) = same_io s s'" "same_io s (s'\<lparr>afterLen := n\<rparr>) = same_io s s'" "same_io s (s'\<lparr>tabFlush := b\<rparr>) = same_io s s'"
  by (simp_all add: same_io_def emit_def)

lemma emit_simps [simp]:
  "beforeCur (emit w s) = beforeCur s" "afterCur (emit w s) = afterCur s" "beforeLen (emit w s) = beforeLen s" "afterLen (emit w s) = afterLen s"
  "inputLen (emit w s) = inputLen s" "cursor (emit w s) = cursor s" "stdin (emit w s) = stdin s" "hist (emit w s) = hist s"
  "emit v (emit w s) = emit (w @ v) s" "stored xs ys (emit w s) = stored xs ys s"
  by (simp_all add: emit_def stored_def)

lemma stored_upd [simp]:
  "stored xs ys s \<Longrightarrow> stored xs ys (s\<lparr>beforeCur := (beforeCur s)[length xs := NUL]\<rparr>)"
  "stored xs ys s \<Longrightarrow> stored xs ys (s\<lparr>afterCur := (afterCur s)[length ys := NUL]\<rparr>)"
  "stored xs ys (s\<lparr>cursor := n\<rparr>) = stored xs ys s" "stored xs ys (s\<lparr>inputLen := n\<rparr>) = stored xs ys s" "stored xs ys (s\<lparr>tabFlush := b\<rparr>) = stored xs ys s"
  by (simp_all add: stored_def)

lemma painted_upd [simp]:
  "painted p t c (s\<lparr>beforeCur := a\<rparr>) = painted p t c s" "painted p t c (s\<lparr>afterCur := a\<rparr>) = painted p t c s"
  "painted p t c (s\<lparr>cursor := n\<rparr>) = painted p t c s" "painted p t c (s\<lparr>inputLen := n\<rparr>) = painted p t c s"
  "painted p t c (s\<lparr>beforeLen := n\<rparr>) = painted p t c s" "painted p t c (s\<lparr>afterLen := n\<rparr>) = painted p t c s" "painted p t c (s\<lparr>tabFlush := b\<rparr>) = painted p t c s"
  by (simp_all add: painted_def)

text \<open>Nothing to do when the length is right and the terminal already shows the line.\<close>

lemma updateCons_same:
  assumes "stored xs ys s" "inputLen s = length xs + length ys" "painted p (xs @ ys) (length xs) s"
  shows "returns (\<lambda>s'. line_ok p xs ys s' \<and> same_io s s') (updateCons False s)"
proof -
  have "beforeLen s = length xs" "afterLen s = length ys" using assms(1) by (simp_all add: stored_def)
  then have run: "updateCons False s = Ret (s\<lparr>beforeCur := (beforeCur s)[length xs := NUL], afterCur := (afterCur s)[length ys := NUL], cursor := length xs\<rparr>)"
    using stored_put[OF assms(1)] assms(2) by (simp add: updateCons_def)
  show ?thesis unfolding run using assms by (simp add: line_ok_def stored_def)
qed

lemma updateCons_paint:
  assumes "stored xs ys s" "painted p old (cursor s) s" "inputLen s = length old" "cursor s \<le> length old" "length old \<le> 1022"
    and "length old \<noteq> length xs + length ys" "take (min (cursor s) (length xs)) old = take (min (cursor s) (length xs)) xs"
  shows "returns (\<lambda>s'. line_ok p xs ys s' \<and> same_io s s') (updateCons False s)"
proof -
  let ?c = "cursor s" and ?m = "min (cursor s) (length xs)"
  define d where "d = length old - (length xs + length ys)"
  have L: "beforeLen s = length xs" "afterLen s = length ys" "plain xs" "plain ys" "length xs + length ys \<le> 1022" using assms(1) by (simp_all add: stored_def)
  define dist where "dist = int (inputLen s) - int (beforeLen s) - int (afterLen s)"
  have dist: "dist \<noteq> 0" "(if dist < 0 then 0 else dist) = int d" using assms(3,6) L by (auto simp: dist_def d_def)
  define pre where "pre = (if length xs < ?c then replicate (?c - length xs) BS else drop ?c xs)"
  define s1 where "s1 = emit pre (if length xs < ?c then s else s\<lparr>beforeCur := (beforeCur s)[length xs := NUL]\<rparr>)"
  have st1: "stored xs ys s1" using assms(1) by (simp add: s1_def)
  have p1: "(if beforeLen s < cursor s then printBack (int (cursor s) - int (beforeLen s)) s
      else obind (put (beforeLen s) NUL (beforeCur s)) (\<lambda>a. emit_str (drop (cursor s) a) (s\<lparr>beforeCur := a\<rparr>))) = Ret s1"
  proof (cases "length xs < ?c")
    case True
    then have "nat (int ?c - int (length xs)) = ?c - length xs" "int ?c - int (length xs) < 1024" using assms(4,5) by linarith+
    then show ?thesis using True L by (simp add: printBack_def s1_def pre_def)
  next
    case False
    then have c: "?c \<le> length xs" by simp
    show ?thesis using False L stored_put(1)[OF assms(1)] stored_cstr[OF assms(1) refl c] by (simp add: emit_str_def s1_def pre_def)
  qed
  let ?s2 = "emit ys (s1\<lparr>cursor := length xs\<rparr>)"
  have e2: "emit_after (s1\<lparr>cursor := length xs\<rparr>) = Ret ?s2" by (rule stored_put(3)) (use st1 in simp)
  have bl: "beforeLen s1 = length xs" "afterLen s1 = length ys" using st1 by (simp_all add: stored_def)
  let ?out = "ys @ replicate d CHR '' '' @ replicate (d + length ys) BS"
  have sp: "printSpace (int d) ?s2 = Ret (emit (replicate d CHR '' '') ?s2)" using assms(5) by (auto simp: printSpace_def d_def emit_def)
  have bk: "printBack (int d + int (length ys)) (emit (replicate d CHR '' '') ?s2) = Ret (emit (replicate (d + length ys) BS) (emit (replicate d CHR '' '') ?s2))"
  proof -
    have "nat (int d + int (length ys)) = d + length ys" "int d + int (length ys) < 1024" using L(5) assms(5) by (auto simp: d_def)
    then show ?thesis by (auto simp: printBack_def emit_def)
  qed
  let ?s3 = "(emit (replicate (d + length ys) BS) (emit (replicate d CHR '' '') ?s2))\<lparr>inputLen := length xs + length ys\<rparr>"
  have run: "updateCons False s = Ret ?s3"
    unfolding updateCons_def Let_def dist_def[symmetric] p1 obind.simps dist(2) bl e2 sp
    using dist(1) bl bk by simp
  have "painted p (xs @ ys) (length xs) (emit (pre @ ?out) s)"
  proof (rule painted_emit[OF assms(2,4)])
    fix k
    have ml: "?m \<le> length xs" "?m \<le> length old" using assms(4) by simp_all
    have le: "length old \<le> length xs + length ys + d" by (simp add: d_def)
    obtain j where j: "term_run (drop ?m xs @ ?out) (Normal, old @ replicate k CHR '' '', ?m) = (Normal, (xs @ ys) @ replicate j CHR '' '', length xs)"
      using repaint[OF L(3,4) ml assms(7) le] by blast
    have e: "term_run (pre @ ?out) (Normal, old @ replicate k CHR '' '', ?c) = term_run (drop ?m xs @ ?out) (Normal, old @ replicate k CHR '' '', ?m)"
      by (cases "length xs < ?c") (simp_all add: pre_def term_run_append[of _ ?out] term_back term_run_def[of "[]"])
    show "\<exists>j. term_run (pre @ ?out) (Normal, old @ replicate k CHR '' '', ?c) = (Normal, (xs @ ys) @ replicate j CHR '' '', length xs)"
      unfolding e j by (rule exI) (rule refl)
  qed
  then have "painted p (xs @ ys) (length xs) ?s3" by (simp add: s1_def painted_def emit_def)
  then have "line_ok p xs ys ?s3 \<and> same_io s ?s3" using st1 by (simp add: line_ok_def s1_def)
  then show ?thesis unfolding run by simp
qed

section \<open>Keys\<close>

datatype key = Char char | Back | Delete | Left | Right

fun key_bytes :: "key \<Rightarrow> char list" where
  "key_bytes (Char c) = [c]"
| "key_bytes Back = [CHR 0x7F]"
| "key_bytes Delete = [ESC, CHR ''['', CHR ''3'', CHR ''~'']"
| "key_bytes Left = [ESC, CHR ''['', CHR ''D'']"
| "key_bytes Right = [ESC, CHR ''['', CHR ''C'']"

text \<open>What a key means for the text before and after the cursor.\<close>

fun edit :: "key \<Rightarrow> char list \<times> char list \<Rightarrow> char list \<times> char list" where
  "edit (Char c) (xs, ys) = (xs @ [c], ys)"
| "edit Back (xs, ys) = (butlast xs, ys)"
| "edit Delete (xs, ys) = (xs, tl ys)"
| "edit Left (xs, ys) = (if xs = [] then (xs, ys) else (butlast xs, last xs # ys))"
| "edit Right (xs, ys) = (if ys = [] then (xs, ys) else (xs @ [hd ys], tl ys))"

fun valid_key :: "key \<Rightarrow> bool" where
  "valid_key (Char c) = is_visable c"
| "valid_key _ = True"

lemma line_okD:
  assumes "line_ok p xs ys s"
  shows "stored xs ys s" "inputLen s = length xs + length ys" "cursor s = length xs" "painted p (xs @ ys) (length xs) s"
    "length (beforeCur s) = 1024" "length (afterCur s) = 1024" "beforeLen s = length xs" "afterLen s = length ys"
    "take (length xs) (beforeCur s) = xs" "take (length ys) (afterCur s) = rev ys" "plain xs" "plain ys" "length xs + length ys \<le> 1022"
  using assms by (simp_all add: line_ok_def stored_def)

lemma line_ok_same: "line_ok p xs ys s \<Longrightarrow> returns (\<lambda>s'. line_ok p xs ys s' \<and> same_io s s') (updateCons False s)"
  using updateCons_same[of xs ys s p] by (simp add: line_ok_def)

lemma insert_ok:
  assumes "line_ok p xs ys s" "is_visable c" "length xs + length ys < 1022"
  shows "\<exists>a. put (beforeLen s) c (beforeCur s) = Ret a \<and>
    returns (\<lambda>s'. line_ok p (xs @ [c]) ys s' \<and> same_io s s') (updateCons False (s\<lparr>beforeCur := a, beforeLen := beforeLen s + 1\<rparr>))"
proof -
  note D = line_okD[OF assms(1)]
  let ?a = "(beforeCur s)[length xs := c]"
  let ?s = "s\<lparr>beforeCur := ?a, beforeLen := beforeLen s + 1\<rparr>"
  have tk: "take (Suc (length xs)) ?a = xs @ [c]" using D(5,9) assms(3) by (simp add: take_Suc_conv_app_nth)
  have st: "stored (xs @ [c]) ys ?s" using D assms(2,3) tk by (simp add: stored_def)
  have "returns (\<lambda>s'. line_ok p (xs @ [c]) ys s' \<and> same_io ?s s') (updateCons False ?s)"
    by (rule updateCons_paint[where old = "xs @ ys"]) (use st D in simp_all)
  then show ?thesis using D(5,7) assms(3) by (intro exI[of _ ?a]) (simp add: put_def same_io_def)
qed

lemma back_ok:
  assumes "line_ok p xs ys s"
  shows "returns (\<lambda>s'. line_ok p (butlast xs) ys s' \<and> same_io s s') (backOrDelete False s)"
proof (cases "xs = []")
  case True
  then show ?thesis using assms line_okD(7)[OF assms] by (simp add: backOrDelete_def)
next
  case False
  note D = line_okD[OF assms]
  let ?s = "s\<lparr>beforeLen := beforeLen s - 1\<rparr>"
  obtain zs z where z: "xs = zs @ [z]" using False by (cases xs rule: rev_cases) auto
  have tk: "take (length zs) (beforeCur s) = zs"
    using arg_cong[OF D(9), of "take (length zs)"] z by simp
  have st: "stored zs ys ?s" using D tk z by (simp add: stored_def)
  have "returns (\<lambda>s'. line_ok p zs ys s' \<and> same_io ?s s') (updateCons False ?s)"
    by (rule updateCons_paint[where old = "xs @ ys"]) (use st D z in simp_all)
  then show ?thesis using D z by (simp add: backOrDelete_def same_io_def)
qed

lemma delete_ok:
  assumes "line_ok p xs ys s"
  shows "returns (\<lambda>s'. line_ok p xs (tl ys) s' \<and> same_io s s') (backOrDelete True s)"
proof (cases "ys = []")
  case True
  then show ?thesis using assms line_okD(8)[OF assms] by (simp add: backOrDelete_def)
next
  case False
  note D = line_okD[OF assms]
  let ?s = "s\<lparr>afterLen := afterLen s - 1\<rparr>"
  obtain y zs where y: "ys = y # zs" using False by (cases ys) auto
  have tk: "take (length zs) (afterCur s) = rev zs"
    using arg_cong[OF D(10), of "take (length zs)"] y by simp
  have st: "stored xs zs ?s" using D tk y by (simp add: stored_def)
  have "returns (\<lambda>s'. line_ok p xs zs s' \<and> same_io ?s s') (updateCons False ?s)"
    by (rule updateCons_paint[where old = "xs @ ys"]) (use st D y in simp_all)
  then show ?thesis using D y by (simp add: backOrDelete_def same_io_def)
qed

lemma term_arrow:
  "term_run [ESC, CHR ''['', CHR ''C''] (Normal, cells, col) = (Normal, cells, col + 1)"
  "term_run [ESC, CHR ''['', CHR ''D''] (Normal, cells, col) = (Normal, cells, col - 1)"
  by (simp_all add: term_run_def)

lemma left_ok:
  assumes "line_ok p xs ys s"
  shows "returns (\<lambda>s'. line_ok p (fst (edit Left (xs, ys))) (snd (edit Left (xs, ys))) s' \<and> same_io s s') (moveCursor LEFT s)"
proof (cases "xs = []")
  case True
  then show ?thesis using assms line_okD(7)[OF assms] by (simp add: moveCursor_def)
next
  case False
  note D = line_okD[OF assms]
  obtain zs z where z: "xs = zs @ [z]" using False by (cases xs rule: rev_cases) auto
  let ?b = "(afterCur s)[length ys := z]"
  let ?s = "(emit [ESC, CHR ''['', CHR ''D''] s)\<lparr>afterCur := ?b, afterLen := length ys + 1, beforeLen := length zs\<rparr>"
  have zb: "beforeCur s ! length zs = z" using D(9) z by (metis nth_append_length nth_take lessI length_append_singleton)
  have tk: "take (length zs) (beforeCur s) = zs" using arg_cong[OF D(9), of "take (length zs)"] z by simp
  have tb: "take (Suc (length ys)) ?b = rev (z # ys)" using D(6,10,13) by (simp add: take_Suc_conv_app_nth)
  have st: "stored zs (z # ys) ?s" using D tk tb z by (simp add: stored_def)
  have "painted p (zs @ z # ys) (length zs) (emit [ESC, CHR ''['', CHR ''D''] s)"
    by (rule painted_emit[OF D(4)]) (use z in \<open>auto simp: term_arrow\<close>)
  then have pt: "painted p (zs @ z # ys) (length zs) ?s" by simp
  have run: "moveCursor LEFT s = updateCons False ?s"
    using D z zb by (simp add: moveCursor_def put_def)
  have "returns (\<lambda>s'. line_ok p zs (z # ys) s' \<and> same_io ?s s') (updateCons False ?s)"
    by (rule updateCons_same[OF st _ pt]) (use D z in simp)
  then show ?thesis unfolding run using z by (simp add: same_io_def)
qed

lemma right_ok:
  assumes "line_ok p xs ys s"
  shows "returns (\<lambda>s'. line_ok p (fst (edit Right (xs, ys))) (snd (edit Right (xs, ys))) s' \<and> same_io s s') (moveCursor RIGHT s)"
proof (cases ys)
  case Nil
  then show ?thesis using assms line_okD(2,7)[OF assms] by (simp add: moveCursor_def)
next
  case (Cons y zs)
  note D = line_okD[OF assms]
  let ?a = "(beforeCur s)[length xs := y]"
  let ?s = "(emit [ESC, CHR ''['', CHR ''C''] s)\<lparr>beforeCur := ?a, beforeLen := length xs + 1, afterLen := length zs\<rparr>"
  have ya: "afterCur s ! length zs = y" using D(10) Cons by (metis nth_append_length nth_take lessI length_rev rev.simps(2) length_Cons)
  have tk: "take (length zs) (afterCur s) = rev zs" using arg_cong[OF D(10), of "take (length zs)"] Cons by simp
  have ta: "take (Suc (length xs)) ?a = xs @ [y]" using D(5,9,13) by (simp add: take_Suc_conv_app_nth)
  have st: "stored (xs @ [y]) zs ?s" using D tk ta Cons by (simp add: stored_def)
  have "painted p ((xs @ [y]) @ zs) (length (xs @ [y])) (emit [ESC, CHR ''['', CHR ''C''] s)"
    by (rule painted_emit[OF D(4)]) (use Cons in \<open>auto simp: term_arrow\<close>)
  then have pt: "painted p ((xs @ [y]) @ zs) (length (xs @ [y])) ?s" by simp
  have run: "moveCursor RIGHT s = updateCons False ?s"
    using D Cons ya by (simp add: moveCursor_def put_def)
  have "returns (\<lambda>s'. line_ok p (xs @ [y]) zs s' \<and> same_io ?s s') (updateCons False ?s)"
    by (rule updateCons_same[OF st _ pt]) (use D Cons in simp)
  then show ?thesis unfolding run using Cons by (simp add: same_io_def)
qed

text \<open>One round of the loop for a key.\<close>

definition key_done :: "char list \<Rightarrow> char list \<Rightarrow> char list \<times> char list \<Rightarrow> line \<Rightarrow> signal \<times> line \<Rightarrow> bool" where
  "key_done p rest t s r \<longleftrightarrow> fst r = Go \<and> line_ok p (fst t) (snd t) (snd r) \<and> stdin (snd r) = rest \<and> hist (snd r) = hist s"

lemma go_ok:
  assumes "returns (\<lambda>s'. line_ok p xs ys s' \<and> same_io u s') m" "stdin u = rest" "hist u = hist s"
  shows "returns (key_done p rest (xs, ys) s) (obind m (\<lambda>s. obind (updateCons False s) (\<lambda>s. Ret (Go, s))))"
proof -
  obtain s1 where s1: "m = Ret s1" "line_ok p xs ys s1" "same_io u s1" using assms(1) by (auto simp: returns_iff)
  obtain s2 where s2: "updateCons False s1 = Ret s2" "line_ok p xs ys s2" "same_io s1 s2" using line_ok_same[OF s1(2)] by (auto simp: returns_iff)
  show ?thesis using s1 s2 assms(2,3) by (simp add: key_done_def same_io_def)
qed

lemma line_ok_upd [simp]:
  "line_ok p xs ys (s\<lparr>tabFlush := b\<rparr>) = line_ok p xs ys s" "line_ok p xs ys (s\<lparr>stdin := i\<rparr>) = line_ok p xs ys s"
  by (simp_all add: line_ok_def stored_def painted_def)

lemma key_ok:
  assumes "line_ok p xs ys s" "valid_key k" "length xs + length ys < 1022" "stdin s = key_bytes k @ rest"
  shows "\<exists>inc s1. read_char s = (Some inc, s1) \<and> returns (key_done p rest (edit k (xs, ys)) s) (readline_key ls cwd buf inc s1)"
proof -
  let ?inc = "hd (key_bytes k)" and ?s1 = "s\<lparr>stdin := tl (key_bytes k) @ rest\<rparr>"
  let ?s2 = "s\<lparr>stdin := rest, tabFlush := True\<rparr>"
  have ok2: "line_ok p xs ys ?s2" using assms(1) by simp
  have rd: "read_char s = (Some ?inc, ?s1)" using assms(4) by (cases k) (simp_all add: read_char_def)
  have "returns (key_done p rest (edit k (xs, ys)) s) (readline_key ls cwd buf ?inc ?s1)"
  proof (cases k)
    case (Char c)
    have v: "is_visable c" using assms(2) Char by simp
    note nc = visable_not_control[OF v]
    obtain a where a: "put (beforeLen ?s2) c (beforeCur ?s2) = Ret a"
      "returns (\<lambda>s'. line_ok p (xs @ [c]) ys s' \<and> same_io ?s2 s') (updateCons False (?s2\<lparr>beforeCur := a, beforeLen := beforeLen ?s2 + 1\<rparr>))"
      using insert_ok[OF ok2 v assms(3)] by blast
    then obtain t where t: "updateCons False (?s2\<lparr>beforeCur := a, beforeLen := beforeLen ?s2 + 1\<rparr>) = Ret t" "line_ok p (xs @ [c]) ys t" "same_io ?s2 t"
      by (auto simp: returns_iff)
    show ?thesis using Char nc v a(1) t by (simp add: readline_key_def Let_def key_done_def same_io_def)
  next
    case Back
    show ?thesis using go_ok[OF back_ok[OF ok2], of rest s] Back by (simp add: readline_key_def Let_def)
  next
    case Delete
    have rdir: "readDir (?s1\<lparr>tabFlush := True\<rparr>) = (Some DEL, ?s2)" using Delete by (simp add: readDir_def read_char_def)
    show ?thesis using go_ok[OF delete_ok[OF ok2], of rest s] Delete rdir by (simp add: readline_key_def Let_def)
  next
    case Left
    have rdir: "readDir (?s1\<lparr>tabFlush := True\<rparr>) = (Some LEFT, ?s2)" using Left by (simp add: readDir_def read_char_def)
    show ?thesis using go_ok[OF left_ok[OF ok2], of rest s] Left rdir by (simp add: readline_key_def Let_def)
  next
    case Right
    have rdir: "readDir (?s1\<lparr>tabFlush := True\<rparr>) = (Some RIGHT, ?s2)" using Right by (simp add: readDir_def read_char_def)
    show ?thesis using go_ok[OF right_ok[OF ok2], of rest s] Right rdir by (simp add: readline_key_def Let_def)
  qed
  then show ?thesis using rd by blast
qed

section \<open>A whole line\<close>

definition edit_all :: "key list \<Rightarrow> char list \<times> char list \<Rightarrow> char list \<times> char list" where
  "edit_all ks t = foldl (\<lambda>t k. edit k t) t ks"

definition keys_bytes :: "key list \<Rightarrow> char list" where
  "keys_bytes ks = concat (map key_bytes ks)"

text \<open>The line \<open>xs @ ys\<close> has been entered: it is in the buffer and in the history, and was on the terminal.\<close>

definition entered :: "char list \<Rightarrow> char list \<Rightarrow> char list list \<Rightarrow> char list \<Rightarrow> char list \<times> char list \<Rightarrow> history \<Rightarrow> char list \<times> line \<Rightarrow> bool" where
  "entered p buf es rest t h r \<longleftrightarrow>
     (case (t, r) of ((xs, ys), (b, s')) \<Rightarrow>
       cstr b = xs @ ys \<and> terminated b \<and> length b = length buf \<and> stdin s' = rest
     \<and> (\<exists>out k. cons s' = p @ out @ [LF] \<and> term_run out (Normal, [], 0) = (Normal, (xs @ ys) @ replicate k CHR '' '', length xs))
     \<and> (if xs @ ys = [] then hist s' = h else hist_rep (es @ [xs @ ys]) [] (length es + 1) (hist s')))"

lemma enter_ok:
  assumes "line_ok p xs ys s" "hist_rep es cur i (hist s)" "length buf = 1024" "inc = CHR 0x0D \<or> inc = LF"
  shows "\<exists>b s'. readline_key ls cwd buf inc s = Ret (Enter b, s') \<and> entered p buf es (stdin s) (xs, ys) (hist s) (b, s')"
proof -
  note D = line_okD[OF assms(1)]
  let ?t = "xs @ ys" let ?b = "(xs @ ys) @ NUL # drop (Suc (length (xs @ ys))) buf"
  let ?s = "s\<lparr>tabFlush := True, cursor := 0, inputLen := 0\<rparr>"
  have lb: "loadBuf buf ?s = Ret ?b" using D assms(3) by (simp add: loadBuf_def)
  have nn: "NUL \<notin> set ?t" using D(11,12) visable_not_control by auto
  have key: "readline_key ls cwd buf inc s = obind (history_write ?b (hist s)) (\<lambda>(_, h). Ret (Enter ?b, emit [LF] (?s\<lparr>hist := h\<rparr>)))"
    using assms(4) lb by (auto simp: readline_key_def Let_def)
  obtain out k where out: "cons s = p @ out" "term_run out (Normal, [], 0) = (Normal, (xs @ ys) @ replicate k CHR '' '', length xs)"
    using D(4) by (auto simp: painted_def)
  have fin: "entered p buf es (stdin s) (xs, ys) (hist s) (?b, emit [LF] (?s\<lparr>hist := h\<rparr>))"
    if "if ?t = [] then h = hist s else hist_rep (es @ [?t]) [] (length es + 1) h" for h
    unfolding entered_def using nn D(13) assms(3) out that by (auto simp: emit_def simp del: append_assoc)
  show ?thesis
  proof (cases "?t = []")
    case True
    then have "history_write ?b (hist s) = Ret (- 1, hist s)" by (simp add: history_write_def)
    then show ?thesis using key fin[of "hist s"] True by auto
  next
    case False
    have "entry_ok ?t" using nn D(13) by (simp add: entry_ok_def)
    from history_write_rep[OF assms(2) this False, of "drop (Suc (length ?t)) buf"]
    obtain h where "history_write ?b (hist s) = Ret (0, h)" "hist_rep (es @ [?t]) [] (length es + 1) h" by (auto simp: returns_iff)
    then show ?thesis using key fin[of h] False by auto
  qed
qed

lemma edit_length: "edit k (xs, ys) = (xs', ys') \<Longrightarrow> length xs' + length ys' \<le> length xs + length ys + 1"
  by (cases k) (auto split: if_splits)

lemma keys_bytes_length: "length ks \<le> length (keys_bytes ks)"
proof (induction ks)
  case (Cons k ks)
  have "1 \<le> length (key_bytes k)" by (cases k) simp_all
  with Cons show ?case by (simp add: keys_bytes_def)
qed (simp add: keys_bytes_def)

lemma loop_ok:
  assumes "line_ok p xs ys s" "hist_rep es cur i (hist s)" "length buf = 1024" "inc = CHR 0x0D \<or> inc = LF" "list_all valid_key ks"
    and "length xs + length ys + length ks \<le> 1022" "stdin s = keys_bytes ks @ inc # rest" "length ks < fuel"
  shows "returns (entered p buf es rest (edit_all ks (xs, ys)) (hist s)) (readline_loop fuel ls cwd 1024 buf s)"
  using assms
proof (induction ks arbitrary: fuel xs ys s)
  case Nil
  then obtain n where n: "fuel = Suc n" by (cases fuel) auto
  let ?s = "s\<lparr>stdin := rest\<rparr>"
  have ok: "line_ok p xs ys ?s" using Nil.prems(1) by simp
  have rd: "read_char s = (Some inc, ?s)" using Nil.prems(7) by (simp add: read_char_def keys_bytes_def)
  have il: "\<not> 1024 \<le> inputLen s" using line_okD(2,13)[OF Nil.prems(1)] by simp
  have hr: "hist_rep es cur i (hist ?s)" using Nil.prems(2) by simp
  obtain b s' where e: "readline_key ls cwd buf inc ?s = Ret (Enter b, s')" "entered p buf es (stdin ?s) (xs, ys) (hist ?s) (b, s')"
    using enter_ok[OF ok hr Nil.prems(3,4)] by blast
  show ?case unfolding n readline_loop.simps if_not_P[OF il] rd using e by (simp add: edit_all_def)
next
  case (Cons k ks)
  then obtain n where n: "fuel = Suc n" by (cases fuel) auto
  have il: "\<not> 1024 \<le> inputLen s" using line_okD(2,13)[OF Cons.prems(1)] by simp
  have sin: "stdin s = key_bytes k @ (keys_bytes ks @ inc # rest)" using Cons.prems(7) by (simp add: keys_bytes_def)
  have vk: "valid_key k" "length xs + length ys < 1022" using Cons.prems(5,6) by simp_all
  obtain c s1 where rd: "read_char s = (Some c, s1)" and kd: "returns (key_done p (keys_bytes ks @ inc # rest) (edit k (xs, ys)) s) (readline_key ls cwd buf c s1)"
    using key_ok[OF Cons.prems(1) vk sin] by blast
  obtain s2 where s2: "readline_key ls cwd buf c s1 = Ret (Go, s2)" "key_done p (keys_bytes ks @ inc # rest) (edit k (xs, ys)) s (Go, s2)"
    using kd by (auto simp: returns_iff key_done_def)
  obtain xs' ys' where e: "edit k (xs, ys) = (xs', ys')" by (cases "edit k (xs, ys)")
  have k2: "line_ok p xs' ys' s2" "stdin s2 = keys_bytes ks @ inc # rest" "hist s2 = hist s" using s2(2) e by (simp_all add: key_done_def)
  have "returns (entered p buf es rest (edit_all ks (xs', ys')) (hist s2)) (readline_loop n ls cwd 1024 buf s2)"
    by (rule Cons.IH) (use Cons.prems k2 n edit_length[OF e] in simp_all)
  then show ?case unfolding n readline_loop.simps if_not_P[OF il] rd using s2(1) e k2(3) by (simp add: edit_all_def)
qed

text \<open>
  C33. \<open>readline\<close> returns the line that was typed. For any sequence of at most 1022 keys (printable characters, backspace,
  delete and the left and right arrows) followed by enter, it returns a terminated buffer with the text that the keys
  make, leaves the rest of the input alone, appends the line to the history unless it is empty, and prints a new line;
  before that, a terminal that executes what was printed shows that text, possibly followed by blanks, with its cursor
  at the editing position.
\<close>

theorem readline_correct:
  assumes "length (beforeCur s) = 1024" and "length (afterCur s) = 1024" and "cursor s = 0" and "length buf = 1024"
    and "hist_rep es cur i (hist s)" and "list_all valid_key ks" and "length ks \<le> 1022"
    and "inc = CHR 0x0D \<or> inc = LF" and "stdin s = keys_bytes ks @ inc # rest" and "edit_all ks ([], []) = (xs, ys)"
  shows "returns (\<lambda>(b, s'). cstr b = xs @ ys \<and> terminated b \<and> length b = 1024 \<and> stdin s' = rest
      \<and> (\<exists>out k. cons s' = cons s @ out @ [LF] \<and> term_run out (Normal, [], 0) = (Normal, (xs @ ys) @ replicate k CHR '' '', length xs))
      \<and> (if xs @ ys = [] then hist s' = hist s else hist_rep (es @ [xs @ ys]) [] (length es + 1) (hist s')))
    (readline ls cwd 1024 buf s)"
proof -
  let ?s = "s\<lparr>beforeLen := 0, afterLen := 0, inputLen := 0\<rparr>"
  have "painted (cons s) ([] @ []) 0 ?s"
    unfolding painted_def by (rule exI[of _ "[]"], rule exI[of _ 0]) (simp add: term_run_def)
  then have ok: "line_ok (cons s) [] [] ?s" using assms(1-3) by (simp add: line_ok_def stored_def)
  have fuel: "length ks < Suc (length (stdin s))" using assms(9) keys_bytes_length[of ks] by simp
  have "returns (entered (cons s) buf es rest (edit_all ks ([], [])) (hist ?s)) (readline_loop (Suc (length (stdin s))) ls cwd 1024 buf ?s)"
    by (rule loop_ok[OF ok]) (use assms fuel in simp_all)
  then show ?thesis unfolding readline_def by (rule returns_mono) (use assms(4,10) in \<open>auto simp: entered_def simp del: append_assoc\<close>)
qed

definition demo_line :: line where
  "demo_line = \<lparr>inputLen = 0, cursor = 0, beforeLen = 0, afterLen = 0, beforeCur = replicate 1024 NUL, afterCur = replicate 1024 NUL,
     tabFlush = False, completions = (\<lambda>_. replicate 128 NUL), compNum = 0, tabPoint = 0, beforeTab = 0,
     stdin = [CHR ''s'', ESC, CHR ''['', CHR ''D'', CHR ''x'', CHR 0x7F, CHR ''l'', CHR 0x0D, CHR ''q''], cons = ''$ '', hist = demo_history\<rparr>"

theorem readline_correct_witness:
  "returns (\<lambda>(b, s'). cstr b = ''ls'' \<and> stdin s' = ''q'' \<and> hist_rep [''ls'', ''cat a'', ''ls''] [] 3 (hist s'))
    (readline (\<lambda>_. None) ''/'' 1024 (replicate 1024 NUL) demo_line)"
proof -
  have h: "hist_rep [''ls'', ''cat a''] [] 2 (hist demo_line)" by (simp add: demo_line_def hist_rep_def demo_history_def entry_ok_def)
  have v: "list_all valid_key [Char CHR ''s'', Left, Char CHR ''x'', Back, Char CHR ''l'']" by (simp add: is_visable_def)
  have e: "edit_all [Char CHR ''s'', Left, Char CHR ''x'', Back, Char CHR ''l''] ([], []) = (''l'', ''s'')" by (simp add: edit_all_def)
  have i: "stdin demo_line = keys_bytes [Char CHR ''s'', Left, Char CHR ''x'', Back, Char CHR ''l''] @ CHR 0x0D # ''q''"
    by (simp add: demo_line_def keys_bytes_def)
  have l: "length (beforeCur demo_line) = 1024" "length (afterCur demo_line) = 1024" "cursor demo_line = 0" "length (replicate 1024 NUL) = 1024"
    by (simp_all add: demo_line_def)
  have "length [Char CHR ''s'', Left, Char CHR ''x'', Back, Char CHR ''l''] \<le> 1022" "CHR 0x0D = CHR 0x0D \<or> CHR 0x0D = LF" by simp_all
  from readline_correct[OF l h v this i e, of "\<lambda>_. None" "''/''"] show ?thesis by (rule returns_mono) (auto simp: numeral_3_eq_3)
qed

end
