(* ===== verification/Mos_Pipe.thy ===== *)
theory Mos_Pipe
  imports Mos_Prelude "HOL-Library.Sublist"
begin

text \<open>
  Pipes (\<open>user/lib/pipe.c\<close>, with \<open>close\<close> and \<open>dup\<close> of \<open>user/lib/fd.c\<close> and \<open>pageref\<close>) as a
  concurrent program.  Several environments share the page that holds the pipe; the timer may
  switch environments between any two instructions, so one step of the model is one access to
  memory that another environment can change, or one system call.  The model keeps which
  environments map the page of the read descriptor, the page of the write descriptor and the page
  of the pipe, at which descriptor number; the sizes of these sets are the reference counts
  \<open>pageref\<close> reads.

  The expressions \<open>p_buf[(p_rpos++) % BY2PIPE]\<close> and \<open>p_buf[(p_wpos++) % BY2PIPE] = c\<close> do not
  say whether the new position is stored before or after the buffer is accessed: C leaves the two
  unsequenced, and the flag \<open>early\<close> of the step function chooses.  The stream theorem is about the late
  order, the test for a closed pipe about both; the last section shows what the early order does to the stream.  The mappings of the
  pages by which \<open>fork\<close> and \<open>spawn\<close> hand a pipe to a child are not steps of the model.
\<close>

section \<open>State\<close>

definition BY2PIPE :: nat where
  "BY2PIPE = 32"

text \<open>The two calls of \<open>_pipe_is_closed\<close> in the loops, and the one of \<open>pipe_is_closed\<close>.\<close>

datatype site = AtWhile | AtIf | AtQuery

text \<open>
  A call in progress with its local variables: the descriptor number, the byte count or the bytes
  to write, and the bytes transferred so far (whose number is the loop variable \<open>i\<close>).
\<close>

datatype call = PipeRead nat nat "u8 list" | PipeWrite nat "u8 list" nat | PipeQuery nat

text \<open>
  Where such a call stands.  \<open>CkRuns\<close> to \<open>CkTest\<close> are inside \<open>_pipe_is_closed\<close>, with its
  variables \<open>runs\<close>, \<open>fd_ref\<close> and \<open>pipe_ref\<close>.
\<close>

datatype label =
    LFor | CkRuns site | CkFd site nat | CkPipe site nat nat | CkTest site nat nat nat
  | LWhile | LYield | LIf | LAccess | LLate u8 | LEarly u32

datatype fdop = Close nat | Dup nat nat

datatype fdlabel = UnmapFd | UnmapData | UnmapFd2 | MapData | MapFd | ErrFd | ErrData

datatype pc = Idle | InCall call label | InFd fdop fdlabel

text \<open>
  \<open>sent\<close> and \<open>got\<close> are the bytes whose transfer has been completed on the writing and on the
  reading side; no code reads them.  \<open>env_runs\<close> counts without wrapping, the code sees its low 32
  bits.
\<close>

record pipe_sys =
  p_rpos :: u32
  p_wpos :: u32
  p_buf :: "u8 list"
  rfd :: "(nat \<times> nat) set"
  wfd :: "(nat \<times> nat) set"
  dat :: "(nat \<times> nat) set"
  cur :: nat
  env_runs :: "nat \<Rightarrow> nat"
  pc :: "nat \<Rightarrow> pc"
  result :: "nat \<Rightarrow> int"
  sent :: "u8 list"
  got :: "u8 list"

section \<open>Operations\<close>

definition goto :: "nat \<Rightarrow> pc \<Rightarrow> pipe_sys \<Rightarrow> pipe_sys" where
  "goto p x s = s\<lparr>pc := (pc s)(p := x)\<rparr>"

definition return_val :: "nat \<Rightarrow> int \<Rightarrow> pipe_sys \<Rightarrow> pipe_sys" where
  "return_val p r s = s\<lparr>pc := (pc s)(p := Idle), result := (result s)(p := r)\<rparr>"

definition pageref_fd :: "pipe_sys \<Rightarrow> nat \<Rightarrow> nat \<Rightarrow> nat" where
  "pageref_fd s p k =
     (if (p, k) \<in> rfd s then card (rfd s) else if (p, k) \<in> wfd s then card (wfd s) else 0)"

definition pageref_data :: "pipe_sys \<Rightarrow> nat \<Rightarrow> nat \<Rightarrow> nat" where
  "pageref_data s p k = (if (p, k) \<in> dat s then card (dat s) else 0)"

definition fd_mapped :: "pipe_sys \<Rightarrow> nat \<Rightarrow> nat \<Rightarrow> bool" where
  "fd_mapped s p k \<longleftrightarrow> (p, k) \<in> rfd s \<or> (p, k) \<in> wfd s"

definition unmap_fd :: "nat \<Rightarrow> nat \<Rightarrow> pipe_sys \<Rightarrow> pipe_sys" where
  "unmap_fd p k s = s\<lparr>rfd := rfd s - {(p, k)}, wfd := wfd s - {(p, k)}\<rparr>"

definition unmap_data :: "nat \<Rightarrow> nat \<Rightarrow> pipe_sys \<Rightarrow> pipe_sys" where
  "unmap_data p k s = s\<lparr>dat := dat s - {(p, k)}\<rparr>"

primrec slot :: "call \<Rightarrow> nat" where
  "slot (PipeRead k n acc) = k"
| "slot (PipeWrite k bs i) = k"
| "slot (PipeQuery k) = k"

text \<open>What follows the return of \<open>_pipe_is_closed\<close> with result \<open>c\<close>.\<close>

fun checked :: "nat \<Rightarrow> call \<Rightarrow> site \<Rightarrow> bool \<Rightarrow> pipe_sys \<Rightarrow> pipe_sys" where
  "checked p (PipeQuery k) st c s = return_val p (if c then 1 else 0) s"
| "checked p (PipeWrite k bs i) AtIf c s =
     (if c then return_val p (int i) s else goto p (InCall (PipeWrite k bs i) LAccess) s)"
| "checked p (PipeRead k n acc) AtIf c s =
     goto p (InCall (PipeRead k n acc) (if c then LIf else LAccess)) s"
| "checked p f st c s = goto p (InCall f (if c then CkRuns AtIf else LWhile)) s"

text \<open>The loop of \<open>_pipe_is_closed\<close>.\<close>

fun pipe_is_closed_step :: "nat \<Rightarrow> call \<Rightarrow> label \<Rightarrow> pipe_sys \<Rightarrow> pipe_sys" where
  "pipe_is_closed_step p f (CkRuns st) s = goto p (InCall f (CkFd st (env_runs s p))) s"
| "pipe_is_closed_step p f (CkFd st runs) s =
     goto p (InCall f (CkPipe st runs (pageref_fd s p (slot f)))) s"
| "pipe_is_closed_step p f (CkPipe st runs fd_ref) s =
     goto p (InCall f (CkTest st runs fd_ref (pageref_data s p (slot f)))) s"
| "pipe_is_closed_step p f (CkTest st runs fd_ref pipe_ref) s =
     (if (of_nat (env_runs s p) :: u32) \<noteq> of_nat runs then goto p (InCall f (CkRuns st)) s
      else checked p f st (fd_ref = pipe_ref) s)"
| "pipe_is_closed_step p f l s = s"

definition slot_of_pos :: "u32 \<Rightarrow> nat" where
  "slot_of_pos pos = unat (pos mod of_nat BY2PIPE)"

fun pipe_read_step :: "bool \<Rightarrow> nat \<Rightarrow> nat \<Rightarrow> nat \<Rightarrow> u8 list \<Rightarrow> label \<Rightarrow> pipe_sys \<Rightarrow> pipe_sys" where
  "pipe_read_step early p k n acc LFor s =
     (if length acc < n then goto p (InCall (PipeRead k n acc) (CkRuns AtWhile)) s
      else return_val p (int n) s)"
| "pipe_read_step early p k n acc LWhile s =
     goto p (InCall (PipeRead k n acc) (if p_rpos s \<ge> p_wpos s then LYield else CkRuns AtIf)) s"
| "pipe_read_step early p k n acc LYield s = goto p (InCall (PipeRead k n acc) (CkRuns AtWhile)) s"
| "pipe_read_step early p k n acc LIf s =
     (if p_rpos s \<ge> p_wpos s then return_val p (int (length acc)) s
      else goto p (InCall (PipeRead k n acc) LAccess) s)"
| "pipe_read_step early p k n acc LAccess s =
     (if early
      then goto p (InCall (PipeRead k n acc) (LEarly (p_rpos s))) (s\<lparr>p_rpos := p_rpos s + 1\<rparr>)
      else goto p (InCall (PipeRead k n acc) (LLate (p_buf s ! slot_of_pos (p_rpos s)))) s)"
| "pipe_read_step early p k n acc (LLate b) s =
     goto p (InCall (PipeRead k n (acc @ [b])) LFor) (s\<lparr>p_rpos := p_rpos s + 1, got := got s @ [b]\<rparr>)"
| "pipe_read_step early p k n acc (LEarly pos) s =
     (let b = p_buf s ! slot_of_pos pos
      in goto p (InCall (PipeRead k n (acc @ [b])) LFor) (s\<lparr>got := got s @ [b]\<rparr>))"
| "pipe_read_step early p k n acc l s = pipe_is_closed_step p (PipeRead k n acc) l s"

fun pipe_write_step :: "bool \<Rightarrow> nat \<Rightarrow> nat \<Rightarrow> u8 list \<Rightarrow> nat \<Rightarrow> label \<Rightarrow> pipe_sys \<Rightarrow> pipe_sys" where
  "pipe_write_step early p k bs i LFor s =
     (if i < length bs then goto p (InCall (PipeWrite k bs i) (CkRuns AtWhile)) s
      else return_val p (int (length bs)) s)"
| "pipe_write_step early p k bs i LWhile s =
     goto p (InCall (PipeWrite k bs i)
       (if p_wpos s - p_rpos s \<ge> of_nat BY2PIPE then LYield else CkRuns AtIf)) s"
| "pipe_write_step early p k bs i LYield s = goto p (InCall (PipeWrite k bs i) (CkRuns AtWhile)) s"
| "pipe_write_step early p k bs i LAccess s =
     (if early
      then goto p (InCall (PipeWrite k bs i) (LEarly (p_wpos s)))
             (s\<lparr>p_wpos := p_wpos s + 1, sent := sent s @ [bs ! i]\<rparr>)
      else goto p (InCall (PipeWrite k bs i) (LLate (bs ! i)))
             (s\<lparr>p_buf := (p_buf s)[slot_of_pos (p_wpos s) := bs ! i]\<rparr>))"
| "pipe_write_step early p k bs i (LLate b) s =
     goto p (InCall (PipeWrite k bs (i + 1)) LFor) (s\<lparr>p_wpos := p_wpos s + 1, sent := sent s @ [b]\<rparr>)"
| "pipe_write_step early p k bs i (LEarly pos) s =
     goto p (InCall (PipeWrite k bs (i + 1)) LFor) (s\<lparr>p_buf := (p_buf s)[slot_of_pos pos := bs ! i]\<rparr>)"
| "pipe_write_step early p k bs i l s = pipe_is_closed_step p (PipeWrite k bs i) l s"

text \<open>
  \<open>close\<close> runs \<open>pipe_close\<close> and then \<open>fd_close\<close>; \<open>dup\<close> closes the new descriptor, maps the data page
  first and the descriptor page second, and on failure unmaps both.
\<close>

fun fdop_step :: "nat \<Rightarrow> fdop \<Rightarrow> fdlabel \<Rightarrow> pipe_sys \<Rightarrow> pipe_sys" where
  "fdop_step p (Close k) UnmapFd s = goto p (InFd (Close k) UnmapData) (unmap_fd p k s)"
| "fdop_step p (Close k) UnmapData s = goto p (InFd (Close k) UnmapFd2) (unmap_data p k s)"
| "fdop_step p (Close k) UnmapFd2 s = return_val p 0 (unmap_fd p k s)"
| "fdop_step p (Dup old new) UnmapFd s = goto p (InFd (Dup old new) UnmapData) (unmap_fd p new s)"
| "fdop_step p (Dup old new) UnmapData s = goto p (InFd (Dup old new) UnmapFd2) (unmap_data p new s)"
| "fdop_step p (Dup old new) UnmapFd2 s = goto p (InFd (Dup old new) MapData) (unmap_fd p new s)"
| "fdop_step p (Dup old new) MapData s =
     goto p (InFd (Dup old new) MapFd)
       (if (p, old) \<in> dat s then s\<lparr>dat := insert (p, new) (dat s)\<rparr> else s)"
| "fdop_step p (Dup old new) MapFd s =
     (if (p, old) \<in> rfd s then return_val p (int new) (s\<lparr>rfd := insert (p, new) (rfd s)\<rparr>)
      else if (p, old) \<in> wfd s then return_val p (int new) (s\<lparr>wfd := insert (p, new) (wfd s)\<rparr>)
      else goto p (InFd (Dup old new) ErrFd) s)"
| "fdop_step p (Dup old new) ErrFd s = goto p (InFd (Dup old new) ErrData) (unmap_fd p new s)"
| "fdop_step p (Dup old new) ErrData s = return_val p (- errno E_INVAL) (unmap_data p new s)"
| "fdop_step p (Close k) l s = s"

fun call_step :: "bool \<Rightarrow> nat \<Rightarrow> call \<Rightarrow> label \<Rightarrow> pipe_sys \<Rightarrow> pipe_sys" where
  "call_step early p (PipeRead k n acc) l s = pipe_read_step early p k n acc l s"
| "call_step early p (PipeWrite k bs i) l s = pipe_write_step early p k bs i l s"
| "call_step early p (PipeQuery k) l s = pipe_is_closed_step p (PipeQuery k) l s"

fun run_step :: "bool \<Rightarrow> nat \<Rightarrow> pipe_sys \<Rightarrow> pipe_sys" where
  "run_step early p s =
     (case pc s p of
        Idle \<Rightarrow> s
      | InCall f l \<Rightarrow> call_step early p f l s
      | InFd op l \<Rightarrow> fdop_step p op l s)"

text \<open>
  The calls an idle environment makes.  \<open>fd_lookup\<close> fails for a descriptor that is not mapped, and
  \<open>read\<close> and \<open>write\<close> check the mode of the descriptor.
\<close>

datatype request = Read nat nat | Write nat "u8 list" | IsClosed nat | CloseFd nat | DupFd nat nat

fun begin_call :: "nat \<Rightarrow> request \<Rightarrow> pipe_sys \<Rightarrow> pipe_sys" where
  "begin_call p (Read k n) s =
     (if (p, k) \<in> rfd s then goto p (InCall (PipeRead k n []) LFor) s
      else return_val p (- errno E_INVAL) s)"
| "begin_call p (Write k bs) s =
     (if (p, k) \<in> wfd s then goto p (InCall (PipeWrite k bs 0) LFor) s
      else return_val p (- errno E_INVAL) s)"
| "begin_call p (IsClosed k) s =
     (if fd_mapped s p k then goto p (InCall (PipeQuery k) (CkRuns AtQuery)) s
      else return_val p (- errno E_INVAL) s)"
| "begin_call p (CloseFd k) s =
     (if fd_mapped s p k then goto p (InFd (Close k) UnmapFd) s
      else return_val p (- errno E_INVAL) s)"
| "begin_call p (DupFd old new) s =
     (if fd_mapped s p old
      then goto p (InFd (Dup old new) (if fd_mapped s p new then UnmapFd else MapData)) s
      else return_val p (- errno E_INVAL) s)"

text \<open>
  One event: the scheduler runs an environment (\<open>env_run\<close> counts it), the running environment
  takes a step of its call, or it begins one.
\<close>

datatype event = Switch nat | Step | Begin request

fun pipe_event :: "bool \<Rightarrow> event \<Rightarrow> pipe_sys \<Rightarrow> pipe_sys" where
  "pipe_event early (Switch q) s = s\<lparr>cur := q, env_runs := (env_runs s)(q := env_runs s q + 1)\<rparr>"
| "pipe_event early Step s = run_step early (cur s) s"
| "pipe_event early (Begin r) s = (if pc s (cur s) = Idle then begin_call (cur s) r s else s)"

fun pipe_events :: "bool \<Rightarrow> event list \<Rightarrow> pipe_sys \<Rightarrow> pipe_sys" where
  "pipe_events early [] s = s"
| "pipe_events early (e # es) s = pipe_events early es (pipe_event early e s)"

section \<open>Locality of a step\<close>

text \<open>An environment changes only its own mappings and its own position.\<close>

definition local_step :: "nat \<Rightarrow> pipe_sys \<Rightarrow> pipe_sys \<Rightarrow> bool" where
  "local_step p s s' \<longleftrightarrow>
     cur s' = cur s \<and> env_runs s' = env_runs s \<and> (\<forall>q. q \<noteq> p \<longrightarrow> pc s' q = pc s q) \<and>
     (\<forall>q k. q \<noteq> p \<longrightarrow> ((q, k) \<in> rfd s' \<longleftrightarrow> (q, k) \<in> rfd s) \<and> ((q, k) \<in> wfd s' \<longleftrightarrow> (q, k) \<in> wfd s) \<and>
        ((q, k) \<in> dat s' \<longleftrightarrow> (q, k) \<in> dat s))"

named_theorems pipe_defs \<open>the elementary updates of the pipe model\<close>

lemmas [pipe_defs] = goto_def return_val_def unmap_fd_def unmap_data_def fd_mapped_def Let_def

lemma checked_local: "local_step p s (checked p f st c s)"
  by (cases "(p, f, st, c, s)" rule: checked.cases) (simp_all add: local_step_def pipe_defs)

lemma pipe_is_closed_local: "local_step p s (pipe_is_closed_step p f l s)"
  by (cases "(p, f, l, s)" rule: pipe_is_closed_step.cases)
    (simp_all add: checked_local, simp_all add: local_step_def pipe_defs)

lemma call_step_local: "local_step p s (call_step early p f l s)"
  by (cases f; cases l; simp add: pipe_is_closed_local del: pipe_is_closed_step.simps)
    (simp_all add: local_step_def pipe_defs)

lemma fdop_step_local: "local_step p s (fdop_step p op l s)"
  by (cases op; cases l) (simp_all add: local_step_def pipe_defs)

lemma run_step_local: "local_step p s (run_step early p s)"
  by (cases "pc s p") (simp_all add: call_step_local fdop_step_local, simp add: local_step_def)

lemma begin_call_local: "local_step p s (begin_call p r s)"
  by (cases r) (simp_all add: local_step_def pipe_defs)

section \<open>The mappings\<close>

primrec target :: "fdop \<Rightarrow> nat" where
  "target (Close k) = k"
| "target (Dup old new) = new"

primrec holds_end :: "pipe_sys \<Rightarrow> nat \<Rightarrow> call \<Rightarrow> bool" where
  "holds_end s p (PipeRead k n acc) \<longleftrightarrow> (p, k) \<in> rfd s"
| "holds_end s p (PipeWrite k bs i) \<longleftrightarrow> (p, k) \<in> wfd s"
| "holds_end s p (PipeQuery k) \<longleftrightarrow> fd_mapped s p k"

text \<open>
  The variables of \<open>_pipe_is_closed\<close>: as long as the environment has not been scheduled anew since
  it read \<open>env_runs\<close>, the counts it holds are the current ones.
\<close>

fun check_ok :: "pipe_sys \<Rightarrow> nat \<Rightarrow> nat \<Rightarrow> label \<Rightarrow> bool" where
  "check_ok s p k (CkFd st runs) \<longleftrightarrow> runs \<le> env_runs s p"
| "check_ok s p k (CkPipe st runs fd_ref) \<longleftrightarrow>
     runs \<le> env_runs s p \<and> (cur s = p \<and> runs = env_runs s p \<longrightarrow> fd_ref = pageref_fd s p k)"
| "check_ok s p k (CkTest st runs fd_ref pipe_ref) \<longleftrightarrow>
     runs \<le> env_runs s p \<and>
     (cur s = p \<and> runs = env_runs s p \<longrightarrow> fd_ref = pageref_fd s p k \<and> pipe_ref = pageref_data s p k)"
| "check_ok s p k l \<longleftrightarrow> True"

fun fdop_ok :: "pipe_sys \<Rightarrow> nat \<Rightarrow> fdop \<Rightarrow> fdlabel \<Rightarrow> bool" where
  "fdop_ok s p op UnmapFd \<longleftrightarrow> True"
| "fdop_ok s p (Dup old new) MapFd \<longleftrightarrow>
     \<not> fd_mapped s p new \<and> (fd_mapped s p old \<longrightarrow> (p, new) \<in> dat s)"
| "fdop_ok s p op l \<longleftrightarrow> \<not> fd_mapped s p (target op)"

definition pc_ok :: "pipe_sys \<Rightarrow> nat \<Rightarrow> bool" where
  "pc_ok s p \<longleftrightarrow>
     (case pc s p of
        Idle \<Rightarrow> True
      | InCall f l \<Rightarrow> holds_end s p f \<and> check_ok s p (slot f) l
      | InFd op l \<Rightarrow> fdop_ok s p op l)"

text \<open>Every mapped descriptor has its data page mapped, and is one of the two ends.\<close>

definition ends_ok :: "pipe_sys \<Rightarrow> bool" where
  "ends_ok s \<longleftrightarrow> finite (dat s) \<and> rfd s \<inter> wfd s = {} \<and> rfd s \<union> wfd s \<subseteq> dat s"

definition maps_ok :: "pipe_sys \<Rightarrow> bool" where
  "maps_ok s \<longleftrightarrow> ends_ok s \<and> (\<forall>p. pc_ok s p)"

lemma check_ok_other:
  assumes "local_step p s s'" and "q \<noteq> p" and "cur s = p" and "check_ok s q k l"
  shows "check_ok s' q k l"
  using assms by (cases "(s, q, k, l)" rule: check_ok.cases) (simp_all add: local_step_def)

lemma fdop_ok_other:
  assumes "local_step p s s'" and "q \<noteq> p" and "fdop_ok s q op l"
  shows "fdop_ok s' q op l"
  using assms by (cases op; cases l) (simp_all add: local_step_def fd_mapped_def)

lemma pc_ok_other:
  assumes "local_step p s s'" and "q \<noteq> p" and "cur s = p" and "pc_ok s q"
  shows "pc_ok s' q"
proof -
  have same: "pc s' q = pc s q" using assms(1,2) by (simp add: local_step_def)
  have ends: "holds_end s' q f \<longleftrightarrow> holds_end s q f" for f
    using assms(1,2) by (cases f) (simp_all add: local_step_def fd_mapped_def)
  show ?thesis
    using assms check_ok_other [OF assms(1,2,3)] fdop_ok_other [OF assms(1,2)]
    by (auto simp: pc_ok_def same ends split: pc.splits)
qed

text \<open>Calls do not touch the mappings, descriptor operations keep the pairing.\<close>

definition same_maps :: "pipe_sys \<Rightarrow> pipe_sys \<Rightarrow> bool" where
  "same_maps s s' \<longleftrightarrow> rfd s' = rfd s \<and> wfd s' = wfd s \<and> dat s' = dat s \<and> cur s' = cur s \<and>
     env_runs s' = env_runs s"

lemma same_maps_simps:
  assumes "same_maps s s'"
  shows "holds_end s' p f = holds_end s p f" and "pageref_fd s' p k = pageref_fd s p k"
    and "pageref_data s' p k = pageref_data s p k" and "ends_ok s' = ends_ok s"
    and "env_runs s' p = env_runs s p" and "fd_mapped s' p k = fd_mapped s p k"
  using assms
  by (cases f; simp add: same_maps_def fd_mapped_def pageref_fd_def pageref_data_def ends_ok_def)+

lemma same_maps_goto [simp]: "same_maps s (goto p x s)" "same_maps s (return_val p r s)"
  by (simp_all add: same_maps_def pipe_defs)

lemma pc_goto [simp]: "pc (goto p x s) p = x" "pc (return_val p r s) p = Idle"
  by (simp_all add: pipe_defs)

lemma pc_ok_idle [simp]: "pc s p = Idle \<Longrightarrow> pc_ok s p"
  by (simp add: pc_ok_def)

lemma same_maps_pc_ok:
  assumes "same_maps s s'" and "pc s' p = InCall f l" and "holds_end s p f"
    and "check_ok s p (slot f) l"
  shows "pc_ok s' p"
proof -
  have "check_ok s' p (slot f) l"
    using assms(1,4) same_maps_simps [OF assms(1)]
    by (cases "(s, p, slot f, l)" rule: check_ok.cases) (simp_all add: same_maps_def)
  then show ?thesis using assms same_maps_simps [OF assms(1)] by (simp add: pc_ok_def)
qed

lemmas goto_pc_ok = same_maps_pc_ok [OF same_maps_goto(1) pc_goto(1)]

lemma checked_keeps:
  "same_maps s (checked p f st c s)" "holds_end s p f \<Longrightarrow> pc_ok (checked p f st c s) p"
  by (cases "(p, f, st, c, s)" rule: checked.cases; simp add: goto_pc_ok)+

lemma pipe_is_closed_same_maps: "same_maps s (pipe_is_closed_step p f l s)"
  by (cases "(p, f, l, s)" rule: pipe_is_closed_step.cases;
      simp add: checked_keeps(1) same_maps_def [of s s])

lemma pipe_is_closed_keeps:
  assumes "holds_end s p f" and "check_ok s p (slot f) l" and "pc s p = InCall f l"
  shows "pc_ok (pipe_is_closed_step p f l s) p"
  using assms
  by (cases "(p, f, l, s)" rule: pipe_is_closed_step.cases;
      simp add: checked_keeps goto_pc_ok pc_ok_def [of s])

lemma same_maps_transfer:
  "same_maps s (s\<lparr>p_rpos := r\<rparr>)" "same_maps s (s\<lparr>p_wpos := w\<rparr>)" "same_maps s (s\<lparr>p_buf := b\<rparr>)"
  "same_maps s (s\<lparr>p_rpos := r, got := g\<rparr>)" "same_maps s (s\<lparr>p_wpos := w, sent := x\<rparr>)"
  "same_maps s (s\<lparr>got := g\<rparr>)"
  by (simp_all add: same_maps_def)

lemma same_maps_trans: "same_maps s s' \<Longrightarrow> same_maps s' s'' \<Longrightarrow> same_maps s s''"
  by (simp add: same_maps_def)

lemmas same_maps_moved = same_maps_trans [OF _ same_maps_goto(1)]

lemma moved_pc_ok:
  "same_maps s s' \<Longrightarrow> holds_end s p f \<Longrightarrow> check_ok s p (slot f) l \<Longrightarrow> pc_ok (goto p (InCall f l) s') p"
  by (rule same_maps_pc_ok [OF same_maps_moved]) simp_all

lemma call_step_keeps:
  assumes "holds_end s p f" and "check_ok s p (slot f) l" and "pc s p = InCall f l"
  shows "same_maps s (call_step early p f l s)" and "pc_ok (call_step early p f l s) p"
  using assms pipe_is_closed_keeps [OF assms] pipe_is_closed_same_maps [of s p f l]
  by (cases f; cases l;
      simp add: same_maps_moved moved_pc_ok same_maps_transfer goto_pc_ok Let_def
        del: pipe_is_closed_step.simps)+

lemma fdop_step_keeps:
  assumes "ends_ok s" and "fdop_ok s p op l" and "pc s p = InFd op l"
  shows "ends_ok (fdop_step p op l s)" and "pc_ok (fdop_step p op l s) p"
  using assms
  by (cases op; cases l; simp add: pc_ok_def ends_ok_def pipe_defs; blast)+

lemma run_step_maps_ok:
  assumes "maps_ok s" and "cur s = p"
  shows "maps_ok (run_step early p s)"
proof -
  have ends: "ends_ok s" and pcp: "pc_ok s p" and others: "\<And>q. pc_ok s q"
    using assms(1) by (simp_all add: maps_ok_def)
  have "ends_ok (run_step early p s) \<and> pc_ok (run_step early p s) p"
  proof (cases "pc s p")
    case Idle
    then show ?thesis using ends by simp
  next
    case (InCall f l)
    then show ?thesis
      using pcp ends call_step_keeps [of s p f l early] same_maps_simps(4)
      by (auto simp: pc_ok_def [of s])
  next
    case (InFd op l)
    then show ?thesis using pcp ends fdop_step_keeps [of s p op l] by (simp add: pc_ok_def [of s])
  qed
  then show ?thesis
    using pc_ok_other [OF run_step_local _ assms(2) others] by (metis maps_ok_def)
qed

lemma begin_call_maps_ok:
  assumes "maps_ok s" and "cur s = p"
  shows "maps_ok (begin_call p r s)"
proof -
  have ends: "ends_ok s" and others: "\<And>q. pc_ok s q"
    using assms(1) by (simp_all add: maps_ok_def)
  have "same_maps s (begin_call p r s)" by (cases r) simp_all
  then have "ends_ok (begin_call p r s)" using ends same_maps_simps(4) by blast
  moreover have "pc_ok (begin_call p r s) p"
    using ends by (cases r) (auto simp: goto_pc_ok, auto simp: pc_ok_def ends_ok_def pipe_defs)
  ultimately show ?thesis
    using pc_ok_other [OF begin_call_local _ assms(2) others] by (metis maps_ok_def)
qed

lemma switch_maps_ok:
  assumes "maps_ok s"
  shows "maps_ok (pipe_event early (Switch q) s)"
proof -
  let ?s' = "pipe_event early (Switch q) s"
  have ends: "holds_end ?s' p f = holds_end s p f" for p f
    by (cases f) (simp_all add: fd_mapped_def)
  have check: "check_ok ?s' p k l" if "check_ok s p k l" for p k l
    using that
    by (cases "(s, p, k, l)" rule: check_ok.cases)
      (auto simp: pageref_fd_def pageref_data_def)
  have fdop: "fdop_ok ?s' p op l = fdop_ok s p op l" for p op l
    by (cases op; cases l) (simp_all add: fd_mapped_def)
  have "pc_ok ?s' p" if "pc_ok s p" for p
    using that check ends fdop by (auto simp: pc_ok_def split: pc.splits)
  then show ?thesis using assms by (simp add: maps_ok_def ends_ok_def)
qed

lemma pipe_event_maps_ok: "maps_ok s \<Longrightarrow> maps_ok (pipe_event early e s)"
  by (cases e) (simp_all add: switch_maps_ok run_step_maps_ok begin_call_maps_ok
    del: run_step.simps pipe_event.simps(1))

section \<open>Reachable states\<close>

text \<open>
  A pipe after its creation, with any distribution of its two ends over environments, nothing
  transferred yet and no call in progress.
\<close>

definition fresh_pipe :: "pipe_sys \<Rightarrow> bool" where
  "fresh_pipe s \<longleftrightarrow>
     finite (dat s) \<and> rfd s \<inter> wfd s = {} \<and> dat s = rfd s \<union> wfd s \<and> length (p_buf s) = BY2PIPE \<and>
     p_rpos s = 0 \<and> p_wpos s = 0 \<and> sent s = [] \<and> got s = [] \<and> (\<forall>p. pc s p = Idle)"

text \<open>Any number of environments, with any events in any order.\<close>

inductive piping :: "bool \<Rightarrow> pipe_sys \<Rightarrow> bool" for early where
  piping_start: "fresh_pipe s \<Longrightarrow> piping early s"
| piping_event: "piping early s \<Longrightarrow> piping early (pipe_event early e s)"

lemma fresh_maps_ok: "fresh_pipe s \<Longrightarrow> maps_ok s"
  by (auto simp: fresh_pipe_def maps_ok_def ends_ok_def)

lemma piping_maps_ok: "piping early s \<Longrightarrow> maps_ok s"
  by (induction rule: piping.induct) (simp_all add: fresh_maps_ok pipe_event_maps_ok)

text \<open>The running environment is about to return the answer \<open>c\<close> from \<open>_pipe_is_closed\<close>.\<close>

definition answers :: "pipe_sys \<Rightarrow> nat \<Rightarrow> nat \<Rightarrow> bool \<Rightarrow> bool" where
  "answers s p k c \<longleftrightarrow> cur s = p \<and>
     (case pc s p of
        InCall f (CkTest st runs fd_ref pipe_ref) \<Rightarrow>
          slot f = k \<and> (of_nat (env_runs s p) :: u32) = of_nat runs \<and> c = (fd_ref = pipe_ref)
      | _ \<Rightarrow> False)"

lemma low_bits_eq:
  assumes "(of_nat m :: u32) = of_nat n" and "m \<le> n" and "n < 2 ^ 32"
  shows "m = n"
proof -
  have "m < 2 ^ 32" using assms(2,3) by linarith
  then show ?thesis using assms(1,3) by (metis unat_of_small)
qed

lemma answer_is_current:
  assumes "maps_ok s" and "answers s p k c" and "env_runs s p < 2 ^ 32"
  shows "c \<longleftrightarrow> pageref_fd s p k = pageref_data s p k" and "fd_mapped s p k"
proof -
  from assms(2) obtain f st runs a b where pcs: "pc s p = InCall f (CkTest st runs a b)"
    and c: "slot f = k" "(of_nat (env_runs s p) :: u32) = of_nat runs" "c = (a = b)" "cur s = p"
    by (auto simp: answers_def split: pc.splits label.splits)
  have ok: "holds_end s p f" "check_ok s p k (CkTest st runs a b)"
    using assms(1) pcs c(1) by (auto simp: maps_ok_def pc_ok_def dest!: spec [of _ p])
  have "runs = env_runs s p"
    using low_bits_eq [of runs "env_runs s p"] ok(2) c(2) assms(3) by simp
  then show "c \<longleftrightarrow> pageref_fd s p k = pageref_data s p k" using ok(2) c by simp
  show "fd_mapped s p k" using ok(1) c(1) by (cases f) (simp_all add: fd_mapped_def)
qed

lemma closed_iff:
  assumes "ends_ok s" and "fd_mapped s p k"
  shows "pageref_fd s p k = pageref_data s p k \<longleftrightarrow>
    (if (p, k) \<in> rfd s then dat s \<subseteq> rfd s else dat s \<subseteq> wfd s)"
proof -
  have eq: "card A = card (dat s) \<longleftrightarrow> dat s \<subseteq> A" if "A \<subseteq> dat s" for A
    using that assms(1) by (metis card_subset_eq ends_ok_def subset_antisym subset_refl)
  then show ?thesis
    using assms by (auto simp: pageref_fd_def pageref_data_def fd_mapped_def ends_ok_def)
qed

text \<open>
  C40. \<open>_pipe_is_closed\<close> never errs on the side of closed, whatever the other environments do
  meanwhile: in every reachable state of a pipe, with any number of environments reading, writing,
  closing and duplicating descriptors in any interleaving, an answer closed through the read end
  means that no environment has the write end open, and through the write end that none has the
  read end open; and when no descriptor operation is in progress the answer is exact.  The
  environments that share the pipe are there from the start: the mappings that \<open>fork\<close> and \<open>spawn\<close> make while
  others use the pipe are not among the steps.  (An
  environment is taken to have been scheduled fewer than 2^32 times.)
\<close>

theorem pipe_is_closed_correct:
  assumes "piping early s" and "answers s p k c" and "env_runs s p < 2 ^ 32"
  shows "(c \<longrightarrow> (if (p, k) \<in> rfd s then wfd s = {} else rfd s = {})) \<and>
    (dat s \<subseteq> rfd s \<union> wfd s \<longrightarrow> c = (if (p, k) \<in> rfd s then wfd s = {} else rfd s = {}))"
proof -
  have ends: "ends_ok s" using piping_maps_ok [OF assms(1)] by (simp add: maps_ok_def)
  have c: "c \<longleftrightarrow> (if (p, k) \<in> rfd s then dat s \<subseteq> rfd s else dat s \<subseteq> wfd s)"
    using answer_is_current [OF piping_maps_ok [OF assms(1)] assms(2,3)] closed_iff [OF ends] by simp
  show ?thesis using c ends by (auto simp: ends_ok_def)
qed

section \<open>The stream of bytes\<close>

text \<open>
  One environment reads and one writes; the others, and these two between calls, close, duplicate
  and query descriptors as they like.
\<close>

fun permitted :: "nat \<Rightarrow> nat \<Rightarrow> event \<Rightarrow> pipe_sys \<Rightarrow> bool" where
  "permitted rd wr (Begin (Read k n)) s \<longleftrightarrow> cur s = rd"
| "permitted rd wr (Begin (Write k bs)) s \<longleftrightarrow> cur s = wr"
| "permitted rd wr e s \<longleftrightarrow> True"

inductive streaming :: "nat \<Rightarrow> nat \<Rightarrow> pipe_sys \<Rightarrow> bool" for rd wr where
  streaming_start: "fresh_pipe s \<Longrightarrow> rfd s \<subseteq> {rd} \<times> UNIV \<Longrightarrow> streaming rd wr s"
| streaming_event:
    "streaming rd wr s \<Longrightarrow> permitted rd wr e s \<Longrightarrow> streaming rd wr (pipe_event False e s)"

text \<open>
  The positions count the transferred bytes, what was read is what was written first, and as long
  as a reader is left the ring holds the bytes in between.
\<close>

definition data_ok :: "pipe_sys \<Rightarrow> bool" where
  "data_ok s \<longleftrightarrow>
     p_wpos s = of_nat (length (sent s)) \<and> p_rpos s = of_nat (length (got s)) \<and>
     length (p_buf s) = BY2PIPE \<and> prefix (got s) (sent s) \<and>
     (rfd s \<noteq> {} \<longrightarrow> length (sent s) \<le> length (got s) + BY2PIPE \<and>
        (\<forall>j. length (got s) \<le> j \<longrightarrow> j < length (sent s) \<longrightarrow> p_buf s ! (j mod BY2PIPE) = sent s ! j))"

fun at_if :: "label \<Rightarrow> bool" where
  "at_if (CkRuns st) \<longleftrightarrow> st = AtIf"
| "at_if (CkFd st m) \<longleftrightarrow> st = AtIf"
| "at_if (CkPipe st m a) \<longleftrightarrow> st = AtIf"
| "at_if (CkTest st m a b) \<longleftrightarrow> st = AtIf"
| "at_if l \<longleftrightarrow> False"

text \<open>No one but the reader has any part of the pipe mapped.\<close>

definition readers_only :: "pipe_sys \<Rightarrow> bool" where
  "readers_only s \<longleftrightarrow> dat s \<subseteq> rfd s"

definition reader_ok :: "pipe_sys \<Rightarrow> nat \<Rightarrow> u8 list \<Rightarrow> label \<Rightarrow> bool" where
  "reader_ok s n acc l \<longleftrightarrow> suffix acc (got s) \<and> (\<forall>pos. l \<noteq> LEarly pos) \<and>
     length acc \<le> n \<and> (l \<noteq> LFor \<longrightarrow> length acc < n) \<and>
     (at_if l \<longrightarrow> length (got s) < length (sent s) \<or> readers_only s) \<and>
     (l = LIf \<longrightarrow> readers_only s) \<and>
     (l = LAccess \<longrightarrow> length (got s) < length (sent s)) \<and>
     (\<forall>b. l = LLate b \<longrightarrow> length (got s) < length (sent s) \<and> b = sent s ! length (got s))"

definition writer_ok :: "pipe_sys \<Rightarrow> u8 list \<Rightarrow> nat \<Rightarrow> label \<Rightarrow> bool" where
  "writer_ok s bs i l \<longleftrightarrow> suffix (take i bs) (sent s) \<and> (\<forall>pos. l \<noteq> LEarly pos) \<and>
     (l \<noteq> LFor \<longrightarrow> i < length bs) \<and>
     (at_if l \<or> l = LAccess \<longrightarrow> rfd s = {} \<or> length (sent s) < length (got s) + BY2PIPE) \<and>
     (\<forall>b. l = LLate b \<longrightarrow> b = bs ! i \<and>
        (rfd s = {} \<or> length (sent s) < length (got s) + BY2PIPE \<and>
           p_buf s ! (length (sent s) mod BY2PIPE) = b))"

definition frame_ok :: "nat \<Rightarrow> nat \<Rightarrow> pipe_sys \<Rightarrow> nat \<Rightarrow> bool" where
  "frame_ok rd wr s p \<longleftrightarrow>
     (case pc s p of
        InCall (PipeRead k n acc) l \<Rightarrow> p = rd \<and> reader_ok s n acc l
      | InCall (PipeWrite k bs i) l \<Rightarrow> p = wr \<and> writer_ok s bs i l
      | _ \<Rightarrow> True)"

definition stream_ok :: "nat \<Rightarrow> nat \<Rightarrow> pipe_sys \<Rightarrow> bool" where
  "stream_ok rd wr s \<longleftrightarrow> data_ok s \<and> rfd s \<subseteq> {rd} \<times> UNIV \<and> (\<forall>p. frame_ok rd wr s p)"

text \<open>What an environment sees of the steps of another one.\<close>

lemma reader_ok_mono:
  assumes "reader_ok s n acc l" and "got s' = got s" and "prefix (sent s) (sent s')"
    and "readers_only s \<longrightarrow> readers_only s'"
  shows "reader_ok s' n acc l"
proof -
  obtain ys where "sent s' = sent s @ ys" using assms(3) by (auto simp: prefix_def)
  then show ?thesis using assms by (auto simp: reader_ok_def nth_append)
qed

lemma writer_ok_mono:
  assumes "writer_ok s bs i l" and "sent s' = sent s" and "p_buf s' = p_buf s"
    and "length (got s) \<le> length (got s')" and "rfd s = {} \<longrightarrow> rfd s' = {}"
  shows "writer_ok s' bs i l"
  using assms by (auto simp: writer_ok_def)

lemma frame_ok_mono:
  assumes "frame_ok rd wr s p" and "pc s' p = pc s p"
    and "p = rd \<Longrightarrow> got s' = got s \<and> prefix (sent s) (sent s') \<and> (readers_only s \<longrightarrow> readers_only s')"
    and "p = wr \<Longrightarrow> sent s' = sent s \<and> p_buf s' = p_buf s \<and> length (got s) \<le> length (got s') \<and>
      (rfd s = {} \<longrightarrow> rfd s' = {})"
  shows "frame_ok rd wr s' p"
  using assms reader_ok_mono [of s _ _ _ s'] writer_ok_mono [of s _ _ _ s']
  by (simp add: frame_ok_def split: pc.splits call.splits)

text \<open>Steps that leave the positions, the ring and the history alone.\<close>

definition same_data :: "pipe_sys \<Rightarrow> pipe_sys \<Rightarrow> bool" where
  "same_data s s' \<longleftrightarrow> p_rpos s' = p_rpos s \<and> p_wpos s' = p_wpos s \<and> p_buf s' = p_buf s \<and>
     sent s' = sent s \<and> got s' = got s"

lemma same_data_simps [simp]:
  "same_data s s" "same_data s (goto p x s)" "same_data s (return_val p r s)"
  "same_data s (goto p x (unmap_fd q k s))" "same_data s (goto p x (unmap_data q k s))"
  "same_data s (return_val p r (unmap_fd q k s))" "same_data s (return_val p r (unmap_data q k s))"
  by (simp_all add: same_data_def pipe_defs)

lemma data_ok_same: "data_ok s \<Longrightarrow> same_data s s' \<Longrightarrow> (rfd s = {} \<longrightarrow> rfd s' = {}) \<Longrightarrow> data_ok s'"
  by (auto simp: data_ok_def same_data_def)

lemma checked_same_data: "same_data s (checked p f st c s)"
  by (cases "(p, f, st, c, s)" rule: checked.cases) simp_all

lemma closed_step_same_data: "same_data s (pipe_is_closed_step p f l s)"
  by (cases "(p, f, l, s)" rule: pipe_is_closed_step.cases) (simp_all add: checked_same_data)

lemma fdop_step_same_data: "same_data s (fdop_step p op l s)"
  by (cases op; cases l) (simp_all, simp_all add: same_data_def pipe_defs)

lemma begin_call_same_data: "same_data s (begin_call p r s)"
  by (cases r) simp_all

lemma fdop_step_rfd: "rfd s = {} \<Longrightarrow> rfd (fdop_step p op l s) = {}"
  "rfd s \<subseteq> {rd} \<times> UNIV \<Longrightarrow> rfd (fdop_step p op l s) \<subseteq> {rd} \<times> UNIV"
  by (cases op; cases l; auto simp: pipe_defs)+

lemma fdop_step_readers_only:
  "rfd s \<subseteq> {rd} \<times> UNIV \<Longrightarrow> p \<noteq> rd \<Longrightarrow> readers_only s \<Longrightarrow> readers_only (fdop_step p op l s)"
  by (cases op; cases l; auto simp: pipe_defs readers_only_def)

text \<open>The answers of \<open>_pipe_is_closed\<close> as the loops use them.\<close>

lemma read_answer:
  assumes "maps_ok s" and "cur s = p" and "pc s p = InCall f (CkTest st m a b)"
    and "(of_nat (env_runs s p) :: u32) = of_nat m" and "env_runs s p < 2 ^ 32"
    and "(p, slot f) \<in> rfd s"
  shows "a = b \<longleftrightarrow> readers_only s"
proof -
  have "answers s p (slot f) (a = b)" using assms by (simp add: answers_def)
  then show ?thesis
    using answer_is_current [OF assms(1) _ assms(5), of "slot f" "a = b"] closed_iff [of s p "slot f"]
      assms(1,6)
    by (simp add: maps_ok_def readers_only_def)
qed

lemma write_answer:
  assumes "maps_ok s" and "cur s = p" and "pc s p = InCall f (CkTest st m a b)"
    and "(of_nat (env_runs s p) :: u32) = of_nat m" and "env_runs s p < 2 ^ 32"
    and "(p, slot f) \<in> wfd s" and "a = b"
  shows "rfd s = {}"
proof -
  have "answers s p (slot f) True" using assms by (simp add: answers_def)
  moreover have ends: "ends_ok s" "(p, slot f) \<notin> rfd s"
    using assms(1,6) by (auto simp: maps_ok_def ends_ok_def)
  ultimately have "dat s \<subseteq> wfd s"
    using answer_is_current [OF assms(1) _ assms(5)] closed_iff [OF ends(1)] by fastforce
  then show ?thesis using ends(1) by (auto simp: ends_ok_def)
qed

text \<open>Positions are below \<open>2\<^sup>3\<^sup>2\<close>, so comparing and subtracting them compares the lengths.\<close>

definition bounded :: "pipe_sys \<Rightarrow> bool" where
  "bounded s \<longleftrightarrow> length (sent s) < 2 ^ 32 \<and> (\<forall>p. env_runs s p < 2 ^ 32)"

lemma slot_of_pos_of_nat: "m < 2 ^ 32 \<Longrightarrow> slot_of_pos (of_nat m) = m mod BY2PIPE"
  by (simp add: slot_of_pos_def unat_mod BY2PIPE_def unat_of_small del: of_nat_numeral)

lemma data_ok_lengths:
  assumes "data_ok s" and "bounded s"
  shows "length (got s) \<le> length (sent s)" and "unat (p_rpos s) = length (got s)"
    and "unat (p_wpos s) = length (sent s)" and "p_rpos s \<ge> p_wpos s \<longleftrightarrow> got s = sent s"
    and "slot_of_pos (p_rpos s) = length (got s) mod BY2PIPE"
    and "slot_of_pos (p_wpos s) = length (sent s) mod BY2PIPE"
    and "\<not> p_wpos s \<le> p_rpos s \<Longrightarrow> length (got s) < length (sent s)"
proof -
  show le: "length (got s) \<le> length (sent s)"
    using assms(1) by (simp add: data_ok_def prefix_length_le)
  have b: "length (sent s) < 2 ^ 32" using assms(2) by (simp only: bounded_def)
  note b = b order.strict_trans1 [OF le b]
  have pos: "p_rpos s = of_nat (length (got s))" "p_wpos s = of_nat (length (sent s))"
    using assms(1) by (simp_all add: data_ok_def)
  show r: "unat (p_rpos s) = length (got s)" and w: "unat (p_wpos s) = length (sent s)"
    unfolding pos by (rule unat_of_small, rule b)+
  have "prefix (got s) (sent s)" using assms(1) by (simp add: data_ok_def)
  then have "length (sent s) \<le> length (got s) \<longleftrightarrow> got s = sent s" by (auto simp: prefix_def)
  then show "p_rpos s \<ge> p_wpos s \<longleftrightarrow> got s = sent s" by (simp only: word_le_nat_alt r w)
  show "\<not> p_wpos s \<le> p_rpos s \<Longrightarrow> length (got s) < length (sent s)"
    by (simp only: word_le_nat_alt r w not_le)
  show "slot_of_pos (p_rpos s) = length (got s) mod BY2PIPE"
    and "slot_of_pos (p_wpos s) = length (sent s) mod BY2PIPE"
    unfolding pos by (rule slot_of_pos_of_nat, rule b)+
qed

lemma room_iff:
  assumes "data_ok s" and "bounded s" and "\<not> p_wpos s - p_rpos s \<ge> of_nat BY2PIPE"
  shows "length (sent s) < length (got s) + BY2PIPE"
proof -
  note len = data_ok_lengths [OF assms(1,2)]
  have "p_rpos s \<le> p_wpos s" using len(1,2,3) by (simp add: word_le_nat_alt)
  then have "unat (p_wpos s - p_rpos s) = length (sent s) - length (got s)"
    using len(2,3) by (simp add: unat_sub)
  moreover have "unat (p_wpos s - p_rpos s) < BY2PIPE"
    using assms(3) by (simp add: word_le_nat_alt BY2PIPE_def)
  ultimately show ?thesis using len(1) by linarith
qed

lemma room_room:
  assumes "j < m" and "m < j + BY2PIPE"
  shows "j mod BY2PIPE \<noteq> m mod BY2PIPE"
proof
  assume "j mod BY2PIPE = m mod BY2PIPE"
  then have "BY2PIPE dvd m - j" using assms(1) mod_eq_dvd_iff_nat [of j m BY2PIPE] by simp
  then show False using assms by (auto dest: dvd_imp_le)
qed

lemma read_access:
  assumes "data_ok s" and "rfd s \<noteq> {}" and "length (got s) < length (sent s)"
  shows "p_buf s ! (length (got s) mod BY2PIPE) = sent s ! length (got s)"
  using assms by (simp add: data_ok_def)

lemma read_publish:
  assumes "data_ok s" and "length (got s) < length (sent s)" and "b = sent s ! length (got s)"
  shows "data_ok (goto p x (s\<lparr>p_rpos := p_rpos s + 1, got := got s @ [b]\<rparr>))"
proof -
  obtain zs where zs: "sent s = got s @ zs" using assms(1) by (auto simp: data_ok_def prefix_def)
  with assms(2,3) obtain ys where "sent s = (got s @ [b]) @ ys" by (cases zs) auto
  then have "prefix (got s @ [b]) (sent s)" unfolding prefix_def by blast
  then show ?thesis using assms(1,2) by (auto simp: data_ok_def pipe_defs)
qed

lemma write_access:
  assumes "data_ok s" and "bounded s" and "rfd s = {} \<or> length (sent s) < length (got s) + BY2PIPE"
  shows "data_ok (goto p x (s\<lparr>p_buf := (p_buf s)[slot_of_pos (p_wpos s) := b]\<rparr>))"
    and "(p_buf s)[slot_of_pos (p_wpos s) := b] ! (length (sent s) mod BY2PIPE) = b"
proof -
  have pos: "slot_of_pos (p_wpos s) = length (sent s) mod BY2PIPE"
    by (rule data_ok_lengths(6) [OF assms(1,2)])
  have ring: "length (p_buf s) = BY2PIPE" using assms(1) by (simp add: data_ok_def)
  have other: "length (sent s) mod BY2PIPE \<noteq> j mod BY2PIPE"
    if "length (got s) \<le> j" "j < length (sent s)" "length (sent s) < length (got s) + BY2PIPE" for j
    using room_room [of j "length (sent s)"] that by linarith
  show "data_ok (goto p x (s\<lparr>p_buf := (p_buf s)[slot_of_pos (p_wpos s) := b]\<rparr>))"
    unfolding pos using assms(1,3) other by (auto simp: data_ok_def pipe_defs)
  have "length (sent s) mod BY2PIPE < length (p_buf s)" unfolding ring by (simp add: BY2PIPE_def)
  then show "(p_buf s)[slot_of_pos (p_wpos s) := b] ! (length (sent s) mod BY2PIPE) = b"
    unfolding pos by simp
qed

lemma write_publish:
  assumes "data_ok s" and "rfd s = {} \<or> length (sent s) < length (got s) + BY2PIPE \<and>
      p_buf s ! (length (sent s) mod BY2PIPE) = b"
  shows "data_ok (goto p x (s\<lparr>p_wpos := p_wpos s + 1, sent := sent s @ [b]\<rparr>))"
  using assms by (auto simp: data_ok_def pipe_defs nth_append less_Suc_eq)

text \<open>A step of the reading and of the writing environment.\<close>

lemma data_ok_moved:
  assumes "data_ok s"
  shows "data_ok (goto p x s)" and "data_ok (return_val p r s)" and "data_ok (pipe_is_closed_step p f l s)"
  using data_ok_same [OF assms] same_maps_goto [of s p] pipe_is_closed_same_maps [of s p f l]
    closed_step_same_data [of s p f l]
  by (simp_all add: same_maps_def)

lemma frame_ok_goto:
  "frame_ok rd wr (goto rd (InCall (PipeRead k n acc) l) s) rd \<longleftrightarrow> reader_ok s n acc l"
  "frame_ok rd wr (goto wr (InCall (PipeWrite k bs i) l) s) wr \<longleftrightarrow> writer_ok s bs i l"
  "frame_ok rd wr (return_val p r s) p"
  "frame_ok rd wr (goto p (InCall (PipeQuery k) l) s) p"
  by (simp_all add: frame_ok_def goto_def return_val_def reader_ok_def writer_ok_def readers_only_def)

lemma reader_test:
  assumes "maps_ok s" and "bounded s" and "cur s = rd"
    and "pc s rd = InCall (PipeRead k n acc) (CkTest st m a b)"
    and "reader_ok s n acc (CkTest st m a b)" and "(rd, k) \<in> rfd s"
  shows "frame_ok rd wr (pipe_is_closed_step rd (PipeRead k n acc) (CkTest st m a b) s) rd"
proof (cases "(of_nat (env_runs s rd) :: u32) = of_nat m")
  case True
  have "env_runs s rd < 2 ^ 32" using assms(2) by (simp only: bounded_def)
  from read_answer [OF assms(1,3,4) True this] assms(6) have eq: "a = b \<longleftrightarrow> readers_only s" by simp
  show ?thesis
    using True assms(5) eq by (cases st) (auto simp: frame_ok_goto reader_ok_def)
next
  case False
  then show ?thesis using assms(5) by (simp add: frame_ok_goto reader_ok_def)
qed

lemma writer_test:
  assumes "maps_ok s" and "bounded s" and "cur s = wr"
    and "pc s wr = InCall (PipeWrite k bs i) (CkTest st m a b)"
    and "writer_ok s bs i (CkTest st m a b)" and "(wr, k) \<in> wfd s"
  shows "frame_ok rd wr (pipe_is_closed_step wr (PipeWrite k bs i) (CkTest st m a b) s) wr"
proof (cases "(of_nat (env_runs s wr) :: u32) = of_nat m")
  case True
  have "env_runs s wr < 2 ^ 32" using assms(2) by (simp only: bounded_def)
  from write_answer [OF assms(1,3,4) True this] assms(6) have eq: "a = b \<Longrightarrow> rfd s = {}" by simp
  show ?thesis
    using True assms(5) eq by (cases st) (auto simp: frame_ok_goto writer_ok_def)
next
  case False
  then show ?thesis using assms(5) by (simp add: frame_ok_goto writer_ok_def)
qed

lemma reader_step:
  assumes "stream_ok rd wr s" and "maps_ok s" and "bounded s" and "cur s = rd"
    and pcs: "pc s rd = InCall (PipeRead k n acc) l"
  shows "data_ok (pipe_read_step False rd k n acc l s)"
    and "frame_ok rd wr (pipe_read_step False rd k n acc l s) rd"
    and "sent (pipe_read_step False rd k n acc l s) = sent s"
    and "p_buf (pipe_read_step False rd k n acc l s) = p_buf s"
    and "length (got s) \<le> length (got (pipe_read_step False rd k n acc l s))"
proof -
  have data: "data_ok s" and ok: "reader_ok s n acc l"
    using assms(1) pcs by (auto simp: stream_ok_def frame_ok_def dest!: spec [of _ rd])
  have mapped: "(rd, k) \<in> rfd s"
    using assms(2) pcs by (auto simp: maps_ok_def pc_ok_def dest!: spec [of _ rd])
  note len = data_ok_lengths [OF data assms(3)]
  note same = data_ok_moved [OF data]
  show "data_ok (pipe_read_step False rd k n acc l s)"
    using ok by (cases l) (simp_all add: same read_publish [OF data] reader_ok_def
      del: pipe_is_closed_step.simps)
  show "frame_ok rd wr (pipe_read_step False rd k n acc l s) rd"
  proof (cases l)
    case (CkTest st m a b)
    then show ?thesis using reader_test [OF assms(2-4) _ _ mapped] pcs ok by simp
  next
    case LAccess
    then show ?thesis
      using ok mapped len(5) read_access [OF data] by (auto simp: frame_ok_goto reader_ok_def)
  next
    case (LLate b)
    then show ?thesis
      using ok by (auto simp: frame_ok_goto reader_ok_def suffix_def)
  qed (use ok len(7) in \<open>auto simp: frame_ok_goto reader_ok_def\<close>)
  show "sent (pipe_read_step False rd k n acc l s) = sent s"
    and "p_buf (pipe_read_step False rd k n acc l s) = p_buf s"
    and "length (got s) \<le> length (got (pipe_read_step False rd k n acc l s))"
    using closed_step_same_data [of s rd "PipeRead k n acc" l] ok
    by (cases l; simp add: goto_def return_val_def same_data_def reader_ok_def
      del: pipe_is_closed_step.simps)+
qed

lemma writer_step:
  assumes "stream_ok rd wr s" and "maps_ok s" and "bounded s" and "cur s = wr"
    and pcs: "pc s wr = InCall (PipeWrite k bs i) l"
  shows "data_ok (pipe_write_step False wr k bs i l s)"
    and "frame_ok rd wr (pipe_write_step False wr k bs i l s) wr"
    and "got (pipe_write_step False wr k bs i l s) = got s"
    and "prefix (sent s) (sent (pipe_write_step False wr k bs i l s))"
proof -
  have data: "data_ok s" and ok: "writer_ok s bs i l"
    using assms(1) pcs by (auto simp: stream_ok_def frame_ok_def dest!: spec [of _ wr])
  have mapped: "(wr, k) \<in> wfd s"
    using assms(2) pcs by (auto simp: maps_ok_def pc_ok_def dest!: spec [of _ wr])
  show "data_ok (pipe_write_step False wr k bs i l s)"
    using ok by (cases l) (simp_all add: data_ok_moved [OF data] write_publish [OF data]
      write_access(1) [OF data assms(3)] writer_ok_def del: pipe_is_closed_step.simps)
  show "frame_ok rd wr (pipe_write_step False wr k bs i l s) wr"
  proof (cases l)
    case (CkTest st m a b)
    then show ?thesis using writer_test [OF assms(2-4) _ _ mapped] pcs ok by simp
  next
    case LAccess
    then show ?thesis
      using ok write_access(2) [OF data assms(3)] by (auto simp: frame_ok_goto writer_ok_def)
  next
    case (LLate b)
    then show ?thesis
      using ok by (auto simp: frame_ok_goto writer_ok_def suffix_def take_Suc_conv_app_nth)
  qed (use assms(1) ok room_iff [OF data assms(3)] in
    \<open>auto simp: frame_ok_goto writer_ok_def stream_ok_def\<close>)
  show "got (pipe_write_step False wr k bs i l s) = got s"
    and "prefix (sent s) (sent (pipe_write_step False wr k bs i l s))"
    using closed_step_same_data [of s wr "PipeWrite k bs i" l] ok
    by (cases l; simp add: goto_def return_val_def same_data_def writer_ok_def
      del: pipe_is_closed_step.simps)+
qed

text \<open>Every event keeps the invariant.\<close>

lemma stream_ok_quiet:
  assumes "stream_ok rd wr s" and "local_step p s s'" and "same_data s s'"
    and "rfd s = {} \<longrightarrow> rfd s' = {}" and "rfd s' \<subseteq> {rd} \<times> UNIV"
    and "p \<noteq> rd \<Longrightarrow> readers_only s \<Longrightarrow> readers_only s'" and "frame_ok rd wr s' p"
  shows "stream_ok rd wr s'"
proof -
  have "frame_ok rd wr s' q" for q
  proof (cases "q = p")
    case False
    show ?thesis
      by (rule frame_ok_mono [of rd wr s])
        (use assms False in \<open>auto simp: stream_ok_def local_step_def same_data_def\<close>)
  qed (use assms(7) in simp)
  then show ?thesis
    using assms(1,3,4,5) data_ok_same [of s s'] by (auto simp: stream_ok_def)
qed

lemma stream_ok_call:
  assumes "stream_ok rd wr s" and "maps_ok s" and "bounded s" and "cur s = p"
    and pcs: "pc s p = InCall f l"
  shows "stream_ok rd wr (call_step False p f l s)" (is "stream_ok rd wr ?s'")
proof -
  have keep: "same_maps s ?s'"
    using assms(2) pcs call_step_keeps(1) by (auto simp: maps_ok_def pc_ok_def dest!: spec [of _ p])
  have frame: "frame_ok rd wr s q" for q using assms(1) by (simp add: stream_ok_def)
  have rfd: "rfd ?s' \<subseteq> {rd} \<times> UNIV" "rfd s = {} \<longrightarrow> rfd ?s' = {}"
    and ro: "readers_only s \<longrightarrow> readers_only ?s'"
    using assms(1) keep by (simp_all add: stream_ok_def same_maps_def readers_only_def)
  have pcq: "pc ?s' q = pc s q" if "q \<noteq> p" for q
    using call_step_local [of p s False f l] that by (simp add: local_step_def)
  show ?thesis
  proof (cases f)
    case (PipeRead k n acc)
    then have p: "p = rd" using frame [of p] pcs by (simp add: frame_ok_def)
    note step = reader_step [OF assms(1-3), of k n acc l]
    have "frame_ok rd wr ?s' q" for q
      using frame_ok_mono [OF frame pcq, of q] step assms(4) pcs p PipeRead rfd(2)
      by (cases "q = p") auto
    then show ?thesis using step(1) assms(4) pcs p PipeRead rfd(1) by (simp add: stream_ok_def)
  next
    case (PipeWrite k bs i)
    then have p: "p = wr" using frame [of p] pcs by (simp add: frame_ok_def)
    note step = writer_step [OF assms(1-3), of k bs i l]
    have "frame_ok rd wr ?s' q" for q
      using frame_ok_mono [OF frame pcq, of q] step assms(4) pcs p PipeWrite ro
      by (cases "q = p") auto
    then show ?thesis using step(1) assms(4) pcs p PipeWrite rfd(1) by (simp add: stream_ok_def)
  next
    case (PipeQuery k)
    have "frame_ok rd wr ?s' p"
      using frame [of p] unfolding PipeQuery call_step.simps
      by (cases "(p, PipeQuery k, l, s)" rule: pipe_is_closed_step.cases) (simp_all add: frame_ok_goto)
    moreover have "same_data s ?s'" using PipeQuery by (simp add: closed_step_same_data)
    ultimately show ?thesis using stream_ok_quiet [OF assms(1) call_step_local] rfd ro by blast
  qed
qed

lemma stream_ok_event:
  assumes "stream_ok rd wr s" and "maps_ok s" and "bounded s" and "permitted rd wr e s"
  shows "stream_ok rd wr (pipe_event False e s)"
proof (cases e)
  case (Switch q)
  have "frame_ok rd wr (pipe_event False e s) p" for p
    by (rule frame_ok_mono [of rd wr s]) (use assms(1) Switch in \<open>auto simp: stream_ok_def readers_only_def\<close>)
  then show ?thesis using assms(1) Switch by (simp add: stream_ok_def data_ok_def)
next
  case Step
  show ?thesis
  proof (cases "pc s (cur s)")
    case Idle
    then show ?thesis using assms(1) Step by simp
  next
    case (InCall f l)
    then show ?thesis using stream_ok_call [OF assms(1-3)] Step by simp
  next
    case (InFd op l)
    have rfd: "rfd s \<subseteq> {rd} \<times> UNIV" using assms(1) by (simp add: stream_ok_def)
    have "frame_ok rd wr (fdop_step (cur s) op l s) (cur s)"
      using assms(1) by (cases op; cases l)
        (auto simp: frame_ok_def stream_ok_def pipe_defs dest!: spec [of _ "cur s"])
    then show ?thesis
      using stream_ok_quiet [OF assms(1) fdop_step_local fdop_step_same_data] fdop_step_rfd
        fdop_step_readers_only [OF rfd] rfd Step InFd by simp
  qed
next
  case (Begin r)
  have maps: "same_maps s (begin_call (cur s) r s)" by (cases r) simp_all
  have "frame_ok rd wr (begin_call (cur s) r s) (cur s)" if "pc s (cur s) = Idle"
    using assms(1,4) Begin
    by (cases r) (auto simp: frame_ok_def pipe_defs reader_ok_def writer_ok_def)
  then show ?thesis
    using stream_ok_quiet [OF assms(1) begin_call_local begin_call_same_data] maps assms(1) Begin
    by (simp add: same_maps_def readers_only_def stream_ok_def [of rd wr s])
qed

lemma pipe_event_grows:
  "length (sent s) \<le> length (sent (pipe_event early e s))" (is "?low")
  "length (sent (pipe_event early e s)) \<le> Suc (length (sent s))" (is "?high")
  "env_runs s p \<le> env_runs (pipe_event early e s) p \<and>
   env_runs (pipe_event early e s) p \<le> Suc (env_runs s p)"
proof -
  have call: "length (sent s) \<le> length (sent (call_step early q f l s))"
    "length (sent (call_step early q f l s)) \<le> Suc (length (sent s))" for q f l
    using closed_step_same_data [of s q f l]
    by (cases f; cases l; simp add: same_data_def goto_def return_val_def Let_def
      del: pipe_is_closed_step.simps)+
  have fdop: "sent (fdop_step q op l s) = sent s" for q op l
    using fdop_step_same_data by (simp add: same_data_def)
  have beg: "sent (begin_call q r s) = sent s" for q r
    using begin_call_same_data by (simp add: same_data_def)
  show ?low ?high by (cases e; simp add: call fdop beg split: pc.split)+
  show "env_runs s p \<le> env_runs (pipe_event early e s) p \<and>
    env_runs (pipe_event early e s) p \<le> Suc (env_runs s p)"
    using run_step_local [of "cur s" s early] begin_call_local [of "cur s" s]
    by (cases e) (simp_all add: local_step_def del: run_step.simps)
qed

lemma bounded_event: "bounded (pipe_event early e s) \<Longrightarrow> bounded s"
  unfolding bounded_def using pipe_event_grows order.strict_trans1 by metis

lemma streaming_piping: "streaming rd wr s \<Longrightarrow> piping False s"
  by (induction rule: streaming.induct) (auto intro: piping.intros)

lemma fresh_stream_ok: "fresh_pipe s \<Longrightarrow> rfd s \<subseteq> {rd} \<times> UNIV \<Longrightarrow> stream_ok rd wr s"
  by (simp add: fresh_pipe_def stream_ok_def data_ok_def frame_ok_def)

lemma streaming_ok: "streaming rd wr s \<Longrightarrow> bounded s \<Longrightarrow> stream_ok rd wr s"
proof (induction rule: streaming.induct)
  case (streaming_event s e)
  then show ?case
    using bounded_event stream_ok_event piping_maps_ok [OF streaming_piping] by blast
qed (simp add: fresh_stream_ok)

text \<open>
  C14. A pipe is a first-in first-out stream of bytes, under every interleaving of the reading
  environment, the writing environment and any others that close, duplicate and query descriptors:
  the bytes read so far are the first of the bytes written, in order; a call of \<open>pipe_read\<close> in
  progress has in its buffer the last of the bytes read and a call of \<open>pipe_write\<close> has sent what
  its loop variable says; and while the read end is open the two positions are never more than
  \<open>BY2PIPE\<close> apart.  This is about programs in which the byte of the buffer is accessed before the new position
  is stored, in both \<open>pipe_read\<close> and \<open>pipe_write\<close>; C also allows the other order, and then a reader can get a
  byte that was never written (\<open>early_order_breaks_fifo\<close>).  (Fewer than 2^32 bytes have been written, each environment has been scheduled
  fewer than 2^32 times, and only the reading environment has the read end open.)
\<close>

theorem pipe_fifo:
  assumes "streaming rd wr s" and "bounded s"
  shows "prefix (got s) (sent s) \<and>
    (rfd s \<noteq> {} \<longrightarrow> unat (p_wpos s) - unat (p_rpos s) \<le> BY2PIPE) \<and>
    (\<forall>k n acc l. pc s rd = InCall (PipeRead k n acc) l \<longrightarrow> suffix acc (got s)) \<and>
    (\<forall>k bs i l. pc s wr = InCall (PipeWrite k bs i) l \<longrightarrow> suffix (take i bs) (sent s))"
proof -
  have ok: "data_ok s" "frame_ok rd wr s p" for p
    using streaming_ok [OF assms] by (simp_all add: stream_ok_def)
  note len = data_ok_lengths [OF ok(1) assms(2)]
  have "prefix (got s) (sent s)" "rfd s \<noteq> {} \<longrightarrow> unat (p_wpos s) - unat (p_rpos s) \<le> BY2PIPE"
    using ok(1) unfolding len(2,3) by (auto simp: data_ok_def)
  moreover have "pc s rd = InCall (PipeRead k n acc) l \<Longrightarrow> suffix acc (got s)" for k n acc l
    using ok(2) [of rd] by (simp add: frame_ok_def reader_ok_def)
  moreover have "pc s wr = InCall (PipeWrite k bs i) l \<Longrightarrow> suffix (take i bs) (sent s)" for k bs i l
    using ok(2) [of wr] by (simp add: frame_ok_def writer_ok_def)
  ultimately show ?thesis by blast
qed

text \<open>
  \<open>pipe_read\<close> gives up only at the end of the stream: when it returns it returns the number of
  bytes in its buffer, and if that is less than it was asked for, everything written has been read
  and no environment has the write end open any more.
\<close>

theorem pipe_read_short:
  assumes "streaming rd wr s" and "bounded s" and "cur s = rd"
    and "pc s rd = InCall (PipeRead k n acc) l" and "pc (pipe_event False Step s) rd = Idle"
  shows "result (pipe_event False Step s) rd = int (length acc) \<and>
    (length acc < n \<longrightarrow> got s = sent s \<and> wfd s = {})"
proof -
  have ok: "data_ok s" "frame_ok rd wr s rd"
    using streaming_ok [OF assms(1,2)] by (simp_all add: stream_ok_def)
  have rok: "reader_ok s n acc l" using ok(2) assms(4) by (simp add: frame_ok_def)
  have ends: "ends_ok s" "(rd, k) \<in> rfd s"
    using piping_maps_ok [OF streaming_piping [OF assms(1)]] assms(4)
    by (auto simp: maps_ok_def pc_ok_def dest!: spec [of _ rd])
  have "pc (pipe_is_closed_step rd (PipeRead k n acc) l s) rd \<noteq> Idle"
    using assms(4)
    by (cases "(rd, PipeRead k n acc, l, s)" rule: pipe_is_closed_step.cases)
      (auto, (case_tac st; simp)+)
  then have "(l = LFor \<and> \<not> length acc < n) \<or> (l = LIf \<and> p_wpos s \<le> p_rpos s)"
    using assms(3-5) by (cases l) (auto simp: Let_def simp del: pipe_is_closed_step.simps split: if_splits)
  moreover have "readers_only s \<Longrightarrow> wfd s = {}" using ends(1) by (auto simp: ends_ok_def readers_only_def)
  ultimately show ?thesis
    using assms(3,4) rok data_ok_lengths(4) [OF ok(1) assms(2)]
    by (auto simp: return_val_def reader_ok_def)
qed

section \<open>Runs\<close>

text \<open>
  Environment 0 holds the read end as descriptor 3 and environment 1 the write end as descriptor 4.
\<close>

definition two_envs :: pipe_sys where
  "two_envs =
     \<lparr>p_rpos = 0, p_wpos = 0, p_buf = replicate BY2PIPE 0, rfd = {(0, 3)}, wfd = {(1, 4)},
      dat = {(0, 3), (1, 4)}, cur = 1, env_runs = (\<lambda>_. 0), pc = (\<lambda>_. Idle), result = (\<lambda>_. 0),
      sent = [], got = []\<rparr>"

lemma two_envs_fresh: "fresh_pipe two_envs" "rfd two_envs \<subseteq> {0} \<times> UNIV"
  by (auto simp: two_envs_def fresh_pipe_def)

lemma piping_events: "piping early s \<Longrightarrow> piping early (pipe_events early es s)"
  by (induction es arbitrary: s) (simp_all add: piping_event del: pipe_event.simps)

fun permitted_all :: "nat \<Rightarrow> nat \<Rightarrow> event list \<Rightarrow> pipe_sys \<Rightarrow> bool" where
  "permitted_all rd wr [] s \<longleftrightarrow> True"
| "permitted_all rd wr (e # es) s \<longleftrightarrow> permitted rd wr e s \<and> permitted_all rd wr es (pipe_event False e s)"

lemma streaming_events:
  "streaming rd wr s \<Longrightarrow> permitted_all rd wr es s \<Longrightarrow> streaming rd wr (pipe_events False es s)"
  by (induction es arbitrary: s) (simp_all add: streaming_event del: pipe_event.simps)

lemma pipe_events_grow:
  "length (sent (pipe_events early es s)) \<le> length (sent s) + length es"
  "env_runs (pipe_events early es s) p \<le> env_runs s p + length es"
proof (induction es arbitrary: s)
  case (Cons e es)
  {
    case 1
    show ?case
      using Cons(1) [of "pipe_event early e s"] pipe_event_grows(2) [of early e s] by simp
  next
    case 2
    show ?case
      using Cons(2) [of "pipe_event early e s"] pipe_event_grows(3) [of s p early e] by simp
  }
qed simp_all

lemma two_envs_bounded:
  assumes "length es < 2 ^ 32"
  shows "bounded (pipe_events early es two_envs)"
proof -
  have "length (sent (pipe_events early es two_envs)) \<le> length es"
    and "env_runs (pipe_events early es two_envs) p \<le> length es" for p
    using pipe_events_grow [where es = es and s = two_envs and early = early]
    by (simp_all add: two_envs_def)
  then show ?thesis using assms order.strict_trans1 unfolding bounded_def by metis
qed

definition write_two :: "event list" where
  "write_two = Begin (Write 4 [7, 8]) # replicate 28 Step"

definition close_then_read :: "event list" where
  "close_then_read =
     Begin (CloseFd 4) # replicate 3 Step @ Switch 0 # Begin (Read 3 5) # replicate 4 Step"

theorem pipe_is_closed_correct_witness:
  "answers (pipe_events False close_then_read two_envs) 0 3 True \<and>
   wfd (pipe_events False close_then_read two_envs) = {}"
proof -
  have run: "piping False (pipe_events False close_then_read two_envs)"
    by (rule piping_events [OF piping_start [OF two_envs_fresh(1)]])
  have ans: "answers (pipe_events False close_then_read two_envs) 0 3 True" by code_simp
  have rfd: "(0, 3) \<in> rfd (pipe_events False close_then_read two_envs)" by code_simp
  have "bounded (pipe_events False close_then_read two_envs)"
    by (rule two_envs_bounded) (simp add: close_then_read_def)
  then have runs: "env_runs (pipe_events False close_then_read two_envs) 0 < 2 ^ 32"
    by (simp only: bounded_def)
  show ?thesis using pipe_is_closed_correct [OF run ans runs] ans rfd by simp
qed

definition whole_run :: "event list" where
  "whole_run = write_two @ close_then_read @ replicate 29 Step"

lemma whole_run_streaming:
  "streaming 0 1 (pipe_events False whole_run two_envs)"
  "bounded (pipe_events False whole_run two_envs)"
proof -
  have "permitted_all 0 1 whole_run two_envs" by code_simp
  then show "streaming 0 1 (pipe_events False whole_run two_envs)"
    using streaming_events streaming_start two_envs_fresh by blast
  show "bounded (pipe_events False whole_run two_envs)"
    by (rule two_envs_bounded) (simp add: whole_run_def write_two_def close_then_read_def)
qed

theorem pipe_fifo_witness:
  "prefix (got (pipe_events False whole_run two_envs)) (sent (pipe_events False whole_run two_envs)) \<and>
   got (pipe_events False whole_run two_envs) = [7, 8]"
proof -
  have "got (pipe_events False whole_run two_envs) = [7, 8]" by code_simp
  then show ?thesis using pipe_fifo [OF whole_run_streaming] by simp
qed

theorem pipe_read_short_witness:
  "result (pipe_event False Step (pipe_events False whole_run two_envs)) 0 = 2 \<and>
   got (pipe_events False whole_run two_envs) = sent (pipe_events False whole_run two_envs)"
proof -
  have pc: "pc (pipe_events False whole_run two_envs) 0 = InCall (PipeRead 3 5 [7, 8]) LIf"
    "pc (pipe_event False Step (pipe_events False whole_run two_envs)) 0 = Idle"
    "cur (pipe_events False whole_run two_envs) = 0"
    by code_simp+
  show ?thesis using pipe_read_short [OF whole_run_streaming pc(3,1,2)] by simp
qed

section \<open>What the assumptions exclude\<close>

text \<open>
  If the new position is stored before the buffer is accessed, a reader scheduled in between gets a
  byte that was never written.
\<close>

theorem early_order_breaks_fifo:
  "\<not> prefix (got (pipe_events True
      (Begin (Write 4 [7]) # replicate 11 Step @ Switch 0 # Begin (Read 3 1) # replicate 12 Step)
      two_envs)) [7]"
  by code_simp

text \<open>
  With a second environment holding the read end, a descriptor operation there between the two
  calls of \<open>_pipe_is_closed\<close> makes the first say closed and the second not: \<open>pipe_read\<close> then
  reads from an empty pipe.  Environment 2 closes its copy of the read end after environment 1
  has closed the write end; nothing was ever written, and one byte is read.
\<close>

definition three_envs :: pipe_sys where
  "three_envs = two_envs\<lparr>rfd := {(0, 3), (2, 5)}, dat := {(0, 3), (2, 5), (1, 4)}\<rparr>"

theorem second_reader_underflows:
  "let s = pipe_events False
     (Begin (CloseFd 4) # replicate 3 Step @ Switch 0 # Begin (Read 3 1) # replicate 5 Step @
      Switch 2 # Begin (CloseFd 5) # Step # Switch 0 # replicate 6 Step) three_envs
   in sent s = [] \<and> got s = [0]"
  by code_simp

text \<open>
  The test for an empty pipe compares the positions as numbers: once the write position has wrapped
  and the read position has not, a byte in the pipe is not seen.
\<close>

theorem wrapped_position_hides_byte:
  assumes "p_rpos s = 0xFFFFFFFF" and "p_wpos s = 0"
  shows "pc (pipe_read_step early p k n acc LWhile s) p = InCall (PipeRead k n acc) LYield"
  using assms by simp

end
