(* ===== verification/Mos_Fork.thy ===== *)
theory Mos_Fork
  imports Mos_Isolation "HOL-Library.Sublist"
begin

text \<open>
  Copy-on-write \<open>fork\<close> (\<open>user/lib/fork.c\<close>) on top of the kernel model: the library code runs in the
  current environment, reads its own page tables through the windows \<open>vpd\<close> and \<open>vpt\<close> at \<open>UVPT\<close>, and
  calls the system calls of \<open>Mos_Syscall\<close>.  The state is the kernel's; the local variables of the C
  functions are not in the modelled memory, and no other environment runs in between.
\<close>

section \<open>The page table windows\<close>

text \<open>
  \<open>vpd[i]\<close> and \<open>vpt[vpn]\<close> of an environment.  The window of a page table that does not exist is not
  mapped; the code looks at \<open>vpt\<close> only after \<open>vpd\<close> has shown the table, and such an entry counts as 0
  here.
\<close>

definition vpd :: "'a kstate_scheme \<Rightarrow> nat \<Rightarrow> nat \<Rightarrow> u32" where
  "vpd s c i = pde_at s (env_pgdir (envs s c)) i"

definition vpt :: "'a kstate_scheme \<Rightarrow> nat \<Rightarrow> nat \<Rightarrow> u32" where
  "vpt s c vpn =
     (if pte_valid (vpd s c (vpn div 1024)) then pte_at s (env_pgdir (envs s c)) (vpn div 1024) (vpn mod 1024)
      else 0)"

definition page_va :: "nat \<Rightarrow> u32" where
  "page_va vpn = push_bit PGSHIFT (of_nat vpn)"

section \<open>duppage and fork\<close>

text \<open>A system call whose result the library function ignores.\<close>

definition ignore :: "(sysret \<times> 's) outcome \<Rightarrow> 's outcome" where
  "ignore m = obind m (\<lambda>(r, s). Ret s)"

definition duppage :: "u32 \<Rightarrow> nat \<Rightarrow> 'a kernel_scheme \<Rightarrow> 'a kernel_scheme outcome" where
  "duppage envid vpn s =
     with_cur s (\<lambda>c.
       let perm = vpt s c vpn AND 0xfff; addr = page_va vpn in
       if perm AND PTE_D = 0 \<or> perm AND PTE_LIBRARY \<noteq> 0 then ignore (sys_mem_map 0 addr envid addr perm s)
       else
         let perm = (perm AND NOT PTE_D) OR PTE_COW in
         obind (ignore (sys_mem_map 0 addr envid addr perm s)) (\<lambda>s.
         ignore (sys_mem_map 0 addr 0 addr perm s)))"

definition fork_page :: "u32 \<Rightarrow> nat \<Rightarrow> nat \<Rightarrow> 'a kernel_scheme \<Rightarrow> 'a kernel_scheme outcome" where
  "fork_page child i j s =
     with_cur s (\<lambda>c.
       let vpn = i * 1024 + j in
       if vpn < VPN USTACKTOP \<and> pte_valid (vpt s c vpn) then duppage child vpn s else Ret s)"

definition fork_table :: "u32 \<Rightarrow> nat \<Rightarrow> 'a kernel_scheme \<Rightarrow> 'a kernel_scheme outcome" where
  "fork_table child i s =
     with_cur s (\<lambda>c. if pte_valid (vpd s c i) then ofold (fork_page child i) [0..<1024] s else Ret s)"

definition fork_pages :: "u32 \<Rightarrow> 'a kernel_scheme \<Rightarrow> 'a kernel_scheme outcome" where
  "fork_pages child s = ofold (fork_table child) [0..<PDX (ROUND USTACKTOP PDMAP)] s"

text \<open>
  The macro \<open>try\<close> in user code: a negative result of a system call is returned.  A system call that
  does not return a value, or does not come back, cannot occur here.
\<close>

definition user_try ::
  "(sysret \<times> 's) outcome \<Rightarrow> ('s \<Rightarrow> (u32 \<times> 's) outcome) \<Rightarrow> (u32 \<times> 's) outcome" where
  "user_try m f =
     obind m (\<lambda>(r, s). case r of Returns v \<Rightarrow> if sint v < 0 then Ret (v, s) else f s | _ \<Rightarrow> Undef)"

text \<open>
  \<open>fork\<close> as the parent runs it; \<open>entry\<close> is the address of \<open>cow_entry\<close>.  The child resumes after
  \<open>syscall_exofork\<close> with 0 in \<open>$v0\<close> and only sets its \<open>env\<close> pointer.
\<close>

definition fork :: "u32 \<Rightarrow> 'a kernel_scheme \<Rightarrow> (u32 \<times> 'a kernel_scheme) outcome" where
  "fork entry s =
     with_cur s (\<lambda>c.
       user_try (if env_user_tlb_mod_entry (envs s c) \<noteq> entry then sys_set_tlb_mod_entry 0 entry s
                 else Ret (Returns 0, s)) (\<lambda>s.
       obind (sys_exofork s) (\<lambda>(r, s).
         case r of
           Returns child \<Rightarrow>
             if child = 0 then Ret (0, s)
             else obind (fork_pages child s) (\<lambda>s.
               user_try (sys_set_tlb_mod_entry child entry s) (\<lambda>s.
               user_try (sys_set_env_status child ENV_RUNNABLE s) (\<lambda>s.
               Ret (child, s))))
         | _ \<Rightarrow> Undef)))"

text \<open>The index into \<open>envs\<close> at which the child sets its \<open>env\<close> pointer.\<close>

definition fork_child :: "'a kernel_scheme \<Rightarrow> (nat \<times> 'a kernel_scheme) outcome" where
  "fork_child s = obind (sys_getenvid s) (\<lambda>(r, s). case r of Returns v \<Rightarrow> Ret (ENVX v, s) | _ \<Rightarrow> Undef)"

section \<open>The copy-on-write handler\<close>

text \<open>\<open>memcpy\<close> in user space with both addresses and the length multiples of 4.\<close>

fun user_copy_words :: "u32 \<Rightarrow> u32 \<Rightarrow> nat \<Rightarrow> 'a kernel_scheme \<Rightarrow> 'a kernel_scheme outcome" where
  "user_copy_words dst src 0 s = Ret s"
| "user_copy_words dst src (Suc n) s =
     obind (user_get32 src s) (\<lambda>(w, s).
     obind (user_put32 dst w s) (user_copy_words (dst + 4) (src + 4) n))"

text \<open>
  \<open>cow_entry\<close>, called with the address \<open>tf\<close> of the saved trap frame, whose \<open>cp0_badvaddr\<close> (word 35) is
  the faulting address.  When \<open>syscall_set_trapframe\<close> succeeds the program continues from the restored
  frame; it can only fail for an illegal address, and then \<open>cow_entry\<close> panics.
\<close>

abbreviation (input) BADVADDR_OFF :: u32 where "BADVADDR_OFF \<equiv> 140"

definition cow_entry :: "u32 \<Rightarrow> 'a kernel_scheme \<Rightarrow> 'a kernel_scheme outcome" where
  "cow_entry tf s =
     obind (user_get32 (tf + BADVADDR_OFF) s) (\<lambda>(va, s).
     with_cur s (\<lambda>c.
       let perm = vpt s c (VPN va) AND 0xfff in
       if perm AND PTE_COW = 0 then Panic ''This va doesn't have PTE_COW flag''
       else
         let perm = (perm AND NOT PTE_COW) OR PTE_D in
         obind (ignore (sys_mem_alloc 0 UCOW PTE_D s)) (\<lambda>s.
         let va = ROUNDDOWN va BY2PG in
         obind (user_copy_words UCOW va 1024 s) (\<lambda>s.
         obind (ignore (sys_mem_map 0 UCOW 0 va perm s)) (\<lambda>s.
         obind (ignore (sys_mem_unmap 0 UCOW s)) (\<lambda>s.
         obind (sys_set_trapframe 0 tf s) (\<lambda>(r, s).
           if is_illegal_va_range tf sizeof_Trapframe then Panic ''syscall_set_trapframe returned'' else Ret s)))))))"

section \<open>The environments named by the calls\<close>

lemma with_env_self: "curenv s = Some c \<Longrightarrow> with_env 0 True s f = f c"
  by (simp add: with_env_def envid2env_def)

lemma with_env_child:
  assumes "kinv K s" and "curenv s = Some c" and "live s e" and "owned s c e" and "env_id (envs s e) \<noteq> 0"
  shows "with_env (env_id (envs s e)) True s f = f e"
proof -
  have "ENVX (env_id (envs s e)) = e" using kinvD(2)[OF assms(1)] assms(3) by (auto simp: kenvs_ok_def)
  then show ?thesis
    using envid2env_nonzero[OF assms(1,2,5), of True] assms(3,4) by (simp add: with_env_def)
qed

section \<open>What mapping a page costs\<close>

lemma unat_plus_one_le: "unat (x + 1 :: u16) \<le> Suc (unat x)"
  by (simp add: unat_word_ariths)

lemma pgdir_walk_cost:
  assumes "pgdir_walk d va True s = Ret (r, s')"
  shows "suffix (page_free_list s') (page_free_list s)"
    and "pp_ref s' = pp_ref s \<or> (\<exists>q\<in>set (page_free_list s). pp_ref s' = (pp_ref s)(q := pp_ref s q + 1))"
  using assms
  by (auto simp: pgdir_walk_def page_alloc_def list_remove_def Let_def obind_eq_Ret otry_eq_Ret
      suffix_ConsI split: list.splits if_splits)

lemma insert_finish_cost:
  assumes "page_insert_finish d asid pp va perm s = Ret (r, s')" and "pp \<notin> set (page_free_list s)"
  shows "suffix (page_free_list s') (page_free_list s)"
    and "unat (pp_ref s' p) \<le> Suc (unat (pp_ref s p))"
proof -
  from assms(1) obtain r1 s1 where walk: "pgdir_walk d va True (tlb_invalidate asid va s) = Ret (r1, s1)"
    and rest: "page_free_list s' = page_free_list s1" "pp_ref s' = pp_ref s1 \<or> pp_ref s' = (pp_ref s1)(pp := pp_ref s1 pp + 1)"
    by (auto simp: page_insert_finish_def Let_def otry_eq_Ret split: option.splits)
  note cost = pgdir_walk_cost[OF walk]
  show "suffix (page_free_list s') (page_free_list s)" using cost(1) rest(1) by simp
  from cost(2) rest(2) assms(2) show "unat (pp_ref s' p) \<le> Suc (unat (pp_ref s p))"
    using unat_plus_one_le[of "pp_ref s p"] by auto
qed

lemma page_insert_cost:
  assumes "pmap_inv D base s" and "d \<in> D" and "va < UTOP" and "page_insert d asid pp va perm s = Ret (r, s')"
    and "pp \<notin> set (page_free_list s)" and "case vmap s d va of None \<Rightarrow> True | Some e \<Rightarrow> PPN e = pp"
  shows "suffix (page_free_list s') (page_free_list s)"
    and "unat (pp_ref s' p) \<le> Suc (unat (pp_ref s p))"
    and "vmap s d va \<noteq> None \<Longrightarrow> page_free_list s' = page_free_list s \<and> pp_ref s' = pp_ref s \<and> r = Inr ()"
proof -
  have "page_insert_finish d asid pp va perm s = Ret (r, s') \<and> vmap s d va = None \<or>
      page_free_list s' = page_free_list s \<and> pp_ref s' = pp_ref s \<and> r = Inr ()"
  proof (cases "pte_valid (pde_at s d (PDX va))")
    case False
    then show ?thesis using assms(4) by (auto simp: page_insert_def pgdir_walk_absent vmap_def)
  next
    case True
    note walk = pgdir_walk_present[OF assms(1,2) PDX_user[OF assms(3)] True, of False]
    show ?thesis
      using assms(4,6) True walk
      by (auto simp: page_insert_def peek_def vmap_def pa2page_def Let_def obind_eq_Ret split: if_splits)
  qed
  then show "suffix (page_free_list s') (page_free_list s)" "unat (pp_ref s' p) \<le> Suc (unat (pp_ref s p))"
    "vmap s d va \<noteq> None \<Longrightarrow> page_free_list s' = page_free_list s \<and> pp_ref s' = pp_ref s \<and> r = Inr ()"
    using insert_finish_cost[OF _ assms(5)] by auto
qed

section \<open>Page table entries\<close>

lemma page_va_eq: "page_va vpn = page2pa vpn"
  by (simp add: page_va_def page2pa_def)

lemma VPN_page_va [simp]: "vpn < 1048576 \<Longrightarrow> VPN (page_va vpn) = vpn"
  by (simp add: page_va_eq)

text \<open>\<open>vpt\<close> shows the translation the MMU uses.\<close>

lemma vpt_vmap:
  assumes "vpn < 1048576"
  shows "vmap s (env_pgdir (envs s c)) (page_va vpn) = (if pte_valid (vpt s c vpn) then Some (vpt s c vpn) else None)"
  using assms by (simp add: vmap_def vpt_def vpd_def PDX_VPN PTX_VPN)

lemma vmap_same_page: "VPN va = VPN va' \<Longrightarrow> vmap s d va = vmap s d va'"
  by (simp add: vmap_def PDX_VPN PTX_VPN)

text \<open>The entry a page has after \<open>duppage\<close>, in the parent and in the child.\<close>

definition cow_pte :: "u32 \<Rightarrow> u32" where
  "cow_pte x = (if x AND PTE_D = 0 \<or> x AND PTE_LIBRARY \<noteq> 0 then x else (x AND NOT PTE_D) OR PTE_COW)"

lemma page2pa_PPN: "page2pa (PPN x) = x AND NOT 0xFFF"
  using PTE_ADDR_eq[of x] by (simp add: page2pa_def PPN_def PTE_ADDR_def)

lemma low_bits_and: "(x AND 0xFFF) AND y = x AND y" if "y AND 0xFFF = (y :: u32)"
  using that by (metis and.assoc and.commute)

lemma pte_rebuild: "(x AND NOT 0xFFF) OR (x AND 0xFFF) = (x :: u32)"
  by (metis and.right_neutral bit.conj_disj_distrib bit.disj_cancel_left)

lemma valid_or: "pte_valid x \<Longrightarrow> x OR PTE_V = x"
proof -
  assume "pte_valid x"
  moreover have V: "PTE_V = (2 ^ 9 :: u32)" by simp
  ultimately have "bit x 9" by (simp only: and_exp_eq_0_iff_not_bit not_not)
  then show ?thesis unfolding V by (intro bit_word_eqI) (simp only: bit_or_iff bit_exp_iff, auto)
qed

lemma cow_pte_eqs:
  assumes "pte_valid x"
  shows "page2pa (PPN x) OR (x AND 0xFFF) OR PTE_V = x"
    and "page2pa (PPN x) OR ((x AND 0xFFF) AND NOT PTE_D OR PTE_COW) OR PTE_V = (x AND NOT PTE_D) OR PTE_COW"
proof -
  show "page2pa (PPN x) OR (x AND 0xFFF) OR PTE_V = x"
    unfolding page2pa_PPN or.assoc[symmetric] pte_rebuild by (rule valid_or[OF assms])
  have high: "NOT 0xFFF = NOT 0xFFF AND NOT PTE_D" by simp
  have join: "(x AND NOT 0xFFF) OR ((x AND 0xFFF) AND NOT PTE_D) = x AND NOT PTE_D"
  proof -
    have "(x AND NOT 0xFFF) OR ((x AND 0xFFF) AND NOT PTE_D) = ((x AND NOT 0xFFF) AND NOT PTE_D) OR ((x AND 0xFFF) AND NOT PTE_D)"
      by (subst high) (simp only: and.assoc)
    also have "\<dots> = ((x AND NOT 0xFFF) OR (x AND 0xFFF)) AND NOT PTE_D" by (rule bit.conj_disj_distrib2[symmetric])
    finally show ?thesis by (simp only: pte_rebuild)
  qed
  have "(x AND NOT PTE_D OR PTE_COW) AND PTE_V = x AND PTE_V"
    by (simp only: bit.conj_disj_distrib2 and.assoc) simp
  then have "pte_valid (x AND NOT PTE_D OR PTE_COW)" using assms by simp
  from valid_or[OF this]
  show "page2pa (PPN x) OR ((x AND 0xFFF) AND NOT PTE_D OR PTE_COW) OR PTE_V = (x AND NOT PTE_D) OR PTE_COW"
    unfolding page2pa_PPN or.assoc[symmetric] join .
qed

lemma perm_range: "(x AND 0xFFF :: u32) < 4096" "(x AND 0xFFF) AND NOT PTE_D OR PTE_COW < (4096 :: u32)"
proof -
  have le: "y AND 0xFFF < 4096" for y :: u32
    by (rule le_less_trans[OF word_and_le1]) simp
  show "(x AND 0xFFF :: u32) < 4096" by (rule le)
  have "(x AND 0xFFF) AND NOT PTE_D = (x AND NOT PTE_D) AND 0xFFF" by (simp only: ac_simps)
  then show "(x AND 0xFFF) AND NOT PTE_D OR PTE_COW < (4096 :: u32)" using le by (intro or_less_4096) simp_all
qed

lemma cow_pte_PPN: "pte_valid x \<Longrightarrow> PPN (cow_pte x) = PPN x"
  using cow_pte_eqs[of x] page2pa_or[OF PPN_less perm_range(2), of x x] by (simp add: cow_pte_def)

section \<open>Sharing one page\<close>

text \<open>
  What calls of \<open>syscall_mem_map\<close> by the library may do besides adding mappings: free pages become page
  tables and reference counts grow, but everything that is not memory stays, and every page that was
  mapped somewhere stays mapped there, to the same frame with the same contents.
\<close>

definition mapping_step :: "(nat \<Rightarrow> nat) \<Rightarrow> nat \<Rightarrow> 'a kernel_scheme \<Rightarrow> 'a kernel_scheme \<Rightarrow> bool" where
  "mapping_step K n s s' \<longleftrightarrow> kinv K s' \<and> pmap_state.more s' = pmap_state.more s
     \<and> suffix (page_free_list s') (page_free_list s) \<and> (\<forall>p. unat (pp_ref s' p) \<le> unat (pp_ref s p) + n)
     \<and> (\<forall>d\<in>dirs s. \<forall>va<UTOP. \<forall>x. vmap s d va = Some x \<longrightarrow>
          (\<exists>y. vmap s' d va = Some y \<and> PPN y = PPN x) \<and> frames s' (PPN x) = frames s (PPN x))"

lemma mapping_step_keeps:
  assumes "mapping_step K n s s'"
  shows "kinv K s'" "envs s' = envs s" "curenv s' = curenv s" "dirs s' = dirs s" "live s' = live s"
  using assms more_kfields[of s' s] mem_step_same[of s' s] by (simp_all add: mapping_step_def)

lemma mapping_step_refl: "kinv K s \<Longrightarrow> mapping_step K 0 s s"
  by (simp add: mapping_step_def)

lemma mapping_step_trans:
  assumes "mapping_step K m s s1" and "mapping_step K n s1 s2"
  shows "mapping_step K (m + n) s s2"
proof -
  have "\<exists>z. vmap s2 d va = Some z \<and> PPN z = PPN x" "frames s2 (PPN x) = frames s (PPN x)"
    if "d \<in> dirs s" "va < UTOP" "vmap s d va = Some x" for d va x
  proof -
    from assms(1) that obtain y where y: "vmap s1 d va = Some y" "PPN y = PPN x" "frames s1 (PPN x) = frames s (PPN x)"
      unfolding mapping_step_def by blast
    have "d \<in> dirs s1" using that(1) mapping_step_keeps(4)[OF assms(1)] by simp
    with assms(2) y that(2) show "\<exists>z. vmap s2 d va = Some z \<and> PPN z = PPN x" "frames s2 (PPN x) = frames s (PPN x)"
      unfolding mapping_step_def by metis+
  qed
  moreover have "unat (pp_ref s2 p) \<le> unat (pp_ref s p) + (m + n)" for p
  proof -
    have "unat (pp_ref s2 p) \<le> unat (pp_ref s1 p) + n" "unat (pp_ref s1 p) \<le> unat (pp_ref s p) + m"
      using assms by (simp_all add: mapping_step_def)
    then show ?thesis by linarith
  qed
  ultimately show ?thesis
    using assms by (simp add: mapping_step_def) (metis suffix_order.trans)
qed

lemma share_page:
  assumes inv: "kinv K s" and cur: "curenv s = Some c" and dst: "\<And>f. with_env dstid True s f = f dst" "live s dst"
    and va: "UTEMP \<le> va" "va < UTOP" and perm: "perm < 4096" and refs: "\<forall>p. unat (pp_ref s p) < 65535"
    and src: "vmap s (env_pgdir (envs s c)) va = Some x"
    and old: "case vmap s (env_pgdir (envs s dst)) va of None \<Rightarrow> True | Some y \<Rightarrow> PPN y = PPN x"
  shows "returns (\<lambda>s'. mapping_step K (if vmap s (env_pgdir (envs s dst)) va = None then 1 else 0) s s' \<and>
      (vmap_updated (dirs s) (env_pgdir (envs s dst)) va (Some (page2pa (PPN x) OR perm OR PTE_V)) s s' \<or>
       vmap s (env_pgdir (envs s dst)) va = None \<and> page_free_list s' = [] \<and> same_vmap (dirs s) s s'))
    (ignore (sys_mem_map 0 va dstid va perm s))"
proof -
  let ?d = "env_pgdir (envs s dst)"
  have legal: "\<not> is_illegal_va va" using va by (auto simp: is_illegal_va_def)
  have lc: "live s c" by (rule cur_live[OF inv cur])
  note mem = kinvD(1)[OF inv]
  note leaf = leaf_range[OF mem live_dirs[OF lc] PDX_user[OF va(2)] src]
  obtain r s' where ins: "page_insert ?d (env_asid (envs s dst)) (PPN x) va perm s = Ret (r, s')"
    "insert_post (dirs s) (kbase K s) ?d (PPN x) va perm s (r, s')"
    using page_insert_ok[OF mem live_dirs[OF dst(2)] va(2) leaf(6) _ perm, of "env_asid (envs s dst)"] refs
    by (auto simp: returns_iff)
  note cost = page_insert_cost[OF mem live_dirs[OF dst(2)] va(2) ins(1) leaf(5) old]
  have run: "ignore (sys_mem_map 0 va dstid va perm s) = Ret s'"
    using mem_map_run[OF legal legal inv with_env_self[OF cur] lc dst(1) src, of perm] ins(1)
    by (cases r) (simp_all add: ignore_def)
  have st: "pmap_step (dirs s) (kbase K s) s s'" using ins(2) by (simp add: insert_post_def)
  have upd: "vmap_updated (dirs s) ?d va (Some (page2pa (PPN x) OR perm OR PTE_V)) s s' \<or>
      vmap s ?d va = None \<and> page_free_list s' = [] \<and> same_vmap (dirs s) s s'"
    using ins(2) cost(3) by (cases r) (auto simp: insert_post_def)
  have P: "PPN (page2pa (PPN x) OR perm OR PTE_V) = PPN x" by (rule page2pa_or[OF PPN_less perm])
  have "(\<exists>z. vmap s' d va' = Some z \<and> PPN z = PPN y) \<and> frames s' (PPN y) = frames s (PPN y)"
    if "d \<in> dirs s" "va' < UTOP" "vmap s d va' = Some y" for d va' y
  proof -
    have "frames s' (PPN y) = frames s (PPN y)"
      using leaf_range(6)[OF mem that(1) PDX_user[OF that(2)] that(3)] st by (simp add: pmap_step_def)
    moreover have "PPN y = PPN x" if "d = ?d" "VPN va' = VPN va"
      using old vmap_same_page[OF that(2), of s d] \<open>vmap s d va' = Some y\<close> that(1) by simp
    ultimately show ?thesis using upd that P by (auto simp: vmap_updated_def same_vmap_def)
  qed
  then have "mapping_step K (if vmap s ?d va = None then 1 else 0) s s'"
    using cost kinv_step[OF inv st] st by (simp add: mapping_step_def pmap_step_def)
  then show ?thesis using upd unfolding run by simp
qed

text \<open>A child of the current environment that the library may name in system calls.\<close>

definition child_of :: "'a kernel_scheme \<Rightarrow> nat \<Rightarrow> nat \<Rightarrow> bool" where
  "child_of s c e \<longleftrightarrow> curenv s = Some c \<and> live s e \<and> e \<noteq> c \<and> owned s c e \<and> env_id (envs s e) \<noteq> 0"

lemma child_ofD:
  assumes "kinv K s" and "child_of s c e"
  shows "curenv s = Some c" "live s c" "live s e" "env_pgdir (envs s e) \<noteq> env_pgdir (envs s c)"
    "with_env (env_id (envs s e)) True s f = f e"
proof -
  show cur: "curenv s = Some c" and e: "live s e" using assms(2) by (simp_all add: child_of_def)
  show c: "live s c" by (rule cur_live[OF assms(1) cur])
  show "env_pgdir (envs s e) \<noteq> env_pgdir (envs s c)"
    using kinvD(2)[OF assms(1)] assms(2) c e by (auto simp: kenvs_ok_def child_of_def inj_on_def)
  show "with_env (env_id (envs s e)) True s f = f e"
    using with_env_child[OF assms(1)] assms(2) by (simp add: child_of_def)
qed

lemma child_of_step: "mapping_step K n s s' \<Longrightarrow> child_of s' c e = child_of s c e"
  using mapping_step_keeps[of K n s s'] by (simp add: child_of_def owned_def)

text \<open>The mappings after the page \<open>vpn\<close> with entry \<open>x\<close> has been shared; \<open>ok\<close> says whether the child got it.\<close>

definition page_shared :: "nat \<Rightarrow> nat \<Rightarrow> nat \<Rightarrow> u32 \<Rightarrow> bool \<Rightarrow> 'a kernel_scheme \<Rightarrow> 'a kernel_scheme \<Rightarrow> bool" where
  "page_shared dc de vpn x ok s s' \<longleftrightarrow>
     (\<forall>d\<in>dirs s. \<forall>va<UTOP. vmap s' d va =
        (if VPN va = vpn \<and> (d = dc \<or> d = de \<and> ok) then Some (cow_pte x) else vmap s d va))"

lemma duppage_ok:
  assumes inv: "kinv K s" and ch: "child_of s c e" and vpn: "vpn < 1048576" "UTEMP \<le> page_va vpn" "page_va vpn < UTOP"
    and x: "vmap s (env_pgdir (envs s c)) (page_va vpn) = Some x" and none: "vmap s (env_pgdir (envs s e)) (page_va vpn) = None"
    and refs: "\<forall>p. unat (pp_ref s p) < 65534"
  shows "returns (\<lambda>s'. mapping_step K 1 s s' \<and> (\<exists>ok. (ok \<or> page_free_list s' = []) \<and>
      page_shared (env_pgdir (envs s c)) (env_pgdir (envs s e)) vpn x ok s s')) (duppage (env_id (envs s e)) vpn s)"
proof -
  let ?va = "page_va vpn" and ?dc = "env_pgdir (envs s c)" and ?de = "env_pgdir (envs s e)"
  note chD = child_ofD[OF inv ch]
  have refs': "\<forall>p. unat (pp_ref s p) < 65535" using refs by (auto intro: less_trans)
  have pte: "vpt s c vpn = x" "pte_valid x" using vpt_vmap[OF vpn(1), of s c] x by (simp_all split: if_splits)
  note eqs = cow_pte_eqs[OF pte(2)]
  note share = share_page[OF inv chD(1) chD(5,3) vpn(2,3) _ refs' x]
  show ?thesis
  proof (cases "x AND PTE_D = 0 \<or> x AND PTE_LIBRARY \<noteq> 0")
    case True
    then have run: "duppage (env_id (envs s e)) vpn s = ignore (sys_mem_map 0 ?va (env_id (envs s e)) ?va (x AND 0xFFF) s)"
      using chD(1) pte(1) by (auto simp: duppage_def with_cur_def Let_def low_bits_and)
    have cow: "cow_pte x = x" using True by (auto simp: cow_pte_def)
    show ?thesis unfolding run
    proof (rule returns_mono[OF share[OF perm_range(1)]])
      fix s' assume post: "mapping_step K (if vmap s ?de ?va = None then 1 else 0) s s' \<and>
        (vmap_updated (dirs s) ?de ?va (Some (page2pa (PPN x) OR x AND 0xFFF OR PTE_V)) s s' \<or>
         vmap s ?de ?va = None \<and> page_free_list s' = [] \<and> same_vmap (dirs s) s s')"
      have same: "vmap s ?dc va = Some x" if "VPN va = vpn" for va
        using vmap_same_page[of va ?va s ?dc] that vpn(1) x by simp
      from post have "page_shared ?dc ?de vpn x True s s' \<or> page_free_list s' = [] \<and> page_shared ?dc ?de vpn x False s s'"
        using vpn(1) chD(4) same by (auto simp: page_shared_def vmap_updated_def same_vmap_def cow eqs(1))
      then show "mapping_step K 1 s s' \<and> (\<exists>ok. (ok \<or> page_free_list s' = []) \<and> page_shared ?dc ?de vpn x ok s s')"
        using post none by auto
    qed (simp add: none)
  next
    case False
    let ?perm = "(x AND 0xFFF) AND NOT PTE_D OR PTE_COW"
    have cow: "cow_pte x = x AND NOT PTE_D OR PTE_COW" using False by (simp add: cow_pte_def)
    have run: "duppage (env_id (envs s e)) vpn s =
        obind (ignore (sys_mem_map 0 ?va (env_id (envs s e)) ?va ?perm s)) (\<lambda>s. ignore (sys_mem_map 0 ?va 0 ?va ?perm s))"
      using False chD(1) pte(1) by (auto simp: duppage_def with_cur_def Let_def low_bits_and)
    obtain s1 where s1: "ignore (sys_mem_map 0 ?va (env_id (envs s e)) ?va ?perm s) = Ret s1" "mapping_step K 1 s s1"
      and upd1: "vmap_updated (dirs s) ?de ?va (Some (cow_pte x)) s s1 \<or> page_free_list s1 = [] \<and> same_vmap (dirs s) s s1"
      using share[OF perm_range(2)[of x]] none unfolding eqs(2) cow[symmetric] by (auto simp: returns_iff)
    note k1 = mapping_step_keeps[OF s1(2)]
    have cur1: "curenv s1 = Some c" "live s1 c" using k1 chD(1,2) by simp_all
    have x1: "vmap s1 ?dc ?va = Some x"
      using upd1 x chD(4) vpn(3) live_dirs[OF chD(2)] by (auto simp: vmap_updated_def same_vmap_def)
    have refs1: "\<forall>p. unat (pp_ref s1 p) < 65535"
    proof
      fix p
      have "unat (pp_ref s1 p) \<le> unat (pp_ref s p) + 1" "unat (pp_ref s p) < 65534"
        using s1(2) refs by (simp_all add: mapping_step_def)
      then show "unat (pp_ref s1 p) < 65535" by linarith
    qed
    obtain s2 where s2: "ignore (sys_mem_map 0 ?va 0 ?va ?perm s1) = Ret s2" "mapping_step K 0 s1 s2"
      and upd2: "vmap_updated (dirs s) ?dc ?va (Some (cow_pte x)) s1 s2"
      using share_page[OF k1(1) cur1(1) with_env_self[OF cur1(1)] cur1(2) vpn(2,3) perm_range(2)[of x] refs1, of x] x1 k1(2,4)
      unfolding eqs(2) cow[symmetric] by (auto simp: returns_iff)
    have "suffix (page_free_list s2) (page_free_list s1)" using s2(2) by (simp add: mapping_step_def)
    then have empty: "page_free_list s1 = [] \<Longrightarrow> page_free_list s2 = []" by simp
    from upd1 have "\<exists>ok. (ok \<or> page_free_list s2 = []) \<and> page_shared ?dc ?de vpn x ok s s2"
    proof
      assume "vmap_updated (dirs s) ?de ?va (Some (cow_pte x)) s s1"
      then have "page_shared ?dc ?de vpn x True s s2"
        using upd2 vpn(1) by (auto simp: page_shared_def vmap_updated_def)
      then show ?thesis by blast
    next
      assume "page_free_list s1 = [] \<and> same_vmap (dirs s) s s1"
      then have "page_shared ?dc ?de vpn x False s s2" "page_free_list s2 = []"
        using upd2 vpn(1) empty by (simp_all add: page_shared_def vmap_updated_def same_vmap_def)
      then show ?thesis by blast
    qed
    then show ?thesis using mapping_step_trans[OF s1(2) s2(2)] unfolding run s1(1) obind.simps s2(1) by simp
  qed
qed

section \<open>The loop over the address space\<close>

lemma ofold_upt:
  assumes "P 0 s" and "\<And>k s. k < n \<Longrightarrow> P k s \<Longrightarrow> returns (P (Suc k)) (f k s)"
  shows "returns (P n) (ofold f [0..<n] s)"
  using assms(2)
proof (induction n)
  case (Suc n)
  then have "returns (P n) (ofold f [0..<n] s)" by simp
  then show ?case using Suc.prems[of n] by (auto simp: ofold_append returns_obind elim!: returns_mono)
qed (simp add: assms(1))

text \<open>
  The state \<open>s\<close> after all pages below the page number \<open>m\<close> (and below \<open>USTACKTOP\<close>) have been treated,
  starting from \<open>s0\<close>.  The number of pages still to be treated bounds what the reference counts will
  grow.
\<close>

definition to_copy :: "'a kernel_scheme \<Rightarrow> nat \<Rightarrow> nat \<Rightarrow> nat set" where
  "to_copy s c m = {v. m \<le> v \<and> v < VPN USTACKTOP \<and> vmap s (env_pgdir (envs s c)) (page_va v) \<noteq> None}"

definition copied :: "(nat \<Rightarrow> nat) \<Rightarrow> nat \<Rightarrow> nat \<Rightarrow> 'a kernel_scheme \<Rightarrow> nat \<Rightarrow> 'a kernel_scheme \<Rightarrow> bool" where
  "copied K c e s0 m s \<longleftrightarrow>
     (\<exists>n. mapping_step K n s0 s \<and> n + card (to_copy s0 c m) \<le> card (to_copy s0 c 0)) \<and>
     (\<forall>d\<in>dirs s0. \<forall>va<UTOP. d \<noteq> env_pgdir (envs s0 e) \<longrightarrow> vmap s d va =
        (if d = env_pgdir (envs s0 c) \<and> VPN va < min m (VPN USTACKTOP) then map_option cow_pte (vmap s0 d va)
         else vmap s0 d va)) \<and>
     (\<forall>va<UTOP. min m (VPN USTACKTOP) \<le> VPN va \<longrightarrow> vmap s (env_pgdir (envs s0 e)) va = None) \<and>
     (page_free_list s \<noteq> [] \<longrightarrow> (\<forall>va<UTOP. VPN va < min m (VPN USTACKTOP) \<longrightarrow>
        vmap s (env_pgdir (envs s0 e)) va = map_option cow_pte (vmap s0 (env_pgdir (envs s0 c)) va)))"

lemma VPN_USTACKTOP: "VPN USTACKTOP = 0x7F3FE"
  by (simp add: PPN_eq)

lemma finite_to_copy [simp]: "finite (to_copy s c m)"
  by (rule finite_subset[of _ "{..<VPN USTACKTOP}"]) (auto simp: to_copy_def)

lemma to_copy_Suc:
  "to_copy s c m = (if m < VPN USTACKTOP \<and> vmap s (env_pgdir (envs s c)) (page_va m) \<noteq> None
     then insert m (to_copy s c (Suc m)) else to_copy s c (Suc m))"
  by (auto simp: to_copy_def Suc_le_eq order.order_iff_strict)

lemma to_copy_end: "VPN USTACKTOP \<le> m \<Longrightarrow> to_copy s c m = {}"
  by (auto simp: to_copy_def)

lemma page_va_user: "vpn < VPN USTACKTOP \<Longrightarrow> page_va vpn < UTOP"
  by (simp add: VPN_USTACKTOP word_less_nat_alt page_va_eq unat_page2pa)

lemma copied_skip:
  assumes "copied K c e s0 m s" and "live s0 c" "env_pgdir (envs s0 e) \<noteq> env_pgdir (envs s0 c)"
    and "m < VPN USTACKTOP \<longrightarrow> vmap s (env_pgdir (envs s0 c)) (page_va m) = None"
  shows "copied K c e s0 (Suc m) s"
proof (cases "m < VPN USTACKTOP")
  case False
  then have "to_copy s0 c (Suc m) = to_copy s0 c m" "min (Suc m) (VPN USTACKTOP) = min m (VPN USTACKTOP)"
    using to_copy_Suc[of s0 c m] by simp_all
  then show ?thesis using assms(1) unfolding copied_def by simp
next
  case True
  let ?dc = "env_pgdir (envs s0 c)" and ?de = "env_pgdir (envs s0 e)"
  have m: "min m (VPN USTACKTOP) = m" "min (Suc m) (VPN USTACKTOP) = Suc m" using True by simp_all
  have "m < 1048576" using True by (simp add: VPN_USTACKTOP)
  then have none: "vmap s0 ?dc va = None" if "va < UTOP" "VPN va = m" for va
    using assms(1,3,4) live_dirs[OF assms(2)] True that page_va_user[OF True] vmap_same_page[of va "page_va m" s ?dc]
    unfolding copied_def m by (metis VPN_page_va less_irrefl)
  have "vmap s0 ?dc (page_va m) = None" using none[OF page_va_user[OF True]] \<open>m < 1048576\<close> by simp
  then have "to_copy s0 c (Suc m) = to_copy s0 c m" using to_copy_Suc[of s0 c m] by simp
  moreover have "map_option cow_pte (vmap s0 ?dc va) = vmap s0 ?dc va" if "va < UTOP" "VPN va = m" for va
    using none[OF that] by simp
  ultimately show ?thesis
    using assms(1) none unfolding copied_def m by (auto simp: less_Suc_eq)
qed

lemma copied_share:
  assumes cop: "copied K c e s0 m s" and ch: "live s0 c" "env_pgdir (envs s0 e) \<noteq> env_pgdir (envs s0 c)" "live s0 e"
    and m: "m < VPN USTACKTOP" and x: "vmap s (env_pgdir (envs s0 c)) (page_va m) = Some x"
    and step: "mapping_step K 1 s s'" and ok: "ok \<or> page_free_list s' = []"
    and shared: "page_shared (env_pgdir (envs s0 c)) (env_pgdir (envs s0 e)) m x ok s s'"
  shows "copied K c e s0 (Suc m) s'"
proof -
  let ?dc = "env_pgdir (envs s0 c)" and ?de = "env_pgdir (envs s0 e)"
  have mm: "min m (VPN USTACKTOP) = m" "min (Suc m) (VPN USTACKTOP) = Suc m" using m by simp_all
  have m20: "m < 1048576" using m by (simp add: VPN_USTACKTOP)
  obtain n where n: "mapping_step K n s0 s" "n + card (to_copy s0 c m) \<le> card (to_copy s0 c 0)"
    using cop by (auto simp: copied_def)
  have dirs: "dirs s = dirs s0" by (rule mapping_step_keeps(4)[OF n(1)])
  have other: "\<forall>d\<in>dirs s0. \<forall>va<UTOP. d \<noteq> ?de \<longrightarrow> vmap s d va =
      (if d = ?dc \<and> VPN va < m then map_option cow_pte (vmap s0 d va) else vmap s0 d va)"
    and fresh: "\<forall>va<UTOP. m \<le> VPN va \<longrightarrow> vmap s ?de va = None"
    and given: "page_free_list s \<noteq> [] \<longrightarrow> (\<forall>va<UTOP. VPN va < m \<longrightarrow>
        vmap s ?de va = map_option cow_pte (vmap s0 ?dc va))"
    using cop unfolding copied_def mm by simp_all
  have x0: "vmap s0 ?dc va = Some x" if "va < UTOP" "VPN va = m" for va
  proof -
    have "vmap s ?dc va = Some x" using vmap_same_page[of va "page_va m" s ?dc] that m20 x by simp
    then show ?thesis using other live_dirs[OF ch(1)] ch(2) that by fastforce
  qed
  have new: "vmap s' d va = (if VPN va = m \<and> (d = ?dc \<or> d = ?de \<and> ok) then Some (cow_pte x) else vmap s d va)"
    if "d \<in> dirs s0" "va < UTOP" for d va
    using shared that dirs by (simp add: page_shared_def)
  have "m \<notin> to_copy s0 c (Suc m)" by (simp add: to_copy_def)
  then have "card (to_copy s0 c m) = Suc (card (to_copy s0 c (Suc m)))"
    using to_copy_Suc[of s0 c m] m x0[OF page_va_user[OF m]] m20 by simp
  then have count: "mapping_step K (n + 1) s0 s' \<and> n + 1 + card (to_copy s0 c (Suc m)) \<le> card (to_copy s0 c 0)"
    using mapping_step_trans[OF n(1) step] n(2) by simp
  have "vmap s' d va = (if d = ?dc \<and> VPN va < Suc m then map_option cow_pte (vmap s0 d va) else vmap s0 d va)"
    if "d \<in> dirs s0" "va < UTOP" "d \<noteq> ?de" for d va
    using new[OF that(1,2)] other that x0[OF that(2)] by (auto simp: less_Suc_eq)
  moreover have "vmap s' ?de va = None" if "va < UTOP" "Suc m \<le> VPN va" for va
    using new[OF live_dirs[OF ch(3)] that(1)] fresh that by simp
  moreover have "vmap s' ?de va = map_option cow_pte (vmap s0 ?dc va)"
    if "page_free_list s' \<noteq> []" "va < UTOP" "VPN va < Suc m" for va
  proof -
    have "page_free_list s \<noteq> []" using step that(1) by (auto simp: mapping_step_def)
    then show ?thesis
      using new[OF live_dirs[OF ch(3)] that(2)] given that ok x0[OF that(2)] by (auto simp: less_Suc_eq)
  qed
  ultimately show ?thesis using count unfolding copied_def mm by blast
qed

lemma fork_page_ok:
  assumes inv: "kinv K s0" and ch: "child_of s0 c e" and cop: "copied K c e s0 (i * 1024 + j) s"
    and low: "\<forall>va<UTEMP. vmap s0 (env_pgdir (envs s0 c)) va = None"
    and refs: "\<forall>p. unat (pp_ref s0 p) + card (to_copy s0 c 0) < 65535"
  shows "returns (copied K c e s0 (Suc (i * 1024 + j))) (fork_page (env_id (envs s0 e)) i j s)"
proof -
  define m where "m = i * 1024 + j"
  let ?dc = "env_pgdir (envs s0 c)" and ?de = "env_pgdir (envs s0 e)"
  note chD = child_ofD[OF inv ch]
  obtain n where n: "mapping_step K n s0 s" "n + card (to_copy s0 c m) \<le> card (to_copy s0 c 0)"
    using cop by (auto simp: copied_def m_def)
  note k = mapping_step_keeps[OF n(1)]
  have cur: "curenv s = Some c" using chD(1) k(3) by simp
  have look: "m < VPN USTACKTOP \<Longrightarrow> vmap s ?dc (page_va m) = (if pte_valid (vpt s c m) then Some (vpt s c m) else None)"
    using vpt_vmap[of m s c] k(2) by (simp add: VPN_USTACKTOP)
  show ?thesis
  proof (cases "m < VPN USTACKTOP \<and> pte_valid (vpt s c m)")
    case False
    then have "fork_page (env_id (envs s0 e)) i j s = Ret s" using cur by (auto simp: fork_page_def with_cur_def m_def Let_def)
    moreover have "m < VPN USTACKTOP \<longrightarrow> vmap s ?dc (page_va m) = None" using look False by auto
    ultimately show ?thesis using copied_skip[OF cop chD(2,4)] by (simp add: m_def)
  next
    case True
    then have m: "m < VPN USTACKTOP" and x: "vmap s ?dc (page_va m) = Some (vpt s c m)" using look by simp_all
    have m20: "m < 1048576" using m by (simp add: VPN_USTACKTOP)
    have va: "page_va m < UTOP" by (rule page_va_user[OF m])
    have run: "fork_page (env_id (envs s0 e)) i j s = duppage (env_id (envs s e)) m s"
      using True cur k(2) by (simp add: fork_page_def with_cur_def m_def Let_def)
    have x0: "vmap s0 ?dc (page_va m) \<noteq> None"
    proof -
      have "vmap s ?dc (page_va m) = vmap s0 ?dc (page_va m)"
        using cop live_dirs[OF chD(2)] chD(4) va m m20 unfolding copied_def m_def[symmetric] by auto
      then show ?thesis using x by (metis option.distinct(1))
    qed
    then have "UTEMP \<le> page_va m" using low by (meson not_le)
    moreover have "vmap s ?de (page_va m) = None"
      using cop va m m20 unfolding copied_def m_def[symmetric] by auto
    moreover have "\<forall>p. unat (pp_ref s p) < 65534"
    proof
      fix p
      have "m \<in> to_copy s0 c m" using x0 m by (simp add: to_copy_def)
      then have "0 < card (to_copy s0 c m)" by (auto simp: card_gt_0_iff)
      moreover have "unat (pp_ref s p) \<le> unat (pp_ref s0 p) + n" using n(1) by (simp add: mapping_step_def)
      moreover have "unat (pp_ref s0 p) + card (to_copy s0 c 0) < 65535" using refs by blast
      ultimately show "unat (pp_ref s p) < 65534" using n(2) by linarith
    qed
    moreover have "child_of s c e" using ch child_of_step[OF n(1)] by simp
    ultimately have "returns (\<lambda>s'. mapping_step K 1 s s' \<and> (\<exists>ok. (ok \<or> page_free_list s' = []) \<and>
        page_shared ?dc ?de m (vpt s c m) ok s s')) (duppage (env_id (envs s e)) m s)"
      using duppage_ok[OF k(1) _ m20 _ va, of c e "vpt s c m"] x k(2) by simp
    then show ?thesis unfolding run m_def[symmetric]
      by (rule returns_mono) (use copied_share[OF cop[folded m_def] chD(2,4,3) m x] in blast)
  qed
qed

lemma copied_skip_many:
  assumes "copied K c e s0 m s" and "live s0 c" "env_pgdir (envs s0 e) \<noteq> env_pgdir (envs s0 c)"
    and "\<And>v. m \<le> v \<Longrightarrow> v < m + k \<Longrightarrow> v < VPN USTACKTOP \<Longrightarrow> vmap s (env_pgdir (envs s0 c)) (page_va v) = None"
  shows "copied K c e s0 (m + k) s"
  using assms(4)
proof (induction k)
  case (Suc k)
  then have "copied K c e s0 (m + k) s" by simp
  from copied_skip[OF this assms(2,3)] Suc.prems[of "m + k"] show ?case by simp
qed (use assms(1) in simp)

lemma fork_table_ok:
  assumes inv: "kinv K s0" and ch: "child_of s0 c e" and cop: "copied K c e s0 (i * 1024) s"
    and low: "\<forall>va<UTEMP. vmap s0 (env_pgdir (envs s0 c)) va = None"
    and refs: "\<forall>p. unat (pp_ref s0 p) + card (to_copy s0 c 0) < 65535"
  shows "returns (copied K c e s0 (Suc i * 1024)) (fork_table (env_id (envs s0 e)) i s)"
proof -
  note chD = child_ofD[OF inv ch]
  obtain n where n: "mapping_step K n s0 s" using cop by (auto simp: copied_def)
  note k = mapping_step_keeps[OF n]
  have cur: "curenv s = Some c" using chD(1) k(3) by simp
  show ?thesis
  proof (cases "pte_valid (vpd s c i)")
    case True
    have "returns (copied K c e s0 (i * 1024 + 1024)) (ofold (fork_page (env_id (envs s0 e)) i) [0..<1024] s)"
      by (rule ofold_upt[where P = "\<lambda>j. copied K c e s0 (i * 1024 + j)"])
        (use cop fork_page_ok[OF inv ch _ low refs] in simp_all)
    then show ?thesis using True cur by (simp add: fork_table_def with_cur_def add.commute)
  next
    case False
    have "copied K c e s0 (i * 1024 + 1024) s"
    proof (rule copied_skip_many[OF cop chD(2,4)])
      fix v assume v: "i * 1024 \<le> v" "v < i * 1024 + 1024" "v < VPN USTACKTOP"
      then have "v div 1024 = i" by (intro div_nat_eqI) simp_all
      then show "vmap s (env_pgdir (envs s0 c)) (page_va v) = None"
        using vpt_vmap[of v s c] v(3) False k(2) by (simp add: vpt_def VPN_USTACKTOP)
    qed
    then show ?thesis using False cur by (simp add: fork_table_def with_cur_def add.commute)
  qed
qed

lemma copied_start:
  assumes "kinv K s" and "\<forall>va<UTOP. vmap s (env_pgdir (envs s e)) va = None"
  shows "copied K c e s 0 s"
  using assms mapping_step_refl[OF assms(1)] unfolding copied_def by auto

lemma fork_pages_ok:
  assumes inv: "kinv K s" and ch: "child_of s c e" and empty: "\<forall>va<UTOP. vmap s (env_pgdir (envs s e)) va = None"
    and low: "\<forall>va<UTEMP. vmap s (env_pgdir (envs s c)) va = None"
    and refs: "\<forall>p. unat (pp_ref s p) + card (to_copy s c 0) < 65535"
  shows "returns (copied K c e s (VPN USTACKTOP)) (fork_pages (env_id (envs s e)) s)"
proof -
  have N: "PDX (ROUND USTACKTOP PDMAP) = 509" by (simp add: PDX_def ROUND_def)
  have "returns (copied K c e s (509 * 1024)) (fork_pages (env_id (envs s e)) s)"
    unfolding fork_pages_def N
    by (rule ofold_upt[where P = "\<lambda>i. copied K c e s (i * 1024)"])
      (use copied_start[OF inv empty] fork_table_ok[OF inv ch _ low refs] in simp_all)
  then show ?thesis
    by (rule returns_mono) (simp add: copied_def VPN_USTACKTOP to_copy_end)
qed

section \<open>fork\<close>

abbreviation set_entry :: "nat \<Rightarrow> u32 \<Rightarrow> 'a kernel_scheme \<Rightarrow> 'a kernel_scheme" where
  "set_entry e entry s \<equiv> upd_env e (\<lambda>v. v\<lparr>env_user_tlb_mod_entry := entry\<rparr>) s"

lemma set_entry_same: "env_user_tlb_mod_entry (envs s c) = entry \<Longrightarrow> set_entry c entry s = s"
proof -
  assume "env_user_tlb_mod_entry (envs s c) = entry"
  then have "(envs s c)\<lparr>env_user_tlb_mod_entry := entry\<rparr> = envs s c" by (cases "envs s c") simp
  then show ?thesis by (simp add: upd_env_def)
qed

lemma set_entry_simps:
  "vmap (set_entry e entry s) = vmap s" "dirs (set_entry e entry s) = dirs s"
  "live (set_entry e entry s) = live s" "asid_used (set_entry e entry s) = asid_used s"
  "to_copy (set_entry e entry s) c m = to_copy s c m"
proof -
  show v: "vmap (set_entry e entry s) = vmap s" by (rule vmap_frames) simp
  have env: "env_status (envs (set_entry e entry s) x) = env_status (envs s x)"
    "env_pgdir (envs (set_entry e entry s) x) = env_pgdir (envs s x)" for x
    by (simp_all add: upd_env_def)
  show l: "live (set_entry e entry s) = live s" by (simp add: live_def fun_eq_iff env)
  show "dirs (set_entry e entry s) = dirs s" by (simp only: dirs_def l env)
  show "asid_used (set_entry e entry s) = asid_used s" by (simp add: asid_used_def fun_eq_iff)
  show "to_copy (set_entry e entry s) c m = to_copy s c m" by (simp add: to_copy_def v env)
qed

lemma set_entry_kinv: "kinv K s \<Longrightarrow> kinv K (set_entry e entry s)"
proof (rule kinv_frame)
  show "kview (set_entry e entry s) = kview s"
    by (simp add: kview_def mem_of_def env_key_def fun_eq_iff upd_env_def)
qed simp_all

lemma VPN_below_stack: "VPN va < VPN USTACKTOP \<longleftrightarrow> va < USTACKTOP"
  by (simp add: PPN_eq word_less_nat_alt div_less_iff_less_mult)

lemma copied_result:
  assumes "copied K c e s (VPN USTACKTOP) s'" and "live s c" and "env_pgdir (envs s e) \<noteq> env_pgdir (envs s c)"
  shows "\<forall>va<UTOP. vmap s' (env_pgdir (envs s c)) va =
      (if va < USTACKTOP then map_option cow_pte (vmap s (env_pgdir (envs s c)) va) else vmap s (env_pgdir (envs s c)) va)"
    and "page_free_list s' \<noteq> [] \<longrightarrow> (\<forall>va<UTOP. vmap s' (env_pgdir (envs s e)) va =
      (if va < USTACKTOP then map_option cow_pte (vmap s (env_pgdir (envs s c)) va) else None))"
    and "\<forall>d\<in>dirs s. d \<noteq> env_pgdir (envs s c) \<longrightarrow> d \<noteq> env_pgdir (envs s e) \<longrightarrow> (\<forall>va<UTOP. vmap s' d va = vmap s d va)"
proof -
  note cop = assms(1)[unfolded copied_def min.idem VPN_below_stack not_less[symmetric]]
  show "\<forall>va<UTOP. vmap s' (env_pgdir (envs s c)) va =
      (if va < USTACKTOP then map_option cow_pte (vmap s (env_pgdir (envs s c)) va) else vmap s (env_pgdir (envs s c)) va)"
    using cop live_dirs[OF assms(2)] assms(3) by auto
  show "page_free_list s' \<noteq> [] \<longrightarrow> (\<forall>va<UTOP. vmap s' (env_pgdir (envs s e)) va =
      (if va < USTACKTOP then map_option cow_pte (vmap s (env_pgdir (envs s c)) va) else None))"
    using cop by simp
  show "\<forall>d\<in>dirs s. d \<noteq> env_pgdir (envs s c) \<longrightarrow> d \<noteq> env_pgdir (envs s e) \<longrightarrow> (\<forall>va<UTOP. vmap s' d va = vmap s d va)"
    using cop by simp
qed

text \<open>The address spaces after \<open>fork\<close> by \<open>c\<close> with child \<open>e\<close>: \<open>s\<close> before, \<open>s'\<close> after.\<close>

definition forked :: "nat \<Rightarrow> nat \<Rightarrow> 'a kernel_scheme \<Rightarrow> 'a kernel_scheme \<Rightarrow> bool" where
  "forked c e s s' \<longleftrightarrow>
     (\<forall>va<UTOP. vmap s' (env_pgdir (envs s c)) va =
        (if va < USTACKTOP then map_option cow_pte (vmap s (env_pgdir (envs s c)) va) else vmap s (env_pgdir (envs s c)) va)) \<and>
     (page_free_list s' \<noteq> [] \<longrightarrow> (\<forall>va<UTOP. vmap s' (env_pgdir (envs s' e)) va =
        (if va < USTACKTOP then map_option cow_pte (vmap s (env_pgdir (envs s c)) va) else None))) \<and>
     (\<forall>d\<in>dirs s. d \<noteq> env_pgdir (envs s c) \<longrightarrow> d \<noteq> env_pgdir (envs s' e) \<longrightarrow> (\<forall>va<UTOP. vmap s' d va = vmap s d va)) \<and>
     (\<forall>d\<in>dirs s. \<forall>va<UTOP. \<forall>x. vmap s d va = Some x \<longrightarrow> frames s' (PPN x) = frames s (PPN x))"

lemma user_try_zero: "m = Ret (Returns 0, s) \<Longrightarrow> user_try m f = f s"
  by (simp add: user_try_def)

lemma fork_finish:
  assumes inv: "kinv K s" and ch: "child_of s c e" and empty: "\<forall>va<UTOP. vmap s (env_pgdir (envs s e)) va = None"
    and low: "\<forall>va<UTEMP. vmap s (env_pgdir (envs s c)) va = None"
    and refs: "\<forall>p. unat (pp_ref s p) + card (to_copy s c 0) < 65535"
  shows "returns (\<lambda>(r, s'). kinv K s' \<and> r = env_id (envs s e) \<and> forked c e s s' \<and> e \<in> set (env_sched_list s') \<and>
      envs s' = (envs s)(e := (envs s e)\<lparr>env_user_tlb_mod_entry := entry, env_status := ENV_RUNNABLE\<rparr>))
    (obind (fork_pages (env_id (envs s e)) s) (\<lambda>t.
       user_try (sys_set_tlb_mod_entry (env_id (envs s e)) entry t) (\<lambda>t.
       user_try (sys_set_env_status (env_id (envs s e)) ENV_RUNNABLE t) (\<lambda>t. Ret (env_id (envs s e), t)))))"
proof -
  let ?id = "env_id (envs s e)"
  note chD = child_ofD[OF inv ch]
  obtain s1 where s1: "fork_pages ?id s = Ret s1" "copied K c e s (VPN USTACKTOP) s1"
    using fork_pages_ok[OF inv ch empty low refs] by (auto simp: returns_iff)
  then obtain n where n: "mapping_step K n s s1" by (auto simp: copied_def)
  note k1 = mapping_step_keeps[OF n]
  have ch1: "child_of s1 c e" using ch child_of_step[OF n] by simp
  define s2 where "s2 = set_entry e entry s1"
  have set: "sys_set_tlb_mod_entry ?id entry s1 = Ret (Returns 0, s2)"
    using child_ofD(5)[OF k1(1) ch1] k1(2) by (simp add: sys_set_tlb_mod_entry_def s2_def)
  have inv2: "kinv K s2" unfolding s2_def by (rule set_entry_kinv[OF k1(1)])
  have ch2: "child_of s2 c e" using ch1 set_entry_simps(3)[of e entry s1] by (auto simp: child_of_def owned_def s2_def)
  have id2: "env_id (envs s2 e) = ?id" by (simp add: s2_def k1(2))
  note chD2 = child_ofD[OF inv2 ch2, unfolded id2]
  obtain r s3 where run3: "sys_set_env_status ?id ENV_RUNNABLE s2 = Ret (r, s3)"
    using sys_set_env_status_ok[OF inv2 chD2(1), where envid = ?id and status = ENV_RUNNABLE] by (auto simp: returns_iff)
  note post = sys_set_env_status_ok[OF inv2 chD2(1), where envid = ?id and status = ENV_RUNNABLE, unfolded run3 returns.simps prod.case]
  have r: "r = Returns 0" using post chD2(5) by simp
  have "?id \<noteq> 0" using ch by (simp add: child_of_def)
  with post r obtain e' where e': "live s2 e'" "env_id (envs s2 e') = ?id"
    "envs s3 = (envs s2)(e' := (envs s2 e')\<lparr>env_status := ENV_RUNNABLE\<rparr>)" "frames s3 = frames s2"
    "page_free_list s3 = page_free_list s2" "e' \<in> set (env_sched_list s3)" "kinv K s3"
    by auto
  have "e' = e" using live_id_inj[OF kinvD(4)[OF inv2] e'(1) chD2(3)] e'(2) id2 by simp
  note e' = e'[unfolded this]
  have envs3: "envs s3 = (envs s)(e := (envs s e)\<lparr>env_user_tlb_mod_entry := entry, env_status := ENV_RUNNABLE\<rparr>)"
    by (simp add: e'(3) s2_def k1(2) fun_eq_iff)
  have v3: "vmap s3 = vmap s1" using vmap_frames[OF e'(4)] set_entry_simps(1)[of e entry s1] by (simp add: s2_def)
  have f3: "frames s3 = frames s1" "page_free_list s3 = page_free_list s1" using e'(4,5) by (simp_all add: s2_def)
  have "forked c e s s3"
    using copied_result[OF s1(2) chD(2,4)] n
    unfolding forked_def v3 f3 envs3 by (simp add: mapping_step_def)
  then show ?thesis
    using e'(6,7) envs3 run3 r by (simp add: s1(1) user_try_zero[OF set] user_try_zero)
qed

lemma exofork_child:
  assumes inv: "kinv K s" and cur: "curenv s = Some c" and path: "terminated (env_path (envs s c))"
    "\<forall>e<NENV. length (env_path (envs s e)) = 1024" and asid: "\<exists>i<NASID. \<not> asid_used s i"
    and free: "env_free_list s = e # es" "page_free_list s \<noteq> []"
    and id: "push_bit 11 (mkenvid_i s + 1) OR of_nat e \<noteq> (0 :: u32)"
  obtains s' where "sys_exofork s = Ret (Returns (env_id (envs s' e)), s')" "kinv K s'" "child_of s' c e"
    "env_status (envs s' e) = ENV_NOT_RUNNABLE" "\<forall>va<UTOP. vmap s' (env_pgdir (envs s' e)) va = None"
    "regs (env_tf (envs s' e)) = (regs (kstack_tf s))(2 := 0)" "cp0_epc (env_tf (envs s' e)) = cp0_epc (kstack_tf s)"
    "\<forall>x. x \<noteq> e \<longrightarrow> envs s' x = envs s x" "same_vmap (dirs s) s s'" "dirs s \<subseteq> dirs s'"
    "\<forall>p. unat (pp_ref s' p) \<le> unat (pp_ref s p) + 1"
    "\<forall>d\<in>dirs s. \<forall>va<UTOP. \<forall>x. vmap s d va = Some x \<longrightarrow> frames s' (PPN x) = frames s (PPN x)"
proof -
  obtain r s' where run: "sys_exofork s = Ret (r, s')"
    using sys_exofork_ok[OF inv cur path asid] by (auto simp: returns_iff)
  note post = sys_exofork_ok[OF inv cur path asid, unfolded run returns.simps prod.case]
  have k: "kinv K s'" using post by simp
  from post free have p: "r = Returns (env_id (envs s' e))" "env_status (envs s' e) = ENV_NOT_RUNNABLE"
    "env_parent_id (envs s' e) = env_id (envs s c)" "\<forall>va<UTOP. vmap s' (env_pgdir (envs s' e)) va = None"
    "regs (env_tf (envs s' e)) = (regs (kstack_tf s))(2 := 0)" "cp0_epc (env_tf (envs s' e)) = cp0_epc (kstack_tf s)"
    "\<forall>x. x \<noteq> e \<longrightarrow> envs s' x = envs s x" "same_vmap (dirs s) s s'" "live s' e" "e \<noteq> c" "curenv s' = curenv s"
    "env_id (envs s' e) = push_bit 11 (mkenvid_i s + 1) OR of_nat e"
    by auto
  from post free obtain q where q: "page_free_list s = q # page_free_list s'" "pp_ref s' = (pp_ref s)(q := pp_ref s q + 1)"
    "\<forall>p. p \<noteq> q \<longrightarrow> frames s' p = frames s p"
    by auto
  have e: "\<not> live s e" using kinvD(2)[OF inv] free(1) by (auto simp: kenvs_ok_def live_def)
  have "child_of s' c e" using p id cur by (simp add: child_of_def owned_def)
  moreover have "dirs s \<subseteq> dirs s'"
  proof
    fix d assume "d \<in> dirs s"
    then obtain x where x: "live s x" "d = env_pgdir (envs s x)" by (auto simp: dirs_def)
    then have "x \<noteq> e" using e by auto
    then show "d \<in> dirs s'" using x p(7) live_dirs[of s' x] by (simp add: live_def)
  qed
  moreover have "frames s' (PPN x) = frames s (PPN x)" if "d \<in> dirs s" "va < UTOP" "vmap s d va = Some x" for d va x
    using leaf_range(5)[OF kinvD(1)[OF inv] that(1) PDX_user[OF that(2)] that(3)] q(1,3) by auto
  moreover have "unat (pp_ref s' p) \<le> unat (pp_ref s p) + 1" for p
    using unat_plus_one_le[of "pp_ref s p"] by (auto simp: q(2))
  ultimately show ?thesis using that[of s'] run k p by blast
qed

text \<open>
  C9. Copy-on-write \<open>fork\<close>: with an environment, a page and an ASID free, \<open>fork\<close> returns the id of a new
  child that is runnable, resumes at the same point with 0 as the result, and has \<open>cow_entry\<close> as its
  handler, as has the parent.  Below \<open>USTACKTOP\<close> the parent maps the same frames as before, with every
  writable page that is not marked \<open>PTE_LIBRARY\<close> turned copy-on-write; if memory did not run out the child
  maps exactly the same pages with the same permissions and nothing else.  No other address space changes,
  and no mapped page changes its contents.
\<close>

theorem fork_correct:
  assumes "kinv K s" and "curenv s = Some c" and "terminated (env_path (envs s c))"
    and "\<forall>e<NENV. length (env_path (envs s e)) = 1024" and "\<exists>i<NASID. \<not> asid_used s i"
    and "env_free_list s = e # es" and "page_free_list s \<noteq> []"
    and "push_bit 11 (mkenvid_i s + 1) OR of_nat e \<noteq> (0 :: u32)"
    and "\<forall>va<UTEMP. vmap s (env_pgdir (envs s c)) va = None"
    and "\<forall>p. unat (pp_ref s p) + card (to_copy s c 0) < 65534"
  shows "returns (\<lambda>(r, s'). kinv K s' \<and> r = env_id (envs s' e) \<and> r \<noteq> 0 \<and> forked c e s s' \<and>
      env_status (envs s' e) = ENV_RUNNABLE \<and> e \<in> set (env_sched_list s') \<and>
      regs (env_tf (envs s' e)) = (regs (kstack_tf s))(2 := 0) \<and> cp0_epc (env_tf (envs s' e)) = cp0_epc (kstack_tf s) \<and>
      env_user_tlb_mod_entry (envs s' e) = entry \<and> env_user_tlb_mod_entry (envs s' c) = entry)
    (fork entry s)"
proof -
  define s0 where "s0 = set_entry c entry s"
  have run0: "(if env_user_tlb_mod_entry (envs s c) \<noteq> entry then sys_set_tlb_mod_entry 0 entry s else Ret (Returns 0, s))
      = Ret (Returns 0, s0)"
    using set_entry_same[of s c entry] assms(2) by (simp add: sys_set_tlb_mod_entry_def with_env_self s0_def)
  note same0 = set_entry_simps[of c entry s, folded s0_def]
  have env0: "env_pgdir (envs s0 x) = env_pgdir (envs s x)" "env_path (envs s0 x) = env_path (envs s x)" for x
    by (simp_all add: s0_def upd_env_def)
  have f0: "curenv s0 = Some c" "env_free_list s0 = e # es" "page_free_list s0 \<noteq> []" "mkenvid_i s0 = mkenvid_i s"
    "kstack_tf s0 = kstack_tf s" "pp_ref s0 = pp_ref s" "frames s0 = frames s"
    using assms(2,6,7) by (simp_all add: s0_def)
  obtain s1 where s1: "sys_exofork s0 = Ret (Returns (env_id (envs s1 e)), s1)" "kinv K s1" "child_of s1 c e"
    "env_status (envs s1 e) = ENV_NOT_RUNNABLE" "\<forall>va<UTOP. vmap s1 (env_pgdir (envs s1 e)) va = None"
    "regs (env_tf (envs s1 e)) = (regs (kstack_tf s))(2 := 0)" "cp0_epc (env_tf (envs s1 e)) = cp0_epc (kstack_tf s)"
    "\<forall>x. x \<noteq> e \<longrightarrow> envs s1 x = envs s0 x" "same_vmap (dirs s) s s1" "dirs s \<subseteq> dirs s1"
    "\<forall>p. unat (pp_ref s1 p) \<le> unat (pp_ref s p) + 1"
    "\<forall>d\<in>dirs s. \<forall>va<UTOP. \<forall>x. vmap s d va = Some x \<longrightarrow> frames s1 (PPN x) = frames s (PPN x)"
    using exofork_child[OF set_entry_kinv[OF assms(1), of c entry, folded s0_def] f0(1) _ _ _ f0(2,3)] assms(3,4,5,8)
    by (simp add: env0 same0 f0 same_vmap_def) blast
  have ec: "e \<noteq> c" "env_id (envs s1 e) \<noteq> 0" using s1(3) by (simp_all add: child_of_def)
  have dc: "env_pgdir (envs s1 c) = env_pgdir (envs s c)" "env_pgdir (envs s c) \<in> dirs s"
    using s1(8) ec env0 live_dirs[OF cur_live[OF assms(1,2)]] by simp_all
  have vc: "vmap s1 (env_pgdir (envs s c)) va = vmap s (env_pgdir (envs s c)) va" if "va < UTOP" for va
    using s1(9) dc(2) that by (simp add: same_vmap_def)
  have low: "\<forall>va<UTEMP. vmap s1 (env_pgdir (envs s1 c)) va = None"
  proof (intro allI impI)
    fix va :: u32 assume "va < UTEMP"
    moreover from this have "va < UTOP" by (rule less_trans) simp
    ultimately show "vmap s1 (env_pgdir (envs s1 c)) va = None" using assms(9) vc dc(1) by simp
  qed
  have "to_copy s1 c 0 = to_copy s c 0" using vc[OF page_va_user] dc(1) by (auto simp: to_copy_def)
  moreover have "unat (pp_ref s1 p) + card (to_copy s c 0) < 65535" for p
  proof -
    have "unat (pp_ref s1 p) \<le> unat (pp_ref s p) + 1" using s1(11) by blast
    moreover have "unat (pp_ref s p) + card (to_copy s c 0) < 65534" using assms(10) by blast
    ultimately show ?thesis by linarith
  qed
  ultimately have refs: "\<forall>p. unat (pp_ref s1 p) + card (to_copy s1 c 0) < 65535" by simp
  have run: "fork entry s = obind (fork_pages (env_id (envs s1 e)) s1) (\<lambda>t.
       user_try (sys_set_tlb_mod_entry (env_id (envs s1 e)) entry t) (\<lambda>t.
       user_try (sys_set_env_status (env_id (envs s1 e)) ENV_RUNNABLE t) (\<lambda>t. Ret (env_id (envs s1 e), t))))"
    using assms(2) ec(2) unfolding fork_def with_cur_def by (simp add: user_try_zero[OF run0] s1(1))
  have forked: "forked c e s s'" if "forked c e s1 s'" "env_pgdir (envs s' e) = env_pgdir (envs s1 e)" for s'
    using that(1) s1(9,10,12) vc unfolding forked_def dc(1) same_vmap_def that(2) by (auto dest: subsetD)
  show ?thesis unfolding run
    by (rule returns_mono2[OF fork_finish[OF s1(2,3,5) low refs, of entry]])
      (use ec s1(6,7,8) forked in \<open>simp add: s0_def\<close>)
qed

section \<open>The statements at work on a small kernel\<close>

theorem fork_correct_witness:
  "returns (\<lambda>(r, s'). kinv demo_K s' \<and> vmap s' 1 0x401000 = Some 0x7201 \<and> env_status (envs s' 2) = ENV_RUNNABLE) (fork 0x400100 demo_fork)"
proof -
  have path: "terminated (env_path (envs demo_fork 0))" "\<forall>e<NENV. length (env_path (envs demo_fork e)) = 1024"
    unfolding demo_fork_same by (auto simp: demo_sys_fields demo_duo_def demo_env_def)
  have "\<not> asid_used demo_duo 0" using demo_duo_asids[of 0] by simp
  then have "\<not> asid_used demo_fork 0" by (simp add: demo_fork_same asid_used_def demo_sys_fields)
  then have asid: "\<exists>i<NASID. \<not> asid_used demo_fork i" by (intro exI[of _ 0]) simp
  have free: "env_free_list demo_fork = 2 # [3..<NENV]" "page_free_list demo_fork \<noteq> []"
    using upt_conv_Cons[of 2 NENV] by (simp_all add: demo_fork_same demo_sys_fields demo_duo_fields(6) demo_fork_fields(3) del: upt_rec_numeral)
  have id: "push_bit 11 (mkenvid_i demo_fork + 1) OR of_nat 2 \<noteq> (0 :: u32)"
    by (simp add: demo_fork_same demo_sys_fields demo_duo_def demo_kernel_def kstate.defs pmap_state.defs del: upt_rec_numeral)
  have low: "\<forall>va<UTEMP. vmap demo_fork (env_pgdir (envs demo_fork 0)) va = None"
  proof (intro allI impI)
    fix va :: u32 assume "va < UTEMP"
    then have "VPN va < 1022" by (simp add: PPN_eq word_less_nat_alt div_less_iff_less_mult)
    then show "vmap demo_fork (env_pgdir (envs demo_fork 0)) va = None" unfolding demo_fork_pgdir demo_fork_vmap by simp
  qed
  have sub: "to_copy demo_fork 0 0 \<subseteq> {1024, 1025}"
    by (auto simp: to_copy_def demo_fork_pgdir demo_fork_maps VPN_USTACKTOP split: if_splits)
  then have "card (to_copy demo_fork 0 0) \<le> 2" using card_mono[OF _ sub] by simp
  then have refs: "\<forall>p. unat (pp_ref demo_fork p) + card (to_copy demo_fork 0 0) < 65534"
    by (simp add: demo_fork_fields)
  have cow: "cow_pte 0x7600 = 0x7201" "VPN (0x401000 :: u32) = 1025" by (simp_all add: cow_pte_def PPN_def)
  have page: "vmap s' 1 0x401000 = Some 0x7201" if "forked 0 2 demo_fork s'" for s'
  proof -
    have "(0x401000 :: u32) < UTOP" by simp
    then have "vmap s' 1 0x401000 = (if (0x401000 :: u32) < USTACKTOP then map_option cow_pte (vmap demo_fork 1 0x401000) else vmap demo_fork 1 0x401000)"
      using that unfolding forked_def demo_fork_pgdir by blast
    then show ?thesis unfolding demo_fork_vmap cow(2) by (simp add: cow(1))
  qed
  show ?thesis
    by (rule returns_mono2[OF fork_correct[OF demo_fork_kinv demo_fork_same(2) path asid free id low refs, where entry = "0x400100"]])
      (use page in blast)
qed

end
