(* ===== verification/Mos_Cow.thy ===== *)
theory Mos_Cow
  imports Mos_Fork
begin

text \<open>
  The copy-on-write fault handler \<open>cow_entry\<close> of \<open>user/lib/fork.c\<close> gives the faulting environment a
  private writable copy of the page and changes nothing for the environments that share it.
\<close>

section \<open>Addresses within a page\<close>

lemma and_0xFFF: "unat (a AND 0xFFF :: u32) = unat a mod 4096"
  unfolding mask_0xFFF take_bit_eq_mask[symmetric] unsigned_take_bit_eq by (simp add: take_bit_eq_mod)

lemma and_3: "(a :: u32) AND 3 = 0 \<longleftrightarrow> unat a mod 4 = 0"
proof -
  have m: "(3 :: u32) = mask 2" by (simp add: mask_eq_exp_minus_1)
  have "unat (a AND 3) = unat a mod 4"
    unfolding m take_bit_eq_mask[symmetric] unsigned_take_bit_eq by (simp add: take_bit_eq_mod)
  then show ?thesis by (metis unat_0 unat_eq_zero)
qed

lemma page_offset_add:
  assumes "unat (a AND 0xFFF :: u32) + k < 4096"
  shows "unat (a + of_nat k) = unat a + k" "unat ((a + of_nat k) AND 0xFFF) = unat (a AND 0xFFF) + k"
    "VPN (a + of_nat k) = VPN a"
proof -
  have o: "unat a mod 4096 + k < 4096" using assms by (simp add: and_0xFFF)
  have "unat a div 4096 < 1048576" using PPN_less[of a] by (simp add: PPN_eq)
  then have "unat a + k < 4294967296"
    using o div_mult_mod_eq[of "unat a" 4096] by linarith
  then have le: "unat a + k < 2 ^ 32" by simp
  then show eq: "unat (a + of_nat k) = unat a + k"
    by (simp add: unat_word_ariths unsigned_of_nat take_bit_nat_eq_self)
  have "(unat a + k) mod 4096 = unat a mod 4096 + k" using o by (metis mod_add_left_eq mod_less)
  then show "unat ((a + of_nat k) AND 0xFFF) = unat (a AND 0xFFF) + k" by (simp add: and_0xFFF eq)
  have "(unat a + k) div 4096 = unat a div 4096"
  proof (rule div_nat_eqI)
    have "4096 * Suc (unat a div 4096) = unat a div 4096 * 4096 + 4096" by simp
    then show "unat a + k < 4096 * Suc (unat a div 4096)"
      using o div_mult_mod_eq[of "unat a" 4096] by linarith
  qed (use div_mult_mod_eq[of "unat a" 4096] in linarith)
  then show "VPN (a + of_nat k) = VPN a" by (simp add: PPN_eq eq)
qed

section \<open>Loads and stores\<close>

lemma refill_mapped:
  assumes "kinv K s" and "curenv s = Some c" and "va < UTOP" and "vmap s (env_pgdir (envs s c)) va = Some x"
  shows "\<exists>T. do_tlb_refill va s = Ret (x, s\<lparr>tlb := T\<rparr>)"
proof -
  have d: "cur_pgdir s = env_pgdir (envs s c)" using kinvD(3)[OF assms(1)] assms(2) by (simp add: kcur_ok_def)
  note look = page_lookup_eq[OF kinvD(1)[OF assms(1)] live_dirs[OF cur_live[OF assms(1,2)]] PDX_user[OF assms(3)]]
  have "pte_at s (env_pgdir (envs s c)) (PDX va) (PTX va) = x" using assms(4) by (simp add: vmap_def split: if_splits)
  then have "do_tlb_refill_c va asid s = Ret (x, s)" for asid
    unfolding do_tlb_refill_c_def numeral_2_eq_2 by (simp add: d look assms(4) peek_def)
  then show ?thesis unfolding do_tlb_refill_def Let_def by auto
qed

lemma below_ULIM: "va < UTOP \<Longrightarrow> \<not> ULIM \<le> va"
proof
  assume "va < UTOP" and "ULIM \<le> va"
  then have "ULIM < UTOP" by (rule le_less_trans[rotated])
  then show False by simp
qed

lemma user_load:
  assumes "kinv K s" and "curenv s = Some c" and "va < UTOP" and "vmap s (env_pgdir (envs s c)) va = Some x" and "va AND 3 = 0"
  shows "\<exists>T. user_get32 va s = Ret (frames s (PPN x) (unat (va AND 0xFFF) div 4), s\<lparr>tlb := T\<rparr>)"
proof -
  obtain T where "do_tlb_refill va s = Ret (x, s\<lparr>tlb := T\<rparr>)" using refill_mapped[OF assms(1-4)] by blast
  then show ?thesis using below_ULIM[OF assms(3)] assms(5) by (auto simp: user_get32_def peek_def)
qed

lemma user_store:
  assumes "kinv K s" and "curenv s = Some c" and "va < UTOP" and "vmap s (env_pgdir (envs s c)) va = Some x" and "va AND 3 = 0"
    and "x AND PTE_D \<noteq> 0"
  shows "\<exists>T. user_put32 va w s = Ret (poke (PPN x, unat (va AND 0xFFF) div 4) w (s\<lparr>tlb := T\<rparr>))"
proof -
  obtain T where "do_tlb_refill va s = Ret (x, s\<lparr>tlb := T\<rparr>)" using refill_mapped[OF assms(1-4)] by blast
  then show ?thesis using below_ULIM[OF assms(3)] assms(5,6) by (auto simp: user_put32_def)
qed

text \<open>Changing the TLB and the contents of user pages leaves the address spaces alone.\<close>

definition contents_step :: "(nat \<Rightarrow> nat) \<Rightarrow> 'a kernel_scheme \<Rightarrow> 'a kernel_scheme \<Rightarrow> bool" where
  "contents_step K s s' \<longleftrightarrow> pmap_state.more s' = pmap_state.more s \<and> npage s' = npage s \<and> pp_ref s' = pp_ref s
     \<and> page_free_list s' = page_free_list s
     \<and> (\<forall>p. \<not> user_page (dirs s) (kbase K s) s p \<longrightarrow> frames s' p = frames s p)"

lemma contents_step_tables:
  assumes "kinv K s" and "contents_step K s s'"
  shows "same_tables (dirs s) s s'"
proof -
  note mem = kinvD(1)[OF assms(1)]
  have d: "\<not> user_page (dirs s) (kbase K s) s d" if "d \<in> dirs s" for d
    using pmap_invD(2)[OF mem] that by (auto simp: user_page_def tables_ok_def)
  have t: "\<not> user_page (dirs s) (kbase K s) s (PPN (pde_at s d i))"
    if "d \<in> dirs s" "i < NUPDE" "pte_valid (pde_at s d i)" for d i
    using that by (auto simp: user_page_def pde_slots_def)
  show ?thesis using assms(2) d t by (simp add: same_tables_def contents_step_def)
qed

lemma contents_step_keeps:
  assumes "kinv K s" and "contents_step K s s'"
  shows "kinv K s'" "same_vmap (dirs s) s s'" "envs s' = envs s" "curenv s' = curenv s" "dirs s' = dirs s" "live s' = live s"
    "user_page (dirs s) (kbase K s) s' = user_page (dirs s) (kbase K s) s" "kbase K s' = kbase K s"
proof -
  note tables = contents_step_tables[OF assms] and mem = kinvD(1)[OF assms(1)]
  have more: "pmap_state.more s' = pmap_state.more s" and other: "npage s' = npage s" "pp_ref s' = pp_ref s" "page_free_list s' = page_free_list s"
    using assms(2) by (simp_all add: contents_step_def)
  have "distinct (page_free_list s)" using pmap_invD(1)[OF mem] by (simp add: free_list_ok_def)
  then have "pmap_inv (dirs s) (kbase K s) s'"
    using same_tables_inv[OF tables other(1,2) _ _ mem] other(3) by simp
  then show "kinv K s'" by (rule kinv_mem[OF assms(1) more])
  show "same_vmap (dirs s) s s'" using same_tables_vmap[OF tables] by (simp add: same_vmap_def)
  show "envs s' = envs s" "curenv s' = curenv s" by (simp_all add: more_kfields[OF more])
  show "dirs s' = dirs s" "live s' = live s" "kbase K s' = kbase K s" by (simp_all add: mem_step_same[OF more])
  show "user_page (dirs s) (kbase K s) s' = user_page (dirs s) (kbase K s) s"
    using same_tables_slots(1)[OF tables] other by (simp add: user_page_def fun_eq_iff)
qed

lemma contents_step_tlb: "contents_step K s (s\<lparr>tlb := T\<rparr>)"
  by (simp add: contents_step_def)

lemma contents_step_poke: "user_page (dirs s) (kbase K s) s p \<Longrightarrow> contents_step K s (poke (p, i) w (s\<lparr>tlb := T\<rparr>))"
  by (auto simp: contents_step_def frames_poke)

lemma contents_step_trans:
  assumes "kinv K s" and "contents_step K s s1" and "contents_step K s1 s2"
  shows "contents_step K s s2"
  using assms(2,3) contents_step_keeps[OF assms(1,2)] by (simp add: contents_step_def)

lemma user_same_page:
  assumes "VPN a = VPN b" and "a < UTOP"
  shows "b < UTOP"
proof -
  have eq: "unat v < 521216 * 4096 \<longleftrightarrow> VPN v < 521216" for v :: u32
    by (simp add: PPN_eq div_less_iff_less_mult)
  show ?thesis using assms eq[of a] eq[of b] by (simp add: word_less_nat_alt)
qed

lemma word_in_page:
  assumes "unat (a AND 0xFFF) + 4 * i + 4 \<le> 4096" and "a AND 3 = 0" and "a < UTOP"
  shows "VPN (a + of_nat (4 * i)) = VPN a" "unat ((a + of_nat (4 * i)) AND 0xFFF) div 4 = unat (a AND 0xFFF) div 4 + i"
    "(a + of_nat (4 * i)) AND 3 = 0" "a + of_nat (4 * i) < UTOP"
proof -
  have "unat (a AND 0xFFF) + 4 * i < 4096" using assms(1) by simp
  note off = page_offset_add[OF this]
  show v: "VPN (a + of_nat (4 * i)) = VPN a" by (rule off(3))
  show "unat ((a + of_nat (4 * i)) AND 0xFFF) div 4 = unat (a AND 0xFFF) div 4 + i" by (simp only: off(2) div_mult_self2)
  show "(a + of_nat (4 * i)) AND 3 = 0" using assms(2) unfolding and_3 off(1) by simp
  show "a + of_nat (4 * i) < UTOP" by (rule user_same_page[OF v[symmetric] assms(3)])
qed

lemma copy_words_ok:
  assumes "kinv K s" and "curenv s = Some c" and "dst AND 0xFFF = 0" "dst < UTOP" and "src AND 0xFFF = 0" "src < UTOP"
    and "vmap s (env_pgdir (envs s c)) src = Some x" and "vmap s (env_pgdir (envs s c)) dst = Some y"
    and "y AND PTE_D \<noteq> 0" and "PPN x \<noteq> PPN y" and "i + n \<le> 1024"
  shows "\<exists>s'. user_copy_words (dst + of_nat (4 * i)) (src + of_nat (4 * i)) n s = Ret s' \<and> contents_step K s s' \<and>
     frames s' = (frames s)(PPN y := (\<lambda>j. if i \<le> j \<and> j < i + n then frames s (PPN x) j else frames s (PPN y) j))"
  using assms(1,2,7,8,11)
proof (induction n arbitrary: i s)
  case 0
  then show ?case by (auto simp: contents_step_def fun_eq_iff)
next
  case (Suc n)
  let ?d = "env_pgdir (envs s c)" and ?dst = "dst + of_nat (4 * i)" and ?src = "src + of_nat (4 * i)"
  have al: "dst AND 3 = 0" "src AND 3 = 0"
    using arg_cong[OF assms(3), of unat] arg_cong[OF assms(5), of unat]
    by (auto simp: and_3 and_0xFFF mod_eq_0_iff_dvd elim: dvd_trans[rotated])
  have fit: "unat (dst AND 0xFFF) + 4 * i + 4 \<le> 4096" "unat (src AND 0xFFF) + 4 * i + 4 \<le> 4096"
    using Suc.prems(5) assms(3,5) by simp_all
  note wd = word_in_page[OF fit(1) al(1) assms(4)] and ws = word_in_page[OF fit(2) al(2) assms(6)]
  obtain T1 where load: "user_get32 ?src s = Ret (frames s (PPN x) i, s\<lparr>tlb := T1\<rparr>)"
    using user_load[OF Suc.prems(1,2) ws(4) _ ws(3)] Suc.prems(3) vmap_same_page[OF ws(1), of s ?d] ws(2) assms(5) by auto
  define s1 where "s1 = s\<lparr>tlb := T1\<rparr>"
  have k1: "kinv K s1" "curenv s1 = Some c" "vmap s1 = vmap s" "envs s1 = envs s"
    using contents_step_keeps[OF Suc.prems(1) contents_step_tlb] Suc.prems(2) by (simp_all add: s1_def vmap_def fun_eq_iff)
  obtain T2 where store: "user_put32 ?dst (frames s (PPN x) i) s1 = Ret (poke (PPN y, i) (frames s (PPN x) i) (s1\<lparr>tlb := T2\<rparr>))"
    using user_store[OF k1(1,2) wd(4) _ wd(3) assms(9), of "frames s (PPN x) i"] Suc.prems(4) vmap_same_page[OF wd(1), of s ?d] wd(2) assms(3) k1
    by auto
  define s2 where "s2 = poke (PPN y, i) (frames s (PPN x) i) (s1\<lparr>tlb := T2\<rparr>)"
  have up: "user_page (dirs s) (kbase K s) s (PPN y)"
    by (rule leaf_range(6)[OF kinvD(1)[OF Suc.prems(1)] live_dirs[OF cur_live[OF Suc.prems(1,2)]] PDX_user[OF assms(4)] Suc.prems(4)])
  have s2: "s2 = poke (PPN y, i) (frames s (PPN x) i) (s\<lparr>tlb := T2\<rparr>)" by (simp add: s2_def s1_def)
  have st2: "contents_step K s s2" unfolding s2 by (rule contents_step_poke[OF up])
  note k2 = contents_step_keeps[OF Suc.prems(1) st2]
  have dc: "?d \<in> dirs s" by (rule live_dirs[OF cur_live[OF Suc.prems(1,2)]])
  have v2: "vmap s2 ?d src = Some x" "vmap s2 ?d dst = Some y"
    using k2(2) dc assms(4,6) Suc.prems(3,4) by (simp_all add: same_vmap_def)
  have next_word: "?dst + 4 = dst + of_nat (4 * Suc i)" "?src + 4 = src + of_nat (4 * Suc i)" by simp_all
  have "Suc i + n \<le> 1024" using Suc.prems(5) by simp
  then obtain s' where s': "user_copy_words (?dst + 4) (?src + 4) n s2 = Ret s'" "contents_step K s2 s'"
    "frames s' = (frames s2)(PPN y := (\<lambda>j. if Suc i \<le> j \<and> j < Suc i + n then frames s2 (PPN x) j else frames s2 (PPN y) j))"
    using Suc.IH[OF k2(1) _ _ _ \<open>Suc i + n \<le> 1024\<close>] v2 k2(3,4) Suc.prems(2) unfolding next_word by metis
  have "user_copy_words ?dst ?src (Suc n) s = Ret s'"
    using load store s'(1) by (simp add: s1_def s2_def)
  moreover have "frames s' = (frames s)(PPN y := (\<lambda>j. if i \<le> j \<and> j < i + Suc n then frames s (PPN x) j else frames s (PPN y) j))"
    using assms(10) unfolding s'(3) s2 by (auto simp: frames_poke fun_eq_iff)
  ultimately show ?case using contents_step_trans[OF Suc.prems(1) st2 s'(2)] by blast
qed

lemma get_words_ok:
  fixes s :: "'a kernel_scheme"
  assumes "kinv K s" and "curenv s = Some c" and "a AND 3 = 0" "a < UTOP" and "unat (a AND 0xFFF) + 4 * (i + n) \<le> 4096"
    and "vmap s (env_pgdir (envs s c)) a = Some t"
  shows "\<exists>T. user_get_words (a + of_nat (4 * i)) n s =
    Ret (map (\<lambda>j. frames s (PPN t) (unat (a AND 0xFFF) div 4 + j)) [i..<i + n], s\<lparr>tlb := T\<rparr>)"
  using assms(1,2,5,6)
proof (induction n arbitrary: i s)
  case 0
  have "\<exists>T. s = s\<lparr>tlb := T\<rparr>" by (rule exI[of _ "tlb s"]) simp
  then show ?case by simp
next
  case (Suc n)
  have fit: "unat (a AND 0xFFF) + 4 * i + 4 \<le> 4096" using Suc.prems(3) by simp
  note w = word_in_page[OF fit assms(3,4)]
  obtain T where load: "user_get32 (a + of_nat (4 * i)) s = Ret (frames s (PPN t) (unat (a AND 0xFFF) div 4 + i), s\<lparr>tlb := T\<rparr>)"
    using user_load[OF Suc.prems(1,2) w(4) _ w(3)] Suc.prems(4) vmap_same_page[OF w(1), of s] w(2) by auto
  define s1 where "s1 = s\<lparr>tlb := T\<rparr>"
  have k1: "kinv K s1" "curenv s1 = Some c" "vmap s1 = vmap s" "envs s1 = envs s" "frames s1 = frames s"
    using contents_step_keeps[OF Suc.prems(1) contents_step_tlb] Suc.prems(2) by (simp_all add: s1_def vmap_def fun_eq_iff)
  have step: "a + of_nat (4 * i) + 4 = a + of_nat (4 * Suc i)" by simp
  obtain T' where rest: "user_get_words (a + of_nat (4 * Suc i)) n s1 =
      Ret (map (\<lambda>j. frames s (PPN t) (unat (a AND 0xFFF) div 4 + j)) [Suc i..<Suc i + n], s1\<lparr>tlb := T'\<rparr>)"
    using Suc.IH[OF k1(1,2), of "Suc i"] Suc.prems(3,4) k1(3-5) by auto
  show ?case
    using load rest unfolding user_get_words.simps step s1_def[symmetric]
    by (simp add: s1_def upt_conv_Cons del: upt_Suc) blast
qed

section \<open>The handler\<close>

lemma legal_UCOW: "\<not> is_illegal_va UCOW" "UCOW < UTOP" "UCOW AND 0xFFF = 0"
  by (simp_all add: is_illegal_va_def)

lemma cow_alloc:
  assumes inv: "kinv K s" and cur: "curenv s = Some c" and none: "vmap s (env_pgdir (envs s c)) UCOW = None"
    and free: "2 \<le> length (page_free_list s)"
  obtains s1 p where "ignore (sys_mem_alloc 0 UCOW PTE_D s) = Ret s1" "p \<in> set (page_free_list s)"
    "pmap_step (dirs s) (kbase K s) s s1" "unat (pp_ref s1 p) \<le> 1"
    "vmap_updated (dirs s) (env_pgdir (envs s c)) UCOW (Some (page2pa p OR PTE_D OR PTE_V)) s s1"
proof -
  let ?d = "env_pgdir (envs s c)" and ?a = "env_asid (envs s c)"
  note mem = kinvD(1)[OF inv] and d = live_dirs[OF cur_live[OF inv cur]]
  obtain q fl where fl: "page_free_list s = q # fl" "fl \<noteq> []" using free by (cases "page_free_list s"; cases "tl (page_free_list s)") auto
  define s0 where "s0 = s\<lparr>page_free_list := fl, frames := (frames s)(q := (\<lambda>_. 0))\<rparr>"
  have run0: "page_alloc s = Ret (Inr q, s0)"
    by (cases rule: page_alloc_cases[OF pmap_invD(1)[OF mem]]) (use fl in \<open>auto simp: s0_def\<close>)
  have st0: "pmap_step (dirs s) (kbase K s) s s0" "same_vmap (dirs s) s s0" "user_page (dirs s) (kbase K s) s0 q"
    and keep: "\<forall>p. user_page (dirs s) (kbase K s) s p \<longrightarrow> user_page (dirs s) (kbase K s) s0 p"
    using page_alloc_ok[OF mem] by (simp_all add: run0)
  have ref0: "pp_ref s0 q = 0" using free_unreferenced(2)[OF mem, of q] fl by (simp add: s0_def)
  have mem0: "pmap_inv (dirs s) (kbase K s) s0" using st0(1) by (simp add: pmap_step_def)
  obtain r s1 where run1: "page_insert ?d ?a q UCOW PTE_D s0 = Ret (r, s1)"
    "insert_post (dirs s) (kbase K s) ?d q UCOW PTE_D s0 (r, s1)"
    using page_insert_ok[OF mem0 d legal_UCOW(2) st0(3) _, of PTE_D ?a] ref0 by (auto simp: returns_iff)
  have none0: "vmap s0 ?d UCOW = None" using none st0(2) d by (simp add: same_vmap_def)
  have "q \<notin> set (page_free_list s0)" using st0(3) by (simp add: user_page_def)
  from page_insert_cost(2)[OF mem0 d legal_UCOW(2) run1(1) this, of q] none0 ref0
  have ref1: "unat (pp_ref s1 q) \<le> 1" by simp
  have r: "r = Inr ()" using run1(2) fl(2) by (cases r) (auto simp: insert_post_def s0_def)
  have st1: "pmap_step (dirs s) (kbase K s) s0 s1"
    and upd: "vmap_updated (dirs s) ?d UCOW (Some (page2pa q OR PTE_D OR PTE_V)) s0 s1"
    using run1(2) r by (simp_all add: insert_post_def)
  have "ignore (sys_mem_alloc 0 UCOW PTE_D s) = Ret s1"
    using mem_alloc_run[OF legal_UCOW(1) inv with_env_self[OF cur], of PTE_D] run0 run1(1) r by (simp add: ignore_def)
  moreover have "pmap_step (dirs s) (kbase K s) s s1" using st0(1) st1 keep by (simp add: pmap_step_def)
  ultimately show ?thesis using that[of s1 q] fl(1) ref1 vmap_updated_trans[OF st0(2) upd] by simp
qed

text \<open>
  The address spaces and page contents after \<open>cow_entry\<close> has replaced the page at \<open>va\<close>, with the entry
  \<open>x\<close>, by its private copy in the frame \<open>p\<close>.
\<close>

definition privatized :: "nat \<Rightarrow> u32 \<Rightarrow> u32 \<Rightarrow> u32 \<Rightarrow> nat \<Rightarrow> 'a kernel_scheme \<Rightarrow> 'a kernel_scheme \<Rightarrow> bool" where
  "privatized d va x perm p s s' \<longleftrightarrow>
     vmap_updated (dirs s) d va (Some (page2pa p OR perm OR PTE_V)) s s' \<and>
     (\<forall>j<1024. frames s' p j = frames s (PPN x) j) \<and>
     (\<forall>d'\<in>dirs s. \<forall>va'<UTOP. \<forall>y. vmap s d' va' = Some y \<longrightarrow> \<not> (d' = d \<and> VPN va' = VPN va) \<longrightarrow>
        frames s' (PPN y) = frames s (PPN y))"

lemma cow_replace:
  assumes inv: "kinv K s" and cur: "curenv s = Some c" and va: "UTEMP \<le> va" "va < UTOP" "VPN va \<noteq> VPN UCOW" and perm: "perm < 4096"
    and x: "vmap s (env_pgdir (envs s c)) va = Some x" and y: "vmap s (env_pgdir (envs s c)) UCOW = Some y" and ref: "unat (pp_ref s (PPN y)) \<le> 1"
    and ne: "PPN x \<noteq> PPN y"
  shows "returns (\<lambda>s'. kinv K s' \<and> pmap_state.more s' = pmap_state.more s \<and>
      (\<forall>d\<in>dirs s. \<forall>va'<UTOP. vmap s' d va' = (if d = env_pgdir (envs s c) \<and> VPN va' = VPN va then Some (page2pa (PPN y) OR perm OR PTE_V)
         else if d = env_pgdir (envs s c) \<and> VPN va' = VPN UCOW then None else vmap s d va')) \<and>
      frames s' (PPN y) = frames s (PPN y) \<and>
      (\<forall>d\<in>dirs s. \<forall>va'<UTOP. \<forall>z. vmap s d va' = Some z \<longrightarrow> \<not> (d = env_pgdir (envs s c) \<and> VPN va' \<in> {VPN va, VPN UCOW}) \<longrightarrow>
         frames s' (PPN z) = frames s (PPN z)))
    (obind (ignore (sys_mem_map 0 UCOW 0 va perm s)) (\<lambda>s. ignore (sys_mem_unmap 0 UCOW s)))"
proof -
  let ?d = "env_pgdir (envs s c)" and ?a = "env_asid (envs s c)"
  have lc: "live s c" by (rule cur_live[OF inv cur])
  note mem = kinvD(1)[OF inv] and d = live_dirs[OF lc]
  have legal: "\<not> is_illegal_va va" using va by (auto simp: is_illegal_va_def)
  note up = leaf_range(6)[OF mem d PDX_user]
  have "unat (pp_ref s (PPN y)) < 65535" using ref by simp
  then obtain r s1 where ins: "page_insert ?d ?a (PPN y) va perm s = Ret (r, s1)" "insert_post (dirs s) (kbase K s) ?d (PPN y) va perm s (r, s1)"
    using page_insert_ok[OF mem d va(2) up[OF legal_UCOW(2) y] _ perm, of ?a] by (auto simp: returns_iff)
  have "pte_valid (pde_at s ?d (PDX va))" using x by (auto simp: vmap_def split: if_splits)
  then have r: "r = Inr ()" using ins(2) by (cases r) (auto simp: insert_post_def)
  have st1: "pmap_step (dirs s) (kbase K s) s s1" and upd1: "vmap_updated (dirs s) ?d va (Some (page2pa (PPN y) OR perm OR PTE_V)) s s1"
    using ins(2) r by (simp_all add: insert_post_def)
  have map_run: "ignore (sys_mem_map 0 UCOW 0 va perm s) = Ret s1"
    using mem_map_run[OF legal_UCOW(1) legal inv with_env_self[OF cur] lc with_env_self[OF cur] y, of perm] ins(1) r by (simp add: ignore_def)
  have more1: "pmap_state.more s1 = pmap_state.more s" using st1 by (simp add: pmap_step_def)
  have inv1: "kinv K s1" by (rule kinv_step[OF inv st1])
  note same1 = mem_step_same[OF more1] more_kfields[OF more1]
  have cur1: "curenv s1 = Some c" using cur same1 by simp
  obtain s2 where rem: "page_remove ?d ?a UCOW s1 = Ret s2" "pmap_step (dirs s) (kbase K s) s1 s2" "vmap_updated (dirs s) ?d UCOW None s1 s2"
    using page_remove_ok[OF kinvD(1)[OF inv1], of ?d UCOW ?a] d same1(1-3) legal_UCOW(2) by (auto simp: returns_iff)
  have unmap_run: "ignore (sys_mem_unmap 0 UCOW s1) = Ret s2"
    using rem(1) legal_UCOW(1) with_env_self[OF cur1] same1 by (simp add: sys_mem_unmap_def ignore_def)
  have inv2: "kinv K s2" using kinv_step[OF inv1, of s2] rem(2) same1(2,3) by simp
  have P: "PPN (page2pa (PPN y) OR perm OR PTE_V) = PPN y" by (rule page2pa_or[OF PPN_less perm])
  have maps: "vmap s2 d' va' = (if d' = ?d \<and> VPN va' = VPN va then Some (page2pa (PPN y) OR perm OR PTE_V)
      else if d' = ?d \<and> VPN va' = VPN UCOW then None else vmap s d' va')" if "d' \<in> dirs s" "va' < UTOP" for d' va'
    using upd1 rem(3) that va(3) by (auto simp: vmap_updated_def)
  have kept: "frames s2 p = frames s p"
    if "d' \<in> dirs s" "va' < UTOP" "vmap s1 d' va' = Some z" "PPN z = p" "user_page (dirs s) (kbase K s) s p" for d' va' z p
  proof -
    have "user_page (dirs s) (kbase K s) s1 p"
      using leaf_range(6)[OF kinvD(1)[OF inv1], of d' va' z] PDX_user[OF that(2)] that same1(2,3) by simp
    then show ?thesis using st1 rem(2) that(5) by (simp add: pmap_step_def)
  qed
  have "vmap s1 ?d va = Some (page2pa (PPN y) OR perm OR PTE_V)" using upd1 d va(2) by (simp add: vmap_updated_def)
  from kept[OF d va(2) this P up[OF legal_UCOW(2) y]] have fy: "frames s2 (PPN y) = frames s (PPN y)" .
  have fz: "frames s2 (PPN z) = frames s (PPN z)"
    if "d' \<in> dirs s" "va' < UTOP" "vmap s d' va' = Some z" "\<not> (d' = ?d \<and> VPN va' \<in> {VPN va, VPN UCOW})" for d' va' z
  proof (rule kept[OF that(1,2)])
    show "vmap s1 d' va' = Some z" using upd1 that by (auto simp: vmap_updated_def)
    show "user_page (dirs s) (kbase K s) s (PPN z)" by (rule leaf_range(6)[OF mem that(1) PDX_user[OF that(2)] that(3)])
  qed simp
  show ?thesis unfolding map_run obind.simps unmap_run returns.simps
    using inv2 rem(2) more1 maps fy fz by (auto simp: pmap_step_def)
qed

lemma cow_perm: "((x AND 0xFFF) AND NOT PTE_COW) OR PTE_D < (4096 :: u32)"
proof -
  have "(x AND 0xFFF) AND NOT PTE_COW = (x AND NOT PTE_COW) AND 0xFFF" by (simp only: ac_simps)
  then show ?thesis using perm_range(1)[of "x AND NOT PTE_COW"] by (intro or_less_4096) simp_all
qed

text \<open>Allocating the page at \<open>UCOW\<close>, copying, and moving the copy to \<open>va\<close>.\<close>

lemma cow_core:
  assumes inv: "kinv K s" and cur: "curenv s = Some c" and va: "UTEMP \<le> va" "va < UTOP" "VPN va \<noteq> VPN UCOW" "va AND 0xFFF = 0"
    and perm: "perm < 4096" and x: "vmap s (env_pgdir (envs s c)) va = Some x"
    and none: "vmap s (env_pgdir (envs s c)) UCOW = None" and free: "2 \<le> length (page_free_list s)"
  shows "returns (\<lambda>s'. kinv K s' \<and> pmap_state.more s' = pmap_state.more s \<and>
      (\<exists>p\<in>set (page_free_list s). privatized (env_pgdir (envs s c)) va x perm p s s'))
    (obind (ignore (sys_mem_alloc 0 UCOW PTE_D s)) (\<lambda>s.
     obind (user_copy_words UCOW va 1024 s) (\<lambda>s.
     obind (ignore (sys_mem_map 0 UCOW 0 va perm s)) (\<lambda>s. ignore (sys_mem_unmap 0 UCOW s)))))"
proof -
  let ?d = "env_pgdir (envs s c)"
  note mem = kinvD(1)[OF inv] and d = live_dirs[OF cur_live[OF inv cur]]
  obtain s1 p where s1: "ignore (sys_mem_alloc 0 UCOW PTE_D s) = Ret s1" "p \<in> set (page_free_list s)"
    "pmap_step (dirs s) (kbase K s) s s1" "unat (pp_ref s1 p) \<le> 1"
    "vmap_updated (dirs s) ?d UCOW (Some (page2pa p OR PTE_D OR PTE_V)) s s1"
    by (rule cow_alloc[OF inv cur none free])
  define y where "y = page2pa p OR PTE_D OR PTE_V"
  have p20: "p < 1048576" using pmap_invD(1)[OF mem] s1(2) by (auto simp: free_list_ok_def)
  have y: "PPN y = p" "y AND PTE_D \<noteq> 0"
    unfolding y_def using page2pa_or[OF p20, of PTE_D] by (simp_all add: bit.conj_disj_distrib2 bit.conj_disj_distrib)
  have more1: "pmap_state.more s1 = pmap_state.more s" using s1(3) by (simp add: pmap_step_def)
  have inv1: "kinv K s1" by (rule kinv_step[OF inv s1(3)])
  note same1 = mem_step_same[OF more1] more_kfields[OF more1]
  have cur1: "curenv s1 = Some c" using cur same1 by simp
  have v1: "vmap s1 ?d va = Some x" "vmap s1 ?d UCOW = Some y"
    using s1(5) x va(2,3) d legal_UCOW(2) by (simp_all add: vmap_updated_def y_def)
  have ne: "PPN x \<noteq> PPN y" using leaf_range(5)[OF mem d PDX_user[OF va(2)] x] s1(2) y(1) by auto
  obtain s2 where s2: "user_copy_words UCOW va 1024 s1 = Ret s2" "contents_step K s1 s2"
    "frames s2 = (frames s1)(PPN y := (\<lambda>j. if j < 1024 then frames s1 (PPN x) j else frames s1 (PPN y) j))"
    using copy_words_ok[OF inv1 cur1 legal_UCOW(3,2) va(4,2), of x y 0 1024] v1 y(2) ne same1(6) by auto
  note k2 = contents_step_keeps[OF inv1 s2(2)]
  have cur2: "curenv s2 = Some c" using cur1 k2(4) by simp
  have d2: "env_pgdir (envs s2 c) = ?d" using k2(3) same1 by simp
  have dirs2: "dirs s2 = dirs s" using k2(5) same1(2) by simp
  have v2: "vmap s2 d' va' = vmap s1 d' va'" if "d' \<in> dirs s" "va' < UTOP" for d' va'
    using k2(2) that same1(2) by (simp add: same_vmap_def)
  have ref2: "unat (pp_ref s2 (PPN y)) \<le> 1" using s1(4) y(1) s2(2) by (simp add: contents_step_def)
  have x2: "vmap s2 ?d va = Some x" "vmap s2 ?d UCOW = Some y" using v2[OF d] v1 va(2) legal_UCOW(2) by simp_all
  have up: "user_page (dirs s) (kbase K s) s (PPN z)" if "d' \<in> dirs s" "va' < UTOP" "vmap s d' va' = Some z" for d' va' z
    by (rule leaf_range(6)[OF mem that(1) PDX_user[OF that(2)] that(3)])
  have f1: "frames s1 (PPN z) = frames s (PPN z)" "PPN z \<noteq> p" if "d' \<in> dirs s" "va' < UTOP" "vmap s d' va' = Some z" for d' va' z
    using up[OF that] s1(2,3) by (auto simp: pmap_step_def user_page_def)
  have result: "kinv K s3 \<and> pmap_state.more s3 = pmap_state.more s \<and> privatized ?d va x perm p s s3"
    if post: "kinv K s3 \<and> pmap_state.more s3 = pmap_state.more s2 \<and>
      (\<forall>d'\<in>dirs s2. \<forall>va'<UTOP. vmap s3 d' va' = (if d' = ?d \<and> VPN va' = VPN va then Some (page2pa (PPN y) OR perm OR PTE_V)
         else if d' = ?d \<and> VPN va' = VPN UCOW then None else vmap s2 d' va')) \<and>
      frames s3 (PPN y) = frames s2 (PPN y) \<and>
      (\<forall>d'\<in>dirs s2. \<forall>va'<UTOP. \<forall>z. vmap s2 d' va' = Some z \<longrightarrow> \<not> (d' = ?d \<and> VPN va' \<in> {VPN va, VPN UCOW}) \<longrightarrow>
         frames s3 (PPN z) = frames s2 (PPN z))" for s3
  proof -
    have old: "vmap s2 d' va' = (if d' = ?d \<and> VPN va' = VPN UCOW then Some y else vmap s d' va')" if "d' \<in> dirs s" "va' < UTOP" for d' va'
      using v2[OF that] s1(5) that by (simp add: vmap_updated_def y_def)
    have "vmap s ?d va' = None" if "VPN va' = VPN UCOW" for va' using vmap_same_page[OF that, of s ?d] none by simp
    then have "vmap_updated (dirs s) ?d va (Some (page2pa p OR perm OR PTE_V)) s s3"
      using post old unfolding dirs2 y(1) vmap_updated_def by auto
    moreover have "frames s3 p j = frames s (PPN x) j" if "j < 1024" for j
      using post that f1(1)[OF d va(2) x] unfolding y(1) s2(3) by simp
    moreover have "frames s3 (PPN z) = frames s (PPN z)"
      if "d' \<in> dirs s" "va' < UTOP" "vmap s d' va' = Some z" "\<not> (d' = ?d \<and> VPN va' = VPN va)" for d' va' z
    proof -
      have "\<not> (d' = ?d \<and> VPN va' = VPN UCOW)" using that(3) vmap_same_page[of va' UCOW s ?d] none by auto
      then have "frames s3 (PPN z) = frames s2 (PPN z)" using post that old[OF that(1,2)] unfolding dirs2 by auto
      then show ?thesis using f1[OF that(1-3)] y(1) unfolding s2(3) by simp
    qed
    ultimately show ?thesis using post more1 s2(2) by (auto simp: privatized_def contents_step_def)
  qed
  have "returns (\<lambda>s'. kinv K s' \<and> pmap_state.more s' = pmap_state.more s \<and> privatized ?d va x perm p s s')
    (obind (ignore (sys_mem_map 0 UCOW 0 va perm s2)) (\<lambda>s. ignore (sys_mem_unmap 0 UCOW s)))"
    using cow_replace[OF k2(1) cur2 va(1-3) perm, unfolded d2, OF x2 ref2 ne] by (rule returns_mono) (rule result)
  then show ?thesis unfolding s1(1) obind.simps s2(1) by (rule returns_mono) (use s1(2) in blast)
qed

lemma ROUNDDOWN_page: "ROUNDDOWN va BY2PG = PTE_ADDR va"
  by (simp add: ROUNDDOWN_def PTE_ADDR_def)

lemma page_base_user:
  "UTEMP \<le> va \<Longrightarrow> UTEMP \<le> PTE_ADDR va" "va < UTOP \<Longrightarrow> PTE_ADDR va < UTOP" "PTE_ADDR va AND 0xFFF = 0"
proof -
  show "PTE_ADDR va < UTOP" if "va < UTOP" by (rule user_same_page[OF _ that]) simp
  show "PTE_ADDR va AND 0xFFF = 0" by (simp add: PTE_ADDR_def and.assoc)
  assume "UTEMP \<le> va"
  then have "1022 \<le> VPN va" by (simp add: word_le_nat_alt PPN_eq le_div_geq less_eq_div_iff_mult_less_eq)
  then show "UTEMP \<le> PTE_ADDR va" by (simp add: word_le_nat_alt unat_PTE_ADDR)
qed

text \<open>Where the trap frame is on the user exception stack: within one mapped page.\<close>

definition frame_at :: "nat \<Rightarrow> u32 \<Rightarrow> u32 \<Rightarrow> 'a kernel_scheme \<Rightarrow> bool" where
  "frame_at d tf t s \<longleftrightarrow> \<not> is_illegal_va_range tf sizeof_Trapframe \<and> tf < UTOP \<and> tf AND 3 = 0 \<and>
     unat (tf AND 0xFFF) + unat sizeof_Trapframe \<le> 4096 \<and> vmap s d tf = Some t"

definition frame_words :: "u32 \<Rightarrow> u32 \<Rightarrow> 'a kernel_scheme \<Rightarrow> u32 list" where
  "frame_words tf t s = map (\<lambda>j. frames s (PPN t) (unat (tf AND 0xFFF) div 4 + j)) [0..<38]"

lemma set_trapframe_self:
  assumes inv: "kinv K s" and cur: "curenv s = Some c" and tf: "frame_at (env_pgdir (envs s c)) tf t s"
  obtains r T where "sys_set_trapframe 0 tf s = Ret (r, s\<lparr>tlb := T, kstack_tf := tf_of_words (frame_words tf t s)\<rparr>)"
proof -
  have "unat (tf AND 0xFFF) + 4 * (0 + 38) \<le> 4096" using tf by (simp add: frame_at_def)
  from get_words_ok[OF inv cur _ _ this] tf
  obtain T where "user_get_words tf 38 s = Ret (frame_words tf t s, s\<lparr>tlb := T\<rparr>)"
    by (auto simp: frame_at_def frame_words_def)
  then show ?thesis using that tf cur by (auto simp: sys_set_trapframe_def with_env_self frame_at_def)
qed

text \<open>
  C10. The copy-on-write handler: called with the trap frame of a fault at \<open>va\<close>, a page of the current
  environment that is marked \<open>PTE_COW\<close>, and with two pages free, \<open>cow_entry\<close> maps at that page a frame
  that was free, with the same contents, writable and no longer copy-on-write, and continues from the
  saved trap frame.  No other translation of this or any other environment changes, so every environment
  that shared the page still has the old frame, and no other mapped page changes its contents.
\<close>

theorem cow_entry_correct:
  assumes "kinv K s" and "curenv s = Some c" and "frame_at (env_pgdir (envs s c)) tf t s"
    and "va = frame_words tf t s ! 35" and "UTEMP \<le> va" and "va < UTOP" and "VPN va \<noteq> VPN UCOW" and "VPN va \<noteq> VPN tf"
    and "vmap s (env_pgdir (envs s c)) va = Some x" and "x AND PTE_COW \<noteq> 0"
    and "vmap s (env_pgdir (envs s c)) UCOW = None" and "2 \<le> length (page_free_list s)"
  shows "returns (\<lambda>s'. kinv K s' \<and> envs s' = envs s \<and> curenv s' = curenv s \<and>
      kstack_tf s' = tf_of_words (frame_words tf t s) \<and>
      (\<exists>p\<in>set (page_free_list s).
         privatized (env_pgdir (envs s c)) va x (((x AND 0xFFF) AND NOT PTE_COW) OR PTE_D) p s s'))
    (cow_entry tf s)"
proof -
  let ?d = "env_pgdir (envs s c)" and ?perm = "((x AND 0xFFF) AND NOT PTE_COW) OR PTE_D" and ?va = "PTE_ADDR va"
  note d = live_dirs[OF cur_live[OF assms(1,2)]]
  have tf: "\<not> is_illegal_va_range tf sizeof_Trapframe" "tf < UTOP" "tf AND 3 = 0" "unat (tf AND 0xFFF) + 4 * 35 + 4 \<le> 4096" "vmap s ?d tf = Some t"
    using assms(3) by (simp_all add: frame_at_def)
  note w = word_in_page[OF tf(4,3,2)]
  have off: "tf + BADVADDR_OFF = tf + of_nat (4 * 35)" by simp
  obtain T where load: "user_get32 (tf + BADVADDR_OFF) s = Ret (va, s\<lparr>tlb := T\<rparr>)"
    using user_load[OF assms(1,2) w(4) _ w(3)] vmap_same_page[OF w(1), of s ?d] tf(5) w(2) assms(4)
    unfolding off by (auto simp: frame_words_def)
  define s1 where "s1 = s\<lparr>tlb := T\<rparr>"
  have k1: "kinv K s1" "curenv s1 = Some c" "vmap s1 = vmap s" "envs s1 = envs s" "frames s1 = frames s"
    "page_free_list s1 = page_free_list s" "dirs s1 = dirs s" "pmap_state.more s1 = pmap_state.more s"
    using contents_step_keeps[OF assms(1) contents_step_tlb] assms(2) by (simp_all add: s1_def vmap_def fun_eq_iff)
  have "page_va (VPN va) = ?va" by (simp add: page_va_eq page2pa_PPN PTE_ADDR_def)
  then have vpt: "vpt s1 c (VPN va) = x"
    using vpt_vmap[OF PPN_less, of s1 c va] vmap_same_page[of ?va va s ?d] assms(9) k1(3,4) by (simp split: if_splits)
  have xa: "vmap s1 (env_pgdir (envs s1 c)) ?va = Some x"
    using vmap_same_page[of ?va va s ?d] assms(9) k1(3,4) by simp
  obtain s2 where s2: "obind (ignore (sys_mem_alloc 0 UCOW PTE_D s1)) (\<lambda>s.
       obind (user_copy_words UCOW ?va 1024 s) (\<lambda>s.
       obind (ignore (sys_mem_map 0 UCOW 0 ?va ?perm s)) (\<lambda>s. ignore (sys_mem_unmap 0 UCOW s)))) = Ret s2"
     "kinv K s2" "pmap_state.more s2 = pmap_state.more s" "\<exists>p\<in>set (page_free_list s). privatized ?d ?va x ?perm p s1 s2"
    using cow_core[OF k1(1,2) page_base_user(1)[OF assms(5)] page_base_user(2)[OF assms(6)] _ page_base_user(3) cow_perm[of x] xa] assms(7,11,12) k1
    by (auto simp: returns_iff)
  note same2 = more_kfields[OF s2(3)]
  have cur2: "curenv s2 = Some c" using assms(2) same2 by simp
  from s2(4) obtain p where p: "p \<in> set (page_free_list s)" "privatized ?d ?va x ?perm p s1 s2" by blast
  have "vmap s2 ?d tf = Some t" "frames s2 (PPN t) = frames s (PPN t)"
    using p(2) d tf(2,5) assms(8) k1 by (auto simp: privatized_def vmap_updated_def)
  then have tf2: "frame_at (env_pgdir (envs s2 c)) tf t s2" "frame_words tf t s2 = frame_words tf t s"
    using assms(3) same2 by (simp_all add: frame_at_def frame_words_def)
  obtain r T2 where last: "sys_set_trapframe 0 tf s2 = Ret (r, s2\<lparr>tlb := T2, kstack_tf := tf_of_words (frame_words tf t s)\<rparr>)"
    using set_trapframe_self[OF s2(2) cur2 tf2(1)] tf2(2) by metis
  define s3 where "s3 = s2\<lparr>tlb := T2, kstack_tf := tf_of_words (frame_words tf t s)\<rparr>"
  obtain t1 t2 t3 where steps: "ignore (sys_mem_alloc 0 UCOW PTE_D s1) = Ret t1" "user_copy_words UCOW ?va 1024 t1 = Ret t2"
    "ignore (sys_mem_map 0 UCOW 0 ?va ?perm t2) = Ret t3" "ignore (sys_mem_unmap 0 UCOW t3) = Ret s2"
    using s2(1) by (simp only: obind_eq_Ret) blast
  have run: "cow_entry tf s = Ret s3"
    using k1(2) vpt assms(10) tf(1) last[folded s3_def] steps
    unfolding cow_entry_def load obind.simps prod.case s1_def[symmetric] with_cur_def ROUNDDOWN_page
    by (simp add: Let_def low_bits_and)
  have "kinv K s3"
    by (rule kinv_frame[OF s2(2)]) (simp_all add: s3_def kview_def mem_of_def)
  moreover have "privatized ?d va x ?perm p s s3"
  proof -
    have v3: "vmap s3 = vmap s2" by (rule vmap_frames) (simp add: s3_def)
    have f3: "frames s3 = frames s2" by (simp add: s3_def)
    show ?thesis using p(2) unfolding privatized_def vmap_updated_def v3 f3 k1 PPN_PTE_ADDR .
  qed
  ultimately show ?thesis using p(1) same2 run by (auto simp: s3_def)
qed

theorem cow_entry_correct_witness:
  "returns (\<lambda>s'. kinv demo_K s' \<and> (\<exists>p. vmap s' 1 0x400000 = Some (page2pa p OR 0x600) \<and> frames s' p 4 = 42)) (cow_entry 0x7F3FFF68 demo_fork)"
proof -
  have vpn: "VPN (0x7F3FFF68 :: u32) = 0x7F3FF" "VPN (0x400010 :: u32) = 1024" "VPN (0x400000 :: u32) = 1024" "VPN UCOW = 1023"
    by (simp_all add: PPN_def)
  have tf: "frame_at (env_pgdir (envs demo_fork 0)) 0x7F3FFF68 0x6600 demo_fork"
    unfolding frame_at_def demo_fork_pgdir demo_fork_vmap vpn by (simp add: is_illegal_va_range_def)
  have va: "0x400010 = frame_words 0x7F3FFF68 0x6600 demo_fork ! 35"
    by (simp add: frame_words_def demo_fork_fields demo_frames_def demo_PPN)
  have x: "vmap demo_fork (env_pgdir (envs demo_fork 0)) 0x400010 = Some 0x5201"
    "vmap demo_fork (env_pgdir (envs demo_fork 0)) UCOW = None"
    unfolding demo_fork_pgdir demo_fork_vmap vpn by simp_all
  have page: "vmap s' 1 0x400000 = Some (page2pa p OR 0x600) \<and> frames s' p 4 = 42"
    if "privatized (env_pgdir (envs demo_fork 0)) 0x400010 0x5201 (((0x5201 AND 0xFFF) AND NOT PTE_COW) OR PTE_D) p demo_fork s'" for s' p
  proof -
    have "(0x400000 :: u32) < UTOP" "(1 :: nat) \<in> dirs demo_fork" by (simp_all add: demo_fork_same)
    then have "vmap s' 1 0x400000 = Some (page2pa p OR (((0x5201 AND 0xFFF) AND NOT PTE_COW) OR PTE_D) OR PTE_V)"
      using that vpn unfolding privatized_def vmap_updated_def demo_fork_pgdir by simp
    moreover have "frames s' p 4 = demo_frames 5 4"
      using that unfolding privatized_def demo_fork_fields by (simp add: demo_PPN)
    ultimately show ?thesis by (simp add: demo_frames_def)
  qed
  have ok: "UTEMP \<le> (0x400010 :: u32)" "(0x400010 :: u32) < UTOP" "VPN (0x400010 :: u32) \<noteq> VPN UCOW"
    "VPN (0x400010 :: u32) \<noteq> VPN (0x7F3FFF68 :: u32)" "(0x5201 :: u32) AND PTE_COW \<noteq> 0" "2 \<le> length (page_free_list demo_fork)"
    unfolding vpn by (simp_all add: demo_fork_fields)
  show ?thesis
    by (rule returns_mono[OF cow_entry_correct[OF demo_fork_kinv demo_fork_same(2) tf va ok(1-4) x(1) ok(5) x(2) ok(6)]])
      (use page in blast)
qed

end
