(* ===== verification/Mos_Usyscall.thy ===== *)
theory Mos_Usyscall
  imports Mos_Cow
begin

text \<open>
  The system call stubs of the user library (\<open>user/lib/syscall_lib.c\<close>, \<open>user/lib/syscall_wrap.S\<close>) and the
  numbering of \<open>include/syscall.h\<close>, down to the kernel's dispatcher \<open>do_syscall\<close>: each stub reaches its
  handler with its own arguments.  The registers of the running program are those of the trap frame
  that the exception entry saves.
\<close>

section \<open>Numbers and stubs\<close>

datatype sysno =
    SYS_putchar | SYS_print_cons | SYS_getenvid | SYS_yield | SYS_env_destroy | SYS_set_tlb_mod_entry
  | SYS_mem_alloc | SYS_mem_map | SYS_mem_unmap | SYS_exofork | SYS_set_env_status | SYS_set_trapframe
  | SYS_panic | SYS_ipc_try_send | SYS_ipc_recv | SYS_cgetc | SYS_write_dev | SYS_read_dev
  | SYS_get_env_path | SYS_change_dir | SYS_alloc_shell_id | SYS_declare_var | SYS_unset_var
  | SYS_get_var | SYS_get_all_var

definition sysnos :: "sysno list" where
  "sysnos =
     [SYS_putchar, SYS_print_cons, SYS_getenvid, SYS_yield, SYS_env_destroy, SYS_set_tlb_mod_entry,
      SYS_mem_alloc, SYS_mem_map, SYS_mem_unmap, SYS_exofork, SYS_set_env_status, SYS_set_trapframe,
      SYS_panic, SYS_ipc_try_send, SYS_ipc_recv, SYS_cgetc, SYS_write_dev, SYS_read_dev,
      SYS_get_env_path, SYS_change_dir, SYS_alloc_shell_id, SYS_declare_var, SYS_unset_var,
      SYS_get_var, SYS_get_all_var]"

fun position :: "'a \<Rightarrow> 'a list \<Rightarrow> nat" where
  "position x [] = 0"
| "position x (y # ys) = (if x = y then 0 else Suc (position x ys))"

definition sysno_val :: "sysno \<Rightarrow> nat" where
  "sysno_val no = position no sysnos"

text \<open>
  \<open>msyscall\<close> as the compiler calls it: the number and the first three arguments in the registers 4 to 7,
  further ones on the stack from 16 bytes above the stack pointer on.  Argument registers that are not
  set keep their contents, and so do stack words.
\<close>

fun set_args :: "nat \<Rightarrow> u32 list \<Rightarrow> (nat \<Rightarrow> u32) \<Rightarrow> nat \<Rightarrow> u32" where
  "set_args i [] r = r"
| "set_args i (a # as) r = set_args (i + 1) as (r(i := a))"

definition enter_regs :: "sysno \<Rightarrow> u32 list \<Rightarrow> trapframe \<Rightarrow> trapframe" where
  "enter_regs no args tf = tf\<lparr>regs := set_args 5 (take 3 args) ((regs tf)(4 := of_nat (sysno_val no)))\<rparr>"

definition msyscall :: "u32 \<Rightarrow> sysno \<Rightarrow> u32 list \<Rightarrow> 'a kernel_scheme \<Rightarrow> (sysret \<times> 'a kernel_scheme) outcome" where
  "msyscall junk no args s =
     obind (user_put_words (regs (kstack_tf s) 29 + 16) (drop 3 args) s) (\<lambda>s.
     do_syscall junk (s\<lparr>kstack_tf := enter_regs no args (kstack_tf s)\<rparr>))"

definition syscall_putchar where "syscall_putchar junk ch = msyscall junk SYS_putchar [ch]"
definition syscall_print_cons where "syscall_print_cons junk str num = msyscall junk SYS_print_cons [str, num]"
definition syscall_getenvid where "syscall_getenvid junk = msyscall junk SYS_getenvid []"
definition syscall_yield where "syscall_yield junk = msyscall junk SYS_yield []"
definition syscall_env_destroy where "syscall_env_destroy junk envid = msyscall junk SYS_env_destroy [envid]"
definition syscall_set_tlb_mod_entry where
  "syscall_set_tlb_mod_entry junk envid func = msyscall junk SYS_set_tlb_mod_entry [envid, func]"
definition syscall_mem_alloc where "syscall_mem_alloc junk envid va perm = msyscall junk SYS_mem_alloc [envid, va, perm]"
definition syscall_mem_map where
  "syscall_mem_map junk srcid srcva dstid dstva perm = msyscall junk SYS_mem_map [srcid, srcva, dstid, dstva, perm]"
definition syscall_mem_unmap where "syscall_mem_unmap junk envid va = msyscall junk SYS_mem_unmap [envid, va]"
definition syscall_exofork where "syscall_exofork junk = msyscall junk SYS_exofork [0, 0, 0, 0, 0]"
definition syscall_set_env_status where
  "syscall_set_env_status junk envid status = msyscall junk SYS_set_env_status [envid, status]"
definition syscall_set_trapframe where "syscall_set_trapframe junk envid tf = msyscall junk SYS_set_trapframe [envid, tf]"
definition syscall_panic :: "u32 \<Rightarrow> u32 \<Rightarrow> 'a kernel_scheme \<Rightarrow> unit outcome" where
  "syscall_panic junk msg s = obind (msyscall junk SYS_panic [msg] s) (\<lambda>_. Panic ''SYS_panic returned'')"
definition syscall_ipc_try_send where
  "syscall_ipc_try_send junk envid value srcva perm = msyscall junk SYS_ipc_try_send [envid, value, srcva, perm]"
definition syscall_ipc_recv where "syscall_ipc_recv junk dstva = msyscall junk SYS_ipc_recv [dstva]"
definition syscall_cgetc where "syscall_cgetc junk = msyscall junk SYS_cgetc []"
definition syscall_write_dev where "syscall_write_dev junk va pa len = msyscall junk SYS_write_dev [va, pa, len]"
definition syscall_read_dev where "syscall_read_dev junk va pa len = msyscall junk SYS_read_dev [va, pa, len]"
definition syscall_get_env_path where
  "syscall_get_env_path junk envid envpath = msyscall junk SYS_get_env_path [envid, envpath]"
definition syscall_change_dir where
  "syscall_change_dir junk envpath changeFather = msyscall junk SYS_change_dir [envpath, changeFather]"
definition syscall_alloc_shell_id where "syscall_alloc_shell_id junk = msyscall junk SYS_alloc_shell_id []"
definition syscall_declare_var where
  "syscall_declare_var junk varName value perm isGlobal = msyscall junk SYS_declare_var [varName, value, perm, isGlobal]"
definition syscall_unset_var where "syscall_unset_var junk varName = msyscall junk SYS_unset_var [varName]"
definition syscall_get_var where "syscall_get_var junk varName valueBuf = msyscall junk SYS_get_var [varName, valueBuf]"
definition syscall_get_all_var where "syscall_get_all_var junk buf = msyscall junk SYS_get_all_var [buf]"

section \<open>From the stub to the handler\<close>

text \<open>
  The stack of the caller: aligned, with the two argument words in one writable page of the current
  environment.
\<close>

definition stack_ok :: "nat \<Rightarrow> u32 \<Rightarrow> u32 \<Rightarrow> 'a kernel_scheme \<Rightarrow> bool" where
  "stack_ok d sp t s \<longleftrightarrow> (sp + 16) AND 3 = 0 \<and> sp + 16 < UTOP \<and> unat ((sp + 16) AND 0xFFF) + 8 \<le> 4096 \<and>
     vmap s d (sp + 16) = Some t \<and> t AND PTE_D \<noteq> 0"

text \<open>
  The state in which the handler starts: besides the TLB, the stack words of the fourth and fifth
  argument and the saved registers, with the program counter past the \<open>syscall\<close> instruction, it is the
  state of the caller.
\<close>

definition entered :: "sysno \<Rightarrow> u32 list \<Rightarrow> u32 \<Rightarrow> 'a kernel_scheme \<Rightarrow> 'a kernel_scheme \<Rightarrow> bool" where
  "entered no args t s s1 \<longleftrightarrow>
     (\<exists>T w. s1 = s\<lparr>tlb := T, frames := (frames s)(PPN t := w),
        kstack_tf := (enter_regs no args (kstack_tf s))\<lparr>cp0_epc := cp0_epc (kstack_tf s) + 4\<rparr>\<rparr> \<and>
      (\<forall>j. w j \<noteq> frames s (PPN t) j \<longrightarrow> (\<exists>i<length (drop 3 args).
         j = unat ((regs (kstack_tf s) 29 + 16) AND 0xFFF) div 4 + i)))"

definition finish :: "u32 \<Rightarrow> (sysret \<times> 'a kernel_scheme) outcome \<Rightarrow> (sysret \<times> 'a kernel_scheme) outcome" where
  "finish junk m =
     obind m (\<lambda>(r, s). case r of Returns v \<Rightarrow> Ret (r, set_v0 v s) | Void \<Rightarrow> Ret (r, set_v0 junk s) | Resumed \<Rightarrow> Ret (r, s))"

lemma set_args_other: "j < i \<Longrightarrow> set_args i as r j = r j"
  by (induction as arbitrary: i r) simp_all

lemma set_args_get: "k < length as \<Longrightarrow> set_args i as r (i + k) = as ! k"
proof (induction as arbitrary: i r k)
  case (Cons a as)
  show ?case
  proof (cases k)
    case (Suc m)
    then show ?thesis using Cons.IH[of m "i + 1" "r(i := a)"] Cons.prems by (simp del: fun_upd_apply)
  qed (simp add: set_args_other)
qed simp

lemma set_args_high: "i + length as \<le> j \<Longrightarrow> set_args i as r j = r j"
  by (induction as arbitrary: i r) simp_all

lemma sysno_val_less: "sysno_val no < MAX_SYSNO"
  by (cases no) (simp_all add: sysno_val_def sysnos_def)

lemma put_words_ok:
  fixes s :: "'a kernel_scheme"
  assumes "kinv K s" and "curenv s = Some c" and "a AND 3 = 0" "a < UTOP" and "unat (a AND 0xFFF) + 4 * (i + length ws) \<le> 4096"
    and "vmap s (env_pgdir (envs s c)) a = Some t" and "t AND PTE_D \<noteq> 0"
  shows "\<exists>T w. user_put_words (a + of_nat (4 * i)) ws s = Ret (s\<lparr>tlb := T, frames := (frames s)(PPN t := w)\<rparr>) \<and>
     contents_step K s (s\<lparr>tlb := T, frames := (frames s)(PPN t := w)\<rparr>) \<and>
     (\<forall>j. w j = (if unat (a AND 0xFFF) div 4 + i \<le> j \<and> j < unat (a AND 0xFFF) div 4 + i + length ws
        then ws ! (j - (unat (a AND 0xFFF) div 4 + i)) else frames s (PPN t) j))"
  using assms(1,2,5,6)
proof (induction ws arbitrary: i s)
  case Nil
  have "s = s\<lparr>tlb := tlb s, frames := (frames s)(PPN t := frames s (PPN t))\<rparr>" by simp
  then show ?case by (intro exI[of _ "tlb s"] exI[of _ "frames s (PPN t)"]) (auto simp: contents_step_def)
next
  case (Cons x ws)
  let ?d = "env_pgdir (envs s c)" and ?k = "unat (a AND 0xFFF) div 4"
  have fit: "unat (a AND 0xFFF) + 4 * i + 4 \<le> 4096" using Cons.prems(3) by simp
  note wd = word_in_page[OF fit assms(3,4)]
  obtain T1 where store: "user_put32 (a + of_nat (4 * i)) x s = Ret (poke (PPN t, ?k + i) x (s\<lparr>tlb := T1\<rparr>))"
    using user_store[OF Cons.prems(1,2) wd(4) _ wd(3) assms(7)] Cons.prems(4) vmap_same_page[OF wd(1), of s ?d] wd(2) by auto
  define s1 where "s1 = poke (PPN t, ?k + i) x (s\<lparr>tlb := T1\<rparr>)"
  have dc: "?d \<in> dirs s" by (rule live_dirs[OF cur_live[OF Cons.prems(1,2)]])
  have up: "user_page (dirs s) (kbase K s) s (PPN t)"
    by (rule leaf_range(6)[OF kinvD(1)[OF Cons.prems(1)] dc PDX_user[OF assms(4)] Cons.prems(4)])
  have st1: "contents_step K s s1" unfolding s1_def by (rule contents_step_poke[OF up])
  note k1 = contents_step_keeps[OF Cons.prems(1) st1]
  have v1: "vmap s1 (env_pgdir (envs s1 c)) a = Some t" using k1(2,3) dc assms(4) Cons.prems(4) by (simp add: same_vmap_def)
  have cur1: "curenv s1 = Some c" using k1(4) Cons.prems(2) by simp
  have step: "a + of_nat (4 * i) + 4 = a + of_nat (4 * Suc i)" by simp
  have "unat (a AND 0xFFF) + 4 * (Suc i + length ws) \<le> 4096" using Cons.prems(3) by simp
  from Cons.IH[OF k1(1) cur1 this v1]
  obtain T w where rest: "user_put_words (a + of_nat (4 * Suc i)) ws s1 = Ret (s1\<lparr>tlb := T, frames := (frames s1)(PPN t := w)\<rparr>)"
    "contents_step K s1 (s1\<lparr>tlb := T, frames := (frames s1)(PPN t := w)\<rparr>)"
    "\<forall>j. w j = (if ?k + Suc i \<le> j \<and> j < ?k + Suc i + length ws then ws ! (j - (?k + Suc i)) else frames s1 (PPN t) j)"
    by blast
  have eq: "s1\<lparr>tlb := T, frames := (frames s1)(PPN t := w)\<rparr> = s\<lparr>tlb := T, frames := (frames s)(PPN t := w)\<rparr>"
    by (simp add: s1_def poke_def)
  have "w j = (if ?k + i \<le> j \<and> j < ?k + i + length (x # ws) then (x # ws) ! (j - (?k + i)) else frames s (PPN t) j)" for j
  proof (cases "j = ?k + i")
    case False
    then show ?thesis using rest(3) by (auto simp: s1_def frames_poke nth_Cons')
  qed (use rest(3) in \<open>simp add: s1_def frames_poke\<close>)
  moreover have "user_put_words (a + of_nat (4 * i)) (x # ws) s = Ret (s\<lparr>tlb := T, frames := (frames s)(PPN t := w)\<rparr>)"
    using store rest(1) by (simp only: user_put_words.simps step s1_def[symmetric] eq obind.simps)
  ultimately show ?case using contents_step_trans[OF Cons.prems(1) st1 rest(2)] unfolding eq by blast
qed

lemma msyscall_reaches:
  fixes s :: "'a kernel_scheme"
  assumes "kinv K s" and "curenv s = Some c" and "stack_ok (env_pgdir (envs s c)) (regs (kstack_tf s) 29) t s" and "length args \<le> 5"
  obtains s1 ys where "entered no args t s s1"
    "msyscall junk no args s = finish junk ((syscall_table ! sysno_val no)
       ((args @ ys) ! 0) ((args @ ys) ! 1) ((args @ ys) ! 2) ((args @ ys) ! 3) ((args @ ys) ! 4) s1)"
proof -
  let ?d = "env_pgdir (envs s c)" and ?a = "regs (kstack_tf s) 29 + 16" and ?rest = "drop 3 args"
  have st: "?a AND 3 = 0" "?a < UTOP" "unat (?a AND 0xFFF) + 8 \<le> 4096" "vmap s ?d ?a = Some t" "t AND PTE_D \<noteq> 0"
    using assms(3) by (simp_all add: stack_ok_def)
  let ?k = "unat (?a AND 0xFFF) div 4"
  have "unat (?a AND 0xFFF) + 4 * (0 + length ?rest) \<le> 4096" using st(3) assms(4) by simp
  from put_words_ok[OF assms(1,2) st(1,2) this st(4,5)]
  obtain T w where put: "user_put_words ?a ?rest s = Ret (s\<lparr>tlb := T, frames := (frames s)(PPN t := w)\<rparr>)"
    "contents_step K s (s\<lparr>tlb := T, frames := (frames s)(PPN t := w)\<rparr>)"
    "\<forall>j. w j = (if ?k \<le> j \<and> j < ?k + length ?rest then ?rest ! (j - ?k) else frames s (PPN t) j)"
    by auto
  define tf where "tf = enter_regs no args (kstack_tf s)"
  define s0 where "s0 = s\<lparr>tlb := T, frames := (frames s)(PPN t := w), kstack_tf := tf\<lparr>cp0_epc := cp0_epc tf + 4\<rparr>\<rparr>"
  note kp = contents_step_keeps[OF assms(1) put(2)]
  have kp0: "kview s0 = kview (s\<lparr>tlb := T, frames := (frames s)(PPN t := w)\<rparr>)" by (simp add: s0_def kview_def mem_of_def)
  have k0: "kinv K s0" by (rule kinv_frame[OF kp(1) kp0]) (simp_all add: s0_def)
  have dc: "?d \<in> dirs s" by (rule live_dirs[OF cur_live[OF assms(1,2)]])
  have "vmap s0 = vmap (s\<lparr>tlb := T, frames := (frames s)(PPN t := w)\<rparr>)" by (rule vmap_frames) (simp add: s0_def)
  then have v0: "vmap s0 ?d ?a = Some t" using kp(2) dc st(2,4) by (simp add: same_vmap_def)
  have cur0: "curenv s0 = Some c" "env_pgdir (envs s0 c) = ?d" "frames s0 (PPN t) = w" using assms(2) by (simp_all add: s0_def)
  have regs: "regs tf 4 = of_nat (sysno_val no)" "regs tf 29 = regs (kstack_tf s) 29" "cp0_epc tf = cp0_epc (kstack_tf s)"
    "take (length args) [regs tf 5, regs tf 6, regs tf 7] = take 3 args"
  proof -
    have "length (take 3 args) \<le> 3" by simp
    then show "regs tf 4 = of_nat (sysno_val no)" "regs tf 29 = regs (kstack_tf s) 29" "cp0_epc tf = cp0_epc (kstack_tf s)"
      unfolding tf_def enter_regs_def by (simp_all add: set_args_other set_args_high)
    have get: "set_args 5 (take 3 args) r (5 + i) = args ! i" if "i < length args" "i < 3" for r i
      using set_args_get[of i "take 3 args" 5 r] that by simp
    show "take (length args) [regs tf 5, regs tf 6, regs tf 7] = take 3 args"
      using get[of 0] get[of 1] get[of 2] unfolding tf_def enter_regs_def
      by (intro nth_equalityI) (auto simp: less_Suc_eq numeral_3_eq_3 numeral_2_eq_2)
  qed
  have no: "sint (regs tf 4) = int (sysno_val no)"
    unfolding regs(1) by (cases no) (simp_all add: sysno_val_def sysnos_def)
  have fit: "unat (?a AND 0xFFF) + 4 * 0 + 4 \<le> 4096" "unat (?a AND 0xFFF) + 4 * Suc 0 + 4 \<le> 4096" using st(3) by simp_all
  note wd = word_in_page[OF fit(2) st(1,2)]
  obtain T1 where l4: "user_get32 ?a s0 = Ret (w ?k, s0\<lparr>tlb := T1\<rparr>)"
    using user_load[OF k0 cur0(1) st(2) _ st(1)] v0 cur0(2,3) by auto
  have k1: "kinv K (s0\<lparr>tlb := T1\<rparr>)" by (rule kinv_frame[OF k0]) (simp_all add: kview_def mem_of_def)
  have v1: "vmap (s0\<lparr>tlb := T1\<rparr>) ?d (?a + of_nat (4 * Suc 0)) = Some t" using vmap_same_page[OF wd(1), of "s0\<lparr>tlb := T1\<rparr>" ?d] v0
    vmap_frames[of "s0\<lparr>tlb := T1\<rparr>" s0] by simp
  have cur1: "curenv (s0\<lparr>tlb := T1\<rparr>) = Some c" "vmap (s0\<lparr>tlb := T1\<rparr>) (env_pgdir (envs (s0\<lparr>tlb := T1\<rparr>) c)) (?a + of_nat (4 * Suc 0)) = Some t"
    using cur0(1) v1 cur0(2) by simp_all
  obtain T2 where l5: "user_get32 (?a + of_nat (4 * Suc 0)) (s0\<lparr>tlb := T1\<rparr>) = Ret (w (?k + 1), s0\<lparr>tlb := T2\<rparr>)"
    using user_load[OF k1 cur1(1) wd(4) cur1(2) wd(3)] cur0(3) wd(2) by auto
  have run: "msyscall junk no args s =
    finish junk ((syscall_table ! sysno_val no) (regs tf 5) (regs tf 6) (regs tf 7) (w ?k) (w (?k + 1)) (s0\<lparr>tlb := T2\<rparr>))"
  proof -
    have "user_get32 (regs (kstack_tf s) 29 + 20) (s0\<lparr>tlb := T1\<rparr>) = Ret (w (?k + 1), s0\<lparr>tlb := T2\<rparr>)"
      using l5 by (simp add: add.commute)
    then show ?thesis
      using put(1) no l4 regs(2) sysno_val_less[of no]
      by (simp add: msyscall_def do_syscall_def finish_def Let_def tf_def[symmetric] s0_def del: of_nat_mult)
  qed
  let ?xs = "[regs tf 5, regs tf 6, regs tf 7, w ?k, w (?k + 1)]"
  have "take (length args) ?xs = args"
  proof (cases "length args \<le> 3")
    case True
    then show ?thesis using regs(4) by (simp add: take_Cons' split: if_splits)
  next
    case False
    then have "take (length ?rest) [w ?k, w (?k + 1)] = ?rest"
      using put(3) assms(4) by (intro nth_equalityI) (auto simp: nth_Cons' intro!: arg_cong[of _ _ "nth args"])
    then have "take 3 args @ take (length args - 3) [w ?k, w (?k + 1)] = args" by simp
    moreover have "take (length args) ?xs = take (length args) [regs tf 5, regs tf 6, regs tf 7] @ take (length args - 3) [w ?k, w (?k + 1)]"
      using take_append[of "length args" "[regs tf 5, regs tf 6, regs tf 7]" "[w ?k, w (?k + 1)]"] by (simp add: numeral_3_eq_3)
    ultimately show ?thesis unfolding regs(4) by simp
  qed
  moreover have "entered no args t s (s0\<lparr>tlb := T2\<rparr>)"
    unfolding entered_def
  proof (intro exI[of _ T2] exI[of _ w] conjI allI impI)
    show "s0\<lparr>tlb := T2\<rparr> = s\<lparr>tlb := T2, frames := (frames s)(PPN t := w),
        kstack_tf := (enter_regs no args (kstack_tf s))\<lparr>cp0_epc := cp0_epc (kstack_tf s) + 4\<rparr>\<rparr>"
      using regs(3) by (simp add: s0_def tf_def)
    show "\<exists>i<length ?rest. j = ?k + i" if "w j \<noteq> frames s (PPN t) j" for j
      using that put(3) by (intro exI[of _ "j - ?k"]) (auto split: if_splits)
  qed
  moreover have "take (length args) ?xs @ drop (length args) ?xs = ?xs" by (rule append_take_drop_id)
  ultimately show ?thesis using run by (intro that[of "s0\<lparr>tlb := T2\<rparr>" "drop (length args) ?xs"]) (simp_all del: drop_Cons')
qed

section \<open>The stubs\<close>

definition reaches ::
  "sysno \<Rightarrow> u32 list \<Rightarrow> u32 \<Rightarrow> 'a kernel_scheme \<Rightarrow> u32 \<Rightarrow> (sysret \<times> 'a kernel_scheme) outcome
   \<Rightarrow> ('a kernel_scheme \<Rightarrow> (sysret \<times> 'a kernel_scheme) outcome) \<Rightarrow> bool" where
  "reaches no args t s junk m handler \<longleftrightarrow> (\<exists>s1. entered no args t s s1 \<and> m = finish junk (handler s1))"

lemma reachesI:
  assumes "kinv K s" and "curenv s = Some c" and "stack_ok (env_pgdir (envs s c)) (regs (kstack_tf s) 29) t s" and "length args \<le> 5"
    and "\<And>ys. (syscall_table ! sysno_val no) ((args @ ys) ! 0) ((args @ ys) ! 1) ((args @ ys) ! 2) ((args @ ys) ! 3) ((args @ ys) ! 4) = handler"
  shows "reaches no args t s junk (msyscall junk no args s) handler"
  using msyscall_reaches[OF assms(1-4), of no junk] assms(5) unfolding reaches_def by metis

lemmas stub_defs =
  syscall_putchar_def syscall_print_cons_def syscall_getenvid_def syscall_yield_def
  syscall_env_destroy_def syscall_set_tlb_mod_entry_def syscall_mem_alloc_def syscall_mem_map_def
  syscall_mem_unmap_def syscall_exofork_def syscall_set_env_status_def syscall_set_trapframe_def
  syscall_ipc_try_send_def syscall_ipc_recv_def syscall_cgetc_def
  syscall_write_dev_def syscall_read_dev_def syscall_get_env_path_def syscall_change_dir_def
  syscall_alloc_shell_id_def syscall_declare_var_def syscall_unset_var_def syscall_get_var_def
  syscall_get_all_var_def

lemma syscall_panic_panics:
  assumes "kinv K s" and "curenv s = Some c" and "stack_ok (env_pgdir (envs s c)) (regs (kstack_tf s) 29) t s"
  shows "syscall_panic junk msg s = Panic ''sys_panic''"
proof -
  have "reaches SYS_panic [msg] t s junk (msyscall junk SYS_panic [msg] s) (sys_panic msg)"
    by (rule reachesI[OF assms]) (simp_all add: sysno_val_def sysnos_def syscall_table_def)
  then show ?thesis by (auto simp: reaches_def syscall_panic_def finish_def sys_panic_def)
qed

text \<open>
  C39. Every stub of the user library reaches its own handler with its own arguments.  Called in a
  consistent kernel with a mapped, writable and aligned argument area on the stack, the stub traps with
  the number of \<open>include/syscall.h\<close>, the dispatcher fetches the first three arguments from the registers
  and the others from the caller's stack, and what follows is exactly the handler of that name on
  these arguments, started in the caller's state with the program counter past the \<open>syscall\<close>
  instruction, its result left in the result register.  \<open>syscall_panic\<close> does not return.
\<close>

theorem syscall_stubs_reach_handlers:
  fixes s :: "'a kernel_scheme"
  assumes "kinv K s" and "curenv s = Some c" and "stack_ok (env_pgdir (envs s c)) (regs (kstack_tf s) 29) t s"
  shows "reaches SYS_putchar [ch] t s junk (syscall_putchar junk ch s) (sys_putchar ch) \<and>
    reaches SYS_print_cons [str, num] t s junk (syscall_print_cons junk str num s) (sys_print_cons str num) \<and>
    reaches SYS_getenvid [] t s junk (syscall_getenvid junk s) (sys_getenvid) \<and>
    reaches SYS_yield [] t s junk (syscall_yield junk s) (sys_yield) \<and>
    reaches SYS_env_destroy [envid] t s junk (syscall_env_destroy junk envid s) (sys_env_destroy envid) \<and>
    reaches SYS_set_tlb_mod_entry [envid, func] t s junk (syscall_set_tlb_mod_entry junk envid func s) (sys_set_tlb_mod_entry envid func) \<and>
    reaches SYS_mem_alloc [envid, va, perm] t s junk (syscall_mem_alloc junk envid va perm s) (sys_mem_alloc envid va perm) \<and>
    reaches SYS_mem_map [srcid, srcva, dstid, dstva, perm] t s junk (syscall_mem_map junk srcid srcva dstid dstva perm s) (sys_mem_map srcid srcva dstid dstva perm) \<and>
    reaches SYS_mem_unmap [envid, va] t s junk (syscall_mem_unmap junk envid va s) (sys_mem_unmap envid va) \<and>
    reaches SYS_exofork [0, 0, 0, 0, 0] t s junk (syscall_exofork junk s) (sys_exofork) \<and>
    reaches SYS_set_env_status [envid, status] t s junk (syscall_set_env_status junk envid status s) (sys_set_env_status envid status) \<and>
    reaches SYS_set_trapframe [envid, tfva] t s junk (syscall_set_trapframe junk envid tfva s) (sys_set_trapframe envid tfva) \<and>
    reaches SYS_ipc_try_send [envid, val, srcva, perm] t s junk (syscall_ipc_try_send junk envid val srcva perm s) (sys_ipc_try_send envid val srcva perm) \<and>
    reaches SYS_ipc_recv [dstva] t s junk (syscall_ipc_recv junk dstva s) (sys_ipc_recv dstva) \<and>
    reaches SYS_cgetc [] t s junk (syscall_cgetc junk s) (sys_cgetc) \<and>
    reaches SYS_write_dev [va, pa, len] t s junk (syscall_write_dev junk va pa len s) (sys_write_dev va pa len) \<and>
    reaches SYS_read_dev [va, pa, len] t s junk (syscall_read_dev junk va pa len s) (sys_read_dev va pa len) \<and>
    reaches SYS_get_env_path [envid, path] t s junk (syscall_get_env_path junk envid path s) (sys_get_env_path envid path) \<and>
    reaches SYS_change_dir [path, father] t s junk (syscall_change_dir junk path father s) (sys_change_dir path father) \<and>
    reaches SYS_alloc_shell_id [] t s junk (syscall_alloc_shell_id junk s) (sys_alloc_shell_id) \<and>
    reaches SYS_declare_var [name, val, perm, global] t s junk (syscall_declare_var junk name val perm global s) (sys_declare_var name val perm global) \<and>
    reaches SYS_unset_var [name] t s junk (syscall_unset_var junk name s) (sys_unset_var name) \<and>
    reaches SYS_get_var [name, buf] t s junk (syscall_get_var junk name buf s) (sys_get_var name buf) \<and>
    reaches SYS_get_all_var [buf] t s junk (syscall_get_all_var junk buf s) (sys_get_all_var buf) \<and>
    syscall_panic junk msg s = Panic ''sys_panic''"
  by (intro conjI; (unfold stub_defs)?; (rule reachesI[OF assms] syscall_panic_panics[OF assms])) (simp_all add: sysno_val_def sysnos_def syscall_table_def)

section \<open>A concrete caller\<close>

definition demo_call :: kernel where
  "demo_call = demo_fork\<lparr>kstack_tf := demo_tf\<lparr>regs := (\<lambda>_. 0)(29 := 0x400FF0)\<rparr>\<rparr>"

lemma demo_call_ok:
  "kinv demo_K demo_call" "curenv demo_call = Some 0" "stack_ok (env_pgdir (envs demo_call 0)) (regs (kstack_tf demo_call) 29) 0x7600 demo_call"
proof -
  show "kinv demo_K demo_call" by (rule kinv_frame[OF demo_fork_kinv]) (simp_all add: demo_call_def kview_def mem_of_def)
  have "vmap demo_call = vmap demo_fork" by (rule vmap_frames) (simp add: demo_call_def)
  moreover have "env_pgdir (envs demo_call 0) = 1" using demo_fork_pgdir by (simp add: demo_call_def)
  ultimately show "stack_ok (env_pgdir (envs demo_call 0)) (regs (kstack_tf demo_call) 29) 0x7600 demo_call"
    by (simp add: stack_ok_def demo_call_def demo_fork_maps PPN_def)
qed (simp add: demo_call_def demo_fork_same)

theorem syscall_stubs_reach_handlers_witness:
  "reaches SYS_mem_map [0, 0x400000, 0, 0x402000, 0x401] 0x7600 demo_call 0
     (syscall_mem_map 0 0 0x400000 0 0x402000 0x401 demo_call) (sys_mem_map 0 0x400000 0 0x402000 0x401) \<and>
   syscall_panic 0 0 demo_call = Panic ''sys_panic''"
  using syscall_stubs_reach_handlers[OF demo_call_ok, where junk = 0 and msg = 0 and srcid = 0 and srcva = "0x400000"
    and dstid = 0 and dstva = "0x402000" and perm = "0x401"] by blast

end
