(* ===== verification/Mos_File.thy ===== *)
theory Mos_File
  imports Mos_Fsipc
begin

text \<open>
  File descriptors and files: \<open>user/lib/fd.c\<close>, \<open>user/lib/file.c\<close>, \<open>user/lib/console.c\<close> and the creation and
  closing of pipes in \<open>user/lib/pipe.c\<close>, in one environment that talks to the file system server.  A
  descriptor is a page at \<open>INDEX2FD(i)\<close>, its data lie at \<open>INDEX2DATA(i)\<close>, and the state keeps which page is
  mapped where: the server's page of an open file, a block of the server's cache, or a page of
  the environment's own.  The server's state holds the contents of the first two, so what one
  environment writes to a file all others that have it mapped see.
\<close>

section \<open>State\<close>

abbreviation (input) MAXFD :: nat where "MAXFD \<equiv> 32"
abbreviation (input) FILEBASE :: u32 where "FILEBASE \<equiv> 0x60000000"
abbreviation (input) FDTABLE :: u32 where "FDTABLE \<equiv> 0x5FC00000"
abbreviation (input) MAXFILESIZE :: u32 where "MAXFILESIZE \<equiv> 0x400000"
abbreviation (input) O_RDONLY :: u32 where "O_RDONLY \<equiv> 0"
abbreviation (input) O_WRONLY :: u32 where "O_WRONLY \<equiv> 1"
abbreviation (input) O_RDWR :: u32 where "O_RDWR \<equiv> 2"
abbreviation (input) O_ACCMODE :: u32 where "O_ACCMODE \<equiv> 3"

definition INDEX2FD :: "nat \<Rightarrow> u32" where "INDEX2FD i = FDTABLE + of_nat i * 4096"
definition INDEX2DATA :: "nat \<Rightarrow> u32" where "INDEX2DATA i = FILEBASE + of_nat i * 0x400000"
definition fd2num :: "u32 \<Rightarrow> nat" where "fd2num fd = unat (fd - FDTABLE) div 4096"
definition fd2data :: "u32 \<Rightarrow> u32" where "fd2data fd = INDEX2DATA (fd2num fd)"
definition num2fd :: "nat \<Rightarrow> u32" where "num2fd fd = of_nat fd * 4096 + FDTABLE"

text \<open>
  A virtual page of the descriptor table or of the data regions, and what can be mapped there.  Each data
  region and the table has one page table of its own; \<open>ptab\<close> says which exist.
\<close>

datatype place = FdSlot nat | DataSlot nat nat
datatype vpage = SharedFd u32 | Block nat | Own nat

record proc =
  cl :: client
  self :: u32
  links :: nat
  ptab :: "nat option \<Rightarrow> bool"
  vmem :: "place \<Rightarrow> vpage option"
  own_fd :: "nat \<Rightarrow> Filefd"
  own_ref :: "nat \<Rightarrow> nat"
  own_next :: nat
  env_dir :: "char list"
  keys :: "int list"
  screen :: "char list"
  closeInputBack :: bool

primrec region :: "place \<Rightarrow> nat option" where
  "region (FdSlot i) = None"
| "region (DataSlot i j) = Some i"

text \<open>The page \<open>j\<close> pages above \<open>INDEX2DATA(i)\<close>, which may lie in a later region.\<close>

definition data_slot :: "nat \<Rightarrow> nat \<Rightarrow> place" where
  "data_slot i j = DataSlot (i + j div 1024) (j mod 1024)"

definition srv :: "proc \<Rightarrow> server" where "srv p = server_of (cl p)"

definition set_srv :: "server \<Rightarrow> proc \<Rightarrow> proc" where
  "set_srv s p = p\<lparr>cl := (cl p)\<lparr>server_of := s\<rparr>\<rparr>"

definition free_pages :: "proc \<Rightarrow> nat" where "free_pages p = pages_left (sfs (srv p))"

definition set_pages :: "nat \<Rightarrow> proc \<Rightarrow> proc" where
  "set_pages n p = set_srv ((srv p)\<lparr>sfs := (sfs (srv p))\<lparr>pages_left := n\<rparr>\<rparr>) p"

section \<open>System calls on the own address space\<close>

definition add_ref :: "vpage \<Rightarrow> proc \<Rightarrow> proc" where
  "add_ref g p =
     (case g of
        SharedFd va \<Rightarrow> set_srv ((srv p)\<lparr>ff_ref := (ff_ref (srv p))(va := ff_ref (srv p) va + 1)\<rparr>) p
      | Block b \<Rightarrow> p
      | Own n \<Rightarrow> p\<lparr>own_ref := (own_ref p)(n := own_ref p n + 1)\<rparr>)"

definition drop_ref :: "vpage \<Rightarrow> proc \<Rightarrow> proc" where
  "drop_ref g p =
     (case g of
        SharedFd va \<Rightarrow> set_srv ((srv p)\<lparr>ff_ref := (ff_ref (srv p))(va := ff_ref (srv p) va - 1)\<rparr>) p
      | Block b \<Rightarrow> p
      | Own n \<Rightarrow>
          let p = p\<lparr>own_ref := (own_ref p)(n := own_ref p n - 1)\<rparr>
          in if own_ref p n = 0 then set_pages (free_pages p + 1) p else p)"

definition syscall_mem_unmap :: "place \<Rightarrow> proc \<Rightarrow> proc" where
  "syscall_mem_unmap x p =
     (case vmem p x of None \<Rightarrow> p | Some g \<Rightarrow> drop_ref g (p\<lparr>vmem := (vmem p)(x := None)\<rparr>))"

text \<open>The page table that a mapping at \<open>x\<close> needs, or \<open>None\<close> when there is no page for it.\<close>

definition need_table :: "place \<Rightarrow> proc \<Rightarrow> proc option" where
  "need_table x p =
     (if ptab p (region x) then Some p
      else if free_pages p = 0 then None
      else Some (set_pages (free_pages p - 1) (p\<lparr>ptab := (ptab p)(region x := True)\<rparr>)))"

text \<open>A mapping of a page that already carries a reference for it.\<close>

definition place_page :: "place \<Rightarrow> vpage \<Rightarrow> proc \<Rightarrow> proc" where
  "place_page x g p = (let p = syscall_mem_unmap x p in p\<lparr>vmem := (vmem p)(x := Some g)\<rparr>)"

text \<open>\<open>syscall_mem_map\<close> from a place of the own address space where a page is mapped.\<close>

definition syscall_mem_map :: "place \<Rightarrow> place \<Rightarrow> proc \<Rightarrow> (error + unit) \<times> proc" where
  "syscall_mem_map src dst p =
     (case vmem p src of
        None \<Rightarrow> (Inl E_INVAL, p)
      | Some g \<Rightarrow>
          (case need_table dst p of
             None \<Rightarrow> (Inl E_NO_MEM, p)
           | Some p \<Rightarrow> (Inr (), place_page dst g (add_ref g p))))"

text \<open>
  \<open>syscall_mem_alloc\<close>: the handler allocates the page before it knows whether the page table can be
  had, and does not give it back when it cannot.
\<close>

definition syscall_mem_alloc :: "place \<Rightarrow> proc \<Rightarrow> (error + unit) \<times> proc" where
  "syscall_mem_alloc x p =
     (if free_pages p = 0 then (Inl E_NO_MEM, p)
      else
        let n = own_next p;
            p = (set_pages (free_pages p - 1) p)\<lparr>own_next := n + 1\<rparr>
        in case need_table x p of
             None \<Rightarrow> (Inl E_NO_MEM, p)
           | Some p \<Rightarrow>
               (Inr (), place_page x (Own n) (p\<lparr>own_fd := (own_fd p)(n := zero_filefd), own_ref := (own_ref p)(n := 1)\<rparr>)))"

text \<open>
  Touching a page that is not mapped makes the kernel map a fresh zeroed one; without a free
  page it panics.
\<close>

definition touch :: "place \<Rightarrow> proc \<Rightarrow> proc outcome" where
  "touch x p =
     (if vmem p x \<noteq> None then Ret p
      else case syscall_mem_alloc x p of
          (Inl _, _) \<Rightarrow> Panic ''panic_on(page_alloc(&p))''
        | (Inr _, p) \<Rightarrow> Ret p)"

text \<open>The entry of \<open>vpt\<close> for a slot of the table: reading it makes the kernel supply the page table.\<close>

definition touch_table :: "proc \<Rightarrow> proc outcome" where
  "touch_table p = (case need_table (FdSlot 0) p of None \<Rightarrow> Panic ''panic_on(page_alloc(&p))'' | Some p \<Rightarrow> Ret p)"

section \<open>Descriptors (user/lib/fd.c)\<close>

text \<open>The contents of a descriptor page; for a page of the environment's own only the \<open>struct Fd\<close> matters.\<close>

definition fd_get :: "nat \<Rightarrow> proc \<Rightarrow> Filefd" where
  "fd_get i p =
     (case vmem p (FdSlot i) of
        Some (SharedFd va) \<Rightarrow> ff_page (srv p) va
      | Some (Own n) \<Rightarrow> own_fd p n
      | _ \<Rightarrow> zero_filefd)"

definition fd_set :: "nat \<Rightarrow> Filefd \<Rightarrow> proc \<Rightarrow> proc" where
  "fd_set i f p =
     (case vmem p (FdSlot i) of
        Some (SharedFd va) \<Rightarrow> set_srv ((srv p)\<lparr>ff_page := (ff_page (srv p))(va := f)\<rparr>) p
      | Some (Own n) \<Rightarrow> p\<lparr>own_fd := (own_fd p)(n := f)\<rparr>
      | _ \<Rightarrow> p)"

datatype dev = DevFile | DevCons | DevPipe

definition dev_lookup :: "u32 \<Rightarrow> error + dev" where
  "dev_lookup dev_id =
     (if dev_id = 0x66 then Inr DevFile else if dev_id = 0x63 then Inr DevCons
      else if dev_id = 0x70 then Inr DevPipe else Inl E_INVAL)"

text \<open>
  The two tests of \<open>fd_alloc\<close>, for the page table and for the page, both say that nothing is mapped.
  A descriptor pointer is the number of the descriptor.
\<close>

definition fd_alloc :: "proc \<Rightarrow> error + nat" where
  "fd_alloc p =
     (case find (\<lambda>i. vmem p (FdSlot i) = None) [0..<MAXFD - 1] of None \<Rightarrow> Inl E_MAX_OPEN | Some i \<Rightarrow> Inr i)"

definition fd_close :: "nat \<Rightarrow> proc \<Rightarrow> proc" where
  "fd_close i p = syscall_mem_unmap (FdSlot i) p"

text \<open>A negative number names a page below the table, about which the model says nothing.\<close>

definition fd_lookup :: "int \<Rightarrow> proc \<Rightarrow> ((error + nat) \<times> proc) outcome" where
  "fd_lookup fdnum p =
     (if int MAXFD \<le> fdnum then Ret (Inl E_INVAL, p)
      else if fdnum < 0 then Undef
      else obind (touch_table p) (\<lambda>p.
        Ret (if vmem p (FdSlot (nat fdnum)) \<noteq> None then Inr (nat fdnum) else Inl E_INVAL, p)))"

text \<open>The opening of the operations that look up the descriptor and its device.\<close>

definition with_dev :: "int \<Rightarrow> proc \<Rightarrow> (error \<Rightarrow> proc \<Rightarrow> 'a outcome) \<Rightarrow> (nat \<Rightarrow> dev \<Rightarrow> proc \<Rightarrow> 'a outcome) \<Rightarrow> 'a outcome" where
  "with_dev fdnum p err k =
     obind (fd_lookup fdnum p) (\<lambda>(r, p).
       case r of
         Inl e \<Rightarrow> err e p
       | Inr i \<Rightarrow> (case dev_lookup (fd_dev_id (fd_get i p)) of Inl e \<Rightarrow> err e p | Inr d \<Rightarrow> k i d p))"

section \<open>Requests to the server\<close>

definition on_cl :: "(client \<Rightarrow> ('a \<times> client) outcome) \<Rightarrow> proc \<Rightarrow> ('a \<times> proc) outcome" where
  "on_cl f p = obind (f (cl p)) (\<lambda>(r, c). Ret (r, p\<lparr>cl := c\<rparr>))"

text \<open>
  The page of a reply is mapped by the kernel while the server sends it, which counts the reference;
  if no page table can be had the server's \<open>ipc_send\<close> fails an assertion.
\<close>

definition recv_at :: "place \<Rightarrow> shared_page option \<Rightarrow> proc \<Rightarrow> proc outcome" where
  "recv_at x g p =
     (case g of
        None \<Rightarrow> Ret p
      | Some g \<Rightarrow>
          (case need_table x p of
             None \<Rightarrow> Panic ''assertion failed: r == 0''
           | Some p \<Rightarrow> Ret (place_page x (case g of FdPage va \<Rightarrow> SharedFd va | BlockPage b \<Rightarrow> Block b) p)))"

definition request_open :: "char list \<Rightarrow> u32 \<Rightarrow> nat \<Rightarrow> proc \<Rightarrow> (int \<times> proc) outcome" where
  "request_open path mode i p =
     obind (on_cl (fsipc_open (links p) (self p) path mode) p) (\<lambda>((r, g), p).
     obind (recv_at (FdSlot i) g p) (\<lambda>p. Ret (r, p)))"

definition request_openat :: "u32 \<Rightarrow> char list \<Rightarrow> u32 \<Rightarrow> nat \<Rightarrow> proc \<Rightarrow> (int \<times> proc) outcome" where
  "request_openat dirid path mode i p =
     obind (on_cl (fsipc_openat (links p) (self p) dirid path mode) p) (\<lambda>((r, g), p).
     obind (recv_at (FdSlot i) g p) (\<lambda>p. Ret (r, p)))"

definition request_map :: "u32 \<Rightarrow> nat \<Rightarrow> nat \<Rightarrow> proc \<Rightarrow> (int \<times> proc) outcome" where
  "request_map fileid i j p =
     obind (on_cl (fsipc_map (links p) (self p) fileid (of_nat (4096 * j))) p) (\<lambda>((r, g), p).
     obind (recv_at (data_slot i j) g p) (\<lambda>p. Ret (r, p)))"

definition request_set_size :: "u32 \<Rightarrow> u32 \<Rightarrow> proc \<Rightarrow> (int \<times> proc) outcome" where
  "request_set_size fileid fsize p = on_cl (fsipc_set_size (links p) (self p) fileid fsize) p"

definition request_dirty :: "u32 \<Rightarrow> nat \<Rightarrow> proc \<Rightarrow> (int \<times> proc) outcome" where
  "request_dirty fileid j p = on_cl (fsipc_dirty (links p) (self p) fileid (of_nat (4096 * j))) p"

definition request_close :: "u32 \<Rightarrow> proc \<Rightarrow> (int \<times> proc) outcome" where
  "request_close fileid p = on_cl (fsipc_close (links p) (self p) fileid) p"

section \<open>Files (user/lib/file.c)\<close>

definition pages_of :: "u32 \<Rightarrow> nat" where
  "pages_of fsize = (unat fsize + 4095) div 4096"

definition f_size_of :: "Filefd \<Rightarrow> u32" where
  "f_size_of f = f_file f F_SIZE"

text \<open>The loop of \<open>open\<close> and \<open>ftruncate\<close> that maps pages \<open>js\<close> of the file behind descriptor \<open>i\<close>.\<close>

fun map_pages :: "u32 \<Rightarrow> nat \<Rightarrow> nat list \<Rightarrow> proc \<Rightarrow> (int \<times> proc) outcome" where
  "map_pages fileid i [] p = Ret (0, p)"
| "map_pages fileid i (j # js) p =
     obind (request_map fileid i j p) (\<lambda>(r, p). if r < 0 then Ret (r, p) else map_pages fileid i js p)"

definition map_file :: "nat \<Rightarrow> proc \<Rightarrow> (int \<times> proc) outcome" where
  "map_file i p =
     (let ffd = fd_get i p in
      obind (map_pages (f_fileid ffd) i [0..<pages_of (f_size_of ffd)] p) (\<lambda>(r, p).
        if r < 0 then Ret (r, p) else Ret (int i, p)))"

definition openAP :: "char list \<Rightarrow> u32 \<Rightarrow> proc \<Rightarrow> (int \<times> proc) outcome" where
  "openAP path mode p =
     (case fd_alloc p of
        Inl e \<Rightarrow> Ret (- errno e, p)
      | Inr i \<Rightarrow> obind (request_open path mode i p) (\<lambda>(r, p). if r < 0 then Ret (r, p) else map_file i p))"

text \<open>
  \<open>openatThis\<close> reads \<open>nextPath[0]\<close> even when \<open>splitPath\<close> has left the array as the stack had it; \<open>stk\<close> gives the
  contents of the uninitialised array in each activation.
\<close>

fun openatThis :: "(nat \<Rightarrow> char list) \<Rightarrow> nat \<Rightarrow> char list \<Rightarrow> char list \<Rightarrow> u32 \<Rightarrow> proc \<Rightarrow> (int \<times> proc) outcome" where
  "openatThis stk 0 nowPath path mode p = Undef"
| "openatThis stk (Suc depth) nowPath path mode p =
     obind (splitPath (replicate 128 NUL) (stk depth) path) (\<lambda>(r, dir, nextPath).
       if r < 0 then Ret (- 1, p)
       else
         obind (strcmp dir (''.'' @ [NUL])) (\<lambda>dot.
         obind (strcmp dir (''..'' @ [NUL])) (\<lambda>dotdot.
         obind (if dot = 0 then Ret nowPath else if dotdot = 0 then toParentPath nowPath else catPath nowPath dir) (\<lambda>nowPath.
           case nextPath of
             [] \<Rightarrow> Undef
           | c # _ \<Rightarrow> if c = NUL then openAP nowPath mode p else openatThis stk depth nowPath nextPath mode p))))"

definition ends_b :: "char list \<Rightarrow> bool outcome" where
  "ends_b path =
     obind (strlen path) (\<lambda>len.
       if len < 1 then Undef
       else if path ! (len - 1) \<noteq> CHR ''b'' then Ret False
       else if len < 2 then Undef
       else Ret (path ! (len - 2) = CHR ''.''))"

definition open_file :: "(nat \<Rightarrow> char list) \<Rightarrow> nat \<Rightarrow> char list \<Rightarrow> u32 \<Rightarrow> proc \<Rightarrow> (int \<times> proc) outcome" where
  "open_file stk depth path mode p =
     (case path of
        [] \<Rightarrow> Undef
      | c # _ \<Rightarrow>
          if c = CHR ''/'' then openAP path mode p
          else
            obind (strcpy (replicate 1024 NUL) (env_dir p)) (\<lambda>nowPath.
            obind (openatThis stk depth nowPath path mode p) (\<lambda>(fd, p).
              if fd < 0 then
                obind (ends_b path) (\<lambda>b.
                  if b then obind (strcat (CHR ''/'' # replicate 1023 NUL) path) (\<lambda>root. openAP root mode p)
                  else Ret (fd, p))
              else Ret (fd, p))))"

text \<open>\<open>openat\<close> ignores the results of \<open>fd_lookup\<close> and of \<open>fsipc_openat\<close>.\<close>

definition openat :: "int \<Rightarrow> char list \<Rightarrow> u32 \<Rightarrow> proc \<Rightarrow> (int \<times> proc) outcome" where
  "openat dirfd path mode p =
     obind (fd_lookup dirfd p) (\<lambda>(r, p).
       case r of
         Inl _ \<Rightarrow> Undef
       | Inr d \<Rightarrow>
           (case fd_alloc p of
              Inl e \<Rightarrow> Ret (- errno e, p)
            | Inr i \<Rightarrow>
                obind (request_openat (f_fileid (fd_get d p)) path mode i p) (\<lambda>(_, p).
                obind (touch (FdSlot i) p) (map_file i))))"

fun unmap_pages :: "nat \<Rightarrow> nat list \<Rightarrow> proc \<Rightarrow> proc" where
  "unmap_pages i [] p = p"
| "unmap_pages i (j # js) p = unmap_pages i js (syscall_mem_unmap (data_slot i j) p)"

definition dirty_pages :: "u32 \<Rightarrow> nat list \<Rightarrow> proc \<Rightarrow> proc outcome" where
  "dirty_pages fileid js p = ofold (\<lambda>j p. obind (request_dirty fileid j p) (\<lambda>(_, p). Ret p)) js p"

definition devfile_close :: "nat \<Rightarrow> proc \<Rightarrow> (int \<times> proc) outcome" where
  "devfile_close i p =
     (let ffd = fd_get i p; fileid = f_fileid ffd; n = pages_of (f_size_of ffd) in
      obind (dirty_pages fileid [0..<n] p) (\<lambda>p.
      obind (request_close fileid p) (\<lambda>(r, p).
        if r < 0 then Ret (r, p) else Ret (0, unmap_pages i [0..<n] p))))"

text \<open>Bytes of the data region, where blocks of the server's cache are mapped.\<close>

definition data_byte :: "nat \<Rightarrow> nat \<Rightarrow> proc \<Rightarrow> char outcome" where
  "data_byte i off p =
     (case vmem p (data_slot i (off div 4096)) of
        Some (Block b) \<Rightarrow> if mapped (sfs (srv p)) b then Ret (blk_byte (cache (sfs (srv p)) b) (off mod 4096)) else Undef
      | _ \<Rightarrow> Undef)"

definition set_data_byte :: "nat \<Rightarrow> nat \<Rightarrow> char \<Rightarrow> proc \<Rightarrow> proc outcome" where
  "set_data_byte i off c p =
     (case vmem p (data_slot i (off div 4096)) of
        Some (Block b) \<Rightarrow> obind (wr_bytes (b, 0) (off mod 4096) [c] (sfs (srv p))) (\<lambda>t. Ret (set_srv ((srv p)\<lparr>sfs := t\<rparr>) p))
      | _ \<Rightarrow> Undef)"

fun load_bytes :: "nat \<Rightarrow> nat \<Rightarrow> nat \<Rightarrow> proc \<Rightarrow> char list outcome" where
  "load_bytes i off 0 p = Ret []"
| "load_bytes i off (Suc n) p = obind (data_byte i off p) (\<lambda>c. obind (load_bytes i (off + 1) n p) (\<lambda>cs. Ret (c # cs)))"

fun store_bytes :: "nat \<Rightarrow> nat \<Rightarrow> char list \<Rightarrow> proc \<Rightarrow> proc outcome" where
  "store_bytes i off [] p = Ret p"
| "store_bytes i off (c # cs) p = obind (set_data_byte i off c p) (store_bytes i (off + 1) cs)"

text \<open>The result and the bytes stored at \<open>buf\<close>.\<close>

definition file_read :: "nat \<Rightarrow> u32 \<Rightarrow> u32 \<Rightarrow> proc \<Rightarrow> ((int \<times> char list) \<times> proc) outcome" where
  "file_read i n offset p =
     (let fsize = f_size_of (fd_get i p) in
      if fsize < offset then Ret ((0, []), p)
      else let n = if fsize < offset + n then fsize - offset else n in
        obind (load_bytes i (unat offset) (unat n) p) (\<lambda>cs. Ret ((sint n, cs), p)))"

definition read_map :: "int \<Rightarrow> u32 \<Rightarrow> proc \<Rightarrow> ((int \<times> place option) \<times> proc) outcome" where
  "read_map fdnum offset p =
     obind (fd_lookup fdnum p) (\<lambda>(r, p).
       case r of
         Inl e \<Rightarrow> Ret ((- errno e, None), p)
       | Inr i \<Rightarrow>
           if fd_dev_id (fd_get i p) \<noteq> 0x66 then Ret ((- errno E_INVAL, None), p)
           else if MAXFILESIZE \<le> offset then Ret ((- errno E_NO_DISK, None), p)
           else let x = data_slot i (unat offset div 4096) in
             if \<not> ptab p (region x) \<or> vmem p x = None then Ret ((- errno E_NO_DISK, None), p)
             else Ret ((0, Some x), p))"

text \<open>
  \<open>ftruncate\<close>: the size in the descriptor is set before the server is asked and stays set when the server
  refuses.
\<close>

definition ROUNDPG :: "u32 \<Rightarrow> nat" where
  "ROUNDPG x = unat ((x + 4095) AND NOT 4095) div 4096"

definition ftruncate :: "int \<Rightarrow> u32 \<Rightarrow> proc \<Rightarrow> (int \<times> proc) outcome" where
  "ftruncate fdnum fsize p =
     (if MAXFILESIZE < fsize then Ret (- errno E_NO_DISK, p)
      else obind (fd_lookup fdnum p) (\<lambda>(r, p).
        case r of
          Inl e \<Rightarrow> Ret (- errno e, p)
        | Inr i \<Rightarrow>
            let f = fd_get i p in
            if fd_dev_id f \<noteq> 0x66 then Ret (- errno E_INVAL, p)
            else
              let fileid = f_fileid f; oldsize = f_size_of f; p = fd_set i (f\<lparr>f_file := (f_file f)(F_SIZE := fsize)\<rparr>) p in
              obind (request_set_size fileid fsize p) (\<lambda>(r, p).
                if r < 0 then Ret (r, p)
                else obind (map_pages fileid i [ROUNDPG oldsize..<ROUNDPG fsize] p) (\<lambda>(r, p).
                  if r < 0 then obind (request_set_size fileid oldsize p) (\<lambda>(_, p). Ret (r, p))
                  else Ret (0, unmap_pages i [ROUNDPG fsize..<ROUNDPG oldsize] p)))))"

definition file_write :: "nat \<Rightarrow> char list \<Rightarrow> u32 \<Rightarrow> proc \<Rightarrow> (int \<times> proc) outcome" where
  "file_write i buf offset p =
     (let n = of_nat (length buf) :: u32; tot = offset + n in
      if MAXFILESIZE < tot then Ret (- errno E_NO_DISK, p)
      else obind (if f_size_of (fd_get i p) < tot then ftruncate (int i) tot p else Ret (0, p)) (\<lambda>(r, p).
        if r < 0 then Ret (r, p)
        else obind (store_bytes i (unat offset) buf p) (\<lambda>p. Ret (sint n, p))))"

record Stat =
  st_name :: "char list"
  st_size :: u32
  st_isdir :: u32
  st_dev :: dev

definition name_bytes :: "(nat \<Rightarrow> u32) \<Rightarrow> char list" where
  "name_bytes f = map (\<lambda>k. word_byte (f (k div 4)) (k mod 4)) [0..<128]"

definition file_stat :: "nat \<Rightarrow> Stat \<Rightarrow> proc \<Rightarrow> ((int \<times> Stat) \<times> proc) outcome" where
  "file_stat i st p =
     (let f = fd_get i p in
      obind (strcpy (st_name st) (name_bytes (f_file f))) (\<lambda>name.
      Ret ((0, st\<lparr>st_name := name, st_size := f_size_of f, st_isdir := (if f_file f F_TYPE = FTYPE_DIR then 1 else 0)\<rparr>), p)))"

definition remove :: "char list \<Rightarrow> proc \<Rightarrow> (int \<times> proc) outcome" where
  "remove path p = on_cl (fsipc_remove (links p) (self p) path) p"

definition sync :: "proc \<Rightarrow> (int \<times> proc) outcome" where
  "sync p = on_cl (fsipc_sync (links p) (self p)) p"

section \<open>The console device (user/lib/console.c)\<close>

definition opencons :: "proc \<Rightarrow> (int \<times> proc) outcome" where
  "opencons p =
     (case fd_alloc p of
        Inl e \<Rightarrow> Ret (- errno e, p)
      | Inr i \<Rightarrow>
          (case syscall_mem_alloc (FdSlot i) p of
             (Inl e, p) \<Rightarrow> Ret (- errno e, p)
           | (Inr _, p) \<Rightarrow> Ret (int i, fd_set i ((fd_get i p)\<lparr>fd_dev_id := 0x63, fd_omode := O_RDWR\<rparr>) p)))"

definition iscons :: "int \<Rightarrow> proc \<Rightarrow> (int \<times> proc) outcome" where
  "iscons fdnum p =
     obind (fd_lookup fdnum p) (\<lambda>(r, p).
       case r of Inl e \<Rightarrow> Ret (- errno e, p) | Inr i \<Rightarrow> Ret (if fd_dev_id (fd_get i p) = 0x63 then 1 else 0, p))"

text \<open>\<open>keys\<close> are the values \<open>syscall_cgetc\<close> will return, 0 when no key is there; after the last one it waits for ever.\<close>

definition cons_read :: "u32 \<Rightarrow> proc \<Rightarrow> ((int \<times> char list) \<times> proc) outcome" where
  "cons_read n p =
     (if n = 0 then Ret ((0, []), p)
      else case dropWhile (\<lambda>c. c = 0) (keys p) of
          [] \<Rightarrow> Undef
        | c # ks \<Rightarrow>
            let p = p\<lparr>keys := ks\<rparr>;
                p = (if closeInputBack p then p
                     else p\<lparr>screen := screen p @ [if c = 13 then CHR 0x0A else char_of c]\<rparr>)
            in if c < 0 then Ret ((c, []), p)
               else if c = 4 then Ret ((0, []), p)
               else Ret ((1, [char_of c]), p))"

definition cons_write :: "char list \<Rightarrow> proc \<Rightarrow> (int \<times> proc) outcome" where
  "cons_write buf p = Ret (sint (of_nat (length buf) :: u32), p\<lparr>screen := screen p @ buf\<rparr>)"

definition cons_stat :: "Stat \<Rightarrow> proc \<Rightarrow> ((int \<times> Stat) \<times> proc) outcome" where
  "cons_stat st p = obind (strcpy (st_name st) (''<cons>'' @ [NUL])) (\<lambda>name. Ret ((0, st\<lparr>st_name := name\<rparr>), p))"

definition setInputBack :: "bool \<Rightarrow> proc \<Rightarrow> proc" where
  "setInputBack closeOrNot p = p\<lparr>closeInputBack := closeOrNot\<rparr>"

section \<open>Creating and closing pipes (user/lib/pipe.c)\<close>

definition pipe_close :: "nat \<Rightarrow> proc \<Rightarrow> (int \<times> proc) outcome" where
  "pipe_close i p = Ret (0, syscall_mem_unmap (data_slot i 0) (syscall_mem_unmap (FdSlot i) p))"

definition alloc_fd_page :: "proc \<Rightarrow> (error + nat) \<times> proc" where
  "alloc_fd_page p =
     (case fd_alloc p of
        Inl e \<Rightarrow> (Inl e, p)
      | Inr i \<Rightarrow> (case syscall_mem_alloc (FdSlot i) p of (Inl e, p) \<Rightarrow> (Inl e, p) | (Inr _, p) \<Rightarrow> (Inr i, p)))"

definition pipe :: "proc \<Rightarrow> (int \<times> (nat \<times> nat) option) \<times> proc" where
  "pipe p =
     (case alloc_fd_page p of
        (Inl e, p) \<Rightarrow> ((- errno e, None), p)
      | (Inr i, p) \<Rightarrow>
          (case alloc_fd_page p of
             (Inl e, p) \<Rightarrow> ((- errno e, None), fd_close i p)
           | (Inr j, p) \<Rightarrow>
               (case syscall_mem_alloc (data_slot i 0) p of
                  (Inl e, p) \<Rightarrow> ((- errno e, None), fd_close i (fd_close j p))
                | (Inr _, p) \<Rightarrow>
                    (case syscall_mem_map (data_slot i 0) (data_slot j 0) p of
                       (Inl e, p) \<Rightarrow> ((- errno e, None), fd_close i (fd_close j (syscall_mem_unmap (data_slot i 0) p)))
                     | (Inr _, p) \<Rightarrow>
                         let p = fd_set i ((fd_get i p)\<lparr>fd_dev_id := 0x70, fd_omode := O_RDONLY\<rparr>) p;
                             p = fd_set j ((fd_get j p)\<lparr>fd_dev_id := 0x70, fd_omode := O_WRONLY\<rparr>) p
                         in ((0, Some (i, j)), p)))))"

section \<open>Operations on any descriptor (user/lib/fd.c)\<close>

text \<open>
  Reading and writing a pipe, which waits for other environments, is an argument: \<open>pr\<close> and \<open>pw\<close> stand
  for \<open>pipe_read\<close> and \<open>pipe_write\<close>.
\<close>

type_synonym pipe_reader = "nat \<Rightarrow> u32 \<Rightarrow> proc \<Rightarrow> ((int \<times> char list) \<times> proc) outcome"
type_synonym pipe_writer = "nat \<Rightarrow> char list \<Rightarrow> proc \<Rightarrow> (int \<times> proc) outcome"

definition dev_close :: "dev \<Rightarrow> nat \<Rightarrow> proc \<Rightarrow> (int \<times> proc) outcome" where
  "dev_close d i p = (case d of DevFile \<Rightarrow> devfile_close i p | DevCons \<Rightarrow> Ret (0, p) | DevPipe \<Rightarrow> pipe_close i p)"

definition close :: "int \<Rightarrow> proc \<Rightarrow> (int \<times> proc) outcome" where
  "close fdnum p =
     with_dev fdnum p (\<lambda>e p. Ret (- errno e, p)) (\<lambda>i d p.
       obind (dev_close d i p) (\<lambda>(r, p). Ret (r, fd_close i p)))"

definition close_all :: "proc \<Rightarrow> proc outcome" where
  "close_all p = ofold (\<lambda>i p. obind (close (int i) p) (\<lambda>(_, p). Ret p)) [0..<MAXFD] p"

text \<open>The loop of \<open>dup\<close> over the pages of the data region; it stops at the first error.\<close>

fun dup_pages :: "nat \<Rightarrow> nat \<Rightarrow> nat list \<Rightarrow> proc \<Rightarrow> (error + unit) \<times> proc" where
  "dup_pages i k [] p = (Inr (), p)"
| "dup_pages i k (j # js) p =
     (if vmem p (data_slot i j) = None then dup_pages i k js p
      else case syscall_mem_map (data_slot i j) (data_slot k j) p of
          (Inl e, p) \<Rightarrow> (Inl e, p)
        | (Inr _, p) \<Rightarrow> dup_pages i k js p)"

definition dup :: "int \<Rightarrow> int \<Rightarrow> proc \<Rightarrow> (int \<times> proc) outcome" where
  "dup oldfdnum newfdnum p =
     obind (fd_lookup oldfdnum p) (\<lambda>(r, p).
       case r of
         Inl e \<Rightarrow> Ret (- errno e, p)
       | Inr i \<Rightarrow>
           if newfdnum < 0 \<or> int MAXFD \<le> newfdnum then Undef
           else
             obind (close newfdnum p) (\<lambda>(_, p).
             let k = nat newfdnum;
                 (r, p) = (if ptab p (Some i) then dup_pages i k [0..<1024] p else (Inr (), p));
                 (r, p) = (case r of Inl e \<Rightarrow> (Inl e, p) | Inr _ \<Rightarrow> syscall_mem_map (FdSlot i) (FdSlot k) p)
             in case r of
                  Inr _ \<Rightarrow> Ret (newfdnum, p)
                | Inl e \<Rightarrow> Ret (- errno e, unmap_pages k [0..<1024] (syscall_mem_unmap (FdSlot k) p))))"

definition dev_read :: "pipe_reader \<Rightarrow> dev \<Rightarrow> nat \<Rightarrow> u32 \<Rightarrow> u32 \<Rightarrow> proc \<Rightarrow> ((int \<times> char list) \<times> proc) outcome" where
  "dev_read pr d i n offset p =
     (case d of DevFile \<Rightarrow> file_read i n offset p | DevCons \<Rightarrow> cons_read n p | DevPipe \<Rightarrow> pr i n p)"

definition dev_write :: "pipe_writer \<Rightarrow> dev \<Rightarrow> nat \<Rightarrow> char list \<Rightarrow> u32 \<Rightarrow> proc \<Rightarrow> (int \<times> proc) outcome" where
  "dev_write pw d i buf offset p =
     (case d of DevFile \<Rightarrow> file_write i buf offset p | DevCons \<Rightarrow> cons_write buf p | DevPipe \<Rightarrow> pw i buf p)"

text \<open>The offset in the descriptor moves by a positive result.\<close>

definition advance :: "nat \<Rightarrow> int \<Rightarrow> proc \<Rightarrow> proc" where
  "advance i r p =
     (if 0 < r then fd_set i ((fd_get i p)\<lparr>fd_offset := fd_offset (fd_get i p) + of_int r\<rparr>) p else p)"

definition read_fd :: "pipe_reader \<Rightarrow> int \<Rightarrow> u32 \<Rightarrow> proc \<Rightarrow> ((int \<times> char list) \<times> proc) outcome" where
  "read_fd pr fdnum n p =
     with_dev fdnum p (\<lambda>e p. Ret ((- errno e, []), p)) (\<lambda>i d p.
       if fd_omode (fd_get i p) AND O_ACCMODE = O_WRONLY then Ret ((- errno E_INVAL, []), p)
       else obind (dev_read pr d i n (fd_offset (fd_get i p)) p) (\<lambda>((r, cs), p). Ret ((r, cs), advance i r p)))"

definition write_fd :: "pipe_writer \<Rightarrow> int \<Rightarrow> char list \<Rightarrow> proc \<Rightarrow> (int \<times> proc) outcome" where
  "write_fd pw fdnum buf p =
     with_dev fdnum p (\<lambda>e p. Ret (- errno e, p)) (\<lambda>i d p.
       if fd_omode (fd_get i p) AND O_ACCMODE = O_RDONLY then Ret (- errno E_INVAL, p)
       else obind (dev_write pw d i buf (fd_offset (fd_get i p)) p) (\<lambda>(r, p). Ret (r, advance i r p)))"

text \<open>\<open>readn\<close>: the bytes read so far are \<open>acc\<close>.\<close>

function readn_loop :: "pipe_reader \<Rightarrow> int \<Rightarrow> nat \<Rightarrow> nat \<Rightarrow> char list \<Rightarrow> proc \<Rightarrow> ((int \<times> char list) \<times> proc) outcome" where
  "readn_loop pr fdnum n tot acc p =
     (if n \<le> tot then Ret ((int tot, acc), p)
      else obind (read_fd pr fdnum (of_nat (n - tot)) p) (\<lambda>((m, cs), p).
        if m < 0 then Ret ((m, acc), p)
        else if m = 0 then Ret ((int tot, acc), p)
        else readn_loop pr fdnum n (tot + nat m) (acc @ cs) p))"
  by pat_completeness auto
termination
  by (relation "measure (\<lambda>(pr, fdnum, n, tot, acc, p). n - tot)") auto

definition readn :: "pipe_reader \<Rightarrow> int \<Rightarrow> u32 \<Rightarrow> proc \<Rightarrow> ((int \<times> char list) \<times> proc) outcome" where
  "readn pr fdnum n p = readn_loop pr fdnum (unat n) 0 [] p"

definition seek :: "int \<Rightarrow> u32 \<Rightarrow> proc \<Rightarrow> (int \<times> proc) outcome" where
  "seek fdnum offset p =
     obind (fd_lookup fdnum p) (\<lambda>(r, p).
       case r of
         Inl e \<Rightarrow> Ret (- errno e, p)
       | Inr i \<Rightarrow> Ret (0, fd_set i ((fd_get i p)\<lparr>fd_offset := offset\<rparr>) p))"

definition fstat :: "int \<Rightarrow> Stat \<Rightarrow> proc \<Rightarrow> ((int \<times> Stat) \<times> proc) outcome" where
  "fstat fdnum st p =
     with_dev fdnum p (\<lambda>e p. Ret ((- errno e, st), p)) (\<lambda>i d p.
       let st = st\<lparr>st_name := (st_name st)[0 := NUL], st_size := 0, st_isdir := 0, st_dev := d\<rparr> in
       case d of DevFile \<Rightarrow> file_stat i st p | DevCons \<Rightarrow> cons_stat st p | DevPipe \<Rightarrow> Ret ((0, st), p))"

definition stat_file :: "(nat \<Rightarrow> char list) \<Rightarrow> nat \<Rightarrow> char list \<Rightarrow> Stat \<Rightarrow> proc \<Rightarrow> ((int \<times> Stat) \<times> proc) outcome" where
  "stat_file stk depth path st p =
     obind (open_file stk depth path O_RDONLY p) (\<lambda>(fd, p).
       if fd < 0 then Ret ((fd, st), p)
       else obind (fstat fd st p) (\<lambda>((r, st), p). obind (close fd p) (\<lambda>(_, p). Ret ((r, st), p))))"

end
