(* ===== verification/Mos_FileProps.thy ===== *)
theory Mos_FileProps
  imports Mos_File
begin

text \<open>
  What file descriptors promise: reading, writing and seeking on an open file are operations on a sequence of
  bytes with a position, a duplicate shares both, and closing a file makes its contents durable.
\<close>

section \<open>Addresses of descriptors\<close>

lemma INDEX2FD_unat: "i < 1024 \<Longrightarrow> unat (INDEX2FD i - FDTABLE) = i * 4096"
proof -
  assume i: "i < 1024"
  have "INDEX2FD i - FDTABLE = of_nat (i * 4096)" by (simp add: INDEX2FD_def)
  also have "unat \<dots> = i * 4096" by (rule unat_of_small) (use i in simp)
  finally show ?thesis .
qed

lemma fd2num_INDEX2FD: "i < 1024 \<Longrightarrow> fd2num (INDEX2FD i) = i"
  using INDEX2FD_unat[of i] by (simp add: fd2num_def)

lemma num2fd_eq: "num2fd i = INDEX2FD i"
  by (simp add: num2fd_def INDEX2FD_def)

lemma fd2data_INDEX2FD: "i < 1024 \<Longrightarrow> fd2data (INDEX2FD i) = INDEX2DATA i"
  by (simp add: fd2data_def fd2num_INDEX2FD)

section \<open>An open file\<close>

text \<open>
  Descriptor \<open>i\<close> is an open file whose descriptor page is the server's page at \<open>va\<close> and whose pages are
  the cached blocks \<open>bs\<close>.
\<close>

definition file_fd :: "proc \<Rightarrow> nat \<Rightarrow> u32 \<Rightarrow> nat list \<Rightarrow> bool" where
  "file_fd p i va bs \<longleftrightarrow> i < MAXFD \<and> ptab p None \<and> vmem p (FdSlot i) = Some (SharedFd va)
     \<and> fd_dev_id (ff_page (srv p) va) = 0x66 \<and> f_size_of (ff_page (srv p) va) \<le> MAXFILESIZE
     \<and> length bs = pages_of (f_size_of (ff_page (srv p) va))
     \<and> (\<forall>j < length bs. vmem p (data_slot i j) = Some (Block (bs ! j)) \<and> mapped (sfs (srv p)) (bs ! j))"

text \<open>The bytes that blocks \<open>bs\<close> of the server's cache make, and the contents and position of an open file.\<close>

definition bytes_of :: "(nat \<Rightarrow> nat \<Rightarrow> u32) \<Rightarrow> nat list \<Rightarrow> nat \<Rightarrow> char" where
  "bytes_of c bs k = blk_byte (c (bs ! (k div 4096))) (k mod 4096)"

definition contents :: "proc \<Rightarrow> u32 \<Rightarrow> nat list \<Rightarrow> char list" where
  "contents p va bs = map (bytes_of (cache (sfs (srv p))) bs) [0..<unat (f_size_of (ff_page (srv p) va))]"

definition position_of :: "proc \<Rightarrow> u32 \<Rightarrow> nat" where
  "position_of p va = unat (fd_offset (ff_page (srv p) va))"

lemma srv_set_srv [simp]: "srv (set_srv s p) = s" by (simp add: srv_def set_srv_def)

lemma set_srv_fields [simp]:
  "ptab (set_srv s p) = ptab p" "vmem (set_srv s p) = vmem p" "self (set_srv s p) = self p" "links (set_srv s p) = links p"
  "own_fd (set_srv s p) = own_fd p" "set_srv s (set_srv t p) = set_srv s p" "set_srv (srv p) p = p"
  "own_ref (set_srv s p) = own_ref p" "own_next (set_srv s p) = own_next p" "fsipcbuf (cl (set_srv s p)) = fsipcbuf (cl p)"
  by (simp_all add: srv_def set_srv_def)

lemma pages_of_bound: "k < unat fsize \<Longrightarrow> k div 4096 < pages_of fsize"
  unfolding pages_of_def by linarith

lemma file_fdD:
  assumes "file_fd p i va bs"
  shows "i < MAXFD" "ptab p None" "vmem p (FdSlot i) = Some (SharedFd va)" "fd_get i p = ff_page (srv p) va"
    "fd_set i f p = set_srv ((srv p)\<lparr>ff_page := (ff_page (srv p))(va := f)\<rparr>) p"
    "fd_dev_id (ff_page (srv p) va) = 0x66" "f_size_of (ff_page (srv p) va) \<le> MAXFILESIZE"
    "length bs = pages_of (f_size_of (ff_page (srv p) va))"
    "j < length bs \<Longrightarrow> vmem p (data_slot i j) = Some (Block (bs ! j))" "j < length bs \<Longrightarrow> mapped (sfs (srv p)) (bs ! j)"
  using assms by (auto simp: file_fd_def fd_get_def fd_set_def)

lemma fd_lookup_file:
  assumes "file_fd p i va bs"
  shows "fd_lookup (int i) p = Ret (Inr i, p)"
  using file_fdD(1-3)[OF assms] by (simp add: fd_lookup_def touch_table_def need_table_def)

lemma with_dev_file:
  assumes "file_fd p i va bs"
  shows "with_dev (int i) p err k = k i DevFile p"
  using file_fdD(4,6)[OF assms] by (simp add: with_dev_def fd_lookup_file[OF assms] dev_lookup_def)

lemma load_bytes_ok:
  assumes "\<And>j. j < length bs \<Longrightarrow> vmem p (data_slot i j) = Some (Block (bs ! j)) \<and> mapped (sfs (srv p)) (bs ! j)"
    and "off + n \<le> 4096 * length bs"
  shows "load_bytes i off n p = Ret (map (bytes_of (cache (sfs (srv p))) bs) [off..<off + n])"
  using assms(2)
proof (induction n arbitrary: off)
  case (Suc n)
  have "off div 4096 < length bs" using Suc.prems by linarith
  then have "data_byte i off p = Ret (bytes_of (cache (sfs (srv p))) bs off)"
    using assms(1) by (simp add: data_byte_def bytes_of_def)
  moreover have "[off..<off + Suc n] = off # [off + 1..<off + 1 + n]" by (simp add: upt_conv_Cons del: upt_Suc)
  ultimately show ?case using Suc.IH[of "off + 1"] Suc.prems by (simp del: upt_Suc)
qed simp

lemma store_bytes_ok:
  assumes "\<And>j. j < length bs \<Longrightarrow> vmem p (data_slot i j) = Some (Block (bs ! j)) \<and> mapped (sfs (srv p)) (bs ! j)"
    and "off + length cs \<le> 4096 * length bs" and "distinct bs"
  shows "\<exists>c. store_bytes i off cs p = Ret (set_srv ((srv p)\<lparr>sfs := (sfs (srv p))\<lparr>cache := c\<rparr>\<rparr>) p)
    \<and> (\<forall>b. b \<notin> set bs \<longrightarrow> c b = cache (sfs (srv p)) b)
    \<and> (\<forall>k < 4096 * length bs. bytes_of c bs k = (if off \<le> k \<and> k < off + length cs then cs ! (k - off) else bytes_of (cache (sfs (srv p))) bs k))"
  using assms(1,2)
proof (induction cs arbitrary: off p)
  case Nil
  have "p = set_srv ((srv p)\<lparr>sfs := (sfs (srv p))\<lparr>cache := cache (sfs (srv p))\<rparr>\<rparr>) p" by simp
  then show ?case by (intro exI[of _ "cache (sfs (srv p))"]) auto
next
  case (Cons x cs)
  let ?t = "sfs (srv p)" and ?j = "off div 4096"
  let ?b = "bs ! ?j"
  have j: "?j < length bs" using Cons.prems(2) by simp
  have m: "vmem p (data_slot i ?j) = Some (Block ?b)" "mapped ?t ?b" using Cons.prems(1)[OF j] by simp_all
  have "off mod 4096 + length [x] \<le> BY2BLK" using mod_less_divisor[of 4096 off] by simp
  from wr_bytes_spec[OF m(2) this] obtain c0 where w: "wr_bytes (?b, 0) (off mod 4096) [x] ?t = Ret (?t\<lparr>cache := (cache ?t)(?b := c0)\<rparr>)"
    "\<And>n. blk_byte c0 n = (if n = off mod 4096 then x else blk_byte (cache ?t ?b) n)"
    by (auto simp: less_Suc_eq_le)
  let ?c1 = "(cache ?t)(?b := c0)"
  define p1 where "p1 = set_srv ((srv p)\<lparr>sfs := ?t\<lparr>cache := ?c1\<rparr>\<rparr>) p"
  have st: "set_data_byte i off x p = Ret p1" unfolding set_data_byte_def m option.case vpage.case w(1) obind.simps p1_def ..
  have p1: "sfs (srv p1) = ?t\<lparr>cache := ?c1\<rparr>" "srv p1 = (srv p)\<lparr>sfs := ?t\<lparr>cache := ?c1\<rparr>\<rparr>" "vmem p1 = vmem p" by (simp_all add: p1_def)
  have "off + 1 + length cs \<le> 4096 * length bs" using Cons.prems(2) by simp
  from Cons.IH[of p1 "off + 1", OF _ this] Cons.prems(1) obtain c where c:
    "store_bytes i (off + 1) cs p1 = Ret (set_srv ((srv p1)\<lparr>sfs := (sfs (srv p1))\<lparr>cache := c\<rparr>\<rparr>) p1)"
    "\<forall>b. b \<notin> set bs \<longrightarrow> c b = cache (sfs (srv p1)) b"
    "\<forall>k < 4096 * length bs. bytes_of c bs k = (if off + 1 \<le> k \<and> k < off + 1 + length cs then cs ! (k - (off + 1)) else bytes_of (cache (sfs (srv p1))) bs k)"
    using p1 by auto
  have one: "bytes_of ?c1 bs k = (if k = off then x else bytes_of (cache ?t) bs k)" if k: "k < 4096 * length bs" for k
  proof (cases "k div 4096 = ?j")
    case True
    have "k = off \<longleftrightarrow> k mod 4096 = off mod 4096" using True by (metis div_mult_mod_eq)
    then show ?thesis using True w(2) by (simp add: bytes_of_def)
  next
    case False
    have "k div 4096 < length bs" using k by (simp add: less_mult_imp_div_less mult.commute)
    then have "bs ! (k div 4096) \<noteq> ?b" using False j assms(3) by (simp add: nth_eq_iff_index_eq)
    then show ?thesis using False by (auto simp: bytes_of_def)
  qed
  have "bytes_of c bs k = (if off \<le> k \<and> k < off + length (x # cs) then (x # cs) ! (k - off) else bytes_of (cache ?t) bs k)"
    if "k < 4096 * length bs" for k
    using c(3)[rule_format, OF that] one[OF that] p1(1) by (auto simp: nth_Cons' not_le less_Suc_eq)
  moreover have "c b = cache ?t b" if "b \<notin> set bs" for b using c(2) that nth_mem[OF j] p1(1) by auto
  moreover have "store_bytes i off (x # cs) p = Ret (set_srv ((srv p)\<lparr>sfs := ?t\<lparr>cache := c\<rparr>\<rparr>) p)"
    using c(1) by (simp add: st p1) (simp add: p1_def)
  ultimately show ?case by blast
qed

lemma sint_small: "unat (w :: u32) < 2 ^ 31 \<Longrightarrow> sint w = int (unat w)"
proof -
  assume a: "unat w < 2 ^ 31"
  have u: "uint w = int (unat w)" by simp
  have r: "- (2 ^ 31) \<le> uint w" "uint w < 2 ^ 31"
    using a order_trans[OF _ uint_ge_0, of "- (2 ^ 31)" w] unfolding u of_nat_less_iff[symmetric, where 'a = int] by simp_all
  have "sint w = signed_take_bit 31 (uint w)" by (simp add: sint_uint)
  also have "\<dots> = uint w" by (rule signed_take_bit_int_eq_self[OF r])
  finally show ?thesis using u by argo
qed

section \<open>Reading, writing and seeking\<close>

lemma advance_file:
  assumes "file_fd p i va bs" and "unat (fd_offset (ff_page (srv p) va)) + r < 2 ^ 32"
  defines "p' \<equiv> advance i (int r) p"
  shows "file_fd p' i va bs" "contents p' va bs = contents p va bs" "position_of p' va = position_of p va + r"
    "sfs (srv p') = sfs (srv p)" "ff_page (srv p') va = (ff_page (srv p) va)\<lparr>fd_offset := fd_offset (ff_page (srv p) va) + of_nat r\<rparr>"
proof -
  let ?f = "ff_page (srv p) va"
  have p': "p' = set_srv ((srv p)\<lparr>ff_page := (ff_page (srv p))(va := ?f\<lparr>fd_offset := fd_offset ?f + of_nat r\<rparr>)\<rparr>) p"
    unfolding p'_def advance_def file_fdD(4)[OF assms(1)] file_fdD(5)[OF assms(1)] by (cases "r = 0") simp_all
  show "file_fd p' i va bs" using assms(1) unfolding file_fd_def p' by (simp add: f_size_of_def)
  show "contents p' va bs = contents p va bs" unfolding contents_def p' by (simp add: f_size_of_def)
  show "sfs (srv p') = sfs (srv p)" "ff_page (srv p') va = ?f\<lparr>fd_offset := fd_offset ?f + of_nat r\<rparr>" unfolding p' by simp_all
  show "position_of p' va = position_of p va + r"
    using assms(2) unfolding position_of_def p' by (simp add: unat_word_ariths unat_of_nat)
qed

lemma file_read_ok:
  assumes "file_fd p i va bs" and "unat off + unat n < 2 ^ 32"
  defines "out \<equiv> take (unat n) (drop (unat off) (contents p va bs))"
  shows "file_read i n off p = Ret ((int (length out), out), p)"
proof -
  let ?sz = "f_size_of (ff_page (srv p) va)"
  have sz: "unat ?sz \<le> 0x400000" using file_fdD(7)[OF assms(1)] by (simp add: word_le_nat_alt)
  have sum: "unat (off + n) = unat off + unat n" using assms(2) by (simp add: unat_word_ariths)
  show ?thesis
  proof (cases "?sz < off")
    case True
    then have "unat ?sz \<le> unat off" by (simp add: word_less_nat_alt)
    then have "out = []" by (simp add: out_def contents_def)
    then show ?thesis using True by (simp add: file_read_def file_fdD(4)[OF assms(1)])
  next
    case False
    define m where "m = (if ?sz < off + n then ?sz - off else n)"
    have le: "unat off \<le> unat ?sz" using False by (simp add: word_less_nat_alt)
    have sub: "unat (?sz - off) = unat ?sz - unat off" using False by (simp add: unat_sub not_less)
    have m: "unat m = min (unat n) (unat ?sz - unat off)" using sum sub by (auto simp: m_def word_less_nat_alt)
    have fit: "unat off + unat m \<le> 4096 * length bs" using m le file_fdD(8)[OF assms(1)] unfolding pages_of_def by linarith
    have out: "out = map (bytes_of (cache (sfs (srv p))) bs) [unat off..<unat off + unat m]"
      using le unfolding out_def contents_def m by (simp add: take_map drop_map min_def take_upt)
    have "load_bytes i (unat off) (unat m) p = Ret out"
      unfolding out by (rule load_bytes_ok[OF _ fit]) (use file_fdD(9,10)[OF assms(1)] in simp)
    moreover have "sint m = int (length out)" using m sz out by (intro trans[OF sint_small]) simp_all
    ultimately show ?thesis using False by (simp add: file_read_def file_fdD(4)[OF assms(1)] Let_def m_def[symmetric])
  qed
qed

lemma file_write_ok:
  assumes "file_fd p i va bs" and "distinct bs" and "unat off + length buf \<le> length (contents p va bs)"
  shows "\<exists>c. file_write i buf off p = Ret (int (length buf), set_srv ((srv p)\<lparr>sfs := (sfs (srv p))\<lparr>cache := c\<rparr>\<rparr>) p)
    \<and> (\<forall>b. b \<notin> set bs \<longrightarrow> c b = cache (sfs (srv p)) b)
    \<and> map (bytes_of c bs) [0..<length (contents p va bs)] =
        take (unat off) (contents p va bs) @ buf @ drop (unat off + length buf) (contents p va bs)"
proof -
  let ?sz = "f_size_of (ff_page (srv p) va)"
  have sz: "unat ?sz \<le> 0x400000" using file_fdD(7)[OF assms(1)] by (simp add: word_le_nat_alt)
  have len: "length (contents p va bs) = unat ?sz" by (simp add: contents_def)
  have n: "unat (of_nat (length buf) :: u32) = length buf" by (rule unat_of_small) (use assms(3) sz len in simp)
  have tot: "unat (off + of_nat (length buf)) = unat off + length buf"
    using assms(3) sz len n by (simp add: unat_word_ariths)
  have lim: "\<not> MAXFILESIZE < off + of_nat (length buf)" "\<not> ?sz < off + of_nat (length buf)"
    using tot assms(3) sz len by (simp_all add: word_less_nat_alt)
  have bound: "unat ?sz \<le> 4096 * length bs" using file_fdD(8)[OF assms(1)] unfolding pages_of_def by linarith
  have fit: "unat off + length buf \<le> 4096 * length bs" using assms(3) len bound by simp
  from store_bytes_ok[OF _ fit assms(2), of p i] file_fdD(9,10)[OF assms(1)] obtain c where c:
    "store_bytes i (unat off) buf p = Ret (set_srv ((srv p)\<lparr>sfs := (sfs (srv p))\<lparr>cache := c\<rparr>\<rparr>) p)"
    "\<forall>b. b \<notin> set bs \<longrightarrow> c b = cache (sfs (srv p)) b"
    "\<forall>k < 4096 * length bs. bytes_of c bs k = (if unat off \<le> k \<and> k < unat off + length buf then buf ! (k - unat off) else bytes_of (cache (sfs (srv p))) bs k)"
    by blast
  have "sint (of_nat (length buf) :: u32) = int (length buf)" using sint_small[of "of_nat (length buf)"] n assms(3) sz len by simp
  then have "file_write i buf off p = Ret (int (length buf), set_srv ((srv p)\<lparr>sfs := (sfs (srv p))\<lparr>cache := c\<rparr>\<rparr>) p)"
    using c(1) lim by (simp add: file_write_def Let_def file_fdD(4)[OF assms(1)])
  moreover have "map (bytes_of c bs) [0..<length (contents p va bs)] =
        take (unat off) (contents p va bs) @ buf @ drop (unat off + length buf) (contents p va bs)"
  proof (rule nth_equalityI)
    fix k assume "k < length (map (bytes_of c bs) [0..<length (contents p va bs)])"
    then have k: "k < unat ?sz" using len by simp
    then have "bytes_of c bs k = (if unat off \<le> k \<and> k < unat off + length buf then buf ! (k - unat off) else contents p va bs ! k)"
      using c(3) bound by (simp add: contents_def)
    then show "map (bytes_of c bs) [0..<length (contents p va bs)] ! k =
        (take (unat off) (contents p va bs) @ buf @ drop (unat off + length buf) (contents p va bs)) ! k"
      using k len assms(3) by (auto simp: nth_append)
  qed (use assms(3) in simp)
  ultimately show ?thesis using c(2) by blast
qed

lemma read_fd_file:
  assumes "file_fd p i va bs" and "fd_omode (ff_page (srv p) va) AND O_ACCMODE \<noteq> O_WRONLY" and "position_of p va + unat n < 2 ^ 32"
  defines "out \<equiv> take (unat n) (drop (position_of p va) (contents p va bs))"
  shows "returns (\<lambda>((r, x), p'). x = out \<and> r = int (length x) \<and> file_fd p' i va bs \<and> contents p' va bs = contents p va bs
     \<and> position_of p' va = position_of p va + length x \<and> sfs (srv p') = sfs (srv p)) (read_fd pr (int i) n p)"
proof -
  let ?f = "ff_page (srv p) va"
  have "file_read i n (fd_offset ?f) p = Ret ((int (length out), out), p)"
    using file_read_ok[OF assms(1), of "fd_offset ?f" n] assms(3) by (simp add: out_def position_of_def)
  then have "read_fd pr (int i) n p = Ret ((int (length out), out), advance i (int (length out)) p)"
    using assms(2) by (simp add: read_fd_def with_dev_file[OF assms(1)] file_fdD(4)[OF assms(1)] dev_read_def)
  moreover have "length out \<le> unat n" by (simp add: out_def)
  then have "unat (fd_offset ?f) + length out < 2 ^ 32" using assms(3) by (simp add: position_of_def)
  ultimately show ?thesis using advance_file[OF assms(1), of "length out"] by simp
qed

lemma write_fd_file:
  assumes "file_fd p i va bs" and "distinct bs" and "fd_omode (ff_page (srv p) va) AND O_ACCMODE \<noteq> O_RDONLY"
    and "position_of p va + length buf \<le> length (contents p va bs)"
  shows "returns (\<lambda>(r, p'). r = int (length buf) \<and> file_fd p' i va bs \<and>
     contents p' va bs = take (position_of p va) (contents p va bs) @ buf @ drop (position_of p va + length buf) (contents p va bs) \<and>
     position_of p' va = position_of p va + length buf \<and> (\<forall>b. b \<notin> set bs \<longrightarrow> cache (sfs (srv p')) b = cache (sfs (srv p)) b)) (write_fd pw (int i) buf p)"
proof -
  let ?f = "ff_page (srv p) va" and ?C = "contents p va bs" and ?o = "position_of p va"
  have szC: "length ?C \<le> 0x400000" using file_fdD(7)[OF assms(1)] by (simp add: contents_def word_le_nat_alt)
  from file_write_ok[OF assms(1,2), of "fd_offset ?f" buf] assms(4) obtain c where c:
    "file_write i buf (fd_offset ?f) p = Ret (int (length buf), set_srv ((srv p)\<lparr>sfs := (sfs (srv p))\<lparr>cache := c\<rparr>\<rparr>) p)"
    "\<forall>b. b \<notin> set bs \<longrightarrow> c b = cache (sfs (srv p)) b"
    "map (bytes_of c bs) [0..<length ?C] = take ?o ?C @ buf @ drop (?o + length buf) ?C" by (auto simp: position_of_def)
  define p1 where "p1 = set_srv ((srv p)\<lparr>sfs := (sfs (srv p))\<lparr>cache := c\<rparr>\<rparr>) p"
  have f1: "file_fd p1 i va bs" using assms(1) by (simp add: file_fd_def p1_def)
  have "unat (fd_offset (ff_page (srv p1) va)) + length buf < 2 ^ 32" using assms(4) szC by (simp add: p1_def position_of_def)
  note adv = advance_file[OF f1 this]
  have "write_fd pw (int i) buf p = Ret (int (length buf), advance i (int (length buf)) p1)"
    using assms(3) c(1) by (simp add: write_fd_def with_dev_file[OF assms(1)] file_fdD(4)[OF assms(1)] dev_write_def p1_def)
  moreover have "position_of p1 va = ?o" "contents p1 va bs = take ?o ?C @ buf @ drop (?o + length buf) ?C" "cache (sfs (srv p1)) = c"
    using c(3) by (simp_all add: position_of_def contents_def p1_def)
  ultimately show ?thesis using adv c(2) by simp
qed

lemma seek_file:
  assumes "file_fd p i va bs"
  shows "returns (\<lambda>(r, p'). r = 0 \<and> file_fd p' i va bs \<and> contents p' va bs = contents p va bs \<and> position_of p' va = unat x
     \<and> sfs (srv p') = sfs (srv p) \<and> fd_omode (ff_page (srv p') va) = fd_omode (ff_page (srv p) va)) (seek (int i) x p)"
  using assms by (simp add: seek_def fd_lookup_file[OF assms] file_fdD(4,5)[OF assms] file_fd_def contents_def position_of_def f_size_of_def)

text \<open>
  C16. Operations on an open file are operations on a sequence of bytes with a position.  With the descriptor
  open for reading, \<open>read\<close> returns the bytes from the position on, as many as asked for or as there are,
  and moves the position behind them.  With the descriptor open for writing, \<open>write\<close> within the file replaces exactly
  the bytes from the position on by those of the buffer and moves the position behind them; no block of any other file changes.
  \<open>seek\<close> sets the position.  A descriptor not open for the operation gives \<open>E_INVAL\<close> and changes nothing.
\<close>

theorem file_io_refines:
  assumes "file_fd p i va bs" and "distinct bs"
  defines "C \<equiv> contents p va bs" and "o1 \<equiv> position_of p va" and "om \<equiv> fd_omode (ff_page (srv p) va) AND O_ACCMODE"
  shows "(om \<noteq> O_WRONLY \<and> o1 + unat n < 2 ^ 32 \<longrightarrow>
      returns (\<lambda>((r, out), p'). out = take (unat n) (drop o1 C) \<and> r = int (length out) \<and> file_fd p' i va bs \<and>
         contents p' va bs = C \<and> position_of p' va = o1 + length out \<and> sfs (srv p') = sfs (srv p)) (read_fd pr (int i) n p))
    \<and> (om \<noteq> O_RDONLY \<and> o1 + length buf \<le> length C \<longrightarrow>
      returns (\<lambda>(r, p'). r = int (length buf) \<and> file_fd p' i va bs \<and> contents p' va bs = take o1 C @ buf @ drop (o1 + length buf) C \<and>
         position_of p' va = o1 + length buf \<and> (\<forall>b. b \<notin> set bs \<longrightarrow> cache (sfs (srv p')) b = cache (sfs (srv p)) b)) (write_fd pw (int i) buf p))
    \<and> returns (\<lambda>(r, p'). r = 0 \<and> file_fd p' i va bs \<and> contents p' va bs = C \<and> position_of p' va = unat x) (seek (int i) x p)
    \<and> (om = O_WRONLY \<longrightarrow> read_fd pr (int i) n p = Ret ((- errno E_INVAL, []), p))
    \<and> (om = O_RDONLY \<longrightarrow> write_fd pw (int i) buf p = Ret (- errno E_INVAL, p))"
proof (intro conjI impI)
  show "returns (\<lambda>(r, p'). r = 0 \<and> file_fd p' i va bs \<and> contents p' va bs = C \<and> position_of p' va = unat x) (seek (int i) x p)"
    using seek_file[OF assms(1), of x] unfolding C_def by (rule returns_mono2) simp
qed (use read_fd_file[OF assms(1), of n pr] write_fd_file[OF assms(1,2), of buf pw] in
  \<open>simp_all add: om_def o1_def C_def read_fd_def write_fd_def with_dev_file[OF assms(1)] file_fdD(4)[OF assms(1)]\<close>)

section \<open>Duplicates\<close>

lemma data_slot_low [simp]: "j < 1024 \<Longrightarrow> data_slot i j = DataSlot i j"
  by (simp add: data_slot_def)

lemma free_pages_vmem [simp]: "free_pages (p\<lparr>vmem := V\<rparr>) = free_pages p" "free_pages (p\<lparr>ptab := T\<rparr>) = free_pages p" "srv (p\<lparr>vmem := V\<rparr>) = srv p"
  "srv (p\<lparr>ptab := T\<rparr>) = srv p"
  by (simp_all add: free_pages_def srv_def)

lemma set_pages_fields [simp]:
  "vmem (set_pages n p) = vmem p" "ptab (set_pages n p) = ptab p" "ff_page (srv (set_pages n p)) = ff_page (srv p)"
  "ff_ref (srv (set_pages n p)) = ff_ref (srv p)" "opentab (srv (set_pages n p)) = opentab (srv p)"
  "cache (sfs (srv (set_pages n p))) = cache (sfs (srv p))" "mapped (sfs (srv (set_pages n p))) = mapped (sfs (srv p))"
  "free_pages (set_pages n p) = n" "own_fd (set_pages n p) = own_fd p"
  by (simp_all add: set_pages_def free_pages_def)

text \<open>The address space after the pages \<open>js\<close> of region \<open>i\<close> have been mapped in region \<open>k\<close>.\<close>

definition shared_region :: "nat \<Rightarrow> nat \<Rightarrow> nat list \<Rightarrow> (place \<Rightarrow> vpage option) \<Rightarrow> place \<Rightarrow> vpage option" where
  "shared_region i k js V x =
     (case x of DataSlot k' j \<Rightarrow> if k' = k \<and> j \<in> set js \<and> V (DataSlot i j) \<noteq> None then V (DataSlot i j) else V x | _ \<Rightarrow> V x)"

lemma map_block_page:
  assumes "vmem p (DataSlot i j) = Some (Block b)" and "vmem p (DataSlot k j) = None" and "need_table (DataSlot k j) p = Some q"
  shows "syscall_mem_map (DataSlot i j) (DataSlot k j) p = (Inr (), q\<lparr>vmem := (vmem p)(DataSlot k j := Some (Block b))\<rparr>)"
proof -
  have "vmem q = vmem p" using assms(3) by (auto simp: need_table_def split: if_splits)
  then show ?thesis using assms
    by (simp add: syscall_mem_map_def place_page_def Let_def add_ref_def syscall_mem_unmap_def)
qed

lemma dup_pages_ok:
  assumes "i \<noteq> k" and "set js \<subseteq> {..<1024}" and "\<And>j. j \<in> set js \<Longrightarrow> vmem p (DataSlot k j) = None" and "distinct js"
    and "\<And>j. j \<in> set js \<Longrightarrow> vmem p (DataSlot i j) = None \<or> (\<exists>b. vmem p (DataSlot i j) = Some (Block b))"
    and "ptab p (Some k) \<or> 0 < free_pages p"
  shows "\<exists>q. dup_pages i k js p = (Inr (), q\<lparr>vmem := shared_region i k js (vmem p)\<rparr>) \<and> (q = p \<or> need_table (DataSlot k 0) p = Some q)"
  using assms(2-)
proof (induction js arbitrary: p)
  case Nil
  have "p = p\<lparr>vmem := shared_region i k [] (vmem p)\<rparr>" by (auto simp: shared_region_def fun_eq_iff intro!: proc.equality split: place.splits)
  then show ?case by (intro exI[of _ p]) simp
next
  case (Cons j js)
  have j: "j < 1024" "vmem p (DataSlot k j) = None" "j \<notin> set js" using Cons.prems(1-3) by auto
  show ?case
  proof (cases "vmem p (DataSlot i j)")
    case None
    have "shared_region i k (j # js) (vmem p) = shared_region i k js (vmem p)"
      using None by (auto simp: shared_region_def fun_eq_iff split: place.splits)
    then show ?thesis using Cons.IH[of p] Cons.prems None j by simp
  next
    case (Some g)
    then obtain b where b: "vmem p (DataSlot i j) = Some (Block b)" using Cons.prems(4)[of j] by auto
    obtain q where q: "need_table (DataSlot k j) p = Some q" "need_table (DataSlot k 0) p = Some q" "vmem q = vmem p" "ptab q (Some k)"
      using Cons.prems(5) by (cases "ptab p (Some k)") (auto simp: need_table_def)
    define p1 where "p1 = q\<lparr>vmem := (vmem p)(DataSlot k j := Some (Block b))\<rparr>"
    have step: "dup_pages i k (j # js) p = dup_pages i k js p1" using map_block_page[OF b j(2) q(1)] b j(1) by (simp add: p1_def)
    have "\<exists>r. dup_pages i k js p1 = (Inr (), r\<lparr>vmem := shared_region i k js (vmem p1)\<rparr>) \<and> (r = p1 \<or> need_table (DataSlot k 0) p1 = Some r)"
      using Cons.prems j assms(1) q(4) by (intro Cons.IH) (auto simp: p1_def)
    moreover have "need_table (DataSlot k 0) p1 = Some p1" using q(4) by (simp add: need_table_def p1_def)
    ultimately have "dup_pages i k js p1 = (Inr (), p1\<lparr>vmem := shared_region i k js (vmem p1)\<rparr>)" by auto
    moreover have "shared_region i k js (vmem p1) = shared_region i k (j # js) (vmem p)"
      using b assms(1) j(3) by (auto simp: shared_region_def fun_eq_iff p1_def split: place.splits)
    ultimately have "dup_pages i k (j # js) p = (Inr (), q\<lparr>vmem := shared_region i k (j # js) (vmem p)\<rparr>)"
      unfolding step by (simp add: p1_def)
    then show ?thesis using q(2) by blast
  qed
qed

lemma close_unmapped: "k < MAXFD \<Longrightarrow> ptab p None \<Longrightarrow> vmem p (FdSlot k) = None \<Longrightarrow> close (int k) p = Ret (- errno E_INVAL, p)"
  by (simp add: close_def with_dev_def fd_lookup_def touch_table_def need_table_def)

lemma dup_pages_fails:
  assumes "set js \<subseteq> {..<1024}" and "\<not> ptab p (Some k)" and "free_pages p = 0" and "j \<in> set js" "vmem p (DataSlot i j) \<noteq> None"
  shows "dup_pages i k js p = (Inl E_NO_MEM, p)"
  using assms
proof (induction js)
  case (Cons x js)
  have x: "x < 1024" using Cons.prems(1) by simp
  show ?case
  proof (cases "vmem p (DataSlot i x)")
    case None
    then have "dup_pages i k (x # js) p = dup_pages i k js p" "j \<in> set js" using x Cons.prems(4,5) by auto
    then show ?thesis using Cons by simp
  next
    case (Some g)
    then show ?thesis using x Cons.prems(2,3) by (simp add: syscall_mem_map_def need_table_def)
  qed
qed simp

lemma unmap_pages_none:
  "set js \<subseteq> {..<1024} \<Longrightarrow> (\<And>j. vmem p (DataSlot k j) = None) \<Longrightarrow> unmap_pages k js p = p"
  by (induction js) (simp_all add: syscall_mem_unmap_def)

text \<open>Descriptor number \<open>k\<close> has neither a descriptor page nor data, and region \<open>i\<close> holds the file's pages only.\<close>

definition unused_fd :: "nat \<Rightarrow> proc \<Rightarrow> bool" where
  "unused_fd k p \<longleftrightarrow> k < MAXFD \<and> vmem p (FdSlot k) = None \<and> (\<forall>j. vmem p (DataSlot k j) = None)"

lemma file_pages:
  assumes "file_fd p i va bs"
  shows "length bs \<le> 1024" "j < length bs \<Longrightarrow> vmem p (DataSlot i j) = Some (Block (bs ! j))"
proof -
  have "unat (f_size_of (ff_page (srv p) va)) \<le> 0x400000" using file_fdD(7)[OF assms] by (simp add: word_le_nat_alt)
  then show l: "length bs \<le> 1024" using file_fdD(8)[OF assms] by (simp add: pages_of_def)
  show "j < length bs \<Longrightarrow> vmem p (DataSlot i j) = Some (Block (bs ! j))" using file_fdD(9)[OF assms, of j] l by simp
qed

lemma file_fd_frame:
  assumes "file_fd p i va bs" and "k < MAXFD" and "ptab q None" and "ff_page (srv q) = ff_page (srv p)" and "mapped (sfs (srv q)) = mapped (sfs (srv p))"
    and "vmem q (FdSlot k) = vmem p (FdSlot i)" and "\<And>j. j < length bs \<Longrightarrow> vmem q (DataSlot k j) = vmem p (DataSlot i j)"
  shows "file_fd q k va bs"
proof -
  note fp = file_pages[OF assms(1)]
  have "vmem q (data_slot k j) = Some (Block (bs ! j))" if "j < length bs" for j
    using that fp assms(7)[OF that] by simp
  then show ?thesis using assms file_fdD(3,10)[OF assms(1)] unfolding file_fd_def by auto
qed

lemma pages_subset: "set [0..<1024] \<subseteq> {..<1024 :: nat}"
  by auto

lemma dup_file_ok:
  assumes "file_fd p i va bs" and "unused_fd k p" and "\<forall>j. vmem p (DataSlot i j) \<noteq> None \<longrightarrow> j < length bs" and "ptab p (Some i)"
    and "ptab p (Some k) \<or> 0 < free_pages p"
  shows "returns (\<lambda>(r, p'). r = int k \<and> file_fd p' i va bs \<and> file_fd p' k va bs \<and> contents p' va bs = contents p va bs \<and>
         position_of p' va = position_of p va \<and> ff_ref (srv p') va = ff_ref (srv p) va + 1 \<and>
         (\<forall>x. x \<noteq> FdSlot k \<and> region x \<noteq> Some k \<longrightarrow> vmem p' x = vmem p x)) (dup (int i) (int k) p)"
proof -
  have k: "k < MAXFD" "vmem p (FdSlot k) = None" "\<And>j. vmem p (DataSlot k j) = None" using assms(2) by (auto simp: unused_fd_def)
  note D = file_fdD[OF assms(1)] and fp = file_pages[OF assms(1)]
  have ik: "i \<noteq> k" using D(3) k(2) by auto
  note cl = close_unmapped[OF k(1) D(2) k(2)]
  have "vmem p (DataSlot i j) = None \<or> (\<exists>b. vmem p (DataSlot i j) = Some (Block b))" for j using fp(2)[of j] assms(3) by blast
  then obtain q where q: "dup_pages i k [0..<1024] p = (Inr (), q\<lparr>vmem := shared_region i k [0..<1024] (vmem p)\<rparr>)"
    "q = p \<or> need_table (DataSlot k 0) p = Some q"
    using dup_pages_ok[OF ik pages_subset k(3) _ _ assms(5)] by auto
  have qs: "ptab q None" "ff_page (srv q) = ff_page (srv p)" "ff_ref (srv q) = ff_ref (srv p)" "mapped (sfs (srv q)) = mapped (sfs (srv p))"
    "cache (sfs (srv q)) = cache (sfs (srv p))"
    using q(2) D(2) by (auto simp: need_table_def split: if_splits)
  define p1 where "p1 = q\<lparr>vmem := shared_region i k [0..<1024] (vmem p)\<rparr>"
  define p2 where "p2 = (set_srv ((srv p1)\<lparr>ff_ref := (ff_ref (srv p1))(va := ff_ref (srv p1) va + 1)\<rparr>) p1)\<lparr>vmem := (vmem p1)(FdSlot k := Some (SharedFd va))\<rparr>"
  have "syscall_mem_map (FdSlot i) (FdSlot k) p1 = (Inr (), p2)"
    using D(3) k(2) qs(1) by (simp add: syscall_mem_map_def need_table_def place_page_def Let_def add_ref_def syscall_mem_unmap_def p1_def p2_def shared_region_def)
  then have run: "dup (int i) (int k) p = Ret (int k, p2)"
    using k(1) assms(4) q(1) by (simp add: dup_def fd_lookup_file[OF assms(1)] cl p1_def del: upt_rec_numeral)
  have s2: "ptab p2 None" "ff_page (srv p2) = ff_page (srv p)" "mapped (sfs (srv p2)) = mapped (sfs (srv p))" "cache (sfs (srv p2)) = cache (sfs (srv p))"
    "ff_ref (srv p2) va = ff_ref (srv p) va + 1" using qs by (simp_all add: p1_def p2_def)
  have v2: "vmem p2 x = (if x = FdSlot k then Some (SharedFd va) else shared_region i k [0..<1024] (vmem p) x)" for x by (simp add: p2_def p1_def)
  have "file_fd p2 i va bs" using ik D(3) by (intro file_fd_frame[OF assms(1) D(1) s2(1-3)]) (auto simp: v2 shared_region_def)
  moreover have "file_fd p2 k va bs" using ik D(3) fp by (intro file_fd_frame[OF assms(1) k(1) s2(1-3)]) (auto simp: v2 shared_region_def)
  moreover have "contents p2 va bs = contents p va bs" "position_of p2 va = position_of p va" using s2 by (simp_all add: contents_def position_of_def)
  moreover have "x \<noteq> FdSlot k \<and> region x \<noteq> Some k \<longrightarrow> vmem p2 x = vmem p x" for x by (cases x) (auto simp: v2 shared_region_def)
  ultimately show ?thesis using s2(5) unfolding run by simp
qed

lemma dup_file_fails:
  assumes "file_fd p i va bs" and "unused_fd k p" and "ptab p (Some i)" and "\<not> ptab p (Some k)" "free_pages p = 0" "bs \<noteq> []"
  shows "dup (int i) (int k) p = Ret (- errno E_NO_MEM, p)"
proof -
  have k: "k < MAXFD" "vmem p (FdSlot k) = None" "\<And>j. vmem p (DataSlot k j) = None" using assms(2) by (auto simp: unused_fd_def)
  have "dup_pages i k [0..<1024] p = (Inl E_NO_MEM, p)"
    using file_pages(2)[OF assms(1), of 0] assms(6) by (intro dup_pages_fails[OF pages_subset assms(4,5), where j = 0]) auto
  moreover have "unmap_pages k [0..<1024] (syscall_mem_unmap (FdSlot k) p) = p"
    using unmap_pages_none[OF pages_subset k(3)] k(2) by (simp add: syscall_mem_unmap_def del: upt_rec_numeral)
  ultimately show ?thesis
    using k(1) assms(3) close_unmapped[OF k(1) file_fdD(2)[OF assms(1)] k(2)]
    by (simp add: dup_def fd_lookup_file[OF assms(1)] del: upt_rec_numeral)
qed

text \<open>
  \<open>dup\<close> makes a second name for an open file.  On an unused descriptor number, and with a page left for
  the page table it may need, it returns the new number; both descriptors then denote the same file, with one
  position and one contents, which are as they were; the server sees one more reference; and no other descriptor
  changes.  Without that page it fails with \<open>E_NO_MEM\<close> and nothing has changed.
\<close>

theorem dup_shares_file:
  assumes "file_fd p i va bs" and "unused_fd k p" and "\<forall>j. vmem p (DataSlot i j) \<noteq> None \<longrightarrow> j < length bs" and "ptab p (Some i)"
  shows "(ptab p (Some k) \<or> 0 < free_pages p \<longrightarrow>
      returns (\<lambda>(r, p'). r = int k \<and> file_fd p' i va bs \<and> file_fd p' k va bs \<and> contents p' va bs = contents p va bs \<and>
         position_of p' va = position_of p va \<and> ff_ref (srv p') va = ff_ref (srv p) va + 1 \<and>
         (\<forall>x. x \<noteq> FdSlot k \<and> region x \<noteq> Some k \<longrightarrow> vmem p' x = vmem p x)) (dup (int i) (int k) p))
    \<and> (\<not> ptab p (Some k) \<and> free_pages p = 0 \<and> bs \<noteq> [] \<longrightarrow> dup (int i) (int k) p = Ret (- errno E_NO_MEM, p))"
  using dup_file_ok[OF assms] dup_file_fails[OF assms(1,2,4)] by blast

section \<open>An environment with one open file\<close>

text \<open>The root entry of the super block stands for a file of five bytes in block 4, open as descriptor 0.\<close>

definition demo_files :: fs_state where
  "demo_files = demo_fs\<lparr>cache := (cache demo_fs)(1 := (cache demo_fs 1)(34 := 5, 36 := 4), 4 := (\<lambda>_. 0x64636261))\<rparr>"

definition demo_filefd :: Filefd where
  "demo_filefd = \<lparr>fd_dev_id = 0x66, fd_offset = 1, fd_omode = O_RDWR, f_fileid = 0x400, f_file = (\<lambda>_. 0)(F_SIZE := 5, F_DIRECT := 4)\<rparr>"

definition demo_proc :: proc where
  "demo_proc = \<lparr>
     cl = \<lparr>fsipcbuf = replicate 4096 NUL,
           server_of = \<lparr>sfs = demo_files, opentab = (\<lambda>_. \<lparr>o_file = Some s_root, o_fileid = 0x400, o_mode = O_RDWR, o_ff = FILEBASE\<rparr>),
             ff_page = (\<lambda>_. demo_filefd), ff_ref = (\<lambda>_. 2), outbox = []\<rparr>\<rparr>,
     self = 7, links = 1, ptab = (\<lambda>r. r = None \<or> r = Some 0),
     vmem = (\<lambda>_. None)(FdSlot 0 := Some (SharedFd FILEBASE), DataSlot 0 0 := Some (Block 4)),
     own_fd = (\<lambda>_. zero_filefd), own_ref = (\<lambda>_. 0), own_next = 0, env_dir = ''/'' @ [NUL], keys = [], screen = [], closeInputBack = False\<rparr>"

lemma demo_proc_srv:
  "sfs (srv demo_proc) = demo_files" "ff_page (srv demo_proc) = (\<lambda>_. demo_filefd)" "ff_ref (srv demo_proc) = (\<lambda>_. 2)"
  "opentab (srv demo_proc) = (\<lambda>_. \<lparr>o_file = Some s_root, o_fileid = 0x400, o_mode = O_RDWR, o_ff = FILEBASE\<rparr>)"
  by (simp_all add: demo_proc_def srv_def)

lemma demo_file_fd: "file_fd demo_proc 0 FILEBASE [4]"
  unfolding file_fd_def demo_proc_srv
  by (simp add: demo_filefd_def f_size_of_def pages_of_def demo_files_def demo_fs_def) (simp add: demo_proc_def)

lemma demo_contents: "contents demo_proc FILEBASE [4] = ''abcda''" "position_of demo_proc FILEBASE = 1"
proof -
  have u: "[0..<5] = [0, 1, 2, 3, 4 :: nat]" by code_simp
  show "contents demo_proc FILEBASE [4] = ''abcda''"
    by (simp add: contents_def demo_proc_srv demo_filefd_def f_size_of_def u bytes_of_def blk_byte_def demo_files_def word_byte_def) code_simp
  show "position_of demo_proc FILEBASE = 1" by (simp add: position_of_def demo_proc_srv demo_filefd_def)
qed

theorem file_io_refines_witness:
  "returns (\<lambda>((r, out), _). out = ''bcd'' \<and> r = 3) (read_fd (\<lambda>_ _ _. Undef) 0 3 demo_proc)
   \<and> returns (\<lambda>(r, p'). r = 2 \<and> contents p' FILEBASE [4] = ''axyda'') (write_fd (\<lambda>_ _ _. Undef) 0 ''xy'' demo_proc)"
proof -
  have om: "fd_omode (ff_page (srv demo_proc) FILEBASE) AND O_ACCMODE = 2" by (simp add: demo_proc_srv demo_filefd_def)
  note w = file_io_refines[OF demo_file_fd, where n = 3 and buf = "''xy''" and x = 0 and pr = "\<lambda>_ _ _. Undef" and pw = "\<lambda>_ _ _. Undef", unfolded om demo_contents]
  show ?thesis using w by (auto simp: returns_iff)
qed

theorem dup_shares_file_witness:
  "returns (\<lambda>(r, p'). r = 1 \<and> contents p' FILEBASE [4] = ''abcda'' \<and> file_fd p' 1 FILEBASE [4]) (dup 0 1 demo_proc)"
proof -
  have u: "unused_fd 1 demo_proc" "\<forall>j. vmem demo_proc (DataSlot 0 j) \<noteq> None \<longrightarrow> j < length [4 :: nat]" "ptab demo_proc (Some 0)"
    by (auto simp: unused_fd_def demo_proc_def)
  have "0 < free_pages demo_proc" by (simp add: free_pages_def demo_proc_srv demo_files_def demo_fs_def)
  then show ?thesis using dup_shares_file[OF demo_file_fd u] unfolding demo_contents by (auto simp: returns_iff)
qed

end
