(* ===== verification/Mos_Durable.thy ===== *)
theory Mos_Durable
  imports Mos_FileProps
begin

text \<open>
  Closing a file, from the descriptor in the client down to the disk: \<open>close\<close> of \<open>user/lib/fd.c\<close>, \<open>file_close\<close> of
  \<open>user/lib/file.c\<close>, the requests to the server, and \<open>file_dirty\<close>, \<open>file_flush\<close> and \<open>file_close\<close> of \<open>fs/fs.c\<close>.
\<close>

section \<open>The blocks of a file\<close>

definition f_word :: "fs_state \<Rightarrow> fptr \<Rightarrow> nat \<Rightarrow> u32" where
  "f_word t f k = cache t (fst f) (snd f + k)"

definition f_ind :: "fs_state \<Rightarrow> fptr \<Rightarrow> nat" where
  "f_ind t f = unat (f_word t f F_INDIRECT)"

text \<open>The number of the disk block that holds block \<open>j\<close> of the file, 0 if there is none.\<close>

definition f_slot :: "fs_state \<Rightarrow> fptr \<Rightarrow> nat \<Rightarrow> nat" where
  "f_slot t f j =
     (if j < NDIRECT then unat (f_word t f (F_DIRECT + j))
      else if j < NINDIRECT \<and> f_ind t f \<noteq> 0 then unat (cache t (f_ind t f) j) else 0)"

definition file_wf :: "fs_state \<Rightarrow> fptr \<Rightarrow> bool" where
  "file_wf t f \<longleftrightarrow> mapped t (fst f) \<and> snd f + FILE_WORDS \<le> BLOCK_WORDS
     \<and> (f_ind t f \<noteq> 0 \<longrightarrow> mapped t (f_ind t f) \<and> f_ind t f < nblocks t \<and> f_ind t f \<notin> free_blocks t)
     \<and> (\<forall>j \<le> unat (f_word t f F_SIZE) div BY2BLK. f_slot t f j < MAXBLOCKS)"

lemma read_block_cached:
  assumes "fs_ok t" and "mapped t b" "b < nblocks t" "b \<notin> free_blocks t"
  shows "read_block b t = Ret (Inr (b, False), t)"
  using assms fs_okD(1-3)[OF assms(1)]
  by (simp add: read_block_def s_nblocks_eq block_is_free_eq diskaddr_def block_is_mapped_def va_is_mapped_def)

lemma rdw_file: "file_wf t f \<Longrightarrow> k < FILE_WORDS \<Longrightarrow> rdw (field f k) t = Ret (f_word t f k)"
  by (auto simp: file_wf_def rdw_def field_def f_word_def)

text \<open>Looking up a block without allocating.\<close>

lemma file_map_block_peek:
  assumes "fs_ok t" and "file_wf t f"
  shows "\<exists>e. file_map_block f j False t = Ret (if f_slot t f j \<noteq> 0 then Inr (f_slot t f j) else Inl e, t)"
proof (cases "j < NDIRECT")
  case True
  then have "rdw (field f (34 + j)) t = Ret (f_word t f (34 + j))" by (intro rdw_file[OF assms(2)]) simp
  then show ?thesis using True by (auto simp: file_map_block_def file_block_walk_def otry_def f_slot_def unat_gt_0)
next
  case False
  note ind = rdw_file[OF assms(2), of F_INDIRECT]
  show ?thesis
  proof (cases "j < NINDIRECT \<and> f_ind t f \<noteq> 0")
    case True
    then have m: "mapped t (f_ind t f)" "f_ind t f < nblocks t" "f_ind t f \<notin> free_blocks t" using assms(2) by (auto simp: file_wf_def)
    have "read_block (unat (f_word t f 44)) t = Ret (Inr (f_ind t f, False), t)"
      using read_block_cached[OF assms(1) m] by (simp add: f_ind_def)
    moreover have "rdw (f_ind t f, j) t = Ret (cache t (f_ind t f) j)" using m(1) True by (simp add: rdw_def)
    moreover have "f_word t f 44 \<noteq> 0" using True by (auto simp: f_ind_def)
    ultimately show ?thesis using False True ind by (auto simp: file_map_block_def file_block_walk_def otry_def f_slot_def unat_gt_0)
  next
    case f: False
    then have "f_slot t f j = 0" using False by (auto simp: f_slot_def)
    moreover have "f_word t f 44 = 0" if "j < NINDIRECT" using f that by (simp add: f_ind_def unat_eq_0)
    ultimately show ?thesis using False ind f by (auto simp: file_map_block_def file_block_walk_def otry_def)
  qed
qed

section \<open>Marking and flushing\<close>

definition f_blocks :: "fs_state \<Rightarrow> fptr \<Rightarrow> nat set" where
  "f_blocks t f = (f_slot t f ` {0..unat (f_word t f F_SIZE) div BY2BLK}) - {0}"

text \<open>A state that differs in what is dirty and what is on disk only.\<close>

definition same_cache :: "fs_state \<Rightarrow> fs_state \<Rightarrow> bool" where
  "same_cache t t' \<longleftrightarrow> cache t' = cache t \<and> mapped t' = mapped t \<and> fs_super t' = fs_super t \<and> fs_bitmap t' = fs_bitmap t
     \<and> pages_left t' = pages_left t"

lemma same_cache_refl [simp]: "same_cache t t"
  and same_cache_trans: "same_cache t u \<Longrightarrow> same_cache u v \<Longrightarrow> same_cache t v"
  and same_cache_disk [simp]: "same_cache t (t\<lparr>disk := d\<rparr>)" "same_cache t (t\<lparr>dirty := e\<rparr>)"
  by (auto simp: same_cache_def)

lemma same_cache_keeps:
  assumes "same_cache t t'"
  shows "fs_ok t' = fs_ok t" "file_wf t' f = file_wf t f" "f_slot t' f = f_slot t f" "f_word t' f = f_word t f" "f_blocks t' f = f_blocks t f"
    "nblocks t' = nblocks t"
proof -
  have c: "cache t' = cache t" "mapped t' = mapped t" "fs_super t' = fs_super t" "fs_bitmap t' = fs_bitmap t" using assms by (auto simp: same_cache_def)
  show w: "f_word t' f = f_word t f" by (simp add: fun_eq_iff f_word_def c)
  show s: "f_slot t' f = f_slot t f" by (simp add: fun_eq_iff f_slot_def f_ind_def w c)
  show n: "nblocks t' = nblocks t" by (simp add: nblocks_def c)
  have fb: "free_blocks t' = free_blocks t" by (simp add: free_blocks_def free_bit_def[abs_def] n c)
  show "fs_ok t' = fs_ok t" by (simp add: fs_ok_def n fb c bitmap_end_def)
  show "file_wf t' f = file_wf t f" by (simp add: file_wf_def w s n fb c f_ind_def)
  show "f_blocks t' f = f_blocks t f" by (simp add: f_blocks_def w s)
qed

lemma flush_step:
  assumes "fs_ok t" and "file_wf t f" and "j \<le> unat (f_word t f F_SIZE) div BY2BLK"
  shows "obind (file_map_block f j False t) (\<lambda>(r, s). case r of Inl _ \<Rightarrow> Ret s
      | Inr diskno \<Rightarrow> obind (block_is_dirty diskno s) (\<lambda>d. if d then write_block diskno s else Ret s)) =
    Ret (if f_slot t f j \<noteq> 0 then sync_one (f_slot t f j) t else t)"
proof -
  obtain e where e: "file_map_block f j False t = Ret (if f_slot t f j \<noteq> 0 then Inr (f_slot t f j) else Inl e, t)"
    using file_map_block_peek[OF assms(1,2), of j] by blast
  have "f_slot t f j < MAXBLOCKS" using assms(2,3) unfolding file_wf_def by blast
  then show ?thesis using e sync_step[of "f_slot t f j" t] by simp
qed

lemma file_flush_run:
  assumes "fs_ok t" and "file_wf t f"
  shows "file_flush f t = Ret (t\<lparr>disk := (\<lambda>b. if b \<in> f_blocks t f \<and> mapped t b \<and> dirty t b then cache t b else disk t b)\<rparr>)"
proof -
  let ?g = "\<lambda>bno s. obind (file_map_block f bno False s) (\<lambda>(r, s). case r of Inl _ \<Rightarrow> Ret s
      | Inr diskno \<Rightarrow> obind (block_is_dirty diskno s) (\<lambda>d. if d then write_block diskno s else Ret s))"
  have loop: "ofold ?g js u = Ret (u\<lparr>disk := (\<lambda>b. if b \<in> f_slot t f ` set js - {0} \<and> mapped u b \<and> dirty u b then cache u b else disk u b)\<rparr>)"
    if "same_cache t u" "set js \<subseteq> {0..unat (f_word t f F_SIZE) div BY2BLK}" for js u
    using that
  proof (induction js arbitrary: u)
    case (Cons j js)
    note k = same_cache_keeps[OF Cons.prems(1)]
    let ?u = "if f_slot t f j \<noteq> 0 then sync_one (f_slot t f j) u else u"
    have "?g j u = Ret ?u" using flush_step[of u f j] assms Cons.prems(2) k by simp
    then have step: "ofold ?g (j # js) u = ofold ?g js ?u" by simp
    have "same_cache t ?u" using Cons.prems(1) by (auto simp: sync_one_def flushed_def same_cache_def)
    then have rest: "ofold ?g js ?u = Ret (?u\<lparr>disk := (\<lambda>b. if b \<in> f_slot t f ` set js - {0} \<and> mapped ?u b \<and> dirty ?u b then cache ?u b else disk ?u b)\<rparr>)"
      using Cons.prems(2) by (intro Cons.IH) simp_all
    show ?case unfolding step rest by (auto simp: sync_one_def flushed_def fun_eq_iff intro!: fs_state.equality)
  qed simp
  have "rdw (field f F_SIZE) t = Ret (f_word t f F_SIZE)" by (rule rdw_file[OF assms(2)]) simp
  moreover have "set [0..<unat (f_word t f F_SIZE) div BY2BLK + 1] = {0..unat (f_word t f F_SIZE) div BY2BLK}" by auto
  ultimately show ?thesis
    using loop[of t "[0..<unat (f_word t f F_SIZE) div BY2BLK + 1]"] unfolding file_flush_def f_blocks_def by (simp del: upt_Suc)
qed

lemma file_dirty_run:
  assumes "fs_ok t" and "file_wf t f" and "f_slot t f (off div BY2BLK) \<noteq> 0" "f_slot t f (off div BY2BLK) < MAXBLOCKS" "mapped t (f_slot t f (off div BY2BLK))"
  shows "file_dirty f off t = Ret (Inr (), t\<lparr>dirty := (dirty t)(f_slot t f (off div BY2BLK) := True)\<rparr>)"
proof -
  have "file_map_block f (off div BY2BLK) False t = Ret (Inr (f_slot t f (off div BY2BLK)), t)"
    using file_map_block_peek[OF assms(1,2), of "off div BY2BLK"] assms(3) by auto
  moreover have "t = t\<lparr>dirty := (dirty t)(f_slot t f (off div BY2BLK) := True)\<rparr>" if "dirty t (f_slot t f (off div BY2BLK))"
    using that by (simp add: fun_upd_idem)
  ultimately show ?thesis using assms(4,5)
    by (auto simp: file_dirty_def dirty_block_def diskaddr_def va_is_mapped_def va_is_dirty_def)
qed

definition dir_wf :: "fs_state \<Rightarrow> fptr \<Rightarrow> bool" where
  "dir_wf t f \<longleftrightarrow> f_word t f F_DIR = 0 \<or> (\<exists>d. word_ptr (f_word t f F_DIR) = Some d \<and> file_wf t d)"

lemma flush_dir_run:
  assumes "fs_ok t" and "file_wf t f" and "dir_wf t f"
  shows "\<exists>d. flush_dir f t = Ret (t\<lparr>disk := d\<rparr>) \<and> (\<forall>b. d b = disk t b \<or> d b = cache t b)"
proof (cases "f_word t f F_DIR = 0")
  case True
  then have "flush_dir f t = Ret (t\<lparr>disk := disk t\<rparr>)" using rdw_file[OF assms(2), of F_DIR] by (simp add: flush_dir_def)
  then show ?thesis by blast
next
  case False
  then obtain d where d: "word_ptr (f_word t f F_DIR) = Some d" "file_wf t d" using assms(3) by (auto simp: dir_wf_def)
  let ?d = "\<lambda>b. if b \<in> f_blocks t d \<and> mapped t b \<and> dirty t b then cache t b else disk t b"
  have "flush_dir f t = Ret (t\<lparr>disk := ?d\<rparr>)"
    using False d rdw_file[OF assms(2), of F_DIR] file_flush_run[OF assms(1) d(2)] by (simp add: flush_dir_def)
  then show ?thesis by (intro exI[of _ ?d]) simp
qed

lemma file_close_run:
  assumes "fs_ok t" and "file_wf t f" and "dir_wf t f"
  shows "\<exists>d. file_close f t = Ret (t\<lparr>disk := d\<rparr>) \<and> (\<forall>b. b \<in> f_blocks t f \<and> mapped t b \<and> dirty t b \<longrightarrow> d b = cache t b)"
proof -
  let ?t = "t\<lparr>disk := (\<lambda>b. if b \<in> f_blocks t f \<and> mapped t b \<and> dirty t b then cache t b else disk t b)\<rparr>"
  have "same_cache t ?t" by simp
  note k = same_cache_keeps[OF this]
  have "dir_wf ?t f" using assms(3) k by (simp add: dir_wf_def)
  then obtain d where d: "flush_dir f ?t = Ret (?t\<lparr>disk := d\<rparr>)" "\<forall>b. d b = disk ?t b \<or> d b = cache ?t b"
    using flush_dir_run[of ?t f] assms(1,2) k by auto
  have "write_block 1 (?t\<lparr>disk := d\<rparr>) = Ret (t\<lparr>disk := d(1 := cache t 1)\<rparr>)"
    using write_block_mapped[of "?t\<lparr>disk := d\<rparr>" 1] fs_okD(4)[OF assms(1)] by simp
  then have "file_close f t = Ret (t\<lparr>disk := d(1 := cache t 1)\<rparr>)"
    using file_flush_run[OF assms(1,2)] d(1) by (simp add: file_close_def)
  moreover have "(d(1 := cache t 1)) b = cache t b" if "b \<in> f_blocks t f \<and> mapped t b \<and> dirty t b" for b
    using d(2)[rule_format, of b] that by auto
  ultimately show ?thesis by blast
qed

section \<open>The client's requests\<close>

text \<open>A call to the server that changes its file system and the messages only.\<close>

definition talked :: "proc \<Rightarrow> proc \<Rightarrow> bool" where
  "talked p p' \<longleftrightarrow> vmem p' = vmem p \<and> ptab p' = ptab p \<and> self p' = self p \<and> links p' = links p \<and> opentab (srv p') = opentab (srv p)
     \<and> ff_page (srv p') = ff_page (srv p) \<and> ff_ref (srv p') = ff_ref (srv p) \<and> length (fsipcbuf (cl p')) = length (fsipcbuf (cl p))"

lemma talked_refl [simp]: "talked p p" and talked_trans: "talked p q \<Longrightarrow> talked q r \<Longrightarrow> talked p r"
  by (auto simp: talked_def)

text \<open>The server knows the file of id \<open>fid\<close> as \<open>f\<close>.\<close>

definition serves :: "proc \<Rightarrow> u32 \<Rightarrow> fptr \<Rightarrow> bool" where
  "serves p fid f \<longleftrightarrow> length (fsipcbuf (cl p)) = 4096 \<and> (\<exists>k. open_lookup (self p) fid (srv p) = Inr k \<and> o_file (opentab (srv p) k) = Some f)"

lemma serves_talked: "talked p p' \<Longrightarrow> serves p fid f \<Longrightarrow> serves p' fid f"
  by (auto simp: talked_def serves_def open_lookup_def pageref_def Let_def)

lemma request_dirty_run:
  assumes "serves p fid f" and "file_dirty f (4096 * j) (sfs (srv p)) = Ret (Inr (), t)" and "4096 * j < 2 ^ 32"
  shows "\<exists>p'. request_dirty fid j p = Ret (0, p') \<and> talked p p' \<and> sfs (srv p') = t"
proof -
  obtain k where k: "open_lookup (self p) fid (srv p) = Inr k" "o_file (opentab (srv p) k) = Some f" "length (fsipcbuf (cl p)) = 4096"
    using assms(1) by (auto simp: serves_def)
  have u: "unat (of_nat (4096 * j) :: u32) = 4096 * j" using assms(3) by (intro unat_of_small) simp
  note r = client_calls[OF k(3), THEN conjunct2, THEN conjunct2, THEN conjunct1, of "links p" "self p" fid "of_nat (4096 * j)", unfolded u]
  define c where "c = word_request fid (of_nat (4096 * j)) (cl p)"
  have c: "server_of c = srv p" "length (fsipcbuf c) = 4096" using k(3) by (simp_all add: c_def word_request_def srv_def)
  have "fsipc_dirty (links p) (self p) fid (of_nat (4096 * j)) (cl p) = Ret (0, c\<lparr>server_of := ipc_send (self p) 0 None 0 ((srv p)\<lparr>sfs := t\<rparr>)\<rparr>)"
    unfolding r c_def[symmetric] answered_def Let_def c k(1,2) using assms(2) k(2) by simp
  then show ?thesis using c(2) k(3) by (auto simp: request_dirty_def on_cl_def talked_def srv_def ipc_send_def Let_def)
qed

lemma request_close_run:
  assumes "serves p fid f" and "file_close f (sfs (srv p)) = Ret t"
  shows "\<exists>p'. request_close fid p = Ret (0, p') \<and> talked p p' \<and> sfs (srv p') = t"
proof -
  obtain k where k: "open_lookup (self p) fid (srv p) = Inr k" "o_file (opentab (srv p) k) = Some f" "length (fsipcbuf (cl p)) = 4096"
    using assms(1) by (auto simp: serves_def)
  note r = client_calls[OF k(3), THEN conjunct2, THEN conjunct2, THEN conjunct2, of "links p" "self p" fid]
  define c where "c = (cl p)\<lparr>fsipcbuf := put_word 0 fid (fsipcbuf (cl p))\<rparr>"
  have c: "server_of c = srv p" "length (fsipcbuf c) = 4096" using k(3) by (simp_all add: c_def srv_def)
  have "fsipc_close (links p) (self p) fid (cl p) = Ret (0, c\<lparr>server_of := ipc_send (self p) 0 None 0 ((srv p)\<lparr>sfs := t\<rparr>)\<rparr>)"
    unfolding r c_def[symmetric] answered_def Let_def c k(1,2) using assms(2) k(2) by simp
  then show ?thesis using c(2) k(3) by (auto simp: request_close_def on_cl_def talked_def srv_def ipc_send_def Let_def)
qed

lemma dirty_pages_run:
  assumes "serves p fid f" and "fs_ok (sfs (srv p))" and "file_wf (sfs (srv p)) f"
    and "\<And>j. j \<in> set js \<Longrightarrow> j < 1024 \<and> f_slot (sfs (srv p)) f j \<noteq> 0 \<and> f_slot (sfs (srv p)) f j < MAXBLOCKS \<and> mapped (sfs (srv p)) (f_slot (sfs (srv p)) f j)"
  shows "\<exists>p'. dirty_pages fid js p = Ret p' \<and> talked p p' \<and> same_cache (sfs (srv p)) (sfs (srv p')) \<and>
     (\<forall>b. b \<in> f_slot (sfs (srv p)) f ` set js \<or> dirty (sfs (srv p)) b \<longrightarrow> dirty (sfs (srv p')) b)"
  using assms
proof (induction js arbitrary: p)
  case (Cons j js)
  let ?t = "sfs (srv p)"
  have j: "j < 1024" "f_slot ?t f j \<noteq> 0" "f_slot ?t f j < MAXBLOCKS" "mapped ?t (f_slot ?t f j)" using Cons.prems(4)[of j] by auto
  let ?u = "?t\<lparr>dirty := (dirty ?t)(f_slot ?t f j := True)\<rparr>"
  have "file_dirty f (4096 * j) ?t = Ret (Inr (), ?u)" using file_dirty_run[OF Cons.prems(2,3), of "4096 * j"] j by simp
  from request_dirty_run[OF Cons.prems(1) this] j(1) obtain p1 where
    p1: "request_dirty fid j p = Ret (0, p1)" "talked p p1" "sfs (srv p1) = ?u" by auto
  have sc: "same_cache ?t (sfs (srv p1))" using p1(3) by simp
  note k = same_cache_keeps[OF sc]
  have mp: "mapped (sfs (srv p1)) = mapped ?t" using sc by (simp add: same_cache_def)
  have "\<exists>p'. dirty_pages fid js p1 = Ret p' \<and> talked p1 p' \<and> same_cache (sfs (srv p1)) (sfs (srv p')) \<and>
     (\<forall>b. b \<in> f_slot (sfs (srv p1)) f ` set js \<or> dirty (sfs (srv p1)) b \<longrightarrow> dirty (sfs (srv p')) b)"
    using Cons.prems(2-) k mp by (intro Cons.IH serves_talked[OF p1(2) Cons.prems(1)]) simp_all
  then obtain p2 where p2: "dirty_pages fid js p1 = Ret p2" "talked p1 p2" "same_cache (sfs (srv p1)) (sfs (srv p2))"
    "\<forall>b. b \<in> f_slot ?t f ` set js \<or> dirty ?u b \<longrightarrow> dirty (sfs (srv p2)) b" using k(3) p1(3) by auto
  have "dirty_pages fid (j # js) p = Ret p2" using p1(1) p2(1) by (simp add: dirty_pages_def)
  then show ?case using talked_trans[OF p1(2) p2(2)] same_cache_trans[OF sc p2(3)] p2(4) by auto
qed (simp add: dirty_pages_def)

section \<open>Closing a file\<close>

lemma unmap_pages_blocks:
  assumes "\<And>j. j \<in> set js \<Longrightarrow> j < 1024 \<and> (vmem p (DataSlot i j) = None \<or> (\<exists>b. vmem p (DataSlot i j) = Some (Block b)))"
  shows "unmap_pages i js p = p\<lparr>vmem := (\<lambda>x. if x \<in> DataSlot i ` set js then None else vmem p x)\<rparr>"
  using assms
proof (induction js arbitrary: p)
  case (Cons j js)
  have j: "j < 1024" "vmem p (DataSlot i j) = None \<or> (\<exists>b. vmem p (DataSlot i j) = Some (Block b))" using Cons.prems[of j] by auto
  have "syscall_mem_unmap (DataSlot i j) p = p\<lparr>vmem := (vmem p)(DataSlot i j := None)\<rparr>"
    using j(2) by (auto simp: syscall_mem_unmap_def drop_ref_def fun_upd_idem)
  then have "unmap_pages i (j # js) p = unmap_pages i js (p\<lparr>vmem := (vmem p)(DataSlot i j := None)\<rparr>)" using j(1) by simp
  also have "\<dots> = p\<lparr>vmem := (\<lambda>x. if x \<in> DataSlot i ` set js then None else ((vmem p)(DataSlot i j := None)) x)\<rparr>"
    using Cons.prems by (subst Cons.IH) (auto intro!: proc.equality ext)
  finally show ?case by (auto simp: fun_eq_iff intro!: proc.equality)
qed (simp add: fun_eq_iff)

text \<open>
  The two sides agree on the open file: the server knows it as \<open>f\<close>, with the size that the descriptor has and the
  blocks \<open>bs\<close> that the client has mapped.
\<close>

definition agree :: "proc \<Rightarrow> u32 \<Rightarrow> nat list \<Rightarrow> fptr \<Rightarrow> bool" where
  "agree p va bs f \<longleftrightarrow> serves p (f_fileid (ff_page (srv p) va)) f \<and> fs_ok (sfs (srv p)) \<and> file_wf (sfs (srv p)) f \<and> dir_wf (sfs (srv p)) f
     \<and> f_word (sfs (srv p)) f F_SIZE = f_size_of (ff_page (srv p) va)
     \<and> (\<forall>j < length bs. f_slot (sfs (srv p)) f j = bs ! j \<and> bs ! j \<noteq> 0)"

lemma devfile_close_run:
  assumes "file_fd p i va bs" and "agree p va bs f"
  shows "\<exists>p'. devfile_close i p = Ret (0, p'\<lparr>vmem := (\<lambda>x. if x \<in> DataSlot i ` {..<length bs} then None else vmem p' x)\<rparr>) \<and> talked p p' \<and>
     same_cache (sfs (srv p)) (sfs (srv p')) \<and> (\<forall>b \<in> set bs. disk (sfs (srv p')) b = cache (sfs (srv p)) b)"
proof -
  let ?t = "sfs (srv p)" and ?f = "ff_page (srv p) va"
  have A: "serves p (f_fileid ?f) f" "fs_ok ?t" "file_wf ?t f" "dir_wf ?t f" "f_word ?t f F_SIZE = f_size_of ?f"
    "\<And>j. j < length bs \<Longrightarrow> f_slot ?t f j = bs ! j \<and> bs ! j \<noteq> 0" using assms(2) by (auto simp: agree_def)
  note D = file_fdD[OF assms(1)] and fp = file_pages[OF assms(1)]
  have in_size: "j \<le> unat (f_word ?t f F_SIZE) div BY2BLK" if "j < length bs" for j
    using that D(8) unfolding A(5) pages_of_def by linarith
  have slot: "j < 1024 \<and> f_slot ?t f j \<noteq> 0 \<and> f_slot ?t f j < MAXBLOCKS \<and> mapped ?t (f_slot ?t f j)" if "j \<in> set [0..<length bs]" for j
    using that A(3,6) D(10) fp(1) in_size[of j] by (auto simp: file_wf_def)
  from dirty_pages_run[OF A(1-3) slot] obtain p1 where p1: "dirty_pages (f_fileid ?f) [0..<length bs] p = Ret p1" "talked p p1"
    "same_cache ?t (sfs (srv p1))" "\<And>b. b \<in> f_slot ?t f ` set [0..<length bs] \<Longrightarrow> dirty (sfs (srv p1)) b" by blast
  note k = same_cache_keeps[OF p1(3)]
  have cm: "cache (sfs (srv p1)) = cache ?t" "mapped (sfs (srv p1)) = mapped ?t" using p1(3) by (auto simp: same_cache_def)
  have "dir_wf (sfs (srv p1)) f" using A(4) k by (simp add: dir_wf_def)
  with file_close_run[of "sfs (srv p1)" f] A(2,3) k obtain d where d: "file_close f (sfs (srv p1)) = Ret ((sfs (srv p1))\<lparr>disk := d\<rparr>)"
    "\<And>b. b \<in> f_blocks ?t f \<Longrightarrow> mapped ?t b \<Longrightarrow> dirty (sfs (srv p1)) b \<Longrightarrow> d b = cache ?t b" using cm by auto
  from request_close_run[OF serves_talked[OF p1(2) A(1)] d(1)] obtain p2 where
    p2: "request_close (f_fileid ?f) p1 = Ret (0, p2)" "talked p1 p2" "sfs (srv p2) = (sfs (srv p1))\<lparr>disk := d\<rparr>" by blast
  have disk: "d b = cache ?t b" if b: "b \<in> set bs" for b
  proof -
    obtain j where j: "j < length bs" "b = bs ! j" using b by (auto simp: in_set_conv_nth)
    have "b \<in> f_slot ?t f ` set [0..<length bs]" using j A(6)[OF j(1)] by (intro image_eqI[of _ _ j]) simp_all
    moreover have "b \<in> f_blocks ?t f" using j A(6)[OF j(1)] in_size[OF j(1)] unfolding f_blocks_def
      by (intro DiffI image_eqI[of _ _ j]) simp_all
    ultimately show ?thesis using d(2) p1(4) D(10)[OF j(1)] j(2) by simp
  qed
  have tk: "talked p p2" by (rule talked_trans[OF p1(2) p2(2)])
  have "unmap_pages i [0..<length bs] p2 = p2\<lparr>vmem := (\<lambda>x. if x \<in> DataSlot i ` {..<length bs} then None else vmem p2 x)\<rparr>"
    using tk fp by (subst unmap_pages_blocks) (auto simp: talked_def lessThan_atLeast0)
  then have "devfile_close i p = Ret (0, p2\<lparr>vmem := (\<lambda>x. if x \<in> DataSlot i ` {..<length bs} then None else vmem p2 x)\<rparr>)"
    using p1(1) p2(1) by (simp add: devfile_close_def D(4) D(8)[symmetric] Let_def)
  moreover have "same_cache ?t (sfs (srv p2))" using p1(3) p2(3) by (simp add: same_cache_def)
  ultimately show ?thesis using tk disk p2(3) by auto
qed

text \<open>
  C15. What has been written to a file is on the disk once \<open>close\<close> returns.  When client and server agree on the
  open file, \<open>close\<close> returns 0; the disk then holds, in the blocks of the file, the contents it had;
  the descriptor page and the file's pages are unmapped, the server sees one reference less, and nothing else of
  the client's descriptors and of the cached blocks has changed.
\<close>

theorem close_makes_durable:
  assumes "file_fd p i va bs" and "agree p va bs f"
  shows "returns (\<lambda>(r, p'). r = 0 \<and>
       map (bytes_of (disk (sfs (srv p'))) bs) [0..<length (contents p va bs)] = contents p va bs \<and>
       cache (sfs (srv p')) = cache (sfs (srv p)) \<and> vmem p' (FdSlot i) = None \<and> (\<forall>j < length bs. vmem p' (DataSlot i j) = None) \<and>
       (\<forall>x. x \<noteq> FdSlot i \<and> region x \<noteq> Some i \<longrightarrow> vmem p' x = vmem p x) \<and>
       ff_ref (srv p') = (ff_ref (srv p))(va := ff_ref (srv p) va - 1)) (close (int i) p)"
proof -
  obtain p1 where p1: "devfile_close i p = Ret (0, p1\<lparr>vmem := (\<lambda>x. if x \<in> DataSlot i ` {..<length bs} then None else vmem p1 x)\<rparr>)"
    "talked p p1" "same_cache (sfs (srv p)) (sfs (srv p1))" "\<forall>b \<in> set bs. disk (sfs (srv p1)) b = cache (sfs (srv p)) b"
    using devfile_close_run[OF assms] by blast
  let ?V = "\<lambda>x. if x \<in> DataSlot i ` {..<length bs} then None else vmem p x"
  have tk: "vmem p1 = vmem p" "ff_ref (srv p1) = ff_ref (srv p)" using p1(2) by (auto simp: talked_def)
  have fd: "?V (FdSlot i) = Some (SharedFd va)" using file_fdD(3)[OF assms(1)] by auto
  have "fd_close i (p1\<lparr>vmem := ?V\<rparr>) = set_srv ((srv p1)\<lparr>ff_ref := (ff_ref (srv p))(va := ff_ref (srv p) va - 1)\<rparr>) (p1\<lparr>vmem := ?V(FdSlot i := None)\<rparr>)"
    using fd tk(2) by (simp add: fd_close_def syscall_mem_unmap_def drop_ref_def)
  then have run: "close (int i) p = Ret (0, set_srv ((srv p1)\<lparr>ff_ref := (ff_ref (srv p))(va := ff_ref (srv p) va - 1)\<rparr>) (p1\<lparr>vmem := ?V(FdSlot i := None)\<rparr>))"
    using p1(1)[unfolded tk(1)] by (simp add: close_def with_dev_file[OF assms(1)] dev_close_def)
  have "bytes_of (disk (sfs (srv p1))) bs k = bytes_of (cache (sfs (srv p))) bs k" if "k < length (contents p va bs)" for k
    using p1(4) nth_mem[of "k div 4096" bs] pages_of_bound[of k] that file_fdD(8)[OF assms(1)] by (simp add: bytes_of_def contents_def)
  then have "map (bytes_of (disk (sfs (srv p1))) bs) [0..<length (contents p va bs)] = contents p va bs"
    by (simp add: contents_def)
  then show ?thesis unfolding run using p1(3) by (auto simp: same_cache_def)
qed

lemma demo_files_wf:
  "fs_ok demo_files" "file_wf demo_files s_root" "dir_wf demo_files s_root" "f_word demo_files s_root F_SIZE = 5" "f_slot demo_files s_root 0 = 4"
proof -
  have c: "cache demo_files 1 1 = cache demo_fs 1 1" "cache demo_files 2 = cache demo_fs 2" "mapped demo_files = mapped demo_fs"
    "fs_super demo_files = fs_super demo_fs" "fs_bitmap demo_files = fs_bitmap demo_fs" by (simp_all add: demo_files_def)
  have n: "nblocks demo_files = 8" by (simp add: nblocks_def demo_files_def demo_fs_def)
  have "fst (bitmap_word b) = 2" if "b < 8" for b using that by (simp add: bitmap_word_def)
  then have "free_blocks demo_files = free_blocks demo_fs" using n demo_fs_simps(1) by (auto simp: free_blocks_def free_bit_def c)
  then show "fs_ok demo_files" using demo_fs_simps n by (simp add: fs_ok_def bitmap_end_def c)
  show w: "f_word demo_files s_root F_SIZE = 5" "f_slot demo_files s_root 0 = 4"
    by (simp_all add: f_word_def f_slot_def demo_files_def)
  have "f_ind demo_files s_root = 0" by (simp add: f_ind_def f_word_def demo_files_def demo_fs_def)
  then show "file_wf demo_files s_root" using w by (auto simp: file_wf_def c demo_fs_def)
  show "dir_wf demo_files s_root" by (simp add: dir_wf_def f_word_def demo_files_def demo_fs_def)
qed

theorem close_makes_durable_witness:
  "returns (\<lambda>(r, p'). r = 0 \<and> map (bytes_of (disk (sfs (srv p'))) [4]) [0..<5] = ''abcda'') (close 0 demo_proc)"
proof -
  have "serves demo_proc 0x400 s_root"
    unfolding serves_def open_lookup_def Let_def pageref_def demo_proc_srv by (auto simp: demo_proc_def)
  then have "agree demo_proc FILEBASE [4] s_root"
    using demo_files_wf by (simp add: agree_def demo_proc_srv demo_filefd_def f_size_of_def)
  moreover have "length ''abcda'' = 5" by simp
  ultimately show ?thesis using close_makes_durable[OF demo_file_fd, of s_root] unfolding demo_contents by (auto simp: returns_iff simp del: list.size)
qed

end
