(* ===== verification/Mos_Shell.thy ===== *)
theory Mos_Shell
  imports Mos_String
begin

text \<open>
  The command interpreter of the shell: \<open>gettoken\<close>, \<open>parsecmd\<close> and \<open>runcmd\<close> of \<open>user/sh.c\<close>.  The line is an
  array of characters in which the lexer writes terminators; a pointer into it is an index.  What the
  interpreter does to the rest of the system is a tree of library calls, each with a continuation that
  takes the result, as the C code does.  The processes of a line run such trees side by side: each with its own table of
  file descriptors, a \<open>wait\<close> held up until the other process has ended, and the programs spawned among them.
\<close>

section \<open>Tokens\<close>

definition WHITESPACE :: string where "WHITESPACE = [CHR '' '', CHR 0x09, CHR 0x0D, CHR 0x0A]"
definition SYMBOLS :: string where "SYMBOLS = ''<|>&;()$''"

definition has_char :: "string \<Rightarrow> char \<Rightarrow> bool" where
  "has_char cs c \<longleftrightarrow> (case strchr (cs @ [NUL]) c of Ret (Some _) \<Rightarrow> True | _ \<Rightarrow> False)"

function skip_white :: "char list \<Rightarrow> nat \<Rightarrow> (char list \<times> nat) outcome" where
  "skip_white buf i =
     (if length buf \<le> i then Undef
      else if has_char WHITESPACE (buf ! i) then skip_white (buf[i := NUL]) (i + 1)
      else Ret (buf, i))"
  by pat_completeness auto
termination by (relation "measure (\<lambda>(buf, i). length buf - i)") auto

function scan_quote :: "char list \<Rightarrow> nat \<Rightarrow> nat outcome" where
  "scan_quote buf i =
     (if length buf \<le> i then Undef
      else if buf ! i \<noteq> NUL \<and> buf ! i \<noteq> CHR 0x22 then scan_quote buf (i + 1)
      else Ret i)"
  by pat_completeness auto
termination by (relation "measure (\<lambda>(buf, i). length buf - i)") auto

function scan_word :: "char list \<Rightarrow> nat \<Rightarrow> nat outcome" where
  "scan_word buf i =
     (if length buf \<le> i then Undef
      else if buf ! i \<noteq> NUL \<and> \<not> has_char (WHITESPACE @ SYMBOLS) (buf ! i) then scan_word buf (i + 1)
      else Ret i)"
  by pat_completeness auto
termination by (relation "measure (\<lambda>(buf, i). length buf - i)") auto

declare skip_white.simps [simp del] scan_quote.simps [simp del] scan_word.simps [simp del]

text \<open>The kind of token, \<open>NUL\<close> for the end, and the two pointers; \<open>None\<close> is the null pointer.\<close>

record token =
  t_kind :: char
  t_p1 :: "nat option"
  t_p2 :: "nat option"

definition no_token :: token where
  "no_token = \<lparr>t_kind = NUL, t_p1 = None, t_p2 = None\<rparr>"

definition gettoken_at :: "char list \<Rightarrow> nat option \<Rightarrow> (token \<times> char list) outcome" where
  "gettoken_at buf s =
     (case s of
        None \<Rightarrow> Ret (no_token, buf)
      | Some s \<Rightarrow>
          obind (skip_white buf s) (\<lambda>(buf, s).
            if buf ! s = NUL then Ret (no_token, buf)
            else if buf ! s = CHR 0x22 then
              obind (scan_quote buf (s + 1)) (\<lambda>e.
                Ret (\<lparr>t_kind = CHR ''w'', t_p1 = Some (s + 1), t_p2 = Some (e + 1)\<rparr>, buf[e := NUL]))
            else if has_char SYMBOLS (buf ! s) then
              Ret (\<lparr>t_kind = buf ! s, t_p1 = Some s, t_p2 = Some (s + 1)\<rparr>, buf[s := NUL])
            else obind (scan_word buf s) (\<lambda>e. Ret (\<lparr>t_kind = CHR ''w'', t_p1 = Some s, t_p2 = Some e\<rparr>, buf))))"

text \<open>The static variables of \<open>gettoken\<close> and the line: one token is always read ahead.\<close>

record lexer =
  line_buf :: "char list"
  ahead :: token

definition gettoken_start :: "char list \<Rightarrow> lexer outcome" where
  "gettoken_start s = obind (gettoken_at s (Some 0)) (\<lambda>(t, buf). Ret \<lparr>line_buf = buf, ahead = t\<rparr>)"

definition gettoken :: "lexer \<Rightarrow> (token \<times> lexer) outcome" where
  "gettoken l = obind (gettoken_at (line_buf l) (t_p2 (ahead l))) (\<lambda>(t, buf). Ret (ahead l, \<lparr>line_buf = buf, ahead = t\<rparr>))"

section \<open>Commands\<close>

datatype call =
    COpen string nat
  | CDup int int
  | CClose int
  | CPipe
  | CFork
  | CWait int
  | CGetVar string
  | CSpawn "string list"
  | CCloseAll

text \<open>
  What the interpreter does: return, \<open>exit\<close> after a message, undefined behaviour, or a call whose results
  the continuation takes.  \<open>More\<close> stands for a line with more tokens than the bound given.
\<close>

datatype 'r act = Done 'r | Exit string | Bad | More | Call call "int list \<Rightarrow> 'r act"

primrec lift :: "'a outcome \<Rightarrow> ('a \<Rightarrow> 'r act) \<Rightarrow> 'r act" where
  "lift (Ret x) k = k x"
| "lift (Panic m) k = Exit m"
| "lift Undef k = Bad"

primrec abind :: "'a act \<Rightarrow> ('a \<Rightarrow> 'r act) \<Rightarrow> 'r act" where
  "abind (Done x) k = k x"
| "abind (Exit m) k = Exit m"
| "abind Bad k = Bad"
| "abind More k = More"
| "abind (Call c f) k = Call c (\<lambda>r. abind (f r) k)"

abbreviation (input) MAXARGS :: nat where "MAXARGS \<equiv> 128"
abbreviation (input) RDONLY :: nat where "RDONLY \<equiv> 0"
abbreviation (input) WRONLY :: nat where "WRONLY \<equiv> 1"
abbreviation (input) CREAT :: nat where "CREAT \<equiv> 0x100"

text \<open>
  An element of \<open>argv\<close>: a pointer into the line, or to the local array of \<open>parsecmd\<close> that holds the value of a
  variable, which is gone when \<open>parsecmd\<close> has returned.
\<close>

datatype arg = InLine nat | InVarBuf

definition tok_string :: "token \<Rightarrow> lexer \<Rightarrow> string" where
  "tok_string t l = cstr (drop (the (t_p1 t)) (line_buf l))"

text \<open>A token that must be a word, as \<open><\<close>, \<open>>\<close> and \<open>$\<close> ask for it.\<close>

definition need_word :: "string \<Rightarrow> lexer \<Rightarrow> (string \<Rightarrow> lexer \<Rightarrow> 'r act) \<Rightarrow> 'r act" where
  "need_word msg l k =
     lift (gettoken l) (\<lambda>(t, l). if t_kind t \<noteq> CHR ''w'' then Exit msg else k (tok_string t l) l)"

text \<open>The array of \<open>pipe\<close> has no values when \<open>pipe\<close> fails.\<close>

fun parsecmd :: "nat \<Rightarrow> lexer \<Rightarrow> arg list \<Rightarrow> int \<Rightarrow> (lexer \<times> arg list \<times> int) act" where
  "parsecmd 0 l argv rightpipe = More"
| "parsecmd (Suc n) l argv rightpipe =
     lift (gettoken l) (\<lambda>(t, l).
       let c = t_kind t in
       if c = NUL then Done (l, argv, rightpipe)
       else if c = CHR ''$'' then
         need_word ''syntax error: $ not followed by word'' l (\<lambda>name l.
           Call (CGetVar name) (\<lambda>r.
             if hd r < 0 then Exit ''The var you need is not exist''
             else if MAXARGS \<le> length argv then Bad
             else parsecmd n l (argv @ [InVarBuf]) rightpipe))
       else if c = CHR ''w'' then
         (if MAXARGS \<le> length argv then Exit ''too many arguments''
          else parsecmd n l (argv @ [InLine (the (t_p1 t))]) rightpipe)
       else if c = CHR ''<'' then
         need_word ''syntax error: < not followed by word'' l (\<lambda>name l.
           Call (COpen name RDONLY) (\<lambda>fd. Call (CDup (hd fd) 0) (\<lambda>_. Call (CClose (hd fd)) (\<lambda>_. parsecmd n l argv rightpipe))))
       else if c = CHR ''>'' then
         need_word ''syntax error: > not followed by word'' l (\<lambda>name l.
           Call (COpen name WRONLY) (\<lambda>fd.
             let dup_it = (\<lambda>fd. Call (CDup (hd fd) 1) (\<lambda>_. Call (CClose (hd fd)) (\<lambda>_. parsecmd n l argv rightpipe)))
             in if hd fd < 0 then Call (COpen name (CREAT + WRONLY)) dup_it else dup_it fd))
       else if c = CHR ''|'' then
         Call CPipe (\<lambda>p. Call CFork (\<lambda>child.
           if hd p < 0 then Bad
           else if hd child = 0 then
             Call (CDup (p ! 1) 0) (\<lambda>_. Call (CClose (p ! 1)) (\<lambda>_. Call (CClose (p ! 2)) (\<lambda>_. parsecmd n l [] 0)))
           else
             Call (CDup (p ! 2) 1) (\<lambda>_. Call (CClose (p ! 1)) (\<lambda>_. Call (CClose (p ! 2)) (\<lambda>_. Done (l, argv, hd child))))))
       else if c = CHR '';'' then
         Call CFork (\<lambda>left.
           if 0 < hd left then Call (CWait (hd left)) (\<lambda>_. parsecmd n l [] rightpipe) else Done (l, argv, rightpipe))
       else if c = CHR ''&'' then
         Call CFork (\<lambda>back. if hd back = 0 then Done (l, argv, rightpipe) else parsecmd n l [] rightpipe)
       else parsecmd n l argv rightpipe)"

text \<open>The strings of \<open>argv\<close> when the program is started; \<open>None\<close> if one of them is no longer there.\<close>

definition arg_string :: "lexer \<Rightarrow> arg \<Rightarrow> string option" where
  "arg_string l a = (case a of InLine i \<Rightarrow> Some (cstr (drop i (line_buf l))) | InVarBuf \<Rightarrow> None)"

text \<open>
  The end of \<open>runcmd\<close>: \<open>Done\<close> when it returns to its caller, which exits too.  \<open>argv[argc] = 0\<close> is out of
  range for 128 arguments.
\<close>

definition start_cmd :: "string option list \<Rightarrow> int \<Rightarrow> unit act" where
  "start_cmd argv rightpipe =
     (if argv = [] then Done ()
      else if MAXARGS \<le> length argv then Bad
      else
        let start =
          (case those argv of
             None \<Rightarrow> Bad
           | Some args \<Rightarrow>
               Call (CSpawn args) (\<lambda>child. Call CCloseAll (\<lambda>_.
                 if 0 \<le> hd child then Call (CWait (hd child)) (\<lambda>_. Exit [])
                 else Exit ''spawn'')))
        in if rightpipe \<noteq> 0 then Call (CWait rightpipe) (\<lambda>_. start) else start)"

definition runcmd :: "nat \<Rightarrow> char list \<Rightarrow> unit act" where
  "runcmd n s =
     lift (gettoken_start s) (\<lambda>l.
     abind (parsecmd n l [] 0) (\<lambda>(l, argv, rightpipe). start_cmd (map (arg_string l) argv) rightpipe))"

section \<open>The processes of a line\<close>

text \<open>
  What a descriptor refers to; what the processes share: the next pipe, the files and the variables that exist; and
  what one of them sees, its descriptors with it.  A new descriptor is the lowest free one.
\<close>

datatype fobj = Console | FileObj string nat | PipeR nat | PipeW nat

type_synonym table = "nat \<Rightarrow> fobj option"

record shared =
  next_pipe :: nat
  w_files :: "string set"
  w_vars :: "string set"

record world = shared +
  tab :: table

definition enter :: "table \<Rightarrow> shared \<Rightarrow> world" where
  "enter T g = \<lparr>next_pipe = next_pipe g, w_files = w_files g, w_vars = w_vars g, tab = T\<rparr>"

definition lowest :: "table \<Rightarrow> nat option" where
  "lowest T = find (\<lambda>i. T i = None) [0..<31]"

definition sh_open :: "string \<Rightarrow> nat \<Rightarrow> world \<Rightarrow> int \<times> world" where
  "sh_open name mode w =
     (if name \<notin> w_files w \<and> mode < CREAT then (- 10, w)
      else case lowest (tab w) of
          None \<Rightarrow> (- 9, w)
        | Some i \<Rightarrow> (int i, w\<lparr>tab := (tab w)(i \<mapsto> FileObj name mode), w_files := insert name (w_files w)\<rparr>))"

definition sh_pipe :: "world \<Rightarrow> int list \<times> world" where
  "sh_pipe w =
     (case lowest (tab w) of
        None \<Rightarrow> ([- 9], w)
      | Some i \<Rightarrow>
          (case lowest ((tab w)(i \<mapsto> PipeR (next_pipe w))) of
             None \<Rightarrow> ([- 9], w)
           | Some j \<Rightarrow> ([0, int i, int j], w\<lparr>tab := (tab w)(i \<mapsto> PipeR (next_pipe w), j \<mapsto> PipeW (next_pipe w)), next_pipe := next_pipe w + 1\<rparr>)))"

text \<open>
  The calls that a process makes alone, with their results; \<open>None\<close> for a negative descriptor, which the library
  uses as an index, and for the calls that need another process.
\<close>

fun do_call :: "call \<Rightarrow> world \<Rightarrow> (int list \<times> world) option" where
  "do_call (COpen name mode) w = (case sh_open name mode w of (r, w) \<Rightarrow> Some ([r], w))"
| "do_call (CDup i j) w =
     (if i < 0 \<or> j < 0 then None
      else case tab w (nat i) of
          None \<Rightarrow> Some ([- 3], w)
        | Some f \<Rightarrow> Some ([j], w\<lparr>tab := (tab w)(nat j \<mapsto> f)\<rparr>))"
| "do_call (CClose i) w = (if i < 0 then None else Some ([0], w\<lparr>tab := (tab w)(nat i := None)\<rparr>))"
| "do_call CPipe w = Some (sh_pipe w)"
| "do_call (CGetVar name) w = Some ([if name \<in> w_vars w then 0 else - 1], w)"
| "do_call CCloseAll w = Some ([0], w\<lparr>tab := (\<lambda>_. None)\<rparr>)"
| "do_call _ w = None"

text \<open>
  The processes by their environment ids: one that still runs the interpreter, with what it has left to do and its
  descriptors, or a program that has been spawned.  \<open>slots\<close> is the number of free environments, \<open>used\<close> the ids
  that have been given out, \<open>spawned\<close> the calls of \<open>spawn\<close> so far, in order, with the descriptors that the program inherits.
\<close>

datatype process = Sh "unit act" table | Prog

record system =
  glob :: shared
  procs :: "int \<Rightarrow> process option"
  slots :: nat
  used :: "int set"
  spawned :: "(string list \<times> table) list"

text \<open>\<open>wait\<close> gives up the processor as long as the environment has this id and is not free.\<close>

definition wait_over :: "system \<Rightarrow> int \<Rightarrow> bool" where
  "wait_over Y envid \<longleftrightarrow> procs Y envid = None"

text \<open>
  A step of a process: one call, or its end.  \<open>fork\<close> fails when there is no free environment, \<open>spawn\<close> may fail at any time.
\<close>

inductive sh_step :: "int \<Rightarrow> system \<Rightarrow> system \<Rightarrow> bool" where
  alone: "procs Y e = Some (Sh (Call c k) T) \<Longrightarrow> do_call c (enter T (glob Y)) = Some (r, w) \<Longrightarrow>
    sh_step e Y (Y\<lparr>procs := (procs Y)(e \<mapsto> Sh (k r) (tab w)), glob := shared.truncate w\<rparr>)"
| fork: "procs Y e = Some (Sh (Call CFork k) T) \<Longrightarrow> 0 < slots Y \<Longrightarrow> 0 < q \<Longrightarrow> q \<notin> used Y \<Longrightarrow>
    sh_step e Y (Y\<lparr>procs := (procs Y)(q \<mapsto> Sh (k [0]) T, e \<mapsto> Sh (k [q]) T), slots := slots Y - 1, used := insert q (used Y)\<rparr>)"
| fork_fails: "procs Y e = Some (Sh (Call CFork k) T) \<Longrightarrow> slots Y = 0 \<Longrightarrow> r < 0 \<Longrightarrow>
    sh_step e Y (Y\<lparr>procs := (procs Y)(e \<mapsto> Sh (k [r]) T)\<rparr>)"
| wait: "procs Y e = Some (Sh (Call (CWait q) k) T) \<Longrightarrow> wait_over Y q \<Longrightarrow>
    sh_step e Y (Y\<lparr>procs := (procs Y)(e \<mapsto> Sh (k [0]) T)\<rparr>)"
| spawn: "procs Y e = Some (Sh (Call (CSpawn args) k) T) \<Longrightarrow> 0 < slots Y \<Longrightarrow> 0 < q \<Longrightarrow> q \<notin> used Y \<Longrightarrow>
    sh_step e Y (Y\<lparr>procs := (procs Y)(q \<mapsto> Prog, e \<mapsto> Sh (k [q]) T), slots := slots Y - 1, used := insert q (used Y),
      spawned := spawned Y @ [(args, T)]\<rparr>)"
| spawn_fails: "procs Y e = Some (Sh (Call (CSpawn args) k) T) \<Longrightarrow> r < 0 \<Longrightarrow>
    sh_step e Y (Y\<lparr>procs := (procs Y)(e \<mapsto> Sh (k [r]) T), spawned := spawned Y @ [(args, T)]\<rparr>)"
| ends: "procs Y e = Some (Sh a T) \<Longrightarrow> a = Done () \<or> a = Exit m \<Longrightarrow>
    sh_step e Y (Y\<lparr>procs := (procs Y)(e := None), slots := slots Y + 1\<rparr>)"

text \<open>A program does to the files, the variables and the environments what it likes, and ends when it likes.\<close>

inductive prog_step :: "int \<Rightarrow> system \<Rightarrow> system \<Rightarrow> bool" where
  runs: "procs Y e = Some Prog \<Longrightarrow> used Y \<subseteq> U \<Longrightarrow>
    prog_step e Y (Y\<lparr>glob := (glob Y)\<lparr>w_files := F, w_vars := V\<rparr>, slots := n, used := U\<rparr>)"
| returns: "procs Y e = Some Prog \<Longrightarrow> prog_step e Y (Y\<lparr>procs := (procs Y)(e := None), slots := slots Y + 1\<rparr>)"

abbreviation line_steps :: "system \<Rightarrow> system \<Rightarrow> bool" where
  "line_steps \<equiv> (\<lambda>Y Z. \<exists>e. sh_step e Y Z \<or> prog_step e Y Z)\<^sup>*\<^sup>*"

text \<open>A process about to do something undefined.\<close>

definition undefined_act :: "unit act \<Rightarrow> world \<Rightarrow> bool" where
  "undefined_act a w = (case a of
       Bad \<Rightarrow> True | More \<Rightarrow> True
     | Call c k \<Rightarrow> (case c of CFork \<Rightarrow> False | CWait q \<Rightarrow> False | CSpawn args \<Rightarrow> False | _ \<Rightarrow> do_call c w = None)
     | _ \<Rightarrow> False)"

text \<open>The child that \<open>main\<close> forks for a line.\<close>

definition line_started :: "int \<Rightarrow> table \<Rightarrow> shared \<Rightarrow> nat \<Rightarrow> unit act \<Rightarrow> system" where
  "line_started e T g n a = \<lparr>glob = g, procs = [e \<mapsto> Sh a T], slots = n, used = {e}, spawned = []\<rparr>"

end
