(* ===== verification/Mos_ShellProps.thy ===== *)
theory Mos_ShellProps
  imports Mos_Shell
begin

text \<open>
  What the shell's interpreter does with a line: the tokens that the in-place lexer delivers are those of a
  lexer on strings, the words stay readable while the rest of the line is being parsed, and the processes of a
  pipeline start its programs from right to left, one at a time, with input and output connected as written.
\<close>

section \<open>The lexer against strings\<close>

lemma has_char_iff: "NUL \<notin> set cs \<Longrightarrow> has_char cs c \<longleftrightarrow> c \<in> set cs"
proof -
  have "\<exists>r. strchr (xs @ [NUL]) c = Ret r \<and> ((r \<noteq> None) = (c \<in> set xs))" if "NUL \<notin> set xs" for xs
    using that by (induction xs) auto
  then show "NUL \<notin> set cs \<Longrightarrow> has_char cs c \<longleftrightarrow> c \<in> set cs" unfolding has_char_def by fastforce
qed

definition white :: "char \<Rightarrow> bool" where "white c \<longleftrightarrow> c \<in> set WHITESPACE"
definition symb :: "char \<Rightarrow> bool" where "symb c \<longleftrightarrow> c \<in> set SYMBOLS"
definition plain :: "char \<Rightarrow> bool" where "plain c \<longleftrightarrow> \<not> white c \<and> \<not> symb c"

lemma char_classes:
  "has_char WHITESPACE c = white c" "has_char SYMBOLS c = symb c" "has_char (WHITESPACE @ SYMBOLS) c = (white c \<or> symb c)"
  "\<not> white NUL" "\<not> symb NUL" "\<not> white (CHR 0x22)" "\<not> symb (CHR 0x22)" "\<not> symb CHR ''w''"
  by (simp_all add: has_char_iff white_def symb_def) (simp_all add: WHITESPACE_def SYMBOLS_def has_char_iff)

datatype tok = Word string | Sym char

text \<open>The tokens of a string; \<open>None\<close> when a quotation mark is not closed.\<close>

function lex :: "string \<Rightarrow> tok list option" where
  "lex s =
     (case dropWhile white s of
        [] \<Rightarrow> Some []
      | c # r \<Rightarrow>
          if c = CHR 0x22 then
            (case dropWhile (\<lambda>x. x \<noteq> CHR 0x22) r of
               [] \<Rightarrow> None
             | _ # r' \<Rightarrow> map_option ((#) (Word (takeWhile (\<lambda>x. x \<noteq> CHR 0x22) r))) (lex r'))
          else if symb c then map_option ((#) (Sym c)) (lex r)
          else map_option ((#) (Word (c # takeWhile plain r))) (lex (dropWhile plain r)))"
  by pat_completeness auto
termination
proof (relation "measure length", goal_cases)
  case (2 s c r x r')
  then show ?case using length_dropWhile_le[of white s] length_dropWhile_le[of "\<lambda>x. x \<noteq> CHR 0x22" r] by simp
next
  case (3 s c r)
  then show ?case using length_dropWhile_le[of white s] by simp
next
  case (4 s c r)
  then show ?case using length_dropWhile_le[of white s] length_dropWhile_le[of plain r] by simp
qed simp

declare lex.simps [simp del]

lemma skip_white_run:
  assumes "\<forall>c \<in> set ws. white c" and "\<not> white r"
  shows "skip_white (pre @ ws @ r # rest) (length pre) = Ret (pre @ replicate (length ws) NUL @ r # rest, length pre + length ws)"
  using assms(1)
proof (induction ws arbitrary: pre)
  case Nil
  then show ?case using assms(2) by (simp add: skip_white.simps[of _ "length pre"] char_classes)
next
  case (Cons c ws)
  have "skip_white (pre @ (c # ws) @ r # rest) (length pre) = skip_white ((pre @ [NUL]) @ ws @ r # rest) (length (pre @ [NUL]))"
    using Cons.prems by (subst skip_white.simps) (simp add: char_classes list_update_append)
  also have "\<dots> = Ret ((pre @ [NUL]) @ replicate (length ws) NUL @ r # rest, length (pre @ [NUL]) + length ws)"
    using Cons.prems by (intro Cons.IH) simp
  finally show ?case by simp
qed

lemma scan_quote_run:
  assumes "NUL \<notin> set w" "CHR 0x22 \<notin> set w" and "q = NUL \<or> q = CHR 0x22"
  shows "scan_quote (pre @ w @ q # rest) (length pre) = Ret (length pre + length w)"
  using assms(1,2)
proof (induction w arbitrary: pre)
  case Nil
  then show ?case using assms(3) by (auto simp: scan_quote.simps[of _ "length pre"])
next
  case (Cons c w)
  have "scan_quote (pre @ (c # w) @ q # rest) (length pre) = scan_quote ((pre @ [c]) @ w @ q # rest) (length (pre @ [c]))"
    using Cons.prems by (subst scan_quote.simps) auto
  also have "\<dots> = Ret (length (pre @ [c]) + length w)" using Cons.prems by (intro Cons.IH) auto
  finally show ?case by simp
qed

lemma scan_word_run:
  assumes "\<forall>c \<in> set w. c \<noteq> NUL \<and> plain c" and "q = NUL \<or> \<not> plain q"
  shows "scan_word (pre @ w @ q # rest) (length pre) = Ret (length pre + length w)"
  using assms(1)
proof (induction w arbitrary: pre)
  case Nil
  then show ?case using assms(2) by (auto simp: scan_word.simps[of _ "length pre"] char_classes plain_def)
next
  case (Cons c w)
  have "scan_word (pre @ (c # w) @ q # rest) (length pre) = scan_word ((pre @ [c]) @ w @ q # rest) (length (pre @ [c]))"
    using Cons.prems by (subst scan_word.simps) (auto simp: char_classes plain_def)
  also have "\<dots> = Ret (length (pre @ [c]) + length w)" using Cons.prems by (intro Cons.IH) auto
  finally show ?case by simp
qed

text \<open>
  The token read ahead and what is left of the line stand for the tokens \<open>ts\<close>: a word of \<open>ts\<close> lies before the
  place where reading goes on, with its terminator already there or, after a word without quotation marks,
  about to be written there.
\<close>

inductive lexes :: "char list \<Rightarrow> token \<Rightarrow> tok list \<Rightarrow> bool" where
  at_end: "lexes buf no_token []"
| at_symbol: "NUL \<notin> set s \<Longrightarrow> lex s = Some ts \<Longrightarrow> symb c \<Longrightarrow>
    lexes (pre @ s @ NUL # post) \<lparr>t_kind = c, t_p1 = p, t_p2 = Some (length pre)\<rparr> (Sym c # ts)"
| at_word: "NUL \<notin> set s \<Longrightarrow> lex s = Some ts \<Longrightarrow> NUL \<notin> set w \<Longrightarrow> z = [NUL] \<or> z = [] \<and> (s = [] \<or> \<not> plain (hd s)) \<Longrightarrow>
    lexes (pre @ w @ z @ s @ NUL # post) \<lparr>t_kind = CHR ''w'', t_p1 = Some (length pre), t_p2 = Some (length pre + length w + length z)\<rparr> (Word w # ts)"

text \<open>The next token starts behind \<open>n\<close>, or there is none.\<close>

definition beyond :: "nat \<Rightarrow> token \<Rightarrow> bool" where
  "beyond n t \<longleftrightarrow> (case t_p2 t of None \<Rightarrow> True | Some m \<Rightarrow> n < m)"

text \<open>The four ways a string can start.\<close>

lemma lex_cases:
  assumes "lex s = Some ts"
  obtains (ends) ws where "s = ws" "\<forall>c \<in> set ws. white c" "ts = []"
  | (quote) ws w r ts' where "s = ws @ CHR 0x22 # w @ CHR 0x22 # r" "\<forall>c \<in> set ws. white c" "CHR 0x22 \<notin> set w" "lex r = Some ts'" "ts = Word w # ts'"
  | (symbol) ws c r ts' where "s = ws @ c # r" "\<forall>c \<in> set ws. white c" "symb c" "\<not> white c" "c \<noteq> CHR 0x22" "lex r = Some ts'" "ts = Sym c # ts'"
  | (word) ws c w r ts' where "s = ws @ (c # w) @ r" "\<forall>c \<in> set ws. white c" "\<forall>x \<in> set (c # w). plain x" "c \<noteq> CHR 0x22"
      "r = [] \<or> \<not> plain (hd r)" "lex r = Some ts'" "ts = Word (c # w) # ts'"
proof -
  let ?ws = "takeWhile white s"
  have ws: "\<forall>c \<in> set ?ws. white c" by (auto dest: set_takeWhileD)
  show thesis
  proof (cases "dropWhile white s")
    case Nil
    then have "s = ?ws" by (metis takeWhile_dropWhile_id append_Nil2)
    moreover have "ts = []" using assms Nil by (simp add: lex.simps[of s])
    ultimately show thesis using ends[OF _ ws] by blast
  next
    case (Cons c r)
    have s: "s = ?ws @ c # r" using Cons takeWhile_dropWhile_id[of white s] by simp
    have c: "\<not> white c" using Cons hd_dropWhile[of white s] by simp
    note l = assms[unfolded lex.simps[of s] Cons list.case]
    show thesis
    proof (cases "c = CHR 0x22")
      case True
      let ?w = "takeWhile (\<lambda>x. x \<noteq> CHR 0x22) r"
      obtain q r' ts' where r: "dropWhile (\<lambda>x. x \<noteq> CHR 0x22) r = q # r'" "lex r' = Some ts'" "ts = Word ?w # ts'"
        using l True by (auto split: list.splits)
      have "q = CHR 0x22" using hd_dropWhile[of "\<lambda>x. x \<noteq> CHR 0x22" r] r(1) by simp
      then have "r = ?w @ CHR 0x22 # r'" using takeWhile_dropWhile_id[of "\<lambda>x. x \<noteq> CHR 0x22" r] r(1) by simp
      then have "s = ?ws @ CHR 0x22 # ?w @ CHR 0x22 # r'" using s True by simp
      then show thesis by (rule quote[OF _ ws _ r(2,3)]) (auto dest: set_takeWhileD)
    next
      case nq: False
      show thesis
      proof (cases "symb c")
        case True
        then obtain ts' where "lex r = Some ts'" "ts = Sym c # ts'" using l nq by auto
        then show thesis by (rule symbol[OF s ws True c nq])
      next
        case False
        then obtain ts' where r: "lex (dropWhile plain r) = Some ts'" "ts = Word (c # takeWhile plain r) # ts'" using l nq by auto
        have "s = ?ws @ (c # takeWhile plain r) @ dropWhile plain r" using s by simp
        then show thesis
          by (rule word[OF _ ws _ nq _ r]) (use c False hd_dropWhile[of plain r] in \<open>auto simp: plain_def dest: set_takeWhileD\<close>)
      qed
    qed
  qed
qed

lemma gettoken_ends:
  assumes "\<forall>c \<in> set ws. white c"
  shows "gettoken_at (pre @ ws @ NUL # post) (Some (length pre)) = Ret (no_token, pre @ replicate (length ws) NUL @ NUL # post)"
  using skip_white_run[OF assms, of NUL pre post] by (simp add: gettoken_at_def char_classes nth_append)

lemma gettoken_quote:
  fixes pre :: "char list"
  assumes "\<forall>c \<in> set ws. white c" and "NUL \<notin> set w" "CHR 0x22 \<notin> set w"
  defines "pre' \<equiv> pre @ replicate (length ws) NUL @ [CHR 0x22]"
  shows "gettoken_at (pre @ (ws @ CHR 0x22 # w @ CHR 0x22 # r) @ NUL # post) (Some (length pre)) =
    Ret (\<lparr>t_kind = CHR ''w'', t_p1 = Some (length pre'), t_p2 = Some (length pre' + length w + length [NUL])\<rparr>, pre' @ w @ [NUL] @ r @ NUL # post)"
proof -
  have "scan_quote (pre' @ w @ CHR 0x22 # r @ NUL # post) (length pre') = Ret (length pre' + length w)" by (rule scan_quote_run[OF assms(2,3)]) simp
  then show ?thesis
    using skip_white_run[OF assms(1) char_classes(6), of pre "w @ CHR 0x22 # r @ NUL # post"]
    by (simp add: gettoken_at_def pre'_def nth_append list_update_append)
qed

lemma gettoken_symbol:
  fixes pre :: "char list"
  assumes "\<forall>c \<in> set ws. white c" and "symb c" "\<not> white c" "c \<noteq> CHR 0x22"
  defines "pre' \<equiv> pre @ replicate (length ws) NUL @ [NUL]"
  shows "gettoken_at (pre @ (ws @ c # r) @ NUL # post) (Some (length pre)) =
    Ret (\<lparr>t_kind = c, t_p1 = Some (length pre + length ws), t_p2 = Some (length pre')\<rparr>, pre' @ r @ NUL # post)"
proof -
  have "c \<noteq> NUL" using assms(2) char_classes(5) by auto
  then show ?thesis
    using skip_white_run[OF assms(1,3), of pre "r @ NUL # post"] assms(2,4)
    by (simp add: gettoken_at_def pre'_def nth_append list_update_append char_classes)
qed

lemma gettoken_word:
  fixes pre :: "char list"
  assumes "\<forall>c \<in> set ws. white c" and "\<forall>x \<in> set (c # w). x \<noteq> NUL \<and> plain x" "c \<noteq> CHR 0x22" and "r = [] \<or> \<not> plain (hd r)"
  defines "pre' \<equiv> pre @ replicate (length ws) NUL"
  shows "gettoken_at (pre @ (ws @ (c # w) @ r) @ NUL # post) (Some (length pre)) =
    Ret (\<lparr>t_kind = CHR ''w'', t_p1 = Some (length pre'), t_p2 = Some (length pre' + length (c # w) + length ([] :: char list))\<rparr>, pre' @ (c # w) @ [] @ r @ NUL # post)"
proof -
  obtain q qs where q: "r @ NUL # post = q # qs" "q = NUL \<or> \<not> plain q" using assms(4) by (cases r) auto
  have "scan_word (pre' @ (c # w) @ r @ NUL # post) (length pre') = Ret (length pre' + length (c # w))"
    unfolding q(1) by (rule scan_word_run[OF assms(2) q(2)])
  moreover have "\<not> white c" "\<not> symb c" "c \<noteq> NUL" using assms(2) by (auto simp: plain_def)
  ultimately show ?thesis
    using skip_white_run[OF assms(1), of c pre "w @ r @ NUL # post"] assms(3)
    by (simp add: gettoken_at_def pre'_def nth_append char_classes)
qed

lemma lead_NUL: "ws \<noteq> [] \<Longrightarrow> (pre @ replicate (length ws) NUL @ x) ! length pre = NUL"
  by (cases ws) (simp_all add: nth_append)

lemma gettoken_at_lexes:
  assumes "NUL \<notin> set s" and "lex s = Some ts"
  shows "\<exists>t x. gettoken_at (pre @ s @ NUL # post) (Some (length pre)) = Ret (t, pre @ x) \<and> lexes (pre @ x) t ts \<and> beyond (length pre) t
     \<and> (s = [] \<or> \<not> plain (hd s) \<longrightarrow> (\<exists>x'. x = NUL # x'))"
proof -
  have I: ?thesis if "gettoken_at (pre @ s @ NUL # post) (Some (length pre)) = Ret (t, pre @ x)" "lexes (pre @ x) t ts" "beyond (length pre) t"
    "s = [] \<or> \<not> plain (hd s) \<Longrightarrow> \<exists>x'. x = NUL # x'" for t x
    using that by blast
  show ?thesis using assms(2)
  proof (cases rule: lex_cases)
    case (ends ws)
    have "gettoken_at (pre @ s @ NUL # post) (Some (length pre)) = Ret (no_token, pre @ replicate (length ws) NUL @ NUL # post)"
      unfolding ends(1) by (rule gettoken_ends[OF ends(2)])
    then show ?thesis using lexes.at_end unfolding ends(3)[symmetric] by (rule I) (cases ws; simp add: beyond_def no_token_def)+
  next
    case (quote ws w r ts')
    have n: "NUL \<notin> set w" "NUL \<notin> set r" using assms(1) quote(1) by auto
    have pq: "plain (CHR 0x22)" by (simp add: plain_def char_classes)
    note g = gettoken_quote[OF quote(2) n(1) quote(3), of pre r post, folded quote(1), unfolded append_assoc]
    note x = at_word[OF n(2) quote(4) n(1), of "[NUL]" "pre @ replicate (length ws) NUL @ [CHR 0x22]" post, folded quote(5), unfolded append_assoc, OF disjI1[OF refl]]
    show ?thesis by (rule I[OF g x]) (use pq quote(1) in \<open>cases ws; simp add: beyond_def\<close>)+
  next
    case (symbol ws c r ts')
    have n: "NUL \<notin> set r" using assms(1) symbol(1) by auto
    note g = gettoken_symbol[OF symbol(2-5), of pre r post, folded symbol(1), unfolded append_assoc]
    note x = at_symbol[OF n symbol(6,3), of "pre @ replicate (length ws) NUL @ [NUL]" post "Some (length pre + length ws)", folded symbol(7), unfolded append_assoc]
    show ?thesis by (rule I[OF g x]) (cases ws; simp add: beyond_def)+
  next
    case (word ws c w r ts')
    have n: "NUL \<notin> set (c # w)" "NUL \<notin> set r" using assms(1) word(1) by auto
    have w: "\<forall>x \<in> set (c # w). x \<noteq> NUL \<and> plain x" using n(1) word(3) by metis
    have z: "[] = [NUL] \<or> [] = [] \<and> (r = [] \<or> \<not> plain (hd r))" using word(5) by simp
    note g = gettoken_word[OF word(2) w word(4,5), of pre post, folded word(1), unfolded append_assoc]
    note x = at_word[OF n(2) word(6) n(1) z, of "pre @ replicate (length ws) NUL" post, folded word(7), unfolded append_assoc]
    show ?thesis by (rule I[OF g x]) (use word(1,3) in \<open>cases ws; simp add: beyond_def\<close>)+
  qed
qed

text \<open>A word at \<open>p\<close> that no later token can disturb.\<close>

definition settled :: "lexer \<Rightarrow> nat \<Rightarrow> string \<Rightarrow> bool" where
  "settled l p w \<longleftrightarrow> (\<exists>pre post. line_buf l = pre @ w @ NUL # post \<and> length pre = p) \<and> NUL \<notin> set w \<and> beyond (p + length w) (ahead l)"

lemma settled_string: "settled l p w \<Longrightarrow> cstr (drop p (line_buf l)) = w"
  by (auto simp: settled_def)

text \<open>
  A step of the lexer delivers the next token; a word delivered is settled, and settled words stay so.
\<close>

lemma prefix_split:
  assumes "pre0 @ w @ c # post0 = pre @ y" "length pre0 + length w < length pre"
  shows "\<exists>z. pre = pre0 @ w @ c # z"
proof -
  have e: "(pre0 @ w @ [c]) @ post0 = pre @ y" and n: "length (pre0 @ w @ [c]) \<le> length pre" using assms by simp_all
  have "take (length (pre0 @ w @ [c])) pre = take (length (pre0 @ w @ [c])) (pre @ y)" using n by simp
  also have "\<dots> = pre0 @ w @ [c]" unfolding e[symmetric] by simp
  finally have "pre = (pre0 @ w @ [c]) @ drop (length (pre0 @ w @ [c])) pre" by (metis append_take_drop_id)
  then show ?thesis by (intro exI[of _ "drop (length (pre0 @ w @ [c])) pre"]) simp
qed

lemma settled_kept:
  assumes "settled l p w" and "line_buf l = pre @ y" "t_p2 (ahead l) = Some (length pre)" and "line_buf l' = pre @ x" "beyond (length pre) (ahead l')"
  shows "settled l' p w"
proof -
  obtain pre0 post0 where b: "line_buf l = pre0 @ w @ NUL # post0" "length pre0 = p" "NUL \<notin> set w" "beyond (p + length w) (ahead l)"
    using assms(1) unfolding settled_def by blast
  have n: "p + length w < length pre" using b(4) assms(3) by (simp add: beyond_def)
  obtain z where "pre = pre0 @ w @ NUL # z" using prefix_split[OF trans[OF b(1)[symmetric] assms(2)]] n b(2) by blast
  then have "line_buf l' = pre0 @ w @ NUL # (z @ x)" using assms(4) by simp
  moreover have "beyond (p + length w) (ahead l')" using assms(5) n by (auto simp: beyond_def split: option.splits)
  ultimately show ?thesis using b(2,3) unfolding settled_def by blast
qed

lemma gettoken_step:
  assumes "line_buf l = pre @ s @ NUL # post" "t_p2 (ahead l) = Some (length pre)" and "NUL \<notin> set s" "lex s = Some ts"
  shows "\<exists>l' x. gettoken l = Ret (ahead l, l') \<and> lexes (line_buf l') (ahead l') ts \<and> (\<forall>p w. settled l p w \<longrightarrow> settled l' p w)
     \<and> line_buf l' = pre @ x \<and> (s = [] \<or> \<not> plain (hd s) \<longrightarrow> (\<exists>x'. x = NUL # x')) \<and> beyond (length pre) (ahead l')"
proof -
  obtain t x where g: "gettoken_at (pre @ s @ NUL # post) (Some (length pre)) = Ret (t, pre @ x)" "lexes (pre @ x) t ts" "beyond (length pre) t"
    "s = [] \<or> \<not> plain (hd s) \<longrightarrow> (\<exists>x'. x = NUL # x')" using gettoken_at_lexes[OF assms(3,4)] by blast
  let ?l = "\<lparr>line_buf = pre @ x, ahead = t\<rparr>"
  have "gettoken l = Ret (ahead l, ?l)" using g(1) assms(1,2) by (simp add: gettoken_def)
  moreover have "settled ?l p w" if "settled l p w" for p w using settled_kept[OF that assms(1,2), of ?l x] g(3) by simp
  ultimately show ?thesis using g(2-4) by (intro exI[of _ ?l] exI[of _ x]) simp
qed

lemma gettoken_lexes:
  assumes "lexes (line_buf l) (ahead l) ts"
  shows "\<exists>l'. gettoken l = Ret (ahead l, l') \<and> lexes (line_buf l') (ahead l') (tl ts)
     \<and> (\<forall>p w. settled l p w \<longrightarrow> settled l' p w)
     \<and> (case ts of [] \<Rightarrow> t_kind (ahead l) = NUL | Sym c # _ \<Rightarrow> t_kind (ahead l) = c \<and> symb c
          | Word w # _ \<Rightarrow> t_kind (ahead l) = CHR ''w'' \<and> (\<exists>p. t_p1 (ahead l) = Some p \<and> settled l' p w))"
  using assms
proof (cases rule: lexes.cases)
  case at_end
  have "gettoken l = Ret (ahead l, l)" using at_end(1) by (cases l) (simp add: gettoken_def gettoken_at_def no_token_def)
  then show ?thesis using assms at_end by (intro exI[of _ l]) (simp add: no_token_def)
next
  case (at_symbol s ts' c pre post p)
  have p2: "t_p2 (ahead l) = Some (length pre)" using at_symbol(2) by simp
  from gettoken_step[OF at_symbol(1) p2 at_symbol(4,5)] show ?thesis using at_symbol(2,3,6) by auto
next
  case (at_word s ts' w z pre post)
  have b: "line_buf l = (pre @ w @ z) @ s @ NUL # post" "t_p2 (ahead l) = Some (length (pre @ w @ z))" using at_word(1,2) by simp_all
  obtain l' x where g: "gettoken l = Ret (ahead l, l')" "lexes (line_buf l') (ahead l') ts'" "\<forall>p w. settled l p w \<longrightarrow> settled l' p w"
    "line_buf l' = (pre @ w @ z) @ x" "s = [] \<or> \<not> plain (hd s) \<longrightarrow> (\<exists>x'. x = NUL # x')" "beyond (length (pre @ w @ z)) (ahead l')"
    using gettoken_step[OF b at_word(4,5)] by blast
  have "\<exists>y. line_buf l' = pre @ w @ NUL # y" using at_word(7) g(4,5) by auto
  moreover have "beyond (length pre + length w) (ahead l')" using g(6) by (auto simp: beyond_def split: option.splits)
  ultimately have "settled l' (length pre) w" using at_word(6) unfolding settled_def by blast
  then show ?thesis using g(1-3) at_word(2,3) by auto
qed

section \<open>The parser on tokens\<close>

definition pword :: "string \<Rightarrow> tok list \<Rightarrow> (string \<Rightarrow> tok list \<Rightarrow> 'r act) \<Rightarrow> 'r act" where
  "pword msg ts k = (case ts of Word w # ts \<Rightarrow> k w ts | _ \<Rightarrow> Exit msg)"

text \<open>\<open>parsecmd\<close> on a list of tokens; an argument is its string, or \<open>None\<close> for the value of a variable.\<close>

fun pcmd :: "nat \<Rightarrow> tok list \<Rightarrow> string option list \<Rightarrow> int \<Rightarrow> (string option list \<times> int) act" where
  "pcmd 0 ts argv rp = More"
| "pcmd (Suc n) ts argv rp =
     (case ts of
        [] \<Rightarrow> Done (argv, rp)
      | Word w # ts \<Rightarrow> if MAXARGS \<le> length argv then Exit ''too many arguments'' else pcmd n ts (argv @ [Some w]) rp
      | Sym c # ts \<Rightarrow>
          if c = CHR ''$'' then
            pword ''syntax error: $ not followed by word'' ts (\<lambda>name ts. Call (CGetVar name) (\<lambda>r.
              if hd r < 0 then Exit ''The var you need is not exist'' else if MAXARGS \<le> length argv then Bad else pcmd n ts (argv @ [None]) rp))
          else if c = CHR ''<'' then
            pword ''syntax error: < not followed by word'' ts (\<lambda>name ts.
              Call (COpen name RDONLY) (\<lambda>fd. Call (CDup (hd fd) 0) (\<lambda>_. Call (CClose (hd fd)) (\<lambda>_. pcmd n ts argv rp))))
          else if c = CHR ''>'' then
            pword ''syntax error: > not followed by word'' ts (\<lambda>name ts.
              Call (COpen name WRONLY) (\<lambda>fd.
                let dup_it = (\<lambda>fd. Call (CDup (hd fd) 1) (\<lambda>_. Call (CClose (hd fd)) (\<lambda>_. pcmd n ts argv rp)))
                in if hd fd < 0 then Call (COpen name (CREAT + WRONLY)) dup_it else dup_it fd))
          else if c = CHR ''|'' then
            Call CPipe (\<lambda>p. Call CFork (\<lambda>child.
              if hd p < 0 then Bad
              else if hd child = 0 then
                Call (CDup (p ! 1) 0) (\<lambda>_. Call (CClose (p ! 1)) (\<lambda>_. Call (CClose (p ! 2)) (\<lambda>_. pcmd n ts [] 0)))
              else
                Call (CDup (p ! 2) 1) (\<lambda>_. Call (CClose (p ! 1)) (\<lambda>_. Call (CClose (p ! 2)) (\<lambda>_. Done (argv, hd child))))))
          else if c = CHR '';'' then
            Call CFork (\<lambda>left. if 0 < hd left then Call (CWait (hd left)) (\<lambda>_. pcmd n ts [] rp) else Done (argv, rp))
          else if c = CHR ''&'' then
            Call CFork (\<lambda>back. if hd back = 0 then Done (argv, rp) else pcmd n ts [] rp)
          else pcmd n ts argv rp)"

definition arg_ok :: "lexer \<Rightarrow> arg \<Rightarrow> bool" where
  "arg_ok l a \<longleftrightarrow> (case a of InLine p \<Rightarrow> (\<exists>w. settled l p w) | InVarBuf \<Rightarrow> True)"

definition keeps :: "lexer \<Rightarrow> lexer \<Rightarrow> bool" where
  "keeps l l' \<longleftrightarrow> (\<forall>p w. settled l p w \<longrightarrow> settled l' p w)"

lemma keeps_trans: "keeps l l' \<Longrightarrow> keeps l' l'' \<Longrightarrow> keeps l l''"
  by (auto simp: keeps_def)

lemma keeps_args:
  assumes "keeps l l'" and "\<forall>a \<in> set argv. arg_ok l a"
  shows "(\<forall>a \<in> set argv. arg_ok l' a) \<and> map (arg_string l') argv = map (arg_string l) argv"
proof -
  have "arg_ok l' a \<and> arg_string l' a = arg_string l a" if ok: "arg_ok l a" for a
  proof (cases a)
    case (InLine p)
    then obtain w where "settled l p w" "settled l' p w" using ok assms(1) by (auto simp: arg_ok_def keeps_def)
    then show ?thesis using InLine settled_string by (auto simp: arg_ok_def arg_string_def)
  qed (simp add: arg_ok_def arg_string_def)
  then show ?thesis using assms(2) by simp
qed

lemma need_word_pword:
  assumes "lexes (line_buf l) (ahead l) ts"
    and "\<And>w ts' l'. ts = Word w # ts' \<Longrightarrow> lexes (line_buf l') (ahead l') ts' \<Longrightarrow> keeps l l' \<Longrightarrow> abind (k w l') K = abind (k' w ts') K'"
  shows "abind (need_word msg l k) K = abind (pword msg ts k') K'"
proof -
  obtain l' where g: "gettoken l = Ret (ahead l, l')" "lexes (line_buf l') (ahead l') (tl ts)" "keeps l l'"
    "case ts of [] \<Rightarrow> t_kind (ahead l) = NUL | Sym c # _ \<Rightarrow> t_kind (ahead l) = c \<and> symb c
          | Word w # _ \<Rightarrow> t_kind (ahead l) = CHR ''w'' \<and> (\<exists>p. t_p1 (ahead l) = Some p \<and> settled l' p w)"
    using gettoken_lexes[OF assms(1)] unfolding keeps_def by blast
  show ?thesis
  proof (cases ts)
    case (Cons t ts')
    show ?thesis
    proof (cases t)
      case (Word w)
      then obtain p where "t_kind (ahead l) = CHR ''w''" "t_p1 (ahead l) = Some p" "settled l' p w" using g(4) Cons by auto
      then show ?thesis using g(1) assms(2)[OF _ g(2)[unfolded Cons list.sel] g(3)] Cons Word settled_string[of l' p w]
        by (simp add: need_word_def pword_def tok_string_def)
    next
      case (Sym c)
      then have "t_kind (ahead l) = c" "symb c" using g(4) Cons by simp_all
      moreover have "c \<noteq> CHR ''w''" using \<open>symb c\<close> char_classes(8) by auto
      ultimately show ?thesis using g(1) Cons Sym by (simp add: need_word_def pword_def)
    qed
  next
    case Nil
    then show ?thesis using g(1,4) by (simp add: need_word_def pword_def)
  qed
qed

lemma parsecmd_pcmd:
  assumes "lexes (line_buf l) (ahead l) ts" and "\<forall>a \<in> set argv. arg_ok l a"
  shows "abind (parsecmd n l argv rp) (\<lambda>(l, argv, rp). K (map (arg_string l) argv) rp) =
    abind (pcmd n ts (map (arg_string l) argv) rp) (\<lambda>(argv, rp). K argv rp)"
  using assms
proof (induction n arbitrary: l ts argv rp)
  case (Suc n)
  obtain l' where g: "gettoken l = Ret (ahead l, l')" "lexes (line_buf l') (ahead l') (tl ts)" "keeps l l'"
    "case ts of [] \<Rightarrow> t_kind (ahead l) = NUL | Sym c # _ \<Rightarrow> t_kind (ahead l) = c \<and> symb c
          | Word w # _ \<Rightarrow> t_kind (ahead l) = CHR ''w'' \<and> (\<exists>p. t_p1 (ahead l) = Some p \<and> settled l' p w)"
    using gettoken_lexes[OF Suc.prems(1)] unfolding keeps_def by blast
  have args: "\<forall>a \<in> set argv. arg_ok l' a" "map (arg_string l') argv = map (arg_string l) argv" using keeps_args[OF g(3) Suc.prems(2)] by simp_all
  note IH = Suc.IH[OF g(2)]
  have after: "abind (need_word msg l' k) (\<lambda>(l, argv, rp). K (map (arg_string l) argv) rp) = abind (pword msg (tl ts) k') (\<lambda>(argv, rp). K argv rp)"
    if "\<And>w ts' l''. lexes (line_buf l'') (ahead l'') ts' \<Longrightarrow> \<forall>a \<in> set argv. arg_ok l'' a \<Longrightarrow> map (arg_string l'') argv = map (arg_string l) argv \<Longrightarrow>
      abind (k w l'') (\<lambda>(l, argv, rp). K (map (arg_string l) argv) rp) = abind (k' w ts') (\<lambda>(argv, rp). K argv rp)" for msg k k'
    using that keeps_args[OF _ args(1)] args(2) by (intro need_word_pword[OF g(2)]) simp
  show ?case
  proof (cases ts)
    case Nil
    then show ?thesis using g(1,4) by (simp add: args(2) del: map_eq_conv)
  next
    case (Cons t ts')
    show ?thesis
    proof (cases t)
      case (Word w)
      then obtain p where p: "t_kind (ahead l) = CHR ''w''" "t_p1 (ahead l) = Some p" "settled l' p w" using g(4) Cons by auto
      have "\<forall>a \<in> set (argv @ [InLine p]). arg_ok l' a" using args(1) p(3) by (auto simp: arg_ok_def)
      from IH[OF this, of rp] have "abind (parsecmd n l' (argv @ [InLine p]) rp) (\<lambda>(l, argv, rp). K (map (arg_string l) argv) rp) =
          abind (pcmd n ts' (map (arg_string l) argv @ [Some w]) rp) (\<lambda>(argv, rp). K argv rp)"
        unfolding map_append args(2) using settled_string[OF p(3)] Cons by (simp add: arg_string_def[of l' "InLine p"])
      then show ?thesis using g(1) p(1,2) Cons Word by simp
    next
      case (Sym c)
      then have c: "t_kind (ahead l) = c" "symb c" using g(4) Cons by simp_all
      then have nc: "c \<noteq> NUL" "c \<noteq> CHR ''w''" using char_classes(5,8) by auto
      have tl: "tl ts = ts'" using Cons by simp
      note none = IH[of "[]", simplified]
      have same: "abind (parsecmd n l'' argv rp) (\<lambda>(l, argv, rp). K (map (arg_string l) argv) rp) = abind (pcmd n ts'' (map (arg_string l) argv) rp) (\<lambda>(argv, rp). K argv rp)"
        if "lexes (line_buf l'') (ahead l'') ts''" "\<forall>a \<in> set argv. arg_ok l'' a" "map (arg_string l'') argv = map (arg_string l) argv" for l'' ts''
        using Suc.IH[OF that(1,2), of rp] unfolding that(3) .
      have var: "abind (parsecmd n l'' (argv @ [InVarBuf]) rp) (\<lambda>(l, argv, rp). K (map (arg_string l) argv) rp) =
          abind (pcmd n ts'' (map (arg_string l) argv @ [None]) rp) (\<lambda>(argv, rp). K argv rp)"
        if "lexes (line_buf l'') (ahead l'') ts''" "\<forall>a \<in> set argv. arg_ok l'' a" "map (arg_string l'') argv = map (arg_string l) argv" for l'' ts''
        using Suc.IH[OF that(1), of "argv @ [InVarBuf]" rp] that(2) unfolding map_append that(3) by (simp add: arg_string_def[of l'' InVarBuf] arg_ok_def[of l'' InVarBuf])
      consider "c = CHR ''$''" | "c = CHR ''<''" | "c = CHR ''>''" | "c \<noteq> CHR ''$''" "c \<noteq> CHR ''<''" "c \<noteq> CHR ''>''" by blast
      then show ?thesis
      proof cases
        case 1
        show ?thesis using g(1) c 1 Cons Sym by simp (rule after[unfolded tl], auto simp: fun_eq_iff var simp del: map_eq_conv)
      next
        case 2
        show ?thesis using g(1) c 2 Cons Sym by simp (rule after[unfolded tl], simp add: fun_eq_iff same del: map_eq_conv)
      next
        case 3
        show ?thesis using g(1) c 3 Cons Sym by simp (rule after[unfolded tl], auto simp: fun_eq_iff same Let_def simp del: map_eq_conv)
      next
        case 4
        have "abind (parsecmd n l' argv rp) (\<lambda>(l, argv, rp). K (map (arg_string l) argv) rp) = abind (pcmd n ts' (map (arg_string l) argv) rp) (\<lambda>(argv, rp). K argv rp)"
          by (rule same[OF g(2)[unfolded tl] args])
        then show ?thesis using g(1) c nc Cons Sym none[unfolded tl] 4 by (auto simp: fun_eq_iff args(2) simp del: map_eq_conv)
      qed
    qed
  qed
qed simp

lemma runcmd_tokens:
  assumes "NUL \<notin> set s" and "lex s = Some ts"
  shows "runcmd n (s @ NUL # post) = abind (pcmd n ts [] 0) (\<lambda>(argv, rp). start_cmd argv rp)"
proof -
  obtain t x where g: "gettoken_at (s @ NUL # post) (Some 0) = Ret (t, x)" "lexes x t ts" using gettoken_at_lexes[OF assms, of "[]" post] by auto
  then show ?thesis using parsecmd_pcmd[of "\<lparr>line_buf = x, ahead = t\<rparr>" ts "[]" n 0 start_cmd] by (simp add: runcmd_def gettoken_start_def)
qed

section \<open>Pipelines\<close>

text \<open>A command is written as arguments and redirections in any order; a pipeline is a list of commands.\<close>

datatype item = Arg string | In string | Out string

primrec item_toks :: "item \<Rightarrow> tok list" where
  "item_toks (Arg w) = [Word w]"
| "item_toks (In f) = [Sym CHR ''<'', Word f]"
| "item_toks (Out f) = [Sym CHR ''>'', Word f]"

definition cmd_toks :: "item list \<Rightarrow> tok list" where
  "cmd_toks c = concat (map item_toks c)"

fun pipe_toks :: "item list list \<Rightarrow> tok list" where
  "pipe_toks [] = []"
| "pipe_toks [c] = cmd_toks c"
| "pipe_toks (c # cs) = cmd_toks c @ Sym CHR ''|'' # pipe_toks cs"

fun args_of :: "item list \<Rightarrow> string list" where
  "args_of [] = []"
| "args_of (Arg w # c) = w # args_of c"
| "args_of (_ # c) = args_of c"

text \<open>What the redirections of a command mean for the process that reads them.\<close>

primrec redir_item :: "item \<Rightarrow> world \<Rightarrow> world" where
  "redir_item (Arg w) W = W"
| "redir_item (In f) W = W\<lparr>tab := (tab W)(0 \<mapsto> FileObj f RDONLY)\<rparr>"
| "redir_item (Out f) W = W\<lparr>tab := (tab W)(1 \<mapsto> FileObj f (if f \<in> w_files W then WRONLY else CREAT + WRONLY)), w_files := insert f (w_files W)\<rparr>"

definition redir :: "item list \<Rightarrow> world \<Rightarrow> world" where
  "redir c W = fold redir_item c W"

text \<open>Standard input and output are open and two more descriptors are free.\<close>

definition room :: "(nat \<Rightarrow> fobj option) \<Rightarrow> bool" where
  "room T \<longleftrightarrow> T 0 \<noteq> None \<and> T 1 \<noteq> None \<and> (\<exists>i j. i < j \<and> j < 31 \<and> T i = None \<and> T j = None)"

text \<open>A process up to the next call that needs another process.\<close>

primrec exec :: "'r act \<Rightarrow> world \<Rightarrow> 'r act \<times> world" where
  "exec (Done x) = (\<lambda>w. (Done x, w))"
| "exec (Exit m) = (\<lambda>w. (Exit m, w))"
| "exec Bad = (\<lambda>w. (Bad, w))"
| "exec More = (\<lambda>w. (More, w))"
| "exec (Call c k) = (\<lambda>w. case do_call c w of None \<Rightarrow> (Call c k, w) | Some (r, w) \<Rightarrow> exec (k r) w)"

lemma lowest_room:
  assumes "room T"
  obtains i where "lowest T = Some i" "2 \<le> i" "T i = None"
proof -
  obtain j where "j < 31" "T j = None" using assms by (auto simp: room_def)
  then have "lowest T \<noteq> None" by (auto simp: lowest_def find_None_iff)
  then obtain i where i: "lowest T = Some i" by blast
  then have "T i = None" by (auto simp: lowest_def find_Some_iff)
  moreover have "i \<noteq> 0" "i \<noteq> 1" using calculation assms by (auto simp: room_def intro: ccontr)
  ultimately show thesis using that i by simp
qed

lemma lowest_two:
  assumes "room T" "lowest T = Some i"
  obtains j where "lowest (T(i \<mapsto> x)) = Some j" "2 \<le> j" "T j = None" "j \<noteq> i"
proof -
  obtain a b where ab: "a < b" "b < 31" "T a = None" "T b = None" using assms(1) by (auto simp: room_def)
  have "\<exists>k < 31. (T(i \<mapsto> x)) k = None"
  proof (cases "a = i")
    case True
    then show ?thesis using ab by (intro exI[of _ b]) simp
  next
    case False
    then show ?thesis using ab by (intro exI[of _ a]) simp
  qed
  then have "\<exists>k. k \<in> set [0..<31] \<and> (T(i \<mapsto> x)) k = None" by (metis atLeast0LessThan lessThan_iff set_upt)
  then have "lowest (T(i \<mapsto> x)) \<noteq> None" unfolding lowest_def find_None_iff by blast
  then obtain j where j: "lowest (T(i \<mapsto> x)) = Some j" by blast
  then have "(T(i \<mapsto> x)) j = None" unfolding lowest_def find_Some_iff by blast
  then have "T j = None" "j \<noteq> i" by (simp_all split: if_splits)
  moreover have "j \<noteq> 0" "j \<noteq> 1" using calculation assms(1) by (auto simp: room_def intro: ccontr)
  ultimately show thesis using that j by simp
qed

lemma open_known:
  "name \<in> w_files W \<Longrightarrow> lowest (tab W) = Some i \<Longrightarrow> sh_open name mode W = (int i, W\<lparr>tab := (tab W)(i \<mapsto> FileObj name mode)\<rparr>)"
  by (simp add: sh_open_def insert_absorb)

lemma move_fd: "2 \<le> i \<Longrightarrow> k < (2 :: nat) \<Longrightarrow> T i = None \<Longrightarrow> ((T(i \<mapsto> x))(k := (T(i \<mapsto> x)) i))(i := None) = T(k \<mapsto> x)"
  by (auto simp: fun_eq_iff)

lemma exec_move:
  assumes "2 \<le> i" "k < 2" "tab W i = None"
  shows "exec (Call (CDup (int i) (int k)) (\<lambda>_. Call (CClose (int i)) (\<lambda>_. a))) (W\<lparr>tab := (tab W)(i \<mapsto> x)\<rparr>) = exec a (W\<lparr>tab := (tab W)(k \<mapsto> x)\<rparr>)"
  using move_fd[of i k "tab W" x] assms by simp

lemma exec_open: "exec (Call (COpen name mode) k) W = exec (k [fst (sh_open name mode W)]) (snd (sh_open name mode W))"
  by (simp add: case_prod_unfold)

lemma item_in:
  assumes "room (tab W)" and "f \<in> w_files W"
  shows "exec (abind (pcmd (Suc n) (Sym CHR ''<'' # Word f # ts) argv rp) K) W = exec (abind (pcmd n ts argv rp) K) (W\<lparr>tab := (tab W)(0 \<mapsto> FileObj f RDONLY)\<rparr>)"
proof -
  obtain i where i: "lowest (tab W) = Some i" "2 \<le> i" "tab W i = None" using lowest_room[OF assms(1)] .
  have "abind (pcmd (Suc n) (Sym CHR ''<'' # Word f # ts) argv rp) K =
    Call (COpen f RDONLY) (\<lambda>fd. Call (CDup (hd fd) 0) (\<lambda>_. Call (CClose (hd fd)) (\<lambda>_. abind (pcmd n ts argv rp) K)))"
    by (simp add: pword_def)
  then show ?thesis
    using exec_move[OF i(2) zero_less_numeral i(3), of "abind (pcmd n ts argv rp) K" "FileObj f RDONLY"]
    by (simp only: exec_open open_known[OF assms(2) i(1)] fst_conv snd_conv list.sel int_ops(1))
qed

lemma item_out:
  assumes "room (tab W)"
  shows "exec (abind (pcmd (Suc n) (Sym CHR ''>'' # Word f # ts) argv rp) K) W =
    exec (abind (pcmd n ts argv rp) K) (redir_item (Out f) W)"
proof -
  obtain i where i: "lowest (tab W) = Some i" "2 \<le> i" "tab W i = None" using lowest_room[OF assms(1)] .
  let ?a = "abind (pcmd n ts argv rp) K"
  let ?d = "\<lambda>fd. Call (CDup (hd fd) 1) (\<lambda>_. Call (CClose (hd fd)) (\<lambda>_. ?a))"
  have act: "abind (pcmd (Suc n) (Sym CHR ''>'' # Word f # ts) argv rp) K =
    Call (COpen f WRONLY) (\<lambda>fd. if hd fd < 0 then Call (COpen f (CREAT + WRONLY)) ?d else ?d fd)"
    by (auto simp: pword_def Let_def fun_eq_iff)
  show ?thesis
  proof (cases "f \<in> w_files W")
    case True
    then show ?thesis
      using exec_move[OF i(2) _ i(3), of 1 ?a "FileObj f WRONLY"] unfolding act exec_open open_known[OF True i(1)]
      by (simp del: exec.simps add: insert_absorb)
  next
    case False
    let ?W = "W\<lparr>w_files := insert f (w_files W)\<rparr>"
    have i3: "tab ?W i = None" using i(3) by simp
    have e: "?W\<lparr>tab := T\<rparr> = W\<lparr>tab := T, w_files := insert f (w_files W)\<rparr>" for T by simp
    show ?thesis
      using exec_move[OF i(2) _ i3, of 1 ?a "FileObj f (CREAT + WRONLY)", unfolded e] False i(1) unfolding act exec_open
      by (simp del: exec.simps add: exec_open sh_open_def)
  qed
qed

lemma room_upd: "room T \<Longrightarrow> k < 2 \<Longrightarrow> room (T(k \<mapsto> x))"
proof -
  assume r: "room T" and k: "k < 2"
  then obtain i j where ij: "T 0 \<noteq> None" "T 1 \<noteq> None" "i < j" "j < 31" "T i = None" "T j = None" unfolding room_def by blast
  have "i \<noteq> 0" "i \<noteq> 1" "j \<noteq> 0" "j \<noteq> 1" using ij by metis+
  then have "i \<noteq> k" "j \<noteq> k" using k by linarith+
  then have "(T(k \<mapsto> x)) i = None" "(T(k \<mapsto> x)) j = None" "(T(k \<mapsto> x)) 0 \<noteq> None" "(T(k \<mapsto> x)) 1 \<noteq> None" using ij by simp_all
  then show ?thesis unfolding room_def using ij(3,4) by blast
qed

lemma item_step:
  assumes "room (tab W)" and "\<And>f. it = In f \<Longrightarrow> f \<in> w_files W" and "length argv < MAXARGS"
  shows "exec (abind (pcmd (Suc n) (item_toks it @ ts) argv rp) K) W =
    exec (abind (pcmd n ts (argv @ map Some (args_of [it])) rp) K) (redir_item it W)" "room (tab (redir_item it W))"
proof -
  show "room (tab (redir_item it W))" using assms(1) room_upd[OF assms(1)] by (cases it) simp_all
  show "exec (abind (pcmd (Suc n) (item_toks it @ ts) argv rp) K) W =
    exec (abind (pcmd n ts (argv @ map Some (args_of [it])) rp) K) (redir_item it W)"
  proof (cases it)
    case (Arg w)
    show ?thesis using assms(3) unfolding Arg by simp
  next
    case (In f)
    show ?thesis unfolding In item_toks.simps append.simps args_of.simps list.map append_Nil2 redir_item.simps
      by (rule item_in[OF assms(1) assms(2)[OF In]])
  next
    case (Out f)
    show ?thesis unfolding Out item_toks.simps append.simps args_of.simps list.map append_Nil2 by (rule item_out[OF assms(1)])
  qed
qed

definition readable :: "item list \<Rightarrow> world \<Rightarrow> bool" where
  "readable c W \<longleftrightarrow> (\<forall>f. In f \<in> set c \<longrightarrow> f \<in> w_files W)"

lemma redir_item_world:
  "next_pipe (redir_item it W) = next_pipe W" "w_files W \<subseteq> w_files (redir_item it W)"
  by (cases it; auto)+

lemma redir_world:
  "next_pipe (redir c W) = next_pipe W" "w_files W \<subseteq> w_files (redir c W)"
proof -
  have "next_pipe (redir c W) = next_pipe W \<and> w_files W \<subseteq> w_files (redir c W)"
    unfolding redir_def
  proof (induction c arbitrary: W)
    case (Cons it c)
    then show ?case using redir_item_world[where it = it and W = W] by (simp del: redir_item.simps) blast
  qed simp
  then show "next_pipe (redir c W) = next_pipe W" "w_files W \<subseteq> w_files (redir c W)" by simp_all
qed

lemma cmd_step:
  assumes "room (tab W)" and "readable c W" and "length argv + length (args_of c) \<le> 127"
  shows "exec (abind (pcmd (length c + n) (cmd_toks c @ ts) argv rp) K) W =
    exec (abind (pcmd n ts (argv @ map Some (args_of c)) rp) K) (redir c W)" "room (tab (redir c W))"
  using assms
proof (induction c arbitrary: argv W)
  case Nil
  { case 1 show ?case by (simp add: cmd_toks_def redir_def) next case 2 then show ?case by (simp add: redir_def) }
next
  case (Cons it c)
  have args: "args_of (it # c) = args_of [it] @ args_of c" by (cases it) simp_all
  have rd: "redir (it # c) V = redir c (redir_item it V)" for V by (simp add: redir_def)
  { case 1
    have st: "room (tab W)" "\<And>f. it = In f \<Longrightarrow> f \<in> w_files W" "length argv < MAXARGS" "readable c (redir_item it W)"
      using 1 redir_item_world(2)[of W it] by (auto simp: readable_def)
    have l: "length (argv @ map Some (args_of [it])) + length (args_of c) \<le> 127" using 1(3) args by simp
    have "exec (abind (pcmd (length (it # c) + n) (cmd_toks (it # c) @ ts) argv rp) K) W =
        exec (abind (pcmd (Suc (length c + n)) (item_toks it @ cmd_toks c @ ts) argv rp) K) W"
      by (simp only: cmd_toks_def list.map concat.simps append_assoc list.size add_Suc_right add_Suc One_nat_def add_0_right)
    also have "\<dots> = exec (abind (pcmd n ts ((argv @ map Some (args_of [it])) @ map Some (args_of c)) rp) K) (redir c (redir_item it W))"
      by (rule trans[OF item_step(1)[OF st(1-3)] Cons.IH(1)[OF item_step(2)[OF st(1-3)] st(4) l]])
    finally show ?case unfolding rd args map_append append_assoc .
  next
    case 2
    have "length argv < MAXARGS" using 2(3) by simp
    then have r: "room (tab (redir_item it W))" using 2(1,2) by (intro item_step(2)[where argv = argv]) (auto simp: readable_def)
    have "readable c (redir_item it W)" using 2(2) redir_item_world(2)[of W it] by (auto simp: readable_def)
    then show ?case unfolding rd using 2(3) args by (intro Cons.IH(2)[OF r, where argv = "argv @ map Some (args_of [it])"]) simp_all
  }
qed


text \<open>
  Calls whose effect on the process does not depend on what the processes share, and does not show in it, from one state of the process to another.
\<close>

inductive quietly :: "unit act \<Rightarrow> table \<Rightarrow> unit act \<Rightarrow> table \<Rightarrow> bool" where
  already: "quietly a T a T"
| after: "(\<And>g. do_call c (enter T g) = Some (r, enter T1 g)) \<Longrightarrow> quietly (k r) T1 a' T' \<Longrightarrow> quietly (Call c k) T a' T'"

lemma enter_fields [simp]:
  "tab (enter T g) = T" "next_pipe (enter T g) = next_pipe g" "w_files (enter T g) = w_files g" "w_vars (enter T g) = w_vars g"
  "(enter T g)\<lparr>tab := T'\<rparr> = enter T' g" "shared.truncate (enter T g) = g"
  by (simp_all add: enter_def shared.defs)

lemma enter_leave [simp]: "enter (tab w) (shared.truncate w) = w"
  by (simp add: enter_def shared.defs)

text \<open>One pipe between two commands.\<close>

lemma pipe_step:
  assumes "room (tab W)"
  obtains k T where "exec (abind (pcmd (Suc n) (Sym CHR ''|'' # ts) argv rp) K) W = (Call CFork k, W\<lparr>tab := T, next_pipe := next_pipe W + 1\<rparr>)"
    and "\<And>g. exec (k [0]) (enter T g) = exec (abind (pcmd n ts [] 0) K) (enter ((tab W)(0 \<mapsto> PipeR (next_pipe W))) g)"
    and "\<And>q. q \<noteq> 0 \<Longrightarrow> K (argv, q) = K' q \<Longrightarrow> quietly (k [q]) T (K' q) ((tab W)(1 \<mapsto> PipeW (next_pipe W)))"
proof -
  obtain i where i: "lowest (tab W) = Some i" "2 \<le> i" "tab W i = None" using lowest_room[OF assms(1)] .
  obtain j where j: "lowest ((tab W)(i \<mapsto> PipeR (next_pipe W))) = Some j" "2 \<le> j" "tab W j = None" "j \<noteq> i"
    using lowest_two[OF assms(1) i(1)] .
  let ?R = "PipeR (next_pipe W)" and ?W = "PipeW (next_pipe W)"
  let ?T = "(tab W)(i \<mapsto> ?R, j \<mapsto> ?W)"
  let ?k = "\<lambda>child. if hd child = 0 then
        Call (CDup (int i) 0) (\<lambda>_. Call (CClose (int i)) (\<lambda>_. Call (CClose (int j)) (\<lambda>_. abind (pcmd n ts [] 0) K)))
      else Call (CDup (int j) 1) (\<lambda>_. Call (CClose (int i)) (\<lambda>_. Call (CClose (int j)) (\<lambda>_. K (argv, hd child))))"
  have T: "(?T(0 \<mapsto> ?R))(i := None, j := None) = (tab W)(0 \<mapsto> ?R)" "(?T(1 \<mapsto> ?W))(i := None, j := None) = (tab W)(1 \<mapsto> ?W)"
    using i(2,3) j(2-4) by (auto simp: fun_eq_iff)
  have p: "sh_pipe W = ([0, int i, int j], W\<lparr>tab := ?T, next_pipe := next_pipe W + 1\<rparr>)" using i(1) j(1) by (simp add: sh_pipe_def)
  have "abind (pcmd (Suc n) (Sym CHR ''|'' # ts) argv rp) K =
    Call CPipe (\<lambda>p. Call CFork (\<lambda>child. if hd p < 0 then Bad else if hd child = 0 then
        Call (CDup (p ! 1) 0) (\<lambda>_. Call (CClose (p ! 1)) (\<lambda>_. Call (CClose (p ! 2)) (\<lambda>_. abind (pcmd n ts [] 0) K)))
      else Call (CDup (p ! 2) 1) (\<lambda>_. Call (CClose (p ! 1)) (\<lambda>_. Call (CClose (p ! 2)) (\<lambda>_. K (argv, hd child))))))"
    by (auto simp: fun_eq_iff)
  then have a: "exec (abind (pcmd (Suc n) (Sym CHR ''|'' # ts) argv rp) K) W = (Call CFork ?k, W\<lparr>tab := ?T, next_pipe := next_pipe W + 1\<rparr>)"
    using p by (simp cong: if_cong)
  have b: "exec (?k [0]) (enter ?T g) = exec (abind (pcmd n ts [] 0) K) (enter ((tab W)(0 \<mapsto> ?R)) g)" for g
    using T(1) j(4) by simp
  have c: "quietly (?k [q]) ?T (K' q) ((tab W)(1 \<mapsto> ?W))" if "q \<noteq> 0" "K (argv, q) = K' q" for q
  proof -
    have "quietly (Call (CClose (int j)) (\<lambda>_. K' q)) ((?T(1 \<mapsto> ?W))(i := None)) (K' q) ((tab W)(1 \<mapsto> ?W))"
      by (rule after[of "CClose (int j)" _ "[0]" "(tab W)(1 \<mapsto> ?W)", OF _ already]) (simp only: do_call.simps enter_fields T(2)[symmetric], simp)
    then have "quietly (Call (CClose (int i)) (\<lambda>_. Call (CClose (int j)) (\<lambda>_. K' q))) (?T(1 \<mapsto> ?W)) (K' q) ((tab W)(1 \<mapsto> ?W))"
      by (intro after[of "CClose (int i)" "?T(1 \<mapsto> ?W)" "[0]" "(?T(1 \<mapsto> ?W))(i := None)"]) simp_all
    then show ?thesis using that by (simp, intro after[of "CDup (int j) 1" ?T "[1]" "?T(1 \<mapsto> ?W)"]) simp_all
  qed
  show thesis by (rule that[OF a b c])
qed

lemma those_Some [simp]: "those (map Some xs) = Some xs"
  by (induction xs) simp_all

text \<open>What a process does when it has read its command: it waits for the right side, starts the program, and waits for it.\<close>

definition launch :: "string list \<Rightarrow> unit act" where
  "launch args = start_cmd (map Some args) 0"

lemma start_launch:
  assumes "args \<noteq> []" "length args \<le> 127"
  shows "q \<noteq> 0 \<Longrightarrow> start_cmd (map Some args) q = Call (CWait q) (\<lambda>_. launch args)"
    and "launch args = Call (CSpawn args) (\<lambda>child. Call CCloseAll (\<lambda>_.
      if 0 \<le> hd child then Call (CWait (hd child)) (\<lambda>_. Exit []) else Exit ''spawn''))"
  using assms by (simp_all add: start_cmd_def launch_def)

section \<open>What a pipeline means\<close>

text \<open>
  The descriptors of command \<open>i\<close> of \<open>n\<close>: those of the shell, with the input from the pipe to its left and the output to the
  pipe to its right where there is one, and then its own redirections.
\<close>

definition plumb :: "table \<Rightarrow> nat \<Rightarrow> nat \<Rightarrow> nat \<Rightarrow> table" where
  "plumb T p n i = (\<lambda>d. if d = 0 \<and> 0 < i then Some (PipeR (p + i - 1))
     else if d = 1 \<and> i + 1 < n then Some (PipeW (p + i)) else T d)"

definition as_written :: "world \<Rightarrow> item list list \<Rightarrow> (string list \<times> table) list" where
  "as_written W cs = map (\<lambda>i. (args_of (cs ! i), tab (redir (cs ! i) (W\<lparr>tab := plumb (tab W) (next_pipe W) (length cs) i\<rparr>)))) [0..<length cs]"

text \<open>A line of commands whose files exist, with the output redirected in the last command only.\<close>

definition no_out :: "item list \<Rightarrow> bool" where
  "no_out c \<longleftrightarrow> (\<forall>f. Out f \<notin> set c)"

definition runnable :: "world \<Rightarrow> item list \<Rightarrow> bool" where
  "runnable W c \<longleftrightarrow> readable c W \<and> args_of c \<noteq> [] \<and> length (args_of c) \<le> 127"

definition pipeline :: "world \<Rightarrow> item list list \<Rightarrow> bool" where
  "pipeline W cs \<longleftrightarrow> cs \<noteq> [] \<and> room (tab W) \<and> (\<forall>c \<in> set cs. runnable W c) \<and> (\<forall>c \<in> set (butlast cs). no_out c)"

definition steps_of :: "item list list \<Rightarrow> nat" where
  "steps_of cs = sum_list (map (\<lambda>c. length c + 1) cs)"

lemma redir_no_out:
  assumes "no_out c"
  shows "\<exists>x. redir c W = W\<lparr>tab := (tab W)(0 := x)\<rparr>"
  using assms unfolding redir_def
proof (induction c arbitrary: W)
  case Nil
  then show ?case by (intro exI[of _ "tab W 0"]) simp
next
  case (Cons it c)
  obtain x where x: "redir_item it W = W\<lparr>tab := (tab W)(0 := x)\<rparr>"
  proof (cases it)
    case (Arg w)
    then show thesis using that[of "tab W 0"] by simp
  next
    case (In f)
    then show thesis using that[of "Some (FileObj f RDONLY)"] by simp
  next
    case (Out f)
    then show thesis using Cons.prems by (auto simp: no_out_def)
  qed
  have "no_out c" using Cons.prems by (auto simp: no_out_def)
  then obtain y where "fold redir_item c (redir_item it W) = redir_item it W\<lparr>tab := (tab (redir_item it W))(0 := y)\<rparr>"
    using Cons.IH[of "redir_item it W"] by blast
  also have "\<dots> = W\<lparr>tab := (tab W)(0 := y)\<rparr>" unfolding x by (intro world.equality) (auto simp: fun_eq_iff)
  finally show ?case unfolding fold.simps comp_def by (rule exI)
qed

lemma redir_out_after:
  "no_out c \<Longrightarrow> redir c (W\<lparr>tab := (tab W)(1 \<mapsto> x)\<rparr>) = (redir c W)\<lparr>tab := (tab (redir c W))(1 \<mapsto> x)\<rparr>"
  unfolding redir_def
proof (induction c arbitrary: W)
  case (Cons it c)
  have "redir_item it (W\<lparr>tab := (tab W)(1 \<mapsto> x)\<rparr>) = (redir_item it W)\<lparr>tab := (tab (redir_item it W))(1 \<mapsto> x)\<rparr>"
    using Cons.prems by (cases it) (auto simp: no_out_def fun_upd_twist)
  then show ?case using Cons.IH[of "redir_item it W"] Cons.prems by (simp only: fold.simps comp_def) (auto simp only: no_out_def list.set insert_iff)
qed simp

text \<open>The world in which command \<open>k\<close> is read, and what the descriptors are when it has been.\<close>

definition at_cmd :: "world \<Rightarrow> nat \<Rightarrow> world" where
  "at_cmd W k = W\<lparr>tab := (if k = 0 then tab W else (tab W)(0 \<mapsto> PipeR (next_pipe W + k - 1))), next_pipe := next_pipe W + k\<rparr>"

lemma room_at_cmd: "room (tab W) \<Longrightarrow> room (tab (at_cmd W k))"
  by (simp add: at_cmd_def room_upd)

lemma redir_pipe_count: "redir c (W\<lparr>next_pipe := n\<rparr>) = (redir c W)\<lparr>next_pipe := n\<rparr>"
  unfolding redir_def
proof (induction c arbitrary: W)
  case (Cons it c)
  have "redir_item it (W\<lparr>next_pipe := n\<rparr>) = (redir_item it W)\<lparr>next_pipe := n\<rparr>" by (cases it) simp_all
  then show ?case using Cons.IH[of "redir_item it W"] by simp
qed simp

lemma as_written_last:
  assumes "k + 1 = length cs"
  shows "as_written W cs ! k = (args_of (cs ! k), tab (redir (cs ! k) (at_cmd W k)))"
proof -
  have p: "plumb (tab W) (next_pipe W) (length cs) k = tab (at_cmd W k)" using assms by (auto simp: plumb_def at_cmd_def fun_eq_iff)
  have "at_cmd W k = W\<lparr>tab := tab (at_cmd W k)\<rparr>\<lparr>next_pipe := next_pipe W + k\<rparr>" by (simp add: at_cmd_def)
  then have "redir (cs ! k) (at_cmd W k) = redir (cs ! k) (W\<lparr>tab := tab (at_cmd W k)\<rparr>\<lparr>next_pipe := next_pipe W + k\<rparr>)" by (rule arg_cong)
  then have "tab (redir (cs ! k) (at_cmd W k)) = tab (redir (cs ! k) (W\<lparr>tab := tab (at_cmd W k)\<rparr>))" unfolding redir_pipe_count by simp
  then show ?thesis using assms unfolding as_written_def p[symmetric] by simp
qed

lemma as_written_before:
  assumes "k + 1 < length cs" and "no_out (cs ! k)"
  shows "as_written W cs ! k = (args_of (cs ! k), (tab (redir (cs ! k) (at_cmd W k)))(1 \<mapsto> PipeW (next_pipe W + k)))"
proof -
  let ?V = "at_cmd W k" and ?x = "PipeW (next_pipe W + k)"
  have p: "plumb (tab W) (next_pipe W) (length cs) k = (tab ?V)(1 \<mapsto> ?x)" using assms(1) by (auto simp: plumb_def at_cmd_def fun_eq_iff)
  have "?V\<lparr>tab := (tab ?V)(1 \<mapsto> ?x)\<rparr> = W\<lparr>tab := (tab ?V)(1 \<mapsto> ?x)\<rparr>\<lparr>next_pipe := next_pipe W + k\<rparr>" by (simp add: at_cmd_def)
  then have "tab (redir (cs ! k) (W\<lparr>tab := (tab ?V)(1 \<mapsto> ?x)\<rparr>)) = tab (redir (cs ! k) (?V\<lparr>tab := (tab ?V)(1 \<mapsto> ?x)\<rparr>))"
    by (simp only: redir_pipe_count) simp
  also have "\<dots> = (tab (redir (cs ! k) ?V))(1 \<mapsto> ?x)" unfolding redir_out_after[OF assms(2)] by simp
  finally show ?thesis using assms(1) by (simp add: as_written_def p)
qed

lemma at_cmd_next:
  assumes "no_out c" "redir c (at_cmd W k) = V"
  shows "enter ((tab V)(0 \<mapsto> PipeR (next_pipe V))) (shared.truncate (V\<lparr>next_pipe := next_pipe V + 1\<rparr>)) = at_cmd W (Suc k)"
proof -
  obtain x where "V = (at_cmd W k)\<lparr>tab := (tab (at_cmd W k))(0 := x)\<rparr>" using redir_no_out[OF assms(1)] assms(2) by blast
  then show ?thesis by (auto simp: enter_def at_cmd_def shared.defs)
qed

section \<open>The processes of a pipeline\<close>

text \<open>What the process that reads command \<open>k\<close> has to do, when it starts reading.\<close>

definition read_from :: "nat \<Rightarrow> item list list \<Rightarrow> nat \<Rightarrow> unit act" where
  "read_from m cs k = abind (pcmd (steps_of (drop k cs) + m) (pipe_toks (drop k cs)) [] 0) (\<lambda>(argv, rp). start_cmd argv rp)"

lemma pipeline_cmd:
  assumes "pipeline W cs" "k < length cs"
  shows "readable (cs ! k) (at_cmd W k)" "args_of (cs ! k) \<noteq> []" "length (args_of (cs ! k)) \<le> 127" "room (tab (at_cmd W k))"
    "Suc k < length cs \<Longrightarrow> no_out (cs ! k)"
proof -
  have "cs ! k \<in> set (butlast cs)" if "Suc k < length cs" using that by (metis length_butlast less_diff_conv nth_butlast nth_mem Suc_eq_plus1)
  then show "readable (cs ! k) (at_cmd W k)" "args_of (cs ! k) \<noteq> []" "length (args_of (cs ! k)) \<le> 127" "room (tab (at_cmd W k))"
    "Suc k < length cs \<Longrightarrow> no_out (cs ! k)"
    using assms room_at_cmd by (auto simp: pipeline_def runnable_def readable_def at_cmd_def)
qed

lemma read_last:
  assumes "pipeline W cs" "k + 1 = length cs"
  shows "exec (read_from m cs k) (at_cmd W k) = (launch (fst (as_written W cs ! k)), redir (cs ! k) (at_cmd W k))"
    and "tab (redir (cs ! k) (at_cmd W k)) = snd (as_written W cs ! k)"
proof -
  have k: "k < length cs" using assms(2) by simp
  note c = pipeline_cmd[OF assms(1) k]
  have d: "drop k cs = [cs ! k]" using assms(2) k by (metis Cons_nth_drop_Suc Suc_eq_plus1 drop_all order_refl)
  have "exec (read_from m cs k) (at_cmd W k) = exec (start_cmd (map Some (args_of (cs ! k))) 0) (redir (cs ! k) (at_cmd W k))"
    using cmd_step(1)[OF c(4,1), of "[]" "Suc m" "[]" 0 "\<lambda>(argv, rp). start_cmd argv rp"] c(3) by (simp add: read_from_def d steps_of_def)
  also have "\<dots> = (launch (fst (as_written W cs ! k)), redir (cs ! k) (at_cmd W k))"
    using as_written_last[OF assms(2)] start_launch(2)[OF c(2,3)] by (simp add: launch_def[symmetric])
  finally show "exec (read_from m cs k) (at_cmd W k) = (launch (fst (as_written W cs ! k)), redir (cs ! k) (at_cmd W k))" .
  show "tab (redir (cs ! k) (at_cmd W k)) = snd (as_written W cs ! k)" using as_written_last[OF assms(2)] by simp
qed

lemma read_before:
  assumes "pipeline W cs" "Suc k < length cs"
  shows "\<exists>h V. exec (read_from m cs k) (at_cmd W k) = (Call CFork h, V) \<and>
    exec (h [0]) V = exec (read_from m cs (Suc k)) (at_cmd W (Suc k)) \<and>
    (\<forall>q > 0. quietly (h [q]) (tab V) (Call (CWait q) (\<lambda>_. launch (fst (as_written W cs ! k)))) (snd (as_written W cs ! k)))"
proof -
  have k: "k < length cs" "k + 1 < length cs" using assms(2) by simp_all
  note c = pipeline_cmd[OF assms(1) k(1)] and no = pipeline_cmd(5)[OF assms(1) k(1) assms(2)]
  let ?K = "\<lambda>(argv, rp). start_cmd argv rp" and ?V = "redir (cs ! k) (at_cmd W k)" and ?n = "steps_of (drop (Suc k) cs) + m"
  obtain e es where d': "drop (Suc k) cs = e # es" using assms(2) by (metis Cons_nth_drop_Suc)
  have d: "drop k cs = cs ! k # e # es" using k(1) d' by (metis Cons_nth_drop_Suc)
  have rm: "room (tab ?V)" using cmd_step(2)[OF c(4,1), of "[]"] c(3) by simp
  have n: "next_pipe ?V = next_pipe W + k" by (simp add: redir_world at_cmd_def)
  have run: "exec (read_from m cs k) (at_cmd W k) = exec (abind (pcmd (Suc ?n) (Sym CHR ''|'' # pipe_toks (drop (Suc k) cs)) (map Some (args_of (cs ! k))) 0) ?K) ?V"
    using cmd_step(1)[OF c(4,1), of "[]" "Suc ?n" "Sym CHR ''|'' # pipe_toks (drop (Suc k) cs)" 0 ?K] c(3)
    by (simp add: read_from_def d d' steps_of_def add.assoc del: pcmd.simps)
  obtain h T where h: "exec (read_from m cs k) (at_cmd W k) = (Call CFork h, ?V\<lparr>tab := T, next_pipe := next_pipe ?V + 1\<rparr>)"
    "\<And>g. exec (h [0]) (enter T g) = exec (abind (pcmd ?n (pipe_toks (drop (Suc k) cs)) [] 0) ?K) (enter ((tab ?V)(0 \<mapsto> PipeR (next_pipe ?V))) g)"
    "\<And>q. q \<noteq> 0 \<Longrightarrow> ?K (map Some (args_of (cs ! k)), q) = Call (CWait q) (\<lambda>_. launch (args_of (cs ! k))) \<Longrightarrow>
      quietly (h [q]) T (Call (CWait q) (\<lambda>_. launch (args_of (cs ! k)))) ((tab ?V)(1 \<mapsto> PipeW (next_pipe ?V)))"
    using pipe_step[OF rm, of ?n "pipe_toks (drop (Suc k) cs)" "map Some (args_of (cs ! k))" 0 ?K "\<lambda>q. Call (CWait q) (\<lambda>_. launch (args_of (cs ! k)))"]
    unfolding run by metis
  have V: "?V\<lparr>tab := T, next_pipe := next_pipe ?V + 1\<rparr> = enter T (shared.truncate (?V\<lparr>next_pipe := next_pipe ?V + 1\<rparr>))"
    by (simp add: enter_def shared.defs)
  show ?thesis
  proof (intro exI conjI allI impI, rule h(1))
    show "exec (h [0]) (?V\<lparr>tab := T, next_pipe := next_pipe ?V + 1\<rparr>) = exec (read_from m cs (Suc k)) (at_cmd W (Suc k))"
      unfolding V h(2) at_cmd_next[OF no refl] read_from_def ..
    show "quietly (h [q]) (tab (?V\<lparr>tab := T, next_pipe := next_pipe ?V + 1\<rparr>)) (Call (CWait q) (\<lambda>_. launch (fst (as_written W cs ! k)))) (snd (as_written W cs ! k))"
      if "0 < q" for q
      using h(3)[of q] that start_launch(1)[OF c(2,3)] as_written_before[OF k(2) no] unfolding n by simp
  qed
qed

text \<open>
  Where a line stands: command \<open>k\<close> is being read, its program is about to be started, it is waited for, or the process
  of command \<open>k\<close> has ended.  The processes \<open>es\<close> of the commands before it are on the way to wait for their right neighbours.
\<close>

datatype front = Reading | Launching | Awaiting | Gone

definition shell_of :: "system \<Rightarrow> int \<Rightarrow> unit act \<Rightarrow> table \<Rightarrow> bool" where
  "shell_of Y e b T' \<longleftrightarrow> (\<exists>a T. procs Y e = Some (Sh a T) \<and> quietly a T b T')"

definition left_waits :: "(string list \<times> table) list \<Rightarrow> system \<Rightarrow> int list \<Rightarrow> nat \<Rightarrow> bool" where
  "left_waits aw Y es k \<longleftrightarrow> (\<forall>i < k. shell_of Y (es ! i) (Call (CWait (es ! Suc i)) (\<lambda>_. launch (fst (aw ! i)))) (snd (aw ! i)))"

definition awaits :: "system \<Rightarrow> int \<Rightarrow> int \<Rightarrow> bool" where
  "awaits Y e q \<longleftrightarrow> shell_of Y e (Call (CWait q) (\<lambda>_. Exit [])) (\<lambda>_. None) \<or> procs Y q = None \<and> (\<exists>m. shell_of Y e (Exit m) (\<lambda>_. None))"

definition stands :: "world \<Rightarrow> item list list \<Rightarrow> nat \<Rightarrow> front \<Rightarrow> nat \<Rightarrow> int list \<Rightarrow> system \<Rightarrow> bool" where
  "stands W cs m ph k es Y \<longleftrightarrow>
     length es = Suc k \<and> k < length cs \<and> distinct es \<and> set es \<subseteq> used Y \<and> (\<forall>e \<in> set es. 0 < e) \<and> left_waits (as_written W cs) Y es k \<and>
     (case ph of
        Reading \<Rightarrow> dom (procs Y) = set es \<and> spawned Y = [] \<and> finite (used Y) \<and> length cs \<le> slots Y + Suc k \<and>
          (\<exists>a T. procs Y (es ! k) = Some (Sh a T) \<and> exec a (enter T (glob Y)) = exec (read_from m cs k) (at_cmd W k))
      | Launching \<Rightarrow> dom (procs Y) = set es \<and> spawned Y = rev (drop (Suc k) (as_written W cs)) \<and>
          procs Y (es ! k) = Some (Sh (launch (fst (as_written W cs ! k))) (snd (as_written W cs ! k)))
      | Awaiting \<Rightarrow> spawned Y = rev (drop k (as_written W cs)) \<and>
          (\<exists>q. dom (procs Y) \<union> {q} = set es \<union> {q} \<and> q \<notin> set es \<and> procs Y q \<in> {None, Some Prog} \<and> awaits Y (es ! k) q)
      | Gone \<Rightarrow> dom (procs Y) = set (take k es) \<and> spawned Y = rev (drop k (as_written W cs)))"

lemma shell_of_cong: "procs Z e = procs Y e \<Longrightarrow> shell_of Y e b T \<Longrightarrow> shell_of Z e b T"
  by (simp add: shell_of_def)

lemma left_waits_cong: "(\<And>i. i < k \<Longrightarrow> procs Z (es ! i) = procs Y (es ! i)) \<Longrightarrow> left_waits aw Y es k \<Longrightarrow> left_waits aw Z es k"
  by (simp add: left_waits_def shell_of_def)

text \<open>A process under way does its next call; one that has arrived is at its goal.\<close>

definition far :: "unit act \<Rightarrow> bool" where
  "far b \<longleftrightarrow> (case b of Call (CWait q) k \<Rightarrow> True | Exit m \<Rightarrow> True | _ \<Rightarrow> False)"

lemma quiet_step:
  assumes "sh_step e Y Z" "procs Y e = Some (Sh a T)" "quietly a T b T'" "a \<noteq> b \<or> T \<noteq> T'"
  shows "\<exists>a1 T1. Z = Y\<lparr>procs := (procs Y)(e \<mapsto> Sh a1 T1)\<rparr> \<and> quietly a1 T1 b T'"
  using assms(3)
proof cases
  case already
  then show ?thesis using assms(4) by simp
next
  case (after c r T1 k)
  note d = after(2)[of "glob Y"]
  from assms(1) show ?thesis
  proof cases
    case (alone c' k' T'' r' w)
    then have "c' = c" "k' = k" "r' = r" "w = enter T1 (glob Y)" using assms(2) after(1) d by auto
    then have "Z = Y\<lparr>procs := (procs Y)(e \<mapsto> Sh (k r) T1)\<rparr>" using alone(1) by simp
    then show ?thesis using after(3) by blast
  qed (use assms(2) after(1) d in auto)
qed

lemma shell_step:
  assumes "sh_step e Y Z" "shell_of Y e b T'"
  shows "procs Y e = Some (Sh b T') \<or> (\<exists>p. Z = Y\<lparr>procs := (procs Y)(e \<mapsto> p)\<rparr>) \<and> shell_of Z e b T'"
proof -
  obtain a T where p: "procs Y e = Some (Sh a T)" "quietly a T b T'" using assms(2) unfolding shell_of_def by blast
  show ?thesis
  proof (cases "a = b \<and> T = T'")
    case False
    then obtain a1 T1 where z: "Z = Y\<lparr>procs := (procs Y)(e \<mapsto> Sh a1 T1)\<rparr>" "quietly a1 T1 b T'" using quiet_step[OF assms(1) p] by blast
    then have "shell_of Z e b T'" unfolding shell_of_def by auto
    then show ?thesis using z(1) by blast
  qed (use p in simp)
qed

text \<open>Steps of the process of an earlier command.\<close>

lemma stands_left:
  assumes "stands W cs m ph k es Y" "i < k" "sh_step (es ! i) Y Z"
    and blocked: "procs Y (es ! i) \<noteq> Some (Sh (Call (CWait (es ! Suc i)) (\<lambda>_. launch (fst (as_written W cs ! i)))) (snd (as_written W cs ! i)))"
  shows "stands W cs m ph k es Z"
proof -
  let ?b = "Call (CWait (es ! Suc i)) (\<lambda>_. launch (fst (as_written W cs ! i)))"
  have l: "shell_of Y (es ! i) ?b (snd (as_written W cs ! i))" using assms(1,2) by (simp add: stands_def left_waits_def)
  then obtain p where Z: "Z = Y\<lparr>procs := (procs Y)(es ! i \<mapsto> p)\<rparr>" "shell_of Z (es ! i) ?b (snd (as_written W cs ! i))"
    using shell_step[OF assms(3) l] blocked by blast
  have d: "dom (procs Z) = dom (procs Y)" using l unfolding Z shell_of_def by auto
  have ne: "es ! j \<noteq> es ! i" if "j \<le> k" "j \<noteq> i" for j using assms(1,2) that by (simp add: stands_def nth_eq_iff_index_eq)
  then have keep: "procs Z (es ! j) = procs Y (es ! j)" if "j \<le> k" "j \<noteq> i" for j using that by (simp add: Z(1))
  have "left_waits (as_written W cs) Z es k" unfolding left_waits_def
  proof (intro allI impI)
    fix j assume j: "j < k"
    show "shell_of Z (es ! j) (Call (CWait (es ! Suc j)) (\<lambda>_. launch (fst (as_written W cs ! j)))) (snd (as_written W cs ! j))"
      using Z(2) shell_of_cong[OF keep[of j]] j assms(1) by (cases "j = i") (auto simp: stands_def left_waits_def)
  qed
  moreover have "procs Z q = procs Y q" if "q \<notin> set es" for q using that assms(1,2) by (auto simp: Z(1) stands_def)
  moreover have "awaits Z (es ! k) q = awaits Y (es ! k) q" if "q \<notin> set es" for q
    using keep[of k] assms(1,2) that by (auto simp: awaits_def shell_of_def Z(1) stands_def)
  moreover have "glob Z = glob Y" "slots Z = slots Y" "used Z = used Y" "spawned Z = spawned Y" by (simp_all add: Z(1))
  moreover have "procs Z (es ! k) = procs Y (es ! k)" using keep[of k] assms(2) by simp
  ultimately show ?thesis using assms(1) d unfolding stands_def by (cases ph) (simp_all, metis)
qed

lemma standsD:
  assumes "stands W cs m ph k es Y"
  shows "length es = Suc k" "k < length cs" "distinct es" "set es \<subseteq> used Y" "\<forall>e \<in> set es. 0 < e" "left_waits (as_written W cs) Y es k"
    "es ! k \<in> set es" "i < k \<Longrightarrow> es ! i \<noteq> es ! k" "i < k \<Longrightarrow> es ! i \<in> set es"
  using assms by (auto simp: stands_def nth_eq_iff_index_eq)

lemma fresh_front:
  assumes "stands W cs m ph k es Y" "\<And>e. e \<in> set (take k es) \<Longrightarrow> procs Z e = procs Y e"
  shows "left_waits (as_written W cs) Z es k"
proof (rule left_waits_cong[OF _ standsD(6)[OF assms(1)]])
  fix i assume i: "i < k"
  then have "take k es ! i \<in> set (take k es)" using standsD(1)[OF assms(1)] by (intro nth_mem) simp
  then show "procs Z (es ! i) = procs Y (es ! i)" using assms(2)[of "es ! i"] i by simp
qed

text \<open>The steps of the process in front.\<close>

lemma front_forks:
  assumes s: "stands W cs m Reading k es Y" and pl: "pipeline W cs" and k: "Suc k < length cs"
    and p: "procs Y (es ! k) = Some (Sh (Call CFork h) T)" and q: "0 < q" "q \<notin> used Y"
    and Z: "Z = Y\<lparr>procs := (procs Y)(q \<mapsto> Sh (h [0]) T, es ! k \<mapsto> Sh (h [q]) T), slots := slots Y - 1, used := insert q (used Y)\<rparr>"
  shows "stands W cs m Reading (Suc k) (es @ [q]) Z"
proof -
  note D = standsD[OF s]
  have ne: "e \<noteq> es ! k" if "e \<in> set (take k es)" for e using that D(1,8) by (auto simp: in_set_conv_nth)
  obtain h' V where h: "exec (read_from m cs k) (at_cmd W k) = (Call CFork h', V)" "exec (h' [0]) V = exec (read_from m cs (Suc k)) (at_cmd W (Suc k))"
    "\<And>q. 0 < q \<Longrightarrow> quietly (h' [q]) (tab V) (Call (CWait q) (\<lambda>_. launch (fst (as_written W cs ! k)))) (snd (as_written W cs ! k))"
    using read_before[OF pl k, of m] by blast
  have "exec (Call CFork h) (enter T (glob Y)) = exec (read_from m cs k) (at_cmd W k)" using s p by (simp add: stands_def)
  then have a: "h' = h" "V = enter T (glob Y)" using h(1) by simp_all
  have qn: "q \<notin> set es" using D(4) q(2) by auto
  have "left_waits (as_written W cs) Z es k" using ne qn by (intro fresh_front[OF s]) (auto simp: Z dest: in_set_takeD)
  moreover have "shell_of Z (es ! k) (Call (CWait q) (\<lambda>_. launch (fst (as_written W cs ! k)))) (snd (as_written W cs ! k))"
    using h(3)[OF q(1)] by (simp add: Z shell_of_def a)
  ultimately have "left_waits (as_written W cs) Z (es @ [q]) (Suc k)" using D(1) by (auto simp: left_waits_def nth_append less_Suc_eq)
  moreover have "(es @ [q]) ! Suc k = q" using D(1) by (simp add: nth_append)
  moreover have "procs Z q = Some (Sh (h [0]) T)" using qn D(7) by (auto simp: Z)
  moreover have "exec (h [0]) (enter T (glob Z)) = exec (read_from m cs (Suc k)) (at_cmd W (Suc k))" using h(2) by (simp add: a Z)
  ultimately show ?thesis using s k q(1) qn D(7) by (auto simp: stands_def Z)
qed

lemma front_reads:
  assumes s: "stands W cs m Reading k es Y" and st: "sh_step (es ! k) Y Z" and pl: "pipeline W cs"
  shows "stands W cs m Reading k es Z \<or> (\<exists>q. stands W cs m Reading (Suc k) (es @ [q]) Z) \<or> stands W cs m Launching k es Y"
proof -
  note D = standsD[OF s]
  obtain a T where p: "procs Y (es ! k) = Some (Sh a T)" "exec a (enter T (glob Y)) = exec (read_from m cs k) (at_cmd W k)"
    using s by (auto simp: stands_def)
  have ne: "e \<noteq> es ! k" if "e \<in> set (take k es)" for e using that D(1,8) by (auto simp: in_set_conv_nth)
  have "(\<exists>c h r w. a = Call c h \<and> do_call c (enter T (glob Y)) = Some (r, w)) \<or> exec a (enter T (glob Y)) = (a, enter T (glob Y))"
  proof (cases a)
    case (Call c h)
    then show ?thesis by (cases "do_call c (enter T (glob Y))") auto
  qed simp_all
  then consider (more) c h r w where "a = Call c h" "do_call c (enter T (glob Y)) = Some (r, w)"
    | (arrived) "exec a (enter T (glob Y)) = (a, enter T (glob Y))" by blast
  then show ?thesis
  proof cases
    case more
    from st have "Z = Y\<lparr>procs := (procs Y)(es ! k \<mapsto> Sh (h r) (tab w)), glob := shared.truncate w\<rparr>"
      by cases (use p(1) more in auto)
    moreover have "exec (h r) w = exec (read_from m cs k) (at_cmd W k)" using p(2) more by simp
    moreover have "left_waits (as_written W cs) Z es k" using ne by (intro fresh_front[OF s]) (auto simp: calculation(1))
    ultimately show ?thesis using s p(1) D(7) by (auto simp: stands_def)
  next
    case arrived
    show ?thesis
    proof (cases "Suc k < length cs")
      case True
      obtain h V where h: "exec (read_from m cs k) (at_cmd W k) = (Call CFork h, V)" using read_before[OF pl True, of m] by blast
      have a: "procs Y (es ! k) = Some (Sh (Call CFork h) T)" using p(1) arrived p(2) h by simp
      have sl: "0 < slots Y" using s True by (auto simp: stands_def)
      from st obtain q where q: "0 < q" "q \<notin> used Y"
        "Z = Y\<lparr>procs := (procs Y)(q \<mapsto> Sh (h [0]) T, es ! k \<mapsto> Sh (h [q]) T), slots := slots Y - 1, used := insert q (used Y)\<rparr>"
        by cases (use a sl in auto)
      have "stands W cs m Reading (Suc k) (es @ [q]) Z" by (rule front_forks[OF s pl True a q])
      then show ?thesis by blast
    next
      case False
      then have k: "k + 1 = length cs" using D(2) by simp
      have "(a, enter T (glob Y)) = (launch (fst (as_written W cs ! k)), redir (cs ! k) (at_cmd W k))"
        using arrived p(2) read_last(1)[OF pl k, of m] by simp
      then have "a = launch (fst (as_written W cs ! k))" "T = snd (as_written W cs ! k)"
        using read_last(2)[OF pl k] by (simp, metis enter_fields(1) snd_conv)
      then have "stands W cs m Launching k es Y" using s p(1) k by (simp add: stands_def as_written_def)
      then show ?thesis by blast
    qed
  qed
qed

lemma rev_drop_Suc: "k < length aw \<Longrightarrow> rev (drop (Suc k) aw) @ [aw ! k] = rev (drop k aw)"
  by (simp flip: Cons_nth_drop_Suc)

lemma length_as_written [simp]: "length (as_written W cs) = length cs"
  by (simp add: as_written_def)

lemma closes: "quietly (Call CCloseAll (\<lambda>_. b)) T b (\<lambda>_. None)"
  by (rule after[of CCloseAll T "[0]" "\<lambda>_. None", OF _ already]) simp

lemma launch_runnable:
  assumes "pipeline W cs" "k < length cs"
  shows "launch (fst (as_written W cs ! k)) = Call (CSpawn (fst (as_written W cs ! k))) (\<lambda>child. Call CCloseAll (\<lambda>_.
      if 0 \<le> hd child then Call (CWait (hd child)) (\<lambda>_. Exit []) else Exit ''spawn''))"
  using start_launch(2)[OF pipeline_cmd(2,3)[OF assms]] assms(2) by (simp add: as_written_def)

lemma front_launches:
  assumes s: "stands W cs m Launching k es Y" and st: "sh_step (es ! k) Y Z" and pl: "pipeline W cs"
  shows "stands W cs m Awaiting k es Z"
proof -
  note D = standsD[OF s]
  let ?a = "as_written W cs ! k"
  have p: "procs Y (es ! k) = Some (Sh (launch (fst ?a)) (snd ?a))" "dom (procs Y) = set es" "spawned Y = rev (drop (Suc k) (as_written W cs))"
    using s by (simp_all add: stands_def)
  note l = launch_runnable[OF pl D(2)]
  have sp: "spawned Y @ [?a] = rev (drop k (as_written W cs))" using rev_drop_Suc[of k "as_written W cs"] D(2) p(3) by simp
  have ne: "e \<noteq> es ! k" if "e \<in> set (take k es)" for e using that D(1,8) by (auto simp: in_set_conv_nth)
  have n0: "0 \<notin> set es" using D(5) by auto
  from st show ?thesis
  proof cases
    case (spawn args h T q)
    have e: "args = fst ?a" "T = snd ?a" "h [q] = Call CCloseAll (\<lambda>_. Call (CWait q) (\<lambda>_. Exit []))" using spawn(2,4) p(1) l by auto
    have qn: "q \<notin> set es" using D(4) spawn(5) by auto
    have "left_waits (as_written W cs) Z es k" using ne qn by (intro fresh_front[OF s]) (auto simp: spawn(1) dest: in_set_takeD)
    moreover have "awaits Z (es ! k) q" using closes[of "Call (CWait q) (\<lambda>_. Exit [])" T] by (simp add: awaits_def shell_of_def spawn(1) e(3))
    moreover have "procs Z q = Some Prog" "dom (procs Z) \<union> {q} = set es \<union> {q}" using qn D(7) p(2) by (auto simp: spawn(1))
    moreover have "spawned Z = rev (drop k (as_written W cs))" using sp by (simp add: spawn(1) e)
    moreover have "set es \<subseteq> used Z" using D(4) by (auto simp: spawn(1))
    ultimately show ?thesis using D qn unfolding stands_def by auto
  next
    case (spawn_fails args h T r)
    have e: "args = fst ?a" "T = snd ?a" "h [r] = Call CCloseAll (\<lambda>_. Exit ''spawn'')" using spawn_fails(2,3) p(1) l by auto
    have "left_waits (as_written W cs) Z es k" using ne by (intro fresh_front[OF s]) (auto simp: spawn_fails(1))
    moreover have "awaits Z (es ! k) 0"
      using closes[of "Exit ''spawn''" T] D(7) n0 p(2) by (auto simp: awaits_def shell_of_def spawn_fails(1) e(3))
    moreover have "procs Z 0 = None" "dom (procs Z) \<union> {0} = set es \<union> {0}" using n0 D(7) p(2) by (auto simp: spawn_fails(1))
    moreover have "spawned Z = rev (drop k (as_written W cs))" using sp by (simp add: spawn_fails(1) e)
    moreover have "set es \<subseteq> used Z" using D(4) by (auto simp: spawn_fails(1))
    ultimately show ?thesis using D n0 unfolding stands_def by auto
  qed (use p(1) l in auto)
qed

lemma front_awaits:
  assumes s: "stands W cs m Awaiting k es Y" and st: "sh_step (es ! k) Y Z"
  shows "stands W cs m Awaiting k es Z \<or> stands W cs m Gone k es Z"
proof -
  note D = standsD[OF s]
  obtain q where q: "dom (procs Y) \<union> {q} = set es \<union> {q}" "q \<notin> set es" "procs Y q \<in> {None, Some Prog}" "awaits Y (es ! k) q"
    and sp: "spawned Y = rev (drop k (as_written W cs))" using s by (auto simp: stands_def)
  have ne: "e \<noteq> es ! k" if "e \<in> set (take k es)" for e using that D(1,8) by (auto simp: in_set_conv_nth)
  have kq: "es ! k \<noteq> q" using D(7) q(2) by auto
  have still: "stands W cs m Awaiting k es Z" if Z: "Z = Y\<lparr>procs := (procs Y)(es ! k \<mapsto> p)\<rparr>" and a: "awaits Z (es ! k) q" for p
  proof -
    have "left_waits (as_written W cs) Z es k" using ne by (intro fresh_front[OF s]) (auto simp: Z)
    moreover have "dom (procs Z) \<union> {q} = set es \<union> {q}" using q(1) D(7) by (auto simp: Z)
    moreover have "procs Z q \<in> {None, Some Prog}" "used Z = used Y" "spawned Z = spawned Y" using q(3) kq by (auto simp: Z)
    ultimately show ?thesis using D q(2) a sp unfolding stands_def by auto
  qed
  show ?thesis
  proof (cases "shell_of Y (es ! k) (Call (CWait q) (\<lambda>_. Exit [])) (\<lambda>_. None)")
    case True
    from shell_step[OF st True] show ?thesis
    proof
      assume p: "procs Y (es ! k) = Some (Sh (Call (CWait q) (\<lambda>_. Exit [])) (\<lambda>_. None))"
      from st have "wait_over Y q \<and> Z = Y\<lparr>procs := (procs Y)(es ! k \<mapsto> Sh (Exit []) (\<lambda>_. None))\<rparr>"
        by cases (use p in auto)
      then have z: "procs Y q = None" "Z = Y\<lparr>procs := (procs Y)(es ! k \<mapsto> Sh (Exit []) (\<lambda>_. None))\<rparr>" by (simp_all add: wait_over_def)
      have "awaits Z (es ! k) q" using z(1) kq already by (auto simp: awaits_def shell_of_def z(2))
      then show ?thesis using still[OF z(2)] by blast
    next
      assume "(\<exists>p. Z = Y\<lparr>procs := (procs Y)(es ! k \<mapsto> p)\<rparr>) \<and> shell_of Z (es ! k) (Call (CWait q) (\<lambda>_. Exit [])) (\<lambda>_. None)"
      then show ?thesis using still by (auto simp: awaits_def)
    qed
  next
    case False
    then obtain msg where e: "shell_of Y (es ! k) (Exit msg) (\<lambda>_. None)" "procs Y q = None" using q(4) by (auto simp: awaits_def)
    from shell_step[OF st e(1)] show ?thesis
    proof
      assume p: "procs Y (es ! k) = Some (Sh (Exit msg) (\<lambda>_. None))"
      from st have Z: "Z = Y\<lparr>procs := (procs Y)(es ! k := None), slots := slots Y + 1\<rparr>" by cases (use p in auto)
      have "q \<notin> dom (procs Y)" using e(2) by (simp add: domIff)
      then have "dom (procs Y) = set es" using q(1,2) by blast
      moreover have "set es = insert (es ! k) (set (take k es))" using D(1) by (metis Un_insert_right append_Nil2 list.simps(15) set_append sup_bot_right take_Suc_conv_app_nth lessI take_all order_refl list.set(1))
      ultimately have "dom (procs Z) = set (take k es)" using ne by (auto simp: Z)
      moreover have "left_waits (as_written W cs) Z es k" using ne by (intro fresh_front[OF s]) (auto simp: Z)
      ultimately have "stands W cs m Gone k es Z" using D sp unfolding stands_def by (auto simp: Z)
      then show ?thesis by blast
    next
      assume z: "(\<exists>p. Z = Y\<lparr>procs := (procs Y)(es ! k \<mapsto> p)\<rparr>) \<and> shell_of Z (es ! k) (Exit msg) (\<lambda>_. None)"
      then obtain p where p: "Z = Y\<lparr>procs := (procs Y)(es ! k \<mapsto> p)\<rparr>" by blast
      have "awaits Z (es ! k) q" using e(2) kq z by (auto simp: awaits_def p)
      then show ?thesis using still[OF p] by blast
    qed
  qed
qed

text \<open>Every step.\<close>

lemma stands_shell:
  assumes s: "stands W cs m ph k es Y" and e: "e \<in> dom (procs Y)"
  shows "(\<exists>i < k. e = es ! i) \<or> e = es ! k \<and> ph \<noteq> Gone \<or> ph = Awaiting \<and> procs Y e = Some Prog"
proof -
  note D = standsD[OF s]
  have es: "set es = insert (es ! k) (set (take k es))"
    using D(1) by (metis Un_insert_right append_Nil2 list.simps(15) set_append sup_bot_right take_Suc_conv_app_nth lessI take_all order_refl list.set(1))
  have i: "\<exists>i < k. x = es ! i" if "x \<in> set (take k es)" for x using that D(1) by (auto simp: in_set_conv_nth)
  show ?thesis
  proof (cases "e \<in> set es")
    case True
    then show ?thesis using s e es i by (cases ph) (auto simp: stands_def)
  next
    case False
    then have "ph = Awaiting" using s e es by (cases ph) (auto simp: stands_def)
    moreover obtain q where "dom (procs Y) \<union> {q} = set es \<union> {q}" "procs Y q \<in> {None, Some Prog}"
      using s calculation by (auto simp: stands_def)
    moreover have "e = q" using calculation(2) e False by blast
    ultimately show ?thesis using e by (auto simp: domIff)
  qed
qed

lemma left_alive:
  assumes "stands W cs m ph k es Y" "j < k \<or> j = k \<and> ph \<noteq> Gone"
  shows "procs Y (es ! j) \<noteq> None"
  using assms standsD[OF assms(1)] by (cases ph) (auto simp: stands_def left_waits_def awaits_def shell_of_def)

lemma left_not_Prog:
  assumes "stands W cs m ph k es Y" "i < k" shows "procs Y (es ! i) \<noteq> Some Prog"
  using standsD(6)[OF assms(1)] assms(2) by (auto simp: left_waits_def shell_of_def)

lemma stands_left_step:
  assumes s: "stands W cs m ph k es Y" and i: "i < k" and st: "sh_step (es ! i) Y Z"
  shows "stands W cs m ph k es Z \<or> ph = Gone \<and> Suc i = k \<and> stands W cs m Launching i (take k es) Z"
proof (cases "procs Y (es ! i) = Some (Sh (Call (CWait (es ! Suc i)) (\<lambda>_. launch (fst (as_written W cs ! i)))) (snd (as_written W cs ! i)))")
  case True
  note D = standsD[OF s]
  from st have "wait_over Y (es ! Suc i) \<and> Z = Y\<lparr>procs := (procs Y)(es ! i \<mapsto> Sh (launch (fst (as_written W cs ! i))) (snd (as_written W cs ! i)))\<rparr>"
    by cases (use True in auto)
  then have w: "procs Y (es ! Suc i) = None" and Z: "Z = Y\<lparr>procs := (procs Y)(es ! i \<mapsto> Sh (launch (fst (as_written W cs ! i))) (snd (as_written W cs ! i)))\<rparr>"
    by (simp_all add: wait_over_def)
  have "\<not> (Suc i < k \<or> Suc i = k \<and> ph \<noteq> Gone)" using w left_alive[OF s, of "Suc i"] by blast
  then have k: "Suc i = k" "ph = Gone" using i by linarith+
  have g: "dom (procs Y) = set (take k es)" "spawned Y = rev (drop k (as_written W cs))" using s k(2) by (simp_all add: stands_def)
  have t: "take k es ! j = es ! j" if "j \<le> i" for j using that k(1) by simp
  have "left_waits (as_written W cs) Z (take k es) i" unfolding left_waits_def
  proof (intro allI impI)
    fix j assume j: "j < i"
    then have "shell_of Y (es ! j) (Call (CWait (es ! Suc j)) (\<lambda>_. launch (fst (as_written W cs ! j)))) (snd (as_written W cs ! j))"
      using D(6) i by (simp add: left_waits_def)
    moreover have "es ! j \<noteq> es ! i" using j i D(1,3) by (simp add: nth_eq_iff_index_eq)
    ultimately show "shell_of Z (take k es ! j) (Call (CWait (take k es ! Suc j)) (\<lambda>_. launch (fst (as_written W cs ! j)))) (snd (as_written W cs ! j))"
      using t[of j] t[of "Suc j"] j by (simp add: shell_of_def Z)
  qed
  moreover have "es ! i \<in> set (take k es)" using t[of i] i D(1) by (metis length_take less_imp_le_nat min.absorb2 lessI less_SucI nth_mem order_refl)
  ultimately have "stands W cs m Launching i (take k es) Z"
    using D i k(1) g t[of i] by (auto simp: stands_def Z dest: in_set_takeD)
  then show ?thesis using k by blast
next
  case False
  then show ?thesis using stands_left[OF s i st] by blast
qed

lemma stands_prog_step:
  assumes s: "stands W cs m ph k es Y" and st: "prog_step e Y Z"
  shows "ph = Awaiting \<and> stands W cs m ph k es Z"
proof -
  note D = standsD[OF s]
  have p: "procs Y e = Some Prog" using st by cases auto
  then have "ph = Awaiting \<or> e = es ! k \<and> ph \<noteq> Gone" using stands_shell[OF s, of e] left_not_Prog[OF s] by (auto simp: domIff)
  then have ph: "ph = Awaiting" using s p by (cases ph) (auto simp: stands_def)
  obtain q where q: "dom (procs Y) \<union> {q} = set es \<union> {q}" "q \<notin> set es" "procs Y q \<in> {None, Some Prog}" "awaits Y (es ! k) q"
    and sp: "spawned Y = rev (drop k (as_written W cs))" using s ph by (auto simp: stands_def)
  have "e \<noteq> es ! k" using q(4) p by (auto simp: awaits_def shell_of_def)
  then have nes: "e \<notin> set es" using p left_not_Prog[OF s] D(1) by (auto simp: in_set_conv_nth less_Suc_eq)
  then have eq: "e = q" using q(1) p by auto
  from st have "stands W cs m ph k es Z"
  proof cases
    case (runs U F V n)
    have "left_waits (as_written W cs) Z es k" by (rule fresh_front[OF s]) (simp add: runs(1))
    moreover have "awaits Z (es ! k) q" using q(4) by (simp add: awaits_def shell_of_def runs(1))
    ultimately show ?thesis using D q(1-3) sp runs(3) unfolding stands_def ph by (auto simp: runs(1))
  next
    case returns
    have "left_waits (as_written W cs) Z es k" using nes by (intro fresh_front[OF s]) (auto simp: returns(1) dest: in_set_takeD)
    moreover have "awaits Z (es ! k) q" using q(4) \<open>e \<noteq> es ! k\<close> eq by (auto simp: awaits_def shell_of_def returns(1))
    moreover have "dom (procs Z) \<union> {q} = set es \<union> {q}" "procs Z q = None" using q(1) eq by (auto simp: returns(1))
    moreover have "used Z = used Y" "spawned Z = spawned Y" by (simp_all add: returns(1))
    ultimately show ?thesis using D q(2) sp unfolding stands_def ph by auto
  qed
  then show ?thesis using ph by blast
qed

lemma stands_step:
  assumes s: "stands W cs m ph k es Y" and pl: "pipeline W cs" and st: "sh_step e Y Z \<or> prog_step e Y Z"
  shows "\<exists>ph k es. stands W cs m ph k es Z"
proof (cases "prog_step e Y Z")
  case True
  then show ?thesis using stands_prog_step[OF s] by blast
next
  case False
  then have sh: "sh_step e Y Z" using st by blast
  have "procs Y e \<noteq> None \<and> procs Y e \<noteq> Some Prog" using sh by cases auto
  then consider i where "i < k" "e = es ! i" | "e = es ! k" "ph \<noteq> Gone" using stands_shell[OF s, of e] by (auto simp: domIff)
  then show ?thesis
  proof cases
    case 1
    then show ?thesis using stands_left_step[OF s] sh by blast
  next
    case 2
    then show ?thesis
    proof (cases ph)
      case Reading
      have r: "stands W cs m Reading k es Y" and sh': "sh_step (es ! k) Y Z" using s sh 2 Reading by simp_all
      show ?thesis using front_reads[OF r sh' pl] front_launches[OF _ sh' pl] by blast
    next
      case Launching
      then show ?thesis using front_launches[OF _ _ pl] s sh 2 by blast
    next
      case Awaiting
      then show ?thesis using front_awaits s sh 2 by blast
    qed simp
  qed
qed

lemma reach_stands:
  assumes "line_steps Y Z" "stands W cs m ph k es Y" "pipeline W cs"
  shows "\<exists>ph k es. stands W cs m ph k es Z"
  using assms
proof (induction rule: rtranclp_induct)
  case (step Y' Z)
  then show ?case using stands_step by meson
qed blast

section \<open>A line can always be finished\<close>

















section \<open>A pipeline runs as it is written\<close>


lemma far_simps [simp]: "far (Call (CWait q) k)" "far (Exit m)"
  by (simp_all add: far_def)



lemma far_alone: "quietly (Call c h) T b T' \<Longrightarrow> far b \<Longrightarrow> c \<noteq> CFork \<and> c \<noteq> CSpawn args"
  by (erule quietly.cases) (auto simp: far_def split: call.splits)

lemma program_shells:
  assumes s: "stands W cs m ph k es Y" and p: "procs Y e = Some Prog"
  shows "ph = Awaiting" "procs Y e' = Some Prog \<Longrightarrow> e' = e"
    "procs Y e' = Some (Sh a T) \<Longrightarrow> \<exists>b T'. quietly a T b T' \<and> far b"
proof -
  note D = standsD[OF s]
  show ph: "ph = Awaiting" using stands_shell[OF s, of e] p left_not_Prog[OF s] s by (cases ph) (auto simp: domIff stands_def)
  obtain q where q: "dom (procs Y) \<union> {q} = set es \<union> {q}" "awaits Y (es ! k) q" using s ph by (auto simp: stands_def)
  have nk: "procs Y (es ! k) \<noteq> Some Prog" using q(2) by (auto simp: awaits_def shell_of_def)
  have pq: "x = q" if "procs Y x = Some Prog" for x
  proof -
    have "x \<notin> set es" using that nk left_not_Prog[OF s] D(1) by (auto simp: in_set_conv_nth less_Suc_eq)
    then show ?thesis using q(1) that by auto
  qed
  then show "procs Y e' = Some Prog \<Longrightarrow> e' = e" using p by metis
  assume a: "procs Y e' = Some (Sh a T)"
  then consider i where "i < k" "e' = es ! i" | "e' = es ! k" using stands_shell[OF s, of e'] by (auto simp: domIff)
  then show "\<exists>b T'. quietly a T b T' \<and> far b"
  proof cases
    case 1
    then have "shell_of Y e' (Call (CWait (es ! Suc i)) (\<lambda>_. launch (fst (as_written W cs ! i)))) (snd (as_written W cs ! i))"
      using D(6) by (simp add: left_waits_def)
    then show ?thesis using a far_simps(1) by (fastforce simp: shell_of_def)
  next
    case 2
    then show ?thesis using q(2) a far_simps by (fastforce simp: awaits_def shell_of_def)
  qed
qed

lemma one_program:
  assumes s: "stands W cs m ph k es Y" and p: "procs Y e = Some Prog" and st: "sh_step e' Y Z"
  shows "spawned Z = spawned Y \<and> procs Z e = Some Prog"
proof -
  have "e' \<noteq> e" using st p by cases auto
  from st show ?thesis
  proof cases
    case (fork h T q)
    then show ?thesis using program_shells(3)[OF s p fork(2)] far_alone by fastforce
  next
    case (spawn args h T q)
    then show ?thesis using program_shells(3)[OF s p spawn(2)] far_alone by fastforce
  next
    case (spawn_fails args h T r)
    then show ?thesis using program_shells(3)[OF s p spawn_fails(2)] far_alone by fastforce
  qed (use p \<open>e' \<noteq> e\<close> in auto)
qed

lemma pipeline_starts:
  assumes "NUL \<notin> set s" and "lex s = Some (pipe_toks cs)" and "pipeline (enter T g) cs" and "steps_of cs \<le> n"
    and "0 < e" and "length cs \<le> free + 1"
  shows "stands (enter T g) cs (n - steps_of cs) Reading 0 [e] (line_started e T g free (runcmd n (s @ NUL # post)))"
proof -
  have "runcmd n (s @ NUL # post) = read_from (n - steps_of cs) cs 0"
    using runcmd_tokens[OF assms(1,2), of n post] assms(4) by (simp add: read_from_def)
  moreover have "at_cmd (enter T g) 0 = enter T g" by (simp add: at_cmd_def enter_def)
  moreover have "cs \<noteq> []" using assms(3) by (simp add: pipeline_def)
  ultimately show ?thesis using assms(5,6) by (auto simp: stands_def line_started_def left_waits_def)
qed


definition shell_table :: table where
  "shell_table = [0 \<mapsto> Console, 1 \<mapsto> Console]"

definition shell_shared :: shared where
  "shell_shared = \<lparr>next_pipe = 7, w_files = {''f''}, w_vars = {}\<rparr>"

lemma room_shell_table: "room shell_table"
  unfolding room_def by (intro conjI exI[of _ 2] exI[of _ 3]) (simp_all add: shell_table_def)


section \<open>Order of the commands\<close>

text \<open>
  As long as a program of the line runs, the shell starts none of the others: a right side that reads its input until the
  end waits for a program that is not started before it has ended.
\<close>

lemma left_side_waits:
  assumes "NUL \<notin> set s" and "lex s = Some (pipe_toks cs)" and "pipeline (enter T g) cs" and "steps_of cs \<le> n"
    and "0 < e" and "length cs \<le> free + 1"
    and "line_steps (line_started e T g free (runcmd n (s @ NUL # post))) Y" and "procs Y e' = Some Prog"
    and "(\<lambda>Y Z. \<exists>e. sh_step e Y Z)\<^sup>*\<^sup>* Y Z"
  shows "spawned Z = spawned Y"
proof -
  obtain ph k es where s: "stands (enter T g) cs (n - steps_of cs) ph k es Y"
    using reach_stands[OF assms(7) pipeline_starts[OF assms(1-6)] assms(3)] by blast
  from assms(9) have "spawned Z = spawned Y \<and> procs Z e' = Some Prog \<and> (\<exists>ph k es. stands (enter T g) cs (n - steps_of cs) ph k es Z)"
  proof (induction rule: rtranclp_induct)
    case base
    then show ?case using s assms(8) by blast
  next
    case (step Y' Z')
    then obtain x ph k es where x: "sh_step x Y' Z'" "stands (enter T g) cs (n - steps_of cs) ph k es Y'" by blast
    have "\<exists>ph k es. stands (enter T g) cs (n - steps_of cs) ph k es Z'" by (rule stands_step[OF x(2) assms(3)]) (use x(1) in blast)
    then show ?case using one_program[OF x(2) _ x(1), of e'] step.IH by simp
  qed
  then show ?thesis by blast
qed

text \<open>Output redirected before a \<open>|\<close> goes to the pipe, and what is on the right writes to the file.\<close>

lemma redirection_leaks:
  "\<exists>h V V'. exec (runcmd 9 (''a>f|b'' @ [NUL])) (enter shell_table shell_shared) = (Call CFork h, V) \<and>
     exec (h [0]) V = (launch [''b''], V') \<and> tab V' = [0 \<mapsto> PipeR 7, 1 \<mapsto> FileObj ''f'' 1] \<and>
     quietly (h [6]) (tab V) (Call (CWait 6) (\<lambda>_. launch [''a''])) [0 \<mapsto> Console, 1 \<mapsto> PipeW 7]"
proof -
  let ?W = "enter shell_table shell_shared" and ?K = "\<lambda>(argv, rp). start_cmd argv rp" and ?c = "[Arg ''a'', Out ''f'']"
  have lx: "lex ''a>f|b'' = Some (cmd_toks ?c @ Sym CHR ''|'' # [Word ''b''])" by code_simp
  have rm: "room (tab ?W)" using room_shell_table by simp
  have rd: "readable ?c ?W" by (simp add: readable_def)
  let ?V = "redir ?c ?W"
  have V: "tab ?V = [0 \<mapsto> Console, 1 \<mapsto> FileObj ''f'' 1]" "next_pipe ?V = 7"
    by (simp_all add: redir_def shell_table_def shell_shared_def fun_eq_iff)
  have a: "exec (runcmd 9 (''a>f|b'' @ [NUL])) ?W = exec (abind (pcmd (Suc 6) (Sym CHR ''|'' # [Word ''b'']) [Some ''a''] 0) ?K) ?V"
    using cmd_step(1)[OF rm rd, of "[]" "Suc 6" "Sym CHR ''|'' # [Word ''b'']" 0 ?K] runcmd_tokens[OF _ lx, of 9 "[]"] by (simp del: pcmd.simps)
  have rv: "room (tab ?V)" using cmd_step(2)[OF rm rd, of "[]"] by simp
  obtain h T where h: "exec (runcmd 9 (''a>f|b'' @ [NUL])) ?W = (Call CFork h, ?V\<lparr>tab := T, next_pipe := next_pipe ?V + 1\<rparr>)"
    "\<And>g. exec (h [0]) (enter T g) = exec (abind (pcmd 6 [Word ''b''] [] 0) ?K) (enter ((tab ?V)(0 \<mapsto> PipeR (next_pipe ?V))) g)"
    "\<And>q. q \<noteq> 0 \<Longrightarrow> ?K ([Some ''a''], q) = Call (CWait q) (\<lambda>_. launch [''a'']) \<Longrightarrow>
      quietly (h [q]) T (Call (CWait q) (\<lambda>_. launch [''a''])) ((tab ?V)(1 \<mapsto> PipeW (next_pipe ?V)))"
    using pipe_step[OF rv, of 6 "[Word ''b'']" "[Some ''a'']" 0 ?K "\<lambda>q. Call (CWait q) (\<lambda>_. launch [''a''])"] unfolding a by metis
  let ?V1 = "?V\<lparr>tab := T, next_pipe := next_pipe ?V + 1\<rparr>"
  let ?V2 = "enter ((tab ?V)(0 \<mapsto> PipeR (next_pipe ?V))) (shared.truncate ?V1)"
  have "?V1 = enter T (shared.truncate ?V1)" by (simp add: enter_def shared.defs)
  have lb: "start_cmd [Some ''b''] 0 = launch [''b'']" by (simp add: launch_def)
  from \<open>?V1 = _\<close> have "exec (h [0]) ?V1 = exec (abind (pcmd 6 [Word ''b''] [] 0) ?K) ?V2" using h(2) by metis
  also have "\<dots> = (launch [''b''], ?V2)" using start_launch(2)[of "[''b'']"] by (simp add: numeral_eq_Suc lb)
  finally have "exec (h [0]) ?V1 = (launch [''b''], ?V2)" .
  moreover have "tab ?V2 = [0 \<mapsto> PipeR 7, 1 \<mapsto> FileObj ''f'' 1]" using V by (auto simp: fun_eq_iff)
  moreover have "(tab ?V)(1 \<mapsto> PipeW (next_pipe ?V)) = [0 \<mapsto> Console, 1 \<mapsto> PipeW 7]" using V by (auto simp: fun_eq_iff)
  moreover have "?K ([Some ''a''], 6) = Call (CWait 6) (\<lambda>_. launch [''a''])" using start_launch(1)[of "[''a'']" 6] by simp
  ultimately show ?thesis using h(1) h(3)[of 6] by (intro exI[of _ h] exI[of _ ?V1] exI[of _ ?V2]) simp
qed

text \<open>
  A word after a variable: the value lies in an array of \<open>parsecmd\<close>, so the argument is gone when the program
  is started.
\<close>

lemma variable_is_gone:
  assumes "''x'' \<in> w_vars W"
  shows "exec (runcmd 9 (''echo $x'' @ [NUL])) W = (Bad, W)"
proof -
  have "lex ''echo $x'' = Some [Word ''echo'', Sym CHR ''$'', Word ''x'']" by code_simp
  from runcmd_tokens[OF _ this, of 9 "[]"] show ?thesis
    using assms by (simp add: pword_def start_cmd_def numeral_eq_Suc)
qed

end
