(* ===== verification/Mos_Format.thy ===== *)
theory Mos_Format
  imports Mos_FsInit
begin

text \<open>
  The tool that builds the disk image, \<open>tools/fsformat.c\<close>.  The image is kept as in the tool: an array of blocks
  with their types, and the super block apart from it until the end.  A block is an array of words, as in \<open>Mos_Fs\<close>; a
  pointer to a \<open>struct File\<close> is the root in the super block or an entry of a block.  What the host's file
  system holds is an argument; indices beyond the array are \<open>Undef\<close>, a failed assertion or \<open>exit\<close> is \<open>Panic\<close>.
\<close>

section \<open>State\<close>

abbreviation (input) NBLOCK :: nat where "NBLOCK \<equiv> 1024"

datatype block_type = BLOCK_FREE | BLOCK_BOOT | BLOCK_BMAP | BLOCK_SUPER | BLOCK_DATA | BLOCK_FILE | BLOCK_INDEX

record image =
  blocks :: "nat \<Rightarrow> nat \<Rightarrow> u32"
  btype :: "nat \<Rightarrow> block_type"
  nbitblock :: nat
  nextbno :: nat
  super :: "nat \<Rightarrow> u32"

definition blank :: image where
  "blank = \<lparr>blocks = (\<lambda>_ _. 0), btype = (\<lambda>_. BLOCK_FREE), nbitblock = 0, nextbno = 0, super = (\<lambda>_. 0)\<rparr>"

datatype file_ptr = Root | Slot nat nat

definition file_words :: "file_ptr \<Rightarrow> image \<Rightarrow> (nat \<Rightarrow> u32) outcome" where
  "file_words f s =
     (case f of
        Root \<Rightarrow> Ret (\<lambda>k. super s (2 + k))
      | Slot b j \<Rightarrow> if b < NBLOCK \<and> j < FILE2BLK then Ret (\<lambda>k. blocks s b (j * FILE_WORDS + k)) else Undef)"

text \<open>Storing the words of a file, of which the first 64 belong to it.\<close>

definition put_file :: "file_ptr \<Rightarrow> (nat \<Rightarrow> u32) \<Rightarrow> image \<Rightarrow> image outcome" where
  "put_file f w s =
     (case f of
        Root \<Rightarrow> Ret (s\<lparr>super := (\<lambda>k. if 2 \<le> k \<and> k < 2 + FILE_WORDS then w (k - 2) else super s k)\<rparr>)
      | Slot b j \<Rightarrow>
          if b < NBLOCK \<and> j < FILE2BLK
          then Ret (s\<lparr>blocks := (blocks s)(b := (\<lambda>k. if j * FILE_WORDS \<le> k \<and> k < (j + 1) * FILE_WORDS then w (k - j * FILE_WORDS) else blocks s b k))\<rparr>)
          else Undef)"

definition get_field :: "file_ptr \<Rightarrow> nat \<Rightarrow> image \<Rightarrow> u32 outcome" where
  "get_field f k s = obind (file_words f s) (\<lambda>w. Ret (w k))"

definition set_field :: "file_ptr \<Rightarrow> nat \<Rightarrow> u32 \<Rightarrow> image \<Rightarrow> image outcome" where
  "set_field f k v s = obind (file_words f s) (\<lambda>w. put_file f (w(k := v)) s)"

text \<open>Bytes \<open>cs\<close> stored at the byte offset \<open>off\<close> of an array of words.\<close>

definition put_at :: "nat \<Rightarrow> char list \<Rightarrow> (nat \<Rightarrow> u32) \<Rightarrow> nat \<Rightarrow> u32" where
  "put_at off cs w k =
     fold (\<lambda>j v. if off \<le> 4 * k + j \<and> 4 * k + j < off + length cs then set_word_byte j (cs ! (4 * k + j - off)) v else v) [0..<4] (w k)"

definition set_name :: "file_ptr \<Rightarrow> char list \<Rightarrow> image \<Rightarrow> image outcome" where
  "set_name f cs s = (if 128 < length cs then Undef else obind (file_words f s) (\<lambda>w. put_file f (put_at 0 cs w) s))"

section \<open>Byte order\<close>

definition reverse_word :: "u32 \<Rightarrow> u32" where
  "reverse_word y = put_at 0 [word_byte y 3, word_byte y 2, word_byte y 1, word_byte y 0] (\<lambda>_. y) 0"

definition reverse_file :: "(nat \<Rightarrow> u32) \<Rightarrow> nat \<Rightarrow> u32" where
  "reverse_file w = (\<lambda>k. if F_SIZE \<le> k \<and> k \<le> F_INDIRECT then reverse_word (w k) else w k)"

text \<open>The entries of a directory block up to the first unused one.\<close>

fun reverse_files :: "nat list \<Rightarrow> (nat \<Rightarrow> u32) \<Rightarrow> nat \<Rightarrow> u32" where
  "reverse_files [] w = w"
| "reverse_files (i # is) w =
     (if word_byte (w (i * FILE_WORDS)) 0 = NUL then w
      else reverse_files is (\<lambda>k. if k div FILE_WORDS = i then reverse_file (\<lambda>k. w (i * FILE_WORDS + k)) (k mod FILE_WORDS) else w k))"

definition reverse_block :: "block_type \<Rightarrow> (nat \<Rightarrow> u32) \<Rightarrow> nat \<Rightarrow> u32" where
  "reverse_block ty w =
     (case ty of
        BLOCK_SUPER \<Rightarrow> (\<lambda>k. if k < 2 then reverse_word (w k) else reverse_file (\<lambda>k. w (2 + k)) (k - 2))
      | BLOCK_FILE \<Rightarrow> reverse_files [0..<FILE2BLK] w
      | BLOCK_INDEX \<Rightarrow> (\<lambda>k. if k < BLOCK_WORDS then reverse_word (w k) else w k)
      | BLOCK_BMAP \<Rightarrow> (\<lambda>k. if k < BLOCK_WORDS then reverse_word (w k) else w k)
      | _ \<Rightarrow> w)"

section \<open>Blocks\<close>

definition set_type :: "nat \<Rightarrow> block_type \<Rightarrow> image \<Rightarrow> image" where
  "set_type b ty s = s\<lparr>btype := (btype s)(b := ty)\<rparr>"

definition set_block :: "nat \<Rightarrow> (nat \<Rightarrow> u32) \<Rightarrow> image \<Rightarrow> image" where
  "set_block b w s = s\<lparr>blocks := (blocks s)(b := w)\<rparr>"

text \<open>\<open>diff\<close> is the number of bytes of the last bitmap block that stand for blocks of the disk, a multiple of four.\<close>

definition init_disk :: "image \<Rightarrow> image outcome" where
  "init_disk s =
     (let s = set_type 0 BLOCK_BOOT s;
          nb = (NBLOCK + BIT2BLK - 1) div BIT2BLK;
          s = s\<lparr>nbitblock := nb, nextbno := 2 + nb\<rparr>;
          s = fold (\<lambda>i. set_type (2 + i) BLOCK_BMAP) [0..<nb] s;
          s = fold (\<lambda>i. set_block (2 + i) (\<lambda>k. if k < BLOCK_WORDS then 0xFFFFFFFF else blocks s (2 + i) k)) [0..<nb] s;
          diff = NBLOCK mod BIT2BLK div 8;
          last = 2 + (nb - 1);
          s = (if NBLOCK \<noteq> nb * BIT2BLK
               then set_block last (\<lambda>k. if diff div 4 \<le> k \<and> k < BLOCK_WORDS then 0 else blocks s last k) s else s);
          s = set_type 1 BLOCK_SUPER s;
          s = s\<lparr>super := (super s)(0 := FS_MAGIC, 1 := of_nat NBLOCK)\<rparr>
      in obind (set_field Root F_TYPE FTYPE_DIR s) (set_name Root (''/'' @ [NUL])))"

definition next_block :: "block_type \<Rightarrow> image \<Rightarrow> (nat \<times> image) outcome" where
  "next_block ty s =
     (if NBLOCK \<le> nextbno s then Undef
      else Ret (nextbno s, (set_type (nextbno s) ty s)\<lparr>nextbno := nextbno s + 1\<rparr>))"

definition clear_used :: "nat \<Rightarrow> image \<Rightarrow> image outcome" where
  "clear_used i s =
     (let b = 2 + i div BIT2BLK; k = i mod BIT2BLK div 32 in
      if NBLOCK \<le> b then Undef
      else Ret (set_block b ((blocks s b)(k := blocks s b k AND NOT (push_bit (i mod 32) 1))) s))"

definition flush_bitmap :: "image \<Rightarrow> image outcome" where
  "flush_bitmap s = ofold clear_used [0..<nextbno s] s"

text \<open>The super block, 66 words, is put in its place; the result is what is written to the image file.\<close>

definition finish_fs :: "bool \<Rightarrow> image \<Rightarrow> nat \<Rightarrow> nat \<Rightarrow> u32" where
  "finish_fs swap s =
     (let s = set_block 1 (\<lambda>k. if k < 2 + FILE_WORDS then super s k else blocks s 1 k) s
      in (\<lambda>b. if swap then reverse_block (btype s b) (blocks s b) else blocks s b))"

section \<open>Files\<close>

definition save_block_link :: "file_ptr \<Rightarrow> nat \<Rightarrow> nat \<Rightarrow> image \<Rightarrow> image outcome" where
  "save_block_link f nblk bno s =
     obind (guard_panic (nblk < NINDIRECT) ''nblk < NINDIRECT'') (\<lambda>_.
       if nblk < NDIRECT then set_field f (F_DIRECT + nblk) (of_nat bno) s
       else
         obind (get_field f F_INDIRECT s) (\<lambda>ind.
         obind (if ind = 0 then obind (next_block BLOCK_INDEX s) (\<lambda>(b, s). set_field f F_INDIRECT (of_nat b) s) else Ret s) (\<lambda>s.
         obind (get_field f F_INDIRECT s) (\<lambda>ind.
           if NBLOCK \<le> unat ind then Undef
           else Ret (set_block (unat ind) ((blocks s (unat ind))(nblk := of_nat bno)) s)))))"

definition make_link_block :: "file_ptr \<Rightarrow> nat \<Rightarrow> image \<Rightarrow> (nat \<times> image) outcome" where
  "make_link_block dirf nblk s =
     obind (next_block BLOCK_FILE s) (\<lambda>(bno, s).
     obind (save_block_link dirf nblk bno s) (\<lambda>s.
     obind (get_field dirf F_SIZE s) (\<lambda>sz.
     obind (set_field dirf F_SIZE (sz + of_nat BY2BLK) s) (\<lambda>s. Ret (bno, s)))))"

text \<open>The loop of \<open>create_file\<close>, in which every round looks at the last block of the directory.\<close>

definition last_block :: "file_ptr \<Rightarrow> nat \<Rightarrow> image \<Rightarrow> nat outcome" where
  "last_block dirf nblk s =
     (if nblk \<le> NDIRECT then obind (get_field dirf (F_DIRECT + (nblk - 1)) s) (\<lambda>b. Ret (unat b))
      else obind (get_field dirf F_INDIRECT s) (\<lambda>ind.
        if NBLOCK \<le> unat ind \<or> BLOCK_WORDS < nblk then Undef else Ret (unat (blocks s (unat ind) (nblk - 1)))))"

definition unused_slot :: "nat \<Rightarrow> image \<Rightarrow> nat option outcome" where
  "unused_slot bno s =
     (if NBLOCK \<le> bno then Undef
      else Ret (find (\<lambda>j. word_byte (blocks s bno (j * FILE_WORDS)) 0 = NUL) [0..<FILE2BLK]))"

fun create_scan :: "nat list \<Rightarrow> file_ptr \<Rightarrow> nat \<Rightarrow> image \<Rightarrow> file_ptr option outcome" where
  "create_scan [] dirf nblk s = Ret None"
| "create_scan (i # is) dirf nblk s =
     obind (last_block dirf nblk s) (\<lambda>bno.
     obind (unused_slot bno s) (\<lambda>r.
       case r of Some j \<Rightarrow> Ret (Some (Slot bno j)) | None \<Rightarrow> create_scan is dirf nblk s))"

definition create_file :: "file_ptr \<Rightarrow> image \<Rightarrow> (file_ptr \<times> image) outcome" where
  "create_file dirf s =
     obind (get_field dirf F_SIZE s) (\<lambda>sz.
     let nblk = unat sz div BY2BLK in
     obind (create_scan [0..<nblk] dirf nblk s) (\<lambda>r.
       case r of
         Some f \<Rightarrow> Ret (f, s)
       | None \<Rightarrow> obind (make_link_block dirf nblk s) (\<lambda>(bno, s). Ret (Slot bno 0, s))))"

text \<open>The part of a path after its last slash, and \<open>basename\<close>, which leaves out slashes at the end.\<close>

definition file_part :: "string \<Rightarrow> string" where
  "file_part path = rev (takeWhile (\<lambda>c. c \<noteq> CHR ''/'') (rev path))"

definition basename :: "string \<Rightarrow> string" where
  "basename path =
     (let p = rev (dropWhile (\<lambda>c. c = CHR ''/'') (rev path))
      in if path = [] then ''.'' else if p = [] then ''/'' else file_part p)"

text \<open>The reading loop of \<open>write_file\<close> from the rest \<open>cs\<close> of the file.\<close>

definition read_into :: "nat \<Rightarrow> char list \<Rightarrow> image \<Rightarrow> image outcome" where
  "read_into b cs s = (if NBLOCK \<le> b then Undef else Ret (set_block b (put_at 0 cs (blocks s b)) s))"

function write_blocks :: "file_ptr \<Rightarrow> nat \<Rightarrow> char list \<Rightarrow> image \<Rightarrow> image outcome" where
  "write_blocks f iblk cs s =
     (if cs = [] then Ret s
      else
        obind (read_into (nextbno s) (take BY2BLK cs) s) (\<lambda>s.
        obind (next_block BLOCK_DATA s) (\<lambda>(bno, s).
        obind (save_block_link f iblk bno s) (\<lambda>s. write_blocks f (iblk + 1) (drop BY2BLK cs) s))))"
  by pat_completeness auto
termination by (relation "measure (\<lambda>(f, i, cs, s). length cs)") auto

declare write_blocks.simps [simp del]

text \<open>\<open>None\<close> stands for a file that cannot be opened: the calls on it return \<open>-1\<close>.\<close>

definition write_file :: "file_ptr \<Rightarrow> string \<Rightarrow> char list option \<Rightarrow> image \<Rightarrow> image outcome" where
  "write_file dirf path contents s =
     obind (create_file dirf s) (\<lambda>(target, s).
     obind (set_name target (file_part path @ [NUL]) s) (\<lambda>s.
     obind (set_field target F_SIZE (case contents of None \<Rightarrow> - 1 | Some cs \<Rightarrow> of_nat (length cs)) s) (\<lambda>s.
     obind (set_field target F_TYPE FTYPE_REG s) (\<lambda>s.
       case contents of None \<Rightarrow> Ret s | Some cs \<Rightarrow> write_blocks target 0 cs s))))"

definition write_symlink :: "file_ptr \<Rightarrow> string \<Rightarrow> string \<Rightarrow> image \<Rightarrow> image outcome" where
  "write_symlink dirf path link s =
     obind (create_file dirf s) (\<lambda>(target, s).
     let r = take BY2BLK link in
     obind (read_into (nextbno s) r s) (\<lambda>s.
     obind (set_name target (file_part path @ [NUL]) s) (\<lambda>s.
     obind (set_field target F_SIZE (of_nat (length r)) s) (\<lambda>s.
     obind (set_field target F_TYPE FTYPE_LNK s) (\<lambda>s.
     obind (next_block BLOCK_DATA s) (\<lambda>(bno, s). save_block_link target 0 bno s))))))"

text \<open>
  What the host's file system holds at a path; \<open>NoDir\<close> is a directory that cannot be opened.  The entries of a directory
  come in the order of \<open>readdir\<close>.
\<close>

datatype host = File "char list option" | Link string | Dir "(string \<times> host) list" | NoDir | Other "char list option"

text \<open>\<open>strncpy\<close> copies at most 127 characters and fills up with zeros, so that the last byte of the name is never written.\<close>

definition set_dir_name :: "file_ptr \<Rightarrow> string \<Rightarrow> image \<Rightarrow> image outcome" where
  "set_dir_name f name s =
     obind (set_name f (take 127 name @ replicate (127 - length name) NUL) s) (\<lambda>s.
     obind (get_field f 31 s) (\<lambda>w. obind (guard_panic (word_byte w 3 = NUL) ''file name is too long'') (\<lambda>_. Ret s)))"

fun write_directory :: "file_ptr \<Rightarrow> string \<Rightarrow> (string \<times> host) list \<Rightarrow> image \<Rightarrow> image outcome"
  and write_entries :: "file_ptr \<Rightarrow> string \<Rightarrow> (string \<times> host) list \<Rightarrow> image \<Rightarrow> image outcome" where
  "write_directory dirf path entries s =
     obind (create_file dirf s) (\<lambda>(pdir, s).
     obind (set_dir_name pdir (basename path) s) (\<lambda>s.
     obind (set_field pdir F_TYPE FTYPE_DIR s) (\<lambda>s. write_entries pdir path entries s)))"
| "write_entries pdir path [] s = Ret s"
| "write_entries pdir path ((name, h) # es) s =
     (if name = ''.'' \<or> name = ''..'' then write_entries pdir path es s
      else
        let buf = path @ ''/'' @ name in
        obind (case h of
                 Dir entries \<Rightarrow> write_directory pdir buf entries s
               | NoDir \<Rightarrow> Ret s
               | Link link \<Rightarrow> write_symlink pdir buf link s
               | File cs \<Rightarrow> write_file pdir buf cs s
               | Other cs \<Rightarrow> write_file pdir buf cs s) (\<lambda>s. write_entries pdir path es s))"

definition write_arg :: "string \<times> host option \<Rightarrow> image \<Rightarrow> image outcome" where
  "write_arg arg s =
     (case arg of
        (name, None) \<Rightarrow> Panic ''r == 0''
      | (name, Some (Dir entries)) \<Rightarrow> write_directory Root name entries s
      | (name, Some NoDir) \<Rightarrow> Ret s
      | (name, Some (File cs)) \<Rightarrow> write_file Root name cs s
      | (name, Some (Link link)) \<Rightarrow> write_symlink Root name link s
      | (name, Some (Other cs)) \<Rightarrow> Panic ''illegal file mode'')"

text \<open>\<open>main\<close> with the names after the image file, each with what \<open>lstat\<close> finds there.\<close>

definition fsformat :: "bool \<Rightarrow> (string \<times> host option) list \<Rightarrow> (nat \<Rightarrow> nat \<Rightarrow> u32) outcome" where
  "fsformat swap args =
     obind (init_disk blank) (\<lambda>s.
       if args = [] then Panic ''Usage: fsformat <img-file> [files or directories]...''
       else obind (ofold write_arg args s) (\<lambda>s.
         obind (flush_bitmap s) (\<lambda>s. Ret (finish_fs swap s))))"

end
