(* ===== verification/Mos_FormatProps.thy ===== *)
theory Mos_FormatProps
  imports Mos_Format
begin

text \<open>
  The disk image that \<open>fsformat\<close> writes, and its life in the file system server: an image built from files
  is accepted at start-up, and looking up and reading each file gives back its contents.
\<close>

section \<open>Bytes and views\<close>

lemma blk_byte_put_at:
  "blk_byte (put_at off cs w) n = (if off \<le> n \<and> n < off + length cs then cs ! (n - off) else blk_byte w n)"
proof -
  define k j where "k = n div 4" and "j = n mod 4"
  have n: "n = 4 * k + j" and j: "j < 4" by (simp_all add: k_def j_def)
  let ?P = "\<lambda>i. off \<le> 4 * k + i \<and> 4 * k + i < off + length cs"
  have F: "word_byte (fold (\<lambda>i v. if ?P i then set_word_byte i (cs ! (4 * k + i - off)) v else v) is v) j =
      (if j \<in> set is \<and> ?P j then cs ! (4 * k + j - off) else word_byte v j)" if "set is \<subseteq> {..<4}" for "is" v
    using that
  proof (induction "is" arbitrary: v)
    case (Cons i "is")
    then show ?case using j word_byte_set[of i j] by (cases "i = j") auto
  qed simp
  have s4: "set [0..<4] \<subseteq> {..<4 :: nat}" by auto
  have "blk_byte (put_at off cs w) n = word_byte (put_at off cs w k) j" by (simp add: blk_byte_def k_def j_def)
  also have "\<dots> = (if ?P j then cs ! (n - off) else word_byte (w k) j)"
    unfolding put_at_def F[OF s4] n[symmetric] using j by (simp only: set_upt atLeastLessThan_iff le0 simp_thms)
  finally show ?thesis unfolding n[symmetric] by (simp only: blk_byte_def k_def j_def)
qed

lemma put_at_word: "\<not> (off < 4 * k + 4 \<and> 4 * k < off + length cs) \<Longrightarrow> put_at off cs w k = w k"
proof -
  assume a: "\<not> (off < 4 * k + 4 \<and> 4 * k < off + length cs)"
  have "\<not> (off \<le> 4 * k + i \<and> 4 * k + i < off + length cs)" if "i < 4" for i using a that by linarith
  then have "fold (\<lambda>i v. if off \<le> 4 * k + i \<and> 4 * k + i < off + length cs then set_word_byte i (cs ! (4 * k + i - off)) v else v) is v = v"
    if "set is \<subseteq> {..<4}" for "is" v using that by (induction "is" arbitrary: v) auto
  then show ?thesis unfolding put_at_def by (simp add: atLeast0LessThan)
qed

text \<open>The image as it will be written, and a pointer of the tool as the server's pointer.\<close>

definition view :: "image \<Rightarrow> nat \<Rightarrow> nat \<Rightarrow> u32" where
  "view s = finish_fs False s"

lemma view_eq: "view s b = (if b = 1 then (\<lambda>k. if k < 66 then super s k else blocks s 1 k) else blocks s b)"
  by (simp add: view_def finish_fs_def set_block_def)

primrec at :: "file_ptr \<Rightarrow> fptr" where
  "at Root = (1, 2)"
| "at (Slot b j) = (b, j * 64)"

definition valid_ptr :: "file_ptr \<Rightarrow> bool" where
  "valid_ptr f \<longleftrightarrow> (case f of Root \<Rightarrow> True | Slot b j \<Rightarrow> 3 \<le> b \<and> b < NBLOCK \<and> j < FILE2BLK)"

text \<open>Word \<open>k\<close> of the file at \<open>p\<close>, and writing its words.\<close>

definition fw :: "(nat \<Rightarrow> nat \<Rightarrow> u32) \<Rightarrow> fptr \<Rightarrow> nat \<Rightarrow> u32" where
  "fw V p k = V (fst p) (snd p + k)"

definition with_file :: "(nat \<Rightarrow> nat \<Rightarrow> u32) \<Rightarrow> fptr \<Rightarrow> (nat \<Rightarrow> u32) \<Rightarrow> nat \<Rightarrow> nat \<Rightarrow> u32" where
  "with_file V p w = V(fst p := (\<lambda>k. if snd p \<le> k \<and> k < snd p + 64 then w (k - snd p) else V (fst p) k))"

lemma file_words_view: "valid_ptr f \<Longrightarrow> \<exists>w. file_words f s = Ret w \<and> (\<forall>k < 64. w k = fw (view s) (at f) k)"
  by (cases f) (auto simp: file_words_def valid_ptr_def fw_def view_eq)

lemma put_file_view:
  assumes "valid_ptr f"
  shows "returns (\<lambda>s'. view s' = with_file (view s) (at f) w \<and> nextbno s' = nextbno s) (put_file f w s)"
  using assms by (cases f) (auto simp: put_file_def valid_ptr_def with_file_def view_eq fun_eq_iff)

lemma with_file_cong: "(\<And>k. k < 64 \<Longrightarrow> w k = w' k) \<Longrightarrow> with_file V p w = with_file V p w'"
  by (auto simp: with_file_def fun_eq_iff)

lemma get_field_view: "valid_ptr f \<Longrightarrow> k < 64 \<Longrightarrow> get_field f k s = Ret (fw (view s) (at f) k)"
  using file_words_view[of f s] by (auto simp: get_field_def)

lemma set_field_view:
  assumes "valid_ptr f" "k < 64"
  shows "returns (\<lambda>s'. view s' = with_file (view s) (at f) ((fw (view s) (at f))(k := v)) \<and> nextbno s' = nextbno s) (set_field f k v s)"
proof -
  obtain w where w: "file_words f s = Ret w" "\<And>i. i < 64 \<Longrightarrow> w i = fw (view s) (at f) i" using file_words_view[OF assms(1), of s] by blast
  have "with_file (view s) (at f) (w(k := v)) = with_file (view s) (at f) ((fw (view s) (at f))(k := v))"
    by (rule with_file_cong) (simp add: w(2))
  then show ?thesis using put_file_view[OF assms(1), of s "w(k := v)"] w(1) by (simp add: set_field_def)
qed

lemma set_name_view:
  assumes "valid_ptr f" "length cs \<le> 128"
  shows "returns (\<lambda>s'. view s' = with_file (view s) (at f) (put_at 0 cs (fw (view s) (at f))) \<and> nextbno s' = nextbno s) (set_name f cs s)"
proof -
  obtain w where w: "file_words f s = Ret w" "\<And>i. i < 64 \<Longrightarrow> w i = fw (view s) (at f) i" using file_words_view[OF assms(1), of s] by blast
  have "with_file (view s) (at f) (put_at 0 cs w) = with_file (view s) (at f) (put_at 0 cs (fw (view s) (at f)))"
    by (rule with_file_cong) (simp add: put_at_def w(2))
  then show ?thesis using put_file_view[OF assms(1), of s "put_at 0 cs w"] w(1) assms(2) by (simp add: set_name_def)
qed

lemma set_block_view:
  assumes "2 \<le> b"
  shows "view (set_block b w s) = (view s)(b := w)" "nextbno (set_block b w s) = nextbno s"
  using assms by (auto simp: set_block_def view_eq fun_eq_iff)

lemma next_block_view:
  assumes "nextbno s < NBLOCK"
  shows "returns (\<lambda>(b, s'). b = nextbno s \<and> view s' = view s \<and> nextbno s' = nextbno s + 1) (next_block ty s)"
  using assms by (auto simp: next_block_def set_type_def view_eq fun_eq_iff)

lemma fw_with_file: "k < 64 \<Longrightarrow> fw (with_file V p w) p k = w k"
  by (simp add: fw_def with_file_def)

lemma with_file_other: "b \<noteq> fst p \<or> k < snd p \<or> snd p + 64 \<le> k \<Longrightarrow> with_file V p w b k = V b k"
  by (auto simp: with_file_def)

section \<open>Block links\<close>

text \<open>
  Which file owns a block, and for what: its \<open>i\<close>th block, or its index block.  File 0 is the root directory.
\<close>

type_synonym owners = "nat \<Rightarrow> (nat \<times> nat option) option"

definition own_ok :: "owners \<Rightarrow> nat \<Rightarrow> bool" where
  "own_ok own N \<longleftrightarrow> N \<le> NBLOCK \<and> (\<forall>b x. own b = Some x \<longrightarrow> 3 \<le> b \<and> b < N)"

lemma own_okD:
  assumes "own_ok own N" "own b = Some x"
  shows "3 \<le> b" "b < N" "b < NBLOCK"
proof -
  show "3 \<le> b" "b < N" using assms by (auto simp: own_ok_def)
  moreover have "N \<le> NBLOCK" using assms(1) by (simp add: own_ok_def)
  ultimately show "b < NBLOCK" by linarith
qed

lemma own_ok_insert:
  assumes "own_ok own N" "3 \<le> N" "N < NBLOCK"
  shows "own_ok (own(N \<mapsto> x)) (N + 1)"
proof -
  have "3 \<le> b \<and> b < N + 1" if "(own(N \<mapsto> x)) b = Some y" for b y
    using that own_okD(1,2)[OF assms(1), of b] assms(2) by (cases "b = N") fastforce+
  then show ?thesis using assms(3) by (simp add: own_ok_def del: fun_upd_apply)
qed

definition blink :: "(nat \<Rightarrow> nat \<Rightarrow> u32) \<Rightarrow> fptr \<Rightarrow> nat \<Rightarrow> u32" where
  "blink V p i = (if i < NDIRECT then fw V p (F_DIRECT + i) else V (unat (fw V p F_INDIRECT)) i)"

text \<open>The file at \<open>p\<close> has exactly \<open>n\<close> blocks, and an index block if it needs one.\<close>

definition linked :: "(nat \<Rightarrow> nat \<Rightarrow> u32) \<Rightarrow> owners \<Rightarrow> fptr \<Rightarrow> nat \<Rightarrow> nat \<Rightarrow> bool" where
  "linked V own p t n \<longleftrightarrow> (\<forall>i < n. own (unat (blink V p i)) = Some (t, Some i))
     \<and> (if n \<le> NDIRECT then fw V p F_INDIRECT = 0 else own (unat (fw V p F_INDIRECT)) = Some (t, None))"

definition new_owner :: "nat \<Rightarrow> nat \<Rightarrow> nat \<Rightarrow> owners \<Rightarrow> owners" where
  "new_owner t n N own = (if n = NDIRECT then own(N \<mapsto> (t, None)) else own)"

abbreviation new_index :: "nat \<Rightarrow> nat" where
  "new_index n \<equiv> (if n = NDIRECT then 1 else 0)"

text \<open>What a new link changes.\<close>

definition link_change :: "(nat \<Rightarrow> nat \<Rightarrow> u32) \<Rightarrow> (nat \<Rightarrow> nat \<Rightarrow> u32) \<Rightarrow> owners \<Rightarrow> fptr \<Rightarrow> nat \<Rightarrow> bool" where
  "link_change V V' own p t \<longleftrightarrow>
     (\<forall>b k. \<not> (b = fst p \<and> snd p + F_DIRECT \<le> k \<and> k \<le> snd p + F_INDIRECT) \<and> own b \<noteq> Some (t, None) \<longrightarrow> V' b k = V b k)"

lemma unat_block: "b < NBLOCK \<Longrightarrow> unat (of_nat b :: u32) = b"
  by (simp add: unat_of_nat take_bit_nat_eq_self)

lemma blink_fw: "i < NDIRECT \<Longrightarrow> blink V p i = fw V p (F_DIRECT + i)"
  by (simp add: blink_def)

lemma blink_index: "NDIRECT \<le> i \<Longrightarrow> blink V p i = V (unat (fw V p F_INDIRECT)) i"
  by (simp add: blink_def)

lemma linkedI:
  assumes "linked V own p t n" and "\<And>i. i < n \<Longrightarrow> blink V' p i = blink V p i" and "own' (unat (blink V' p n)) = Some (t, Some n)"
    and "\<And>b x. own b = Some x \<Longrightarrow> own' b = Some x"
    and "if Suc n \<le> NDIRECT then fw V' p F_INDIRECT = 0 else own' (unat (fw V' p F_INDIRECT)) = Some (t, None)"
  shows "linked V' own' p t (Suc n)"
  using assms by (auto simp: linked_def less_Suc_eq)

lemma save_direct:
  assumes f: "valid_ptr f" "at f = p" and L: "linked (view s) own p t n" and n: "n < NDIRECT"
    and b: "own bno = Some (t, Some n)" and ok: "own_ok own (nextbno s)"
  shows "returns (\<lambda>s'. nextbno s' = nextbno s \<and> linked (view s') own p t (Suc n) \<and> blink (view s') p n = of_nat bno
      \<and> (\<forall>i < n. blink (view s') p i = blink (view s) p i) \<and> link_change (view s) (view s') own p t) (save_block_link f n bno s)"
proof -
  let ?V = "view s" and ?V' = "with_file (view s) p ((fw (view s) p)(F_DIRECT + n := of_nat bno))"
  have ub: "unat (of_nat bno :: u32) = bno" by (rule unat_block[OF own_okD(3)[OF ok b]])
  have w: "k < 64 \<Longrightarrow> fw ?V' p k = (if k = F_DIRECT + n then of_nat bno else fw ?V p k)" for k by (simp add: fw_with_file)
  have new: "blink ?V' p n = of_nat bno" using n by (simp add: blink_fw w)
  have old: "blink ?V' p i = blink ?V p i" if "i < n" for i using n that by (simp add: blink_fw w)
  have "linked ?V' own p t (Suc n)"
    by (rule linkedI[OF L old]) (use n b L in \<open>simp_all add: new ub w linked_def\<close>)
  moreover have "link_change ?V ?V' own p t"
    using n by (auto simp: link_change_def with_file_def fw_def)
  ultimately show ?thesis
    using set_field_view[OF f(1), of "F_DIRECT + n" s "of_nat bno"] n new old f(2) by (auto simp: save_block_link_def returns_iff)
qed

lemma save_indirect:
  assumes f: "valid_ptr f" "at f = p" and L: "linked (view s) own p t n" and n: "NDIRECT < n" "n < NINDIRECT"
    and b: "own bno = Some (t, Some n)" and ok: "own_ok own (nextbno s)" and p: "own (fst p) \<noteq> Some (t, None)"
  shows "returns (\<lambda>s'. nextbno s' = nextbno s \<and> linked (view s') own p t (Suc n) \<and> blink (view s') p n = of_nat bno
      \<and> (\<forall>i < n. blink (view s') p i = blink (view s) p i) \<and> link_change (view s) (view s') own p t) (save_block_link f n bno s)"
proof -
  let ?V = "view s" and ?b0 = "unat (fw (view s) p F_INDIRECT)"
  let ?V' = "?V(?b0 := (?V ?b0)(n := of_nat bno))"
  have ub: "unat (of_nat bno :: u32) = bno" by (rule unat_block[OF own_okD(3)[OF ok b]])
  have b0: "own ?b0 = Some (t, None)" using L n by (simp add: linked_def)
  note range = own_okD(1,3)[OF ok b0]
  have ne: "fst p \<noteq> ?b0" using b0 p by metis
  have w: "fw ?V' p k = fw ?V p k" for k using ne by (simp add: fw_def)
  have new: "blink ?V' p n = of_nat bno" using n by (simp add: blink_index w)
  have old: "blink ?V' p i = blink ?V p i" if "i < n" for i using that by (cases "i < NDIRECT") (simp_all add: blink_fw blink_index w)
  have L': "linked ?V' own p t (Suc n)"
    by (rule linkedI[OF L old]) (use n b b0 in \<open>simp_all only: new ub w, simp_all\<close>)
  have lc: "link_change ?V ?V' own p t" using b0 by (auto simp: link_change_def)
  have ind: "fw ?V p F_INDIRECT \<noteq> 0" using range(1) by auto
  have "?V ?b0 = blocks s ?b0" using range(1) by (simp add: view_eq)
  then have v: "view (set_block ?b0 ((blocks s ?b0)(n := of_nat bno)) s) = ?V'" using range(1) by (simp add: set_block_view)
  have run: "save_block_link f n bno s = Ret (set_block ?b0 ((blocks s ?b0)(n := of_nat bno)) s)"
    using get_field_view[OF f(1), of F_INDIRECT s] n range(2) ind f(2) by (simp add: save_block_link_def)
  show ?thesis unfolding run using v L' lc new old range(1) by (simp add: set_block_view(2))
qed

lemma save_first_index:
  assumes f: "valid_ptr f" "at f = p" and L: "linked (view s) own p t NDIRECT" and N: "nextbno s < NBLOCK" "fst p < nextbno s" "3 \<le> nextbno s"
    and b: "own bno = Some (t, Some NDIRECT)" and ok: "own_ok own (nextbno s)"
  shows "returns (\<lambda>s'. nextbno s' = nextbno s + 1 \<and> linked (view s') (own(nextbno s \<mapsto> (t, None))) p t (Suc NDIRECT) \<and> blink (view s') p NDIRECT = of_nat bno
      \<and> (\<forall>i < NDIRECT. blink (view s') p i = blink (view s) p i) \<and> link_change (view s) (view s') (own(nextbno s \<mapsto> (t, None))) p t)
    (save_block_link f NDIRECT bno s)"
proof -
  let ?V = "view s" and ?N = "nextbno s"
  let ?own = "own(?N \<mapsto> (t, None))"
  obtain s1 where s1: "next_block BLOCK_INDEX s = Ret (?N, s1)" "view s1 = ?V" "nextbno s1 = ?N + 1"
    using next_block_view[OF N(1), of BLOCK_INDEX] by (auto simp: returns_iff)
  let ?V1 = "with_file ?V p ((fw ?V p)(F_INDIRECT := of_nat ?N))"
  obtain s2 where s2: "set_field f F_INDIRECT (of_nat ?N) s1 = Ret s2" "view s2 = ?V1" "nextbno s2 = ?N + 1"
    using set_field_view[OF f(1), of F_INDIRECT s1 "of_nat ?N"] f(2) s1(2,3) by (auto simp: returns_iff)
  have uN: "unat (of_nat ?N :: u32) = ?N" by (rule unat_block[OF N(1)])
  let ?s3 = "set_block ?N ((blocks s2 ?N)(NDIRECT := of_nat bno)) s2" and ?V' = "?V1(?N := (?V1 ?N)(NDIRECT := of_nat bno))"
  have "blocks s2 ?N = view s2 ?N" using N(3) by (simp add: view_eq)
  then have bN: "blocks s2 ?N = ?V1 ?N" using s2(2) by simp
  have v: "view ?s3 = ?V'" unfolding bN using set_block_view(1)[of ?N] N(3) s2(2) by simp
  have w: "k < 64 \<Longrightarrow> fw ?V' p k = (if k = F_INDIRECT then of_nat ?N else fw ?V p k)" for k
  proof -
    assume k: "k < 64"
    have "fw ?V' p k = fw ?V1 p k" using N(2) by (simp add: fw_def)
    then show ?thesis using k by (simp add: fw_with_file)
  qed
  have ub: "unat (of_nat bno :: u32) = bno" by (rule unat_block[OF own_okD(3)[OF ok b]])
  have ob: "?own bno = Some (t, Some NDIRECT)" using b ok by (auto simp: own_ok_def)
  have new: "blink ?V' p NDIRECT = of_nat bno" by (simp add: blink_index w uN)
  have old: "blink ?V' p i = blink ?V p i" if "i < NDIRECT" for i using that by (simp add: blink_fw w)
  have L': "linked ?V' ?own p t (Suc NDIRECT)"
  proof (rule linkedI[OF L old])
    show "?own (unat (blink ?V' p NDIRECT)) = Some (t, Some NDIRECT)" unfolding new ub by (rule ob)
    show "own c = Some x \<Longrightarrow> ?own c = Some x" for c x using own_okD(2)[OF ok, of c x] by auto
  qed (simp_all add: w uN)
  have lc: "link_change ?V ?V' ?own p t"
    using N(2) by (auto simp: link_change_def with_file_def fw_def)
  have g: "get_field f F_INDIRECT s = Ret 0" using get_field_view[OF f(1), of F_INDIRECT s] L f(2) by (simp add: linked_def)
  have g2: "get_field f F_INDIRECT s2 = Ret (of_nat ?N)" using get_field_view[OF f(1), of F_INDIRECT s2] s2(2) f(2) by (simp add: fw_with_file)
  have run: "save_block_link f NDIRECT bno s = Ret ?s3"
    unfolding save_block_link_def using g g2 s1(1) s2(1) uN N(1) by (simp del: fun_upd_apply)
  show ?thesis unfolding run returns.simps v using L' lc new old s2(3) by (simp add: set_block_def del: fun_upd_apply)
qed

lemma save_block_link_ok:
  assumes f: "valid_ptr f" "at f = p" and L: "linked (view s) own p t n" and n: "n < NINDIRECT"
    and b: "own bno = Some (t, Some n)" and ok: "own_ok own (nextbno s)" and p: "own (fst p) \<noteq> Some (t, None)"
    and N: "nextbno s + new_index n \<le> NBLOCK" "fst p < nextbno s" "3 \<le> nextbno s"
  shows "returns (\<lambda>s'. nextbno s' = nextbno s + new_index n \<and> linked (view s') (new_owner t n (nextbno s) own) p t (Suc n)
      \<and> blink (view s') p n = of_nat bno \<and> (\<forall>i < n. blink (view s') p i = blink (view s) p i)
      \<and> link_change (view s) (view s') (new_owner t n (nextbno s) own) p t) (save_block_link f n bno s)"
proof -
  consider "n < NDIRECT" | "n = NDIRECT" | "NDIRECT < n" by linarith
  then show ?thesis
  proof cases
    case 1
    then show ?thesis using save_direct[OF f L 1 b ok] by (simp add: new_owner_def)
  next
    case 2
    then show ?thesis using save_first_index[OF f _ _ N(2,3) _ ok] L N(1) b by (simp add: new_owner_def)
  next
    case 3
    then show ?thesis using save_indirect[OF f L 3 n b ok p] by (simp add: new_owner_def)
  qed
qed

section \<open>Images built from entries\<close>

text \<open>An entry of the root directory: name, size, type, and the contents of its blocks so far.\<close>

type_synonym entry = "string \<times> u32 \<times> u32 \<times> char list list"

definition holds :: "(nat \<Rightarrow> nat \<Rightarrow> u32) \<Rightarrow> owners \<Rightarrow> fptr \<Rightarrow> nat \<Rightarrow> entry \<Rightarrow> bool" where
  "holds V own p t e \<longleftrightarrow> (case e of (nm, sz, ty, chs) \<Rightarrow>
     (\<forall>i \<le> length nm. blk_byte (fw V p) i = (nm @ [NUL]) ! i) \<and> fw V p F_SIZE = sz \<and> fw V p F_TYPE = ty
     \<and> linked V own p t (length chs)
     \<and> (\<forall>i < length chs. \<forall>m < length (chs ! i). blk_byte (V (unat (blink V p i))) m = chs ! i ! m))"

definition name_ok :: "string \<Rightarrow> bool" where
  "name_ok nm \<longleftrightarrow> nm \<noteq> [] \<and> NUL \<notin> set nm \<and> length nm < 128"

abbreviation root :: fptr where "root \<equiv> (1, 2)"

definition slot :: "(nat \<Rightarrow> nat \<Rightarrow> u32) \<Rightarrow> nat \<Rightarrow> fptr" where
  "slot V k = (unat (blink V root (k div 16)), k mod 16 * 64)"

definition index_blocks :: "nat \<Rightarrow> nat" where
  "index_blocks n = (if n \<le> NDIRECT then 0 else 1)"

definition used :: "entry list \<Rightarrow> nat \<Rightarrow> nat" where
  "used es nd = 3 + nd + index_blocks nd + sum_list (map (\<lambda>(_, _, _, chs). length chs + index_blocks (length chs)) es)"

definition full_bitmap :: "nat \<Rightarrow> u32" where
  "full_bitmap k = (if k < 32 then 0xFFFFFFFF else 0)"

text \<open>
  The image holds the entries \<open>es\<close> in \<open>nd\<close> blocks of the root directory, in order, and nothing else; the
  bitmap is not yet written.
\<close>

definition built :: "(nat \<Rightarrow> nat \<Rightarrow> u32) \<Rightarrow> nat \<Rightarrow> owners \<Rightarrow> entry list \<Rightarrow> nat \<Rightarrow> bool" where
  "built V N own es nd \<longleftrightarrow> own_ok own N \<and> N = used es nd
     \<and> linked V own root 0 nd \<and> fw V root F_SIZE = of_nat (4096 * nd) \<and> fw V root F_TYPE = FTYPE_DIR
     \<and> V 1 0 = FS_MAGIC \<and> V 1 1 = of_nat NBLOCK \<and> (\<forall>k < 1024. V 2 k = full_bitmap k)
     \<and> length es \<le> 16 * nd \<and> 16 * nd \<le> length es + 16
     \<and> (\<forall>k < length es. holds V own (slot V k) (Suc k) (es ! k) \<and> name_ok (fst (es ! k)))
     \<and> (\<forall>k. length es \<le> k \<and> k < 16 * nd \<longrightarrow> (\<forall>w < 64. fw V (slot V k) w = 0))
     \<and> (\<forall>b \<ge> N. V b = (\<lambda>_. 0))"

lemma builtD:
  assumes "built V N own es nd"
  shows "own_ok own N" "N = used es nd" "linked V own root 0 nd" "fw V root F_SIZE = of_nat (4096 * nd)" "fw V root F_TYPE = FTYPE_DIR"
    "V 1 0 = FS_MAGIC" "V 1 1 = of_nat NBLOCK" "length es \<le> 16 * nd" "16 * nd \<le> length es + 16"
    "k < length es \<Longrightarrow> holds V own (slot V k) (Suc k) (es ! k)" "k < length es \<Longrightarrow> name_ok (fst (es ! k))"
    "length es \<le> k \<Longrightarrow> k < 16 * nd \<Longrightarrow> w < 64 \<Longrightarrow> fw V (slot V k) w = 0" "N \<le> b \<Longrightarrow> V b = (\<lambda>_. 0)" "i < 1024 \<Longrightarrow> V 2 i = full_bitmap i"
  using assms unfolding built_def by blast+

lemma builtI:
  assumes "own_ok own N" "N = used es nd" "linked V own root 0 nd" "fw V root F_SIZE = of_nat (4096 * nd)" "fw V root F_TYPE = FTYPE_DIR"
    "V 1 0 = FS_MAGIC" "V 1 1 = of_nat NBLOCK" "\<And>i. i < 1024 \<Longrightarrow> V 2 i = full_bitmap i" "length es \<le> 16 * nd" "16 * nd \<le> length es + 16"
    "\<And>k. k < length es \<Longrightarrow> holds V own (slot V k) (Suc k) (es ! k)" "\<And>k. k < length es \<Longrightarrow> name_ok (fst (es ! k))"
    "\<And>k w. length es \<le> k \<Longrightarrow> k < 16 * nd \<Longrightarrow> w < 64 \<Longrightarrow> fw V (slot V k) w = 0" "\<And>b. N \<le> b \<Longrightarrow> V b = (\<lambda>_. 0)"
  shows "built V N own es nd"
  unfolding built_def using assms by blast

lemma used_least: "3 + nd \<le> used es nd"
  by (simp add: used_def)

lemma built_bounds:
  assumes "built V N own es nd"
  shows "3 \<le> N" "N \<le> NBLOCK" "nd \<le> NBLOCK"
proof -
  show N: "N \<le> NBLOCK" using builtD(1)[OF assms] by (simp add: own_ok_def)
  have "3 + nd \<le> N" using used_least builtD(2)[OF assms] by simp
  then show "3 \<le> N" "nd \<le> NBLOCK" using N by linarith+
qed

lemma linked_frame:
  assumes "linked V own p t n" and "\<And>w. F_DIRECT \<le> w \<Longrightarrow> w < 64 \<Longrightarrow> fw V' p w = fw V p w" and "\<And>b. own b = Some (t, None) \<Longrightarrow> V' b = V b"
    and "\<And>b x. own b = Some x \<Longrightarrow> own' b = Some x"
  shows "linked V' own' p t n" "i < n \<Longrightarrow> blink V' p i = blink V p i"
proof -
  have b: "blink V' p i = blink V p i" if "i < n" for i
  proof (cases "i < NDIRECT")
    case True
    then show ?thesis using assms(2) by (simp add: blink_fw)
  next
    case False
    then have "own (unat (fw V p F_INDIRECT)) = Some (t, None)" using assms(1) that by (auto simp: linked_def split: if_splits)
    then show ?thesis using False assms(2,3) by (simp add: blink_index)
  qed
  then show "i < n \<Longrightarrow> blink V' p i = blink V p i" .
  show "linked V' own' p t n" using assms b by (auto simp: linked_def)
qed

lemma blk_byte_cong: "i < 256 \<Longrightarrow> (\<And>w. w < 64 \<Longrightarrow> a w = b w) \<Longrightarrow> blk_byte a i = blk_byte b i"
  by (simp add: blk_byte_def)

lemma holds_frame:
  assumes "holds V own p t e" and "name_ok (fst e)" and w: "\<And>w. w < 64 \<Longrightarrow> fw V' p w = fw V p w"
    and b: "\<And>b x. own b = Some (t, x) \<Longrightarrow> V' b = V b" and o: "\<And>b x. own b = Some x \<Longrightarrow> own' b = Some x"
  shows "holds V' own' p t e"
proof -
  obtain nm sz ty chs where e: "e = (nm, sz, ty, chs)" by (cases e)
  have h: "\<forall>i \<le> length nm. blk_byte (fw V p) i = (nm @ [NUL]) ! i" "fw V p F_SIZE = sz" "fw V p F_TYPE = ty"
    "linked V own p t (length chs)" "\<forall>i < length chs. \<forall>m < length (chs ! i). blk_byte (V (unat (blink V p i))) m = chs ! i ! m"
    using assms(1) by (simp_all add: holds_def e)
  have lf: "linked V' own' p t (length chs)" "\<And>i. i < length chs \<Longrightarrow> blink V' p i = blink V p i"
    by (rule linked_frame[OF h(4)]; use w b o in blast)+
  have "length nm < 128" using assms(2) by (simp add: e name_ok_def)
  then have nb: "i \<le> length nm \<Longrightarrow> blk_byte (fw V' p) i = blk_byte (fw V p) i" for i by (intro blk_byte_cong) (simp_all add: w)
  have "own (unat (blink V p i)) = Some (t, Some i)" if "i < length chs" for i using h(4) that by (simp add: linked_def)
  then have "V' (unat (blink V p i)) = V (unat (blink V p i))" if "i < length chs" for i using b that by blast
  then show ?thesis unfolding holds_def e using h lf nb w by simp
qed

text \<open>The blocks of the directory, and that its slots do not overlap.\<close>

lemma slot_owner:
  assumes "linked V own root 0 nd" "k < 16 * nd"
  shows "own (fst (slot V k)) = Some (0, Some (k div 16))"
proof -
  have "k div 16 < nd" using assms(2) by (simp add: less_mult_imp_div_less mult.commute)
  then show ?thesis using assms(1) by (simp add: linked_def slot_def)
qed

lemma slots_apart:
  assumes "linked V own root 0 nd" "k < 16 * nd" "j < 16 * nd" "k \<noteq> j" "w < 64"
  shows "fst (slot V k) \<noteq> fst (slot V j) \<or> snd (slot V k) + w < snd (slot V j) \<or> snd (slot V j) + 64 \<le> snd (slot V k) + w"
proof (cases "fst (slot V k) = fst (slot V j)")
  case True
  then have "k div 16 = j div 16" using slot_owner[OF assms(1,2)] slot_owner[OF assms(1,3)] by simp
  then have "k mod 16 \<noteq> j mod 16" using assms(4) by (metis mod_div_mult_eq)
  then have "k mod 16 + 1 \<le> j mod 16 \<or> j mod 16 + 1 \<le> k mod 16" by linarith
  then show ?thesis unfolding slot_def snd_conv using assms(5) by linarith
qed simp

text \<open>Changing one entry: only its slot and its own blocks, old or new, may differ.\<close>

lemma built_change:
  assumes B: "built V N own es0 nd" and K: "K \<le> length es0" "length es0 \<le> Suc K" "K < 16 * nd"
    and C: "\<And>b k. \<lbrakk>b = fst (slot V K) \<Longrightarrow> k < snd (slot V K) \<or> snd (slot V K) + 64 \<le> k; \<And>x. own b \<noteq> Some (Suc K, x); b < N\<rbrakk> \<Longrightarrow> V' b k = V b k"
    and o: "\<And>b x. own b = Some x \<Longrightarrow> own' b = Some x" and ok: "own_ok own' N'" and z: "\<And>b. N' \<le> b \<Longrightarrow> V' b = (\<lambda>_. 0)"
    and u: "N' = used (take K es0 @ [e]) nd" and h: "holds V' own' (slot V K) (Suc K) e" "name_ok (fst e)"
  shows "built V' N' own' (take K es0 @ [e]) nd" "slot V' K = slot V K"
proof -
  note D = builtD[OF B] and bd = built_bounds[OF B]
  have own_dir: "own (fst (slot V K)) = Some (0, Some (K div 16))" by (rule slot_owner[OF D(3) K(3)])
  have sysK: "fst (slot V K) \<noteq> 1" "fst (slot V K) \<noteq> 2" using own_okD(1)[OF D(1) own_dir] by simp_all
  have none: "own 1 = None" "own 2 = None" by (rule ccontr, use own_okD(1)[OF D(1), of 1] own_okD(1)[OF D(1), of 2] in force)+
  have sys: "V' 1 = V 1" "V' 2 = V 2" using C[of 1] C[of 2] sysK none bd(1) by (auto simp: fun_eq_iff)
  have fr: "fw V' root w = fw V root w" for w by (simp only: fw_def fst_conv sys)
  have other: "V' b = V b" if "own b = Some (t, x)" "t \<noteq> Suc K" "b \<noteq> fst (slot V K)" for b t x
    using C[of b] that own_okD(2)[OF D(1) that(1)] by (auto simp: fun_eq_iff)
  have ri: "V' b = V b" if "own b = Some (0, None)" for b using other[OF that] own_dir that by fastforce
  have rl: "linked V' own' root 0 nd" "\<And>i. i < nd \<Longrightarrow> blink V' root i = blink V root i"
    by (rule linked_frame[OF D(3)]; use fr ri o in blast)+
  have slots: "slot V' k = slot V k" if "k < 16 * nd" for k
  proof -
    have "k div 16 < nd" using that by (simp add: less_mult_imp_div_less mult.commute)
    then show ?thesis using rl(2) by (simp add: slot_def)
  qed
  then show "slot V' K = slot V K" using K(3) by simp
  have words: "fw V' (slot V k) w = fw V (slot V k) w" if "k < 16 * nd" "k \<noteq> K" "w < 64" for k w
  proof -
    have "own (fst (slot V k)) = Some (0, Some (k div 16))" by (rule slot_owner[OF D(3) that(1)])
    then show ?thesis unfolding fw_def
      using C[of "fst (slot V k)" "snd (slot V k) + w"] slots_apart[OF D(3) that(1) K(3) that(2,3)] own_okD(2)[OF D(1)] by auto
  qed
  have lt: "k < K \<Longrightarrow> k < 16 * nd" for k using K(3) by linarith
  have old: "holds V' own' (slot V' k) (Suc k) (es0 ! k) \<and> name_ok (fst (es0 ! k))" if "k < K" for k
  proof -
    have k: "k < length es0" using that K(1) by simp
    have "holds V' own' (slot V k) (Suc k) (es0 ! k)"
    proof (rule holds_frame[OF D(10)[OF k] D(11)[OF k]])
      show "V' b = V b" if "own b = Some (Suc k, x)" for b x using other[OF that] own_dir that \<open>k < K\<close> by fastforce
    qed (use that words[OF lt[OF that]] o in auto)
    then show ?thesis using slots[OF lt[OF that]] D(11)[OF k] by simp
  qed
  have free: "fw V' (slot V' k) w = 0" if "Suc K \<le> k" "k < 16 * nd" "w < 64" for k w
    using words[OF that(2) _ that(3)] D(12)[OF _ that(2,3)] that(1) K(2) slots[OF that(2)] by simp
  let ?es = "take K es0 @ [e]"
  have len: "length ?es = Suc K" using K(1) by simp
  have ents: "holds V' own' (slot V' k) (Suc k) (?es ! k) \<and> name_ok (fst (?es ! k))" if "k < length ?es" for k
    using that old[of k] h slots[OF K(3)] K(1) unfolding len by (cases "k = K") (simp_all add: nth_append min_absorb2)
  have D14: "\<forall>i < 1024. V 2 i = full_bitmap i" using D(14) by blast
  show "built V' N' own' ?es nd"
    unfolding built_def len fr sys using ok u rl(1) D(4-9) K(2,3) z ents free D14 len by auto
qed

section \<open>The operations on built images\<close>

lemma used_snoc: "used (es @ [(nm, sz, ty, chs @ [c])]) nd = used (es @ [(nm, sz, ty, chs)]) nd + 1 + new_index (length chs)"
  by (simp add: used_def index_blocks_def)

lemma used_Suc: "used es (Suc nd) = used es nd + 1 + new_index nd"
  by (simp add: used_def index_blocks_def)

lemma append_block:
  assumes B: "built (view s) (nextbno s) own (es @ [(nm, sz, ty, chs)]) nd" and f: "valid_ptr f" "at f = slot (view s) (length es)"
    and N: "nextbno s + 1 + new_index (length chs) \<le> NBLOCK"
  shows "returns (\<lambda>s'. (\<exists>own'. built (view s') (nextbno s') own' (es @ [(nm, sz, ty, chs @ [c])]) nd) \<and> at f = slot (view s') (length es)
      \<and> nextbno s' = nextbno s + 1 + new_index (length chs))
    (obind (read_into (nextbno s) c s) (\<lambda>s. obind (next_block BLOCK_DATA s) (\<lambda>(bno, s). save_block_link f (length chs) bno s)))"
proof -
  let ?V = "view s" and ?N = "nextbno s" and ?K = "length es" and ?n = "length chs" and ?old = "(nm, sz, ty, chs)"
  let ?t = "Suc (length es)" and ?p = "slot (view s) (length es)"
  note D = builtD[OF B] and bd = built_bounds[OF B]
  have K: "?K \<le> length (es @ [?old])" "length (es @ [?old]) \<le> Suc ?K" "?K < 16 * nd" using D(8) by simp_all
  have H: "holds ?V own ?p ?t ?old" "name_ok nm" using D(10,11)[of ?K] by (simp_all add: nth_append)
  have lt: "?N < NBLOCK" using N by linarith
  define s1 where "s1 = set_block ?N (put_at 0 c (blocks s ?N)) s"
  have zero: "blocks s ?N = (\<lambda>_. 0)" using D(13)[of ?N] bd(1) by (simp add: view_eq)
  have s1: "view s1 = ?V(?N := put_at 0 c (\<lambda>_. 0))" "nextbno s1 = ?N"
    using bd(1) by (simp_all add: s1_def set_block_view zero)
  obtain s2 where s2: "next_block BLOCK_DATA s1 = Ret (?N, s2)" "view s2 = view s1" "nextbno s2 = ?N + 1"
    using next_block_view[of s1 BLOCK_DATA] s1(2) lt by (auto simp: returns_iff)
  let ?first = "own(?N \<mapsto> (?t, Some ?n))"
  have ext: "own b = Some x \<Longrightarrow> ?first b = Some x" for b x using own_okD(2)[OF D(1), of b x] by auto
  have ok0: "own_ok ?first (?N + 1)" by (rule own_ok_insert[OF D(1) bd(1) lt])
  have dir: "own (fst ?p) = Some (0, Some (?K div 16))" by (rule slot_owner[OF D(3) K(3)])
  have pN: "fst ?p < ?N" "3 \<le> fst ?p" using own_okD[OF D(1) dir] by simp_all
  have same: "fw (view s2) ?p w = fw ?V ?p w" for w using pN by (simp add: fw_def s2(2) s1(1))
  have at_old: "view s2 b = ?V b" if "own b = Some x" for b x using own_okD(2)[OF D(1) that] by (simp add: s2(2) s1(1))
  have L: "linked ?V own ?p ?t ?n" using H(1) by (simp add: holds_def)
  have L2: "linked (view s2) ?first ?p ?t ?n" "\<And>i. i < ?n \<Longrightarrow> blink (view s2) ?p i = blink ?V ?p i"
    by (rule linked_frame[OF L]; use same at_old ext in blast)+
  have n: "?n < NINDIRECT"
    using D(2) N by (simp add: used_def)
  let ?own = "new_owner ?t ?n (?N + 1) ?first" and ?N' = "?N + 1 + new_index ?n"
  obtain s' where s': "save_block_link f ?n ?N s2 = Ret s'" "nextbno s' = ?N'" "linked (view s') ?own ?p ?t (Suc ?n)"
    "blink (view s') ?p ?n = of_nat ?N" "\<And>i. i < ?n \<Longrightarrow> blink (view s') ?p i = blink ?V ?p i" "link_change (view s2) (view s') ?own ?p ?t"
    using save_block_link_ok[OF f(1) f(2) L2(1) n, of ?N] ok0 dir N pN bd(1) s2(3) L2(2) by (auto simp: returns_iff)
  have ok': "own_ok ?own ?N'" using ok0 own_ok_insert[OF ok0] N bd(1) by (cases "?n = NDIRECT") (simp_all add: new_owner_def)
  have ext': "?own b = Some x" if "own b = Some x" for b x
    using ext[OF that] own_okD(2)[OF D(1) that] by (auto simp: new_owner_def)
  have ch: "view s' b k = view s2 b k" if "b = fst ?p \<Longrightarrow> k < snd ?p + F_DIRECT \<or> snd ?p + F_INDIRECT < k" "?own b \<noteq> Some (?t, None)" for b k
  proof -
    have "\<not> (b = fst ?p \<and> snd ?p + F_DIRECT \<le> k \<and> k \<le> snd ?p + F_INDIRECT)" using that(1) by fastforce
    then show ?thesis using s'(6) that(2) unfolding link_change_def by blast
  qed
  have own_lt: "?own b = own b" if "b < ?N" for b using that by (auto simp: new_owner_def)
  have pown: "?own (fst ?p) \<noteq> Some (?t, None)" using own_lt[OF pN(1)] dir by simp
  have C: "view s' b k = ?V b k"
    if "b = fst ?p \<Longrightarrow> k < snd ?p \<or> snd ?p + 64 \<le> k" "\<And>x. own b \<noteq> Some (?t, x)" "b < ?N" for b k
  proof -
    have "b = fst ?p \<Longrightarrow> k < snd ?p + F_DIRECT \<or> snd ?p + F_INDIRECT < k" using that(1) by linarith
    then have "view s' b k = view s2 b k" using ch[of b k] that(2) own_lt[OF that(3)] by simp
    then show ?thesis using that(3) by (simp add: s2(2) s1(1))
  qed
  have z: "view s' b = (\<lambda>_. 0)" if "?N' \<le> b" for b
  proof -
    have "?own b = None" using own_okD(2)[OF ok', of b] that by (cases "?own b") fastforce+
    then have "view s' b = view s2 b" using ch[of b] pN(1) that by (auto simp: fun_eq_iff)
    then show ?thesis using D(13)[of b] that by (simp add: s2(2) s1(1))
  qed
  have hdr: "fw (view s') ?p w = fw ?V ?p w" if "w < F_DIRECT" for w
    using ch[OF _ pown, of "snd ?p + w"] that same[of w] by (simp add: fw_def)
  have bytes: "blk_byte (fw (view s') ?p) i = blk_byte (fw ?V ?p) i" if "i \<le> length nm" for i
  proof -
    have "length nm < 128" using H(2) by (simp add: name_ok_def)
    then have "i div 4 < F_DIRECT" using that by linarith
    then show ?thesis using hdr by (simp add: blk_byte_def)
  qed
  have HD: "blk_byte (?V (unat (blink ?V ?p i))) m = chs ! i ! m" if "i < ?n" "m < length (chs ! i)" for i m
    using H(1) that by (simp add: holds_def)
  have data: "blk_byte (view s' (unat (blink (view s') ?p i))) m = (chs @ [c]) ! i ! m" if "i < Suc ?n" "m < length ((chs @ [c]) ! i)" for i m
  proof (cases "i = ?n")
    case True
    have "?own ?N = Some (?t, Some ?n)" by (auto simp: new_owner_def)
    then have "view s' ?N = put_at 0 c (\<lambda>_. 0)" using ch[of ?N] pN(1) by (auto simp: s2(2) s1(1) fun_eq_iff)
    then have "blk_byte (view s' ?N) m = c ! m" using that(2) True by (simp only: blk_byte_put_at) simp
    then show ?thesis unfolding True s'(4) unat_block[OF lt] by simp
  next
    case False
    let ?b = "unat (blink ?V ?p i)"
    have b: "own ?b = Some (?t, Some i)" using L that(1) False by (simp add: linked_def)
    have "?b \<noteq> fst ?p" using b dir by auto
    then have "view s' ?b = ?V ?b" using ch[of ?b] ext'[OF b] at_old[OF b] by (auto simp: fun_eq_iff)
    moreover have i: "i < ?n" using that(1) False by simp
    moreover have e: "(chs @ [c]) ! i = chs ! i" using i by (simp add: nth_append)
    moreover have "blk_byte (?V ?b) m = chs ! i ! m" by (rule HD[OF i that(2)[unfolded e]])
    ultimately show ?thesis unfolding s'(5)[OF i] by simp
  qed
  have h: "holds (view s') ?own ?p ?t (nm, sz, ty, chs @ [c])"
    unfolding holds_def prod.case length_append_singleton
  proof (intro conjI allI impI)
    show "linked (view s') ?own ?p ?t (Suc ?n)" by (rule s'(3))
    show "i \<le> length nm \<Longrightarrow> blk_byte (fw (view s') ?p) i = (nm @ [NUL]) ! i" for i using bytes[of i] H(1) by (simp add: holds_def)
    show "fw (view s') ?p F_SIZE = sz" "fw (view s') ?p F_TYPE = ty" using hdr H(1) by (simp_all add: holds_def)
    show "i < Suc ?n \<Longrightarrow> m < length ((chs @ [c]) ! i) \<Longrightarrow> blk_byte (view s' (unat (blink (view s') ?p i))) m = (chs @ [c]) ! i ! m" for i m
      by (rule data)
  qed
  let ?new = "(nm, sz, ty, chs @ [c])"
  have tk: "take ?K (es @ [?old]) @ [?new] = es @ [?new]" by simp
  have u: "?N' = used (take ?K (es @ [?old]) @ [?new]) nd" unfolding tk D(2) unfolding used_snoc ..
  have nm: "name_ok (fst ?new)" using H(2) by simp
  have "built (view s') ?N' ?own (take ?K (es @ [?old]) @ [?new]) nd" "slot (view s') ?K = ?p"
    by (rule built_change[OF B K]; fact C ext' ok' z u h nm)+
  note built = this[unfolded tk]
  have "obind (read_into ?N c s) (\<lambda>s. obind (next_block BLOCK_DATA s) (\<lambda>(bno, s). save_block_link f ?n bno s)) = Ret s'"
    using lt s2(1) s'(1) by (simp add: read_into_def s1_def)
  then show ?thesis using s'(2) f(2) built by auto
qed

text \<open>The contents of a file in pieces of a block.\<close>

function chunks :: "char list \<Rightarrow> char list list" where
  "chunks cs = (if cs = [] then [] else take BY2BLK cs # chunks (drop BY2BLK cs))"
  by pat_completeness auto
termination by (relation "measure length") auto

declare chunks.simps [simp del]

lemma chunks_Nil [simp]: "chunks [] = []"
  by (simp add: chunks.simps)

lemma used_mono: "used (es @ [(nm, sz, ty, chs)]) nd \<le> used (es @ [(nm, sz, ty, chs @ cs)]) nd"
  by (simp add: used_def index_blocks_def)

lemma write_blocks_ok:
  assumes "built (view s) (nextbno s) own (es @ [(nm, sz, ty, chs)]) nd" and "valid_ptr f" "at f = slot (view s) (length es)"
    and "used (es @ [(nm, sz, ty, chs @ chunks cs)]) nd \<le> NBLOCK"
  shows "returns (\<lambda>s'. \<exists>own'. built (view s') (nextbno s') own' (es @ [(nm, sz, ty, chs @ chunks cs)]) nd) (write_blocks f (length chs) cs s)"
  using assms
proof (induction cs arbitrary: s own chs rule: chunks.induct)
  case (1 cs)
  show ?case
  proof (cases "cs = []")
    case True
    then show ?thesis using 1(2) by (auto simp: write_blocks.simps)
  next
    case False
    let ?c = "take BY2BLK cs" and ?r = "drop BY2BLK cs"
    have ch: "chs @ chunks cs = (chs @ [?c]) @ chunks ?r" using False by (simp add: chunks.simps[of cs])
    have "used (es @ [(nm, sz, ty, chs @ [?c])]) nd \<le> NBLOCK"
      using 1(5) used_mono[of es nm sz ty "chs @ [?c]" nd "chunks ?r"] unfolding ch by (rule le_trans[rotated])
    then have N: "nextbno s + 1 + new_index (length chs) \<le> NBLOCK" using builtD(2)[OF 1(2)] unfolding used_snoc by simp
    obtain s' own' where s': "obind (read_into (nextbno s) ?c s) (\<lambda>s. obind (next_block BLOCK_DATA s) (\<lambda>(bno, s). save_block_link f (length chs) bno s)) = Ret s'"
      "built (view s') (nextbno s') own' (es @ [(nm, sz, ty, chs @ [?c])]) nd" "at f = slot (view s') (length es)"
      using append_block[OF 1(2-4) N, of ?c] by (auto simp: returns_iff)
    have step: "write_blocks f (length chs) cs s = write_blocks f (length (chs @ [?c])) ?r s'"
      using s'(1) False by (auto simp: write_blocks.simps[of f "length chs" cs s] obind_eq_Ret split_beta)
    show ?thesis unfolding step ch by (rule 1(1)[OF False s'(2) 1(3) s'(3) 1(5)[unfolded ch]])
  qed
qed

lemma with_file_twice: "with_file (with_file V p w) p w' = with_file V p w'"
  by (auto simp: with_file_def fun_eq_iff)

lemma write_header:
  assumes B: "built (view s) (nextbno s) own es nd" and K: "length es < 16 * nd" and f: "valid_ptr f" "at f = slot (view s) (length es)"
    and nm: "name_ok nm"
  shows "\<exists>s1 s2 s3. set_name f (nm @ [NUL]) s = Ret s1 \<and> set_field f F_SIZE sz s1 = Ret s2 \<and> set_field f F_TYPE ty s2 = Ret s3
    \<and> nextbno s3 = nextbno s \<and> built (view s3) (nextbno s3) own (es @ [(nm, sz, ty, [])]) nd \<and> at f = slot (view s3) (length es)"
proof -
  let ?V = "view s" and ?p = "slot (view s) (length es)" and ?K = "length es"
  note D = builtD[OF B]
  have len: "length (nm @ [NUL]) \<le> 128" using nm by (simp add: name_ok_def)
  define w1 where "w1 = put_at 0 (nm @ [NUL]) (fw ?V ?p)"
  obtain s1 where s1: "set_name f (nm @ [NUL]) s = Ret s1" "view s1 = with_file ?V ?p w1" "nextbno s1 = nextbno s"
    using set_name_view[OF f(1) len, of s] f(2) by (auto simp: returns_iff w1_def)
  define w2 where "w2 = (fw (view s1) ?p)(F_SIZE := sz)"
  obtain s2 where s2: "set_field f F_SIZE sz s1 = Ret s2" "view s2 = with_file ?V ?p w2" "nextbno s2 = nextbno s"
    using set_field_view[OF f(1), of F_SIZE s1 sz] f(2) s1(2,3) by (auto simp: returns_iff w2_def with_file_twice)
  define w3 where "w3 = (fw (view s2) ?p)(F_TYPE := ty)"
  obtain s3 where s3: "set_field f F_TYPE ty s2 = Ret s3" "view s3 = with_file ?V ?p w3" "nextbno s3 = nextbno s"
    using set_field_view[OF f(1), of F_TYPE s2 ty] f(2) s2(2,3) by (auto simp: returns_iff w3_def with_file_twice)
  have w: "fw (view s3) ?p k = (if k = F_TYPE then ty else if k = F_SIZE then sz else put_at 0 (nm @ [NUL]) (fw ?V ?p) k)" if "k < 64" for k
    using that by (simp add: s3(2) w3_def s2(2) w2_def s1(2) w1_def fw_with_file)
  have bytes: "blk_byte (fw (view s3) ?p) i = (nm @ [NUL]) ! i" if "i \<le> length nm" for i
  proof -
    have i: "i div 4 < 32" using that len by simp
    then have "blk_byte (fw (view s3) ?p) i = blk_byte (put_at 0 (nm @ [NUL]) (fw ?V ?p)) i" by (simp add: blk_byte_def w)
    then show ?thesis using that by (simp add: blk_byte_put_at)
  qed
  have "fw (view s3) ?p F_INDIRECT = fw ?V ?p F_INDIRECT" using len by (simp add: w put_at_word)
  also have "\<dots> = 0" by (rule D(12)[OF order_refl K]) simp
  finally have h: "holds (view s3) own ?p (Suc ?K) (nm, sz, ty, [])" using bytes by (simp add: holds_def w linked_def)
  have dir: "own (fst ?p) = Some (0, Some (?K div 16))" by (rule slot_owner[OF D(3) K])
  have C: "view s3 b k = ?V b k" if "b = fst ?p \<Longrightarrow> k < snd ?p \<or> snd ?p + 64 \<le> k" for b k
    using that by (auto simp: s3(2) with_file_def)
  have z: "view s3 b = (\<lambda>_. 0)" if "nextbno s \<le> b" for b
  proof -
    have "b \<noteq> fst ?p" using own_okD(2)[OF D(1) dir] that by auto
    then show ?thesis using D(13)[OF that] by (simp add: s3(2) with_file_def)
  qed
  let ?new = "(nm, sz, ty, []) :: entry"
  have u: "nextbno s = used (take ?K es @ [?new]) nd" using D(2) by (simp add: used_def index_blocks_def)
  have n: "name_ok (fst ?new)" using nm by simp
  have "built (view s3) (nextbno s) own (take ?K es @ [?new]) nd" "slot (view s3) ?K = ?p"
    by (rule built_change[where V' = "view s3" and own' = own and N' = "nextbno s" and e = ?new, OF B order_refl _ K];
        (fact D(1) z u h n | rule C, blast | simp))+
  then show ?thesis using s1(1) s2(1) s3(1,3) f(2) by simp
qed

text \<open>\<open>create_file\<close> gives the slot after the last entry, in a new block if the last one is full.\<close>

lemma last_block_root:
  assumes "built (view s) (nextbno s) own es nd" and "0 < nd"
  shows "last_block Root nd s = Ret (unat (blink (view s) root (nd - 1)))"
proof (cases "nd \<le> NDIRECT")
  case True
  then show ?thesis using get_field_view[of Root "F_DIRECT + (nd - 1)" s] assms(2) by (simp add: last_block_def valid_ptr_def blink_fw)
next
  case False
  let ?i = "unat (fw (view s) root F_INDIRECT)"
  have o: "own ?i = Some (0, None)" using builtD(3)[OF assms(1)] False by (simp add: linked_def)
  note r = own_okD[OF builtD(1)[OF assms(1)] o]
  have "get_field Root F_INDIRECT s = Ret (fw (view s) root F_INDIRECT)" using get_field_view[of Root F_INDIRECT s] by (simp add: valid_ptr_def)
  moreover have "blocks s ?i = view s ?i" using r(1) by (simp add: view_eq)
  moreover have "blink (view s) root (nd - 1) = view s ?i (nd - 1)" using False by (intro blink_index) simp
  ultimately show ?thesis using False r(3) built_bounds(3)[OF assms(1)] by (simp add: last_block_def)
qed

lemma word_byte_zero: "word_byte 0 k = NUL"
  unfolding word_byte_def by (simp, code_simp)

lemma first_byte:
  assumes "built V N own es nd" and "k < 16 * nd"
  shows "word_byte (fw V (slot V k) 0) 0 = NUL \<longleftrightarrow> length es \<le> k"
proof (cases "k < length es")
  case True
  obtain nm sz ty chs where e: "es ! k = (nm, sz, ty, chs)" by (cases "es ! k")
  have "blk_byte (fw V (slot V k)) 0 = nm ! 0" "nm ! 0 \<noteq> NUL"
    using builtD(10)[OF assms(1) True] builtD(11)[OF assms(1) True] by (auto simp: e holds_def name_ok_def nth_append in_set_conv_nth)
  then show ?thesis using True by (simp add: blk_byte_def)
next
  case False
  then show ?thesis using builtD(12)[OF assms(1) _ assms(2), of 0] by (simp add: word_byte_zero)
qed

lemma unused_root:
  assumes "built (view s) (nextbno s) own es nd" and "0 < nd"
  shows "unused_slot (unat (blink (view s) root (nd - 1))) s = Ret (if length es < 16 * nd then Some (length es mod 16) else None)"
proof -
  let ?b = "unat (blink (view s) root (nd - 1))" and ?K = "length es"
  note D = builtD[OF assms(1)]
  obtain m where m: "nd = Suc m" using assms(2) by (cases nd) auto
  have o: "own ?b = Some (0, Some m)" using D(3) m by (simp add: linked_def)
  note r = own_okD[OF D(1) o]
  have vb: "blocks s ?b = view s ?b" using r(1) by (simp add: view_eq)
  have sl: "slot (view s) (16 * m + j) = (?b, j * 64)" if "j < 16" for j using that m by (simp add: slot_def)
  have P: "word_byte (blocks s ?b (j * FILE_WORDS)) 0 = NUL \<longleftrightarrow> ?K \<le> 16 * m + j" if "j < 16" for j
    using first_byte[OF assms(1), of "16 * m + j"] that m unfolding sl[OF that] vb fw_def by simp
  have u: "unused_slot ?b s = Ret (find (\<lambda>j. word_byte (blocks s ?b (j * FILE_WORDS)) 0 = NUL) [0..<FILE2BLK])"
    using r(3) by (simp add: unused_slot_def)
  show ?thesis
  proof (cases "?K < 16 * nd")
    case True
    have "16 * m \<le> ?K" using D(9) m by simp
    then obtain q where q: "?K = 16 * m + q" by (rule le_Suc_ex[elim_format]) blast
    then have q: "?K = 16 * m + q" "q < 16" "?K mod 16 = q" using True m by simp_all
    have "find (\<lambda>j. word_byte (blocks s ?b (j * FILE_WORDS)) 0 = NUL) [0..<FILE2BLK] = Some q"
      unfolding find_Some_iff
    proof (intro exI[of _ q] conjI allI impI)
      show "word_byte (blocks s ?b ([0..<FILE2BLK] ! q * FILE_WORDS)) 0 = NUL" using P[OF q(2)] q(1,2) by simp
      show "word_byte (blocks s ?b ([0..<FILE2BLK] ! j * FILE_WORDS)) 0 \<noteq> NUL" if "j < q" for j
        using P[of j] q(1,2) that by simp
    qed (use q(2) in simp_all)
    then show ?thesis using True u q(3) by simp
  next
    case False
    then have "find (\<lambda>j. word_byte (blocks s ?b (j * FILE_WORDS)) 0 = NUL) [0..<FILE2BLK] = None"
      unfolding find_None_iff using P m by auto
    then show ?thesis using False u by simp
  qed
qed

lemma create_scan_root:
  assumes "built (view s) (nextbno s) own es nd"
  shows "create_scan [0..<nd] Root nd s = Ret (if length es < 16 * nd then Some (Slot (unat (blink (view s) root (nd - 1))) (length es mod 16)) else None)"
proof (cases "nd = 0")
  case False
  have "create_scan is Root nd s = Ret (if is \<noteq> [] \<and> length es < 16 * nd then Some (Slot (unat (blink (view s) root (nd - 1))) (length es mod 16)) else None)" for "is"
    using last_block_root[OF assms] unused_root[OF assms] False by (induction "is") auto
  then show ?thesis using False by simp
qed simp

lemma make_link_block_root:
  assumes B: "built (view s) (nextbno s) own es nd" and full: "length es = 16 * nd" and N: "nextbno s + 1 + new_index nd \<le> NBLOCK"
  shows "returns (\<lambda>(b, s'). (\<exists>own'. built (view s') (nextbno s') own' es (Suc nd)) \<and> (b, 0) = slot (view s') (length es) \<and> 3 \<le> b \<and> b < NBLOCK)
    (make_link_block Root nd s)"
proof -
  let ?V = "view s" and ?N = "nextbno s"
  note D = builtD[OF B] and bd = built_bounds[OF B]
  have lt: "?N < NBLOCK" using N by linarith
  have vr: "valid_ptr Root" "at Root = root" by (simp_all add: valid_ptr_def)
  obtain s1 where s1: "next_block BLOCK_FILE s = Ret (?N, s1)" "view s1 = ?V" "nextbno s1 = ?N + 1"
    using next_block_view[OF lt, of BLOCK_FILE] by (auto simp: returns_iff)
  let ?first = "own(?N \<mapsto> (0, Some nd))"
  have ext: "?first b = Some x" if "own b = Some x" for b x using own_okD(2)[OF D(1) that] that by auto
  have ok0: "own_ok ?first (?N + 1)" by (rule own_ok_insert[OF D(1) bd(1) lt])
  have L: "linked (view s1) ?first root 0 nd" by (rule linked_frame(1)[OF D(3)]) (use s1(2) ext in auto)
  have none: "own b = None" if "b < 3" for b using own_okD(1)[OF D(1), of b] that by (cases "own b") fastforce+
  let ?own = "new_owner 0 nd (?N + 1) ?first" and ?N' = "?N + 1 + new_index nd"
  have nd: "nd < NINDIRECT" using D(2) N used_least[of nd es] by linarith
  have r0: "own 1 = None" "?first (fst root) \<noteq> Some (0, None)" using none[of 1] bd(1) by auto
  obtain s2 where s2: "save_block_link Root nd ?N s1 = Ret s2" "nextbno s2 = ?N'" "linked (view s2) ?own root 0 (Suc nd)"
    "blink (view s2) root nd = of_nat ?N" "\<And>i. i < nd \<Longrightarrow> blink (view s2) root i = blink ?V root i" "link_change ?V (view s2) ?own root 0"
    using save_block_link_ok[OF vr L nd, of ?N] ok0 r0(2) N bd(1) s1(2,3) by (auto simp: returns_iff)
  have ok': "own_ok ?own ?N'" using ok0 own_ok_insert[OF ok0] N bd(1) by (cases "nd = NDIRECT") (simp_all add: new_owner_def)
  have own_lt: "?own b = own b" if "b < ?N" for b using that by (auto simp: new_owner_def)
  have ch: "view s2 b k = ?V b k" if "b \<noteq> 1 \<or> k < 36" "?own b \<noteq> Some (0, None)" for b k
    using s2(6) that unfolding link_change_def by auto
  have one: "?own 1 \<noteq> Some (0, None)" "?own 2 \<noteq> Some (0, None)"
  proof -
    have "?own 1 = own 1" "?own 2 = own 2" by (rule own_lt, use bd(1) in linarith)+
    then show "?own 1 \<noteq> Some (0, None)" "?own 2 \<noteq> Some (0, None)" using none[of 1] none[of 2] by simp_all
  qed
  have sz: "fw (view s2) root w = fw ?V root w" if "w < F_DIRECT" for w
    using ch[OF _ one(1), of "2 + w"] that by (simp add: fw_def)
  have g: "get_field Root F_SIZE s2 = Ret (of_nat (4096 * nd))" using get_field_view[OF vr(1), of F_SIZE s2] sz[of F_SIZE] D(4) vr(2) by simp
  define v where "v = (of_nat (4096 * nd) + of_nat BY2BLK :: u32)"
  obtain s3 where s3: "set_field Root F_SIZE v s2 = Ret s3" "view s3 = with_file (view s2) root ((fw (view s2) root)(F_SIZE := v))" "nextbno s3 = ?N'"
    using set_field_view[OF vr(1), of F_SIZE s2 v] vr(2) s2(2) by (auto simp: returns_iff)
  have w3: "fw (view s3) root w = (if w = F_SIZE then v else fw (view s2) root w)" if "w < 64" for w
    using that by (simp add: s3(2) fw_with_file)
  have b3: "view s3 b = view s2 b" if "b \<noteq> 1" for b using that by (simp add: s3(2) with_file_def)
  have L3: "linked (view s3) ?own root 0 (Suc nd)" "\<And>i. i < Suc nd \<Longrightarrow> blink (view s3) root i = blink (view s2) root i"
  proof -
    have i: "view s3 b = view s2 b" if "?own b = Some (0, None)" for b using that one(1) b3 by metis
    show "linked (view s3) ?own root 0 (Suc nd)" "\<And>i. i < Suc nd \<Longrightarrow> blink (view s3) root i = blink (view s2) root i"
      by (rule linked_frame[OF s2(3)]; use i w3 in simp)+
  qed
  have same: "view s3 b = ?V b" if "b \<noteq> 1" "?own b \<noteq> Some (0, None)" for b using ch[of b] that b3 by (auto simp: fun_eq_iff)
  have ext': "?own b = Some x" if "own b = Some x" for b x using own_lt[OF own_okD(2)[OF D(1) that]] that by simp
  have owned: "view s3 b = ?V b" if "own b = Some x" "x \<noteq> (0, None)" for b x
    using that ext'[OF that(1)] own_okD(1)[OF D(1) that(1)] by (intro same) auto
  have slots: "slot (view s3) k = slot ?V k" if "k < 16 * nd" for k
  proof -
    have "k div 16 < nd" using that by (simp add: less_mult_imp_div_less mult.commute)
    then show ?thesis using L3(2) s2(5) by (simp add: slot_def)
  qed
  have ents: "holds (view s3) ?own (slot (view s3) k) (Suc k) (es ! k)" if "k < length es" for k
  proof -
    have k: "k < 16 * nd" using that full by simp
    have "view s3 (fst (slot ?V k)) = ?V (fst (slot ?V k))" by (rule owned[OF slot_owner[OF D(3) k]]) simp
    then have w: "fw (view s3) (slot ?V k) w = fw ?V (slot ?V k) w" for w by (simp add: fw_def)
    have "holds (view s3) ?own (slot ?V k) (Suc k) (es ! k)"
      by (rule holds_frame[OF D(10)[OF that] D(11)[OF that] w _ ext']) (rule owned, assumption, simp)
    then show ?thesis unfolding slots[OF k] .
  qed
  have new: "slot (view s3) k = (?N, k mod 16 * 64)" if "16 * nd \<le> k" "k < 16 * Suc nd" for k
  proof -
    have "k div 16 = nd" using that by (intro div_nat_eqI) simp_all
    then show ?thesis using L3(2)[of nd] s2(4) unat_block[OF lt] by (simp add: slot_def)
  qed
  have free: "fw (view s3) (slot (view s3) k) w = 0" if "length es \<le> k" "k < 16 * Suc nd" for k w
  proof -
    have "?own ?N = Some (0, Some nd)" by (auto simp: new_owner_def)
    then have "view s3 ?N = ?V ?N" using bd(1) by (intro same) auto
    also have "\<dots> = (\<lambda>_. 0)" by (rule D(13)) simp
    finally show ?thesis using new[OF that(1)[unfolded full] that(2)] by (simp add: fw_def)
  qed
  have z: "view s3 b = (\<lambda>_. 0)" if "?N' \<le> b" for b
  proof -
    have "?own b = None" using own_okD(2)[OF ok', of b] that by (cases "?own b") fastforce+
    then have "view s3 b = ?V b" using bd(1) that by (intro same) auto
    then show ?thesis using D(13)[of b] that by simp
  qed
  have low: "view s3 1 k = ?V 1 k" if "k < 2" for k using ch[OF _ one(1), of k] that by (simp add: s3(2) with_file_def)
  have two: "view s3 2 = ?V 2" using same[of 2] one(2) by simp
  have size: "fw (view s3) root F_SIZE = of_nat (4096 * Suc nd)" "fw (view s3) root F_TYPE = FTYPE_DIR"
    using w3 sz D(5) by (simp_all add: v_def)
  have u: "?N' = used es (Suc nd)" unfolding used_Suc D(2)[symmetric] ..
  have built: "built (view s3) ?N' ?own es (Suc nd)"
  proof (rule builtI[OF ok' u L3(1) size])
    show "view s3 1 0 = FS_MAGIC" "view s3 1 1 = of_nat NBLOCK" using low[of 0] low[of 1] D(6,7) by simp_all
    show "view s3 2 i = full_bitmap i" if "i < 1024" for i using D(14)[OF that] two by simp
    show "length es \<le> 16 * Suc nd" "16 * Suc nd \<le> length es + 16" using full by simp_all
    show "holds (view s3) ?own (slot (view s3) k) (Suc k) (es ! k)" "name_ok (fst (es ! k))" if "k < length es" for k
      using ents[OF that] D(11)[OF that] .
    show "fw (view s3) (slot (view s3) k) w = 0" if "length es \<le> k" "k < 16 * Suc nd" for k w by (rule free[OF that])
    show "view s3 b = (\<lambda>_. 0)" if "?N' \<le> b" for b by (rule z[OF that])
  qed
  have run: "make_link_block Root nd s = Ret (?N, s3)"
    using s1(1) s2(1) g s3(1) by (simp add: make_link_block_def v_def)
  have sl: "(?N, 0) = slot (view s3) (length es)" using new[of "length es"] full by simp
  show ?thesis unfolding run returns.simps prod.case s3(3) using built sl lt bd(1) by blast
qed

lemma create_file_root:
  assumes B: "built (view s) (nextbno s) own es nd" and N: "used es (length es div 16 + 1) \<le> NBLOCK"
  shows "returns (\<lambda>(f, s'). (\<exists>own'. built (view s') (nextbno s') own' es (length es div 16 + 1)) \<and> valid_ptr f \<and> at f = slot (view s') (length es))
    (create_file Root s)"
proof -
  note D = builtD[OF B] and bd = built_bounds[OF B]
  have "unat (of_nat (4096 * nd) :: u32) = 4096 * nd" using bd(3) by (intro unat_of_small) simp
  then have g: "get_field Root F_SIZE s = Ret (of_nat (4096 * nd))" "unat (of_nat (4096 * nd) :: u32) div BY2BLK = nd"
    using get_field_view[of Root F_SIZE s] D(4) by (simp_all add: valid_ptr_def)
  have run: "create_file Root s = (if length es < 16 * nd then Ret (Slot (unat (blink (view s) root (nd - 1))) (length es mod 16), s)
      else obind (make_link_block Root nd s) (\<lambda>(bno, s). Ret (Slot bno 0, s)))"
    unfolding create_file_def g(1) obind.simps Let_def g(2) create_scan_root[OF B] by simp
  show ?thesis
  proof (cases "length es < 16 * nd")
    case True
    obtain m where m: "nd = Suc m" using True by (cases nd) auto
    have "length es div 16 = m" using D(9) True m by (intro div_nat_eqI) simp_all
    then have q: "length es div 16 = nd - 1" "nd = length es div 16 + 1" using m by simp_all
    have sl: "slot (view s) (length es) = (unat (blink (view s) root (nd - 1)), length es mod 16 * 64)" by (simp add: slot_def q(1))
    have "own (unat (blink (view s) root (nd - 1))) = Some (0, Some (nd - 1))" using slot_owner[OF D(3) True] unfolding sl by (simp add: q(1))
    note r = own_okD[OF D(1) this]
    show ?thesis unfolding run q(2)[symmetric] using True B sl r by (auto simp: valid_ptr_def)
  next
    case False
    then have full: "length es = 16 * nd" and q: "length es div 16 + 1 = Suc nd" using D(8) by simp_all
    have "nextbno s + 1 + new_index nd \<le> NBLOCK" using N D(2) unfolding q used_Suc by simp
    then show ?thesis unfolding run q using make_link_block_root[OF B full] False by (auto simp: returns_iff valid_ptr_def)
  qed
qed

section \<open>The whole image\<close>

definition file_entry :: "string \<times> char list \<Rightarrow> entry" where
  "file_entry fc = (file_part (fst fc), of_nat (length (snd fc)), FTYPE_REG, chunks (snd fc))"

lemma used_le:
  assumes "nd \<le> nd'"
  shows "used es nd \<le> used (es @ es') nd'"
proof -
  have "index_blocks nd \<le> index_blocks nd'" using assms by (simp add: index_blocks_def)
  then show ?thesis using assms by (simp add: used_def)
qed

lemma write_file_ok:
  assumes "built (view s) (nextbno s) own es nd" and "name_ok (file_part path)"
    and "used (es @ [file_entry (path, cs)]) (length es div 16 + 1) \<le> NBLOCK"
  shows "returns (\<lambda>s'. \<exists>own'. built (view s') (nextbno s') own' (es @ [file_entry (path, cs)]) (length es div 16 + 1)) (write_file Root path (Some cs) s)"
proof -
  let ?nd = "length es div 16 + 1" and ?nm = "file_part path" and ?sz = "of_nat (length cs)"
  have "used es ?nd \<le> NBLOCK" using used_le[OF order_refl, of es ?nd "[file_entry (path, cs)]"] assms(3) by (rule le_trans)
  from create_file_root[OF assms(1) this] obtain f s1 own1 where
    s1: "create_file Root s = Ret (f, s1)" "built (view s1) (nextbno s1) own1 es ?nd" "valid_ptr f" "at f = slot (view s1) (length es)"
    by (auto simp: returns_iff)
  have K: "length es < 16 * ?nd" by (simp add: mult.commute dividend_less_times_div)
  obtain s2 s3 s4 where s4: "set_name f (?nm @ [NUL]) s1 = Ret s2" "set_field f F_SIZE ?sz s2 = Ret s3" "set_field f F_TYPE FTYPE_REG s3 = Ret s4"
    "built (view s4) (nextbno s4) own1 (es @ [(?nm, ?sz, FTYPE_REG, [])]) ?nd" "at f = slot (view s4) (length es)"
    using write_header[OF s1(2) K s1(3,4) assms(2), of ?sz FTYPE_REG] by blast
  have fe: "file_entry (path, cs) = (?nm, ?sz, FTYPE_REG, [] @ chunks cs)" by (simp add: file_entry_def)
  have "write_file Root path (Some cs) s = write_blocks f (length ([] :: char list list)) cs s4"
    using s1(1) s4(1-3) by (simp add: write_file_def)
  then show ?thesis
    using write_blocks_ok[OF s4(4) s1(3) s4(5), of cs] assms(3) unfolding fe by simp
qed

text \<open>What the tool needs for files that all go into the root directory.\<close>

definition blocks_needed :: "(string \<times> char list) list \<Rightarrow> nat" where
  "blocks_needed files = used (map file_entry files) ((length files + 15) div 16)"

definition file_args :: "(string \<times> char list) list \<Rightarrow> (string \<times> host option) list" where
  "file_args files = map (\<lambda>(path, cs). (path, Some (File (Some cs)))) files"

lemma write_args_ok:
  assumes "built (view s) (nextbno s) own es ((length es + 15) div 16)" and "\<forall>(path, cs) \<in> set files. name_ok (file_part path)"
    and "used (es @ map file_entry files) ((length es + length files + 15) div 16) \<le> NBLOCK"
  shows "returns (\<lambda>s'. \<exists>own'. built (view s') (nextbno s') own' (es @ map file_entry files) ((length es + length files + 15) div 16))
    (ofold write_arg (file_args files) s)"
  using assms
proof (induction files arbitrary: s own es)
  case Nil
  then show ?case by (auto simp: file_args_def)
next
  case (Cons fc files)
  obtain path cs where fc: "fc = (path, cs)" by (cases fc)
  let ?es = "es @ [file_entry fc]"
  have nd: "length es div 16 + 1 = (length ?es + 15) div 16" by simp
  have le: "(length ?es + 15) div 16 \<le> (length es + length (fc # files) + 15) div 16" by (intro div_le_mono) simp
  have "used ?es ((length ?es + 15) div 16) \<le> NBLOCK"
    using used_le[OF le, of ?es "map file_entry files"] Cons.prems(3) by simp
  then obtain s' own' where s': "write_file Root path (Some cs) s = Ret s'" "built (view s') (nextbno s') own' ?es ((length ?es + 15) div 16)"
    using write_file_ok[OF Cons.prems(1), of path cs] Cons.prems(2) unfolding nd by (auto simp: returns_iff fc)
  have step: "ofold write_arg (file_args (fc # files)) s = ofold write_arg (file_args files) s'"
    using s'(1) by (simp add: file_args_def fc write_arg_def)
  have n: "length ?es + length files = length es + length (fc # files)" by simp
  have app: "es @ map file_entry (fc # files) = ?es @ map file_entry files" by simp
  show ?case unfolding step app
  proof (rule Cons.IH[OF s'(2), unfolded n])
    show "used (?es @ map file_entry files) ((length es + length (fc # files) + 15) div 16) \<le> NBLOCK" using Cons.prems(3) by simp
  qed (use Cons.prems(2) in simp)
qed

lemma init_disk_ok: "\<exists>s. init_disk blank = Ret s \<and> built (view s) (nextbno s) (\<lambda>_. None) [] 0"
proof -
  have vr: "valid_ptr Root" "at Root = root" by (simp_all add: valid_ptr_def)
  define s1 where "s1 = \<lparr>blocks = (\<lambda>b k. if b = 2 \<and> k < 32 then 0xFFFFFFFF else 0), btype = (\<lambda>_. BLOCK_FREE)(0 := BLOCK_BOOT, 2 := BLOCK_BMAP, 1 := BLOCK_SUPER),
    nbitblock = 1, nextbno = 3, super = (\<lambda>_. 0)(0 := FS_MAGIC, 1 := of_nat NBLOCK)\<rparr>"
  have v1: "view s1 = (\<lambda>b k. if b = 1 then (if k = 0 then FS_MAGIC else if k = 1 then 1024 else 0) else if b = 2 \<and> k < 32 then 0xFFFFFFFF else 0)"
    by (auto simp: view_eq s1_def fun_eq_iff)
  have run: "init_disk blank = obind (set_field Root F_TYPE FTYPE_DIR s1) (set_name Root (''/'' @ [NUL]))"
  proof -
    have c: "NBLOCK \<noteq> 1 * BIT2BLK" "NBLOCK mod BIT2BLK div 8 div 4 = 32" by simp_all
    have e: "(BIT2BLK + NBLOCK - 1) div BIT2BLK = 1" "(NBLOCK + BIT2BLK - 1) div BIT2BLK = 1" "[0..<1 :: nat] = [0]" by simp_all
    have bl: "((\<lambda>_. \<lambda>_. 0)(2 := (\<lambda>k. if k < BLOCK_WORDS then 0xFFFFFFFF else 0)))
        (2 := (\<lambda>k. if 32 \<le> k \<and> k < BLOCK_WORDS then 0 else if k < BLOCK_WORDS then 0xFFFFFFFF else 0)) = blocks s1"
      by (auto simp: s1_def fun_eq_iff)
    show ?thesis
      unfolding init_disk_def Let_def e fold.simps id_apply comp_def blank_def set_type_def set_block_def if_P[OF c(1)] c(2)
      using bl by (simp add: s1_def cong: if_cong)
  qed
  obtain s2 where s2: "set_field Root F_TYPE FTYPE_DIR s1 = Ret s2" "view s2 = with_file (view s1) root ((fw (view s1) root)(F_TYPE := FTYPE_DIR))" "nextbno s2 = 3"
    using set_field_view[OF vr(1), of F_TYPE s1 FTYPE_DIR] vr(2) by (auto simp: returns_iff s1_def)
  obtain s3 where s3: "set_name Root (''/'' @ [NUL]) s2 = Ret s3" "view s3 = with_file (view s2) root (put_at 0 (''/'' @ [NUL]) (fw (view s2) root))" "nextbno s3 = 3"
    using set_name_view[OF vr(1), of "''/'' @ [NUL]" s2] vr(2) s2(3) by (auto simp: returns_iff)
  have w: "fw (view s3) root k = (if k = F_TYPE then FTYPE_DIR else 0)" if "1 \<le> k" "k < 64" for k
  proof -
    have "fw (view s3) root k = fw (view s2) root k" using that by (simp add: s3(2) fw_with_file put_at_word)
    also have "\<dots> = (if k = F_TYPE then FTYPE_DIR else 0)" using that by (simp add: s2(2) fw_with_file) (simp add: fw_def v1)
    finally show ?thesis .
  qed
  have out: "view s3 b k = view s1 b k" if "b \<noteq> 1 \<or> k < 2" for b k using that by (auto simp: s3(2) s2(2) with_file_def)
  have "built (view s3) (nextbno s3) (\<lambda>_. None) [] 0"
  proof (rule builtI)
    show "nextbno s3 = used [] 0" by (simp add: s3(3) used_def index_blocks_def)
    show "own_ok (\<lambda>_. None) (nextbno s3)" by (simp add: own_ok_def s3(3))
    show "view s3 1 0 = FS_MAGIC" "view s3 1 1 = of_nat NBLOCK" using out[of 1] by (simp_all add: v1)
    show "view s3 2 i = full_bitmap i" if "i < 1024" for i using out[of 2 i] by (simp add: v1 full_bitmap_def)
    show "view s3 b = (\<lambda>_. 0)" if "nextbno s3 \<le> b" for b using that out[of b] by (auto simp: v1 s3(3) fun_eq_iff)
    show "linked (view s3) (\<lambda>_. None) root 0 0" using w[of F_INDIRECT] by (simp only: linked_def) simp
    show "fw (view s3) root F_SIZE = of_nat (4096 * 0)" "fw (view s3) root F_TYPE = FTYPE_DIR" using w[of F_SIZE] w[of F_TYPE] by simp_all
  qed simp_all
  then show ?thesis using run s2(1) s3(1) by auto
qed

lemma flush_bits:
  assumes "n \<le> NBLOCK"
  shows "\<exists>s'. ofold clear_used [0..<n] s = Ret s'
    \<and> (\<forall>b. b \<noteq> 2 \<longrightarrow> view s' b = view s b)
    \<and> (\<forall>k j. j < 32 \<longrightarrow> bit (view s' 2 k) j = (bit (view s 2 k) j \<and> n \<le> 32 * k + j))"
  using assms
proof (induction n)
  case (Suc n)
  then obtain s' where s': "ofold clear_used [0..<n] s = Ret s'"
    "\<forall>b. b \<noteq> 2 \<longrightarrow> view s' b = view s b" "\<And>k j. j < 32 \<Longrightarrow> bit (view s' 2 k) j = (bit (view s 2 k) j \<and> n \<le> 32 * k + j)"
    by auto
  have v: "blocks s' 2 = view s' 2" by (simp add: view_eq)
  have d: "n div BIT2BLK = 0" "n mod BIT2BLK = n" using Suc.prems by simp_all
  let ?w = "(view s' 2)(n div 32 := view s' 2 (n div 32) AND NOT (push_bit (n mod 32) 1))"
  have bits: "bit (?w k) j = (bit (view s 2 k) j \<and> Suc n \<le> 32 * k + j)" if "j < 32" for k j
  proof -
    have "bit (?w k) j = (if k = n div 32 \<and> j = n mod 32 then False else bit (view s' 2 k) j)"
      using bit_clear_word[OF that, of "view s' 2 (n div 32)" "n mod 32"] by (cases "k = n div 32") (simp_all only: fun_upd_apply if_True if_False simp_thms split: if_split)
    moreover have "k = n div 32 \<and> j = n mod 32 \<longleftrightarrow> n = 32 * k + j" using that by auto
    ultimately show ?thesis using s'(3)[OF that, of k] by auto
  qed
  have step: "clear_used n s' = Ret (set_block 2 ?w s')" unfolding clear_used_def Let_def d using v by simp
  have run: "ofold clear_used [0..<Suc n] s = Ret (set_block 2 ?w s')"
    unfolding upt_Suc_append[OF le0] ofold_append s'(1) obind.simps ofold.simps step ..
  have "\<forall>b. b \<noteq> 2 \<longrightarrow> view (set_block 2 ?w s') b = view s b" "view (set_block 2 ?w s') 2 = ?w"
    using s'(2) set_block_view(1)[of 2 ?w s'] by simp_all
  then show ?case using run bits by (intro exI[of _ "set_block 2 ?w s'"]) (simp only: simp_thms, blast)
qed (auto intro!: exI[of _ s])

text \<open>The finished image: as built, with the bits of the bitmap cleared for the blocks that are used.\<close>

definition image_of :: "(nat \<Rightarrow> nat \<Rightarrow> u32) \<Rightarrow> nat \<Rightarrow> (nat \<Rightarrow> nat \<Rightarrow> u32) \<Rightarrow> bool" where
  "image_of D N V \<longleftrightarrow> (\<forall>b. b \<noteq> 2 \<longrightarrow> D b = V b) \<and> (\<forall>k j. j < 32 \<longrightarrow> bit (D 2 k) j = (bit (V 2 k) j \<and> N \<le> 32 * k + j))"

lemma fsformat_builds:
  assumes "files \<noteq> []" and "\<forall>(path, cs) \<in> set files. name_ok (file_part path)" and "blocks_needed files \<le> NBLOCK"
  shows "\<exists>D V N own. fsformat False (file_args files) = Ret D \<and> image_of D N V \<and> built V N own (map file_entry files) ((length files + 15) div 16)"
proof -
  obtain s0 where s0: "init_disk blank = Ret s0" "built (view s0) (nextbno s0) (\<lambda>_. None) [] 0" using init_disk_ok by blast
  have "returns (\<lambda>s'. \<exists>own'. built (view s') (nextbno s') own' ([] @ map file_entry files) ((length ([] :: entry list) + length files + 15) div 16))
    (ofold write_arg (file_args files) s0)"
    by (rule write_args_ok) (use s0(2) assms(2,3) in \<open>simp_all add: blocks_needed_def\<close>)
  then obtain s1 own where s1: "ofold write_arg (file_args files) s0 = Ret s1" "built (view s1) (nextbno s1) own (map file_entry files) ((length files + 15) div 16)"
    by (auto simp: returns_iff)
  obtain s2 where s2: "flush_bitmap s1 = Ret s2" "image_of (view s2) (nextbno s1) (view s1)"
    using flush_bits[OF built_bounds(2)[OF s1(2)], of s1] unfolding flush_bitmap_def image_of_def by blast
  have "fsformat False (file_args files) = Ret (view s2)"
    using s0(1) s1(1) s2(1) assms(1) by (simp add: fsformat_def view_def file_args_def)
  then show ?thesis using s1(2) s2(2) by blast
qed

section \<open>Byte order\<close>

text \<open>For a machine of the other byte order every number of the image is reversed; doing it twice changes nothing.\<close>

lemma word_byte_reverse: "j < 4 \<Longrightarrow> word_byte (reverse_word y) j = word_byte y (3 - j)"
proof -
  assume j: "j < 4"
  let ?cs = "[word_byte y 3, word_byte y 2, word_byte y 1, word_byte y 0]"
  have "word_byte (reverse_word y) j = blk_byte (put_at 0 ?cs (\<lambda>_. y)) j" using j by (simp add: reverse_word_def blk_byte_def)
  also have "\<dots> = ?cs ! j" using j by (simp add: blk_byte_put_at)
  also have "\<dots> = word_byte y (3 - j)" using j by (auto simp: less_Suc_eq numeral_eq_Suc)
  finally show ?thesis .
qed

lemma word_bytes_eqI: "(\<And>j. j < 4 \<Longrightarrow> word_byte a j = word_byte b j) \<Longrightarrow> a = (b :: u32)"
proof (rule bit_word_eqI)
  fix n assume h: "\<And>j. j < 4 \<Longrightarrow> word_byte a j = word_byte b j" and "n < LENGTH(32)"
  then have n: "n div 8 < 4" "n mod 8 < 8" by (simp_all add: less_mult_imp_div_less)
  have "(of_char (word_byte a (n div 8)) :: nat) = of_char (word_byte b (n div 8))" using h[OF n(1)] by simp
  then have "take_bit 8 (unat (drop_bit (8 * (n div 8)) a)) = take_bit 8 (unat (drop_bit (8 * (n div 8)) b))"
    by (simp add: word_byte_def take_bit_eq_mod)
  then have "bit (take_bit 8 (unat (drop_bit (8 * (n div 8)) a))) (n mod 8) = bit (take_bit 8 (unat (drop_bit (8 * (n div 8)) b))) (n mod 8)" by simp
  then show "bit a n = bit b n" unfolding bit_word_byte using n(2) by simp
qed

lemma reverse_word_twice [simp]: "reverse_word (reverse_word y) = y"
  by (rule word_bytes_eqI) (simp add: word_byte_reverse)

lemma reverse_file_twice: "reverse_file (reverse_file w) = w"
  by (auto simp: reverse_file_def fun_eq_iff)

definition reverse_slot :: "nat \<Rightarrow> (nat \<Rightarrow> u32) \<Rightarrow> nat \<Rightarrow> u32" where
  "reverse_slot i w = (\<lambda>k. if k div FILE_WORDS = i then reverse_file (\<lambda>k. w (i * FILE_WORDS + k)) (k mod FILE_WORDS) else w k)"

lemma reverse_slot_word: "reverse_slot i w k = (if k div 64 = i \<and> F_SIZE \<le> k mod 64 \<and> k mod 64 \<le> F_INDIRECT then reverse_word (w k) else w k)"
proof -
  have "i * 64 + k mod 64 = k" if "k div 64 = i" using that by auto
  then show ?thesis by (simp add: reverse_slot_def reverse_file_def)
qed

lemma reverse_files_slots: "reverse_files (i # is) w = (if word_byte (w (i * 64)) 0 = NUL then w else reverse_files is (reverse_slot i w))"
  by (simp add: reverse_slot_def)

lemma reverse_files_out: "k div 64 \<notin> set is \<or> k mod 64 = 0 \<Longrightarrow> reverse_files is w k = w k"
proof (induction "is" arbitrary: w)
  case (Cons i "is")
  have "reverse_files is (reverse_slot i w) k = reverse_slot i w k" by (rule Cons.IH) (use Cons.prems in auto)
  also have "\<dots> = w k" using Cons.prems by (auto simp: reverse_slot_word)
  finally show ?case unfolding reverse_files_slots by simp
qed simp

lemma reverse_slot_commute: "i \<notin> set is \<Longrightarrow> reverse_files is (reverse_slot i w) = reverse_slot i (reverse_files is w)"
proof (induction "is" arbitrary: w)
  case (Cons j "is")
  have "reverse_slot j (reverse_slot i w) = reverse_slot i (reverse_slot j w)" using Cons.prems by (auto simp: reverse_slot_word fun_eq_iff)
  moreover have "reverse_slot i w (j * 64) = w (j * 64)" by (simp add: reverse_slot_word[of i w "j * 64"])
  ultimately show ?case using Cons unfolding reverse_files_slots by simp
qed simp

lemma reverse_files_twice: "distinct is \<Longrightarrow> reverse_files is (reverse_files is w) = w"
proof (induction "is" arbitrary: w)
  case (Cons i "is")
  have tw: "reverse_slot i (reverse_slot i v) = v" for v by (auto simp: reverse_slot_word fun_eq_iff)
  show ?case
  proof (cases "word_byte (w (i * 64)) 0 = NUL")
    case False
    have "reverse_files is (reverse_slot i w) (i * 64) = w (i * 64)"
      using reverse_files_out[of "i * 64" "is" "reverse_slot i w"] by (simp add: reverse_slot_word)
    then have "reverse_files (i # is) (reverse_files (i # is) w) = reverse_files is (reverse_slot i (reverse_files is (reverse_slot i w)))"
      using False unfolding reverse_files_slots by simp
    also have "\<dots> = reverse_files is (reverse_files is (reverse_slot i (reverse_slot i w)))"
      using reverse_slot_commute[of i "is" "reverse_slot i w"] Cons.prems by simp
    finally show ?thesis using Cons by (simp add: tw)
  next
    case True
    then have "reverse_files (i # is) w = w" unfolding reverse_files_slots by simp
    then show ?thesis by simp
  qed
qed simp

theorem reverse_block_twice: "reverse_block ty (reverse_block ty w) = w"
proof (cases ty)
  case BLOCK_FILE
  then show ?thesis using reverse_files_twice[of "[0..<FILE2BLK]" w] by (simp add: reverse_block_def del: reverse_files.simps)
next
  case BLOCK_SUPER
  have "Suc (Suc (k - 2)) = k" if "\<not> k < 2" for k using that by simp
  then show ?thesis unfolding BLOCK_SUPER by (simp add: reverse_block_def reverse_file_def fun_eq_iff)
qed (auto simp: reverse_block_def fun_eq_iff)

end
