(* ===== verification/Mos_FormatRead.thy ===== *)
theory Mos_FormatRead
  imports Mos_FormatProps
begin

text \<open>
  The file system server on an image of \<open>fsformat\<close>: start-up accepts the image, and opening and reading a file
  of the image yields what the tool was given.
\<close>

section \<open>What the server finds\<close>

definition stored :: "(nat \<Rightarrow> nat \<Rightarrow> u32) \<Rightarrow> nat \<Rightarrow> owners \<Rightarrow> entry list \<Rightarrow> nat \<Rightarrow> bool" where
  "stored D N own es nd \<longleftrightarrow> own_ok own N \<and> 3 \<le> N \<and> nd \<le> NBLOCK
     \<and> linked D own root 0 nd \<and> fw D root F_SIZE = of_nat (4096 * nd) \<and> fw D root F_TYPE = FTYPE_DIR \<and> length es \<le> 16 * nd
     \<and> (\<forall>k < length es. holds D own (slot D k) (Suc k) (es ! k) \<and> name_ok (fst (es ! k)))
     \<and> (\<forall>k. length es \<le> k \<and> k < 16 * nd \<longrightarrow> (\<forall>w < 64. fw D (slot D k) w = 0))"

lemma storedD:
  assumes "stored D N own es nd"
  shows "own_ok own N" "3 \<le> N" "nd \<le> NBLOCK" "linked D own root 0 nd" "fw D root F_SIZE = of_nat (4096 * nd)" "fw D root F_TYPE = FTYPE_DIR"
    "length es \<le> 16 * nd" "k < length es \<Longrightarrow> holds D own (slot D k) (Suc k) (es ! k)" "k < length es \<Longrightarrow> name_ok (fst (es ! k))"
    "length es \<le> k \<Longrightarrow> k < 16 * nd \<Longrightarrow> w < 64 \<Longrightarrow> fw D (slot D k) w = 0"
  using assms unfolding stored_def by blast+

lemma stored_image:
  assumes "image_of D N V" and "built V N own es nd"
  shows "stored D N own es nd"
proof -
  note B = builtD[OF assms(2)] and bd = built_bounds[OF assms(2)]
  have eq: "D b = V b" if "own b = Some x \<or> b = 1" for b x
  proof -
    have "b \<noteq> 2" using that own_okD(1)[OF B(1), of b x] by auto
    then show ?thesis using assms(1) by (simp add: image_of_def)
  qed
  have r: "fw D root w = fw V root w" for w using eq[of 1] by (simp only: fw_def fst_conv) simp
  have L: "linked D own root 0 nd" "\<And>i. i < nd \<Longrightarrow> blink D root i = blink V root i"
    by (rule linked_frame[OF B(3)]; use r eq in blast)+
  have sl: "slot D k = slot V k" if "k < 16 * nd" for k
  proof -
    have "k div 16 < nd" using that by (simp add: less_mult_imp_div_less mult.commute)
    then show ?thesis using L(2) by (simp add: slot_def)
  qed
  have w: "fw D (slot V k) w = fw V (slot V k) w" if "k < 16 * nd" for k w
    using eq[OF disjI1[OF slot_owner[OF B(3) that]]] by (simp add: fw_def)
  have h: "holds D own (slot D k) (Suc k) (es ! k)" if "k < length es" for k
  proof -
    have k: "k < 16 * nd" using that B(8) by simp
    show ?thesis unfolding sl[OF k] by (rule holds_frame[OF B(10)[OF that] B(11)[OF that]]) (use w[OF k] eq in auto)
  qed
  show ?thesis
    unfolding stored_def r using B(1,4,5,8,11) bd(1,3) L(1) h B(12) sl w by simp
qed

text \<open>
  A state of the server that has read some of the blocks of \<open>D\<close>, apart from the words \<open>X\<close>.  No block below \<open>N\<close> is
  free, and there is a page for every block.
\<close>

definition reads :: "(nat \<Rightarrow> nat \<Rightarrow> u32) \<Rightarrow> nat \<Rightarrow> (nat \<times> nat) set \<Rightarrow> fs_state \<Rightarrow> bool" where
  "reads D N X s \<longleftrightarrow> fs_ok s \<and> nblocks s = NBLOCK \<and> disk s = D \<and> N \<le> NBLOCK \<and> (\<forall>b < N. b \<notin> free_blocks s)
     \<and> (\<forall>b k. b \<noteq> 0 \<and> mapped s b \<and> (b, k) \<notin> X \<longrightarrow> cache s b k = D b k)
     \<and> card {b. b < NBLOCK \<and> \<not> mapped s b} \<le> pages_left s"

lemma readsD:
  assumes "reads D N X s"
  shows "fs_ok s" "nblocks s = NBLOCK" "disk s = D" "N \<le> NBLOCK" "b < N \<Longrightarrow> b \<notin> free_blocks s"
    "b \<noteq> 0 \<Longrightarrow> mapped s b \<Longrightarrow> (b, k) \<notin> X \<Longrightarrow> cache s b k = D b k" "card {b. b < NBLOCK \<and> \<not> mapped s b} \<le> pages_left s"
  using assms unfolding reads_def by blast+

lemma read_block_image:
  assumes R: "reads D N X s" and b: "3 \<le> b" "b < N"
  shows "returns (\<lambda>(r, s'). (\<exists>f. r = Inr (b, f)) \<and> reads D N X s' \<and> mapped s' = (mapped s)(b := True)) (read_block b s)"
proof -
  note r = readsD[OF R]
  have lt: "b < NBLOCK" using b(2) r(4) by linarith
  have pre: "read_block b s = (if mapped s b then Ret (Inr (b, False), s)
      else case mem_alloc b s of (Inl _, s) \<Rightarrow> Panic ''panic_on(page_alloc(&p))'' | (Inr _, s) \<Rightarrow> Ret (Inr (b, True), s\<lparr>cache := (cache s)(b := disk s b)\<rparr>))"
    using lt r(2,5) b s_nblocks_eq[OF r(1)] block_is_free_eq[OF r(1), of b] fs_okD(1,2)[OF r(1)]
    by (simp add: read_block_def diskaddr_def block_is_mapped_def va_is_mapped_def split: sum.splits)
  show ?thesis
  proof (cases "mapped s b")
    case True
    have "(mapped s)(b := True) = mapped s" by (rule fun_upd_idem) (simp add: True)
    then show ?thesis using R True unfolding pre by (simp, intro exI[of _ False]) simp
  next
    case False
    let ?F = "{b. b < NBLOCK \<and> \<not> mapped s b}"
    let ?s = "s\<lparr>pages_left := pages_left s - 1, mapped := (mapped s)(b := True), dirty := (dirty s)(b := False), cache := (cache s)(b := D b)\<rparr>"
    have F: "finite ?F" "b \<in> ?F" using False lt by auto
    then have "card ?F \<noteq> 0" by auto
    then have pl: "pages_left s \<noteq> 0" using r(7) by linarith
    have e: "{c. c < NBLOCK \<and> \<not> mapped ?s c} = ?F - {b}" using b by auto
    have card: "card {c. c < NBLOCK \<and> \<not> mapped ?s c} \<le> pages_left ?s" unfolding e using F r(7) by (simp add: card_Diff_singleton)
    have be: "bitmap_end s = 3" using r(2) by (simp add: bitmap_end_def)
    have sys: "cache ?s 1 = cache s 1" "cache ?s (fst (bitmap_word c)) = cache s (fst (bitmap_word c))" if "c < NBLOCK" for c
      using b that bitmap_word_range[of c s] r(2) be by auto
    have nb: "nblocks ?s = nblocks s" using b by (simp add: nblocks_def)
    have "free_bit ?s c = free_bit s c" if "c < NBLOCK" for c unfolding free_bit_def sys(2)[OF that] ..
    then have free: "free_blocks ?s = free_blocks s" unfolding free_blocks_def nb r(2) by blast
    have ok: "fs_ok ?s" using r(1) unfolding fs_ok_def bitmap_end_def nb free by simp
    have "reads D N X ?s" unfolding reads_def nb free using ok r card by auto
    then show ?thesis unfolding pre using False pl r(3) by (simp add: mem_alloc_def) (rule exI[of _ True], simp)
  qed
qed

lemma rdw_image: "reads D N X s \<Longrightarrow> mapped s b \<Longrightarrow> b \<noteq> 0 \<Longrightarrow> k < BLOCK_WORDS \<Longrightarrow> (b, k) \<notin> X \<Longrightarrow> rdw (b, k) s = Ret (D b k)"
  by (simp add: rdw_def readsD(6))

lemma rd_bytes_image:
  assumes "reads D N X s" "mapped s (fst p)" "fst p \<noteq> 0" "snd p * 4 + n \<le> BY2BLK" "\<And>k. k \<le> (n - 1) div 4 \<Longrightarrow> (fst p, snd p + k) \<notin> X"
  shows "rd_bytes p n s = Ret (map (blk_byte (fw D p)) [0..<n])"
proof -
  have "cache s (fst p) (snd p + i div 4) = fw D p (i div 4)" if "i < n" for i
  proof -
    have "i div 4 \<le> (n - 1) div 4" using that by (intro div_le_mono) simp
    then show ?thesis using readsD(6)[OF assms(1,3,2), of "snd p + i div 4"] assms(5) by (simp add: fw_def)
  qed
  then show ?thesis using assms(2,4) by (simp add: rd_bytes_def blk_byte_def)
qed

text \<open>The blocks of a file of the image.\<close>

lemma get_block_image:
  assumes R: "reads D N X s" and L: "linked D own p t n" and ok: "own_ok own N" and i: "i < n" "n \<le> NINDIRECT"
    and p: "mapped s (fst p)" "fst p \<noteq> 0" "snd p + 64 \<le> BLOCK_WORDS" "\<And>w. F_DIRECT \<le> w \<Longrightarrow> w \<le> F_INDIRECT \<Longrightarrow> (fst p, snd p + w) \<notin> X"
    and X: "\<And>b k. (b, k) \<in> X \<Longrightarrow> own b \<noteq> Some (t, None)"
  shows "returns (\<lambda>(r, s'). r = Inr (unat (blink D p i)) \<and> reads D N X s' \<and> mapped s' (unat (blink D p i)) \<and> (\<forall>b. mapped s b \<longrightarrow> mapped s' b))
    (file_get_block p i s)"
proof -
  let ?b = "unat (blink D p i)"
  have b: "3 \<le> ?b" "?b < N" using own_okD(1,2)[OF ok, of ?b] L i(1) by (simp_all add: linked_def)
  have nz: "blink D p i \<noteq> 0" using b(1) by auto
  have "returns (\<lambda>(r, s'). r = Inr ?b \<and> reads D N X s' \<and> (\<forall>b. mapped s b \<longrightarrow> mapped s' b)) (file_map_block p i True s)"
  proof (cases "i < NDIRECT")
    case True
    then have "rdw (fst p, snd p + (F_DIRECT + i)) s = Ret (blink D p i)"
      using rdw_image[OF R p(1,2), of "snd p + (F_DIRECT + i)"] p(3) p(4)[of "F_DIRECT + i"] by (simp add: blink_fw fw_def)
    then show ?thesis using True R nz by (simp add: file_map_block_def file_block_walk_def field_def otry_def)
  next
    case False
    let ?ind = "fw D p F_INDIRECT"
    have o: "own (unat ?ind) = Some (t, None)" using L False i(1) by (auto simp: linked_def split: if_splits)
    have ind: "3 \<le> unat ?ind" "unat ?ind < N" using own_okD(1,2)[OF ok o] by simp_all
    have r1: "rdw (fst p, snd p + F_INDIRECT) s = Ret ?ind" using rdw_image[OF R p(1,2), of "snd p + F_INDIRECT"] p(3) p(4)[of F_INDIRECT] by (simp add: fw_def)
    obtain f s1 where s1: "read_block (unat ?ind) s = Ret (Inr (unat ?ind, f), s1)" "reads D N X s1" "mapped s1 = (mapped s)(unat ?ind := True)"
      using read_block_image[OF R ind] by (auto simp: returns_iff)
    have "(unat ?ind, i) \<notin> X" using X o by blast
    then have r2: "rdw (unat ?ind, i) s1 = Ret (blink D p i)"
      using rdw_image[OF s1(2), of "unat ?ind" i] s1(3) ind(1) i False by (simp add: blink_index)
    have nind: "?ind \<noteq> 0" using ind(1) by auto
    have lt: "i < NINDIRECT" using i by simp
    show ?thesis using False lt r1 r2 s1 nind nz by (simp add: file_map_block_def file_block_walk_def field_def otry_def)
  qed
  then obtain s1 where s1: "file_map_block p i True s = Ret (Inr ?b, s1)" "reads D N X s1" "\<forall>b. mapped s b \<longrightarrow> mapped s1 b"
    by (auto simp: returns_iff)
  obtain f s2 where s2: "read_block ?b s1 = Ret (Inr (?b, f), s2)" "reads D N X s2" "mapped s2 = (mapped s1)(?b := True)"
    using read_block_image[OF s1(2) b] by (auto simp: returns_iff)
  show ?thesis using s1 s2 by (simp add: file_get_block_def otry_def)
qed

section \<open>Looking up a name\<close>

lemma scan_names_find:
  assumes "\<And>j. j \<in> set js \<Longrightarrow> \<exists>bs r. rd_bytes (blk, j * FILE_WORDS) 128 s = Ret bs \<and> strcmp bs name = Ret r \<and> (r = 0) = P j"
  shows "scan_names js blk name s = Ret (map_option (\<lambda>j. (blk, j * FILE_WORDS)) (find P js))"
  using assms
proof (induction js)
  case (Cons j js)
  obtain bs r where j: "rd_bytes (blk, j * FILE_WORDS) 128 s = Ret bs" "strcmp bs name = Ret r" "(r = 0) = P j"
    using Cons.prems[of j] by auto
  show ?case
  proof (cases "P j")
    case True
    then show ?thesis using j by simp
  next
    case False
    then show ?thesis using j Cons.IH Cons.prems by simp
  qed
qed simp

text \<open>The name in a slot.\<close>

lemma slot_name:
  assumes S: "stored D N own es nd" and q: "q < 16 * nd"
  shows "terminated (map (blk_byte (fw D (slot D q))) [0..<128])"
    "cstr (map (blk_byte (fw D (slot D q))) [0..<128]) = (if q < length es then fst (es ! q) else [])"
proof -
  let ?bs = "map (blk_byte (fw D (slot D q))) [0..<128]"
  have "\<exists>rest. ?bs = (if q < length es then fst (es ! q) else []) @ NUL # rest"
  proof (cases "q < length es")
    case True
    obtain nm sz ty chs where e: "es ! q = (nm, sz, ty, chs)" by (cases "es ! q")
    have n: "length nm < 128" using storedD(9)[OF S True] by (simp add: e name_ok_def)
    have h: "blk_byte (fw D (slot D q)) i = (nm @ [NUL]) ! i" if "i \<le> length nm" for i
      using storedD(8)[OF S True] that by (simp add: e holds_def)
    have "[0..<128] = [0..<length nm + 1] @ [length nm + 1..<128]" using n upt_add_eq_append[of 0 "length nm + 1" "128 - (length nm + 1)"] by simp
    moreover have "map (blk_byte (fw D (slot D q))) [0..<length nm + 1] = nm @ [NUL]"
      by (rule nth_equalityI) (simp_all add: h del: upt_Suc)
    ultimately show ?thesis using True e by simp
  next
    case False
    have "blk_byte (fw D (slot D q)) 0 = NUL" using storedD(10)[OF S _ q, of 0] False by (simp add: blk_byte_def word_byte_zero)
    moreover have "[0..<128 :: nat] = 0 # [1..<128]" by (simp add: upt_conv_Cons)
    ultimately show ?thesis using False by simp
  qed
  then obtain rest where r: "?bs = (if q < length es then fst (es ! q) else []) @ NUL # rest" by blast
  have "NUL \<notin> set (if q < length es then fst (es ! q) else [])" using storedD(9)[OF S] by (auto simp: name_ok_def)
  then show "terminated ?bs" "cstr ?bs = (if q < length es then fst (es ! q) else [])" unfolding r by simp_all
qed

lemma find_upt: "k < n \<Longrightarrow> find (\<lambda>j. j = k) [0..<n] = Some k"
  unfolding find_Some_iff by (intro exI[of _ k]) simp

lemma scan_names_image:
  assumes R: "reads D N {} s" and S: "stored D N own es nd" and i: "i < nd" "mapped s (unat (blink D root i))"
    and k: "k < length es" "fst (es ! k) = nm" "\<And>j. j < length es \<Longrightarrow> fst (es ! j) = nm \<Longrightarrow> j = k"
  shows "scan_names [0..<FILE2BLK] (unat (blink D root i)) (nm @ [NUL]) s = Ret (if k div 16 = i then Some (slot D k) else None)"
proof -
  let ?b = "unat (blink D root i)"
  have b: "3 \<le> ?b" using own_okD(1)[OF storedD(1)[OF S], of ?b] storedD(4)[OF S] i(1) by (simp add: linked_def)
  have nm: "nm \<noteq> []" "NUL \<notin> set nm" using storedD(9)[OF S k(1)] k(2) by (simp_all add: name_ok_def)
  have one: "\<exists>bs r. rd_bytes (?b, j * FILE_WORDS) 128 s = Ret bs \<and> strcmp bs (nm @ [NUL]) = Ret r \<and> (r = 0) = (16 * i + j = k)"
    if "j \<in> set [0..<FILE2BLK]" for j
  proof -
    have j: "j < 16" using that by simp
    have q: "16 * i + j < 16 * nd" using i(1) j by simp
    have sl: "slot D (16 * i + j) = (?b, j * 64)" using j by (simp add: slot_def)
    note sn = slot_name[OF S q, unfolded sl]
    have "rd_bytes (?b, j * FILE_WORDS) 128 s = Ret (map (blk_byte (fw D (?b, j * 64))) [0..<128])"
      by (rule rd_bytes_image[OF R]) (use i(2) b j in auto)
    moreover obtain r where "strcmp (map (blk_byte (fw D (?b, j * 64))) [0..<128]) (nm @ [NUL]) = Ret r"
      "(r = 0) = (cstr (map (blk_byte (fw D (?b, j * 64))) [0..<128]) = nm)"
      using strcmp_total[OF sn(1), of "nm @ [NUL]"] strcmp_eq_0[OF sn(1), of "nm @ [NUL]"] nm(2) by fastforce
    moreover have "(cstr (map (blk_byte (fw D (?b, j * 64))) [0..<128]) = nm) = (16 * i + j = k)"
      unfolding sn(2) using k(1,2) k(3)[of "16 * i + j"] nm(1) by (cases "16 * i + j < length es") (simp_all only: if_True if_False, blast+)
    ultimately show ?thesis by blast
  qed
  note scan = scan_names_find[of "[0..<FILE2BLK]" ?b s "nm @ [NUL]" "\<lambda>j. 16 * i + j = k", OF one]
  show ?thesis
  proof (cases "k div 16 = i")
    case True
    have "(16 * i + j = k) = (j = k mod 16)" for j using mult_div_mod_eq[of 16 k] unfolding True by linarith
    then have "(\<lambda>j. 16 * i + j = k) = (\<lambda>j. j = k mod 16)" by (rule ext)
    then have "find (\<lambda>j. 16 * i + j = k) [0..<FILE2BLK] = Some (k mod 16)" using find_upt[of "k mod 16" 16] by simp
    then show ?thesis using True scan by (simp add: slot_def)
  next
    case False
    have "find (\<lambda>j. 16 * i + j = k) [0..<FILE2BLK] = None"
    proof -
      have "16 * i + j \<noteq> k" if "j < 16" for j
      proof
        assume "16 * i + j = k"
        then have "k div 16 = i" using that by (intro div_nat_eqI) simp_all
        then show False using False by simp
      qed
      then show ?thesis unfolding find_None_iff by auto
    qed
    then show ?thesis using False scan by simp
  qed
qed

lemma reads_write:
  assumes R: "reads D N X s" and b: "3 \<le> b"
  shows "reads D N (insert (b, k) X) (s\<lparr>cache := (cache s)(b := (cache s b)(k := v))\<rparr>)"
proof -
  note r = readsD[OF R]
  let ?s = "s\<lparr>cache := (cache s)(b := (cache s b)(k := v))\<rparr>"
  have nb: "nblocks ?s = nblocks s" using b by (simp add: nblocks_def)
  have be: "bitmap_end s = 3" using r(2) by (simp add: bitmap_end_def)
  have "cache ?s (fst (bitmap_word c)) = cache s (fst (bitmap_word c))" if "c < NBLOCK" for c
    using b that bitmap_word_range[of c s] r(2) be by auto
  then have "free_bit ?s c = free_bit s c" if "c < NBLOCK" for c using that by (simp only: free_bit_def)
  then have free: "free_blocks ?s = free_blocks s" unfolding free_blocks_def nb r(2) by blast
  have ok: "fs_ok ?s" using r(1) unfolding fs_ok_def bitmap_end_def nb free by simp
  show ?thesis unfolding reads_def nb free using ok r by auto
qed

lemma lookup_blocks_image:
  assumes R: "reads D N {} s" and S: "stored D N own es nd" and i: "i \<le> k div 16"
    and k: "k < length es" "fst (es ! k) = nm" "\<And>j. j < length es \<Longrightarrow> fst (es ! j) = nm \<Longrightarrow> j = k"
  shows "returns (\<lambda>(r, s'). r = Inr (slot D k) \<and> reads D N {(fst (slot D k), snd (slot D k) + F_DIR)} s' \<and> mapped s' (fst (slot D k)))
    (lookup_blocks [i..<nd] root (nm @ [NUL]) s)"
  using R i
proof (induction "k div 16 - i" arbitrary: i s rule: less_induct)
  case less
  let ?b = "unat (blink D root i)"
  have knd: "k div 16 < nd" using k(1) storedD(7)[OF S] by (simp add: less_mult_imp_div_less mult.commute)
  then have i: "i < nd" using less.prems(2) by simp
  have m1: "mapped s 1" using fs_okD(4)[OF readsD(1)[OF less.prems(1)]] .
  obtain s1 where s1: "file_get_block root i s = Ret (Inr ?b, s1)" "reads D N {} s1" "mapped s1 ?b"
    using get_block_image[OF less.prems(1) storedD(4)[OF S] storedD(1)[OF S] i] m1 storedD(3)[OF S] by (auto simp: returns_iff)
  have scan: "scan_names [0..<FILE2BLK] ?b (nm @ [NUL]) s1 = Ret (if k div 16 = i then Some (slot D k) else None)"
    by (rule scan_names_image[OF s1(2) S i s1(3) k(1,2)]) (rule k(3))
  have run: "lookup_blocks [i..<nd] root (nm @ [NUL]) s = obind (scan_names [0..<FILE2BLK] ?b (nm @ [NUL]) s1) (\<lambda>r.
         case r of Some f \<Rightarrow> obind (wrw (field f F_DIR) (ptr_word root) s1) (\<lambda>s. Ret (Inr f, s)) | None \<Rightarrow> lookup_blocks [i + 1..<nd] root (nm @ [NUL]) s1)"
  proof -
    have u: "[i..<nd] = i # [i + 1..<nd]" using i by (simp add: upt_conv_Cons)
    show ?thesis unfolding u lookup_blocks.simps s1(1) otry_Ret ..
  qed
  show ?case
  proof (cases "k div 16 = i")
    case True
    have sl: "fst (slot D k) = ?b" "snd (slot D k) + F_DIR < BLOCK_WORDS" using True by (simp_all add: slot_def)
    have b: "3 \<le> ?b" using own_okD(1)[OF storedD(1)[OF S], of ?b] storedD(4)[OF S] i by (simp add: linked_def)
    have "lookup_blocks [i..<nd] root (nm @ [NUL]) s =
        Ret (Inr (slot D k), s1\<lparr>cache := (cache s1)(?b := (cache s1 ?b)(snd (slot D k) + F_DIR := ptr_word root))\<rparr>)"
      unfolding run scan using True sl s1(3) by (simp add: wrw_def field_def)
    then show ?thesis using reads_write[OF s1(2) b] s1(3) sl(1) by simp
  next
    case False
    have "lookup_blocks [i..<nd] root (nm @ [NUL]) s = lookup_blocks [i + 1..<nd] root (nm @ [NUL]) s1"
      unfolding run scan using False by simp
    then show ?thesis using less.hyps[of "i + 1" s1] less.prems(2) False s1(2) by simp
  qed
qed

lemma file_open_image:
  assumes R: "reads D N {} s" and S: "stored D N own es nd"
    and k: "k < length es" "es ! k = (nm, sz, FTYPE_REG, chs)" "\<And>j. j < length es \<Longrightarrow> fst (es ! j) = nm \<Longrightarrow> j = k" and nm: "CHR ''/'' \<notin> set nm"
  shows "returns (\<lambda>(r, s'). r = Inr (Some (slot D k)) \<and> reads D N {(fst (slot D k), snd (slot D k) + F_DIR)} s' \<and> mapped s' (fst (slot D k)))
    (file_open (Suc fuel) (''/'' @ nm @ [NUL]) s)"
proof -
  note r = readsD[OF R]
  have ok: "nm \<noteq> []" "NUL \<notin> set nm" "length nm < 128" using storedD(9)[OF S k(1)] k(2) by (simp_all add: name_ok_def)
  have m1: "mapped s 1" by (rule fs_okD(4)[OF r(1)])
  have sup: "fs_super s" by (rule fs_okD(1)[OF r(1)])
  have nd: "nd \<le> NBLOCK" by (rule storedD(3)[OF S])
  have size: "rdw (field root F_SIZE) s = Ret (of_nat (4096 * nd))" "rdw (field root F_TYPE) s = Ret FTYPE_DIR"
    using rdw_image[OF R m1, of "2 + F_SIZE"] rdw_image[OF R m1, of "2 + F_TYPE"] storedD(5,6)[OF S] by (simp_all add: field_def fw_def)
  have u: "unat (of_nat (4096 * nd) :: u32) div BY2BLK = nd" using nd unat_of_small[of "4096 * nd"] by simp
  have look: "dir_lookup root (nm @ [NUL]) s = lookup_blocks [0..<nd] root (nm @ [NUL]) s"
    unfolding dir_lookup_def size(1) obind.simps u ..
  obtain s1 where s1: "dir_lookup root (nm @ [NUL]) s = Ret (Inr (slot D k), s1)"
    "reads D N {(fst (slot D k), snd (slot D k) + F_DIR)} s1" "mapped s1 (fst (slot D k))"
    using lookup_blocks_image[OF R S le0 k(1) _ k(3)] k(2) unfolding look by (auto simp: returns_iff)
  have kn: "k < 16 * nd" using k(1) storedD(7)[OF S] by simp
  have f0: "fst (slot D k) \<noteq> 0" using own_okD(1)[OF storedD(1)[OF S] slot_owner[OF storedD(4)[OF S] kn]] by simp
  have "snd (slot D k) + F_TYPE < BLOCK_WORDS" by (simp add: slot_def)
  then have ty: "rdw (field (slot D k) F_TYPE) s1 = Ret FTYPE_REG"
    using rdw_image[OF s1(2,3) f0] storedD(8)[OF S k(1)] by (simp add: field_def k(2) holds_def fw_def)
  obtain c cs where c: "nm = c # cs" using ok(1) by (cases nm) auto
  have nc: "c \<noteq> CHR ''/''" "c \<noteq> NUL" using nm ok(2) by (auto simp: c)
  have sk: "skip_slash (''/'' @ nm @ [NUL]) = nm @ [NUL]" using nc by (simp add: skip_slash_def c)
  have el: "path_elem (nm @ [NUL]) = nm" "path_rest (nm @ [NUL]) = [NUL]"
  proof -
    have P: "\<And>x. x \<in> set nm \<Longrightarrow> x \<noteq> CHR ''/'' \<and> x \<noteq> NUL" using nm ok(2) by metis
    show "path_elem (nm @ [NUL]) = nm" unfolding path_elem_def using P by (subst takeWhile_append2) auto
    show "path_rest (nm @ [NUL]) = [NUL]" unfolding path_rest_def skip_slash_def using P by (subst dropWhile_append2) auto
  qed
  have walk: "walk_loop (nm @ [NUL]) None root s = Ret (Inr (Some root, slot D k), s1)"
    using walk_loop.simps[of "nm @ [NUL]" None root s] walk_loop.simps[of "[NUL]" "Some root" "slot D k" s1] el ok(3) size(2) s1(1) nc
    by (simp add: c Let_def)
  show ?thesis
    unfolding file_open_def walk_path.simps sk using sup walk ty s1(2,3) by (simp add: walk_result_def)
qed

section \<open>From the tool to the reader\<close>

lemma chunks_nth: "i * BY2BLK < length cs \<Longrightarrow> i < length (chunks cs) \<and> chunks cs ! i = take BY2BLK (drop (i * BY2BLK) cs)"
proof (induction cs arbitrary: i rule: chunks.induct)
  case (1 cs)
  then have ne: "cs \<noteq> []" by auto
  note ch = chunks.simps[of cs, unfolded if_not_P[OF ne]]
  show ?case
  proof (cases i)
    case 0
    then show ?thesis by (simp add: ch)
  next
    case (Suc j)
    have "j * BY2BLK < length (drop BY2BLK cs)" using 1(2) Suc by simp
    from 1(1)[OF ne this] show ?thesis using Suc by (simp add: ch add.commute)
  qed
qed

lemma length_chunks: "length cs \<le> BY2BLK * length (chunks cs)"
proof (induction cs rule: chunks.induct)
  case (1 cs)
  show ?case
  proof (cases "cs = []")
    case False
    then show ?thesis using 1[OF False] by (simp add: chunks.simps[of cs])
  qed simp
qed

text \<open>The server starts on the image.\<close>

lemma image_starts:
  assumes I: "image_of D N V" and B: "built V N own es nd" and t: "cold t" "disk t = D" "NBLOCK + 3 \<le> pages_left t"
  shows "returns (\<lambda>s. reads D N {} s) (fs_init t)"
proof -
  note b = builtD[OF B] and bd = built_bounds[OF B]
  have D1: "D 1 0 = FS_MAGIC" "unat (D 1 1) = NBLOCK" using I b(6,7) by (simp_all add: image_of_def)
  have bits: "\<not> bit (D (fst (bitmap_word c)) (snd (bitmap_word c))) (c mod 32)" if "c < N" for c
  proof -
    have "c div 32 < 32" using that bd(2) by (simp add: less_mult_imp_div_less)
    then have "bitmap_word c = (2, c div 32)" by (simp add: bitmap_word_def)
    moreover have "bit (D 2 (c div 32)) (c mod 32) \<longrightarrow> N \<le> 32 * (c div 32) + c mod 32" using I by (simp add: image_of_def)
    ultimately show ?thesis using that by simp
  qed
  have "\<forall>c < 3. \<not> bit (D (fst (bitmap_word c)) (snd (bitmap_word c))) (c mod 32)" using bits bd(1) by (meson le_trans not_le)
  then have v: "valid_disk t" using D1 unfolding valid_disk_def t(2) Let_def by simp
  have p: "unat (disk t 1 1) div BIT2BLK + 3 \<le> pages_left t" using t(2,3) D1(2) by simp
  have "reads D N {} s"
    if s: "fs_ok s" "disk s = disk t" "\<forall>b. b \<noteq> 0 \<and> mapped s b \<longrightarrow> cache s b = disk t b" "pages_left s = pages_left t - (unat (disk t 1 1) div BIT2BLK + 3)" for s
  proof -
    have nb: "nblocks s = NBLOCK" using s(3) fs_okD(4)[OF s(1)] t(2) D1(2) by (simp add: nblocks_def)
    have "c \<notin> free_blocks s" if "c < N" for c
    proof
      assume c: "c \<in> free_blocks s"
      then have "c < nblocks s" by (simp add: free_blocks_def)
      from bitmap_word_range[OF this] have "mapped s (fst (bitmap_word c))" "fst (bitmap_word c) \<noteq> 0" using fs_okD(5)[OF s(1)] by auto
      then have "cache s (fst (bitmap_word c)) = D (fst (bitmap_word c))" using s(3) t(2) by simp
      then show False using bits[OF that] c by (simp add: free_blocks_def free_bit_def)
    qed
    moreover have "card {b. b < NBLOCK \<and> \<not> mapped s b} \<le> card {b. b < NBLOCK}" by (rule card_mono) auto
    then have "card {b. b < NBLOCK \<and> \<not> mapped s b} \<le> pages_left s" using s(4) t(2,3) D1(2) by simp
    ultimately show ?thesis unfolding reads_def using s(1-3) nb t(2) bd(2) by simp
  qed
  then show ?thesis using fs_init_ok[OF t(1) p v] by (auto simp: returns_iff)
qed

text \<open>Reading a block of a file that has been opened.\<close>

lemma read_back_block:
  assumes R: "reads D N {(fst (slot D k), snd (slot D k) + F_DIR)} s" and m: "mapped s (fst (slot D k))" and S: "stored D N own es nd"
    and k: "k < length es" "es ! k = (nm, sz, ty, chunks cs)" and n: "length (chunks cs) \<le> NINDIRECT" and i: "i * BY2BLK < length cs"
  shows "returns (\<lambda>(r, s). \<exists>b. r = Inr b \<and> rd_bytes (b, 0) (min BY2BLK (length cs - i * BY2BLK)) s = Ret (take BY2BLK (drop (i * BY2BLK) cs)))
    (file_get_block (slot D k) i s)"
proof -
  let ?p = "slot D k" and ?b = "unat (blink D (slot D k) i)"
  have kn: "k < 16 * nd" using k(1) storedD(7)[OF S] by simp
  have dir: "own (fst ?p) = Some (0, Some (k div 16))" by (rule slot_owner[OF storedD(4)[OF S] kn])
  have H: "holds D own ?p (Suc k) (nm, sz, ty, chunks cs)" using storedD(8)[OF S k(1)] k(2) by simp
  have L: "linked D own ?p (Suc k) (length (chunks cs))" using H by (simp add: holds_def)
  note ci = chunks_nth[OF i]
  have f0: "fst ?p \<noteq> 0" using own_okD(1)[OF storedD(1)[OF S] dir] by simp
  have room: "snd ?p + 64 \<le> BLOCK_WORDS" by (simp add: slot_def)
  obtain s' where s': "file_get_block ?p i s = Ret (Inr ?b, s')" "reads D N {(fst ?p, snd ?p + F_DIR)} s'" "mapped s' ?b"
    using get_block_image[OF R L storedD(1)[OF S] conjunct1[OF ci] n m f0 room] dir by (auto simp: returns_iff)
  have ob: "own ?b = Some (Suc k, Some i)" using L ci by (simp add: linked_def)
  have b0: "?b \<noteq> 0" "?b \<noteq> fst ?p" using own_okD(1)[OF storedD(1)[OF S] ob] ob dir by auto
  let ?n = "min BY2BLK (length cs - i * BY2BLK)" and ?c = "take BY2BLK (drop (i * BY2BLK) cs)"
  have "rd_bytes (?b, 0) ?n s' = Ret (map (blk_byte (fw D (?b, 0))) [0..<?n])"
    by (rule rd_bytes_image[OF s'(2)]) (use s'(3) b0 in auto)
  moreover have "map (blk_byte (fw D (?b, 0))) [0..<?n] = ?c"
  proof (rule nth_equalityI)
    fix j assume "j < length (map (blk_byte (fw D (?b, 0))) [0..<?n])"
    then have j: "j < ?n" "j < length ?c" by simp_all
    have "blk_byte (D ?b) j = chunks cs ! i ! j" using H ci j(2) by (simp add: holds_def)
    moreover have "fw D (?b, 0) = D ?b" by (simp add: fw_def fun_eq_iff)
    ultimately show "map (blk_byte (fw D (?b, 0))) [0..<?n] ! j = ?c ! j" using ci j(1) i by simp
  qed (simp add: min.commute)
  ultimately show ?thesis unfolding s'(1) by simp
qed

definition reads_back :: "nat \<Rightarrow> char list \<Rightarrow> string \<Rightarrow> fs_state \<Rightarrow> bool" where
  "reads_back fuel cs name s \<longleftrightarrow>
     returns (\<lambda>(r, s). \<exists>f w. r = Inr (Some f) \<and> rdw (field f F_SIZE) s = Ret w \<and> unat w = length cs
       \<and> (\<forall>i. i * BY2BLK < length cs \<longrightarrow> returns (\<lambda>(r, s). \<exists>b. r = Inr b
            \<and> rd_bytes (b, 0) (min BY2BLK (length cs - i * BY2BLK)) s = Ret (take BY2BLK (drop (i * BY2BLK) cs))) (file_get_block f i s)))
     (file_open (Suc fuel) (''/'' @ name @ [NUL]) s)"

lemma reads_back_image:
  assumes R: "reads D N {} s" and S: "stored D N own (map file_entry files) nd" and U: "used (map file_entry files) nd \<le> NBLOCK"
    and k: "(path, cs) \<in> set files" and d: "distinct (map (file_part \<circ> fst) files)"
  shows "reads_back fuel cs (file_part path) s"
proof -
  let ?es = "map file_entry files" and ?nm = "file_part path"
  obtain k where k: "k < length files" "files ! k = (path, cs)" using assms(4) by (auto simp: in_set_conv_nth)
  have e: "k < length ?es" "?es ! k = (?nm, of_nat (length cs), FTYPE_REG, chunks cs)" using k by (simp_all add: file_entry_def)
  have un: "j = k" if "j < length ?es" "fst (?es ! j) = ?nm" for j
  proof (rule nth_eq_iff_index_eq[OF d, THEN iffD1])
    show "map (file_part \<circ> fst) files ! j = map (file_part \<circ> fst) files ! k" using that k by (simp add: file_entry_def)
  qed (use that k in simp_all)
  have "CHR ''/'' \<notin> set ?nm" by (auto simp: file_part_def dest: set_takeWhileD)
  from file_open_image[OF R S e un this, of fuel] obtain s1 where s1: "file_open (Suc fuel) (''/'' @ ?nm @ [NUL]) s = Ret (Inr (Some (slot D k)), s1)"
    "reads D N {(fst (slot D k), snd (slot D k) + F_DIR)} s1" "mapped s1 (fst (slot D k))"
    by (auto simp: returns_iff)
  have "length (chunks cs) + index_blocks (length (chunks cs)) \<le> sum_list (map (\<lambda>(_, _, _, chs). length chs + index_blocks (length chs)) ?es)"
  proof (rule member_le_sum_list)
    have "?es ! k \<in> set ?es" using e(1) by (rule nth_mem)
    then show "length (chunks cs) + index_blocks (length (chunks cs)) \<in> set (map (\<lambda>(_, _, _, chs). length chs + index_blocks (length chs)) ?es)"
      unfolding e(2) set_map by force
  qed simp_all
  then have n: "length (chunks cs) \<le> NINDIRECT" using U by (simp add: used_def)
  then have len: "unat (of_nat (length cs) :: u32) = length cs" using length_chunks[of cs] by (intro unat_of_small) simp
  have kn: "k < 16 * nd" using e(1) storedD(7)[OF S] by simp
  have f0: "fst (slot D k) \<noteq> 0" using own_okD(1)[OF storedD(1)[OF S] slot_owner[OF storedD(4)[OF S] kn]] by simp
  have "snd (slot D k) + F_SIZE < BLOCK_WORDS" by (simp add: slot_def)
  then have "rdw (field (slot D k) F_SIZE) s1 = Ret (of_nat (length cs))"
    using rdw_image[OF s1(2,3) f0, of "snd (slot D k) + F_SIZE"] storedD(8)[OF S e(1)] by (simp add: field_def e(2) holds_def fw_def)
  then show ?thesis
    unfolding reads_back_def s1(1) returns.simps prod.case using len read_back_block[OF s1(2,3) S e n]
    by (intro exI[of _ "slot D k"] exI[of _ "of_nat (length cs)"]) simp
qed

text \<open>
  C37. What \<open>fsformat\<close> writes, the file system server reads.  For files with distinct proper names that fit on the disk the
  tool produces an image; started on it, the server accepts it, opens every file by its name in the root
  directory with the size it had on the host, and each block it then delivers holds that part of the
  contents.
\<close>

theorem fsformat_read_back:
  assumes "files \<noteq> []" and "\<forall>(path, cs) \<in> set files. name_ok (file_part path)" and "distinct (map (file_part \<circ> fst) files)"
    and "blocks_needed files \<le> NBLOCK"
  shows "\<exists>D. fsformat False (file_args files) = Ret D
    \<and> (\<forall>t path cs. cold t \<and> disk t = D \<and> NBLOCK + 3 \<le> pages_left t \<and> (path, cs) \<in> set files
        \<longrightarrow> returns (reads_back fuel cs (file_part path)) (fs_init t))"
proof -
  obtain D V N own where D: "fsformat False (file_args files) = Ret D" "image_of D N V" "built V N own (map file_entry files) ((length files + 15) div 16)"
    using fsformat_builds[OF assms(1,2,4)] by blast
  have U: "used (map file_entry files) ((length files + 15) div 16) \<le> NBLOCK" using assms(4) by (simp add: blocks_needed_def)
  have "returns (reads_back fuel cs (file_part path)) (fs_init t)"
    if "cold t" "disk t = D" "NBLOCK + 3 \<le> pages_left t" "(path, cs) \<in> set files" for t path cs
    using image_starts[OF D(2,3) that(1-3)]
    by (rule returns_mono) (rule reads_back_image[OF _ stored_image[OF D(2,3)] U that(4) assms(3)])
  then show ?thesis using D(1) by blast
qed

definition start_state :: "(nat \<Rightarrow> nat \<Rightarrow> u32) \<Rightarrow> fs_state" where
  "start_state D = \<lparr>fs_super = False, fs_bitmap = False, cache = (\<lambda>_ _. 0), mapped = (\<lambda>_. False), dirty = (\<lambda>_. False), disk = D, pages_left = 2000\<rparr>"

theorem fsformat_read_back_witness:
  "\<exists>D. fsformat False (file_args [(''rootfs/motd'', ''hello''), (''empty'', [])]) = Ret D
     \<and> returns (reads_back 0 ''hello'' ''motd'') (fs_init (start_state D)) \<and> returns (reads_back 0 [] ''empty'') (fs_init (start_state D))"
proof -
  let ?files = "[(''rootfs/motd'', ''hello''), (''empty'', [])] :: (string \<times> char list) list"
  have parts: "file_part ''rootfs/motd'' = ''motd''" "file_part ''empty'' = ''empty''" by (simp_all add: file_part_def)
  have "blocks_needed ?files \<le> NBLOCK"
    by (simp add: blocks_needed_def used_def file_entry_def index_blocks_def chunks.simps[of "''hello''"])
  moreover have "\<forall>(path, cs) \<in> set ?files. name_ok (file_part path)" "distinct (map (file_part \<circ> fst) ?files)" by (simp_all add: parts name_ok_def)
  ultimately obtain D where D: "fsformat False (file_args ?files) = Ret D"
    "\<And>t path cs. cold t \<Longrightarrow> disk t = D \<Longrightarrow> NBLOCK + 3 \<le> pages_left t \<Longrightarrow> (path, cs) \<in> set ?files \<Longrightarrow> returns (reads_back 0 cs (file_part path)) (fs_init t)"
    using fsformat_read_back[of ?files 0] by blast
  have "cold (start_state D)" "disk (start_state D) = D" "NBLOCK + 3 \<le> pages_left (start_state D)" by (simp_all add: start_state_def cold_def)
  from D(2)[OF this, of "''rootfs/motd''" "''hello''"] D(2)[OF this, of "''empty''" "[]"] show ?thesis using D(1) by (auto simp: parts)
qed

end
