(* ===== verification/Mos_Spawn.thy ===== *)
theory Mos_Spawn
  imports Mos_Cow Mos_File
begin

text \<open>
  Starting a program: \<open>user/lib/spawn.c\<close>, which runs in the parent and uses two parts of the system side by
  side, the files of \<open>Mos_File\<close> and the system calls of \<open>Mos_Syscall\<close>.  The state of \<open>spawn\<close> is the pair of
  their states; the page tables the library reads through \<open>vpd\<close> and \<open>vpt\<close> are those of the kernel's
  state.  An argument is its characters without the terminating NUL, and the messages of the two error
  paths of \<open>spawn\<close> are not modelled.
\<close>

section \<open>Results of system calls\<close>

definition error_of :: "u32 \<Rightarrow> error outcome" where
  "error_of v =
     (case find (\<lambda>e. sys_errno e = v)
         [E_UNSPECIFIED, E_BAD_ENV, E_INVAL, E_NO_MEM, E_NO_SYS, E_NO_FREE_ENV, E_IPC_NOT_RECV, E_NO_DISK,
          E_MAX_OPEN, E_NOT_FOUND, E_BAD_PATH, E_FILE_EXISTS, E_NOT_EXEC] of
        None \<Rightarrow> Undef
      | Some e \<Rightarrow> Ret e)"

text \<open>A system call that returns 0 or an error.\<close>

definition checked :: "(sysret \<times> 's) outcome \<Rightarrow> ((error + unit) \<times> 's) outcome" where
  "checked m =
     obind m (\<lambda>(r, s).
       case r of
         Returns v \<Rightarrow> if v = 0 then Ret (Inr (), s) else obind (error_of v) (\<lambda>e. Ret (Inl e, s))
       | _ \<Rightarrow> Undef)"

section \<open>The initial stack\<close>

definition strings_size :: "string list \<Rightarrow> nat" where
  "strings_size argv = sum_list (map (\<lambda>a. length a + 1) argv)"

definition ROUND4 :: "nat \<Rightarrow> nat" where
  "ROUND4 n = (n + 3) div 4 * 4"

text \<open>The two loops of \<open>init_stack\<close> over the arguments: the strings, and the pointers to them.\<close>

fun copy_strings :: "u32 \<Rightarrow> string list \<Rightarrow> 'a kernel_scheme \<Rightarrow> 'a kernel_scheme outcome" where
  "copy_strings ctemp [] s = Ret s"
| "copy_strings ctemp (a # argv) s =
     obind (user_put_bytes ctemp (map char_byte a) s) (\<lambda>s.
     let ctemp = ctemp + of_nat (length a) in
     obind (user_put8 ctemp 0 s) (copy_strings (ctemp + 1) argv))"

fun put_pointers :: "u32 \<Rightarrow> u32 \<Rightarrow> string list \<Rightarrow> 'a kernel_scheme \<Rightarrow> (u32 \<times> 'a kernel_scheme) outcome" where
  "put_pointers args ctemp [] s = Ret (ctemp, s)"
| "put_pointers args ctemp (a # argv) s =
     obind (user_put32 args ctemp s) (put_pointers (args + 4) (ctemp + of_nat (length a + 1)) argv)"

text \<open>Filling the stack page, which is mapped at \<open>UTEMP\<close> meanwhile; the result is \<open>*init_sp\<close>.\<close>

definition write_stack :: "string list \<Rightarrow> 'a kernel_scheme \<Rightarrow> (u32 \<times> 'a kernel_scheme) outcome" where
  "write_stack argv s =
     (let argc = length argv;
          tot = strings_size argv;
          strings = UTEMP + BY2PG - of_nat tot;
          args = UTEMP + BY2PG - of_nat (ROUND4 tot) - 4 * of_nat (argc + 1)
      in obind (copy_strings strings argv s) (\<lambda>s.
         obind (put_pointers args (USTACKTOP - UTEMP - BY2PG + strings) argv s) (\<lambda>(ctemp, s).
         obind (user_put32 (args + 4 * of_nat argc) (ctemp - 1) s) (\<lambda>s.
         let pargv_ptr = args - 4 in
         obind (user_put32 pargv_ptr (USTACKTOP - UTEMP - BY2PG + args) s) (\<lambda>s.
         let pargv_ptr = pargv_ptr - 4 in
         obind (user_put32 pargv_ptr (of_nat argc) s) (\<lambda>s.
         Ret (USTACKTOP - UTEMP - BY2PG + pargv_ptr, s)))))))"

definition init_stack :: "u32 \<Rightarrow> string list \<Rightarrow> 'a kernel_scheme \<Rightarrow> ((error + u32) \<times> 'a kernel_scheme) outcome" where
  "init_stack child argv s =
     (let size = ROUND4 (strings_size argv) + 4 * (length argv + 3);
          fail = (\<lambda>e s. obind (ignore (sys_mem_unmap 0 UTEMP s)) (\<lambda>s. Ret (Inl e, s)))
      in
      if 2 ^ 31 \<le> size then Undef
      else if 4096 < size then Ret (Inl E_NO_MEM, s)
      else
        otry (checked (sys_mem_alloc 0 UTEMP PTE_D s)) (\<lambda>_ s.
        obind (write_stack argv s) (\<lambda>(init_sp, s).
        obind (checked (sys_mem_map 0 UTEMP child (USTACKTOP - BY2PG) PTE_D s)) (\<lambda>(r, s).
          case r of
            Inl e \<Rightarrow> fail e s
          | Inr _ \<Rightarrow>
              obind (checked (sys_mem_unmap 0 UTEMP s)) (\<lambda>(r, s).
                case r of Inl e \<Rightarrow> fail e s | Inr _ \<Rightarrow> Ret (Inr init_sp, s))))))"

section \<open>Segments\<close>

definition spawn_mapper :: "u32 \<Rightarrow> 'a kernel_scheme elf_mapper" where
  "spawn_mapper child_id va offset perm src len s =
     otry (checked (sys_mem_alloc child_id va perm s)) (\<lambda>_ s.
       case src of
         None \<Rightarrow> Ret (Inr (), s)
       | Some bs \<Rightarrow>
           obind (checked (sys_mem_map child_id va 0 UTEMP (perm OR PTE_D) s)) (\<lambda>(r, s).
             case r of
               Inl e \<Rightarrow> obind (ignore (sys_mem_unmap child_id va s)) (\<lambda>s. Ret (Inl e, s))
             | Inr _ \<Rightarrow>
                 if length bs < unat len then Undef
                 else obind (user_put_bytes (UTEMP + offset) (take (unat len) bs) s) (\<lambda>s.
                   checked (sys_mem_unmap 0 UTEMP s))))"

text \<open>
  The loop over the program headers.  The ELF header lies in the buffer that each program header is read
  into, and the loop reads the size and the number of the headers from there in each iteration.
\<close>

lemma phnum_less: "unat (w :: u16) < 65536"
  using unsigned_less[of w] by simp

type_synonym 'a spawner = "proc \<times> 'a kernel_scheme"

function load_segments ::
  "pipe_reader \<Rightarrow> int \<Rightarrow> u32 \<Rightarrow> u8 list \<Rightarrow> nat \<Rightarrow> u32 \<Rightarrow> 'a spawner \<Rightarrow> (int \<times> 'a spawner) outcome" where
  "load_segments pr fd child elfbuf idx ph_off (p, s) =
     obind (get16 elfbuf 44) (\<lambda>phnum. obind (get16 elfbuf 42) (\<lambda>phentsize.
       if unat phnum \<le> idx then Ret (0, p, s)
       else
         obind (seek fd ph_off p) (\<lambda>(r, p).
         if r < 0 then Ret (r, p, s)
         else if 512 < phentsize then Undef
         else obind (readn pr fd (ucast phentsize) p) (\<lambda>((r, cs), p).
         if r \<noteq> int (unat phentsize) then Ret (- errno E_NOT_EXEC, p, s)
         else
           let elfbuf = map char_byte cs @ drop (length cs) elfbuf;
               next_phdr = (\<lambda>p s. obind (get16 elfbuf 42) (\<lambda>phentsize.
                         load_segments pr fd child elfbuf (idx + 1) (ph_off + ucast phentsize) (p, s)))
           in obind (read_phdr elfbuf 0) (\<lambda>ph.
             if p_type ph = PT_LOAD then
               obind (read_map fd (p_offset ph) p) (\<lambda>((r, _), p).
                 if r < 0 then Ret (r, p, s)
                 else obind (load_bytes (nat fd) (unat (p_offset ph)) (unat (p_filesz ph)) p) (\<lambda>cs.
                   obind (elf_load_seg (spawn_mapper child) ph (map char_byte cs) s) (\<lambda>(r, s).
                     case r of Inl e \<Rightarrow> Ret (- errno e, p, s) | Inr _ \<Rightarrow> next_phdr p s)))
             else next_phdr p s)))))"
  by pat_completeness auto
termination
  by (relation "measure (\<lambda>(pr, fd, child, elfbuf, idx, ph_off, s). 65536 - idx)")
    (auto simp: not_le intro!: diff_less_mono2 dest: order.strict_trans[OF _ phnum_less])

declare load_segments.simps [simp del]

section \<open>Shared pages\<close>

text \<open>The two loops of \<open>spawn\<close> over the address space of the parent.\<close>

fun share_pages :: "u32 \<Rightarrow> nat list \<Rightarrow> 'a kernel_scheme \<Rightarrow> ((error + unit) \<times> 'a kernel_scheme) outcome" where
  "share_pages child [] s = Ret (Inr (), s)"
| "share_pages child (pn # pns) s =
     with_cur s (\<lambda>c.
       let perm = vpt s c pn AND 0xFFF; va = page_va pn in
       if perm AND PTE_V \<noteq> 0 \<and> perm AND PTE_LIBRARY \<noteq> 0
       then otry (checked (sys_mem_map 0 va child va perm s)) (\<lambda>_ s. share_pages child pns s)
       else share_pages child pns s)"

fun share_tables :: "u32 \<Rightarrow> nat list \<Rightarrow> 'a kernel_scheme \<Rightarrow> ((error + unit) \<times> 'a kernel_scheme) outcome" where
  "share_tables child [] s = Ret (Inr (), s)"
| "share_tables child (pdeno # pdenos) s =
     with_cur s (\<lambda>c.
       if \<not> pte_valid (vpd s c pdeno) then share_tables child pdenos s
       else otry (share_pages child [pdeno * 1024..<pdeno * 1024 + 1024] s) (\<lambda>_ s. share_tables child pdenos s))"

section \<open>spawn\<close>

text \<open>
  Opening the program: first under its own name, then with \<open>.b\<close> appended.  \<open>prog\<close> is a C string; the copy
  goes into an array of 1024 bytes.
\<close>

definition open_prog :: "(nat \<Rightarrow> char list) \<Rightarrow> nat \<Rightarrow> char list \<Rightarrow> proc \<Rightarrow> (int \<times> proc) outcome" where
  "open_prog stk depth prog p =
     obind (open_file stk depth prog O_RDONLY p) (\<lambda>(fd, p).
       if fd < 0 then
         obind (strcpy (replicate 1024 NUL) prog) (\<lambda>bprog.
         obind (strlen bprog) (\<lambda>len.
           if 1024 \<le> len + 2 then Undef
           else obind (open_file stk depth (bprog[len := CHR ''.'', len + 1 := CHR ''b'', len + 2 := NUL]) O_RDONLY p) (\<lambda>(bfd, p).
             Ret (if 0 \<le> bfd then bfd else fd, p))))
       else Ret (fd, p))"

text \<open>
  The end of \<open>spawn\<close>, after the segments: \<open>tfp\<close> is the address of the local variable \<open>tf\<close> on the parent's
  stack.  The error exit \<open>err2\<close> destroys the child.
\<close>

definition start_child :: "u32 \<Rightarrow> u32 \<Rightarrow> u32 \<Rightarrow> u32 \<Rightarrow> 'a kernel_scheme \<Rightarrow> (int \<times> 'a kernel_scheme) outcome" where
  "start_child tfp child entrypoint sp s =
     (let tf = env_tf (envs s (ENVX child));
          tf = tf\<lparr>cp0_epc := entrypoint, regs := (regs tf)(29 := sp)\<rparr>;
          err2 = (\<lambda>e s. obind (ignore (sys_env_destroy child s)) (\<lambda>s. Ret (- errno e, s)))
      in obind (user_put_words tfp (tf_words tf) s) (\<lambda>s.
         obind (checked (sys_set_trapframe child tfp s)) (\<lambda>(r, s).
           case r of
             Inl e \<Rightarrow> err2 e s
           | Inr _ \<Rightarrow>
               obind (share_tables child [0..<PDX USTACKTOP + 1] s) (\<lambda>(r, s).
                 case r of
                   Inl e \<Rightarrow> err2 e s
                 | Inr _ \<Rightarrow>
                     obind (checked (sys_set_env_status child ENV_RUNNABLE s)) (\<lambda>(r, s).
                       case r of Inl e \<Rightarrow> err2 e s | Inr _ \<Rightarrow> Ret (sint child, s))))))"

text \<open>
  \<open>spawn\<close>.  The result of \<open>syscall_exofork\<close> is unsigned, so the test \<open>child < 0\<close> is never true and an error
  number is used as an identifier.
\<close>

definition spawn ::
  "(nat \<Rightarrow> char list) \<Rightarrow> nat \<Rightarrow> pipe_reader \<Rightarrow> u32 \<Rightarrow> char list \<Rightarrow> string list \<Rightarrow> 'a spawner \<Rightarrow> (int \<times> 'a spawner) outcome" where
  "spawn stk depth pr tfp prog argv = (\<lambda>(p, s).
     obind (open_prog stk depth prog p) (\<lambda>(fd, p).
     if fd < 0 then Ret (fd, p, s)
     else
       let err = (\<lambda>r (p, s). obind (close fd p) (\<lambda>(_, p). Ret (r, p, s)))
       in obind (readn pr fd (of_nat sizeof_Ehdr) p) (\<lambda>((r, cs), p).
       if r \<noteq> int sizeof_Ehdr then err (- errno E_NOT_EXEC) (p, s)
       else
         let elfbuf = map char_byte cs
         in obind (elf_from elfbuf (of_nat sizeof_Ehdr)) (\<lambda>h.
         case h of
           None \<Rightarrow> err (- errno E_NOT_EXEC) (p, s)
         | Some ehdr \<Rightarrow>
             obind (sys_exofork s) (\<lambda>(c, s).
             case c of
               Returns child \<Rightarrow>
                 let err1 = (\<lambda>r (p, s). obind (ignore (sys_env_destroy child s)) (\<lambda>s. err r (p, s)))
                 in obind (init_stack child argv s) (\<lambda>(r, s).
                 case r of
                   Inl e \<Rightarrow> err1 (- errno e) (p, s)
                 | Inr sp \<Rightarrow>
                     obind (load_segments pr fd child elfbuf 0 (e_phoff ehdr) (p, s)) (\<lambda>(r, p, s).
                     if r < 0 then err1 r (p, s)
                     else
                       obind (close fd p) (\<lambda>(_, p).
                       obind (start_child tfp child (e_entry ehdr) sp s) (\<lambda>(r, s). Ret (r, p, s)))))
             | _ \<Rightarrow> Undef)))))"

end
