(* ===== verification/Mos_SpawnProps.thy ===== *)
theory Mos_SpawnProps
  imports Mos_Spawn
begin

text \<open>
  What \<open>spawn\<close> builds for the child: the initial stack, which the child finds at the top of its address
  space with the arguments in it, and the segments of the program.
\<close>

section \<open>Stores into one page\<close>

lemma frames_phys_put: "frames (phys_put a b (s\<lparr>tlb := T\<rparr>)) = frames (phys_put a b s)"
  by (simp add: phys_put_def frames_poke peek_def)

lemma phys_get_cong: "frames s = frames t \<Longrightarrow> phys_get s a = phys_get t a"
  by (simp add: phys_get_def)

lemma page_offset:
  assumes "pg AND 0xFFF = 0" and "pg < UTOP" and "k < 4096"
  shows "unat ((pg + of_nat k) AND 0xFFF) = k" "VPN (pg + of_nat k) = VPN pg" "pg + of_nat k < UTOP"
    "unat (pg + of_nat k) = unat pg + k"
proof -
  have "unat (pg AND 0xFFF) + k < 4096" using assms(1,3) by simp
  note off = page_offset_add[OF this]
  show "unat ((pg + of_nat k) AND 0xFFF) = k" using off(2) assms(1) by simp
  show v: "VPN (pg + of_nat k) = VPN pg" by (rule off(3))
  show "pg + of_nat k < UTOP" by (rule user_same_page[OF v[symmetric] assms(2)])
  show "unat (pg + of_nat k) = unat pg + k" by (rule off(1))
qed

text \<open>
  The page at \<open>pg\<close> of the current environment is mapped, writable, to the frame \<open>p\<close>.
\<close>

definition writable :: "nat \<Rightarrow> u32 \<Rightarrow> nat \<Rightarrow> 'a kernel_scheme \<Rightarrow> bool" where
  "writable c pg p s \<longleftrightarrow> curenv s = Some c \<and> pg AND 0xFFF = 0 \<and> pg < UTOP \<and>
     (\<exists>x. vmap s (env_pgdir (envs s c)) pg = Some x \<and> x AND PTE_D \<noteq> 0 \<and> PPN x = p)"

lemma writable_page:
  assumes "kinv K s" and "writable c pg p s"
  shows "user_page (dirs s) (kbase K s) s p"
  using assms leaf_range(6)[OF kinvD(1)[OF assms(1)] live_dirs[OF cur_live[OF assms(1)]] PDX_user]
  by (auto simp: writable_def)

lemma writable_contents:
  assumes "kinv K s" and "writable c pg p s" and "contents_step K s s'"
  shows "writable c pg p s'"
proof -
  have "env_pgdir (envs s c) \<in> dirs s"
    using assms(2) by (auto simp: writable_def intro: live_dirs[OF cur_live[OF assms(1)]])
  then show ?thesis
    using assms(2) contents_step_keeps(2-4)[OF assms(1,3)] by (simp add: writable_def same_vmap_def)
qed

lemma writable_at:
  assumes "writable c pg p s" and "k < 4096"
  obtains x where "vmap s (env_pgdir (envs s c)) (pg + of_nat k) = Some x" "x AND PTE_D \<noteq> 0" "PPN x = p"
  using assms vmap_same_page[OF page_offset(2), of pg k s] by (auto simp: writable_def)

lemma put_byte:
  assumes inv: "kinv K s" and w: "writable c pg p s" and k: "k < 4096"
  shows "\<exists>s'. user_put8 (pg + of_nat k) b s = Ret s' \<and> contents_step K s s' \<and> frames s' = frames (phys_put (p * 4096 + k) b s)"
proof -
  have pg: "curenv s = Some c" "pg AND 0xFFF = 0" "pg < UTOP" using w by (simp_all add: writable_def)
  obtain x where x: "vmap s (env_pgdir (envs s c)) (pg + of_nat k) = Some x" "x AND PTE_D \<noteq> 0" "PPN x = p"
    by (rule writable_at[OF w k])
  note off = page_offset[OF pg(2,3) k]
  obtain T where "do_tlb_refill (pg + of_nat k) s = Ret (x, s\<lparr>tlb := T\<rparr>)"
    using refill_mapped[OF inv pg(1) off(3) x(1)] by blast
  then have run: "user_put8 (pg + of_nat k) b s = Ret (phys_put (p * 4096 + k) b (s\<lparr>tlb := T\<rparr>))"
    using below_ULIM[OF off(3)] x(2,3) off(1) by (simp add: user_put8_def)
  moreover have "contents_step K s (phys_put (p * 4096 + k) b (s\<lparr>tlb := T\<rparr>))"
    using contents_step_poke[OF writable_page[OF inv w]] k by (simp add: phys_put_def)
  ultimately show ?thesis by (auto simp: frames_phys_put)
qed

lemma frames_phys_write_cong: "frames s = frames t \<Longrightarrow> frames (phys_write a bs s) = frames (phys_write a bs t)"
proof (induction bs arbitrary: a s t)
  case (Cons b bs)
  have "frames (phys_put a b s) = frames (phys_put a b t)"
    using Cons.prems by (simp add: phys_put_def frames_poke peek_def)
  then show ?case using Cons.IH by simp
qed simp

lemma put_bytes:
  assumes "kinv K s" and "writable c pg p s" and "k + length bs \<le> 4096"
  shows "\<exists>s'. user_put_bytes (pg + of_nat k) bs s = Ret s' \<and> contents_step K s s' \<and>
    frames s' = frames (phys_write (p * 4096 + k) bs s)"
  using assms
proof (induction bs arbitrary: k s)
  case Nil
  then show ?case by (simp add: contents_step_def)
next
  case (Cons b bs)
  have "k < 4096" using Cons.prems(3) by simp
  then obtain s1 where s1: "user_put8 (pg + of_nat k) b s = Ret s1" "contents_step K s s1" "frames s1 = frames (phys_put (p * 4096 + k) b s)"
    using put_byte[OF Cons.prems(1,2)] by blast
  have step: "pg + of_nat k + 1 = pg + of_nat (Suc k)" by simp
  have fit: "Suc k + length bs \<le> 4096" using Cons.prems(3) by simp
  note kept = contents_step_keeps(1)[OF Cons.prems(1) s1(2)] writable_contents[OF Cons.prems(1,2) s1(2)]
  obtain s2 where s2: "user_put_bytes (pg + of_nat (Suc k)) bs s1 = Ret s2" "contents_step K s1 s2"
      "frames s2 = frames (phys_write (p * 4096 + Suc k) bs s1)"
    using Cons.IH[OF kept fit] by blast
  have "frames s2 = frames (phys_write (p * 4096 + k) (b # bs) s)"
    using frames_phys_write_cong[OF s1(3)] s2(3) by simp
  then show ?case using s1(1) s2(1) contents_step_trans[OF Cons.prems(1) s1(2) s2(2)] by (simp add: step)
qed

lemma put_words:
  assumes "kinv K s" and "writable c pg p s" and "i + length ws \<le> 1024"
  shows "\<exists>s'. user_put_words (pg + of_nat (4 * i)) ws s = Ret s' \<and> contents_step K s s' \<and>
    frames s' = (frames s)(p := (\<lambda>j. if i \<le> j \<and> j < i + length ws then ws ! (j - i) else frames s p j))"
  using assms
proof (induction ws arbitrary: i s)
  case Nil
  then show ?case by (auto simp: contents_step_def fun_eq_iff)
next
  case (Cons w ws)
  have pg: "curenv s = Some c" "pg AND 0xFFF = 0" "pg < UTOP" using Cons.prems(2) by (simp_all add: writable_def)
  have k: "4 * i < 4096" using Cons.prems(3) by simp
  note off = page_offset[OF pg(2,3) k]
  obtain x where x: "vmap s (env_pgdir (envs s c)) (pg + of_nat (4 * i)) = Some x" "x AND PTE_D \<noteq> 0" "PPN x = p"
    by (rule writable_at[OF Cons.prems(2) k])
  have "unat ((pg + of_nat (4 * i)) AND 0xFFF) mod 4 = unat (pg + of_nat (4 * i)) mod 4"
    unfolding and_0xFFF by (rule mod_mod_cancel) simp
  then have al: "(pg + of_nat (4 * i)) AND 3 = 0" unfolding and_3 off(1) by simp
  obtain T where store: "user_put32 (pg + of_nat (4 * i)) w s = Ret (poke (p, i) w (s\<lparr>tlb := T\<rparr>))"
    using user_store[OF Cons.prems(1) pg(1) off(3) x(1) al x(2), of w] unfolding x(3) off(1) by auto
  define s1 where "s1 = poke (p, i) w (s\<lparr>tlb := T\<rparr>)"
  have st: "contents_step K s s1"
    unfolding s1_def by (rule contents_step_poke[OF writable_page[OF Cons.prems(1,2)]])
  note kept = contents_step_keeps(1)[OF Cons.prems(1) st] writable_contents[OF Cons.prems(1,2) st]
  have fit: "Suc i + length ws \<le> 1024" using Cons.prems(3) by simp
  have step: "pg + of_nat (4 * i) + 4 = pg + of_nat (4 * Suc i)" by simp
  obtain s2 where s2: "user_put_words (pg + of_nat (4 * Suc i)) ws s1 = Ret s2" "contents_step K s1 s2"
      "frames s2 = (frames s1)(p := (\<lambda>j. if Suc i \<le> j \<and> j < Suc i + length ws then ws ! (j - Suc i) else frames s1 p j))"
    using Cons.IH[OF kept fit] by blast
  have fr: "frames s2 = (frames s)(p := (\<lambda>j. if i \<le> j \<and> j < i + length (w # ws) then (w # ws) ! (j - i) else frames s p j))"
    unfolding s2(3) s1_def by (auto simp: frames_poke fun_eq_iff nth_Cons' Suc_diff_le)
  have run: "user_put_words (pg + of_nat (4 * i)) (w # ws) s = Ret s2"
    using store s2(1) unfolding user_put_words.simps step s1_def[symmetric] by simp
  show ?case by (intro exI[of _ s2] conjI run fr contents_step_trans[OF Cons.prems(1) st s2(2)])
qed

section \<open>Page tables stay, and what a mapping adds to a reference count\<close>

definition tables_stay :: "nat set \<Rightarrow> 'a pmap_state_scheme \<Rightarrow> 'b pmap_state_scheme \<Rightarrow> bool" where
  "tables_stay D s s' \<longleftrightarrow> (\<forall>d\<in>D. \<forall>i. pte_valid (pde_at s d i) \<longrightarrow> pte_valid (pde_at s' d i))"

lemma tables_stay_trans: "tables_stay D s s1 \<Longrightarrow> tables_stay D s1 s2 \<Longrightarrow> tables_stay D s s2"
  by (simp add: tables_stay_def)

lemma tables_stay_poke:
  assumes "frames s' = frames (poke (f, j) v s)" and "f \<notin> D"
  shows "tables_stay D s s'"
  using assms(2) by (auto simp: tables_stay_def assms(1) frames_poke)

lemma pgdir_walk_tables:
  assumes inv: "pmap_inv D base s" and d: "d \<in> D" and i: "PDX va < NUPDE" and run: "pgdir_walk d va True s = Ret (r, s')"
  shows "tables_stay D s s'" and "r = Inr (Some (f, j)) \<Longrightarrow> f \<notin> D"
proof -
  have "tables_stay D s s' \<and> (\<forall>f j. r = Inr (Some (f, j)) \<longrightarrow> f \<notin> D)"
  proof (cases "pte_valid (pde_at s d (PDX va))")
    case True
    then show ?thesis
      using run pgdir_walk_present[OF inv d i True] table_not_dir[OF pmap_invD(2)[OF inv] d i True]
      by (auto simp: tables_stay_def)
  next
    case False
    show ?thesis
    proof (cases "page_free_list s")
      case Nil
      then show ?thesis using run False by (auto simp: pgdir_walk_def Let_def peek_def page_alloc_def tables_stay_def)
    next
      case (Cons q fl)
      have q: "q \<notin> D" using free_unreferenced[OF inv, of q] unreferenced(4)[OF inv] Cons by simp
      define s1 where "s1 = s\<lparr>page_free_list := fl, frames := (frames s)(q := (\<lambda>_. 0))\<rparr>"
      have alloc: "page_alloc s = Ret (Inr q, s1)"
        by (cases rule: page_alloc_cases[OF pmap_invD(1)[OF inv]]) (use Cons in \<open>auto simp: s1_def\<close>)
      obtain s2 where s2: "pgdir_walk d va True s = Ret (Inr (Some (q, PTX va)), s2)"
        using pgdir_walk_create[OF inv d i False Cons] by blast
      have "s2 = incr_ref q (poke (d, PDX va) ((page2pa q AND 0xfffff000) OR PTE_V OR PTE_D) s1)"
        using s2 False alloc by (auto simp: pgdir_walk_def Let_def peek_def obind_eq_Ret)
      then have "pde_at s2 d' i = pde_at s d' i \<or> d' = d \<and> i = PDX va" if "d' \<in> D" for d' i
        using q that by (auto simp: frames_poke s1_def)
      moreover have "pte_valid (pde_at s2 d (PDX va))"
        using pgdir_walk_create[OF inv d i False Cons] s2 by auto
      ultimately have "tables_stay D s s2" unfolding tables_stay_def by metis
      then show ?thesis using run s2 q by auto
    qed
  qed
  then show "tables_stay D s s'" "r = Inr (Some (f, j)) \<Longrightarrow> f \<notin> D" by simp_all
qed

lemma insert_finish_tables:
  assumes inv: "pmap_inv D base s" and d: "d \<in> D" and i: "PDX va < NUPDE"
    and run: "page_insert_finish d asid pp va perm s = Ret (r, s')"
  shows "tables_stay D s s'"
proof -
  obtain r1 s1 where walk: "pgdir_walk d va True (tlb_invalidate asid va s) = Ret (r1, s1)"
    and rest: "frames s' = frames s1 \<or> (\<exists>f j v. r1 = Inr (Some (f, j)) \<and> frames s' = frames (poke (f, j) v s1))"
    using run by (auto simp: page_insert_finish_def Let_def otry_eq_Ret split: option.splits) blast
  have inv': "pmap_inv D base (tlb_invalidate asid va s)" using inv by simp
  note w = pgdir_walk_tables[OF inv' d i walk]
  from rest have "tables_stay D s1 s'"
  proof
    assume "\<exists>f j v. r1 = Inr (Some (f, j)) \<and> frames s' = frames (poke (f, j) v s1)"
    then show ?thesis using w(2) by (auto intro: tables_stay_poke)
  qed (simp add: tables_stay_def)
  moreover have "tables_stay D s s1" using w(1) by (simp add: tables_stay_def)
  ultimately show ?thesis by (rule tables_stay_trans[rotated])
qed

lemma page_remove_tables:
  assumes inv: "pmap_inv D base s" and d: "d \<in> D" and va: "va < UTOP" and run: "page_remove d asid va s = Ret s'"
  shows "tables_stay D s s'"
proof (cases "vmap s d va")
  case None
  then show ?thesis using page_remove_absent[OF inv d PDX_user[OF va]] run by (simp add: tables_stay_def)
next
  case (Some e)
  have at: "pte_valid (pde_at s d (PDX va))" using Some by (auto simp: vmap_def split: if_splits)
  note l = leaf_range[OF inv d PDX_user[OF va] Some]
  have "frames s' = frames (poke (PPN (pde_at s d (PDX va)), PTX va) 0 s)"
    using run page_decref_eq[OF l(4,5)]
    by (auto simp: page_remove_def page_lookup_eq[OF inv d PDX_user[OF va]] Some frames_poke)
  then show ?thesis by (rule tables_stay_poke) (rule table_not_dir[OF pmap_invD(2)[OF inv] d PDX_user[OF va] at])
qed

lemma page_insert_keeps:
  assumes inv: "pmap_inv D base s" and d: "d \<in> D" and va: "va < UTOP" and run: "page_insert d asid pp va perm s = Ret (r, s')"
    and new: "pp \<notin> set (page_free_list s)"
  shows "tables_stay D s s'" and "unat (pp_ref s' pp) \<le> Suc (unat (pp_ref s pp))"
proof -
  note i = PDX_user[OF va]
  have "tables_stay D s s' \<and> unat (pp_ref s' pp) \<le> Suc (unat (pp_ref s pp))"
  proof (cases "vmap s d va")
    case None
    then have fin: "page_insert_finish d asid pp va perm s = Ret (r, s')"
      using run by (cases "pte_valid (pde_at s d (PDX va))")
        (auto simp: page_insert_def pgdir_walk_absent pgdir_walk_present[OF inv d i] vmap_def peek_def split: if_splits)
    show ?thesis using insert_finish_tables[OF inv d i fin] insert_finish_cost(2)[OF fin new] by simp
  next
    case (Some e)
    then have at: "pte_valid (pde_at s d (PDX va))" "pte_at s d (PDX va) (PTX va) = e" "pte_valid e"
      by (auto simp: vmap_def split: if_splits)
    have old: "pa2page s e = Ret (PPN e)" using leaf_range(1)[OF inv d i Some] by (simp add: pa2page_def)
    note run' = run[unfolded page_insert_def pgdir_walk_present[OF inv d i at(1)]]
    show ?thesis
    proof (cases "PPN e = pp")
      case True
      then have "s' = poke (PPN (pde_at s d (PDX va)), PTX va) (page2pa pp OR perm OR PTE_V) (tlb_invalidate asid va s)"
        using run' old at by (simp add: peek_def Let_def)
      then show ?thesis
        using tables_stay_poke[of s' "PPN (pde_at s d (PDX va))" "PTX va" "page2pa pp OR perm OR PTE_V" s D]
          table_not_dir[OF pmap_invD(2)[OF inv] d i at(1)] by (simp add: frames_poke)
    next
      case False
      obtain s1 where s1: "page_remove d asid va s = Ret s1" "pmap_step D base s s1"
        "pp_ref s1 = (pp_ref s)(PPN e := pp_ref s (PPN e) - 1)"
        "set (page_free_list s1) \<subseteq> insert (PPN e) (set (page_free_list s))"
        using page_remove_present[OF inv d va Some, of asid] by blast
      have inv1: "pmap_inv D base s1" using s1(2) by (simp add: pmap_step_def)
      have fin: "page_insert_finish d asid pp va perm s1 = Ret (r, s')"
        using run' old at False s1(1) by (simp add: peek_def)
      have new1: "pp \<notin> set (page_free_list s1)" using s1(4) new False by auto
      have "unat (pp_ref s' pp) \<le> Suc (unat (pp_ref s pp))"
        using insert_finish_cost(2)[OF fin new1, of pp] s1(3) False by simp
      then show ?thesis
        using tables_stay_trans[OF page_remove_tables[OF inv d va s1(1)] insert_finish_tables[OF inv1 d i fin]] by simp
    qed
  qed
  then show "tables_stay D s s'" "unat (pp_ref s' pp) \<le> Suc (unat (pp_ref s pp))" by simp_all
qed

lemma page_insert_present_free:
  assumes inv: "pmap_inv D base s" and d: "d \<in> D" and va: "va < UTOP" and at: "pte_valid (pde_at s d (PDX va))"
    and run: "page_insert d asid pp va perm s = Ret (r, s')"
  shows "length (page_free_list s) \<le> length (page_free_list s')"
proof -
  note i = PDX_user[OF va]
  note run' = run[unfolded page_insert_def pgdir_walk_present[OF inv d i at]]
  show ?thesis
  proof (cases "vmap s d va")
    case None
    then show ?thesis
      using run' at page_insert_finish_present[OF inv d va at, of asid pp perm] by (auto simp: vmap_def peek_def split: if_splits)
  next
    case (Some e)
    then have e: "pte_at s d (PDX va) (PTX va) = e" "pte_valid e" by (auto simp: vmap_def split: if_splits)
    have old: "pa2page s e = Ret (PPN e)" using leaf_range(1)[OF inv d i Some] by (simp add: pa2page_def)
    obtain s1 where s1: "page_remove d asid va s = Ret s1" "pmap_step D base s s1" "\<forall>i. pde_at s1 d i = pde_at s d i"
      using page_remove_present[OF inv d va Some, of asid] by blast
    have inv1: "pmap_inv D base s1" using s1(2) by (simp add: pmap_step_def)
    have at1: "pte_valid (pde_at s1 d (PDX va))" using at s1(3) by simp
    show ?thesis
      using run' e old s1(1) page_remove_free_len[OF s1(1)] page_insert_finish_present[OF inv1 d va at1, of asid pp perm]
      by (auto simp: peek_def Let_def split: if_splits)
  qed
qed

section \<open>The memory system calls, when they succeed\<close>

lemma error_of_errno [simp]: "error_of (sys_errno e) = Ret e"
  by (cases e) (simp_all add: error_of_def sys_errno_def)

lemma checked_Ret [simp]:
  "checked (Ret (Returns 0, s)) = Ret (Inr (), s)" "checked (Ret (Returns (sys_errno e), s)) = Ret (Inl e, s)"
  by (simp_all add: checked_def)

lemma alloc_page_ok:
  assumes inv: "kinv K s" and e: "\<And>f. with_env envid True s f = f e" "live s e" and perm: "perm < 4096"
    and run: "checked (sys_mem_alloc envid va perm s) = Ret (Inr u, s1)"
  obtains p where "UTEMP \<le> va" "va < UTOP" "p \<in> set (page_free_list s)"
    "pmap_step (dirs s) (kbase K s) s s1" "unat (pp_ref s1 p) \<le> 1" "frames s1 p = (\<lambda>_. 0)"
    "vmap_updated (dirs s) (env_pgdir (envs s e)) va (Some (page2pa p OR perm OR PTE_V)) s s1"
    "tables_stay (dirs s) s s1" "length (page_free_list s) \<le> length (page_free_list s1) + 2"
proof -
  let ?d = "env_pgdir (envs s e)" and ?a = "env_asid (envs s e)"
  have legal: "\<not> is_illegal_va va" using run by (auto simp: sys_mem_alloc_def)
  then have va: "UTEMP \<le> va" "va < UTOP" by (auto simp: is_illegal_va_def)
  note mem = kinvD(1)[OF inv] and d = live_dirs[OF e(2)]
  note run' = run[unfolded mem_alloc_run[OF legal inv e(1)]]
  obtain q fl where fl: "page_free_list s = q # fl"
    using run' by (cases "page_free_list s") (auto simp: page_alloc_def)
  define s0 where "s0 = s\<lparr>page_free_list := fl, frames := (frames s)(q := (\<lambda>_. 0))\<rparr>"
  have run0: "page_alloc s = Ret (Inr q, s0)"
    by (cases rule: page_alloc_cases[OF pmap_invD(1)[OF mem]]) (use fl in \<open>auto simp: s0_def\<close>)
  have st0: "pmap_step (dirs s) (kbase K s) s s0" "same_vmap (dirs s) s s0" "user_page (dirs s) (kbase K s) s0 q"
    and keep: "\<forall>p. user_page (dirs s) (kbase K s) s p \<longrightarrow> user_page (dirs s) (kbase K s) s0 p"
    using page_alloc_ok[OF mem] by (simp_all add: run0)
  have q: "q \<notin> dirs s" "pp_ref s0 q = 0"
    using free_unreferenced[OF mem, of q] unreferenced(4)[OF mem] fl by (simp_all add: s0_def)
  have mem0: "pmap_inv (dirs s) (kbase K s) s0" using st0(1) by (simp add: pmap_step_def)
  obtain r s2 where ins: "page_insert ?d ?a q va perm s0 = Ret (r, s2)" "insert_post (dirs s) (kbase K s) ?d q va perm s0 (r, s2)"
    using page_insert_ok[OF mem0 d va(2) st0(3) _ perm, of ?a] q(2) by (auto simp: returns_iff)
  have r: "r = Inr ()" "s2 = s1" using run' run0 ins(1) by (cases r; simp)+
  have new: "q \<notin> set (page_free_list s0)" using st0(3) by (simp add: user_page_def)
  note keeps = page_insert_keeps[OF mem0 d va(2) ins(1) new, unfolded r(2)]
  have st1: "pmap_step (dirs s) (kbase K s) s0 s1"
    and upd: "vmap_updated (dirs s) ?d va (Some (page2pa q OR perm OR PTE_V)) s0 s1"
    using ins(2) by (simp_all add: insert_post_def r)
  have "pmap_step (dirs s) (kbase K s) s s1" using st0(1) st1 keep by (simp add: pmap_step_def)
  moreover have "frames s1 q = (\<lambda>_. 0)" using st1 st0(3) by (simp add: pmap_step_def s0_def)
  moreover have "tables_stay (dirs s) s s1"
    by (rule tables_stay_trans[OF _ keeps(1)]) (use q(1) in \<open>auto simp: tables_stay_def s0_def\<close>)
  moreover have "length (page_free_list s) \<le> length (page_free_list s1) + 2"
    using page_insert_free_len[OF ins(1)[unfolded r(2)]] fl by (simp add: s0_def)
  ultimately show ?thesis
    using that[of q] va fl keeps(2) q(2) vmap_updated_trans[OF st0(2) upd] by simp
qed

lemma alloc_page_returns:
  assumes inv: "kinv K s" and e: "\<And>f. with_env envid True s f = f e" "live s e"
    and va: "UTEMP \<le> va" "va < UTOP" and perm: "perm < 4096" and free: "2 \<le> length (page_free_list s)"
  shows "\<exists>s1. checked (sys_mem_alloc envid va perm s) = Ret (Inr (), s1)"
proof -
  have legal: "\<not> is_illegal_va va" using va by (auto simp: is_illegal_va_def)
  show ?thesis
    using alloc_insert_ok[OF kinvD(1)[OF inv] live_dirs[OF e(2)] va(2) perm, of "env_asid (envs s e)"] free
    unfolding mem_alloc_run[OF legal inv e(1)] by (auto simp: returns_iff)
qed

lemma alloc_page:
  assumes inv: "kinv K s" and e: "\<And>f. with_env envid True s f = f e" "live s e"
    and va: "UTEMP \<le> va" "va < UTOP" and perm: "perm < 4096" and free: "2 \<le> length (page_free_list s)"
  obtains s1 p where "checked (sys_mem_alloc envid va perm s) = Ret (Inr (), s1)" "p \<in> set (page_free_list s)"
    "pmap_step (dirs s) (kbase K s) s s1" "unat (pp_ref s1 p) \<le> 1" "frames s1 p = (\<lambda>_. 0)"
    "vmap_updated (dirs s) (env_pgdir (envs s e)) va (Some (page2pa p OR perm OR PTE_V)) s s1"
    "tables_stay (dirs s) s s1" "length (page_free_list s) \<le> length (page_free_list s1) + 2"
proof -
  obtain s1 where "checked (sys_mem_alloc envid va perm s) = Ret (Inr (), s1)"
    using alloc_page_returns[OF assms] by blast
  then show ?thesis using alloc_page_ok[OF inv e perm] that by metis
qed

lemma map_page:
  assumes inv: "kinv K s" and src: "\<And>f. with_env srcid True s f = f src" "live s src" and dst: "\<And>f. with_env dstid True s f = f dst" "live s dst"
    and va: "UTEMP \<le> srcva" "srcva < UTOP" "UTEMP \<le> dstva" "dstva < UTOP" and perm: "perm < 4096"
    and x: "vmap s (env_pgdir (envs s src)) srcva = Some x" and ref: "unat (pp_ref s (PPN x)) < 65535"
    and room: "page_free_list s \<noteq> [] \<or> pte_valid (pde_at s (env_pgdir (envs s dst)) (PDX dstva))"
  obtains s1 where "checked (sys_mem_map srcid srcva dstid dstva perm s) = Ret (Inr (), s1)" "pmap_step (dirs s) (kbase K s) s s1"
    "vmap_updated (dirs s) (env_pgdir (envs s dst)) dstva (Some (page2pa (PPN x) OR perm OR PTE_V)) s s1"
    "tables_stay (dirs s) s s1" "length (page_free_list s) \<le> length (page_free_list s1) + 1"
    "pte_valid (pde_at s (env_pgdir (envs s dst)) (PDX dstva)) \<longrightarrow> length (page_free_list s) \<le> length (page_free_list s1)"
proof -
  let ?d = "env_pgdir (envs s dst)" and ?a = "env_asid (envs s dst)"
  have legal: "\<not> is_illegal_va srcva" "\<not> is_illegal_va dstva" using va by (auto simp: is_illegal_va_def)
  note mem = kinvD(1)[OF inv] and d = live_dirs[OF dst(2)]
  note leaf = leaf_range[OF mem live_dirs[OF src(2)] PDX_user[OF va(2)] x]
  obtain r s1 where run: "page_insert ?d ?a (PPN x) dstva perm s = Ret (r, s1)" "insert_post (dirs s) (kbase K s) ?d (PPN x) dstva perm s (r, s1)"
    using page_insert_ok[OF mem d va(4) leaf(6) ref perm, of ?a] by (auto simp: returns_iff)
  have r: "r = Inr ()" using run(2) room by (cases r) (auto simp: insert_post_def)
  have "checked (sys_mem_map srcid srcva dstid dstva perm s) = Ret (Inr (), s1)"
    using mem_map_run[OF legal inv src(1,2) dst(1) x, of perm] run(1) r by simp
  then show ?thesis
    using that[of s1] run(2) r page_insert_keeps(1)[OF mem d va(4) run(1) leaf(5)] page_insert_free_len[OF run(1)]
      page_insert_present_free[OF mem d va(4) _ run(1)] by (simp add: insert_post_def)
qed

lemma unmap_page:
  assumes inv: "kinv K s" and e: "\<And>f. with_env envid True s f = f e" "live s e" and va: "UTEMP \<le> va" "va < UTOP"
  obtains s1 where "checked (sys_mem_unmap envid va s) = Ret (Inr (), s1)" "pmap_step (dirs s) (kbase K s) s s1"
    "vmap_updated (dirs s) (env_pgdir (envs s e)) va None s s1" "tables_stay (dirs s) s s1"
    "length (page_free_list s) \<le> length (page_free_list s1)"
proof -
  have legal: "\<not> is_illegal_va va" using va by (auto simp: is_illegal_va_def)
  note mem = kinvD(1)[OF inv] and d = live_dirs[OF e(2)]
  obtain s1 where rem: "page_remove (env_pgdir (envs s e)) (env_asid (envs s e)) va s = Ret s1" "pmap_step (dirs s) (kbase K s) s s1"
    "vmap_updated (dirs s) (env_pgdir (envs s e)) va None s s1"
    using page_remove_ok[OF mem d va(2), of "env_asid (envs s e)"] by (auto simp: returns_iff)
  have "checked (sys_mem_unmap envid va s) = Ret (Inr (), s1)"
    using rem(1) legal e(1) by (simp add: sys_mem_unmap_def)
  then show ?thesis using that[of s1] rem page_remove_tables[OF mem d va(2) rem(1)] page_remove_free_len[OF rem(1)] by simp
qed

section \<open>The initial stack\<close>

definition string_bytes :: "string list \<Rightarrow> u8 list" where
  "string_bytes argv = concat (map (\<lambda>a. map char_byte a @ [0]) argv)"

fun string_ptrs :: "u32 \<Rightarrow> string list \<Rightarrow> u32 list" where
  "string_ptrs ctemp [] = []"
| "string_ptrs ctemp (a # argv) = ctemp # string_ptrs (ctemp + of_nat (length a + 1)) argv"

lemma length_string_bytes [simp]: "length (string_bytes argv) = strings_size argv"
  by (induction argv) (simp_all add: string_bytes_def strings_size_def)

lemma length_string_ptrs [simp]: "length (string_ptrs c argv) = length argv"
  by (induction argv arbitrary: c) simp_all

lemma user_put_bytes_append:
  "user_put_bytes va (bs @ cs) s = obind (user_put_bytes va bs s) (user_put_bytes (va + of_nat (length bs)) cs)"
  by (induction bs arbitrary: va s) (auto simp: obind_assoc add.assoc cong: obind_cong)

lemma copy_strings_bytes: "copy_strings ctemp argv s = user_put_bytes ctemp (string_bytes argv) s"
proof (induction argv arbitrary: ctemp s)
  case (Cons a argv)
  have "string_bytes (a # argv) = map char_byte a @ 0 # string_bytes argv" by (simp add: string_bytes_def)
  then show ?case by (simp add: user_put_bytes_append Cons.IH Let_def cong: obind_cong)
qed (simp add: string_bytes_def)

lemma put_pointers_words:
  "put_pointers args ctemp argv s =
    obind (user_put_words args (string_ptrs ctemp argv) s) (\<lambda>s. Ret (ctemp + of_nat (strings_size argv), s))"
proof (induction argv arbitrary: args ctemp s)
  case (Cons a argv)
  show ?case
    by (cases "user_put32 args ctemp s") (simp_all add: Cons.IH strings_size_def algebra_simps)
qed (simp add: strings_size_def)

lemma string_ptrs_nth: "i < length argv \<Longrightarrow> string_ptrs c argv ! i = c + of_nat (strings_size (take i argv))"
proof (induction argv arbitrary: c i)
  case (Cons a argv)
  then show ?case by (cases i) (auto simp: strings_size_def algebra_simps)
qed simp

lemma string_bytes_nth:
  "i < length argv \<Longrightarrow> k \<le> length (argv ! i) \<Longrightarrow>
    string_bytes argv ! (strings_size (take i argv) + k) = (if k < length (argv ! i) then char_byte (argv ! i ! k) else 0)"
proof (induction argv arbitrary: i)
  case (Cons a argv)
  have eq: "string_bytes (a # argv) = (map char_byte a @ [0]) @ string_bytes argv" by (simp add: string_bytes_def)
  show ?case
  proof (cases i)
    case 0
    then show ?thesis using Cons.prems by (auto simp: eq nth_append strings_size_def)
  next
    case (Suc j)
    then have "string_bytes (a # argv) ! (strings_size (take i (a # argv)) + k) = string_bytes argv ! (strings_size (take j argv) + k)"
      by (simp add: eq nth_append strings_size_def)
    then show ?thesis using Cons.IH[of j] Cons.prems Suc by simp
  qed
qed simp

lemma string_end: "i < length argv \<Longrightarrow> strings_size (take i argv) + length (argv ! i) < strings_size argv"
proof (induction argv arbitrary: i)
  case (Cons a argv)
  then show ?case by (cases i) (auto simp: strings_size_def)
qed simp

text \<open>
  What the child finds at its stack pointer, when the frame \<open>p\<close> is mapped at the top of its stack:
  \<open>argc\<close>, \<open>argv\<close>, and from \<open>argv\<close> on the addresses of the arguments, each of which is in the same page and
  terminated.  After the last address the code puts \<open>USTACKTOP - 1\<close>, not a null pointer.
\<close>

definition string_at :: "'a pmap_state_scheme \<Rightarrow> nat \<Rightarrow> nat \<Rightarrow> string \<Rightarrow> bool" where
  "string_at s p o' a \<longleftrightarrow> o' + length a < 4096 \<and>
     (\<forall>k\<le>length a. phys_get s (p * 4096 + (o' + k)) = (if k < length a then char_byte (a ! k) else 0))"

definition stack_holds :: "string list \<Rightarrow> u32 \<Rightarrow> nat \<Rightarrow> 'a pmap_state_scheme \<Rightarrow> bool" where
  "stack_holds argv sp p s \<longleftrightarrow>
     (\<exists>base. let w = (\<lambda>i. frames s p (base + i)) in
       unat sp = unat (USTACKTOP - BY2PG) + 4 * base \<and> base + length argv + 3 \<le> 1024 \<and>
       w 0 = of_nat (length argv) \<and> w 1 = sp + 8 \<and>
       (\<forall>i<length argv. \<exists>o'. w (2 + i) = USTACKTOP - BY2PG + of_nat o' \<and> string_at s p o' (argv ! i)) \<and>
       w (2 + length argv) = USTACKTOP - 1)"

lemma ROUND4_bounds: "n \<le> ROUND4 n" "4 dvd ROUND4 n"
  unfolding ROUND4_def by (linarith, simp)

lemma stack_addresses:
  fixes u t :: u32
  assumes "b + n + 3 + q = 1024" and "tot \<le> 4096"
  shows "u + 4096 - of_nat tot = u + of_nat (4096 - tot)"
    and "u + 4096 - of_nat (4 * q) - 4 * of_nat (n + 1) = u + of_nat (4 * (b + 2))"
    and "u + of_nat (4 * (b + 2)) + 4 * of_nat n = u + of_nat (4 * (b + 2 + n))"
    and "u + of_nat (4 * (b + 2)) - 4 = u + of_nat (4 * (b + 1))"
    and "u + of_nat (4 * (b + 1)) - 4 = u + of_nat (4 * b)"
    and "t - u - 4096 + (u + of_nat k) = t - 4096 + of_nat k"
proof -
  have e: "(4096 :: u32) = of_nat (4 * (b + n + 3 + q))" by (simp only: assms(1)) simp
  show "u + 4096 - of_nat tot = u + of_nat (4096 - tot)" using assms(2) by (simp add: of_nat_diff)
  show "u + 4096 - of_nat (4 * q) - 4 * of_nat (n + 1) = u + of_nat (4 * (b + 2))"
    unfolding e by (simp add: algebra_simps)
  show "u + of_nat (4 * (b + 2)) + 4 * of_nat n = u + of_nat (4 * (b + 2 + n))"
    "u + of_nat (4 * (b + 2)) - 4 = u + of_nat (4 * (b + 1))"
    "u + of_nat (4 * (b + 1)) - 4 = u + of_nat (4 * b)"
    "t - u - 4096 + (u + of_nat k) = t - 4096 + of_nat k"
    by (simp_all add: algebra_simps)
qed

text \<open>The words that \<open>write_stack\<close> stores, from the last to the first.\<close>

lemma put_word:
  assumes "kinv K s" and "writable c pg p s" and "i < 1024"
  shows "\<exists>s'. user_put32 (pg + of_nat (4 * i)) w s = Ret s' \<and> contents_step K s s' \<and> frames s' = (frames s)(p := (frames s p)(i := w))"
proof -
  have "i + length [w] \<le> 1024" using assms(3) by simp
  from put_words[OF assms(1,2) this] obtain s' where s': "user_put_words (pg + of_nat (4 * i)) [w] s = Ret s'" "contents_step K s s'"
    "frames s' = (frames s)(p := (\<lambda>j. if i \<le> j \<and> j < i + length [w] then [w] ! (j - i) else frames s p j))" by blast
  have "user_put32 (pg + of_nat (4 * i)) w s = Ret s'" using s'(1) by (cases "user_put32 (pg + of_nat (4 * i)) w s") simp_all
  moreover have "frames s' = (frames s)(p := (frames s p)(i := w))"
    unfolding s'(3) by (rule arg_cong[where f = "\<lambda>g. (frames s)(p := g)"]) (auto simp: fun_eq_iff nth_Cons')
  ultimately show ?thesis using s'(2) by blast
qed

lemma write_stack_ok:
  assumes inv: "kinv K s" and w: "writable c UTEMP p s" and fit: "ROUND4 (strings_size argv) + 4 * (length argv + 3) \<le> 4096"
  shows "\<exists>sp s'. write_stack argv s = Ret (sp, s') \<and> contents_step K s s' \<and> stack_holds argv sp p s' \<and>
    (\<forall>q. q \<noteq> p \<longrightarrow> frames s' q = frames s q)"
proof -
  define n where "n = length argv"
  define tot where "tot = strings_size argv"
  obtain q where q: "ROUND4 tot = 4 * q" using ROUND4_bounds(2) by (auto elim: dvdE)
  have le: "tot \<le> 4 * q" "q + n + 3 \<le> 1024" using ROUND4_bounds(1)[of tot] fit by (simp_all add: q n_def tot_def[symmetric])
  define b where "b = 1024 - q - n - 3"
  have b: "b + n + 3 + q = 1024" using le(2) by (simp add: b_def)
  have tot: "tot \<le> 4096" using le by simp
  note addr = stack_addresses[OF b tot]
  let ?sp = "USTACKTOP - BY2PG + of_nat (4 * b)" and ?str = "USTACKTOP - BY2PG + of_nat (4096 - tot)"
  let ?last = "?str + of_nat tot - 1" and ?argv = "USTACKTOP - BY2PG + of_nat (4 * (b + 2))"
  have fits: "4096 - tot + length (string_bytes argv) \<le> 4096" "b + 2 + length (string_ptrs ?str argv) \<le> 1024"
    "b + 2 + n < 1024" "b + 1 < 1024" "b < 1024"
    using tot b by (simp_all add: tot_def n_def)
  obtain s1 where s1: "user_put_bytes (UTEMP + of_nat (4096 - tot)) (string_bytes argv) s = Ret s1" "contents_step K s s1"
    "frames s1 = frames (phys_write (p * 4096 + (4096 - tot)) (string_bytes argv) s)"
    using put_bytes[OF inv w fits(1)] by blast
  note k1 = contents_step_keeps(1)[OF inv s1(2)] writable_contents[OF inv w s1(2)]
  obtain s2 where s2: "user_put_words (UTEMP + of_nat (4 * (b + 2))) (string_ptrs ?str argv) s1 = Ret s2" "contents_step K s1 s2"
    "frames s2 = (frames s1)(p := (\<lambda>j. if b + 2 \<le> j \<and> j < b + 2 + length (string_ptrs ?str argv)
       then string_ptrs ?str argv ! (j - (b + 2)) else frames s1 p j))"
    using put_words[OF k1 fits(2)] by blast
  note k2 = contents_step_keeps(1)[OF k1(1) s2(2)] writable_contents[OF k1 s2(2)]
  obtain s3 where s3: "user_put32 (UTEMP + of_nat (4 * (b + 2 + n))) ?last s2 = Ret s3" "contents_step K s2 s3"
    "frames s3 = (frames s2)(p := (frames s2 p)(b + 2 + n := ?last))"
    using put_word[OF k2 fits(3)] by blast
  note k3 = contents_step_keeps(1)[OF k2(1) s3(2)] writable_contents[OF k2 s3(2)]
  obtain s4 where s4: "user_put32 (UTEMP + of_nat (4 * (b + 1))) ?argv s3 = Ret s4" "contents_step K s3 s4"
    "frames s4 = (frames s3)(p := (frames s3 p)(b + 1 := ?argv))"
    using put_word[OF k3 fits(4)] by blast
  note k4 = contents_step_keeps(1)[OF k3(1) s4(2)] writable_contents[OF k3 s4(2)]
  obtain s5 where s5: "user_put32 (UTEMP + of_nat (4 * b)) (of_nat n) s4 = Ret s5" "contents_step K s4 s5"
    "frames s5 = (frames s4)(p := (frames s4 p)(b := of_nat n))"
    using put_word[OF k4 fits(5)] by blast
  have run: "write_stack argv s = Ret (?sp, s5)"
    unfolding write_stack_def Let_def copy_strings_bytes put_pointers_words tot_def[symmetric] q n_def[symmetric]
      addr s1(1) obind.simps s2(1) prod.case s3(1) s4(1) s5(1) ..
  have st: "contents_step K s s5"
    by (intro contents_step_trans[OF inv s1(2)] contents_step_trans[OF k1(1) s2(2)] contents_step_trans[OF k2(1) s3(2)]
        contents_step_trans[OF k3(1) s4(2) s5(2)])
  have W: "frames s5 p j = (if j = b then of_nat n else if j = b + 1 then ?argv else if j = b + 2 + n then ?last
      else if b + 2 \<le> j \<and> j < b + 2 + n then ?str + of_nat (strings_size (take (j - (b + 2)) argv)) else frames s1 p j)" for j
    unfolding s5(3) s4(3) s3(3) s2(3) using string_ptrs_nth[of "j - (b + 2)" argv ?str] by (auto simp: n_def)
  have B: "phys_get s5 (p * 4096 + (4096 - tot + j)) = string_bytes argv ! j" if "j < tot" for j
  proof -
    define m where "m = 4096 - tot + j"
    have m: "m < 4096" "4 * (b + n + 3) \<le> m" using that tot le b by (simp_all add: m_def)
    then have "b + n + 3 \<le> m div 4" by simp
    then have "frames s5 p (m div 4) = frames s1 p (m div 4)" unfolding W by simp
    then have "phys_get s5 (p * 4096 + m) = phys_get s1 (p * 4096 + m)" using m(1) by (simp add: phys_get_def)
    also have "\<dots> = phys_get (phys_write (p * 4096 + (4096 - tot)) (string_bytes argv) s) (p * 4096 + m)"
      by (rule phys_get_cong[OF s1(3)])
    also have "\<dots> = string_bytes argv ! j" using that by (simp add: phys_write_get m_def tot_def)
    finally show ?thesis by (simp only: m_def)
  qed
  have holds: "stack_holds argv ?sp p s5"
    unfolding stack_holds_def Let_def n_def[symmetric]
  proof (rule exI[of _ b], intro conjI allI impI)
    fix i assume i: "i < n"
    let ?o = "4096 - tot + strings_size (take i argv)"
    have e: "strings_size (take i argv) + length (argv ! i) < tot" using string_end[of i argv] i by (simp add: n_def tot_def)
    have "phys_get s5 (p * 4096 + (?o + k)) = (if k < length (argv ! i) then char_byte (argv ! i ! k) else 0)"
      if "k \<le> length (argv ! i)" for k
      using B[of "strings_size (take i argv) + k"] string_bytes_nth[of i argv k] that e i by (simp add: n_def add.assoc)
    then have "string_at s5 p ?o (argv ! i)" using e tot by (simp add: string_at_def)
    moreover have "frames s5 p (b + (2 + i)) = USTACKTOP - BY2PG + of_nat ?o" unfolding W using i by simp
    ultimately show "\<exists>o'. frames s5 p (b + (2 + i)) = USTACKTOP - BY2PG + of_nat o' \<and> string_at s5 p o' (argv ! i)" by blast
  next
    show "frames s5 p (b + (2 + n)) = USTACKTOP - 1" unfolding W using tot by (simp add: of_nat_diff)
    show "frames s5 p (b + 1) = ?sp + 8" unfolding W by simp
    have "4 * b < 4096" using b by simp
    from page_offset(4)[OF _ _ this, of "USTACKTOP - BY2PG"] show "unat ?sp = unat (USTACKTOP - BY2PG) + 4 * b" by simp
  qed (use b W in \<open>simp_all\<close>)
  have other: "frames s5 q' = frames s q'" if "q' \<noteq> p" for q'
  proof -
    have "frames s5 q' = frames s1 q'" using that by (simp add: s5(3) s4(3) s3(3) s2(3))
    also have "\<dots> = frames s q'"
      using phys_write_other[of p "p * 4096 + (4096 - tot)" "string_bytes argv" q' s] that tot by (simp add: s1(3) tot_def[symmetric])
    finally show ?thesis .
  qed
  show ?thesis using run st holds other by blast
qed

lemma stack_holds_cong:
  assumes "frames s p = frames t p" and "stack_holds argv sp p t"
  shows "stack_holds argv sp p s"
proof -
  have "string_at s p o' a = string_at t p o' a" for o' a
    using phys_get_frame[OF assms(1)] by (auto simp: string_at_def)
  then show ?thesis using assms(2) unfolding stack_holds_def Let_def assms(1) by simp
qed

text \<open>A page that is mapped before a change of the mappings keeps its contents.\<close>

lemma mapped_kept:
  assumes "pmap_inv D base s" and "d \<in> D" and "va < UTOP" and "vmap s d va = Some x" and "pmap_step D base s s'"
  shows "frames s' (PPN x) = frames s (PPN x)"
  using leaf_range(6)[OF assms(1,2) PDX_user[OF assms(3)] assms(4)] assms(5) by (simp add: pmap_step_def)

lemma page_entry:
  assumes "p \<in> set (page_free_list s)" and "free_list_ok s" and "perm < 4096"
  shows "PPN (page2pa p OR perm OR PTE_V) = p"
  using assms by (intro page2pa_or) (auto simp: free_list_ok_def)

lemma entry_writable: "(x OR PTE_D OR PTE_V) AND PTE_D \<noteq> (0 :: u32)"
  by (simp add: bit.conj_disj_distrib2 bit.conj_disj_distrib)

lemma init_stack_ok:
  assumes "kinv K s" and "child_of s c e" and "3 \<le> length (page_free_list s)"
    and "ROUND4 (strings_size argv) + 4 * (length argv + 3) \<le> 4096"
  shows "returns (\<lambda>(r, s'). kinv K s' \<and> pmap_state.more s' = pmap_state.more s \<and>
      pte_valid (pde_at s' (env_pgdir (envs s c)) (PDX UTEMP)) \<and> length (page_free_list s) \<le> length (page_free_list s') + 3 \<and>
      (\<exists>sp. \<exists>p\<in>set (page_free_list s). r = Inr sp \<and> stack_holds argv sp p s' \<and>
        (\<forall>d\<in>dirs s. \<forall>va<UTOP. vmap s' d va =
           (if d = env_pgdir (envs s e) \<and> VPN va = VPN (USTACKTOP - BY2PG) then Some (page2pa p OR PTE_D OR PTE_V)
            else if d = env_pgdir (envs s c) \<and> VPN va = VPN UTEMP then None
            else vmap s d va))) \<and>
      (\<forall>d\<in>dirs s. \<forall>va<UTOP. \<forall>x. vmap s' d va = Some x \<longrightarrow> \<not> (d = env_pgdir (envs s e) \<and> VPN va = VPN (USTACKTOP - BY2PG)) \<longrightarrow>
         frames s' (PPN x) = frames s (PPN x)))
    (init_stack (env_id (envs s e)) argv s)"
proof -
  let ?dc = "env_pgdir (envs s c)" and ?de = "env_pgdir (envs s e)"
  note inv = assms(1) and mem = kinvD(1)[OF assms(1)] and ch = child_ofD[OF assms(1,2)]
  have ut: "UTEMP \<le> UTEMP" "UTEMP < UTOP" "UTEMP \<le> USTACKTOP - BY2PG" "USTACKTOP - BY2PG < UTOP" "PTE_D < (4096 :: u32)"
    "UTEMP AND 0xFFF = 0" by simp_all
  note dc = live_dirs[OF ch(2)] and de = live_dirs[OF ch(3)]
  have free2: "2 \<le> length (page_free_list s)" using assms(3) by simp
  obtain s1 p where s1: "checked (sys_mem_alloc 0 UTEMP PTE_D s) = Ret (Inr (), s1)" "p \<in> set (page_free_list s)"
    "pmap_step (dirs s) (kbase K s) s s1" "unat (pp_ref s1 p) \<le> 1"
    "vmap_updated (dirs s) ?dc UTEMP (Some (page2pa p OR PTE_D OR PTE_V)) s s1"
    "length (page_free_list s) \<le> length (page_free_list s1) + 2" "tables_stay (dirs s) s s1"
    using alloc_page[OF inv with_env_self[OF ch(1)] ch(2) ut(1,2,5) free2] by metis
  note P = page_entry[OF s1(2) pmap_invD(1)[OF mem] ut(5)]
  have more1: "pmap_state.more s1 = pmap_state.more s" using s1(3) by (simp add: pmap_step_def)
  have inv1: "kinv K s1" by (rule kinv_step[OF inv s1(3)])
  note same1 = mem_step_same[OF more1] more_kfields[OF more1]
  have w1: "writable c UTEMP p s1"
    using s1(5) dc ch(1) P entry_writable[of "page2pa p"] by (simp add: writable_def same1 vmap_updated_def)
  obtain sp s2 where s2: "write_stack argv s1 = Ret (sp, s2)" "contents_step K s1 s2" "stack_holds argv sp p s2"
    "\<forall>q. q \<noteq> p \<longrightarrow> frames s2 q = frames s1 q"
    using write_stack_ok[OF inv1 w1 assms(4)] by blast
  note k2 = contents_step_keeps[OF inv1 s2(2)]
  have same2: "dirs s2 = dirs s" "live s2 = live s" "kbase K s2 = kbase K s" "envs s2 = envs s" "curenv s2 = curenv s"
    using k2 same1 by simp_all
  have more2: "pmap_state.more s2 = pmap_state.more s" using s2(2) more1 by (simp add: contents_step_def)
  have child2: "child_of s2 c e" using assms(2) by (auto simp: child_of_def owned_def same2)
  note ch2 = child_ofD[OF k2(1) child2, unfolded same2]
  have v2: "vmap s2 d va = (if d = ?dc \<and> VPN va = VPN UTEMP then Some (page2pa p OR PTE_D OR PTE_V) else vmap s d va)"
    if "d \<in> dirs s" "va < UTOP" for d va
    using k2(2) s1(5) that by (simp add: same_vmap_def vmap_updated_def same1)
  have x2: "vmap s2 (env_pgdir (envs s2 c)) UTEMP = Some (page2pa p OR PTE_D OR PTE_V)" using v2[OF dc ut(2)] by (simp add: same2)
  have ref2: "unat (pp_ref s2 (PPN (page2pa p OR PTE_D OR PTE_V))) < 65535" using s1(4) s2(2) P by (simp add: contents_step_def)
  have room: "page_free_list s2 \<noteq> [] \<or> pte_valid (pde_at s2 (env_pgdir (envs s2 e)) (PDX (USTACKTOP - BY2PG)))"
    using s1(6) assms(3) s2(2) by (auto simp: contents_step_def)
  obtain s3 where s3: "checked (sys_mem_map 0 UTEMP (env_id (envs s e)) (USTACKTOP - BY2PG) PTE_D s2) = Ret (Inr (), s3)"
    "pmap_step (dirs s) (kbase K s) s2 s3" "vmap_updated (dirs s) ?de (USTACKTOP - BY2PG) (Some (page2pa p OR PTE_D OR PTE_V)) s2 s3"
    "tables_stay (dirs s) s2 s3" "length (page_free_list s2) \<le> length (page_free_list s3) + 1"
    using map_page[OF k2(1) with_env_self _ ch2(5) _ ut(1-5) x2 ref2 room] ch2(1-3) unfolding same2 P by metis
  have more3: "pmap_state.more s3 = pmap_state.more s2" using s3(2) by (simp add: pmap_step_def)
  have inv3: "kinv K s3" using kinv_step[OF k2(1)] s3(2) by (simp add: same2)
  have mem2: "pmap_inv (dirs s) (kbase K s) s2" using kinvD(1)[OF k2(1)] by (simp add: same2)
  have mem3: "pmap_inv (dirs s) (kbase K s) s3" using s3(2) by (simp add: pmap_step_def)
  note same3 = mem_step_same[OF more3, unfolded same2] more_kfields[OF more3, unfolded same2]
  have cur3: "curenv s3 = Some c" "live s3 c" using ch by (simp_all add: same3)
  obtain s4 where s4: "checked (sys_mem_unmap 0 UTEMP s3) = Ret (Inr (), s4)" "pmap_step (dirs s) (kbase K s) s3 s4"
    "vmap_updated (dirs s) ?dc UTEMP None s3 s4"
    "tables_stay (dirs s) s3 s4" "length (page_free_list s3) \<le> length (page_free_list s4)"
    using unmap_page[OF inv3 with_env_self[OF cur3(1)] cur3(2) ut(1,2)] unfolding same3 same2 by metis
  have "init_stack (env_id (envs s e)) argv s = Ret (Inr sp, s4)"
    using assms(4) s1(1) s2(1) s3(1) s4(1) by (simp add: init_stack_def Let_def)
  moreover have "kinv K s4" using kinv_step[OF inv3] s4(2) by (simp add: same3 same2)
  moreover have "pmap_state.more s4 = pmap_state.more s" using s4(2) more3 more2 by (simp add: pmap_step_def)
  moreover have maps: "vmap s4 d va = (if d = ?de \<and> VPN va = VPN (USTACKTOP - BY2PG) then Some (page2pa p OR PTE_D OR PTE_V)
      else if d = ?dc \<and> VPN va = VPN UTEMP then None else vmap s d va)" if "d \<in> dirs s" "va < UTOP" for d va
    using s4(3) s3(3) v2[OF that] that ch(4) by (auto simp: vmap_updated_def)
  moreover have "pte_valid (pde_at s4 ?dc (PDX UTEMP))"
  proof -
    have "pte_valid (pde_at s2 ?dc (PDX UTEMP))" using x2 by (auto simp: vmap_def same2 split: if_splits)
    then show ?thesis using tables_stay_trans[OF s3(4) s4(4)] dc by (simp add: tables_stay_def)
  qed
  moreover have "length (page_free_list s) \<le> length (page_free_list s4) + 3"
    using s1(6) s2(2) s3(5) s4(5) by (simp add: contents_step_def)
  moreover have "stack_holds argv sp p s4"
  proof (rule stack_holds_cong[OF _ s2(3)])
    have "vmap s3 ?de (USTACKTOP - BY2PG) = Some (page2pa p OR PTE_D OR PTE_V)" using s3(3) de ut(4) by (simp add: vmap_updated_def)
    from mapped_kept[OF mem3 de ut(4) this s4(2)] mapped_kept[OF mem2 dc ut(2) x2[unfolded same2] s3(2)]
    show "frames s4 p = frames s2 p" unfolding P by (rule trans)
  qed
  moreover have "frames s4 (PPN x) = frames s (PPN x)"
    if "d \<in> dirs s" "va < UTOP" "vmap s4 d va = Some x" "\<not> (d = ?de \<and> VPN va = VPN (USTACKTOP - BY2PG))" for d va x
  proof -
    have ne: "\<not> (d = ?dc \<and> VPN va = VPN UTEMP)" and x: "vmap s d va = Some x" using maps[OF that(1,2)] that(3,4) by (auto split: if_splits)
    have "vmap s2 d va = Some x" "vmap s3 d va = Some x"
      using v2[OF that(1,2)] x ne s3(3) that(1,2,4) by (auto simp: vmap_updated_def)
    then have "frames s4 (PPN x) = frames s2 (PPN x)"
      using mapped_kept[OF mem2 that(1,2) _ s3(2)] mapped_kept[OF mem3 that(1,2) _ s4(2)] by simp
    moreover have "PPN x \<noteq> p" using leaf_range(5)[OF mem that(1) PDX_user[OF that(2)] x] s1(2) by auto
    ultimately show ?thesis using s2(4) mapped_kept[OF mem that(1,2) x s1(3)] by simp
  qed
  ultimately show ?thesis using s1(2) by auto
qed

text \<open>
  C11. The child's stack: for a child of the current environment and arguments that fit into a page, and
  with three pages free, \<open>init_stack\<close> returns a stack pointer; the top page of the child's stack then is a
  frame that was free, in which the child finds \<open>argc\<close>, \<open>argv\<close> and the terminated arguments at addresses of
  its own stack.  The word \<open>args[argc]\<close> behind the pointers is not 0, as the comment in \<open>spawn.c\<close> says, but the address of the
  last terminator, \<open>USTACKTOP - 1\<close>.  Afterwards nothing is mapped at \<open>UTEMP\<close> in the parent, no other translation of any
  environment has changed, and every other page that is mapped has the contents it had.
\<close>

theorem init_stack_correct:
  assumes "kinv K s" and "child_of s c e" and "3 \<le> length (page_free_list s)"
    and "ROUND4 (strings_size argv) + 4 * (length argv + 3) \<le> 4096"
  shows "returns (\<lambda>(r, s'). kinv K s' \<and> pmap_state.more s' = pmap_state.more s \<and>
      (\<exists>sp. \<exists>p\<in>set (page_free_list s). r = Inr sp \<and> stack_holds argv sp p s' \<and>
        (\<forall>d\<in>dirs s. \<forall>va<UTOP. vmap s' d va =
           (if d = env_pgdir (envs s e) \<and> VPN va = VPN (USTACKTOP - BY2PG) then Some (page2pa p OR PTE_D OR PTE_V)
            else if d = env_pgdir (envs s c) \<and> VPN va = VPN UTEMP then None
            else vmap s d va))) \<and>
      (\<forall>d\<in>dirs s. \<forall>va<UTOP. \<forall>x. vmap s' d va = Some x \<longrightarrow> \<not> (d = env_pgdir (envs s e) \<and> VPN va = VPN (USTACKTOP - BY2PG)) \<longrightarrow>
         frames s' (PPN x) = frames s (PPN x)))
    (init_stack (env_id (envs s e)) argv s)"
  by (rule returns_mono2[OF init_stack_ok[OF assms]]) (elim conjE, intro conjI)

text \<open>In the demonstration system the environment in slot 1 is a child of the current one.\<close>

lemma demo_child: "child_of demo_sys 0 1"
  by (simp add: child_of_def owned_def demo_sys_live demo_sys_cur demo_sys_simps)

theorem init_stack_correct_witness:
  "returns (\<lambda>(r, s'). \<exists>sp p. r = Inr sp \<and> vmap s' 2 0x7F3FD000 = Some (page2pa p OR 0x600) \<and> stack_holds [''ls'', ''-l''] sp p s')
     (init_stack 0x1001 [''ls'', ''-l''] demo_sys)"
proof -
  have id: "0x1001 = env_id (envs demo_sys 1)" and d: "env_pgdir (envs demo_sys 1) = 2" by (simp_all add: demo_sys_simps)
  have ok: "3 \<le> length (page_free_list demo_sys)" "ROUND4 (strings_size [''ls'', ''-l'']) + 4 * (length [''ls'', ''-l''] + 3) \<le> 4096"
    by (simp_all add: demo_sys_simps ROUND4_def strings_size_def)
  have user: "(2 :: nat) \<in> dirs demo_sys" "(0x7F3FD000 :: u32) < UTOP" "VPN (0x7F3FD000 :: u32) = VPN (USTACKTOP - BY2PG)"
    by (simp_all add: demo_sys_dirs)
  show ?thesis unfolding id
    by (rule returns_mono2[OF init_stack_correct[OF demo_sys_kinv demo_child ok]]) (use user d in force)
qed

section \<open>Segments\<close>

lemma page_bytes_other:
  assumes "pmap_inv D base s" and "pmap_step D base s s'" and "vmap_updated D d' va e s s'" and "d \<in> D" and "d \<noteq> d'"
  shows "page_bytes s' d = page_bytes s d"
proof
  fix n
  show "page_bytes s' d n = page_bytes s d n"
  proof (cases "n < VPN UTOP")
    case True
    note n = page_va[OF True]
    have v: "vmap s' d (of_nat (n * 4096)) = vmap s d (of_nat (n * 4096))"
      using assms(3-5) n by (simp add: vmap_updated_def)
    show ?thesis
    proof (cases "vmap s d (of_nat (n * 4096))")
      case (Some x)
      have "phys_get s' (PPN x * 4096 + k) = phys_get s (PPN x * 4096 + k)" if "k < 4096" for k
        by (rule phys_get_frame[OF mapped_kept[OF assms(1,4) n(2) Some assms(2)] that])
      then show ?thesis using True v Some by (simp add: page_bytes_def cong: if_cong)
    qed (use True v in \<open>simp add: page_bytes_def\<close>)
  qed (simp add: page_bytes_def)
qed

lemma page_bytes_write:
  assumes "same_vmap D s s'" and "d \<in> D" and va: "va < UTOP" and "\<forall>q. q \<noteq> p \<longrightarrow> frames s' q = frames s q"
    and at: "\<And>va' x. va' < UTOP \<Longrightarrow> vmap s d va' = Some x \<Longrightarrow> PPN x = p \<longleftrightarrow> VPN va' = VPN va" and "vmap s d va = Some y"
  shows "page_bytes s' d = (page_bytes s d)(VPN va \<mapsto> (\<lambda>k. if k < 4096 then phys_get s' (p * 4096 + k) else 0))"
proof
  fix n
  show "page_bytes s' d n = ((page_bytes s d)(VPN va \<mapsto> (\<lambda>k. if k < 4096 then phys_get s' (p * 4096 + k) else 0))) n"
  proof (cases "n < VPN UTOP")
    case False
    have "VPN va < VPN UTOP" using va by (simp add: PPN_eq word_less_nat_alt less_mult_imp_div_less)
    with False show ?thesis by (simp add: page_bytes_def)
  next
    case True
    note n = page_va[OF True]
    have v: "vmap s' d (of_nat (n * 4096)) = vmap s d (of_nat (n * 4096))"
      using assms(1,2) n by (simp add: same_vmap_def)
    show ?thesis
    proof (cases "n = VPN va")
      case here: True
      have "vmap s d (of_nat (n * 4096)) = Some y" using vmap_same_page[of "of_nat (n * 4096)" va s d] n(1) here assms(6) by simp
      moreover have "PPN y = p" using at[OF va assms(6)] by simp
      ultimately show ?thesis using True v here by (simp add: page_bytes_def cong: if_cong)
    next
      case False
      have "phys_get s' (PPN x * 4096 + k) = phys_get s (PPN x * 4096 + k)"
        if "vmap s d (of_nat (n * 4096)) = Some x" "k < 4096" for x k
        using at[OF n(2) that(1)] n(1) False assms(4) that(2) by (intro phys_get_frame) auto
      then show ?thesis using True v False
        by (cases "vmap s d (of_nat (n * 4096))") (simp_all add: page_bytes_def cong: if_cong)
    qed
  qed
qed

text \<open>The state in which \<open>spawn_mapper\<close> is called: the parent \<open>c\<close> has a page table for \<open>UTEMP\<close>.\<close>

definition spawning :: "(nat \<Rightarrow> nat) \<Rightarrow> nat \<Rightarrow> nat \<Rightarrow> u32 \<Rightarrow> nat \<Rightarrow> 'a kernel_scheme \<Rightarrow> bool" where
  "spawning K c e child d s \<longleftrightarrow> kinv K s \<and> child_of s c e \<and> env_id (envs s e) = child \<and> env_pgdir (envs s e) = d \<and>
     pte_valid (pde_at s (env_pgdir (envs s c)) (PDX UTEMP))"

lemma spawning_step:
  assumes "spawning K c e child d s" and "kinv K s'" and "pmap_state.more s' = pmap_state.more s" and "tables_stay (dirs s) s s'"
  shows "spawning K c e child d s'"
proof -
  have "env_pgdir (envs s c) \<in> dirs s"
    using assms(1) by (auto simp: spawning_def intro: live_dirs child_ofD(2))
  then show ?thesis
    using assms more_kfields[OF assms(3)] mem_step_same[OF assms(3)]
    by (auto simp: spawning_def child_of_def owned_def tables_stay_def)
qed

lemma contents_tables_stay:
  assumes "kinv K s" and "contents_step K s s'"
  shows "tables_stay (dirs s) s s'"
proof -
  have "\<not> user_page (dirs s) (kbase K s) s d" if "d \<in> dirs s" for d
    using pmap_invD(2)[OF kinvD(1)[OF assms(1)]] that by (auto simp: user_page_def tables_ok_def)
  then show ?thesis using assms(2) by (simp add: tables_stay_def contents_step_def)
qed

text \<open>Filling the fresh page through the parent's window at \<open>UTEMP\<close>.\<close>

lemma spawn_mapper_fill:
  assumes inv: "spawning K c e child d s" and va: "va < UTOP" "UTEMP \<le> va" and perm: "perm < 4096"
    and x: "vmap s d va = Some x" "PPN x = p" and one: "\<And>va' y. va' < UTOP \<Longrightarrow> vmap s d va' = Some y \<Longrightarrow> PPN y = p \<longleftrightarrow> VPN va' = VPN va"
    and ref: "unat (pp_ref s p) \<le> 1" and zero: "frames s p = (\<lambda>_. 0)" and len: "length bs \<le> 4096"
  shows "\<exists>s2 s3 s'. checked (sys_mem_map child va 0 UTEMP (perm OR PTE_D) s) = Ret (Inr (), s2) \<and>
    user_put_bytes UTEMP bs s2 = Ret s3 \<and> checked (sys_mem_unmap 0 UTEMP s3) = Ret (Inr (), s') \<and>
    spawning K c e child d s' \<and> length (page_free_list s) \<le> length (page_free_list s') \<and>
    page_bytes s' d = (page_bytes s d)(VPN va \<mapsto> (\<lambda>k. if k < length bs then bs ! k else 0))"
proof -
  let ?dc = "env_pgdir (envs s c)"
  have k: "kinv K s" "child_of s c e" "env_id (envs s e) = child" "env_pgdir (envs s e) = d" "pte_valid (pde_at s ?dc (PDX UTEMP))"
    using inv by (simp_all add: spawning_def)
  note ch = child_ofD[OF k(1,2), unfolded k(3,4)] and mem = kinvD(1)[OF k(1)]
  have d: "d \<in> dirs s" "?dc \<in> dirs s" using live_dirs[OF ch(3)] live_dirs[OF ch(2)] k(4) by simp_all
  have ut: "UTEMP \<le> UTEMP" "UTEMP < UTOP" "UTEMP AND 0xFFF = 0" by simp_all
  have perm2: "perm OR PTE_D < 4096" using perm by (intro or_less_4096) simp_all
  have xe: "vmap s (env_pgdir (envs s e)) va = Some x" "unat (pp_ref s (PPN x)) < 65535" using x ref k(4) by simp_all
  obtain s2 where s2: "checked (sys_mem_map child va 0 UTEMP (perm OR PTE_D) s) = Ret (Inr (), s2)" "pmap_step (dirs s) (kbase K s) s s2"
    "vmap_updated (dirs s) ?dc UTEMP (Some (page2pa p OR (perm OR PTE_D) OR PTE_V)) s s2" "tables_stay (dirs s) s s2"
    "length (page_free_list s) \<le> length (page_free_list s2)"
    using map_page[OF k(1) ch(5,3) with_env_self[OF ch(1)] ch(2) va(2,1) ut(1,2) perm2 xe] k(5) unfolding x(2) by metis
  have more2: "pmap_state.more s2 = pmap_state.more s" using s2(2) by (simp add: pmap_step_def)
  have sp2: "spawning K c e child d s2" by (rule spawning_step[OF inv kinv_step[OF k(1) s2(2)] more2 s2(4)])
  then have k2: "kinv K s2" "child_of s2 c e" by (simp_all add: spawning_def)
  note same2 = mem_step_same[OF more2] more_kfields[OF more2]
  have p20: "p < 1048576" using x(2) PPN_less by blast
  have w2: "writable c UTEMP p s2"
    using s2(3) d(2) ut ch(1) page2pa_or[OF p20 perm2] entry_writable[of "page2pa p OR perm"]
    by (simp add: writable_def same2 vmap_updated_def or.assoc)
  have "0 + length bs \<le> 4096" using len by simp
  from put_bytes[OF k2(1) w2 this] obtain s3 where s3: "user_put_bytes UTEMP bs s2 = Ret s3" "contents_step K s2 s3"
    "frames s3 = frames (phys_write (p * 4096) bs s2)" by auto
  note k3 = contents_step_keeps[OF k2(1) s3(2)]
  have more3: "pmap_state.more s3 = pmap_state.more s2" using s3(2) by (simp add: contents_step_def)
  have sp3: "spawning K c e child d s3"
    by (rule spawning_step[OF sp2 k3(1) more3 contents_tables_stay[OF k2(1) s3(2)]])
  note ch3 = child_ofD[OF k3(1), of c e]
  have cur3: "curenv s3 = Some c" "live s3 c" using sp3 ch3(1,2) by (simp_all add: spawning_def)
  have same3: "dirs s3 = dirs s" "kbase K s3 = kbase K s" "envs s3 = envs s" using k3 same2 by simp_all
  obtain s4 where s4: "checked (sys_mem_unmap 0 UTEMP s3) = Ret (Inr (), s4)" "pmap_step (dirs s) (kbase K s) s3 s4"
    "vmap_updated (dirs s) ?dc UTEMP None s3 s4" "tables_stay (dirs s) s3 s4" "length (page_free_list s3) \<le> length (page_free_list s4)"
    using unmap_page[OF k3(1) with_env_self[OF cur3(1)] cur3(2) ut(1,2)] unfolding same3 by metis
  have more4: "pmap_state.more s4 = pmap_state.more s3" using s4(2) by (simp add: pmap_step_def)
  have inv4: "kinv K s4" using kinv_step[OF k3(1), of s4] s4(2) by (simp add: same3)
  have sp4: "spawning K c e child d s4" by (rule spawning_step[OF sp3 inv4 more4]) (use s4(4) in \<open>simp add: same3\<close>)
  have ne: "d \<noteq> ?dc" using ch(4) k(4) by simp
  have v2: "vmap s2 d va' = vmap s d va'" if "va' < UTOP" for va' using s2(3) d(1) that ne by (simp add: vmap_updated_def)
  have "page_bytes s4 d = page_bytes s3 d"
    using page_bytes_other[OF kinvD(1)[OF k3(1)], of s4 ?dc UTEMP None d] s4(2,3) d(1) ne by (simp add: same3)
  also have "page_bytes s3 d = (page_bytes s2 d)(VPN va \<mapsto> (\<lambda>k. if k < 4096 then phys_get s3 (p * 4096 + k) else 0))"
  proof (rule page_bytes_write[where D = "dirs s2" and y = x, OF k3(2) _ va(1)])
    show "\<forall>q. q \<noteq> p \<longrightarrow> frames s3 q = frames s2 q"
      using phys_write_other[of p "p * 4096" bs _ s2] len by (simp add: s3(3))
  qed (use d(1) one v2 va(1) x(1) in \<open>simp_all add: same2\<close>)
  also have "(\<lambda>k. if k < 4096 then phys_get s3 (p * 4096 + k) else 0) = (\<lambda>k. if k < length bs then bs ! k else 0)"
  proof
    fix k
    have "phys_get s2 (p * 4096 + k) = 0" if "k < 4096"
      using mapped_kept[OF mem d(1) va(1) x(1) s2(2)] zero that by (simp add: x(2) phys_get_def)
    then show "(if k < 4096 then phys_get s3 (p * 4096 + k) else 0) = (if k < length bs then bs ! k else 0)"
      using len phys_get_cong[OF s3(3)] by (simp add: phys_write_get)
  qed
  also have "page_bytes s2 d = page_bytes s d" by (rule page_bytes_other[OF mem s2(2,3) d(1) ne])
  finally have "page_bytes s4 d = (page_bytes s d)(VPN va \<mapsto> (\<lambda>k. if k < length bs then bs ! k else 0))" .
  moreover have "length (page_free_list s) \<le> length (page_free_list s4)" using s2(5) s3(2) s4(5) by (simp add: contents_step_def)
  ultimately show ?thesis using s2(1) s3(1) s4(1) sp4 by blast
qed

lemma spawn_mapper_ok:
  assumes inv: "spawning K c e child d s" and va: "va AND 0xFFF = 0" and perm: "perm < 4096"
    and src: "case src of None \<Rightarrow> True | Some bs \<Rightarrow> unat len \<le> length bs \<and> len \<le> BY2PG"
    and run: "checked (sys_mem_alloc child va perm s) = Ret (Inr (), s1)"
  shows "\<exists>s'. spawn_mapper child va 0 perm src len s = Ret (Inr (), s') \<and> spawning K c e child d s' \<and>
    page_bytes s' d = (page_bytes s d)(VPN va \<mapsto> (\<lambda>k. if k < 4096 then icode_page src len k else 0)) \<and>
    length (page_free_list s) \<le> length (page_free_list s') + 2"
proof -
  have k: "kinv K s" "child_of s c e" "env_id (envs s e) = child" "env_pgdir (envs s e) = d"
    using inv by (simp_all add: spawning_def)
  note ch = child_ofD[OF k(1,2), unfolded k(3,4)] and mem = kinvD(1)[OF k(1)]
  have d: "d \<in> dirs s" using live_dirs[OF ch(3)] k(4) by simp
  obtain p where s1: "UTEMP \<le> va" "va < UTOP" "p \<in> set (page_free_list s)" "pmap_step (dirs s) (kbase K s) s s1"
    "unat (pp_ref s1 p) \<le> 1" "frames s1 p = (\<lambda>_. 0)" "vmap_updated (dirs s) d va (Some (page2pa p OR perm OR PTE_V)) s s1"
    "tables_stay (dirs s) s s1" "length (page_free_list s) \<le> length (page_free_list s1) + 2"
    using alloc_page_ok[OF k(1) ch(5,3) perm run] k(4) by metis
  let ?x = "page2pa p OR perm OR PTE_V"
  have P: "PPN ?x = p" by (rule page_entry[OF s1(3) pmap_invD(1)[OF mem] perm])
  have more1: "pmap_state.more s1 = pmap_state.more s" using s1(4) by (simp add: pmap_step_def)
  have sp1: "spawning K c e child d s1" by (rule spawning_step[OF inv kinv_step[OF k(1) s1(4)] more1 s1(8)])
  have bytes1: "page_bytes s1 d = (page_bytes s d)(VPN va \<mapsto> (\<lambda>k. 0))"
    using page_bytes_update[OF mem d s1(2) P s1(7)] s1(4,6) by (simp add: pmap_step_def phys_get_def cong: if_cong)
  show ?thesis
  proof (cases src)
    case None
    then have "spawn_mapper child va 0 perm src len s = Ret (Inr (), s1)" using run by (simp add: spawn_mapper_def)
    then show ?thesis using sp1 bytes1 s1(9) None by (auto simp: icode_page_def cong: if_cong)
  next
    case (Some bs)
    let ?bs = "take (unat len) bs"
    have len: "unat len \<le> length bs" "length ?bs \<le> 4096" "unat len \<le> 4096" using src Some by (auto simp: word_le_nat_alt)
    have x1: "vmap s1 d va = Some ?x" using s1(2,7) d by (simp add: vmap_updated_def)
    have one: "PPN y = p \<longleftrightarrow> VPN va' = VPN va" if "va' < UTOP" "vmap s1 d va' = Some y" for va' y
      using s1(7) d that leaf_range(5)[OF mem d PDX_user[OF that(1)], of y] s1(3) P by (auto simp: vmap_updated_def split: if_splits)
    obtain s2 s3 s' where f: "checked (sys_mem_map child va 0 UTEMP (perm OR PTE_D) s1) = Ret (Inr (), s2)"
      "user_put_bytes UTEMP ?bs s2 = Ret s3" "checked (sys_mem_unmap 0 UTEMP s3) = Ret (Inr (), s')"
      "spawning K c e child d s'" "length (page_free_list s1) \<le> length (page_free_list s')"
      "page_bytes s' d = (page_bytes s1 d)(VPN va \<mapsto> (\<lambda>k. if k < length ?bs then ?bs ! k else 0))"
      using spawn_mapper_fill[OF sp1 s1(2,1) perm x1 P one s1(5,6) len(2)] by blast
    have "spawn_mapper child va 0 perm src len s = Ret (Inr (), s')"
      using run f(1-3) len(1) Some by (simp add: spawn_mapper_def)
    moreover have "(\<lambda>k. if k < length ?bs then ?bs ! k else 0) = (\<lambda>k. if k < 4096 then icode_page src len k else 0)"
      using len Some by (auto simp: icode_page_def fun_eq_iff)
    ultimately show ?thesis using f(4-6) bytes1 s1(9) by auto
  qed
qed

interpretation spawned: budget_mapper "spawn_mapper child" "spawning K c e child d" "\<lambda>s. page_bytes s d" "unat UTOP"
    "\<lambda>s. length (page_free_list s)" "unat UTEMP" for K c e child d
proof
  fix s s' :: "'a kernel_scheme" and va perm len :: u32 and src :: "u8 list" and u :: unit
  assume inv: "spawning K c e child d s" and va: "unat va + 4096 \<le> unat UTOP" "va AND 0xFFF = 0" and perm: "perm < 4096"
  have allocated: "\<exists>s1. checked (sys_mem_alloc child va perm s) = Ret (Inr (), s1)"
    if "spawn_mapper child va 0 perm src len s = Ret (Inr u, s')" for src
    using that by (auto simp: spawn_mapper_def otry_eq_Ret)
  {
    assume b: "len \<le> BY2PG" "unat len \<le> length src" and run: "spawn_mapper child va 0 perm (Some src) len s = Ret (Inr u, s')"
    obtain s1 where "checked (sys_mem_alloc child va perm s) = Ret (Inr (), s1)" using allocated[OF run] by blast
    from spawn_mapper_ok[where src = "Some src" and len = len, OF inv va(2) perm _ this] run b
    have "spawning K c e child d s' \<and> page_bytes s' d = (page_bytes s d)(VPN va \<mapsto> (\<lambda>k. if k < 4096 then icode_page (Some src) len k else 0))" by auto
    moreover have "(\<lambda>k. if k < 4096 then icode_page (Some src) len k else 0) = (\<lambda>k. if k < unat len then src ! k else 0)"
      using b(1) by (auto simp: icode_page_def word_le_nat_alt fun_eq_iff)
    ultimately show "spawning K c e child d s' \<and> page_bytes s' d = (page_bytes s d)(VPN va \<mapsto> (\<lambda>k. if k < unat len then src ! k else 0))" by simp
  }
  {
    assume run: "spawn_mapper child va 0 perm None len s = Ret (Inr u, s')"
    obtain s1 where "checked (sys_mem_alloc child va perm s) = Ret (Inr (), s1)" using allocated[OF run] by blast
    from spawn_mapper_ok[where src = None and len = len, OF inv va(2) perm _ this] run
    show "spawning K c e child d s' \<and> page_bytes s' d = (page_bytes s d)(VPN va \<mapsto> (\<lambda>k. 0))"
      by (auto simp: icode_page_def cong: if_cong)
  }
next
  fix s :: "'a kernel_scheme" and va perm len :: u32 and src :: "u8 list option"
  assume inv: "spawning K c e child d s" and va: "unat va + 4096 \<le> unat UTOP" "va AND 0xFFF = 0" and perm: "perm < 4096"
    and src: "case src of None \<Rightarrow> True | Some bs \<Rightarrow> unat len \<le> length bs \<and> len \<le> BY2PG"
    and free: "2 \<le> length (page_free_list s)" and low: "unat UTEMP \<le> unat va"
  have k: "kinv K s" "child_of s c e" "env_id (envs s e) = child" using inv by (simp_all add: spawning_def)
  note ch = child_ofD[OF k(1,2), unfolded k(3)]
  have "UTEMP \<le> va" "va < UTOP" using low va(1) by (simp_all add: word_le_nat_alt word_less_nat_alt)
  then obtain s1 where "checked (sys_mem_alloc child va perm s) = Ret (Inr (), s1)"
    using alloc_page_returns[OF k(1) ch(5,3) _ _ perm free] by blast
  from spawn_mapper_ok[OF inv va(2) perm src this]
  show "returns (\<lambda>(r, s'). r = Inr () \<and> length (page_free_list s) \<le> length (page_free_list s') + 2) (spawn_mapper child va 0 perm src len s)" by auto
qed

text \<open>
  C12. \<open>spawn\<close> loads a page-aligned segment into its child: when the parent has a page table for \<open>UTEMP\<close>,
  which \<open>init_stack\<close> leaves behind, and there are two frames for each page of the segment and two to spare
  for each, \<open>elf_load_seg\<close> with \<open>spawn_mapper\<close> returns 0, the kernel invariant holds, every page of the
  segment in the child's address space holds the bytes of the file followed by zeroes, and every
  other page of the child is as before.
\<close>

theorem spawned_segment_loaded:
  assumes "kinv K s" and "child_of s c e" and "pte_valid (pde_at s (env_pgdir (envs s c)) (PDX UTEMP))"
    and "p_vaddr ph AND 0xFFF = 0" and "unat (p_filesz ph) \<le> length bin" and "p_filesz ph \<le> p_memsz ph"
    and "UTEMP \<le> p_vaddr ph" and "unat (p_vaddr ph) + unat (p_memsz ph) + 4096 \<le> unat UTOP"
    and "4 * (unat (p_memsz ph) div 4096 + 1) \<le> length (page_free_list s)"
  shows "returns (\<lambda>(r, s'). r = Inr () \<and> kinv K s' \<and>
     page_bytes s' (env_pgdir (envs s e)) = (\<lambda>n.
       if VPN (p_vaddr ph) \<le> n \<and> (n - VPN (p_vaddr ph)) * 4096 < unat (p_memsz ph)
       then Some (seg_page bin (unat (p_filesz ph)) (n - VPN (p_vaddr ph)))
       else page_bytes s (env_pgdir (envs s e)) n))
     (elf_load_seg (spawn_mapper (env_id (envs s e))) ph bin s)"
proof -
  let ?child = "env_id (envs s e)" and ?d = "env_pgdir (envs s e)"
  have inv: "spawning K c e ?child ?d s" using assms(1-3) by (simp add: spawning_def)
  have lim: "unat UTOP \<le> 2 ^ 31" by simp
  have low: "unat UTEMP \<le> unat (p_vaddr ph)" using assms(7) by (simp only: word_le_nat_alt)
  obtain s' where run: "elf_load_seg (spawn_mapper ?child) ph bin s = Ret (Inr (), s')"
    using spawned.elf_load_seg_returns[OF inv assms(4-6,8) lim assms(9) low] by (auto simp: returns_iff)
  obtain m where m: "spawning K c e ?child ?d s'" "unat (p_memsz ph) \<le> m * 4096" "m * 4096 < unat (p_memsz ph) + 4096"
    "seg_loaded bin (unat (p_filesz ph)) (VPN (p_vaddr ph)) 0 m (page_bytes s ?d) (page_bytes s' ?d)"
    using spawned.elf_load_seg_ok[OF inv assms(4-6,8) lim run] by auto
  have "n < VPN (p_vaddr ph) + m \<longleftrightarrow> (n - VPN (p_vaddr ph)) * 4096 < unat (p_memsz ph)"
    if "VPN (p_vaddr ph) \<le> n" for n
    using m(2,3) that by auto
  then show ?thesis using run m(1,4) by (auto simp: seg_loaded_def spawning_def fun_eq_iff)
qed

text \<open>The segment is loaded into the child after its stack has been built.\<close>

theorem spawned_segment_loaded_witness:
  "\<exists>sp s1. init_stack 0x1001 [''ls''] demo_sys = Ret (Inr sp, s1) \<and>
     returns (\<lambda>(r, s'). r = Inr () \<and> page_bytes s' 2 0x400 = Some (seg_page [7, 8] 2 0))
       (elf_load_seg (spawn_mapper 0x1001)
          \<lparr>p_type = PT_LOAD, p_offset = 0, p_vaddr = 0x400000, p_filesz = 2, p_memsz = 5000, p_flags = 0\<rparr> [7, 8] s1)"
proof -
  have id: "0x1001 = env_id (envs demo_sys 1)" and d: "env_pgdir (envs demo_sys 1) = 2" by (simp_all add: demo_sys_simps)
  have free: "length (page_free_list demo_sys) = 13" by (simp add: demo_sys_simps)
  have ok: "3 \<le> length (page_free_list demo_sys)" "ROUND4 (strings_size [''ls'']) + 4 * (length [''ls''] + 3) \<le> 4096"
    by (simp_all add: free ROUND4_def strings_size_def)
  obtain sp s1 where s1: "init_stack 0x1001 [''ls''] demo_sys = Ret (Inr sp, s1)" "kinv demo_K s1" "pmap_state.more s1 = pmap_state.more demo_sys"
    "pte_valid (pde_at s1 (env_pgdir (envs demo_sys 0)) (PDX UTEMP))" "13 \<le> length (page_free_list s1) + 3"
    using init_stack_ok[OF demo_sys_kinv demo_child ok] unfolding id[symmetric] free by (auto simp: returns_iff)
  note same = mem_step_same[OF s1(3)] more_kfields[OF s1(3)]
  have ch: "child_of s1 0 1" using demo_child by (simp add: child_of_def owned_def same)
  have tab: "pte_valid (pde_at s1 (env_pgdir (envs s1 0)) (PDX UTEMP))" using s1(4) by (simp add: same)
  have page: "VPN (0x400000 :: u32) = 0x400" by (simp add: PPN_def)
  show ?thesis
    by (intro exI conjI, rule s1(1), rule returns_mono2[OF spawned_segment_loaded[OF s1(2) ch tab, unfolded same id[symmetric] d]])
      (use s1(5) page in \<open>simp_all\<close>)
qed

end
