(* ===== verification/Mos_SpawnShare.thy ===== *)
theory Mos_SpawnShare
  imports Mos_SpawnProps
begin

text \<open>
  The pages that \<open>spawn\<close> shares with the child: those of the parent marked \<open>PTE_LIBRARY\<close>, by which open
  descriptors and pipes are inherited.
\<close>

section \<open>One page\<close>

definition lib_page :: "'a kernel_scheme \<Rightarrow> nat \<Rightarrow> nat \<Rightarrow> bool" where
  "lib_page s c vpn \<longleftrightarrow> (case vmap s (env_pgdir (envs s c)) (page_va vpn) of None \<Rightarrow> False | Some x \<Rightarrow> x AND PTE_LIBRARY \<noteq> 0)"

lemma lib_page_perm:
  assumes "vpn < 1048576"
  shows "(vpt s c vpn AND 0xFFF) AND PTE_V \<noteq> 0 \<and> (vpt s c vpn AND 0xFFF) AND PTE_LIBRARY \<noteq> 0 \<longleftrightarrow> lib_page s c vpn"
  using vpt_vmap[OF assms, of s c] by (simp add: lib_page_def low_bits_and)

lemma share_page_checked:
  assumes inv: "kinv K s" and cur: "curenv s = Some c" and dst: "\<And>f. with_env dstid True s f = f dst" "live s dst"
    and va: "UTEMP \<le> va" "va < UTOP" and perm: "perm < 4096" and refs: "\<forall>p. unat (pp_ref s p) < 65535"
    and src: "vmap s (env_pgdir (envs s c)) va = Some x" and none: "vmap s (env_pgdir (envs s dst)) va = None"
  shows "returns (\<lambda>(r, s'). mapping_step K 1 s s' \<and>
      (r = Inr () \<and> vmap_updated (dirs s) (env_pgdir (envs s dst)) va (Some (page2pa (PPN x) OR perm OR PTE_V)) s s' \<or>
       r = Inl E_NO_MEM \<and> page_free_list s' = []))
    (checked (sys_mem_map 0 va dstid va perm s))"
proof -
  let ?d = "env_pgdir (envs s dst)"
  have legal: "\<not> is_illegal_va va" using va by (auto simp: is_illegal_va_def)
  have lc: "live s c" by (rule cur_live[OF inv cur])
  note leaf = leaf_range[OF kinvD(1)[OF inv] live_dirs[OF lc] PDX_user[OF va(2)] src]
  obtain r s' where ins: "page_insert ?d (env_asid (envs s dst)) (PPN x) va perm s = Ret (r, s')"
    "insert_post (dirs s) (kbase K s) ?d (PPN x) va perm s (r, s')"
    using page_insert_ok[OF kinvD(1)[OF inv] live_dirs[OF dst(2)] va(2) leaf(6) _ perm, of "env_asid (envs s dst)"] refs
    by (auto simp: returns_iff)
  note run = mem_map_run[OF legal legal inv with_env_self[OF cur] lc dst(1) src, of perm]
  have "ignore (sys_mem_map 0 va dstid va perm s) = Ret s'" unfolding run using ins(1) by (cases r) (simp_all add: ignore_def)
  then have "mapping_step K 1 s s'"
    using share_page[OF inv cur dst va perm refs src] none by simp
  then show ?thesis unfolding run using ins by (cases r) (auto simp: insert_post_def)
qed

section \<open>The loops\<close>

text \<open>
  Where the loops start, and the state \<open>s\<close> after the pages with numbers in \<open>A\<close> have been treated.
\<close>

definition libs :: "'a kernel_scheme \<Rightarrow> nat \<Rightarrow> nat set" where
  "libs s c = {vpn. vpn < VPN UTOP \<and> lib_page s c vpn}"

definition shareable :: "(nat \<Rightarrow> nat) \<Rightarrow> nat \<Rightarrow> nat \<Rightarrow> 'a kernel_scheme \<Rightarrow> bool" where
  "shareable K c e s \<longleftrightarrow> kinv K s \<and> child_of s c e \<and>
     (\<forall>vpn\<in>libs s c. UTEMP \<le> page_va vpn \<and> vmap s (env_pgdir (envs s e)) (page_va vpn) = None) \<and>
     (\<forall>p. unat (pp_ref s p) + card (libs s c) < 65535)"

definition inherited :: "(nat \<Rightarrow> nat) \<Rightarrow> nat \<Rightarrow> nat \<Rightarrow> 'a kernel_scheme \<Rightarrow> nat set \<Rightarrow> 'a kernel_scheme \<Rightarrow> bool" where
  "inherited K c e s0 A s \<longleftrightarrow> mapping_step K (card (A \<inter> libs s0 c)) s0 s \<and>
     (\<forall>d\<in>dirs s0. \<forall>va<UTOP. vmap s d va =
        (if d = env_pgdir (envs s0 e) \<and> VPN va \<in> A \<inter> libs s0 c then vmap s0 (env_pgdir (envs s0 c)) va else vmap s0 d va))"

lemma finite_libs [simp]: "finite (libs s c)"
  by (rule finite_subset[of _ "{..<VPN UTOP}"]) (auto simp: libs_def)

lemma inherited_start: "kinv K s \<Longrightarrow> inherited K c e s {} s"
  by (simp add: inherited_def mapping_step_refl)

lemma inherited_skip: "inherited K c e s0 A s \<Longrightarrow> B \<inter> libs s0 c = {} \<Longrightarrow> inherited K c e s0 (A \<union> B) s"
  by (simp add: inherited_def Int_Un_distrib2)

lemma shareableD:
  assumes "shareable K c e s" and "inherited K c e s A s'"
  shows "kinv K s'" "child_of s' c e" "envs s' = envs s" "curenv s' = Some c" "dirs s' = dirs s" "env_pgdir (envs s c) \<in> dirs s"
    "env_pgdir (envs s e) \<in> dirs s" "env_pgdir (envs s c) \<noteq> env_pgdir (envs s e)"
    "va < UTOP \<Longrightarrow> vmap s' (env_pgdir (envs s c)) va = vmap s (env_pgdir (envs s c)) va"
proof -
  have k: "kinv K s" "child_of s c e" using assms(1) by (simp_all add: shareable_def)
  have st: "mapping_step K (card (A \<inter> libs s c)) s s'" using assms(2) by (simp add: inherited_def)
  note ch = child_ofD[OF k] and keeps = mapping_step_keeps[OF st]
  show "kinv K s'" "envs s' = envs s" "dirs s' = dirs s" by (rule keeps)+
  show "child_of s' c e" using child_of_step[OF st] k(2) by simp
  show "curenv s' = Some c" using keeps(3) ch(1) by simp
  show "env_pgdir (envs s c) \<in> dirs s" "env_pgdir (envs s e) \<in> dirs s" "env_pgdir (envs s c) \<noteq> env_pgdir (envs s e)"
    using live_dirs[OF ch(2)] live_dirs[OF ch(3)] ch(4) by simp_all
  then show "va < UTOP \<Longrightarrow> vmap s' (env_pgdir (envs s c)) va = vmap s (env_pgdir (envs s c)) va"
    using assms(2) by (simp add: inherited_def)
qed

lemma page_va_UTOP: "vpn < VPN UTOP \<Longrightarrow> page_va vpn < UTOP"
  by (simp add: page_va_eq word_less_nat_alt unat_page2pa PPN_eq)

lemma lib_page_inherited:
  assumes "shareable K c e s" and "inherited K c e s A s'" and "vpn < VPN UTOP"
  shows "lib_page s' c vpn \<longleftrightarrow> vpn \<in> libs s c"
  using shareableD(3,9)[OF assms(1,2)] page_va_UTOP[OF assms(3)] assms(3) by (simp add: lib_page_def libs_def)

lemma share_one:
  assumes sh: "shareable K c e s0" and st: "inherited K c e s0 A s" and vpn: "vpn \<in> libs s0 c" "vpn \<notin> A"
  shows "returns (\<lambda>(r, s'). r = Inr () \<and> inherited K c e s0 (insert vpn A) s' \<or> r = Inl E_NO_MEM \<and> page_free_list s' = [] \<and> kinv K s')
    (checked (sys_mem_map 0 (page_va vpn) (env_id (envs s0 e)) (page_va vpn) (vpt s c vpn AND 0xFFF) s))"
proof -
  let ?va = "page_va vpn" and ?dc = "env_pgdir (envs s0 c)" and ?de = "env_pgdir (envs s0 e)"
  note D = shareableD[OF sh st]
  have v: "vpn < VPN UTOP" "vpn < 1048576" using vpn(1) by (auto simp: libs_def PPN_eq)
  have va: "?va < UTOP" "UTEMP \<le> ?va" "vmap s0 ?de ?va = None" using page_va_UTOP[OF v(1)] sh vpn(1) by (simp_all add: shareable_def)
  obtain x where x0: "vmap s0 ?dc ?va = Some x" using vpn(1) by (auto simp: libs_def lib_page_def split: option.splits)
  then have x: "vmap s (env_pgdir (envs s c)) ?va = Some x" using D(3) D(9)[OF va(1)] by simp
  then have pte: "vpt s c vpn = x" "pte_valid x" using vpt_vmap[OF v(2), of s c] by (simp_all split: if_splits)
  have none: "vmap s (env_pgdir (envs s e)) ?va = None" using st va vpn(2) v(2) D(3,7) by (simp add: inherited_def)
  have st1: "mapping_step K (card (A \<inter> libs s0 c)) s0 s" using st by (simp add: inherited_def)
  have refs: "\<forall>p. unat (pp_ref s p) < 65535"
  proof
    fix p
    have "unat (pp_ref s p) \<le> unat (pp_ref s0 p) + card (A \<inter> libs s0 c)" using st1 by (simp add: mapping_step_def)
    moreover have "card (A \<inter> libs s0 c) \<le> card (libs s0 c)" by (rule card_mono) auto
    moreover have "unat (pp_ref s0 p) + card (libs s0 c) < 65535" using sh by (simp add: shareable_def)
    ultimately show "unat (pp_ref s p) < 65535" by linarith
  qed
  note ch = child_ofD[OF D(1,2)]
  obtain r s1 where s1: "checked (sys_mem_map 0 ?va (env_id (envs s e)) ?va (x AND 0xFFF) s) = Ret (r, s1)" "mapping_step K 1 s s1"
    "r = Inr () \<and> vmap_updated (dirs s) (env_pgdir (envs s e)) ?va (Some (page2pa (PPN x) OR (x AND 0xFFF) OR PTE_V)) s s1 \<or>
     r = Inl E_NO_MEM \<and> page_free_list s1 = []"
    using share_page_checked[OF D(1) ch(1,5,3) va(2,1) perm_range(1)[of x] refs x none] by (auto simp: returns_iff)
  have "kinv K s1" using s1(2) by (rule mapping_step_keeps(1))
  moreover have "inherited K c e s0 (insert vpn A) s1"
    if "vmap_updated (dirs s) (env_pgdir (envs s e)) ?va (Some (page2pa (PPN x) OR (x AND 0xFFF) OR PTE_V)) s s1"
  proof -
    have "card (insert vpn A \<inter> libs s0 c) = card (A \<inter> libs s0 c) + 1" using vpn by simp
    then have "mapping_step K (card (insert vpn A \<inter> libs s0 c)) s0 s1" using mapping_step_trans[OF st1 s1(2)] by simp
    moreover have "vmap s0 ?dc va' = Some x" if "VPN va' = vpn" for va' using x0 vmap_same_page[of va' ?va s0 ?dc] that v(2) by simp
    ultimately show ?thesis
      using that st vpn(1) v(2) D(3,5) unfolding inherited_def vmap_updated_def cow_pte_eqs(1)[OF pte(2)] by auto
  qed
  ultimately show ?thesis using s1(1,3) D(3) pte(1) by auto
qed

lemma share_pages_ok:
  assumes sh: "shareable K c e s0" and st: "inherited K c e s0 A s" and "distinct vpns" "set vpns \<inter> A = {}" "set vpns \<subseteq> {..<VPN UTOP}"
  shows "returns (\<lambda>(r, s'). r = Inr () \<and> inherited K c e s0 (A \<union> set vpns) s' \<or> r = Inl E_NO_MEM \<and> page_free_list s' = [] \<and> kinv K s')
    (share_pages (env_id (envs s0 e)) vpns s)"
  using assms(2-)
proof (induction vpns arbitrary: A s)
  case (Cons vpn vpns)
  note D = shareableD[OF sh Cons.prems(1)]
  have v: "vpn < VPN UTOP" "vpn < 1048576" "vpn \<notin> A" using Cons.prems(3,4) by (auto simp: PPN_eq)
  have more: "distinct vpns" "set vpns \<inter> insert vpn A = {}" "set vpns \<subseteq> {..<VPN UTOP}" using Cons.prems by auto
  note lib = lib_page_perm[OF v(2), of s c] lib_page_inherited[OF sh Cons.prems(1) v(1)]
  show ?case
  proof (cases "vpn \<in> libs s0 c")
    case False
    then have "share_pages (env_id (envs s0 e)) (vpn # vpns) s = share_pages (env_id (envs s0 e)) vpns s"
      using lib D(4) by (auto simp: with_cur_def Let_def)
    moreover have "inherited K c e s0 (A \<union> {vpn}) s" by (rule inherited_skip[OF Cons.prems(1)]) (use False in simp)
    ultimately show ?thesis using Cons.IH[OF _ more] by simp
  next
    case True
    then have run: "share_pages (env_id (envs s0 e)) (vpn # vpns) s =
      otry (checked (sys_mem_map 0 (page_va vpn) (env_id (envs s0 e)) (page_va vpn) (vpt s c vpn AND 0xFFF) s)) (\<lambda>_ s. share_pages (env_id (envs s0 e)) vpns s)"
      using lib D(4) by (simp add: with_cur_def Let_def)
    obtain r s1 where s1: "checked (sys_mem_map 0 (page_va vpn) (env_id (envs s0 e)) (page_va vpn) (vpt s c vpn AND 0xFFF) s) = Ret (r, s1)"
      "r = Inr () \<and> inherited K c e s0 (insert vpn A) s1 \<or> r = Inl E_NO_MEM \<and> page_free_list s1 = [] \<and> kinv K s1"
      using share_one[OF sh Cons.prems(1) True v(3)] by (auto simp: returns_iff)
    from s1(2) show ?thesis
    proof
      assume "r = Inr () \<and> inherited K c e s0 (insert vpn A) s1"
      then show ?thesis using Cons.IH[OF _ more, of s1] s1(1) run by simp
    qed (use s1(1) run in simp)
  qed
qed simp

lemma share_tables_ok:
  assumes sh: "shareable K c e s0" and st: "inherited K c e s0 {..<m * 1024} s" and "m + n = PDX UTOP"
  shows "returns (\<lambda>(r, s'). r = Inr () \<and> inherited K c e s0 {..<VPN UTOP} s' \<or> r = Inl E_NO_MEM \<and> page_free_list s' = [] \<and> kinv K s')
    (share_tables (env_id (envs s0 e)) [m..<m + n] s)"
  using assms(2-)
proof (induction n arbitrary: m s)
  case 0
  then show ?case by (simp add: PDX_eq PPN_eq)
next
  case (Suc n)
  note D = shareableD[OF sh Suc.prems(1)]
  have upt: "[m..<m + Suc n] = m # [Suc m..<Suc m + n]" by (simp add: upt_conv_Cons del: upt_Suc)
  let ?B = "{m * 1024..<m * 1024 + 1024}"
  have un: "{..<m * 1024} \<union> ?B = {..<Suc m * 1024}" by auto
  have m: "Suc m + n = PDX UTOP" using Suc.prems(2) by simp
  have "Suc m \<le> 509" using m by (simp add: PDX_eq)
  then have B: "?B \<subseteq> {..<VPN UTOP}" by (auto simp: PPN_eq)
  show ?case
  proof (cases "pte_valid (vpd s c m)")
    case False
    then have run: "share_tables (env_id (envs s0 e)) [m..<m + Suc n] s = share_tables (env_id (envs s0 e)) [Suc m..<Suc m + n] s"
      unfolding upt using D(4) by (simp add: with_cur_def)
    have "vpn \<notin> libs s0 c" if "vpn \<in> ?B" for vpn
    proof -
      have v: "vpn < VPN UTOP" "vpn < 1048576" "vpn div 1024 = m" using that B by (auto simp: PPN_eq intro: div_nat_eqI)
      have "vmap s (env_pgdir (envs s c)) (page_va vpn) = None" using vpt_vmap[OF v(2), of s c] False v(3) by (simp add: vpt_def)
      then show ?thesis using lib_page_inherited[OF sh Suc.prems(1) v(1)] by (simp add: lib_page_def)
    qed
    then have "?B \<inter> libs s0 c = {}" by blast
    from inherited_skip[OF Suc.prems(1) this] show ?thesis unfolding run un using Suc.IH[OF _ m] by simp
  next
    case True
    then have run: "share_tables (env_id (envs s0 e)) [m..<m + Suc n] s =
      otry (share_pages (env_id (envs s0 e)) [m * 1024..<m * 1024 + 1024] s) (\<lambda>_ s. share_tables (env_id (envs s0 e)) [Suc m..<Suc m + n] s)"
      unfolding upt using D(4) by (simp add: with_cur_def del: upt_Suc)
    have dis: "set [m * 1024..<m * 1024 + 1024] \<inter> {..<m * 1024} = {}" "set [m * 1024..<m * 1024 + 1024] \<subseteq> {..<VPN UTOP}"
      using B by auto
    obtain r s1 where s1: "share_pages (env_id (envs s0 e)) [m * 1024..<m * 1024 + 1024] s = Ret (r, s1)"
      "r = Inr () \<and> inherited K c e s0 {..<Suc m * 1024} s1 \<or> r = Inl E_NO_MEM \<and> page_free_list s1 = [] \<and> kinv K s1"
      using share_pages_ok[OF sh Suc.prems(1) distinct_upt dis] un by (auto simp: returns_iff)
    from s1(2) show ?thesis
    proof
      assume "r = Inr () \<and> inherited K c e s0 {..<Suc m * 1024} s1"
      then show ?thesis unfolding run s1(1) using Suc.IH[OF _ m, of s1] by simp
    qed (unfold run s1(1), simp)
  qed
qed

section \<open>Property\<close>

text \<open>
  C13. What \<open>spawn\<close> shares: when the child has nothing yet where the parent has \<open>PTE_LIBRARY\<close> pages, the loops
  over the parent's page tables either run out of memory for the child's page tables, or end with every
  such page mapped in the child at the same address with the same entry, and no other translation
  of any environment changed.
\<close>

theorem library_pages_inherited:
  assumes "shareable K c e s"
  shows "returns (\<lambda>(r, s'). kinv K s' \<and>
     (r = Inr () \<and> (\<forall>d\<in>dirs s. \<forall>va<UTOP. vmap s' d va =
         (if d = env_pgdir (envs s e) \<and> lib_page s c (VPN va) then vmap s (env_pgdir (envs s c)) va else vmap s d va)) \<or>
      r = Inl E_NO_MEM \<and> page_free_list s' = []))
    (share_tables (env_id (envs s e)) [0..<PDX USTACKTOP + 1] s)"
proof -
  have k: "kinv K s" using assms by (simp add: shareable_def)
  have top: "PDX USTACKTOP + 1 = 0 + PDX UTOP" "0 + PDX UTOP = PDX UTOP" by (simp_all add: PDX_eq)
  have start: "inherited K c e s {..<0 * 1024} s" using inherited_start[OF k, of c e] by simp
  have vpn: "VPN va < VPN UTOP" if "va < UTOP" for va using that by (simp add: PPN_eq word_less_nat_alt less_mult_imp_div_less)
  show ?thesis unfolding top(1)
    by (rule returns_mono2[OF share_tables_ok[OF assms start top(2)]])
      (auto simp: inherited_def libs_def vpn dest: mapping_step_keeps(1))
qed

text \<open>The parent marks its writable page at \<open>0x401000\<close> as shared and starts the child with it.\<close>

theorem library_pages_inherited_witness:
  "\<exists>s1. ignore (sys_mem_map 0 0x401000 0 0x401000 (PTE_D OR PTE_LIBRARY) demo_fork) = Ret s1 \<and>
     returns (\<lambda>(r, s'). r = Inr () \<and> vmap s' 2 0x401000 = Some 0x7604 \<or> r = Inl E_NO_MEM \<and> page_free_list s' = [])
       (share_tables 0x1001 [0..<PDX USTACKTOP + 1] s1)"
proof -
  have cur: "curenv demo_fork = Some 0" and live: "live demo_fork 0" "live demo_fork 1"
    using demo_fork_same(2) mem_step_same[OF demo_fork_fields(5)] demo_sys_live by simp_all
  have d: "env_pgdir (envs demo_fork 0) = 1" "env_pgdir (envs demo_fork 1) = 2" "env_id (envs demo_fork 1) = 0x1001"
    by (simp_all add: demo_fork_same demo_sys_simps)
  have vpn: "VPN (0x401000 :: u32) = 1025" by (simp add: PPN_def)
  have src: "vmap demo_fork (env_pgdir (envs demo_fork 0)) 0x401000 = Some 0x7600"
    unfolding d demo_fork_vmap vpn by simp
  have ok: "UTEMP \<le> (0x401000 :: u32)" "(0x401000 :: u32) < UTOP" "PTE_D OR PTE_LIBRARY < (4096 :: u32)" "\<forall>p. unat (pp_ref demo_fork p) < 65535"
    by (simp_all add: demo_fork_fields)
  have entry: "page2pa (PPN 0x7600) OR (PTE_D OR PTE_LIBRARY) OR PTE_V = 0x7604" unfolding demo_PPN by (simp add: page2pa_def push_bit_eq_mult)
  obtain s1 where s1: "ignore (sys_mem_map 0 0x401000 0 0x401000 (PTE_D OR PTE_LIBRARY) demo_fork) = Ret s1" "mapping_step demo_K 0 demo_fork s1"
    "vmap_updated (dirs demo_fork) 1 0x401000 (Some 0x7604) demo_fork s1"
    using share_page[OF demo_fork_kinv cur with_env_self[OF cur] live(1) ok src] src unfolding entry d by (auto simp: returns_iff)
  note keeps = mapping_step_keeps[OF s1(2)]
  have v1: "vmap s1 1 va = (if VPN va = 1025 then Some 0x7604 else vmap demo_fork 1 va)" if "va < UTOP" for va
    using s1(3) that by (simp add: vmap_updated_def demo_fork_same vpn)
  have v2: "vmap s1 2 va = None" if "va < UTOP" for va
    using s1(3) that by (simp add: vmap_updated_def demo_fork_same) (simp add: vmap_def demo_fork_fields demo_frames_def)
  have lib: "lib_page s1 0 n \<longleftrightarrow> n = 1025" if "n < VPN UTOP" for n
  proof -
    have "n < 1048576" using that by (simp add: PPN_eq)
    then show ?thesis using v1[OF page_va_UTOP[OF that]]
      by (auto simp: lib_page_def keeps(2) d demo_fork_maps split: if_splits)
  qed
  then have libs: "libs s1 0 = {1025}" by (auto simp: libs_def PPN_eq)
  have refs: "unat (pp_ref s1 p) + 1 < 65535" for p
  proof -
    have "unat (pp_ref s1 p) \<le> unat (pp_ref demo_fork p)" using s1(2) by (simp add: mapping_step_def)
    also have "\<dots> \<le> 1" by (simp add: demo_fork_fields)
    finally show ?thesis by simp
  qed
  have "child_of demo_fork 0 1"
    using cur live(2) demo_child by (simp add: child_of_def owned_def demo_fork_same)
  then have "child_of s1 0 1" using child_of_step[OF s1(2)] by simp
  then have sh: "shareable demo_K 0 1 s1"
    using keeps(1) refs v2[of "0x401000"] by (simp add: shareable_def libs keeps(2) d[unfolded One_nat_def] page_va_eq page2pa_def push_bit_eq_mult)
  have page: "(2 :: nat) \<in> dirs s1" "lib_page s1 0 (VPN 0x401000)" "vmap s1 1 0x401000 = Some 0x7604"
    using v1[of "0x401000"] lib[of 1025] by (simp_all add: keeps(4) demo_fork_same vpn PPN_eq)
  have id: "0x1001 = env_id (envs s1 1)" and d1: "env_pgdir (envs s1 0) = 1" "env_pgdir (envs s1 1) = 2"
    using d by (simp_all add: keeps(2))
  show ?thesis
    by (intro exI conjI, rule s1(1), subst id, rule returns_mono2[OF library_pages_inherited[OF sh]]) (use page d1 ok(2) in auto)
qed

end
