(* ===== verification/Mos_Ide.thy ===== *)
theory Mos_Ide
  imports Mos_Syscall Mos_Fs
begin

text \<open>
  The disk driver of the file system server, \<open>fs/ide.c\<close>, over a disk device that is not part of the
  repository: the device is an argument, and \<open>disk_device\<close> states what \<open>include/drivers/dev_disk.h\<close> and the
  driver rely on.  The driver reaches it through \<open>syscall_write_dev\<close> and \<open>syscall_read_dev\<close>, with their checks.
\<close>

section \<open>The device\<close>

abbreviation (input) DEV_DISK_ADDRESS :: u32 where "DEV_DISK_ADDRESS \<equiv> 0x13000000"
abbreviation (input) DEV_DISK_OFFSET :: u32 where "DEV_DISK_OFFSET \<equiv> 0"
abbreviation (input) DEV_DISK_ID :: u32 where "DEV_DISK_ID \<equiv> 0x10"
abbreviation (input) DEV_DISK_START_OPERATION :: u32 where "DEV_DISK_START_OPERATION \<equiv> 0x20"
abbreviation (input) DEV_DISK_STATUS :: u32 where "DEV_DISK_STATUS \<equiv> 0x30"
abbreviation (input) DEV_DISK_BUFFER :: u32 where "DEV_DISK_BUFFER \<equiv> 0x4000"
abbreviation (input) DEV_DISK_OPERATION_READ :: u32 where "DEV_DISK_OPERATION_READ \<equiv> 0"
abbreviation (input) DEV_DISK_OPERATION_WRITE :: u32 where "DEV_DISK_OPERATION_WRITE \<equiv> 1"
abbreviation (input) BY2SECT :: u32 where "BY2SECT \<equiv> 512"
abbreviation (input) SECT2BLK :: u32 where "SECT2BLK \<equiv> 8"

text \<open>A store to device memory, and a load from it.\<close>

type_synonym 'd dev_write = "u32 \<Rightarrow> u8 list \<Rightarrow> 'd \<Rightarrow> 'd"
type_synonym 'd dev_read = "u32 \<Rightarrow> nat \<Rightarrow> 'd \<Rightarrow> u8 list"

definition word_bytes :: "u32 \<Rightarrow> u8 list" where
  "word_bytes w = map (\<lambda>k. ucast (drop_bit (8 * k) w)) [0..<4]"

text \<open>Word \<open>i\<close> of a sequence of bytes.\<close>

definition word_at :: "(nat \<Rightarrow> u8) \<Rightarrow> nat \<Rightarrow> u32" where
  "word_at f i = ucast (f (4 * i)) OR push_bit 8 (ucast (f (4 * i + 1))) OR push_bit 16 (ucast (f (4 * i + 2)))
     OR push_bit 24 (ucast (f (4 * i + 3)))"

text \<open>
  The registers and the buffer of the device, and its disk 0 of \<open>n\<close> sectors: writing a register sets it,
  starting an operation moves one sector between the buffer and the place on the disk that the offset register
  names, and leaves a status that is not 0.
\<close>

definition disk_device ::
  "'d dev_write \<Rightarrow> 'd dev_read \<Rightarrow> ('d \<Rightarrow> u32) \<Rightarrow> ('d \<Rightarrow> u32) \<Rightarrow> ('d \<Rightarrow> u8 list) \<Rightarrow> ('d \<Rightarrow> nat \<Rightarrow> u8 list) \<Rightarrow> nat \<Rightarrow> bool" where
  "disk_device dw dr diskid offs buf sect n \<longleftrightarrow>
     (\<forall>d w. let d' = dw (DEV_DISK_ADDRESS + DEV_DISK_ID) (word_bytes w) d in
        diskid d' = w \<and> offs d' = offs d \<and> buf d' = buf d \<and> sect d' = sect d) \<and>
     (\<forall>d w. let d' = dw (DEV_DISK_ADDRESS + DEV_DISK_OFFSET) (word_bytes w) d in
        diskid d' = diskid d \<and> offs d' = w \<and> buf d' = buf d \<and> sect d' = sect d) \<and>
     (\<forall>d bs. length bs = 512 \<longrightarrow> (let d' = dw (DEV_DISK_ADDRESS + DEV_DISK_BUFFER) bs d in
        diskid d' = diskid d \<and> offs d' = offs d \<and> buf d' = bs \<and> sect d' = sect d)) \<and>
     (\<forall>d i. i < n \<and> diskid d = 0 \<and> unat (offs d) = i * 512 \<longrightarrow>
        (let d' = dw (DEV_DISK_ADDRESS + DEV_DISK_START_OPERATION) (word_bytes DEV_DISK_OPERATION_READ) d in
           buf d' = sect d i \<and> sect d' = sect d \<and> word_at (\<lambda>k. dr (DEV_DISK_ADDRESS + DEV_DISK_STATUS) 4 d' ! k) 0 \<noteq> 0) \<and>
        (let d' = dw (DEV_DISK_ADDRESS + DEV_DISK_START_OPERATION) (word_bytes DEV_DISK_OPERATION_WRITE) d in
           sect d' = (sect d)(i := buf d) \<and> word_at (\<lambda>k. dr (DEV_DISK_ADDRESS + DEV_DISK_STATUS) 4 d' ! k) 0 \<noteq> 0)) \<and>
     (\<forall>d. dr (DEV_DISK_ADDRESS + DEV_DISK_BUFFER) 512 d = buf d) \<and>
     (\<forall>d i. i < n \<longrightarrow> length (sect d i) = 512)"

section \<open>The system calls the driver makes\<close>

text \<open>
  The server's memory, byte by byte, and the device.  A register is written from, or read into, a local variable of the
  driver, whose address on the user stack always passes \<open>is_illegal_va_range\<close>; the numbers are little endian.
\<close>

type_synonym 'd ide = "(u32 \<Rightarrow> u8) \<times> 'd"

definition store_at :: "u32 \<Rightarrow> u8 list \<Rightarrow> (u32 \<Rightarrow> u8) \<Rightarrow> u32 \<Rightarrow> u8" where
  "store_at a bs m = (\<lambda>x. if unat (x - a) < length bs then bs ! unat (x - a) else m x)"

definition load_from :: "u32 \<Rightarrow> nat \<Rightarrow> (u32 \<Rightarrow> u8) \<Rightarrow> u8 list" where
  "load_from a n m = map (\<lambda>k. m (a + of_nat k)) [0..<n]"

definition write_reg :: "'d dev_write \<Rightarrow> u32 \<Rightarrow> u32 \<Rightarrow> 'd ide \<Rightarrow> 'd ide outcome" where
  "write_reg dw pa w = (\<lambda>(m, d).
     if is_illegal_dev_pa pa 4 then Panic ''panic_on(syscall_write_dev(...))'' else Ret (m, dw pa (word_bytes w) d))"

definition read_reg :: "'d dev_read \<Rightarrow> u32 \<Rightarrow> 'd ide \<Rightarrow> u32 outcome" where
  "read_reg dr pa = (\<lambda>(m, d).
     if is_illegal_dev_pa pa 4 then Panic ''panic_on(syscall_read_dev(...))'' else Ret (word_at (\<lambda>k. dr pa 4 d ! k) 0))"

definition write_buf :: "'d dev_write \<Rightarrow> u32 \<Rightarrow> u32 \<Rightarrow> 'd ide \<Rightarrow> 'd ide outcome" where
  "write_buf dw va pa = (\<lambda>(m, d).
     if is_illegal_va_range va 512 \<or> is_illegal_dev_pa pa 512 then Panic ''panic_on(syscall_write_dev(...))''
     else Ret (m, dw pa (load_from va 512 m) d))"

definition read_buf :: "'d dev_read \<Rightarrow> u32 \<Rightarrow> u32 \<Rightarrow> 'd ide \<Rightarrow> 'd ide outcome" where
  "read_buf dr va pa = (\<lambda>(m, d).
     if is_illegal_va_range va 512 \<or> is_illegal_dev_pa pa 512 then Panic ''panic_on(syscall_read_dev(...))''
     else Ret (store_at va (dr pa 512 d) m, d))"

section \<open>ide_read and ide_write\<close>

definition read_sector :: "'d dev_write \<Rightarrow> 'd dev_read \<Rightarrow> u32 \<Rightarrow> u32 \<Rightarrow> u32 \<Rightarrow> 'd ide \<Rightarrow> 'd ide outcome" where
  "read_sector dw dr diskno pos dst s =
     obind (write_reg dw (DEV_DISK_ADDRESS + DEV_DISK_ID) diskno s) (\<lambda>s.
     obind (write_reg dw (DEV_DISK_ADDRESS + DEV_DISK_OFFSET) pos s) (\<lambda>s.
     obind (write_reg dw (DEV_DISK_ADDRESS + DEV_DISK_START_OPERATION) DEV_DISK_OPERATION_READ s) (\<lambda>s.
     obind (read_reg dr (DEV_DISK_ADDRESS + DEV_DISK_STATUS) s) (\<lambda>re.
     if re = 0 then Panic ''panic_on(re==0)''
     else read_buf dr dst (DEV_DISK_ADDRESS + DEV_DISK_BUFFER) s))))"

definition write_sector :: "'d dev_write \<Rightarrow> 'd dev_read \<Rightarrow> u32 \<Rightarrow> u32 \<Rightarrow> u32 \<Rightarrow> 'd ide \<Rightarrow> 'd ide outcome" where
  "write_sector dw dr diskno pos src s =
     obind (write_reg dw (DEV_DISK_ADDRESS + DEV_DISK_ID) diskno s) (\<lambda>s.
     obind (write_reg dw (DEV_DISK_ADDRESS + DEV_DISK_OFFSET) pos s) (\<lambda>s.
     obind (write_buf dw src (DEV_DISK_ADDRESS + DEV_DISK_BUFFER) s) (\<lambda>s.
     obind (write_reg dw (DEV_DISK_ADDRESS + DEV_DISK_START_OPERATION) DEV_DISK_OPERATION_WRITE s) (\<lambda>s.
     obind (read_reg dr (DEV_DISK_ADDRESS + DEV_DISK_STATUS) s) (\<lambda>re.
     if re = 0 then Panic ''panic_on(re==0)'' else Ret s)))))"

text \<open>
  The common loop, whose counter \<open>off\<close> is an unsigned 32-bit number.  The guard for a distance below one sector
  makes the definition terminate on all arguments; on multiples of the sector size, as both functions have, it is
  never met (\<open>sector_loop_unfold\<close>) and the loop is the one of the code.
\<close>

function sector_loop :: "(u32 \<Rightarrow> u32 \<Rightarrow> 's \<Rightarrow> 's outcome) \<Rightarrow> u32 \<Rightarrow> u32 \<Rightarrow> u32 \<Rightarrow> u32 \<Rightarrow> 's \<Rightarrow> 's outcome" where
  "sector_loop f start stop off buf s =
     (if start + off < stop then
        if stop - (start + off) < BY2SECT then Undef
        else obind (f (start + off) (buf + off) s) (sector_loop f start stop (off + BY2SECT) buf)
      else Ret s)"
  by pat_completeness auto
termination
proof (relation "measure (\<lambda>(f, start, stop, off, buf, s). unat (stop - (start + off)))", goal_cases)
  case (2 f start stop off buf s x)
  let ?r = "stop - (start + off)"
  have e: "stop - (start + (off + BY2SECT)) = ?r - BY2SECT" by simp
  have "512 \<le> unat ?r" using 2(2) by (simp add: not_less word_le_nat_alt)
  moreover have "unat (?r - BY2SECT) = unat ?r - 512" using 2(2) by (simp add: unat_sub not_less)
  ultimately have "unat (stop - (start + (off + BY2SECT))) < unat ?r" unfolding e by linarith
  then show ?case by simp
qed simp

declare sector_loop.simps [simp del]

lemma dvd_imp_zero_nat: "(k :: nat) dvd n \<Longrightarrow> n < k \<Longrightarrow> n = 0"
  using nat_dvd_not_less by blast

lemma sector_distance: "(x * 512 :: u32) < 512 \<Longrightarrow> x * 512 = 0"
proof -
  assume less: "x * 512 < 512"
  have "512 dvd unat (x * 512)" by (simp add: unat_word_ariths dvd_mod)
  moreover have "unat (x * 512) < 512" using less by (simp add: word_less_nat_alt)
  ultimately have "unat (x * 512) = 0" by (rule dvd_imp_zero_nat)
  then show ?thesis by (simp only: unat_eq_0)
qed

lemma sector_loop_unfold:
  "sector_loop f (b * 512) (e * 512) (k * 512) buf s =
     (if b * 512 + k * 512 < e * 512
      then obind (f (b * 512 + k * 512) (buf + k * 512) s) (sector_loop f (b * 512) (e * 512) ((k + 1) * 512) buf)
      else Ret s)"
proof -
  have eq: "e * 512 - (b * 512 + k * 512) = (e - b - k) * 512" "(k + 1) * 512 = k * 512 + 512" by (simp_all add: algebra_simps)
  have far: "b * 512 + k * 512 < e * 512 \<Longrightarrow> \<not> e * 512 - (b * 512 + k * 512) < 512"
    using sector_distance[of "e - b - k"] unfolding eq(1)[symmetric] by auto
  then show ?thesis unfolding eq(2) by (subst sector_loop.simps) simp
qed

definition ide_read :: "'d dev_write \<Rightarrow> 'd dev_read \<Rightarrow> u32 \<Rightarrow> u32 \<Rightarrow> u32 \<Rightarrow> u32 \<Rightarrow> 'd ide \<Rightarrow> 'd ide outcome" where
  "ide_read dw dr diskno secno dst nsecs s =
     (let start = secno * BY2SECT; stop = start + nsecs * BY2SECT
      in sector_loop (read_sector dw dr diskno) start stop 0 dst s)"

definition ide_write :: "'d dev_write \<Rightarrow> 'd dev_read \<Rightarrow> u32 \<Rightarrow> u32 \<Rightarrow> u32 \<Rightarrow> u32 \<Rightarrow> 'd ide \<Rightarrow> 'd ide outcome" where
  "ide_write dw dr diskno secno src nsecs s =
     (let start = secno * BY2SECT; stop = start + nsecs * BY2SECT
      in sector_loop (write_sector dw dr diskno) start stop 0 src s)"

section \<open>What a transfer does\<close>

lemma sector_loop_ok:
  fixes secno nsecs k :: nat
  assumes "(secno + nsecs) * 512 < 2 ^ 32" and "k \<le> nsecs" and "P k s"
    and "\<And>k s. k < nsecs \<Longrightarrow> P k s \<Longrightarrow> returns (P (Suc k)) (f (of_nat ((secno + k) * 512)) (buf + of_nat (k * 512)) s)"
  shows "returns (P nsecs) (sector_loop f (of_nat (secno * 512)) (of_nat ((secno + nsecs) * 512)) (of_nat (k * 512)) buf s)"
  using assms(2,3)
proof (induction "nsecs - k" arbitrary: k s)
  case 0
  then have "k = nsecs" by simp
  moreover have "of_nat (secno * 512) + of_nat (nsecs * 512) = (of_nat ((secno + nsecs) * 512) :: u32)" by (simp add: algebra_simps)
  ultimately show ?case using 0(3) by (simp add: sector_loop.simps)
next
  case (Suc x)
  have k: "k < nsecs" using Suc.hyps(2) by simp
  let ?pos = "of_nat ((secno + k) * 512) :: u32" and ?stop = "of_nat ((secno + nsecs) * 512) :: u32"
  have pos: "of_nat (secno * 512) + of_nat (k * 512) = ?pos" by (simp add: algebra_simps)
  have lt: "(secno + k) * 512 < 2 ^ 32" "(secno + k) * 512 + 512 \<le> (secno + nsecs) * 512" using assms(1) k by simp_all
  have u: "unat ?pos = (secno + k) * 512" "unat ?stop = (secno + nsecs) * 512"
    using lt(1) assms(1) by (simp_all add: unsigned_of_nat take_bit_nat_eq_self del: of_nat_mult of_nat_add)
  have less: "?pos < ?stop" using lt(2) by (simp only: word_less_nat_alt u)
  have "unat (?stop - ?pos) = unat ?stop - unat ?pos" by (rule unat_sub[OF less_imp_le[OF less]])
  then have far: "\<not> ?stop - ?pos < 512" using lt(2) by (simp only: not_less word_le_nat_alt u) simp
  obtain s1 where s1: "f ?pos (buf + of_nat (k * 512)) s = Ret s1" "P (Suc k) s1"
    using assms(4)[OF k Suc.prems(2)] by (auto simp: returns_iff)
  have step: "of_nat (k * 512) + 512 = (of_nat (Suc k * 512) :: u32)" by simp
  have "returns (P nsecs) (sector_loop f (of_nat (secno * 512)) ?stop (of_nat (Suc k * 512)) buf s1)"
    using Suc.hyps(2) k s1(2) by (intro Suc.hyps(1)) simp_all
  then show ?case
    using less far by (subst sector_loop.simps) (simp only: pos s1(1) obind.simps step if_True if_False)
qed

lemma legal_regs:
  "\<not> is_illegal_dev_pa (DEV_DISK_ADDRESS + DEV_DISK_ID) 4" "\<not> is_illegal_dev_pa (DEV_DISK_ADDRESS + DEV_DISK_OFFSET) 4"
  "\<not> is_illegal_dev_pa (DEV_DISK_ADDRESS + DEV_DISK_START_OPERATION) 4" "\<not> is_illegal_dev_pa (DEV_DISK_ADDRESS + DEV_DISK_STATUS) 4"
  "\<not> is_illegal_dev_pa (DEV_DISK_ADDRESS + DEV_DISK_BUFFER) 512"
  by (simp_all add: is_illegal_dev_pa_def)

lemma disk_deviceD:
  assumes "disk_device dw dr diskid offs buf sect n"
  shows "diskid (dw (DEV_DISK_ADDRESS + DEV_DISK_ID) (word_bytes w) d) = w" "offs (dw (DEV_DISK_ADDRESS + DEV_DISK_ID) (word_bytes w) d) = offs d"
    "buf (dw (DEV_DISK_ADDRESS + DEV_DISK_ID) (word_bytes w) d) = buf d" "sect (dw (DEV_DISK_ADDRESS + DEV_DISK_ID) (word_bytes w) d) = sect d"
    "diskid (dw (DEV_DISK_ADDRESS + DEV_DISK_OFFSET) (word_bytes w) d) = diskid d" "offs (dw (DEV_DISK_ADDRESS + DEV_DISK_OFFSET) (word_bytes w) d) = w"
    "buf (dw (DEV_DISK_ADDRESS + DEV_DISK_OFFSET) (word_bytes w) d) = buf d" "sect (dw (DEV_DISK_ADDRESS + DEV_DISK_OFFSET) (word_bytes w) d) = sect d"
    "length bs = 512 \<Longrightarrow> diskid (dw (DEV_DISK_ADDRESS + DEV_DISK_BUFFER) bs d) = diskid d"
    "length bs = 512 \<Longrightarrow> offs (dw (DEV_DISK_ADDRESS + DEV_DISK_BUFFER) bs d) = offs d"
    "length bs = 512 \<Longrightarrow> buf (dw (DEV_DISK_ADDRESS + DEV_DISK_BUFFER) bs d) = bs"
    "length bs = 512 \<Longrightarrow> sect (dw (DEV_DISK_ADDRESS + DEV_DISK_BUFFER) bs d) = sect d"
    "dr (DEV_DISK_ADDRESS + DEV_DISK_BUFFER) 512 d = buf d" "i < n \<Longrightarrow> length (sect d i) = 512"
  using assms unfolding disk_device_def Let_def by blast+

lemma disk_operation:
  assumes "disk_device dw dr diskid offs buf sect n" and "i < n" and "diskid d = 0" and "unat (offs d) = i * 512"
  shows "let d' = dw (DEV_DISK_ADDRESS + DEV_DISK_START_OPERATION) (word_bytes DEV_DISK_OPERATION_READ) d in
      buf d' = sect d i \<and> sect d' = sect d \<and> word_at (\<lambda>k. dr (DEV_DISK_ADDRESS + DEV_DISK_STATUS) 4 d' ! k) 0 \<noteq> 0"
    and "let d' = dw (DEV_DISK_ADDRESS + DEV_DISK_START_OPERATION) (word_bytes DEV_DISK_OPERATION_WRITE) d in
      sect d' = (sect d)(i := buf d) \<and> word_at (\<lambda>k. dr (DEV_DISK_ADDRESS + DEV_DISK_STATUS) 4 d' ! k) 0 \<noteq> 0"
  using assms unfolding disk_device_def by blast+

lemma read_sector_ok:
  assumes dev: "disk_device dw dr diskid offs buf sect n" and i: "i < n" and pos: "unat pos = i * 512" and legal: "\<not> is_illegal_va_range dst 512"
  shows "returns (\<lambda>(m', d'). m' = store_at dst (sect d i) m \<and> sect d' = sect d) (read_sector dw dr 0 pos dst (m, d))"
proof -
  define d1 where "d1 = dw (DEV_DISK_ADDRESS + DEV_DISK_ID) (word_bytes 0) d"
  define d2 where "d2 = dw (DEV_DISK_ADDRESS + DEV_DISK_OFFSET) (word_bytes pos) d1"
  define d3 where "d3 = dw (DEV_DISK_ADDRESS + DEV_DISK_START_OPERATION) (word_bytes DEV_DISK_OPERATION_READ) d2"
  note D = disk_deviceD[OF dev]
  have d2: "diskid d2 = 0" "unat (offs d2) = i * 512" "sect d2 = sect d"
    unfolding d2_def d1_def using D(1,4,5,6,8) pos by (simp_all del: add_0_right)
  from disk_operation(1)[OF dev i d2(1,2)] have d3: "buf d3 = sect d i" "sect d3 = sect d"
    and status: "word_at (\<lambda>k. dr (DEV_DISK_ADDRESS + DEV_DISK_STATUS) 4 d3 ! k) 0 \<noteq> 0"
    unfolding Let_def d3_def[symmetric] d2(3) by blast+
  have "read_sector dw dr 0 pos dst (m, d) = Ret (store_at dst (sect d i) m, d3)"
    unfolding read_sector_def write_reg_def read_reg_def read_buf_def prod.case d1_def[symmetric]
    using legal_regs legal status by (simp only: if_False obind.simps prod.case d2_def[symmetric] d3_def[symmetric] D(13) d3(1) simp_thms if_False)
  then show ?thesis using d3(2) by simp
qed

lemma write_sector_ok:
  assumes dev: "disk_device dw dr diskid offs buf sect n" and i: "i < n" and pos: "unat pos = i * 512" and legal: "\<not> is_illegal_va_range src 512"
  shows "returns (\<lambda>(m', d'). m' = m \<and> sect d' = (sect d)(i := load_from src 512 m)) (write_sector dw dr 0 pos src (m, d))"
proof -
  define d1 where "d1 = dw (DEV_DISK_ADDRESS + DEV_DISK_ID) (word_bytes 0) d"
  define d2 where "d2 = dw (DEV_DISK_ADDRESS + DEV_DISK_OFFSET) (word_bytes pos) d1"
  define d3 where "d3 = dw (DEV_DISK_ADDRESS + DEV_DISK_BUFFER) (load_from src 512 m) d2"
  define d4 where "d4 = dw (DEV_DISK_ADDRESS + DEV_DISK_START_OPERATION) (word_bytes DEV_DISK_OPERATION_WRITE) d3"
  note D = disk_deviceD[OF dev]
  have len: "length (load_from src 512 m) = 512" by (simp add: load_from_def)
  have d2: "diskid d2 = 0" "unat (offs d2) = i * 512" "sect d2 = sect d"
    unfolding d2_def d1_def using D(1,4,5,6,8) pos by (simp_all del: add_0_right)
  have d3: "diskid d3 = 0" "unat (offs d3) = i * 512" "sect d3 = sect d" "buf d3 = load_from src 512 m"
    unfolding d3_def D(9)[OF len] D(10)[OF len] D(11)[OF len] D(12)[OF len] by (rule d2 refl)+
  from disk_operation(2)[OF dev i d3(1,2)] have d4: "sect d4 = (sect d)(i := load_from src 512 m)"
    and status: "word_at (\<lambda>k. dr (DEV_DISK_ADDRESS + DEV_DISK_STATUS) 4 d4 ! k) 0 \<noteq> 0"
    unfolding Let_def d4_def[symmetric] d3(3,4) by blast+
  have "write_sector dw dr 0 pos src (m, d) = Ret (m, d4)"
    unfolding write_sector_def write_reg_def read_reg_def write_buf_def prod.case d1_def[symmetric]
    using legal_regs legal status by (simp only: if_False obind.simps prod.case d2_def[symmetric] d3_def[symmetric] d4_def[symmetric] simp_thms)
  then show ?thesis using d4 by simp
qed

lemma unat_sub_of_nat:
  fixes y :: u32
  assumes "n < 2 ^ 32"
  shows "unat (y - of_nat n) = (if n \<le> unat y then unat y - n else unat y + 2 ^ 32 - n)"
proof -
  have n: "unat (of_nat n :: u32) = n" using assms by (simp add: unsigned_of_nat take_bit_nat_eq_self)
  show ?thesis unfolding unat_sub_if' n by simp
qed

lemma nth_append_shifted:
  assumes "length cs + length bs < (2 :: nat) ^ 32"
  shows "(if (if length cs \<le> U then U - length cs else U + 2 ^ 32 - length cs) < length bs
       then bs ! (if length cs \<le> U then U - length cs else U + 2 ^ 32 - length cs) else if U < length cs then cs ! U else z)
     = (if U < length (cs @ bs) then (cs @ bs) ! U else z)"
proof (cases "length cs \<le> U")
  case True
  then show ?thesis by (simp add: nth_append less_diff_conv2 add.commute)
next
  case False
  moreover have "\<not> U + 2 ^ 32 - length cs < length bs" using assms by simp
  ultimately show ?thesis by (simp only: if_False nth_append) simp
qed

lemma store_at_append:
  assumes "length cs + length bs < 2 ^ 32"
  shows "store_at (a + of_nat (length cs)) bs (store_at a cs m) = store_at a (cs @ bs) m"
proof
  fix x
  have n: "length cs < 2 ^ 32" using assms by simp
  show "store_at (a + of_nat (length cs)) bs (store_at a cs m) x = store_at a (cs @ bs) m x"
    unfolding store_at_def diff_diff_eq[symmetric] unat_sub_of_nat[OF n] by (rule nth_append_shifted[OF assms])
qed

lemma length_sectors:
  "disk_device dw dr diskid offs buf sect n \<Longrightarrow> j \<le> n \<Longrightarrow> length (concat (map (sect d) [i..<j])) = (j - i) * 512"
proof (induction "j - i" arbitrary: i)
  case (Suc x)
  have "i < j" using Suc.hyps(2) by simp
  then show ?case using Suc.hyps(1)[of "Suc i"] Suc.hyps(2) Suc.prems disk_deviceD(14)[OF Suc.prems(1), of i d]
    by (simp add: upt_conv_Cons)
qed simp

lemma legal_buffer:
  assumes "UTEMP \<le> va" and "unat va + size' \<le> unat UTOP" and "k * 512 + 512 \<le> size'"
  shows "\<not> is_illegal_va_range (va + of_nat (k * 512)) 512"
proof -
  have k: "unat (of_nat (k * 512) :: u32) = k * 512" using assms(2,3) by (simp add: unsigned_of_nat take_bit_nat_eq_self del: of_nat_mult)
  let ?a = "va + of_nat (k * 512)"
  have a: "unat ?a = unat va + k * 512" using k assms(2,3) by (subst unat_word_ariths) simp
  moreover have "unat (?a + 512) = unat va + k * 512 + 512" using a assms(2,3) by (subst unat_word_ariths) simp
  moreover have "unat UTEMP \<le> unat va" using assms(1) by (simp only: word_le_nat_alt)
  ultimately show ?thesis using assms(2,3) unfolding is_illegal_va_range_def word_less_nat_alt by simp
qed

lemma sector_range:
  fixes secno nsecs :: u32
  shows "secno * BY2SECT = of_nat (unat secno * 512)" "secno * BY2SECT + nsecs * BY2SECT = of_nat ((unat secno + unat nsecs) * 512)"
    "(0 :: u32) = of_nat (0 * 512)"
  by (simp_all add: algebra_simps)

lemma ide_read_ok:
  assumes dev: "disk_device dw dr diskid offs buf sect n" and fit: "unat secno + unat nsecs \<le> n" "n * 512 < 2 ^ 32"
    and va: "UTEMP \<le> dst" "unat dst + unat nsecs * 512 \<le> unat UTOP"
  shows "returns (\<lambda>(m', d'). m' = store_at dst (concat (map (sect d) [unat secno..<unat secno + unat nsecs])) m \<and> sect d' = sect d)
    (ide_read dw dr 0 secno dst nsecs (m, d))"
proof -
  let ?P = "\<lambda>k (m', d'). m' = store_at dst (concat (map (sect d) [unat secno..<unat secno + k])) m \<and> sect d' = sect d"
  have bound: "(unat secno + unat nsecs) * 512 < 2 ^ 32" using fit by simp
  have step: "returns (?P (Suc k)) (read_sector dw dr 0 (of_nat ((unat secno + k) * 512)) (dst + of_nat (k * 512)) s)"
    if k: "k < unat nsecs" and P: "?P k s" for k s
  proof -
    obtain m1 d1 where s: "s = (m1, d1)" by (cases s)
    let ?cs = "concat (map (sect d) [unat secno..<unat secno + k])"
    have i: "unat secno + k < n" and pos: "unat (of_nat ((unat secno + k) * 512) :: u32) = (unat secno + k) * 512"
      and leg: "\<not> is_illegal_va_range (dst + of_nat (k * 512)) 512"
      using k fit legal_buffer[OF va, of k] by (simp_all add: unsigned_of_nat take_bit_nat_eq_self del: of_nat_mult of_nat_add)
    have len: "length ?cs = k * 512" using length_sectors[OF dev, of "unat secno + k" d "unat secno"] i by simp
    have "length ?cs + length (sect d (unat secno + k)) < 2 ^ 32" using len disk_deviceD(14)[OF dev i, of d] bound k by simp
    note app = store_at_append[OF this, of dst m, unfolded len]
    have "store_at (dst + of_nat (k * 512)) (sect d1 (unat secno + k)) m1 =
        store_at dst (concat (map (sect d) [unat secno..<unat secno + Suc k])) m"
      using P app by (simp add: s)
    then show ?thesis
      unfolding s using read_sector_ok[OF dev i pos leg, of d1 m1] P by (auto simp: s elim!: returns_mono2)
  qed
  have "?P 0 (m, d)" by (simp add: store_at_def)
  from sector_loop_ok[where P = ?P and k = 0, OF bound _ this step] show ?thesis
    unfolding ide_read_def Let_def sector_range by simp
qed

lemma ide_write_ok:
  assumes dev: "disk_device dw dr diskid offs buf sect n" and fit: "unat secno + unat nsecs \<le> n" "n * 512 < 2 ^ 32"
    and va: "UTEMP \<le> src" "unat src + unat nsecs * 512 \<le> unat UTOP"
  shows "returns (\<lambda>(m', d'). m' = m \<and> sect d' = (\<lambda>i. if unat secno \<le> i \<and> i < unat secno + unat nsecs
       then load_from (src + of_nat ((i - unat secno) * 512)) 512 m else sect d i))
    (ide_write dw dr 0 secno src nsecs (m, d))"
proof -
  let ?P = "\<lambda>k (m', d'). m' = m \<and> sect d' = (\<lambda>i. if unat secno \<le> i \<and> i < unat secno + k
       then load_from (src + of_nat ((i - unat secno) * 512)) 512 m else sect d i)"
  have bound: "(unat secno + unat nsecs) * 512 < 2 ^ 32" using fit by simp
  have step: "returns (?P (Suc k)) (write_sector dw dr 0 (of_nat ((unat secno + k) * 512)) (src + of_nat (k * 512)) s)"
    if k: "k < unat nsecs" and P: "?P k s" for k s
  proof -
    obtain m1 d1 where s: "s = (m1, d1)" by (cases s)
    have i: "unat secno + k < n" and pos: "unat (of_nat ((unat secno + k) * 512) :: u32) = (unat secno + k) * 512"
      and leg: "\<not> is_illegal_va_range (src + of_nat (k * 512)) 512"
      using k fit legal_buffer[OF va, of k] by (simp_all add: unsigned_of_nat take_bit_nat_eq_self del: of_nat_mult of_nat_add)
    have m1: "m1 = m" and d1: "sect d1 = (\<lambda>i. if unat secno \<le> i \<and> i < unat secno + k
         then load_from (src + of_nat ((i - unat secno) * 512)) 512 m else sect d i)" using P by (simp_all add: s)
    show ?thesis unfolding s
      by (rule returns_mono2[OF write_sector_ok[OF dev i pos leg, of m1 d1]]) (auto simp: m1 d1 fun_eq_iff)
  qed
  have "?P 0 (m, d)" by (auto simp: fun_eq_iff)
  from sector_loop_ok[where P = ?P and k = 0, OF bound _ this step] show ?thesis
    unfolding ide_write_def Let_def sector_range by simp
qed

section \<open>Property\<close>

text \<open>The bytes of block \<open>b\<close> of the disk, and those of the memory from \<open>va\<close> on.\<close>

definition block_bytes :: "(nat \<Rightarrow> u8 list) \<Rightarrow> nat \<Rightarrow> nat \<Rightarrow> u8" where
  "block_bytes S b k = S (8 * b + k div 512) ! (k mod 512)"

definition mem_bytes :: "(u32 \<Rightarrow> u8) \<Rightarrow> u32 \<Rightarrow> nat \<Rightarrow> u8" where
  "mem_bytes m va k = m (va + of_nat k)"

lemma concat_nth:
  assumes "\<And>x. x \<in> set xs \<Longrightarrow> length x = l" and "q < length xs" and "r < l"
  shows "concat xs ! (q * l + r) = xs ! q ! r"
  using assms
proof (induction xs arbitrary: q)
  case (Cons x xs)
  show ?case
  proof (cases q)
    case 0
    then show ?thesis using Cons.prems(1)[of x] Cons.prems(3) by (simp add: nth_append)
  next
    case (Suc q')
    then have "concat (x # xs) ! (q * l + r) = concat xs ! (q' * l + r)"
      using Cons.prems(1)[of x] by (simp add: nth_append)
    then show ?thesis using Cons.IH[of q'] Cons.prems Suc by simp
  qed
qed simp

lemma word_at_cong: "(\<And>k. k < 4096 \<Longrightarrow> f k = g k) \<Longrightarrow> i < 1024 \<Longrightarrow> word_at f i = word_at g i"
  by (simp add: word_at_def)

lemma store_at_byte:
  assumes "k < length bs" and "length bs < 2 ^ 32"
  shows "store_at a bs m (a + of_nat k) = bs ! k"
proof -
  have "unat (of_nat k :: u32) = k" using assms by (simp add: unsigned_of_nat take_bit_nat_eq_self)
  then show ?thesis using assms(1) by (simp add: store_at_def)
qed

lemma store_at_outside: "length bs \<le> unat (x - a) \<Longrightarrow> store_at a bs m x = m x"
  by (simp add: store_at_def)

lemma block_read:
  assumes dev: "disk_device dw dr diskid offs buf sect n" and b: "8 * b + 8 \<le> n" and k: "k < 4096"
  shows "store_at va (concat (map (sect d) [8 * b..<8 * b + 8])) m (va + of_nat k) = block_bytes (sect d) b k"
proof -
  let ?xs = "map (sect d) [8 * b..<8 * b + 8]"
  have len: "length (concat ?xs) = 4096" using length_sectors[OF dev b, of d "8 * b"] by simp
  have l: "length x = 512" if "x \<in> set ?xs" for x using that disk_deviceD(14)[OF dev] b by auto
  have q: "k div 512 < length ?xs" "k mod 512 < 512" using k by simp_all
  have "concat ?xs ! k = ?xs ! (k div 512) ! (k mod 512)" using concat_nth[OF l q] by simp
  then show ?thesis using store_at_byte[of k "concat ?xs" va m] len k q(1) by (simp add: block_bytes_def del: upt_Suc)
qed

lemma block_write:
  assumes "k < 4096" and "\<And>i. S' i = (if 8 * b \<le> i \<and> i < 8 * b + 8 then load_from (va + of_nat ((i - 8 * b) * 512)) 512 m else S i)"
  shows "block_bytes S' b k = mem_bytes m va k" and "b' \<noteq> b \<Longrightarrow> block_bytes S' b' k = block_bytes S b' k"
proof -
  have q: "k div 512 < 8" using assms(1) by simp
  have "of_nat (k div 512 * 512) + of_nat (k mod 512) = (of_nat k :: u32)"
    by (metis div_mult_mod_eq of_nat_add)
  then show "block_bytes S' b k = mem_bytes m va k"
    using q by (simp add: block_bytes_def mem_bytes_def assms(2) load_from_def add.assoc)
  show "block_bytes S' b' k = block_bytes S b' k" if "b' \<noteq> b"
    using that q by (simp add: block_bytes_def assms(2)) linarith
qed

text \<open>
  C36. The calls that \<open>fs.c\<close> makes transfer whole blocks, on every device that satisfies \<open>disk_device\<close>:
  \<open>ide_read\<close> of block \<open>b\<close> puts exactly its 1024 words at \<open>va\<close> and leaves all other memory and the disk as they were, and
  \<open>ide_write\<close> makes block \<open>b\<close> equal to the words at \<open>va\<close> and leaves every other block and the memory as they
  were.  Neither panics.
\<close>

theorem ide_transfers_blocks:
  assumes "disk_device dw dr diskid offs buf sect n" and "n * 512 < 2 ^ 32" and "8 * b + 8 \<le> n"
    and "UTEMP \<le> va" and "unat va + 4096 \<le> unat UTOP"
  shows "returns (\<lambda>(m', d'). sect d' = sect d \<and> (\<forall>i<1024. word_at (mem_bytes m' va) i = word_at (block_bytes (sect d) b) i) \<and>
        (\<forall>x. 4096 \<le> unat (x - va) \<longrightarrow> m' x = m x)) (ide_read dw dr 0 (of_nat b * SECT2BLK) va SECT2BLK (m, d))
    \<and> returns (\<lambda>(m', d'). m' = m \<and> (\<forall>b'. \<forall>i<1024. word_at (block_bytes (sect d') b') i =
          (if b' = b then word_at (mem_bytes m va) i else word_at (block_bytes (sect d) b') i)))
        (ide_write dw dr 0 (of_nat b * SECT2BLK) va SECT2BLK (m, d))"
proof
  have b: "unat (of_nat b * SECT2BLK) = 8 * b"
  proof -
    have "(of_nat b * SECT2BLK :: u32) = of_nat (8 * b)" by (simp add: mult.commute)
    then show ?thesis using assms(2,3) by (simp add: unsigned_of_nat take_bit_nat_eq_self del: of_nat_mult)
  qed
  have fit: "unat (of_nat b * SECT2BLK) + unat SECT2BLK \<le> n" and va: "unat va + unat SECT2BLK * 512 \<le> unat UTOP"
    unfolding b using assms(3,5) by simp_all
  have "length (concat (map (sect d) [8 * b..<8 * b + 8])) = 4096" using length_sectors[OF assms(1,3), of d "8 * b"] by simp
  then show "returns (\<lambda>(m', d'). sect d' = sect d \<and> (\<forall>i<1024. word_at (mem_bytes m' va) i = word_at (block_bytes (sect d) b) i) \<and>
        (\<forall>x. 4096 \<le> unat (x - va) \<longrightarrow> m' x = m x)) (ide_read dw dr 0 (of_nat b * SECT2BLK) va SECT2BLK (m, d))"
    by (intro returns_mono2[OF ide_read_ok[OF assms(1) fit assms(2,4) va]])
      (auto simp: b mem_bytes_def block_read[OF assms(1,3)] store_at_outside simp del: upt_Suc intro!: word_at_cong)
  show "returns (\<lambda>(m', d'). m' = m \<and> (\<forall>b'. \<forall>i<1024. word_at (block_bytes (sect d') b') i =
          (if b' = b then word_at (mem_bytes m va) i else word_at (block_bytes (sect d) b') i)))
        (ide_write dw dr 0 (of_nat b * SECT2BLK) va SECT2BLK (m, d))"
  proof (rule returns_mono2[OF ide_write_ok[OF assms(1) fit assms(2,4) va]], unfold b, elim conjE, intro conjI allI impI)
    fix m' d' b' and i :: nat
    assume i: "i < 1024" and d': "sect d' = (\<lambda>i. if 8 * b \<le> i \<and> i < 8 * b + unat SECT2BLK
       then load_from (va + of_nat ((i - 8 * b) * 512)) 512 m else sect d i)"
    have S: "sect d' j = (if 8 * b \<le> j \<and> j < 8 * b + 8 then load_from (va + of_nat ((j - 8 * b) * 512)) 512 m else sect d j)" for j
      unfolding d' by simp
    show "word_at (block_bytes (sect d') b') i = (if b' = b then word_at (mem_bytes m va) i else word_at (block_bytes (sect d) b') i)"
      using block_write(1)[OF _ S] block_write(2)[OF _ S, of _ b'] i by (auto intro!: word_at_cong)
  qed
qed

text \<open>A device of the documented behaviour: two registers, the buffer and the sectors, and a status that is always 1.\<close>

type_synonym sample_disk = "u32 \<times> u32 \<times> (nat \<Rightarrow> u8) \<times> (nat \<Rightarrow> nat \<Rightarrow> u8)"

definition sample_write :: "sample_disk dev_write" where
  "sample_write pa bs = (\<lambda>(i, off, b, S).
     if pa = DEV_DISK_ADDRESS + DEV_DISK_ID then (word_at ((!) bs) 0, off, b, S)
     else if pa = DEV_DISK_ADDRESS + DEV_DISK_OFFSET then (i, word_at ((!) bs) 0, b, S)
     else if pa = DEV_DISK_ADDRESS + DEV_DISK_BUFFER then (i, off, (!) bs, S)
     else if pa = DEV_DISK_ADDRESS + DEV_DISK_START_OPERATION
     then if word_at ((!) bs) 0 = DEV_DISK_OPERATION_READ then (i, off, S (unat off div 512), S)
       else (i, off, b, S(unat off div 512 := b))
     else (i, off, b, S))"

definition sample_read :: "sample_disk dev_read" where
  "sample_read pa n = (\<lambda>(i, off, b, S). if pa = DEV_DISK_ADDRESS + DEV_DISK_BUFFER then map b [0..<n] else word_bytes 1)"

definition sample_sectors :: "sample_disk \<Rightarrow> nat \<Rightarrow> u8 list" where
  "sample_sectors d i = map (snd (snd (snd d)) i) [0..<512]"

definition sample_disk_0 :: sample_disk where
  "sample_disk_0 = (1, 0, \<lambda>k. 0, \<lambda>i k. of_nat (i + k))"

lemma word_at_word_bytes: "word_at ((!) (word_bytes w)) 0 = w"
proof (rule bit_word_eqI)
  fix n
  assume "n < LENGTH(32)"
  then consider "n < 8" | "8 \<le> n" "n < 16" | "16 \<le> n" "n < 24" | "24 \<le> n" "n < 32" by fastforce
  then show "bit (word_at ((!) (word_bytes w)) 0) n = bit w n"
    by cases (auto simp: word_at_def word_bytes_def bit_simps)
qed

lemma sample_disk_device:
  "disk_device sample_write sample_read fst (\<lambda>d. fst (snd d)) (\<lambda>d. map (fst (snd (snd d))) [0..<512])
     sample_sectors n"
  unfolding disk_device_def
proof (intro conjI allI impI)
  fix bs :: "u8 list" and d
  assume "length bs = 512"
  then show "let d' = sample_write (DEV_DISK_ADDRESS + DEV_DISK_BUFFER) bs d in
       fst d' = fst d \<and> fst (snd d') = fst (snd d) \<and> map (fst (snd (snd d'))) [0..<512] = bs \<and>
       sample_sectors d' = sample_sectors d"
    using map_nth[of bs] by (cases d) (simp add: sample_write_def sample_sectors_def fun_eq_iff)
qed (auto simp: sample_sectors_def sample_write_def sample_read_def word_at_word_bytes fun_eq_iff split: prod.splits)

theorem ide_transfers_blocks_witness:
  "returns (\<lambda>(m', d'). sample_sectors d' = sample_sectors sample_disk_0 \<and> (\<forall>i<1024. word_at (mem_bytes m' 0x10001000) i = word_at (block_bytes (sample_sectors sample_disk_0) 1) i) \<and>
        (\<forall>x. 4096 \<le> unat (x - 0x10001000) \<longrightarrow> m' x = ucast x)) (ide_read sample_write sample_read 0 (of_nat 1 * SECT2BLK) 0x10001000 SECT2BLK (\<lambda>x. ucast x, sample_disk_0))
    \<and> returns (\<lambda>(m', d'). m' = (\<lambda>x. ucast x) \<and> (\<forall>b'. \<forall>i<1024. word_at (block_bytes (sample_sectors d') b') i =
          (if b' = 1 then word_at (mem_bytes (\<lambda>x. ucast x) 0x10001000) i else word_at (block_bytes (sample_sectors sample_disk_0) b') i)))
        (ide_write sample_write sample_read 0 (of_nat 1 * SECT2BLK) 0x10001000 SECT2BLK (\<lambda>x. ucast x, sample_disk_0))"
  by (rule ide_transfers_blocks[OF sample_disk_device[of 64]]) simp_all

end
