(* ===== verification/Mos_Vars.thy ===== *)
theory Mos_Vars
  imports Mos_Isolation
begin

text \<open>
  The shell variables of the kernel, \<open>sys_declare_var\<close> and \<open>sys_unset_var\<close> of \<open>kern/syscall_all.c\<close>: names and values are
  read from the memory of the caller, the entry is the one with the name that the caller's shell may see, or the first empty one,
  and a read-only entry is left alone.
\<close>

section \<open>What a call leaves alone\<close>

text \<open>The kernel's accesses to user memory change nothing beyond memory and TLB, whether or not the state is well formed.\<close>

lemma more_tlb_update [simp]: "pmap_state.more (s\<lparr>tlb := x\<rparr>) = pmap_state.more s"
  by (cases s) simp

lemma more_mem_ops [simp]:
  "pmap_state.more (incr_ref p s) = pmap_state.more s" "pmap_state.more (poke q v s) = pmap_state.more s"
  "pmap_state.more (tlb_invalidate a va s) = pmap_state.more s"
  by (cases s, simp add: incr_ref_def poke_def tlb_invalidate_def tlb_out_def)+

lemma page_alloc_more: "page_alloc s = Ret (r, s') \<Longrightarrow> pmap_state.more s' = pmap_state.more s"
  by (cases s) (auto simp: page_alloc_def outcome_simps split: list.splits)

lemma pgdir_walk_more: "pgdir_walk d va create s = Ret (r, s') \<Longrightarrow> pmap_state.more s' = pmap_state.more s"
  using page_alloc_more[of s] by (auto simp: pgdir_walk_def Let_def outcome_simps split: if_splits)

lemma page_decref_more: "page_decref pp s = Ret s' \<Longrightarrow> pmap_state.more s' = pmap_state.more s"
  by (cases s) (auto simp: page_decref_def page_free_def Let_def outcome_simps split: if_splits)

lemma page_remove_more: "page_remove d asid va s = Ret s' \<Longrightarrow> pmap_state.more s' = pmap_state.more s"
  by (auto simp: page_remove_def Let_def outcome_simps page_decref_more split: option.splits)

lemma page_insert_finish_more: "page_insert_finish d asid pp va perm s = Ret (r, s') \<Longrightarrow> pmap_state.more s' = pmap_state.more s"
  using pgdir_walk_more[of d va True "tlb_invalidate asid va s"]
  by (auto simp: page_insert_finish_def Let_def outcome_simps split: option.splits)

lemma page_insert_more:
  assumes "page_insert d asid pp va perm s = Ret (r, s')"
  shows "pmap_state.more s' = pmap_state.more s"
proof -
  from assms obtain r1 s1 where w: "pgdir_walk d va False s = Ret (r1, s1)" by (auto simp: page_insert_def outcome_simps)
  note m = pgdir_walk_more[OF w]
  show ?thesis using assms w m
    by (auto simp: page_insert_def Let_def outcome_simps page_insert_finish_more page_remove_more
        split: sum.splits option.splits if_splits)
qed

lemma passive_alloc_more:
  assumes "passive_alloc va d asid s = Ret s'"
  shows "pmap_state.more s' = pmap_state.more s"
proof -
  from assms obtain r s1 where r: "page_alloc s = Ret (r, s1)"
    unfolding passive_alloc_def by (cases "page_alloc s") (auto split: if_splits)
  from assms r obtain p where p: "r = Inr p" unfolding passive_alloc_def by (cases r) (auto split: if_splits)
  obtain r2 where "page_insert d asid p (PTE_ADDR va) PTE_D s1 = Ret (r2, s')"
  proof (cases "page_insert d asid p (PTE_ADDR va) PTE_D s1")
    case (Ret x)
    obtain r2 s2 where x: "x = (r2, s2)" by (cases x)
    show ?thesis using that assms r p Ret x unfolding passive_alloc_def by (cases r2) (auto split: if_splits)
  qed (use assms r p in \<open>auto simp: passive_alloc_def split: if_splits\<close>)
  from page_insert_more[OF this] page_alloc_more[OF r] show ?thesis by simp
qed

lemma refill_loop_more: "do_tlb_refill_loop n va asid s = Ret (e, s') \<Longrightarrow> pmap_state.more s' = pmap_state.more s"
proof (induction n arbitrary: s)
  case (Suc n)
  show ?case
  proof (cases "page_lookup (cur_pgdir s) va s")
    case (Ret r)
    show ?thesis
    proof (cases r)
      case None
      show ?thesis
      proof (cases "passive_alloc va (cur_pgdir s) asid s")
        case p: (Ret s1)
        then have "do_tlb_refill_loop n va asid s1 = Ret (e, s')" using Suc.prems Ret None by simp
        from Suc.IH[OF this] passive_alloc_more[OF p] show ?thesis by simp
      qed (use Suc.prems Ret None in simp_all)
    next
      case (Some q)
      with Suc.prems Ret show ?thesis by (cases q) simp
    qed
  qed (use Suc.prems in simp_all)
qed simp

lemma do_tlb_refill_more: "do_tlb_refill va s = Ret (e, s') \<Longrightarrow> pmap_state.more s' = pmap_state.more s"
  by (auto simp: do_tlb_refill_def do_tlb_refill_c_def Let_def outcome_simps refill_loop_more)

lemma user_get8_more: "user_get8 va s = Ret (b, s') \<Longrightarrow> pmap_state.more s' = pmap_state.more s"
  by (auto simp: user_get8_def outcome_simps do_tlb_refill_more split: if_splits)

lemma user_strcmp_more: "user_strcmp ps va s = Ret (r, s') \<Longrightarrow> pmap_state.more s' = pmap_state.more s"
proof (induction ps arbitrary: va s)
  case (Cons p ps)
  then obtain b s1 where b: "user_get8 va s = Ret (b, s1)" by (auto simp: outcome_simps)
  show ?case using Cons b user_get8_more[OF b] by (auto simp: Let_def split: if_splits)
qed simp

lemma strcpy_from_user_more: "strcpy_from_user dst va s = Ret (r, s') \<Longrightarrow> pmap_state.more s' = pmap_state.more s"
proof (induction dst arbitrary: va s r s')
  case (Cons d dst)
  then obtain b s1 where b: "user_get8 va s = Ret (b, s1)" by (auto simp: outcome_simps)
  show ?case
  proof (cases "b = 0")
    case True
    with Cons.prems b user_get8_more[OF b] show ?thesis by simp
  next
    case False
    with Cons.prems b obtain r2 where "strcpy_from_user dst (va + 1) s1 = Ret (r2, s')" by (auto simp: outcome_simps)
    from Cons.IH[OF this] show ?thesis using user_get8_more[OF b] by simp
  qed
qed simp

lemma checkVar_from_more:
  "checkVar_from is f c va nf s = Ret (r, s') \<Longrightarrow> pmap_state.more s' = pmap_state.more s"
proof (induction "is" arbitrary: f s)
  case (Cons i "is")
  show ?case
  proof (cases "hd (var_name (vars s i)) = NUL")
    case True
    with Cons.prems show ?thesis by (auto intro: Cons.IH)
  next
    case False
    with Cons.prems obtain x s1 where x: "user_strcmp (var_name (vars s i)) va s = Ret (x, s1)" by (auto simp: outcome_simps)
    show ?thesis using Cons.prems x False Cons.IH[of f s1] user_strcmp_more[OF x] by (auto split: if_splits)
  qed
qed simp

text \<open>What depends only on the fields beyond memory is kept by such accesses.\<close>

lemma more_kernel_fields:
  fixes s s' :: "'a kernel_scheme"
  assumes "pmap_state.more s' = pmap_state.more s"
  shows "vars s' = vars s" "nowShellId s' = nowShellId s" "cons_out s' = cons_out s" "cons_in s' = cons_in s" "dev s' = dev s"
  using more_kfields(12)[OF assms] by (cases s; cases s'; simp)+

lemma upd_var_simps [simp]: "vars (upd_var i f s) = (vars s)(i := f (vars s i))"
  by (simp add: upd_var_def)

lemma checkVar_more: "checkVar va nf s = Ret (r, s') \<Longrightarrow> vars s' = vars s"
  using more_kernel_fields(1)[OF checkVar_from_more] by (auto simp: checkVar_def with_cur_def split: option.splits)

lemma declare_changes_one:
  assumes "sys_declare_var varName value perm isGlobal s = Ret (r, s')" and "vars s' i \<noteq> vars s i"
  shows "var_perm (vars s i) AND VAR_RDONLY = 0"
proof -
  from assms(1) obtain k s1 where c: "checkVar varName True s = Ret (k, s1)" by (auto simp: sys_declare_var_def outcome_simps)
  note v1 = checkVar_more[OF c]
  from assms c v1 obtain j where k: "k = Some j" by (cases k) (auto simp: sys_declare_var_def)
  from assms c v1 k have ro: "var_perm (vars s1 j) AND VAR_RDONLY = 0" by (auto simp: sys_declare_var_def split: if_splits)
  from assms(1) c k ro obtain n s2 where n: "strcpy_from_user (var_name (vars s1 j)) varName s1 = Ret (n, s2)"
    by (auto simp: sys_declare_var_def outcome_simps)
  define t where "t = upd_var j (\<lambda>v. v\<lparr>var_name := n\<rparr>) s2"
  from assms(1) c k ro n obtain x s3 where x: "strcpy_from_user (var_value (vars t j)) value t = Ret (x, s3)"
    unfolding t_def by (auto simp: sys_declare_var_def outcome_simps Let_def)
  have v: "vars s2 = vars s" "vars s3 = vars t"
    using more_kernel_fields(1)[OF strcpy_from_user_more[OF n]] more_kernel_fields(1)[OF strcpy_from_user_more[OF x]] v1 by simp_all
  have "vars s' i = vars s i" if "i \<noteq> j"
    using assms(1) c k ro n x[unfolded t_def] v that
    by (auto simp: sys_declare_var_def Let_def with_cur_def t_def split: if_splits option.splits)
  then have "i = j" using assms(2) by blast
  then show ?thesis using ro v1 by simp
qed

lemma unset_changes_one:
  assumes "sys_unset_var varName s = Ret (r, s')" and "vars s' i \<noteq> vars s i"
  shows "var_perm (vars s i) AND VAR_RDONLY = 0"
proof -
  obtain k s1 where c: "checkVar varName False s = Ret (k, s1)" using assms(1) by (auto simp: sys_unset_var_def outcome_simps)
  show ?thesis using assms c checkVar_more[OF c] by (cases k) (auto simp: sys_unset_var_def split: if_splits)
qed

section \<open>Strings in user memory\<close>

text \<open>The string \<open>str\<close> and its terminator lie in mapped memory of the running environment, below \<open>UTOP\<close>.\<close>

definition user_string :: "'a kstate_scheme \<Rightarrow> u32 \<Rightarrow> string \<Rightarrow> bool" where
  "user_string s va str \<longleftrightarrow> NUL \<notin> set str \<and> (\<forall>k\<le>length str. va + of_nat k < UTOP
     \<and> (\<exists>x. vmap s (cur_pgdir s) (va + of_nat k) = Some x
          \<and> byte_char (phys_get s (PPN x * 4096 + unat ((va + of_nat k) AND 0xFFF))) = (str @ [NUL]) ! k))"

lemma user_string_cong: "frames s' = frames s \<Longrightarrow> cur_pgdir s' = cur_pgdir s \<Longrightarrow> user_string s' va str = user_string s va str"
  by (simp add: user_string_def vmap_def phys_get_def)

lemma tlb_kfields [simp]:
  fixes s :: "'a kstate_scheme"
  shows "cur_pgdir (s\<lparr>tlb := t\<rparr>) = cur_pgdir s" "curenv (s\<lparr>tlb := t\<rparr>) = curenv s" "envs (s\<lparr>tlb := t\<rparr>) = envs s"
  by (cases s; simp)+

lemma tlb_vars [simp]: "vars (s\<lparr>tlb := t\<rparr>) = vars s"
  by (cases s) simp

lemma user_string_tlb [simp]: "user_string (s\<lparr>tlb := t\<rparr>) = user_string s"
  by (intro ext user_string_cong) simp_all

lemma of_char_byte_char: "of_char (byte_char b) = unat b"
proof -
  have "unat b < 256" using unsigned_less[of b] by simp
  then show ?thesis by (simp add: byte_char_def)
qed

lemma byte_char_NUL [simp]: "byte_char b = NUL \<longleftrightarrow> b = 0"
proof
  assume "byte_char b = NUL"
  then have "unat b = of_char NUL" using of_char_byte_char[of b] by simp
  then show "b = 0" by (simp add: unat_eq_0)
next
  assume "b = 0"
  moreover have "char_of (of_char NUL :: nat) = NUL" by (rule char_of_char)
  ultimately show "byte_char b = NUL" by (simp add: byte_char_def)
qed

lemma user_get8_mapped:
  assumes "pmap_inv D base s" "cur_pgdir s \<in> D" "va < UTOP" "vmap s (cur_pgdir s) va = Some x"
  shows "\<exists>t. user_get8 va s = Ret (phys_get s (PPN x * 4096 + unat (va AND 0xFFF)), s\<lparr>tlb := t\<rparr>)"
proof -
  have "\<not> ULIM \<le> va" using assms(3) by (simp add: not_le) (rule less_trans, assumption, simp)
  moreover have "do_tlb_refill_c va a s = Ret (x, s)" for a
    unfolding do_tlb_refill_c_def numeral_2_eq_2 by (rule refill_hit[OF assms])
  moreover have "phys_get (s\<lparr>tlb := t\<rparr>) q = phys_get s q" for t q by (simp add: phys_get_def)
  ultimately show ?thesis by (auto simp: user_get8_def do_tlb_refill_def Let_def)
qed

lemma pmap_inv_tlb [simp]: "pmap_inv D base (s\<lparr>tlb := t\<rparr>) = pmap_inv D base s"
  by (rule mem_of_eq) (simp add: mem_of_def)

lemma user_string_Cons:
  assumes "user_string s va (ch # str)"
  shows "user_string s (va + 1) str"
proof -
  have "va + 1 + of_nat k = va + of_nat (Suc k)" for k by (simp add: add.assoc)
  then show ?thesis using assms unfolding user_string_def by (metis (no_types, lifting) Suc_le_mono append_Cons length_Cons list.set_intros(2) nth_Cons_Suc)
qed

lemma user_string_get8:
  assumes "pmap_inv D base s" "cur_pgdir s \<in> D" "user_string s va str"
  shows "\<exists>b t. user_get8 va s = Ret (b, s\<lparr>tlb := t\<rparr>) \<and> byte_char b = hd (str @ [NUL])"
proof -
  obtain x where x: "va < UTOP" "vmap s (cur_pgdir s) va = Some x" "byte_char (phys_get s (PPN x * 4096 + unat (va AND 0xFFF))) = (str @ [NUL]) ! 0"
    using assms(3) unfolding user_string_def by fastforce
  show ?thesis using user_get8_mapped[OF assms(1,2) x(1,2)] x(3) by (auto simp: hd_conv_nth simp flip: One_nat_def)
qed

lemma strcpy_from_user_ok:
  assumes "pmap_inv D base s" "cur_pgdir s \<in> D" "user_string s va str" "length str < length dst"
  shows "\<exists>t. strcpy_from_user dst va s = Ret (str @ NUL # drop (Suc (length str)) dst, s\<lparr>tlb := t\<rparr>)"
  using assms
proof (induction str arbitrary: dst va s)
  case Nil
  obtain b t where b: "user_get8 va s = Ret (b, s\<lparr>tlb := t\<rparr>)" "byte_char b = NUL" using user_string_get8[OF Nil(1-3)] by auto
  obtain d ds where "dst = d # ds" using Nil(4) by (cases dst) auto
  then show ?case using b by auto
next
  case (Cons c str)
  obtain b t where b: "user_get8 va s = Ret (b, s\<lparr>tlb := t\<rparr>)" "byte_char b = c" using user_string_get8[OF Cons.prems(1-3)] by auto
  obtain d ds where d: "dst = d # ds" using Cons.prems(4) by (cases dst) auto
  have "c \<noteq> NUL" using Cons.prems(3) by (auto simp: user_string_def)
  then have nz: "b \<noteq> 0" using b(2) by auto
  obtain t' where "strcpy_from_user ds (va + 1) (s\<lparr>tlb := t\<rparr>) = Ret (str @ NUL # drop (Suc (length str)) ds, s\<lparr>tlb := t\<rparr>\<lparr>tlb := t'\<rparr>)"
    using Cons.IH[of "s\<lparr>tlb := t\<rparr>" "va + 1" ds] user_string_Cons[OF Cons.prems(3)] Cons.prems(1,2,4) d by auto
  then show ?case using b nz d by auto
qed

lemma user_strcmp_ok:
  assumes "pmap_inv D base s" "cur_pgdir s \<in> D" "user_string s va str" "terminated p"
  shows "\<exists>r t. user_strcmp p va s = Ret (r, s\<lparr>tlb := t\<rparr>) \<and> (r = 0 \<longleftrightarrow> cstr p = str)"
  using assms
proof (induction p arbitrary: str va s)
  case (Cons p ps)
  obtain b t where b: "user_get8 va s = Ret (b, s\<lparr>tlb := t\<rparr>)" "byte_char b = hd (str @ [NUL])" using user_string_get8[OF Cons.prems(1-3)] by blast
  have ns: "NUL \<notin> set str" using Cons.prems(3) by (simp add: user_string_def)
  show ?case
  proof (cases "p \<noteq> NUL \<and> p = byte_char b")
    case True
    then obtain str' where str: "str = p # str'" using b(2) by (cases str) auto
    obtain r t' where "user_strcmp ps (va + 1) (s\<lparr>tlb := t\<rparr>) = Ret (r, s\<lparr>tlb := t\<rparr>\<lparr>tlb := t'\<rparr>)" "r = 0 \<longleftrightarrow> cstr ps = str'"
      using Cons.IH[of "s\<lparr>tlb := t\<rparr>" "va + 1" str'] user_string_Cons[OF Cons.prems(3)[unfolded str]] Cons.prems(1,2,4) True by auto
    then show ?thesis using b True str by auto
  next
    case False
    define R :: int where "R = (if (of_char p :: nat) < of_char (byte_char b) then - 1 else if (of_char (byte_char b) :: nat) < of_char p then 1 else 0)"
    have r: "R = 0 \<longleftrightarrow> p = byte_char b"
      unfolding R_def by (auto simp: not_less intro: antisym dest: antisym)
    have run: "user_strcmp (p # ps) va s = Ret (R, s\<lparr>tlb := t\<rparr>)"
      by (simp only: user_strcmp.simps b(1) obind.simps prod.case Let_def if_not_P[OF False] R_def)
    have "p = byte_char b \<longleftrightarrow> cstr (p # ps) = str"
      using False b(2) ns by (cases str) (auto simp del: byte_char_NUL)
    then show ?thesis unfolding run using r by blast
  qed
qed simp


section \<open>The table of variables\<close>

text \<open>Names are terminated within their 128 bytes.  The entry for a name is one that the caller's shell may see, else the first empty one.\<close>

definition vars_ok :: "'a kernel_scheme \<Rightarrow> bool" where
  "vars_ok s \<longleftrightarrow> (\<forall>i<MAXVARNUM. length (var_name (vars s i)) = 128 \<and> terminated (var_name (vars s i)) \<and> length (var_value (vars s i)) = 1024)"

definition var_slot :: "nat \<Rightarrow> string \<Rightarrow> bool \<Rightarrow> 'a kernel_scheme \<Rightarrow> nat option" where
  "var_slot c n needfill s =
     (case find (\<lambda>i. cstr (var_name (vars s i)) = n \<and> n \<noteq> [] \<and> isAllow c i s) [0..<MAXVARNUM] of
        Some i \<Rightarrow> Some i
      | None \<Rightarrow> if needfill then find (\<lambda>i. cstr (var_name (vars s i)) = []) [0..<MAXVARNUM] else None)"

lemma hd_NUL: "terminated b \<Longrightarrow> hd b = NUL \<longleftrightarrow> cstr b = []"
  by (cases b) auto

lemma isAllow_tlb [simp]: "isAllow c i (s\<lparr>tlb := t\<rparr>) = isAllow c i s"
  by (simp add: isAllow_def)

lemma checkVar_from_ok:
  assumes "pmap_inv D base s" "cur_pgdir s \<in> D" "user_string s va n" and "\<forall>i\<in>set is. terminated (var_name (vars s i))"
    and "needfill \<or> fill = None"
  shows "\<exists>t. checkVar_from is fill c va needfill s = Ret
     ((case find (\<lambda>i. cstr (var_name (vars s i)) = n \<and> n \<noteq> [] \<and> isAllow c i s) is of
         Some i \<Rightarrow> Some i
       | None \<Rightarrow> if needfill \<and> fill = None then find (\<lambda>i. cstr (var_name (vars s i)) = []) is else fill), s\<lparr>tlb := t\<rparr>)"
  using assms
proof (induction "is" arbitrary: fill s)
  case Nil
  show ?case by (rule exI[of _ "tlb s"]) (cases fill; simp)
next
  case (Cons i "is")
  have i: "terminated (var_name (vars s i))" and r: "\<forall>i\<in>set is. terminated (var_name (vars s i))" using Cons.prems(4) by simp_all
  show ?case
  proof (cases "cstr (var_name (vars s i)) = []")
    case True
    let ?f = "if needfill \<and> fill = None then Some i else fill"
    have nf: "needfill \<or> ?f = None" using Cons.prems(5) by auto
    obtain t where "checkVar_from is ?f c va needfill s = Ret
       ((case find (\<lambda>i. cstr (var_name (vars s i)) = n \<and> n \<noteq> [] \<and> isAllow c i s) is of Some i \<Rightarrow> Some i
         | None \<Rightarrow> if needfill \<and> ?f = None then find (\<lambda>i. cstr (var_name (vars s i)) = []) is else ?f), s\<lparr>tlb := t\<rparr>)"
      using Cons.IH[OF Cons.prems(1-3) r nf] by blast
    moreover have "checkVar_from (i # is) fill c va needfill s = checkVar_from is ?f c va needfill s"
      using hd_NUL[OF i] True by simp
    moreover have "(if needfill \<and> ?f = None then find (\<lambda>i. cstr (var_name (vars s i)) = []) is else ?f) =
        (if needfill \<and> fill = None then find (\<lambda>i. cstr (var_name (vars s i)) = []) (i # is) else fill)" using True by simp
    moreover have "find (\<lambda>i. cstr (var_name (vars s i)) = n \<and> n \<noteq> [] \<and> isAllow c i s) (i # is) =
        find (\<lambda>i. cstr (var_name (vars s i)) = n \<and> n \<noteq> [] \<and> isAllow c i s) is" using True by auto
    ultimately show ?thesis by (intro exI[of _ t]) (simp only:)
  next
    case False
    obtain x t where x: "user_strcmp (var_name (vars s i)) va s = Ret (x, s\<lparr>tlb := t\<rparr>)" "x = 0 \<longleftrightarrow> cstr (var_name (vars s i)) = n"
      using user_strcmp_ok[OF Cons.prems(1-3) i] by blast
    have run: "checkVar_from (i # is) fill c va needfill s =
        (if x = 0 \<and> isAllow c i s then Ret (Some i, s\<lparr>tlb := t\<rparr>) else checkVar_from is fill c va needfill (s\<lparr>tlb := t\<rparr>))"
      using hd_NUL[OF i] False x(1) by simp
    show ?thesis
    proof (cases "x = 0 \<and> isAllow c i s")
      case True
      then have "cstr (var_name (vars s i)) = n \<and> n \<noteq> [] \<and> isAllow c i s" using x(2) False by auto
      then show ?thesis unfolding run if_P[OF True] by (intro exI[of _ t]) simp
    next
      case no: False
      have P: "pmap_inv D base (s\<lparr>tlb := t\<rparr>)" "cur_pgdir (s\<lparr>tlb := t\<rparr>) \<in> D" "user_string (s\<lparr>tlb := t\<rparr>) va n"
        "\<forall>i\<in>set is. terminated (var_name (vars (s\<lparr>tlb := t\<rparr>) i))" using Cons.prems(1-3) r by simp_all
      obtain t' where t': "checkVar_from is fill c va needfill (s\<lparr>tlb := t\<rparr>) = Ret
         ((case find (\<lambda>i. cstr (var_name (vars s i)) = n \<and> n \<noteq> [] \<and> isAllow c i s) is of Some i \<Rightarrow> Some i
           | None \<Rightarrow> if needfill \<and> fill = None then find (\<lambda>i. cstr (var_name (vars s i)) = []) is else fill), s\<lparr>tlb := t\<rparr>\<lparr>tlb := t'\<rparr>)"
        using Cons.IH[OF P Cons.prems(5)] unfolding tlb_vars isAllow_tlb by blast
      have nm: "\<not> (cstr (var_name (vars s i)) = n \<and> n \<noteq> [] \<and> isAllow c i s)" using no x(2) by blast
      show ?thesis
        unfolding run if_not_P[OF no] t' find.simps if_not_P[OF nm] if_not_P[OF False] by (rule exI[of _ t']) simp
    qed
  qed
qed

lemma checkVar_ok:
  assumes "kinv K s" "curenv s = Some c" "vars_ok s" "user_string s va n"
  shows "\<exists>t. checkVar va needfill s = Ret (var_slot c n needfill s, s\<lparr>tlb := t\<rparr>)"
proof -
  have d: "cur_pgdir s \<in> dirs s" using kinvD(3)[OF assms(1)] assms(2) live_dirs by (auto simp: kcur_ok_def)
  have "\<forall>i\<in>set [0..<MAXVARNUM]. terminated (var_name (vars s i))" using assms(3) by (auto simp: vars_ok_def simp del: upt_rec_numeral)
  from checkVar_from_ok[OF kinvD(1)[OF assms(1)] d assms(4) this, of needfill None c] show ?thesis
    unfolding checkVar_def with_cur_def assms(2) option.case var_slot_def by (cases needfill) (simp_all del: upt_rec_numeral cong: option.case_cong)
qed


lemma var_slot_range: "var_slot c n needfill s = Some i \<Longrightarrow> i < MAXVARNUM"
  by (auto simp: var_slot_def find_Some_iff simp del: upt_rec_numeral split: option.splits if_splits)

lemma kinv_vars: "kinv K s \<Longrightarrow> kinv K (s\<lparr>tlb := t, vars := v\<rparr>)"
  by (rule kinv_frame) (simp_all add: kview_def mem_of_def)

text \<open>What both calls promise: the table stays well formed and no read-only entry changes.\<close>

definition vars_kept :: "(nat \<Rightarrow> nat) \<Rightarrow> 'a kernel_scheme \<Rightarrow> 'a kernel_scheme \<Rightarrow> bool" where
  "vars_kept K s s' \<longleftrightarrow> kinv K s' \<and> vars_ok s' \<and> (\<forall>i. var_perm (vars s i) AND VAR_RDONLY \<noteq> 0 \<longrightarrow> vars s' i = vars s i)"

text \<open>The copies into the entry have no bound: a name of 128 characters or a value of 1024 does not fit.\<close>

definition declare_overflows :: "nat \<Rightarrow> string \<Rightarrow> string \<Rightarrow> 'a kernel_scheme \<Rightarrow> bool" where
  "declare_overflows c n v s \<longleftrightarrow>
     (\<exists>i. var_slot c n True s = Some i \<and> var_perm (vars s i) AND VAR_RDONLY = 0) \<and> (128 \<le> length n \<or> 1024 \<le> length v)"

lemma strcpy_from_user_overflow:
  assumes "pmap_inv D base s" "cur_pgdir s \<in> D" "user_string s va str" "length dst \<le> length str"
  shows "strcpy_from_user dst va s = Undef"
  using assms
proof (induction dst arbitrary: str va s)
  case (Cons d dst)
  then obtain ch str' where str: "str = ch # str'" by (cases str) auto
  obtain b t where b: "user_get8 va s = Ret (b, s\<lparr>tlb := t\<rparr>)" "byte_char b = ch"
    using user_string_get8[OF Cons.prems(1-3)] str by auto
  have "ch \<noteq> NUL" using Cons.prems(3) str by (auto simp: user_string_def)
  then have "b \<noteq> 0" using b(2) byte_char_NUL[of b] by simp
  moreover have "strcpy_from_user dst (va + 1) (s\<lparr>tlb := t\<rparr>) = Undef"
    using Cons.IH[of "s\<lparr>tlb := t\<rparr>" "va + 1" str'] user_string_Cons[OF Cons.prems(3)[unfolded str]] Cons.prems(1,2,4) str by simp
  ultimately show ?case using b(1) by simp
qed simp

lemma declare_var_overflow:
  assumes inv: "kinv K s" and cur: "curenv s = Some c" and ok: "vars_ok s"
    and n: "user_string s varName n" and v: "user_string s va v" and over: "declare_overflows c n v s"
  shows "sys_declare_var varName va perm isGlobal s = Undef"
proof -
  obtain i where i: "var_slot c n True s = Some i" "var_perm (vars s i) AND VAR_RDONLY = 0" and long: "128 \<le> length n \<or> 1024 \<le> length v"
    using over by (auto simp: declare_overflows_def)
  have d: "cur_pgdir s \<in> dirs s" using kinvD(3)[OF inv] cur live_dirs by (auto simp: kcur_ok_def)
  note mem = kinvD(1)[OF inv]
  obtain t where c: "checkVar varName True s = Ret (var_slot c n True s, s\<lparr>tlb := t\<rparr>)" using checkVar_ok[OF inv cur ok n] by blast
  have len: "length (var_name (vars s i)) = 128" "length (var_value (vars s i)) = 1024"
    using ok var_slot_range[OF i(1)] by (simp_all add: vars_ok_def)
  have P: "pmap_inv (dirs s) (kbase K s) (s\<lparr>tlb := t\<rparr>)" "cur_pgdir (s\<lparr>tlb := t\<rparr>) \<in> dirs s" "user_string (s\<lparr>tlb := t\<rparr>) varName n"
    using mem d n by simp_all
  show ?thesis
  proof (cases "128 \<le> length n")
    case True
    then have "strcpy_from_user (var_name (vars s i)) varName (s\<lparr>tlb := t\<rparr>) = Undef"
      using strcpy_from_user_overflow[OF P] len(1) by simp
    then show ?thesis using c i by (simp add: sys_declare_var_def)
  next
    case False
    obtain w t1 where 1: "strcpy_from_user (var_name (vars s i)) varName (s\<lparr>tlb := t\<rparr>) = Ret (w, s\<lparr>tlb := t1\<rparr>)"
      using strcpy_from_user_ok[OF P, of "var_name (vars s i)"] False len by auto
    define s2 where "s2 = upd_var i (\<lambda>v. v\<lparr>var_name := w\<rparr>) (s\<lparr>tlb := t1\<rparr>)"
    have m2: "mem_of s2 = mem_of s" by (simp add: s2_def upd_var_def mem_of_def)
    have "pmap_inv (dirs s) (kbase K s) s2" "cur_pgdir s2 \<in> dirs s" "user_string s2 va v" "var_value (vars s2 i) = var_value (vars s i)"
      using mem d v user_string_cong[of s2 s] unfolding mem_of_eq(4)[OF m2] by (simp_all add: s2_def upd_var_def)
    then have "strcpy_from_user (var_value (vars s2 i)) va s2 = Undef"
      using strcpy_from_user_overflow[of "dirs s" "kbase K s" s2 va v] long False len(2) by simp
    then show ?thesis using c i 1 unfolding s2_def by (simp add: sys_declare_var_def Let_def)
  qed
qed

lemma declare_var_ok:
  assumes inv: "kinv K s" and cur: "curenv s = Some c" and ok: "vars_ok s"
    and n: "user_string s varName n" and v: "user_string s va v" and fits: "\<not> declare_overflows c n v s"
  shows "returns (\<lambda>(r, s'). vars_kept K s s' \<and>
      (case var_slot c n True s of
         None \<Rightarrow> r = Returns (- 1) \<and> vars s' = vars s
       | Some i \<Rightarrow>
           if var_perm (vars s i) AND VAR_RDONLY \<noteq> 0 then r = Returns (- 2) \<and> vars s' = vars s
           else r = Returns 0 \<and> (\<exists>x. vars s' = (vars s)(i := x) \<and> cstr (var_name x) = n \<and> cstr (var_value x) = v \<and> var_perm x = perm
              \<and> var_shellId x = (if isGlobal \<noteq> 0 then 0 else env_shellId (envs s c)))))
    (sys_declare_var varName va perm isGlobal s)"
proof -
  have d: "cur_pgdir s \<in> dirs s" using kinvD(3)[OF inv] cur live_dirs by (auto simp: kcur_ok_def)
  note mem = kinvD(1)[OF inv]
  obtain t where c: "checkVar varName True s = Ret (var_slot c n True s, s\<lparr>tlb := t\<rparr>)" using checkVar_ok[OF inv cur ok n] by blast
  have k: "vars_kept K s (s\<lparr>tlb := t\<rparr>)" using kinv_vars[OF inv, where t = t and v = "vars s"] ok by (simp add: vars_kept_def vars_ok_def)
  show ?thesis
  proof (cases "var_slot c n True s")
    case None
    then show ?thesis using c k by (simp add: sys_declare_var_def)
  next
    case (Some i)
    have i: "i < MAXVARNUM" by (rule var_slot_range[OF Some])
    show ?thesis
    proof (cases "var_perm (vars s i) AND VAR_RDONLY = 0")
      case False
      then show ?thesis using c k Some by (simp add: sys_declare_var_def)
    next
      case True
      have short: "length n < 128" "length v < 1024" using fits Some True by (auto simp: declare_overflows_def)
      have len: "length (var_name (vars s i)) = 128" "length (var_value (vars s i)) = 1024" using ok i by (simp_all add: vars_ok_def)
      let ?n = "n @ NUL # drop (Suc (length n)) (var_name (vars s i))" and ?v = "v @ NUL # drop (Suc (length v)) (var_value (vars s i))"
      obtain t1 where 1: "strcpy_from_user (var_name (vars s i)) varName (s\<lparr>tlb := t\<rparr>) = Ret (?n, s\<lparr>tlb := t1\<rparr>)"
        using strcpy_from_user_ok[of "dirs s" "kbase K s" "s\<lparr>tlb := t\<rparr>" varName n "var_name (vars s i)"] mem d n short len by auto
      define s2 where "s2 = upd_var i (\<lambda>v. v\<lparr>var_name := ?n\<rparr>) (s\<lparr>tlb := t1\<rparr>)"
      have m2: "mem_of s2 = mem_of s" by (simp add: s2_def upd_var_def mem_of_def)
      have f2: "pmap_inv (dirs s) (kbase K s) s2" "cur_pgdir s2 \<in> dirs s" "user_string s2 va v" "var_value (vars s2 i) = var_value (vars s i)"
        using mem d v user_string_cong[of s2 s] unfolding mem_of_eq(4)[OF m2] by (simp_all add: s2_def upd_var_def)
      obtain t2 where 2: "strcpy_from_user (var_value (vars s i)) va s2 = Ret (?v, s2\<lparr>tlb := t2\<rparr>)"
        using strcpy_from_user_ok[OF f2(1-3), of "var_value (vars s i)"] short(2) len(2) by auto
      define x where "x = (vars s i)\<lparr>var_name := ?n, var_value := ?v, var_perm := perm, var_shellId := (if isGlobal \<noteq> 0 then 0 else env_shellId (envs s c))\<rparr>"
      have run: "sys_declare_var varName va perm isGlobal s = Ret (Returns 0, s\<lparr>tlb := t2, vars := (vars s)(i := x)\<rparr>)"
        using c Some True 1 2 f2(4) cur unfolding s2_def
        by (simp add: sys_declare_var_def Let_def with_cur_def x_def upd_var_def)
      have nul: "NUL \<notin> set n" "NUL \<notin> set v" using n v by (simp_all add: user_string_def)
      have "vars_kept K s (s\<lparr>tlb := t2, vars := (vars s)(i := x)\<rparr>)"
        using kinv_vars[OF inv] ok len short True by (auto simp: vars_kept_def vars_ok_def x_def)
      then show ?thesis unfolding run using Some True nul by (auto simp: x_def)
    qed
  qed
qed

lemma unset_var_ok:
  assumes inv: "kinv K s" and cur: "curenv s = Some c" and ok: "vars_ok s" and n: "user_string s varName n"
  shows "returns (\<lambda>(r, s'). vars_kept K s s' \<and>
      (case var_slot c n False s of
         None \<Rightarrow> r = Returns (- 1) \<and> vars s' = vars s
       | Some i \<Rightarrow>
           if var_perm (vars s i) AND VAR_RDONLY \<noteq> 0 then r = Returns (- 2) \<and> vars s' = vars s
           else r = Returns 0 \<and> (\<exists>x. vars s' = (vars s)(i := x) \<and> cstr (var_name x) = [])))
    (sys_unset_var varName s)"
proof -
  obtain t where c: "checkVar varName False s = Ret (var_slot c n False s, s\<lparr>tlb := t\<rparr>)" using checkVar_ok[OF inv cur ok n] by blast
  have k: "vars_kept K s (s\<lparr>tlb := t\<rparr>)" using kinv_vars[OF inv, where t = t and v = "vars s"] ok by (simp add: vars_kept_def vars_ok_def)
  show ?thesis
  proof (cases "var_slot c n False s")
    case None
    then show ?thesis using c k by (simp add: sys_unset_var_def)
  next
    case (Some i)
    have i: "i < MAXVARNUM" by (rule var_slot_range[OF Some])
    show ?thesis
    proof (cases "var_perm (vars s i) AND VAR_RDONLY = 0")
      case False
      then show ?thesis using c k Some by (simp add: sys_unset_var_def)
    next
      case True
      have len: "length (var_name (vars s i)) = 128" using ok i by (simp add: vars_ok_def)
      let ?x = "(vars s i)\<lparr>var_name := (var_name (vars s i))[0 := NUL]\<rparr>"
      have run: "sys_unset_var varName s = Ret (Returns 0, s\<lparr>tlb := t, vars := (vars s)(i := ?x)\<rparr>)"
        using c Some True by (simp add: sys_unset_var_def upd_var_def)
      obtain b bs where b: "var_name (vars s i) = b # bs" using len by (cases "var_name (vars s i)") auto
      have "vars_kept K s (s\<lparr>tlb := t, vars := (vars s)(i := ?x)\<rparr>)"
        using kinv_vars[OF inv] ok True b len by (auto simp: vars_kept_def vars_ok_def)
      then show ?thesis unfolding run using Some True b by auto
    qed
  qed
qed

text \<open>
  C25. A read-only shell variable is never changed or removed.  Take a name and a value that lie as strings in mapped memory
  of the caller, and a well-formed table.  \<open>sys_declare_var\<close> finds the entry with the name that the caller's
  shell may see, or else the first empty one: it returns -1 if there is none, -2 without a change if the entry is read-only, and otherwise 0 with
  the entry, and no other, set to the name, the value, the permission and the shell.  \<open>sys_unset_var\<close> returns -1 if there
  is no such entry, -2 without a change if it is read-only, and otherwise empties its name and no other entry.  The table stays well
  formed and the kernel's invariant holds.  The copies are not bounded, though: a name of 128 characters or a value of
  1024 runs into the entries behind, which is undefined.  With any other arguments, too, a call that
  returns leaves the read-only entries as they are.
\<close>

theorem readonly_vars_protected:
  assumes "kinv K s" and "curenv s = Some c" and "vars_ok s" and "user_string s varName n" and "user_string s va v"
  shows "(if declare_overflows c n v s then sys_declare_var varName va perm isGlobal s = Undef
      else returns (\<lambda>(r, s'). vars_kept K s s' \<and>
        (case var_slot c n True s of
           None \<Rightarrow> r = Returns (- 1) \<and> vars s' = vars s
         | Some i \<Rightarrow>
             if var_perm (vars s i) AND VAR_RDONLY \<noteq> 0 then r = Returns (- 2) \<and> vars s' = vars s
             else r = Returns 0 \<and> (\<exists>x. vars s' = (vars s)(i := x) \<and> cstr (var_name x) = n \<and> cstr (var_value x) = v \<and> var_perm x = perm
                \<and> var_shellId x = (if isGlobal \<noteq> 0 then 0 else env_shellId (envs s c)))))
        (sys_declare_var varName va perm isGlobal s))
    \<and> returns (\<lambda>(r, s'). vars_kept K s s' \<and>
        (case var_slot c n False s of
           None \<Rightarrow> r = Returns (- 1) \<and> vars s' = vars s
         | Some i \<Rightarrow>
             if var_perm (vars s i) AND VAR_RDONLY \<noteq> 0 then r = Returns (- 2) \<and> vars s' = vars s
             else r = Returns 0 \<and> (\<exists>x. vars s' = (vars s)(i := x) \<and> cstr (var_name x) = [])))
        (sys_unset_var varName s)
    \<and> (\<forall>x y p g r s' i. (sys_declare_var x y p g s = Ret (r, s') \<or> sys_unset_var x s = Ret (r, s')) \<and> var_perm (vars s i) AND VAR_RDONLY \<noteq> 0
        \<longrightarrow> vars s' i = vars s i)"
proof -
  have "vars s' i = vars s i" if "sys_declare_var x y p g s = Ret (r, s') \<or> sys_unset_var x s = Ret (r, s')" "var_perm (vars s i) AND VAR_RDONLY \<noteq> 0"
    for x y p g r s' i
    using that declare_changes_one unset_changes_one by blast
  then show ?thesis using declare_var_overflow[OF assms] declare_var_ok[OF assms] unset_var_ok[OF assms(1-4)] by (intro conjI allI impI) (simp_all split: if_split, blast)
qed

section \<open>The statements at work on a small kernel\<close>

text \<open>
  The memory of environment 0 holds the strings \<open>"*"\<close> and, of the character 16, \<open>"^P"\<close>; the variable named \<open>"*"\<close> is read-only.
\<close>

definition demo_vars :: kernel where
  "demo_vars = demo_fork\<lparr>vars := (\<lambda>i. \<lparr>var_name = (if i = 0 then CHR ''*'' # replicate 127 NUL else replicate 128 NUL), var_value = replicate 1024 NUL,
         var_shellId = 0, var_perm = (if i = 0 then VAR_RDONLY else 0)\<rparr>)\<rparr>"

lemma demo_vars_kinv: "kinv demo_K demo_vars"
  by (rule kinv_frame[OF demo_fork_kinv]) (simp_all add: demo_vars_def kview_def mem_of_def)

lemma demo_vars_ok: "vars_ok demo_vars" "curenv demo_vars = Some 0"
  by (auto simp: vars_ok_def demo_vars_def demo_fork_same)

lemma demo_vars_string:
  assumes "va < UTOP" "va + 1 < UTOP" "vmap demo_fork 1 va = Some x" "vmap demo_fork 1 (va + 1) = Some y" "c \<noteq> NUL"
    and "byte_char (phys_get demo_fork (PPN x * 4096 + unat (va AND 0xFFF))) = c"
    and "byte_char (phys_get demo_fork (PPN y * 4096 + unat ((va + 1) AND 0xFFF))) = NUL"
  shows "user_string demo_vars va [c]"
proof -
  have f: "frames demo_vars = frames demo_fork" "cur_pgdir demo_vars = 1"
    by (simp_all add: demo_vars_def demo_fork_def demo_sys_simps)
  show ?thesis unfolding user_string_def using assms f vmap_frames[of demo_vars demo_fork]
    by (auto simp: phys_get_def le_Suc_eq)
qed

lemma demo_strings: "user_string demo_vars 0x400010 ''*''" "user_string demo_vars 0x7F3FFFF4 [CHR 0x10]"
proof -
  have v: "VPN (0x400010 :: u32) = 1024" "VPN (0x400010 + 1 :: u32) = 1024" "VPN (0x7F3FFFF4 :: u32) = 0x7F3FF" "VPN (0x7F3FFFF4 + 1 :: u32) = 0x7F3FF"
    by (simp_all add: PPN_def)
  show "user_string demo_vars 0x400010 ''*''"
    by (rule demo_vars_string[where x = "0x5201" and y = "0x5201"])
      (unfold demo_fork_vmap v, simp_all add: phys_get_def demo_PPN demo_fork_fields demo_frames_def byte_char_def char_of_def bit_Suc_0_iff)
  show "user_string demo_vars 0x7F3FFFF4 [CHR 0x10]"
    by (rule demo_vars_string[where x = "0x6600" and y = "0x6600"])
      (unfold demo_fork_vmap v, simp_all add: phys_get_def demo_PPN demo_fork_fields demo_frames_def byte_char_def char_of_def bit_Suc_0_iff)
qed

lemma demo_var_slots: "var_slot 0 ''*'' f demo_vars = Some 0" "var_slot 0 [CHR 0x10] True demo_vars = Some 1"
proof -
  have i: "[0..<MAXVARNUM] = 0 # 1 # [2..<MAXVARNUM]" using upt_conv_Cons[of 0 MAXVARNUM] upt_conv_Cons[of 1 MAXVARNUM] by (simp del: upt_rec_numeral add: numeral_2_eq_2)
  have n: "cstr (var_name (vars demo_vars j)) = (if j = 0 then ''*'' else [])" for j by (simp add: demo_vars_def cstr_def)
  have al: "isAllow 0 j demo_vars" for j by (simp add: isAllow_def demo_vars_def)
  show "var_slot 0 ''*'' f demo_vars = Some 0"
    unfolding var_slot_def i by (simp add: n al del: upt_rec_numeral)
  have "find (\<lambda>i. cstr (var_name (vars demo_vars i)) = [CHR 0x10] \<and> [CHR 0x10] \<noteq> [] \<and> isAllow 0 i demo_vars) [0..<MAXVARNUM] = None"
    unfolding find_None_iff n by (simp del: upt_rec_numeral)
  then show "var_slot 0 [CHR 0x10] True demo_vars = Some 1" unfolding var_slot_def using i by (simp only: option.case if_True) (simp add: n del: upt_rec_numeral)
qed

theorem readonly_vars_protected_witness:
  "returns (\<lambda>(r, s'). r = Returns (- 2) \<and> vars s' = vars demo_vars) (sys_declare_var 0x400010 0x7F3FFFF4 0 1 demo_vars) \<and>
   returns (\<lambda>(r, s'). r = Returns (- 2) \<and> vars s' = vars demo_vars) (sys_unset_var 0x400010 demo_vars) \<and>
   returns (\<lambda>(r, s'). r = Returns 0 \<and> cstr (var_name (vars s' 1)) = [CHR 0x10] \<and> cstr (var_value (vars s' 1)) = ''*'' \<and> vars s' 0 = vars demo_vars 0)
     (sys_declare_var 0x7F3FFFF4 0x400010 0 1 demo_vars)"
proof -
  note ok = demo_vars_kinv demo_vars_ok(2,1)
  have p: "var_perm (vars demo_vars 0) = VAR_RDONLY" "var_perm (vars demo_vars 1) = 0" by (simp_all add: demo_vars_def)
  have o1: "\<not> declare_overflows 0 ''*'' [CHR 0x10] demo_vars" "\<not> declare_overflows 0 [CHR 0x10] ''*'' demo_vars" by (simp_all add: declare_overflows_def)
  note a = readonly_vars_protected[OF ok demo_strings, of 0 1, unfolded demo_var_slots if_not_P[OF o1(1)]]
  note b = readonly_vars_protected[OF ok demo_strings(2,1), of 0 1, unfolded demo_var_slots if_not_P[OF o1(2)]]
  have 1: "returns (\<lambda>(r, s'). r = Returns (- 2) \<and> vars s' = vars demo_vars) (sys_declare_var 0x400010 0x7F3FFFF4 0 1 demo_vars)"
    by (rule returns_mono2[OF conjunct1[OF a]]) (use p in simp)
  have 2: "returns (\<lambda>(r, s'). r = Returns (- 2) \<and> vars s' = vars demo_vars) (sys_unset_var 0x400010 demo_vars)"
    by (rule returns_mono2[OF conjunct1[OF conjunct2[OF a]]]) (use p in simp)
  have 3: "returns (\<lambda>(r, s'). r = Returns 0 \<and> cstr (var_name (vars s' 1)) = [CHR 0x10] \<and> cstr (var_value (vars s' 1)) = ''*'' \<and> vars s' 0 = vars demo_vars 0)
     (sys_declare_var 0x7F3FFFF4 0x400010 0 1 demo_vars)"
    by (rule returns_mono2[OF conjunct1[OF b]]) (use p in auto)
  show ?thesis using 1 2 3 by blast
qed

end
