(* ===== verification/Spec2Isabelle.thy ===== *)
theory Spec2Isabelle
  imports Mos_Queue Mos_Pmap Mos_String Mos_Elf Mos_Env Mos_Loader Mos_Sched Mos_Trap Mos_Kernel Mos_Syscall Mos_Isolation Mos_Print Mos_FsProps Mos_FsInit Mos_Serv Mos_Fsipc Mos_History Mos_LineProps Mos_Pipe Mos_Fork Mos_Cow Mos_Usyscall Mos_Durable Mos_ShellProps Mos_FormatRead Mos_SpawnShare Mos_Ide Mos_Vars
begin

text \<open>
  A verification of MOS, a small operating system for MIPS (the repository's \<open>src/\<close>): an exokernel-style
  kernel with pages, environments and IPC, a file system server in user space, and a user library
  and shell on top of them.

  \<^bold>\<open>The program and how its parts interact.\<close>
  The kernel (\<open>kern/\<close>, \<open>lib/\<close>, \<open>include/\<close>) owns the physical pages and the page tables, the array of
  environments, the run queue, the ASIDs and the TLB; a timer interrupt calls \<open>schedule\<close>, a TLB miss calls
  \<open>do_tlb_refill\<close>, and a \<open>syscall\<close> instruction calls \<open>do_syscall\<close>, which dispatches to the handlers of
  \<open>syscall_all.c\<close>.  The user library (\<open>user/lib/\<close>) builds on the system calls: stubs, copy-on-write \<open>fork\<close>
  with its fault handler, file descriptors and pipes, and the IPC calls to the file system server (\<open>fs/\<close>).  The
  server keeps a block cache over the disk, implements files and directories in it, and shares one
  page per open file with its clients; the reference count of that page tells it whether the file is
  still open.  The shell (\<open>user/sh.c\<close>) reads lines with an editor that has a history and completion.

  \<^bold>\<open>Conventions.\<close>
  Machine integers are words of their width; \<open>u32\<close> is \<^typ>\<open>32 word\<close>.  A computation yields an \<open>outcome\<close>:
  \<open>Ret\<close> with a value, \<open>Panic\<close> when the code stops the system on purpose (\<open>panic\<close>, \<open>user_panic\<close>, a failed
  assertion), \<open>Undef\<close> when C leaves the behaviour open (a null pointer, an index out of range).  Functions
  that return an error code return \<open>Inl\<close> of it, and the result register \<open>$v0\<close> holds its negation.
  State is passed explicitly, as records that extend each other: memory (\<open>pmap_state\<close>), environments
  and queues (\<open>kstate\<close>), shell variables, console and devices (\<open>kernel\<close>).  A pointer to an object of an array is
  its index.

  \<^bold>\<open>Theories, sources and what is shown.\<close>
  \<^item> \<open>Mos_Prelude\<close>: error codes (\<open>include/error.h\<close>), layout constants and address macros (\<open>include/mmu.h\<close>,
    \<open>include/types.h\<close>), and the shared lemmas on words, addresses and outcomes.
  \<^item> \<open>Mos_Queue\<close>: \<open>include/queue.h\<close>.  The macros at the level of pointers, the lists they represent,
    and the locale \<open>run_queue\<close> that both levels satisfy; the kernel theories use the list level.  The three tail queue
    macros that nothing uses are left out.
  \<^item> \<open>Mos_Pmap\<close>: \<open>kern/pmap.c\<close>, \<open>include/pmap.h\<close>, \<open>tlb_out\<close> of \<open>kern/tlb_asm.S\<close>.  \<open>pmap_inv\<close> says that the
    reference count of every frame is the number of page table entries and other holders that refer to it, that the
    free list holds exactly the frames with count zero, and that no page table is mapped twice.  \<open>page_init\<close>
    establishes it; \<open>page_insert\<close>, \<open>page_remove\<close> and the others keep it, change exactly the
    translation they are asked to change, and leave no stale TLB entry.
  \<^item> \<open>Mos_String\<close>: \<open>lib/string.c\<close>.  The optimised block operations equal byte loops; the string functions
    are given by the strings they denote, with \<open>Undef\<close> for running off an array.
  \<^item> \<open>Mos_Elf\<close>, \<open>Mos_Loader\<close>: \<open>lib/elfloader.c\<close>, \<open>include/elf.h\<close>, and \<open>load_icode\<close> of \<open>kern/env.c\<close>.  The loader
    calls its client's page mapper; the locales \<open>page_mapper\<close> and \<open>budget_mapper\<close> are the contract, which
    the mappers of the kernel and of \<open>spawn\<close> satisfy, so a loaded segment has the bytes of the file.
  \<^item> \<open>Mos_Env\<close>, \<open>Mos_Sched\<close>, \<open>Mos_Kernel\<close>: \<open>kern/env.c\<close>, \<open>kern/sched.c\<close>, \<open>kern/env_asm.S\<close>.  Creation and
    destruction of environments and the scheduler; \<open>kinv\<close> ties memory, environments, ASIDs and queues
    together and every operation keeps it.  Round robin: each runnable environment gets its priority's number of slices.
  \<^item> \<open>Mos_Trap\<close>: \<open>kern/tlbex.c\<close>, \<open>kern/tlb_asm.S\<close>.  TLB refill with demand allocation, the modification
    fault that starts a user handler, and the kernel's accesses to user memory.
  \<^item> \<open>Mos_Syscall\<close>, \<open>Mos_Isolation\<close>, \<open>Mos_Vars\<close>: \<open>kern/syscall_all.c\<close>, \<open>kern/console.c\<close>.  All handlers and the
    dispatcher.  The handlers for memory, environments and messages keep \<open>kinv\<close> and touch only the caller and its children; where
    the code does not, as for a permission word with bits of a frame number or for a blocked environment that is destroyed, the theorem
    says so.  \<open>Mos_Vars\<close> has the shell variables, with the strings in user memory.
  \<^item> \<open>Mos_Usyscall\<close>: \<open>user/lib/syscall_lib.c\<close>, \<open>user/lib/syscall_wrap.S\<close>, \<open>include/syscall.h\<close>.  Each stub reaches its
    handler with its arguments.
  \<^item> \<open>Mos_Fork\<close>, \<open>Mos_Cow\<close>: \<open>user/lib/fork.c\<close> on the kernel model, from \<open>fork\<close> to the child's address space and
    from a write fault to the private copy.
  \<^item> \<open>Mos_Spawn\<close>, \<open>Mos_SpawnProps\<close>, \<open>Mos_SpawnShare\<close>: \<open>user/lib/spawn.c\<close>.  Starting a program, over the pair of the file
    model and the kernel model, which are two views of one process: the pages that files map into the parent do not
    appear in its page tables of the kernel model.  The child's stack holds its arguments, its segments the bytes of the
    file (\<open>spawn_mapper\<close> satisfies \<open>budget_mapper\<close>), and it inherits the shared pages.
  \<^item> \<open>Mos_Pipe\<close>: \<open>user/lib/pipe.c\<close> with \<open>close\<close> and \<open>dup\<close> of \<open>user/lib/fd.c\<close>, as a step relation over any
    number of environments.  A pipe is a stream, and the test for a closed pipe does not err, as long as the environments that share
    the pipe only read, write, close and duplicate; the mappings that \<open>fork\<close> and \<open>spawn\<close> make of a pipe are not steps of the model.
  \<^item> \<open>Mos_Print\<close>: \<open>lib/print.c\<close>, \<open>kern/printk.c\<close>, \<open>user/lib/debugf.c\<close>, \<open>user/lib/fprintf.c\<close>.  Numbers against
    a reference; the locale \<open>fmt_sink\<close> makes all output callbacks print the same text.
  \<^item> \<open>Mos_Fs\<close>, \<open>Mos_FsProps\<close>, \<open>Mos_FsInit\<close>: \<open>fs/fs.c\<close>, \<open>user/include/fs.h\<close>.  Block cache, bitmap, files,
    directories, paths; the bitmap implements a set of free blocks, path resolution a walk over the list of
    names, and start-up establishes the invariant.
  \<^item> \<open>Mos_Serv\<close>, \<open>Mos_Fsipc\<close>: \<open>fs/serv.c\<close>, \<open>user/lib/fsipc.c\<close>, \<open>user/lib/ipc.c\<close>, \<open>user/lib/pageref.c\<close>.  The table of
    open files and all requests; no request disturbs a file another client holds, and a client's call is
    the server's operation on the client's arguments.
  \<^item> \<open>Mos_Format\<close>, \<open>Mos_FormatProps\<close>, \<open>Mos_FormatRead\<close>: \<open>tools/fsformat.c\<close>.  The tool that builds the disk image, with an
    invariant that says which files an image under construction holds; the server, started on the finished image, opens and
    reads them.
  \<^item> \<open>Mos_Ide\<close>: \<open>fs/ide.c\<close>, with the calls by which the server reaches the device.  What \<open>Mos_Fs\<close> takes as the effect of
    \<open>ide_read\<close> and \<open>ide_write\<close> on a block is proved of every device with the documented registers.
  \<^item> \<open>Mos_File\<close>, \<open>Mos_FileProps\<close>, \<open>Mos_Durable\<close>: \<open>user/lib/fd.c\<close>, \<open>user/lib/file.c\<close>, \<open>user/lib/console.c\<close>, and \<open>pipe\<close> of
    \<open>user/lib/pipe.c\<close>, in one environment beside the server.  An open file is a byte sequence with a position, which
    \<open>dup\<close> shares, and \<open>close\<close> leaves the contents on the disk.
  \<^item> \<open>Mos_Shell\<close>, \<open>Mos_ShellProps\<close>: \<open>gettoken\<close>, \<open>parsecmd\<close> and \<open>runcmd\<close> of \<open>user/sh.c\<close>, \<open>user/lib/wait.c\<close>.  The interpreter is a tree of
    library calls, and the processes and programs of a line run as a step relation in which \<open>wait\<close> blocks; the in-place lexer
    delivers the tokens of a lexer on strings, and a pipeline starts its programs from right to left, one at a time, with
    their descriptors connected as written.
  \<^item> \<open>Mos_History\<close>, \<open>Mos_Line\<close>, \<open>Mos_LineProps\<close>: \<open>user/lib/history.c\<close> and \<open>readline\<close> of \<open>user/sh.c\<close>.  The history
    file implements a list with a cursor, and the terminal always shows the line that \<open>readline\<close> will return.

  \<^bold>\<open>Bounds and fuel.\<close>
  The refill loop of \<open>do_tlb_refill\<close> has fuel 2: one miss, one allocation, and the theorem shows that
  this is enough.  \<open>change_parents\<close> follows parent links with fuel \<open>NENV + 1\<close>, more than the number of environments.
  \<open>walk_path\<close> has fuel for the symbolic links it follows, as a cycle of links recurses for ever in the code.
  \<open>readline\<close> recurses on the characters still to be read, and the loops over the history file on its length.  \<open>parsecmd\<close> has a
  bound on the tokens it reads, and the pipeline theorem gives the number that is enough; that theorem also asks for a free environment for
  each command, and programs that end.  The history theorem is about fewer than 1024 commands of fewer than 1024 characters, the
  sizes of the arrays in the code.  Reference counts are
  16 bits wide, as in the code, and the theorems that add references assume that there is room.
  The pipe theorems are about fewer than \<open>2 ^ 32\<close> bytes, since the positions are compared as numbers.

  \<^bold>\<open>Parameters.\<close>
  The page mapper of the ELF loader and the output callback of \<open>vprintfmt\<close> are arguments, as they
  are in the code; \<open>ls\<close> stands for reading a directory in completion; \<open>junk\<close> is what a \<open>void\<close> handler leaves in
  the result register.  The disk device is a pair of functions, a store and a load, and \<open>disk_device\<close> is the hypothesis
  on its registers and its buffer; \<open>sample_disk_device\<close> shows a device that satisfies it.

  \<^bold>\<open>Not modelled.\<close>
  Boot and exception entry in assembly (\<open>init/start.S\<close>, \<open>kern/entry.S\<close>, \<open>kern/genex.S\<close>, \<open>kern/kclock.S\<close>,
  \<open>include/stackframe.h\<close>) and the register dumps of \<open>kern/panic.c\<close> and \<open>kern/traps.c\<close>: machine code and
  diagnostics below the level of the state records, which take a saved trap frame as given.  The self tests in
  \<open>kern/pmap.c\<close>, \<open>kern/env.c\<close> and under \<open>tests/\<close>, and the start-up code that only runs them.  \<open>libos.c\<close> of the user library, \<open>main\<close> of the shell, the small
  programs of \<open>user/\<close>, and the other host tools under \<open>tools/\<close> (\<open>bintoc.c\<close>, \<open>readelf\<close>): not yet covered.
\<close>

end
